(* ===== verification/Prelude.thy ===== *)
theory Prelude
  imports Complex_Main "HOL-Library.Word" "HOL-Library.List_Lexorder" "HOL-Library.Sublist"
begin

text \<open>
  Shared vocabulary of the development: the byte strings and JavaScript strings of the program,
  the result type of code that may throw or fail, the plumbing for such code (sequencing, loops over
  arrays), and the generic facts about lists and about the lexicographic order that several
  components use.
\<close>

named_theorems enc_simps \<open>evaluation of encoders on well-formed input\<close>
named_theorems store_simps \<open>reads of a key after a write to the key-value store\<close>

section \<open>Bytes and strings\<close>

text \<open>A \<open>Uint8Array\<close> is a list of 8-bit words; a JavaScript string is its list of UTF-16 code units.\<close>

type_synonym byte = "8 word"
type_synonym bytes = "byte list"
type_synonym js_string = "16 word list"

text \<open>A string literal of the source; the code units of ASCII characters are their codes.\<close>

definition js :: "string \<Rightarrow> js_string" where
  "js s = map of_char s"

text \<open>Decimal notation of a natural number, as template literals print it.\<close>

fun showNat :: "nat \<Rightarrow> string" where
  "showNat n = (if n < 10 then [char_of (48 + n)] else showNat (n div 10) @ [char_of (48 + n mod 10)])"

declare showNat.simps [simp del]

text \<open>
  A JavaScript number where the code tests \<open>Number.isInteger\<close> or \<open>Number.isFinite\<close>: a finite value,
  or one of NaN and the infinities.
\<close>

datatype js_number = Fin rat | NotFinite

section \<open>Results\<close>

text \<open>
  Code that throws or fails returns a sum: \<open>Inl\<close> the error, \<open>Inr\<close> the value. \<open>bindR\<close> is the
  sequencing of statements, \<open>mapR\<close> a loop that collects results and stops at the first error.
\<close>

definition bindR :: "'e + 'a \<Rightarrow> ('a \<Rightarrow> 'e + 'b) \<Rightarrow> 'e + 'b" where
  "bindR m f = (case m of Inl e \<Rightarrow> Inl e | Inr x \<Rightarrow> f x)"

lemma bindR_simps [simp]:
  "bindR (Inl e) f = Inl e"
  "bindR (Inr x) f = f x"
  by (simp_all add: bindR_def)

lemma bindR_eq_Inr: "bindR m f = Inr y \<longleftrightarrow> (\<exists>x. m = Inr x \<and> f x = Inr y)"
  by (cases m) auto

lemma bindR_Inl: "bindR m f = Inl e \<longleftrightarrow> m = Inl e \<or> (\<exists>x. m = Inr x \<and> f x = Inl e)"
  by (cases m) auto

lemma bindR_cong [fundef_cong]:
  "m = m' \<Longrightarrow> (\<And>x. m' = Inr x \<Longrightarrow> f x = g x) \<Longrightarrow> bindR m f = bindR m' g"
  by (cases m') auto

fun mapR :: "('a \<Rightarrow> 'e + 'b) \<Rightarrow> 'a list \<Rightarrow> 'e + 'b list" where
  "mapR f [] = Inr []"
| "mapR f (x # xs) = bindR (f x) (\<lambda>y. bindR (mapR f xs) (\<lambda>ys. Inr (y # ys)))"

lemma mapR_Inr: "(\<And>x. x \<in> set xs \<Longrightarrow> f x = Inr (g x)) \<Longrightarrow> mapR f xs = Inr (map g xs)"
  by (induction xs) auto

lemma mapR_length: "mapR f xs = Inr ys \<Longrightarrow> length ys = length xs"
  by (induction xs arbitrary: ys) (auto simp: bindR_eq_Inr)

text \<open>A loop that updates the state and stops at the first error.\<close>

fun foldR :: "('a \<Rightarrow> 's \<Rightarrow> 'e + 's) \<Rightarrow> 'a list \<Rightarrow> 's \<Rightarrow> 'e + 's" where
  "foldR f [] s = Inr s"
| "foldR f (x # xs) s = bindR (f x s) (foldR f xs)"

lemma foldR_append: "foldR f (xs @ ys) s = bindR (foldR f xs s) (foldR f ys)"
  by (induction xs arbitrary: s) (auto simp: bindR_def split: sum.splits)

lemma foldR_Inr: "(\<And>x s. x \<in> set xs \<Longrightarrow> f x s = Inr (g x s)) \<Longrightarrow> foldR f xs s = Inr (fold g xs s)"
  by (induction xs arbitrary: s) auto

lemma foldR_invariant:
  assumes "foldR f xs s = Inr s'" and "P s"
    and "\<And>x s s'. x \<in> set xs \<Longrightarrow> P s \<Longrightarrow> f x s = Inr s' \<Longrightarrow> P s'"
  shows "P s'"
  using assms
proof (induction xs arbitrary: s)
  case (Cons x xs)
  then obtain t where "f x s = Inr t" "foldR f xs t = Inr s'" by (auto simp: bindR_eq_Inr)
  then show ?case using Cons by (meson list.set_intros)
qed simp

lemma foldR_cong [fundef_cong]:
  "xs = ys \<Longrightarrow> s = t \<Longrightarrow> (\<And>x s. x \<in> set ys \<Longrightarrow> f x s = g x s) \<Longrightarrow> foldR f xs s = foldR g ys t"
proof (induction xs arbitrary: ys s t)
  case (Cons x xs)
  then show ?case by (auto intro!: bindR_cong)
qed simp

section \<open>Code that may fail or not return\<close>

text \<open>
  Loops that are not known to end return an option: \<open>None\<close> is a run that has not returned.
\<close>

definition bindO :: "('e + 'a) option \<Rightarrow> ('a \<Rightarrow> ('e + 'b) option) \<Rightarrow> ('e + 'b) option" where
  "bindO m f = Option.bind m (\<lambda>r. case r of Inl e \<Rightarrow> Some (Inl e) | Inr x \<Rightarrow> f x)"

lemma bindO_simps [simp]:
  "bindO None f = None"
  "bindO (Some (Inl e)) f = Some (Inl e)"
  "bindO (Some (Inr x)) f = f x"
  by (simp_all add: bindO_def)

lemma bindO_Inr: "bindO m f = Some (Inr y) \<longleftrightarrow> (\<exists>x. m = Some (Inr x) \<and> f x = Some (Inr y))"
proof (cases m)
  case (Some r)
  then show ?thesis by (cases r) simp_all
qed simp

lemma bindO_cong [fundef_cong]:
  "m = m' \<Longrightarrow> (\<And>x. m' = Some (Inr x) \<Longrightarrow> f x = g x) \<Longrightarrow> bindO m f = bindO m' g"
proof (cases m')
  case (Some r)
  then show "m = m' \<Longrightarrow> (\<And>x. m' = Some (Inr x) \<Longrightarrow> f x = g x) \<Longrightarrow> ?thesis" by (cases r) simp_all
qed simp

lemma bindO_mono [partial_function_mono]:
  assumes "monotone (fun_ord option_ord) option_ord f" and "\<And>y. monotone (fun_ord option_ord) option_ord (\<lambda>x. g x y)"
  shows "monotone (fun_ord option_ord) option_ord (\<lambda>x. bindO (f x) (g x))"
  unfolding bindO_def
proof (rule bind_mono [OF assms(1)])
  fix r :: "'c + 'd"
  show "monotone (fun_ord option_ord) option_ord (\<lambda>x. case r of Inl e \<Rightarrow> Some (Inl e) | Inr y \<Rightarrow> g x y)"
    using assms(2) by (cases r) (simp_all add: option.const_mono)
qed

text \<open>A loop over an array that updates the state.\<close>

fun foldO :: "('a \<Rightarrow> 's \<Rightarrow> ('e + 's) option) \<Rightarrow> 'a list \<Rightarrow> 's \<Rightarrow> ('e + 's) option" where
  "foldO f [] s = Some (Inr s)"
| "foldO f (x # xs) s = bindO (f x s) (foldO f xs)"

lemma foldO_mono [partial_function_mono]:
  assumes "\<And>x s. monotone (fun_ord option_ord) option_ord (\<lambda>F. f F x s)"
  shows "monotone (fun_ord option_ord) option_ord (\<lambda>F. foldO (f F) xs s)"
proof (induction xs arbitrary: s)
  case (Cons x xs)
  have "monotone (fun_ord option_ord) option_ord (\<lambda>F. bindO (f F x s) (\<lambda>t. foldO (f F) xs t))"
    by (rule bindO_mono [OF assms Cons])
  then show ?case by simp
qed (simp add: option.const_mono)

section \<open>Collections\<close>

text \<open>\<open>new Set(xs)\<close> iterates in the order of first insertion.\<close>

definition jsSet :: "'a list \<Rightarrow> 'a list" where
  "jsSet xs = rev (remdups (rev xs))"

lemma jsSet_props [simp]: "set (jsSet xs) = set xs" "distinct (jsSet xs)"
  by (simp_all add: jsSet_def)

section \<open>Lists and the lexicographic order\<close>

lemma append_less_append_same: "(xs @ ys < xs @ zs) = (ys < (zs :: 'a :: linorder list))"
  by (induction xs) auto

lemma append_le_append_same: "(xs @ ys \<le> xs @ zs) = (ys \<le> (zs :: 'a :: linorder list))"
  by (induction xs) auto

lemma append_less_append_eqlen:
  fixes xs ys :: "'a :: linorder list"
  assumes "length xs = length ys"
  shows "xs @ r < ys @ s \<longleftrightarrow> xs < ys \<or> xs = ys \<and> r < s"
  using assms by (induction xs ys rule: list_induct2) auto

lemma Nil_less_iff [simp]: "[] < ys \<longleftrightarrow> ys \<noteq> ([] :: 'a :: linorder list)"
  by (cases ys) auto

lemma less_append_same: "(xs < xs @ ys) = (ys \<noteq> ([] :: 'a :: linorder list))"
  by (induction xs) auto

lemma le_append_same: "(xs :: 'a :: linorder list) \<le> xs @ ys"
  by (induction xs) auto

lemma less_imp_append_less:
  fixes xs ys :: "'a :: linorder list"
  assumes "xs < ys" and "\<not> prefix xs ys"
  shows "xs @ r < ys"
  using assms
proof (induction xs arbitrary: ys)
  case Nil
  then show ?case by simp
next
  case (Cons x xs)
  then show ?case by (cases ys) auto
qed

lemma take_eq_prefix: "prefix p xs \<longleftrightarrow> take (length p) xs = p"
  by (metis append_eq_conv_conj prefix_def append_take_drop_id take_is_prefix)

lemma not_less_prefix:
  fixes xs ys :: "'a :: linorder list"
  shows "prefix xs ys \<Longrightarrow> xs \<le> ys"
  by (auto simp: prefix_def le_append_same)

lemma unat_byte: "unat (x :: byte) < 256"
  using unsigned_less [where ?'a = nat, of x] by simp

lemma word8_le_255: "(x :: byte) \<le> 255"
  using unat_byte [of x] by (simp add: word_le_nat_alt)

lemma word8_less_255: "(x :: byte) < 255 \<longleftrightarrow> x \<noteq> 255"
  using word8_le_255 [of x] by (auto simp: order_less_le)

lemma word8_pos: "(0 :: byte) < x \<longleftrightarrow> x \<noteq> 0"
  by (simp add: word_neq_0_conv)

lemma of_nat_less_byte:
  "m < 256 \<Longrightarrow> n < 256 \<Longrightarrow> (of_nat m :: byte) < of_nat n \<longleftrightarrow> m < n"
  by (simp add: word_less_nat_alt unat_of_nat)

lemma of_nat_eq_byte:
  "m < 256 \<Longrightarrow> n < 256 \<Longrightarrow> (of_nat m :: byte) = of_nat n \<longleftrightarrow> m = n"
  using of_nat_less_byte [of m n] of_nat_less_byte [of n m] by auto

section \<open>DataView integers\<close>

text \<open>
  \<open>natBE k v\<close> are the \<open>k\<close> bytes that \<open>setUint\<close> writes for \<open>v\<close> in big-endian order (little-endian is
  its reverse); \<open>beNat\<close> is the value that \<open>getUint\<close> reads.
\<close>

fun natBE :: "nat \<Rightarrow> nat \<Rightarrow> bytes" where
  "natBE 0 v = []"
| "natBE (Suc k) v = of_nat (v div 256 ^ k) # natBE k v"

definition beNat :: "bytes \<Rightarrow> nat" where
  "beNat bs = foldl (\<lambda>v b. v * 256 + unat b) 0 bs"

lemma length_natBE [simp]: "length (natBE k v) = k"
  by (induction k) auto

lemma foldl_be: "foldl (\<lambda>v b. v * 256 + unat (b :: byte)) a bs = a * 256 ^ length bs + beNat bs"
proof -
  have "foldl (\<lambda>v b. v * 256 + unat (b :: byte)) a bs
      = a * 256 ^ length bs + foldl (\<lambda>v b. v * 256 + unat b) 0 bs" for a
  proof (induction bs arbitrary: a)
    case (Cons b bs)
    show ?case
      using Cons [of "a * 256 + unat b"] Cons [of "unat b"] by (simp add: algebra_simps)
  qed simp
  then show ?thesis unfolding beNat_def .
qed

lemma beNat_simps [simp]:
  "beNat [] = 0"
  "beNat (b # bs) = unat b * 256 ^ length bs + beNat bs"
proof -
  show "beNat [] = 0" by (simp add: beNat_def)
  have "beNat (b # bs) = foldl (\<lambda>v b. v * 256 + unat b) (unat b) bs" by (simp add: beNat_def)
  also have "\<dots> = unat b * 256 ^ length bs + beNat bs" by (rule foldl_be)
  finally show "beNat (b # bs) = unat b * 256 ^ length bs + beNat bs" .
qed

lemma beNat_bound: "beNat bs < 256 ^ length bs"
proof (induction bs)
  case (Cons b bs)
  have "unat b * 256 ^ length bs \<le> 255 * 256 ^ length bs"
    using unat_byte [of b] by (intro mult_right_mono) auto
  then have "unat b * 256 ^ length bs + beNat bs < 255 * 256 ^ length bs + 256 ^ length bs"
    using Cons by (rule add_le_less_mono)
  then show ?case by simp
qed simp

lemma beNat_natBE_mod: "beNat (natBE k v) = v mod 256 ^ k"
proof (induction k)
  case (Suc k)
  have "v mod 256 ^ Suc k = v div 256 ^ k mod 256 * 256 ^ k + v mod 256 ^ k"
    by (simp add: mod_mult2_eq mult.commute [of 256])
  moreover have "unat (of_nat (v div 256 ^ k) :: byte) = v div 256 ^ k mod 256"
    by (simp add: unat_of_nat)
  ultimately show ?case using Suc by simp
qed simp

lemma beNat_natBE: "v < 256 ^ k \<Longrightarrow> beNat (natBE k v) = v"
  by (simp add: beNat_natBE_mod)

lemma beNat_less:
  "length xs = length ys \<Longrightarrow> beNat xs < beNat ys \<longleftrightarrow> xs < ys"
proof (induction xs ys rule: list_induct2)
  case (Cons x xs y ys)
  have bx: "beNat xs < 256 ^ length ys" and by': "beNat ys < 256 ^ length ys"
    using beNat_bound [of xs] beNat_bound [of ys] Cons.hyps by simp_all
  consider "unat x < unat y" | "unat y < unat x" | "x = y"
    by (metis linorder_neqE_nat word_unat_eq_iff)
  then show ?case
  proof cases
    case 1
    then have "(unat x + 1) * 256 ^ length ys \<le> unat y * 256 ^ length ys"
      by (intro mult_right_mono) auto
    with 1 bx Cons.hyps show ?thesis by (simp add: word_less_nat_alt)
  next
    case 2
    then have "(unat y + 1) * 256 ^ length ys \<le> unat x * 256 ^ length ys"
      by (intro mult_right_mono) auto
    with 2 by' Cons.hyps show ?thesis by (auto simp: word_less_nat_alt)
  next
    case 3
    with Cons show ?thesis by simp
  qed
qed simp

lemma beNat_inj: "length xs = length ys \<Longrightarrow> beNat xs = beNat ys \<Longrightarrow> xs = ys"
  by (metis beNat_less less_irrefl linorder_neqE)

lemma natBE_beNat: "natBE (length bs) (beNat bs) = bs"
  by (rule beNat_inj) (simp_all add: beNat_natBE beNat_bound)

lemma natBE_less: "u < 256 ^ k \<Longrightarrow> v < 256 ^ k \<Longrightarrow> natBE k u < natBE k v \<longleftrightarrow> u < v"
  by (metis beNat_less beNat_natBE length_natBE)

end
