(* ===== verification/Tuple_Bytes.thy ===== *)
theory Tuple_Bytes
  imports Prelude
begin

text \<open>
  Byte-string operations: \<open>concatBytes\<close> and \<open>compareBytes\<close> of src/src/tuple/bytes.ts, and
  \<open>equalBytes\<close>, \<open>startsWith\<close>, \<open>strinc\<close> and the path comparisons of src/src/directory/internal.ts.
  The unsigned comparison is shown to be the lexicographic order, and \<open>strinc\<close> to give the exact
  upper end of the key range of a prefix.
\<close>

section \<open>tuple/bytes.ts\<close>

text \<open>The parts are copied one after another into an array of the summed length.\<close>

definition concatBytes :: "bytes list \<Rightarrow> bytes" where
  "concatBytes parts = foldl (\<lambda>output part. output @ part) [] parts"

lemma concatBytes_concat [simp]: "concatBytes parts = concat parts"
proof -
  have "foldl (\<lambda>output part. output @ part) acc parts = acc @ concat parts" for acc
    by (induction parts arbitrary: acc) auto
  then show ?thesis by (simp add: concatBytes_def)
qed

text \<open>The loop over the common indices returns at the first difference; then the lengths decide.\<close>

definition compareBytes :: "bytes \<Rightarrow> bytes \<Rightarrow> int" where
  "compareBytes left right =
    (case find (\<lambda>index. left ! index \<noteq> right ! index) [0..<min (length left) (length right)] of
      Some index \<Rightarrow> if left ! index < right ! index then - 1 else 1
    | None \<Rightarrow> if length left = length right then 0
              else if length left < length right then - 1 else 1)"

lemma find_upt_Suc:
  "find P [0..<Suc n] = (if P 0 then Some 0 else map_option Suc (find (\<lambda>i. P (Suc i)) [0..<n]))"
proof -
  have "find P (map Suc is) = map_option Suc (find (\<lambda>i. P (Suc i)) is)" for "is"
    by (induction "is") auto
  moreover have "[0..<Suc n] = 0 # map Suc [0..<n]"
    by (simp add: upt_conv_Cons map_Suc_upt del: upt_Suc)
  ultimately show ?thesis by simp
qed

lemma compareBytes_simps [simp]:
  "compareBytes [] [] = 0"
  "compareBytes [] (y # ys) = - 1"
  "compareBytes (x # xs) [] = 1"
  "compareBytes (x # xs) (y # ys) =
     (if x = y then compareBytes xs ys else if x < y then - 1 else 1)"
  by (auto simp: compareBytes_def find_upt_Suc split: option.splits simp del: upt_Suc)

lemma compareBytes_cases:
  "compareBytes l r = (if l < r then - 1 else if l = r then 0 else 1)"
proof (induction l arbitrary: r)
  case Nil
  then show ?case by (cases r) auto
next
  case (Cons x xs)
  then show ?case by (cases r) auto
qed

section \<open>directory/internal.ts\<close>

definition equalBytes :: "bytes \<Rightarrow> bytes \<Rightarrow> bool" where
  "equalBytes left right \<longleftrightarrow>
     length left = length right \<and> (\<forall>index\<in>set [0..<length left]. left ! index = right ! index)"

lemma equalBytes_eq [simp]: "equalBytes left right \<longleftrightarrow> left = right"
  by (auto simp: equalBytes_def intro: nth_equalityI)

definition startsWith :: "bytes \<Rightarrow> bytes \<Rightarrow> bool" where
  "startsWith v p \<longleftrightarrow>
     \<not> length v < length p \<and> (\<forall>index\<in>set [0..<length p]. v ! index = p ! index)"

lemma startsWith_prefix [simp]: "startsWith v p \<longleftrightarrow> prefix p v"
proof
  assume "startsWith v p"
  then have "take (length p) v = p"
    by (auto simp: startsWith_def intro!: nth_equalityI)
  then show "prefix p v" by (simp add: take_eq_prefix)
next
  assume "prefix p v"
  then show "startsWith v p"
    by (auto simp: startsWith_def prefix_def nth_append)
qed

text \<open>Directory paths are arrays of names.\<close>

definition pathStartsWith :: "js_string list \<Rightarrow> js_string list \<Rightarrow> bool" where
  "pathStartsWith v p \<longleftrightarrow>
     length v \<ge> length p \<and> (\<forall>index\<in>set [0..<length p]. v ! index = p ! index)"

definition pathsEqual :: "js_string list \<Rightarrow> js_string list \<Rightarrow> bool" where
  "pathsEqual left right \<longleftrightarrow>
     length left = length right \<and> (\<forall>index\<in>set [0..<length left]. left ! index = right ! index)"

lemma pathStartsWith_prefix [simp]: "pathStartsWith v p \<longleftrightarrow> prefix p v"
proof
  assume "pathStartsWith v p"
  then have "take (length p) v = p"
    by (auto simp: pathStartsWith_def intro!: nth_equalityI)
  then show "prefix p v" by (metis prefix_def append_take_drop_id)
next
  assume "prefix p v"
  then show "pathStartsWith v p"
    by (auto simp: pathStartsWith_def prefix_def nth_append)
qed

lemma pathsEqual_eq [simp]: "pathsEqual left right \<longleftrightarrow> left = right"
  by (auto simp: pathsEqual_def intro: nth_equalityI)

text \<open>
  \<open>strinc\<close>: the loop walks \<open>index\<close> down from the last byte while it sees \<open>0xff\<close>; here \<open>index\<close> is one
  more than in the source, so that 0 is the source's \<open>index < 0\<close>.
\<close>

fun strincIndex :: "bytes \<Rightarrow> nat \<Rightarrow> nat" where
  "strincIndex out 0 = 0"
| "strincIndex out (Suc index) = (if out ! index = 0xFF then strincIndex out index else Suc index)"

definition strinc :: "bytes \<Rightarrow> bytes" where
  "strinc key =
    (let index = strincIndex key (length key) in
     if index = 0 then [] else take index (key[index - 1 := key ! (index - 1) + 1]))"

lemma strincIndex_snoc_FF:
  "strincIndex (xs @ [0xFF]) (length xs) = strincIndex xs (length xs)"
proof -
  have "i \<le> length xs \<Longrightarrow> strincIndex (xs @ [0xFF]) i = strincIndex xs i" for i
    by (induction i) (auto simp: nth_append)
  then show ?thesis by simp
qed

lemma strincIndex_le: "strincIndex xs i \<le> i"
  by (induction i) auto

lemma strinc_Nil [simp]: "strinc [] = []"
  by (simp add: strinc_def)

lemma strinc_snoc:
  "strinc (xs @ [x]) = (if x = 0xFF then strinc xs else xs @ [x + 1])"
proof (cases "x = 0xFF")
  case True
  have "strincIndex xs (length xs) \<le> length xs" by (rule strincIndex_le)
  with True show ?thesis
    by (auto simp: strinc_def Let_def strincIndex_snoc_FF nth_append list_update_append1)
next
  case False
  then show ?thesis by (simp add: strinc_def Let_def list_update_append)
qed

lemma strinc_eq_Nil: "strinc key = [] \<longleftrightarrow> (\<forall>b\<in>set key. b = 0xFF)"
  by (induction key rule: rev_induct) (auto simp: strinc_snoc)

lemma append_byte_range:
  fixes x :: byte
  assumes "x \<noteq> 0xFF"
  shows "prefix (xs @ [x]) k \<longleftrightarrow> xs @ [x] \<le> k \<and> k < xs @ [x + 1]"
  using assms
proof (induction xs arbitrary: k)
  case Nil
  have "unat (x + 1) = unat x + 1"
    using Nil word8_less_255 [of x] unat_byte [of x]
    by (simp add: word_less_nat_alt unat_word_ariths)
  then have up: "y < x + 1 \<longleftrightarrow> y \<le> x" for y
    by (auto simp: word_less_nat_alt word_le_nat_alt)
  show ?case
  proof (cases k)
    case (Cons y ys)
    show ?thesis using Nil up [of y] by (auto simp: Cons)
  qed auto
next
  case (Cons a xs)
  show ?case
  proof (cases k)
    case Nil
    then show ?thesis by simp
  next
    case k: (Cons b k')
    have "prefix (xs @ [x]) k' \<longleftrightarrow> xs @ [x] \<le> k' \<and> k' < xs @ [x + 1]"
      using Cons by blast
    then show ?thesis
      by (cases "a = b"; cases "a < b") (simp_all add: k order.asym)
  qed
qed

text \<open>Every key with the prefix, and no other, lies between the prefix and its \<open>strinc\<close>.\<close>

lemma prefix_iff_strinc_range:
  assumes "strinc p \<noteq> []"
  shows "prefix p k \<longleftrightarrow> p \<le> k \<and> k < strinc p"
  using assms
proof (induction p rule: rev_induct)
  case Nil
  then show ?case by simp
next
  case (snoc x xs)
  show ?case
  proof (cases "x = 0xFF")
    case False
    then show ?thesis by (simp add: strinc_snoc append_byte_range)
  next
    case True
    with snoc have ne: "strinc xs \<noteq> []" by (simp add: strinc_snoc)
    note IH = snoc.IH [OF ne]
    have "prefix (xs @ [0xFF]) k \<longleftrightarrow> xs @ [0xFF] \<le> k \<and> prefix xs k" for k
    proof
      assume "prefix (xs @ [0xFF]) k"
      then show "xs @ [0xFF] \<le> k \<and> prefix xs k"
        by (auto simp: not_less_prefix dest: append_prefixD)
    next
      assume a: "xs @ [0xFF] \<le> k \<and> prefix xs k"
      then obtain r where k: "k = xs @ r" by (auto simp: prefix_def)
      with a have "[0xFF] \<le> r" by (simp add: append_le_append_same)
      then obtain b r' where r: "r = b # r'" and "0xFF \<le> b"
        by (cases r) (auto simp: list_le_def)
      moreover have "b \<le> 0xFF" by (rule word8_le_255)
      ultimately have "r = 0xFF # r'" by simp
      with k show "prefix (xs @ [0xFF]) k" by simp
    qed
    moreover have "xs @ [0xFF] \<le> k \<Longrightarrow> xs \<le> k" for k :: bytes
      by (meson le_append_same order.trans)
    ultimately show ?thesis using True IH by (auto simp: strinc_snoc)
  qed
qed

end
