(* ===== verification/Js_Text.thy ===== *)
theory Js_Text
  imports Prelude
begin

text \<open>
  The two text conversions of the JavaScript runtime that the code calls: \<open>TextEncoder.encode\<close>
  (UTF-16 code units to UTF-8 bytes, a lone surrogate becoming U+FFFD) and \<open>TextDecoder.decode\<close>
  with \<open>fatal\<close> and \<open>ignoreBOM\<close> set (UTF-8 bytes to UTF-16, malformed input being an error). They go
  through the list of Unicode scalar values. Proved: decoding inverts encoding on strings without
  lone surrogates, and the byte order of UTF-8 is the order of the scalar values.
\<close>

section \<open>Surrogates\<close>

definition isHigh :: "16 word \<Rightarrow> bool" where
  "isHigh code \<longleftrightarrow> 0xD800 \<le> code \<and> code \<le> 0xDBFF"

definition isLow :: "16 word \<Rightarrow> bool" where
  "isLow code \<longleftrightarrow> 0xDC00 \<le> code \<and> code \<le> 0xDFFF"

text \<open>The scalar values of a string; a lone surrogate counts as the replacement character.\<close>

fun scalars :: "js_string \<Rightarrow> nat list" where
  "scalars [] = []"
| "scalars [c] = [if isHigh c \<or> isLow c then 0xFFFD else unat c]"
| "scalars (c # d # cs) =
     (if isHigh c then
        (if isLow d then (0x10000 + (unat c - 0xD800) * 0x400 + (unat d - 0xDC00)) # scalars cs
         else 0xFFFD # scalars (d # cs))
      else if isLow c then 0xFFFD # scalars (d # cs)
      else unat c # scalars (d # cs))"

definition units :: "nat \<Rightarrow> js_string" where
  "units v = (if v < 0x10000 then [of_nat v]
    else [of_nat (0xD800 + (v - 0x10000) div 0x400), of_nat (0xDC00 + (v - 0x10000) mod 0x400)])"

fun wellFormed :: "js_string \<Rightarrow> bool" where
  "wellFormed [] = True"
| "wellFormed [c] = (\<not> isHigh c \<and> \<not> isLow c)"
| "wellFormed (c # d # cs) =
     (if isHigh c then isLow d \<and> wellFormed cs else \<not> isLow c \<and> wellFormed (d # cs))"

definition scalar :: "nat \<Rightarrow> bool" where
  "scalar v \<longleftrightarrow> v < 0xD800 \<or> 0xE000 \<le> v \<and> v < 0x110000"

section \<open>UTF-8\<close>

definition utf8_bytes :: "nat \<Rightarrow> nat list" where
  "utf8_bytes v =
    (if v < 0x80 then [v]
     else if v < 0x800 then [0xC0 + v div 0x40, 0x80 + v mod 0x40]
     else if v < 0x10000 then
       [0xE0 + v div 0x1000, 0x80 + v div 0x40 mod 0x40, 0x80 + v mod 0x40]
     else
       [0xF0 + v div 0x40000, 0x80 + v div 0x1000 mod 0x40, 0x80 + v div 0x40 mod 0x40,
        0x80 + v mod 0x40])"

definition text_encode :: "js_string \<Rightarrow> bytes" where
  "text_encode s = map of_nat (concat (map utf8_bytes (scalars s)))"

definition cont :: "nat \<Rightarrow> bool" where
  "cont b \<longleftrightarrow> 0x80 \<le> b \<and> b < 0xC0"

text \<open>
  The strict decoder: overlong forms, encoded surrogates, values past U+10FFFF and truncated or
  unexpected continuation bytes are errors.
\<close>

fun utf8_scalars :: "nat list \<Rightarrow> nat list option" where
  "utf8_scalars [] = Some []"
| "utf8_scalars (a # r) =
    (if a < 0x80 then map_option (Cons a) (utf8_scalars r)
     else (case r of
       [] \<Rightarrow> None
     | b # r2 \<Rightarrow>
         if \<not> cont b then None
         else if 0xC2 \<le> a \<and> a < 0xE0 then
           map_option (Cons ((a - 0xC0) * 0x40 + (b - 0x80))) (utf8_scalars r2)
         else (case r2 of
           [] \<Rightarrow> None
         | c # r3 \<Rightarrow>
             if \<not> cont c then None
             else if 0xE0 \<le> a \<and> a < 0xF0 then
               (let v = (a - 0xE0) * 0x1000 + (b - 0x80) * 0x40 + (c - 0x80) in
                if v < 0x800 \<or> 0xD800 \<le> v \<and> v < 0xE000 then None
                else map_option (Cons v) (utf8_scalars r3))
             else (case r3 of
               [] \<Rightarrow> None
             | d # r4 \<Rightarrow>
                 if \<not> cont d \<or> \<not> (0xF0 \<le> a \<and> a < 0xF5) then None
                 else
                   (let v = (a - 0xF0) * 0x40000 + (b - 0x80) * 0x1000 + (c - 0x80) * 0x40
                            + (d - 0x80) in
                    if v < 0x10000 \<or> 0x110000 \<le> v then None
                    else map_option (Cons v) (utf8_scalars r4))))))"

definition text_decode :: "bytes \<Rightarrow> js_string option" where
  "text_decode bs = map_option (\<lambda>vs. concat (map units vs)) (utf8_scalars (map unat bs))"

section \<open>Round trip\<close>

lemma unat_u16: "unat (x :: 16 word) < 65536"
  using unsigned_less [where ?'a = nat, of x] by simp

lemma isHigh_unat: "isHigh c \<longleftrightarrow> 0xD800 \<le> unat c \<and> unat c \<le> 0xDBFF"
  by (simp add: isHigh_def word_le_nat_alt)

lemma isLow_unat: "isLow c \<longleftrightarrow> 0xDC00 \<le> unat c \<and> unat c \<le> 0xDFFF"
  by (simp add: isLow_def word_le_nat_alt)

lemma scalars_scalar: "v \<in> set (scalars s) \<Longrightarrow> scalar v"
proof (induction s rule: scalars.induct)
  case (2 c)
  then show ?case using unat_u16 [of c]
    by (auto simp: scalar_def isHigh_unat isLow_unat split: if_splits)
next
  case (3 c d cs)
  then show ?case using unat_u16 [of c]
    by (auto simp: scalar_def isHigh_unat isLow_unat split: if_splits)
qed simp

lemma units_scalars: "wellFormed s \<Longrightarrow> concat (map units (scalars s)) = s"
proof (induction s rule: scalars.induct)
  case (2 c)
  then show ?case using unat_u16 [of c] by (simp add: units_def)
next
  case (3 c d cs)
  show ?case
  proof (cases "isHigh c")
    case True
    with "3.prems" have low: "isLow d" and wf: "wellFormed cs" by auto
    let ?u = "unat c - 0xD800" and ?l = "unat d - 0xDC00"
    have l: "?l < 0x400" using low by (auto simp: isLow_unat)
    have "units (0x10000 + ?u * 0x400 + ?l) = [of_nat (0xD800 + ?u), of_nat (0xDC00 + ?l)]"
      using l by (simp add: units_def)
    also have "\<dots> = [c, d]"
      using True low by (simp add: isHigh_unat isLow_unat)
    finally have "units (0x10000 + ?u * 0x400 + ?l) = [c, d]" .
    moreover have "scalars (c # d # cs) = (0x10000 + ?u * 0x400 + ?l) # scalars cs"
      using True low by simp
    moreover have "concat (map units (scalars cs)) = cs"
      using 3(1) True low wf by blast
    ultimately show ?thesis by simp
  next
    case False
    with 3 show ?thesis using unat_u16 [of c] by (auto simp: units_def)
  qed
qed simp

lemma utf8_scalars_of:
  assumes "scalar v"
  shows "utf8_scalars (utf8_bytes v @ r) = map_option (Cons v) (utf8_scalars r)"
proof -
  have e1: "v div 0x1000 = v div 0x40 div 0x40" and e2: "v div 0x40000 = v div 0x40 div 0x40 div 0x40"
    by (simp_all add: div_mult2_eq [symmetric])
  have dm: "w div 0x40 * 0x40 + w mod 0x40 = w" for w :: nat by (rule div_mult_mod_eq)
  consider "v < 0x80" | "0x80 \<le> v" "v < 0x800" | "0x800 \<le> v" "v < 0x10000"
    | "0x10000 \<le> v" "v < 0x110000"
    using assms by (force simp: scalar_def)
  then show ?thesis
  proof cases
    case 1
    then show ?thesis by (simp add: utf8_bytes_def)
  next
    case 2
    define q m where "q = v div 0x40" and "m = v mod 0x40"
    have "q < 0x20" "2 \<le> q" "m < 0x40" using 2 by (auto simp: q_def m_def)
    moreover have "v = q * 0x40 + m" by (simp add: q_def m_def)
    moreover have "utf8_bytes v = [0xC0 + q, 0x80 + m]"
      using 2 by (simp add: utf8_bytes_def q_def m_def)
    ultimately show ?thesis by (simp add: cont_def)
  next
    case 3
    define p q m where "p = v div 0x1000" and "q = v div 0x40 mod 0x40" and "m = v mod 0x40"
    have "p < 0x10" "q < 0x40" "m < 0x40" using 3 by (auto simp: p_def q_def m_def)
    moreover have "v = p * 0x1000 + q * 0x40 + m"
      unfolding p_def q_def m_def e1 using dm [of "v div 0x40"] dm [of v] by linarith
    moreover have "\<not> (0xD800 \<le> v \<and> v < 0xE000)" using assms by (auto simp: scalar_def)
    moreover have "utf8_bytes v = [0xE0 + p, 0x80 + q, 0x80 + m]"
      using 3 by (simp add: utf8_bytes_def p_def q_def m_def)
    ultimately show ?thesis using 3 by (auto simp: cont_def Let_def)
  next
    case 4
    define n p q m where "n = v div 0x40000" and "p = v div 0x1000 mod 0x40"
      and "q = v div 0x40 mod 0x40" and "m = v mod 0x40"
    have "n < 5" "p < 0x40" "q < 0x40" "m < 0x40"
      using 4 by (auto simp: n_def p_def q_def m_def)
    moreover have "v = n * 0x40000 + p * 0x1000 + q * 0x40 + m"
      unfolding n_def p_def q_def m_def e1 e2
      using dm [of "v div 0x40 div 0x40"] dm [of "v div 0x40"] dm [of v] by linarith
    moreover have "utf8_bytes v = [0xF0 + n, 0x80 + p, 0x80 + q, 0x80 + m]"
      using 4 by (simp add: utf8_bytes_def n_def p_def q_def m_def)
    ultimately show ?thesis using 4 by (simp add: cont_def Let_def)
  qed
qed

lemma utf8_scalars_concat:
  "(\<And>v. v \<in> set vs \<Longrightarrow> scalar v) \<Longrightarrow> utf8_scalars (concat (map utf8_bytes vs)) = Some vs"
  by (induction vs) (simp_all add: utf8_scalars_of)

lemma utf8_bytes_bound: "v < 0x110000 \<Longrightarrow> b \<in> set (utf8_bytes v) \<Longrightarrow> b < 256"
  by (auto simp: utf8_bytes_def less_mult_imp_div_less split: if_splits)

lemma scalars_bound: "v \<in> set (scalars s) \<Longrightarrow> v < 0x110000"
  by (auto dest!: scalars_scalar simp: scalar_def)

lemma text_bytes_bound: "b \<in> set (concat (map utf8_bytes (scalars s))) \<Longrightarrow> b < 256"
  using utf8_bytes_bound scalars_bound by fastforce

lemma map_unat_of_nat: "(\<And>b. b \<in> set bs \<Longrightarrow> b < 256) \<Longrightarrow> map unat (map of_nat bs :: bytes) = bs"
  by (induction bs) (auto simp: unat_of_nat)

lemma text_decode_encode:
  assumes "wellFormed s"
  shows "text_decode (text_encode s) = Some s"
  using utf8_scalars_concat [of "scalars s"] scalars_scalar units_scalars [OF assms]
    map_unat_of_nat [OF text_bytes_bound]
  by (simp only: text_decode_def text_encode_def option.map)

section \<open>Order\<close>

lemma map_of_nat_less:
  assumes "\<And>b. b \<in> set xs \<union> set ys \<Longrightarrow> b < 256"
  shows "(map of_nat xs :: bytes) < map of_nat ys \<longleftrightarrow> xs < ys"
  using assms
proof (induction xs arbitrary: ys)
  case Nil
  then show ?case by (cases ys) auto
next
  case (Cons x xs)
  then show ?case by (cases ys) (auto simp: of_nat_less_byte of_nat_eq_byte)
qed

lemma div_mod_less:
  fixes x y n :: nat
  assumes "x < y"
  shows "x div n < y div n \<or> x div n = y div n \<and> x mod n < y mod n"
proof (cases "x div n = y div n")
  case True
  have "x div n * n + x mod n < y div n * n + y mod n"
    using assms by (simp only: div_mult_mod_eq)
  then have "x mod n < y mod n" by (simp only: True add_less_cancel_left)
  with True show ?thesis by simp
next
  case False
  with assms show ?thesis by (simp add: div_le_mono le_neq_implies_less less_imp_le)
qed

lemma utf8_bytes_less:
  assumes "u < v"
  shows "utf8_bytes u @ r < utf8_bytes v @ s"
proof -
  have e: "x div 0x1000 = x div 0x40 div 0x40" "x div 0x40000 = x div 0x40 div 0x40 div 0x40"
    for x :: nat by (simp_all add: div_mult2_eq [symmetric])
  have d: "x < 0x800 \<Longrightarrow> x div 0x40 < 0x20" "x < 0x10000 \<Longrightarrow> x div 0x1000 < 0x10"
    for x :: nat by auto
  have q1: "u div 0x40 < v div 0x40 \<or> u div 0x40 = v div 0x40 \<and> u mod 0x40 < v mod 0x40"
    using div_mod_less [OF assms] .
  have q2: "u div 0x40 < v div 0x40 \<Longrightarrow> u div 0x1000 < v div 0x1000
      \<or> u div 0x1000 = v div 0x1000 \<and> u div 0x40 mod 0x40 < v div 0x40 mod 0x40"
    unfolding e by (rule div_mod_less)
  have q3: "u div 0x1000 < v div 0x1000 \<Longrightarrow> u div 0x40000 < v div 0x40000
      \<or> u div 0x40000 = v div 0x40000 \<and> u div 0x1000 mod 0x40 < v div 0x1000 mod 0x40"
    unfolding e by (rule div_mod_less)
  have q1': "u div 0x40 = v div 0x40 \<Longrightarrow> u div 0x1000 = v div 0x1000"
    and q2': "u div 0x1000 = v div 0x1000 \<Longrightarrow> u div 0x40000 = v div 0x40000"
    by (simp_all only: e)
  have b1: "utf8_bytes x = [x]" if "x < 0x80" for x
    using that by (simp add: utf8_bytes_def)
  have b2: "utf8_bytes x = [0xC0 + x div 0x40, 0x80 + x mod 0x40]" if "0x80 \<le> x" "x < 0x800" for x
    using that by (simp add: utf8_bytes_def)
  have b3: "utf8_bytes x = [0xE0 + x div 0x1000, 0x80 + x div 0x40 mod 0x40, 0x80 + x mod 0x40]"
    if "0x800 \<le> x" "x < 0x10000" for x using that by (simp add: utf8_bytes_def)
  have b4: "utf8_bytes x = [0xF0 + x div 0x40000, 0x80 + x div 0x1000 mod 0x40,
      0x80 + x div 0x40 mod 0x40, 0x80 + x mod 0x40]" if "0x10000 \<le> x" for x
    using that by (simp add: utf8_bytes_def)
  consider "v < 0x80" | "u < 0x80" "0x80 \<le> v" | "0x80 \<le> u" "v < 0x800"
    | "0x80 \<le> u" "u < 0x800" "0x800 \<le> v" | "0x800 \<le> u" "v < 0x10000"
    | "0x800 \<le> u" "u < 0x10000" "0x10000 \<le> v" | "0x10000 \<le> u"
    using assms by linarith
  then show ?thesis
  proof cases
    case 1
    with assms show ?thesis by (simp add: b1)
  next
    case 2
    then show ?thesis by (cases "v < 0x800"; cases "v < 0x10000") (simp_all add: b1 b2 b3 b4)
  next
    case 3
    with assms q1 show ?thesis by (auto simp: b2)
  next
    case 4
    with d(1) [of u] show ?thesis by (cases "v < 0x10000") (simp_all add: b2 b3 b4)
  next
    case 5
    with assms q1 q2 q1' show ?thesis by (auto simp: b3)
  next
    case 6
    with d(2) [of u] show ?thesis by (simp add: b3 b4)
  next
    case 7
    with assms q1 q2 q3 q1' q2' show ?thesis by (auto simp: b4)
  qed
qed

lemma utf8_less_iff:
  "concat (map utf8_bytes us) < concat (map utf8_bytes vs) \<longleftrightarrow> us < vs"
proof (induction us arbitrary: vs)
  case Nil
  then show ?case by (cases vs) (auto simp: utf8_bytes_def)
next
  case (Cons u us)
  show ?case
  proof (cases vs)
    case (Cons v vs')
    consider "u < v" | "v < u" | "u = v" by linarith
    then show ?thesis
    proof cases
      case 1
      then show ?thesis by (simp add: Cons utf8_bytes_less)
    next
      case 2
      then have "concat (map utf8_bytes vs) < concat (map utf8_bytes (u # us))"
        by (simp add: Cons utf8_bytes_less)
      then have "\<not> concat (map utf8_bytes (u # us)) < concat (map utf8_bytes vs)"
        by (rule less_not_sym)
      with 2 show ?thesis by (simp add: Cons)
    next
      case 3
      then show ?thesis by (simp add: Cons Cons.IH append_less_append_same)
    qed
  qed simp
qed

lemma text_encode_less: "text_encode s < text_encode t \<longleftrightarrow> scalars s < scalars t"
proof -
  have "b < 256" if "b \<in> set (concat (map utf8_bytes (scalars s)))
      \<union> set (concat (map utf8_bytes (scalars t)))" for b
    using that text_bytes_bound by blast
  then show ?thesis by (simp only: text_encode_def map_of_nat_less utf8_less_iff)
qed

lemma text_encode_inj:
  assumes "wellFormed s" and "wellFormed t" and "text_encode s = text_encode t"
  shows "s = t"
  using text_decode_encode [OF assms(1)] text_decode_encode [OF assms(2)] assms(3)
  by (metis option.inject)

end
