(* ===== verification/Tuple_Values.thy ===== *)
theory Tuple_Values
  imports Tuple_Bytes Js_Text
begin

text \<open>
  The tuple value types of src/src/tuple/values.ts: \<open>TupleError\<close>, \<open>Float32\<close>, \<open>Uuid\<close> and
  \<open>Versionstamp\<close> with their validating constructors and accessors, and \<open>TupleValue\<close>. A JavaScript
  number is its binary64 bit pattern (what \<open>DataView.setFloat64\<close> writes); \<open>Float32\<close> holds its bits.
\<close>

unbundle bit_operations_syntax

section \<open>TupleError\<close>

datatype tuple_operation = Pack | Unpack

text \<open>
  The reason of an error is its message; the messages of the parser end in the byte offset, kept as
  a number.
\<close>

datatype tuple_error = TupleError tuple_operation string "nat option"

definition tupleError :: "tuple_operation \<Rightarrow> string \<Rightarrow> tuple_error" where
  "tupleError operation reason = TupleError operation reason None"

definition validatedBytes :: "bytes \<Rightarrow> nat \<Rightarrow> string \<Rightarrow> tuple_error + bytes" where
  "validatedBytes v len description =
    (if length v = len then Inr v
     else Inl (tupleError Pack (description @ '' must contain exactly '' @ showNat len @ '' bytes'')))"

section \<open>Float32\<close>

datatype float32 = Float32 (bits: "32 word")

definition isInteger :: "js_number \<Rightarrow> bool" where
  "isInteger n = (case n of Fin q \<Rightarrow> snd (quotient_of q) = 1 | NotFinite \<Rightarrow> False)"

definition toInt :: "js_number \<Rightarrow> int" where
  "toInt n = (case n of Fin q \<Rightarrow> \<lfloor>q\<rfloor> | NotFinite \<Rightarrow> 0)"

definition numIn :: "js_number \<Rightarrow> int \<Rightarrow> int \<Rightarrow> bool" where
  "numIn n lo hi = (case n of Fin q \<Rightarrow> of_int lo \<le> q \<and> q \<le> of_int hi | NotFinite \<Rightarrow> False)"

definition float32_fromBits :: "js_number \<Rightarrow> tuple_error + float32" where
  "float32_fromBits n =
    (if isInteger n \<and> numIn n 0 0xFFFFFFFF then Inr (Float32 (of_int (toInt n)))
     else Inl (tupleError Pack ''float32 bits must be an unsigned integer''))"

definition float32_fromBitsUnsafe :: "32 word \<Rightarrow> float32" where
  "float32_fromBitsUnsafe b = Float32 b"

section \<open>Uuid\<close>

datatype uuid = Uuid (uuid_bytes: bytes)

definition uuid_fromBytes :: "bytes \<Rightarrow> tuple_error + uuid" where
  "uuid_fromBytes bs = bindR (validatedBytes bs 16 ''UUID'') (\<lambda>v. Inr (Uuid v))"

definition uuid_fromBytesUnsafe :: "bytes \<Rightarrow> uuid" where
  "uuid_fromBytesUnsafe bs = Uuid bs"

text \<open>Hexadecimal digits: \<open>Number.parseInt(_, 16)\<close> and \<open>toString(16)\<close> on one digit.\<close>

definition hexValue :: "16 word \<Rightarrow> nat option" where
  "hexValue c =
    (if 48 \<le> c \<and> c \<le> 57 then Some (unat c - 48)
     else if 97 \<le> c \<and> c \<le> 102 then Some (unat c - 87)
     else if 65 \<le> c \<and> c \<le> 70 then Some (unat c - 55)
     else None)"

definition isHex :: "16 word \<Rightarrow> bool" where
  "isHex c \<longleftrightarrow> hexValue c \<noteq> None"

definition hexDigit :: "nat \<Rightarrow> 16 word" where
  "hexDigit n = (if n < 10 then of_nat (48 + n) else of_nat (87 + n))"

definition hyphen :: "16 word" where
  "hyphen = 45"

text \<open>The regular expression: 32 hexadecimal digits, or groups of 8, 4, 4, 4 and 12 with hyphens.\<close>

definition uuidPattern :: "js_string \<Rightarrow> bool" where
  "uuidPattern s \<longleftrightarrow>
     length s = 32 \<and> list_all isHex s
   \<or> length s = 36
     \<and> (\<forall>i\<in>set [0..<36]. if i \<in> {8, 13, 18, 23} then s ! i = hyphen else isHex (s ! i))"

fun hexPairs :: "js_string \<Rightarrow> bytes" where
  "hexPairs (a # b # s) =
     of_nat (the (hexValue a) * 16 + the (hexValue b)) # hexPairs s"
| "hexPairs s = []"

definition uuid_fromString :: "js_string \<Rightarrow> tuple_error + uuid" where
  "uuid_fromString s =
    (if \<not> uuidPattern s then
       Inl (tupleError Pack ''UUID must use 32 hexadecimal digits with optional canonical hyphens'')
     else Inr (Uuid (hexPairs (filter (\<lambda>c. c \<noteq> hyphen) s))))"

definition hexByte :: "byte \<Rightarrow> js_string" where
  "hexByte b = [hexDigit (unat b div 16), hexDigit (unat b mod 16)]"

definition uuid_toString :: "uuid \<Rightarrow> js_string" where
  "uuid_toString u =
    (let hex = concat (map hexByte (uuid_bytes u)) in
     take 8 hex @ [hyphen] @ take 4 (drop 8 hex) @ [hyphen] @ take 4 (drop 12 hex) @ [hyphen]
       @ take 4 (drop 16 hex) @ [hyphen] @ drop 20 hex)"

section \<open>Versionstamp\<close>

datatype versionstamp = Versionstamp (stamp_bytes: bytes)

definition versionstamp_fromBytes :: "bytes \<Rightarrow> tuple_error + versionstamp" where
  "versionstamp_fromBytes bs =
    bindR (validatedBytes bs 12 ''versionstamp'') (\<lambda>v. Inr (Versionstamp v))"

definition versionstamp_fromBytesUnsafe :: "bytes \<Rightarrow> versionstamp" where
  "versionstamp_fromBytesUnsafe bs = Versionstamp bs"

text \<open>\<open>setUint16\<close> and \<open>getUint16\<close>, big endian.\<close>

definition uint16BE :: "nat \<Rightarrow> bytes" where
  "uint16BE n = [of_nat (n div 256), of_nat (n mod 256)]"

definition getUint16BE :: "bytes \<Rightarrow> nat" where
  "getUint16BE bs = unat (bs ! 0) * 256 + unat (bs ! 1)"

definition versionstamp_complete :: "bytes \<Rightarrow> js_number \<Rightarrow> tuple_error + versionstamp" where
  "versionstamp_complete transactionVersion userVersion =
    bindR (validatedBytes transactionVersion 10 ''transaction version'') (\<lambda>transaction.
      if \<not> isInteger userVersion \<or> \<not> numIn userVersion 0 0xFFFF then
        Inl (tupleError Pack ''versionstamp user version must be an unsigned 16-bit integer'')
      else Inr (Versionstamp (transaction @ uint16BE (nat (toInt userVersion)))))"

definition versionstamp_incomplete :: "js_number \<Rightarrow> tuple_error + versionstamp" where
  "versionstamp_incomplete userVersion = versionstamp_complete (replicate 10 0xFF) userVersion"

definition transactionVersion :: "versionstamp \<Rightarrow> bytes" where
  "transactionVersion s = take 10 (stamp_bytes s)"

definition userVersion :: "versionstamp \<Rightarrow> nat" where
  "userVersion s = getUint16BE (drop 10 (stamp_bytes s))"

definition isComplete :: "versionstamp \<Rightarrow> bool" where
  "isComplete s \<longleftrightarrow> (\<exists>b\<in>set (take 10 (stamp_bytes s)). b \<noteq> 0xFF)"

section \<open>TupleValue\<close>

text \<open>
  \<open>Unsupported\<close> stands for every other JavaScript value (the run-time type check of the packer
  rejects it); its argument is what \<open>Object.prototype.toString\<close> prints.
\<close>

datatype tuple_value =
    Null
  | Bool bool
  | Bytes bytes
  | Str js_string
  | BigInt int
  | Number "64 word"
  | Float float32
  | UuidV uuid
  | Stamp versionstamp
  | Nested "tuple_value list"
  | Unsupported string

type_synonym tuple = "tuple_value list"

text \<open>
  What the private constructors guarantee: a UUID holds 16 bytes and a versionstamp 12.
\<close>

fun constructed :: "tuple_value \<Rightarrow> bool" where
  "constructed (UuidV u) = (length (uuid_bytes u) = 16)"
| "constructed (Stamp s) = (length (stamp_bytes s) = 12)"
| "constructed (Nested ts) = list_all constructed ts"
| "constructed _ = True"

section \<open>Lemmas\<close>

lemma isInteger_of_int [simp]: "isInteger (Fin (of_int n))"
  by (simp add: isInteger_def quotient_of_int [unfolded Rat.of_int_def])

lemma toInt_of_int [simp]: "toInt (Fin (of_int n)) = n"
  by (simp add: toInt_def)

lemma numIn_of_int [simp]: "numIn (Fin (of_int n)) lo hi \<longleftrightarrow> lo \<le> n \<and> n \<le> hi"
  by (simp add: numIn_def)

lemma validatedBytes_Inr [simp]: "validatedBytes v len d = Inr w \<longleftrightarrow> w = v \<and> length v = len"
  by (auto simp: validatedBytes_def)

lemma getUint16BE_uint16BE [simp]: "n < 65536 \<Longrightarrow> getUint16BE (uint16BE n) = n"
  by (simp add: getUint16BE_def uint16BE_def unat_of_nat)

lemma length_uint16BE [simp]: "length (uint16BE n) = 2"
  by (simp add: uint16BE_def)

lemma versionstamp_complete_int:
  assumes "length tv = 10" and "n < 65536"
  shows "versionstamp_complete tv (Fin (of_nat n)) = Inr (Versionstamp (tv @ uint16BE n))"
proof -
  have "Fin (of_nat n) = Fin (of_int (int n))" by simp
  then show ?thesis using assms
    by (simp only: versionstamp_complete_def isInteger_of_int numIn_of_int toInt_of_int)
      (simp add: validatedBytes_def)
qed

lemma versionstamp_fields:
  assumes "length tv = 10" and "n < 65536"
  shows "transactionVersion (Versionstamp (tv @ uint16BE n)) = tv"
    and "userVersion (Versionstamp (tv @ uint16BE n)) = n"
  using assms by (simp_all add: transactionVersion_def userVersion_def)

lemma hexValue_hexDigit: "n < 16 \<Longrightarrow> hexValue (hexDigit n) = Some n"
proof -
  assume "n < 16"
  then have "unat (hexDigit n) = (if n < 10 then 48 + n else 87 + n)"
    by (simp add: hexDigit_def unat_of_nat del: of_nat_add)
  then show ?thesis using \<open>n < 16\<close> by (auto simp: hexValue_def word_le_nat_alt)
qed

lemma hexDigit_not_hyphen: "n < 16 \<Longrightarrow> hexDigit n \<noteq> hyphen"
  using hexValue_hexDigit [of n] by (auto simp: hexValue_def hyphen_def)

lemma hexByte_digits: "c \<in> set (hexByte b) \<Longrightarrow> isHex c \<and> c \<noteq> hyphen"
  using unat_byte [of b]
  by (auto simp: hexByte_def isHex_def hexValue_hexDigit hexDigit_not_hyphen less_mult_imp_div_less)

lemma hexPairs_hexByte: "hexPairs (concat (map hexByte bs)) = bs"
proof (induction bs)
  case (Cons b bs)
  have "unat b div 16 < 16" using unat_byte [of b] by simp
  moreover have "unat b div 16 * 16 + unat b mod 16 = unat b" by (rule div_mult_mod_eq)
  ultimately show ?case
    using Cons by (simp add: hexByte_def hexValue_hexDigit del: of_nat_add of_nat_mult)
qed simp

lemma length_hex: "length (concat (map hexByte bs)) = 2 * length bs"
  by (induction bs) (auto simp: hexByte_def)

lemma uuid_string_pattern:
  assumes "length hex = 32" and "list_all isHex hex"
  shows "uuidPattern (take 8 hex @ [hyphen] @ take 4 (drop 8 hex) @ [hyphen] @ take 4 (drop 12 hex)
    @ [hyphen] @ take 4 (drop 16 hex) @ [hyphen] @ drop 20 hex)"
proof -
  have "isHex (hex ! i)" if "i < 32" for i
    using assms that by (simp add: list_all_length)
  then have "\<forall>i\<in>set [0..<36]. if i \<in> {8, 13, 18, 23}
      then (take 8 hex @ [hyphen] @ take 4 (drop 8 hex) @ [hyphen] @ take 4 (drop 12 hex)
        @ [hyphen] @ take 4 (drop 16 hex) @ [hyphen] @ drop 20 hex) ! i = hyphen
      else isHex ((take 8 hex @ [hyphen] @ take 4 (drop 8 hex) @ [hyphen] @ take 4 (drop 12 hex)
        @ [hyphen] @ take 4 (drop 16 hex) @ [hyphen] @ drop 20 hex) ! i)"
    using assms(1) by (auto simp: nth_append nth_Cons split: nat.splits)
  moreover have "length (take 8 hex @ [hyphen] @ take 4 (drop 8 hex) @ [hyphen]
      @ take 4 (drop 12 hex) @ [hyphen] @ take 4 (drop 16 hex) @ [hyphen] @ drop 20 hex) = 36"
    using assms(1) by simp
  ultimately show ?thesis unfolding uuidPattern_def by blast
qed

lemma uuid_string_filter:
  assumes "length hex = 32" and "\<And>c. c \<in> set hex \<Longrightarrow> c \<noteq> hyphen"
  shows "filter (\<lambda>c. c \<noteq> hyphen) (take 8 hex @ [hyphen] @ take 4 (drop 8 hex) @ [hyphen]
    @ take 4 (drop 12 hex) @ [hyphen] @ take 4 (drop 16 hex) @ [hyphen] @ drop 20 hex) = hex"
proof -
  have keep: "filter (\<lambda>c. c \<noteq> hyphen) xs = xs" if "set xs \<subseteq> set hex" for xs
    using that assms(2) by (intro filter_True) blast
  have "hex = take 8 hex @ take 4 (drop 8 hex) @ take 4 (drop 12 hex) @ take 4 (drop 16 hex)
      @ drop 20 hex"
    using append_take_drop_id [of 8 hex] append_take_drop_id [of 4 "drop 8 hex"]
      append_take_drop_id [of 4 "drop 12 hex"] append_take_drop_id [of 4 "drop 16 hex"]
    by (simp del: append_take_drop_id)
  moreover have "set (take n (drop m hex)) \<subseteq> set hex" for n m
    by (meson order.trans set_drop_subset set_take_subset)
  ultimately show ?thesis
    by (simp add: keep set_drop_subset set_take_subset)
qed

end
