(* ===== verification/Tuple_Codec.thy ===== *)
theory Tuple_Codec
  imports Tuple_Values
begin

text \<open>
  The tuple codec, src/src/tuple/codec.ts: the packer (\<open>appendValue\<close> and the functions it calls, which
  append to the output array and record the offsets of incomplete versionstamps), the versionstamp
  trailer, and the recursive-descent parser (the class \<open>Parser\<close>, whose state is the rest of the
  input; the total length is kept for the offsets in error messages).
\<close>

unbundle bit_operations_syntax

section \<open>Type codes\<close>

abbreviation NIL :: byte where "NIL \<equiv> 0x00"
abbreviation BYTES :: byte where "BYTES \<equiv> 0x01"
abbreviation STRING :: byte where "STRING \<equiv> 0x02"
abbreviation NESTED :: byte where "NESTED \<equiv> 0x05"
abbreviation NEGATIVE_BIG_INTEGER :: byte where "NEGATIVE_BIG_INTEGER \<equiv> 0x0b"
abbreviation INTEGER_ZERO :: byte where "INTEGER_ZERO \<equiv> 0x14"
abbreviation POSITIVE_BIG_INTEGER :: byte where "POSITIVE_BIG_INTEGER \<equiv> 0x1d"
abbreviation FLOAT :: byte where "FLOAT \<equiv> 0x20"
abbreviation DOUBLE :: byte where "DOUBLE \<equiv> 0x21"
abbreviation FALSE :: byte where "FALSE \<equiv> 0x26"
abbreviation TRUE :: byte where "TRUE \<equiv> 0x27"
abbreviation UUID :: byte where "UUID \<equiv> 0x30"
abbreviation VERSIONSTAMP :: byte where "VERSIONSTAMP \<equiv> 0x33"
abbreviation ESCAPE :: byte where "ESCAPE \<equiv> 0xff"
abbreviation MAX_SMALL_INTEGER_BYTES :: nat where "MAX_SMALL_INTEGER_BYTES \<equiv> 8"
abbreviation MAX_BIG_INTEGER_BYTES :: nat where "MAX_BIG_INTEGER_BYTES \<equiv> 255"

section \<open>Packing\<close>

fun appendEscapedLoop :: "bytes \<Rightarrow> bytes \<Rightarrow> bytes" where
  "appendEscapedLoop out [] = out"
| "appendEscapedLoop out (b # v) =
     appendEscapedLoop (if b = NIL then out @ [b, ESCAPE] else out @ [b]) v"

definition appendEscaped :: "bytes \<Rightarrow> bytes \<Rightarrow> bytes" where
  "appendEscaped out v = appendEscapedLoop out v @ [NIL]"

definition surrogateError :: tuple_error where
  "surrogateError = tupleError Pack ''string contains an unpaired UTF-16 surrogate''"

fun assertWellFormedString :: "js_string \<Rightarrow> tuple_error + unit" where
  "assertWellFormedString [] = Inr ()"
| "assertWellFormedString (code # v) =
    (if 0xd800 \<le> code \<and> code \<le> 0xdbff then
       (case v of [] \<Rightarrow> Inl surrogateError
        | nxt # v' \<Rightarrow> if nxt < 0xdc00 \<or> 0xdfff < nxt then Inl surrogateError
                     else assertWellFormedString v')
     else if 0xdc00 \<le> code \<and> code \<le> 0xdfff then Inl surrogateError
     else assertWellFormedString v)"

text \<open>The loop pushes the low byte and shifts by 8 until the value is 0.\<close>

fun magnitudeLoop :: "nat \<Rightarrow> bytes" where
  "magnitudeLoop remaining =
    (if remaining = 0 then [] else of_nat (remaining mod 256) # magnitudeLoop (remaining div 256))"

declare magnitudeLoop.simps [simp del]

definition magnitudeBytes :: "nat \<Rightarrow> bytes" where
  "magnitudeBytes v = rev (magnitudeLoop v)"

definition appendInteger :: "bytes \<Rightarrow> int \<Rightarrow> tuple_error + bytes" where
  "appendInteger out v =
    (if v = 0 then Inr (out @ [INTEGER_ZERO])
     else
       let negative = v < 0;
           bs = magnitudeBytes (nat (if negative then - v else v)) in
       if length bs > MAX_BIG_INTEGER_BYTES then
         Inl (tupleError Pack ''integer magnitude requires more than 255 bytes'')
       else
         let out = (if length bs \<le> MAX_SMALL_INTEGER_BYTES then
               out @ [INTEGER_ZERO + (if negative then - of_nat (length bs) else of_nat (length bs))]
             else
               out @ [if negative then NEGATIVE_BIG_INTEGER else POSITIVE_BIG_INTEGER,
                      if negative then of_nat (length bs) XOR 0xff else of_nat (length bs)]) in
         Inr (out @ (if negative then map (\<lambda>b. b XOR 0xff) bs else bs)))"

definition appendOrderedFloat :: "bytes \<Rightarrow> byte \<Rightarrow> bytes \<Rightarrow> bytes" where
  "appendOrderedFloat out code encoded =
    (let encoded = (if encoded ! 0 AND 0x80 \<noteq> 0 then map (\<lambda>b. b XOR 0xff) encoded
                    else encoded[0 := encoded ! 0 XOR 0x80]) in
     out @ [code] @ encoded)"

definition appendFloat :: "bytes \<Rightarrow> float32 \<Rightarrow> bytes" where
  "appendFloat out v = appendOrderedFloat out FLOAT (natBE 4 (unat (bits v)))"

definition appendDouble :: "bytes \<Rightarrow> 64 word \<Rightarrow> bytes" where
  "appendDouble out v = appendOrderedFloat out DOUBLE (natBE 8 (unat v))"

text \<open>
  \<open>appendValue\<close> extends the output and the list of versionstamp offsets; \<open>appendValues\<close> is the loop
  over the elements, of a nested tuple or of the tuple at the top.
\<close>

fun appendValue ::
    "bytes \<Rightarrow> tuple_value \<Rightarrow> bool \<Rightarrow> nat list \<Rightarrow> tuple_error + bytes \<times> nat list"
and appendValues ::
    "bytes \<Rightarrow> tuple_value list \<Rightarrow> bool \<Rightarrow> nat list \<Rightarrow> tuple_error + bytes \<times> nat list" where
  "appendValue out Null nested stamps =
     Inr (if nested then out @ [NIL, ESCAPE] else out @ [NIL], stamps)"
| "appendValue out (Bytes v) nested stamps = Inr (appendEscaped (out @ [BYTES]) v, stamps)"
| "appendValue out (Str v) nested stamps =
     bindR (assertWellFormedString v) (\<lambda>_.
       Inr (appendEscaped (out @ [STRING]) (text_encode v), stamps))"
| "appendValue out (BigInt v) nested stamps =
     bindR (appendInteger out v) (\<lambda>out. Inr (out, stamps))"
| "appendValue out (Float v) nested stamps = Inr (appendFloat out v, stamps)"
| "appendValue out (Number v) nested stamps = Inr (appendDouble out v, stamps)"
| "appendValue out (Bool v) nested stamps = Inr (out @ [if v then TRUE else FALSE], stamps)"
| "appendValue out (UuidV v) nested stamps = Inr (out @ [UUID] @ uuid_bytes v, stamps)"
| "appendValue out (Stamp v) nested stamps =
     (let out = out @ [VERSIONSTAMP];
          stamps = (if \<not> isComplete v then stamps @ [length out] else stamps) in
      Inr (out @ stamp_bytes v, stamps))"
| "appendValue out (Nested v) nested stamps =
     bindR (appendValues (out @ [NESTED]) v True stamps) (\<lambda>(out, stamps).
       Inr (out @ [NIL], stamps))"
| "appendValue out (Unsupported name) nested stamps =
     Inl (tupleError Pack (''unsupported tuple value: '' @ name))"
| "appendValues out [] nested stamps = Inr (out, stamps)"
| "appendValues out (v # vs) nested stamps =
     bindR (appendValue out v nested stamps) (\<lambda>(out, stamps). appendValues out vs nested stamps)"

record packed_tuple =
  packed_bytes :: bytes
  incompleteVersionstamps :: "nat list"

definition packTrackedSync :: "tuple \<Rightarrow> tuple_error + packed_tuple" where
  "packTrackedSync t =
    bindR (appendValues [] t False []) (\<lambda>(out, stamps).
      Inr \<lparr>packed_bytes = out, incompleteVersionstamps = stamps\<rparr>)"

definition pack :: "tuple \<Rightarrow> tuple_error + bytes" where
  "pack t = bindR (packTrackedSync t) (\<lambda>p. Inr (packed_bytes p))"

definition appendVersionstampOffset :: "packed_tuple \<Rightarrow> tuple_error + bytes" where
  "appendVersionstampOffset p =
    (case incompleteVersionstamps p of
       [] \<Rightarrow> Inr (packed_bytes p)
     | offset # others \<Rightarrow>
         if others \<noteq> [] then
           Inl (tupleError Pack ''tuple contains multiple incomplete versionstamps'')
         else if offset > 0xffffffff then
           Inl (tupleError Pack ''versionstamp offset exceeds 32 bits'')
         else Inr (concatBytes [packed_bytes p, rev (natBE 4 offset)]))"

definition packWithVersionstamp :: "tuple \<Rightarrow> tuple_error + bytes" where
  "packWithVersionstamp t = bindR (packTrackedSync t) appendVersionstampOffset"

definition compare :: "tuple \<Rightarrow> tuple \<Rightarrow> tuple_error + int" where
  "compare left right =
    bindR (pack left) (\<lambda>leftBytes. bindR (pack right) (\<lambda>rightBytes.
      Inr (compareBytes leftBytes rightBytes)))"

section \<open>Unpacking\<close>

type_synonym 'a parsed = "tuple_error + 'a \<times> bytes"

definition failAt :: "nat \<Rightarrow> string \<Rightarrow> bytes \<Rightarrow> tuple_error + 'a" where
  "failAt byteLength reason rest = Inl (TupleError Unpack reason (Some (byteLength - length rest)))"

definition readByte :: "nat \<Rightarrow> bytes \<Rightarrow> byte parsed" where
  "readByte byteLength rest =
    (case rest of [] \<Rightarrow> failAt byteLength ''truncated tuple'' rest | b # rest' \<Rightarrow> Inr (b, rest'))"

definition read :: "nat \<Rightarrow> nat \<Rightarrow> bytes \<Rightarrow> bytes parsed" where
  "read byteLength len rest =
    (if len > length rest then failAt byteLength ''truncated tuple'' rest
     else Inr (take len rest, drop len rest))"

fun readEscaped :: "nat \<Rightarrow> bytes \<Rightarrow> bytes \<Rightarrow> bytes parsed" where
  "readEscaped byteLength v [] = failAt byteLength ''unterminated byte or string value'' []"
| "readEscaped byteLength v (b # rest) =
    (if b \<noteq> NIL then readEscaped byteLength (v @ [b]) rest
     else (case rest of
         c # rest' \<Rightarrow> if c = ESCAPE then readEscaped byteLength (v @ [NIL]) rest' else Inr (v, rest)
       | [] \<Rightarrow> Inr (v, rest)))"

definition readInteger :: "nat \<Rightarrow> byte \<Rightarrow> bytes \<Rightarrow> int parsed" where
  "readInteger byteLength code rest =
    (let negative = code < INTEGER_ZERO in
     bindR (if code = NEGATIVE_BIG_INTEGER then
              bindR (readByte byteLength rest) (\<lambda>(b, rest). Inr (unat (b XOR 0xff), rest))
            else if code = POSITIVE_BIG_INTEGER then
              bindR (readByte byteLength rest) (\<lambda>(b, rest). Inr (unat b, rest))
            else Inr (nat \<bar>int (unat code) - int (unat INTEGER_ZERO)\<bar>, rest)) (\<lambda>(len, rest).
     bindR (read byteLength len rest) (\<lambda>(encoded, rest).
       let magnitude =
         foldl (\<lambda>m b. m * 256 + unat (if negative then b XOR 0xff else b)) 0 encoded in
       Inr (if negative then - int magnitude else int magnitude, rest))))"

definition readOrderedFloat :: "nat \<Rightarrow> nat \<Rightarrow> bytes \<Rightarrow> bytes parsed" where
  "readOrderedFloat byteLength len rest =
    bindR (read byteLength len rest) (\<lambda>(encoded, rest).
      Inr (if encoded ! 0 AND 0x80 \<noteq> 0 then encoded[0 := encoded ! 0 XOR 0x80]
           else map (\<lambda>b. b XOR 0xff) encoded, rest))"

definition readFloat :: "nat \<Rightarrow> bytes \<Rightarrow> float32 parsed" where
  "readFloat byteLength rest =
    bindR (readOrderedFloat byteLength 4 rest) (\<lambda>(encoded, rest).
      Inr (float32_fromBitsUnsafe (of_nat (beNat encoded)), rest))"

definition readDouble :: "nat \<Rightarrow> bytes \<Rightarrow> 64 word parsed" where
  "readDouble byteLength rest =
    bindR (readOrderedFloat byteLength 8 rest) (\<lambda>(encoded, rest). Inr (of_nat (beNat encoded), rest))"

text \<open>All cases of the switch in \<open>#readValue\<close> but that of nested tuples.\<close>

definition readScalar :: "nat \<Rightarrow> byte \<Rightarrow> bytes \<Rightarrow> tuple_value parsed" where
  "readScalar byteLength code rest =
    (if code = NIL then Inr (Null, rest)
     else if code = BYTES then
       bindR (readEscaped byteLength [] rest) (\<lambda>(v, rest). Inr (Bytes v, rest))
     else if code = STRING then
       bindR (readEscaped byteLength [] rest) (\<lambda>(encoded, rest).
         case text_decode encoded of
           Some s \<Rightarrow> Inr (Str s, rest)
         | None \<Rightarrow> failAt byteLength ''string is not valid UTF-8'' rest)
     else if code = INTEGER_ZERO then Inr (BigInt 0, rest)
     else if code = FLOAT then bindR (readFloat byteLength rest) (\<lambda>(v, rest). Inr (Float v, rest))
     else if code = DOUBLE then bindR (readDouble byteLength rest) (\<lambda>(v, rest). Inr (Number v, rest))
     else if code = FALSE then Inr (Bool False, rest)
     else if code = TRUE then Inr (Bool True, rest)
     else if code = UUID then
       bindR (read byteLength 16 rest) (\<lambda>(v, rest). Inr (UuidV (uuid_fromBytesUnsafe v), rest))
     else if code = VERSIONSTAMP then
       bindR (read byteLength 12 rest) (\<lambda>(v, rest). Inr (Stamp (versionstamp_fromBytesUnsafe v), rest))
     else if unat INTEGER_ZERO - MAX_SMALL_INTEGER_BYTES \<le> unat code
           \<and> unat code \<le> unat INTEGER_ZERO + MAX_SMALL_INTEGER_BYTES
         \<or> code = NEGATIVE_BIG_INTEGER \<or> code = POSITIVE_BIG_INTEGER then
       bindR (readInteger byteLength code rest) (\<lambda>(v, rest). Inr (BigInt v, rest))
     else failAt byteLength
       (''unsupported or invalid tuple type code 0x'' @ map (\<lambda>c. char_of (unat c)) (hexByte code)) rest)"

function (sequential)
    readValue :: "nat \<Rightarrow> byte \<Rightarrow> bytes \<Rightarrow> tuple_value parsed"
and readTuple :: "nat \<Rightarrow> bool \<Rightarrow> tuple \<Rightarrow> bytes \<Rightarrow> tuple parsed" where
  "readValue byteLength code rest =
    (if code = NESTED then
       bindR (readTuple byteLength True [] rest) (\<lambda>(v, rest). Inr (Nested v, rest))
     else readScalar byteLength code rest)"
| "readTuple byteLength nested vals [] =
    (if nested then failAt byteLength ''unterminated nested tuple'' [] else Inr (vals, []))"
| "readTuple byteLength nested vals (code # rest) =
    (if nested \<and> code = NIL then
       (case rest of
          c # rest' \<Rightarrow> if c = ESCAPE then readTuple byteLength nested (vals @ [Null]) rest'
                       else Inr (vals, rest)
        | [] \<Rightarrow> Inr (vals, rest))
     else
       bindR (readValue byteLength code rest) (\<lambda>(v, rest). readTuple byteLength nested (vals @ [v]) rest))"
  by pat_completeness auto

section \<open>Termination of the parser\<close>

lemma readByte_length: "readByte byteLength rest = Inr (b, rest') \<Longrightarrow> length rest' < length rest"
  by (auto simp: readByte_def failAt_def split: list.splits)

lemma read_length: "read byteLength len rest = Inr (v, rest') \<Longrightarrow> length rest' \<le> length rest"
  by (auto simp: read_def failAt_def split: if_splits)

lemma readEscaped_length:
  "readEscaped byteLength v rest = Inr (w, rest') \<Longrightarrow> length rest' \<le> length rest"
proof (induction byteLength v rest rule: readEscaped.induct)
  case (2 byteLength v b rest)
  then show ?case by (fastforce simp: failAt_def split: if_splits list.splits)
qed (simp add: failAt_def)

lemma readScalar_length:
  "readScalar byteLength code rest = Inr (v, rest') \<Longrightarrow> length rest' \<le> length rest"
  unfolding readScalar_def readFloat_def readDouble_def readOrderedFloat_def readInteger_def Let_def
  by (auto simp: bindR_eq_Inr failAt_def dest!: readByte_length read_length readEscaped_length
      split: if_splits option.splits)

lemma readTuple_length:
  "readValue_readTuple_dom (Inl (byteLength, code, rest)) \<Longrightarrow>
     (\<forall>v rest'. readValue byteLength code rest = Inr (v, rest') \<longrightarrow> length rest' \<le> length rest)"
  "readValue_readTuple_dom (Inr (byteLength, nested, vals, rest)) \<Longrightarrow>
     (\<forall>v rest'. readTuple byteLength nested vals rest = Inr (v, rest') \<longrightarrow> length rest' \<le> length rest)"
proof (induction rule: readValue_readTuple.pinduct)
  case (1 byteLength code rest)
  then show ?case
    by (auto simp: readValue.psimps bindR_eq_Inr dest: readScalar_length split: if_splits)
next
  case (2 byteLength nested vals)
  then show ?case by (auto simp: readTuple.psimps failAt_def split: if_splits)
next
  case (3 byteLength nested vals code rest)
  then show ?case
    by (fastforce simp: readTuple.psimps bindR_eq_Inr split: if_splits list.splits)
qed

termination readValue
  by (relation "measure (\<lambda>x. case x of Inl (byteLength, code, rest) \<Rightarrow> 2 * length rest + 1
      | Inr (byteLength, nested, vals, rest) \<Rightarrow> 2 * length rest)")
    (auto dest: readTuple_length)

definition parse :: "bytes \<Rightarrow> tuple_error + tuple" where
  "parse bs = bindR (readTuple (length bs) False [] bs) (\<lambda>(vals, rest). Inr vals)"

definition unpack :: "bytes \<Rightarrow> tuple_error + tuple" where
  "unpack bs = parse bs"

end
