(* ===== verification/Tuple_Encoding.thy ===== *)
theory Tuple_Encoding
  imports Tuple_Codec
begin

text \<open>
  What the packer writes. \<open>enc\<close> is the encoding of one value as a pure function, \<open>packable\<close> the values
  the packer accepts; the packer run on any output array appends exactly \<open>enc\<close> to it and records the
  offsets \<open>stampOffsets\<close>, and fails exactly on values that are not packable.
\<close>

unbundle bit_operations_syntax

definition esc :: "bytes \<Rightarrow> bytes" where
  "esc v = concat (map (\<lambda>b. if b = NIL then [NIL, ESCAPE] else [b]) v) @ [NIL]"

definition intHeader :: "bool \<Rightarrow> nat \<Rightarrow> bytes" where
  "intHeader negative len =
    (if len \<le> MAX_SMALL_INTEGER_BYTES
     then [of_nat (if negative then 20 - len else 20 + len)]
     else [if negative then NEGATIVE_BIG_INTEGER else POSITIVE_BIG_INTEGER,
           of_nat (if negative then 255 - len else len)])"

definition encInt :: "int \<Rightarrow> bytes" where
  "encInt v =
    (let bs = magnitudeBytes (nat \<bar>v\<bar>) in
     intHeader (v < 0) (length bs) @ (if v < 0 then map (\<lambda>b. b XOR 0xff) bs else bs))"

fun enc :: "bool \<Rightarrow> tuple_value \<Rightarrow> bytes" where
  "enc n Null = (if n then [NIL, ESCAPE] else [NIL])"
| "enc n (Bytes v) = BYTES # esc v"
| "enc n (Str v) = STRING # esc (text_encode v)"
| "enc n (BigInt v) = encInt v"
| "enc n (Float v) = appendFloat [] v"
| "enc n (Number v) = appendDouble [] v"
| "enc n (Bool v) = [if v then TRUE else FALSE]"
| "enc n (UuidV v) = UUID # uuid_bytes v"
| "enc n (Stamp v) = VERSIONSTAMP # stamp_bytes v"
| "enc n (Nested vs) = NESTED # concat (map (enc True) vs) @ [NIL]"
| "enc n (Unsupported s) = []"

definition encs :: "bool \<Rightarrow> tuple \<Rightarrow> bytes" where
  "encs n vs = concat (map (enc n) vs)"

lemma encs_simps [simp]:
  "encs n [] = []"
  "encs n (v # vs) = enc n v @ encs n vs"
  by (simp_all add: encs_def)

lemma encs_append [simp]: "encs n (us @ vs) = encs n us @ encs n vs"
  by (simp add: encs_def)

lemma enc_Nested: "enc n (Nested vs) = NESTED # encs True vs @ [NIL]"
  by (simp add: encs_def)

definition smallInt :: "int \<Rightarrow> bool" where
  "smallInt v \<longleftrightarrow> length (magnitudeBytes (nat \<bar>v\<bar>)) \<le> MAX_BIG_INTEGER_BYTES"

fun packable :: "tuple_value \<Rightarrow> bool" where
  "packable (Str v) = wellFormed v"
| "packable (BigInt v) = smallInt v"
| "packable (Nested vs) = list_all packable vs"
| "packable (Unsupported s) = False"
| "packable _ = True"

text \<open>Offsets of the incomplete versionstamps within the encoding.\<close>

fun stampOffsets :: "bool \<Rightarrow> tuple_value \<Rightarrow> nat list"
and stampOffsetsL :: "bool \<Rightarrow> tuple_value list \<Rightarrow> nat list" where
  "stampOffsets n (Stamp v) = (if isComplete v then [] else [1])"
| "stampOffsets n (Nested vs) = map Suc (stampOffsetsL True vs)"
| "stampOffsets n v = []"
| "stampOffsetsL n [] = []"
| "stampOffsetsL n (v # vs) =
     stampOffsets n v @ map (\<lambda>o'. length (enc n v) + o') (stampOffsetsL n vs)"

section \<open>Scalars\<close>

lemma appendEscaped_esc: "appendEscaped out v = out @ esc v"
proof -
  have "appendEscapedLoop out v = out @ concat (map (\<lambda>b. if b = NIL then [NIL, ESCAPE] else [b]) v)"
    by (induction out v rule: appendEscapedLoop.induct) auto
  then show ?thesis by (simp add: appendEscaped_def esc_def)
qed

lemma assertWellFormedString_iff:
  "assertWellFormedString v = (if wellFormed v then Inr () else Inl surrogateError)"
proof (induction v rule: wellFormed.induct)
  case (3 c d cs)
  have "isLow d \<longleftrightarrow> \<not> (d < 0xdc00 \<or> 0xdfff < d)"
    by (auto simp: isLow_def not_less)
  with 3 show ?case by (auto simp: isHigh_def isLow_def)
qed (auto simp: isHigh_def isLow_def)

lemma magnitudeBytes_0 [simp]: "magnitudeBytes 0 = []"
  by (simp add: magnitudeBytes_def magnitudeLoop.simps)

lemma magnitudeBytes_Nil [simp]: "magnitudeBytes n = [] \<longleftrightarrow> n = 0"
  by (simp add: magnitudeBytes_def magnitudeLoop.simps [of n])

lemma beNat_snoc: "beNat (bs @ [b]) = beNat bs * 256 + unat b"
  by (simp add: beNat_def)

lemma beNat_magnitude: "beNat (magnitudeBytes n) = n"
proof (induction n rule: less_induct)
  case (less n)
  show ?case
  proof (cases "n = 0")
    case False
    then have "magnitudeBytes n = magnitudeBytes (n div 256) @ [of_nat (n mod 256)]"
      by (simp add: magnitudeBytes_def magnitudeLoop.simps [of n])
    moreover have "beNat (magnitudeBytes (n div 256)) = n div 256"
      using False by (intro less) simp
    ultimately show ?thesis by (simp add: beNat_snoc unat_of_nat)
  qed simp
qed

lemma magnitude_upper: "n < 256 ^ length (magnitudeBytes n)"
  using beNat_bound [of "magnitudeBytes n"] by (simp add: beNat_magnitude)

lemma magnitude_lower: "n \<noteq> 0 \<Longrightarrow> 256 ^ (length (magnitudeBytes n) - 1) \<le> n"
proof (induction n rule: less_induct)
  case (less n)
  have e: "magnitudeBytes n = magnitudeBytes (n div 256) @ [of_nat (n mod 256)]"
    using less.prems by (simp add: magnitudeBytes_def magnitudeLoop.simps [of n])
  show ?case
  proof (cases "n div 256 = 0")
    case True
    with less.prems show ?thesis by (simp add: e)
  next
    case False
    then have l: "256 ^ (length (magnitudeBytes (n div 256)) - 1) \<le> n div 256"
      by (intro less.IH) auto
    have "length (magnitudeBytes (n div 256)) \<noteq> 0" using False by simp
    then have "256 ^ length (magnitudeBytes (n div 256))
        = 256 * 256 ^ (length (magnitudeBytes (n div 256)) - 1)"
      by (metis Suc_diff_1 gr0I power_Suc)
    also have "\<dots> \<le> 256 * (n div 256)" using l by simp
    also have "\<dots> \<le> n" by simp
    finally show ?thesis by (simp add: e)
  qed
qed

lemma magnitude_length_mono:
  assumes "m \<le> n"
  shows "length (magnitudeBytes m) \<le> length (magnitudeBytes n)"
proof (rule ccontr)
  assume "\<not> ?thesis"
  then have "length (magnitudeBytes n) \<le> length (magnitudeBytes m) - 1"
    and m: "m \<noteq> 0" by (auto intro: ccontr)
  then have "(256 :: nat) ^ length (magnitudeBytes n) \<le> 256 ^ (length (magnitudeBytes m) - 1)"
    by (intro power_increasing) auto
  with magnitude_upper [of n] magnitude_lower [OF m] assms show False by linarith
qed

lemma of_nat_int_byte: "len \<le> 8 \<Longrightarrow> (0x14 :: byte) - of_nat len = of_nat (20 - len)"
  by simp

lemma xor_ff: "(b :: byte) XOR 0xff = NOT b"
proof -
  have "(0xff :: byte) = - 1" by simp
  then show ?thesis by (simp only: bit.xor_one_right)
qed

lemma not_of_nat_byte: "n < 256 \<Longrightarrow> NOT (of_nat n :: byte) = of_nat (255 - n)"
  by (simp add: not_eq_complement)

lemma unat_not_byte: "unat (NOT (b :: byte)) = 255 - unat b"
  using unat_byte [of b] not_of_nat_byte [of "unat b"] by (simp add: unat_of_nat del: of_nat_diff)

lemma appendInteger_enc:
  "appendInteger out v =
    (if smallInt v then Inr (out @ encInt v)
     else Inl (tupleError Pack ''integer magnitude requires more than 255 bytes''))"
proof (cases "v = 0")
  case True
  then show ?thesis by (simp add: appendInteger_def encInt_def intHeader_def smallInt_def)
next
  case False
  have "nat (if v < 0 then - v else v) = nat \<bar>v\<bar>" by simp
  with False show ?thesis
    by (auto simp: appendInteger_def encInt_def intHeader_def smallInt_def Let_def
        of_nat_int_byte xor_ff not_of_nat_byte simp del: of_nat_diff)
qed

lemma appendFloat_app: "appendFloat out v = out @ appendFloat [] v"
  by (simp add: appendFloat_def appendOrderedFloat_def Let_def)

lemma appendDouble_app: "appendDouble out v = out @ appendDouble [] v"
  by (simp add: appendDouble_def appendOrderedFloat_def Let_def)

section \<open>The packer\<close>

lemma appendValue_enc:
  "packable v \<Longrightarrow> appendValue out v n stamps
     = Inr (out @ enc n v, stamps @ map ((+) (length out)) (stampOffsets n v))"
  "list_all packable vs \<Longrightarrow> appendValues out vs n stamps
     = Inr (out @ encs n vs, stamps @ map ((+) (length out)) (stampOffsetsL n vs))"
proof (induction out v n stamps and out vs n stamps rule: appendValue_appendValues.induct)
  case (5 out v n stamps)
  then show ?case by (simp add: appendFloat_app [of out])
next
  case (6 out v n stamps)
  then show ?case by (simp add: appendDouble_app [of out])
next
  case (10 out vs n stamps)
  then show ?case by (simp add: encs_def o_def)
next
  case (13 out v vs n stamps)
  then show ?case by (simp add: o_def add.assoc)
qed (simp_all add: appendEscaped_esc assertWellFormedString_iff appendInteger_enc Let_def)

lemma appendValue_error:
  "\<not> packable v \<Longrightarrow> \<exists>reason. appendValue out v n stamps = Inl (tupleError Pack reason)"
  "\<not> list_all packable vs \<Longrightarrow> \<exists>reason. appendValues out vs n stamps = Inl (tupleError Pack reason)"
proof (induction out v n stamps and out vs n stamps rule: appendValue_appendValues.induct)
  case (10 out vs n stamps)
  then show ?case by auto
next
  case (13 out v vs n stamps)
  show ?case
  proof (cases "packable v")
    case True
    with 13 show ?thesis by (auto simp: appendValue_enc)
  next
    case False
    with 13 show ?thesis by auto
  qed
qed (auto simp: assertWellFormedString_iff appendInteger_enc surrogateError_def)

lemma packTrackedSync_enc [enc_simps]:
  "list_all packable t \<Longrightarrow> packTrackedSync t
     = Inr \<lparr>packed_bytes = encs False t, incompleteVersionstamps = stampOffsetsL False t\<rparr>"
  by (simp add: packTrackedSync_def appendValue_enc map_idI)

lemma pack_enc [enc_simps]: "list_all packable t \<Longrightarrow> pack t = Inr (encs False t)"
  by (simp add: pack_def packTrackedSync_enc)

lemma pack_error:
  assumes "\<not> list_all packable t"
  shows "\<exists>reason. pack t = Inl (tupleError Pack reason)"
  using appendValue_error(2) [OF assms, of "[]" False "[]"]
  by (auto simp: pack_def packTrackedSync_def)

lemma pack_Inr_iff: "pack t = Inr bs \<longleftrightarrow> list_all packable t \<and> bs = encs False t"
  using pack_enc [of t] pack_error [of t] by (cases "list_all packable t") auto

end
