(* ===== verification/Tuple_Order.thy ===== *)
theory Tuple_Order
  imports Tuple_Encoding
begin

text \<open>
  The order of the wire format. \<open>value_less\<close> is the order of tuple values that the format is meant to
  have: by type first, then bytes and strings lexicographically (strings by code point), integers
  numerically, floats in IEEE total order, nested tuples element by element, a proper prefix first.
  The encoding is an order embedding, even when more data follows both values.
\<close>

unbundle bit_operations_syntax

section \<open>The order of values\<close>

definition negativeWord :: "'a :: len word \<Rightarrow> bool" where
  "negativeWord w \<longleftrightarrow> bit w (LENGTH('a) - 1)"

text \<open>IEEE total order on bit patterns: sign and magnitude.\<close>

definition ieee_less :: "'a :: len word \<Rightarrow> 'a word \<Rightarrow> bool" where
  "ieee_less a b \<longleftrightarrow>
     (if negativeWord a = negativeWord b then (if negativeWord a then b < a else a < b)
      else negativeWord a)"

fun kind :: "tuple_value \<Rightarrow> nat" where
  "kind Null = 0"
| "kind (Bytes _) = 1"
| "kind (Str _) = 2"
| "kind (Nested _) = 3"
| "kind (BigInt _) = 4"
| "kind (Float _) = 5"
| "kind (Number _) = 6"
| "kind (Bool _) = 7"
| "kind (UuidV _) = 8"
| "kind (Stamp _) = 9"
| "kind (Unsupported _) = 10"

fun value_less :: "tuple_value \<Rightarrow> tuple_value \<Rightarrow> bool"
and tuple_less :: "tuple \<Rightarrow> tuple \<Rightarrow> bool" where
  "value_less (Bytes x) v = (case v of Bytes y \<Rightarrow> x < y | _ \<Rightarrow> 1 < kind v)"
| "value_less (Str x) v = (case v of Str y \<Rightarrow> scalars x < scalars y | _ \<Rightarrow> 2 < kind v)"
| "value_less (Nested x) v = (case v of Nested y \<Rightarrow> tuple_less x y | _ \<Rightarrow> 3 < kind v)"
| "value_less (BigInt x) v = (case v of BigInt y \<Rightarrow> x < y | _ \<Rightarrow> 4 < kind v)"
| "value_less (Float x) v = (case v of Float y \<Rightarrow> ieee_less (bits x) (bits y) | _ \<Rightarrow> 5 < kind v)"
| "value_less (Number x) v = (case v of Number y \<Rightarrow> ieee_less x y | _ \<Rightarrow> 6 < kind v)"
| "value_less (Bool x) v = (case v of Bool y \<Rightarrow> \<not> x \<and> y | _ \<Rightarrow> 7 < kind v)"
| "value_less (UuidV x) v = (case v of UuidV y \<Rightarrow> uuid_bytes x < uuid_bytes y | _ \<Rightarrow> 8 < kind v)"
| "value_less (Stamp x) v = (case v of Stamp y \<Rightarrow> stamp_bytes x < stamp_bytes y | _ \<Rightarrow> 9 < kind v)"
| "value_less u v = (kind u < kind v)"
| "tuple_less [] vs = (vs \<noteq> [])"
| "tuple_less (u # us) vs =
     (case vs of [] \<Rightarrow> False | v # vs' \<Rightarrow> value_less u v \<or> u = v \<and> tuple_less us vs')"

section \<open>Byte strings\<close>

text \<open>What may follow an element: nothing, or a byte that is not the escape byte.\<close>

definition follows :: "bytes \<Rightarrow> bool" where
  "follows r \<longleftrightarrow> (case r of [] \<Rightarrow> True | b # _ \<Rightarrow> b \<noteq> ESCAPE)"

lemma follows_simps [simp]:
  "follows []"
  "follows (b # r) \<longleftrightarrow> b \<noteq> ESCAPE"
  by (simp_all add: follows_def)

lemma follows_less: "follows r \<Longrightarrow> r < ESCAPE # s"
  using word8_less_255 by (cases r) auto

lemma esc_simps [simp]:
  "esc [] = [NIL]"
  "esc (b # v) = (if b = NIL then NIL # ESCAPE # esc v else b # esc v)"
  by (simp_all add: esc_def)

lemma esc_less:
  assumes "follows r" and "follows s"
  shows "esc x @ r < esc y @ s \<longleftrightarrow> x < y \<or> x = y \<and> r < s"
proof (induction x arbitrary: y)
  case Nil
  show ?case
    using follows_less [OF assms(1)] by (cases y) (auto simp: word8_pos)
next
  case (Cons b x)
  show ?case
  proof (cases y)
    case Nil
    have "\<not> ESCAPE # t < s" for t
      using follows_less [OF assms(2), of t] by (rule less_not_sym)
    then show ?thesis by (auto simp: Nil)
  next
    case (Cons c y')
    consider "b = c" | "b = NIL" "b \<noteq> c" | "c = NIL" "b \<noteq> c" | "b \<noteq> NIL" "c \<noteq> NIL" "b \<noteq> c"
      by blast
    then show ?thesis
      by cases (auto simp: Cons Cons.IH word8_pos)
  qed
qed

section \<open>Integers\<close>

lemma magnitude_less:
  "length (magnitudeBytes m) = length (magnitudeBytes n) \<Longrightarrow>
     magnitudeBytes m < magnitudeBytes n \<longleftrightarrow> m < n"
  by (simp add: beNat_less [symmetric] beNat_magnitude)

lemma not_byte_less: "NOT (x :: byte) < NOT y \<longleftrightarrow> y < x"
  using unat_byte [of x] unat_byte [of y] by (auto simp: word_less_nat_alt unat_not_byte)

lemma map_not_less:
  "length xs = length ys \<Longrightarrow> map NOT xs < map NOT (ys :: bytes) \<longleftrightarrow> ys < xs"
  by (induction xs ys rule: list_induct2) (auto simp: not_byte_less)

lemma map_not_inj: "map NOT xs = map NOT (ys :: bytes) \<longleftrightarrow> xs = ys"
  by (simp add: inj_on_def inj_map_eq_map)

lemma intHeader_pos_less:
  "m < n \<Longrightarrow> n \<le> 255 \<Longrightarrow> intHeader False m @ r < intHeader False n @ s"
  by (auto simp: intHeader_def of_nat_less_byte word_less_nat_alt unat_of_nat simp del: of_nat_add)

lemma intHeader_neg_less:
  "m < n \<Longrightarrow> n \<le> 255 \<Longrightarrow> intHeader True n @ r < intHeader True m @ s"
  by (auto simp: intHeader_def of_nat_less_byte word_less_nat_alt unat_of_nat simp del: of_nat_diff)

lemma intHeader_sign_less:
  "0 < m \<Longrightarrow> intHeader True m @ r < intHeader False n @ s"
  by (auto simp: intHeader_def of_nat_less_byte word_less_nat_alt unat_of_nat
      simp del: of_nat_diff of_nat_add)

lemma encInt_pos:
  "0 \<le> i \<Longrightarrow> encInt i
     = intHeader False (length (magnitudeBytes (nat i))) @ magnitudeBytes (nat i)"
  by (simp add: encInt_def Let_def)

lemma encInt_neg:
  "i < 0 \<Longrightarrow> encInt i
     = intHeader True (length (magnitudeBytes (nat (- i)))) @ map NOT (magnitudeBytes (nat (- i)))"
  by (simp add: encInt_def Let_def xor_ff)

lemma encInt_less_pos:
  assumes "smallInt j" and "0 \<le> i" and "i < j"
  shows "encInt i @ r < encInt j @ s"
proof -
  let ?m = "nat i" and ?n = "nat j"
  have le: "length (magnitudeBytes ?m) \<le> length (magnitudeBytes ?n)"
    using assms by (intro magnitude_length_mono) simp
  have b: "length (magnitudeBytes ?n) \<le> 255" using assms by (simp add: smallInt_def)
  show ?thesis
  proof (cases "length (magnitudeBytes ?m) = length (magnitudeBytes ?n)")
    case True
    then have "magnitudeBytes ?m @ r < magnitudeBytes ?n @ s"
      using assms by (simp add: append_less_append_eqlen magnitude_less)
    with True assms show ?thesis by (simp add: encInt_pos append_less_append_same)
  next
    case False
    with le b assms show ?thesis by (simp add: encInt_pos intHeader_pos_less)
  qed
qed

lemma encInt_less_neg:
  assumes "smallInt i" and "i < j" and "j < 0"
  shows "encInt i @ r < encInt j @ s"
proof -
  let ?m = "nat (- i)" and ?n = "nat (- j)"
  have le: "length (magnitudeBytes ?n) \<le> length (magnitudeBytes ?m)"
    using assms by (intro magnitude_length_mono) simp
  have b: "length (magnitudeBytes ?m) \<le> 255" using assms by (simp add: smallInt_def)
  show ?thesis
  proof (cases "length (magnitudeBytes ?m) = length (magnitudeBytes ?n)")
    case True
    have "magnitudeBytes ?n < magnitudeBytes ?m"
      using assms by (simp add: magnitude_less [OF True [symmetric]])
    then have "map NOT (magnitudeBytes ?m) @ r < map NOT (magnitudeBytes ?n) @ s"
      using True by (simp add: append_less_append_eqlen map_not_less)
    with True assms show ?thesis by (simp add: encInt_neg append_less_append_same)
  next
    case False
    with le b assms show ?thesis by (simp add: encInt_neg intHeader_neg_less)
  qed
qed

lemma encInt_less_mono:
  assumes "smallInt i" and "smallInt j" and "i < j"
  shows "encInt i @ r < encInt j @ s"
proof -
  consider "0 \<le> i" | "j < 0" | "i < 0" "0 \<le> j" by linarith
  then show ?thesis
  proof cases
    case 1
    with assms show ?thesis by (simp add: encInt_less_pos)
  next
    case 2
    with assms show ?thesis by (simp add: encInt_less_neg)
  next
    case 3
    then have "0 < length (magnitudeBytes (nat (- i)))" by simp
    with 3 show ?thesis by (simp add: encInt_pos encInt_neg intHeader_sign_less del: length_greater_0_conv)
  qed
qed

lemma encInt_less:
  assumes "smallInt i" and "smallInt j"
  shows "encInt i @ r < encInt j @ s \<longleftrightarrow> i < j \<or> i = j \<and> r < s"
proof -
  consider "i < j" | "j < i" | "i = j" by linarith
  then show ?thesis
  proof cases
    case 1
    with assms show ?thesis by (simp add: encInt_less_mono)
  next
    case 2
    then have "\<not> encInt i @ r < encInt j @ s"
      using assms by (intro less_not_sym encInt_less_mono)
    with 2 show ?thesis by simp
  next
    case 3
    then show ?thesis by (simp add: append_less_append_same)
  qed
qed

text \<open>The first byte of an integer lies between the codes of the other types.\<close>

lemma encInt_hd:
  obtains b bs where "encInt i = b # bs" and "0x0b \<le> b" and "b \<le> 0x1d"
proof -
  have "\<exists>b bs. intHeader g n = b # bs \<and> 0x0b \<le> b \<and> b \<le> 0x1d" for g n
    by (auto simp: intHeader_def word_le_nat_alt unat_of_nat simp del: of_nat_diff of_nat_add)
  from this [of "i < 0" "length (magnitudeBytes (nat \<bar>i\<bar>))"]
  show ?thesis using that by (auto simp: encInt_def Let_def)
qed

section \<open>Floats\<close>

lemma and_80: "(b :: byte) AND 0x80 \<noteq> 0 \<longleftrightarrow> bit b 7"
  using and_exp_eq_0_iff_not_bit [of b 7] by simp

lemma bit7_unat: "bit (b :: byte) 7 \<longleftrightarrow> 128 \<le> unat b"
proof -
  have "bit b 7 \<longleftrightarrow> bit (unat b) 7" by (simp add: bit_unsigned_iff)
  then have "bit b 7 \<longleftrightarrow> odd (unat b div 128)" by (simp add: bit_iff_odd [of "unat b"])
  moreover have "unat b div 128 = 0 \<or> unat b div 128 = 1" using unat_byte [of b] by linarith
  ultimately show ?thesis by (auto simp: div_eq_0_iff)
qed

lemma xor_80: "\<not> bit b 7 \<Longrightarrow> unat ((b :: byte) XOR 0x80) = unat b + 128"
proof -
  assume b: "\<not> bit b 7"
  then have "b AND 0x80 = 0" using and_80 by blast
  then have "b XOR 0x80 = b + 0x80" by (simp add: disjunctive_add_eq_xor)
  with b show ?thesis by (simp add: bit7_unat unat_word_ariths)
qed

definition orderedFloat :: "bytes \<Rightarrow> bytes" where
  "orderedFloat e = (if bit (hd e) 7 then map NOT e else (hd e XOR 0x80) # tl e)"

lemma appendOrderedFloat_eq:
  "e \<noteq> [] \<Longrightarrow> appendOrderedFloat [] code e = code # orderedFloat e"
  by (cases e) (auto simp: appendOrderedFloat_def orderedFloat_def Let_def and_80 xor_ff)

lemma length_orderedFloat: "e \<noteq> [] \<Longrightarrow> length (orderedFloat e) = length e"
  by (simp add: orderedFloat_def)

lemma orderedFloat_less:
  assumes "length d = length e" and "e \<noteq> []"
  shows "orderedFloat d < orderedFloat e \<longleftrightarrow>
    (if bit (hd d) 7 = bit (hd e) 7 then (if bit (hd d) 7 then e < d else d < e)
     else bit (hd d) 7)"
proof -
  obtain b bs c cs where [simp]: "d = b # bs" "e = c # cs" and l: "length bs = length cs"
    using assms by (cases d; cases e) auto
  have nb: "bit x 7 \<Longrightarrow> \<not> bit y 7 \<Longrightarrow> NOT x < y XOR 0x80" for x y :: byte
    by (auto simp: word_less_nat_alt unat_not_byte xor_80 bit7_unat)
  have xx: "\<not> bit x 7 \<Longrightarrow> \<not> bit y 7 \<Longrightarrow> x XOR 0x80 < y XOR 0x80 \<longleftrightarrow> x < y" for x y :: byte
    by (auto simp: word_less_nat_alt xor_80)
  have xe: "x XOR 0x80 = y XOR 0x80 \<longleftrightarrow> x = y" for x y :: byte
    by (metis xor_self_eq xor.assoc xor.right_neutral)
  show ?thesis
    using nb [of b c] nb [of c b] xx [of b c] l
    by (auto simp: orderedFloat_def map_not_less not_byte_less xe dest: less_not_sym)
qed

lemma natBE_hd_bit:
  assumes "0 < k"
  shows "bit (hd (natBE k v)) 7 \<longleftrightarrow> bit v (8 * k - 1)"
proof -
  obtain j where k: "k = Suc j" using assms gr0_conv_Suc by blast
  have "(256 :: nat) ^ j = 2 ^ (8 * j)" by (simp add: power_mult)
  then show ?thesis
    by (simp add: k Bit_Operations.bit_of_nat_iff drop_bit_eq_div [symmetric] bit_drop_bit_eq add.commute)
qed

lemma appendFloat_less:
  "appendFloat [] u @ r < appendFloat [] v @ s
     \<longleftrightarrow> ieee_less (bits u) (bits v) \<or> u = v \<and> r < s"
proof -
  have n: "bit (hd (natBE 4 (unat w))) 7 \<longleftrightarrow> negativeWord w" for w :: "32 word"
    by (simp add: natBE_hd_bit negativeWord_def bit_unsigned_iff [where ?'a = nat])
  have ne: "natBE 4 w \<noteq> []" for w by (metis length_natBE list.size(3) zero_neq_numeral)
  have bd: "unat (w :: 32 word) < 256 ^ 4" for w
    using unsigned_less [where ?'a = nat, of w] by simp
  have lw: "natBE 4 (unat v) < natBE 4 (unat w) \<longleftrightarrow> v < w" for v w :: "32 word"
    by (simp only: natBE_less [OF bd bd] word_less_nat_alt)
  have lt: "orderedFloat (natBE 4 (unat (bits u))) < orderedFloat (natBE 4 (unat (bits v)))
      \<longleftrightarrow> ieee_less (bits u) (bits v)" for u v
    by (simp add: orderedFloat_less ne n ieee_less_def lw)
  have eq: "orderedFloat (natBE 4 (unat (bits u))) = orderedFloat (natBE 4 (unat (bits v)))
      \<longleftrightarrow> u = v"
    using lt [of u v] lt [of v u]
    by (metis ieee_less_def float32.expand less_irrefl linorder_neqE)
  show ?thesis
    by (simp add: appendFloat_def appendOrderedFloat_eq ne append_less_append_eqlen
        length_orderedFloat lt eq)
qed

lemma appendDouble_less:
  "appendDouble [] u @ r < appendDouble [] v @ s \<longleftrightarrow> ieee_less u v \<or> u = v \<and> r < s"
proof -
  have n: "bit (hd (natBE 8 (unat w))) 7 \<longleftrightarrow> negativeWord w" for w :: "64 word"
    by (simp add: natBE_hd_bit negativeWord_def bit_unsigned_iff [where ?'a = nat])
  have ne: "natBE 8 w \<noteq> []" for w by (metis length_natBE list.size(3) zero_neq_numeral)
  have bd: "unat (w :: 64 word) < 256 ^ 8" for w
    using unsigned_less [where ?'a = nat, of w] by simp
  have lw: "natBE 8 (unat v) < natBE 8 (unat w) \<longleftrightarrow> v < w" for v w :: "64 word"
    by (simp only: natBE_less [OF bd bd] word_less_nat_alt)
  have lt: "orderedFloat (natBE 8 (unat u)) < orderedFloat (natBE 8 (unat v)) \<longleftrightarrow> ieee_less u v"
    for u v :: "64 word"
    by (simp add: orderedFloat_less ne n ieee_less_def lw)
  have eq: "orderedFloat (natBE 8 (unat u)) = orderedFloat (natBE 8 (unat v)) \<longleftrightarrow> u = v"
    using lt [of u v] lt [of v u] by (metis ieee_less_def less_irrefl linorder_neqE)
  show ?thesis
    by (simp add: appendDouble_def appendOrderedFloat_eq ne append_less_append_eqlen
        length_orderedFloat lt eq)
qed

section \<open>Values of different types\<close>

definition codeLow :: "tuple_value \<Rightarrow> nat" where
  "codeLow v = [0, 1, 2, 5, 0x0b, 0x20, 0x21, 0x26, 0x30, 0x33, 0x34] ! kind v"

definition codeHigh :: "tuple_value \<Rightarrow> nat" where
  "codeHigh v = [0, 1, 2, 5, 0x1d, 0x20, 0x21, 0x27, 0x30, 0x33, 0x34] ! kind v"

lemma enc_hd:
  assumes "packable v"
  obtains b bs where "enc n v = b # bs" and "codeLow v \<le> unat b" and "unat b \<le> codeHigh v"
proof -
  have "\<exists>b bs. enc n v = b # bs \<and> codeLow v \<le> unat b \<and> unat b \<le> codeHigh v"
  proof (cases v)
    case (BigInt i)
    then show ?thesis
      by (cases rule: encInt_hd [of i]) (auto simp: codeLow_def codeHigh_def word_le_nat_alt)
  next
    case (Float f)
    have "natBE 4 (unat (bits f)) \<noteq> []" by (metis length_natBE list.size(3) zero_neq_numeral)
    with Float show ?thesis
      by (simp add: codeLow_def codeHigh_def appendFloat_def appendOrderedFloat_eq)
  next
    case (Number f)
    have "natBE 8 (unat f) \<noteq> []" by (metis length_natBE list.size(3) zero_neq_numeral)
    with Number show ?thesis
      by (simp add: codeLow_def codeHigh_def appendDouble_def appendOrderedFloat_eq)
  qed (use assms in \<open>simp_all add: codeLow_def codeHigh_def\<close>)
  then show ?thesis using that by blast
qed

lemma code_mono:
  assumes "kind u < kind v"
  shows "codeHigh u < codeLow v"
  using assms by (cases u; cases v) (simp_all add: codeLow_def codeHigh_def)

lemma enc_kind_less:
  assumes "packable u" and "packable v" and "kind u < kind v"
  shows "enc n u @ r < enc n v @ s"
proof -
  obtain b bs where u: "enc n u = b # bs" "unat b \<le> codeHigh u" using enc_hd [OF assms(1)] by metis
  obtain c cs where v: "enc n v = c # cs" "codeLow v \<le> unat c" using enc_hd [OF assms(2)] by metis
  have "b < c" using code_mono [OF assms(3)] u v by (simp add: word_less_nat_alt)
  then show ?thesis by (simp add: u v)
qed

lemma value_less_kind: "kind u \<noteq> kind v \<Longrightarrow> value_less u v \<longleftrightarrow> kind u < kind v"
  by (cases u; cases v) simp_all

lemma follows_enc: "packable v \<Longrightarrow> follows (enc n v @ r)"
proof -
  assume p: "packable v"
  obtain b bs where b: "enc n v = b # bs" "unat b \<le> codeHigh v" using enc_hd [OF p] by metis
  have "codeHigh v < 255" by (cases v) (simp_all add: codeHigh_def)
  with b have "unat b \<noteq> unat (255 :: byte)" by simp
  then have "b \<noteq> 255" by metis
  with b show "follows (enc n v @ r)" by simp
qed

lemma follows_encs: "list_all packable vs \<Longrightarrow> follows r \<Longrightarrow> follows (encs n vs @ r)"
  by (cases vs) (simp_all add: follows_enc)

section \<open>The order of encodings\<close>

definition enc_ordered :: "tuple_value \<Rightarrow> bool" where
  "enc_ordered u \<longleftrightarrow> (\<forall>n v r s. packable v \<longrightarrow> constructed v \<longrightarrow> follows r \<longrightarrow> follows s \<longrightarrow>
     (enc n u @ r < enc n v @ s \<longleftrightarrow> value_less u v \<or> u = v \<and> r < s))"

lemma encs_less_nested:
  assumes "\<forall>u \<in> set us. enc_ordered u"
    and "list_all packable us" and "list_all packable vs" and "list_all constructed vs"
    and "follows r" and "follows s"
  shows "encs True us @ NIL # r < encs True vs @ NIL # s \<longleftrightarrow> tuple_less us vs \<or> us = vs \<and> r < s"
  using assms
proof (induction us arbitrary: vs)
  case Nil
  show ?case
  proof (cases vs)
    case (Cons v vs')
    have p: "packable v" using Nil.prems Cons by simp
    show ?thesis
    proof (cases "v = Null")
      case True
      then show ?thesis using Nil.prems Cons by (simp add: follows_less)
    next
      case False
      obtain b bs where "enc True v = b # bs" and "codeLow v \<le> unat b"
        using enc_hd [OF p] by metis
      moreover from False have "0 < codeLow v" by (cases v) (simp_all add: codeLow_def)
      ultimately show ?thesis by (simp add: Cons word_less_nat_alt)
    qed
  qed simp
next
  case (Cons u us)
  show ?case
  proof (cases vs)
    case Nil
    have p: "packable u" using Cons.prems by simp
    have "\<not> enc True u @ t < NIL # s" for t
    proof (cases "u = Null")
      case True
      have "s < ESCAPE # t" using Cons.prems by (simp add: follows_less)
      with True show ?thesis by (auto dest: less_not_sym)
    next
      case False
      obtain b bs where "enc True u = b # bs" and "codeLow u \<le> unat b"
        using enc_hd [OF p] by metis
      moreover from False have "0 < codeLow u" by (cases u) (simp_all add: codeLow_def)
      ultimately show ?thesis by (auto simp: word_less_nat_alt)
    qed
    with Nil show ?thesis by simp
  next
    case (Cons v vs')
    then have "follows (encs True us @ NIL # r)" "follows (encs True vs' @ NIL # s)"
      using Cons.prems by (auto intro!: follows_encs)
    then show ?thesis
      using Cons.prems Cons Cons.IH [of vs'] by (auto simp: enc_ordered_def)
  qed
qed

lemma same_kind_less:
  assumes "kind u = kind v" and "packable u" and "packable v" and "constructed u" and "constructed v"
    and "follows r" and "follows s" and "\<forall>us. u = Nested us \<longrightarrow> (\<forall>u \<in> set us. enc_ordered u)"
  shows "enc n u @ r < enc n v @ s \<longleftrightarrow> value_less u v \<or> u = v \<and> r < s"
proof (cases u)
  case (Nested us)
  with assms obtain vs where "v = Nested vs" by (cases v) simp_all
  then show ?thesis
    using Nested assms encs_less_nested [of us vs r s] by (simp add: enc_Nested del: enc.simps)
next
  case (UuidV x)
  with assms obtain y where "v = UuidV y" by (cases v) simp_all
  then show ?thesis
    using UuidV assms by (cases x; cases y) (simp add: append_less_append_eqlen)
next
  case (Stamp x)
  with assms obtain y where "v = Stamp y" by (cases v) simp_all
  then show ?thesis
    using Stamp assms by (cases x; cases y) (simp add: append_less_append_eqlen)
next
  case (Str x)
  with assms obtain y where "v = Str y" by (cases v) simp_all
  then show ?thesis
    using Str assms text_encode_less [of x y] text_encode_inj [of x y] by (auto simp: esc_less)
qed (use assms in \<open>cases v; auto simp: esc_less encInt_less appendFloat_less appendDouble_less
      append_less_append_same\<close>)+

lemma enc_orderedI:
  assumes "packable u" and "constructed u"
    and "\<forall>us. u = Nested us \<longrightarrow> (\<forall>u \<in> set us. enc_ordered u)"
  shows "enc_ordered u"
  unfolding enc_ordered_def
proof (intro allI impI)
  fix n v r s assume v: "packable v" "constructed v" "follows r" "follows s"
  consider "kind u = kind v" | "kind u < kind v" | "kind v < kind u" by linarith
  then show "enc n u @ r < enc n v @ s \<longleftrightarrow> value_less u v \<or> u = v \<and> r < s"
  proof cases
    case 1
    with v assms show ?thesis by (simp add: same_kind_less)
  next
    case 2
    with v assms show ?thesis by (simp add: enc_kind_less value_less_kind)
  next
    case 3
    then have "\<not> enc n u @ r < enc n v @ s"
      using v assms by (intro less_not_sym enc_kind_less)
    with 3 show ?thesis by (auto simp: value_less_kind)
  qed
qed

lemma enc_ordered: "packable u \<Longrightarrow> constructed u \<Longrightarrow> enc_ordered u"
proof (induction u)
  case (Nested us)
  then have "\<forall>u \<in> set us. enc_ordered u" by (auto simp: list_all_iff)
  then show ?case using Nested.prems by (intro enc_orderedI) simp_all
qed (rule enc_orderedI; simp)+

theorem enc_less:
  assumes "packable u" and "packable v" and "constructed u" and "constructed v"
    and "follows r" and "follows s"
  shows "enc n u @ r < enc n v @ s \<longleftrightarrow> value_less u v \<or> u = v \<and> r < s"
  using assms enc_ordered by (simp add: enc_ordered_def)

text \<open>Top-level tuples: no terminator; a proper prefix is smaller.\<close>

theorem encs_less:
  assumes "list_all packable us" and "list_all packable vs"
    and "list_all constructed us" and "list_all constructed vs"
  shows "encs False us < encs False vs \<longleftrightarrow> tuple_less us vs"
  using assms
proof (induction us arbitrary: vs)
  case Nil
  show ?case
  proof (cases vs)
    case (Cons v vs')
    then obtain b bs where "enc False v = b # bs" using enc_hd Nil.prems by (metis list.pred_inject(2))
    with Cons show ?thesis by simp
  qed simp
next
  case (Cons u us)
  then show ?case
  proof (cases vs)
    case (Cons v vs')
    have "follows (encs False us)" "follows (encs False vs')"
      using Cons Cons.prems follows_encs [where r = "[]"] by auto
    then show ?thesis using Cons Cons.prems Cons.IH [of vs'] by (simp add: enc_less)
  qed simp
qed

end
