(* ===== verification/Tuple_Roundtrip.thy ===== *)
theory Tuple_Roundtrip
  imports Tuple_Order
begin

text \<open>
  The parser inverts the packer: reading the encoding of a value, whatever follows it, gives the value
  back and leaves the rest of the input. Injectivity of the encoding is a consequence.
\<close>

unbundle bit_operations_syntax

lemma readEscaped_esc:
  "follows r \<Longrightarrow> readEscaped N a (esc v @ r) = Inr (a @ v, r)"
proof (induction v arbitrary: a)
  case Nil
  then show ?case by (cases r) simp_all
qed simp

lemma read_append: "k = length v \<Longrightarrow> read N k (v @ r) = Inr (v, r)"
  by (simp add: read_def)

section \<open>Integers\<close>

lemma foldl_not:
  "foldl (\<lambda>m b. m * 256 + unat (NOT b)) a (map NOT bs) = foldl (\<lambda>m b. m * 256 + unat (b :: byte)) a bs"
  by (induction bs arbitrary: a) simp_all

lemma foldl_magnitude: "foldl (\<lambda>m b. m * 256 + unat b) 0 (magnitudeBytes n) = n"
  using beNat_magnitude [of n] by (simp add: beNat_def)

lemma readInteger_enc:
  assumes "smallInt i" and "i \<noteq> 0" and "encInt i = code # e"
  shows "readInteger N code (e @ r) = Inr (i, r)"
proof -
  let ?bs = "magnitudeBytes (nat \<bar>i\<bar>)"
  have l: "length ?bs \<le> 255" "0 < length ?bs" using assms by (simp_all add: smallInt_def)
  define c where "c = intHeader (i < 0) (length ?bs)"
  have c: "c = intHeader (i < 0) (length ?bs)" by (rule c_def)
  have e: "code # e = c @ (if i < 0 then map NOT ?bs else ?bs)"
    using assms(3) unfolding c encInt_def Let_def xor_ff by simp
  show ?thesis
  proof (cases "length ?bs \<le> 8")
    case True
    then have b: "code = of_nat (if i < 0 then 20 - length ?bs else 20 + length ?bs)"
      "e = (if i < 0 then map NOT ?bs else ?bs)"
      using e by (simp_all add: c intHeader_def del: of_nat_diff of_nat_add)
    have u: "unat code = (if i < 0 then 20 - length ?bs else 20 + length ?bs)"
      using True by (cases "i < 0") (simp_all add: b unat_of_nat del: of_nat_diff of_nat_add)
    have "code \<noteq> NEGATIVE_BIG_INTEGER" "code \<noteq> POSITIVE_BIG_INTEGER"
      using True u by (auto split: if_splits)
    moreover have "nat \<bar>int (unat code) - 20\<bar> = length ?bs" using True u by auto
    moreover have "code < INTEGER_ZERO \<longleftrightarrow> i < 0" using l True u by (simp add: word_less_nat_alt)
    ultimately show ?thesis
      using b(2) by (simp add: readInteger_def Let_def read_append foldl_not foldl_magnitude xor_ff)
  next
    case False
    then have b: "code = (if i < 0 then NEGATIVE_BIG_INTEGER else POSITIVE_BIG_INTEGER)"
      "e = of_nat (if i < 0 then 255 - length ?bs else length ?bs)
         # (if i < 0 then map NOT ?bs else ?bs)"
      using e by (auto simp: c intHeader_def simp del: of_nat_diff)
    have "unat (NOT (of_nat (255 - length ?bs) :: byte)) = length ?bs"
      using l by (simp add: unat_not_byte unat_of_nat del: of_nat_diff)
    moreover have "unat (of_nat (length ?bs) :: byte) = length ?bs" using l by (simp add: unat_of_nat)
    ultimately show ?thesis
      by (auto simp: b readInteger_def readByte_def read_append foldl_not foldl_magnitude xor_ff
          simp del: of_nat_diff)
  qed
qed

lemma encInt_code:
  assumes "encInt i = code # e" and "i \<noteq> 0" and "smallInt i"
  shows "code \<noteq> INTEGER_ZERO"
proof -
  have "intHeader g n \<noteq> INTEGER_ZERO # e'" if "0 < n" "n \<le> 255" for g n e'
    using that by (auto simp: intHeader_def word_unat_eq_iff unat_of_nat simp del: of_nat_diff of_nat_add)
  moreover have "\<exists>e'. intHeader (i < 0) (length (magnitudeBytes (nat \<bar>i\<bar>))) = code # e'"
    using assms(1) by (auto simp: encInt_def Let_def intHeader_def split: if_splits)
  ultimately show ?thesis using assms(2,3) by (auto simp: smallInt_def)
qed

section \<open>Floats\<close>

lemma readOrderedFloat_ordered:
  assumes "length e = k" and "0 < k"
  shows "readOrderedFloat N k (orderedFloat e @ r) = Inr (e, r)"
proof -
  obtain b bs where e: "e = b # bs" using assms by (cases e) auto
  have x: "(b XOR 0x80) XOR 0x80 = b" by (simp add: xor.assoc)
  have n: "bit (NOT b) 7 \<longleftrightarrow> \<not> bit b 7" "bit (b XOR 0x80) 7 \<longleftrightarrow> \<not> bit b 7"
    by (simp_all add: bit_not_iff bit_xor_iff)
  have k: "k = length (orderedFloat e)" using assms by (simp add: e length_orderedFloat)
  show ?thesis
    unfolding readOrderedFloat_def read_append [OF k] bindR_simps
    by (auto simp: e orderedFloat_def and_80 n x xor_ff map_idI)
qed

lemma readFloat_enc: "appendFloat [] v = code # e \<Longrightarrow> readFloat N (e @ r) = Inr (v, r)"
proof -
  assume a: "appendFloat [] v = code # e"
  have "natBE 4 (unat (bits v)) \<noteq> []" by (metis length_natBE list.size(3) zero_neq_numeral)
  with a have e: "e = orderedFloat (natBE 4 (unat (bits v)))"
    by (simp add: appendFloat_def appendOrderedFloat_eq)
  have "unat (bits v) < 256 ^ 4" using unsigned_less [where ?'a = nat, of "bits v"] by simp
  then show ?thesis
    by (cases v) (simp add: readFloat_def e readOrderedFloat_ordered beNat_natBE_mod
        float32_fromBitsUnsafe_def)
qed

lemma readDouble_enc: "appendDouble [] v = code # e \<Longrightarrow> readDouble N (e @ r) = Inr (v, r)"
proof -
  assume a: "appendDouble [] v = code # e"
  have "natBE 8 (unat v) \<noteq> []" by (metis length_natBE list.size(3) zero_neq_numeral)
  with a have e: "e = orderedFloat (natBE 8 (unat v))"
    by (simp add: appendDouble_def appendOrderedFloat_eq)
  have "unat v < 256 ^ 8" using unsigned_less [where ?'a = nat, of v] by simp
  then show ?thesis
    by (simp add: readDouble_def e readOrderedFloat_ordered beNat_natBE_mod)
qed

section \<open>The parser\<close>

lemma readScalar_enc:
  assumes "packable v" and "constructed v" and "follows r" and "\<forall>vs. v \<noteq> Nested vs"
    and "enc False v = code # e"
  shows "readScalar N code (e @ r) = Inr (v, r)"
proof (cases v)
  case (BigInt i)
  show ?thesis
  proof (cases "i = 0")
    case True
    with BigInt assms show ?thesis by (auto simp: readScalar_def encInt_def intHeader_def)
  next
    case False
    have i: "encInt i = code # e" "smallInt i" using BigInt assms by simp_all
    obtain b bs where "encInt i = b # bs" "0x0b \<le> b" "b \<le> 0x1d" by (rule encInt_hd)
    with i have "0x0b \<le> unat code" "unat code \<le> 0x1d" by (auto simp: word_le_nat_alt)
    moreover from this have between: "12 \<le> unat code \<or> code = 0x0b" "unat code \<le> 28 \<or> code = 0x1d"
      by (auto simp: word_unat_eq_iff)
    ultimately have "readScalar N code (e @ r)
        = bindR (readInteger N code (e @ r)) (\<lambda>(v, rest). Inr (BigInt v, rest))"
      using encInt_code [OF i(1) False i(2)] between
      by (auto simp: readScalar_def)
    then show ?thesis using readInteger_enc [OF i(2) False i(1)] by (simp add: BigInt)
  qed
next
  case (Float f)
  then have "appendFloat [] f = code # e" using assms by simp
  moreover from this have "code = FLOAT"
    by (auto simp: appendFloat_def appendOrderedFloat_def Let_def)
  ultimately show ?thesis by (simp add: Float readScalar_def readFloat_enc)
next
  case (Number f)
  then have "appendDouble [] f = code # e" using assms by simp
  moreover from this have "code = DOUBLE"
    by (auto simp: appendDouble_def appendOrderedFloat_def Let_def)
  ultimately show ?thesis by (simp add: Number readScalar_def readDouble_enc)
next
  case (UuidV u)
  with assms show ?thesis
    by (cases u) (auto simp: readScalar_def read_append uuid_fromBytesUnsafe_def)
next
  case (Stamp s)
  with assms show ?thesis
    by (cases s) (auto simp: readScalar_def read_append versionstamp_fromBytesUnsafe_def)
qed (use assms in \<open>auto simp: readScalar_def readEscaped_esc text_decode_encode split: if_splits\<close>)

text \<open>
  A list of elements is read element by element; nested tuples end at a terminator, the tuple at the
  top at the end of the input.
\<close>

definition reads_back :: "tuple_value \<Rightarrow> bool" where
  "reads_back v \<longleftrightarrow> (\<forall>N n vals r. follows r \<longrightarrow>
     readTuple N n vals (enc n v @ r) = readTuple N n (vals @ [v]) r)"

lemma readTuple_encs:
  "\<forall>v \<in> set vs. reads_back v \<Longrightarrow> list_all packable vs \<Longrightarrow> follows r \<Longrightarrow>
     readTuple N n vals (encs n vs @ r) = readTuple N n (vals @ vs) r"
  by (induction vs arbitrary: vals) (simp_all add: reads_back_def follows_encs)

lemma readTuple_terminator: "follows r \<Longrightarrow> readTuple N True vals (NIL # r) = Inr (vals, r)"
  by (cases r) simp_all

lemma reads_back_scalar:
  assumes "packable v" and "constructed v" and "\<forall>vs. v \<noteq> Nested vs"
  shows "reads_back v"
proof (cases "v = Null")
  case True
  then show ?thesis by (simp add: reads_back_def readScalar_def)
next
  case False
  have n: "enc n v = enc False v" for n using assms False by (cases v) auto
  obtain code e where c: "enc False v = code # e" and lo: "codeLow v \<le> unat code"
    and hi: "unat code \<le> codeHigh v"
    using enc_hd [OF assms(1)] by metis
  moreover from False have "0 < codeLow v" by (cases v) (simp_all add: codeLow_def)
  moreover have "unat code \<noteq> 5"
    using lo hi assms(3) by (cases v) (auto simp: codeLow_def codeHigh_def)
  ultimately have code: "code \<noteq> NIL" "code \<noteq> NESTED" by auto
  have "readTuple N m vals (enc m v @ r) = readTuple N m (vals @ [v]) r" if "follows r" for N m vals r
    using readScalar_enc [OF assms(1,2) that assms(3) c, of N] code n [of m] by (simp add: c)
  then show ?thesis by (simp add: reads_back_def)
qed

lemma readTuple_nested:
  "readTuple N n vals (NESTED # rest) =
     bindR (readTuple N True [] rest) (\<lambda>(v, rest). readTuple N n (vals @ [Nested v]) rest)"
  by (cases "readTuple N True [] rest") (auto simp del: readTuple.simps simp: readTuple.simps(2) [of _ _ _ NESTED])

lemma reads_back: "packable v \<Longrightarrow> constructed v \<Longrightarrow> reads_back v"
proof (induction v)
  case (Nested vs)
  then have "\<forall>v \<in> set vs. reads_back v" by (auto simp: list_all_iff)
  then have "readTuple N n vals (enc n (Nested vs) @ r) = readTuple N n (vals @ [Nested vs]) r"
    if "follows r" for N n vals r
    using Nested.prems that
    by (simp add: readTuple_encs readTuple_terminator readTuple_nested enc_Nested
        del: enc.simps readTuple.simps)
  then show ?case by (simp add: reads_back_def)
qed (rule reads_back_scalar; simp)+

theorem readTuple_enc:
  assumes "list_all packable vs" and "list_all constructed vs" and "follows r"
  shows "readTuple N n vals (encs n vs @ r) = readTuple N n (vals @ vs) r"
  using assms by (intro readTuple_encs) (auto simp: list_all_iff reads_back)

lemma parse_encs:
  "list_all packable t \<Longrightarrow> list_all constructed t \<Longrightarrow> parse (encs False t) = Inr t"
  using readTuple_enc [of t "[]" "length (encs False t)" False "[]"] by (simp add: parse_def)

lemma encs_inj:
  assumes "list_all packable t" "list_all constructed t" "list_all packable u" "list_all constructed u"
    and "encs False t = encs False u"
  shows "t = u"
  using parse_encs [OF assms(1,2)] parse_encs [OF assms(3,4)] assms(5) by (metis sum.inject(2))

end
