(* ===== verification/Subspaces.thy ===== *)
theory Subspaces
  imports Tuple_Roundtrip
begin

text \<open>
  Key namespaces, src/src/tuple/Subspace.ts. A subspace is a raw prefix with the offsets of the
  incomplete versionstamps in it. The interface \<open>tuple_codec\<close> states what a namespace relies on: an
  encoding of tuples that is compositional, decodable and order preserving. Inside it the facts about
  keys under a prefix are proved; the codec of the program is an instance.
\<close>

section \<open>What a key namespace needs of a tuple encoding\<close>

locale tuple_codec =
  fixes encode :: "'v list \<Rightarrow> bytes"
    and decode :: "bytes \<Rightarrow> 'e + 'v list"
    and valid :: "'v list \<Rightarrow> bool"
    and tuple_lt :: "'v list \<Rightarrow> 'v list \<Rightarrow> bool"
  assumes valid_append: "valid (t @ u) \<longleftrightarrow> valid t \<and> valid u"
    and encode_append: "encode (t @ u) = encode t @ encode u"
    and decode_encode: "valid t \<Longrightarrow> decode (encode t) = Inr t"
    and encode_less: "valid t \<Longrightarrow> valid u \<Longrightarrow> encode t < encode u \<longleftrightarrow> tuple_lt t u"
    and encode_follows: "valid t \<Longrightarrow> follows (encode t)"
    and encode_Nil: "valid t \<Longrightarrow> encode t = [] \<longleftrightarrow> t = []"
    and encode_prefix: "valid t \<Longrightarrow> valid u \<Longrightarrow> encode u = encode t @ r \<Longrightarrow> follows r \<Longrightarrow> prefix t u"
begin

lemma encode_inj: "valid t \<Longrightarrow> valid u \<Longrightarrow> encode t = encode u \<longleftrightarrow> t = u"
  by (metis decode_encode sum.inject(2))

lemma lt_irrefl: "valid t \<Longrightarrow> \<not> tuple_lt t t"
  using encode_less [of t t] by simp

lemma lt_trans: "valid t \<Longrightarrow> valid u \<Longrightarrow> valid v \<Longrightarrow> tuple_lt t u \<Longrightarrow> tuple_lt u v \<Longrightarrow> tuple_lt t v"
  using encode_less [of t u] encode_less [of u v] encode_less [of t v] by (simp add: order.strict_trans)

lemma lt_total: "valid t \<Longrightarrow> valid u \<Longrightarrow> t \<noteq> u \<Longrightarrow> tuple_lt t u \<or> tuple_lt u t"
  using encode_less [of t u] encode_less [of u t] encode_inj [of t u] by (meson linorder_neqE)

lemma key_less:
  "valid t \<Longrightarrow> valid u \<Longrightarrow> p @ encode t < p @ encode u \<longleftrightarrow> tuple_lt t u"
  by (simp add: append_less_append_same encode_less)

lemma in_range_iff:
  "p @ [NIL] \<le> k \<and> k < p @ [ESCAPE] \<longleftrightarrow> (\<exists>r. k = p @ r \<and> r \<noteq> [] \<and> follows r)"
proof (induction p arbitrary: k)
  case Nil
  show ?case by (cases k) (auto simp: list_le_def word8_less_255 word8_pos)
next
  case (Cons a p)
  show ?case
  proof (cases k)
    case k: (Cons b k')
    show ?thesis
    proof (cases "a = b")
      case True
      with Cons.IH [of k'] show ?thesis by (simp add: k)
    next
      case False
      then show ?thesis by (auto simp: k list_le_def dest: less_asym)
    qed
  qed (simp add: list_le_def)
qed

text \<open>The keys of a range are exactly the proper extensions of its tuple.\<close>

lemma range_exact:
  assumes "valid t" and "valid u"
  shows "p @ encode t @ [NIL] \<le> p @ encode u \<and> p @ encode u < p @ encode t @ [ESCAPE]
    \<longleftrightarrow> strict_prefix t u"
proof -
  have "p @ encode t @ [NIL] \<le> p @ encode u \<and> p @ encode u < p @ encode t @ [ESCAPE]
      \<longleftrightarrow> (\<exists>r. encode u = encode t @ r \<and> r \<noteq> [] \<and> follows r)"
    using in_range_iff [of "p @ encode t" "p @ encode u"] by simp
  also have "\<dots> \<longleftrightarrow> strict_prefix t u"
  proof
    assume "\<exists>r. encode u = encode t @ r \<and> r \<noteq> [] \<and> follows r"
    then obtain r where r: "encode u = encode t @ r" "r \<noteq> []" "follows r" by blast
    then have "prefix t u" using encode_prefix assms by blast
    moreover have "t \<noteq> u" using r by auto
    ultimately show "strict_prefix t u" by (simp add: strict_prefix_def)
  next
    assume "strict_prefix t u"
    then obtain v where v: "u = t @ v" "v \<noteq> []" by (auto simp: strict_prefix_def prefix_def)
    then have "valid v" using assms valid_append by simp
    with v show "\<exists>r. encode u = encode t @ r \<and> r \<noteq> [] \<and> follows r"
      using encode_append encode_Nil encode_follows by auto
  qed
  finally show ?thesis .
qed

text \<open>Ranges of tuples of which neither extends the other have no key in common, not even a malformed one.\<close>

lemma range_disjoint':
  assumes "valid t" and "valid u" and "encode t @ r = encode u @ r'" and "r \<noteq> []" and "follows r"
    and "length (encode t) \<le> length (encode u)"
  shows "prefix t u"
proof -
  have "prefix (encode t) (encode u)"
    using assms(3,6) by (metis prefixI prefix_length_prefix)
  then obtain q where q: "encode u = encode t @ q" by (auto simp: prefix_def)
  then have "r = q @ r'" using assms(3) by simp
  then have "follows q" using assms(4,5) by (cases q) simp_all
  with q assms show ?thesis using encode_prefix by blast
qed

lemma range_disjoint:
  assumes "valid t" and "valid u" and "\<not> prefix t u" and "\<not> prefix u t"
    and "p @ encode t @ [NIL] \<le> k \<and> k < p @ encode t @ [ESCAPE]"
  shows "\<not> (p @ encode u @ [NIL] \<le> k \<and> k < p @ encode u @ [ESCAPE])"
proof
  assume "p @ encode u @ [NIL] \<le> k \<and> k < p @ encode u @ [ESCAPE]"
  then obtain r' where u: "k = p @ encode u @ r'" "r' \<noteq> []" "follows r'"
    using in_range_iff [of "p @ encode u" k] by auto
  obtain r where t: "k = p @ encode t @ r" "r \<noteq> []" "follows r"
    using assms(5) in_range_iff [of "p @ encode t" k] by auto
  have "encode t @ r = encode u @ r'" using t u by simp
  then show False
    using range_disjoint' [of t u r r'] range_disjoint' [of u t r' r] assms t u
    by (metis linear)
qed

end

section \<open>The tuple codec provides it\<close>

lemma readTuple_extends':
  fixes code :: byte and rest r :: bytes and vals :: tuple
  shows "True" and "readTuple N n vals r = Inr (u, r') \<Longrightarrow> prefix vals u"
proof (induction N code rest and N n vals r arbitrary: and u r' rule: readValue_readTuple.induct)
  case (3 N n vals code rest)
  show ?case
  proof (cases "n \<and> code = NIL")
    case True
    with 3 show ?thesis
      by (auto split: list.splits if_splits dest: append_prefixD)
  next
    case False
    then obtain v rest' where "readTuple N n (vals @ [v]) rest' = Inr (u, r')"
      and "readValue N code rest = Inr (v, rest')"
      using "3.prems" by (auto simp: bindR_eq_Inr simp del: readValue.simps)
    then show ?thesis using False "3.IH" append_prefixD by blast
  qed
qed (auto simp: failAt_def split: if_splits)

lemmas readTuple_extends = readTuple_extends'(2)

definition tuple_ok :: "tuple \<Rightarrow> bool" where
  "tuple_ok t \<longleftrightarrow> list_all packable t \<and> list_all constructed t"

lemma encs_prefix:
  assumes "tuple_ok t" and "tuple_ok u" and "encs False u = encs False t @ r" and "follows r"
  shows "prefix t u"
proof -
  have "readTuple N False [] (encs False u) = readTuple N False t r" for N
    using assms readTuple_enc [of t r N False "[]"] by (simp add: tuple_ok_def)
  moreover have "readTuple N False [] (encs False u) = Inr (u, [])" for N
    using assms(2) readTuple_enc [of u "[]" N False "[]"] by (simp add: tuple_ok_def)
  ultimately show ?thesis by (metis readTuple_extends)
qed

interpretation tuples: tuple_codec "encs False" unpack tuple_ok tuple_less
proof unfold_locales
  fix t u :: tuple and r :: bytes
  show "tuple_ok (t @ u) \<longleftrightarrow> tuple_ok t \<and> tuple_ok u" by (auto simp: tuple_ok_def)
  show "encs False (t @ u) = encs False t @ encs False u" by simp
  show "tuple_ok t \<Longrightarrow> unpack (encs False t) = Inr t"
    by (simp add: unpack_def parse_encs tuple_ok_def)
  show "tuple_ok t \<Longrightarrow> tuple_ok u \<Longrightarrow> encs False t < encs False u \<longleftrightarrow> tuple_less t u"
    by (simp add: encs_less tuple_ok_def)
  show "tuple_ok t \<Longrightarrow> follows (encs False t)"
    using follows_encs [of t "[]"] by (simp add: tuple_ok_def)
  show "tuple_ok t \<Longrightarrow> encs False t = [] \<longleftrightarrow> t = []"
    by (cases t) (auto simp: tuple_ok_def elim: enc_hd [where n = False])
  show "tuple_ok t \<Longrightarrow> tuple_ok u \<Longrightarrow> encs False u = encs False t @ r \<Longrightarrow> follows r \<Longrightarrow> prefix t u"
    by (rule encs_prefix)
qed

section \<open>Subspaces\<close>

record subspace =
  prefix_bytes :: bytes
  subspace_stamps :: "nat list"

definition tracked :: "bytes \<Rightarrow> nat list \<Rightarrow> subspace" where
  "tracked p stamps = \<lparr>prefix_bytes = p, subspace_stamps = stamps\<rparr>"

definition subspace_all :: subspace where
  "subspace_all = \<lparr>prefix_bytes = [], subspace_stamps = []\<rparr>"

definition fromBytes :: "bytes \<Rightarrow> subspace" where
  "fromBytes p = \<lparr>prefix_bytes = p, subspace_stamps = []\<rparr>"

definition fromTuple :: "tuple \<Rightarrow> tuple_error + subspace" where
  "fromTuple t = bindR (packTrackedSync t) (\<lambda>packed.
     Inr (tracked (packed_bytes packed) (incompleteVersionstamps packed)))"

definition subspace_pack :: "subspace \<Rightarrow> tuple \<Rightarrow> tuple_error + bytes" where
  "subspace_pack s t = bindR (pack t) (\<lambda>suffix. Inr (concatBytes [prefix_bytes s, suffix]))"

definition subspace_packWithVersionstamp :: "subspace \<Rightarrow> tuple \<Rightarrow> tuple_error + bytes" where
  "subspace_packWithVersionstamp s t =
    bindR (packTrackedSync t) (\<lambda>suffix.
      appendVersionstampOffset
        \<lparr>packed_bytes = concatBytes [prefix_bytes s, packed_bytes suffix],
         incompleteVersionstamps = subspace_stamps s
           @ map (\<lambda>offset. length (prefix_bytes s) + offset) (incompleteVersionstamps suffix)\<rparr>)"

definition contains :: "subspace \<Rightarrow> bytes \<Rightarrow> bool" where
  "contains s key \<longleftrightarrow> \<not> length key < length (prefix_bytes s)
     \<and> (\<forall>index\<in>set [0..<length (prefix_bytes s)]. key ! index = prefix_bytes s ! index)"

definition isStartOf :: "subspace \<Rightarrow> bytes \<Rightarrow> bool" where
  "isStartOf s key = contains s key"

definition subspace_unpack :: "subspace \<Rightarrow> bytes \<Rightarrow> tuple_error + tuple" where
  "subspace_unpack s key =
    (if \<not> contains s key then Inl (tupleError Unpack ''key is outside the subspace'')
     else unpack (drop (length (prefix_bytes s)) key))"

definition subspace_range :: "subspace \<Rightarrow> tuple \<Rightarrow> tuple_error + bytes \<times> bytes" where
  "subspace_range s t =
    bindR (subspace_pack s t) (\<lambda>p. Inr (concatBytes [p, [0x00]], concatBytes [p, [0xff]]))"

definition subspace :: "subspace \<Rightarrow> tuple \<Rightarrow> tuple_error + subspace" where
  "subspace s t =
    bindR (packTrackedSync t) (\<lambda>suffix.
      Inr (tracked (concatBytes [prefix_bytes s, packed_bytes suffix])
        (subspace_stamps s
          @ map (\<lambda>offset. length (prefix_bytes s) + offset) (incompleteVersionstamps suffix))))"

definition subspace_equals :: "subspace \<Rightarrow> subspace \<Rightarrow> bool" where
  "subspace_equals s other \<longleftrightarrow>
     compareBytes (prefix_bytes s) (prefix_bytes other) = 0
   \<and> length (subspace_stamps s) = length (subspace_stamps other)
   \<and> (\<forall>index\<in>set [0..<length (subspace_stamps s)].
        subspace_stamps s ! index = subspace_stamps other ! index)"

definition subspace_toString :: "subspace \<Rightarrow> js_string" where
  "subspace_toString s =
    foldl (\<lambda>output b.
        if b = 0x5c then output @ [0x5c, 0x5c]
        else if 0x20 \<le> b \<and> b \<le> 0x7e then output @ [ucast b]
        else output @ [0x5c, 0x78] @ hexByte b)
      [] (prefix_bytes s)"

section \<open>Lemmas\<close>

lemma contains_prefix [simp]: "contains s key \<longleftrightarrow> prefix (prefix_bytes s) key"
  unfolding contains_def startsWith_def [symmetric] by (rule startsWith_prefix)

lemma subspace_equals_eq: "subspace_equals s u \<longleftrightarrow> s = u"
  by (cases s; cases u) (auto simp: subspace_equals_def compareBytes_cases intro: nth_equalityI
      split: if_splits)

lemma subspace_pack_enc [enc_simps]:
  "tuple_ok t \<Longrightarrow> subspace_pack s t = Inr (prefix_bytes s @ encs False t)"
  by (simp add: subspace_pack_def pack_enc tuple_ok_def)

lemma subspace_range_enc [enc_simps]:
  "tuple_ok t \<Longrightarrow> subspace_range s t =
     Inr (prefix_bytes s @ encs False t @ [NIL], prefix_bytes s @ encs False t @ [ESCAPE])"
  by (simp add: subspace_range_def subspace_pack_enc)

lemma subspace_unpack_enc [enc_simps]:
  "tuple_ok t \<Longrightarrow> subspace_unpack s (prefix_bytes s @ encs False t) = Inr t"
  by (simp add: subspace_unpack_def tuples.decode_encode)

end
