(* ===== verification/Tuple_Properties.thy ===== *)
theory Tuple_Properties
  imports Subspaces
begin

text \<open>
  What the tuple layer promises: round trip and order of the encoding, the values it rejects, the
  versionstamp trailer, the validated value types, and the key ranges of subspaces.
\<close>

unbundle bit_operations_syntax

section \<open>Incomplete versionstamps\<close>

fun stamps :: "tuple_value \<Rightarrow> versionstamp list" where
  "stamps (Stamp s) = [s]"
| "stamps (Nested vs) = concat (map stamps vs)"
| "stamps v = []"

definition incompletes :: "tuple \<Rightarrow> versionstamp list" where
  "incompletes t = filter (\<lambda>s. \<not> isComplete s) (concat (map stamps t))"

lemma incompletes_simps [simp]:
  "incompletes [] = []"
  "incompletes (v # vs) = filter (\<lambda>s. \<not> isComplete s) (stamps v) @ incompletes vs"
  by (simp_all add: incompletes_def)

lemma length_enc_nested: "v \<noteq> Null \<Longrightarrow> enc n v = enc m v"
  by (cases v) auto

text \<open>Each recorded offset is where the twelve bytes of the corresponding versionstamp start.\<close>

definition stamped :: "bytes \<Rightarrow> nat \<Rightarrow> versionstamp \<Rightarrow> bool" where
  "stamped bs offset s \<longleftrightarrow> prefix (stamp_bytes s) (drop offset bs)"

lemma stamped_shift: "stamped bs i s \<Longrightarrow> stamped (xs @ bs) (length xs + i) s"
  by (simp add: stamped_def)

lemma stamped_append: "stamped bs i s \<Longrightarrow> stamped (bs @ ys) i s"
  by (auto simp: stamped_def prefix_def)

lemma list_all2_stamped:
  "list_all2 (stamped bs) is ss \<Longrightarrow> list_all2 (stamped (xs @ bs @ ys)) (map ((+) (length xs)) is) ss"
  by (auto simp: list_all2_conv_all_nth stamped_shift stamped_append)

lemma stampOffsets_stamped:
  "list_all2 (stamped (enc n v)) (stampOffsets n v) (filter (\<lambda>s. \<not> isComplete s) (stamps v))"
  "list_all2 (stamped (encs n vs)) (stampOffsetsL n vs) (incompletes vs)"
proof (induction n v and n vs rule: stampOffsets_stampOffsetsL.induct)
  case (1 n s)
  then show ?case by (simp add: stamped_def)
next
  case (2 n vs)
  have "list_all2 (stamped ([NESTED] @ encs True vs @ [NIL]))
      (map ((+) (length [NESTED])) (stampOffsetsL True vs)) (incompletes vs)"
    using 2 by (rule list_all2_stamped)
  moreover have "(+) (length [NESTED]) = Suc" by auto
  ultimately show ?case by (simp add: enc_Nested incompletes_def filter_concat o_def del: enc.simps)
next
  case (5 n v vs)
  have "list_all2 (stamped ([] @ enc n v @ encs n vs)) (map ((+) (length ([] :: bytes))) (stampOffsets n v))
      (filter (\<lambda>s. \<not> isComplete s) (stamps v))"
    using 5(1) by (rule list_all2_stamped)
  moreover have "list_all2 (stamped (enc n v @ encs n vs @ [])) (map ((+) (length (enc n v))) (stampOffsetsL n vs))
      (incompletes vs)"
    using 5(2) by (rule list_all2_stamped)
  ultimately show ?case by (simp add: list_all2_appendI map_idI)
qed simp_all

lemma stampOffsetsL_append:
  "stampOffsetsL n (t @ u) = stampOffsetsL n t @ map ((+) (length (encs n t))) (stampOffsetsL n u)"
  by (induction t) (simp_all add: map_idI o_def add.assoc)

section \<open>The encoding\<close>

text \<open>C6. Unpacking what the packer produced gives the tuple back, for every tuple made of values that
  the constructors can build (UUIDs of 16 bytes, versionstamps of 12).\<close>

theorem unpack_pack:
  assumes "list_all constructed t" and "pack t = Inr bs"
  shows "unpack bs = Inr t"
  using assms by (auto simp: pack_Inr_iff unpack_def parse_encs)

definition sample :: tuple where
  "sample = [Str [0x61, 0xd83d, 0xde00], Nested [Null, BigInt (- 300), Nested []], Bool True,
     Bytes [0, 0xff, 7], Stamp (Versionstamp (replicate 10 0xff @ [0, 3])),
     UuidV (Uuid (replicate 16 9)), Number 0x3ff8000000000000, Float (Float32 0xbf800000), Null]"

lemma sample_ok: "tuple_ok sample"
  by (simp add: sample_def tuple_ok_def smallInt_def magnitudeBytes_def magnitudeLoop.simps
      isHigh_def isLow_def)

lemma sample_constructed: "list_all constructed sample"
  using sample_ok by (simp add: tuple_ok_def)

theorem unpack_pack_witness: "\<exists>bs. pack sample = Inr bs \<and> unpack bs = Inr sample"
proof -
  have "pack sample = Inr (encs False sample)" using sample_ok by (simp add: tuple_ok_def pack_enc)
  with unpack_pack [OF sample_constructed this] show ?thesis by blast
qed

text \<open>C7. \<open>compare\<close> is the order of tuples: by type, then bytes and strings by code point, integers
  numerically, floats in IEEE total order, nested tuples elementwise; 0 only for equal tuples.\<close>

theorem compare_is_order:
  assumes "tuple_ok t" and "tuple_ok u"
  shows "compare t u = Inr (if tuple_less t u then - 1 else if t = u then 0 else 1)"
  using assms tuples.encode_less [OF assms] tuples.encode_inj [OF assms]
  by (simp add: compare_def pack_enc tuple_ok_def compareBytes_cases)

theorem compare_is_order_witness:
  "compare sample sample = Inr 0 \<and> compare [BigInt (- 256)] [BigInt (- 255), Null] = Inr (- 1)"
proof -
  have i: "tuple_ok [BigInt (- 256)]" "tuple_ok [BigInt (- 255), Null]"
    by (simp_all add: tuple_ok_def smallInt_def magnitudeBytes_def magnitudeLoop.simps)
  show ?thesis
    using compare_is_order [OF sample_ok sample_ok] compare_is_order [OF i]
      tuples.lt_irrefl [OF sample_ok] by simp
qed

text \<open>The packer accepts exactly the packable values (well-formed strings, integers of at most 255
  bytes of magnitude, supported types, also inside nested tuples); everything else is a \<open>TupleError\<close>
  of the pack operation.\<close>

theorem pack_accepts:
  "case pack t of
     Inr bs \<Rightarrow> list_all packable t
   | Inl (TupleError operation reason offset) \<Rightarrow> \<not> list_all packable t \<and> operation = Pack \<and> offset = None"
  using pack_enc [of t] pack_error [of t]
  by (cases "list_all packable t") (auto simp: tupleError_def)

section \<open>Value types\<close>

text \<open>The string form of a UUID parses back to the same UUID.\<close>

theorem uuid_string_roundtrip:
  assumes "length (uuid_bytes u) = 16"
  shows "uuid_fromString (uuid_toString u) = Inr u"
proof -
  let ?hex = "concat (map hexByte (uuid_bytes u))"
  have l: "length ?hex = 32" using assms by (simp only: length_hex)
  have h: "list_all isHex ?hex" "c \<in> set ?hex \<Longrightarrow> c \<noteq> hyphen" for c
    using hexByte_digits by (auto simp: list_all_iff)
  note pattern = uuid_string_pattern [OF l h(1)] and digits = uuid_string_filter [OF l h(2)]
  show ?thesis
    unfolding uuid_fromString_def uuid_toString_def Let_def
    by (simp only: pattern digits hexPairs_hexByte uuid.collapse not_True_eq_False if_False)
qed

theorem uuid_string_roundtrip_witness:
  "uuid_fromString (uuid_toString (Uuid [0, 1, 2, 3, 4, 5, 6, 7, 0x88, 0x99, 0xaa, 0xbb, 0xcc, 0xdd, 0xee, 0xff]))
     = Inr (Uuid [0, 1, 2, 3, 4, 5, 6, 7, 0x88, 0x99, 0xaa, 0xbb, 0xcc, 0xdd, 0xee, 0xff])"
  by (rule uuid_string_roundtrip) simp

text \<open>\<open>Versionstamp.complete\<close> stores the transaction version and the 16-bit user version, reads them
  back, and yields a complete versionstamp unless all ten transaction bytes are 0xff.\<close>

theorem versionstamp_accessors:
  assumes "length tv = 10" and "n < 65536"
  shows "\<exists>s. versionstamp_complete tv (Fin (of_nat n)) = Inr s \<and> length (stamp_bytes s) = 12
    \<and> transactionVersion s = tv \<and> userVersion s = n \<and> (isComplete s \<longleftrightarrow> tv \<noteq> replicate 10 0xff)"
proof -
  have "(\<exists>b\<in>set tv. b \<noteq> 0xff) \<longleftrightarrow> tv \<noteq> replicate 10 0xff"
  proof
    assume "\<exists>b\<in>set tv. b \<noteq> 0xff"
    then show "tv \<noteq> replicate 10 0xff" by auto
  next
    assume "tv \<noteq> replicate 10 0xff"
    then show "\<exists>b\<in>set tv. b \<noteq> 0xff"
      using replicate_eqI [of tv 10 "0xff"] assms(1) by blast
  qed
  then have "isComplete (Versionstamp (tv @ uint16BE n)) \<longleftrightarrow> tv \<noteq> replicate 10 0xff"
    using assms(1) by (simp add: isComplete_def)
  then show ?thesis
    using assms by (simp add: versionstamp_complete_int versionstamp_fields)
qed

theorem versionstamp_accessors_witness:
  "\<exists>s. versionstamp_complete (replicate 10 7) (Fin (of_nat 65535)) = Inr s \<and> userVersion s = 65535
     \<and> isComplete s"
  using versionstamp_accessors [of "replicate 10 7" 65535] by auto

section \<open>Key ranges\<close>

text \<open>C38. \<open>strinc\<close>: the keys with a prefix are exactly those from the prefix up to its \<open>strinc\<close>; it has no
  such upper end (the empty array) exactly when all its bytes are 0xff.\<close>

theorem strinc_is_range_end:
  "if strinc p = [] then set p \<subseteq> {0xff} else (startsWith k p \<longleftrightarrow> p \<le> k \<and> k < strinc p)"
  using prefix_iff_strinc_range [of p k] by (auto simp: strinc_eq_Nil)

text \<open>The range of a tuple in a subspace contains the key of another tuple exactly when that tuple
  properly extends the first: not the tuple itself, and no sibling, even when its bytes extend those
  of the tuple.\<close>

theorem range_holds_extensions:
  assumes "tuple_ok t" and "tuple_ok u"
    and "subspace_range s t = Inr (b, e)" and "subspace_pack s u = Inr k"
  shows "b \<le> k \<and> k < e \<longleftrightarrow> strict_prefix t u"
  using assms tuples.range_exact [OF assms(1,2), of "prefix_bytes s"]
  by (simp add: subspace_range_enc subspace_pack_enc)

theorem range_holds_extensions_witness:
  "\<exists>b e k. subspace_range (fromBytes [1, 2]) [Bytes []] = Inr (b, e)
     \<and> subspace_pack (fromBytes [1, 2]) [Bytes [0]] = Inr k \<and> prefix (butlast b) k \<and> \<not> (b \<le> k \<and> k < e)"
proof -
  have ok: "tuple_ok [Bytes []]" "tuple_ok [Bytes [0]]" by (simp_all add: tuple_ok_def)
  have r: "subspace_range (fromBytes [1, 2]) [Bytes []] = Inr ([1, 2, 1, 0, 0], [1, 2, 1, 0, 0xff])"
    and k: "subspace_pack (fromBytes [1, 2]) [Bytes [0]] = Inr [1, 2, 1, 0, 0xff, 0]"
    using ok by (simp_all add: subspace_range_enc subspace_pack_enc fromBytes_def)
  show ?thesis using range_holds_extensions [OF ok r k] r k by simp
qed

text \<open>A subspace unpacks every key it packs, also through child subspaces: packing in the child of \<open>t\<close>
  is packing \<open>t\<close> followed by the tuple, versionstamp trailer included.\<close>

theorem subspace_compositional:
  assumes "subspace s t = Inr c" and "tuple_ok u"
  shows "subspace_pack c u = subspace_pack s (t @ u)
    \<and> subspace_packWithVersionstamp c u = subspace_packWithVersionstamp s (t @ u)
    \<and> bindR (subspace_pack c u) (subspace_unpack c) = Inr u"
proof -
  have t: "list_all packable t"
    using assms(1) appendValue_error(2) [of t "[]" False "[]"]
    by (cases "list_all packable t") (auto simp: subspace_def packTrackedSync_def bindR_eq_Inr)
  have c: "c = \<lparr>prefix_bytes = prefix_bytes s @ encs False t,
      subspace_stamps = subspace_stamps s @ map ((+) (length (prefix_bytes s))) (stampOffsetsL False t)\<rparr>"
    using assms(1) t by (simp add: subspace_def packTrackedSync_enc tracked_def)
  have u: "list_all packable u" using assms(2) by (simp add: tuple_ok_def)
  have "subspace_packWithVersionstamp c u = subspace_packWithVersionstamp s (t @ u)"
    using t u by (simp add: c subspace_packWithVersionstamp_def packTrackedSync_enc
        stampOffsetsL_append o_def add.assoc)
  moreover have "subspace_pack c u = subspace_pack s (t @ u)"
    using t u by (simp add: c subspace_pack_def pack_enc)
  moreover have "bindR (subspace_pack c u) (subspace_unpack c) = Inr u"
    using assms(2) by (simp add: subspace_pack_enc subspace_unpack_enc)
  ultimately show ?thesis by blast
qed

theorem subspace_compositional_witness:
  "\<exists>c. subspace (fromBytes [9]) sample = Inr c \<and> subspace_pack c sample = subspace_pack (fromBytes [9]) (sample @ sample)"
proof -
  have "list_all packable sample" using sample_ok by (simp add: tuple_ok_def)
  then obtain c where c: "subspace (fromBytes [9]) sample = Inr c"
    by (simp add: subspace_def packTrackedSync_enc)
  from subspace_compositional [OF c sample_ok] c show ?thesis by blast
qed

lemma incompletes_length:
  assumes "list_all constructed t" and "incompletes t = v # vs"
  shows "length (stamp_bytes v) = 12"
proof -
  have "constructed x \<Longrightarrow> s \<in> set (stamps x) \<Longrightarrow> length (stamp_bytes s) = 12" for x s
    by (induction x) (auto simp: list_all_iff)
  moreover have "v \<in> set (incompletes t)" using assms(2) by simp
  ultimately show ?thesis using assms(1) by (auto simp: incompletes_def list_all_iff)
qed

text \<open>The versionstamp trailer: a tuple with no incomplete versionstamp packs as usual, one with exactly
  one gets the little-endian offset at which its twelve bytes start in the whole key, and several
  are an error.\<close>

theorem versionstamp_trailer:
  assumes "tuple_ok t" and "length p + length (encs False t) \<le> 0xffffffff"
  shows "\<exists>key. subspace_pack (fromBytes p) t = Inr key \<and>
    (case incompletes t of
       [] \<Rightarrow> subspace_packWithVersionstamp (fromBytes p) t = Inr key
     | [v] \<Rightarrow> (\<exists>offset. offset < length key \<and> take 12 (drop offset key) = stamp_bytes v
          \<and> subspace_packWithVersionstamp (fromBytes p) t = Inr (key @ rev (natBE 4 offset)))
     | _ \<Rightarrow> subspace_packWithVersionstamp (fromBytes p) t
          = Inl (tupleError Pack ''tuple contains multiple incomplete versionstamps''))"
proof -
  let ?k = "p @ encs False t" and ?os = "stampOffsetsL False t"
  have pk: "list_all packable t" using assms(1) by (simp add: tuple_ok_def)
  have st: "list_all2 (stamped (p @ encs False t @ [])) (map ((+) (length p)) ?os) (incompletes t)"
    by (intro list_all2_stamped stampOffsets_stamped(2))
  have tr: "subspace_packWithVersionstamp (fromBytes p) t = appendVersionstampOffset
      \<lparr>packed_bytes = ?k, incompleteVersionstamps = map ((+) (length p)) ?os\<rparr>"
    using pk by (simp add: subspace_packWithVersionstamp_def packTrackedSync_enc fromBytes_def)
  have key: "subspace_pack (fromBytes p) t = Inr ?k"
    using assms(1) by (simp add: subspace_pack_enc fromBytes_def)
  consider "incompletes t = []" | v where "incompletes t = [v]" | v w vs where "incompletes t = v # w # vs"
    by (metis list.exhaust)
  then show ?thesis
  proof cases
    case 1
    with st key tr show ?thesis by (simp add: appendVersionstampOffset_def)
  next
    case 2
    then obtain off where off: "map ((+) (length p)) ?os = [off]" and s: "stamped ?k off v"
      using st by (auto simp: list_all2_Cons2)
    have "length (stamp_bytes v) = 12" using assms(1) incompletes_length [OF _ 2] by (simp add: tuple_ok_def)
    with s have t12: "take 12 (drop off ?k) = stamp_bytes v"
      by (simp add: stamped_def take_eq_prefix)
    with \<open>length (stamp_bytes v) = 12\<close> have "off < length ?k"
      by (metis drop_all linorder_not_less list.size(3) take_Nil zero_neq_numeral)
    moreover from this have "\<not> 0xffffffff < off" using assms(2) by simp
    moreover from this have "subspace_packWithVersionstamp (fromBytes p) t = Inr (?k @ rev (natBE 4 off))"
      using tr off by (simp add: appendVersionstampOffset_def)
    ultimately show ?thesis unfolding 2 list.case using key t12 by blast
  next
    case 3
    with st key tr show ?thesis by (auto simp: list_all2_Cons2 appendVersionstampOffset_def)
  qed
qed

text \<open>The trailer of a key with one incomplete versionstamp after the two bytes of the prefix.\<close>

definition stamp_sample :: tuple where
  "stamp_sample = [Null, Stamp (Versionstamp (replicate 10 0xff @ [0, 1]))]"

theorem versionstamp_trailer_witness:
  "\<exists>key offset. subspace_pack (fromBytes [7, 7]) stamp_sample = Inr key
     \<and> take 12 (drop offset key) = replicate 10 0xff @ [0, 1]
     \<and> subspace_packWithVersionstamp (fromBytes [7, 7]) stamp_sample = Inr (key @ rev (natBE 4 offset))"
proof -
  have ok: "tuple_ok stamp_sample" by (simp add: stamp_sample_def tuple_ok_def)
  have l: "length [7 :: byte, 7] + length (encs False stamp_sample) \<le> 0xffffffff"
    by (simp add: stamp_sample_def)
  have i: "incompletes stamp_sample = [Versionstamp (replicate 10 0xff @ [0, 1])]"
    by (simp add: stamp_sample_def isComplete_def)
  from versionstamp_trailer [OF ok l] i show ?thesis by auto
qed

end
