(* ===== verification/Fdb.thy ===== *)
theory Fdb
  imports Subspaces
begin

text \<open>
  The transaction interface of the database (\<open>FoundationDbTransactionShape\<close> of src/src/FoundationDb.ts)
  as the layers use it. FoundationDB itself is not part of the repository: its operations are a record
  that every layer takes as an argument, and the locale \<open>fdb\<close> states the documented behaviour that the
  layers rely on: a transaction reads its own writes, range reads return the matching rows in key order,
  and \<open>Add\<close> is little-endian addition at the width of its operand. A driver call that fails aborts the
  attempt, which the retry loop handles (theory \<open>Transactions\<close>); the operations here are those of an attempt
  in which the calls succeed. The operations are instantiated by an in-memory store.
\<close>

section \<open>model.ts\<close>

record key_selector =
  selector_key :: bytes
  orEqual :: bool
  selector_offset :: int

definition lastLessThan :: "bytes \<Rightarrow> key_selector" where
  "lastLessThan key = \<lparr>selector_key = key, orEqual = False, selector_offset = 0\<rparr>"

definition lastLessOrEqual :: "bytes \<Rightarrow> key_selector" where
  "lastLessOrEqual key = \<lparr>selector_key = key, orEqual = True, selector_offset = 0\<rparr>"

definition firstGreaterThan :: "bytes \<Rightarrow> key_selector" where
  "firstGreaterThan key = \<lparr>selector_key = key, orEqual = True, selector_offset = 1\<rparr>"

definition firstGreaterOrEqual :: "bytes \<Rightarrow> key_selector" where
  "firstGreaterOrEqual key = \<lparr>selector_key = key, orEqual = False, selector_offset = 1\<rparr>"

datatype mutation_type =
    Add | BitAnd | BitOr | BitXor | AppendIfFits | Max | Min
  | SetVersionstampedKey | SetVersionstampedValue | ByteMin | ByteMax | CompareAndClear

datatype conflict_range_type = ReadConflict | WriteConflict

text \<open>The options that bear on the rows returned; the streaming mode and the snapshot flag do not.\<close>

record range_options =
  range_begin :: key_selector
  range_end :: key_selector
  range_limit :: "nat option"
  range_reverse :: bool

definition keyRange :: "bytes \<Rightarrow> bytes \<Rightarrow> nat option \<Rightarrow> bool \<Rightarrow> range_options" where
  "keyRange b e limit reverse =
    \<lparr>range_begin = firstGreaterOrEqual b, range_end = firstGreaterOrEqual e,
     range_limit = limit, range_reverse = reverse\<rparr>"

section \<open>The operations of a transaction\<close>

type_synonym row = "bytes \<times> bytes"

record 's txn =
  tx_get :: "'s \<Rightarrow> bytes \<Rightarrow> bytes option"
  tx_set :: "bytes \<Rightarrow> bytes \<Rightarrow> 's \<Rightarrow> 's"
  tx_setWithoutWriteConflict :: "bytes \<Rightarrow> bytes \<Rightarrow> 's \<Rightarrow> 's"
  tx_clear :: "bytes \<Rightarrow> 's \<Rightarrow> 's"
  tx_clearRange :: "bytes \<Rightarrow> bytes \<Rightarrow> 's \<Rightarrow> 's"
  tx_clearRangeWithoutWriteConflict :: "bytes \<Rightarrow> bytes \<Rightarrow> 's \<Rightarrow> 's"
  tx_atomicOp :: "bytes \<Rightarrow> bytes \<Rightarrow> mutation_type \<Rightarrow> 's \<Rightarrow> 's"
  tx_addConflictRange :: "bytes \<Rightarrow> bytes \<Rightarrow> conflict_range_type \<Rightarrow> 's \<Rightarrow> 's"
  tx_getReadVersion :: "'s \<Rightarrow> int"
  tx_getRange :: "'s \<Rightarrow> range_options \<Rightarrow> row list"

definition tx_getMany :: "'s txn \<Rightarrow> 's \<Rightarrow> bytes list \<Rightarrow> bytes option list" where
  "tx_getMany T s keys = map (tx_get T s) keys"

text \<open>Little-endian addition at the width of the operand.\<close>

definition leNat :: "bytes \<Rightarrow> nat" where
  "leNat bs = beNat (rev bs)"

definition addLE :: "bytes option \<Rightarrow> bytes \<Rightarrow> bytes" where
  "addLE existing operand =
    (let n = length operand;
         old = (case existing of None \<Rightarrow> replicate n 0 | Some v \<Rightarrow> take n (v @ replicate n 0)) in
     rev (natBE n (leNat old + leNat operand)))"

definition limitRows :: "nat option \<Rightarrow> 'a list \<Rightarrow> 'a list" where
  "limitRows limit rows = (case limit of None \<Rightarrow> rows | Some n \<Rightarrow> take n rows)"

text \<open>A list of rows in strict key order is determined by its set.\<close>

lemma sorted_rows_unique:
  assumes "sorted_wrt (<) (map fst xs)" and "sorted_wrt (<) (map fst ys)" and "set xs = set ys"
  shows "xs = (ys :: ('a :: linorder \<times> 'b) list)"
proof -
  have d: "distinct (map fst xs)" "distinct (map fst ys)" using assms(1,2) by (auto simp: strict_sorted_iff)
  have "map fst xs = map fst ys"
    using assms strict_sorted_equal [of "map fst xs" "map fst ys"] by (simp add: image_set [symmetric])
  moreover have "length xs = length ys" using assms(3) d by (metis distinct_card distinct_map)
  ultimately show ?thesis
  proof (intro nth_equalityI)
    fix i assume i: "i < length xs"
    have "xs ! i \<in> set ys" using i assms(3) by (metis nth_mem)
    then obtain j where j: "j < length ys" "ys ! j = xs ! i" by (metis in_set_conv_nth)
    then have "map fst ys ! j = map fst ys ! i"
      using i \<open>map fst xs = map fst ys\<close> \<open>length xs = length ys\<close> by (metis nth_map)
    then have "j = i" using nth_eq_iff_index_eq [OF d(2), of j i] j i \<open>length xs = length ys\<close> by simp
    with j show "xs ! i = ys ! i" by simp
  qed
qed

section \<open>What the layers rely on\<close>

locale fdb =
  fixes T :: "'s txn"
  assumes get_set: "tx_get T (tx_set T k v s) k' = (if k' = k then Some v else tx_get T s k')"
    and get_setWithoutWriteConflict:
      "tx_get T (tx_setWithoutWriteConflict T k v s) k' = (if k' = k then Some v else tx_get T s k')"
    and get_clear: "tx_get T (tx_clear T k s) k' = (if k' = k then None else tx_get T s k')"
    and get_clearRange:
      "tx_get T (tx_clearRange T b e s) k' = (if b \<le> k' \<and> k' < e then None else tx_get T s k')"
    and get_clearRangeWithoutWriteConflict:
      "tx_get T (tx_clearRangeWithoutWriteConflict T b e s) k'
         = (if b \<le> k' \<and> k' < e then None else tx_get T s k')"
    and get_add:
      "tx_get T (tx_atomicOp T k p Add s) k' = (if k' = k then Some (addLE (tx_get T s k) p) else tx_get T s k')"
    and get_addConflictRange: "tx_get T (tx_addConflictRange T b e c s) k' = tx_get T s k'"
    and range_rows:
      "set (tx_getRange T s (keyRange b e None False)) = {(k, v). b \<le> k \<and> k < e \<and> tx_get T s k = Some v}"
    and range_sorted: "sorted_wrt (<) (map fst (tx_getRange T s (keyRange b e None False)))"
    and range_options:
      "tx_getRange T s (keyRange b e limit reverse) =
         limitRows limit ((if reverse then rev else id) (tx_getRange T s (keyRange b e None False)))"
begin

lemmas get_simps = get_set get_setWithoutWriteConflict get_clear get_clearRange
  get_clearRangeWithoutWriteConflict get_add get_addConflictRange

lemma range_row:
  "(k, v) \<in> set (tx_getRange T s (keyRange b e limit reverse)) \<Longrightarrow> b \<le> k \<and> k < e \<and> tx_get T s k = Some v"
  using range_rows [of s b e]
  by (auto simp: range_options [of s b e limit reverse] limitRows_def
      split: option.splits if_splits dest!: in_set_takeD)

lemma range_distinct: "distinct (map fst (tx_getRange T s (keyRange b e limit reverse)))"
proof -
  have "distinct (map fst (tx_getRange T s (keyRange b e None False)))"
    using range_sorted [of s b e] by (auto simp: strict_sorted_iff)
  then show ?thesis
    by (auto simp: range_options [of s b e limit reverse] limitRows_def rev_map [symmetric] take_map [symmetric]
        split: option.splits)
qed

text \<open>Two states that agree on the keys of a range return the same rows.\<close>

lemma range_cong:
  assumes "\<And>k. b \<le> k \<Longrightarrow> k < e \<Longrightarrow> tx_get T s k = tx_get T s' k"
  shows "tx_getRange T s (keyRange b e limit reverse) = tx_getRange T s' (keyRange b e limit reverse)"
proof -
  have eq: "set (tx_getRange T s (keyRange b e None False)) = set (tx_getRange T s' (keyRange b e None False))"
    using assms by (auto simp: range_rows)
  have "tx_getRange T s (keyRange b e None False) = tx_getRange T s' (keyRange b e None False)"
    by (rule sorted_rows_unique [OF range_sorted range_sorted eq])
  then show ?thesis
    by (simp only: range_options [of s b e limit reverse] range_options [of s' b e limit reverse])
qed

end

section \<open>An in-memory store\<close>

text \<open>
  A list of rows. A key selector picks a position in the sorted list of keys, as FoundationDB
  documents it; a range is the rows between two positions.
\<close>

type_synonym mem = "row list"

definition mem_set :: "bytes \<Rightarrow> bytes \<Rightarrow> mem \<Rightarrow> mem" where
  "mem_set k v m = (k, v) # filter (\<lambda>r. fst r \<noteq> k) m"

definition mem_clear :: "bytes \<Rightarrow> mem \<Rightarrow> mem" where
  "mem_clear k m = filter (\<lambda>r. fst r \<noteq> k) m"

definition mem_clearRange :: "bytes \<Rightarrow> bytes \<Rightarrow> mem \<Rightarrow> mem" where
  "mem_clearRange b e m = filter (\<lambda>r. \<not> (b \<le> fst r \<and> fst r < e)) m"

definition mem_atomicOp :: "bytes \<Rightarrow> bytes \<Rightarrow> mutation_type \<Rightarrow> mem \<Rightarrow> mem" where
  "mem_atomicOp k p t m = (if t = Add then mem_set k (addLE (map_of m k) p) m else m)"

definition mem_rows :: "mem \<Rightarrow> row list" where
  "mem_rows m = map (\<lambda>k. (k, the (map_of m k))) (sort (remdups (map fst m)))"

definition mem_position :: "row list \<Rightarrow> key_selector \<Rightarrow> nat" where
  "mem_position rows sel =
    nat (int (length (filter (\<lambda>r. fst r < selector_key sel \<or> orEqual sel \<and> fst r = selector_key sel) rows))
      + selector_offset sel - 1)"

definition mem_getRange :: "mem \<Rightarrow> range_options \<Rightarrow> row list" where
  "mem_getRange m opts =
    (let rows = mem_rows m;
         b = mem_position rows (range_begin opts);
         e = mem_position rows (range_end opts);
         found = take (e - b) (drop b rows) in
     limitRows (range_limit opts) (if range_reverse opts then rev found else found))"

definition mem_txn :: "mem txn" where
  "mem_txn = \<lparr>tx_get = map_of, tx_set = mem_set, tx_setWithoutWriteConflict = mem_set,
     tx_clear = mem_clear, tx_clearRange = mem_clearRange,
     tx_clearRangeWithoutWriteConflict = mem_clearRange, tx_atomicOp = mem_atomicOp,
     tx_addConflictRange = (\<lambda>b e c m. m), tx_getReadVersion = (\<lambda>m. 0), tx_getRange = mem_getRange\<rparr>"

lemma map_of_filter_key:
  "map_of (filter (\<lambda>r. P (fst r)) m) k = (if P k then map_of m k else None)"
  by (induction m) auto

lemma mem_get_set: "map_of (mem_set k v m) k' = (if k' = k then Some v else map_of m k')"
  using map_of_filter_key [of "\<lambda>x. x \<noteq> k" m k'] by (simp add: mem_set_def)

lemma mem_get_clear: "map_of (mem_clear k m) k' = (if k' = k then None else map_of m k')"
  using map_of_filter_key [of "\<lambda>x. x \<noteq> k" m k'] by (simp add: mem_clear_def)

lemma mem_get_clearRange:
  "map_of (mem_clearRange b e m) k' = (if b \<le> k' \<and> k' < e then None else map_of m k')"
  using map_of_filter_key [of "\<lambda>x. \<not> (b \<le> x \<and> x < e)" m k'] by (simp add: mem_clearRange_def)

lemma mem_rows_sorted: "sorted_wrt (<) (map fst (mem_rows m))"
  by (simp add: mem_rows_def o_def strict_sorted_iff)

lemma mem_rows_set: "set (mem_rows m) = {(k, v). map_of m k = Some v}"
proof (intro set_eqI iffI)
  fix r assume "r \<in> set (mem_rows m)"
  then have "snd r = the (map_of m (fst r))" "fst r \<in> fst ` set m" by (force simp: mem_rows_def)+
  then show "r \<in> {(k, v). map_of m k = Some v}"
    by (cases "map_of m (fst r)") (auto simp: map_of_eq_None_iff)
next
  fix r assume "r \<in> {(k, v). map_of m k = Some v}"
  then obtain k v where r: "r = (k, v)" "map_of m k = Some v" by blast
  then have "k \<in> fst ` set m" by (force dest: map_of_SomeD)
  then have "(k, the (map_of m k)) \<in> set (mem_rows m)" by (simp add: mem_rows_def image_iff)
  with r show "r \<in> set (mem_rows m)" by simp
qed

lemma sorted_split:
  assumes "sorted_wrt (<) (map fst (rows :: row list))"
  shows "filter (\<lambda>r. fst r < b) rows @ filter (\<lambda>r. \<not> fst r < b) rows = rows"
  using assms
proof (induction rows)
  case (Cons r rows)
  show ?case
  proof (cases "fst r < b")
    case False
    have "\<not> fst x < b" if "x \<in> set rows" for x
      using Cons.prems that False by (auto dest: less_trans)
    then have "filter (\<lambda>r. fst r < b) rows = []" by (simp add: filter_empty_conv)
    with False Cons show ?thesis by simp
  qed (use Cons in simp)
qed simp

lemma sorted_take: "sorted_wrt (<) (map fst rows) \<Longrightarrow>
    take (length (filter (\<lambda>r. fst r < b) rows)) (rows :: row list) = filter (\<lambda>r. fst r < b) rows"
  by (metis append_eq_conv_conj sorted_split)

lemma sorted_drop: "sorted_wrt (<) (map fst rows) \<Longrightarrow>
    drop (length (filter (\<lambda>r. fst r < b) rows)) (rows :: row list) = filter (\<lambda>r. \<not> fst r < b) rows"
  by (metis append_eq_conv_conj sorted_split)

lemma mem_slice:
  assumes s: "sorted_wrt (<) (map fst (rows :: row list))"
  shows "take (length (filter (\<lambda>r. fst r < e) rows) - length (filter (\<lambda>r. fst r < b) rows))
      (drop (length (filter (\<lambda>r. fst r < b) rows)) rows)
    = filter (\<lambda>r. \<not> fst r < b) (filter (\<lambda>r. fst r < e) rows)"
    (is "take (?e - ?b) _ = _")
proof -
  let ?E = "filter (\<lambda>r. fst r < e) rows"
  have "take (?e - ?b) (drop ?b rows) = drop ?b ?E" 
    unfolding drop_take [symmetric] by (simp only: sorted_take [OF s])
  also have "\<dots> = filter (\<lambda>r. \<not> fst r < b) ?E"
  proof (cases "e < b")
    case True
    have l: "?e \<le> ?b"
    proof -
      have "?E = filter (\<lambda>r. fst r < e) (filter (\<lambda>r. fst r < b) rows)"
        using True by (auto intro!: filter_cong dest: less_trans)
      then show ?thesis by (metis length_filter_le)
    qed
    have "filter (\<lambda>r. \<not> fst r < b) ?E = []"
      using True by (auto simp: filter_empty_conv dest: less_trans)
    with l show ?thesis by simp
  next
    case False
    have "filter (\<lambda>r. fst r < b) ?E = filter (\<lambda>r. fst r < b) rows"
    proof -
      have "fst r < e" if "fst r < b" for r :: row using that False by (meson less_le_trans not_less)
      then have "filter (\<lambda>r. fst r < b \<and> fst r < e) rows = filter (\<lambda>r. fst r < b) rows"
        by (intro filter_cong) auto
      then show ?thesis by (simp add: conj_commute)
    qed
    moreover have "sorted_wrt (<) (map fst ?E)"
      using s by (simp add: sorted_wrt_map sorted_wrt_filter)
    ultimately show ?thesis using sorted_drop [of ?E b] by simp
  qed
  finally show ?thesis .
qed

lemma mem_getRange_keyRange:
  "mem_getRange m (keyRange b e limit reverse)
     = limitRows limit ((if reverse then rev else id) 
         (filter (\<lambda>r. \<not> fst r < b) (filter (\<lambda>r. fst r < e) (mem_rows m))))"
  using mem_slice [OF mem_rows_sorted, of e m b]
  by (simp add: mem_getRange_def keyRange_def firstGreaterOrEqual_def mem_position_def Let_def)

interpretation mem: fdb mem_txn
proof unfold_locales
  fix m :: mem and b e :: bytes
  show "set (tx_getRange mem_txn m (keyRange b e None False))
      = {(k, v). b \<le> k \<and> k < e \<and> tx_get mem_txn m k = Some v}"
    by (auto simp: mem_txn_def mem_getRange_keyRange limitRows_def mem_rows_set not_less)
  show "sorted_wrt (<) (map fst (tx_getRange mem_txn m (keyRange b e None False)))"
    using mem_rows_sorted [of m]
    by (simp add: mem_txn_def mem_getRange_keyRange limitRows_def sorted_wrt_map sorted_wrt_filter)
qed (simp_all add: mem_txn_def mem_get_set mem_get_clear mem_get_clearRange mem_atomicOp_def
    mem_getRange_keyRange limitRows_def)

lemma fdb_mem: "fdb mem_txn"
  by (rule mem.fdb_axioms)

end
