(* ===== verification/Chunked_Value.thy ===== *)
theory Chunked_Value
  imports Fdb
begin

text \<open>
  Values over several rows, src/src/internal/chunked-value.ts: a value is cut into chunks of 8192
  bytes, stored under the integer suffixes 0, 1, 2, ... of a path, and read back as the concatenation
  of the rows of the path's range.
\<close>

definition chunkSize :: nat where
  "chunkSize = 8 * 1024"

definition chunkedValueRange :: "subspace \<Rightarrow> tuple \<Rightarrow> tuple_error + bytes \<times> bytes" where
  "chunkedValueRange sub path = subspace_range sub path"

definition concatChunks :: "bytes list \<Rightarrow> bytes" where
  "concatChunks chunks = foldl (\<lambda>output chunk. output @ chunk) [] chunks"

text \<open>\<open>Math.ceil(byteLength / chunkSize)\<close> is exact: lengths are far below 2^53.\<close>

definition splitChunkedValue :: "bytes \<Rightarrow> bytes list" where
  "splitChunkedValue v =
    (let chunks = max 1 (nat \<lceil>rat_of_nat (length v) / rat_of_nat chunkSize\<rceil>) in
     map (\<lambda>index. take chunkSize (drop (index * chunkSize) v)) [0..<chunks])"

definition readChunkedValue :: "'s txn \<Rightarrow> 's \<Rightarrow> subspace \<Rightarrow> tuple \<Rightarrow> tuple_error + bytes option" where
  "readChunkedValue T s sub path =
    bindR (chunkedValueRange sub path) (\<lambda>(b, e).
      let rows = tx_getRange T s (keyRange b e None False) in
      Inr (if length rows = 0 then None else Some (concatChunks (map snd rows))))"

definition hasChunkedValue :: "'s txn \<Rightarrow> 's \<Rightarrow> subspace \<Rightarrow> tuple \<Rightarrow> tuple_error + bool" where
  "hasChunkedValue T s sub path =
    bindR (chunkedValueRange sub path) (\<lambda>(b, e).
      let rows = tx_getRange T s (keyRange b e (Some 1) False) in
      Inr (length rows \<noteq> 0))"

definition writeChunkedValue :: "'s txn \<Rightarrow> subspace \<Rightarrow> tuple \<Rightarrow> bytes \<Rightarrow> 's \<Rightarrow> tuple_error + 's" where
  "writeChunkedValue T sub path v s =
    bindR (chunkedValueRange sub path) (\<lambda>(b, e).
      let s = tx_clearRange T b e s;
          chunks = splitChunkedValue v in
      foldR (\<lambda>index s.
          bindR (subspace_pack sub (path @ [BigInt (int index)])) (\<lambda>key.
            Inr (tx_set T key (chunks ! index) s)))
        [0..<length chunks] s)"

definition clearChunkedValue :: "'s txn \<Rightarrow> subspace \<Rightarrow> tuple \<Rightarrow> 's \<Rightarrow> tuple_error + 's" where
  "clearChunkedValue T sub path s =
    bindR (chunkedValueRange sub path) (\<lambda>(b, e). Inr (tx_clearRange T b e s))"

section \<open>Splitting\<close>

lemma concatChunks_concat [simp]: "concatChunks chunks = concat chunks"
  using concatBytes_concat [of chunks] unfolding concatBytes_def concatChunks_def .

lemma concat_slices:
  "concat (map (\<lambda>i. take c (drop (i * c) v)) [0..<n]) = take (n * c) v"
  by (induction n) (simp_all add: take_add add.commute [of c])

definition chunkCount :: "bytes \<Rightarrow> nat" where
  "chunkCount v = length (splitChunkedValue v)"

lemma chunkCount_pos: "0 < chunkCount v"
  by (simp add: chunkCount_def splitChunkedValue_def Let_def)

lemma chunkCount_enough: "length v \<le> chunkCount v * chunkSize"
proof -
  have "rat_of_nat (length v) / rat_of_nat chunkSize
      \<le> of_int \<lceil>rat_of_nat (length v) / rat_of_nat chunkSize\<rceil>" by (rule le_of_int_ceiling)
  also have "\<dots> \<le> rat_of_nat (chunkCount v)"
    by (simp add: chunkCount_def splitChunkedValue_def Let_def)
  finally have "rat_of_nat (length v) \<le> rat_of_nat (chunkCount v * chunkSize)"
    by (simp add: chunkSize_def field_simps)
  then show ?thesis by (simp only: of_nat_le_iff)
qed

lemma concat_split: "concat (splitChunkedValue v) = v"
  using chunkCount_enough [of v]
  by (simp add: splitChunkedValue_def Let_def concat_slices chunkCount_def)

lemma split_chunks_bounded: "c \<in> set (splitChunkedValue v) \<Longrightarrow> length c \<le> chunkSize"
  by (auto simp: splitChunkedValue_def Let_def)

section \<open>Tuple keys in a store\<close>

lemma key_eq [simp]:
  "tuple_ok t \<Longrightarrow> tuple_ok u \<Longrightarrow> p @ encs False t = p @ encs False u \<longleftrightarrow> t = u"
  using tuples.encode_inj by simp

lemma key_in_range:
  "tuple_ok t \<Longrightarrow> tuple_ok u \<Longrightarrow>
     p @ encs False t @ [NIL] \<le> p @ encs False u \<and> p @ encs False u < p @ encs False t @ [ESCAPE]
       \<longleftrightarrow> strict_prefix t u"
  by (rule tuples.range_exact)

lemma tuple_ok_append [simp]: "tuple_ok (t @ u) \<longleftrightarrow> tuple_ok t \<and> tuple_ok u"
  by (auto simp: tuple_ok_def)

lemma tuple_ok_simps [simp]:
  "tuple_ok []"
  "tuple_ok (v # vs) \<longleftrightarrow> packable v \<and> constructed v \<and> tuple_ok vs"
  by (auto simp: tuple_ok_def)

lemma subspace_pack_Inr: "subspace_pack sub t = Inr k \<longleftrightarrow> list_all packable t \<and> k = prefix_bytes sub @ encs False t"
  by (auto simp: subspace_pack_def bindR_eq_Inr pack_Inr_iff)

lemma subspace_range_Inr:
  "subspace_range sub t = Inr (b, e) \<longleftrightarrow> list_all packable t
     \<and> b = prefix_bytes sub @ encs False t @ [NIL] \<and> e = prefix_bytes sub @ encs False t @ [ESCAPE]"
  by (auto simp: subspace_range_def bindR_eq_Inr subspace_pack_Inr)

section \<open>The rows of a chunked value\<close>

definition chunkKey :: "subspace \<Rightarrow> tuple \<Rightarrow> nat \<Rightarrow> bytes" where
  "chunkKey sub path i = prefix_bytes sub @ encs False (path @ [BigInt (int i)])"

definition chunkRows :: "subspace \<Rightarrow> tuple \<Rightarrow> bytes \<Rightarrow> row list" where
  "chunkRows sub path v = map (\<lambda>i. (chunkKey sub path i, splitChunkedValue v ! i)) [0..<chunkCount v]"

definition writable :: "bytes \<Rightarrow> bool" where
  "writable v \<longleftrightarrow> (\<forall>i < chunkCount v. smallInt (int i))"

lemma chunkKey_less:
  "tuple_ok path \<Longrightarrow> smallInt (int i) \<Longrightarrow> smallInt (int j) \<Longrightarrow> chunkKey sub path i < chunkKey sub path j \<longleftrightarrow> i < j"
  using encInt_less [of "int i" "int j" "[]" "[]"]
  by (simp add: chunkKey_def append_less_append_same)

lemma chunkKey_eq:
  "tuple_ok path \<Longrightarrow> smallInt (int i) \<Longrightarrow> smallInt (int j) \<Longrightarrow> chunkKey sub path i = chunkKey sub path j \<longleftrightarrow> i = j"
  using chunkKey_less [of path i j sub] chunkKey_less [of path j i sub] by (metis less_irrefl linorder_neqE_nat)

lemma chunkRows_sorted:
  assumes "tuple_ok path" and "writable v"
  shows "sorted_wrt (<) (map fst (chunkRows sub path v))"
proof -
  have "i < j \<Longrightarrow> j < chunkCount v \<Longrightarrow> chunkKey sub path i < chunkKey sub path j" for i j
    using assms by (subst chunkKey_less) (auto simp: writable_def)
  then show ?thesis by (auto simp: chunkRows_def sorted_wrt_map sorted_wrt_iff_nth_less o_def)
qed

lemma chunkRows_values: "concat (map snd (chunkRows sub path v)) = v"
  using concat_split [of v] map_nth [of "splitChunkedValue v"]
  by (simp add: chunkRows_def o_def chunkCount_def)

lemma chunkKey_in_range:
  assumes "tuple_ok path" and "smallInt (int i)"
  shows "prefix_bytes sub @ encs False path @ [NIL] \<le> chunkKey sub path i
    \<and> chunkKey sub path i < prefix_bytes sub @ encs False path @ [ESCAPE]"
  using assms key_in_range [of path "path @ [BigInt (int i)]" "prefix_bytes sub"]
  by (simp add: chunkKey_def strict_prefix_def)

lemma writeChunks_Inr:
  "foldR (\<lambda>index s. bindR (subspace_pack sub (path @ [BigInt (int index)])) (\<lambda>key.
       Inr (tx_set T key (chunks ! index) s))) is s = Inr s' \<longleftrightarrow>
     (\<forall>i \<in> set is. list_all packable path \<and> smallInt (int i))
     \<and> s' = fold (\<lambda>i. tx_set T (chunkKey sub path i) (chunks ! i)) is s"
  by (induction "is" arbitrary: s) (auto simp: bindR_eq_Inr subspace_pack_Inr chunkKey_def)

lemma writeChunkedValue_Inr:
  assumes "writeChunkedValue T sub path v s = Inr s'" and "list_all constructed path"
  shows "tuple_ok path" and "writable v"
    and "s' = fold (\<lambda>i. tx_set T (chunkKey sub path i) (splitChunkedValue v ! i)) [0..<chunkCount v]
      (tx_clearRange T (prefix_bytes sub @ encs False path @ [NIL]) (prefix_bytes sub @ encs False path @ [ESCAPE]) s)"
proof -
  obtain b e where r: "subspace_range sub path = Inr (b, e)"
    and w: "foldR (\<lambda>index s. bindR (subspace_pack sub (path @ [BigInt (int index)])) (\<lambda>key.
       Inr (tx_set T key (splitChunkedValue v ! index) s))) [0..<chunkCount v] (tx_clearRange T b e s) = Inr s'"
    using assms(1)
    by (auto simp: writeChunkedValue_def chunkedValueRange_def bindR_eq_Inr Let_def chunkCount_def)
  from r have be: "list_all packable path" "b = prefix_bytes sub @ encs False path @ [NIL]"
    "e = prefix_bytes sub @ encs False path @ [ESCAPE]"
    by (simp_all add: subspace_range_Inr)
  show "tuple_ok path" using be assms(2) by (simp add: tuple_ok_def)
  show "writable v" using w by (simp add: writeChunks_Inr writable_def)
  show "s' = fold (\<lambda>i. tx_set T (chunkKey sub path i) (splitChunkedValue v ! i)) [0..<chunkCount v]
      (tx_clearRange T (prefix_bytes sub @ encs False path @ [NIL]) (prefix_bytes sub @ encs False path @ [ESCAPE]) s)"
    using w be by (simp add: writeChunks_Inr)
qed

lemma writeChunkedValue_ok:
  assumes "tuple_ok path" and "writable v"
  shows "\<exists>s'. writeChunkedValue T sub path v s = Inr s'"
proof -
  have p: "list_all packable path" using assms(1) by (simp add: tuple_ok_def)
  show ?thesis
    unfolding writeChunkedValue_def chunkedValueRange_def subspace_range_enc [OF assms(1)] bindR_simps
      prod.case Let_def chunkCount_def [symmetric] writeChunks_Inr
    using p assms(2) by (simp add: writable_def)
qed

lemma writable_small: "length v \<le> chunkSize \<Longrightarrow> writable v"
proof -
  assume l: "length v \<le> chunkSize"
  have "rat_of_nat (length v) / rat_of_nat chunkSize \<le> 1"
    using l by (simp add: chunkSize_def)
  then have "nat \<lceil>rat_of_nat (length v) / rat_of_nat chunkSize\<rceil> \<le> 1" by linarith
  moreover have "chunkCount v = max 1 (nat \<lceil>rat_of_nat (length v) / rat_of_nat chunkSize\<rceil>)"
    by (simp add: chunkCount_def splitChunkedValue_def Let_def)
  ultimately have "chunkCount v = 1" by linarith
  then show ?thesis by (simp add: writable_def smallInt_def)
qed

context fdb
begin

lemma fold_set_get:
  "tx_get T (fold (\<lambda>i. tx_set T (f i) (g i)) is s) k
     = (case map_of (rev (map (\<lambda>i. (f i, g i)) is)) k of Some v \<Rightarrow> Some v | None \<Rightarrow> tx_get T s k)"
  by (induction "is" arbitrary: s rule: rev_induct) (auto simp: get_set)

lemma write_get:
  assumes "writeChunkedValue T sub path v s = Inr s'" and "list_all constructed path"
  shows "tx_get T s' k =
    (if prefix_bytes sub @ encs False path @ [NIL] \<le> k \<and> k < prefix_bytes sub @ encs False path @ [ESCAPE]
     then map_of (chunkRows sub path v) k else tx_get T s k)"
proof -
  note w = writeChunkedValue_Inr [OF assms]
  let ?b = "prefix_bytes sub @ encs False path @ [NIL]" and ?e = "prefix_bytes sub @ encs False path @ [ESCAPE]"
  have d: "distinct (map fst (chunkRows sub path v))"
    using chunkRows_sorted [OF w(1,2), of sub] by (simp add: strict_sorted_iff)
  have "map_of (rev (chunkRows sub path v)) = map_of (chunkRows sub path v)"
    using d by (subst map_of_inject_set) (simp_all add: rev_map [symmetric])
  moreover have "map_of (chunkRows sub path v) k = None" if "\<not> (?b \<le> k \<and> k < ?e)"
    using that chunkKey_in_range [OF w(1)] w(2)
    by (auto simp: map_of_eq_None_iff chunkRows_def writable_def)
  ultimately show ?thesis
    by (auto simp: w(3) fold_set_get chunkRows_def [symmetric] get_clearRange split: option.splits)
qed

lemma read_write:
  assumes "writeChunkedValue T sub path v s = Inr s'" and "list_all constructed path"
  shows "readChunkedValue T s' sub path = Inr (Some v)"
proof -
  note w = writeChunkedValue_Inr [OF assms]
  let ?b = "prefix_bytes sub @ encs False path @ [NIL]" and ?e = "prefix_bytes sub @ encs False path @ [ESCAPE]"
  have d: "distinct (map fst (chunkRows sub path v))"
    using chunkRows_sorted [OF w(1,2), of sub] by (simp add: strict_sorted_iff)
  have "set (tx_getRange T s' (keyRange ?b ?e None False)) = set (chunkRows sub path v)"
    using d chunkKey_in_range [OF w(1)] w(2)
    by (auto simp: range_rows write_get [OF assms] chunkRows_def writable_def dest: map_of_SomeD)
  then have "tx_getRange T s' (keyRange ?b ?e None False) = chunkRows sub path v"
    by (rule sorted_rows_unique [OF range_sorted chunkRows_sorted [OF w(1,2)]])
  moreover have "0 < length (chunkRows sub path v)" using chunkCount_pos [of v] by (simp add: chunkRows_def)
  moreover have "subspace_range sub path = Inr (?b, ?e)" using w(1) by (simp add: subspace_range_Inr tuple_ok_def)
  ultimately show ?thesis
    by (simp add: readChunkedValue_def chunkedValueRange_def chunkRows_values)
qed

lemma has_iff_read:
  "hasChunkedValue T s sub path = bindR (readChunkedValue T s sub path) (\<lambda>v. Inr (v \<noteq> None))"
  by (cases "subspace_range sub path")
    (auto simp: hasChunkedValue_def readChunkedValue_def chunkedValueRange_def limitRows_def Let_def
      range_options [of s _ _ "Some (Suc 0)" False])

text \<open>A value at a path that neither extends nor precedes the written one is not affected.\<close>

lemma read_other:
  assumes "writeChunkedValue T sub path v s = Inr s'" and "list_all constructed path"
    and "list_all constructed path'" and "\<not> prefix path path'" and "\<not> prefix path' path"
  shows "readChunkedValue T s' sub path' = readChunkedValue T s sub path'"
proof (cases "list_all packable path'")
  case True
  then have ok: "tuple_ok path'" using assms(3) by (simp add: tuple_ok_def)
  note w = writeChunkedValue_Inr [OF assms(1,2)]
  have "tx_getRange T s' (keyRange (prefix_bytes sub @ encs False path' @ [NIL])
        (prefix_bytes sub @ encs False path' @ [ESCAPE]) None False)
      = tx_getRange T s (keyRange (prefix_bytes sub @ encs False path' @ [NIL])
        (prefix_bytes sub @ encs False path' @ [ESCAPE]) None False)"
    using tuples.range_disjoint [OF ok w(1) assms(5,4), of "prefix_bytes sub"]
    by (intro range_cong) (auto simp: write_get [OF assms(1,2)])
  then show ?thesis
    using ok by (simp add: readChunkedValue_def chunkedValueRange_def subspace_range_enc)
next
  case False
  then have "subspace_range sub path' \<noteq> Inr be" for be
    by (cases be) (simp add: subspace_range_Inr)
  then obtain e where "subspace_range sub path' = Inl e"
    by (metis sum.exhaust)
  then show ?thesis by (simp add: readChunkedValue_def chunkedValueRange_def)
qed

lemma read_clear:
  assumes "clearChunkedValue T sub path s = Inr s'"
  shows "readChunkedValue T s' sub path = Inr None"
proof -
  obtain b e where be: "subspace_range sub path = Inr (b, e)" "s' = tx_clearRange T b e s"
    using assms by (auto simp: clearChunkedValue_def chunkedValueRange_def bindR_eq_Inr)
  have "set (tx_getRange T s' (keyRange b e None False)) = {}"
    by (auto simp: range_rows be(2) get_clearRange)
  then show ?thesis by (simp add: readChunkedValue_def chunkedValueRange_def be(1))
qed

end

section \<open>Properties\<close>

text \<open>C16. Writing a chunked value and reading its path gives the value, whatever was stored there before and
  whatever its length; values at unrelated paths of the subspace keep theirs, and clearing the path
  leaves nothing to read.\<close>

theorem chunked_value_roundtrip:
  assumes "fdb T" and "writeChunkedValue T sub path v s = Inr s'" and "list_all constructed path"
  shows "readChunkedValue T s' sub path = Inr (Some v)
    \<and> (list_all constructed other \<longrightarrow> \<not> prefix path other \<longrightarrow> \<not> prefix other path \<longrightarrow>
         readChunkedValue T s' sub other = readChunkedValue T s sub other)
    \<and> bindR (clearChunkedValue T sub path s') (\<lambda>s. readChunkedValue T s sub path) = Inr None"
proof -
  have ok: "tuple_ok path" using writeChunkedValue_Inr [OF assms(2,3)] by simp
  obtain s'' where c: "clearChunkedValue T sub path s' = Inr s''"
    using ok by (simp add: clearChunkedValue_def chunkedValueRange_def subspace_range_enc)
  show ?thesis
    using fdb.read_write [OF assms] fdb.read_other [OF assms] fdb.read_clear [OF assms(1) c] c by simp
qed

theorem chunked_value_roundtrip_witness:
  "\<exists>s'. writeChunkedValue mem_txn (fromBytes [3]) [BigInt 5] [7, 7, 7] [([3, 0x15, 5, 0x15, 1], [9])] = Inr s'
     \<and> readChunkedValue mem_txn s' (fromBytes [3]) [BigInt 5] = Inr (Some [7, 7, 7])"
proof -
  have ok: "tuple_ok [BigInt 5]"
    by (simp add: smallInt_def magnitudeBytes_def magnitudeLoop.simps)
  have w: "writable [7, 7, 7]" by (rule writable_small) (simp add: chunkSize_def)
  obtain s' where s': "writeChunkedValue mem_txn (fromBytes [3]) [BigInt 5] [7, 7, 7]
      [([3, 0x15, 5, 0x15, 1], [9])] = Inr s'"
    using writeChunkedValue_ok [OF ok w, where T = mem_txn and sub = "fromBytes [3]"
        and s = "[([3, 0x15, 5, 0x15, 1], [9])]"] by blast
  with chunked_value_roundtrip [OF fdb_mem s'] show ?thesis by simp
qed

end
