(* ===== verification/Keyed_Rows.thy ===== *)
theory Keyed_Rows
  imports Chunked_Value
begin

text \<open>
  Rows under named sections of a subspace, the layout every store of the program uses: the key of a
  section is the packed tuple of its name and further elements, and a section's range holds exactly the
  keys that extend it. Shared facts about such keys and about reading ranges.
\<close>

section \<open>Keys\<close>

lemma of_char_less: "(of_char x :: 16 word) < 256"
proof -
  have "(of_char x :: 16 word) = of_nat (of_char x)" by (simp add: of_nat_of_char)
  moreover have "(of_char x :: nat) < 256" by (rule nat_of_char_less_256)
  ultimately show ?thesis
    by (simp add: word_less_nat_alt unat_of_nat order.strict_trans1 [OF mod_less_eq_dividend])
qed

lemma wellFormed_js [simp]: "wellFormed (js str)"
proof -
  have low: "\<not> isHigh (of_char x) \<and> \<not> isLow (of_char x)" for x
    using of_char_less [of x] by (auto simp: isHigh_def isLow_def word_less_nat_alt word_le_nat_alt)
  have "\<forall>c \<in> set s. \<not> isHigh c \<and> \<not> isLow c \<Longrightarrow> wellFormed s" for s
    by (induction s rule: wellFormed.induct) auto
  then show ?thesis using low by (auto simp: js_def)
qed

lemma js_eq [simp]: "js s = js t \<longleftrightarrow> s = t"
proof -
  have "inj (of_char :: char \<Rightarrow> 16 word)"
  proof (rule injI)
    fix x y :: char assume "(of_char x :: 16 word) = of_char y"
    then have "(of_nat (of_char x) :: 16 word) = of_nat (of_char y)" by (simp add: of_nat_of_char)
    then have "(of_char x :: nat) = of_char y"
      using nat_of_char_less_256 [of x] nat_of_char_less_256 [of y]
      by (simp add: word_unat_eq_iff unat_of_nat del: of_nat_of_char)
    then show "x = y" by simp
  qed
  then show ?thesis by (simp add: js_def inj_map_eq_map)
qed

lemma smallInt_few: "smallInt 0" "smallInt 1"
  by (simp_all add: smallInt_def magnitudeBytes_def magnitudeLoop.simps)

lemma smallInt_mono: "0 \<le> v \<Longrightarrow> v \<le> w \<Longrightarrow> smallInt w \<Longrightarrow> smallInt v"
  using magnitude_length_mono [of "nat v" "nat w"] nat_mono [of v w] by (simp add: smallInt_def)

definition K :: "bytes \<Rightarrow> string \<Rightarrow> tuple \<Rightarrow> bytes" where
  "K p name rest = p @ encs False (Str (js name) # rest)"

lemma K_eq [simp]: "tuple_ok r1 \<Longrightarrow> tuple_ok r2 \<Longrightarrow> K p n1 r1 = K p n2 r2 \<longleftrightarrow> n1 = n2 \<and> r1 = r2"
  using key_eq [of "Str (js n1) # r1" "Str (js n2) # r2" p] by (simp add: K_def del: key_eq encs_simps append_same_eq)

lemma K_in_range:
  "tuple_ok r1 \<Longrightarrow> tuple_ok r2 \<Longrightarrow>
     K p n1 r1 @ [NIL] \<le> K p n2 r2 \<and> K p n2 r2 < K p n1 r1 @ [ESCAPE]
       \<longleftrightarrow> n1 = n2 \<and> strict_prefix r1 r2"
  using key_in_range [of "Str (js n1) # r1" "Str (js n2) # r2" p]
  by (simp add: K_def del: encs_simps)

definition inRange :: "bytes \<Rightarrow> string \<Rightarrow> tuple \<Rightarrow> bytes \<Rightarrow> bool" where
  "inRange p name r k \<longleftrightarrow> K p name r @ [NIL] \<le> k \<and> k < K p name r @ [ESCAPE]"

lemma inRange_K [simp]:
  "tuple_ok r1 \<Longrightarrow> tuple_ok r2 \<Longrightarrow> inRange p n1 r1 (K p n2 r2) \<longleftrightarrow> n1 = n2 \<and> strict_prefix r1 r2"
  unfolding inRange_def by (rule K_in_range)

lemma inRange_disjoint:
  assumes "inRange p n1 r1 k" and "inRange p n2 r2 k" and "tuple_ok r1" and "tuple_ok r2"
  shows "n1 = n2 \<and> (prefix r1 r2 \<or> prefix r2 r1)"
  using assms tuples.range_disjoint [of "Str (js n1) # r1" "Str (js n2) # r2" p k]
  by (auto simp: inRange_def K_def simp del: encs_simps)

lemma prefix_K [simp]: "prefix p (K p n r)"
  by (simp add: K_def)

lemma inRange_prefix: "inRange p n r k \<Longrightarrow> prefix p k"
  using tuples.in_range_iff [of "K p n r" k] by (auto simp: inRange_def K_def)

lemma subspace_Inr: "subspace sub t = Inr c \<Longrightarrow> prefix_bytes c = prefix_bytes sub @ encs False t"
  using appendValue_error(2) [of t "[]" False "[]"]
  by (cases "list_all packable t")
    (auto simp: subspace_def packTrackedSync_def bindR_eq_Inr appendValue_enc tracked_def)

lemma K_append: "K p n [] @ encs False r = K p n r"
  by (simp add: K_def)

lemma K_append': "K p n [] @ encs False r @ x = K p n r @ x"
  by (simp add: K_def)

lemma pack_at:
  "prefix_bytes sub = K p n [] \<Longrightarrow> subspace_pack sub r = Inr k \<longleftrightarrow> list_all packable r \<and> k = K p n r"
  by (simp add: subspace_pack_Inr K_append)

lemma range_at:
  "prefix_bytes sub = K p n [] \<Longrightarrow> subspace_range sub r = Inr (b, e) \<longleftrightarrow>
     list_all packable r \<and> b = K p n r @ [NIL] \<and> e = K p n r @ [ESCAPE]"
  by (simp add: subspace_range_Inr K_append')

lemma inRange_nested:
  assumes "inRange p n (r1 @ r2) k" and "tuple_ok r2"
  shows "inRange p n r1 k"
proof -
  have "K p n (r1 @ r2) = K p n r1 @ encs False r2" by (simp add: K_def)
  then obtain r where "k = K p n r1 @ encs False r2 @ r" "r \<noteq> []" "follows r"
    using assms(1) tuples.in_range_iff [of "K p n (r1 @ r2)" k] by (auto simp: inRange_def)
  moreover have "follows (encs False r2 @ r)"
    using assms(2) \<open>follows r\<close> by (intro follows_encs) (simp_all add: tuple_ok_def)
  ultimately show ?thesis
    using tuples.in_range_iff [of "K p n r1" k] by (auto simp: inRange_def)
qed

section \<open>Operations as functions of keys\<close>

type_synonym store = "bytes \<Rightarrow> bytes option"

context fdb
begin

lemma set_fun: "tx_get T (tx_set T k v s) = (tx_get T s)(k := Some v)"
  by (auto simp: get_set)

lemma clear_fun: "tx_get T (tx_clear T k s) = (tx_get T s)(k := None)"
  by (auto simp: get_clear)

lemma signal_fun:
  "tx_get T (tx_atomicOp T k v Add s) = (tx_get T s)(k := Some (addLE (tx_get T s k) v))"
  by (auto simp: get_add)

lemmas store_funs = set_fun clear_fun signal_fun

lemma clearChunked_Inr:
  assumes "clearChunkedValue T sub path s = Inr s'" and "prefix_bytes sub = K p n []" and "tuple_ok path"
  shows "tx_get T s' k = (if inRange p n path k then None else tx_get T s k)"
  using assms by (auto simp: clearChunkedValue_def chunkedValueRange_def bindR_eq_Inr range_at get_clearRange
      inRange_def)

lemma writeChunked_Inr:
  assumes "writeChunkedValue T sub path v s = Inr s'" and "prefix_bytes sub = K p n []"
    and "list_all constructed path" and "tx_get T s' k \<noteq> tx_get T s k"
  shows "inRange p n path k"
  using assms(4) by (simp add: write_get [OF assms(1,3)] assms(2) K_append' inRange_def split: if_splits)

lemma range_empty:
  assumes "tx_getRange T s (keyRange b e (Some n) False) = []" and "0 < n" and "b \<le> k" and "k < e"
  shows "tx_get T s k = None"
proof (rule ccontr)
  assume "tx_get T s k \<noteq> None"
  then obtain v where "tx_get T s k = Some v" by blast
  with assms(3,4) have "(k, v) \<in> set (tx_getRange T s (keyRange b e None False))" by (simp add: range_rows)
  then show False
    using assms(1,2) by (auto simp: range_options [of s b e "Some n" False] limitRows_def)
qed

lemma range_single:
  assumes r: "b \<le> fst r" "fst r < e" "tx_get T s (fst r) = Some (snd r)"
    and only: "\<And>k v. b \<le> k \<Longrightarrow> k < e \<Longrightarrow> tx_get T s k = Some v \<Longrightarrow> k = fst r" and "0 < n"
  shows "tx_getRange T s (keyRange b e (Some n) False) = [r]"
proof -
  have d: "distinct (tx_getRange T s (keyRange b e None False))"
    using range_distinct [of s b e None False] by (simp add: distinct_map)
  moreover have "set (tx_getRange T s (keyRange b e None False)) = {r}"
  proof (intro set_eqI iffI)
    fix x assume "x \<in> set (tx_getRange T s (keyRange b e None False))"
    then have x: "b \<le> fst x" "fst x < e" "tx_get T s (fst x) = Some (snd x)" by (auto simp: range_rows)
    with only [OF x] r(3) show "x \<in> {r}" by (simp add: prod_eq_iff)
  qed (use r in \<open>cases r, simp add: range_rows\<close>)
  ultimately have "tx_getRange T s (keyRange b e None False) = [r]"
    by (metis distinct_card card.empty card_insert_disjoint empty_iff finite.emptyI length_0_conv length_Suc_conv
        list.set_intros(1) singletonD One_nat_def)
  with \<open>0 < n\<close> show ?thesis by (subst range_options) (simp add: limitRows_def)
qed

lemma range_none:
  assumes "\<And>k. b \<le> k \<Longrightarrow> k < e \<Longrightarrow> tx_get T s k = None"
  shows "tx_getRange T s (keyRange b e limit False) = []"
proof -
  have "set (tx_getRange T s (keyRange b e None False)) = {}" using assms by (auto simp: range_rows)
  then show ?thesis by (simp add: range_options [of s b e limit False] limitRows_def split: option.split)
qed

end

end
