(* ===== verification/Queue_Repository.thy ===== *)
theory Queue_Repository
  imports Keyed_Rows
begin

text \<open>
  The durable queue, src/src/persisted-queue/repository.ts: the transaction bodies of \<open>offer\<close>,
  \<open>claim\<close>, \<open>refreshClaim\<close>, \<open>finalizeClaim\<close> and \<open>cleanupState\<close>, and the helpers they share. A body takes
  the transaction operations and the state of the transaction and returns an error or its result with
  the new state; a body that fails is not committed. What the repository takes from elsewhere is an
  argument: the JSON codecs of the schema library (\<open>queue_codec\<close>), the function that opens the
  directory of a queue (\<open>keysForQueue\<close>) and the time \<open>now\<close> read before the transaction. Times are
  rationals: the values are milliseconds far below 2^53, where binary64 arithmetic is exact.
\<close>

section \<open>Data\<close>

datatype queue_state = Pending | Processing | Completed | Failed

record metadata =
  entry_id :: js_string
  attempts :: int
  state :: queue_state
  visibleAt :: rat
  acquiredAt :: "rat option"
  acquiredBy :: "js_string option"
  updatedAt :: rat

record 'j queue_entry = metadata +
  element :: 'j

datatype queue_error =
    TupleFailure tuple_error
  | QueueStoreFailure string
  | SchemaFailure

record queue_keys =
  counterKey :: bytes
  signalKey :: bytes
  entries :: subspace
  ids :: subspace
  pending :: subspace
  locks :: subspace
  completed :: subspace
  failed :: subspace
  claims :: subspace

record 'j claimed_entry =
  claimId :: js_string
  claimSequence :: int
  claimEntry :: "'j queue_entry"

record 'j queue_codec =
  encodeQueueEntryMetadata :: "metadata \<Rightarrow> js_string"
  decodeQueueEntryMetadata :: "js_string \<Rightarrow> metadata option"
  encodeQueueElement :: "'j \<Rightarrow> js_string"
  decodeQueueElement :: "js_string \<Rightarrow> 'j option"

definition liftTuple :: "tuple_error + 'a \<Rightarrow> queue_error + 'a" where
  "liftTuple m = (case m of Inl e \<Rightarrow> Inl (TupleFailure e) | Inr x \<Rightarrow> Inr x)"

lemma liftTuple_simps [simp]:
  "liftTuple (Inl e) = Inl (TupleFailure e)"
  "liftTuple (Inr x) = Inr x"
  by (simp_all add: liftTuple_def)

lemma liftTuple_Inr [simp]: "liftTuple m = Inr x \<longleftrightarrow> m = Inr x"
  by (cases m) auto

definition ofOption :: "'e \<Rightarrow> 'a option \<Rightarrow> 'e + 'a" where
  "ofOption e m = (case m of None \<Rightarrow> Inl e | Some x \<Rightarrow> Inr x)"

lemma ofOption_Inr [simp]: "ofOption e m = Inr x \<longleftrightarrow> m = Some x"
  by (cases m) (auto simp: ofOption_def)

section \<open>Helpers\<close>

definition indexBatchSize :: nat where
  "indexBatchSize = 100"

definition signalIncrement :: bytes where
  "signalIncrement = [1, 0, 0, 0, 0, 0, 0, 0]"

definition MAX_SAFE_INTEGER :: int where
  "MAX_SAFE_INTEGER = 9007199254740991"

definition encodeSequence :: "int \<Rightarrow> queue_error + bytes" where
  "encodeSequence v = liftTuple (pack [BigInt v])"

text \<open>\<open>typeof value === "bigint"\<close>, with the value.\<close>

fun asBigint :: "tuple_value \<Rightarrow> int option" where
  "asBigint (BigInt n) = Some n"
| "asBigint _ = None"

definition decodeSequence :: "bytes \<Rightarrow> queue_error + int" where
  "decodeSequence v =
    bindR (liftTuple (unpack v)) (\<lambda>t.
      case (if length t = 1 then asBigint (t ! 0) else None) of
        Some n \<Rightarrow> if 0 \<le> n then Inr n
          else Inl (QueueStoreFailure ''expected one non-negative tuple integer'')
      | None \<Rightarrow> Inl (QueueStoreFailure ''expected one non-negative tuple integer''))"

definition timestamp :: "rat \<Rightarrow> int" where
  "timestamp v = max 0 (min MAX_SAFE_INTEGER \<lfloor>v\<rfloor>)"

text \<open>The causes of a failed exit: failures (marked when they are dead letters), defects, interrupts.\<close>

datatype cause_reason = FailReason bool | DieReason | InterruptReason

datatype exit = Success | Failure "cause_reason list"

definition hasDeadLetter :: "cause_reason list \<Rightarrow> bool" where
  "hasDeadLetter cause \<longleftrightarrow> (\<exists>r\<in>set cause. r = FailReason True)"

definition queueKeys :: "subspace \<Rightarrow> queue_error + queue_keys" where
  "queueKeys directory =
    bindR (liftTuple (subspace_pack directory [Str (js ''counter'')])) (\<lambda>counterKey.
    bindR (liftTuple (subspace_pack directory [Str (js ''signal'')])) (\<lambda>signalKey.
    bindR (liftTuple (subspace directory [Str (js ''entries'')])) (\<lambda>entries.
    bindR (liftTuple (subspace directory [Str (js ''ids'')])) (\<lambda>ids.
    bindR (liftTuple (subspace directory [Str (js ''pending'')])) (\<lambda>pending.
    bindR (liftTuple (subspace directory [Str (js ''locks'')])) (\<lambda>locks.
    bindR (liftTuple (subspace directory [Str (js ''completed'')])) (\<lambda>completed.
    bindR (liftTuple (subspace directory [Str (js ''failed'')])) (\<lambda>failed.
    bindR (liftTuple (subspace directory [Str (js ''claims'')])) (\<lambda>claims.
      Inr \<lparr>counterKey = counterKey, signalKey = signalKey, entries = entries, ids = ids,
        pending = pending, locks = locks, completed = completed, failed = failed,
        claims = claims\<rparr>)))))))))"

text \<open>\<open>TextDecoder\<close> drops a leading byte order mark.\<close>

definition decodeUtf8 :: "bytes \<Rightarrow> queue_error + js_string" where
  "decodeUtf8 v =
    ofOption (QueueStoreFailure ''invalid UTF-8'')
      (text_decode (if take 3 v = [0xEF, 0xBB, 0xBF] then drop 3 v else v))"

definition readEntryMetadata ::
    "'s txn \<Rightarrow> 'j queue_codec \<Rightarrow> 's \<Rightarrow> subspace \<Rightarrow> int \<Rightarrow> queue_error + metadata option" where
  "readEntryMetadata T C s sub sequence =
    bindR (liftTuple (subspace_pack sub [BigInt sequence, Str (js ''metadata'')])) (\<lambda>metadataKey.
      case tx_get T s metadataKey of
        None \<Rightarrow> Inr None
      | Some encoded \<Rightarrow>
          bindR (decodeUtf8 encoded) (\<lambda>text.
          bindR (ofOption SchemaFailure (decodeQueueEntryMetadata C text)) (\<lambda>m. Inr (Some m))))"

definition withElement :: "metadata \<Rightarrow> 'j \<Rightarrow> 'j queue_entry" where
  "withElement m j = metadata.extend m \<lparr>element = j\<rparr>"

definition readEntry ::
    "'s txn \<Rightarrow> 'j queue_codec \<Rightarrow> 's \<Rightarrow> subspace \<Rightarrow> int \<Rightarrow> queue_error + 'j queue_entry option" where
  "readEntry T C s sub sequence =
    bindR (readEntryMetadata T C s sub sequence) (\<lambda>metadata.
    bindR (liftTuple (readChunkedValue T s sub [BigInt sequence, Str (js ''element'')]))
      (\<lambda>encodedElement.
      case (metadata, encodedElement) of
        (None, None) \<Rightarrow> Inr None
      | (Some m, Some encoded) \<Rightarrow>
          bindR (decodeUtf8 encoded) (\<lambda>text.
          bindR (ofOption SchemaFailure (decodeQueueElement C text)) (\<lambda>j.
            Inr (Some (withElement m j))))
      | _ \<Rightarrow> Inl (QueueStoreFailure ''incomplete persisted queue entry'')))"

definition writeEntryMetadata ::
    "'s txn \<Rightarrow> 'j queue_codec \<Rightarrow> subspace \<Rightarrow> int \<Rightarrow> metadata \<Rightarrow> 's \<Rightarrow> queue_error + 's" where
  "writeEntryMetadata T C sub sequence entry s =
    (let metadata = encodeQueueEntryMetadata C entry in
     bindR (liftTuple (subspace_pack sub [BigInt sequence, Str (js ''metadata'')])) (\<lambda>key.
       Inr (tx_set T key (text_encode metadata) s)))"

definition createEntry ::
    "'s txn \<Rightarrow> 'j queue_codec \<Rightarrow> subspace \<Rightarrow> int \<Rightarrow> 'j queue_entry \<Rightarrow> 's \<Rightarrow> queue_error + 's" where
  "createEntry T C sub sequence entry s =
    bindR (writeEntryMetadata T C sub sequence (metadata.truncate entry) s) (\<lambda>s.
      liftTuple (writeChunkedValue T sub [BigInt sequence, Str (js ''element'')]
        (text_encode (encodeQueueElement C (element entry))) s))"

definition clearEntry :: "'s txn \<Rightarrow> subspace \<Rightarrow> int \<Rightarrow> 's \<Rightarrow> queue_error + 's" where
  "clearEntry T sub sequence s = liftTuple (clearChunkedValue T sub [BigInt sequence] s)"

definition indexBefore :: "'s txn \<Rightarrow> 's \<Rightarrow> subspace \<Rightarrow> rat \<Rightarrow> queue_error + row list" where
  "indexBefore T s sub t =
    bindR (liftTuple (subspace_range sub [])) (\<lambda>(b, rangeEnd).
    bindR (if t < 0 then Inr b
           else if of_int MAX_SAFE_INTEGER \<le> t then Inr rangeEnd
           else liftTuple (subspace_pack sub [BigInt (\<lfloor>t\<rfloor> + 1)])) (\<lambda>e.
      Inr (tx_getRange T s (keyRange b e (Some indexBatchSize) False))))"

definition addDelay :: "rat \<Rightarrow> js_number \<Rightarrow> rat" where
  "addDelay now milliseconds =
    (case milliseconds of
       Fin ms \<Rightarrow> of_int \<lceil>min (of_int MAX_SAFE_INTEGER) (now + max 0 ms)\<rceil>
     | NotFinite \<Rightarrow> of_int MAX_SAFE_INTEGER)"

text \<open>Setting an index row: \<open>transaction.set(index.pack([time, sequence]), encodeSequence(sequence))\<close>.\<close>

definition setIndex :: "'s txn \<Rightarrow> subspace \<Rightarrow> int \<Rightarrow> int \<Rightarrow> 's \<Rightarrow> queue_error + 's" where
  "setIndex T index time sequence s =
    bindR (liftTuple (subspace_pack index [BigInt time, BigInt sequence])) (\<lambda>key.
    bindR (encodeSequence sequence) (\<lambda>v. Inr (tx_set T key v s)))"

definition bumpSignal :: "'s txn \<Rightarrow> queue_keys \<Rightarrow> 's \<Rightarrow> 's" where
  "bumpSignal T keys s = tx_atomicOp T (signalKey keys) signalIncrement Add s"

section \<open>offer\<close>

definition offer ::
    "'s txn \<Rightarrow> 'j queue_codec \<Rightarrow> (js_string \<Rightarrow> 's \<Rightarrow> queue_error + queue_keys \<times> 's) \<Rightarrow>
     js_string \<Rightarrow> js_string \<Rightarrow> 'j \<Rightarrow> rat \<Rightarrow> 's \<Rightarrow> queue_error + 's" where
  "offer T C keysForQueue name eid elem now s =
    bindR (keysForQueue name s) (\<lambda>(keys, s).
    bindR (liftTuple (subspace_pack (ids keys) [Str eid])) (\<lambda>idKey.
    if tx_get T s idKey \<noteq> None then Inr s
    else
      bindR (case tx_get T s (counterKey keys) of
               None \<Rightarrow> Inr 0
             | Some encodedSequence \<Rightarrow> decodeSequence encodedSequence) (\<lambda>sequence.
      let entry = \<lparr>entry_id = eid, attempts = 0, state = Pending, visibleAt = now,
            acquiredAt = None, acquiredBy = None, updatedAt = now, element = elem\<rparr> in
      bindR (encodeSequence sequence) (\<lambda>sequenceValue.
      bindR (createEntry T C (entries keys) sequence entry s) (\<lambda>s.
      let s = tx_set T idKey sequenceValue s in
      bindR (liftTuple (subspace_pack (pending keys) [BigInt (timestamp now), BigInt sequence]))
        (\<lambda>pendingKey.
      let s = tx_set T pendingKey sequenceValue s in
      bindR (encodeSequence (sequence + 1)) (\<lambda>next.
      let s = tx_set T (counterKey keys) next s in
      Inr (bumpSignal T keys s))))))))"

section \<open>claim\<close>

datatype 'j claim_result = Claimed "'j claimed_entry" | ClaimProgress | ClaimWait

text \<open>An entry whose lock has expired goes back to pending, or fails when its attempts are used up.\<close>

definition recoverLock ::
    "'s txn \<Rightarrow> 'j queue_codec \<Rightarrow> queue_keys \<Rightarrow> rat \<Rightarrow> rat \<Rightarrow> int \<Rightarrow> row \<Rightarrow> bool \<times> 's
      \<Rightarrow> queue_error + bool \<times> 's" where
  "recoverLock T C keys now expiredAt maxAttempts lock rs =
    (let (recoveredPending, s) = rs in
     bindR (decodeSequence (snd lock)) (\<lambda>sequence.
     bindR (readEntryMetadata T C s (entries keys) sequence) (\<lambda>entry.
     case entry of
       None \<Rightarrow> Inr (recoveredPending, tx_clear T (fst lock) s)
     | Some entry \<Rightarrow>
         (case acquiredAt entry of
            None \<Rightarrow> Inr (recoveredPending, tx_clear T (fst lock) s)
          | Some acquired \<Rightarrow>
              if state entry \<noteq> Processing \<or> expiredAt < acquired then
                Inr (recoveredPending, tx_clear T (fst lock) s)
              else
                let s = tx_clear T (fst lock) s in
                bindR (case acquiredBy entry of
                    None \<Rightarrow> Inr s
                  | Some owner \<Rightarrow>
                      bindR (liftTuple (subspace_pack (claims keys) [Str owner])) (\<lambda>key.
                        Inr (tx_clear T key s))) (\<lambda>s.
                let recovered = (if attempts entry \<ge> maxAttempts
                  then entry\<lparr>state := Failed, acquiredAt := None, acquiredBy := None, updatedAt := now\<rparr>
                  else entry\<lparr>state := Pending, visibleAt := now, acquiredAt := None,
                         acquiredBy := None, updatedAt := now\<rparr>) in
                bindR (writeEntryMetadata T C (entries keys) sequence recovered s) (\<lambda>s.
                bindR (setIndex T (if state recovered = Failed then failed keys else pending keys)
                         (timestamp now) sequence s) (\<lambda>s.
                Inr (recoveredPending \<or> state recovered = Pending, s))))))))"

text \<open>The scan of the pending index: the first entry that can be processed is claimed.\<close>

fun claimPending ::
    "'s txn \<Rightarrow> 'j queue_codec \<Rightarrow> queue_keys \<Rightarrow> bytes \<Rightarrow> js_string \<Rightarrow> rat \<Rightarrow> int \<Rightarrow> row list \<Rightarrow> 's
      \<Rightarrow> queue_error + 'j claimed_entry option \<times> 's" where
  "claimPending T C keys claimKey cid now maxAttempts [] s = Inr (None, s)"
| "claimPending T C keys claimKey cid now maxAttempts (candidate # rows) s =
    bindR (decodeSequence (snd candidate)) (\<lambda>sequence.
    bindR (readEntry T C s (entries keys) sequence) (\<lambda>entry.
    case entry of
      None \<Rightarrow> claimPending T C keys claimKey cid now maxAttempts rows (tx_clear T (fst candidate) s)
    | Some entry \<Rightarrow>
        if state entry \<noteq> Pending then
          claimPending T C keys claimKey cid now maxAttempts rows (tx_clear T (fst candidate) s)
        else if now < visibleAt entry then
          bindR (setIndex T (pending keys) (timestamp (of_int \<lceil>visibleAt entry\<rceil>)) sequence
                  (tx_clear T (fst candidate) s)) (\<lambda>s.
          claimPending T C keys claimKey cid now maxAttempts rows s)
        else if maxAttempts \<le> attempts entry then
          let failedEntry = entry\<lparr>state := Failed, updatedAt := now\<rparr> in
          bindR (writeEntryMetadata T C (entries keys) sequence (metadata.truncate failedEntry)
                  (tx_clear T (fst candidate) s)) (\<lambda>s.
          bindR (setIndex T (failed keys) (timestamp now) sequence s) (\<lambda>s.
          claimPending T C keys claimKey cid now maxAttempts rows s))
        else
          let processing = entry\<lparr>attempts := attempts entry + 1, state := Processing,
                acquiredAt := Some now, acquiredBy := Some cid, updatedAt := now\<rparr> in
          bindR (writeEntryMetadata T C (entries keys) sequence (metadata.truncate processing)
                  (tx_clear T (fst candidate) s)) (\<lambda>s.
          bindR (setIndex T (locks keys) (timestamp now) sequence s) (\<lambda>s.
          bindR (encodeSequence sequence) (\<lambda>v.
          Inr (Some \<lparr>claimId = cid, claimSequence = sequence, claimEntry = processing\<rparr>,
               tx_set T claimKey v s))))))"

text \<open>The part of \<open>claim\<close> after the check for an earlier claim: recover expired locks, then scan.\<close>

definition scanIndexes ::
    "'s txn \<Rightarrow> 'j queue_codec \<Rightarrow> queue_keys \<Rightarrow> rat \<Rightarrow> bytes \<Rightarrow> js_string \<Rightarrow> int \<Rightarrow> rat \<Rightarrow> 's
      \<Rightarrow> queue_error + 'j claim_result \<times> 's" where
  "scanIndexes T C keys lockExpiration claimKey cid maxAttempts now s =
    (let expiredAt = now - lockExpiration in
     bindR (indexBefore T s (locks keys) expiredAt) (\<lambda>expired.
     bindR (foldR (recoverLock T C keys now expiredAt maxAttempts) expired (False, s))
       (\<lambda>(recoveredPending, s).
     let s = (if recoveredPending then bumpSignal T keys s else s) in
     bindR (indexBefore T s (pending keys) now) (\<lambda>candidates.
     bindR (claimPending T C keys claimKey cid now maxAttempts candidates s) (\<lambda>(found, s).
     case found of
       Some c \<Rightarrow> Inr (Claimed c, s)
     | None \<Rightarrow>
         if expired \<noteq> [] \<or> candidates \<noteq> [] then Inr (ClaimProgress, s)
         else Inr (ClaimWait, s))))))"

definition claim ::
    "'s txn \<Rightarrow> 'j queue_codec \<Rightarrow> (js_string \<Rightarrow> 's \<Rightarrow> queue_error + queue_keys \<times> 's) \<Rightarrow> rat \<Rightarrow>
     js_string \<Rightarrow> js_string \<Rightarrow> int \<Rightarrow> rat \<Rightarrow> 's \<Rightarrow> queue_error + 'j claim_result \<times> 's" where
  "claim T C keysForQueue lockExpiration name cid maxAttempts now s =
    bindR (keysForQueue name s) (\<lambda>(keys, s).
    bindR (liftTuple (subspace_pack (claims keys) [Str cid])) (\<lambda>claimKey.
    bindR (case tx_get T s claimKey of
        None \<Rightarrow> Inr (None, s)
      | Some previousClaim \<Rightarrow>
          bindR (decodeSequence previousClaim) (\<lambda>sequence.
          bindR (readEntry T C s (entries keys) sequence) (\<lambda>entry.
          case entry of
            Some entry \<Rightarrow>
              if state entry = Processing \<and> acquiredBy entry = Some cid
              then Inr (Some \<lparr>claimId = cid, claimSequence = sequence, claimEntry = entry\<rparr>, s)
              else Inr (None, tx_clear T claimKey s)
          | None \<Rightarrow> Inr (None, tx_clear T claimKey s)))) (\<lambda>(held, s).
    case held of
      Some c \<Rightarrow> Inr (Claimed c, s)
    | None \<Rightarrow> scanIndexes T C keys lockExpiration claimKey cid maxAttempts now s)))"

section \<open>refreshClaim and finalizeClaim\<close>

text \<open>The guard both share: the entry is still processed by this claim; its lock time.\<close>

definition heldSince :: "'j claimed_entry \<Rightarrow> metadata option \<Rightarrow> (metadata \<times> rat) option" where
  "heldSince claimed entry =
    (case entry of
       None \<Rightarrow> None
     | Some m \<Rightarrow>
         if state m \<noteq> Processing \<or> acquiredBy m \<noteq> Some (claimId claimed) then None
         else (case acquiredAt m of None \<Rightarrow> None | Some acquired \<Rightarrow> Some (m, acquired)))"

definition refreshClaim ::
    "'s txn \<Rightarrow> 'j queue_codec \<Rightarrow> (js_string \<Rightarrow> 's \<Rightarrow> queue_error + queue_keys \<times> 's) \<Rightarrow>
     js_string \<Rightarrow> 'j claimed_entry \<Rightarrow> rat \<Rightarrow> 's \<Rightarrow> queue_error + 's" where
  "refreshClaim T C keysForQueue name claimed now s =
    bindR (keysForQueue name s) (\<lambda>(keys, s).
    bindR (readEntryMetadata T C s (entries keys) (claimSequence claimed)) (\<lambda>entry.
    case heldSince claimed entry of
      None \<Rightarrow> Inr s
    | Some (m, acquired) \<Rightarrow>
        bindR (liftTuple (subspace_pack (locks keys)
                [BigInt (timestamp acquired), BigInt (claimSequence claimed)])) (\<lambda>lockKey.
        let s = tx_clear T lockKey s in
        bindR (writeEntryMetadata T C (entries keys) (claimSequence claimed)
                (m\<lparr>acquiredAt := Some now\<rparr>) s) (\<lambda>s.
        setIndex T (locks keys) (timestamp now) (claimSequence claimed) s))))"

text \<open>What becomes of the entry: its new state, when it is visible again, and whether the attempt counts.\<close>

definition finalState ::
    "(cause_reason list \<Rightarrow> bool) \<Rightarrow> int \<Rightarrow> (int \<Rightarrow> js_number) \<Rightarrow> exit \<Rightarrow> 'j claimed_entry \<Rightarrow> rat
      \<Rightarrow> queue_state \<times> rat \<times> bool" where
  "finalState hasInterruptsOnly maxAttempts retryDelay exit claimed now =
    (case exit of
       Success \<Rightarrow> (Completed, now, False)
     | Failure cause \<Rightarrow>
         if hasDeadLetter cause then (Failed, now, False)
         else if hasInterruptsOnly cause then (Pending, now, True)
         else if maxAttempts \<le> attempts (claimEntry claimed) then (Failed, now, False)
         else (Pending, addDelay now (retryDelay (attempts (claimEntry claimed))), False))"

definition finalizeClaim ::
    "'s txn \<Rightarrow> 'j queue_codec \<Rightarrow> (js_string \<Rightarrow> 's \<Rightarrow> queue_error + queue_keys \<times> 's) \<Rightarrow>
     (cause_reason list \<Rightarrow> bool) \<Rightarrow> js_string \<Rightarrow> 'j claimed_entry \<Rightarrow> int \<Rightarrow> (int \<Rightarrow> js_number) \<Rightarrow> exit \<Rightarrow> rat
      \<Rightarrow> 's \<Rightarrow> queue_error + queue_state \<times> 's" where
  "finalizeClaim T C keysForQueue hasInterruptsOnly name claimed maxAttempts retryDelay exit now s =
    (let (newState, visible, decrementAttempt) =
       finalState hasInterruptsOnly maxAttempts retryDelay exit claimed now in
     bindR (keysForQueue name s) (\<lambda>(keys, s).
     bindR (readEntryMetadata T C s (entries keys) (claimSequence claimed)) (\<lambda>entry.
     case heldSince claimed entry of
       None \<Rightarrow> Inr (newState, s)
     | Some (m, acquired) \<Rightarrow>
         bindR (liftTuple (subspace_pack (locks keys)
                 [BigInt (timestamp acquired), BigInt (claimSequence claimed)])) (\<lambda>lockKey.
         let s = tx_clear T lockKey s in
         bindR (liftTuple (subspace_pack (claims keys) [Str (claimId claimed)])) (\<lambda>claimKey.
         let s = tx_clear T claimKey s;
             updated = m\<lparr>attempts := (if decrementAttempt then max 0 (attempts m - 1) else attempts m),
               state := newState, visibleAt := visible, acquiredAt := None, acquiredBy := None,
               updatedAt := now\<rparr> in
         bindR (writeEntryMetadata T C (entries keys) (claimSequence claimed) updated s) (\<lambda>s.
         if newState = Pending then
           bindR (setIndex T (pending keys) (timestamp visible) (claimSequence claimed) s) (\<lambda>s.
             Inr (newState, bumpSignal T keys s))
         else
           bindR (setIndex T (if newState = Completed then completed keys else failed keys)
                   (timestamp now) (claimSequence claimed) s) (\<lambda>s.
             Inr (newState, s))))))))"

section \<open>cleanup\<close>

definition cleanupRow ::
    "'s txn \<Rightarrow> 'j queue_codec \<Rightarrow> queue_keys \<Rightarrow> queue_state \<Rightarrow> rat \<Rightarrow> row \<Rightarrow> 's \<Rightarrow> queue_error + 's" where
  "cleanupRow T C keys st cutoff indexed s =
    bindR (decodeSequence (snd indexed)) (\<lambda>sequence.
    bindR (readEntryMetadata T C s (entries keys) sequence) (\<lambda>entry.
    bindR (case entry of
        None \<Rightarrow> Inr s
      | Some m \<Rightarrow>
          if state m = st \<and> updatedAt m \<le> cutoff then
            bindR (clearEntry T (entries keys) sequence s) (\<lambda>s.
            bindR (liftTuple (subspace_pack (ids keys) [Str (entry_id m)])) (\<lambda>key.
              Inr (tx_clear T key s)))
          else Inr s) (\<lambda>s.
      Inr (tx_clear T (fst indexed) s))))"

text \<open>One transaction of \<open>cleanupState\<close>; it returns the number of index rows it handled.\<close>

definition cleanupBatch ::
    "'s txn \<Rightarrow> 'j queue_codec \<Rightarrow> (js_string \<Rightarrow> 's \<Rightarrow> queue_error + queue_keys \<times> 's) \<Rightarrow>
     js_string \<Rightarrow> queue_state \<Rightarrow> rat \<Rightarrow> 's \<Rightarrow> queue_error + nat \<times> 's" where
  "cleanupBatch T C keysForQueue name st cutoff s =
    bindR (keysForQueue name s) (\<lambda>(keys, s).
    bindR (indexBefore T s (if st = Completed then completed keys else failed keys) cutoff) (\<lambda>rows.
    bindR (foldR (cleanupRow T C keys st cutoff) rows s) (\<lambda>s.
      Inr (length rows, s))))"

end
