(* ===== verification/Queue_Invariant.thy ===== *)
theory Queue_Invariant
  imports Queue_Repository
begin

text \<open>
  The invariant of a persisted queue and its preservation. Every entry is where its state says: a
  pending entry has a row in the pending index at its visibility time, an entry in processing has a
  lock row at its acquisition time and its owner's claim row, a finished entry has a row in the index
  of its outcome; its id points to it and its sequence is below the counter. Index rows are well
  formed. Each operation of the repository changes the rows of one sequence at a time (\<open>touch\<close>), and
  the invariant survives if the rows of that sequence are consistent again afterwards.
\<close>

section \<open>The invariant\<close>

locale queue_codec =
  fixes C :: "'j queue_codec"
  assumes decode_encode_metadata: "decodeQueueEntryMetadata C (encodeQueueEntryMetadata C m) = Some m"
    and metadata_wellFormed: "wellFormed (encodeQueueEntryMetadata C m)"
    and metadata_no_mark: "take 3 (text_encode (encodeQueueEntryMetadata C m)) \<noteq> [0xEF, 0xBB, 0xBF]"
    and decode_encode_element: "decodeQueueElement C (encodeQueueElement C j) = Some j"
    and element_wellFormed: "wellFormed (encodeQueueElement C j)"
    and element_no_mark: "take 3 (text_encode (encodeQueueElement C j)) \<noteq> [0xEF, 0xBB, 0xBF]"

definition decodeMeta :: "'j queue_codec \<Rightarrow> bytes \<Rightarrow> metadata option" where
  "decodeMeta C b = (case decodeUtf8 b of Inl e \<Rightarrow> None | Inr t \<Rightarrow> decodeQueueEntryMetadata C t)"

abbreviation metaKey :: "bytes \<Rightarrow> int \<Rightarrow> bytes" where
  "metaKey p q \<equiv> K p ''entries'' [BigInt q, Str (js ''metadata'')]"

definition metaAt :: "'j queue_codec \<Rightarrow> bytes \<Rightarrow> store \<Rightarrow> int \<Rightarrow> metadata option" where
  "metaAt C p g q = Option.bind (g (metaKey p q)) (decodeMeta C)"

abbreviation seqValue :: "int \<Rightarrow> bytes" where
  "seqValue q \<equiv> encInt q"

definition counterOf :: "bytes \<Rightarrow> store \<Rightarrow> int" where
  "counterOf p g = (case g (K p ''counter'' []) of None \<Rightarrow> 0
     | Some b \<Rightarrow> (case decodeSequence b of Inl e \<Rightarrow> 0 | Inr n \<Rightarrow> n))"

definition whole :: "rat \<Rightarrow> bool" where
  "whole r \<longleftrightarrow> of_int \<lfloor>r\<rfloor> = r \<and> r \<le> of_int MAX_SAFE_INTEGER"

definition entry_ok :: "metadata \<Rightarrow> bool" where
  "entry_ok m \<longleftrightarrow> wellFormed (entry_id m) \<and> whole (visibleAt m) \<and> whole (updatedAt m)"

fun indexed :: "bytes \<Rightarrow> store \<Rightarrow> int \<Rightarrow> metadata \<Rightarrow> queue_state \<Rightarrow> bool" where
  "indexed p g q m Pending \<longleftrightarrow>
     g (K p ''pending'' [BigInt (timestamp (visibleAt m)), BigInt q]) = Some (seqValue q)"
| "indexed p g q m Processing \<longleftrightarrow>
     (\<exists>a c. acquiredAt m = Some a \<and> whole a \<and> acquiredBy m = Some c \<and> wellFormed c
       \<and> g (K p ''locks'' [BigInt (timestamp a), BigInt q]) = Some (seqValue q)
       \<and> g (K p ''claims'' [Str c]) = Some (seqValue q))"
| "indexed p g q m Completed \<longleftrightarrow>
     g (K p ''completed'' [BigInt (timestamp (updatedAt m)), BigInt q]) = Some (seqValue q)"
| "indexed p g q m Failed \<longleftrightarrow>
     g (K p ''failed'' [BigInt (timestamp (updatedAt m)), BigInt q]) = Some (seqValue q)"

definition good :: "bytes \<Rightarrow> store \<Rightarrow> int \<Rightarrow> metadata \<Rightarrow> bool" where
  "good p g q m \<longleftrightarrow> entry_ok m \<and> 0 \<le> q \<and> q < counterOf p g
     \<and> g (K p ''ids'' [Str (entry_id m)]) = Some (seqValue q) \<and> indexed p g q m (state m)"

definition indexNames :: "string set" where
  "indexNames = {''pending'', ''locks'', ''completed'', ''failed''}"

text \<open>A row of an index: its key holds a time and the sequence that is its value.\<close>

definition indexRow :: "bytes \<Rightarrow> string \<Rightarrow> bytes \<Rightarrow> bytes \<Rightarrow> bool" where
  "indexRow p name k v \<longleftrightarrow>
     (\<exists>t q. smallInt t \<and> smallInt q \<and> 0 \<le> q \<and> k = K p name [BigInt t, BigInt q] \<and> v = seqValue q)"

definition queue_inv :: "'j queue_codec \<Rightarrow> bytes \<Rightarrow> store \<Rightarrow> bool" where
  "queue_inv C p g \<longleftrightarrow>
     (\<forall>q m. smallInt q \<longrightarrow> metaAt C p g q = Some m \<longrightarrow> good p g q m)
   \<and> (\<forall>name\<in>indexNames. \<forall>k v. inRange p name [] k \<longrightarrow> g k = Some v \<longrightarrow> indexRow p name k v)"

section \<open>Changes of one sequence\<close>

definition mayTouch :: "'j queue_codec \<Rightarrow> bytes \<Rightarrow> int \<Rightarrow> store \<Rightarrow> bytes \<Rightarrow> bytes option \<Rightarrow> bool" where
  "mayTouch C p q g k v \<longleftrightarrow>
     inRange p ''entries'' [BigInt q] k
   \<or> (\<exists>name\<in>indexNames. \<exists>t. smallInt t \<and> k = K p name [BigInt t, BigInt q] \<and> v \<in> {None, Some (seqValue q)})
   \<or> (\<exists>c. wellFormed c \<and> k = K p ''claims'' [Str c]
        \<and> (\<forall>q' m. smallInt q' \<longrightarrow> q' \<noteq> q \<longrightarrow> metaAt C p g q' = Some m \<longrightarrow> state m = Processing
             \<longrightarrow> acquiredBy m \<noteq> Some c))
   \<or> (\<exists>i. wellFormed i \<and> k = K p ''ids'' [Str i] \<and> g k \<in> {None, Some (seqValue q)})
   \<or> k = K p ''signal'' []"

definition touch :: "'j queue_codec \<Rightarrow> bytes \<Rightarrow> int \<Rightarrow> store \<Rightarrow> store \<Rightarrow> bool" where
  "touch C p q g g' \<longleftrightarrow> (\<forall>k. g' k \<noteq> g k \<longrightarrow>
     mayTouch C p q g k (g' k) \<or> k = K p ''counter'' [] \<and> counterOf p g \<le> counterOf p g')"

lemma smallInt_seq_inj: "encInt q = encInt r \<Longrightarrow> smallInt q \<Longrightarrow> smallInt r \<Longrightarrow> q = r"
  using encInt_less [of q r "[]" "[]"] encInt_less [of r q "[]" "[]"] by (metis append_Nil2 less_irrefl linorder_neqE)

lemma smallInt_max: "smallInt MAX_SAFE_INTEGER"
  by (simp add: smallInt_def MAX_SAFE_INTEGER_def magnitudeBytes_def magnitudeLoop.simps)

lemma timestamp_bounds: "0 \<le> timestamp r" "timestamp r \<le> MAX_SAFE_INTEGER"
  by (simp_all add: timestamp_def MAX_SAFE_INTEGER_def)

lemma timestamp_small [simp]: "smallInt (timestamp r)"
  using smallInt_mono [OF timestamp_bounds smallInt_max] .

section \<open>Preservation\<close>

lemma touch_frame:
  assumes "touch C p q g g'" and "smallInt q" and "tuple_ok r"
    and "\<not> (name = ''entries'' \<and> strict_prefix [BigInt q] r)"
    and "\<not> (name \<in> indexNames \<and> (\<exists>t. r = [BigInt t, BigInt q]))"
    and "name \<notin> {''claims'', ''ids'', ''counter'', ''signal''}"
  shows "g' (K p name r) = g (K p name r)"
proof (rule ccontr)
  assume "g' (K p name r) \<noteq> g (K p name r)"
  with assms(1) show False
    unfolding touch_def mayTouch_def using assms(2-)
    by (elim allE [of _ "K p name r"]) (auto simp: indexNames_def)
qed

lemma touch_meta:
  assumes "touch C p q g g'" and "smallInt q" and "smallInt q'" and "q' \<noteq> q"
  shows "metaAt C p g' q' = metaAt C p g q'"
  using touch_frame [OF assms(1,2), of "[BigInt q', Str (js ''metadata'')]" "''entries''"] assms(3,4)
  by (simp add: metaAt_def indexNames_def strict_prefix_def)

lemma touch_index:
  assumes "touch C p q g g'" and "smallInt q" and "smallInt q'" and "smallInt t" and "q' \<noteq> q"
    and "name \<in> indexNames"
  shows "g' (K p name [BigInt t, BigInt q']) = g (K p name [BigInt t, BigInt q'])"
  using touch_frame [OF assms(1,2), of "[BigInt t, BigInt q']" name] assms(3-)
  by (auto simp: indexNames_def)

lemma touch_claim:
  assumes "touch C p q g g'" and "smallInt q" and "smallInt q'" and "q' \<noteq> q"
    and "metaAt C p g q' = Some m" and "state m = Processing" and "acquiredBy m = Some c" and "wellFormed c"
  shows "g' (K p ''claims'' [Str c]) = g (K p ''claims'' [Str c])"
proof (rule ccontr)
  assume "g' (K p ''claims'' [Str c]) \<noteq> g (K p ''claims'' [Str c])"
  with assms(1) show False
    unfolding touch_def mayTouch_def using assms(2-)
    by (elim allE [of _ "K p ''claims'' [Str c]"]) (auto simp: indexNames_def)
qed

lemma touch_id:
  assumes "touch C p q g g'" and "smallInt q" and "smallInt q'" and "q' \<noteq> q" and "wellFormed i"
    and "g (K p ''ids'' [Str i]) = Some (seqValue q')"
  shows "g' (K p ''ids'' [Str i]) = g (K p ''ids'' [Str i])"
proof (rule ccontr)
  assume "g' (K p ''ids'' [Str i]) \<noteq> g (K p ''ids'' [Str i])"
  with assms(1) show False
    unfolding touch_def mayTouch_def using assms(2-) smallInt_seq_inj [of q q']
    by (elim allE [of _ "K p ''ids'' [Str i]"]) (auto simp: indexNames_def)
qed

lemma touch_counter:
  assumes "touch C p q g g'" and "smallInt q"
  shows "counterOf p g \<le> counterOf p g'"
proof (cases "g' (K p ''counter'' []) = g (K p ''counter'' [])")
  case True
  then show ?thesis by (simp add: counterOf_def)
next
  case False
  with assms show ?thesis
    unfolding touch_def mayTouch_def by (elim allE [of _ "K p ''counter'' []"]) (auto simp: indexNames_def)
qed

lemma queue_inv_touch:
  assumes inv: "queue_inv C p g" and t: "touch C p q g g'" and q: "smallInt q" "0 \<le> q"
    and new: "\<And>m. metaAt C p g' q = Some m \<Longrightarrow> good p g' q m"
  shows "queue_inv C p g'"
proof -
  have "good p g' q' m" if q': "smallInt q'" "metaAt C p g' q' = Some m" for q' m
  proof (cases "q' = q")
    case True
    with new q' show ?thesis by simp
  next
    case False
    have m: "metaAt C p g q' = Some m" using touch_meta [OF t q(1) q'(1) False] q'(2) by simp
    with inv q'(1) have g: "good p g q' m" by (simp add: queue_inv_def)
    have ix: "g' (K p name [BigInt x, BigInt q']) = g (K p name [BigInt x, BigInt q'])"
      if "name \<in> indexNames" "smallInt x" for name x
      using touch_index [OF t q(1) q'(1) that(2) False that(1)] .
    have "indexed p g' q' m (state m)"
    proof (cases "state m")
      case Processing
      with g obtain a c where ac: "acquiredAt m = Some a" "whole a" "acquiredBy m = Some c" "wellFormed c"
        "g (K p ''locks'' [BigInt (timestamp a), BigInt q']) = Some (seqValue q')"
        "g (K p ''claims'' [Str c]) = Some (seqValue q')"
        by (auto simp: good_def)
      with touch_claim [OF t q(1) q'(1) False m Processing ac(3,4)] ix [of "''locks''" "timestamp a"] Processing
      show ?thesis by (simp add: indexNames_def)
    qed (use g ix in \<open>simp_all add: good_def indexNames_def\<close>)
    moreover have "g' (K p ''ids'' [Str (entry_id m)]) = Some (seqValue q')"
      using g touch_id [OF t q(1) q'(1) False, of "entry_id m"] by (simp add: good_def entry_ok_def)
    ultimately show ?thesis using g touch_counter [OF t q(1)] by (simp add: good_def)
  qed
  moreover have "indexRow p name k v" if n: "name \<in> indexNames" and r: "inRange p name [] k" and v: "g' k = Some v"
    for name k v
  proof (cases "g' k = g k")
    case True
    with inv n r v show ?thesis by (auto simp: queue_inv_def)
  next
    case False
    with t obtain name' x where k: "smallInt x" "name' \<in> indexNames" "k = K p name' [BigInt x, BigInt q]"
      "v = seqValue q"
      unfolding touch_def mayTouch_def using n r v q
      by (elim allE [of _ k]) (auto simp: indexNames_def dest: inRange_disjoint)
    with n r q show ?thesis by (auto simp: indexRow_def)
  qed
  ultimately show ?thesis by (simp add: queue_inv_def)
qed

section \<open>Building a change step by step\<close>

lemma touch_refl [simp]: "touch C p q g g"
  by (simp add: touch_def)

lemma touch_step:
  assumes t: "touch C p q g g'"
    and ok: "\<And>k. g'' k \<noteq> g' k \<Longrightarrow> mayTouch C p q g k (g'' k)"
    and c: "g'' (K p ''counter'' []) = g' (K p ''counter'' [])"
  shows "touch C p q g g''"
proof -
  have "counterOf p g'' = counterOf p g'" using c by (simp add: counterOf_def)
  moreover have "mayTouch C p q g k (g'' k) \<or> k = K p ''counter'' [] \<and> counterOf p g \<le> counterOf p g'"
    if "g'' k \<noteq> g k" for k
  proof (cases "g'' k = g' k")
    case True
    with t that show ?thesis by (auto simp: touch_def)
  qed (use ok in blast)
  ultimately show ?thesis by (simp add: touch_def)
qed

lemma touch_entries:
  assumes "touch C p q g g'" and "\<And>k. g'' k \<noteq> g' k \<Longrightarrow> inRange p ''entries'' [BigInt q] k" and "smallInt q"
  shows "touch C p q g g''"
proof (rule touch_step [OF assms(1)])
  fix k assume "g'' k \<noteq> g' k"
  then show "mayTouch C p q g k (g'' k)" using assms(2) by (simp add: mayTouch_def)
next
  have "\<not> inRange p ''entries'' [BigInt q] (K p ''counter'' [])" using assms(3) by simp
  then show "g'' (K p ''counter'' []) = g' (K p ''counter'' [])" using assms(2) by blast
qed

lemma touch_upd:
  "touch C p q g g' \<Longrightarrow> k \<noteq> K p ''counter'' [] \<Longrightarrow> mayTouch C p q g k v \<Longrightarrow> touch C p q g (g'(k := v))"
  by (erule touch_step) auto

lemma touch_meta_key:
  "touch C p q g g' \<Longrightarrow> smallInt q \<Longrightarrow> touch C p q g (g'(metaKey p q := v))"
  by (rule touch_upd) (simp_all add: mayTouch_def strict_prefix_def)

lemma touch_index_key:
  "touch C p q g g' \<Longrightarrow> smallInt q \<Longrightarrow> smallInt t \<Longrightarrow> name \<in> indexNames \<Longrightarrow> v \<in> {None, Some (seqValue q)} \<Longrightarrow>
     touch C p q g (g'(K p name [BigInt t, BigInt q] := v))"
  by (rule touch_upd) (auto simp: indexNames_def mayTouch_def)

lemma touch_claim_key:
  assumes "touch C p q g g'" and "wellFormed c"
    and "\<And>q' m. smallInt q' \<Longrightarrow> q' \<noteq> q \<Longrightarrow> metaAt C p g q' = Some m \<Longrightarrow> state m = Processing \<Longrightarrow> acquiredBy m \<noteq> Some c"
  shows "touch C p q g (g'(K p ''claims'' [Str c] := v))"
proof (rule touch_upd [OF assms(1)])
  show "mayTouch C p q g (K p ''claims'' [Str c]) v" using assms(2,3) unfolding mayTouch_def by blast
qed (use assms(2) in simp)

lemma touch_id_key:
  "touch C p q g g' \<Longrightarrow> wellFormed i \<Longrightarrow> g (K p ''ids'' [Str i]) \<in> {None, Some (seqValue q)} \<Longrightarrow>
     touch C p q g (g'(K p ''ids'' [Str i] := v))"
  by (rule touch_upd) (auto simp: mayTouch_def)

lemma touch_signal_key: "touch C p q g g' \<Longrightarrow> touch C p q g (g'(K p ''signal'' [] := v))"
  by (rule touch_upd) (auto simp: mayTouch_def)

lemma touch_counter_key:
  assumes "touch C p q g g'" and "counterOf p g \<le> counterOf p (g'(K p ''counter'' [] := v))"
  shows "touch C p q g (g'(K p ''counter'' [] := v))"
  using assms by (auto simp: touch_def)

lemmas touch_intros = touch_refl touch_meta_key touch_index_key touch_claim_key touch_id_key touch_signal_key

text \<open>Clearing a stale row, one that the entry of its sequence does not rely on.\<close>

lemma queue_inv_touch_same:
  assumes "queue_inv C p g" and "smallInt q" and "0 \<le> q" and "touch C p q g g'"
    and "metaAt C p g' q = metaAt C p g q"
    and "\<And>m. metaAt C p g q = Some m \<Longrightarrow> good p g q m \<Longrightarrow> good p g' q m"
  shows "queue_inv C p g'"
  using assms by (intro queue_inv_touch [OF assms(1,4,2,3)]) (auto simp: queue_inv_def)

lemma queue_inv_signal:
  assumes "queue_inv C p g"
  shows "queue_inv C p (g(K p ''signal'' [] := v))"
proof -
  have z: "smallInt 0" by (simp add: smallInt_def)
  have e: "(g(K p ''signal'' [] := v)) (K p n r) = g (K p n r)" if "n \<noteq> ''signal''" "tuple_ok r" for n r
    using that by simp
  show ?thesis
    by (rule queue_inv_touch_same [OF assms z _ touch_signal_key [OF touch_refl]])
      (auto simp: metaAt_def good_def counterOf_def entry_ok_def z e split: queue_state.splits
        elim!: indexed.elims)
qed

text \<open>The invariant only reads keys under the prefix.\<close>

lemma queue_inv_cong:
  assumes "queue_inv C p g" and "\<And>k. prefix p k \<Longrightarrow> g' k = g k"
  shows "queue_inv C p g'"
proof -
  have "g' (K p n r) = g (K p n r)" for n r using assms(2) by simp
  then have "metaAt C p g' = metaAt C p g" "good p g' = good p g"
    by (auto simp: metaAt_def good_def counterOf_def fun_eq_iff elim!: indexed.elims)
  moreover have "inRange p n r k \<Longrightarrow> g' k = g k" for n r k using assms(2) inRange_prefix by blast
  ultimately show ?thesis using assms(1) unfolding queue_inv_def by metis
qed

end
