(* ===== verification/Queue_Operations.thy ===== *)
theory Queue_Operations
  imports Queue_Invariant
begin

text \<open>
  The operations of the persisted queue keep its invariant. First the effect of each helper on the
  store as a function of keys, then one lemma per branch of an operation, then the operations.
\<close>

section \<open>Reading the key set\<close>

definition keys_at :: "bytes \<Rightarrow> queue_keys \<Rightarrow> bool" where
  "keys_at p keys \<longleftrightarrow> counterKey keys = K p ''counter'' [] \<and> signalKey keys = K p ''signal'' []
     \<and> prefix_bytes (entries keys) = K p ''entries'' [] \<and> prefix_bytes (ids keys) = K p ''ids'' []
     \<and> prefix_bytes (pending keys) = K p ''pending'' [] \<and> prefix_bytes (locks keys) = K p ''locks'' []
     \<and> prefix_bytes (completed keys) = K p ''completed'' [] \<and> prefix_bytes (failed keys) = K p ''failed'' []
     \<and> prefix_bytes (claims keys) = K p ''claims'' []"

lemma queueKeys_at: "queueKeys dir = Inr keys \<Longrightarrow> keys_at (prefix_bytes dir) keys"
  by (auto simp: queueKeys_def bindR_eq_Inr subspace_pack_Inr keys_at_def K_def dest!: subspace_Inr
      simp del: encs_simps)

lemma queueKeys_ok: "\<exists>keys. queueKeys dir = Inr keys"
  by (simp add: queueKeys_def subspace_pack_def pack_enc subspace_def packTrackedSync_enc)

text \<open>Opening the queue gives the keys under its prefix and leaves the rows there alone.\<close>

definition opensQueue ::
    "'s txn \<Rightarrow> (js_string \<Rightarrow> 's \<Rightarrow> queue_error + queue_keys \<times> 's) \<Rightarrow> js_string \<Rightarrow> bytes \<Rightarrow> bool" where
  "opensQueue T keysForQueue name p \<longleftrightarrow>
     (\<forall>s keys s'. keysForQueue name s = Inr (keys, s') \<longrightarrow>
        keys_at p keys \<and> (\<forall>k. prefix p k \<longrightarrow> tx_get T s' k = tx_get T s k))"

section \<open>The helpers\<close>

lemma encodeSequence_Inr [simp]: "encodeSequence q = Inr v \<longleftrightarrow> smallInt q \<and> v = seqValue q"
  by (auto simp: encodeSequence_def pack_Inr_iff)

lemma unpack_seq: "smallInt q \<Longrightarrow> unpack (seqValue q) = Inr [BigInt q]"
  using parse_encs [of "[BigInt q]"] by (simp add: unpack_def)

lemma decodeSequence_value [simp]: "smallInt q \<Longrightarrow> 0 \<le> q \<Longrightarrow> decodeSequence (seqValue q) = Inr q"
  by (simp add: decodeSequence_def unpack_seq)

lemma readEntryMetadata_Inr:
  assumes "readEntryMetadata T C s sub q = Inr r" and "prefix_bytes sub = K p ''entries'' []"
  shows "smallInt q" and "r = metaAt C p (tx_get T s) q"
  using assms by (auto simp: readEntryMetadata_def bindR_eq_Inr pack_at metaAt_def decodeMeta_def
      split: option.splits)

lemma truncate_withElement [simp]: "metadata.truncate (withElement m j) = m"
  by (simp add: withElement_def metadata.defs)

lemma readEntry_Inr:
  assumes "readEntry T C s sub q = Inr r" and "prefix_bytes sub = K p ''entries'' []"
  shows "smallInt q" and "map_option metadata.truncate r = metaAt C p (tx_get T s) q"
proof -
  obtain m where m: "readEntryMetadata T C s sub q = Inr m"
    using assms(1) by (auto simp: readEntry_def bindR_eq_Inr)
  note r = readEntryMetadata_Inr [OF m assms(2)]
  show "smallInt q" by (rule r(1))
  have "map_option metadata.truncate r = m"
    using assms(1) m by (auto simp: readEntry_def bindR_eq_Inr split: option.splits)
  with r(2) show "map_option metadata.truncate r = metaAt C p (tx_get T s) q" by simp
qed

context queue_codec
begin

lemma decodeMeta_encode [simp]: "decodeMeta C (text_encode (encodeQueueEntryMetadata C m)) = Some m"
  by (simp add: decodeMeta_def decodeUtf8_def metadata_no_mark text_decode_encode metadata_wellFormed
      decode_encode_metadata ofOption_def)

end

context fdb
begin

lemma writeEntryMetadata_Inr:
  assumes "writeEntryMetadata T C sub q m s = Inr s'" and "prefix_bytes sub = K p ''entries'' []"
  shows "smallInt q"
    and "tx_get T s' = (tx_get T s)(metaKey p q := Some (text_encode (encodeQueueEntryMetadata C m)))"
  using assms by (auto simp: writeEntryMetadata_def Let_def bindR_eq_Inr pack_at store_funs)

lemma setIndex_Inr:
  assumes "setIndex T sub t q s = Inr s'" and "prefix_bytes sub = K p n []"
  shows "smallInt t" and "smallInt q"
    and "tx_get T s' = (tx_get T s)(K p n [BigInt t, BigInt q] := Some (seqValue q))"
  using assms by (auto simp: setIndex_def bindR_eq_Inr pack_at store_funs)

lemma indexBefore_rows:
  assumes i: "indexBefore T s sub t = Inr rows" and sub: "prefix_bytes sub = K p n []"
    and inv: "queue_inv C p (tx_get T s)" and n: "n \<in> indexNames" and r: "(k, v) \<in> set rows"
  shows "0 \<le> t \<and> (\<exists>x q. smallInt x \<and> smallInt q \<and> 0 \<le> q \<and> k = K p n [BigInt x, BigInt q] \<and> v = seqValue q
     \<and> (x \<le> \<lfloor>t\<rfloor> \<or> of_int MAX_SAFE_INTEGER \<le> t))"
proof -
  obtain e where e: "if t < 0 then e = K p n [] @ [NIL]
      else if of_int MAX_SAFE_INTEGER \<le> t then e = K p n [] @ [ESCAPE]
      else smallInt (\<lfloor>t\<rfloor> + 1) \<and> e = K p n [BigInt (\<lfloor>t\<rfloor> + 1)]"
    and rows: "rows = tx_getRange T s (keyRange (K p n [] @ [NIL]) e (Some indexBatchSize) False)"
    using i sub by (fastforce simp: indexBefore_def bindR_eq_Inr range_at pack_at split: if_splits)
  have k: "K p n [] @ [NIL] \<le> k" "k < e" "tx_get T s k = Some v"
    using range_row [of k v s] r rows by auto
  have t: "0 \<le> t" using e k by (auto split: if_splits)
  have "e \<le> K p n [] @ [ESCAPE]"
    using e t K_in_range [of "[]" "[BigInt (\<lfloor>t\<rfloor> + 1)]" p n n]
    by (auto simp: strict_prefix_def split: if_splits)
  with k(2) have "k < K p n [] @ [ESCAPE]" by (rule less_le_trans)
  with k have "inRange p n [] k" by (simp add: inRange_def)
  with inv n k(3) have "indexRow p n k v" unfolding queue_inv_def by blast
  then obtain x q where xq: "smallInt x" "smallInt q" "0 \<le> q" "k = K p n [BigInt x, BigInt q]"
    "v = seqValue q"
    by (auto simp: indexRow_def)
  have "x \<le> \<lfloor>t\<rfloor> \<or> of_int MAX_SAFE_INTEGER \<le> t"
  proof (cases "of_int MAX_SAFE_INTEGER \<le> t")
    case False
    with e t have "smallInt (\<lfloor>t\<rfloor> + 1)" "e = K p n [BigInt (\<lfloor>t\<rfloor> + 1)]" by auto
    with xq k(2) have "tuple_less [Str (js n), BigInt x, BigInt q] [Str (js n), BigInt (\<lfloor>t\<rfloor> + 1)]"
      by (subst tuples.key_less [symmetric, of _ _ p]) (simp_all add: K_def del: encs_simps)
    then show ?thesis by simp
  qed simp
  with t xq show ?thesis by blast
qed

end

section \<open>Moving an entry from one state to another\<close>

lemma queue_inv_move:
  assumes inv: "queue_inv C p g" and q: "smallInt q" and m: "metaAt C p g q = Some m"
    and t: "touch C p q g g'" and m': "metaAt C p g' q = Some m'"
    and same: "entry_id m' = entry_id m" "g' (K p ''ids'' [Str (entry_id m)]) = g (K p ''ids'' [Str (entry_id m)])"
      "g' (K p ''counter'' []) = g (K p ''counter'' [])"
    and times: "whole (visibleAt m')" "whole (updatedAt m')"
    and index: "indexed p g' q m' (state m')"
  shows "queue_inv C p g'"
proof -
  have g: "good p g q m" using inv q m by (simp add: queue_inv_def)
  then have "0 \<le> q" by (simp add: good_def)
  moreover have "good p g' q m'"
    using g same times index by (simp add: good_def entry_ok_def counterOf_def)
  ultimately show ?thesis using m' by (intro queue_inv_touch [OF inv t q]) auto
qed

text \<open>A change that puts no entry into processing.\<close>

definition noNew :: "'j queue_codec \<Rightarrow> bytes \<Rightarrow> store \<Rightarrow> store \<Rightarrow> bool" where
  "noNew C p g g' \<longleftrightarrow> (\<forall>q m. smallInt q \<longrightarrow> metaAt C p g' q = Some m \<longrightarrow> state m = Processing
     \<longrightarrow> metaAt C p g q = Some m)"

lemma noNew_refl [simp]: "noNew C p g g"
  by (simp add: noNew_def)

lemma noNew_trans: "noNew C p g g' \<Longrightarrow> noNew C p g' g'' \<Longrightarrow> noNew C p g g''"
  by (auto simp: noNew_def)

lemma noNew_touch:
  assumes "touch C p q g g'" and "smallInt q"
    and "\<And>m. metaAt C p g' q = Some m \<Longrightarrow> state m = Processing \<Longrightarrow> metaAt C p g q = Some m"
  shows "noNew C p g g'"
  unfolding noNew_def
proof (intro allI impI)
  fix q' m assume q': "smallInt q'" "metaAt C p g' q' = Some m" "state m = Processing"
  show "metaAt C p g q' = Some m"
    using assms(3) touch_meta [OF assms(1,2) q'(1)] q'(2,3) by (cases "q' = q") auto
qed

definition unowned :: "'j queue_codec \<Rightarrow> bytes \<Rightarrow> store \<Rightarrow> js_string \<Rightarrow> bool" where
  "unowned C p g c \<longleftrightarrow> (\<forall>q m. smallInt q \<longrightarrow> metaAt C p g q = Some m \<longrightarrow> state m = Processing
     \<longrightarrow> acquiredBy m \<noteq> Some c)"

lemma unowned_noNew: "unowned C p g c \<Longrightarrow> noNew C p g g' \<Longrightarrow> unowned C p g' c"
  by (auto simp: unowned_def noNew_def)

text \<open>A change that leaves alone the entries locked after a given time.\<close>

definition keepsLocked :: "'j queue_codec \<Rightarrow> bytes \<Rightarrow> rat \<Rightarrow> store \<Rightarrow> store \<Rightarrow> bool" where
  "keepsLocked C p e g g' \<longleftrightarrow> (\<forall>q m a. smallInt q \<longrightarrow> metaAt C p g q = Some m \<longrightarrow> state m = Processing
     \<longrightarrow> acquiredAt m = Some a \<longrightarrow> e < a \<longrightarrow> metaAt C p g' q = Some m)"

lemma keepsLocked_refl [simp]: "keepsLocked C p e g g"
  by (simp add: keepsLocked_def)

lemma keepsLocked_trans: "keepsLocked C p e g g' \<Longrightarrow> keepsLocked C p e g' g'' \<Longrightarrow> keepsLocked C p e g g''"
  by (auto simp: keepsLocked_def)

text \<open>A change after which no entry is pending or in processing that was not so before, with the same metadata.\<close>

definition quiet :: "'j queue_codec \<Rightarrow> bytes \<Rightarrow> store \<Rightarrow> store \<Rightarrow> bool" where
  "quiet C p g g' \<longleftrightarrow> (\<forall>q m. smallInt q \<longrightarrow> metaAt C p g' q = Some m \<longrightarrow> state m \<in> {Pending, Processing}
     \<longrightarrow> metaAt C p g q = Some m)"

lemma quiet_noNew: "quiet C p g g' \<Longrightarrow> noNew C p g g'"
  by (auto simp: quiet_def noNew_def)

lemma quiet_touch:
  assumes "touch C p q g g'" and "smallInt q"
    and "\<And>m. metaAt C p g' q = Some m \<Longrightarrow> state m \<in> {Pending, Processing} \<Longrightarrow> metaAt C p g q = Some m"
  shows "quiet C p g g'"
  unfolding quiet_def
proof (intro allI impI)
  fix q' m assume q': "smallInt q'" "metaAt C p g' q' = Some m" "state m \<in> {Pending, Processing}"
  show "metaAt C p g q' = Some m"
    using assms(3) touch_meta [OF assms(1,2) q'(1)] q'(2,3) by (cases "q' = q") auto
qed

text \<open>No two entries are processed under the same claim.\<close>

lemma claim_owner:
  assumes "queue_inv C p g" and "smallInt q" and "smallInt q'" and "metaAt C p g q = Some m"
    and "state m = Processing" and "acquiredBy m = Some c" and "metaAt C p g q' = Some m'"
    and "state m' = Processing" and "acquiredBy m' = Some c"
  shows "q' = q"
proof -
  have "g (K p ''claims'' [Str c]) = Some (seqValue q)" "g (K p ''claims'' [Str c]) = Some (seqValue q')"
    using assms by (auto simp: queue_inv_def good_def)
  then show ?thesis using smallInt_seq_inj assms(2,3) by simp
qed

lemma processing_indexed:
  assumes "queue_inv C p g" and "smallInt q" and "metaAt C p g q = Some m" and "state m = Processing"
  obtains a c where "acquiredAt m = Some a" and "whole a" and "acquiredBy m = Some c" and "wellFormed c"
    and "g (K p ''locks'' [BigInt (timestamp a), BigInt q]) = Some (seqValue q)"
    and "g (K p ''claims'' [Str c]) = Some (seqValue q)"
proof -
  have "good p g q m" using assms(1-3) by (simp add: queue_inv_def)
  with assms(4) show ?thesis using that by (auto simp: good_def)
qed

lemma heldSince_Some:
  "heldSince claimed r = Some (m, a) \<longleftrightarrow> r = Some m \<and> state m = Processing
     \<and> acquiredBy m = Some (claimId claimed) \<and> acquiredAt m = Some a"
  by (auto simp: heldSince_def split: option.splits if_splits)

lemma keys_at_prefix:
  assumes "keys_at p keys"
  shows "prefix_bytes (entries keys) = K p ''entries'' []" "prefix_bytes (ids keys) = K p ''ids'' []"
    "prefix_bytes (pending keys) = K p ''pending'' []" "prefix_bytes (locks keys) = K p ''locks'' []"
    "prefix_bytes (completed keys) = K p ''completed'' []" "prefix_bytes (failed keys) = K p ''failed'' []"
    "prefix_bytes (claims keys) = K p ''claims'' []"
    "counterKey keys = K p ''counter'' []" "signalKey keys = K p ''signal'' []"
  using assms by (simp_all add: keys_at_def)

lemma index_names [simp]:
  "''pending'' \<in> indexNames" "''locks'' \<in> indexNames" "''completed'' \<in> indexNames" "''failed'' \<in> indexNames"
  by (simp_all add: indexNames_def)

text \<open>Reading the metadata of a sequence through updates of other keys.\<close>

lemma metaAt_upd:
  "k \<noteq> metaKey p q \<Longrightarrow> metaAt C p (g(k := v)) q = metaAt C p g q"
  by (simp add: metaAt_def)

lemma metaAt_set: "metaAt C p (g(metaKey p q := Some b)) q = decodeMeta C b"
  by (simp add: metaAt_def)

text \<open>Opening the queue before an operation does not disturb the invariant.\<close>

lemma opensQueue_inv:
  assumes "opensQueue T keysForQueue name p" and "keysForQueue name s = Inr (keys, s1)"
    and "queue_inv C p (tx_get T s)"
  shows "keys_at p keys" and "queue_inv C p (tx_get T s1)"
  using assms(1,2) queue_inv_cong [OF assms(3)] by (auto simp: opensQueue_def)

locale queue_store = fdb T + queue_codec C
  for T :: "'s txn" and C :: "'j queue_codec"
begin

lemma refresh_body_inv:
  assumes keys: "keys_at p keys" and inv: "queue_inv C p (tx_get T s)" and now: "whole now"
    and r: "readEntryMetadata T C s (entries keys) q = Inr r" "heldSince claimed r = Some (m, a)"
    and w: "writeEntryMetadata T C (entries keys) q (m\<lparr>acquiredAt := Some now\<rparr>)
       (tx_clear T (K p ''locks'' [BigInt (timestamp a), BigInt q]) s) = Inr s2"
    and x: "setIndex T (locks keys) (timestamp now) q s2 = Inr s3"
  shows "queue_inv C p (tx_get T s3)"
proof -
  let ?g = "tx_get T s"
  note at = keys_at_prefix [OF keys]
  have q: "smallInt q" and m: "metaAt C p ?g q = Some m" "state m = Processing"
    "acquiredBy m = Some (claimId claimed)" "acquiredAt m = Some a"
    using readEntryMetadata_Inr [OF r(1) at(1)] r(2) by (auto simp: heldSince_Some)
  have g: "good p ?g q m" using inv q m by (simp add: queue_inv_def)
  have f: "tx_get T s3 = ((?g(K p ''locks'' [BigInt (timestamp a), BigInt q] := None))
      (metaKey p q := Some (text_encode (encodeQueueEntryMetadata C (m\<lparr>acquiredAt := Some now\<rparr>)))))
      (K p ''locks'' [BigInt (timestamp now), BigInt q] := Some (seqValue q))"
    using setIndex_Inr [OF x at(4)] writeEntryMetadata_Inr [OF w at(1)] by (simp add: store_funs)
  show ?thesis
  proof (rule queue_inv_move [OF inv q m(1)])
    show "touch C p q ?g (tx_get T s3)" unfolding f by (intro touch_intros) (simp_all add: q)
    show "metaAt C p (tx_get T s3) q = Some (m\<lparr>acquiredAt := Some now\<rparr>)"
      by (simp add: f metaAt_upd metaAt_set q)
    show "indexed p (tx_get T s3) q (m\<lparr>acquiredAt := Some now\<rparr>) (state (m\<lparr>acquiredAt := Some now\<rparr>))"
      using g m now q by (auto simp: good_def f)
  qed (use g q in \<open>simp_all add: f good_def entry_ok_def\<close>)
qed

lemma refreshClaim_inv:
  assumes "opensQueue T keysForQueue name p" and "queue_inv C p (tx_get T s)" and "whole now"
    and "refreshClaim T C keysForQueue name claimed now s = Inr s'"
  shows "queue_inv C p (tx_get T s')"
proof -
  obtain keys s1 r where k: "keysForQueue name s = Inr (keys, s1)"
    and r: "readEntryMetadata T C s1 (entries keys) (claimSequence claimed) = Inr r"
    using assms(4) by (auto simp: refreshClaim_def bindR_eq_Inr)
  note o = opensQueue_inv [OF assms(1) k assms(2)]
  show ?thesis
  proof (cases "heldSince claimed r")
    case None
    with assms(4) k r o show ?thesis by (simp add: refreshClaim_def)
  next
    case (Some ma)
    obtain m a where ma: "ma = (m, a)" by (cases ma)
    with Some assms(4) k r obtain s2 where
      "writeEntryMetadata T C (entries keys) (claimSequence claimed) (m\<lparr>acquiredAt := Some now\<rparr>)
       (tx_clear T (K p ''locks'' [BigInt (timestamp a), BigInt (claimSequence claimed)]) s1) = Inr s2"
      "setIndex T (locks keys) (timestamp now) (claimSequence claimed) s2 = Inr s'"
      by (auto simp: refreshClaim_def bindR_eq_Inr Let_def pack_at [OF keys_at_prefix(4) [OF o(1)]])
    with Some ma show ?thesis by (intro refresh_body_inv [OF o assms(3) r]) simp_all
  qed
qed

text \<open>An entry leaves processing: its lock row and its claim go, and it enters the index of its new state.\<close>

lemma settle_inv:
  assumes keys: "keys_at p keys" and inv: "queue_inv C p (tx_get T s)"
    and q: "smallInt q" and m: "metaAt C p (tx_get T s) q = Some m" "state m = Processing" "acquiredBy m = Some c"
    and y: "smallInt y" and st: "state m' \<noteq> Processing" and same: "entry_id m' = entry_id m"
    and times: "whole (visibleAt m')" "whole (updatedAt m')"
    and w: "writeEntryMetadata T C (entries keys) q m'
       (tx_clear T (K p ''claims'' [Str c]) (tx_clear T (K p ''locks'' [BigInt y, BigInt q]) s)) = Inr s2"
    and x: "setIndex T sub (timestamp (if state m' = Pending then visibleAt m' else updatedAt m')) q s2 = Inr s3"
    and sub: "sub = (if state m' = Pending then pending keys
        else if state m' = Completed then completed keys else failed keys)"
  shows "queue_inv C p (tx_get T s3)" and "noNew C p (tx_get T s) (tx_get T s3)"
    and "smallInt q' \<Longrightarrow> q' \<noteq> q \<Longrightarrow> metaAt C p (tx_get T s3) q' = metaAt C p (tx_get T s) q'"
proof -
  let ?g = "tx_get T s"
  let ?n = "if state m' = Pending then ''pending'' else if state m' = Completed then ''completed'' else ''failed''"
  let ?t = "timestamp (if state m' = Pending then visibleAt m' else updatedAt m')"
  note at = keys_at_prefix [OF keys]
  have sub_at: "prefix_bytes sub = K p ?n []" using at sub by simp
  have n: "?n \<in> indexNames" by simp
  have g: "good p ?g q m" using inv q m by (simp add: queue_inv_def)
  then have c: "wellFormed c" using m by (auto simp: good_def)
  have own: "acquiredBy m2 \<noteq> Some c"
    if "smallInt q2" "q2 \<noteq> q" "metaAt C p ?g q2 = Some m2" "state m2 = Processing" for q2 m2
    using claim_owner [OF inv q that(1) m(1-3) that(3,4)] that(2) by blast
  have f: "tx_get T s3 = (((?g(K p ''locks'' [BigInt y, BigInt q] := None))
      (K p ''claims'' [Str c] := None))
      (metaKey p q := Some (text_encode (encodeQueueEntryMetadata C m'))))
      (K p ?n [BigInt ?t, BigInt q] := Some (seqValue q))"
    using setIndex_Inr [OF x sub_at] writeEntryMetadata_Inr [OF w at(1)] by (simp add: store_funs)
  have nn: "?n \<noteq> ''entries''" "?n \<noteq> ''ids''" "?n \<noteq> ''counter''" by simp_all
  have touched: "touch C p q ?g (tx_get T s3)"
    unfolding f
    by (intro touch_index_key touch_meta_key touch_claim_key touch_refl n q c timestamp_small)
      (use own y in simp_all)
  have new: "metaAt C p (tx_get T s3) q = Some m'"
    using nn(1) by (simp add: f metaAt_upd metaAt_set q)
  show "noNew C p ?g (tx_get T s3)"
    using new st by (intro noNew_touch [OF touched q]) simp
  show "smallInt q' \<Longrightarrow> q' \<noteq> q \<Longrightarrow> metaAt C p (tx_get T s3) q' = metaAt C p ?g q'"
    by (rule touch_meta [OF touched q])
  show "queue_inv C p (tx_get T s3)"
  proof (rule queue_inv_move [OF inv q m(1) touched new])
    have "tx_get T s3 (K p ?n [BigInt ?t, BigInt q]) = Some (seqValue q)" by (simp add: f)
    then show "indexed p (tx_get T s3) q m' (state m')"
      using st by (cases "state m'") simp_all
    show "tx_get T s3 (K p ''ids'' [Str (entry_id m)]) = ?g (K p ''ids'' [Str (entry_id m)])"
      using g q c nn y by (simp add: f good_def entry_ok_def)
    show "tx_get T s3 (K p ''counter'' []) = ?g (K p ''counter'' [])"
      using q c nn y by (simp add: f)
  qed (use times same in simp_all)
qed

lemma bumpSignal_inv:
  assumes "queue_inv C p (tx_get T s)" and "keys_at p keys"
  shows "queue_inv C p (tx_get T (bumpSignal T keys s))"
  using queue_inv_signal [OF assms(1)] keys_at_prefix(9) [OF assms(2)]
  by (simp add: bumpSignal_def signal_fun)

lemma whole_addDelay: "whole (addDelay now d)"
proof (cases d)
  case (Fin ms)
  have "\<lceil>min (of_int MAX_SAFE_INTEGER) (now + max 0 ms)\<rceil> \<le> MAX_SAFE_INTEGER"
    by (simp add: ceiling_le_iff)
  then show ?thesis by (simp add: Fin addDelay_def whole_def)
qed (simp add: addDelay_def whole_def)

lemma finalState_cases:
  assumes "finalState f maxAttempts delay exit claimed now = (st, visible, dec)" and "whole now"
  shows "st \<noteq> Processing" and "whole visible"
  using assms whole_addDelay by (auto simp: finalState_def split: exit.splits if_splits)

lemma finalizeClaim_inv:
  assumes "opensQueue T keysForQueue name p" and "queue_inv C p (tx_get T s)" and "whole now"
    and "finalizeClaim T C keysForQueue f name claimed maxAttempts delay exit now s = Inr (st, s')"
  shows "queue_inv C p (tx_get T s')"
proof -
  obtain newState visible dec where fs:
    "finalState f maxAttempts delay exit claimed now = (newState, visible, dec)"
    by (metis prod_cases3)
  note st = finalState_cases [OF fs assms(3)]
  obtain keys s1 r where k: "keysForQueue name s = Inr (keys, s1)"
    and r: "readEntryMetadata T C s1 (entries keys) (claimSequence claimed) = Inr r"
    using assms(4) by (auto simp: finalizeClaim_def fs bindR_eq_Inr)
  note o = opensQueue_inv [OF assms(1) k assms(2)]
  note at = keys_at_prefix [OF o(1)]
  show ?thesis
  proof (cases "heldSince claimed r")
    case None
    with assms(4) k r o fs show ?thesis by (simp add: finalizeClaim_def)
  next
    case (Some ma)
    obtain m a where ma: "ma = (m, a)" by (cases ma)
    let ?m = "m\<lparr>attempts := (if dec then max 0 (attempts m - 1) else attempts m),
               state := newState, visibleAt := visible, acquiredAt := None, acquiredBy := None,
               updatedAt := now\<rparr>"
    let ?sub = "if newState = Pending then pending keys
        else if newState = Completed then completed keys else failed keys"
    from Some ma assms(4) k r fs obtain s2 s3 where
      w: "writeEntryMetadata T C (entries keys) (claimSequence claimed) ?m
       (tx_clear T (K p ''claims'' [Str (claimId claimed)])
         (tx_clear T (K p ''locks'' [BigInt (timestamp a), BigInt (claimSequence claimed)]) s1)) = Inr s2"
      and x: "setIndex T ?sub (timestamp (if newState = Pending then visible else now)) (claimSequence claimed) s2 = Inr s3"
      and s': "s' = (if newState = Pending then bumpSignal T keys s3 else s3)"
      by (auto simp: finalizeClaim_def bindR_eq_Inr Let_def pack_at [OF at(4)] pack_at [OF at(7)] split: if_splits)
    have h: "smallInt (claimSequence claimed)" "metaAt C p (tx_get T s1) (claimSequence claimed) = Some m"
      "state m = Processing" "acquiredBy m = Some (claimId claimed)"
      using readEntryMetadata_Inr [OF r at(1)] Some ma by (auto simp: heldSince_Some)
    have "queue_inv C p (tx_get T s3)"
      by (rule settle_inv(1) [OF o h timestamp_small _ _ _ _ w, where sub = ?sub])
        (use st assms(3) x in \<open>simp_all cong: if_cong\<close>)
    then show ?thesis using s' bumpSignal_inv o(1) by simp
  qed
qed

lemma truncate_simps [simp]:
  "state (metadata.truncate e) = state e" "entry_id (metadata.truncate e) = entry_id e"
  "attempts (metadata.truncate e) = attempts e" "visibleAt (metadata.truncate e) = visibleAt e"
  "acquiredAt (metadata.truncate e) = acquiredAt e" "acquiredBy (metadata.truncate e) = acquiredBy e"
  "updatedAt (metadata.truncate e) = updatedAt e"
  by (simp_all add: metadata.defs)

text \<open>Clearing an index row that its entry does not rely on.\<close>

lemma clear_stale_inv:
  assumes inv: "queue_inv C p g" and q: "smallInt q" "0 \<le> q" and t: "smallInt t" and n: "name \<in> indexNames"
    and stale: "\<And>m. metaAt C p g q = Some m \<Longrightarrow>
      \<not> (name = ''pending'' \<and> state m = Pending \<and> t = timestamp (visibleAt m))
      \<and> \<not> (name = ''locks'' \<and> state m = Processing \<and> (\<exists>a. acquiredAt m = Some a \<and> t = timestamp a))
      \<and> \<not> (name = ''completed'' \<and> state m = Completed \<and> t = timestamp (updatedAt m))
      \<and> \<not> (name = ''failed'' \<and> state m = Failed \<and> t = timestamp (updatedAt m))"
  shows "queue_inv C p (g(K p name [BigInt t, BigInt q] := None))"
proof (rule queue_inv_touch_same [OF inv q])
  have nn: "name \<noteq> ''entries''" "name \<noteq> ''ids''" "name \<noteq> ''counter''" "name \<noteq> ''claims''"
    using n by (auto simp: indexNames_def)
  show "touch C p q g (g(K p name [BigInt t, BigInt q] := None))"
    by (intro touch_index_key touch_refl n q t) simp
  show "metaAt C p (g(K p name [BigInt t, BigInt q] := None)) q = metaAt C p g q"
    using nn q t by (intro metaAt_upd) simp
  fix m assume m: "metaAt C p g q = Some m" "good p g q m"
  have "indexed p (g(K p name [BigInt t, BigInt q] := None)) q m (state m)"
  proof (cases "state m")
    case Processing
    with m(2) obtain a c where "acquiredAt m = Some a" "whole a" "acquiredBy m = Some c" "wellFormed c"
      "g (K p ''locks'' [BigInt (timestamp a), BigInt q]) = Some (seqValue q)"
      "g (K p ''claims'' [Str c]) = Some (seqValue q)"
      by (auto simp: good_def)
    with Processing stale [OF m(1)] nn q t show ?thesis by auto
  qed (use m(2) stale [OF m(1)] q t in \<open>auto simp: good_def\<close>)
  then show "good p (g(K p name [BigInt t, BigInt q] := None)) q m"
    using m(2) nn q t by (simp add: good_def counterOf_def entry_ok_def)
qed

lemma timestamp_later:
  assumes "whole a" and "e < a" and "x \<le> \<lfloor>e\<rfloor> \<or> of_int MAX_SAFE_INTEGER \<le> e"
  shows "x \<noteq> timestamp a"
proof
  assume x: "x = timestamp a"
  have a: "of_int \<lfloor>a\<rfloor> = a" "a \<le> of_int MAX_SAFE_INTEGER" using assms(1) by (simp_all add: whole_def)
  then have "\<lfloor>a\<rfloor> \<le> timestamp a" by (simp add: timestamp_def) linarith
  moreover have "timestamp a \<le> \<lfloor>e\<rfloor>" using assms(2,3) a(2) x by linarith
  ultimately have "of_int \<lfloor>a\<rfloor> \<le> e" by linarith
  then show False using a assms(2) by linarith
qed

lemma recoverLock_inv:
  assumes keys: "keys_at p keys" and inv: "queue_inv C p (tx_get T s)" and now: "whole now"
    and row: "k = K p ''locks'' [BigInt y, BigInt q]" "smallInt y" "smallInt q" "0 \<le> q"
      "y \<le> \<lfloor>e\<rfloor> \<or> of_int MAX_SAFE_INTEGER \<le> e"
    and r: "recoverLock T C keys now e maxAttempts (k, seqValue q) (rp, s) = Inr (rp', s')"
  shows "queue_inv C p (tx_get T s') \<and> noNew C p (tx_get T s) (tx_get T s')
    \<and> keepsLocked C p e (tx_get T s) (tx_get T s')"
proof -
  note at = keys_at_prefix [OF keys]
  obtain mo where mo: "readEntryMetadata T C s (entries keys) q = Inr mo"
    using r row by (auto simp: recoverLock_def bindR_eq_Inr)
  have m: "mo = metaAt C p (tx_get T s) q" using readEntryMetadata_Inr [OF mo at(1)] by simp
  have stale: "queue_inv C p (tx_get T (tx_clear T k s))"
    if late: "\<forall>m a. mo = Some m \<longrightarrow> state m = Processing \<longrightarrow> acquiredAt m = Some a \<longrightarrow> e < a"
    unfolding row(1) clear_fun
  proof (rule clear_stale_inv [OF inv row(3,4,2)])
    fix m1 assume m1: "metaAt C p (tx_get T s) q = Some m1"
    have "y \<noteq> timestamp a" if pa: "state m1 = Processing" "acquiredAt m1 = Some a" for a
    proof -
      obtain a' where a': "acquiredAt m1 = Some a'" "whole a'"
        by (rule processing_indexed [OF inv row(3) m1 pa(1)])
      moreover have "e < a" using late pa m m1 by auto
      ultimately show ?thesis using timestamp_later [of a e y] row(5) pa(2) by simp
    qed
    then show "\<not> (''locks'' = ''pending'' \<and> state m1 = Pending \<and> y = timestamp (visibleAt m1))
      \<and> \<not> (''locks'' = ''locks'' \<and> state m1 = Processing \<and> (\<exists>a. acquiredAt m1 = Some a \<and> y = timestamp a))
      \<and> \<not> (''locks'' = ''completed'' \<and> state m1 = Completed \<and> y = timestamp (updatedAt m1))
      \<and> \<not> (''locks'' = ''failed'' \<and> state m1 = Failed \<and> y = timestamp (updatedAt m1))" by auto
  qed simp
  show ?thesis
  proof (cases "\<exists>m a. mo = Some m \<and> state m = Processing \<and> acquiredAt m = Some a \<and> \<not> e < a")
    case False
    then have "s' = tx_clear T k s"
      using r mo row by (auto simp: recoverLock_def split: option.splits if_splits)
    moreover have "queue_inv C p (tx_get T (tx_clear T k s))" using False by (intro stale) auto
    moreover have "noNew C p (tx_get T s) (tx_get T (tx_clear T k s))"
      "keepsLocked C p e (tx_get T s) (tx_get T (tx_clear T k s))"
      using row by (simp_all add: clear_fun noNew_def keepsLocked_def metaAt_upd)
    ultimately show ?thesis by simp
  next
    case True
    then obtain m1 a where m1: "mo = Some m1" "state m1 = Processing" "acquiredAt m1 = Some a" "\<not> e < a"
      by blast
    obtain c where c: "acquiredBy m1 = Some c"
      using processing_indexed [OF inv row(3) _ m1(2)] m m1(1) by metis
    let ?m = "if maxAttempts \<le> attempts m1
        then m1\<lparr>state := Failed, acquiredAt := None, acquiredBy := None, updatedAt := now\<rparr>
        else m1\<lparr>state := Pending, visibleAt := now, acquiredAt := None, acquiredBy := None, updatedAt := now\<rparr>"
    obtain s2 s3 where w: "writeEntryMetadata T C (entries keys) q ?m
         (tx_clear T (K p ''claims'' [Str c]) (tx_clear T (K p ''locks'' [BigInt y, BigInt q]) s)) = Inr s2"
      and x: "setIndex T (if state ?m = Failed then failed keys else pending keys) (timestamp now) q s2 = Inr s'"
      using r mo row m1 c by (auto simp: recoverLock_def bindR_eq_Inr Let_def pack_at [OF at(7)])
    have "whole (visibleAt m1)" using inv row(3) m m1 by (auto simp: queue_inv_def good_def entry_ok_def)
    have m1': "metaAt C p (tx_get T s) q = Some m1" using m m1 by simp
    have new: "state ?m \<noteq> Processing" "entry_id ?m = entry_id m1" "whole (visibleAt ?m)" "whole (updatedAt ?m)"
      using now \<open>whole (visibleAt m1)\<close> by simp_all
    have x': "setIndex T (if state ?m = Failed then failed keys else pending keys)
        (timestamp (if state ?m = Pending then visibleAt ?m else updatedAt ?m)) q s2 = Inr s'"
      using x by (cases "maxAttempts \<le> attempts m1") simp_all
    have sub: "(if state ?m = Failed then failed keys else pending keys) = (if state ?m = Pending then pending keys
        else if state ?m = Completed then completed keys else failed keys)"
      by simp
    note settle = settle_inv [OF keys inv row(3) m1' m1(2) c row(2) new w x' sub]
    have "keepsLocked C p e (tx_get T s) (tx_get T s')"
      unfolding keepsLocked_def
    proof (intro allI impI)
      fix q' m' a' assume q': "smallInt q'" "metaAt C p (tx_get T s) q' = Some m'" "state m' = Processing"
        "acquiredAt m' = Some a'" "e < a'"
      then have "q' \<noteq> q" using m m1 by auto
      then have "metaAt C p (tx_get T s') q' = metaAt C p (tx_get T s) q'"
        using q'(1) by (intro settle(3))
      with q' show "metaAt C p (tx_get T s') q' = Some m'" by simp
    qed
    then show ?thesis using settle(1,2) by blast
  qed
qed

text \<open>A pending entry leaves the row that the scan found; it stays pending under a new row, fails, or is claimed.\<close>

lemma pending_moves:
  assumes keys: "keys_at p keys" and inv: "queue_inv C p (tx_get T s)"
    and q: "smallInt q" "smallInt y" and m: "metaAt C p (tx_get T s) q = Some m" "state m = Pending"
    and now: "whole now"
  shows "setIndex T (pending keys) (timestamp (of_int \<lceil>visibleAt m\<rceil>)) q
      (tx_clear T (K p ''pending'' [BigInt y, BigInt q]) s) = Inr s3 \<Longrightarrow>
      queue_inv C p (tx_get T s3) \<and> quiet C p (tx_get T s) (tx_get T s3)" (is "?P1 \<Longrightarrow> ?C")
    and "writeEntryMetadata T C (entries keys) q (m\<lparr>state := Failed, updatedAt := now\<rparr>)
      (tx_clear T (K p ''pending'' [BigInt y, BigInt q]) s) = Inr s2 \<Longrightarrow>
      setIndex T (failed keys) (timestamp now) q s2 = Inr s3 \<Longrightarrow>
      queue_inv C p (tx_get T s3) \<and> quiet C p (tx_get T s) (tx_get T s3)" (is "?P2 \<Longrightarrow> ?P2' \<Longrightarrow> ?C")
    and "writeEntryMetadata T C (entries keys) q
        (m\<lparr>attempts := n, state := Processing, acquiredAt := Some now, acquiredBy := Some c, updatedAt := now\<rparr>)
      (tx_clear T (K p ''pending'' [BigInt y, BigInt q]) s) = Inr s2 \<Longrightarrow>
      setIndex T (locks keys) (timestamp now) q s2 = Inr s3 \<Longrightarrow> wellFormed c \<Longrightarrow>
      unowned C p (tx_get T s) c \<Longrightarrow>
      queue_inv C p (tx_get T (tx_set T (K p ''claims'' [Str c]) (seqValue q) s3))
      \<and> metaAt C p (tx_get T (tx_set T (K p ''claims'' [Str c]) (seqValue q) s3)) q = Some
        (m\<lparr>attempts := n, state := Processing, acquiredAt := Some now, acquiredBy := Some c, updatedAt := now\<rparr>)"
proof -
  let ?g = "tx_get T s" and ?k = "K p ''pending'' [BigInt y, BigInt q]"
  note at = keys_at_prefix [OF keys]
  have g: "good p ?g q m" using inv q m by (simp add: queue_inv_def)
  then have id: "wellFormed (entry_id m)" and whole: "whole (visibleAt m)" "0 \<le> q"
    by (simp_all add: good_def entry_ok_def)
  show ?C if "?P1"
  proof
    have v: "of_int \<lceil>visibleAt m\<rceil> = visibleAt m"
      using whole(1) unfolding whole_def by (metis ceiling_of_int)
    have f: "tx_get T s3 = (?g(?k := None))
        (K p ''pending'' [BigInt (timestamp (visibleAt m)), BigInt q] := Some (seqValue q))"
      using setIndex_Inr [OF that [unfolded v] at(3)] by (simp add: store_funs)
    have touched: "touch C p q ?g (tx_get T s3)" unfolding f by (intro touch_intros) (use q in simp_all)
    have new: "metaAt C p (tx_get T s3) q = Some m" using m q by (simp add: f metaAt_upd)
    show "quiet C p ?g (tx_get T s3)" using new m by (intro quiet_touch [OF touched q(1)]) simp
    show "queue_inv C p (tx_get T s3)"
      by (rule queue_inv_move [OF inv q(1) m(1) touched new])
        (use g q m id in \<open>simp_all add: f good_def entry_ok_def\<close>)
  qed
  show ?C if w: "?P2" and x: "?P2'"
  proof
    let ?m = "m\<lparr>state := Failed, updatedAt := now\<rparr>"
    have f: "tx_get T s3 = ((?g(?k := None))(metaKey p q := Some (text_encode (encodeQueueEntryMetadata C ?m))))
        (K p ''failed'' [BigInt (timestamp now), BigInt q] := Some (seqValue q))"
      using setIndex_Inr [OF x at(6)] writeEntryMetadata_Inr [OF w at(1)] by (simp add: store_funs)
    have touched: "touch C p q ?g (tx_get T s3)" unfolding f by (intro touch_intros) (use q in simp_all)
    have new: "metaAt C p (tx_get T s3) q = Some ?m" using q by (simp add: f metaAt_upd metaAt_set)
    show "quiet C p ?g (tx_get T s3)" using new m by (intro quiet_touch [OF touched q(1)]) simp
    show "queue_inv C p (tx_get T s3)"
      by (rule queue_inv_move [OF inv q(1) m(1) touched new])
        (use g q m id now in \<open>simp_all add: f good_def entry_ok_def\<close>)
  qed
  show "queue_inv C p (tx_get T (tx_set T (K p ''claims'' [Str c]) (seqValue q) s3))
      \<and> metaAt C p (tx_get T (tx_set T (K p ''claims'' [Str c]) (seqValue q) s3)) q = Some
        (m\<lparr>attempts := n, state := Processing, acquiredAt := Some now, acquiredBy := Some c, updatedAt := now\<rparr>)"
    if w: "writeEntryMetadata T C (entries keys) q
        (m\<lparr>attempts := n, state := Processing, acquiredAt := Some now, acquiredBy := Some c, updatedAt := now\<rparr>)
      (tx_clear T ?k s) = Inr s2"
      and x: "setIndex T (locks keys) (timestamp now) q s2 = Inr s3" and c: "wellFormed c"
      and free: "unowned C p ?g c"
  proof -
    let ?m = "m\<lparr>attempts := n, state := Processing, acquiredAt := Some now, acquiredBy := Some c, updatedAt := now\<rparr>"
    let ?s = "tx_set T (K p ''claims'' [Str c]) (seqValue q) s3"
    have f: "tx_get T ?s = (((?g(?k := None))(metaKey p q := Some (text_encode (encodeQueueEntryMetadata C ?m))))
        (K p ''locks'' [BigInt (timestamp now), BigInt q] := Some (seqValue q)))
        (K p ''claims'' [Str c] := Some (seqValue q))"
      using setIndex_Inr [OF x at(4)] writeEntryMetadata_Inr [OF w at(1)] by (simp add: store_funs)
    have touched: "touch C p q ?g (tx_get T ?s)"
      unfolding f by (intro touch_intros) (use q c free in \<open>simp_all add: unowned_def\<close>)
    have new: "metaAt C p (tx_get T ?s) q = Some ?m" using q c by (simp add: f metaAt_upd metaAt_set)
    have "queue_inv C p (tx_get T ?s)"
      by (rule queue_inv_move [OF inv q(1) m(1) touched new])
        (use g q m id now c in \<open>simp_all add: f good_def entry_ok_def\<close>)
    with new show ?thesis by blast
  qed
qed

lemma truncate_updates:
  "metadata.truncate (e\<lparr>state := st, updatedAt := u\<rparr>) = (metadata.truncate e)\<lparr>state := st, updatedAt := u\<rparr>"
  "metadata.truncate (e\<lparr>attempts := n, state := st, acquiredAt := a, acquiredBy := b, updatedAt := u\<rparr>)
     = (metadata.truncate e)\<lparr>attempts := n, state := st, acquiredAt := a, acquiredBy := b, updatedAt := u\<rparr>"
  by (simp_all add: metadata.defs)

definition pendingRow :: "bytes \<Rightarrow> row \<Rightarrow> bool" where
  "pendingRow p r \<longleftrightarrow> (\<exists>y q. smallInt y \<and> smallInt q \<and> 0 \<le> q
     \<and> r = (K p ''pending'' [BigInt y, BigInt q], seqValue q))"

text \<open>What the scan hands out: an entry that was pending, visible and not used up, now processed by the claim.\<close>

definition claimFound ::
    "bytes \<Rightarrow> js_string \<Rightarrow> rat \<Rightarrow> int \<Rightarrow> store \<Rightarrow> 'j claimed_entry option \<Rightarrow> store \<Rightarrow> bool" where
  "claimFound p cid now maxAttempts g found g' \<longleftrightarrow> (\<forall>c. found = Some c \<longrightarrow>
     (\<exists>m. smallInt (claimSequence c) \<and> metaAt C p g (claimSequence c) = Some m \<and> state m = Pending
        \<and> visibleAt m \<le> now \<and> attempts m < maxAttempts \<and> claimId c = cid
        \<and> metadata.truncate (claimEntry c) = m\<lparr>attempts := attempts m + 1, state := Processing,
             acquiredAt := Some now, acquiredBy := Some cid, updatedAt := now\<rparr>
        \<and> metaAt C p g' (claimSequence c) = Some (metadata.truncate (claimEntry c))))"

lemma claimFound_quiet:
  assumes "quiet C p g g1" and "claimFound p cid now maxAttempts g1 found g'"
  shows "claimFound p cid now maxAttempts g found g'"
  using assms by (fastforce simp: claimFound_def quiet_def)

lemma claimPending_inv:
  assumes "keys_at p keys" and "whole now" and "wellFormed cid"
    and "queue_inv C p (tx_get T s)" and "unowned C p (tx_get T s) cid" and "list_all (pendingRow p) rows"
    and "claimPending T C keys (K p ''claims'' [Str cid]) cid now maxAttempts rows s = Inr (found, s')"
  shows "queue_inv C p (tx_get T s') \<and> claimFound p cid now maxAttempts (tx_get T s) found (tx_get T s')"
  using assms(4-)
proof (induction rows arbitrary: s)
  case Nil
  then show ?case by (auto simp: claimFound_def)
next
  case (Cons r rows)
  note at = keys_at_prefix [OF assms(1)]
  obtain y q where r: "r = (K p ''pending'' [BigInt y, BigInt q], seqValue q)" "smallInt y" "smallInt q" "0 \<le> q"
    using Cons.prems(3) by (auto simp: pendingRow_def)
  let ?k = "K p ''pending'' [BigInt y, BigInt q]"
  let ?s = "tx_clear T ?k s"
  have rows: "list_all (pendingRow p) rows" using Cons.prems(3) by simp
  obtain e where e: "readEntry T C s (entries keys) q = Inr e"
    using Cons.prems(4) r by (auto simp: bindR_eq_Inr)
  have m: "map_option metadata.truncate e = metaAt C p (tx_get T s) q"
    using readEntry_Inr [OF e at(1)] by simp
  have next_step: "queue_inv C p (tx_get T s') \<and> claimFound p cid now maxAttempts (tx_get T s) found (tx_get T s')"
    if "queue_inv C p (tx_get T s1) \<and> quiet C p (tx_get T s) (tx_get T s1)"
      "claimPending T C keys (K p ''claims'' [Str cid]) cid now maxAttempts rows s1 = Inr (found, s')" for s1
    using Cons.IH [OF _ unowned_noNew [OF Cons.prems(2) quiet_noNew] rows that(2)] that(1) claimFound_quiet by blast
  have stale: "queue_inv C p (tx_get T ?s) \<and> quiet C p (tx_get T s) (tx_get T ?s)"
    if "\<And>m. e = Some m \<Longrightarrow> state m \<noteq> Pending"
  proof
    show "queue_inv C p (tx_get T ?s)"
      unfolding clear_fun using m that
      by (intro clear_stale_inv [OF Cons.prems(1) r(3,4,2)]) auto
    show "quiet C p (tx_get T s) (tx_get T ?s)" using r by (simp add: clear_fun quiet_def metaAt_upd)
  qed
  show ?case
  proof (cases "\<exists>en. e = Some en \<and> state en = Pending")
    case False
    then have "claimPending T C keys (K p ''claims'' [Str cid]) cid now maxAttempts rows ?s = Inr (found, s')"
      using Cons.prems(4) r e by (auto split: option.splits)
    moreover have "queue_inv C p (tx_get T ?s) \<and> quiet C p (tx_get T s) (tx_get T ?s)"
      using False by (intro stale) auto
    ultimately show ?thesis by (intro next_step)
  next
    case True
    then obtain en where en: "e = Some en" "state en = Pending" by blast
    have m': "metaAt C p (tx_get T s) q = Some (metadata.truncate en)" using m en by simp
    note moves = pending_moves [OF assms(1) Cons.prems(1) r(3,2) m' _ assms(2)]
    consider "now < visibleAt en" | "\<not> now < visibleAt en" "maxAttempts \<le> attempts en"
      | "\<not> now < visibleAt en" "\<not> maxAttempts \<le> attempts en" by blast
    then show ?thesis
    proof cases
      case 1
      then obtain s1 where
        "setIndex T (pending keys) (timestamp (of_int \<lceil>visibleAt (metadata.truncate en)\<rceil>)) q ?s = Inr s1"
        "claimPending T C keys (K p ''claims'' [Str cid]) cid now maxAttempts rows s1 = Inr (found, s')"
        using Cons.prems(4) r e en by (auto simp: bindR_eq_Inr)
      then show ?thesis using moves(1) en by (intro next_step) auto
    next
      case 2
      then obtain s1 s2 where
        "writeEntryMetadata T C (entries keys) q ((metadata.truncate en)\<lparr>state := Failed, updatedAt := now\<rparr>) ?s = Inr s1"
        "setIndex T (failed keys) (timestamp now) q s1 = Inr s2"
        "claimPending T C keys (K p ''claims'' [Str cid]) cid now maxAttempts rows s2 = Inr (found, s')"
        using Cons.prems(4) r e en by (auto simp: bindR_eq_Inr truncate_updates Let_def)
      then show ?thesis using moves(2) en by (intro next_step) auto
    next
      case 3
      then obtain s1 s2 where w:
        "writeEntryMetadata T C (entries keys) q ((metadata.truncate en)\<lparr>attempts := attempts en + 1,
           state := Processing, acquiredAt := Some now, acquiredBy := Some cid, updatedAt := now\<rparr>) ?s = Inr s1"
        and x: "setIndex T (locks keys) (timestamp now) q s1 = Inr s2"
        and s': "s' = tx_set T (K p ''claims'' [Str cid]) (seqValue q) s2"
        and found: "found = Some \<lparr>claimId = cid, claimSequence = q, claimEntry = en\<lparr>attempts := attempts en + 1,
           state := Processing, acquiredAt := Some now, acquiredBy := Some cid, updatedAt := now\<rparr>\<rparr>"
        using Cons.prems(4) r e en by (auto simp: bindR_eq_Inr truncate_updates Let_def)
      have "queue_inv C p (tx_get T s') \<and> metaAt C p (tx_get T s') q = Some ((metadata.truncate en)\<lparr>attempts :=
          attempts en + 1, state := Processing, acquiredAt := Some now, acquiredBy := Some cid, updatedAt := now\<rparr>)"
        unfolding s' using en by (intro moves(3) [OF _ w x assms(3) Cons.prems(2)]) simp
      then show ?thesis using en m' 3 r(3) by (simp add: claimFound_def found truncate_updates)
    qed
  qed
qed

lemma foldR_two:
  assumes "foldR f xs (a, s) = Inr (a', s')" and "P s"
    and "\<And>x b s b' s'. x \<in> set xs \<Longrightarrow> P s \<Longrightarrow> f x (b, s) = Inr (b', s') \<Longrightarrow> P s'"
  shows "P s'"
  using foldR_invariant [of f xs "(a, s)" "(a', s')" "\<lambda>(b, s). P s"] assms by auto

lemma unowned_cong:
  "(\<And>q. smallInt q \<Longrightarrow> metaAt C p g' q = metaAt C p g q) \<Longrightarrow> unowned C p g c \<Longrightarrow> unowned C p g' c"
  by (auto simp: unowned_def)

text \<open>The row of the claim itself: it is dropped when no entry is processed under it.\<close>

lemma clear_claim_inv:
  assumes inv: "queue_inv C p g" and free: "unowned C p g c" and c: "wellFormed c"
  shows "queue_inv C p (g(K p ''claims'' [Str c] := None))"
proof -
  have z: "smallInt 0" by (simp add: smallInt_def)
  have same: "metaAt C p (g(K p ''claims'' [Str c] := None)) q = metaAt C p g q" if "smallInt q" for q
    using c that by (simp add: metaAt_upd)
  show ?thesis
  proof (rule queue_inv_touch_same [OF inv z])
    show "touch C p 0 g (g(K p ''claims'' [Str c] := None))"
      by (intro touch_claim_key touch_refl c) (use free in \<open>simp add: unowned_def\<close>)
    show "metaAt C p (g(K p ''claims'' [Str c] := None)) 0 = metaAt C p g 0" by (rule same [OF z])
    fix m assume m: "metaAt C p g 0 = Some m" "good p g 0 m"
    have "indexed p (g(K p ''claims'' [Str c] := None)) 0 m (state m)"
    proof (cases "state m")
      case Processing
      obtain a d where ad: "acquiredAt m = Some a" "whole a" "acquiredBy m = Some d" "wellFormed d"
        "g (K p ''locks'' [BigInt (timestamp a), BigInt 0]) = Some (seqValue 0)"
        "g (K p ''claims'' [Str d]) = Some (seqValue 0)"
        by (rule processing_indexed [OF inv z m(1) Processing])
      then have "d \<noteq> c" using free z m(1) Processing by (auto simp: unowned_def)
      then have "(g(K p ''claims'' [Str c] := None)) (K p ''claims'' [Str d]) = Some (seqValue 0)"
        "(g(K p ''claims'' [Str c] := None)) (K p ''locks'' [BigInt (timestamp a), BigInt 0]) = Some (seqValue 0)"
        using ad c z by simp_all
      with ad Processing show ?thesis by (simp del: fun_upd_apply)
    qed (use m(2) c z in \<open>simp_all add: good_def\<close>)
    then show "good p (g(K p ''claims'' [Str c] := None)) 0 m"
      using m(2) c by (simp add: good_def counterOf_def entry_ok_def)
  qed simp
qed

lemma recoverLocks_inv:
  assumes keys: "keys_at p keys" and inv: "queue_inv C p (tx_get T s)" and now: "whole now"
    and rows: "indexBefore T s (locks keys) e = Inr rows"
    and r: "foldR (recoverLock T C keys now e maxAttempts) rows (False, s) = Inr (rp, s')"
  shows "queue_inv C p (tx_get T s') \<and> noNew C p (tx_get T s) (tx_get T s')
    \<and> keepsLocked C p e (tx_get T s) (tx_get T s')"
proof (rule foldR_two [OF r])
  fix row b s1 b' s2
  assume row: "row \<in> set rows" and s1: "queue_inv C p (tx_get T s1) \<and> noNew C p (tx_get T s) (tx_get T s1)
      \<and> keepsLocked C p e (tx_get T s) (tx_get T s1)"
    and step: "recoverLock T C keys now e maxAttempts row (b, s1) = Inr (b', s2)"
  obtain k v where kv: "row = (k, v)" by (cases row)
  obtain y q where y: "smallInt y" "smallInt q" "0 \<le> q" "k = K p ''locks'' [BigInt y, BigInt q]" "v = seqValue q"
    "y \<le> \<lfloor>e\<rfloor> \<or> of_int MAX_SAFE_INTEGER \<le> e"
    using indexBefore_rows [OF rows keys_at_prefix(4) [OF keys] inv index_names(2)] row kv by blast
  have "queue_inv C p (tx_get T s2) \<and> noNew C p (tx_get T s1) (tx_get T s2)
      \<and> keepsLocked C p e (tx_get T s1) (tx_get T s2)"
    using s1 step by (intro recoverLock_inv [OF keys _ now y(4,1,2,3,6)]) (simp_all add: kv y(5))
  then show "queue_inv C p (tx_get T s2) \<and> noNew C p (tx_get T s) (tx_get T s2)
      \<and> keepsLocked C p e (tx_get T s) (tx_get T s2)"
    using s1 noNew_trans keepsLocked_trans by blast
qed (use inv in simp)

lemma claim_scan_inv:
  assumes keys: "keys_at p keys" and inv: "queue_inv C p (tx_get T s)" and now: "whole now"
    and free: "unowned C p (tx_get T s) cid" and cid: "wellFormed cid"
    and expired: "indexBefore T s (locks keys) e = Inr expired"
    and recover: "foldR (recoverLock T C keys now e maxAttempts) expired (False, s) = Inr (rp, s1)"
    and s2: "s2 = (if rp then bumpSignal T keys s1 else s1)"
    and candidates: "indexBefore T s2 (pending keys) now = Inr candidates"
    and scan: "claimPending T C keys (K p ''claims'' [Str cid]) cid now maxAttempts candidates s2 = Inr (found, s3)"
  shows "queue_inv C p (tx_get T s3) \<and> (\<exists>g. claimFound p cid now maxAttempts g found (tx_get T s3)
    \<and> keepsLocked C p e (tx_get T s) g)"
proof -
  have s1: "queue_inv C p (tx_get T s1)" "noNew C p (tx_get T s) (tx_get T s1)"
    "keepsLocked C p e (tx_get T s) (tx_get T s1)"
    using recoverLocks_inv [OF keys inv now expired recover] by simp_all
  have inv2: "queue_inv C p (tx_get T s2)" using s1 bumpSignal_inv keys by (simp add: s2)
  have meta: "metaAt C p (tx_get T s2) q = metaAt C p (tx_get T s1) q" if "smallInt q" for q
    using that keys_at_prefix(9) [OF keys] by (simp add: s2 bumpSignal_def signal_fun metaAt_upd)
  have "keepsLocked C p e (tx_get T s) (tx_get T s2)"
    using s1(3) meta by (auto simp: keepsLocked_def)
  moreover have "unowned C p (tx_get T s2) cid"
    using meta unowned_cong unowned_noNew [OF free s1(2)] by blast
  moreover have "list_all (pendingRow p) candidates"
    unfolding list_all_iff pendingRow_def
    using indexBefore_rows [OF candidates keys_at_prefix(3) [OF keys] inv2 index_names(1)] by fastforce
  ultimately show ?thesis using claimPending_inv [OF keys now cid inv2 _ _ scan] by blast
qed

text \<open>What a successful claim did: it found its own earlier claim, or it scanned the indexes.\<close>

definition claimScan ::
    "bytes \<Rightarrow> rat \<Rightarrow> js_string \<Rightarrow> int \<Rightarrow> rat \<Rightarrow> store \<Rightarrow> 'j claim_result \<Rightarrow> 's \<Rightarrow> bool" where
  "claimScan p lockExpiration cid maxAttempts now g res s' \<longleftrightarrow> (\<exists>keys s.
      keys_at p keys \<and> wellFormed cid \<and> queue_inv C p (tx_get T s) \<and> unowned C p (tx_get T s) cid
    \<and> (\<forall>q. smallInt q \<longrightarrow> metaAt C p (tx_get T s) q = metaAt C p g q)
    \<and> scanIndexes T C keys lockExpiration (K p ''claims'' [Str cid]) cid maxAttempts now s = Inr (res, s'))"

definition claimHeld :: "bytes \<Rightarrow> js_string \<Rightarrow> store \<Rightarrow> 'j claim_result \<Rightarrow> store \<Rightarrow> bool" where
  "claimHeld p cid g res g' \<longleftrightarrow> (\<exists>q en. res = Claimed \<lparr>claimId = cid, claimSequence = q, claimEntry = en\<rparr>
     \<and> smallInt q \<and> metaAt C p g q = Some (metadata.truncate en) \<and> state en = Processing
     \<and> acquiredBy en = Some cid \<and> queue_inv C p g' \<and> metaAt C p g' q = metaAt C p g q)"

lemma claim_cases:
  assumes "opensQueue T keysForQueue name p" and "queue_inv C p (tx_get T s)"
    and r: "claim T C keysForQueue lockExpiration name cid maxAttempts now s = Inr (res, s')"
  shows "claimHeld p cid (tx_get T s) res (tx_get T s')
    \<or> claimScan p lockExpiration cid maxAttempts now (tx_get T s) res s'"
proof -
  obtain keys s1 where k: "keysForQueue name s = Inr (keys, s1)"
    using r by (auto simp: claim_def bindR_eq_Inr)
  note o = opensQueue_inv [OF assms(1) k assms(2)]
  note at = keys_at_prefix [OF o(1)]
  let ?ck = "K p ''claims'' [Str cid]" and ?g = "tx_get T s1"
  have same: "metaAt C p ?g q = metaAt C p (tx_get T s) q" for q
    using assms(1) k by (simp add: metaAt_def opensQueue_def)
  have cid: "wellFormed cid" using r k by (auto simp: claim_def bindR_eq_Inr pack_at [OF at(7)])
  have owner: "?g ?ck = Some (seqValue q)"
    if "smallInt q" "metaAt C p ?g q = Some m" "state m = Processing" "acquiredBy m = Some cid" for q m
    using processing_indexed [OF o(2) that(1-3)] that(4) by (metis option.inject)
  let ?scan = "\<lambda>s. scanIndexes T C keys lockExpiration ?ck cid maxAttempts now s = Inr (res, s')"
  have scanI: "claimScan p lockExpiration cid maxAttempts now (tx_get T s) res s'"
    if "?scan s2" "queue_inv C p (tx_get T s2)" "unowned C p (tx_get T s2) cid"
      "\<And>q. smallInt q \<Longrightarrow> metaAt C p (tx_get T s2) q = metaAt C p (tx_get T s) q" for s2
    using that o(1) cid unfolding claimScan_def by blast
  show ?thesis
  proof (cases "?g ?ck")
    case None
    then have "unowned C p ?g cid" using owner by (force simp: unowned_def)
    moreover have "?scan s1"
      using r k None by (auto simp: claim_def bindR_eq_Inr pack_at [OF at(7)])
    ultimately show ?thesis using scanI o(2) same by blast
  next
    case (Some prev)
    obtain q e where q: "decodeSequence prev = Inr q" and e: "readEntry T C s1 (entries keys) q = Inr e"
      using r k Some by (auto simp: claim_def bindR_eq_Inr pack_at [OF at(7)])
    note re = readEntry_Inr [OF e at(1)]
    show ?thesis
    proof (cases "\<exists>en. e = Some en \<and> state en = Processing \<and> acquiredBy en = Some cid")
      case True
      then have "claimHeld p cid (tx_get T s) res (tx_get T s')"
        using r k Some q e re same o(2)
        by (auto simp: claimHeld_def claim_def bindR_eq_Inr pack_at [OF at(7)])
      then show ?thesis by blast
    next
      case False
      have free: "unowned C p ?g cid"
        unfolding unowned_def
      proof (intro allI impI notI)
        fix q' m assume m: "smallInt q'" "metaAt C p ?g q' = Some m" "state m = Processing" "acquiredBy m = Some cid"
        then have "prev = seqValue q'" "0 \<le> q'"
          using owner Some o(2) by (auto simp: queue_inv_def good_def)
        then have "q' = q" using q m(1) by simp
        then have "map_option metadata.truncate e = Some m" using re m(2) by simp
        with False m show False by auto
      qed
      let ?s = "tx_clear T ?ck s1"
      have inv: "queue_inv C p (tx_get T ?s)" unfolding clear_fun by (rule clear_claim_inv [OF o(2) free cid])
      have meta: "metaAt C p (tx_get T ?s) q = metaAt C p ?g q" if "smallInt q" for q
        using cid that by (simp add: clear_fun metaAt_upd)
      have "unowned C p (tx_get T ?s) cid" using meta by (rule unowned_cong [OF _ free])
      moreover have "?scan ?s"
        using r k Some q e False
        by (auto simp: claim_def bindR_eq_Inr pack_at [OF at(7)] split: option.splits if_splits)
      ultimately show ?thesis using scanI [OF _ inv] meta same by simp
    qed
  qed
qed

lemma claimScan_result:
  assumes scan: "claimScan p lockExpiration cid maxAttempts now g res s'" and now: "whole now"
  shows "queue_inv C p (tx_get T s')"
    and "res = Claimed c \<Longrightarrow> \<exists>g'. claimFound p cid now maxAttempts g' (Some c) (tx_get T s')
      \<and> keepsLocked C p (now - lockExpiration) g g'"
proof -
  let ?e = "now - lockExpiration"
  obtain keys s where k: "keys_at p keys" "wellFormed cid"
      "queue_inv C p (tx_get T s)" "unowned C p (tx_get T s) cid"
    and same: "\<And>q. smallInt q \<Longrightarrow> metaAt C p (tx_get T s) q = metaAt C p g q"
    and r: "scanIndexes T C keys lockExpiration (K p ''claims'' [Str cid]) cid maxAttempts now s = Inr (res, s')"
    using scan unfolding claimScan_def by blast
  from r obtain expired rp s1 candidates found where
    steps: "indexBefore T s (locks keys) ?e = Inr expired"
      "foldR (recoverLock T C keys now ?e maxAttempts) expired (False, s) = Inr (rp, s1)"
      "indexBefore T (if rp then bumpSignal T keys s1 else s1) (pending keys) now = Inr candidates"
      "claimPending T C keys (K p ''claims'' [Str cid]) cid now maxAttempts candidates
        (if rp then bumpSignal T keys s1 else s1) = Inr (found, s')"
    and res: "res = (case found of Some c \<Rightarrow> Claimed c
        | None \<Rightarrow> if expired \<noteq> [] \<or> candidates \<noteq> [] then ClaimProgress else ClaimWait)"
    by (auto simp: scanIndexes_def Let_def bindR_eq_Inr split: option.split_asm if_split_asm)
  note result = claim_scan_inv [OF k(1,3) now k(4,2) steps(1,2) refl steps(3,4)]
  then show "queue_inv C p (tx_get T s')" by blast
  assume "res = Claimed c"
  then have "found = Some c" using res by (auto split: option.splits if_splits)
  moreover have "keepsLocked C p ?e (tx_get T s) g' \<Longrightarrow> keepsLocked C p ?e g g'" for g'
    using same by (auto simp: keepsLocked_def)
  ultimately show "\<exists>g'. claimFound p cid now maxAttempts g' (Some c) (tx_get T s') \<and> keepsLocked C p ?e g g'"
    using result by blast
qed

lemma claim_inv:
  assumes "opensQueue T keysForQueue name p" and "queue_inv C p (tx_get T s)" and "whole now"
    and "claim T C keysForQueue lockExpiration name cid maxAttempts now s = Inr (res, s')"
  shows "queue_inv C p (tx_get T s')"
  using claim_cases [OF assms(1,2,4)] claimScan_result(1) [OF _ assms(3)] by (auto simp: claimHeld_def)

text \<open>A claim never takes an entry whose lock has not expired.\<close>

lemma claim_takes:
  assumes "opensQueue T keysForQueue name p" and "queue_inv C p (tx_get T s)" and now: "whole now"
    and r: "claim T C keysForQueue lockExpiration name cid maxAttempts now s = Inr (Claimed c, s')"
  shows "smallInt (claimSequence c) \<and> claimId c = cid
      \<and> metaAt C p (tx_get T s') (claimSequence c) = Some (metadata.truncate (claimEntry c))
      \<and> state (claimEntry c) = Processing \<and> acquiredBy (claimEntry c) = Some cid" (is ?held)
    and "metaAt C p (tx_get T s) (claimSequence c) = Some m \<Longrightarrow> state m = Processing \<Longrightarrow>
      acquiredBy m \<noteq> Some cid \<Longrightarrow> acquiredAt m = Some a \<Longrightarrow> a \<le> now - lockExpiration" (is "?m \<Longrightarrow> ?p \<Longrightarrow> ?o \<Longrightarrow> ?a \<Longrightarrow> ?t")
proof -
  have cases: "claimHeld p cid (tx_get T s) (Claimed c) (tx_get T s')
    \<or> claimScan p lockExpiration cid maxAttempts now (tx_get T s) (Claimed c) s'"
    by (rule claim_cases [OF assms(1,2) r])
  obtain g' where found: "claimFound p cid now maxAttempts g' (Some c) (tx_get T s')"
      "keepsLocked C p (now - lockExpiration) (tx_get T s) g'"
    if "\<not> claimHeld p cid (tx_get T s) (Claimed c) (tx_get T s')"
    using cases claimScan_result(2) [OF _ now] by blast
  have truncated: "state (claimEntry c) = state m \<and> acquiredBy (claimEntry c) = acquiredBy m"
    if "metadata.truncate (claimEntry c) = m" for m
    using that by auto
  show ?held
  proof (cases "claimHeld p cid (tx_get T s) (Claimed c) (tx_get T s')")
    case True
    then show ?thesis by (auto simp: claimHeld_def)
  next
    case False
    with found obtain m where "smallInt (claimSequence c)" "claimId c = cid"
      and t: "metadata.truncate (claimEntry c) = m\<lparr>attempts := attempts m + 1, state := Processing,
             acquiredAt := Some now, acquiredBy := Some cid, updatedAt := now\<rparr>"
      "metaAt C p (tx_get T s') (claimSequence c) = Some (metadata.truncate (claimEntry c))"
      by (auto simp: claimFound_def)
    then show ?thesis using truncated [OF t(1)] by simp
  qed
  show ?t if m: ?m ?p ?o ?a
  proof (cases "claimHeld p cid (tx_get T s) (Claimed c) (tx_get T s')")
    case True
    with m show ?thesis by (auto simp: claimHeld_def)
  next
    case False
    with found(1) obtain m2 where "smallInt (claimSequence c)" "metaAt C p g' (claimSequence c) = Some m2"
      "state m2 = Pending"
      by (auto simp: claimFound_def)
    with m found(2) [OF False] show ?thesis unfolding keepsLocked_def by (metis linorder_not_less option.inject queue_state.distinct(1))
  qed
qed

lemma decodeSequence_nonneg: "decodeSequence v = Inr q \<Longrightarrow> 0 \<le> q"
  by (auto simp: decodeSequence_def bindR_eq_Inr split: option.split_asm if_split_asm)

lemma createEntry_fun:
  assumes "createEntry T C sub q en s = Inr s'" and "prefix_bytes sub = K p ''entries'' []" and t: "touch C p q g (tx_get T s)"
  shows "smallInt q" and "touch C p q g (tx_get T s')"
    and "metaAt C p (tx_get T s') q = Some (metadata.truncate en)"
    and "\<not> inRange p ''entries'' [BigInt q] k \<Longrightarrow> tx_get T s' k = tx_get T s k"
proof -
  obtain s1 v where w: "writeEntryMetadata T C sub q (metadata.truncate en) s = Inr s1"
    and c: "writeChunkedValue T sub [BigInt q, Str (js ''element'')] v s1 = Inr s'"
    using assms(1) by (auto simp: createEntry_def bindR_eq_Inr)
  note f = writeEntryMetadata_Inr [OF w assms(2)]
  show q: "smallInt q" by (rule f(1))
  have ch: "inRange p ''entries'' [BigInt q, Str (js ''element'')] k" if "tx_get T s' k \<noteq> tx_get T s1 k" for k
    using writeChunked_Inr [OF c assms(2) _ that] by simp
  have nested: "inRange p ''entries'' [BigInt q] k" if "tx_get T s' k \<noteq> tx_get T s1 k" for k
    using ch [OF that] inRange_nested [of p "''entries''" "[BigInt q]" "[Str (js ''element'')]" k] by simp
  have "touch C p q g (tx_get T s1)" unfolding f(2) by (rule touch_meta_key [OF t q])
  then show "touch C p q g (tx_get T s')" by (rule touch_entries) (use nested q in simp_all)
  have "tx_get T s' (metaKey p q) = tx_get T s1 (metaKey p q)"
    using ch [of "metaKey p q"] q by (auto simp: strict_prefix_def)
  then show "metaAt C p (tx_get T s') q = Some (metadata.truncate en)" by (simp add: metaAt_def f(2))
  show "tx_get T s' k = tx_get T s k" if "\<not> inRange p ''entries'' [BigInt q] k"
  proof -
    have "k \<noteq> metaKey p q" using that q by (auto simp: strict_prefix_def)
    then show ?thesis using that nested [of k] by (auto simp: f(2))
  qed
qed

lemma offer_body_inv:
  assumes keys: "keys_at p keys" and inv: "queue_inv C p (tx_get T s)" and now: "whole now"
    and eid: "wellFormed eid" "tx_get T s (K p ''ids'' [Str eid]) = None"
    and q: "q = counterOf p (tx_get T s)" "0 \<le> q" "smallInt q" "smallInt (q + 1)"
    and en: "metadata.truncate en = \<lparr>entry_id = eid, attempts = 0, state = Pending, visibleAt = now,
            acquiredAt = None, acquiredBy = None, updatedAt = now\<rparr>"
    and c: "createEntry T C (entries keys) q en s = Inr s1"
    and s2: "s2 = bumpSignal T keys (tx_set T (K p ''counter'' []) (seqValue (q + 1))
      (tx_set T (K p ''pending'' [BigInt (timestamp now), BigInt q]) (seqValue q)
        (tx_set T (K p ''ids'' [Str eid]) (seqValue q) s1)))"
  shows "queue_inv C p (tx_get T s2)"
proof -
  let ?g = "tx_get T s" and ?m = "metadata.truncate en"
  note at = keys_at_prefix [OF keys]
  note ce = createEntry_fun [OF c at(1) touch_refl]
  obtain sig where f: "tx_get T s2 = ((((tx_get T s1)(K p ''ids'' [Str eid] := Some (seqValue q)))
      (K p ''pending'' [BigInt (timestamp now), BigInt q] := Some (seqValue q)))
      (K p ''counter'' [] := Some (seqValue (q + 1))))(K p ''signal'' [] := Some sig)"
    by (simp add: s2 bumpSignal_def at(9) store_funs)
  have "touch C p q ?g (((tx_get T s1)(K p ''ids'' [Str eid] := Some (seqValue q)))
      (K p ''pending'' [BigInt (timestamp now), BigInt q] := Some (seqValue q)))"
    by (intro touch_id_key touch_index_key ce(2)) (use eid q in simp_all)
  then have touched: "touch C p q ?g (tx_get T s2)"
    unfolding f by (intro touch_signal_key touch_counter_key) (use q in \<open>simp_all add: counterOf_def\<close>)
  have new: "metaAt C p (tx_get T s2) q = Some ?m"
    using ce(3) eid q by (simp add: f metaAt_upd)
  have "good p (tx_get T s2) q ?m"
    using eid q now by (simp add: good_def entry_ok_def en f counterOf_def)
  then show ?thesis using new by (intro queue_inv_touch [OF inv touched q(3,2)]) simp
qed

lemma offer_inv:
  assumes "opensQueue T keysForQueue name p" and "queue_inv C p (tx_get T s)" and now: "whole now"
    and r: "offer T C keysForQueue name eid elem now s = Inr s'"
  shows "queue_inv C p (tx_get T s')"
proof -
  obtain keys s1 where k: "keysForQueue name s = Inr (keys, s1)"
    using r by (auto simp: offer_def bindR_eq_Inr)
  note o = opensQueue_inv [OF assms(1) k assms(2)]
  note at = keys_at_prefix [OF o(1)]
  show ?thesis
  proof (cases "tx_get T s1 (K p ''ids'' [Str eid])")
    case (Some v)
    with r k o show ?thesis by (auto simp: offer_def bindR_eq_Inr pack_at [OF at(2)])
  next
    case None
    have eid: "wellFormed eid" using r k by (auto simp: offer_def bindR_eq_Inr pack_at [OF at(2)])
    let ?en = "\<lparr>entry_id = eid, attempts = 0, state = Pending, visibleAt = now, acquiredAt = None,
      acquiredBy = None, updatedAt = now, element = elem\<rparr>"
    obtain q s2 where q: "(case tx_get T s1 (counterKey keys) of None \<Rightarrow> Inr 0 | Some v \<Rightarrow> decodeSequence v) = Inr q"
      "smallInt q" "smallInt (q + 1)"
      and c: "createEntry T C (entries keys) q ?en s1 = Inr s2"
      and s': "s' = bumpSignal T keys (tx_set T (K p ''counter'' []) (seqValue (q + 1))
        (tx_set T (K p ''pending'' [BigInt (timestamp now), BigInt q]) (seqValue q)
          (tx_set T (K p ''ids'' [Str eid]) (seqValue q) s2)))"
      using r k None by (auto simp: offer_def bindR_eq_Inr pack_at [OF at(2)] pack_at [OF at(3)] at(8) Let_def)
    have "q = counterOf p (tx_get T s1)" "0 \<le> q"
      using q(1) decodeSequence_nonneg by (auto simp: counterOf_def at(8) split: option.splits)
    then show ?thesis
      by (intro offer_body_inv [OF o now eid None _ _ q(2,3) _ c s']) (simp_all add: metadata.defs)
  qed
qed

lemma cleanupRow_inv:
  assumes keys: "keys_at p keys" and inv: "queue_inv C p (tx_get T s)"
    and n: "n = (if st = Completed then ''completed'' else ''failed'')" and st: "st = Completed \<or> st = Failed"
    and row: "smallInt y" "smallInt q" "0 \<le> q" "k = K p n [BigInt y, BigInt q]" "v = seqValue q"
      "y \<le> \<lfloor>cutoff\<rfloor> \<or> of_int MAX_SAFE_INTEGER \<le> cutoff"
    and r: "cleanupRow T C keys st cutoff (k, v) s = Inr s'"
  shows "queue_inv C p (tx_get T s')"
proof -
  let ?g = "tx_get T s"
  note at = keys_at_prefix [OF keys]
  have nn: "n \<in> indexNames" "n \<noteq> ''entries''" "n \<noteq> ''ids''" "n \<noteq> ''counter''" "n \<noteq> ''claims''" by (simp_all add: n)
  obtain mo where mo: "readEntryMetadata T C s (entries keys) q = Inr mo"
    using r row by (auto simp: cleanupRow_def bindR_eq_Inr)
  have m: "mo = metaAt C p ?g q" using readEntryMetadata_Inr [OF mo at(1)] by simp
  show ?thesis
  proof (cases "\<exists>m. mo = Some m \<and> state m = st \<and> updatedAt m \<le> cutoff")
    case False
    then have s': "s' = tx_clear T k s"
      using r row mo by (auto simp: cleanupRow_def bindR_eq_Inr split: option.splits if_splits)
    show ?thesis
      unfolding s' clear_fun row(4)
    proof (rule clear_stale_inv [OF inv row(2,3,1) nn(1)])
      fix m1 assume m1: "metaAt C p ?g q = Some m1"
      have "y \<noteq> timestamp (updatedAt m1)" if "state m1 = st"
      proof (rule timestamp_later)
        show "whole (updatedAt m1)" using inv row(2) m1 by (auto simp: queue_inv_def good_def entry_ok_def)
        show "cutoff < updatedAt m1" using False m m1 that by (auto simp: not_le)
      qed (rule row(6))
      then show "\<not> (n = ''pending'' \<and> state m1 = Pending \<and> y = timestamp (visibleAt m1))
        \<and> \<not> (n = ''locks'' \<and> state m1 = Processing \<and> (\<exists>a. acquiredAt m1 = Some a \<and> y = timestamp a))
        \<and> \<not> (n = ''completed'' \<and> state m1 = Completed \<and> y = timestamp (updatedAt m1))
        \<and> \<not> (n = ''failed'' \<and> state m1 = Failed \<and> y = timestamp (updatedAt m1))"
        using st by (auto simp: n)
    qed
  next
    case True
    then obtain m1 where m1: "mo = Some m1" "state m1 = st" "updatedAt m1 \<le> cutoff" by blast
    obtain s1 where c: "clearChunkedValue T (entries keys) [BigInt q] s = Inr s1"
      and s': "s' = tx_clear T k (tx_clear T (K p ''ids'' [Str (entry_id m1)]) s1)"
      using r row mo m1 by (auto simp: cleanupRow_def clearEntry_def bindR_eq_Inr pack_at [OF at(2)])
    have g: "good p ?g q m1" using inv row(2) m m1 by (simp add: queue_inv_def)
    have c1: "tx_get T s1 l = (if inRange p ''entries'' [BigInt q] l then None else ?g l)" for l
      using clearChunked_Inr [OF c at(1)] row(2) by simp
    have f: "tx_get T s' = ((tx_get T s1)(K p ''ids'' [Str (entry_id m1)] := None))(k := None)"
      by (simp add: s' store_funs)
    have "touch C p q ?g (tx_get T s1)"
      by (rule touch_entries [OF touch_refl]) (use c1 row in \<open>auto split: if_splits\<close>)
    then have "touch C p q ?g (tx_get T s')"
      unfolding f row(4) using g row nn by (intro touch_index_key touch_id_key) (simp_all add: good_def entry_ok_def)
    moreover have "metaAt C p (tx_get T s') q = None"
      using row nn g by (simp add: metaAt_def f c1 strict_prefix_def good_def entry_ok_def)
    ultimately show ?thesis by (intro queue_inv_touch [OF inv _ row(2,3)]) auto
  qed
qed

lemma cleanupBatch_inv:
  assumes "opensQueue T keysForQueue name p" and "queue_inv C p (tx_get T s)" and st: "st = Completed \<or> st = Failed"
    and r: "cleanupBatch T C keysForQueue name st cutoff s = Inr (cnt, s')"
  shows "queue_inv C p (tx_get T s')"
proof -
  let ?n = "if st = Completed then ''completed'' else ''failed''"
  obtain keys s1 rows where k: "keysForQueue name s = Inr (keys, s1)"
    and rows: "indexBefore T s1 (if st = Completed then completed keys else failed keys) cutoff = Inr rows"
    and f: "foldR (cleanupRow T C keys st cutoff) rows s1 = Inr s'"
    using r by (auto simp: cleanupBatch_def bindR_eq_Inr)
  note o = opensQueue_inv [OF assms(1) k assms(2)]
  have n: "prefix_bytes (if st = Completed then completed keys else failed keys) = K p ?n []" "?n \<in> indexNames"
    using keys_at_prefix [OF o(1)] by simp_all
  show ?thesis
  proof (rule foldR_invariant [where P = "\<lambda>s. queue_inv C p (tx_get T s)", OF f o(2)])
    fix row s2 s3
    assume row: "row \<in> set rows" and s2: "queue_inv C p (tx_get T s2)"
      and step: "cleanupRow T C keys st cutoff row s2 = Inr s3"
    obtain k v where kv: "row = (k, v)" by (cases row)
    obtain y q where y: "smallInt y" "smallInt q" "0 \<le> q" "k = K p ?n [BigInt y, BigInt q]" "v = seqValue q"
      "y \<le> \<lfloor>cutoff\<rfloor> \<or> of_int MAX_SAFE_INTEGER \<le> cutoff"
      using indexBefore_rows [OF rows n(1) o(2) n(2)] row kv by blast
    show "queue_inv C p (tx_get T s3)"
      by (rule cleanupRow_inv [OF o(1) s2 refl st y step [unfolded kv]])
  qed
qed

end

end
