(* ===== verification/Queue_Cleanup.thy ===== *)
theory Queue_Cleanup
  imports Queue_Operations
begin

text \<open>
  The loops of the queue's cleanup (\<open>cleanupState\<close> and \<open>cleanup\<close> of
  src/src/persisted-queue/repository.ts) and their termination: a full batch deletes the index rows it
  read, so the loop runs at most once per hundred rows. Also what an empty index scan means: nothing is
  due, which is when a claim waits for the queue's signal.
\<close>

section \<open>The loops\<close>

text \<open>
  Each batch is a transaction of its own, so a failing batch leaves what the earlier ones committed:
  the result is the outcome and the state of the database. \<open>None\<close> is a loop that does not end.
\<close>

partial_function (option) cleanupState ::
    "'s txn \<Rightarrow> 'j queue_codec \<Rightarrow> (js_string \<Rightarrow> 's \<Rightarrow> queue_error + queue_keys \<times> 's) \<Rightarrow>
     js_string \<Rightarrow> queue_state \<Rightarrow> rat \<Rightarrow> 's \<Rightarrow> ((queue_error + unit) \<times> 's) option" where
  "cleanupState T C keysForQueue name st cutoff s =
    (case cleanupBatch T C keysForQueue name st cutoff s of
       Inl e \<Rightarrow> Some (Inl e, s)
     | Inr (n, s') \<Rightarrow>
         if n < indexBatchSize then Some (Inr (), s')
         else cleanupState T C keysForQueue name st cutoff s')"

text \<open>The names of the queues are those the root directory lists.\<close>

fun cleanup ::
    "'s txn \<Rightarrow> 'j queue_codec \<Rightarrow> (js_string \<Rightarrow> 's \<Rightarrow> queue_error + queue_keys \<times> 's) \<Rightarrow>
     js_string list \<Rightarrow> rat \<Rightarrow> rat option \<Rightarrow> rat \<Rightarrow> 's \<Rightarrow> ((queue_error + unit) \<times> 's) option" where
  "cleanup T C keysForQueue [] timeToLive failedTimeToLive now s = Some (Inr (), s)"
| "cleanup T C keysForQueue (name # queues) timeToLive failedTimeToLive now s =
    Option.bind (cleanupState T C keysForQueue name Completed (now - timeToLive) s) (\<lambda>(r, s).
      case r of
        Inl e \<Rightarrow> Some (Inl e, s)
      | Inr _ \<Rightarrow>
          (case failedTimeToLive of
             None \<Rightarrow> cleanup T C keysForQueue queues timeToLive failedTimeToLive now s
           | Some ttl \<Rightarrow>
               Option.bind (cleanupState T C keysForQueue name Failed (now - ttl) s) (\<lambda>(r, s).
                 case r of
                   Inl e \<Rightarrow> Some (Inl e, s)
                 | Inr _ \<Rightarrow> cleanup T C keysForQueue queues timeToLive failedTimeToLive now s)))"

section \<open>Termination\<close>

context fdb
begin

lemma indexBefore_range:
  assumes i: "indexBefore T s sub t = Inr rows" and sub: "prefix_bytes sub = K p n []"
  obtains e where "rows = tx_getRange T s (keyRange (K p n [] @ [NIL]) e (Some indexBatchSize) False)"
    and "e \<le> K p n [] @ [ESCAPE]"
    and "0 \<le> t \<Longrightarrow> smallInt x \<Longrightarrow> smallInt q \<Longrightarrow> x \<le> \<lfloor>t\<rfloor> \<or> of_int MAX_SAFE_INTEGER \<le> t \<Longrightarrow>
      K p n [BigInt x, BigInt q] < e"
proof -
  obtain e where e: "if t < 0 then e = K p n [] @ [NIL]
      else if of_int MAX_SAFE_INTEGER \<le> t then e = K p n [] @ [ESCAPE]
      else smallInt (\<lfloor>t\<rfloor> + 1) \<and> e = K p n [BigInt (\<lfloor>t\<rfloor> + 1)]"
    and rows: "rows = tx_getRange T s (keyRange (K p n [] @ [NIL]) e (Some indexBatchSize) False)"
    using i sub by (fastforce simp: indexBefore_def bindR_eq_Inr range_at pack_at split: if_splits)
  have "K p n [] @ [NIL] \<le> K p n [] @ [ESCAPE]" by (simp add: append_le_append_same)
  then have "e \<le> K p n [] @ [ESCAPE]"
    using e K_in_range [of "[]" "[BigInt (\<lfloor>t\<rfloor> + 1)]" p n n] by (auto simp: strict_prefix_def split: if_splits)
  moreover have "K p n [BigInt x, BigInt q] < e"
    if "0 \<le> t" "smallInt x" "smallInt q" "x \<le> \<lfloor>t\<rfloor> \<or> of_int MAX_SAFE_INTEGER \<le> t" for x q
  proof (cases "of_int MAX_SAFE_INTEGER \<le> t")
    case True
    with e that show ?thesis using K_in_range [of "[]" "[BigInt x, BigInt q]" p n n] by (simp add: strict_prefix_def)
  next
    case False
    with e that have s: "smallInt (\<lfloor>t\<rfloor> + 1)" "e = K p n [BigInt (\<lfloor>t\<rfloor> + 1)]" "x \<le> \<lfloor>t\<rfloor>" by auto
    then have "tuple_less [Str (js n), BigInt x, BigInt q] [Str (js n), BigInt (\<lfloor>t\<rfloor> + 1)]" by simp
    with s that show ?thesis
      by (subst (asm) tuples.key_less [symmetric, of _ _ p]) (simp_all add: K_def del: encs_simps)
  qed
  ultimately show ?thesis using that rows by blast
qed

lemma indexBefore_empty:
  assumes "indexBefore T s sub t = Inr []" and "prefix_bytes sub = K p n []" and "0 \<le> t"
    and "smallInt x" and "smallInt q" and "x \<le> \<lfloor>t\<rfloor> \<or> of_int MAX_SAFE_INTEGER \<le> t"
  shows "tx_get T s (K p n [BigInt x, BigInt q]) = None"
proof -
  obtain e where e: "[] = tx_getRange T s (keyRange (K p n [] @ [NIL]) e (Some indexBatchSize) False)"
    "K p n [BigInt x, BigInt q] < e"
    using indexBefore_range [OF assms(1,2)] assms(3-) by metis
  have "K p n [] @ [NIL] \<le> K p n [BigInt x, BigInt q]"
    using K_in_range [of "[]" "[BigInt x, BigInt q]" p n n] assms(4,5) by (simp add: strict_prefix_def)
  with e show ?thesis by (intro range_empty [OF e(1) [symmetric]]) (simp_all add: indexBatchSize_def)
qed

text \<open>The index rows under a queue; cleanup only ever clears keys.\<close>

definition indexKeys :: "bytes \<Rightarrow> string \<Rightarrow> 's \<Rightarrow> bytes set" where
  "indexKeys p n s = {k. inRange p n [] k \<and> tx_get T s k \<noteq> None}"

lemma finite_indexKeys: "finite (indexKeys p n s)"
proof -
  have "indexKeys p n s
      = fst ` set (tx_getRange T s (keyRange (K p n [] @ [NIL]) (K p n [] @ [ESCAPE]) None False))"
    by (force simp: indexKeys_def range_rows inRange_def)
  then show ?thesis by simp
qed

lemma clearEntry_get:
  "clearEntry T sub q s = Inr s' \<Longrightarrow> tx_get T s' k \<noteq> None \<Longrightarrow> tx_get T s' k = tx_get T s k"
  by (auto simp: clearEntry_def clearChunkedValue_def bindR_eq_Inr get_clearRange split: if_splits)

lemma cleanupRow_clears:
  assumes "cleanupRow T C keys st cutoff row s = Inr s'"
  shows "tx_get T s' k \<noteq> None \<Longrightarrow> k \<noteq> fst row \<and> tx_get T s' k = tx_get T s k"
  using assms
  by (fastforce simp: cleanupRow_def bindR_eq_Inr get_clear dest: clearEntry_get
      split: option.splits if_split_asm)

lemma cleanupRows_clear:
  assumes "foldR (cleanupRow T C keys st cutoff) rows s = Inr s'" and "tx_get T s' k \<noteq> None"
  shows "k \<notin> fst ` set rows \<and> tx_get T s' k = tx_get T s k"
  using assms
proof (induction rows arbitrary: s)
  case (Cons row rows)
  then obtain s1 where s1: "cleanupRow T C keys st cutoff row s = Inr s1"
    "foldR (cleanupRow T C keys st cutoff) rows s1 = Inr s'"
    by (auto simp: bindR_eq_Inr)
  from Cons.IH [OF s1(2) Cons.prems(2)] have "k \<notin> fst ` set rows" "tx_get T s' k = tx_get T s1 k" by auto
  moreover from this Cons.prems(2) have "k \<noteq> fst row \<and> tx_get T s1 k = tx_get T s k"
    using cleanupRow_clears [OF s1(1), of k] by simp
  ultimately show ?case by simp
qed simp

lemma cleanupBatch_shrinks:
  assumes o: "opensQueue T keysForQueue name p" and st: "n = (if st = Completed then ''completed'' else ''failed'')"
    and r: "cleanupBatch T C keysForQueue name st cutoff s = Inr (cnt, s')"
  shows "card (indexKeys p n s') + cnt \<le> card (indexKeys p n s)"
proof -
  obtain keys s1 rows where k: "keysForQueue name s = Inr (keys, s1)"
    and rows: "indexBefore T s1 (if st = Completed then completed keys else failed keys) cutoff = Inr rows"
    and f: "foldR (cleanupRow T C keys st cutoff) rows s1 = Inr s'" and cnt: "cnt = length rows"
    using r by (auto simp: cleanupBatch_def bindR_eq_Inr)
  have at: "keys_at p keys" and same: "\<And>k. prefix p k \<Longrightarrow> tx_get T s1 k = tx_get T s k"
    using o k by (auto simp: opensQueue_def)
  have sub: "prefix_bytes (if st = Completed then completed keys else failed keys) = K p n []"
    using keys_at_prefix [OF at] st by simp
  obtain e where e: "rows = tx_getRange T s1 (keyRange (K p n [] @ [NIL]) e (Some indexBatchSize) False)"
    "e \<le> K p n [] @ [ESCAPE]"
    using indexBefore_range [OF rows sub] by metis
  have "fst ` set rows \<subseteq> indexKeys p n s"
  proof (clarsimp simp: indexKeys_def)
    fix k v assume "(k, v) \<in> set rows"
    then have kv: "K p n [] @ [NIL] \<le> k" "k < e" "tx_get T s1 k = Some v" using range_row e(1) by blast+
    then have "inRange p n [] k" using e(2) by (auto simp: inRange_def)
    with kv show "inRange p n [] k \<and> (\<exists>y. tx_get T s k = Some y)" using same inRange_prefix by metis
  qed
  moreover have "indexKeys p n s' \<subseteq> indexKeys p n s - fst ` set rows"
  proof
    fix k assume "k \<in> indexKeys p n s'"
    then have k: "inRange p n [] k" "tx_get T s' k \<noteq> None" by (auto simp: indexKeys_def)
    with cleanupRows_clear [OF f k(2)] same [OF inRange_prefix [OF k(1)]]
    show "k \<in> indexKeys p n s - fst ` set rows" by (simp add: indexKeys_def)
  qed
  moreover have "card (fst ` set rows) = cnt"
    using range_distinct [of s1 "K p n [] @ [NIL]" e "Some indexBatchSize" False] e(1) cnt
    by (metis distinct_card length_map set_map)
  ultimately show ?thesis
    using finite_indexKeys [of p n s] card_mono [of "indexKeys p n s - fst ` set rows" "indexKeys p n s'"]
      card_Diff_subset [of "fst ` set rows" "indexKeys p n s"] card_mono [of "indexKeys p n s" "fst ` set rows"]
    by simp
qed

lemma cleanupState_ends:
  assumes o: "opensQueue T keysForQueue name p"
  shows "\<exists>r. cleanupState T C keysForQueue name st cutoff s = Some r"
proof -
  define n where "n = (if st = Completed then ''completed'' else ''failed'')"
  show ?thesis
  proof (induction "card (indexKeys p n s)" arbitrary: s rule: less_induct)
    case less
    show ?case
    proof (cases "cleanupBatch T C keysForQueue name st cutoff s")
      case (Inl e)
      then show ?thesis by (simp add: cleanupState.simps [of T C keysForQueue name st cutoff s])
    next
      case (Inr r)
      obtain cnt s' where r: "r = (cnt, s')" by (cases r)
      show ?thesis
      proof (cases "cnt < indexBatchSize")
        case True
        with Inr r show ?thesis by (simp add: cleanupState.simps [of T C keysForQueue name st cutoff s])
      next
        case False
        then have "card (indexKeys p n s') < card (indexKeys p n s)"
          using cleanupBatch_shrinks [OF o n_def Inr [unfolded r]] by (simp add: indexBatchSize_def)
        from less [OF this] False Inr r show ?thesis
          by (simp add: cleanupState.simps [of T C keysForQueue name st cutoff s])
      qed
    qed
  qed
qed

end

end
