(* ===== verification/Queue_Behaviour.thy ===== *)
theory Queue_Behaviour
  imports Queue_Cleanup
begin

text \<open>
  What the operations of the queue do beyond keeping its invariant: when a claim waits, what a second
  offer does, what becomes of a finished entry, and the states a queue can reach.
\<close>

lemma timestamp_due: "v \<le> t \<Longrightarrow> 0 \<le> t \<Longrightarrow> timestamp v \<le> \<lfloor>t\<rfloor> \<or> of_int MAX_SAFE_INTEGER \<le> t"
  using floor_mono [of v t] by (auto simp: timestamp_def le_floor_iff not_le max_def min_def)

context queue_store
begin

text \<open>A claim that waits found nothing that was due.\<close>

lemma claim_waits:
  assumes "opensQueue T keysForQueue name p" and "queue_inv C p (tx_get T s)"
    and r: "claim T C keysForQueue lockExpiration name cid maxAttempts now s = Inr (ClaimWait, s')"
    and q: "smallInt q" "metaAt C p (tx_get T s) q = Some m"
  shows "0 \<le> now \<Longrightarrow> state m = Pending \<Longrightarrow> now < visibleAt m"
    and "0 \<le> now - lockExpiration \<Longrightarrow> state m = Processing \<Longrightarrow> acquiredAt m = Some a \<Longrightarrow> now - lockExpiration < a"
proof -
  from claim_cases [OF assms(1,2) r]
  have "claimScan p lockExpiration cid maxAttempts now (tx_get T s) ClaimWait s'"
    by (auto simp: claimHeld_def)
  then obtain keys s1 where keys: "keys_at p keys" and inv: "queue_inv C p (tx_get T s1)"
    and same: "metaAt C p (tx_get T s1) q = Some m"
    and scan: "scanIndexes T C keys lockExpiration (K p ''claims'' [Str cid]) cid maxAttempts now s1 = Inr (ClaimWait, s')"
    using q unfolding claimScan_def by auto
  from scan have expired: "indexBefore T s1 (locks keys) (now - lockExpiration) = Inr []"
    and due: "indexBefore T s1 (pending keys) now = Inr []"
    by (auto simp: scanIndexes_def Let_def bindR_eq_Inr split: option.split_asm if_split_asm)
  have g: "good p (tx_get T s1) q m" using inv q(1) same by (simp add: queue_inv_def)
  show "now < visibleAt m" if "0 \<le> now" "state m = Pending"
  proof (rule ccontr)
    assume "\<not> now < visibleAt m"
    then have "timestamp (visibleAt m) \<le> \<lfloor>now\<rfloor> \<or> of_int MAX_SAFE_INTEGER \<le> now"
      using that(1) by (intro timestamp_due) simp_all
    from indexBefore_empty [OF due keys_at_prefix(3) [OF keys] that(1) timestamp_small q(1) this] g that(2)
    show False by (simp add: good_def)
  qed
  show "now - lockExpiration < a"
    if t: "0 \<le> now - lockExpiration" "state m = Processing" "acquiredAt m = Some a"
  proof (rule ccontr)
    assume "\<not> now - lockExpiration < a"
    then have "timestamp a \<le> \<lfloor>now - lockExpiration\<rfloor> \<or> of_int MAX_SAFE_INTEGER \<le> now - lockExpiration"
      using t(1) by (intro timestamp_due) simp_all
    from indexBefore_empty [OF expired keys_at_prefix(4) [OF keys] t(1) timestamp_small q(1) this] g t(2,3)
    show False by (auto simp: good_def)
  qed
qed

text \<open>An offer leaves its id taken; an offer of a taken id changes nothing.\<close>

lemma offer_takes_id:
  assumes o: "opensQueue T keysForQueue name p" and r: "offer T C keysForQueue name eid elem now s = Inr s'"
  shows "wellFormed eid \<and> tx_get T s' (K p ''ids'' [Str eid]) \<noteq> None"
proof -
  obtain keys s1 where k: "keysForQueue name s = Inr (keys, s1)"
    using r by (auto simp: offer_def bindR_eq_Inr)
  have at: "keys_at p keys" using o k by (auto simp: opensQueue_def)
  note pk = keys_at_prefix [OF at]
  show ?thesis
    using r k by (auto simp: offer_def bindR_eq_Inr Let_def pack_at [OF pk(2)] pack_at [OF pk(3)] pk(8,9)
        bumpSignal_def store_funs split: if_split_asm)
qed

lemma offer_taken:
  assumes o: "opensQueue T keysForQueue name p" and r: "offer T C keysForQueue name eid elem now s = Inr s'"
    and taken: "tx_get T s (K p ''ids'' [Str eid]) \<noteq> None" and k: "prefix p k"
  shows "tx_get T s' k = tx_get T s k"
proof -
  obtain keys s1 where keys: "keysForQueue name s = Inr (keys, s1)"
    using r by (auto simp: offer_def bindR_eq_Inr)
  have at: "keys_at p keys" and same: "\<And>k. prefix p k \<Longrightarrow> tx_get T s1 k = tx_get T s k"
    using o keys by (auto simp: opensQueue_def)
  have "tx_get T s1 (K p ''ids'' [Str eid]) \<noteq> None" using taken same by (simp add: K_def)
  then have "s' = s1"
    using r keys by (auto simp: offer_def bindR_eq_Inr pack_at [OF keys_at_prefix(2) [OF at]])
  then show ?thesis using same k by simp
qed

text \<open>A new entry is pending, visible at once, under the next sequence.\<close>

lemma offer_adds:
  assumes o: "opensQueue T keysForQueue name p" and inv: "queue_inv C p (tx_get T s)"
    and r: "offer T C keysForQueue name eid elem now s = Inr s'"
    and new: "tx_get T s (K p ''ids'' [Str eid]) = None"
  shows "metaAt C p (tx_get T s') (counterOf p (tx_get T s)) = Some \<lparr>entry_id = eid, attempts = 0,
      state = Pending, visibleAt = now, acquiredAt = None, acquiredBy = None, updatedAt = now\<rparr>
    \<and> counterOf p (tx_get T s') = counterOf p (tx_get T s) + 1"
proof -
  obtain keys s1 where keys: "keysForQueue name s = Inr (keys, s1)"
    using r by (auto simp: offer_def bindR_eq_Inr)
  have at: "keys_at p keys" and same: "\<And>k. prefix p k \<Longrightarrow> tx_get T s1 k = tx_get T s k"
    using o keys by (auto simp: opensQueue_def)
  note pk = keys_at_prefix [OF at]
  let ?en = "\<lparr>entry_id = eid, attempts = 0, state = Pending, visibleAt = now, acquiredAt = None,
      acquiredBy = None, updatedAt = now, element = elem\<rparr>"
  have none: "tx_get T s1 (K p ''ids'' [Str eid]) = None" using new same by (simp add: K_def)
  with r keys obtain q s2 where q: "(case tx_get T s1 (counterKey keys) of None \<Rightarrow> Inr 0 | Some v \<Rightarrow> decodeSequence v) = Inr q"
      "smallInt q" "smallInt (q + 1)"
    and eid: "wellFormed eid"
    and c: "createEntry T C (entries keys) q ?en s1 = Inr s2"
    and s': "s' = bumpSignal T keys (tx_set T (K p ''counter'' []) (seqValue (q + 1))
        (tx_set T (K p ''pending'' [BigInt (timestamp now), BigInt q]) (seqValue q)
          (tx_set T (K p ''ids'' [Str eid]) (seqValue q) s2)))"
    by (auto simp: offer_def bindR_eq_Inr pack_at [OF pk(2)] pack_at [OF pk(3)] pk(8) Let_def)
  have "counterOf p (tx_get T s) = counterOf p (tx_get T s1)"
    using same by (simp add: counterOf_def K_def)
  with q(1) have count: "q = counterOf p (tx_get T s)" "0 \<le> q"
    using decodeSequence_nonneg by (auto simp: counterOf_def pk(8) split: option.splits)
  note ce = createEntry_fun [OF c pk(1) touch_refl]
  have "metaAt C p (tx_get T s') q = Some (metadata.truncate ?en)"
    using ce(3) q eid by (simp add: s' bumpSignal_def pk(9) store_funs metaAt_upd)
  moreover have "counterOf p (tx_get T s') = q + 1"
    using q(3) count(2) by (simp add: s' bumpSignal_def pk(9) store_funs counterOf_def)
  ultimately show ?thesis using count(1) by (simp add: metadata.defs)
qed

text \<open>The outcome of a claim: settled once by its owner, and by nobody else.\<close>

lemma finalize_settles:
  assumes o: "opensQueue T keysForQueue name p" and inv: "queue_inv C p (tx_get T s)" and now: "whole now"
    and r: "finalizeClaim T C keysForQueue f name claimed maxAttempts delay exit now s = Inr (st, s')"
    and fs: "finalState f maxAttempts delay exit claimed now = (newState, visible, dec)"
    and h: "heldSince claimed (metaAt C p (tx_get T s) (claimSequence claimed)) = Some (m, a)"
  shows "st = newState \<and> metaAt C p (tx_get T s') (claimSequence claimed)
    = Some (m\<lparr>attempts := (if dec then max 0 (attempts m - 1) else attempts m), state := newState,
        visibleAt := visible, acquiredAt := None, acquiredBy := None, updatedAt := now\<rparr>)"
proof -
  obtain keys s1 e where k: "keysForQueue name s = Inr (keys, s1)"
    and e: "readEntryMetadata T C s1 (entries keys) (claimSequence claimed) = Inr e"
    using r by (auto simp: finalizeClaim_def fs bindR_eq_Inr)
  have at: "keys_at p keys" and same: "\<And>k. prefix p k \<Longrightarrow> tx_get T s1 k = tx_get T s k"
    using o k by (auto simp: opensQueue_def)
  note pk = keys_at_prefix [OF at]
  have q: "smallInt (claimSequence claimed)" and eq: "e = metaAt C p (tx_get T s) (claimSequence claimed)"
    using readEntryMetadata_Inr [OF e pk(1)] same by (simp_all add: metaAt_def K_def)
  let ?m = "m\<lparr>attempts := (if dec then max 0 (attempts m - 1) else attempts m),
             state := newState, visibleAt := visible, acquiredAt := None, acquiredBy := None,
             updatedAt := now\<rparr>"
  let ?n = "if newState = Pending then ''pending'' else if newState = Completed then ''completed'' else ''failed''"
  from e eq h r k fs obtain s2 s3 where
    w: "writeEntryMetadata T C (entries keys) (claimSequence claimed) ?m
       (tx_clear T (K p ''claims'' [Str (claimId claimed)])
         (tx_clear T (K p ''locks'' [BigInt (timestamp a), BigInt (claimSequence claimed)]) s1)) = Inr s2"
    and x: "setIndex T (if newState = Pending then pending keys
        else if newState = Completed then completed keys else failed keys)
        (timestamp (if newState = Pending then visible else now)) (claimSequence claimed) s2 = Inr s3"
    and s': "st = newState" "s' = (if newState = Pending then bumpSignal T keys s3 else s3)"
    by (auto simp: finalizeClaim_def bindR_eq_Inr Let_def pack_at [OF pk(4)] pack_at [OF pk(7)] split: if_splits)
  have sub: "prefix_bytes (if newState = Pending then pending keys
        else if newState = Completed then completed keys else failed keys) = K p ?n []"
    using pk by simp
  have "metaAt C p (tx_get T s3) (claimSequence claimed) = Some ?m"
    using q by (simp add: setIndex_Inr(3) [OF x sub] writeEntryMetadata_Inr(2) [OF w pk(1)] metaAt_upd metaAt_set)
  then show ?thesis using s' q by (simp add: bumpSignal_def pk(9) store_funs metaAt_upd)
qed

lemma finalize_foreign:
  assumes o: "opensQueue T keysForQueue name p"
    and r: "finalizeClaim T C keysForQueue f name claimed maxAttempts delay exit now s = Inr (st, s')"
    and h: "heldSince claimed (metaAt C p (tx_get T s) (claimSequence claimed)) = None" and kk: "prefix p key"
  shows "tx_get T s' key = tx_get T s key"
proof -
  obtain newState visible dec where fs: "finalState f maxAttempts delay exit claimed now = (newState, visible, dec)"
    by (metis prod_cases3)
  obtain keys s1 e where k: "keysForQueue name s = Inr (keys, s1)"
    and e: "readEntryMetadata T C s1 (entries keys) (claimSequence claimed) = Inr e"
    using r by (auto simp: finalizeClaim_def fs bindR_eq_Inr)
  have at: "keys_at p keys" and same: "\<And>k. prefix p k \<Longrightarrow> tx_get T s1 k = tx_get T s k"
    using o k by (auto simp: opensQueue_def)
  have "e = metaAt C p (tx_get T s) (claimSequence claimed)"
    using readEntryMetadata_Inr [OF e keys_at_prefix(1) [OF at]] same by (simp add: metaAt_def K_def)
  with r k e h fs have "s' = s1" by (simp add: finalizeClaim_def)
  then show ?thesis using same kk by simp
qed

end

section \<open>The states of a queue\<close>

text \<open>
  Any number of clients run transactions on the queue, one after the other as serializable
  transactions do. Clock readings are whole milliseconds. Transactions of other parts of the program
  change no key under the prefix of the queue.
\<close>

inductive queue_step ::
    "'s txn \<Rightarrow> 'j queue_codec \<Rightarrow> (js_string \<Rightarrow> 's \<Rightarrow> queue_error + queue_keys \<times> 's) \<Rightarrow> js_string \<Rightarrow> bytes \<Rightarrow> 's \<Rightarrow> 's \<Rightarrow> bool"
  for T C keysForQueue name p where
  step_offer: "whole now \<Longrightarrow> offer T C keysForQueue name eid elem now s = Inr s' \<Longrightarrow>
     queue_step T C keysForQueue name p s s'"
| step_claim: "whole now \<Longrightarrow> claim T C keysForQueue lockExpiration name cid maxAttempts now s = Inr (res, s') \<Longrightarrow>
     queue_step T C keysForQueue name p s s'"
| step_refresh: "whole now \<Longrightarrow> refreshClaim T C keysForQueue name claimed now s = Inr s' \<Longrightarrow>
     queue_step T C keysForQueue name p s s'"
| step_finalize: "whole now \<Longrightarrow>
     finalizeClaim T C keysForQueue f name claimed maxAttempts delay exit now s = Inr (st, s') \<Longrightarrow>
     queue_step T C keysForQueue name p s s'"
| step_cleanup: "st = Completed \<or> st = Failed \<Longrightarrow>
     cleanupBatch T C keysForQueue name st cutoff s = Inr (n, s') \<Longrightarrow> queue_step T C keysForQueue name p s s'"
| step_elsewhere: "(\<And>k. prefix p k \<Longrightarrow> tx_get T s' k = tx_get T s k) \<Longrightarrow> queue_step T C keysForQueue name p s s'"

inductive queue_reachable ::
    "'s txn \<Rightarrow> 'j queue_codec \<Rightarrow> (js_string \<Rightarrow> 's \<Rightarrow> queue_error + queue_keys \<times> 's) \<Rightarrow> js_string \<Rightarrow> bytes \<Rightarrow> 's \<Rightarrow> bool"
  for T C keysForQueue name p where
  reach_empty: "(\<And>k. prefix p k \<Longrightarrow> tx_get T s k = None) \<Longrightarrow> queue_reachable T C keysForQueue name p s"
| reach_step: "queue_reachable T C keysForQueue name p s \<Longrightarrow> queue_step T C keysForQueue name p s s' \<Longrightarrow>
     queue_reachable T C keysForQueue name p s'"

lemma queue_inv_empty: "(\<And>k. prefix p k \<Longrightarrow> g k = None) \<Longrightarrow> queue_inv C p g"
  using inRange_prefix by (fastforce simp: queue_inv_def metaAt_def K_def)

context queue_store
begin

lemma queue_step_inv:
  assumes "queue_step T C keysForQueue name p s s'" and "opensQueue T keysForQueue name p" and "queue_inv C p (tx_get T s)"
  shows "queue_inv C p (tx_get T s')"
  using assms
proof (induction rule: queue_step.induct)
  case (step_elsewhere s' s)
  then show ?case by (auto intro: queue_inv_cong)
qed (auto intro: offer_inv claim_inv refreshClaim_inv finalizeClaim_inv cleanupBatch_inv)

lemma queue_reachable_inv:
  assumes "queue_reachable T C keysForQueue name p s" and "opensQueue T keysForQueue name p"
  shows "queue_inv C p (tx_get T s)"
  using assms by (induction rule: queue_reachable.induct) (auto intro: queue_inv_empty queue_step_inv)

end

end
