(* ===== verification/Queue_Delivery.thy ===== *)
theory Queue_Delivery
  imports Queue_Behaviour
begin

text \<open>
  Delivery: an entry offered to an empty queue is handed out, with its element, by the next claim. The
  proof follows the two transactions over the rows of the queue.
\<close>

declare smallInt_few [simp]

context fdb
begin

lemma indexBefore_ok:
  assumes sub: "prefix_bytes sub = K p n []" and t: "t < of_int MAX_SAFE_INTEGER"
  obtains e where "indexBefore T s sub t = Inr (tx_getRange T s (keyRange (K p n [] @ [NIL]) e (Some indexBatchSize) False))"
    and "e \<le> K p n [] @ [ESCAPE]"
    and "0 \<le> t \<Longrightarrow> smallInt x \<Longrightarrow> smallInt q \<Longrightarrow> x \<le> \<lfloor>t\<rfloor> \<Longrightarrow> K p n [BigInt x, BigInt q] < e"
proof -
  obtain rows where rows: "indexBefore T s sub t = Inr rows"
  proof (cases "t < 0")
    case True
    then show ?thesis using that by (simp add: indexBefore_def range_at [OF sub, THEN iffD2] bindR_def split: sum.splits)
  next
    case False
    have "\<lfloor>t\<rfloor> + 1 \<le> MAX_SAFE_INTEGER" using t by linarith
    then have "smallInt (\<lfloor>t\<rfloor> + 1)" using False by (intro smallInt_mono [OF _ _ smallInt_max]) simp_all
    then show ?thesis
      using that False t
      by (simp add: indexBefore_def range_at [OF sub, THEN iffD2] pack_at [OF sub, THEN iffD2])
  qed
  from indexBefore_range [OF rows sub] rows that show ?thesis by metis
qed

end

context queue_store
begin

lemma decodeUtf8_element: "decodeUtf8 (text_encode (encodeQueueElement C j)) = Inr (encodeQueueElement C j)"
  by (simp add: decodeUtf8_def element_no_mark text_decode_encode element_wellFormed ofOption_def)

lemma decodeUtf8_metadata:
  "decodeUtf8 (text_encode (encodeQueueEntryMetadata C m)) = Inr (encodeQueueEntryMetadata C m)"
  by (simp add: decodeUtf8_def metadata_no_mark text_decode_encode metadata_wellFormed ofOption_def)

text \<open>An entry that was just created can be read, whatever other keys were written meanwhile.\<close>

lemma readEntry_created:
  assumes c: "createEntry T C sub q en s = Inr s1" and sub: "prefix_bytes sub = K p ''entries'' []"
    and sub': "prefix_bytes sub' = K p ''entries'' []"
    and frame: "\<And>k. inRange p ''entries'' [BigInt q] k \<Longrightarrow> tx_get T s' k = tx_get T s1 k"
  shows "readEntry T C s' sub' q = Inr (Some en)"
proof -
  let ?path = "[BigInt q, Str (js ''element'')]"
  obtain s2 where w: "writeEntryMetadata T C sub q (metadata.truncate en) s = Inr s2"
    and x: "writeChunkedValue T sub ?path (text_encode (encodeQueueElement C (element en))) s2 = Inr s1"
    using c by (auto simp: createEntry_def bindR_eq_Inr)
  note wi = writeEntryMetadata_Inr [OF w sub]
  have "tx_get T s1 (metaKey p q) = tx_get T s2 (metaKey p q)"
    using writeChunked_Inr [OF x sub, of "metaKey p q"] wi(1) by (auto simp: strict_prefix_def)
  then have "tx_get T s' (metaKey p q) = Some (text_encode (encodeQueueEntryMetadata C (metadata.truncate en)))"
    using frame [of "metaKey p q"] wi by (simp add: strict_prefix_def)
  then have meta: "readEntryMetadata T C s' sub' q = Inr (Some (metadata.truncate en))"
    using wi(1)
    by (simp add: readEntryMetadata_def pack_at [OF sub', THEN iffD2] decodeUtf8_metadata decode_encode_metadata ofOption_def)
  have ok: "tuple_ok ?path" using wi(1) by simp
  have "readChunkedValue T s' sub' ?path = readChunkedValue T s1 sub ?path"
  proof -
    have "inRange p ''entries'' [BigInt q] k" if "inRange p ''entries'' ?path k" for k
      using inRange_nested [of p "''entries''" "[BigInt q]" "[Str (js ''element'')]" k] that by simp
    then have "tx_getRange T s' (keyRange (K p ''entries'' ?path @ [NIL]) (K p ''entries'' ?path @ [ESCAPE]) None False)
        = tx_getRange T s1 (keyRange (K p ''entries'' ?path @ [NIL]) (K p ''entries'' ?path @ [ESCAPE]) None False)"
      by (intro range_cong frame) (simp add: inRange_def)
    then show ?thesis
      using ok by (simp add: readChunkedValue_def chunkedValueRange_def range_at [OF sub, THEN iffD2]
          range_at [OF sub', THEN iffD2])
  qed
  also have "\<dots> = Inr (Some (text_encode (encodeQueueElement C (element en))))"
    by (rule read_write [OF x]) simp
  finally show ?thesis
    by (simp add: readEntry_def meta decodeUtf8_element decode_encode_element ofOption_def withElement_def metadata.defs)
qed

end

lemma inRange_pending: "inRange p n [] (K p ''pending'' [BigInt (timestamp t), BigInt 0]) \<longleftrightarrow> n = ''pending''"
  by (simp add: strict_prefix_def)

context fdb
begin

lemma indexBefore_none:
  assumes sub: "prefix_bytes sub = K p n []" and t: "t < of_int MAX_SAFE_INTEGER"
    and none: "\<And>k. inRange p n [] k \<Longrightarrow> tx_get T s k = None"
  shows "indexBefore T s sub t = Inr []"
proof -
  obtain e where i: "indexBefore T s sub t
      = Inr (tx_getRange T s (keyRange (K p n [] @ [NIL]) e (Some indexBatchSize) False))" "e \<le> K p n [] @ [ESCAPE]"
    using indexBefore_ok [OF sub t] by metis
  have "tx_get T s k = None" if "K p n [] @ [NIL] \<le> k" "k < e" for k
    by (rule none) (use that less_le_trans [OF _ i(2)] in \<open>simp add: inRange_def\<close>)
  then show ?thesis using i(1) by (simp add: range_none)
qed

end

context queue_store
begin

text \<open>What is stored under an empty queue after one offer.\<close>

lemma first_offer:
  assumes o: "opensQueue T keysForQueue name p" and empty: "\<And>k. prefix p k \<Longrightarrow> tx_get T s k = None"
    and r: "offer T C keysForQueue name eid elem now s = Inr s1"
  defines "en \<equiv> \<lparr>entry_id = eid, attempts = 0, state = Pending, visibleAt = now, acquiredAt = None,
      acquiredBy = None, updatedAt = now, element = elem\<rparr>"
  shows "\<exists>sub s0 s2. createEntry T C sub 0 en s0 = Inr s2 \<and> prefix_bytes sub = K p ''entries'' []
      \<and> (\<forall>k. inRange p ''entries'' [BigInt 0] k \<longrightarrow> tx_get T s1 k = tx_get T s2 k)"
    and "tx_get T s1 (K p ''pending'' [BigInt (timestamp now), BigInt 0]) = Some (seqValue 0)"
    and "inRange p n [] k \<Longrightarrow> n \<in> insert ''claims'' indexNames \<Longrightarrow> tx_get T s1 k \<noteq> None \<Longrightarrow>
      k = K p ''pending'' [BigInt (timestamp now), BigInt 0]"
proof -
  obtain keys s0 where keys: "keysForQueue name s = Inr (keys, s0)"
    using r by (auto simp: offer_def bindR_eq_Inr)
  have at: "keys_at p keys" and none: "\<And>k. prefix p k \<Longrightarrow> tx_get T s0 k = None"
    using o keys empty by (auto simp: opensQueue_def)
  have noneK: "tx_get T s0 (K p n r) = None" for n r by (rule none) (simp add: K_def)
  note pk = keys_at_prefix [OF at]
  from r keys noneK obtain s2 where eid: "wellFormed eid" and c: "createEntry T C (entries keys) 0 en s0 = Inr s2"
    and s1: "s1 = bumpSignal T keys (tx_set T (K p ''counter'' []) (seqValue 1)
        (tx_set T (K p ''pending'' [BigInt (timestamp now), BigInt 0]) (seqValue 0)
          (tx_set T (K p ''ids'' [Str eid]) (seqValue 0) s2)))"
    by (auto simp: offer_def bindR_eq_Inr pack_at [OF pk(2)] pack_at [OF pk(3)] pk(8) Let_def en_def)
  have get: "tx_get T s1 k = (if k = K p ''signal'' [] then Some (addLE (tx_get T s2 k) signalIncrement)
      else if k = K p ''counter'' [] then Some (seqValue 1)
      else if k = K p ''pending'' [BigInt (timestamp now), BigInt 0] then Some (seqValue 0)
      else if k = K p ''ids'' [Str eid] then Some (seqValue 0) else tx_get T s2 k)" for k
    using eid by (simp add: s1 bumpSignal_def pk(9) store_funs)
  have "tx_get T s1 k = tx_get T s2 k" if "inRange p ''entries'' [BigInt 0] k" for k
    using that eid by (auto simp: get)
  then show "\<exists>sub s0 s2. createEntry T C sub 0 en s0 = Inr s2 \<and> prefix_bytes sub = K p ''entries'' []
      \<and> (\<forall>k. inRange p ''entries'' [BigInt 0] k \<longrightarrow> tx_get T s1 k = tx_get T s2 k)"
    using c pk(1) by blast
  show "tx_get T s1 (K p ''pending'' [BigInt (timestamp now), BigInt 0]) = Some (seqValue 0)" by (simp add: get)
  show "k = K p ''pending'' [BigInt (timestamp now), BigInt 0]"
    if k: "inRange p n [] k" "n \<in> insert ''claims'' indexNames" "tx_get T s1 k \<noteq> None"
  proof -
    have "\<not> inRange p ''entries'' [BigInt 0] k"
      using inRange_disjoint [OF k(1), of "''entries''" "[BigInt 0]"] k(2) by (auto simp: indexNames_def)
    then have "tx_get T s2 k = None"
      using createEntry_fun(4) [OF c pk(1) touch_refl] none [OF inRange_prefix [OF k(1)]] by simp
    moreover have "k \<noteq> K p ''signal'' []" "k \<noteq> K p ''counter'' []" "k \<noteq> K p ''ids'' [Str eid]"
      using k(1,2) eid by (auto simp: indexNames_def)
    ultimately show ?thesis using k(3) by (auto simp: get split: if_splits)
  qed
qed

text \<open>The scan of a queue whose only index row is a visible pending entry.\<close>

lemma scan_finds:
  assumes at: "keys_at p keys" and pos: "0 < maxAttempts" and now: "0 \<le> now" "now < of_int MAX_SAFE_INTEGER"
      "now - lockExpiration < of_int MAX_SAFE_INTEGER" "t \<le> now"
    and entry: "readEntry T C s (entries keys) 0 = Inr (Some en)" "state en = Pending" "attempts en = 0" "visibleAt en \<le> now"
    and row: "tx_get T s (K p ''pending'' [BigInt (timestamp t), BigInt 0]) = Some (seqValue 0)"
    and only: "\<And>n k. inRange p n [] k \<Longrightarrow> n \<in> indexNames \<Longrightarrow> tx_get T s k \<noteq> None \<Longrightarrow>
      k = K p ''pending'' [BigInt (timestamp t), BigInt 0]"
  shows "\<exists>s'. scanIndexes T C keys lockExpiration claimKey cid maxAttempts now s = Inr (Claimed \<lparr>claimId = cid,
      claimSequence = 0, claimEntry = en\<lparr>attempts := 1, state := Processing, acquiredAt := Some now,
        acquiredBy := Some cid, updatedAt := now\<rparr>\<rparr>, s')"
proof -
  note pk = keys_at_prefix [OF at]
  let ?row = "(K p ''pending'' [BigInt (timestamp t), BigInt 0], seqValue 0)"
  have locks: "indexBefore T s (locks keys) (now - lockExpiration) = Inr []"
    using only [of "''locks''"] by (intro indexBefore_none [OF pk(4) now(3)]) (fastforce simp: inRange_pending)
  have pend: "indexBefore T s (pending keys) now = Inr [?row]"
  proof -
    obtain e where i: "indexBefore T s (pending keys) now
        = Inr (tx_getRange T s (keyRange (K p ''pending'' [] @ [NIL]) e (Some indexBatchSize) False))"
      "e \<le> K p ''pending'' [] @ [ESCAPE]" "K p ''pending'' [BigInt (timestamp t), BigInt 0] < e"
      using indexBefore_ok [OF pk(3) now(2), of s "timestamp t" 0] now timestamp_due [OF now(4,1)]
      by (metis not_le timestamp_small smallInt_few(1))
    have "tx_getRange T s (keyRange (K p ''pending'' [] @ [NIL]) e (Some indexBatchSize) False) = [?row]"
    proof (rule range_single)
      show "K p ''pending'' [] @ [NIL] \<le> fst ?row"
        using K_in_range [of "[]" "[BigInt (timestamp t), BigInt 0]" p "''pending''" "''pending''"]
        by (simp add: strict_prefix_def)
      show "fst ?row < e" "tx_get T s (fst ?row) = Some (snd ?row)" using i(3) row by simp_all
      show "k = fst ?row" if "K p ''pending'' [] @ [NIL] \<le> k" "k < e" "tx_get T s k = Some v" for k v
        using only [of "''pending''" k] less_le_trans [OF that(2) i(2)] that by (auto simp: inRange_def)
    qed (simp add: indexBatchSize_def)
    then show ?thesis using i(1) by simp
  qed
  let ?en = "en\<lparr>attempts := 1, state := Processing, acquiredAt := Some now, acquiredBy := Some cid, updatedAt := now\<rparr>"
  obtain s1 where s1: "writeEntryMetadata T C (entries keys) 0 (metadata.truncate ?en) (tx_clear T (fst ?row) s) = Inr s1"
    by (auto simp: writeEntryMetadata_def Let_def pack_at [OF pk(1), THEN iffD2])
  have zero: "encodeSequence 0 = Inr (seqValue 0)" by simp
  obtain s2 where s2: "setIndex T (locks keys) (timestamp now) 0 s1 = Inr s2"
    by (auto simp: setIndex_def pack_at [OF pk(4), THEN iffD2] zero)
  have "claimPending T C keys claimKey cid now maxAttempts [?row] s
      = Inr (Some \<lparr>claimId = cid, claimSequence = 0, claimEntry = ?en\<rparr>, tx_set T claimKey (seqValue 0) s2)"
    using entry pos s1 s2 by (simp add: Let_def not_less [symmetric] zero)
  then show ?thesis by (simp add: scanIndexes_def locks pend)
qed

lemma offer_then_claim:
  assumes o: "opensQueue T keysForQueue name p" and opens: "\<And>s. \<exists>r. keysForQueue name s = Inr r"
    and empty: "\<And>k. prefix p k \<Longrightarrow> tx_get T s k = None"
    and r: "offer T C keysForQueue name eid elem now s = Inr s1"
    and times: "now \<le> now2" "0 \<le> now2" "now2 < of_int MAX_SAFE_INTEGER" "now2 - lockExpiration < of_int MAX_SAFE_INTEGER"
    and "0 < maxAttempts" and cid: "wellFormed cid"
  shows "\<exists>s2. claim T C keysForQueue lockExpiration name cid maxAttempts now2 s1 = Inr (Claimed \<lparr>claimId = cid,
      claimSequence = 0, claimEntry = \<lparr>entry_id = eid, attempts = 1, state = Processing, visibleAt = now,
        acquiredAt = Some now2, acquiredBy = Some cid, updatedAt = now2, element = elem\<rparr>\<rparr>, s2)"
proof -
  obtain keys s2 where keys: "keysForQueue name s1 = Inr (keys, s2)" using opens by force
  have at: "keys_at p keys" and same: "\<And>k. prefix p k \<Longrightarrow> tx_get T s2 k = tx_get T s1 k"
    using o keys by (auto simp: opensQueue_def)
  note pk = keys_at_prefix [OF at] and f = first_offer [OF o empty r]
  obtain sub s0 s3 where c: "createEntry T C sub 0 \<lparr>entry_id = eid, attempts = 0, state = Pending, visibleAt = now,
      acquiredAt = None, acquiredBy = None, updatedAt = now, element = elem\<rparr> s0 = Inr s3"
    "prefix_bytes sub = K p ''entries'' []"
    "\<And>k. inRange p ''entries'' [BigInt 0] k \<Longrightarrow> tx_get T s1 k = tx_get T s3 k"
    using f(1) by blast
  have "readEntry T C s2 (entries keys) 0 = Inr (Some \<lparr>entry_id = eid, attempts = 0, state = Pending, visibleAt = now,
      acquiredAt = None, acquiredBy = None, updatedAt = now, element = elem\<rparr>)"
    using c(3) same inRange_prefix by (intro readEntry_created [OF c(1,2) pk(1)]) metis
  then obtain s4 where scan: "scanIndexes T C keys lockExpiration (K p ''claims'' [Str cid]) cid maxAttempts now2 s2
    = Inr (Claimed \<lparr>claimId = cid, claimSequence = 0, claimEntry = \<lparr>entry_id = eid, attempts = 1, state = Processing,
        visibleAt = now, acquiredAt = Some now2, acquiredBy = Some cid, updatedAt = now2, element = elem\<rparr>\<rparr>, s4)"
    using scan_finds [OF at assms(9) times(2-4,1), of s2 _ "K p ''claims'' [Str cid]" cid] f(2,3) same inRange_prefix times
    by (fastforce simp: K_def)
  have "inRange p ''claims'' [] (K p ''claims'' [Str cid])" using cid by (simp add: strict_prefix_def)
  then have "tx_get T s1 (K p ''claims'' [Str cid]) = None"
    using f(3) [of "''claims''" "K p ''claims'' [Str cid]"] cid by (cases "tx_get T s1 (K p ''claims'' [Str cid])") auto
  then have "tx_get T s2 (K p ''claims'' [Str cid]) = None" using same by (simp add: K_def)
  with keys scan cid show ?thesis by (simp add: claim_def pack_at [OF pk(7), THEN iffD2])
qed

text \<open>Before the entry is visible a claim waits.\<close>

lemma offer_then_early_claim:
  assumes o: "opensQueue T keysForQueue name p" and opens: "\<And>s. \<exists>r. keysForQueue name s = Inr r"
    and empty: "\<And>k. prefix p k \<Longrightarrow> tx_get T s k = None" and now: "whole now"
    and r: "offer T C keysForQueue name eid elem now s = Inr s1"
    and times: "now2 < now" "0 \<le> now2" "now2 - lockExpiration < of_int MAX_SAFE_INTEGER"
    and cid: "wellFormed cid"
  shows "\<exists>s2. claim T C keysForQueue lockExpiration name cid maxAttempts now2 s1 = Inr (ClaimWait, s2)"
proof -
  obtain keys s2 where keys: "keysForQueue name s1 = Inr (keys, s2)" using opens by force
  have at: "keys_at p keys" and same: "\<And>k. prefix p k \<Longrightarrow> tx_get T s2 k = tx_get T s1 k"
    using o keys by (auto simp: opensQueue_def)
  note pk = keys_at_prefix [OF at] and f = first_offer [OF o empty r]
  have only: "k = K p ''pending'' [BigInt (timestamp now), BigInt 0]"
    if "inRange p n [] k" "n \<in> insert ''claims'' indexNames" "tx_get T s2 k \<noteq> None" for n k
    using f(3) [OF _ that(1,2)] same [OF inRange_prefix [OF that(1)]] that(3) by simp
  have none: "tx_get T s2 k = None" if "inRange p n [] k" "n \<in> insert ''claims'' indexNames" "n \<noteq> ''pending''" for n k
    using only [OF that(1,2)] that(1,3) inRange_pending by (metis (full_types))
  have less: "timestamp now2 < timestamp now" "now2 < of_int MAX_SAFE_INTEGER" "timestamp now2 = \<lfloor>now2\<rfloor>"
    using now times by (auto simp: timestamp_def whole_def floor_less_iff le_floor_iff max_def min_def)
  have inv: "queue_inv C p (tx_get T s2)"
    by (rule queue_inv_cong [OF offer_inv [OF o queue_inv_empty now r]]) (simp_all add: empty same)
  have locks: "indexBefore T s2 (locks keys) (now2 - lockExpiration) = Inr []"
    using none by (intro indexBefore_none [OF pk(4) times(3)]) simp
  obtain rows where rows: "indexBefore T s2 (pending keys) now2 = Inr rows"
    using indexBefore_ok [OF pk(3) less(2)] by metis
  have "rows = []"
  proof (rule ccontr)
    assume "rows \<noteq> []"
    then obtain k v where kv: "(k, v) \<in> set rows" by (cases rows) auto
    obtain x q where k: "k = K p ''pending'' [BigInt x, BigInt q]" "smallInt x" "smallInt q" "x \<le> \<lfloor>now2\<rfloor>"
      using indexBefore_rows [OF rows pk(3) inv index_names(1) kv] less(2) by auto
    have "tx_get T s2 k \<noteq> None"
      using indexBefore_range [OF rows pk(3)] range_row kv by (metis option.discI)
    with only [of "''pending''" k] k have "x = timestamp now" by (simp add: strict_prefix_def)
    with k(4) less show False by simp
  qed
  then have scan: "scanIndexes T C keys lockExpiration key cid maxAttempts now2 s2 = Inr (ClaimWait, s2)" for key
    using locks rows by (simp add: scanIndexes_def)
  have "tx_get T s2 (K p ''claims'' [Str cid]) = None"
    using none [of "''claims''"] cid by (simp add: strict_prefix_def)
  with keys scan cid show ?thesis by (simp add: claim_def pack_at [OF pk(7), THEN iffD2])
qed

text \<open>Finalizing cannot fail for an entry whose metadata can be read.\<close>

lemma readEntryMetadata_ok:
  assumes "prefix_bytes sub = K p ''entries'' []" and "smallInt q" and "metaAt C p (tx_get T s) q = Some m"
  shows "readEntryMetadata T C s sub q = Inr (Some m)"
proof -
  obtain v where v: "tx_get T s (metaKey p q) = Some v" "decodeMeta C v = Some m"
    using assms(3) by (auto simp: metaAt_def bind_eq_Some_conv)
  then obtain t where "decodeUtf8 v = Inr t" "decodeQueueEntryMetadata C t = Some m"
    by (auto simp: decodeMeta_def split: sum.split_asm)
  with v(1) assms(2) show ?thesis
    by (simp add: readEntryMetadata_def pack_at [OF assms(1), THEN iffD2] ofOption_def)
qed

lemma finalizeClaim_ok:
  assumes o: "opensQueue T keysForQueue name p" and opens: "\<And>s. \<exists>r. keysForQueue name s = Inr r"
    and q: "smallInt (claimSequence claimed)" and m: "metaAt C p (tx_get T s) (claimSequence claimed) = Some m"
    and cid: "wellFormed (claimId claimed)"
  shows "\<exists>r. finalizeClaim T C keysForQueue f name claimed maxAttempts delay exit now s = Inr r"
proof -
  obtain keys s1 where keys: "keysForQueue name s = Inr (keys, s1)" using opens by force
  have at: "keys_at p keys" and same: "\<And>k. prefix p k \<Longrightarrow> tx_get T s1 k = tx_get T s k"
    using o keys by (auto simp: opensQueue_def)
  note pk = keys_at_prefix [OF at]
  obtain newState visible dec where fs: "finalState f maxAttempts delay exit claimed now = (newState, visible, dec)"
    by (metis prod_cases3)
  have "metaAt C p (tx_get T s1) (claimSequence claimed) = Some m" using m same by (simp add: metaAt_def K_def)
  note r = readEntryMetadata_ok [OF pk(1) q this]
  have w: "\<exists>s2. writeEntryMetadata T C (entries keys) (claimSequence claimed) m' s0 = Inr s2" for m' s0
    using q by (simp add: writeEntryMetadata_def Let_def pack_at [OF pk(1), THEN iffD2])
  have num: "encodeSequence (claimSequence claimed) = Inr (seqValue (claimSequence claimed))" using q by simp
  have x: "\<exists>s2. setIndex T sub (timestamp t) (claimSequence claimed) s0 = Inr s2" if "prefix_bytes sub = K p n []" for sub n t s0
    using q by (simp add: setIndex_def pack_at [OF that, THEN iffD2] num)
  show ?thesis
  proof (cases "heldSince claimed (Some m)")
    case None
    then show ?thesis by (simp add: finalizeClaim_def fs keys r)
  next
    case (Some ma)
    obtain a where ma: "ma = (m, a)" using Some by (cases ma) (simp add: heldSince_Some)
    let ?m = "m\<lparr>attempts := (if dec then max 0 (attempts m - 1) else attempts m), state := newState,
        visibleAt := visible, acquiredAt := None, acquiredBy := None, updatedAt := now\<rparr>"
    obtain s2 where s2: "writeEntryMetadata T C (entries keys) (claimSequence claimed) ?m
       (tx_clear T (K p ''claims'' [Str (claimId claimed)])
         (tx_clear T (K p ''locks'' [BigInt (timestamp a), BigInt (claimSequence claimed)]) s1)) = Inr s2"
      using w by blast
    obtain s3 s4 s5 where "setIndex T (pending keys) (timestamp visible) (claimSequence claimed) s2 = Inr s3"
      "setIndex T (completed keys) (timestamp now) (claimSequence claimed) s2 = Inr s4"
      "setIndex T (failed keys) (timestamp now) (claimSequence claimed) s2 = Inr s5"
      using x [OF pk(3)] x [OF pk(5)] x [OF pk(6)] by metis
    then show ?thesis
      using Some ma q cid s2
      by (simp add: finalizeClaim_def fs keys r Let_def pack_at [OF pk(4), THEN iffD2] pack_at [OF pk(7), THEN iffD2])
  qed
qed

end

end
