(* ===== verification/Stored_Records.thy ===== *)
theory Stored_Records
  imports Keyed_Rows
begin

text \<open>
  Records stored as JSON text. The stores decode with a \<open>TextDecoder\<close> that replaces malformed bytes, so
  the decoder is total; the JSON schemas belong to the schema library and are a parameter (\<open>json_codec\<close>),
  of which the stores rely on decoding what was encoded.
\<close>

section \<open>The replacing UTF-8 decoder\<close>

text \<open>
  \<open>new TextDecoder()\<close>: a byte that cannot continue the sequence ends it with one replacement character
  and is read again as the start of the next one; a byte order mark at the start is dropped.
\<close>

fun utf8_lossy :: "nat list \<Rightarrow> nat list" where
  "utf8_lossy [] = []"
| "utf8_lossy (a # r) =
    (if a < 0x80 then a # utf8_lossy r
     else if 0xC2 \<le> a \<and> a < 0xE0 then
       (case r of
          b # r2 \<Rightarrow>
            if cont b then ((a - 0xC0) * 0x40 + (b - 0x80)) # utf8_lossy r2 else 0xFFFD # utf8_lossy r
        | [] \<Rightarrow> [0xFFFD])
     else if 0xE0 \<le> a \<and> a < 0xF0 then
       (case r of
          b # r2 \<Rightarrow>
            if (if a = 0xE0 then 0xA0 else 0x80) \<le> b \<and> b < (if a = 0xED then 0xA0 else 0xC0) then
              (case r2 of
                 c # r3 \<Rightarrow>
                   if cont c then ((a - 0xE0) * 0x1000 + (b - 0x80) * 0x40 + (c - 0x80)) # utf8_lossy r3
                   else 0xFFFD # utf8_lossy r2
               | [] \<Rightarrow> [0xFFFD])
            else 0xFFFD # utf8_lossy r
        | [] \<Rightarrow> [0xFFFD])
     else if 0xF0 \<le> a \<and> a < 0xF5 then
       (case r of
          b # r2 \<Rightarrow>
            if (if a = 0xF0 then 0x90 else 0x80) \<le> b \<and> b < (if a = 0xF4 then 0x90 else 0xC0) then
              (case r2 of
                 c # r3 \<Rightarrow>
                   if cont c then
                     (case r3 of
                        d # r4 \<Rightarrow>
                          if cont d then
                            ((a - 0xF0) * 0x40000 + (b - 0x80) * 0x1000 + (c - 0x80) * 0x40 + (d - 0x80))
                              # utf8_lossy r4
                          else 0xFFFD # utf8_lossy r3
                      | [] \<Rightarrow> [0xFFFD])
                   else 0xFFFD # utf8_lossy r2
               | [] \<Rightarrow> [0xFFFD])
            else 0xFFFD # utf8_lossy r
        | [] \<Rightarrow> [0xFFFD])
     else 0xFFFD # utf8_lossy r)"

definition decodeText :: "bytes \<Rightarrow> js_string" where
  "decodeText bs = concat (map units (utf8_lossy (map unat
     (if take 3 bs = [0xEF, 0xBB, 0xBF] then drop 3 bs else bs))))"

lemma utf8_lossy_of:
  assumes "scalar v"
  shows "utf8_lossy (utf8_bytes v @ r) = v # utf8_lossy r"
proof -
  have e1: "v div 0x1000 = v div 0x40 div 0x40" and e2: "v div 0x40000 = v div 0x40 div 0x40 div 0x40"
    by (simp_all add: div_mult2_eq [symmetric])
  have dm: "w div 0x40 * 0x40 + w mod 0x40 = w" for w :: nat by (rule div_mult_mod_eq)
  consider "v < 0x80" | "0x80 \<le> v" "v < 0x800" | "0x800 \<le> v" "v < 0x10000" | "0x10000 \<le> v" "v < 0x110000"
    using assms by (cases "v < 0x80"; cases "v < 0x800"; cases "v < 0x10000") (auto simp: scalar_def not_less)
  then show ?thesis
  proof cases
    case 1
    then show ?thesis by (simp add: utf8_bytes_def)
  next
    case 2
    define q m where qm: "q = v div 0x40" "m = v mod 0x40"
    have v: "v = q * 0x40 + m" "m < 0x40" by (simp_all add: qm)
    with 2 have "2 \<le> q" "q < 0x20" by simp_all
    moreover have "utf8_bytes v = [0xC0 + q, 0x80 + m]" using 2 by (simp add: utf8_bytes_def qm)
    ultimately show ?thesis using v by (simp add: cont_def)
  next
    case 3
    define p q m where pqm: "p = v div 0x1000" "q = v div 0x40 mod 0x40" "m = v mod 0x40"
    have "v = p * 0x1000 + q * 0x40 + m"
      unfolding pqm e1 using dm [of "v div 0x40"] dm [of v] by linarith
    then have v: "v = p * 0x1000 + q * 0x40 + m" "m < 0x40" "q < 0x40" by (simp_all only: pqm mod_less_divisor zero_less_numeral)
    with 3 have p: "p < 0x10" "p = 0 \<Longrightarrow> 0x20 \<le> q" by auto
    have "p = 0xD \<Longrightarrow> q < 0x20" using v assms by (auto simp: scalar_def)
    moreover have "utf8_bytes v = [0xE0 + p, 0x80 + q, 0x80 + m]" using 3 by (simp add: utf8_bytes_def pqm)
    ultimately show ?thesis using v p by (auto simp: cont_def)
  next
    case 4
    define n p q m where npqm: "n = v div 0x40000" "p = v div 0x1000 mod 0x40" "q = v div 0x40 mod 0x40" "m = v mod 0x40"
    have "v = n * 0x40000 + p * 0x1000 + q * 0x40 + m"
      unfolding npqm e1 e2 using dm [of "v div 0x40 div 0x40"] dm [of "v div 0x40"] dm [of v] by linarith
    then have v: "v = n * 0x40000 + p * 0x1000 + q * 0x40 + m" "m < 0x40" "q < 0x40" "p < 0x40"
      by (simp_all only: npqm mod_less_divisor zero_less_numeral)
    with 4 have n: "n < 5" "n = 0 \<Longrightarrow> 0x10 \<le> p" "n = 4 \<Longrightarrow> p < 0x10" by auto
    moreover have "utf8_bytes v = [0xF0 + n, 0x80 + p, 0x80 + q, 0x80 + m]" using 4 by (simp add: utf8_bytes_def npqm)
    ultimately show ?thesis using v by (auto simp: cont_def)
  qed
qed

lemma utf8_lossy_concat:
  "(\<And>v. v \<in> set vs \<Longrightarrow> scalar v) \<Longrightarrow> utf8_lossy (concat (map utf8_bytes vs)) = vs"
  by (induction vs) (simp_all add: utf8_lossy_of)

lemma decodeText_encode:
  assumes "wellFormed s" and "take 3 (text_encode s) \<noteq> [0xEF, 0xBB, 0xBF]"
  shows "decodeText (text_encode s) = s"
proof -
  have "map unat (text_encode s) = concat (map utf8_bytes (scalars s))"
    unfolding text_encode_def by (rule map_unat_of_nat) (rule text_bytes_bound)
  then show ?thesis
    using assms utf8_lossy_concat [of "scalars s"] scalars_scalar units_scalars by (simp add: decodeText_def)
qed

section \<open>Records\<close>

datatype store_error =
    StoreKeyError tuple_error
  | StoreSchemaError
  | StoreFailure string

definition liftKey :: "tuple_error + 'a \<Rightarrow> store_error + 'a" where
  "liftKey m = (case m of Inl e \<Rightarrow> Inl (StoreKeyError e) | Inr x \<Rightarrow> Inr x)"

lemma liftKey_simps [simp]:
  "liftKey (Inl e) = Inl (StoreKeyError e)"
  "liftKey (Inr x) = Inr x"
  by (simp_all add: liftKey_def)

lemma liftKey_Inr [simp]: "liftKey m = Inr x \<longleftrightarrow> m = Inr x"
  by (cases m) auto

record 'a json_codec =
  encodeJson :: "'a \<Rightarrow> js_string"
  decodeJson :: "js_string \<Rightarrow> 'a option"

locale json_codec =
  fixes J :: "'a json_codec"
  assumes decode_encode_json: "decodeJson J (encodeJson J a) = Some a"
    and json_wellFormed: "wellFormed (encodeJson J a)"
    and json_no_mark: "take 3 (text_encode (encodeJson J a)) \<noteq> [0xEF, 0xBB, 0xBF]"
begin

lemma decodeText_json [simp]: "decodeText (text_encode (encodeJson J a)) = encodeJson J a"
  by (rule decodeText_encode [OF json_wellFormed json_no_mark])

end

definition decodeRecord :: "'a json_codec \<Rightarrow> bytes \<Rightarrow> store_error + 'a" where
  "decodeRecord J b = (case decodeJson J (decodeText b) of None \<Rightarrow> Inl StoreSchemaError | Some a \<Rightarrow> Inr a)"

definition readRecord :: "'s txn \<Rightarrow> 'a json_codec \<Rightarrow> 's \<Rightarrow> bytes \<Rightarrow> store_error + 'a option" where
  "readRecord T J s key =
    (case tx_get T s key of None \<Rightarrow> Inr None | Some b \<Rightarrow> bindR (decodeRecord J b) (\<lambda>a. Inr (Some a)))"

definition writeRecord :: "'s txn \<Rightarrow> 'a json_codec \<Rightarrow> bytes \<Rightarrow> 'a \<Rightarrow> 's \<Rightarrow> 's" where
  "writeRecord T J key a s = tx_set T key (text_encode (encodeJson J a)) s"

text \<open>The record a store holds under a key, if it can be decoded.\<close>

definition recordOf :: "'a json_codec \<Rightarrow> bytes option \<Rightarrow> 'a option" where
  "recordOf J v = Option.bind v (\<lambda>b. decodeJson J (decodeText b))"

lemma recordOf_None [simp]: "recordOf J None = None"
  by (simp add: recordOf_def)

lemma decodeRecord_Inr: "decodeRecord J b = Inr a \<longleftrightarrow> recordOf J (Some b) = Some a"
  by (auto simp: decodeRecord_def recordOf_def split: option.split)

lemma readRecord_Inr: "readRecord T J s key = Inr r \<Longrightarrow> r = recordOf J (tx_get T s key)"
  by (auto simp: readRecord_def bindR_eq_Inr decodeRecord_Inr split: option.splits)

lemma readRecord_None: "tx_get T s key = None \<Longrightarrow> readRecord T J s key = Inr None"
  by (simp add: readRecord_def)

lemma readRecord_Some: "recordOf J (tx_get T s key) = Some a \<Longrightarrow> readRecord T J s key = Inr (Some a)"
  by (auto simp: readRecord_def recordOf_def decodeRecord_def bind_eq_Some_conv)

context json_codec
begin

lemma recordOf_written [simp]: "recordOf J (Some (text_encode (encodeJson J a))) = Some a"
  by (simp add: recordOf_def decode_encode_json)

end

context fdb
begin

lemma writeRecord_fun:
  "tx_get T (writeRecord T J key a s) = (tx_get T s)(key := Some (text_encode (encodeJson J a)))"
  by (simp add: writeRecord_def set_fun)

end

end
