(* ===== verification/Sample_Codecs.thy ===== *)
theory Sample_Codecs
  imports Stored_Records
begin

text \<open>
  Concrete codecs that instantiate the JSON schemas in the witnesses: a record is a packed tuple, written
  as text with one code unit per byte.
\<close>

definition intValue :: "int \<Rightarrow> tuple_value" where
  "intValue i = Nested [Bool (i < 0), Bytes (magnitudeBytes (nat \<bar>i\<bar>))]"

fun intOf :: "tuple_value \<Rightarrow> int" where
  "intOf (Nested [Bool s, Bytes b]) = (if s then - int (beNat b) else int (beNat b))"
| "intOf _ = 0"

definition ratValue :: "rat \<Rightarrow> tuple_value" where
  "ratValue r = Nested [intValue (fst (quotient_of r)), intValue (snd (quotient_of r))]"

fun ratOf :: "tuple_value \<Rightarrow> rat" where
  "ratOf (Nested [a, b]) = of_int (intOf a) / of_int (intOf b)"
| "ratOf _ = 0"

definition textValue :: "js_string \<Rightarrow> tuple_value" where
  "textValue s = Bytes (concat (map (\<lambda>c. natBE 2 (unat c)) s))"

fun unitsOf :: "bytes \<Rightarrow> js_string" where
  "unitsOf (a # b # bs) = of_nat (beNat [a, b]) # unitsOf bs"
| "unitsOf _ = []"

fun textOf :: "tuple_value \<Rightarrow> js_string" where
  "textOf (Bytes b) = unitsOf b"
| "textOf _ = []"

definition optValue :: "('a \<Rightarrow> tuple_value) \<Rightarrow> 'a option \<Rightarrow> tuple_value" where
  "optValue f x = (case x of None \<Rightarrow> Null | Some y \<Rightarrow> Nested [f y])"

fun optOf :: "(tuple_value \<Rightarrow> 'a) \<Rightarrow> tuple_value \<Rightarrow> 'a option" where
  "optOf f (Nested [v]) = Some (f v)"
| "optOf f _ = None"

definition bytesText :: "bytes \<Rightarrow> js_string" where
  "bytesText bs = map ucast bs"

definition textBytes :: "js_string \<Rightarrow> bytes" where
  "textBytes s = map ucast s"

lemma intOf_value [simp]: "intOf (intValue i) = i"
  by (simp add: intValue_def beNat_magnitude)

lemma ratOf_value [simp]: "ratOf (ratValue r) = r"
  using quotient_of_div [of r] by (cases "quotient_of r") (simp add: ratValue_def)

lemma textOf_value [simp]: "textOf (textValue s) = s"
proof -
  have "unitsOf (concat (map (\<lambda>c. natBE 2 (unat c)) s)) = s"
  proof (induction s)
    case (Cons c s)
    have "\<exists>a b. natBE 2 (unat c) = [a, b]" by (simp add: numeral_2_eq_2)
    then obtain a b where ab: "natBE 2 (unat c) = [a, b]" by blast
    have "unat c < 256 ^ 2" using unsigned_less [where ?'a = nat, of c] by simp
    then have "beNat [a, b] = unat c" using beNat_natBE [of "unat c" 2] ab by simp
    with Cons ab show ?case by (simp del: beNat_simps)
  qed simp
  then show ?thesis by (simp add: textValue_def)
qed

lemma optOf_value: "(\<And>y. g (f y) = y) \<Longrightarrow> optOf g (optValue f x) = x"
  by (cases x) (simp_all add: optValue_def)

lemma values_ok [simp]:
  "packable (textValue x)" "constructed (textValue x)" "packable (intValue i)" "constructed (intValue i)"
  "packable (ratValue r)" "constructed (ratValue r)"
  by (simp_all add: textValue_def intValue_def ratValue_def)

lemma optValue_ok: "(\<And>y. packable (f y) \<and> constructed (f y)) \<Longrightarrow> packable (optValue f x) \<and> constructed (optValue f x)"
  by (cases x) (simp_all add: optValue_def)

lemma ucast_byte_unit: "ucast (ucast (b :: byte) :: 16 word) = b"
  by (rule bit_word_eqI) (simp add: bit_ucast_iff)

lemma textBytes_text [simp]: "textBytes (bytesText bs) = bs"
  by (simp add: textBytes_def bytesText_def o_def ucast_byte_unit)

lemma bytesText_wellFormed: "wellFormed (bytesText bs)"
proof -
  have "\<not> isHigh c \<and> \<not> isLow c" if c: "c \<in> set (bytesText bs)" for c
  proof -
    obtain b where "c = ucast (b :: byte)" using c by (auto simp: bytesText_def)
    then have "unat c < 256" using unat_byte [of b] by (simp add: unsigned_ucast_eq take_bit_eq_mod)
    then show ?thesis by (auto simp: isHigh_def isLow_def word_le_nat_alt)
  qed
  moreover have "\<forall>c \<in> set s. \<not> isHigh c \<and> \<not> isLow c \<Longrightarrow> wellFormed s" for s
    by (induction s rule: wellFormed.induct) auto
  ultimately show ?thesis by blast
qed

lemma bytesText_no_mark: "take 3 (text_encode (bytesText bs)) \<noteq> [0xEF, 0xBB, 0xBF]"
proof (cases bs)
  case (Cons b r)
  obtain v vs where v: "scalars (bytesText (b # r)) = v # vs" "v < 256"
  proof -
    have u: "unat (ucast b :: 16 word) < 256" using unat_byte [of b] by (simp add: unsigned_ucast_eq take_bit_eq_mod)
    then have "\<not> isHigh (ucast b :: 16 word)" "\<not> isLow (ucast b :: 16 word)"
      by (simp_all add: isHigh_unat isLow_unat)
    then have "scalars (ucast b # s) = unat (ucast b :: 16 word) # scalars s" for s by (cases s) simp_all
    then show ?thesis using that u by (simp add: bytesText_def)
  qed
  have "hd (utf8_bytes v) \<noteq> 0xEF \<and> hd (utf8_bytes v) < 256 \<and> utf8_bytes v \<noteq> []"
    using v(2) by (auto simp: utf8_bytes_def)
  then have "(of_nat (hd (utf8_bytes v)) :: byte) \<noteq> 0xEF" "utf8_bytes v \<noteq> []"
    using of_nat_eq_byte [of "hd (utf8_bytes v)" "0xEF"] by auto
  then show ?thesis using v(1) Cons by (cases "utf8_bytes v") (auto simp: text_encode_def)
qed (simp add: bytesText_def text_encode_def)

definition tupleJson :: "('a \<Rightarrow> tuple) \<Rightarrow> (tuple \<Rightarrow> 'a option) \<Rightarrow> 'a json_codec" where
  "tupleJson f g = \<lparr>encodeJson = (\<lambda>a. bytesText (encs False (f a))),
     decodeJson = (\<lambda>s. case unpack (textBytes s) of Inr t \<Rightarrow> g t | Inl e \<Rightarrow> None)\<rparr>"

lemma tupleJson_codec:
  assumes "\<And>a. tuple_ok (f a)" and "\<And>a. g (f a) = Some a"
  shows "json_codec (tupleJson f g)"
  by unfold_locales (use assms in \<open>simp_all add: tupleJson_def tuples.decode_encode bytesText_wellFormed bytesText_no_mark\<close>)

lemma mem_get: "tx_get mem_txn = map_of"
  by (simp add: mem_txn_def)

end
