(* ===== verification/Queue_Properties.thy ===== *)
theory Queue_Properties
  imports Queue_Delivery Sample_Codecs
begin

text \<open>
  What the persisted queue guarantees. First a concrete codec and a concrete way of opening a queue,
  which instantiate the parameters; then the reachable states of a queue that any number of clients
  work on, and the properties of its operations.
\<close>

section \<open>A codec\<close>

text \<open>Metadata as a packed tuple, one code unit per byte; elements are byte strings.\<close>

definition stateValue :: "queue_state \<Rightarrow> tuple_value" where
  "stateValue st = Nested [Bool (st \<in> {Pending, Processing}), Bool (st \<in> {Pending, Completed})]"

fun stateOf :: "tuple_value \<Rightarrow> queue_state" where
  "stateOf (Nested [Bool a, Bool b]) =
     (if a then (if b then Pending else Processing) else (if b then Completed else Failed))"
| "stateOf _ = Pending"

definition metaTuple :: "metadata \<Rightarrow> tuple" where
  "metaTuple m = [textValue (entry_id m), intValue (attempts m), stateValue (state m), ratValue (visibleAt m),
     optValue ratValue (acquiredAt m), optValue textValue (acquiredBy m), ratValue (updatedAt m)]"

definition metaOf :: "tuple \<Rightarrow> metadata option" where
  "metaOf t = (if length t = 7 then
     Some \<lparr>entry_id = textOf (t ! 0), attempts = intOf (t ! 1), state = stateOf (t ! 2), visibleAt = ratOf (t ! 3),
       acquiredAt = optOf ratOf (t ! 4), acquiredBy = optOf textOf (t ! 5), updatedAt = ratOf (t ! 6)\<rparr>
     else None)"

definition tupleCodec :: "bytes queue_codec" where
  "tupleCodec = \<lparr>
     encodeQueueEntryMetadata = (\<lambda>m. bytesText (encs False (metaTuple m))),
     decodeQueueEntryMetadata = (\<lambda>s. case unpack (textBytes s) of Inr t \<Rightarrow> metaOf t | Inl e \<Rightarrow> None),
     encodeQueueElement = (\<lambda>b. bytesText (0x01 # b)),
     decodeQueueElement = (\<lambda>s. Some (tl (textBytes s)))\<rparr>"

lemma stateOf_value [simp]: "stateOf (stateValue st) = st"
  by (cases st) (simp_all add: stateValue_def)

lemma stateValue_ok [simp]: "packable (stateValue st)" "constructed (stateValue st)"
  by (simp_all add: stateValue_def)

lemma metaTuple_ok: "tuple_ok (metaTuple m)"
  using optValue_ok [of ratValue "acquiredAt m"] optValue_ok [of textValue "acquiredBy m"]
  by (simp add: metaTuple_def)

lemma metaOf_tuple: "metaOf (metaTuple m) = Some m"
  by (simp add: metaOf_def metaTuple_def optOf_value)

interpretation tupleCodec: queue_codec tupleCodec
proof
  fix m :: metadata and j :: bytes
  show "decodeQueueEntryMetadata tupleCodec (encodeQueueEntryMetadata tupleCodec m) = Some m"
    using metaTuple_ok [of m] by (simp add: tupleCodec_def tuples.decode_encode metaOf_tuple)
  show "wellFormed (encodeQueueEntryMetadata tupleCodec m)" by (simp add: tupleCodec_def bytesText_wellFormed)
  show "take 3 (text_encode (encodeQueueEntryMetadata tupleCodec m)) \<noteq> [0xEF, 0xBB, 0xBF]"
    by (simp add: tupleCodec_def bytesText_no_mark)
  show "decodeQueueElement tupleCodec (encodeQueueElement tupleCodec j) = Some j" by (simp add: tupleCodec_def)
  show "wellFormed (encodeQueueElement tupleCodec j)" by (simp add: tupleCodec_def bytesText_wellFormed)
  show "take 3 (text_encode (encodeQueueElement tupleCodec j)) \<noteq> [0xEF, 0xBB, 0xBF]"
    by (simp add: tupleCodec_def bytesText_no_mark)
qed

interpretation memQueue: queue_store mem_txn tupleCodec ..

lemma queue_codec_tuple: "queue_codec tupleCodec"
  by (rule tupleCodec.queue_codec_axioms)

text \<open>A queue whose directory exists already.\<close>

definition openedQueue :: "bytes \<Rightarrow> js_string \<Rightarrow> 's \<Rightarrow> queue_error + queue_keys \<times> 's" where
  "openedQueue p name s = bindR (queueKeys (fromBytes p)) (\<lambda>keys. Inr (keys, s))"

lemma opensQueue_opened: "opensQueue T (openedQueue p) name p"
  using queueKeys_at [of "fromBytes p"] by (auto simp: opensQueue_def openedQueue_def bindR_eq_Inr fromBytes_def)

section \<open>An offer to an empty queue\<close>

lemma offer_ok:
  assumes T: "queue_store T C" and eid: "wellFormed eid" and w: "writable (text_encode (encodeQueueElement C elem))"
    and new: "tx_get T s (K p ''ids'' [Str eid]) = None" and first: "tx_get T s (K p ''counter'' []) = None"
  shows "\<exists>s'. offer T C (openedQueue p) name eid elem now s = Inr s'"
proof -
  obtain keys where keys: "queueKeys (fromBytes p) = Inr keys" using queueKeys_ok by blast
  have at: "keys_at p keys" using queueKeys_at [OF keys] by (simp add: fromBytes_def)
  note pk = keys_at_prefix [OF at]
  let ?en = "\<lparr>entry_id = eid, attempts = 0, state = Pending, visibleAt = now, acquiredAt = None,
      acquiredBy = None, updatedAt = now, element = elem\<rparr>"
  obtain s1 where s1: "writeEntryMetadata T C (entries keys) 0 (metadata.truncate ?en) s = Inr s1"
    by (auto simp: writeEntryMetadata_def Let_def pack_at [OF pk(1), THEN iffD2])
  have ok: "tuple_ok [BigInt 0, Str (js ''element'')]" by simp
  obtain s2 where s2: "writeChunkedValue T (entries keys) [BigInt 0, Str (js ''element'')]
      (text_encode (encodeQueueElement C elem)) s1 = Inr s2"
    using writeChunkedValue_ok [OF ok w] by (metis (no_types))
  have c: "createEntry T C (entries keys) 0 ?en s = Inr s2"
    using s1 s2 by (simp add: createEntry_def)
  have num: "encodeSequence 0 = Inr (seqValue 0)" "encodeSequence 1 = Inr (seqValue 1)" by simp_all
  from c eid show ?thesis
    by (simp add: offer_def openedQueue_def keys new first pack_at [OF pk(2), THEN iffD2] pk(8)
        pack_at [OF pk(3), THEN iffD2] Let_def num)
qed

lemma opened_opens: "\<exists>r. openedQueue p name s = Inr r"
  using queueKeys_ok [of "fromBytes p"] by (auto simp: openedQueue_def)

lemma memQueue_store: "queue_store mem_txn tupleCodec"
  by (rule memQueue.queue_store_axioms)

lemma sample_writable: "writable (text_encode (encodeQueueElement tupleCodec [7]))"
proof (rule writable_small)
  show "length (text_encode (encodeQueueElement tupleCodec [7])) \<le> chunkSize"
    by (simp add: tupleCodec_def bytesText_def text_encode_def utf8_bytes_def isHigh_def isLow_def word_le_nat_alt
        chunkSize_def)
qed

lemma sample_offer:
  obtains s where "offer mem_txn tupleCodec (openedQueue [9]) (js ''jobs'') (js ''a'') [7] 5 [] = Inr s"
  using offer_ok [OF memQueue_store wellFormed_js sample_writable, of "[]" "[9]" "''a''"] that by (auto simp: mem_get)

lemma sample_claim:
  obtains s1 s2 where "offer mem_txn tupleCodec (openedQueue [9]) (js ''jobs'') (js ''a'') [7] 5 [] = Inr s1"
    and "claim mem_txn tupleCodec (openedQueue [9]) 1000 (js ''jobs'') (js ''w'') 3 8 s1
      = Inr (Claimed \<lparr>claimId = js ''w'', claimSequence = 0, claimEntry = \<lparr>entry_id = js ''a'', attempts = 1,
          state = Processing, visibleAt = 5, acquiredAt = Some 8, acquiredBy = Some (js ''w''), updatedAt = 8,
          element = [7]\<rparr>\<rparr>, s2)"
proof -
  obtain s1 where s1: "offer mem_txn tupleCodec (openedQueue [9]) (js ''jobs'') (js ''a'') [7] 5 [] = Inr s1"
    by (rule sample_offer)
  with queue_store.offer_then_claim [OF memQueue_store opensQueue_opened opened_opens _ s1, of 8 1000 3 "js ''w''"]
  show ?thesis using that by (auto simp: mem_get MAX_SAFE_INTEGER_def)
qed

section \<open>Properties\<close>

text \<open>C2. In every state that clients of a queue can reach, with any interleaving of offers, claims, refreshes,
  finalizations, cleanups and transactions elsewhere, every entry is exactly where its state says: in the
  pending index at its visibility time, or locked and claimed, or in the index of its outcome, with its id
  taken and its sequence below the counter; and every index row is well formed.\<close>

theorem queue_stays_consistent:
  assumes "fdb T" and "queue_codec C" and "opensQueue T keysForQueue name p"
    and "queue_reachable T C keysForQueue name p s"
  shows "queue_inv C p (tx_get T s)"
  using queue_store.queue_reachable_inv [OF queue_store.intro [OF assms(1,2)] assms(4,3)] .

theorem queue_stays_consistent_witness:
  "\<exists>s. offer mem_txn tupleCodec (openedQueue [9]) (js ''jobs'') (js ''a'') [7] 5 [] = Inr s
     \<and> queue_inv tupleCodec [9] (tx_get mem_txn s)"
proof -
  obtain s where s: "offer mem_txn tupleCodec (openedQueue [9]) (js ''jobs'') (js ''a'') [7] 5 [] = Inr s"
    by (rule sample_offer)
  have "queue_reachable mem_txn tupleCodec (openedQueue [9]) (js ''jobs'') [9] s"
    by (rule reach_step [OF reach_empty step_offer [OF _ s]]) (simp_all add: mem_get whole_def MAX_SAFE_INTEGER_def)
  with s queue_stays_consistent [OF fdb_mem queue_codec_tuple opensQueue_opened] show ?thesis by blast
qed

text \<open>C3. A claim hands out an entry that its claim id owns from then on, and it takes an entry away from another
  claim only after that claim's lock has expired.\<close>

theorem claim_respects_locks:
  assumes "fdb T" and "queue_codec C" and "opensQueue T keysForQueue name p" and "queue_inv C p (tx_get T s)"
    and "whole now" and "claim T C keysForQueue lockExpiration name cid maxAttempts now s = Inr (Claimed c, s')"
  shows "metaAt C p (tx_get T s') (claimSequence c) = Some (metadata.truncate (claimEntry c))
    \<and> state (claimEntry c) = Processing \<and> acquiredBy (claimEntry c) = Some cid
    \<and> (\<forall>m a. metaAt C p (tx_get T s) (claimSequence c) = Some m \<and> state m = Processing
         \<and> acquiredBy m \<noteq> Some cid \<and> acquiredAt m = Some a \<longrightarrow> a \<le> now - lockExpiration)"
  using queue_store.claim_takes [OF queue_store.intro [OF assms(1,2)] assms(3-)] by blast

theorem claim_respects_locks_witness:
  "\<exists>s1 s2 c. claim mem_txn tupleCodec (openedQueue [9]) 1000 (js ''jobs'') (js ''w'') 3 8 s1 = Inr (Claimed c, s2)
     \<and> metaAt tupleCodec [9] (tx_get mem_txn s2) (claimSequence c) = Some (metadata.truncate (claimEntry c))"
proof -
  obtain s1 s2 where o: "offer mem_txn tupleCodec (openedQueue [9]) (js ''jobs'') (js ''a'') [7] 5 [] = Inr s1"
    and c: "claim mem_txn tupleCodec (openedQueue [9]) 1000 (js ''jobs'') (js ''w'') 3 8 s1
      = Inr (Claimed \<lparr>claimId = js ''w'', claimSequence = 0, claimEntry = \<lparr>entry_id = js ''a'', attempts = 1,
          state = Processing, visibleAt = 5, acquiredAt = Some 8, acquiredBy = Some (js ''w''), updatedAt = 8,
          element = [7]\<rparr>\<rparr>, s2)"
    by (rule sample_claim)
  have "queue_inv tupleCodec [9] (tx_get mem_txn s1)"
    by (rule memQueue.offer_inv [OF opensQueue_opened queue_inv_empty _ o])
      (simp_all add: mem_get whole_def MAX_SAFE_INTEGER_def)
  moreover have "whole 8" by (simp add: whole_def MAX_SAFE_INTEGER_def)
  ultimately show ?thesis using claim_respects_locks [OF fdb_mem queue_codec_tuple opensQueue_opened _ _ c] c by blast
qed

text \<open>C32. A claim waits only when nothing is due: every pending entry becomes visible later, and every lock is
  younger than the expiration.\<close>

theorem claim_waits_only_when_idle:
  assumes "fdb T" and "queue_codec C" and "opensQueue T keysForQueue name p" and "queue_inv C p (tx_get T s)"
    and "claim T C keysForQueue lockExpiration name cid maxAttempts now s = Inr (ClaimWait, s')"
    and "0 \<le> now - lockExpiration" and "0 \<le> lockExpiration"
    and "smallInt q" and "metaAt C p (tx_get T s) q = Some m"
  shows "(state m = Pending \<longrightarrow> now < visibleAt m)
    \<and> (\<forall>a. state m = Processing \<and> acquiredAt m = Some a \<longrightarrow> now - lockExpiration < a)"
  using queue_store.claim_waits [OF queue_store.intro [OF assms(1,2)] assms(3-5,8,9)] assms(6,7) by auto

theorem claim_waits_only_when_idle_witness:
  "\<exists>s1 s2 m. claim mem_txn tupleCodec (openedQueue [9]) 1 (js ''jobs'') (js ''w'') 3 3 s1 = Inr (ClaimWait, s2)
     \<and> metaAt tupleCodec [9] (tx_get mem_txn s1) 0 = Some m \<and> state m = Pending \<and> 3 < visibleAt m"
proof -
  obtain s1 where s1: "offer mem_txn tupleCodec (openedQueue [9]) (js ''jobs'') (js ''a'') [7] 5 [] = Inr s1"
    by (rule sample_offer)
  have whole: "whole 5" by (simp add: whole_def MAX_SAFE_INTEGER_def)
  obtain s2 where c: "claim mem_txn tupleCodec (openedQueue [9]) 1 (js ''jobs'') (js ''w'') 3 3 s1 = Inr (ClaimWait, s2)"
    using memQueue.offer_then_early_claim [OF opensQueue_opened opened_opens _ whole s1, of 3 1 "js ''w''" 3]
    by (auto simp: mem_get MAX_SAFE_INTEGER_def)
  have inv: "queue_inv tupleCodec [9] (tx_get mem_txn s1)"
    by (rule memQueue.offer_inv [OF opensQueue_opened queue_inv_empty whole s1]) (simp add: mem_get)
  have "metaAt tupleCodec [9] (tx_get mem_txn s1) 0 = Some \<lparr>entry_id = js ''a'', attempts = 0,
      state = Pending, visibleAt = 5, acquiredAt = None, acquiredBy = None, updatedAt = 5\<rparr>"
    using memQueue.offer_adds [OF opensQueue_opened queue_inv_empty s1] by (simp add: mem_get counterOf_def)
  with c claim_waits_only_when_idle [OF fdb_mem queue_codec_tuple opensQueue_opened inv c _ _ smallInt_few(1) this]
  show ?thesis by auto
qed

text \<open>C31. An entry offered to an empty queue is handed out, with its element and its first attempt counted, by the
  first claim made at or after the time of the offer.\<close>

theorem offered_entry_is_claimed:
  assumes "fdb T" and "queue_codec C" and "opensQueue T keysForQueue name p"
    and "\<And>s. \<exists>r. keysForQueue name s = Inr r" and "\<And>k. prefix p k \<Longrightarrow> tx_get T s k = None"
    and "offer T C keysForQueue name eid elem now s = Inr s1"
    and "now \<le> now2" and "0 \<le> now2" and "now2 < of_int MAX_SAFE_INTEGER"
    and "now2 - lockExpiration < of_int MAX_SAFE_INTEGER" and "0 < maxAttempts" and "wellFormed cid"
  shows "\<exists>s2. claim T C keysForQueue lockExpiration name cid maxAttempts now2 s1 = Inr (Claimed \<lparr>claimId = cid,
      claimSequence = 0, claimEntry = \<lparr>entry_id = eid, attempts = 1, state = Processing, visibleAt = now,
        acquiredAt = Some now2, acquiredBy = Some cid, updatedAt = now2, element = elem\<rparr>\<rparr>, s2)"
  by (rule queue_store.offer_then_claim [OF queue_store.intro [OF assms(1,2)] assms(3-)])

theorem offered_entry_is_claimed_witness:
  "\<exists>s1 s2. offer mem_txn tupleCodec (openedQueue [9]) (js ''jobs'') (js ''a'') [7] 5 [] = Inr s1
     \<and> claim mem_txn tupleCodec (openedQueue [9]) 1000 (js ''jobs'') (js ''w'') 3 8 s1
      = Inr (Claimed \<lparr>claimId = js ''w'', claimSequence = 0, claimEntry = \<lparr>entry_id = js ''a'', attempts = 1,
          state = Processing, visibleAt = 5, acquiredAt = Some 8, acquiredBy = Some (js ''w''), updatedAt = 8,
          element = [7]\<rparr>\<rparr>, s2)"
proof -
  obtain s1 where s1: "offer mem_txn tupleCodec (openedQueue [9]) (js ''jobs'') (js ''a'') [7] 5 [] = Inr s1"
    by (rule sample_offer)
  with offered_entry_is_claimed [OF fdb_mem queue_codec_tuple opensQueue_opened opened_opens _ s1, of 8 1000 3 "js ''w''"]
  show ?thesis by (auto simp: mem_get MAX_SAFE_INTEGER_def)
qed

text \<open>Offers are idempotent: once an id has been offered, another offer of it, with any element and at any
  time, changes nothing stored under the queue.\<close>

theorem offer_is_idempotent:
  assumes "fdb T" and "queue_codec C" and "opensQueue T keysForQueue name p"
    and "offer T C keysForQueue name eid elem1 now1 s = Inr s1"
    and "offer T C keysForQueue name eid elem2 now2 s1 = Inr s2" and "prefix p k"
  shows "tx_get T s2 k = tx_get T s1 k"
  using queue_store.offer_taken [OF queue_store.intro [OF assms(1,2)] assms(3,5) _ assms(6)]
    queue_store.offer_takes_id [OF queue_store.intro [OF assms(1,2)] assms(3,4)] by blast

theorem offer_is_idempotent_witness:
  "\<exists>s1 s2. offer mem_txn tupleCodec (openedQueue [9]) (js ''jobs'') (js ''a'') [7] 5 [] = Inr s1
     \<and> offer mem_txn tupleCodec (openedQueue [9]) (js ''jobs'') (js ''a'') [8] 6 s1 = Inr s2
     \<and> tx_get mem_txn s2 (K [9] ''counter'' []) = tx_get mem_txn s1 (K [9] ''counter'' [])"
proof -
  obtain s1 where s1: "offer mem_txn tupleCodec (openedQueue [9]) (js ''jobs'') (js ''a'') [7] 5 [] = Inr s1"
    by (rule sample_offer)
  obtain keys where keys: "queueKeys (fromBytes [9]) = Inr keys" using queueKeys_ok by blast
  have ids: "prefix_bytes (ids keys) = K [9] ''ids'' []"
    using keys_at_prefix(2) [OF queueKeys_at [OF keys]] by (simp add: fromBytes_def)
  have "\<exists>s2. offer mem_txn tupleCodec (openedQueue [9]) (js ''jobs'') (js ''a'') [8] 6 s1 = Inr s2"
    using memQueue.offer_takes_id [OF opensQueue_opened s1]
    by (simp add: offer_def openedQueue_def keys pack_at [OF ids, THEN iffD2])
  then obtain s2 where "offer mem_txn tupleCodec (openedQueue [9]) (js ''jobs'') (js ''a'') [8] 6 s1 = Inr s2" by blast
  with s1 offer_is_idempotent [OF fdb_mem queue_codec_tuple opensQueue_opened s1, of _ _ _ "K [9] ''counter'' []"]
  show ?thesis by (auto simp: K_def)
qed



text \<open>C34. The cleanup loop ends, whatever the queue holds: every full batch removes the hundred index rows it read.\<close>

theorem cleanup_terminates:
  assumes "fdb T" and "opensQueue T keysForQueue name p"
  shows "\<exists>r. cleanupState T C keysForQueue name st cutoff s = Some r"
  by (rule fdb.cleanupState_ends [OF assms])

theorem cleanup_terminates_witness:
  "\<exists>r. cleanupState mem_txn tupleCodec (openedQueue [9]) (js ''jobs'') Completed 7 [([9, 1], [2])] = Some r"
  by (rule cleanup_terminates [OF fdb_mem opensQueue_opened])

end
