(* ===== verification/Runner_Storage.thy ===== *)
theory Runner_Storage
  imports Stored_Records
begin

text \<open>
  Runner registrations and shard leases, src/src/cluster/runner-storage.ts. The bodies of the transactions
  take the operations of the transaction, the two JSON schemas, the function \<open>rootDir\<close> that opens the
  directory of the store and the time read in the transaction. Times are rationals.
\<close>

section \<open>Data\<close>

definition machineIdCount :: int where
  "machineIdCount = 1024"

record registration =
  runner :: js_string
  healthy :: bool
  machineId :: int
  heartbeat :: rat

record lease =
  lease_address :: js_string
  expiresAt :: rat

datatype runner_error =
    RunnerStore store_error
  | RunnerMachineIdsExhausted js_string int

record runner_keys =
  runners :: subspace
  leases :: subspace

definition liftRunner :: "store_error + 'a \<Rightarrow> runner_error + 'a" where
  "liftRunner m = (case m of Inl e \<Rightarrow> Inl (RunnerStore e) | Inr x \<Rightarrow> Inr x)"

lemma liftRunner_simps [simp]:
  "liftRunner (Inl e) = Inl (RunnerStore e)"
  "liftRunner (Inr x) = Inr x"
  by (simp_all add: liftRunner_def)

lemma liftRunner_Inr [simp]: "liftRunner m = Inr x \<longleftrightarrow> m = Inr x"
  by (cases m) auto

text \<open>The schema of a registration bounds the machine id.\<close>

definition validRegistration :: "registration \<Rightarrow> bool" where
  "validRegistration r \<longleftrightarrow> 0 \<le> machineId r \<and> machineId r \<le> machineIdCount - 1"

definition decodeRegistration :: "registration json_codec \<Rightarrow> bytes \<Rightarrow> store_error + registration" where
  "decodeRegistration J b =
    bindR (decodeRecord J b) (\<lambda>r. if validRegistration r then Inr r else Inl StoreSchemaError)"

definition readRegistration ::
    "'s txn \<Rightarrow> registration json_codec \<Rightarrow> 's \<Rightarrow> bytes \<Rightarrow> store_error + registration option" where
  "readRegistration T J s key =
    (case tx_get T s key of
       None \<Rightarrow> Inr None
     | Some b \<Rightarrow> bindR (decodeRegistration J b) (\<lambda>r. Inr (Some r)))"

definition writeRegistration ::
    "'s txn \<Rightarrow> registration json_codec \<Rightarrow> bytes \<Rightarrow> registration \<Rightarrow> 's \<Rightarrow> store_error + 's" where
  "writeRegistration T J key r s =
    (if validRegistration r then Inr (writeRecord T J key r s) else Inl StoreSchemaError)"

definition readEntries :: "'s txn \<Rightarrow> 's \<Rightarrow> subspace \<Rightarrow> store_error + row list" where
  "readEntries T s sub =
    bindR (liftKey (subspace_range sub [])) (\<lambda>(b, e). Inr (tx_getRange T s (keyRange b e None False)))"

section \<open>makeRunnerStorage\<close>

definition runnerKeys ::
    "('s \<Rightarrow> store_error + subspace \<times> 's) \<Rightarrow> 's \<Rightarrow> store_error + runner_keys \<times> 's" where
  "runnerKeys rootDir s =
    bindR (rootDir s) (\<lambda>(directory, s).
    bindR (liftKey (subspace directory [Str (js ''runners'')])) (\<lambda>runners.
    bindR (liftKey (subspace directory [Str (js ''leases'')])) (\<lambda>leases.
      Inr (\<lparr>runners = runners, leases = leases\<rparr>, s))))"

definition updateRegistration ::
    "'s txn \<Rightarrow> registration json_codec \<Rightarrow> subspace \<Rightarrow> js_string \<Rightarrow> (registration \<Rightarrow> registration) \<Rightarrow> 's
      \<Rightarrow> store_error + 's" where
  "updateRegistration T J sub address update s =
    bindR (liftKey (subspace_pack sub [Str address])) (\<lambda>key.
    bindR (readRegistration T J s key) (\<lambda>registration.
    case registration of
      None \<Rightarrow> Inr s
    | Some r \<Rightarrow> writeRegistration T J key (update r) s))"

text \<open>One shard of \<open>lock\<close>.\<close>

definition lockShard ::
    "'s txn \<Rightarrow> lease json_codec \<Rightarrow> rat \<Rightarrow> subspace \<Rightarrow> js_string \<Rightarrow> bool \<Rightarrow> rat \<Rightarrow> js_string
      \<Rightarrow> js_string list \<times> 's \<Rightarrow> store_error + js_string list \<times> 's" where
  "lockShard T L expiration sub address refresh now shardId st =
    (let (acquired, s) = st in
     bindR (liftKey (subspace_pack sub [Str shardId])) (\<lambda>key.
     bindR (readRecord T L s key) (\<lambda>lease.
     if (case lease of Some l \<Rightarrow> lease_address l = address | None \<Rightarrow> False)
        \<or> \<not> refresh \<and> (case lease of Some l \<Rightarrow> expiresAt l < now | None \<Rightarrow> True)
     then Inr (acquired @ [shardId],
            writeRecord T L key \<lparr>lease_address = address, expiresAt = now + expiration\<rparr> s)
     else Inr (acquired, s))))"

definition lock ::
    "'s txn \<Rightarrow> registration json_codec \<Rightarrow> lease json_codec \<Rightarrow> ('s \<Rightarrow> store_error + subspace \<times> 's) \<Rightarrow> rat
      \<Rightarrow> js_string \<Rightarrow> js_string list \<Rightarrow> bool \<Rightarrow> rat \<Rightarrow> 's \<Rightarrow> store_error + js_string list \<times> 's" where
  "lock T J L rootDir expiration address shardIds refresh now s =
    bindR (runnerKeys rootDir s) (\<lambda>(store, s).
    bindR (if refresh then updateRegistration T J (runners store) address (\<lambda>r. r\<lparr>heartbeat := now\<rparr>) s
           else Inr s) (\<lambda>s.
    foldR (lockShard T L expiration (leases store) address refresh now) (jsSet shardIds) ([], s)))"

definition acquire ::
    "'s txn \<Rightarrow> registration json_codec \<Rightarrow> lease json_codec \<Rightarrow> ('s \<Rightarrow> store_error + subspace \<times> 's) \<Rightarrow> rat
      \<Rightarrow> js_string \<Rightarrow> js_string list \<Rightarrow> rat \<Rightarrow> 's \<Rightarrow> store_error + js_string list \<times> 's" where
  "acquire T J L rootDir expiration address shardIds now s =
    lock T J L rootDir expiration address shardIds False now s"

definition refresh ::
    "'s txn \<Rightarrow> registration json_codec \<Rightarrow> lease json_codec \<Rightarrow> ('s \<Rightarrow> store_error + subspace \<times> 's) \<Rightarrow> rat
      \<Rightarrow> js_string \<Rightarrow> js_string list \<Rightarrow> rat \<Rightarrow> 's \<Rightarrow> store_error + js_string list \<times> 's" where
  "refresh T J L rootDir expiration address shardIds now s =
    lock T J L rootDir expiration address shardIds True now s"

definition getRunners ::
    "'s txn \<Rightarrow> registration json_codec \<Rightarrow> ('s \<Rightarrow> store_error + subspace \<times> 's) \<Rightarrow> rat \<Rightarrow> rat \<Rightarrow> 's
      \<Rightarrow> store_error + (js_string \<times> bool) list \<times> 's" where
  "getRunners T J rootDir expiration now s =
    bindR (runnerKeys rootDir s) (\<lambda>(store, s).
    bindR (readEntries T s (runners store)) (\<lambda>entries.
    bindR (mapR (\<lambda>entry. decodeRegistration J (snd entry)) entries) (\<lambda>values.
      Inr (map (\<lambda>v. (runner v, healthy v)) (filter (\<lambda>v. now < heartbeat v + expiration) values), s))))"

text \<open>The loop over the candidates: the first machine id no registration uses.\<close>

definition freeMachineId :: "int set \<Rightarrow> int option" where
  "freeMachineId used = find (\<lambda>candidate. candidate \<notin> used) [0..machineIdCount - 1]"

definition register ::
    "'s txn \<Rightarrow> registration json_codec \<Rightarrow> ('s \<Rightarrow> store_error + subspace \<times> 's) \<Rightarrow> js_string \<Rightarrow> js_string \<Rightarrow> bool
      \<Rightarrow> rat \<Rightarrow> 's \<Rightarrow> runner_error + int \<times> 's" where
  "register T J rootDir address run health now s =
    bindR (liftRunner (runnerKeys rootDir s)) (\<lambda>(store, s).
    bindR (liftRunner (liftKey (subspace_pack (runners store) [Str address]))) (\<lambda>key.
    bindR (liftRunner (readRegistration T J s key)) (\<lambda>existing.
    bindR (case existing of
        Some r \<Rightarrow> Inr (machineId r)
      | None \<Rightarrow>
          bindR (liftRunner (readEntries T s (runners store))) (\<lambda>entries.
          bindR (liftRunner (mapR (\<lambda>entry. decodeRegistration J (snd entry)) entries)) (\<lambda>values.
          case freeMachineId (set (map machineId values)) of
            None \<Rightarrow> Inl (RunnerMachineIdsExhausted address machineIdCount)
          | Some m \<Rightarrow> Inr m))) (\<lambda>m.
    bindR (liftRunner (writeRegistration T J key
        \<lparr>runner = run, healthy = health, machineId = m, heartbeat = now\<rparr> s)) (\<lambda>s.
      Inr (m, s))))))"

definition unregister ::
    "'s txn \<Rightarrow> ('s \<Rightarrow> store_error + subspace \<times> 's) \<Rightarrow> js_string \<Rightarrow> 's \<Rightarrow> store_error + 's" where
  "unregister T rootDir address s =
    bindR (runnerKeys rootDir s) (\<lambda>(store, s).
    bindR (liftKey (subspace_pack (runners store) [Str address])) (\<lambda>key.
      Inr (tx_clear T key s)))"

definition setRunnerHealth ::
    "'s txn \<Rightarrow> registration json_codec \<Rightarrow> ('s \<Rightarrow> store_error + subspace \<times> 's) \<Rightarrow> js_string \<Rightarrow> bool \<Rightarrow> 's
      \<Rightarrow> store_error + 's" where
  "setRunnerHealth T J rootDir address health s =
    bindR (runnerKeys rootDir s) (\<lambda>(store, s).
      updateRegistration T J (runners store) address (\<lambda>r. r\<lparr>healthy := health\<rparr>) s)"

definition release ::
    "'s txn \<Rightarrow> lease json_codec \<Rightarrow> ('s \<Rightarrow> store_error + subspace \<times> 's) \<Rightarrow> js_string \<Rightarrow> js_string \<Rightarrow> 's
      \<Rightarrow> store_error + 's" where
  "release T L rootDir address shardId s =
    bindR (runnerKeys rootDir s) (\<lambda>(store, s).
    bindR (liftKey (subspace_pack (leases store) [Str shardId])) (\<lambda>key.
    bindR (readRecord T L s key) (\<lambda>lease.
      if (case lease of Some l \<Rightarrow> lease_address l = address | None \<Rightarrow> False)
      then Inr (tx_clear T key s) else Inr s)))"

definition releaseAll ::
    "'s txn \<Rightarrow> lease json_codec \<Rightarrow> ('s \<Rightarrow> store_error + subspace \<times> 's) \<Rightarrow> js_string \<Rightarrow> 's
      \<Rightarrow> store_error + 's" where
  "releaseAll T L rootDir address s =
    bindR (runnerKeys rootDir s) (\<lambda>(store, s).
    bindR (readEntries T s (leases store)) (\<lambda>entries.
    foldR (\<lambda>entry s.
      bindR (decodeRecord L (snd entry)) (\<lambda>lease.
        if lease_address lease = address then Inr (tx_clear T (fst entry) s) else Inr s)) entries s))"

end
