(* ===== verification/Store_Roots.thy ===== *)
theory Store_Roots
  imports Stored_Records
begin

text \<open>
  The directory of a store. Every store opens its directory at the start of each transaction, in a function
  that is a parameter of the models of the stores; what their properties need of it is that it finds the
  prefix \<open>p\<close> and leaves the keys under it alone. The function itself is in theory \<open>Directory_Store\<close>.
\<close>

definition opensRoot :: "'s txn \<Rightarrow> ('s \<Rightarrow> store_error + subspace \<times> 's) \<Rightarrow> bytes \<Rightarrow> bool" where
  "opensRoot T rootDir p \<longleftrightarrow>
     (\<forall>s directory s'. rootDir s = Inr (directory, s') \<longrightarrow>
        prefix_bytes directory = p \<and> (\<forall>k. prefix p k \<longrightarrow> tx_get T s' k = tx_get T s k))"

lemma child_at: "subspace dir [Str (js n)] = Inr c \<Longrightarrow> prefix_bytes c = K (prefix_bytes dir) n []"
  by (simp add: subspace_Inr K_def)

definition openedRoot :: "bytes \<Rightarrow> 's \<Rightarrow> store_error + subspace \<times> 's" where
  "openedRoot p s = Inr (fromBytes p, s)"

lemma opensRoot_opened: "opensRoot T (openedRoot p) p"
  by (simp add: opensRoot_def openedRoot_def fromBytes_def)

end
