(* ===== verification/Runner_Properties.thy ===== *)
theory Runner_Properties
  imports Runner_Storage Store_Roots Sample_Codecs
begin

text \<open>
  Leases and machine ids. A lease that has not expired stays with its owner whatever other runners do, so
  no two runners hold a shard at the same time; every registered runner has a machine id of its own, below
  1024, for as long as it is registered.
\<close>

section \<open>The store\<close>

definition leaseAt :: "lease json_codec \<Rightarrow> bytes \<Rightarrow> store \<Rightarrow> js_string \<Rightarrow> lease option" where
  "leaseAt L p g shard = recordOf L (g (K p ''leases'' [Str shard]))"

definition registrationAt :: "registration json_codec \<Rightarrow> bytes \<Rightarrow> store \<Rightarrow> js_string \<Rightarrow> registration option" where
  "registrationAt J p g a = recordOf J (g (K p ''runners'' [Str a]))"

lemma runnerKeys_at:
  assumes "opensRoot T rootDir p" and "runnerKeys rootDir s = Inr (store, s')"
  shows "prefix_bytes (runners store) = K p ''runners'' []" and "prefix_bytes (leases store) = K p ''leases'' []"
    and "prefix p k \<Longrightarrow> tx_get T s' k = tx_get T s k"
  using assms by (auto simp: runnerKeys_def opensRoot_def bindR_eq_Inr dest!: child_at)

text \<open>The rows of both sections are as the store writes them, with a machine id per runner.\<close>

definition runner_inv :: "registration json_codec \<Rightarrow> lease json_codec \<Rightarrow> bytes \<Rightarrow> store \<Rightarrow> bool" where
  "runner_inv J L p g \<longleftrightarrow>
     (\<forall>k v. inRange p ''runners'' [] k \<longrightarrow> g k = Some v \<longrightarrow>
        (\<exists>a r. wellFormed a \<and> k = K p ''runners'' [Str a] \<and> recordOf J (Some v) = Some r \<and> validRegistration r))
   \<and> (\<forall>k v. inRange p ''leases'' [] k \<longrightarrow> g k = Some v \<longrightarrow>
        (\<exists>c l. wellFormed c \<and> k = K p ''leases'' [Str c] \<and> recordOf L (Some v) = Some l))
   \<and> (\<forall>a b r q. wellFormed a \<longrightarrow> wellFormed b \<longrightarrow> registrationAt J p g a = Some r \<longrightarrow> registrationAt J p g b = Some q
        \<longrightarrow> machineId r = machineId q \<longrightarrow> a = b)"

lemma runner_inv_cong:
  assumes "\<And>k. prefix p k \<Longrightarrow> g' k = g k" and "runner_inv J L p g"
  shows "runner_inv J L p g'"
proof -
  have "registrationAt J p g' = registrationAt J p g" by (simp add: registrationAt_def fun_eq_iff assms(1))
  moreover have "inRange p n r k \<Longrightarrow> g' k = g k" for n r k using assms(1) inRange_prefix by blast
  ultimately show ?thesis using assms(2) unfolding runner_inv_def by (simp cong: imp_cong)
qed

lemma runner_inv_empty: "(\<And>k. prefix p k \<Longrightarrow> g k = None) \<Longrightarrow> runner_inv J L p g"
  using inRange_prefix by (fastforce simp: runner_inv_def registrationAt_def)

lemma runner_inv_sub:
  assumes sub: "\<And>k v. g' k = Some v \<Longrightarrow> g k = Some v" and inv: "runner_inv J L p g"
  shows "runner_inv J L p g'"
proof -
  have reg: "registrationAt J p g a = Some r" if "registrationAt J p g' a = Some r" for a r
    using that by (auto simp: registrationAt_def recordOf_def bind_eq_Some_conv dest: sub)
  show ?thesis
    unfolding runner_inv_def
  proof (intro conjI allI impI)
    fix k v assume "inRange p ''runners'' [] k" "g' k = Some v"
    with inv sub show "\<exists>a r. wellFormed a \<and> k = K p ''runners'' [Str a] \<and> recordOf J (Some v) = Some r \<and> validRegistration r"
      by (simp add: runner_inv_def)
  next
    fix k v assume "inRange p ''leases'' [] k" "g' k = Some v"
    with inv sub show "\<exists>c l. wellFormed c \<and> k = K p ''leases'' [Str c] \<and> recordOf L (Some v) = Some l"
      by (simp add: runner_inv_def)
  next
    fix a b r q assume "wellFormed a" "wellFormed b" "registrationAt J p g' a = Some r"
      "registrationAt J p g' b = Some q" "machineId r = machineId q"
    with inv reg show "a = b" unfolding runner_inv_def by metis
  qed
qed

text \<open>Whether a lock request gets a shard: it is the owner, or it acquires a shard that is free or expired.\<close>

definition grants :: "lease option \<Rightarrow> js_string \<Rightarrow> bool \<Rightarrow> rat \<Rightarrow> bool" where
  "grants l address rfr now \<longleftrightarrow> (case l of
     Some l \<Rightarrow> lease_address l = address \<or> \<not> rfr \<and> expiresAt l < now
   | None \<Rightarrow> \<not> rfr)"

locale runner_store = fdb T + reg: json_codec J + lse: json_codec L
  for T :: "'s txn" and J :: "registration json_codec" and L :: "lease json_codec"
begin

section \<open>Updates\<close>

lemma in_runners [simp]: "wellFormed a \<Longrightarrow> inRange p n [] (K p ''runners'' [Str a]) \<longleftrightarrow> n = ''runners''"
  by (simp add: strict_prefix_def)

lemma in_leases [simp]: "wellFormed a \<Longrightarrow> inRange p n [] (K p ''leases'' [Str a]) \<longleftrightarrow> n = ''leases''"
  by (simp add: strict_prefix_def)

text \<open>Writing a registration with a machine id that no other runner has.\<close>

lemma inv_register:
  assumes inv: "runner_inv J L p g" and a: "wellFormed a" and r: "validRegistration r"
    and own: "\<And>b q. wellFormed b \<Longrightarrow> b \<noteq> a \<Longrightarrow> registrationAt J p g b = Some q \<Longrightarrow> machineId q \<noteq> machineId r"
  shows "runner_inv J L p (g(K p ''runners'' [Str a] := Some (text_encode (encodeJson J r))))" (is "runner_inv J L p ?g")
proof -
  have at: "registrationAt J p ?g b = (if b = a then Some r else registrationAt J p g b)" if "wellFormed b" for b
    using that a by (simp add: registrationAt_def)
  have rows: "\<exists>b q. wellFormed b \<and> k = K p ''runners'' [Str b] \<and> recordOf J (Some v) = Some q \<and> validRegistration q"
    if "inRange p ''runners'' [] k" "?g k = Some v" for k v
  proof (cases "k = K p ''runners'' [Str a]")
    case True
    then show ?thesis using that a r by auto
  next
    case False
    then show ?thesis using that inv unfolding runner_inv_def by simp
  qed
  moreover have "\<exists>c l. wellFormed c \<and> k = K p ''leases'' [Str c] \<and> recordOf L (Some v) = Some l"
    if "inRange p ''leases'' [] k" "?g k = Some v" for k v
    using that inv a unfolding runner_inv_def by (auto split: if_splits)
  moreover have "b = c"
    if "wellFormed b" "wellFormed c" "registrationAt J p ?g b = Some q" "registrationAt J p ?g c = Some q'"
      "machineId q = machineId q'" for b c q q'
    using that own inv unfolding runner_inv_def by (auto simp: at split: if_splits)
  ultimately show ?thesis unfolding runner_inv_def by blast
qed

lemma inv_unregister:
  "runner_inv J L p g \<Longrightarrow> runner_inv J L p (g(K p n [Str a] := None))"
  by (rule runner_inv_sub) (auto split: if_splits)

lemma inv_lease:
  assumes inv: "runner_inv J L p g" and c: "wellFormed c"
  shows "runner_inv J L p (g(K p ''leases'' [Str c] := Some (text_encode (encodeJson L l))))"
proof -
  have "registrationAt J p (g(K p ''leases'' [Str c] := Some v)) b = registrationAt J p g b" if "wellFormed b" for b v
    using that c by (simp add: registrationAt_def)
  then show ?thesis using inv c unfolding runner_inv_def by (auto split: if_splits)
qed

section \<open>Registrations\<close>

lemma readRegistration_Inr:
  assumes inv: "runner_inv J L p (tx_get T s)" and a: "wellFormed a"
    and r: "readRegistration T J s (K p ''runners'' [Str a]) = Inr e"
  shows "e = registrationAt J p (tx_get T s) a" and "e = Some q \<Longrightarrow> validRegistration q"
  using r
  by (auto simp: readRegistration_def decodeRegistration_def bindR_eq_Inr decodeRecord_Inr registrationAt_def
      split: option.splits if_splits)

lemma updateRegistration_inv:
  assumes inv: "runner_inv J L p (tx_get T s)" and sub: "prefix_bytes sub = K p ''runners'' []"
    and f: "\<And>r. machineId (f r) = machineId r" and r: "updateRegistration T J sub a f s = Inr s'"
  shows "runner_inv J L p (tx_get T s')"
    and "wellFormed c \<Longrightarrow> leaseAt L p (tx_get T s') c = leaseAt L p (tx_get T s) c"
    and "wellFormed b \<Longrightarrow> map_option machineId (registrationAt J p (tx_get T s') b)
      = map_option machineId (registrationAt J p (tx_get T s) b)"
proof -
  obtain e where a: "wellFormed a" and e: "readRegistration T J s (K p ''runners'' [Str a]) = Inr e"
    and tail: "(case e of None \<Rightarrow> Inr s | Some q \<Rightarrow> writeRegistration T J (K p ''runners'' [Str a]) (f q) s) = Inr s'"
    using r by (auto simp: updateRegistration_def bindR_eq_Inr pack_at [OF sub])
  have s': "case e of None \<Rightarrow> s' = s | Some q \<Rightarrow> validRegistration (f q) \<and> s' = writeRecord T J (K p ''runners'' [Str a]) (f q) s"
    using tail by (cases e) (auto simp: writeRegistration_def split: if_split_asm)
  note re = readRegistration_Inr [OF inv a e]
  show "runner_inv J L p (tx_get T s')"
  proof (cases e)
    case (Some q)
    have "machineId q' \<noteq> machineId (f q)"
      if "wellFormed b" "b \<noteq> a" "registrationAt J p (tx_get T s) b = Some q'" for b q'
      using that inv a re(1) Some f unfolding runner_inv_def by metis
    with Some s' show ?thesis by (simp add: writeRecord_fun inv_register [OF inv a])
  qed (use s' inv in simp)
  show "leaseAt L p (tx_get T s') c = leaseAt L p (tx_get T s) c" if "wellFormed c"
    using s' a that by (cases e) (simp_all add: writeRecord_fun leaseAt_def)
  show "map_option machineId (registrationAt J p (tx_get T s') b)
      = map_option machineId (registrationAt J p (tx_get T s) b)" if "wellFormed b"
  proof (cases e)
    case (Some q)
    then have "registrationAt J p (tx_get T s) a = Some q" using re by simp
    then show ?thesis using Some s' a that by (auto simp: writeRecord_fun registrationAt_def f)
  qed (use s' in simp)
qed

text \<open>The registrations the scan finds are those of all registered runners.\<close>

lemma entries_at:
  assumes "prefix_bytes sub = K p n []" and "readEntries T s sub = Inr rows"
  shows "set rows = {(k, v). inRange p n [] k \<and> tx_get T s k = Some v}"
  using assms by (auto simp: readEntries_def bindR_eq_Inr range_at range_rows inRange_def)

lemma mapR_set: "mapR f xs = Inr ys \<Longrightarrow> set ys = {y. \<exists>x \<in> set xs. f x = Inr y}"
  by (induction xs arbitrary: ys) (auto simp: bindR_eq_Inr)

lemma used_ids:
  assumes inv: "runner_inv J L p (tx_get T s)" and sub: "prefix_bytes sub = K p ''runners'' []"
    and rows: "readEntries T s sub = Inr rows" and vs: "mapR (\<lambda>entry. decodeRegistration J (snd entry)) rows = Inr vs"
  shows "set vs = {r. \<exists>a. wellFormed a \<and> registrationAt J p (tx_get T s) a = Some r}"
proof -
  have d: "decodeRegistration J v = Inr r \<longleftrightarrow> recordOf J (Some v) = Some r \<and> validRegistration r" for v r
    by (auto simp: decodeRegistration_def bindR_eq_Inr decodeRecord_Inr)
  have "set vs = {r. \<exists>x \<in> set rows. decodeRegistration J (snd x) = Inr r}"
    by (rule mapR_set [OF vs])
  also have "\<dots> = {r. \<exists>a. wellFormed a \<and> registrationAt J p (tx_get T s) a = Some r}"
  proof (intro Collect_cong iffI)
    fix r assume "\<exists>x \<in> set rows. decodeRegistration J (snd x) = Inr r"
    then obtain k v where kv: "inRange p ''runners'' [] k" "tx_get T s k = Some v" "recordOf J (Some v) = Some r"
      using entries_at [OF sub rows] by (auto simp: d)
    then obtain a where "wellFormed a" "k = K p ''runners'' [Str a]" using inv unfolding runner_inv_def by blast
    then show "\<exists>a. wellFormed a \<and> registrationAt J p (tx_get T s) a = Some r"
      using kv by (auto simp: registrationAt_def)
  next
    fix r assume "\<exists>a. wellFormed a \<and> registrationAt J p (tx_get T s) a = Some r"
    then obtain a v where a: "wellFormed a" "tx_get T s (K p ''runners'' [Str a]) = Some v" "recordOf J (Some v) = Some r"
      by (auto simp: registrationAt_def recordOf_def bind_eq_Some_conv)
    then have "(K p ''runners'' [Str a], v) \<in> set rows" using entries_at [OF sub rows] by simp
    moreover have "validRegistration r"
    proof -
      have "inRange p ''runners'' [] (K p ''runners'' [Str a])" using a(1) by simp
      with inv a(2) obtain q where "recordOf J (Some v) = Some q" "validRegistration q"
        unfolding runner_inv_def by blast
      with a(3) show ?thesis by simp
    qed
    ultimately show "\<exists>x \<in> set rows. decodeRegistration J (snd x) = Inr r"
      using a(3) d by (intro bexI [where x = "(K p ''runners'' [Str a], v)"]) simp_all
  qed
  finally show ?thesis .
qed

lemma freeMachineId_Some:
  "freeMachineId used = Some m \<Longrightarrow> 0 \<le> m \<and> m < machineIdCount \<and> m \<notin> used \<and> (\<forall>i. 0 \<le> i \<longrightarrow> i < m \<longrightarrow> i \<in> used)"
  by (auto simp: freeMachineId_def find_Some_iff) (metis atLeastAtMost_iff in_set_conv_nth linorder_not_less
      nth_upto set_upto zle_diff1_eq add.commute add_0 diff_ge_0_iff_ge int_nat_eq nat_less_iff order_trans)

lemma freeMachineId_None: "freeMachineId used = None \<Longrightarrow> 0 \<le> m \<Longrightarrow> m < machineIdCount \<Longrightarrow> m \<in> used"
  by (simp add: freeMachineId_def find_None_iff)

lemma registrationAt_cong:
  "(\<And>k. prefix p k \<Longrightarrow> g' k = g k) \<Longrightarrow> registrationAt J p g' = registrationAt J p g \<and> leaseAt L p g' = leaseAt L p g"
  by (simp add: registrationAt_def leaseAt_def fun_eq_iff)

text \<open>What registering does: it keeps the machine id of a registered runner and gives a new one the least free id.\<close>

lemma register_Inr:
  assumes o: "opensRoot T rootDir p" and inv: "runner_inv J L p (tx_get T s)"
    and r: "register T J rootDir a run health now s = Inr (m, s')"
  shows "wellFormed a" and "runner_inv J L p (tx_get T s')"
    and "registrationAt J p (tx_get T s') a = Some \<lparr>runner = run, healthy = health, machineId = m, heartbeat = now\<rparr>"
    and "registrationAt J p (tx_get T s) a = Some q \<Longrightarrow> machineId q = m"
    and "wellFormed b \<Longrightarrow> b \<noteq> a \<Longrightarrow> registrationAt J p (tx_get T s') b = registrationAt J p (tx_get T s) b"
    and "wellFormed c \<Longrightarrow> leaseAt L p (tx_get T s') c = leaseAt L p (tx_get T s) c"
proof -
  obtain store s1 e where k: "runnerKeys rootDir s = Inr (store, s1)" and a: "wellFormed a"
    and e: "readRegistration T J s1 (K p ''runners'' [Str a]) = Inr e"
    using r runnerKeys_at [OF o] by (auto simp: register_def bindR_eq_Inr pack_at)
  note kk = runnerKeys_at [OF o k]
  have inv1: "runner_inv J L p (tx_get T s1)" by (rule runner_inv_cong [OF _ inv]) (rule kk(3))
  note re = readRegistration_Inr [OF inv1 a e]
  have same: "registrationAt J p (tx_get T s1) = registrationAt J p (tx_get T s)"
    "leaseAt L p (tx_get T s1) = leaseAt L p (tx_get T s)"
    using registrationAt_cong [OF kk(3)] by auto
  let ?r = "\<lparr>runner = run, healthy = health, machineId = m, heartbeat = now\<rparr>"
  from r k a e have valid: "validRegistration ?r" and s': "s' = writeRecord T J (K p ''runners'' [Str a]) ?r s1"
    by (auto simp: register_def bindR_eq_Inr pack_at [OF kk(1)] writeRegistration_def split: if_split_asm)
  have old: "machineId q = m" if "e = Some q" for q
    using r k a e that by (auto simp: register_def bindR_eq_Inr pack_at [OF kk(1)])
  have fresh: "machineId q \<noteq> m" if none: "e = None" and "wellFormed b" "registrationAt J p (tx_get T s1) b = Some q" for b q
  proof -
    obtain rows vs where rows: "readEntries T s1 (runners store) = Inr rows"
      and vs: "mapR (\<lambda>entry. decodeRegistration J (snd entry)) rows = Inr vs"
      and f: "freeMachineId (set (map machineId vs)) = Some m"
      using r k a e unfolding none
      by (auto simp: register_def bindR_eq_Inr pack_at [OF kk(1)] split: option.split_asm)
    have "q \<in> set vs" using used_ids [OF inv1 kk(1) rows vs] that by auto
    then show ?thesis using freeMachineId_Some [OF f] by auto
  qed
  show "wellFormed a" by (rule a)
  have "machineId q \<noteq> machineId ?r" if "wellFormed b" "b \<noteq> a" "registrationAt J p (tx_get T s1) b = Some q" for b q
  proof (cases e)
    case (Some q0)
    then have "registrationAt J p (tx_get T s1) a = Some q0" "machineId q0 = m" using re old by auto
    then show ?thesis using inv1 a that unfolding runner_inv_def by auto
  qed (use fresh that in simp)
  then show "runner_inv J L p (tx_get T s')"
    unfolding s' writeRecord_fun by (rule inv_register [OF inv1 a valid])
  show "registrationAt J p (tx_get T s') a = Some ?r" by (simp add: s' writeRecord_fun registrationAt_def)
  show "registrationAt J p (tx_get T s) a = Some q \<Longrightarrow> machineId q = m" using re(1) same old by simp
  show "wellFormed b \<Longrightarrow> b \<noteq> a \<Longrightarrow> registrationAt J p (tx_get T s') b = registrationAt J p (tx_get T s) b"
    using a by (simp add: s' writeRecord_fun registrationAt_def fun_cong [OF same(1), unfolded registrationAt_def])
  show "wellFormed c \<Longrightarrow> leaseAt L p (tx_get T s') c = leaseAt L p (tx_get T s) c"
    using a by (simp add: s' writeRecord_fun leaseAt_def fun_cong [OF same(2), unfolded leaseAt_def])
qed

lemma register_exhausted:
  assumes o: "opensRoot T rootDir p" and inv: "runner_inv J L p (tx_get T s)"
    and r: "register T J rootDir a run health now s = Inl (RunnerMachineIdsExhausted b n)"
  shows "b = a \<and> n = machineIdCount \<and> registrationAt J p (tx_get T s) a = None"
    and "0 \<le> m \<Longrightarrow> m < machineIdCount \<Longrightarrow>
      \<exists>c q. wellFormed c \<and> registrationAt J p (tx_get T s) c = Some q \<and> machineId q = m"
proof -
  have inl: "bindR x f = Inl y \<longleftrightarrow> x = Inl y \<or> (\<exists>z. x = Inr z \<and> f z = Inl y)" for x :: "runner_error + 'b" and f :: "'b \<Rightarrow> runner_error + 'c" and y
    by (cases x) auto
  have never: "liftRunner x \<noteq> Inl (RunnerMachineIdsExhausted b n)" for x :: "store_error + 'b"
    by (cases x) auto
  obtain store s1 e rows vs where k: "runnerKeys rootDir s = Inr (store, s1)" and a: "wellFormed a"
    and e: "readRegistration T J s1 (K p ''runners'' [Str a]) = Inr None"
    and rows: "readEntries T s1 (runners store) = Inr rows"
    and vs: "mapR (\<lambda>entry. decodeRegistration J (snd entry)) rows = Inr vs"
    and f: "freeMachineId (set (map machineId vs)) = None" and b: "b = a" "n = machineIdCount"
    using r runnerKeys_at [OF o] by (auto simp: register_def inl never pack_at split: option.split_asm)
  note kk = runnerKeys_at [OF o k]
  have inv1: "runner_inv J L p (tx_get T s1)" by (rule runner_inv_cong [OF _ inv]) (rule kk(3))
  have same: "registrationAt J p (tx_get T s1) = registrationAt J p (tx_get T s)"
    using registrationAt_cong [OF kk(3)] by auto
  show "b = a \<and> n = machineIdCount \<and> registrationAt J p (tx_get T s) a = None"
    using b readRegistration_Inr(1) [OF inv1 a e] same by simp
  assume "0 \<le> m" "m < machineIdCount"
  then have "m \<in> machineId ` set vs" using freeMachineId_None [OF f] by simp
  then show "\<exists>c q. wellFormed c \<and> registrationAt J p (tx_get T s) c = Some q \<and> machineId q = m"
    using used_ids [OF inv1 kk(1) rows vs] same by auto
qed

section \<open>Leases\<close>

lemma lockShard_Inr:
  assumes inv: "runner_inv J L p (tx_get T s)" and sub: "prefix_bytes sub = K p ''leases'' []"
    and r: "lockShard T L expiration sub address rfr now shard (acquired, s) = Inr (acquired', s')"
  defines "got \<equiv> grants (leaseAt L p (tx_get T s) shard) address rfr now"
  shows "wellFormed shard" and "acquired' = (if got then acquired @ [shard] else acquired)"
    and "wellFormed c \<Longrightarrow> leaseAt L p (tx_get T s') c
      = (if got \<and> c = shard then Some \<lparr>lease_address = address, expiresAt = now + expiration\<rparr>
         else leaseAt L p (tx_get T s) c)"
    and "runner_inv J L p (tx_get T s')"
    and "wellFormed b \<Longrightarrow> registrationAt J p (tx_get T s') b = registrationAt J p (tx_get T s) b"
proof -
  obtain l where c: "wellFormed shard" and l: "readRecord T L s (K p ''leases'' [Str shard]) = Inr l"
    using r by (auto simp: lockShard_def bindR_eq_Inr pack_at [OF sub])
  have "l = leaseAt L p (tx_get T s) shard" using readRecord_Inr [OF l] by (simp add: leaseAt_def)
  then have got: "got \<longleftrightarrow> (case l of Some l \<Rightarrow> lease_address l = address | None \<Rightarrow> False)
      \<or> \<not> rfr \<and> (case l of Some l \<Rightarrow> expiresAt l < now | None \<Rightarrow> True)"
    by (auto simp: got_def grants_def split: option.split)
  let ?w = "writeRecord T L (K p ''leases'' [Str shard]) \<lparr>lease_address = address, expiresAt = now + expiration\<rparr> s"
  have res: "acquired' = (if got then acquired @ [shard] else acquired)" "s' = (if got then ?w else s)"
    using r c l unfolding got by (auto simp: lockShard_def bindR_eq_Inr pack_at [OF sub] split: if_split_asm)
  show "wellFormed shard" "acquired' = (if got then acquired @ [shard] else acquired)" by (fact c res(1))+
  show "wellFormed c \<Longrightarrow> leaseAt L p (tx_get T s') c
      = (if got \<and> c = shard then Some \<lparr>lease_address = address, expiresAt = now + expiration\<rparr>
         else leaseAt L p (tx_get T s) c)"
    using c by (simp add: res(2) writeRecord_fun leaseAt_def)
  show "runner_inv J L p (tx_get T s')" using inv_lease [OF inv c] inv by (simp add: res(2) writeRecord_fun)
  show "wellFormed b \<Longrightarrow> registrationAt J p (tx_get T s') b = registrationAt J p (tx_get T s) b"
    using c by (simp add: res(2) writeRecord_fun registrationAt_def)
qed

lemma lockShards_Inr:
  assumes "runner_inv J L p (tx_get T s)" and sub: "prefix_bytes sub = K p ''leases'' []" and "distinct shards"
    and "foldR (lockShard T L expiration sub address rfr now) shards (acquired, s) = Inr (acquired', s')"
  shows "(\<forall>c \<in> set shards. wellFormed c)
    \<and> acquired' = acquired @ filter (\<lambda>c. grants (leaseAt L p (tx_get T s) c) address rfr now) shards
    \<and> (\<forall>c. wellFormed c \<longrightarrow> leaseAt L p (tx_get T s') c
      = (if c \<in> set shards \<and> grants (leaseAt L p (tx_get T s) c) address rfr now
         then Some \<lparr>lease_address = address, expiresAt = now + expiration\<rparr> else leaseAt L p (tx_get T s) c))
    \<and> runner_inv J L p (tx_get T s')
    \<and> (\<forall>b. wellFormed b \<longrightarrow> registrationAt J p (tx_get T s') b = registrationAt J p (tx_get T s) b)"
  using assms(1,3,4)
proof (induction shards arbitrary: acquired s)
  case (Cons c shards)
  then obtain acq s1 where one: "lockShard T L expiration sub address rfr now c (acquired, s) = Inr (acq, s1)"
    and rest: "foldR (lockShard T L expiration sub address rfr now) shards (acq, s1) = Inr (acquired', s')"
    by (auto simp: bindR_eq_Inr)
  note o = lockShard_Inr [OF Cons.prems(1) sub one]
  have d: "distinct shards" "c \<notin> set shards" using Cons.prems(2) by auto
  note IH = Cons.IH [OF o(4) d(1) rest]
  have same: "leaseAt L p (tx_get T s1) x = leaseAt L p (tx_get T s) x" if "x \<in> set shards" for x
    using o(3) IH that d(2) by auto
  then have "filter (\<lambda>x. grants (leaseAt L p (tx_get T s1) x) address rfr now) shards
      = filter (\<lambda>x. grants (leaseAt L p (tx_get T s) x) address rfr now) shards"
    by (intro filter_cong) simp_all
  with IH o d(2) same show ?case by auto
qed simp

text \<open>
  The outcome of \<open>acquire\<close> and \<open>refresh\<close>: exactly the requested shards that the request gets are returned,
  and their leases run anew.
\<close>

lemma lock_Inr:
  assumes o: "opensRoot T rootDir p" and inv: "runner_inv J L p (tx_get T s)"
    and r: "lock T J L rootDir expiration address shards rfr now s = Inr (acquired, s')"
  shows "acquired = filter (\<lambda>c. grants (leaseAt L p (tx_get T s) c) address rfr now) (jsSet shards)"
    and "wellFormed c \<Longrightarrow> leaseAt L p (tx_get T s') c
      = (if c \<in> set acquired then Some \<lparr>lease_address = address, expiresAt = now + expiration\<rparr>
         else leaseAt L p (tx_get T s) c)"
    and "runner_inv J L p (tx_get T s')"
    and "wellFormed b \<Longrightarrow> map_option machineId (registrationAt J p (tx_get T s') b)
      = map_option machineId (registrationAt J p (tx_get T s) b)"
    and "set acquired \<subseteq> {c. wellFormed c}"
proof -
  obtain store s1 s2 where k: "runnerKeys rootDir s = Inr (store, s1)"
    and u: "(if rfr then updateRegistration T J (runners store) address (\<lambda>r. r\<lparr>heartbeat := now\<rparr>) s1 else Inr s1) = Inr s2"
    and f: "foldR (lockShard T L expiration (leases store) address rfr now) (jsSet shards) ([], s2) = Inr (acquired, s')"
    using r by (auto simp: lock_def bindR_eq_Inr)
  note kk = runnerKeys_at [OF o k]
  have inv1: "runner_inv J L p (tx_get T s1)" by (rule runner_inv_cong [OF _ inv]) (rule kk(3))
  have same: "registrationAt J p (tx_get T s1) = registrationAt J p (tx_get T s)"
    "leaseAt L p (tx_get T s1) = leaseAt L p (tx_get T s)"
    using registrationAt_cong [OF kk(3)] by auto
  have upd: "runner_inv J L p (tx_get T s2)"
    "wellFormed c \<Longrightarrow> leaseAt L p (tx_get T s2) c = leaseAt L p (tx_get T s) c"
    "wellFormed b \<Longrightarrow> map_option machineId (registrationAt J p (tx_get T s2) b)
      = map_option machineId (registrationAt J p (tx_get T s) b)" for b c
    using u inv1 updateRegistration_inv [OF inv1 kk(1), of "\<lambda>r. r\<lparr>heartbeat := now\<rparr>" address s2] same
    by (auto split: if_split_asm)
  note l = lockShards_Inr [OF upd(1) kk(2) jsSet_props(2) f]
  then have wf: "\<forall>c \<in> set (jsSet shards). wellFormed c" by blast
  have "filter (\<lambda>c. grants (leaseAt L p (tx_get T s2) c) address rfr now) (jsSet shards)
      = filter (\<lambda>c. grants (leaseAt L p (tx_get T s) c) address rfr now) (jsSet shards)"
    using wf upd(2) by (intro filter_cong) simp_all
  with l show a: "acquired = filter (\<lambda>c. grants (leaseAt L p (tx_get T s) c) address rfr now) (jsSet shards)" by simp
  show "wellFormed c \<Longrightarrow> leaseAt L p (tx_get T s') c
      = (if c \<in> set acquired then Some \<lparr>lease_address = address, expiresAt = now + expiration\<rparr>
         else leaseAt L p (tx_get T s) c)"
    using l upd(2) a by auto
  show "runner_inv J L p (tx_get T s')" using l by blast
  show "wellFormed b \<Longrightarrow> map_option machineId (registrationAt J p (tx_get T s') b)
      = map_option machineId (registrationAt J p (tx_get T s) b)"
    using l upd(3) by auto
  show "set acquired \<subseteq> {c. wellFormed c}" using wf by (auto simp: a)
qed

lemma grants_held: "grants (Some l) address rfr now \<Longrightarrow> lease_address l \<noteq> address \<Longrightarrow> expiresAt l < now"
  by (simp add: grants_def)

text \<open>Releasing clears the leases of the caller and no others.\<close>

lemma release_Inr:
  assumes o: "opensRoot T rootDir p" and inv: "runner_inv J L p (tx_get T s)"
    and r: "release T L rootDir address shard s = Inr s'"
  shows "runner_inv J L p (tx_get T s')"
    and "wellFormed b \<Longrightarrow> registrationAt J p (tx_get T s') b = registrationAt J p (tx_get T s) b"
    and "wellFormed c \<Longrightarrow> leaseAt L p (tx_get T s) c = Some l \<Longrightarrow> lease_address l \<noteq> address \<Longrightarrow>
      leaseAt L p (tx_get T s') c = Some l"
proof -
  obtain store s1 l1 where k: "runnerKeys rootDir s = Inr (store, s1)" and sh: "wellFormed shard"
    and l1: "readRecord T L s1 (K p ''leases'' [Str shard]) = Inr l1"
    and s': "s' = (if (case l1 of Some l \<Rightarrow> lease_address l = address | None \<Rightarrow> False)
      then tx_clear T (K p ''leases'' [Str shard]) s1 else s1)"
    using r runnerKeys_at [OF o] by (auto simp: release_def bindR_eq_Inr pack_at split: if_split_asm)
  note kk = runnerKeys_at [OF o k]
  have inv1: "runner_inv J L p (tx_get T s1)" by (rule runner_inv_cong [OF _ inv]) (rule kk(3))
  have same: "registrationAt J p (tx_get T s1) = registrationAt J p (tx_get T s)"
    "leaseAt L p (tx_get T s1) = leaseAt L p (tx_get T s)"
    using registrationAt_cong [OF kk(3)] by auto
  have l: "l1 = leaseAt L p (tx_get T s) shard" using readRecord_Inr [OF l1] fun_cong [OF same(2), of shard] by (simp add: leaseAt_def)
  show "runner_inv J L p (tx_get T s')" using inv1 inv_unregister [OF inv1] by (simp add: s' clear_fun)
  show "wellFormed b \<Longrightarrow> registrationAt J p (tx_get T s') b = registrationAt J p (tx_get T s) b"
    using sh by (simp add: s' clear_fun registrationAt_def fun_cong [OF same(1), unfolded registrationAt_def])
  show "leaseAt L p (tx_get T s') c = Some l"
    if "wellFormed c" "leaseAt L p (tx_get T s) c = Some l" "lease_address l \<noteq> address"
    using that sh l by (auto simp: s' clear_fun leaseAt_def fun_cong [OF same(2), unfolded leaseAt_def])
qed

lemma releaseAll_rows:
  assumes "foldR (\<lambda>entry s. bindR (decodeRecord L (snd entry)) (\<lambda>lease.
        if lease_address lease = address then Inr (tx_clear T (fst entry) s) else Inr s)) rows s = Inr s'"
  shows "tx_get T s' k = (if \<exists>v l. (k, v) \<in> set rows \<and> recordOf L (Some v) = Some l \<and> lease_address l = address
    then None else tx_get T s k)"
  using assms
proof (induction rows arbitrary: s)
  case (Cons row rows)
  obtain k0 v0 where row: "row = (k0, v0)" by (cases row)
  with Cons.prems obtain l where l: "recordOf L (Some v0) = Some l"
    and rest: "foldR (\<lambda>entry s. bindR (decodeRecord L (snd entry)) (\<lambda>lease.
        if lease_address lease = address then Inr (tx_clear T (fst entry) s) else Inr s)) rows
      (if lease_address l = address then tx_clear T k0 s else s) = Inr s'"
    by (auto simp: bindR_eq_Inr decodeRecord_Inr split: if_split_asm)
  from Cons.IH [OF rest] show ?case using l by (auto simp: row get_clear)
qed simp

lemma releaseAll_Inr:
  assumes o: "opensRoot T rootDir p" and inv: "runner_inv J L p (tx_get T s)"
    and r: "releaseAll T L rootDir address s = Inr s'"
  shows "runner_inv J L p (tx_get T s')"
    and "wellFormed b \<Longrightarrow> registrationAt J p (tx_get T s') b = registrationAt J p (tx_get T s) b"
    and "wellFormed c \<Longrightarrow> leaseAt L p (tx_get T s') c = (case leaseAt L p (tx_get T s) c of
        Some l \<Rightarrow> if lease_address l = address then None else Some l | None \<Rightarrow> None)"
proof -
  obtain store s1 rows where k: "runnerKeys rootDir s = Inr (store, s1)"
    and rows: "readEntries T s1 (leases store) = Inr rows"
    and f: "foldR (\<lambda>entry s. bindR (decodeRecord L (snd entry)) (\<lambda>lease.
        if lease_address lease = address then Inr (tx_clear T (fst entry) s) else Inr s)) rows s1 = Inr s'"
    using r by (auto simp: releaseAll_def bindR_eq_Inr)
  note kk = runnerKeys_at [OF o k]
  have inv1: "runner_inv J L p (tx_get T s1)" by (rule runner_inv_cong [OF _ inv]) (rule kk(3))
  have same: "registrationAt J p (tx_get T s1) = registrationAt J p (tx_get T s)"
    "leaseAt L p (tx_get T s1) = leaseAt L p (tx_get T s)"
    using registrationAt_cong [OF kk(3)] by auto
  have get: "tx_get T s' k = (if inRange p ''leases'' [] k \<and> (\<exists>l. recordOf L (tx_get T s1 k) = Some l \<and> lease_address l = address)
      then None else tx_get T s1 k)" for k
    using entries_at [OF kk(2) rows] by (auto simp: releaseAll_rows [OF f] recordOf_def bind_eq_Some_conv)
  have reg: "registrationAt J p (tx_get T s') b = registrationAt J p (tx_get T s) b" if "wellFormed b" for b
    using that by (simp add: get registrationAt_def fun_cong [OF same(1), unfolded registrationAt_def])
  have some: "tx_get T s' k = Some v \<Longrightarrow> tx_get T s1 k = Some v" for k v by (simp add: get split: if_splits)
  show "runner_inv J L p (tx_get T s')"
    by (rule runner_inv_sub [OF _ inv1]) (rule some)
  show "wellFormed b \<Longrightarrow> registrationAt J p (tx_get T s') b = registrationAt J p (tx_get T s) b" by (rule reg)
  show "leaseAt L p (tx_get T s') c = (case leaseAt L p (tx_get T s) c of
        Some l \<Rightarrow> if lease_address l = address then None else Some l | None \<Rightarrow> None)" if "wellFormed c"
    using that
    by (auto simp: get leaseAt_def fun_cong [OF same(2), unfolded leaseAt_def, symmetric] split: option.split)
qed

lemma unregister_Inr:
  assumes o: "opensRoot T rootDir p" and inv: "runner_inv J L p (tx_get T s)"
    and r: "unregister T rootDir a s = Inr s'"
  shows "runner_inv J L p (tx_get T s')"
    and "wellFormed c \<Longrightarrow> leaseAt L p (tx_get T s') c = leaseAt L p (tx_get T s) c"
proof -
  obtain store s1 where k: "runnerKeys rootDir s = Inr (store, s1)" and a: "wellFormed a"
    and s': "s' = tx_clear T (K p ''runners'' [Str a]) s1"
    using r runnerKeys_at [OF o] by (auto simp: unregister_def bindR_eq_Inr pack_at)
  note kk = runnerKeys_at [OF o k]
  have inv1: "runner_inv J L p (tx_get T s1)" by (rule runner_inv_cong [OF _ inv]) (rule kk(3))
  show "runner_inv J L p (tx_get T s')" using inv_unregister [OF inv1] by (simp add: s' clear_fun)
  show "wellFormed c \<Longrightarrow> leaseAt L p (tx_get T s') c = leaseAt L p (tx_get T s) c"
    using a kk(3) [of "K p ''leases'' [Str c]"] by (simp add: s' clear_fun leaseAt_def)
qed

lemma setRunnerHealth_Inr:
  assumes o: "opensRoot T rootDir p" and inv: "runner_inv J L p (tx_get T s)"
    and r: "setRunnerHealth T J rootDir a health s = Inr s'"
  shows "runner_inv J L p (tx_get T s')"
    and "wellFormed c \<Longrightarrow> leaseAt L p (tx_get T s') c = leaseAt L p (tx_get T s) c"
proof -
  obtain store s1 where k: "runnerKeys rootDir s = Inr (store, s1)"
    and u: "updateRegistration T J (runners store) a (\<lambda>r. r\<lparr>healthy := health\<rparr>) s1 = Inr s'"
    using r by (auto simp: setRunnerHealth_def bindR_eq_Inr)
  note kk = runnerKeys_at [OF o k]
  have inv1: "runner_inv J L p (tx_get T s1)" by (rule runner_inv_cong [OF _ inv]) (rule kk(3))
  note up = updateRegistration_inv [OF inv1 kk(1) _ u]
  show "runner_inv J L p (tx_get T s')" using up(1) by simp
  show "wellFormed c \<Longrightarrow> leaseAt L p (tx_get T s') c = leaseAt L p (tx_get T s) c"
    using up(2) kk(3) [of "K p ''leases'' [Str c]"] by (simp add: leaseAt_def)
qed

lemma getRunners_Inr:
  assumes "opensRoot T rootDir p" and "runner_inv J L p (tx_get T s)"
    and "getRunners T J rootDir expiration now s = Inr (rs, s')"
  shows "runner_inv J L p (tx_get T s') \<and> leaseAt L p (tx_get T s') c = leaseAt L p (tx_get T s) c"
proof -
  obtain store where k: "runnerKeys rootDir s = Inr (store, s')"
    using assms(3) by (auto simp: getRunners_def bindR_eq_Inr)
  show ?thesis
    using runner_inv_cong [OF runnerKeys_at(3) [OF assms(1) k] assms(2)] registrationAt_cong [OF runnerKeys_at(3) [OF assms(1) k]]
    by simp
qed

end

section \<open>Runs\<close>

text \<open>One transaction by the runner with the given address at the given time, or a transaction elsewhere.\<close>

inductive runner_step ::
    "'s txn \<Rightarrow> registration json_codec \<Rightarrow> lease json_codec \<Rightarrow> ('s \<Rightarrow> store_error + subspace \<times> 's) \<Rightarrow> rat \<Rightarrow> bytes
      \<Rightarrow> js_string \<Rightarrow> rat \<Rightarrow> 's \<Rightarrow> 's \<Rightarrow> bool"
  for T J L rootDir expiration p where
  run_get: "getRunners T J rootDir expiration now s = Inr (rs, s') \<Longrightarrow> runner_step T J L rootDir expiration p a now s s'"
| run_register: "register T J rootDir a run health now s = Inr (m, s') \<Longrightarrow> runner_step T J L rootDir expiration p a now s s'"
| run_unregister: "unregister T rootDir a s = Inr s' \<Longrightarrow> runner_step T J L rootDir expiration p a now s s'"
| run_health: "setRunnerHealth T J rootDir a health s = Inr s' \<Longrightarrow> runner_step T J L rootDir expiration p a now s s'"
| run_acquire: "acquire T J L rootDir expiration a shards now s = Inr (acquired, s') \<Longrightarrow>
    runner_step T J L rootDir expiration p a now s s'"
| run_refresh: "refresh T J L rootDir expiration a shards now s = Inr (acquired, s') \<Longrightarrow>
    runner_step T J L rootDir expiration p a now s s'"
| run_release: "release T L rootDir a shard s = Inr s' \<Longrightarrow> runner_step T J L rootDir expiration p a now s s'"
| run_releaseAll: "releaseAll T L rootDir a s = Inr s' \<Longrightarrow> runner_step T J L rootDir expiration p a now s s'"
| run_elsewhere: "(\<And>k. prefix p k \<Longrightarrow> tx_get T s' k = tx_get T s k) \<Longrightarrow> runner_step T J L rootDir expiration p a now s s'"

inductive runner_reachable ::
    "'s txn \<Rightarrow> registration json_codec \<Rightarrow> lease json_codec \<Rightarrow> ('s \<Rightarrow> store_error + subspace \<times> 's) \<Rightarrow> rat \<Rightarrow> bytes \<Rightarrow> 's \<Rightarrow> bool"
  for T J L rootDir expiration p where
  runner_empty: "(\<And>k. prefix p k \<Longrightarrow> tx_get T s k = None) \<Longrightarrow> runner_reachable T J L rootDir expiration p s"
| runner_next: "runner_reachable T J L rootDir expiration p s \<Longrightarrow> runner_step T J L rootDir expiration p a now s s' \<Longrightarrow>
    runner_reachable T J L rootDir expiration p s'"

text \<open>Steps of the other runners up to a time.\<close>

inductive others_run ::
    "'s txn \<Rightarrow> registration json_codec \<Rightarrow> lease json_codec \<Rightarrow> ('s \<Rightarrow> store_error + subspace \<times> 's) \<Rightarrow> rat \<Rightarrow> bytes
      \<Rightarrow> js_string \<Rightarrow> rat \<Rightarrow> 's \<Rightarrow> 's \<Rightarrow> bool"
  for T J L rootDir expiration p a e where
  others_none: "others_run T J L rootDir expiration p a e s s"
| others_step: "others_run T J L rootDir expiration p a e s s' \<Longrightarrow> runner_step T J L rootDir expiration p b now s' s'' \<Longrightarrow>
    b \<noteq> a \<Longrightarrow> now \<le> e \<Longrightarrow> others_run T J L rootDir expiration p a e s s''"

context runner_store
begin

lemma runner_step_inv:
  assumes "runner_step T J L rootDir expiration p a now s s'" and "opensRoot T rootDir p"
    and "runner_inv J L p (tx_get T s)"
  shows "runner_inv J L p (tx_get T s')"
  using assms
  by (cases rule: runner_step.cases)
    (auto simp: acquire_def refresh_def intro: register_Inr(2) unregister_Inr(1) setRunnerHealth_Inr(1) lock_Inr(3)
      release_Inr(1) releaseAll_Inr(1) runner_inv_cong dest: getRunners_Inr)

lemma lock_lease:
  assumes o: "opensRoot T rootDir p" and inv: "runner_inv J L p (tx_get T s)"
    and r: "lock T J L rootDir expiration b shards rfr now s = Inr (acquired, s')" and c: "wellFormed c"
    and l: "leaseAt L p (tx_get T s) c = Some l" "lease_address l \<noteq> b" "now \<le> expiresAt l"
  shows "leaseAt L p (tx_get T s') c = Some l \<and> c \<notin> set acquired"
proof -
  have "\<not> grants (Some l) b rfr now" using grants_held l(2,3) by fastforce
  then have "c \<notin> set acquired" using lock_Inr(1) [OF o inv r] l(1) by simp
  then show ?thesis using lock_Inr(2) [OF o inv r c] l(1) by simp
qed

lemma runner_step_lease:
  assumes step: "runner_step T J L rootDir expiration p b now s s'" and o: "opensRoot T rootDir p"
    and inv: "runner_inv J L p (tx_get T s)" and c: "wellFormed c"
    and l: "leaseAt L p (tx_get T s) c = Some l" "lease_address l \<noteq> b" "now \<le> expiresAt l"
  shows "leaseAt L p (tx_get T s') c = Some l"
  using step
proof (cases rule: runner_step.cases)
  case (run_acquire shards acquired)
  then show ?thesis using lock_lease [OF o inv _ c l] by (auto simp: acquire_def)
next
  case (run_refresh shards acquired)
  then show ?thesis using lock_lease [OF o inv _ c l] by (auto simp: refresh_def)
next
  case (run_releaseAll)
  then show ?thesis using releaseAll_Inr(3) [OF o inv _ c] l by simp
next
  case (run_elsewhere)
  then show ?thesis using registrationAt_cong [of p "tx_get T s'" "tx_get T s"] l by simp
qed (use o inv c l in \<open>simp_all add: register_Inr(6) unregister_Inr(2) setRunnerHealth_Inr(2) release_Inr(3) getRunners_Inr\<close>)

lemma runner_reachable_inv:
  "runner_reachable T J L rootDir expiration p s \<Longrightarrow> opensRoot T rootDir p \<Longrightarrow> runner_inv J L p (tx_get T s)"
  by (induction rule: runner_reachable.induct) (auto intro: runner_inv_empty runner_step_inv)

lemma others_run_lease:
  assumes "others_run T J L rootDir expiration p a e s s'" and "opensRoot T rootDir p"
    and "runner_inv J L p (tx_get T s)" and "wellFormed c" and "leaseAt L p (tx_get T s) c = Some l"
    and "lease_address l = a" and "e \<le> expiresAt l"
  shows "runner_inv J L p (tx_get T s') \<and> leaseAt L p (tx_get T s') c = Some l"
  using assms
proof (induction rule: others_run.induct)
  case (others_step s s' b now s'')
  then have s': "runner_inv J L p (tx_get T s')" "leaseAt L p (tx_get T s') c = Some l" by auto
  have "leaseAt L p (tx_get T s'') c = Some l"
    by (rule runner_step_lease [OF others_step.hyps(2) others_step.prems(1) s'(1) others_step.prems(3) s'(2)])
      (use others_step in auto)
  then show ?case using runner_step_inv [OF others_step.hyps(2) others_step.prems(1) s'(1)] by simp
qed simp

end

section \<open>Sample schemas\<close>

definition sampleRegistration :: "registration json_codec" where
  "sampleRegistration = tupleJson
     (\<lambda>r. [textValue (runner r), Bool (healthy r), intValue (machineId r), ratValue (heartbeat r)])
     (\<lambda>t. if length t = 4 then Some \<lparr>runner = textOf (t ! 0), healthy = (t ! 1 = Bool True),
        machineId = intOf (t ! 2), heartbeat = ratOf (t ! 3)\<rparr> else None)"

definition sampleLease :: "lease json_codec" where
  "sampleLease = tupleJson (\<lambda>l. [textValue (lease_address l), ratValue (expiresAt l)])
     (\<lambda>t. if length t = 2 then Some \<lparr>lease_address = textOf (t ! 0), expiresAt = ratOf (t ! 1)\<rparr> else None)"

interpretation sampleRegistration: json_codec sampleRegistration
  unfolding sampleRegistration_def by (rule tupleJson_codec) simp_all

interpretation sampleLease: json_codec sampleLease
  unfolding sampleLease_def by (rule tupleJson_codec) simp_all

interpretation memRunners: runner_store mem_txn sampleRegistration sampleLease ..

lemma runnerKeys_opened: "\<exists>store. runnerKeys (openedRoot p) s = Inr (store, s)"
  by (simp add: runnerKeys_def openedRoot_def subspace_def packTrackedSync_enc)

lemma sample_acquire:
  obtains s' where "acquire mem_txn sampleRegistration sampleLease (openedRoot [9]) 30 (js ''a'') [js ''1''] 5 [] = Inr ([js ''1''], s')"
proof -
  obtain store where k: "runnerKeys (openedRoot [9]) ([] :: mem) = Inr (store, [])"
    using runnerKeys_opened [of "[9]" "[] :: mem"] by blast
  note kk = runnerKeys_at [OF opensRoot_opened k]
  have one: "jsSet [js ''1''] = [js ''1'']" by (simp add: jsSet_def)
  have "readRecord mem_txn sampleLease [] (K [9] ''leases'' [Str (js ''1'')]) = Inr None"
    by (rule readRecord_None) (simp add: mem_get)
  then show ?thesis
    using that by (simp add: acquire_def lock_def k one lockShard_def pack_at [OF kk(2), THEN iffD2])
qed

lemma sample_register:
  obtains s' where "register mem_txn sampleRegistration (openedRoot [9]) (js ''a'') (js ''r'') True 5 [] = Inr (0, s')"
proof -
  obtain store where k: "runnerKeys (openedRoot [9]) ([] :: mem) = Inr (store, [])"
    using runnerKeys_opened [of "[9]" "[] :: mem"] by blast
  note kk = runnerKeys_at [OF opensRoot_opened k]
  have read: "readRegistration mem_txn sampleRegistration [] (K [9] ''runners'' [Str (js ''a'')]) = Inr None"
    by (simp add: readRegistration_def mem_get)
  have rows: "readEntries mem_txn [] (runners store) = Inr []"
    by (simp add: readEntries_def range_at [OF kk(1), THEN iffD2] mem.range_none mem_get)
  have free: "freeMachineId {} = Some 0"
    by (simp add: freeMachineId_def machineIdCount_def upto.simps)
  show ?thesis
    using that read rows free
    by (simp add: register_def k pack_at [OF kk(1), THEN iffD2] writeRegistration_def validRegistration_def machineIdCount_def)
qed

section \<open>Properties\<close>

text \<open>C14. In every reachable state of the runner storage no two registered runners share a machine id, and every
  machine id is between 0 and 1023, so the snowflake components of live runners never collide.\<close>

theorem machine_ids_are_unique:
  assumes "runner_store T J L" and "opensRoot T rootDir p" and "runner_reachable T J L rootDir expiration p s"
    and "wellFormed a" and "registrationAt J p (tx_get T s) a = Some r"
  shows "0 \<le> machineId r \<and> machineId r < 1024
    \<and> (\<forall>b q. wellFormed b \<and> registrationAt J p (tx_get T s) b = Some q \<and> machineId q = machineId r \<longrightarrow> b = a)"
proof -
  have inv: "runner_inv J L p (tx_get T s)"
    by (rule runner_store.runner_reachable_inv [OF assms(1,3,2)])
  obtain v where v: "tx_get T s (K p ''runners'' [Str a]) = Some v" "recordOf J (Some v) = Some r"
    using assms(5) by (auto simp: registrationAt_def recordOf_def bind_eq_Some_conv)
  have "inRange p ''runners'' [] (K p ''runners'' [Str a])" using assms(4) by (simp add: strict_prefix_def)
  with inv v have "validRegistration r" unfolding runner_inv_def by force
  then show ?thesis
    using inv assms(4,5) unfolding runner_inv_def by (auto simp: validRegistration_def machineIdCount_def)
qed

theorem machine_ids_are_unique_witness:
  "\<exists>s r. register mem_txn sampleRegistration (openedRoot [9]) (js ''a'') (js ''r'') True 5 [] = Inr (0, s)
     \<and> registrationAt sampleRegistration [9] (tx_get mem_txn s) (js ''a'') = Some r
     \<and> 0 \<le> machineId r \<and> machineId r < 1024"
proof -
  obtain s where s: "register mem_txn sampleRegistration (openedRoot [9]) (js ''a'') (js ''r'') True 5 [] = Inr (0, s)"
    by (rule sample_register)
  have "runner_reachable mem_txn sampleRegistration sampleLease (openedRoot [9]) 30 [9] s"
    by (rule runner_next [OF runner_empty run_register [OF s]]) (simp add: mem_get)
  moreover have "registrationAt sampleRegistration [9] (tx_get mem_txn s) (js ''a'')
      = Some \<lparr>runner = js ''r'', healthy = True, machineId = 0, heartbeat = 5\<rparr>"
    by (rule memRunners.register_Inr(3) [OF opensRoot_opened runner_inv_empty s]) (simp add: mem_get)
  ultimately show ?thesis
    using machine_ids_are_unique [OF memRunners.runner_store_axioms opensRoot_opened _ wellFormed_js] s by blast
qed

text \<open>C4. Leases exclude each other: after a runner acquires a shard, whatever the other runners do until the lease
  expires, the runner still holds it, and no acquire or refresh by another runner is granted that shard.\<close>

theorem lease_is_exclusive:
  assumes "runner_store T J L" and "opensRoot T rootDir p" and "runner_inv J L p (tx_get T s)"
    and "acquire T J L rootDir expiration a shards now s = Inr (acquired, s1)" and "c \<in> set acquired"
    and "others_run T J L rootDir expiration p a (now + expiration) s1 s2"
    and "b \<noteq> a" and "now2 \<le> now + expiration"
    and "lock T J L rootDir expiration b shards2 renew now2 s2 = Inr (acquired2, s3)"
  shows "c \<notin> set acquired2
    \<and> leaseAt L p (tx_get T s3) c = Some \<lparr>lease_address = a, expiresAt = now + expiration\<rparr>"
proof -
  let ?l = "\<lparr>lease_address = a, expiresAt = now + expiration\<rparr>"
  have r: "lock T J L rootDir expiration a shards False now s = Inr (acquired, s1)" using assms(4) by (simp add: acquire_def)
  note l = runner_store.lock_Inr [OF assms(1-3) r]
  have c: "wellFormed c" using l(5) assms(5) by blast
  have held: "leaseAt L p (tx_get T s1) c = Some ?l" using l(2) [OF c] assms(5) by simp
  have "runner_inv J L p (tx_get T s2) \<and> leaseAt L p (tx_get T s2) c = Some ?l"
    by (rule runner_store.others_run_lease [OF assms(1,6,2) l(3) c held]) simp_all
  then show ?thesis using runner_store.lock_lease [OF assms(1,2) _ assms(9) c] assms(7,8) by auto
qed

theorem lease_is_exclusive_witness:
  "\<exists>s1 s3. acquire mem_txn sampleRegistration sampleLease (openedRoot [9]) 30 (js ''a'') [js ''1''] 5 [] = Inr ([js ''1''], s1)
     \<and> lock mem_txn sampleRegistration sampleLease (openedRoot [9]) 30 (js ''b'') [js ''1''] False 20 s1 = Inr ([], s3)
     \<and> leaseAt sampleLease [9] (tx_get mem_txn s3) (js ''1'') = Some \<lparr>lease_address = js ''a'', expiresAt = 35\<rparr>"
proof -
  obtain s1 where s1: "acquire mem_txn sampleRegistration sampleLease (openedRoot [9]) 30 (js ''a'') [js ''1''] 5 [] = Inr ([js ''1''], s1)"
    by (rule sample_acquire)
  have inv: "runner_inv sampleRegistration sampleLease [9] (tx_get mem_txn ([] :: mem))"
    by (rule runner_inv_empty) (simp add: mem_get)
  have l: "leaseAt sampleLease [9] (tx_get mem_txn s1) (js ''1'') = Some \<lparr>lease_address = js ''a'', expiresAt = 35\<rparr>"
    using memRunners.lock_Inr(2) [OF opensRoot_opened inv s1 [unfolded acquire_def] wellFormed_js, of "''1''"] by simp
  obtain store where k: "runnerKeys (openedRoot [9]) s1 = Inr (store, s1)"
    using runnerKeys_opened [of "[9]" s1] by blast
  note kk = runnerKeys_at [OF opensRoot_opened k]
  have "jsSet [js ''1''] = [js ''1'']" by (simp add: jsSet_def)
  moreover have "readRecord mem_txn sampleLease s1 (K [9] ''leases'' [Str (js ''1'')])
      = Inr (Some \<lparr>lease_address = js ''a'', expiresAt = 35\<rparr>)"
    by (rule readRecord_Some) (use l in \<open>simp add: leaseAt_def\<close>)
  ultimately have r: "lock mem_txn sampleRegistration sampleLease (openedRoot [9]) 30 (js ''b'') [js ''1''] False 20 s1 = Inr ([], s1)"
    by (simp add: lock_def k lockShard_def pack_at [OF kk(2), THEN iffD2])
  have "leaseAt sampleLease [9] (tx_get mem_txn s1) (js ''1'') = Some \<lparr>lease_address = js ''a'', expiresAt = 5 + 30\<rparr>"
    using lease_is_exclusive [OF memRunners.runner_store_axioms opensRoot_opened inv s1 _ others_none _ _ r, of "js ''1''"] by simp
  with s1 r show ?thesis by auto
qed

text \<open>A lock request returns exactly the requested shards, each once and in order, that it is entitled to: its own,
  and for an acquire also those that are free or have expired; their leases run from now, all others stay.\<close>

theorem lock_grants_exactly:
  assumes "runner_store T J L" and "opensRoot T rootDir p" and "runner_inv J L p (tx_get T s)"
    and "lock T J L rootDir expiration a shards renew now s = Inr (acquired, s')"
  shows "acquired = filter (\<lambda>c. grants (leaseAt L p (tx_get T s) c) a renew now) (jsSet shards)
    \<and> (\<forall>c. wellFormed c \<longrightarrow> leaseAt L p (tx_get T s') c
        = (if c \<in> set acquired then Some \<lparr>lease_address = a, expiresAt = now + expiration\<rparr>
           else leaseAt L p (tx_get T s) c))"
  using runner_store.lock_Inr(1,2) [OF assms] by blast

theorem lock_grants_exactly_witness:
  "\<exists>s1. lock mem_txn sampleRegistration sampleLease (openedRoot [9]) 30 (js ''a'') [js ''1''] False 5 [] = Inr ([js ''1''], s1)
     \<and> leaseAt sampleLease [9] (tx_get mem_txn s1) (js ''1'') = Some \<lparr>lease_address = js ''a'', expiresAt = 35\<rparr>"
proof -
  obtain s1 where "acquire mem_txn sampleRegistration sampleLease (openedRoot [9]) 30 (js ''a'') [js ''1''] 5 [] = Inr ([js ''1''], s1)"
    by (rule sample_acquire)
  then have s1: "lock mem_txn sampleRegistration sampleLease (openedRoot [9]) 30 (js ''a'') [js ''1''] False 5 [] = Inr ([js ''1''], s1)"
    by (simp add: acquire_def)
  have inv: "runner_inv sampleRegistration sampleLease [9] (tx_get mem_txn ([] :: mem))"
    by (rule runner_inv_empty) (simp add: mem_get)
  have "leaseAt sampleLease [9] (tx_get mem_txn s1) (js ''1'') = Some \<lparr>lease_address = js ''a'', expiresAt = 5 + 30\<rparr>"
    using lock_grants_exactly [OF memRunners.runner_store_axioms opensRoot_opened inv s1] wellFormed_js [of "''1''"] by auto
  with s1 show ?thesis by simp
qed

text \<open>C35. Registering again keeps the machine id of the runner; a new runner gets an id that no registered runner has;
  and registering fails for want of ids only when all 1024 are in use.\<close>

theorem register_outcome:
  assumes "runner_store T J L" and "opensRoot T rootDir p" and "runner_inv J L p (tx_get T s)"
    and "register T J rootDir a run health now s = res"
  shows "case res of
      Inr (m, s') \<Rightarrow> registrationAt J p (tx_get T s') a
          = Some \<lparr>runner = run, healthy = health, machineId = m, heartbeat = now\<rparr>
        \<and> (\<forall>q. registrationAt J p (tx_get T s) a = Some q \<longrightarrow> m = machineId q)
        \<and> (\<forall>b q. wellFormed b \<and> b \<noteq> a \<and> registrationAt J p (tx_get T s) b = Some q \<longrightarrow> machineId q \<noteq> m)
    | Inl (RunnerMachineIdsExhausted b n) \<Rightarrow> b = a \<and> registrationAt J p (tx_get T s) a = None
        \<and> (\<forall>m. 0 \<le> m \<and> m < 1024 \<longrightarrow> (\<exists>c q. wellFormed c \<and> registrationAt J p (tx_get T s) c = Some q \<and> machineId q = m))
    | Inl (RunnerStore e) \<Rightarrow> True"
proof (cases res)
  case (Inl e)
  then show ?thesis
    using runner_store.register_exhausted [OF assms(1-3)] assms(4)
    by (auto simp: machineIdCount_def split: runner_error.split)
next
  case (Inr r)
  obtain m s' where r: "r = (m, s')" by (cases r)
  note reg = runner_store.register_Inr [OF assms(1-3) assms(4) [unfolded Inr r]]
  have "machineId q \<noteq> m" if b: "wellFormed b" "b \<noteq> a" "registrationAt J p (tx_get T s) b = Some q" for b q
  proof
    assume "machineId q = m"
    then have "b = a" using reg(1,2,3) reg(5) [OF b(1,2)] b unfolding runner_inv_def by (metis registration.select_convs(3))
    with b(2) show False by simp
  qed
  with reg(3,4) show ?thesis by (auto simp: Inr r)
qed

theorem register_outcome_witness:
  "\<exists>s'. register mem_txn sampleRegistration (openedRoot [9]) (js ''a'') (js ''r'') True 5 [] = Inr (0, s')
     \<and> registrationAt sampleRegistration [9] (tx_get mem_txn s') (js ''a'')
        = Some \<lparr>runner = js ''r'', healthy = True, machineId = 0, heartbeat = 5\<rparr>"
proof -
  obtain s where s: "register mem_txn sampleRegistration (openedRoot [9]) (js ''a'') (js ''r'') True 5 [] = Inr (0, s)"
    by (rule sample_register)
  have inv: "runner_inv sampleRegistration sampleLease [9] (tx_get mem_txn ([] :: mem))"
    by (rule runner_inv_empty) (simp add: mem_get)
  show ?thesis using register_outcome [OF memRunners.runner_store_axioms opensRoot_opened inv s] s by auto
qed

end
