(* ===== verification/Rate_Limiter.thy ===== *)
theory Rate_Limiter
  imports Stored_Records
begin

text \<open>
  The rate limiter store, src/src/persistence/rate-limiter.ts. Each operation reads one record, decides,
  and writes at most one record in a transaction; the decision is a function of its own, so that its
  properties can be stated without the database. Numbers are rationals: times are milliseconds and token
  counts far below 2^53.
\<close>

section \<open>Data\<close>

definition adaptiveStateTtlGraceMillis :: rat where
  "adaptiveStateTtlGraceMillis = 60000"

definition adaptiveStateMaxWindowMillis :: rat where
  "adaptiveStateMaxWindowMillis = 3600000"

record fixed_counter =
  fixed_count :: rat
  fixed_expiresAt :: rat

record token_bucket =
  bucket_tokens :: rat
  lastRefill :: rat

datatype adaptive_phase = Inactive | Cooldown | Learning | Learned

record adaptive_state =
  phase :: adaptive_phase
  epoch :: rat
  cooldownUntil :: rat
  learningStartedAt :: rat
  observedTokens :: rat
  learnedLimit :: rat
  learnedWindowMillis :: rat
  adaptive_expiresAt :: rat

record rate_limiter_keys =
  fixed_keys :: subspace
  buckets :: subspace
  adaptive :: subspace

record adaptive_consume_result =
  result_delay :: rat
  result_epoch :: rat
  result_phase :: adaptive_phase

text \<open>An infinite duration (\<open>NotFinite\<close>) is clamped like a long one; durations are never NaN.\<close>

definition clampAdaptiveDurationMillis :: "js_number \<Rightarrow> rat" where
  "clampAdaptiveDurationMillis milliseconds =
    (case milliseconds of
       NotFinite \<Rightarrow> adaptiveStateMaxWindowMillis
     | Fin m \<Rightarrow> if m \<le> 0 then 1 else min m adaptiveStateMaxWindowMillis)"

definition cooldownExpiresAt :: "rat \<Rightarrow> rat" where
  "cooldownExpiresAt cooldown = cooldown + adaptiveStateTtlGraceMillis"

definition learningExpiresAt :: "rat \<Rightarrow> rat \<Rightarrow> rat" where
  "learningExpiresAt now fallbackWindow = now + fallbackWindow + adaptiveStateTtlGraceMillis"

definition learnedExpiresAt :: "rat \<Rightarrow> rat \<Rightarrow> rat" where
  "learnedExpiresAt now window = now + window + adaptiveStateTtlGraceMillis"

definition rateLimiterKeys ::
    "('s \<Rightarrow> store_error + subspace \<times> 's) \<Rightarrow> 's \<Rightarrow> store_error + rate_limiter_keys \<times> 's" where
  "rateLimiterKeys rootDir s =
    bindR (rootDir s) (\<lambda>(directory, s).
    bindR (liftKey (subspace directory [Str (js ''fixed'')])) (\<lambda>fixed.
    bindR (liftKey (subspace directory [Str (js ''buckets'')])) (\<lambda>buckets.
    bindR (liftKey (subspace directory [Str (js ''adaptive'')])) (\<lambda>adaptive.
      Inr (\<lparr>fixed_keys = fixed, buckets = buckets, adaptive = adaptive\<rparr>, s)))))"

section \<open>fixedWindow\<close>

text \<open>The counter to store, if any, and the pair returned: the count and the time to the end of the window.\<close>

definition fixedWindowStep ::
    "fixed_counter option \<Rightarrow> rat \<Rightarrow> rat option \<Rightarrow> rat \<Rightarrow> rat \<Rightarrow> fixed_counter option \<times> rat \<times> rat" where
  "fixedWindowStep counter tokens limit refillRate now =
    (let counter = (case counter of
         None \<Rightarrow> \<lparr>fixed_count = 0, fixed_expiresAt = now\<rparr>
       | Some c \<Rightarrow> if fixed_expiresAt c \<le> now then \<lparr>fixed_count = 0, fixed_expiresAt = now\<rparr> else c);
       nextCount = fixed_count counter + tokens in
     if (case limit of Some l \<Rightarrow> l < nextCount | None \<Rightarrow> False) then
       (None, nextCount, max 0 (fixed_expiresAt counter - now))
     else
       let updated = \<lparr>fixed_count = nextCount, fixed_expiresAt = fixed_expiresAt counter + refillRate * tokens\<rparr> in
       (Some updated, fixed_count updated, max 0 (fixed_expiresAt updated - now)))"

definition fixedWindow ::
    "'s txn \<Rightarrow> fixed_counter json_codec \<Rightarrow> ('s \<Rightarrow> store_error + subspace \<times> 's) \<Rightarrow> js_string \<Rightarrow> rat \<Rightarrow> rat option
      \<Rightarrow> rat \<Rightarrow> rat \<Rightarrow> 's \<Rightarrow> store_error + (rat \<times> rat) \<times> 's" where
  "fixedWindow T J rootDir rateKey tokens limit refillRate now s =
    bindR (rateLimiterKeys rootDir s) (\<lambda>(keys, s).
    bindR (liftKey (subspace_pack (fixed_keys keys) [Str rateKey])) (\<lambda>key.
    bindR (readRecord T J s key) (\<lambda>counter.
    let (updated, result) = fixedWindowStep counter tokens limit refillRate now in
    Inr (result, case updated of None \<Rightarrow> s | Some c \<Rightarrow> writeRecord T J key c s))))"

section \<open>tokenBucket\<close>

definition tokenBucketStep ::
    "token_bucket option \<Rightarrow> rat \<Rightarrow> rat \<Rightarrow> rat \<Rightarrow> bool \<Rightarrow> rat \<Rightarrow> token_bucket option \<times> rat \<times> rat" where
  "tokenBucketStep encoded tokens limit refillRateMillis allowOverflow now =
    (let bucket = (case encoded of None \<Rightarrow> \<lparr>bucket_tokens = limit, lastRefill = now\<rparr> | Some b \<Rightarrow> b);
       tokensToAdd = of_int \<lfloor>(now - lastRefill bucket) / refillRateMillis\<rfloor>;
       bucket = (if 0 < tokensToAdd
         then \<lparr>bucket_tokens = min limit (bucket_tokens bucket + tokensToAdd),
               lastRefill = lastRefill bucket + tokensToAdd * refillRateMillis\<rparr>
         else bucket);
       bucket = (if limit \<le> bucket_tokens bucket then bucket\<lparr>lastRefill := now\<rparr> else bucket);
       remaining = bucket_tokens bucket - tokens in
     if allowOverflow \<or> 0 \<le> remaining then
       (Some (bucket\<lparr>bucket_tokens := remaining\<rparr>), remaining, max 0 (now - lastRefill bucket))
     else if encoded = None then (Some bucket, remaining, max 0 (now - lastRefill bucket))
     else if 0 < tokensToAdd \<or> lastRefill bucket = now then
       (Some bucket, remaining, max 0 (now - lastRefill bucket))
     else (None, remaining, max 0 (now - lastRefill bucket)))"

definition tokenBucket ::
    "'s txn \<Rightarrow> token_bucket json_codec \<Rightarrow> ('s \<Rightarrow> store_error + subspace \<times> 's) \<Rightarrow> js_string \<Rightarrow> rat \<Rightarrow> rat
      \<Rightarrow> rat \<Rightarrow> bool \<Rightarrow> rat \<Rightarrow> 's \<Rightarrow> store_error + (rat \<times> rat) \<times> 's" where
  "tokenBucket T J rootDir rateKey tokens limit refillRate allowOverflow now s =
    bindR (rateLimiterKeys rootDir s) (\<lambda>(keys, s).
    bindR (liftKey (subspace_pack (buckets keys) [Str rateKey])) (\<lambda>key.
    bindR (readRecord T J s key) (\<lambda>encoded.
    let (updated, result) = tokenBucketStep encoded tokens limit refillRate allowOverflow now in
    Inr (result, case updated of None \<Rightarrow> s | Some b \<Rightarrow> writeRecord T J key b s))))"

section \<open>adaptiveConsume\<close>

text \<open>What happens to the stored record: it is left alone, cleared, or replaced.\<close>

datatype 'a update = Keep | ClearRecord | Store 'a

definition applyUpdate :: "'s txn \<Rightarrow> 'a json_codec \<Rightarrow> bytes \<Rightarrow> 'a update \<Rightarrow> 's \<Rightarrow> 's" where
  "applyUpdate T J key u s =
    (case u of Keep \<Rightarrow> s | ClearRecord \<Rightarrow> tx_clear T key s | Store a \<Rightarrow> writeRecord T J key a s)"

definition adaptiveConsumeState ::
    "adaptive_state \<Rightarrow> rat \<Rightarrow> rat \<Rightarrow> rat \<Rightarrow> adaptive_state update \<times> adaptive_consume_result" where
  "adaptiveConsumeState state tokens fallbackWindow now =
    (case phase state of
       Cooldown \<Rightarrow>
         if now < cooldownUntil state then
           (Keep, \<lparr>result_delay = cooldownUntil state - now, result_epoch = epoch state, result_phase = Cooldown\<rparr>)
         else
           let state = state\<lparr>phase := Learning, epoch := epoch state + 1, learningStartedAt := now,
                 observedTokens := tokens, adaptive_expiresAt := learningExpiresAt now fallbackWindow\<rparr> in
           (Store state, \<lparr>result_delay = 0, result_epoch = epoch state, result_phase = phase state\<rparr>)
     | Learning \<Rightarrow>
         let state = state\<lparr>observedTokens := observedTokens state + tokens\<rparr> in
         (Store state, \<lparr>result_delay = 0, result_epoch = epoch state, result_phase = phase state\<rparr>)
     | Learned \<Rightarrow>
         let refillRateMillis = learnedWindowMillis state / learnedLimit state;
             observed = (if cooldownUntil state \<le> now then tokens else observedTokens state + tokens);
             cooldown = (if cooldownUntil state \<le> now then now else cooldownUntil state)
               + refillRateMillis * tokens;
             ttl = cooldown - now;
             ttlTotal = observed * refillRateMillis;
             elapsed = ttlTotal - ttl;
             windowNumber = of_int \<lfloor>(observed - 1) / learnedLimit state\<rfloor>;
             remaining = windowNumber * learnedWindowMillis state - elapsed;
             state = state\<lparr>observedTokens := observed, cooldownUntil := cooldown\<rparr> in
         (Store state, \<lparr>result_delay = (if remaining \<le> 0 then 0 else remaining),
            result_epoch = epoch state, result_phase = phase state\<rparr>)
     | Inactive \<Rightarrow>
         (Store state, \<lparr>result_delay = 0, result_epoch = epoch state, result_phase = phase state\<rparr>))"

definition adaptiveConsumeStep ::
    "adaptive_state option \<Rightarrow> rat \<Rightarrow> rat \<Rightarrow> rat \<Rightarrow> adaptive_state update \<times> adaptive_consume_result" where
  "adaptiveConsumeStep encoded tokens fallbackWindow now =
    (case encoded of
       None \<Rightarrow> (Keep, \<lparr>result_delay = 0, result_epoch = 0, result_phase = Inactive\<rparr>)
     | Some state \<Rightarrow>
         if adaptive_expiresAt state \<le> now then
           (ClearRecord, \<lparr>result_delay = 0, result_epoch = 0, result_phase = Inactive\<rparr>)
         else adaptiveConsumeState state tokens fallbackWindow now)"

definition adaptiveConsume ::
    "'s txn \<Rightarrow> adaptive_state json_codec \<Rightarrow> ('s \<Rightarrow> store_error + subspace \<times> 's) \<Rightarrow> js_string \<Rightarrow> rat \<Rightarrow> rat
      \<Rightarrow> rat \<Rightarrow> 's \<Rightarrow> store_error + adaptive_consume_result \<times> 's" where
  "adaptiveConsume T J rootDir rateKey tokens fallbackWindow now s =
    bindR (rateLimiterKeys rootDir s) (\<lambda>(keys, s).
    bindR (liftKey (subspace_pack (adaptive keys) [Str rateKey])) (\<lambda>key.
    bindR (readRecord T J s key) (\<lambda>encoded.
    let (u, result) = adaptiveConsumeStep encoded tokens fallbackWindow now in
    Inr (result, applyUpdate T J key u s))))"

section \<open>adaptiveFeedback\<close>

definition cooldownState :: "rat \<Rightarrow> rat \<Rightarrow> adaptive_state" where
  "cooldownState e cooldown =
    \<lparr>phase = Cooldown, epoch = e, cooldownUntil = cooldown, learningStartedAt = 0, observedTokens = 0,
     learnedLimit = 0, learnedWindowMillis = 0, adaptive_expiresAt = cooldownExpiresAt cooldown\<rparr>"

definition adaptiveFeedbackState ::
    "adaptive_state \<Rightarrow> rat \<Rightarrow> rat \<Rightarrow> rat \<Rightarrow> rat \<Rightarrow> adaptive_state update" where
  "adaptiveFeedbackState state feedbackEpoch tokens retryAfterMillis now =
    (let cooldown = now + retryAfterMillis in
     if epoch state \<noteq> feedbackEpoch then Keep
     else (case phase state of
       Cooldown \<Rightarrow>
         let nextCooldown = max (cooldownUntil state) cooldown in
         Store (state\<lparr>cooldownUntil := nextCooldown, adaptive_expiresAt := cooldownExpiresAt nextCooldown\<rparr>)
     | Learning \<Rightarrow>
         let acceptedTokens = observedTokens state - tokens in
         if acceptedTokens \<le> 0 then Store (cooldownState (epoch state) cooldown)
         else
           let window = clampAdaptiveDurationMillis (Fin (now - learningStartedAt state + retryAfterMillis)) in
           Store \<lparr>phase = Learned, epoch = epoch state + 1, cooldownUntil = learningStartedAt state + window,
             learningStartedAt = learningStartedAt state, observedTokens = acceptedTokens,
             learnedLimit = acceptedTokens, learnedWindowMillis = window,
             adaptive_expiresAt = learnedExpiresAt now window\<rparr>
     | Learned \<Rightarrow> Store (cooldownState (epoch state) cooldown)
     | Inactive \<Rightarrow> Store state))"

definition adaptiveFeedbackStep ::
    "adaptive_state option \<Rightarrow> rat \<Rightarrow> rat \<Rightarrow> rat \<Rightarrow> rat \<Rightarrow> adaptive_state update" where
  "adaptiveFeedbackStep encoded feedbackEpoch tokens retryAfterMillis now =
    (case encoded of
       None \<Rightarrow> if feedbackEpoch \<noteq> 0 then Keep else Store (cooldownState 0 (now + retryAfterMillis))
     | Some state \<Rightarrow>
         if adaptive_expiresAt state \<le> now then
           (if feedbackEpoch \<noteq> 0 then ClearRecord else Store (cooldownState 0 (now + retryAfterMillis)))
         else adaptiveFeedbackState state feedbackEpoch tokens retryAfterMillis now)"

definition adaptiveFeedback ::
    "'s txn \<Rightarrow> adaptive_state json_codec \<Rightarrow> ('s \<Rightarrow> store_error + subspace \<times> 's) \<Rightarrow> js_string \<Rightarrow> int \<Rightarrow> js_number option
      \<Rightarrow> rat \<Rightarrow> rat \<Rightarrow> rat \<Rightarrow> 's \<Rightarrow> store_error + 's" where
  "adaptiveFeedback T J rootDir rateKey status retryAfter feedbackEpoch tokens now s =
    (case (if status = 429 then retryAfter else None) of
       None \<Rightarrow> Inr s
     | Some r \<Rightarrow>
         bindR (rateLimiterKeys rootDir s) (\<lambda>(keys, s).
         bindR (liftKey (subspace_pack (adaptive keys) [Str rateKey])) (\<lambda>key.
         bindR (readRecord T J s key) (\<lambda>encoded.
         Inr (applyUpdate T J key
           (adaptiveFeedbackStep encoded feedbackEpoch tokens (clampAdaptiveDurationMillis r) now) s)))))"

end
