(* ===== verification/Rate_Properties.thy ===== *)
theory Rate_Properties
  imports Rate_Limiter Runner_Properties
begin

text \<open>
  What the rate limiter guarantees: a token bucket never grants more than its capacity plus what was
  refilled since, a fixed window never counts past its limit, and the adaptive limiter moves between its
  phases as a state machine whose epoch tells stale feedback from current.
\<close>

section \<open>Token buckets\<close>

definition afterStep :: "'a option \<Rightarrow> 'a option \<Rightarrow> 'a option" where
  "afterStep old u = (case u of None \<Rightarrow> old | Some a \<Rightarrow> Some a)"

text \<open>
  The accounting of a bucket: the tokens granted so far and those left are at most the capacity plus one
  token per refill period that has passed up to the last refill.
\<close>

definition bucket_ok :: "rat \<Rightarrow> rat \<Rightarrow> rat \<Rightarrow> rat \<Rightarrow> rat \<Rightarrow> token_bucket \<Rightarrow> bool" where
  "bucket_ok limit rate start now granted b \<longleftrightarrow>
     lastRefill b \<le> now \<and> start \<le> lastRefill b \<and> 0 \<le> bucket_tokens b \<and> bucket_tokens b \<le> limit
   \<and> granted + bucket_tokens b \<le> limit + (lastRefill b - start) / rate"

lemma bucket_step:
  assumes ok: "\<And>b. encoded = Some b \<Longrightarrow> bucket_ok limit rate start now granted b"
    and fresh: "encoded = None \<Longrightarrow> granted = 0 \<and> start \<le> now"
    and rate: "0 < rate" and tokens: "0 \<le> tokens" and limit: "0 \<le> limit"
    and step: "tokenBucketStep encoded tokens limit rate False now = (u, remaining, age)"
  defines "g \<equiv> granted + (if 0 \<le> remaining then tokens else 0)"
  shows "\<exists>b. afterStep encoded u = Some b \<and> bucket_ok limit rate start now g b"
proof -
  define b0 where "b0 = (case encoded of None \<Rightarrow> \<lparr>bucket_tokens = limit, lastRefill = now\<rparr> | Some b \<Rightarrow> b)"
  have b0: "bucket_ok limit rate start now granted b0"
    using ok fresh rate limit by (cases encoded) (auto simp: b0_def bucket_ok_def)
  define k :: rat where "k = of_int \<lfloor>(now - lastRefill b0) / rate\<rfloor>"
  have k: "k \<le> (now - lastRefill b0) / rate" "k * rate \<le> now - lastRefill b0"
  proof -
    show "k \<le> (now - lastRefill b0) / rate" unfolding k_def by (rule of_int_floor_le)
    then show "k * rate \<le> now - lastRefill b0" using rate by (simp add: pos_le_divide_eq)
  qed
  define b1 where "b1 = (if 0 < k then \<lparr>bucket_tokens = min limit (bucket_tokens b0 + k),
               lastRefill = lastRefill b0 + k * rate\<rparr> else b0)"
  have b1: "bucket_ok limit rate start now granted b1"
  proof (cases "0 < k")
    case True
    then have "0 \<le> k * rate" using rate by simp
    moreover from this b0 have "start \<le> lastRefill b0 + k * rate" by (simp add: bucket_ok_def)
    ultimately show ?thesis using b0 k rate True by (auto simp: b1_def bucket_ok_def add_divide_distrib diff_divide_distrib)
  qed (use b0 in \<open>simp add: b1_def\<close>)
  define b2 where "b2 = (if limit \<le> bucket_tokens b1 then b1\<lparr>lastRefill := now\<rparr> else b1)"
  have b2: "bucket_ok limit rate start now granted b2"
  proof (cases "limit \<le> bucket_tokens b1")
    case True
    have "(lastRefill b1 - start) / rate \<le> (now - start) / rate"
      using b1 rate by (intro divide_right_mono) (auto simp: bucket_ok_def)
    then show ?thesis using b1 True by (auto simp: b2_def bucket_ok_def)
  qed (use b1 in \<open>simp add: b2_def\<close>)
  have rem: "remaining = bucket_tokens b2 - tokens"
    and u: "u = (if 0 \<le> remaining then Some (b2\<lparr>bucket_tokens := remaining\<rparr>)
      else if encoded = None \<or> 0 < k \<or> lastRefill b2 = now then Some b2 else None)"
    using step unfolding tokenBucketStep_def Let_def b0_def [symmetric] k_def [symmetric] b1_def [symmetric]
      b2_def [symmetric]
    by (auto split: if_splits)
  show ?thesis
  proof (cases "0 \<le> remaining")
    case True
    then show ?thesis using b2 tokens by (auto simp: u g_def afterStep_def bucket_ok_def rem)
  next
    case False
    then have g: "g = granted" by (simp add: g_def)
    show ?thesis
    proof (cases "encoded = None \<or> 0 < k \<or> lastRefill b2 = now")
      case True
      with False b2 show ?thesis by (auto simp: u g afterStep_def)
    next
      case other: False
      then obtain b where "encoded = Some b" by (cases encoded) auto
      with other False ok show ?thesis by (auto simp: u g afterStep_def)
    qed
  qed
qed

text \<open>The requests of the clients of one bucket, as transactions one after the other; the tokens granted.\<close>

fun consumeAll ::
    "'s txn \<Rightarrow> token_bucket json_codec \<Rightarrow> ('s \<Rightarrow> store_error + subspace \<times> 's) \<Rightarrow> js_string \<Rightarrow> rat \<Rightarrow> rat
      \<Rightarrow> (rat \<times> rat) list \<Rightarrow> 's \<Rightarrow> store_error + rat \<times> 's" where
  "consumeAll T J rootDir rateKey limit rate [] s = Inr (0, s)"
| "consumeAll T J rootDir rateKey limit rate ((now, tokens) # requests) s =
    bindR (tokenBucket T J rootDir rateKey tokens limit rate False now s) (\<lambda>((remaining, age), s).
    bindR (consumeAll T J rootDir rateKey limit rate requests s) (\<lambda>(granted, s).
      Inr ((if 0 \<le> remaining then tokens else 0) + granted, s)))"

lemma rateKeys_at:
  assumes "opensRoot T rootDir p" and "rateLimiterKeys rootDir s = Inr (keys, s')"
  shows "prefix_bytes (fixed_keys keys) = K p ''fixed'' []" and "prefix_bytes (buckets keys) = K p ''buckets'' []"
    and "prefix_bytes (adaptive keys) = K p ''adaptive'' []"
    and "prefix p k \<Longrightarrow> tx_get T s' k = tx_get T s k"
  using assms by (auto simp: rateLimiterKeys_def opensRoot_def bindR_eq_Inr dest!: child_at)

locale bucket_store = fdb T + json_codec J
  for T :: "'s txn" and J :: "token_bucket json_codec"
begin

lemma tokenBucket_Inr:
  assumes o: "opensRoot T rootDir p"
    and r: "tokenBucket T J rootDir rateKey tokens limit rate overflow now s = Inr (res, s')"
  defines "old \<equiv> recordOf J (tx_get T s (K p ''buckets'' [Str rateKey]))"
  shows "wellFormed rateKey \<and> (\<exists>u. tokenBucketStep old tokens limit rate overflow now = (u, res)
    \<and> recordOf J (tx_get T s' (K p ''buckets'' [Str rateKey])) = afterStep old u)"
proof -
  obtain keys s1 where k: "rateLimiterKeys rootDir s = Inr (keys, s1)"
    using r by (auto simp: tokenBucket_def bindR_eq_Inr)
  note kk = rateKeys_at [OF o k]
  obtain e where a: "wellFormed rateKey" and e: "readRecord T J s1 (K p ''buckets'' [Str rateKey]) = Inr e"
    using r k by (auto simp: tokenBucket_def bindR_eq_Inr pack_at [OF kk(2)])
  obtain u r1 where u: "tokenBucketStep e tokens limit rate overflow now = (u, r1)"
    by (cases "tokenBucketStep e tokens limit rate overflow now")
  have s': "res = r1" "s' = (case u of None \<Rightarrow> s1 | Some b \<Rightarrow> writeRecord T J (K p ''buckets'' [Str rateKey]) b s1)"
    using r k a e u by (auto simp: tokenBucket_def pack_at [OF kk(2), THEN iffD2])
  have same: "tx_get T s1 (K p ''buckets'' [Str rateKey]) = tx_get T s (K p ''buckets'' [Str rateKey])"
    using rateKeys_at(4) [OF o k] by simp
  then have "e = old" using readRecord_Inr [OF e] by (simp add: old_def)
  with s' a same u show ?thesis
    by (cases u) (auto simp: afterStep_def writeRecord_fun old_def)
qed

lemma consumeAll_bound:
  assumes o: "opensRoot T rootDir p" and rate: "0 < rate" and limit: "0 \<le> limit"
    and times: "sorted (map fst requests)" "\<And>t n. (t, n) \<in> set requests \<Longrightarrow> now \<le> t \<and> t \<le> until \<and> 0 \<le> n"
    and r: "consumeAll T J rootDir rateKey limit rate requests s = Inr (g, s')"
    and ok: "\<And>b. recordOf J (tx_get T s (K p ''buckets'' [Str rateKey])) = Some b \<Longrightarrow> bucket_ok limit rate start now granted b"
    and fresh: "recordOf J (tx_get T s (K p ''buckets'' [Str rateKey])) = None \<Longrightarrow> granted = 0 \<and> start \<le> now"
    and "0 \<le> granted" and "now \<le> until"
  shows "granted + g \<le> limit + (until - start) / rate"
  using times r ok fresh \<open>0 \<le> granted\<close> \<open>now \<le> until\<close>
proof (induction requests arbitrary: s now granted g)
  case Nil
  show ?case
  proof (cases "recordOf J (tx_get T s (K p ''buckets'' [Str rateKey]))")
    case None
    then have "0 \<le> (until - start) / rate" using Nil rate by (intro divide_nonneg_pos) auto
    with None Nil limit show ?thesis by simp
  next
    case (Some b)
    have "(lastRefill b - start) / rate \<le> (until - start) / rate"
      using Nil.prems(4) [OF Some] Nil.prems(7) rate by (intro divide_right_mono) (auto simp: bucket_ok_def)
    then show ?thesis using Nil.prems Some by (auto simp: bucket_ok_def)
  qed
next
  case (Cons req requests)
  obtain t n where req: "req = (t, n)" by (cases req)
  obtain remaining age s1 g1 where one: "tokenBucket T J rootDir rateKey n limit rate False t s = Inr ((remaining, age), s1)"
    and rest: "consumeAll T J rootDir rateKey limit rate requests s1 = Inr (g1, s')"
    and g: "g = (if 0 \<le> remaining then n else 0) + g1"
    using Cons.prems(3) by (auto simp: req bindR_eq_Inr)
  obtain u where u: "tokenBucketStep (recordOf J (tx_get T s (K p ''buckets'' [Str rateKey]))) n limit rate False t = (u, remaining, age)"
    "recordOf J (tx_get T s1 (K p ''buckets'' [Str rateKey])) = afterStep (recordOf J (tx_get T s (K p ''buckets'' [Str rateKey]))) u"
    using tokenBucket_Inr [OF o one] by auto
  have t: "now \<le> t" "t \<le> until" "0 \<le> n" using Cons.prems(2) [of t n] by (auto simp: req)
  let ?gr = "granted + (if 0 \<le> remaining then n else 0)"
  have later: "bucket_ok limit rate start t granted b" if "bucket_ok limit rate start now granted b" for b
    using that t(1) by (auto simp: bucket_ok_def)
  have "\<exists>b. afterStep (recordOf J (tx_get T s (K p ''buckets'' [Str rateKey]))) u = Some b \<and> bucket_ok limit rate start t ?gr b"
    by (rule bucket_step [OF _ _ rate t(3) limit u(1)]) (use Cons.prems(4,5) later t(1) in \<open>auto intro: order_trans\<close>)
  then obtain b where b: "recordOf J (tx_get T s1 (K p ''buckets'' [Str rateKey])) = Some b" "bucket_ok limit rate start t ?gr b"
    using u(2) by auto
  have "?gr + g1 \<le> limit + (until - start) / rate"
    by (rule Cons.IH [OF _ _ rest]) (use Cons.prems(1,2,6) b t in \<open>auto simp: req\<close>)
  then show ?case by (simp add: g add.assoc)
qed

end

section \<open>Fixed windows\<close>

text \<open>The count a request starts from: that of the stored window unless it has ended.\<close>

definition windowOf :: "fixed_counter option \<Rightarrow> rat \<Rightarrow> fixed_counter" where
  "windowOf c now = (case c of
     Some c \<Rightarrow> if now < fixed_expiresAt c then c else \<lparr>fixed_count = 0, fixed_expiresAt = now\<rparr>
   | None \<Rightarrow> \<lparr>fixed_count = 0, fixed_expiresAt = now\<rparr>)"

lemma fixedWindowStep_windowOf:
  "fixedWindowStep c tokens limit rate now =
    (let w = windowOf c now; n = fixed_count w + tokens in
     if (case limit of Some l \<Rightarrow> l < n | None \<Rightarrow> False) then (None, n, max 0 (fixed_expiresAt w - now))
     else (Some \<lparr>fixed_count = n, fixed_expiresAt = fixed_expiresAt w + rate * tokens\<rparr>, n,
           max 0 (fixed_expiresAt w + rate * tokens - now)))"
  by (cases c) (auto simp: fixedWindowStep_def windowOf_def Let_def)

locale window_store = fdb T + json_codec J
  for T :: "'s txn" and J :: "fixed_counter json_codec"
begin

lemma fixedWindow_Inr:
  assumes o: "opensRoot T rootDir p"
    and r: "fixedWindow T J rootDir rateKey tokens limit rate now s = Inr ((n, ttl), s')"
  defines "w \<equiv> windowOf (recordOf J (tx_get T s (K p ''fixed'' [Str rateKey]))) now"
  shows "n = fixed_count w + tokens"
    and "recordOf J (tx_get T s' (K p ''fixed'' [Str rateKey])) =
      (if (case limit of Some l \<Rightarrow> l < n | None \<Rightarrow> False) then recordOf J (tx_get T s (K p ''fixed'' [Str rateKey]))
       else Some \<lparr>fixed_count = n, fixed_expiresAt = fixed_expiresAt w + rate * tokens\<rparr>)"
    and "prefix p k \<Longrightarrow> k \<noteq> K p ''fixed'' [Str rateKey] \<Longrightarrow> tx_get T s' k = tx_get T s k"
proof -
  obtain keys s1 where k1: "rateLimiterKeys rootDir s = Inr (keys, s1)"
    using r by (auto simp: fixedWindow_def bindR_eq_Inr)
  note kk = rateKeys_at [OF o k1]
  obtain e where a: "wellFormed rateKey" and e: "readRecord T J s1 (K p ''fixed'' [Str rateKey]) = Inr e"
    using r k1 by (auto simp: fixedWindow_def bindR_eq_Inr pack_at [OF kk(1)])
  have same: "tx_get T s1 (K p ''fixed'' [Str rateKey]) = tx_get T s (K p ''fixed'' [Str rateKey])"
    using kk(4) by simp
  have e': "e = recordOf J (tx_get T s (K p ''fixed'' [Str rateKey]))" using readRecord_Inr [OF e] same by simp
  obtain u n1 t1 where u: "fixedWindowStep e tokens limit rate now = (u, n1, t1)"
    by (cases "fixedWindowStep e tokens limit rate now")
  have s': "n1 = n" "s' = (case u of None \<Rightarrow> s1 | Some b \<Rightarrow> writeRecord T J (K p ''fixed'' [Str rateKey]) b s1)"
    using r k1 a e u by (auto simp: fixedWindow_def pack_at [OF kk(1), THEN iffD2])
  have step: "n = fixed_count w + tokens" "u = (if (case limit of Some l \<Rightarrow> l < n | None \<Rightarrow> False) then None
      else Some \<lparr>fixed_count = n, fixed_expiresAt = fixed_expiresAt w + rate * tokens\<rparr>)"
    using u s'(1) by (auto simp: fixedWindowStep_windowOf e' w_def [symmetric] Let_def split: if_splits)
  show "n = fixed_count w + tokens" by (rule step(1))
  show "recordOf J (tx_get T s' (K p ''fixed'' [Str rateKey])) =
      (if (case limit of Some l \<Rightarrow> l < n | None \<Rightarrow> False) then recordOf J (tx_get T s (K p ''fixed'' [Str rateKey]))
       else Some \<lparr>fixed_count = n, fixed_expiresAt = fixed_expiresAt w + rate * tokens\<rparr>)"
    using s'(2) same by (simp add: step(2) writeRecord_fun)
  show "prefix p k \<Longrightarrow> k \<noteq> K p ''fixed'' [Str rateKey] \<Longrightarrow> tx_get T s' k = tx_get T s k"
    using s'(2) kk(4) by (cases u) (simp_all add: writeRecord_fun)
qed

end

section \<open>Adaptive limits\<close>

definition applied :: "'a option \<Rightarrow> 'a update \<Rightarrow> 'a option" where
  "applied old u = (case u of Keep \<Rightarrow> old | ClearRecord \<Rightarrow> None | Store a \<Rightarrow> Some a)"

text \<open>The states of one key under any sequence of consumes and feedbacks, with the time of the last one.\<close>

inductive adaptive_run :: "adaptive_state option \<Rightarrow> rat \<Rightarrow> bool" where
  adaptive_start: "adaptive_run None now"
| adaptive_consume: "adaptive_run st before \<Longrightarrow> before \<le> now \<Longrightarrow> 0 < tokens \<Longrightarrow>
    adaptiveConsumeStep st tokens fallbackWindow now = (u, res) \<Longrightarrow> adaptive_run (applied st u) now"
| adaptive_feedback: "adaptive_run st before \<Longrightarrow> before \<le> now \<Longrightarrow>
    adaptive_run (applied st (adaptiveFeedbackStep st e tokens (clampAdaptiveDurationMillis r) now)) now"

definition adaptive_ok :: "adaptive_state \<Rightarrow> rat \<Rightarrow> bool" where
  "adaptive_ok a now \<longleftrightarrow> phase a \<noteq> Inactive \<and> epoch a \<in> \<int> \<and> 0 \<le> epoch a
   \<and> (phase a = Cooldown \<longrightarrow> adaptive_expiresAt a = cooldownUntil a + adaptiveStateTtlGraceMillis
        \<and> cooldownUntil a \<le> now + adaptiveStateMaxWindowMillis)
   \<and> (phase a = Learning \<longrightarrow> learningStartedAt a \<le> now \<and> 0 < observedTokens a)
   \<and> (phase a = Learned \<longrightarrow> 0 < learnedLimit a \<and> 0 < learnedWindowMillis a
        \<and> learnedWindowMillis a \<le> adaptiveStateMaxWindowMillis)"

lemma clamp_bounds: "0 < clampAdaptiveDurationMillis r" "clampAdaptiveDurationMillis r \<le> adaptiveStateMaxWindowMillis"
  by (cases r; simp add: clampAdaptiveDurationMillis_def adaptiveStateMaxWindowMillis_def)+

lemma adaptive_ok_later: "adaptive_ok a t \<Longrightarrow> t \<le> now \<Longrightarrow> adaptive_ok a now"
  by (auto simp: adaptive_ok_def)

lemma cooldownState_ok:
  "e \<in> \<int> \<Longrightarrow> 0 \<le> e \<Longrightarrow> c \<le> now + adaptiveStateMaxWindowMillis \<Longrightarrow> adaptive_ok (cooldownState e c) now"
  by (simp add: adaptive_ok_def cooldownState_def cooldownExpiresAt_def)

lemma adaptiveConsume_ok:
  assumes "adaptive_ok a now" and "0 < tokens" and "adaptiveConsumeState a tokens fb now = (Store b, res)"
  shows "adaptive_ok b now"
  using assms
  by (cases "phase a") (auto simp: adaptiveConsumeState_def adaptive_ok_def Let_def split: if_splits)

lemma adaptiveFeedback_ok:
  assumes ok: "adaptive_ok a now" and r: "0 < retry" "retry \<le> adaptiveStateMaxWindowMillis"
    and f: "adaptiveFeedbackState a e tokens retry now = Store b"
  shows "adaptive_ok b now"
proof (cases "phase a")
  case Learning
  show ?thesis
  proof (cases "observedTokens a - tokens \<le> 0")
    case True
    then show ?thesis
      using f Learning ok r by (auto simp: adaptiveFeedbackState_def adaptive_ok_def cooldownState_ok Let_def
          cooldownState_def cooldownExpiresAt_def split: if_splits)
  next
    case False
    then show ?thesis
      using f Learning ok r clamp_bounds [of "Fin (now - learningStartedAt a + retry)"]
      by (auto simp: adaptiveFeedbackState_def adaptive_ok_def Let_def split: if_splits)
  qed
qed (use f ok r in \<open>auto simp: adaptiveFeedbackState_def adaptive_ok_def Let_def cooldownState_def
    cooldownExpiresAt_def split: if_splits\<close>)

lemma adaptive_run_ok: "adaptive_run st now \<Longrightarrow> st = Some a \<Longrightarrow> adaptive_ok a now"
proof (induction arbitrary: a rule: adaptive_run.induct)
  case (adaptive_consume st before now tokens fb u res)
  then have ok: "adaptive_ok b now" if "st = Some b" for b using that by (auto intro: adaptive_ok_later)
  show ?case
    using adaptive_consume.hyps(4) adaptive_consume.prems ok adaptiveConsume_ok [OF ok adaptive_consume.hyps(3)]
    by (cases st; cases u) (auto simp: adaptiveConsumeStep_def applied_def split: if_splits)
next
  case (adaptive_feedback st before now e tokens r)
  then have ok: "adaptive_ok b now" if "st = Some b" for b using that by (auto intro: adaptive_ok_later)
  let ?u = "adaptiveFeedbackStep st e tokens (clampAdaptiveDurationMillis r) now"
  have cool: "adaptive_ok (cooldownState 0 (now + clampAdaptiveDurationMillis r)) now"
    using clamp_bounds [of r] by (intro cooldownState_ok) simp_all
  show ?case
    using adaptive_feedback.prems ok adaptiveFeedback_ok [OF ok clamp_bounds] cool
    by (cases st; cases ?u) (auto simp: adaptiveFeedbackStep_def applied_def split: if_splits)
qed simp

text \<open>The edges of the state machine, with what they do to the epoch.\<close>

inductive adaptive_edge :: "adaptive_state option \<Rightarrow> adaptive_state option \<Rightarrow> bool" where
  edge_none: "adaptive_edge None None"
| edge_first: "phase b = Cooldown \<Longrightarrow> epoch b = 0 \<Longrightarrow> adaptive_edge None (Some b)"
| edge_same: "phase b = phase a \<Longrightarrow> epoch b = epoch a \<Longrightarrow> adaptive_edge (Some a) (Some b)"
| edge_learn: "phase a = Cooldown \<Longrightarrow> phase b = Learning \<Longrightarrow> epoch b = epoch a + 1 \<Longrightarrow> adaptive_edge (Some a) (Some b)"
| edge_learned: "phase a = Learning \<Longrightarrow> phase b = Learned \<Longrightarrow> epoch b = epoch a + 1 \<Longrightarrow> adaptive_edge (Some a) (Some b)"
| edge_limited: "phase a \<in> {Learning, Learned} \<Longrightarrow> phase b = Cooldown \<Longrightarrow> epoch b = epoch a \<Longrightarrow> adaptive_edge (Some a) (Some b)"

inductive_simps adaptive_edge_simps:
  "adaptive_edge None st" "adaptive_edge (Some a) (Some b)"

text \<open>The record a step starts from: an expired one counts as absent.\<close>

definition current :: "adaptive_state option \<Rightarrow> rat \<Rightarrow> adaptive_state option" where
  "current st now = (case st of None \<Rightarrow> None | Some a \<Rightarrow> if adaptive_expiresAt a \<le> now then None else Some a)"

lemma consume_edge:
  "adaptiveConsumeStep st tokens fb now = (u, res) \<Longrightarrow> adaptive_edge (current st now) (applied st u)"
  by (cases st)
    (auto simp: adaptiveConsumeStep_def adaptiveConsumeState_def current_def applied_def Let_def
      adaptive_edge_simps split: if_splits adaptive_phase.splits)

lemma feedback_edge:
  "adaptive_edge (current st now) (applied st (adaptiveFeedbackStep st e tokens r now))"
  by (cases st)
    (auto simp: adaptiveFeedbackStep_def adaptiveFeedbackState_def current_def applied_def Let_def cooldownState_def
      adaptive_edge_simps split: adaptive_phase.split)

section \<open>Sample schemas\<close>

definition sampleBucket :: "token_bucket json_codec" where
  "sampleBucket = tupleJson (\<lambda>b. [ratValue (bucket_tokens b), ratValue (lastRefill b)])
     (\<lambda>t. if length t = 2 then Some \<lparr>bucket_tokens = ratOf (t ! 0), lastRefill = ratOf (t ! 1)\<rparr> else None)"

definition sampleCounter :: "fixed_counter json_codec" where
  "sampleCounter = tupleJson (\<lambda>c. [ratValue (fixed_count c), ratValue (fixed_expiresAt c)])
     (\<lambda>t. if length t = 2 then Some \<lparr>fixed_count = ratOf (t ! 0), fixed_expiresAt = ratOf (t ! 1)\<rparr> else None)"

interpretation sampleBucket: json_codec sampleBucket
  unfolding sampleBucket_def by (rule tupleJson_codec) simp_all

interpretation sampleCounter: json_codec sampleCounter
  unfolding sampleCounter_def by (rule tupleJson_codec) simp_all

interpretation memBuckets: bucket_store mem_txn sampleBucket ..

interpretation memWindows: window_store mem_txn sampleCounter ..

lemma rateKeys_opened: "\<exists>keys. rateLimiterKeys (openedRoot p) s = Inr (keys, s)"
  by (simp add: rateLimiterKeys_def openedRoot_def subspace_def packTrackedSync_enc)

section \<open>Properties\<close>

text \<open>C15. A token bucket without overflow never grants more than its capacity plus one token per refill period: over
  any sequence of requests made between two times, the tokens granted are at most the limit plus the elapsed
  time divided by the refill rate.\<close>

theorem token_bucket_rate:
  assumes "bucket_store T J" and "opensRoot T rootDir p" and "0 < rate" and "0 \<le> limit"
    and "sorted (map fst requests)" and "\<And>t n. (t, n) \<in> set requests \<Longrightarrow> start \<le> t \<and> t \<le> until \<and> 0 \<le> n"
    and "start \<le> until" and "tx_get T s (K p ''buckets'' [Str rateKey]) = None"
    and "consumeAll T J rootDir rateKey limit rate requests s = Inr (granted, s')"
  shows "granted \<le> limit + (until - start) / rate"
  using bucket_store.consumeAll_bound [OF assms(1-6,9), where granted = 0 and start = start] assms(7,8) by simp

theorem token_bucket_rate_witness:
  "\<exists>s'. consumeAll mem_txn sampleBucket (openedRoot [9]) (js ''k'') 10 2 [(0, 4)] [] = Inr (4, s')
     \<and> (4 :: rat) \<le> 10 + (6 - 0) / 2"
proof -
  obtain keys where k: "rateLimiterKeys (openedRoot [9]) ([] :: mem) = Inr (keys, [])"
    using rateKeys_opened [of "[9]" "[] :: mem"] by blast
  note kk = rateKeys_at [OF opensRoot_opened k]
  have r: "readRecord mem_txn sampleBucket [] (K [9] ''buckets'' [Str (js ''k'')]) = Inr None"
    by (rule readRecord_None) (simp add: mem_get)
  obtain s' where c: "consumeAll mem_txn sampleBucket (openedRoot [9]) (js ''k'') 10 2 [(0, 4)] [] = Inr (4, s')"
    using r by (simp add: tokenBucket_def k pack_at [OF kk(2), THEN iffD2] tokenBucketStep_def Let_def)
  moreover have "(4 :: rat) \<le> 10 + (6 - 0) / 2"
    by (rule token_bucket_rate [OF memBuckets.bucket_store_axioms opensRoot_opened _ _ _ _ _ _ c]) (simp_all add: mem_get)
  ultimately show ?thesis by blast
qed

text \<open>A fixed window counts each request on top of the current window, starting afresh when the window has ended;
  a request past the limit is refused and leaves the window untouched, so a stored count never exceeds the
  limit it was granted under; nothing else in the store changes.\<close>

theorem fixed_window_outcome:
  assumes "window_store T J" and "opensRoot T rootDir p"
    and "fixedWindow T J rootDir rateKey tokens limit rate now s = Inr ((n, ttl), s')"
    and "w = windowOf (recordOf J (tx_get T s (K p ''fixed'' [Str rateKey]))) now"
  shows "n = fixed_count w + tokens
    \<and> recordOf J (tx_get T s' (K p ''fixed'' [Str rateKey])) =
      (if (case limit of Some l \<Rightarrow> l < n | None \<Rightarrow> False) then recordOf J (tx_get T s (K p ''fixed'' [Str rateKey]))
       else Some \<lparr>fixed_count = n, fixed_expiresAt = fixed_expiresAt w + rate * tokens\<rparr>)
    \<and> (\<forall>k. prefix p k \<and> k \<noteq> K p ''fixed'' [Str rateKey] \<longrightarrow> tx_get T s' k = tx_get T s k)"
  using window_store.fixedWindow_Inr [OF assms(1-3)] assms(4) by blast

theorem fixed_window_outcome_witness:
  "\<exists>s'. fixedWindow mem_txn sampleCounter (openedRoot [9]) (js ''k'') 3 (Some 5) 100 7 [] = Inr ((3, 300), s')
     \<and> recordOf sampleCounter (tx_get mem_txn s' (K [9] ''fixed'' [Str (js ''k'')]))
        = Some \<lparr>fixed_count = 3, fixed_expiresAt = 307\<rparr>"
proof -
  obtain keys where k: "rateLimiterKeys (openedRoot [9]) ([] :: mem) = Inr (keys, [])"
    using rateKeys_opened [of "[9]" "[] :: mem"] by blast
  note kk = rateKeys_at [OF opensRoot_opened k]
  have r: "readRecord mem_txn sampleCounter [] (K [9] ''fixed'' [Str (js ''k'')]) = Inr None"
    by (rule readRecord_None) (simp add: mem_get)
  obtain s' where c: "fixedWindow mem_txn sampleCounter (openedRoot [9]) (js ''k'') 3 (Some 5) 100 7 [] = Inr ((3, 300), s')"
    using r by (simp add: fixedWindow_def k pack_at [OF kk(1), THEN iffD2] fixedWindowStep_def Let_def)
  show ?thesis
    using fixed_window_outcome [OF memWindows.window_store_axioms opensRoot_opened c refl] c
    by (simp add: mem_get windowOf_def)
qed

text \<open>C36. The adaptive limiter is a state machine: cooldown leads to learning, learning to learned or back to cooldown,
  learned to cooldown, and an expired record counts as none; the epoch starts at 0 and grows by one exactly
  when learning starts or ends in a learned limit; and feedback of another epoch than the stored one changes
  nothing.\<close>

theorem adaptive_state_machine:
  "adaptive_edge (current st now) (applied st (fst (adaptiveConsumeStep st tokens fallbackWindow now)))
    \<and> adaptive_edge (current st now) (applied st (adaptiveFeedbackStep st e tokens retry now))
    \<and> (\<forall>a. current st now = Some a \<and> epoch a \<noteq> e \<longrightarrow> adaptiveFeedbackStep st e tokens retry now = Keep)"
proof (intro conjI allI impI)
  show "adaptive_edge (current st now) (applied st (fst (adaptiveConsumeStep st tokens fallbackWindow now)))"
    using consume_edge [of st tokens fallbackWindow now] by (metis prod.collapse)
  show "adaptive_edge (current st now) (applied st (adaptiveFeedbackStep st e tokens retry now))"
    by (rule feedback_edge)
  show "adaptiveFeedbackStep st e tokens retry now = Keep" if "current st now = Some a \<and> epoch a \<noteq> e" for a
    using that by (cases st) (auto simp: current_def adaptiveFeedbackStep_def adaptiveFeedbackState_def split: if_splits)
qed

theorem adaptive_state_machine_witness:
  "adaptiveFeedbackStep (Some (cooldownState 0 100)) 1 5 10 50 = Keep"
proof -
  have "current (Some (cooldownState 0 100)) 50 = Some (cooldownState 0 100) \<and> epoch (cooldownState 0 100) \<noteq> 1"
    by (simp add: current_def cooldownState_def cooldownExpiresAt_def adaptiveStateTtlGraceMillis_def)
  then show ?thesis using adaptive_state_machine [of "Some (cooldownState 0 100)" 50 5 0 1 10] by blast
qed

text \<open>In every state a key can reach, a consume during cooldown is told to wait until the end of the cooldown, which
  is never more than an hour away; a learned limit and its window are positive, the window at most an hour.\<close>

theorem adaptive_delay_bounded:
  assumes "adaptive_run (Some a) before" and "before \<le> now" and "now < adaptive_expiresAt a"
    and "adaptiveConsumeStep (Some a) tokens fallbackWindow now = (u, res)"
  shows "(phase a = Cooldown \<and> now < cooldownUntil a \<longrightarrow> u = Keep \<and> result_delay res = cooldownUntil a - now
        \<and> result_delay res \<le> 3600000)
    \<and> (phase a = Learned \<longrightarrow> 0 < learnedLimit a \<and> 0 < learnedWindowMillis a \<and> learnedWindowMillis a \<le> 3600000)
    \<and> 0 \<le> result_delay res"
proof -
  have ok: "adaptive_ok a now" using adaptive_run_ok [OF assms(1) refl] assms(2) by (rule adaptive_ok_later)
  show ?thesis
    using ok assms(3,4)
    by (cases "phase a") (auto simp: adaptiveConsumeStep_def adaptiveConsumeState_def adaptive_ok_def Let_def
        adaptiveStateMaxWindowMillis_def split: if_splits)
qed

theorem adaptive_delay_bounded_witness:
  "adaptiveConsumeStep (Some (cooldownState 0 (5 + 3600000))) 1 60 7
     = (Keep, \<lparr>result_delay = 3599998, result_epoch = 0, result_phase = Cooldown\<rparr>)
   \<and> (3599998 :: rat) \<le> 3600000"
proof -
  have "adaptive_run (applied None (adaptiveFeedbackStep None 0 1 (clampAdaptiveDurationMillis NotFinite) 5)) 5"
    by (rule adaptive_feedback [OF adaptive_start order_refl])
  then have run: "adaptive_run (Some (cooldownState 0 (5 + 3600000))) 5"
    by (simp add: adaptiveFeedbackStep_def applied_def clampAdaptiveDurationMillis_def adaptiveStateMaxWindowMillis_def)
  have step: "adaptiveConsumeStep (Some (cooldownState 0 (5 + 3600000))) 1 60 7
     = (Keep, \<lparr>result_delay = 3599998, result_epoch = 0, result_phase = Cooldown\<rparr>)"
    by (simp add: adaptiveConsumeStep_def adaptiveConsumeState_def cooldownState_def cooldownExpiresAt_def
        adaptiveStateTtlGraceMillis_def)
  from adaptive_delay_bounded [OF run _ _ step] step show ?thesis
    by (simp add: cooldownState_def cooldownExpiresAt_def adaptiveStateTtlGraceMillis_def)
qed

end
