(* ===== verification/Directory_Layer.thy ===== *)
theory Directory_Layer
  imports Keyed_Rows
begin

text \<open>
  The data of the directory layer (src/src/directory/model.ts), its helpers (src/src/directory/internal.ts)
  and the prefix allocator (src/src/directory/allocator.ts). A failed operation is its
  \<open>DirectoryErrorReason\<close>; the messages are not modelled. The random numbers of the allocator are an
  argument: the list of the 32-bit words that \<open>crypto.getRandomValues\<close> returns, one per candidate.
\<close>

section \<open>directory/model.ts\<close>

datatype directory_error =
    CannotModifyRootDirectory | DirectoryPrefixInUse | DirectoryDoesNotExist | NoPathProvided
  | DirectoryAlreadyExists | PathDoesNotExist | ParentDirectoryDoesNotExist | IncompatibleLayer
  | BadDestinationDirectory | VersionError | PrefixNotAllowed | CannotPrefixInPartition
  | CannotMoveRootDirectory | CannotMoveBetweenPartitions | CannotMoveIntoSubdirectory
  | PrefixNotEmpty | CannotCreateSubpath | InvalidMetadata | InvalidPrefix

type_synonym directory_path = "js_string list"

record directory_layer =
  rootNode :: subspace
  nodeSubspace :: subspace
  contentSubspace :: subspace
  allocator :: subspace
  allowManualPrefixes :: bool
  layer_path :: directory_path

record directory_node =
  node_subspace :: subspace
  currentPath :: directory_path
  targetPath :: directory_path
  node_layer :: bytes

section \<open>directory/internal.ts\<close>

definition NODE_PREFIX :: bytes where "NODE_PREFIX = [0xfe]"
definition VERSION :: bytes where "VERSION = map of_char ''version''"
definition HCA :: bytes where "HCA = map of_char ''hca''"
definition LAYER :: bytes where "LAYER = map of_char ''layer''"
definition PARTITION :: bytes where "PARTITION = map of_char ''partition''"
definition ONE :: bytes where "ONE = [1, 0, 0, 0, 0, 0, 0, 0]"
definition DIRECTORY_VERSION :: bytes where "DIRECTORY_VERSION = [1, 0, 0, 0, 0, 0, 0, 0, 0, 0, 0, 0]"

definition mapTupleError :: "tuple_error + 'a \<Rightarrow> directory_error + 'a" where
  "mapTupleError m = (case m of Inl _ \<Rightarrow> Inl InvalidMetadata | Inr x \<Rightarrow> Inr x)"

definition incrementPrefix :: "bytes \<Rightarrow> directory_error + bytes" where
  "incrementPrefix p = (let output = strinc p in if length output = 0 then Inl InvalidPrefix else Inr output)"

definition packed :: "subspace \<Rightarrow> tuple \<Rightarrow> directory_error + bytes" where
  "packed sub t = mapTupleError (subspace_pack sub t)"

definition childSubspace :: "subspace \<Rightarrow> tuple \<Rightarrow> directory_error + subspace" where
  "childSubspace sub t = mapTupleError (subspace sub t)"

definition unpacked :: "subspace \<Rightarrow> bytes \<Rightarrow> directory_error + tuple" where
  "unpacked sub key = mapTupleError (subspace_unpack sub key)"

definition subspaceRange :: "subspace \<Rightarrow> tuple \<Rightarrow> directory_error + bytes \<times> bytes" where
  "subspaceRange sub t = mapTupleError (subspace_range sub t)"

text \<open>The snapshot option does not bear on the rows that an attempt reads.\<close>

definition firstInRange :: "'s txn \<Rightarrow> 's \<Rightarrow> bytes \<Rightarrow> bytes \<Rightarrow> bool \<Rightarrow> row option" where
  "firstInRange T s b e reverse =
    (case tx_getRange T s (keyRange b e (Some 1) reverse) of [] \<Rightarrow> None | row # _ \<Rightarrow> Some row)"

definition allInRange :: "'s txn \<Rightarrow> 's \<Rightarrow> bytes \<Rightarrow> bytes \<Rightarrow> row list" where
  "allInRange T s b e = tx_getRange T s (keyRange b e None False)"

text \<open>\<open>tuple[index]\<close>, which is undefined out of range.\<close>

definition element :: "tuple \<Rightarrow> nat \<Rightarrow> tuple_value option" where
  "element t i = (if i < length t then Some (t ! i) else None)"

definition asBytes :: "tuple_value option \<Rightarrow> directory_error + bytes" where
  "asBytes v = (case v of Some (Bytes b) \<Rightarrow> Inr b | _ \<Rightarrow> Inl InvalidMetadata)"

definition asInteger :: "tuple_value option \<Rightarrow> directory_error + int" where
  "asInteger v = (case v of Some (BigInt i) \<Rightarrow> Inr i | _ \<Rightarrow> Inl InvalidMetadata)"

definition asString :: "tuple_value option \<Rightarrow> directory_error + js_string" where
  "asString v = (case v of Some (Str x) \<Rightarrow> Inr x | _ \<Rightarrow> Inl InvalidMetadata)"

definition directoryChildName :: "tuple \<Rightarrow> directory_error + js_string" where
  "directoryChildName t =
    (if length t = 2 \<and> element t 0 = Some (BigInt 0) then asString (element t 1) else Inl InvalidMetadata)"

definition allocatorWindow :: "tuple \<Rightarrow> directory_error + int" where
  "allocatorWindow t = (if length t = 1 then asInteger (element t 0) else Inl InvalidMetadata)"

definition makeDirectoryLayerState ::
    "subspace option \<Rightarrow> subspace option \<Rightarrow> bool \<Rightarrow> directory_path \<Rightarrow> directory_error + directory_layer" where
  "makeDirectoryLayerState nodes contents allowManual path =
    (let nodeSub = (case nodes of Some n \<Rightarrow> n | None \<Rightarrow> fromBytes NODE_PREFIX);
         contentSub = (case contents of Some c \<Rightarrow> c | None \<Rightarrow> fromBytes []) in
     bindR (childSubspace nodeSub [Bytes (prefix_bytes nodeSub)]) (\<lambda>top.
     bindR (childSubspace top [Bytes HCA]) (\<lambda>hca.
     Inr \<lparr>rootNode = top, nodeSubspace = nodeSub, contentSubspace = contentSub, allocator = hca,
          allowManualPrefixes = allowManual, layer_path = path\<rparr>)))"

section \<open>directory/allocator.ts\<close>

definition decodeLittleEndianInt64 :: "bytes \<Rightarrow> directory_error + int" where
  "decodeLittleEndianInt64 v =
    (if length v = 8 then Inr (sint (of_nat (leNat v) :: 64 word)) else Inl InvalidMetadata)"

definition windowSize :: "int \<Rightarrow> int" where
  "windowSize start = (if start < 255 then 64 else if start < 65535 then 1024 else 8192)"

definition randomCandidate :: "32 word \<Rightarrow> int \<Rightarrow> int \<Rightarrow> int" where
  "randomCandidate random start window = start + uint random mod window"

text \<open>The window that a counter row stands for; no row stands for window 0.\<close>

definition latestWindow :: "subspace \<Rightarrow> row option \<Rightarrow> directory_error + int" where
  "latestWindow counters latest =
    (case latest of
       None \<Rightarrow> Inr 0
     | Some row \<Rightarrow> bindR (unpacked counters (fst row)) allocatorWindow)"

text \<open>One turn of the loop that looks for a window with room: the count after the increment, and the state.\<close>

definition windowStep ::
    "'s txn \<Rightarrow> subspace \<Rightarrow> subspace \<Rightarrow> int \<Rightarrow> bool \<Rightarrow> 's \<Rightarrow> directory_error + int \<times> 's" where
  "windowStep T counters recent start advanced s =
    bindR (childSubspace counters [BigInt start]) (\<lambda>counter.
    bindR (if advanced then
        let s = tx_clearRangeWithoutWriteConflict T (prefix_bytes counters) (prefix_bytes counter) s in
        bindR (childSubspace recent [BigInt start]) (\<lambda>recentStart.
        Inr (tx_clearRangeWithoutWriteConflict T (prefix_bytes recent) (prefix_bytes recentStart) s))
      else Inr s) (\<lambda>s.
    let s = tx_atomicOp T (prefix_bytes counter) ONE Add s in
    bindR (case tx_get T s (prefix_bytes counter) of
        None \<Rightarrow> Inr 0 | Some encodedCount \<Rightarrow> decodeLittleEndianInt64 encodedCount) (\<lambda>count.
    Inr (count, s))))"

partial_function (option) windowLoop ::
    "'s txn \<Rightarrow> subspace \<Rightarrow> subspace \<Rightarrow> int \<Rightarrow> bool \<Rightarrow> 's \<Rightarrow> (directory_error + int \<times> int \<times> 's) option" where
  "windowLoop T counters recent start advanced s =
    (case windowStep T counters recent start advanced s of
       Inl e \<Rightarrow> Some (Inl e)
     | Inr (count, s) \<Rightarrow>
         if count * 2 < windowSize start then Some (Inr (start, windowSize start, s))
         else windowLoop T counters recent (start + windowSize start) True s)"

text \<open>
  One candidate: \<open>Retry\<close> is taken, \<open>Restart\<close> means that the window has moved on meanwhile, and
  \<open>Allocated\<close> is free.
\<close>

datatype candidate = Retry | Restart | Allocated int

definition candidateStep ::
    "'s txn \<Rightarrow> subspace \<Rightarrow> subspace \<Rightarrow> bytes \<Rightarrow> bytes \<Rightarrow> int \<Rightarrow> int \<Rightarrow> 32 word \<Rightarrow> 's
      \<Rightarrow> directory_error + candidate \<times> 's" where
  "candidateStep T counters recent counterBegin counterEnd start window random s =
    (let candidate = randomCandidate random start window in
     bindR (childSubspace recent [BigInt candidate]) (\<lambda>recentCandidate.
     let currentLatest = firstInRange T s counterBegin counterEnd True;
         candidateValue = tx_get T s (prefix_bytes recentCandidate);
         s = tx_setWithoutWriteConflict T (prefix_bytes recentCandidate) [] s in
     bindR (latestWindow counters currentLatest) (\<lambda>currentStart.
     if start < currentStart then Inr (Restart, s)
     else if candidateValue = None then
       Inr (Allocated candidate,
         tx_addConflictRange T (prefix_bytes recentCandidate) (concatBytes [prefix_bytes recentCandidate, [0]])
           WriteConflict s)
     else Inr (Retry, s))))"

fun candidateLoop ::
    "'s txn \<Rightarrow> subspace \<Rightarrow> subspace \<Rightarrow> bytes \<Rightarrow> bytes \<Rightarrow> int \<Rightarrow> int \<Rightarrow> 32 word list \<Rightarrow> 's
      \<Rightarrow> (directory_error + int option \<times> 's \<times> 32 word list) option" where
  "candidateLoop T counters recent counterBegin counterEnd start window [] s = None"
| "candidateLoop T counters recent counterBegin counterEnd start window (random # randoms) s =
    (case candidateStep T counters recent counterBegin counterEnd start window random s of
       Inl e \<Rightarrow> Some (Inl e)
     | Inr (Allocated c, s) \<Rightarrow> Some (Inr (Some c, s, randoms))
     | Inr (Restart, s) \<Rightarrow> Some (Inr (None, s, randoms))
     | Inr (Retry, s) \<Rightarrow> candidateLoop T counters recent counterBegin counterEnd start window randoms s)"

partial_function (option) allocateLoop ::
    "'s txn \<Rightarrow> subspace \<Rightarrow> subspace \<Rightarrow> bytes \<Rightarrow> bytes \<Rightarrow> 32 word list \<Rightarrow> 's
      \<Rightarrow> (directory_error + int \<times> 's \<times> 32 word list) option" where
  "allocateLoop T counters recent counterBegin counterEnd randoms s =
    bindO (Some (latestWindow counters (firstInRange T s counterBegin counterEnd True))) (\<lambda>start.
    bindO (windowLoop T counters recent start False s) (\<lambda>(start, window, s).
    bindO (candidateLoop T counters recent counterBegin counterEnd start window randoms s)
      (\<lambda>(candidate, s, randoms).
        case candidate of
          Some c \<Rightarrow> Some (Inr (c, s, randoms))
        | None \<Rightarrow> allocateLoop T counters recent counterBegin counterEnd randoms s)))"

text \<open>
  \<open>allocatePrefix\<close> runs \<open>allocatePrefixLocked\<close> under a semaphore of the transaction, so that the
  allocations of one transaction do not interleave; here they are sequential by construction.
\<close>

definition allocatePrefix ::
    "'s txn \<Rightarrow> directory_layer \<Rightarrow> 32 word list \<Rightarrow> 's \<Rightarrow> (directory_error + int \<times> 's \<times> 32 word list) option" where
  "allocatePrefix T L randoms s =
    bindO (Some (childSubspace (allocator L) [BigInt 0])) (\<lambda>counters.
    bindO (Some (childSubspace (allocator L) [BigInt 1])) (\<lambda>recent.
    bindO (Some (subspaceRange counters [])) (\<lambda>(counterBegin, counterEnd).
    allocateLoop T counters recent counterBegin counterEnd randoms s)))"

end
