(* ===== verification/Directory_Engine.thy ===== *)
theory Directory_Engine
  imports Directory_Layer
begin

text \<open>
  The directory layer and its partitions, src/src/directory/engine.ts. A directory is a node of the
  metadata under \<open>nodeSubspace\<close>: its row \<open>layer\<close> and one row per child, from the name of the child to its
  prefix. Every operation takes the transaction, the layer and the state of the attempt, and returns
  an error or the result with the new state; operations that allocate prefixes also thread the list of
  random words.
\<close>

datatype directory_output =
    DirectorySubspace directory_layer directory_path bytes bytes
  | DirectoryPartition directory_layer directory_path directory_layer

definition output_path :: "directory_output \<Rightarrow> directory_path" where
  "output_path d = (case d of
     DirectorySubspace L rel _ _ \<Rightarrow> layer_path L @ rel
   | DirectoryPartition _ _ nested \<Rightarrow> layer_path nested)"

definition output_layer :: "directory_output \<Rightarrow> bytes" where
  "output_layer d = (case d of DirectorySubspace _ _ _ l \<Rightarrow> l | DirectoryPartition _ _ _ \<Rightarrow> PARTITION)"

section \<open>Nodes\<close>

definition relativePath :: "directory_layer \<Rightarrow> directory_path \<Rightarrow> directory_error + directory_path" where
  "relativePath L absolutePath =
    (if pathStartsWith absolutePath (layer_path L) then Inr (drop (length (layer_path L)) absolutePath)
     else Inl CannotMoveBetweenPartitions)"

definition nodeWithPrefix :: "directory_layer \<Rightarrow> bytes \<Rightarrow> directory_error + subspace" where
  "nodeWithPrefix L p = childSubspace (nodeSubspace L) [Bytes p]"

definition loadLayer :: "'s txn \<Rightarrow> 's \<Rightarrow> subspace \<Rightarrow> directory_error + bytes" where
  "loadLayer T s node =
    bindR (packed node [Bytes LAYER]) (\<lambda>key.
    Inr (case tx_get T s key of None \<Rightarrow> [] | Some v \<Rightarrow> v))"

text \<open>The loop over the components: the node reached, its layer and the path to it.\<close>

fun findLoop ::
    "'s txn \<Rightarrow> directory_layer \<Rightarrow> 's \<Rightarrow> subspace \<Rightarrow> bytes \<Rightarrow> directory_path \<Rightarrow> directory_path
      \<Rightarrow> directory_error + (subspace \<times> bytes \<times> directory_path) option" where
  "findLoop T L s node nodeLayer current [] = Inr (Some (node, nodeLayer, current))"
| "findLoop T L s node nodeLayer current (component # path) =
    bindR (packed node [BigInt 0, Str component]) (\<lambda>key.
    case tx_get T s key of
      None \<Rightarrow> Inr None
    | Some p \<Rightarrow>
        bindR (nodeWithPrefix L p) (\<lambda>node.
        bindR (loadLayer T s node) (\<lambda>nodeLayer.
        if equalBytes nodeLayer PARTITION then Inr (Some (node, nodeLayer, current @ [component]))
        else findLoop T L s node nodeLayer (current @ [component]) path)))"

definition findNode ::
    "'s txn \<Rightarrow> directory_layer \<Rightarrow> directory_path \<Rightarrow> 's \<Rightarrow> directory_error + directory_node option" where
  "findNode T L path s =
    bindR (findLoop T L s (rootNode L) [] [] path) (\<lambda>found.
    case found of
      None \<Rightarrow> Inr None
    | Some (node, nodeLayer, current) \<Rightarrow>
        bindR (if path = [] then loadLayer T s node else Inr nodeLayer) (\<lambda>nodeLayer.
        Inr (Some \<lparr>node_subspace = node, currentPath = current, targetPath = path, node_layer = nodeLayer\<rparr>)))"

definition partitionSubpath :: "directory_node \<Rightarrow> directory_path" where
  "partitionSubpath node = drop (length (currentPath node)) (targetPath node)"

definition isInPartition :: "directory_node \<Rightarrow> bool \<Rightarrow> bool" where
  "isInPartition node includeRoot \<longleftrightarrow>
     equalBytes (node_layer node) PARTITION
   \<and> (includeRoot \<or> length (targetPath node) > length (currentPath node))"

definition contentsOfNode ::
    "directory_layer \<Rightarrow> subspace \<Rightarrow> directory_path \<Rightarrow> bytes \<Rightarrow> directory_error + directory_output" where
  "contentsOfNode L node path nodeLayer =
    bindR (unpacked (nodeSubspace L) (prefix_bytes node)) (\<lambda>t.
    if length t \<noteq> 1 then Inl InvalidMetadata
    else bindR (asBytes (element t 0)) (\<lambda>p.
      if equalBytes nodeLayer PARTITION then
        bindR (makeDirectoryLayerState (Some (fromBytes (concatBytes [p, NODE_PREFIX]))) (Some (fromBytes p))
            False (layer_path L @ path)) (\<lambda>nested.
        Inr (DirectoryPartition L path nested))
      else Inr (DirectorySubspace L path p nodeLayer)))"

definition getContents :: "directory_layer \<Rightarrow> directory_node \<Rightarrow> directory_error + directory_output" where
  "getContents L node = contentsOfNode L (node_subspace node) (currentPath node) (node_layer node)"

text \<open>The directory inside a partition that an operation is delegated to.\<close>

definition getPartition :: "directory_layer \<Rightarrow> directory_node \<Rightarrow> directory_error + directory_layer" where
  "getPartition L node =
    bindR (getContents L node) (\<lambda>contents.
      case contents of
        DirectorySubspace _ _ _ _ \<Rightarrow> Inl InvalidMetadata
      | DirectoryPartition _ _ nested \<Rightarrow> Inr nested)"

definition checkVersion :: "'s txn \<Rightarrow> directory_layer \<Rightarrow> bool \<Rightarrow> 's \<Rightarrow> directory_error + 's" where
  "checkVersion T L write s =
    bindR (packed (rootNode L) [Bytes VERSION]) (\<lambda>key.
    case tx_get T s key of
      None \<Rightarrow> Inr (if write then tx_set T key DIRECTORY_VERSION s else s)
    | Some version \<Rightarrow>
        if length version \<noteq> 12 then Inl VersionError
        else
          let major = leNat (take 4 version);
              minor = leNat (take 4 (drop 4 version)) in
          if 1 < major then Inl VersionError
          else if write \<and> 0 < minor then Inl VersionError
          else Inr s)"

lemma findLoop_current:
  "findLoop T L s node nodeLayer current path = Inr (Some (n, l, c)) \<Longrightarrow>
     prefix current c \<and> (path \<noteq> [] \<longrightarrow> length current < length c) \<and> prefix c (current @ path)"
proof (induction path arbitrary: node nodeLayer current)
  case (Cons component path)
  from Cons.prems consider "c = current @ [component]"
    | node' nodeLayer' where "findLoop T L s node' nodeLayer' (current @ [component]) path = Inr (Some (n, l, c))"
    by (auto simp: bindR_eq_Inr split: option.splits if_splits)
  then show ?case
  proof cases
    case 2
    from Cons.IH [OF this] have "prefix (current @ [component]) c" "prefix c ((current @ [component]) @ path)" by simp_all
    then show ?thesis by (auto dest: prefix_length_le append_prefixD)
  qed simp
qed simp

lemma findNode_path:
  assumes "findNode T L path s = Inr (Some node)"
  shows "targetPath node = path" and "prefix (currentPath node) path" and "path \<noteq> [] \<Longrightarrow> currentPath node \<noteq> []"
proof -
  obtain n l where "findLoop T L s (rootNode L) [] [] path = Inr (Some (n, l, currentPath node))"
    and t: "targetPath node = path"
    using assms by (auto simp: findNode_def bindR_eq_Inr split: option.splits)
  from findLoop_current [OF this(1)] t
  show "targetPath node = path" "prefix (currentPath node) path" "path \<noteq> [] \<Longrightarrow> currentPath node \<noteq> []" by auto
qed

text \<open>Delegation to a partition leaves a shorter path, and one that is not empty.\<close>

lemma partitionSubpath_shorter:
  assumes "findNode T L path s = Inr (Some node)" and "isInPartition node False"
  shows "length (partitionSubpath node) < length path" and "partitionSubpath node \<noteq> []"
proof -
  have "length (currentPath node) < length path"
    using assms findNode_path(1) [OF assms(1)] by (simp add: isInPartition_def)
  moreover from this have "currentPath node \<noteq> []" using findNode_path(3) [OF assms(1)] by auto
  ultimately show "length (partitionSubpath node) < length path" "partitionSubpath node \<noteq> []"
    using findNode_path(1) [OF assms(1)] by (cases "currentPath node"; simp add: partitionSubpath_def)+
qed

section \<open>Prefixes\<close>

definition nodeContainingKey ::
    "'s txn \<Rightarrow> directory_layer \<Rightarrow> bytes \<Rightarrow> 's \<Rightarrow> directory_error + subspace option" where
  "nodeContainingKey T L key s =
    (if startsWith key (prefix_bytes (nodeSubspace L)) then Inr (Some (rootNode L))
     else bindR (subspaceRange (nodeSubspace L) []) (\<lambda>(metadataBegin, _).
       bindR (packed (nodeSubspace L) [Bytes (concatBytes [key, [0]])]) (\<lambda>rangeEnd.
       case firstInRange T s metadataBegin rangeEnd True of
         None \<Rightarrow> Inr None
       | Some previous \<Rightarrow>
           bindR (unpacked (nodeSubspace L) (fst previous)) (\<lambda>t.
           bindR (asBytes (element t 0)) (\<lambda>p.
           if startsWith key p then bindR (nodeWithPrefix L p) (\<lambda>node. Inr (Some node)) else Inr None)))))"

definition isPrefixFree :: "'s txn \<Rightarrow> directory_layer \<Rightarrow> bytes \<Rightarrow> 's \<Rightarrow> directory_error + bool" where
  "isPrefixFree T L p s =
    (if length p = 0 then Inr False
     else bindR (nodeContainingKey T L p s) (\<lambda>node.
       if node \<noteq> None then Inr False
       else bindR (incrementPrefix p) (\<lambda>endPrefix.
         bindR (packed (nodeSubspace L) [Bytes p]) (\<lambda>b.
         bindR (packed (nodeSubspace L) [Bytes endPrefix]) (\<lambda>e.
         Inr (firstInRange T s b e False = None))))))"

definition choosePrefix ::
    "'s txn \<Rightarrow> directory_layer \<Rightarrow> bytes option \<Rightarrow> 32 word list \<Rightarrow> 's
      \<Rightarrow> (directory_error + bytes \<times> 's \<times> 32 word list) option" where
  "choosePrefix T L explicit randoms s =
    (case explicit of
       Some p \<Rightarrow> Some (Inr (p, s, randoms))
     | None \<Rightarrow>
         bindO (allocatePrefix T L randoms s) (\<lambda>(allocated, s, randoms).
         bindO (Some (packed (contentSubspace L) [BigInt allocated])) (\<lambda>p.
         bindO (Some (incrementPrefix p)) (\<lambda>e.
         if firstInRange T s p e False \<noteq> None then Some (Inl PrefixNotEmpty)
         else Some (Inr (p, s, randoms))))))"

section \<open>Creating and opening\<close>

text \<open>
  \<open>createInternal\<close> once the parent and the prefix are known: the two rows of the new directory.
\<close>

definition createNode ::
    "'s txn \<Rightarrow> directory_layer \<Rightarrow> directory_path \<Rightarrow> bytes option \<Rightarrow> subspace \<Rightarrow> bytes \<Rightarrow> 's
      \<Rightarrow> directory_error + directory_output \<times> 's" where
  "createNode T L path nodeLayer parent p s =
    bindR (isPrefixFree T L p s) (\<lambda>free.
    if \<not> free then Inl DirectoryPrefixInUse
    else
      bindR (nodeWithPrefix L p) (\<lambda>node.
      bindR (packed parent [BigInt 0, Str (last path)]) (\<lambda>childKey.
      bindR (packed node [Bytes LAYER]) (\<lambda>layerKey.
      let l = (case nodeLayer of None \<Rightarrow> [] | Some l \<Rightarrow> l);
          s = tx_set T layerKey l (tx_set T childKey p s) in
      bindR (contentsOfNode L node path l) (\<lambda>d. Inr (d, s))))))"

text \<open>
  The three functions call each other: a missing directory is created, and creating it creates or opens
  its parent. An operation on a path inside a partition is the same operation on the partition's layer.
\<close>

function (sequential)
  createOrOpenInternal ::
    "'s txn \<Rightarrow> directory_layer \<Rightarrow> directory_path \<Rightarrow> bytes option \<Rightarrow> bytes option \<Rightarrow> bool \<Rightarrow> bool \<Rightarrow> 32 word list \<Rightarrow> 's
      \<Rightarrow> (directory_error + directory_output \<times> 's \<times> 32 word list) option"
and createInternal ::
    "'s txn \<Rightarrow> directory_layer \<Rightarrow> directory_path \<Rightarrow> bytes option \<Rightarrow> bytes option \<Rightarrow> 32 word list \<Rightarrow> 's
      \<Rightarrow> (directory_error + directory_output \<times> 's \<times> 32 word list) option"
and getParentNode ::
    "'s txn \<Rightarrow> directory_layer \<Rightarrow> directory_path \<Rightarrow> 32 word list \<Rightarrow> 's
      \<Rightarrow> (directory_error + subspace \<times> 's \<times> 32 word list) option" where
  "createOrOpenInternal T L path explicit expectedLayer allowCreate allowOpen randoms s =
    bindO (Some (checkVersion T L False s)) (\<lambda>s.
    if explicit \<noteq> None \<and> \<not> allowManualPrefixes L then
      Some (Inl (if length (layer_path L) = 0 then PrefixNotAllowed else CannotPrefixInPartition))
    else if length path = 0 then Some (Inl NoPathProvided)
    else bindO (Some (findNode T L path s)) (\<lambda>found.
      case found of
        Some node \<Rightarrow>
          if isInPartition node False then
            bindO (Some (getPartition L node)) (\<lambda>nested.
              if \<not> allowCreate then
                createOrOpenInternal T nested (partitionSubpath node) None expectedLayer False True randoms s
              else
                createOrOpenInternal T nested (partitionSubpath node) explicit expectedLayer True allowOpen randoms s)
          else if \<not> allowOpen then Some (Inl DirectoryAlreadyExists)
          else if (case expectedLayer of None \<Rightarrow> False
                   | Some l \<Rightarrow> 0 < length l \<and> \<not> equalBytes l (node_layer node)) then
            Some (Inl IncompatibleLayer)
          else bindO (Some (getContents L node)) (\<lambda>d. Some (Inr (d, s, randoms)))
      | None \<Rightarrow>
          if \<not> allowCreate then Some (Inl DirectoryDoesNotExist)
          else createInternal T L path explicit expectedLayer randoms s))"
| "createInternal T L path explicit nodeLayer randoms s =
    (if path = [] then Some (Inl NoPathProvided)
     else
       bindO (Some (checkVersion T L True s)) (\<lambda>s.
       bindO (getParentNode T L path randoms s) (\<lambda>(parent, s, randoms).
       bindO (choosePrefix T L explicit randoms s) (\<lambda>(p, s, randoms).
       bindO (Some (createNode T L path nodeLayer parent p s)) (\<lambda>(d, s).
       Some (Inr (d, s, randoms)))))))"
| "getParentNode T L path randoms s =
    (let parentPath = butlast path in
     if length parentPath = 0 then Some (Inr (rootNode L, s, randoms))
     else
       bindO (createOrOpenInternal T L parentPath None None True True randoms s) (\<lambda>(parent, s, randoms).
         case parent of
           DirectoryPartition _ _ _ \<Rightarrow> Some (Inl InvalidMetadata)
         | DirectorySubspace _ _ p _ \<Rightarrow>
             bindO (Some (nodeWithPrefix L p)) (\<lambda>node. Some (Inr (node, s, randoms)))))"
  by pat_completeness auto

termination
proof (relation "measure (\<lambda>x. case x of
      Inl (T, L, path, explicit, expectedLayer, allowCreate, allowOpen, randoms, s) \<Rightarrow> 3 * length path + 2
    | Inr (Inl (T, L, path, explicit, nodeLayer, randoms, s)) \<Rightarrow> 3 * length path + 1
    | Inr (Inr (T, L, path, randoms, s)) \<Rightarrow> 3 * length path)")
qed (auto dest!: partitionSubpath_shorter(1))

declare createOrOpenInternal.simps [simp del] createInternal.simps [simp del] getParentNode.simps [simp del]

section \<open>Reading\<close>

function (sequential) existsInternal ::
    "'s txn \<Rightarrow> directory_layer \<Rightarrow> directory_path \<Rightarrow> 's \<Rightarrow> directory_error + bool" where
  "existsInternal T L path s =
    bindR (checkVersion T L False s) (\<lambda>s.
    bindR (findNode T L path s) (\<lambda>found.
      case found of
        None \<Rightarrow> Inr False
      | Some node \<Rightarrow>
          if isInPartition node False then
            bindR (getPartition L node) (\<lambda>nested. existsInternal T nested (partitionSubpath node) s)
          else Inr True))"
  by pat_completeness auto

termination
  by (relation "measure (\<lambda>(T, L, path, s). length path)") (auto dest!: partitionSubpath_shorter(1))

definition childName :: "subspace \<Rightarrow> row \<Rightarrow> directory_error + js_string" where
  "childName node child = bindR (unpacked node (fst child)) directoryChildName"

text \<open>
  Listing a partition's root delegates with an empty path, so the path need not get shorter: that the
  recursion ends is a property of the metadata.
\<close>

partial_function (option) listInternal ::
    "'s txn \<Rightarrow> directory_layer \<Rightarrow> directory_path \<Rightarrow> 's \<Rightarrow> (directory_error + js_string list) option" where
  "listInternal T L path s =
    bindO (Some (checkVersion T L False s)) (\<lambda>s.
    bindO (Some (findNode T L path s)) (\<lambda>found.
      case found of
        None \<Rightarrow> Some (Inl PathDoesNotExist)
      | Some node \<Rightarrow>
          if isInPartition node True then
            bindO (Some (getPartition L node)) (\<lambda>nested. listInternal T nested (partitionSubpath node) s)
          else
            bindO (Some (subspaceRange (node_subspace node) [BigInt 0])) (\<lambda>(b, e).
              Some (mapR (childName (node_subspace node)) (allInRange T s b e)))))"

section \<open>Removing\<close>

definition removeFromParent ::
    "'s txn \<Rightarrow> directory_layer \<Rightarrow> directory_path \<Rightarrow> 's \<Rightarrow> directory_error + 's" where
  "removeFromParent T L path s =
    (if path = [] then Inl BadDestinationDirectory
     else
       bindR (findNode T L (butlast path) s) (\<lambda>parent.
       case parent of
         None \<Rightarrow> Inr s
       | Some parent \<Rightarrow>
           bindR (packed (node_subspace parent) [BigInt 0, Str (last path)]) (\<lambda>key. Inr (tx_clear T key s))))"

text \<open>The contents and the metadata of one directory.\<close>

definition removeNode :: "'s txn \<Rightarrow> directory_layer \<Rightarrow> subspace \<Rightarrow> 's \<Rightarrow> directory_error + 's" where
  "removeNode T L node s =
    bindR (unpacked (nodeSubspace L) (prefix_bytes node)) (\<lambda>t.
    bindR (asBytes (element t 0)) (\<lambda>p.
    bindR (incrementPrefix p) (\<lambda>pEnd.
    let s = tx_clearRange T p pEnd s in
    bindR (subspaceRange node []) (\<lambda>(metadataBegin, metadataEnd).
    Inr (tx_clearRange T metadataBegin metadataEnd s)))))"

text \<open>The children first, each with its own; metadata with a cycle would make it run forever.\<close>

partial_function (option) removeRecursive ::
    "'s txn \<Rightarrow> directory_layer \<Rightarrow> subspace \<Rightarrow> 's \<Rightarrow> (directory_error + 's) option" where
  "removeRecursive T L node s =
    bindO (Some (subspaceRange node [BigInt 0])) (\<lambda>(b, e).
    bindO (foldO (\<lambda>child s.
        bindO (Some (childName node child)) (\<lambda>_.
        bindO (Some (nodeWithPrefix L (snd child))) (\<lambda>childNode. removeRecursive T L childNode s)))
      (allInRange T s b e) s) (\<lambda>s.
    Some (removeNode T L node s)))"

text \<open>
  A path inside a partition is removed by the partition; \<open>failIfMissing\<close> tells \<open>remove\<close> from
  \<open>removeIfExists\<close>.
\<close>

function (sequential) removeInternal ::
    "'s txn \<Rightarrow> directory_layer \<Rightarrow> directory_path \<Rightarrow> bool \<Rightarrow> 's \<Rightarrow> (directory_error + bool \<times> 's) option" where
  "removeInternal T L path failIfMissing s =
    bindO (Some (checkVersion T L True s)) (\<lambda>s.
    if length path = 0 then Some (Inl CannotModifyRootDirectory)
    else bindO (Some (findNode T L path s)) (\<lambda>found.
      case found of
        None \<Rightarrow> Some (if failIfMissing then Inl DirectoryDoesNotExist else Inr (False, s))
      | Some node \<Rightarrow>
          if isInPartition node False then
            bindO (Some (getPartition L node)) (\<lambda>nested.
              removeInternal T nested (partitionSubpath node) failIfMissing s)
          else
            bindO (removeRecursive T L (node_subspace node) s) (\<lambda>s.
            bindO (Some (removeFromParent T L path s)) (\<lambda>s. Some (Inr (True, s))))))"
  by pat_completeness auto

termination
  by (relation "measure (\<lambda>(T, L, path, failIfMissing, s). length path)") (auto dest!: partitionSubpath_shorter(1))

section \<open>Moving\<close>

definition moveNode ::
    "'s txn \<Rightarrow> directory_layer \<Rightarrow> directory_path \<Rightarrow> directory_path \<Rightarrow> directory_node \<Rightarrow> 's
      \<Rightarrow> directory_error + directory_output \<times> 's" where
  "moveNode T L oldPath newPath oldNode s =
    (if newPath = [] then Inl BadDestinationDirectory
     else
       bindR (findNode T L (butlast newPath) s) (\<lambda>parent.
       case parent of
         None \<Rightarrow> Inl ParentDirectoryDoesNotExist
       | Some parent \<Rightarrow>
           bindR (unpacked (nodeSubspace L) (prefix_bytes (node_subspace oldNode))) (\<lambda>prefixTuple.
           bindR (asBytes (element prefixTuple 0)) (\<lambda>p.
           bindR (packed (node_subspace parent) [BigInt 0, Str (last newPath)]) (\<lambda>newKey.
           bindR (removeFromParent T L oldPath (tx_set T newKey p s)) (\<lambda>s.
           bindR (contentsOfNode L (node_subspace oldNode) newPath (node_layer oldNode)) (\<lambda>d.
           Inr (d, s))))))))"

function (sequential) moveInternal ::
    "'s txn \<Rightarrow> directory_layer \<Rightarrow> directory_path \<Rightarrow> directory_path \<Rightarrow> 's
      \<Rightarrow> directory_error + directory_output \<times> 's" where
  "moveInternal T L oldPath newPath s =
    bindR (checkVersion T L True s) (\<lambda>s.
    if length oldPath = 0 then Inl CannotMoveRootDirectory
    else if pathStartsWith newPath oldPath then Inl CannotMoveIntoSubdirectory
    else bindR (findNode T L oldPath s) (\<lambda>oldFound.
      case oldFound of
        None \<Rightarrow> Inl PathDoesNotExist
      | Some oldNode \<Rightarrow>
          bindR (findNode T L newPath s) (\<lambda>newFound.
          case newFound of
            Some newNode \<Rightarrow>
              if isInPartition oldNode False \<and> isInPartition newNode False
                \<and> pathsEqual (currentPath oldNode) (currentPath newNode) then
                bindR (getPartition L oldNode) (\<lambda>nested.
                  moveInternal T nested (partitionSubpath oldNode) (partitionSubpath newNode) s)
              else if isInPartition oldNode False \<or> isInPartition newNode False then
                Inl CannotMoveBetweenPartitions
              else Inl DirectoryAlreadyExists
          | None \<Rightarrow>
              if isInPartition oldNode False then Inl CannotMoveBetweenPartitions
              else moveNode T L oldPath newPath oldNode s)))"
  by pat_completeness auto

termination
  by (relation "measure (\<lambda>(T, L, oldPath, newPath, s). length oldPath)") (auto dest!: partitionSubpath_shorter(1))

declare existsInternal.simps [simp del] removeInternal.simps [simp del] moveInternal.simps [simp del]

end
