(* ===== verification/Directory_Tree.thy ===== *)
theory Directory_Tree
  imports Directory_Engine
begin

text \<open>
  The directory tree that the metadata rows of a layer describe: a function from paths to prefixes. Also
  the invariant of the metadata: the rows are well formed, no prefix extends another, every node has one
  parent and is reached from the root. Everything here is about the store as a function of keys.
\<close>

section \<open>Rows of nodes\<close>

definition NK :: "bytes \<Rightarrow> bytes \<Rightarrow> tuple \<Rightarrow> bytes" where
  "NK N q rest = N @ encs False (Bytes q # rest)"

lemma NK_eq [simp]: "tuple_ok r1 \<Longrightarrow> tuple_ok r2 \<Longrightarrow> NK N q1 r1 = NK N q2 r2 \<longleftrightarrow> q1 = q2 \<and> r1 = r2"
  using key_eq [of "Bytes q1 # r1" "Bytes q2 # r2" N] by (simp add: NK_def del: key_eq encs_simps append_same_eq)

lemma NK_less: "tuple_ok r1 \<Longrightarrow> tuple_ok r2 \<Longrightarrow> NK N q1 r1 < NK N q2 r2 \<longleftrightarrow> q1 < q2 \<or> q1 = q2 \<and> tuple_less r1 r2"
  using tuples.key_less [of "Bytes q1 # r1" "Bytes q2 # r2" N] by (simp add: NK_def del: encs_simps)

lemma NK_in_range:
  "tuple_ok r1 \<Longrightarrow> tuple_ok r2 \<Longrightarrow>
     NK N q1 r1 @ [NIL] \<le> NK N q2 r2 \<and> NK N q2 r2 < NK N q1 r1 @ [ESCAPE] \<longleftrightarrow> q1 = q2 \<and> strict_prefix r1 r2"
  using key_in_range [of "Bytes q1 # r1" "Bytes q2 # r2" N] by (simp add: NK_def del: encs_simps)

lemma NK_in_all: "tuple_ok r \<Longrightarrow> N @ [NIL] \<le> NK N q r \<and> NK N q r < N @ [ESCAPE]"
  using key_in_range [of "[]" "Bytes q # r" N] by (simp add: NK_def strict_prefix_def del: encs_simps) simp

lemma NK_prefix [simp]: "prefix N (NK N q r)"
  by (simp add: NK_def)

lemma range_all_prefix: "N @ [NIL] \<le> k \<Longrightarrow> k < N @ [ESCAPE] \<Longrightarrow> prefix N k"
  using tuples.in_range_iff [of N k] by auto

definition layerKey :: "bytes \<Rightarrow> bytes \<Rightarrow> bytes" where
  "layerKey N q = NK N q [Bytes LAYER]"

definition childKey :: "bytes \<Rightarrow> bytes \<Rightarrow> js_string \<Rightarrow> bytes" where
  "childKey N q n = NK N q [BigInt 0, Str n]"

declare smallInt_few [simp]

lemma row_keys [simp]:
  "layerKey N q1 = layerKey N q2 \<longleftrightarrow> q1 = q2"
  "wellFormed n1 \<Longrightarrow> wellFormed n2 \<Longrightarrow> childKey N q1 n1 = childKey N q2 n2 \<longleftrightarrow> q1 = q2 \<and> n1 = n2"
  "wellFormed n \<Longrightarrow> layerKey N q1 \<noteq> childKey N q2 n"
  "wellFormed n \<Longrightarrow> childKey N q2 n \<noteq> layerKey N q1"
  by (auto simp: layerKey_def childKey_def)

section \<open>The tree\<close>

definition childAt :: "bytes \<Rightarrow> store \<Rightarrow> bytes \<Rightarrow> js_string \<Rightarrow> bytes option" where
  "childAt N g q n = (if wellFormed n then g (childKey N q n) else None)"

definition layerAt :: "bytes \<Rightarrow> store \<Rightarrow> bytes \<Rightarrow> bytes" where
  "layerAt N g q = (case g (layerKey N q) of None \<Rightarrow> [] | Some l \<Rightarrow> l)"

fun walk :: "bytes \<Rightarrow> store \<Rightarrow> bytes \<Rightarrow> directory_path \<Rightarrow> bytes option" where
  "walk N g q [] = Some q"
| "walk N g q (n # path) = (case childAt N g q n of None \<Rightarrow> None | Some r \<Rightarrow> walk N g r path)"

text \<open>The directory at a path: its prefix and its layer.\<close>

definition dirAt :: "bytes \<Rightarrow> store \<Rightarrow> directory_path \<Rightarrow> (bytes \<times> bytes) option" where
  "dirAt N g path = map_option (\<lambda>q. (q, layerAt N g q)) (walk N g N path)"

definition nodes :: "bytes \<Rightarrow> store \<Rightarrow> bytes set" where
  "nodes N g = {q. \<exists>rest. tuple_ok rest \<and> rest \<noteq> [] \<and> g (NK N q rest) \<noteq> None}"

lemma nodesI: "g (NK N q rest) = Some v \<Longrightarrow> tuple_ok rest \<Longrightarrow> rest \<noteq> [] \<Longrightarrow> q \<in> nodes N g"
  by (auto simp: nodes_def)

lemma layer_node: "g (layerKey N q) = Some v \<Longrightarrow> q \<in> nodes N g"
  by (rule nodesI) (auto simp: layerKey_def)

lemma child_parent_node: "childAt N g q n = Some r \<Longrightarrow> q \<in> nodes N g"
  by (rule nodesI [of g N q "[BigInt 0, Str n]" r]) (auto simp: childAt_def childKey_def split: if_splits)

lemma walk_append: "walk N g q (path @ path') = (case walk N g q path of None \<Rightarrow> None | Some r \<Rightarrow> walk N g r path')"
  by (induction path arbitrary: q) (auto split: option.split)

lemma walk_snoc: "walk N g q (path @ [n]) = Option.bind (walk N g q path) (\<lambda>r. childAt N g r n)"
  by (auto simp: walk_append split: option.split)

lemma walk_cong: "(\<And>q n. childAt N g' q n = childAt N g q n) \<Longrightarrow> walk N g' q path = walk N g q path"
  by (induction path arbitrary: q) (auto split: option.split)

section \<open>The invariant\<close>

definition tree_ok :: "bytes \<Rightarrow> store \<Rightarrow> bool" where
  "tree_ok N g \<longleftrightarrow>
     (\<forall>q n r. childAt N g q n = Some r \<longrightarrow> r \<noteq> N \<and> g (layerKey N r) \<noteq> None)
   \<and> (\<forall>q n q' n' r. childAt N g q n = Some r \<longrightarrow> childAt N g q' n' = Some r \<longrightarrow> q = q' \<and> n = n')
   \<and> (\<forall>q \<in> nodes N g. \<exists>path. walk N g N path = Some q)"

definition rows_ok :: "bytes \<Rightarrow> store \<Rightarrow> bool" where
  "rows_ok N g \<longleftrightarrow>
     (\<forall>k v. N @ [NIL] \<le> k \<longrightarrow> k < N @ [ESCAPE] \<longrightarrow> g k = Some v \<longrightarrow>
        (\<exists>q rest. tuple_ok rest \<and> rest \<noteq> [] \<and> k = NK N q rest))
   \<and> (\<forall>q rest. tuple_ok rest \<longrightarrow> g (NK N q (BigInt 0 # rest)) \<noteq> None \<longrightarrow> (\<exists>n. rest = [Str n]))"

definition prefixes_free :: "bytes \<Rightarrow> store \<Rightarrow> bool" where
  "prefixes_free N g \<longleftrightarrow>
     (\<forall>q \<in> insert N (nodes N g). \<forall>r \<in> insert N (nodes N g). prefix q r \<longrightarrow> q = r)
   \<and> (\<forall>q \<in> nodes N g. q \<noteq> N \<longrightarrow> strinc q \<noteq> [])"

definition dir_inv :: "bytes \<Rightarrow> store \<Rightarrow> bool" where
  "dir_inv N g \<longleftrightarrow> N \<noteq> [] \<and> rows_ok N g \<and> prefixes_free N g \<and> tree_ok N g"

lemma treeD:
  assumes "tree_ok N g" and "childAt N g q n = Some r"
  shows "r \<noteq> N" and "g (layerKey N r) \<noteq> None" and "r \<in> nodes N g"
    and "childAt N g q' n' = Some r \<Longrightarrow> q = q' \<and> n = n'"
proof -
  show l: "r \<noteq> N" "g (layerKey N r) \<noteq> None" using assms unfolding tree_ok_def by blast+
  then show "r \<in> nodes N g" using layer_node by blast
  show "childAt N g q' n' = Some r \<Longrightarrow> q = q' \<and> n = n'" using assms unfolding tree_ok_def by blast
qed

lemma tree_rooted: "tree_ok N g \<Longrightarrow> q \<in> nodes N g \<Longrightarrow> \<exists>path. walk N g N path = Some q"
  by (auto simp: tree_ok_def)

lemma walk_node: "tree_ok N g \<Longrightarrow> walk N g q path = Some r \<Longrightarrow> q \<in> insert N (nodes N g) \<Longrightarrow> r \<in> insert N (nodes N g)"
  by (induction path arbitrary: q) (auto split: option.splits dest: treeD(3))

text \<open>A node is reached by one path only, from the root and from any node above it.\<close>

lemma walk_unique:
  assumes t: "tree_ok N g" and "walk N g N p1 = Some r" and "walk N g N p2 = Some r"
  shows "p1 = p2"
  using assms(2,3)
proof (induction p1 arbitrary: p2 r rule: rev_induct)
  case Nil
  then show ?case using treeD(1) [OF t]
    by (cases p2 rule: rev_cases) (auto simp: walk_append split: option.splits)
next
  case (snoc n p1)
  then obtain q where q: "walk N g N p1 = Some q" "childAt N g q n = Some r"
    by (auto simp: walk_snoc bind_eq_Some_conv)
  with snoc.prems(2) treeD(1) [OF t q(2)] obtain q' p2' n' where
    "p2 = p2' @ [n']" "walk N g N p2' = Some q'" "childAt N g q' n' = Some r"
    by (cases p2 rule: rev_cases) (auto simp: walk_snoc bind_eq_Some_conv)
  with snoc.IH [OF q(1)] treeD(4) [OF t q(2)] show ?case by metis
qed

lemma walk_below:
  assumes "tree_ok N g" and "walk N g N path = Some q" and "walk N g q p1 = Some r" and "walk N g N p2 = Some r"
  shows "p2 = path @ p1"
  using assms walk_unique [of N g "path @ p1" r p2] by (simp add: walk_append)

lemma dir_inv_tree: "dir_inv N g \<Longrightarrow> tree_ok N g"
  and dir_inv_rows: "dir_inv N g \<Longrightarrow> rows_ok N g"
  and dir_inv_free: "dir_inv N g \<Longrightarrow> prefixes_free N g"
  and dir_inv_root: "dir_inv N g \<Longrightarrow> N \<noteq> []"
  by (auto simp: dir_inv_def)

lemma prefixes_freeD:
  "prefixes_free N g \<Longrightarrow> q \<in> insert N (nodes N g) \<Longrightarrow> r \<in> insert N (nodes N g) \<Longrightarrow> prefix q r \<Longrightarrow> q = r"
  unfolding prefixes_free_def by blast

section \<open>The tree after a change of the rows\<close>

lemma walk_add:
  assumes t: "tree_ok N g" and q: "walk N g N path = Some q" and none: "childAt N g q n = None"
    and p: "p \<notin> insert N (nodes N g)"
    and g': "\<And>a m. childAt N g' a m = (if a = q \<and> m = n then Some p else childAt N g a m)"
  shows "walk N g' N path' = (if path' = path @ [n] then Some p else walk N g N path')"
proof (induction path' rule: rev_induct)
  case (snoc m xs)
  have new: "walk N g N (path @ [n]) = None" using q none by (simp add: walk_snoc)
  have pq: "p \<noteq> q" using walk_node [OF t q] p by auto
  show ?case
  proof (cases "xs = path @ [n]")
    case True
    have "childAt N g p m = None" using p child_parent_node [of N g p m] by (cases "childAt N g p m") auto
    then show ?thesis unfolding walk_snoc using snoc True pq new by (simp add: g')
  next
    case False
    have "r = q \<longleftrightarrow> xs = path" if "walk N g N xs = Some r" for r
      using that q walk_unique [OF t] by fastforce
    then show ?thesis using snoc False q none by (cases "walk N g N xs") (auto simp: walk_snoc g')
  qed
qed simp

lemma walk_move:
  assumes t: "tree_ok N g" and q1: "walk N g N path1 = Some q1" and q2: "walk N g N path2 = Some q2"
    and p: "childAt N g q1 n1 = Some p" and none: "childAt N g q2 n2 = None"
    and apart: "\<not> prefix (path1 @ [n1]) path2"
    and g': "\<And>a m. childAt N g' a m =
      (if a = q1 \<and> m = n1 then None else if a = q2 \<and> m = n2 then Some p else childAt N g a m)"
  shows "walk N g' N path' =
    (if prefix (path2 @ [n2]) path' then walk N g N ((path1 @ [n1]) @ drop (length (path2 @ [n2])) path')
     else if prefix (path1 @ [n1]) path' then None else walk N g N path')"
proof (induction path' rule: rev_induct)
  case Nil
  then show ?case by simp
next
  case (snoc m xs)
  have new: "walk N g N (path2 @ [n2]) = None" using q2 none by (simp add: walk_snoc)
  have e1: "r = q1 \<longleftrightarrow> ys = path1" and e2: "r = q2 \<longleftrightarrow> ys = path2" if "walk N g N ys = Some r" for r ys
    using that q1 q2 walk_unique [OF t] by fastforce+
  have no_new: "\<not> prefix (path2 @ [n2]) ys" if "walk N g N ys = Some r" for ys r
    using that new by (auto simp: prefix_def walk_append split: option.splits)
  consider (at_new) "xs = path2" "m = n2" | (below_new) "prefix (path2 @ [n2]) xs"
    | (at_old) "xs = path1" "m = n1" "\<not> prefix (path2 @ [n2]) (xs @ [m])"
    | (below_old) "prefix (path1 @ [n1]) xs" "\<not> prefix (path2 @ [n2]) (xs @ [m])"
    | (off) "\<not> prefix (path2 @ [n2]) (xs @ [m])" "\<not> prefix (path1 @ [n1]) (xs @ [m])"
    by (cases "prefix (path2 @ [n2]) (xs @ [m])"; cases "prefix (path1 @ [n1]) (xs @ [m])") (auto simp: prefix_snoc)
  then show ?case
  proof cases
    case at_new
    have "walk N g' N path2 = Some q2" using snoc at_new no_new [OF q2] apart q2 by simp
    moreover have "(q2, n2) \<noteq> (q1, n1)" using p none by auto
    ultimately show ?thesis using at_new q1 p g' [of q2 n2] by (auto simp: walk_snoc)
  next
    case below_new
    let ?ys = "(path1 @ [n1]) @ drop (length (path2 @ [n2])) xs"
    have "prefix (path1 @ [n1]) ?ys" by (rule prefixI [OF refl])
    then have "?ys \<noteq> path1" "?ys \<noteq> path2" using apart by (simp, metis)
    then have "childAt N g' r m = childAt N g r m" if "walk N g N ?ys = Some r" for r
      using e1 [OF that] e2 [OF that] by (simp add: g')
    moreover have "drop (length (path2 @ [n2])) (xs @ [m]) = drop (length (path2 @ [n2])) xs @ [m]"
      using below_new prefix_length_le by fastforce
    ultimately show ?thesis
      using snoc below_new walk_snoc [of N g N ?ys m] by (cases "walk N g N ?ys") (simp_all add: walk_snoc prefix_snoc)
  next
    case at_old
    then show ?thesis using snoc no_new [OF q1] q1 by (auto simp: walk_snoc g')
  next
    case below_old
    then show ?thesis using snoc by (auto simp: walk_snoc prefix_snoc)
  next
    case off
    then have "\<not> prefix (path2 @ [n2]) xs" "\<not> prefix (path1 @ [n1]) xs" by (auto simp: prefix_snoc)
    moreover have "childAt N g' r m = childAt N g r m" if "walk N g N xs = Some r" for r
      using e1 [OF that] e2 [OF that] off by (auto simp: g')
    ultimately show ?thesis using snoc off by (cases "walk N g N xs") (auto simp: walk_snoc)
  qed
qed

lemma walk_remove:
  assumes t: "tree_ok N g" and q: "walk N g N path = Some q" and p: "childAt N g q n = Some p"
    and g': "\<And>a m. childAt N g' a m =
      (if (\<exists>path'. walk N g p path' = Some a) \<or> a = q \<and> m = n then None else childAt N g a m)"
  shows "walk N g' N path' = (if prefix (path @ [n]) path' then None else walk N g N path')"
proof (induction path' rule: rev_induct)
  case (snoc m xs)
  have wp: "walk N g N (path @ [n]) = Some p" using q p by (simp add: walk_snoc)
  have eq: "r = q \<longleftrightarrow> xs = path" "(\<exists>path'. walk N g p path' = Some r) \<longleftrightarrow> prefix (path @ [n]) xs"
    if "walk N g N xs = Some r" for r
  proof -
    show "r = q \<longleftrightarrow> xs = path" using that q walk_unique [OF t] by fastforce
    show "(\<exists>path'. walk N g p path' = Some r) \<longleftrightarrow> prefix (path @ [n]) xs"
    proof
      assume "\<exists>path'. walk N g p path' = Some r"
      then show "prefix (path @ [n]) xs" using walk_below [OF t wp _ that] by (metis prefixI)
    next
      assume "prefix (path @ [n]) xs"
      then obtain zs where "xs = (path @ [n]) @ zs" by (rule prefixE)
      then show "\<exists>path'. walk N g p path' = Some r"
        using that wp walk_append [of N g N "path @ [n]" zs] by auto
    qed
  qed
  show ?case
    using snoc eq by (cases "walk N g N xs") (auto simp: walk_snoc g' prefix_snoc)
qed simp

section \<open>The invariant after a change of the rows\<close>

definition inN :: "bytes \<Rightarrow> bytes \<Rightarrow> bool" where
  "inN N k \<longleftrightarrow> N @ [NIL] \<le> k \<and> k < N @ [ESCAPE]"

lemma inN_NK [simp]: "tuple_ok r \<Longrightarrow> inN N (NK N q r)"
  by (simp add: inN_def NK_in_all)

lemma inN_keys [simp]: "inN N (layerKey N q)" "wellFormed n \<Longrightarrow> inN N (childKey N q n)"
  by (simp_all add: layerKey_def childKey_def)

lemma range_inN:
  assumes "NK N q r @ [NIL] \<le> k" and "k < NK N q r @ [ESCAPE]"
  shows "inN N k"
proof -
  obtain x where "k = NK N q r @ x" using assms tuples.in_range_iff [of "NK N q r" k] by blast
  then have "k = N @ BYTES # esc q @ encs False r @ x" by (simp add: NK_def)
  moreover have "follows (BYTES # esc q @ encs False r @ x)" by simp
  ultimately show ?thesis using tuples.in_range_iff [of N k] unfolding inN_def by blast
qed

lemma inN_prefix: "inN N k \<Longrightarrow> prefix N k"
  unfolding inN_def by (rule range_all_prefix) simp_all

text \<open>A row that may appear: of a node, and if it is in the children's section, a child's.\<close>

definition row_key :: "bytes \<Rightarrow> bytes \<Rightarrow> bool" where
  "row_key N k \<longleftrightarrow> (\<exists>q rest. tuple_ok rest \<and> rest \<noteq> [] \<and> k = NK N q rest
     \<and> (\<forall>r. rest = BigInt 0 # r \<longrightarrow> (\<exists>n. r = [Str n])))"

lemma row_key_keys [simp]: "row_key N (layerKey N q)" "wellFormed n \<Longrightarrow> row_key N (childKey N q n)"
proof -
  show "row_key N (layerKey N q)"
    unfolding row_key_def layerKey_def by (intro exI [of _ q] exI [of _ "[Bytes LAYER]"]) simp
  show "wellFormed n \<Longrightarrow> row_key N (childKey N q n)"
    unfolding row_key_def childKey_def by (intro exI [of _ q] exI [of _ "[BigInt 0, Str n]"]) simp
qed

lemma rows_ok_iff: "rows_ok N g \<longleftrightarrow> (\<forall>k. inN N k \<longrightarrow> g k \<noteq> None \<longrightarrow> row_key N k)"
proof
  assume r: "rows_ok N g"
  show "\<forall>k. inN N k \<longrightarrow> g k \<noteq> None \<longrightarrow> row_key N k"
  proof (intro allI impI)
    fix k assume "inN N k" "g k \<noteq> None"
    then obtain q rest where k: "tuple_ok rest" "rest \<noteq> []" "k = NK N q rest"
      using r unfolding rows_ok_def inN_def by blast
    moreover have "\<exists>n. t = [Str n]" if "rest = BigInt 0 # t" for t
    proof -
      have "tuple_ok t" "g (NK N q (BigInt 0 # t)) \<noteq> None" using that k \<open>g k \<noteq> None\<close> by simp_all
      then show ?thesis using r unfolding rows_ok_def by blast
    qed
    ultimately show "row_key N k" unfolding row_key_def by blast
  qed
next
  assume a: "\<forall>k. inN N k \<longrightarrow> g k \<noteq> None \<longrightarrow> row_key N k"
  show "rows_ok N g" unfolding rows_ok_def
  proof (intro conjI allI impI)
    fix k v assume "N @ [NIL] \<le> k" "k < N @ [ESCAPE]" "g k = Some v"
    then show "\<exists>q rest. tuple_ok rest \<and> rest \<noteq> [] \<and> k = NK N q rest" using a unfolding inN_def row_key_def by blast
  next
    fix q rest assume t: "tuple_ok rest" "g (NK N q (BigInt 0 # rest)) \<noteq> None"
    then have "row_key N (NK N q (BigInt 0 # rest))" using a by simp
    then obtain q' r where r: "tuple_ok r" "NK N q (BigInt 0 # rest) = NK N q' r"
      "\<forall>t. r = BigInt 0 # t \<longrightarrow> (\<exists>n. t = [Str n])" unfolding row_key_def by blast
    then have "r = BigInt 0 # rest" using t by simp
    with r(3) show "\<exists>n. rest = [Str n]" by blast
  qed
qed

lemma inv_cong:
  assumes inv: "dir_inv N g" and same: "\<And>k. inN N k \<Longrightarrow> g' k = g k"
  shows "dir_inv N g'" and "walk N g' N path = walk N g N path" and "layerAt N g' q = layerAt N g q"
    and "nodes N g' = nodes N g"
proof -
  have c: "childAt N g' = childAt N g" using same by (auto simp: childAt_def fun_eq_iff)
  have l: "g' (layerKey N q) = g (layerKey N q)" for q using same by simp
  have k: "tuple_ok rest \<Longrightarrow> g' (NK N q rest) = g (NK N q rest)" for q rest using same by simp
  show n: "nodes N g' = nodes N g" unfolding nodes_def by (metis (no_types, lifting) k)
  have w: "walk N g' q path = walk N g q path" for q path by (rule walk_cong) (simp add: c)
  then show "walk N g' N path = walk N g N path" .
  show "layerAt N g' q = layerAt N g q" using l by (simp add: layerAt_def)
  have "tree_ok N g'" using dir_inv_tree [OF inv] by (simp add: tree_ok_def c l n w)
  moreover have "rows_ok N g'" using dir_inv_rows [OF inv] same by (simp add: rows_ok_iff)
  moreover have "prefixes_free N g'" using dir_inv_free [OF inv] by (simp add: prefixes_free_def n)
  ultimately show "dir_inv N g'" using inv by (simp add: dir_inv_def)
qed

text \<open>The version row and the allocator's rows are rows of the root that are neither children nor its layer.\<close>

definition internal_key :: "bytes \<Rightarrow> bytes \<Rightarrow> bool" where
  "internal_key N k \<longleftrightarrow> (\<exists>b rest. k = NK N N (Bytes b # rest) \<and> tuple_ok rest \<and> b \<noteq> LAYER)"

lemma internal_not_rows: "internal_key N k \<Longrightarrow> k \<noteq> layerKey N q \<and> (wellFormed n \<longrightarrow> k \<noteq> childKey N q n) \<and> row_key N k"
proof -
  assume "internal_key N k"
  then obtain b rest where k: "k = NK N N (Bytes b # rest)" "tuple_ok rest" "b \<noteq> LAYER" by (auto simp: internal_key_def)
  then have "row_key N k" unfolding row_key_def by (intro exI [of _ N] exI [of _ "Bytes b # rest"]) simp
  with k show ?thesis by (auto simp: layerKey_def childKey_def)
qed

lemma inv_internal:
  assumes inv: "dir_inv N g" and same: "\<And>k. inN N k \<Longrightarrow> g' k \<noteq> g k \<Longrightarrow> internal_key N k"
  shows "dir_inv N g'" and "walk N g' a path = walk N g a path" and "layerAt N g' q = layerAt N g q"
    and "insert N (nodes N g') = insert N (nodes N g)" and "childAt N g' a n = childAt N g a n"
proof -
  have keep: "g' (layerKey N q) = g (layerKey N q)" "wellFormed n \<Longrightarrow> g' (childKey N q n) = g (childKey N q n)" for q n
    using same internal_not_rows by (metis inN_keys)+
  have c: "childAt N g' = childAt N g" using keep by (auto simp: childAt_def fun_eq_iff)
  have nk: "q \<noteq> N \<Longrightarrow> tuple_ok rest \<Longrightarrow> g' (NK N q rest) = g (NK N q rest)" for q rest
    using same [of "NK N q rest"] by (cases "g' (NK N q rest) = g (NK N q rest)") (auto simp: internal_key_def)
  then have n: "q \<noteq> N \<Longrightarrow> q \<in> nodes N g' \<longleftrightarrow> q \<in> nodes N g" for q by (auto simp: nodes_def)
  then show i: "insert N (nodes N g') = insert N (nodes N g)" by blast
  have w: "walk N g' q path = walk N g q path" for q path by (rule walk_cong) (simp add: c)
  then show "walk N g' a path = walk N g a path" .
  show "layerAt N g' q = layerAt N g q" using keep by (simp add: layerAt_def)
  show "childAt N g' a n = childAt N g a n" by (simp add: c)
  have "\<exists>path. walk N g' N path = Some q" if "q \<in> nodes N g'" for q
    using that n tree_rooted [OF dir_inv_tree [OF inv]] w by (cases "q = N") (auto intro: exI [of _ "[]"])
  then have "tree_ok N g'" using dir_inv_tree [OF inv] unfolding tree_ok_def c keep by blast
  moreover have "rows_ok N g'" unfolding rows_ok_iff
    using dir_inv_rows [OF inv] same internal_not_rows unfolding rows_ok_iff by metis
  moreover have "prefixes_free N g'" using dir_inv_free [OF inv] n unfolding prefixes_free_def i by blast
  ultimately show "dir_inv N g'" using inv by (simp add: dir_inv_def)
qed

text \<open>A prefix that neither extends nor is extended by one in use.\<close>

definition free_prefix :: "bytes \<Rightarrow> store \<Rightarrow> bytes \<Rightarrow> bool" where
  "free_prefix N g p \<longleftrightarrow> (\<forall>r \<in> insert N (nodes N g). \<not> prefix r p \<and> \<not> prefix p r)"

lemma free_new: "free_prefix N g p \<Longrightarrow> p \<notin> insert N (nodes N g)"
  unfolding free_prefix_def by (metis prefix_order.order_refl)

lemma inv_add:
  assumes inv: "dir_inv N g" and q: "walk N g N path = Some q" and n: "wellFormed n" and none: "childAt N g q n = None"
    and p: "free_prefix N g p" "strinc p \<noteq> []"
    and g': "\<And>k. inN N k \<Longrightarrow> g' k = (g(childKey N q n := Some p, layerKey N p := Some l)) k"
  shows "dir_inv N g'" and "dirAt N g' path' = (if path' = path @ [n] then Some (p, l) else dirAt N g path')"
    and "insert N (nodes N g') = insert p (insert N (nodes N g))"
proof -
  note t = dir_inv_tree [OF inv]
  have c: "childAt N g' a m = (if a = q \<and> m = n then Some p else childAt N g a m)" for a m
    using n by (auto simp: childAt_def g')
  have l: "g' (layerKey N a) = (if a = p then Some l else g (layerKey N a))" for a using n by (simp add: g')
  have qn: "q \<in> insert N (nodes N g)" using walk_node [OF t q] by simp
  have "g' (NK N a rest) = g (NK N a rest)" if "a \<noteq> q" "a \<noteq> p" "tuple_ok rest" for a rest
    using that n by (simp add: g' layerKey_def childKey_def)
  then have same: "a \<noteq> q \<Longrightarrow> a \<noteq> p \<Longrightarrow> a \<in> nodes N g' \<longleftrightarrow> a \<in> nodes N g" for a by (auto simp: nodes_def)
  have "p \<in> nodes N g'" using l [of p] layer_node by simp
  moreover have "q \<in> nodes N g'" using c [of q n] child_parent_node by simp
  ultimately show i: "insert N (nodes N g') = insert p (insert N (nodes N g))"
    using same qn by (intro set_eqI) (metis insert_iff)
  have w: "walk N g' N w = (if w = path @ [n] then Some p else walk N g N w)" for w
    by (rule walk_add [OF t q none free_new [OF p(1)] c])
  have ne: "a \<noteq> p" if "walk N g N w = Some a" for a w using walk_node [OF t that] free_new [OF p(1)] by blast
  show "dirAt N g' path' = (if path' = path @ [n] then Some (p, l) else dirAt N g path')"
  proof (cases "path' = path @ [n]")
    case False
    then show ?thesis using ne by (cases "walk N g N path'") (auto simp: dirAt_def w layerAt_def l)
  qed (simp add: dirAt_def w layerAt_def l)
  have no_p: "childAt N g a m \<noteq> Some p" for a m using treeD(3) [OF t] free_new [OF p(1)] by blast
  have pn: "walk N g N (path @ [n]) = None" using q none by (simp add: walk_snoc)
  have "tree_ok N g'"
    unfolding tree_ok_def
  proof (intro conjI allI impI ballI)
    fix a m r assume "childAt N g' a m = Some r"
    then show "r \<noteq> N" "g' (layerKey N r) \<noteq> None"
      using free_new [OF p(1)] treeD(1,2) [OF t] by (auto simp: c l split: if_splits)
  next
    fix a m a' m' r assume "childAt N g' a m = Some r" "childAt N g' a' m' = Some r"
    then show "a = a'" "m = m'" using no_p treeD(4) [OF t, of a m r a' m'] by (auto simp: c split: if_splits)
  next
    fix a assume "a \<in> nodes N g'"
    then have "a \<in> insert p (insert N (nodes N g))" using i by blast
    then consider "a = p" | "a = N" | "a \<in> nodes N g" by blast
    then show "\<exists>w. walk N g' N w = Some a"
    proof cases
      case 3
      then obtain v where v: "walk N g N v = Some a" using tree_rooted [OF t] by blast
      then have "walk N g' N v = Some a" using pn by (auto simp: w)
      then show ?thesis by blast
    next
      case 2
      then show ?thesis by (metis walk.simps(1))
    qed (use w [of "path @ [n]"] in auto)
  qed
  moreover have "rows_ok N g'"
    using dir_inv_rows [OF inv] n unfolding rows_ok_iff by (auto simp: g' split: if_splits)
  moreover have "prefixes_free N g'"
    unfolding prefixes_free_def i
  proof (intro conjI ballI impI)
    fix a b assume "a \<in> insert p (insert N (nodes N g))" "b \<in> insert p (insert N (nodes N g))" "prefix a b"
    then show "a = b"
      using p(1) prefixes_freeD [OF dir_inv_free [OF inv], of a b] unfolding free_prefix_def by blast
  next
    fix a assume "a \<in> nodes N g'" "a \<noteq> N"
    then have "a = p \<or> a \<in> nodes N g" using i by blast
    then show "strinc a \<noteq> []" using p(2) dir_inv_free [OF inv] \<open>a \<noteq> N\<close> unfolding prefixes_free_def by blast
  qed
  ultimately show "dir_inv N g'" using inv by (simp add: dir_inv_def)
qed

lemma prefixes_free_sub:
  assumes f: "prefixes_free N g" and sub: "insert N (nodes N g') \<subseteq> insert N (nodes N g)"
  shows "prefixes_free N g'"
  unfolding prefixes_free_def
proof (intro conjI ballI impI)
  fix q r assume "q \<in> insert N (nodes N g')" "r \<in> insert N (nodes N g')" "prefix q r"
  then show "q = r" using sub by (intro prefixes_freeD [OF f]) blast+
next
  fix q assume "q \<in> nodes N g'" "q \<noteq> N"
  then have "q \<in> nodes N g" using sub by blast
  with f \<open>q \<noteq> N\<close> show "strinc q \<noteq> []" unfolding prefixes_free_def by blast
qed

lemma inv_move:
  assumes inv: "dir_inv N g" and q1: "walk N g N path1 = Some q1" and q2: "walk N g N path2 = Some q2"
    and n: "wellFormed n1" "wellFormed n2"
    and p: "childAt N g q1 n1 = Some p" and none: "childAt N g q2 n2 = None"
    and apart: "\<not> prefix (path1 @ [n1]) path2"
    and g': "\<And>k. inN N k \<Longrightarrow> g' k = (g(childKey N q2 n2 := Some p, childKey N q1 n1 := None)) k"
  shows "dir_inv N g'"
    and "dirAt N g' path' =
      (if prefix (path2 @ [n2]) path' then dirAt N g ((path1 @ [n1]) @ drop (length (path2 @ [n2])) path')
       else if prefix (path1 @ [n1]) path' then None else dirAt N g path')"
    and "insert N (nodes N g') \<subseteq> insert N (nodes N g)"
proof -
  note t = dir_inv_tree [OF inv]
  have ne: "\<not> (q1 = q2 \<and> n1 = n2)" using p none by auto
  have c: "childAt N g' a m =
      (if a = q1 \<and> m = n1 then None else if a = q2 \<and> m = n2 then Some p else childAt N g a m)" for a m
    using n by (auto simp: childAt_def g')
  have l: "g' (layerKey N a) = g (layerKey N a)" for a using n by (simp add: g')
  note w = walk_move [OF t q1 q2 p none apart c]
  show "dirAt N g' path' =
      (if prefix (path2 @ [n2]) path' then dirAt N g ((path1 @ [n1]) @ drop (length (path2 @ [n2])) path')
       else if prefix (path1 @ [n1]) path' then None else dirAt N g path')"
    by (simp add: dirAt_def w layerAt_def l)
  have "g' k \<noteq> None \<Longrightarrow> k = childKey N q2 n2 \<or> g k \<noteq> None" if "inN N k" for k
    using that by (auto simp: g' split: if_splits)
  then have rows: "g' k \<noteq> None \<Longrightarrow> inN N k \<Longrightarrow> k = childKey N q2 n2 \<or> g k \<noteq> None" for k by blast
  have sub: "a = q2 \<or> a \<in> nodes N g" if a: "a \<in> nodes N g'" for a
  proof -
    obtain rest where r: "tuple_ok rest" "rest \<noteq> []" "g' (NK N a rest) \<noteq> None" using a unfolding nodes_def by blast
    then have "NK N a rest = childKey N q2 n2 \<or> g (NK N a rest) \<noteq> None" using rows by simp
    then show ?thesis using r n(2) by (auto simp: childKey_def nodes_def)
  qed
  then show i: "insert N (nodes N g') \<subseteq> insert N (nodes N g)" using walk_node [OF t q2] by auto
  have new: "walk N g N (path2 @ [n2]) = None" using q2 none by (simp add: walk_snoc)
  have unew: "\<not> prefix (path2 @ [n2]) v" if "walk N g N v = Some a" for v a
    using that new walk_append [of N g N "path2 @ [n2]"] by (auto elim: prefixE)
  have "tree_ok N g'"
    unfolding tree_ok_def
  proof (intro conjI allI impI ballI)
    fix a m r assume "childAt N g' a m = Some r"
    then obtain a' m' where "childAt N g a' m' = Some r" using p by (auto simp: c split: if_splits)
    then show "r \<noteq> N" "g' (layerKey N r) \<noteq> None" using treeD(1,2) [OF t] by (auto simp: l)
  next
    fix a m a' m' r assume "childAt N g' a m = Some r" "childAt N g' a' m' = Some r"
    moreover have "childAt N g a m = Some p \<Longrightarrow> a = q1 \<and> m = n1" for a m using treeD(4) [OF t p] by blast
    ultimately show "a = a'" "m = m'" using treeD(4) [OF t, of a m r a' m'] by (auto simp: c split: if_splits)
  next
    fix a assume "a \<in> nodes N g'"
    then have "a \<in> insert N (nodes N g)" using i by blast
    then obtain v where v: "walk N g N v = Some a" using tree_rooted [OF t] by (metis insert_iff walk.simps(1))
    show "\<exists>w. walk N g' N w = Some a"
    proof (cases "prefix (path1 @ [n1]) v")
      case True
      then obtain v' where v': "v = (path1 @ [n1]) @ v'" by (rule prefixE)
      have "walk N g' N ((path2 @ [n2]) @ v') = Some a" using v by (simp add: w v')
      then show ?thesis by blast
    next
      case False
      then show ?thesis using v unew [OF v] w [of v] by auto
    qed
  qed
  moreover have "rows_ok N g'"
    using dir_inv_rows [OF inv] n rows unfolding rows_ok_iff by (metis row_key_keys(2))
  moreover have "prefixes_free N g'"
    by (rule prefixes_free_sub [OF dir_inv_free [OF inv] i])
  ultimately show "dir_inv N g'" using inv by (simp add: dir_inv_def)
qed

text \<open>The nodes at and below a node.\<close>

definition below :: "bytes \<Rightarrow> store \<Rightarrow> bytes \<Rightarrow> bytes set" where
  "below N g p = {r. \<exists>path. walk N g p path = Some r}"

lemma below_parent:
  assumes t: "tree_ok N g" and "r \<in> below N g p" and "r \<noteq> p" and "childAt N g a m = Some r"
  shows "a \<in> below N g p"
proof -
  obtain w where w: "walk N g p w = Some r" using assms(2) by (auto simp: below_def)
  with assms(3) obtain v n where v: "w = v @ [n]" by (cases w rule: rev_cases) auto
  with w obtain b where b: "walk N g p v = Some b" "childAt N g b n = Some r"
    by (auto simp: walk_snoc bind_eq_Some_conv)
  then have "a = b" using treeD(4) [OF t assms(4)] by blast
  with b show ?thesis by (auto simp: below_def)
qed

lemma inv_remove:
  assumes inv: "dir_inv N g" and q: "walk N g N path = Some q" and n: "wellFormed n" and p: "childAt N g q n = Some p"
    and g': "\<And>k. inN N k \<Longrightarrow> g' k =
      (if (\<exists>r \<in> below N g p. \<exists>rest. tuple_ok rest \<and> rest \<noteq> [] \<and> k = NK N r rest) \<or> k = childKey N q n
       then None else g k)"
  shows "dir_inv N g'" and "dirAt N g' path' = (if prefix (path @ [n]) path' then None else dirAt N g path')"
    and "nodes N g' \<subseteq> nodes N g - below N g p"
proof -
  note t = dir_inv_tree [OF inv]
  have k: "g' (NK N a rest) = (if a \<in> below N g p \<or> NK N a rest = childKey N q n then None else g (NK N a rest))"
    if "tuple_ok rest" "rest \<noteq> []" for a rest
    using that by (auto simp: g')
  have c: "childAt N g' a m =
      (if (\<exists>path'. walk N g p path' = Some a) \<or> a = q \<and> m = n then None else childAt N g a m)" for a m
    using n k [of "[BigInt 0, Str m]" a] by (auto simp: childAt_def below_def childKey_def)
  have l: "g' (layerKey N a) = (if a \<in> below N g p then None else g (layerKey N a))" for a
    using n k [of "[Bytes LAYER]" a] by (auto simp: layerKey_def childKey_def)
  note w = walk_remove [OF t q p c]
  have wp: "walk N g N (path @ [n]) = Some p" using q p by (simp add: walk_snoc)
  have out: "a \<notin> below N g p" if "walk N g N v = Some a" "\<not> prefix (path @ [n]) v" for v a
    using that walk_below [OF t wp _ that(1)] by (auto simp: below_def)
  show "dirAt N g' path' = (if prefix (path @ [n]) path' then None else dirAt N g path')"
    using out by (cases "walk N g N path'") (auto simp: dirAt_def w layerAt_def l)
  show sub: "nodes N g' \<subseteq> nodes N g - below N g p"
    using k unfolding nodes_def by (auto split: if_splits)
  have "tree_ok N g'"
    unfolding tree_ok_def
  proof (intro conjI allI impI ballI)
    fix a m r assume "childAt N g' a m = Some r"
    then have r: "a \<notin> below N g p" "\<not> (a = q \<and> m = n)" "childAt N g a m = Some r"
      by (auto simp: c below_def split: if_splits)
    then have "r \<noteq> p" using treeD(4) [OF t p] by blast
    then have "r \<notin> below N g p" using below_parent [OF t _ _ r(3)] r(1) by blast
    with treeD(1,2) [OF t r(3)] show "r \<noteq> N" "g' (layerKey N r) \<noteq> None" by (auto simp: l)
  next
    fix a m a' m' r assume "childAt N g' a m = Some r" "childAt N g' a' m' = Some r"
    then have "childAt N g a m = Some r" "childAt N g a' m' = Some r" unfolding c by (metis option.simps(3))+
    then show "a = a'" "m = m'" using treeD(4) [OF t] by blast+
  next
    fix a assume "a \<in> nodes N g'"
    then have a: "a \<in> nodes N g" "a \<notin> below N g p" using sub by blast+
    then obtain v where v: "walk N g N v = Some a" using tree_rooted [OF t] by blast
    have "\<not> prefix (path @ [n]) v"
    proof
      assume "prefix (path @ [n]) v"
      then obtain v' where "v = (path @ [n]) @ v'" by (rule prefixE)
      then have "walk N g p v' = Some a" using v wp walk_append [of N g N "path @ [n]" v'] by simp
      with a(2) show False by (auto simp: below_def)
    qed
    then show "\<exists>w. walk N g' N w = Some a" using v w by auto
  qed
  moreover have "rows_ok N g'"
    using dir_inv_rows [OF inv] unfolding rows_ok_iff by (metis g')
  moreover have "prefixes_free N g'"
    using sub by (intro prefixes_free_sub [OF dir_inv_free [OF inv]]) blast
  ultimately show "dir_inv N g'" using inv by (simp add: dir_inv_def)
qed

end
