(* ===== verification/Directory_Operations.thy ===== *)
theory Directory_Operations
  imports Directory_Tree
begin

text \<open>
  What the operations of the directory layer do to the tree: finding a node is a walk from the root, the
  check for a free prefix is exact, and creating, moving and removing change the tree at their paths and
  nowhere else.
\<close>

definition layer_ok :: "directory_layer \<Rightarrow> bytes \<Rightarrow> bool" where
  "layer_ok L N \<longleftrightarrow> N \<noteq> [] \<and> prefix_bytes (nodeSubspace L) = N \<and> prefix_bytes (rootNode L) = NK N N []
     \<and> prefix_bytes (allocator L) = NK N N [Bytes HCA]"

section \<open>Keys of nodes\<close>

lemma mapTupleError_Inr [simp]: "mapTupleError m = Inr x \<longleftrightarrow> m = Inr x"
  by (cases m) (auto simp: mapTupleError_def)

lemma packed_Inr: "packed sub t = Inr k \<longleftrightarrow> list_all packable t \<and> k = prefix_bytes sub @ encs False t"
  by (simp add: packed_def subspace_pack_Inr)

lemma packed_node:
  "prefix_bytes sub = NK N q r \<Longrightarrow> packed sub t = Inr k \<longleftrightarrow> list_all packable t \<and> k = NK N q (r @ t)"
  by (simp add: packed_Inr NK_def)

lemma childSubspace_Inr: "childSubspace sub t = Inr c \<Longrightarrow> prefix_bytes c = prefix_bytes sub @ encs False t"
  by (simp add: childSubspace_def subspace_Inr)

lemma childSubspace_packable: "childSubspace sub t = Inr c \<Longrightarrow> list_all packable t"
  using appendValue_error(2) [of t "[]" False "[]"]
  by (cases "list_all packable t") (auto simp: childSubspace_def subspace_def packTrackedSync_def bindR_eq_Inr)

lemma childSubspace_ok: "list_all packable t \<Longrightarrow> \<exists>c. childSubspace sub t = Inr c"
  by (auto simp: childSubspace_def mapTupleError_def subspace_def packTrackedSync_enc)

lemma childSubspace_node:
  "childSubspace sub t = Inr c \<Longrightarrow> prefix_bytes sub = NK N q r \<Longrightarrow> prefix_bytes c = NK N q (r @ t)"
  by (simp add: childSubspace_Inr NK_def)

lemma subspaceRange_node:
  "prefix_bytes sub = NK N q r \<Longrightarrow> subspaceRange sub t = Inr (b, e) \<longleftrightarrow>
     list_all packable t \<and> b = NK N q (r @ t) @ [NIL] \<and> e = NK N q (r @ t) @ [ESCAPE]"
  by (simp add: subspaceRange_def subspace_range_Inr NK_def)

lemma unpacked_node:
  "prefix_bytes sub = N \<Longrightarrow> tuple_ok r \<Longrightarrow> unpacked sub (NK N q r) = Inr (Bytes q # r)"
  using subspace_unpack_enc [of "Bytes q # r" sub]
  by (simp add: unpacked_def mapTupleError_def NK_def del: encs_simps)

lemma unpacked_below:
  "prefix_bytes sub = NK N q r \<Longrightarrow> tuple_ok t \<Longrightarrow> unpacked sub (NK N q (r @ t)) = Inr t"
  using subspace_unpack_enc [of t sub]
  by (simp add: unpacked_def mapTupleError_def NK_def)

lemma nodeWithPrefix_Inr:
  "layer_ok L N \<Longrightarrow> nodeWithPrefix L p = Inr node \<Longrightarrow> prefix_bytes node = NK N p []"
  by (auto simp: nodeWithPrefix_def layer_ok_def NK_def dest!: childSubspace_Inr)

lemma nodeWithPrefix_ok: "\<exists>node. nodeWithPrefix L p = Inr node"
  by (simp add: nodeWithPrefix_def childSubspace_ok)

lemma layer_root: "layer_ok L N \<Longrightarrow> prefix_bytes (rootNode L) = NK N N []"
  and layer_nodes: "layer_ok L N \<Longrightarrow> prefix_bytes (nodeSubspace L) = N"
  and layer_allocator: "layer_ok L N \<Longrightarrow> prefix_bytes (allocator L) = NK N N [Bytes HCA]"
  and layer_nonempty: "layer_ok L N \<Longrightarrow> N \<noteq> []"
  by (simp_all add: layer_ok_def)

section \<open>Finding\<close>

lemma loadLayer_Inr:
  "prefix_bytes node = NK N q [] \<Longrightarrow> loadLayer T s node = Inr l \<longleftrightarrow> l = layerAt N (tx_get T s) q"
  by (auto simp: loadLayer_def bindR_eq_Inr packed_node layerAt_def layerKey_def)

lemma findLoop_walk:
  assumes L: "layer_ok L N"
  shows "findLoop T L s node nl cur path = Inr r \<Longrightarrow> prefix_bytes node = NK N q [] \<Longrightarrow>
    (case r of
       None \<Rightarrow> walk N (tx_get T s) q path = None
     | Some (n, l, c) \<Rightarrow> \<exists>sub rest a. c = cur @ sub \<and> path = sub @ rest \<and> walk N (tx_get T s) q sub = Some a
         \<and> prefix_bytes n = NK N a [] \<and> l = (if sub = [] then nl else layerAt N (tx_get T s) a)
         \<and> (rest \<noteq> [] \<longrightarrow> sub \<noteq> [] \<and> l = PARTITION) \<and> list_all wellFormed sub)"
proof (induction path arbitrary: node nl cur q)
  case (Cons n path)
  from Cons.prems have wf: "wellFormed n" by (auto simp: bindR_eq_Inr packed_node)
  have child: "childAt N (tx_get T s) q n = tx_get T s (NK N q [BigInt 0, Str n])"
    using wf by (simp add: childAt_def childKey_def)
  show ?case
  proof (cases "tx_get T s (NK N q [BigInt 0, Str n])")
    case None
    then show ?thesis using Cons.prems by (auto simp: bindR_eq_Inr packed_node child)
  next
    case (Some p)
    with Cons.prems obtain node' where node': "nodeWithPrefix L p = Inr node'"
      and load: "bindR (loadLayer T s node') (\<lambda>l.
        if equalBytes l PARTITION then Inr (Some (node', l, cur @ [n]))
        else findLoop T L s node' l (cur @ [n]) path) = Inr r"
      by (auto simp: bindR_eq_Inr packed_node)
    note at = nodeWithPrefix_Inr [OF L node']
    have "loadLayer T s node' = Inr (layerAt N (tx_get T s) p)" using loadLayer_Inr [OF at, of T s] by simp
    with load have r: "if layerAt N (tx_get T s) p = PARTITION then r = Some (node', PARTITION, cur @ [n])
        else findLoop T L s node' (layerAt N (tx_get T s) p) (cur @ [n]) path = Inr r"
      by auto
    show ?thesis
    proof (cases "layerAt N (tx_get T s) p = PARTITION")
      case True
      with r have "r = Some (node', PARTITION, cur @ [n])" by simp
      then show ?thesis using True Some at wf
        by (auto simp: child intro!: exI [of _ "[n]"])
    next
      case False
      with r have f: "findLoop T L s node' (layerAt N (tx_get T s) p) (cur @ [n]) path = Inr r" by simp
      show ?thesis
      proof (cases r)
        case None
        then show ?thesis using Cons.IH [OF f at] Some child by simp
      next
        case r': (Some x)
        obtain m l c where x: "x = (m, l, c)" by (cases x)
        with Cons.IH [OF f at] r' obtain sub rest a where
          "c = (cur @ [n]) @ sub" "path = sub @ rest" "walk N (tx_get T s) p sub = Some a"
          "prefix_bytes m = NK N a []"
          "l = (if sub = [] then layerAt N (tx_get T s) p else layerAt N (tx_get T s) a)"
          "rest \<noteq> [] \<longrightarrow> sub \<noteq> [] \<and> l = PARTITION" "list_all wellFormed sub" by auto
        then show ?thesis using r' x Some child wf
          by (auto intro!: exI [of _ "n # sub"] exI [of _ rest] exI [of _ a])
      qed
    qed
  qed
next
  case Nil
  then show ?case by (auto intro!: exI [of _ "[]"])
qed

text \<open>
  A path that does not lead into a partition is found exactly if the tree has it, with the layer of
  the directory; otherwise a node that is found is the partition that the path leads into.
\<close>

lemma findNode_None:
  assumes "layer_ok L N" and "findNode T L path s = Inr None"
  shows "walk N (tx_get T s) N path = None"
proof -
  have "findLoop T L s (rootNode L) [] [] path = Inr None"
  proof (cases "findLoop T L s (rootNode L) [] [] path")
    case (Inr x)
    with assms(2) show ?thesis by (cases x) (auto simp: findNode_def bindR_eq_Inr)
  qed (use assms(2) in \<open>simp add: findNode_def\<close>)
  from findLoop_walk [OF assms(1) this layer_root [OF assms(1)]] show ?thesis by simp
qed

lemma findNode_Some:
  assumes L: "layer_ok L N" and f: "findNode T L path s = Inr (Some node)"
  obtains rest a where "path = currentPath node @ rest" and "targetPath node = path"
    and "walk N (tx_get T s) N (currentPath node) = Some a"
    and "prefix_bytes (node_subspace node) = NK N a []" and "node_layer node = layerAt N (tx_get T s) a"
    and "rest \<noteq> [] \<Longrightarrow> currentPath node \<noteq> [] \<and> isInPartition node False" and "list_all wellFormed (currentPath node)"
proof -
  obtain n l c where loop: "findLoop T L s (rootNode L) [] [] path = Inr (Some (n, l, c))"
    and node: "node_subspace node = n" "currentPath node = c" "targetPath node = path"
      "(if path = [] then loadLayer T s n else Inr l) = Inr (node_layer node)"
    using f by (auto simp: findNode_def bindR_eq_Inr split: option.splits)
  from findLoop_walk [OF L loop layer_root [OF L]] obtain rest a where
    w: "path = c @ rest" "walk N (tx_get T s) N c = Some a" "prefix_bytes n = NK N a []"
      "l = (if c = [] then [] else layerAt N (tx_get T s) a)" "rest \<noteq> [] \<longrightarrow> c \<noteq> [] \<and> l = PARTITION"
      "list_all wellFormed c"
    by auto
  have "node_layer node = layerAt N (tx_get T s) a"
  proof (cases "path = []")
    case True
    then show ?thesis using node(4) loadLayer_Inr [OF w(3), of T s] by simp
  next
    case False
    then show ?thesis using node(4) w(1,4,5) by auto
  qed
  moreover have "rest \<noteq> [] \<Longrightarrow> currentPath node \<noteq> [] \<and> isInPartition node False"
    using w(1,4,5) node(2,3) \<open>node_layer node = layerAt N (tx_get T s) a\<close> by (auto simp: isInPartition_def)
  ultimately show ?thesis using that w node by metis
qed

section \<open>The version row\<close>

definition versionKey :: "bytes \<Rightarrow> bytes" where
  "versionKey N = NK N N [Bytes VERSION]"

lemma version_internal: "internal_key N (versionKey N)"
  unfolding internal_key_def versionKey_def
  by (intro exI [of _ VERSION] exI [of _ "[]"]) (simp add: VERSION_def LAYER_def)

lemma version_root: "g (versionKey N) = Some v \<Longrightarrow> N \<in> nodes N g"
  by (rule nodesI [of g N N "[Bytes VERSION]"]) (simp_all add: versionKey_def)

lemma version_keys [simp]:
  "versionKey N \<noteq> layerKey N q" "wellFormed n \<Longrightarrow> versionKey N \<noteq> childKey N q n"
  "layerKey N q \<noteq> versionKey N" "wellFormed n \<Longrightarrow> childKey N q n \<noteq> versionKey N"
  using internal_not_rows [OF version_internal] by (simp_all add: eq_commute [of _ "versionKey N"])

context fdb
begin

lemma checkVersion_Inr:
  assumes "layer_ok L N" and "checkVersion T L w s = Inr s'"
  shows "tx_get T s' k \<noteq> tx_get T s k \<Longrightarrow> k = versionKey N" and "w \<Longrightarrow> tx_get T s' (versionKey N) \<noteq> None"
    and "\<not> w \<Longrightarrow> s' = s"
proof -
  have c: "s' = s \<and> tx_get T s (versionKey N) \<noteq> None
      \<or> tx_get T s (versionKey N) = None \<and> s' = (if w then tx_set T (versionKey N) DIRECTORY_VERSION s else s)"
    using assms(2) by (auto simp: checkVersion_def bindR_eq_Inr packed_node [OF layer_root [OF assms(1)]] Let_def
        versionKey_def split: option.splits if_splits)
  show "tx_get T s' k \<noteq> tx_get T s k \<Longrightarrow> k = versionKey N" using c by (auto simp: set_fun split: if_splits)
  show "\<not> w \<Longrightarrow> s' = s" using c by auto
  show "w \<Longrightarrow> tx_get T s' (versionKey N) \<noteq> None" using c by (auto simp: set_fun split: if_splits)
qed

section \<open>The check for a free prefix is exact\<close>

lemma firstInRange_eq:
  "firstInRange T s b e r =
    (let rows = (if r then rev else id) (tx_getRange T s (keyRange b e None False)) in
     if rows = [] then None else Some (hd rows))"
proof -
  let ?rows = "(if r then rev else id) (tx_getRange T s (keyRange b e None False))"
  have "tx_getRange T s (keyRange b e (Some 1) r) = take 1 ?rows"
    by (subst range_options) (simp add: limitRows_def)
  then show ?thesis by (cases ?rows) (simp_all add: firstInRange_def Let_def)
qed

lemma firstInRange_None:
  "firstInRange T s b e r = None \<longleftrightarrow> (\<forall>k. b \<le> k \<longrightarrow> k < e \<longrightarrow> tx_get T s k = None)"
proof -
  have "firstInRange T s b e r = None \<longleftrightarrow> set (tx_getRange T s (keyRange b e None False)) = {}"
    by (simp add: firstInRange_eq Let_def)
  also have "\<dots> \<longleftrightarrow> (\<forall>k. b \<le> k \<longrightarrow> k < e \<longrightarrow> tx_get T s k = None)" unfolding range_rows by auto
  finally show ?thesis .
qed

text \<open>The first row of a reversed range is the greatest of the range.\<close>

lemma sorted_last: "sorted_wrt (<) ks \<Longrightarrow> k \<in> set ks \<Longrightarrow> k \<le> (last ks :: 'a :: linorder)"
  by (induction ks rule: rev_induct) (auto simp: sorted_wrt_append)

lemma firstInRange_last:
  assumes "firstInRange T s b e True = Some (k, v)"
  shows "b \<le> k" and "k < e" and "tx_get T s k = Some v"
    and "b \<le> k' \<Longrightarrow> k' < e \<Longrightarrow> tx_get T s k' \<noteq> None \<Longrightarrow> k' \<le> k"
proof -
  let ?rows = "tx_getRange T s (keyRange b e None False)"
  have ne: "?rows \<noteq> []" and last: "last ?rows = (k, v)"
    using assms by (auto simp: firstInRange_eq Let_def hd_rev split: if_splits)
  then have "(k, v) \<in> set ?rows" by (metis last_in_set)
  then show "b \<le> k" "k < e" "tx_get T s k = Some v" by (auto simp: range_rows)
  assume a: "b \<le> k'" "k' < e" "tx_get T s k' \<noteq> None"
  then obtain v' where "(k', v') \<in> set ?rows" by (auto simp: range_rows)
  then have "k' \<in> set (map fst ?rows)" by force
  from sorted_last [OF range_sorted this] show "k' \<le> k" using last ne by (simp add: last_map)
qed

lemma firstInRange_row: "firstInRange T s b e r = Some (k, v) \<Longrightarrow> b \<le> k \<and> k < e \<and> tx_get T s k = Some v"
proof -
  assume "firstInRange T s b e r = Some (k, v)"
  then have "(k, v) \<in> set (tx_getRange T s (keyRange b e None False))"
    by (auto simp: firstInRange_eq Let_def hd_rev split: if_splits) (metis last_in_set hd_in_set)+
  then show ?thesis by (auto simp: range_rows)
qed

end

lemma prefix_between: "prefix q key \<Longrightarrow> q \<le> r \<Longrightarrow> r \<le> (key :: bytes) \<Longrightarrow> prefix q r"
proof (induction q arbitrary: r key)
  case (Cons a q)
  then obtain key' where key: "key = a # key'" "prefix q key'" by (cases key) auto
  then obtain r' where "r = a # r'" "q \<le> r'" "r' \<le> key'"
    using Cons.prems by (cases r) (auto simp: list_le_def dest: less_asym)
  with Cons.IH [OF key(2)] show ?case by simp
qed simp

lemma tuple_less_Nil [simp]: "\<not> tuple_less t []"
  by (cases t) auto

lemma less_snoc_zero: "(q :: bytes) < key @ [0] \<longleftrightarrow> q \<le> key"
proof (induction q arbitrary: key)
  case Nil
  then show ?case by (simp add: list_le_def)
next
  case (Cons a q)
  have z: "\<not> b < 0" for b :: byte by simp
  show ?case using Cons by (cases key) (auto simp: list_le_def z)
qed

context fdb
begin

lemma nodeContaining_None:
  assumes L: "layer_ok L N" and rows: "rows_ok N (tx_get T s)" and free: "prefixes_free N (tx_get T s)"
    and r: "nodeContainingKey T L key s = Inr r"
  shows "r = None \<longleftrightarrow> (\<forall>q \<in> insert N (nodes N (tx_get T s)). \<not> prefix q key)"
proof (cases "prefix N key")
  case True
  then show ?thesis using r L by (auto simp: nodeContainingKey_def layer_ok_def)
next
  case False
  note N = layer_nodes [OF L]
  define e where "e = NK N (key @ [0]) []"
  have end_at: "packed (nodeSubspace L) [Bytes (key @ [0])] = Inr e"
    by (simp add: packed_Inr N e_def NK_def)
  have range: "subspaceRange (nodeSubspace L) [] = Inr (N @ [NIL], N @ [ESCAPE])"
    by (simp add: subspaceRange_def subspace_range_Inr N)
  have below: "inN N k \<and> k < e \<longleftrightarrow> N @ [NIL] \<le> k \<and> k < e" for k
    using NK_in_all [of "[]" N "key @ [0]"] by (auto simp: inN_def e_def)
  have key_less: "NK N q rest < e \<longleftrightarrow> q \<le> key" if "tuple_ok rest" for q rest
    using that by (auto simp: e_def NK_less less_snoc_zero)
  show ?thesis
  proof (cases "firstInRange T s (N @ [NIL]) e True")
    case None
    then have "r = None" using r False by (simp add: nodeContainingKey_def N range end_at)
    moreover have "\<not> prefix q key" if q: "q \<in> nodes N (tx_get T s)" for q
    proof
      assume "prefix q key"
      obtain rest where rest: "tuple_ok rest" "rest \<noteq> []" "tx_get T s (NK N q rest) \<noteq> None" 
        using q unfolding nodes_def by blast
      then have "NK N q rest < e" using key_less not_less_prefix [OF \<open>prefix q key\<close>] by simp
      then show False using None rest below [of "NK N q rest"] by (simp add: firstInRange_None)
    qed
    ultimately show ?thesis using False by simp
  next
    case (Some kv)
    obtain k v where kv: "kv = (k, v)" by (cases kv)
    note last = firstInRange_last [OF Some [unfolded kv]]
    have "inN N k" using below last(1,2) by blast
    then obtain q rest where q: "tuple_ok rest" "rest \<noteq> []" "k = NK N q rest"
      using rows last(3) unfolding rows_ok_iff row_key_def by blast
    have qn: "q \<in> nodes N (tx_get T s)" using nodesI [of "tx_get T s"] q last(3) by blast
    have le: "q \<le> key" using key_less q last(2) by simp
    have r_eq: "r = None \<longleftrightarrow> \<not> prefix q key"
      using r False q N Some kv nodeWithPrefix_ok [of L q]
      by (auto simp: nodeContainingKey_def range end_at unpacked_node element_def asBytes_def bindR_eq_Inr
          split: if_splits)
    have "prefix q key" if r: "r \<in> nodes N (tx_get T s)" "prefix r key" for r
    proof -
      obtain rest' where rest': "tuple_ok rest'" "rest' \<noteq> []" "tx_get T s (NK N r rest') \<noteq> None" 
        using r(1) unfolding nodes_def by blast
      have "NK N r rest' < e" using key_less rest' not_less_prefix [OF r(2)] by simp
      then have "NK N r rest' \<le> k" using last(4) below [of "NK N r rest'"] rest' by simp
      then have "r \<le> q" using q rest' by (auto simp: NK_less not_less [symmetric])
      then have "prefix r q" by (rule prefix_between [OF r(2) _ le])
      then have "r = q" using prefixes_freeD [OF free] r(1) qn by blast
      with r show ?thesis by simp
    qed
    then show ?thesis using r_eq qn False by auto
  qed
qed

lemma isPrefixFree_exact:
  assumes L: "layer_ok L N" and rows: "rows_ok N (tx_get T s)" and free: "prefixes_free N (tx_get T s)"
    and root: "N \<in> nodes N (tx_get T s)" and r: "isPrefixFree T L p s = Inr b"
  shows "b \<longleftrightarrow> free_prefix N (tx_get T s) p" and "b \<Longrightarrow> strinc p \<noteq> []"
proof -
  have "(b \<longleftrightarrow> free_prefix N (tx_get T s) p) \<and> (b \<longrightarrow> strinc p \<noteq> [])"
  proof (cases "p = []")
    case True
    then show ?thesis using r by (auto simp: isPrefixFree_def free_prefix_def)
  next
    case False
    then obtain n where n: "nodeContainingKey T L p s = Inr n"
      using r by (auto simp: isPrefixFree_def bindR_eq_Inr)
    note none = nodeContaining_None [OF L rows free n]
    show ?thesis
    proof (cases n)
      case Some
      then show ?thesis using r n False none by (auto simp: isPrefixFree_def free_prefix_def)
    next
      case None
      have inc: "strinc p \<noteq> []" and b: "b \<longleftrightarrow> (\<forall>k. NK N p [] \<le> k \<longrightarrow> k < NK N (strinc p) [] \<longrightarrow> tx_get T s k = None)"
        using r n False None layer_nodes [OF L]
        by (auto simp: isPrefixFree_def incrementPrefix_def Let_def bindR_eq_Inr packed_Inr firstInRange_None NK_def
            split: if_splits)
      have inside: "NK N p [] \<le> NK N q rest \<and> NK N q rest < NK N (strinc p) [] \<longleftrightarrow> prefix p q"
        if "tuple_ok rest" "rest \<noteq> []" for q rest
      proof -
        have "NK N p [] \<le> NK N q rest \<longleftrightarrow> p \<le> q" using that by (auto simp: not_less [symmetric] NK_less)
        moreover have "NK N q rest < NK N (strinc p) [] \<longleftrightarrow> q < strinc p" using that by (simp add: NK_less)
        ultimately show ?thesis using prefix_iff_strinc_range [OF inc] by simp
      qed
      have "b \<longleftrightarrow> (\<forall>q \<in> nodes N (tx_get T s). \<not> prefix p q)"
      proof
        assume b': b
        show "\<forall>q \<in> nodes N (tx_get T s). \<not> prefix p q"
        proof
          fix q assume "q \<in> nodes N (tx_get T s)"
          then obtain rest where r: "tuple_ok rest" "rest \<noteq> []" "tx_get T s (NK N q rest) \<noteq> None"
            unfolding nodes_def by blast
          then show "\<not> prefix p q" using b' [unfolded b, THEN spec, of "NK N q rest"] inside [OF r(1,2), of q] by metis
        qed
      next
        assume a: "\<forall>q \<in> nodes N (tx_get T s). \<not> prefix p q"
        show b unfolding b
        proof (intro allI impI)
          fix k assume k: "NK N p [] \<le> k" "k < NK N (strinc p) []"
          have "inN N k" using k NK_in_all [of "[]" N p] NK_in_all [of "[]" N "strinc p"] by (auto simp: inN_def)
          show "tx_get T s k = None"
          proof (rule ccontr)
            assume some: "tx_get T s k \<noteq> None"
            then obtain q rest where q: "tuple_ok rest" "rest \<noteq> []" "k = NK N q rest"
              using rows \<open>inN N k\<close> unfolding rows_ok_iff row_key_def by blast
            then have "q \<in> nodes N (tx_get T s)" using some unfolding nodes_def by blast
            then show False using a inside [OF q(1,2), of q] q(3) k by metis
          qed
        qed
      qed
      then show ?thesis using inc none None root unfolding free_prefix_def by (metis insert_iff)
    qed
  qed
  then show "b \<longleftrightarrow> free_prefix N (tx_get T s) p" "b \<Longrightarrow> strinc p \<noteq> []" by blast+
qed

end

end
