(* ===== verification/Directory_Allocation.thy ===== *)
theory Directory_Allocation
  imports Directory_Operations
begin

text \<open>
  The allocator never hands out a number twice: a number it has allocated is either marked in the current
  window or below it. It touches only its own rows, and it returns as soon as a draw hits a number that is
  not taken.
\<close>

section \<open>The rows of the allocator\<close>

definition counterKey :: "bytes \<Rightarrow> int \<Rightarrow> bytes" where
  "counterKey N w = NK N N [Bytes HCA, BigInt 0, BigInt w]"

definition recentKey :: "bytes \<Rightarrow> int \<Rightarrow> bytes" where
  "recentKey N c = NK N N [Bytes HCA, BigInt 1, BigInt c]"

definition hca_key :: "bytes \<Rightarrow> bytes \<Rightarrow> bool" where
  "hca_key N k \<longleftrightarrow> (\<exists>rest. k = NK N N (Bytes HCA # rest) \<and> tuple_ok rest)"

lemma HCA_LAYER [simp]: "HCA \<noteq> LAYER"
  by (simp add: HCA_def LAYER_def)

lemma hca_internal: "hca_key N k \<Longrightarrow> internal_key N k"
  unfolding hca_key_def internal_key_def using HCA_LAYER by blast

definition change :: "bytes \<Rightarrow> store \<Rightarrow> store \<Rightarrow> bool" where
  "change N g g' \<longleftrightarrow> (\<forall>k. g' k \<noteq> g k \<longrightarrow> hca_key N k)"

lemma change_refl [simp]: "change N g g"
  by (simp add: change_def)

lemma change_trans: "change N g g' \<Longrightarrow> change N g' g'' \<Longrightarrow> change N g g''"
  unfolding change_def by metis

lemma change_rows: "change N g g' \<Longrightarrow> rows_ok N g \<Longrightarrow> rows_ok N g'"
  unfolding rows_ok_iff change_def using internal_not_rows hca_internal by metis

lemma hca_at_key: "tuple_ok rest \<Longrightarrow> hca_key N (NK N N (Bytes HCA # rest))"
  unfolding hca_key_def by blast

lemma alloc_keys [simp]:
  "smallInt w1 \<Longrightarrow> smallInt w2 \<Longrightarrow> counterKey N w1 = counterKey N w2 \<longleftrightarrow> w1 = w2"
  "smallInt w1 \<Longrightarrow> smallInt w2 \<Longrightarrow> recentKey N w1 = recentKey N w2 \<longleftrightarrow> w1 = w2"
  "smallInt w1 \<Longrightarrow> smallInt w2 \<Longrightarrow> counterKey N w1 \<noteq> recentKey N w2"
  "smallInt w1 \<Longrightarrow> smallInt w2 \<Longrightarrow> recentKey N w1 \<noteq> counterKey N w2"
  "smallInt w1 \<Longrightarrow> hca_key N (counterKey N w1)"
  "smallInt w1 \<Longrightarrow> hca_key N (recentKey N w1)"
  by (simp_all add: counterKey_def recentKey_def hca_at_key)

text \<open>The allocated numbers are accounted for, and no window lies above \<open>start\<close>.\<close>

definition alloc_ok :: "bytes \<Rightarrow> int set \<Rightarrow> store \<Rightarrow> bool" where
  "alloc_ok N A g \<longleftrightarrow> (\<forall>a \<in> A. smallInt a \<and>
     (g (recentKey N a) \<noteq> None \<or> (\<exists>w. smallInt w \<and> g (counterKey N w) \<noteq> None \<and> a < w)))"

definition top_window :: "bytes \<Rightarrow> store \<Rightarrow> int \<Rightarrow> bool" where
  "top_window N g start \<longleftrightarrow> (\<forall>w. smallInt w \<longrightarrow> g (counterKey N w) \<noteq> None \<longrightarrow> w \<le> start)"

definition hca_at :: "bytes \<Rightarrow> subspace \<Rightarrow> subspace \<Rightarrow> bool" where
  "hca_at N counters recent \<longleftrightarrow>
     prefix_bytes counters = NK N N [Bytes HCA, BigInt 0] \<and> prefix_bytes recent = NK N N [Bytes HCA, BigInt 1]"

text \<open>What a step of the allocator keeps: its account, with \<open>start\<close> the current window.\<close>

definition alloc_inv :: "bytes \<Rightarrow> int set \<Rightarrow> int \<Rightarrow> store \<Rightarrow> store \<Rightarrow> bool" where
  "alloc_inv N A start g g' \<longleftrightarrow> change N g g' \<and> alloc_ok N A g' \<and> top_window N g' start"

lemma cleared_hca:
  assumes "row_key N k" and "NK N N [Bytes HCA, BigInt i] \<le> k" and "k < NK N N [Bytes HCA, BigInt i, BigInt j]"
    and "smallInt i" and "smallInt j"
  shows "hca_key N k"
proof -
  obtain q rest where k: "tuple_ok rest" "rest \<noteq> []" "k = NK N q rest" using assms(1) by (auto simp: row_key_def)
  have "q = N \<and> (\<exists>r. rest = Bytes HCA # r)"
    using assms(2-) k by (cases rest) (auto simp: not_less [symmetric] NK_less split: list.splits)
  then show ?thesis using k hca_at_key by auto
qed

context fdb
begin

lemma windowStep_Inr:
  assumes at: "hca_at N counters recent" and rows: "rows_ok N (tx_get T s)"
    and w: "windowStep T counters recent start advanced s = Inr (count, s')"
  shows "smallInt start" and "change N (tx_get T s) (tx_get T s')"
    and "smallInt v \<Longrightarrow> tx_get T s' (counterKey N v) =
      (if v = start then Some (addLE (tx_get T s (counterKey N v)) ONE)
       else if advanced \<and> v < start then None else tx_get T s (counterKey N v))"
    and "smallInt v \<Longrightarrow> tx_get T s' (recentKey N v) =
      (if advanced \<and> v < start then None else tx_get T s (recentKey N v))"
    and "decodeLittleEndianInt64 (addLE (tx_get T s (counterKey N start)) ONE) = Inr count"
proof -
  have c: "prefix_bytes counters = NK N N [Bytes HCA, BigInt 0]" and r: "prefix_bytes recent = NK N N [Bytes HCA, BigInt 1]"
    using at by (simp_all add: hca_at_def)
  obtain counter where counter: "childSubspace counters [BigInt start] = Inr counter"
    using w by (auto simp: windowStep_def bindR_eq_Inr)
  then have small: "smallInt start" using childSubspace_packable by fastforce
  have ck: "prefix_bytes counter = counterKey N start"
    using childSubspace_node [OF counter c] by (simp add: counterKey_def)
  obtain rs where rs: "childSubspace recent [BigInt start] = Inr rs" using childSubspace_ok small by fastforce
  have rk: "prefix_bytes rs = recentKey N start" using childSubspace_node [OF rs r] by (simp add: recentKey_def)
  have get: "tx_get T s' k =
      (if k = counterKey N start then Some (addLE (tx_get T s k) ONE)
       else if advanced \<and> (prefix_bytes counters \<le> k \<and> k < counterKey N start \<or> prefix_bytes recent \<le> k \<and> k < recentKey N start)
       then None else tx_get T s k)" for k
  proof -
    have "\<not> (prefix_bytes recent \<le> counterKey N start \<and> counterKey N start < recentKey N start)"
      using small by (simp add: r counterKey_def recentKey_def not_less [symmetric] NK_less)
    then show ?thesis using w ck rk counter rs
      by (auto simp: windowStep_def bindR_eq_Inr Let_def get_simps split: if_splits)
  qed
  show "smallInt start" by (rule small)
  show "change N (tx_get T s) (tx_get T s')"
    unfolding change_def
  proof (intro allI impI)
    fix k assume k: "tx_get T s' k \<noteq> tx_get T s k"
    show "hca_key N k"
    proof (cases "k = counterKey N start")
      case False
      then have some: "tx_get T s k \<noteq> None"
        and b: "prefix_bytes counters \<le> k \<and> k < counterKey N start \<or> prefix_bytes recent \<le> k \<and> k < recentKey N start"
        using k get [of k] False by (cases "tx_get T s k"; auto split: if_splits)+
      have "NK N N [Bytes HCA, BigInt i] \<le> k \<Longrightarrow> k < NK N N [Bytes HCA, BigInt i, BigInt start] \<Longrightarrow> smallInt i \<Longrightarrow> inN N k" for i
        using NK_in_all [of "[Bytes HCA, BigInt i]" N N] NK_in_all [of "[Bytes HCA, BigInt i, BigInt start]" N N] small
        by (auto simp: inN_def)
      with b have "inN N k" by (auto simp: c r counterKey_def recentKey_def)
      then have "row_key N k" using some rows unfolding rows_ok_iff by blast
      with b small show ?thesis
        using cleared_hca [of N k 0 start] cleared_hca [of N k 1 start]
        by (auto simp: c r counterKey_def recentKey_def)
    qed (use small in simp)
  qed
  show "smallInt v \<Longrightarrow> tx_get T s' (counterKey N v) =
      (if v = start then Some (addLE (tx_get T s (counterKey N v)) ONE)
       else if advanced \<and> v < start then None else tx_get T s (counterKey N v))"
    using small by (auto simp: get c r) (auto simp: counterKey_def recentKey_def not_less [symmetric] NK_less)
  show "smallInt v \<Longrightarrow> tx_get T s' (recentKey N v) =
      (if advanced \<and> v < start then None else tx_get T s (recentKey N v))"
    using small by (auto simp: get c r) (auto simp: counterKey_def recentKey_def not_less [symmetric] NK_less)
  have "\<exists>t. tx_get T t (counterKey N start) = Some (addLE (tx_get T s (counterKey N start)) ONE)
      \<and> bindR (case tx_get T t (counterKey N start) of None \<Rightarrow> Inr 0 | Some e \<Rightarrow> decodeLittleEndianInt64 e)
          (\<lambda>count. Inr (count, t)) = Inr (count, s')"
    using w ck counter get [of "counterKey N start"]
    by (auto simp: windowStep_def bindR_eq_Inr Let_def)
  then show "decodeLittleEndianInt64 (addLE (tx_get T s (counterKey N start)) ONE) = Inr count"
    by (auto simp: bindR_eq_Inr)
qed

lemma windowStep_inv:
  assumes at: "hca_at N counters recent" and rows: "rows_ok N (tx_get T s)"
    and w: "windowStep T counters recent start advanced s = Inr (count, s')"
    and ok: "alloc_ok N A (tx_get T s)" and top: "top_window N (tx_get T s) start"
  shows "alloc_inv N A start (tx_get T s) (tx_get T s')" and "tx_get T s' (counterKey N start) \<noteq> None"
proof -
  note i = windowStep_Inr [OF at rows w]
  have here: "tx_get T s' (counterKey N start) \<noteq> None" using i(1) i(3) [of start] by simp
  then show "tx_get T s' (counterKey N start) \<noteq> None" .
  have "alloc_ok N A (tx_get T s')"
    unfolding alloc_ok_def
  proof (intro ballI conjI)
    fix a assume a: "a \<in> A"
    then show small: "smallInt a" using ok by (simp add: alloc_ok_def)
    show "tx_get T s' (recentKey N a) \<noteq> None \<or> (\<exists>w. smallInt w \<and> tx_get T s' (counterKey N w) \<noteq> None \<and> a < w)"
    proof (cases "a < start")
      case True
      then show ?thesis using here i(1) by blast
    next
      case False
      then have "\<not> (\<exists>w. smallInt w \<and> tx_get T s (counterKey N w) \<noteq> None \<and> a < w)"
        using top by (auto simp: top_window_def)
      then have "tx_get T s (recentKey N a) \<noteq> None" using ok a unfolding alloc_ok_def by blast
      then show ?thesis using i(4) [OF small] False by simp
    qed
  qed
  moreover have "top_window N (tx_get T s') start"
    using top i(3) unfolding top_window_def by (metis (no_types, lifting) order.refl)
  ultimately show "alloc_inv N A start (tx_get T s) (tx_get T s')" using i(2) by (simp add: alloc_inv_def)
qed

lemma alloc_inv_trans:
  "change N g g' \<Longrightarrow> alloc_inv N A start g' g'' \<Longrightarrow> alloc_inv N A start g g''"
  unfolding alloc_inv_def using change_trans by blast

lemma windowSize_pos: "64 \<le> windowSize start"
  by (simp add: windowSize_def)

lemma top_window_mono: "top_window N g start \<Longrightarrow> start \<le> start' \<Longrightarrow> top_window N g start'"
  unfolding top_window_def by force

lemma windowLoop_inv:
  assumes at: "hca_at N counters recent"
    and "windowLoop T counters recent start advanced s = Some (Inr (start', window, s'))"
    and "rows_ok N (tx_get T s)" and "alloc_ok N A (tx_get T s)" and "top_window N (tx_get T s) start"
  shows "alloc_inv N A start' (tx_get T s) (tx_get T s') \<and> tx_get T s' (counterKey N start') \<noteq> None
    \<and> window = windowSize start' \<and> smallInt start'"
proof -
  let ?P = "\<lambda>T' counters recent start advanced s r. T' = T \<longrightarrow>
    r = (Inr (start', window, s') :: directory_error + int \<times> int \<times> 's) \<longrightarrow> hca_at N counters recent \<longrightarrow> rows_ok N (tx_get T s) \<longrightarrow> alloc_ok N A (tx_get T s) \<longrightarrow> top_window N (tx_get T s) start \<longrightarrow>
    alloc_inv N A start' (tx_get T s) (tx_get T s') \<and> tx_get T s' (counterKey N start') \<noteq> None
    \<and> window = windowSize start' \<and> smallInt start'"
  have "?P T counters recent start advanced s (Inr (start', window, s'))"
  proof (rule windowLoop.raw_induct [of ?P T counters recent start advanced s "Inr (start', window, s')"])
    show "windowLoop T counters recent start advanced s = Some (Inr (start', window, s'))" by (rule assms(2))
  next
    fix loop T' counters recent start advanced s r
    assume IH: "\<And>T counters recent start advanced s r.
        loop T counters recent start advanced s = Some r \<Longrightarrow> ?P T counters recent start advanced s r"
      and step: "(case windowStep T' counters recent start advanced s of Inl e \<Rightarrow> Some (Inl e)
        | Inr (count, t) \<Rightarrow> if count * 2 < windowSize start then Some (Inr (start, windowSize start, t))
            else loop T' counters recent (start + windowSize start) True t) = Some r"
    show "?P T' counters recent start advanced s r"
    proof (intro impI)
      assume T: "T' = T" and r: "r = Inr (start', window, s')" and at: "hca_at N counters recent"
        and rows: "rows_ok N (tx_get T s)" and ok: "alloc_ok N A (tx_get T s)" and top: "top_window N (tx_get T s) start"
      obtain count t where w: "windowStep T counters recent start advanced s = Inr (count, t)"
        using step T r by (auto split: sum.splits)
      note i = windowStep_inv [OF at rows w ok top]
      show "alloc_inv N A start' (tx_get T s) (tx_get T s') \<and> tx_get T s' (counterKey N start') \<noteq> None
          \<and> window = windowSize start' \<and> smallInt start'"
      proof (cases "count * 2 < windowSize start")
        case True
        then show ?thesis using step T r w i windowStep_Inr(1) [OF at rows w] by auto
      next
        case False
        with step T r w have loop: "loop T counters recent (start + windowSize start) True t = Some (Inr (start', window, s'))"
          by simp
        have "rows_ok N (tx_get T t)" using change_rows rows i(1) by (auto simp: alloc_inv_def)
        moreover have "top_window N (tx_get T t) (start + windowSize start)"
          using i(1) windowSize_pos [of start] by (auto simp: alloc_inv_def elim: top_window_mono)
        ultimately show ?thesis using IH [OF loop] at i(1) alloc_inv_trans by (auto simp: alloc_inv_def)
      qed
    qed
  qed
  then show ?thesis using assms by blast
qed

text \<open>A candidate is at or above the window's start; an allocated one was not accounted for.\<close>

lemma candidateStep_inv:
  assumes at: "hca_at N counters recent" and ok: "alloc_ok N A (tx_get T s)" and top: "top_window N (tx_get T s) start"
    and c: "candidateStep T counters recent b e start window random s = Inr (r, s')" and "0 < window"
  shows "alloc_inv N A start (tx_get T s) (tx_get T s')"
    and "r = Allocated a \<Longrightarrow> a \<notin> A \<and> alloc_ok N (insert a A) (tx_get T s') \<and> smallInt a"
proof -
  let ?c = "randomCandidate random start window"
  obtain rc where rc: "childSubspace recent [BigInt ?c] = Inr rc"
    using c by (auto simp: candidateStep_def Let_def bindR_eq_Inr)
  then have small: "smallInt ?c" using childSubspace_packable by fastforce
  have rk: "prefix_bytes rc = recentKey N ?c"
    using childSubspace_node [OF rc] at by (auto simp: hca_at_def recentKey_def)
  have le: "start \<le> ?c" using \<open>0 < window\<close> by (simp add: randomCandidate_def)
  have get: "tx_get T s' k = (if k = recentKey N ?c then Some [] else tx_get T s k)" for k
    using c rc rk by (auto simp: candidateStep_def Let_def bindR_eq_Inr get_simps split: if_splits)
  have ok': "alloc_ok N A (tx_get T s')"
    using ok small unfolding alloc_ok_def get by (metis alloc_keys(3) option.distinct(1))
  have "top_window N (tx_get T s') start"
    using top small unfolding top_window_def get by (metis alloc_keys(3))
  then show "alloc_inv N A start (tx_get T s) (tx_get T s')"
    using ok' small by (simp add: alloc_inv_def change_def get)
  show "a \<notin> A \<and> alloc_ok N (insert a A) (tx_get T s') \<and> smallInt a" if "r = Allocated a"
  proof -
    have a: "a = ?c" "tx_get T s (recentKey N ?c) = None"
      using that c rc rk by (auto simp: candidateStep_def Let_def bindR_eq_Inr split: if_splits)
    have "a \<notin> A"
    proof
      assume "a \<in> A"
      then obtain w where "smallInt w" "tx_get T s (counterKey N w) \<noteq> None" "a < w"
        using ok a unfolding alloc_ok_def by blast
      then show False using top le a(1) by (force simp: top_window_def)
    qed
    moreover have "tx_get T s' (recentKey N a) \<noteq> None" by (simp add: get a(1))
    ultimately show ?thesis using ok' a(1) small unfolding alloc_ok_def by (metis insert_iff)
  qed
qed

lemma candidateLoop_inv:
  assumes "candidateLoop T counters recent b e start window randoms s = Some (Inr (found, s', rs))"
    and at: "hca_at N counters recent" and "0 < window"
    and "alloc_ok N A (tx_get T s)" and "top_window N (tx_get T s) start"
  shows "alloc_inv N A start (tx_get T s) (tx_get T s')
    \<and> (\<forall>a. found = Some a \<longrightarrow> a \<notin> A \<and> alloc_ok N (insert a A) (tx_get T s') \<and> smallInt a)"
  using assms(1,4,5)
proof (induction randoms arbitrary: s)
  case (Cons random randoms)
  obtain r t where c: "candidateStep T counters recent b e start window random s = Inr (r, t)"
    using Cons.prems(1) by (auto split: sum.splits)
  note i = candidateStep_inv [OF at Cons.prems(2,3) c \<open>0 < window\<close>]
  show ?case
  proof (cases r)
    case Retry
    then have "candidateLoop T counters recent b e start window randoms t = Some (Inr (found, s', rs))"
      using Cons.prems(1) c by simp
    from Cons.IH [OF this] i(1) show ?thesis unfolding alloc_inv_def using change_trans by blast
  qed (use Cons.prems(1) c i in auto)
qed simp

text \<open>The window that the allocator starts with is the last one.\<close>

lemma latestWindow_top:
  assumes c: "prefix_bytes counters = NK N N [Bytes HCA, BigInt 0]" and rows: "rows_ok N (tx_get T s)"
    and range: "subspaceRange counters [] = Inr (b, e)"
    and l: "latestWindow counters (firstInRange T s b e True) = Inr start"
  shows "top_window N (tx_get T s) start"
  unfolding top_window_def
proof (intro allI impI)
  fix w assume w: "smallInt w" "tx_get T s (counterKey N w) \<noteq> None"
  have be: "b = NK N N [Bytes HCA, BigInt 0] @ [NIL]" "e = NK N N [Bytes HCA, BigInt 0] @ [ESCAPE]"
    using range by (simp_all add: subspaceRange_node [OF c])
  have in_w: "b \<le> counterKey N w \<and> counterKey N w < e"
    using w(1) NK_in_range [of "[Bytes HCA, BigInt 0]" "[Bytes HCA, BigInt 0, BigInt w]" N N N]
    by (simp add: be counterKey_def strict_prefix_def)
  show "w \<le> start"
  proof (cases "firstInRange T s b e True")
    case None
    then show ?thesis using in_w w(2) by (simp add: firstInRange_None)
  next
    case (Some row)
    obtain k v where row: "row = (k, v)" by (cases row)
    note last = firstInRange_last [OF Some [unfolded row]]
    have "inN N k" using last(1,2) unfolding be by (rule range_inN)
    then obtain q rest where k: "tuple_ok rest" "k = NK N q rest"
      using rows last(3) unfolding rows_ok_iff row_key_def by blast
    have "strict_prefix [Bytes HCA, BigInt 0] rest \<and> q = N"
      using NK_in_range [of "[Bytes HCA, BigInt 0]" rest N N q] last(1,2) k by (simp add: be)
    then obtain t where t: "rest = [Bytes HCA, BigInt 0] @ t" "q = N" by (auto simp: strict_prefix_def prefix_def)
    have "unpacked counters k = Inr t" using unpacked_below [OF c, of t] k t by simp
    then have "allocatorWindow t = Inr start" using l Some row by (simp add: latestWindow_def)
    then have "t = [BigInt start]"
      by (cases t) (auto simp: allocatorWindow_def element_def asInteger_def
          split: if_splits option.splits tuple_value.splits)
    then have "k = counterKey N start" "smallInt start" using k t by (simp_all add: counterKey_def)
    moreover have "counterKey N w \<le> k" using last(4) in_w w(2) by blast
    ultimately show ?thesis using w(1) by (auto simp: counterKey_def not_less [symmetric] NK_less)
  qed
qed

lemma allocateLoop_inv:
  assumes "allocateLoop T counters recent b e randoms s = Some (Inr (a, s', rs))"
    and at: "hca_at N counters recent" and range: "subspaceRange counters [] = Inr (b, e)"
    and "rows_ok N (tx_get T s)" and "alloc_ok N A (tx_get T s)"
  shows "change N (tx_get T s) (tx_get T s') \<and> alloc_ok N (insert a A) (tx_get T s') \<and> a \<notin> A \<and> smallInt a"
proof -
  let ?G = "\<lambda>s. change N (tx_get T s) (tx_get T s') \<and> alloc_ok N (insert a A) (tx_get T s') \<and> a \<notin> A \<and> smallInt a"
  let ?P = "\<lambda>T' counters recent b e randoms s r. T' = T \<longrightarrow>
    r = (Inr (a, s', rs) :: directory_error + int \<times> 's \<times> 32 word list) \<longrightarrow> hca_at N counters recent \<longrightarrow>
    subspaceRange counters [] = Inr (b, e) \<longrightarrow> rows_ok N (tx_get T s) \<longrightarrow> alloc_ok N A (tx_get T s) \<longrightarrow> ?G s"
  have "?P T counters recent b e randoms s (Inr (a, s', rs))"
  proof (rule allocateLoop.raw_induct [of ?P T counters recent b e randoms s "Inr (a, s', rs)"])
    show "allocateLoop T counters recent b e randoms s = Some (Inr (a, s', rs))" by (rule assms(1))
  next
    fix loop T' counters recent b e randoms s r
    assume IH: "\<And>T counters recent b e randoms s r.
        loop T counters recent b e randoms s = Some r \<Longrightarrow> ?P T counters recent b e randoms s r"
      and step: "bindO (Some (latestWindow counters (firstInRange T' s b e True))) (\<lambda>start.
        bindO (windowLoop T' counters recent start False s) (\<lambda>(start, window, s).
        bindO (candidateLoop T' counters recent b e start window randoms s) (\<lambda>(candidate, s, randoms).
          case candidate of Some c \<Rightarrow> Some (Inr (c, s, randoms))
          | None \<Rightarrow> loop T' counters recent b e randoms s))) = Some r"
    show "?P T' counters recent b e randoms s r"
    proof (intro impI)
      assume T: "T' = T" and r: "r = Inr (a, s', rs)" and at: "hca_at N counters recent"
        and range: "subspaceRange counters [] = Inr (b, e)"
        and rows: "rows_ok N (tx_get T s)" and ok: "alloc_ok N A (tx_get T s)"
      obtain start0 start window t found u rs' where
        l: "latestWindow counters (firstInRange T s b e True) = Inr start0"
        and w: "windowLoop T counters recent start0 False s = Some (Inr (start, window, t))"
        and c: "candidateLoop T counters recent b e start window randoms t = Some (Inr (found, u, rs'))"
        and f: "(case found of Some c \<Rightarrow> Some (Inr (c, u, rs')) | None \<Rightarrow> loop T counters recent b e rs' u) = Some r"
        using step r T by (auto simp: bindO_Inr)
      have "top_window N (tx_get T s) start0"
        using at range l rows by (intro latestWindow_top) (simp_all add: hca_at_def)
      note wi = windowLoop_inv [OF at w rows ok this]
      have ci: "alloc_inv N A start (tx_get T t) (tx_get T u)
          \<and> (\<forall>a. found = Some a \<longrightarrow> a \<notin> A \<and> alloc_ok N (insert a A) (tx_get T u) \<and> smallInt a)"
        using wi windowSize_pos [of start] by (intro candidateLoop_inv [OF c at]) (simp_all add: alloc_inv_def)
      have ch: "change N (tx_get T s) (tx_get T u)" using wi ci change_trans unfolding alloc_inv_def by blast
      show "?G s"
      proof (cases found)
        case None
        then have "loop T counters recent b e rs' u = Some r" using f by simp
        from IH [OF this] r at range change_rows [OF ch rows] ci have "?G u" by (simp add: alloc_inv_def)
        then show ?thesis using ch change_trans by blast
      next
        case (Some x)
        then show ?thesis using f r ch ci by auto
      qed
    qed
  qed
  then show ?thesis using assms by blast
qed

theorem allocatePrefix_inv:
  assumes L: "layer_ok L N" and "allocatePrefix T L randoms s = Some (Inr (a, s', rs))"
    and "rows_ok N (tx_get T s)" and "alloc_ok N A (tx_get T s)"
  shows "change N (tx_get T s) (tx_get T s')" and "alloc_ok N (insert a A) (tx_get T s')" and "a \<notin> A" and "smallInt a"
proof -
  obtain counters recent b e where
    c: "childSubspace (allocator L) [BigInt 0] = Inr counters" "childSubspace (allocator L) [BigInt 1] = Inr recent"
      "subspaceRange counters [] = Inr (b, e)" "allocateLoop T counters recent b e randoms s = Some (Inr (a, s', rs))"
    using assms(2) by (auto simp: allocatePrefix_def bindO_Inr)
  have "hca_at N counters recent"
    using childSubspace_node [OF c(1) layer_allocator [OF L]] childSubspace_node [OF c(2) layer_allocator [OF L]]
    by (simp add: hca_at_def)
  from allocateLoop_inv [OF c(4) this c(3) assms(3,4)]
  show "change N (tx_get T s) (tx_get T s')" "alloc_ok N (insert a A) (tx_get T s')" "a \<notin> A" "smallInt a" by simp_all
qed

end

end
