(* ===== verification/Directory_Create.thy ===== *)
theory Directory_Create
  imports Directory_Allocation
begin

text \<open>
  Creating and opening. A path that does not lead into a partition is opened as the tree has it; a missing
  one is added to the tree, with its missing ancestors and with prefixes that overlap no other, and the
  invariant is kept.
\<close>

section \<open>What is opened\<close>

definition opened :: "directory_layer \<Rightarrow> directory_path \<Rightarrow> bytes \<Rightarrow> bytes \<Rightarrow> directory_output \<Rightarrow> bool" where
  "opened L path q l d \<longleftrightarrow>
     (if l = PARTITION then
        \<exists>nested. d = DirectoryPartition L path nested \<and> layer_ok nested (q @ NODE_PREFIX)
          \<and> prefix_bytes (contentSubspace nested) = q \<and> layer_path nested = layer_path L @ path
          \<and> makeDirectoryLayerState (Some (fromBytes (concatBytes [q, NODE_PREFIX]))) (Some (fromBytes q)) False
              (layer_path L @ path) = Inr nested
          \<and> \<not> allowManualPrefixes nested
      else d = DirectorySubspace L path q l)"

lemma opened_unique: "opened L path q l d \<Longrightarrow> opened L path q l d' \<Longrightarrow> d' = d"
  by (auto simp: opened_def split: if_splits)

lemma makeDirectoryLayerState_ok:
  assumes "makeDirectoryLayerState n contents allowManual path = Inr L"
    and "N = prefix_bytes (case n of Some x \<Rightarrow> x | None \<Rightarrow> fromBytes NODE_PREFIX)" and "N \<noteq> []"
  shows "layer_ok L N" and "contentSubspace L = (case contents of Some c \<Rightarrow> c | None \<Rightarrow> fromBytes [])"
    and "layer_path L = path" and "allowManualPrefixes L = allowManual"
proof -
  let ?m = "case n of Some x \<Rightarrow> x | None \<Rightarrow> fromBytes NODE_PREFIX"
  obtain top hca where top: "childSubspace ?m [Bytes N] = Inr top" and hca: "childSubspace top [Bytes HCA] = Inr hca"
    and L: "L = \<lparr>rootNode = top, nodeSubspace = ?m,
      contentSubspace = (case contents of Some c \<Rightarrow> c | None \<Rightarrow> fromBytes []), allocator = hca,
      allowManualPrefixes = allowManual, layer_path = path\<rparr>"
    using assms(1,2) by (auto simp: makeDirectoryLayerState_def Let_def bindR_eq_Inr)
  have t: "prefix_bytes top = NK N N []" using childSubspace_Inr [OF top] assms(2) by (simp add: NK_def)
  from childSubspace_node [OF hca t] t L assms(2,3) show "layer_ok L N" by (simp add: layer_ok_def)
qed (use assms(1) in \<open>auto simp: makeDirectoryLayerState_def Let_def bindR_eq_Inr\<close>)

lemma contentsOfNode_Inr:
  assumes L: "layer_ok L N" and node: "prefix_bytes node = NK N q []" and d: "contentsOfNode L node path l = Inr d"
  shows "opened L path q l d"
proof (cases "l = PARTITION")
  case True
  then obtain nested where m: "makeDirectoryLayerState (Some (fromBytes (concatBytes [q, NODE_PREFIX])))
      (Some (fromBytes q)) False (layer_path L @ path) = Inr nested" and "d = DirectoryPartition L path nested"
    using d unpacked_node [OF layer_nodes [OF L], of "[]" q]
    by (auto simp: contentsOfNode_def node bindR_eq_Inr element_def asBytes_def)
  with makeDirectoryLayerState_ok [OF m, of "q @ NODE_PREFIX"] True m show ?thesis
    by (simp add: opened_def fromBytes_def NODE_PREFIX_def)
next
  case False
  then show ?thesis using d unpacked_node [OF layer_nodes [OF L], of "[]" q]
    by (simp add: contentsOfNode_def node opened_def element_def asBytes_def)
qed

section \<open>Finding does not depend on the internal rows\<close>

definition same_tree :: "bytes \<Rightarrow> store \<Rightarrow> store \<Rightarrow> bool" where
  "same_tree N g g' \<longleftrightarrow> (\<forall>q. g' (layerKey N q) = g (layerKey N q))
     \<and> (\<forall>q n. wellFormed n \<longrightarrow> g' (childKey N q n) = g (childKey N q n))"

lemma same_tree_internal: "(\<And>k. g' k \<noteq> g k \<Longrightarrow> internal_key N k) \<Longrightarrow> same_tree N g g'"
  unfolding same_tree_def using internal_not_rows by metis

lemma findLoop_cong:
  assumes L: "layer_ok L N" and g: "same_tree N (tx_get T s) (tx_get T s')"
  shows "prefix_bytes node = NK N q [] \<Longrightarrow> findLoop T L s' node nl cur path = findLoop T L s node nl cur path"
proof (induction path arbitrary: node nl cur q)
  case (Cons n path)
  show ?case
  proof (cases "wellFormed n")
    case True
    have key: "packed node [BigInt 0, Str n] = Inr (childKey N q n)"
      using packed_node [OF Cons.prems] True by (simp add: childKey_def)
    have load: "loadLayer T s' node' = loadLayer T s node'" if "prefix_bytes node' = NK N p []" for node' p
      using g packed_node [OF that, of "[Bytes LAYER]" "layerKey N p"]
      by (simp add: loadLayer_def layerKey_def [symmetric] same_tree_def)
    show ?thesis
      using g True Cons.IH load nodeWithPrefix_Inr [OF L]
      by (auto simp: key same_tree_def split: option.split intro!: bindR_cong)
  next
    case False
    then obtain e where "packed node [BigInt 0, Str n] = Inl e"
      using packed_Inr [of node "[BigInt 0, Str n]"] by (cases "packed node [BigInt 0, Str n]") auto
    then show ?thesis by simp
  qed
qed simp

lemma findLoop_stops:
  "findLoop T L s node nl cur xs = Inr (Some (n, PARTITION, c)) \<Longrightarrow> xs \<noteq> [] \<Longrightarrow>
     findLoop T L s node nl cur (xs @ ys) = Inr (Some (n, PARTITION, c))"
proof (induction xs arbitrary: node nl cur)
  case (Cons x xs)
  obtain key p node' l where k: "packed node [BigInt 0, Str x] = Inr key" "tx_get T s key = Some p"
    "nodeWithPrefix L p = Inr node'" "loadLayer T s node' = Inr l"
    and f: "(if l = PARTITION then Inr (Some (node', l, cur @ [x])) else findLoop T L s node' l (cur @ [x]) xs)
      = Inr (Some (n, PARTITION, c))"
    using Cons.prems(1) by (auto simp: bindR_eq_Inr split: option.split_asm)
  show ?case using Cons.IH [of node' l "cur @ [x]"] f k by (cases "xs = []") (auto split: if_splits)
qed simp

definition leads_into_partition :: "'s txn \<Rightarrow> directory_layer \<Rightarrow> directory_path \<Rightarrow> 's \<Rightarrow> bool" where
  "leads_into_partition T L path s \<longleftrightarrow>
     (\<exists>node. findNode T L path s = Inr (Some node) \<and> isInPartition node False)"

lemma leads_cong:
  assumes L: "layer_ok L N" and g: "same_tree N (tx_get T s) (tx_get T s')" and "path \<noteq> []"
  shows "findNode T L path s' = findNode T L path s" "leads_into_partition T L path s' = leads_into_partition T L path s"
proof -
  show f: "findNode T L path s' = findNode T L path s"
    using findLoop_cong [OF L g layer_root [OF L]] assms(3)
    by (auto simp: findNode_def intro!: bindR_cong split: option.split)
  then show "leads_into_partition T L path s' = leads_into_partition T L path s"
    by (simp add: leads_into_partition_def)
qed

text \<open>Above a path that is missing, nothing is a partition.\<close>

lemma missing_parent:
  assumes "findNode T L (xs @ ys) s = Inr None" and "findNode T L xs s = Inr (Some node)" and "xs \<noteq> []"
  shows "node_layer node \<noteq> PARTITION" and "\<not> leads_into_partition T L xs s"
proof -
  obtain n l c where f: "findLoop T L s (rootNode L) [] [] xs = Inr (Some (n, l, c))" and l: "node_layer node = l"
    using assms(2,3) by (auto simp: findNode_def bindR_eq_Inr split: option.splits)
  have "findLoop T L s (rootNode L) [] [] (xs @ ys) = Inr None"
  proof (cases "findLoop T L s (rootNode L) [] [] (xs @ ys)")
    case (Inr x)
    with assms(1,3) show ?thesis by (cases x) (auto simp: findNode_def)
  qed (use assms(1) in \<open>simp add: findNode_def\<close>)
  then show ne: "node_layer node \<noteq> PARTITION" using findLoop_stops [of T L s "rootNode L" "[]" "[]" xs n c ys] f l assms(3) by auto
  show "\<not> leads_into_partition T L xs s"
    using ne assms(2) by (auto simp: leads_into_partition_def isInPartition_def)
qed

text \<open>A path that does not lead into a partition: found as the tree has it.\<close>

lemma findNode_at:
  assumes L: "layer_ok L N" and f: "findNode T L path s = Inr (Some node)" and "\<not> isInPartition node False"
  shows "\<exists>q. walk N (tx_get T s) N path = Some q \<and> prefix_bytes (node_subspace node) = NK N q []
    \<and> node_layer node = layerAt N (tx_get T s) q \<and> currentPath node = path \<and> list_all wellFormed path"
  using findNode_Some [OF L f] assms(3) by (metis append_Nil2)

section \<open>Paths without a partition above them\<close>

definition open_above :: "bytes \<Rightarrow> store \<Rightarrow> bytes \<Rightarrow> directory_path \<Rightarrow> bool" where
  "open_above N g q path \<longleftrightarrow>
     (\<forall>sub rest a. path = sub @ rest \<longrightarrow> sub \<noteq> [] \<longrightarrow> rest \<noteq> [] \<longrightarrow> walk N g q sub = Some a \<longrightarrow> layerAt N g a \<noteq> PARTITION)"

lemma open_aboveD: "open_above N g q (sub @ rest) \<Longrightarrow> sub \<noteq> [] \<Longrightarrow> rest \<noteq> [] \<Longrightarrow> walk N g q sub = Some a \<Longrightarrow>
    layerAt N g a \<noteq> PARTITION"
  unfolding open_above_def by blast

lemma open_above_prefix: "open_above N g q (path @ path') \<Longrightarrow> open_above N g q path"
  unfolding open_above_def by (metis append.assoc append_is_Nil_conv)

lemma open_above_Cons:
  "open_above N g q (n # path) \<Longrightarrow> childAt N g q n = Some r \<Longrightarrow> open_above N g r path \<and> (path \<noteq> [] \<longrightarrow> layerAt N g r \<noteq> PARTITION)"
proof -
  assume o: "open_above N g q (n # path)" and c: "childAt N g q n = Some r"
  have "layerAt N g a \<noteq> PARTITION" if "path = sub @ rest" "rest \<noteq> []" "walk N g r sub = Some a" for sub rest a
    using open_aboveD [of N g q "n # sub" rest a] o c that by simp
  then show ?thesis unfolding open_above_def by (metis append_Nil walk.simps(1))
qed

lemma findLoop_follow:
  assumes L: "layer_ok L N"
  shows "prefix_bytes node = NK N q [] \<Longrightarrow> walk N (tx_get T s) q path = Some a \<Longrightarrow> list_all wellFormed path \<Longrightarrow>
    open_above N (tx_get T s) q path \<Longrightarrow>
    \<exists>n l. findLoop T L s node nl cur path = Inr (Some (n, l, cur @ path)) \<and> prefix_bytes n = NK N a []"
proof (induction path arbitrary: node nl cur q)
  case (Cons n path)
  let ?g = "tx_get T s"
  from Cons.prems obtain r where r: "childAt N ?g q n = Some r" "walk N ?g r path = Some a" "wellFormed n"
    by (auto split: option.splits)
  have key: "packed node [BigInt 0, Str n] = Inr (childKey N q n)" "?g (childKey N q n) = Some r"
    using packed_node [OF Cons.prems(1)] r by (simp_all add: childKey_def childAt_def)
  obtain node' where node': "nodeWithPrefix L r = Inr node'" using nodeWithPrefix_ok by blast
  note at = nodeWithPrefix_Inr [OF L node']
  have load: "loadLayer T s node' = Inr (layerAt N ?g r)" using loadLayer_Inr [OF at, of T s] by simp
  note o = open_above_Cons [OF Cons.prems(4) r(1)]
  show ?case
  proof (cases "path = []")
    case True
    then show ?thesis using r key node' load at by auto
  next
    case False
    then have "layerAt N ?g r \<noteq> PARTITION" using o by blast
    then show ?thesis
      using Cons.IH [OF at r(2) _ conjunct1 [OF o], of "layerAt N ?g r" "cur @ [n]"] Cons.prems(3) key node' load by auto
  qed
qed simp

lemma findNode_follow:
  assumes L: "layer_ok L N" and w: "walk N (tx_get T s) N path = Some a" and "list_all wellFormed path"
    and "open_above N (tx_get T s) N path"
  shows "\<exists>node. findNode T L path s = Inr (Some node) \<and> prefix_bytes (node_subspace node) = NK N a []
    \<and> \<not> isInPartition node False"
proof -
  obtain n l where f: "findLoop T L s (rootNode L) [] [] path = Inr (Some (n, l, path))" "prefix_bytes n = NK N a []"
    using findLoop_follow [OF L layer_root [OF L] w assms(3,4), of "[]" "[]"] by auto
  obtain l' where "loadLayer T s n = Inr l'" using loadLayer_Inr [OF f(2), of T s] by blast
  then show ?thesis using f by (auto simp: findNode_def isInPartition_def)
qed

lemma findLoop_open:
  assumes L: "layer_ok L N"
  shows "findLoop T L s node nl cur path = Inr (Some (n, l, cur @ path)) \<Longrightarrow> prefix_bytes node = NK N q [] \<Longrightarrow>
    open_above N (tx_get T s) q path"
proof (induction path arbitrary: node nl cur q)
  case (Cons x path)
  let ?g = "tx_get T s"
  have wf: "wellFormed x" using Cons.prems(1) packed_node [OF Cons.prems(2), of "[BigInt 0, Str x]"] by (auto simp: bindR_eq_Inr)
  then have key: "packed node [BigInt 0, Str x] = Inr (childKey N q x)"
    using packed_node [OF Cons.prems(2)] by (simp add: childKey_def)
  from Cons.prems(1) key obtain r node' where r: "?g (childKey N q x) = Some r" "nodeWithPrefix L r = Inr node'"
    by (auto simp: bindR_eq_Inr split: option.split_asm)
  note at = nodeWithPrefix_Inr [OF L r(2)]
  have load: "loadLayer T s node' = Inr (layerAt N ?g r)" using loadLayer_Inr [OF at, of T s] by simp
  have child: "childAt N ?g q x = Some r" using r(1) wf by (simp add: childAt_def)
  show ?case
  proof (cases "path = []")
    case True
    then show ?thesis by (auto simp: open_above_def Cons_eq_append_conv)
  next
    case False
    then have ne: "layerAt N ?g r \<noteq> PARTITION"
      and f: "findLoop T L s node' (layerAt N ?g r) (cur @ [x]) path = Inr (Some (n, l, (cur @ [x]) @ path))"
      using Cons.prems(1) key r load by (auto split: if_splits)
    note o = Cons.IH [OF f at]
    show ?thesis
      unfolding open_above_def
    proof (intro allI impI)
      fix sub rest a assume a: "x # path = sub @ rest" "sub \<noteq> []" "rest \<noteq> []" "walk N ?g q sub = Some a"
      then obtain sub' where sub': "sub = x # sub'" "path = sub' @ rest" by (cases sub) auto
      then have "walk N ?g r sub' = Some a" using a(4) child by simp
      then show "layerAt N ?g a \<noteq> PARTITION"
        using open_aboveD [of N ?g r sub' rest a] o a(3) ne sub'(2) by (cases "sub' = []") auto
    qed
  qed
qed (simp add: open_above_def)

lemma found_open:
  assumes L: "layer_ok L N" and f: "findNode T L path s = Inr (Some node)" and "\<not> isInPartition node False"
  shows "open_above N (tx_get T s) N path"
proof -
  obtain n l where "findLoop T L s (rootNode L) [] [] path = Inr (Some (n, l, currentPath node))"
    using f by (auto simp: findNode_def bindR_eq_Inr split: option.splits)
  moreover have "currentPath node = path" using findNode_at [OF assms] by blast
  ultimately have "findLoop T L s (rootNode L) [] [] path = Inr (Some (n, l, [] @ path))" by simp
  from findLoop_open [OF L this layer_root [OF L]] show ?thesis .
qed

section \<open>Choosing a prefix and writing the node\<close>

context fdb
begin

lemma choosePrefix_Inr:
  assumes L: "layer_ok L N" and c: "choosePrefix T L explicit randoms s = Some (Inr (p, s', rs))"
    and rows: "rows_ok N (tx_get T s)"
  shows "change N (tx_get T s) (tx_get T s')" and "explicit = None \<Longrightarrow> prefix p k \<Longrightarrow> tx_get T s' k = None"
    and "explicit = Some p' \<Longrightarrow> p = p'"
proof -
  show "explicit = Some p' \<Longrightarrow> p = p'" using c by (simp add: choosePrefix_def)
  have none: "\<exists>a e. allocatePrefix T L randoms s = Some (Inr (a, s', rs)) \<and> incrementPrefix p = Inr e
      \<and> firstInRange T s' p e False = None" if "explicit = None"
    using c that by (auto simp: choosePrefix_def bindO_Inr simp del: not_None_eq split: if_splits)
  show "change N (tx_get T s) (tx_get T s')"
  proof (cases explicit)
    case None
    then obtain a where "allocatePrefix T L randoms s = Some (Inr (a, s', rs))" using none by blast
    from allocatePrefix_inv(1) [OF L this rows, of "{}"] show ?thesis by (simp add: alloc_ok_def)
  next
    case Some
    then show ?thesis using c by (simp add: choosePrefix_def)
  qed
  show "tx_get T s' k = None" if given: "explicit = None" "prefix p k"
  proof -
    obtain e where e: "incrementPrefix p = Inr e" "firstInRange T s' p e False = None" using none [OF given(1)] by blast
    then have "strinc p \<noteq> []" "e = strinc p" by (auto simp: incrementPrefix_def Let_def split: if_splits)
    then show ?thesis using e(2) given(2) prefix_iff_strinc_range [of p k] by (simp add: firstInRange_None)
  qed
qed

lemma createNode_Inr:
  assumes L: "layer_ok L N" and inv: "dir_inv N (tx_get T s)" and root: "tx_get T s (versionKey N) \<noteq> None"
    and parent: "prefix_bytes parent = NK N q []" "walk N (tx_get T s) N (butlast path) = Some q" "path \<noteq> []"
    and none: "walk N (tx_get T s) N path = None" and l: "l = (case nodeLayer of None \<Rightarrow> [] | Some l \<Rightarrow> l)"
    and c: "createNode T L path nodeLayer parent p s = Inr (d, s')"
  shows "opened L path p l d" and "dir_inv N (tx_get T s')" and "free_prefix N (tx_get T s) p"
    and "dirAt N (tx_get T s') path' = (if path' = path then Some (p, l) else dirAt N (tx_get T s) path')"
    and "\<not> inN N k \<Longrightarrow> tx_get T s' k = tx_get T s k" and "tx_get T s' (versionKey N) \<noteq> None"
    and "wellFormed (last path)"
proof -
  obtain node where free: "isPrefixFree T L p s = Inr True" and node: "nodeWithPrefix L p = Inr node"
    and ck: "packed parent [BigInt 0, Str (last path)] = Inr (childKey N q (last path))"
    and wf: "wellFormed (last path)"
    and lk: "packed node [Bytes LAYER] = Inr (layerKey N p)"
    and d: "contentsOfNode L node path l = Inr d"
    and s': "s' = tx_set T (layerKey N p) l (tx_set T (childKey N q (last path)) p s)"
    using c packed_node [OF parent(1)] packed_node [OF nodeWithPrefix_Inr [OF L]]
    by (fastforce simp: createNode_def bindR_eq_Inr Let_def l childKey_def layerKey_def split: if_splits)
  show "opened L path p l d" by (rule contentsOfNode_Inr [OF L nodeWithPrefix_Inr [OF L node] d])
  show "wellFormed (last path)" by (rule wf)
  have r: "N \<in> nodes N (tx_get T s)" using root version_root by blast
  note f = isPrefixFree_exact [OF L dir_inv_rows [OF inv] dir_inv_free [OF inv] r free]
  show fp: "free_prefix N (tx_get T s) p" using f by simp
  have path: "path = butlast path @ [last path]" using parent(3) by simp
  have nc: "childAt N (tx_get T s) q (last path) = None"
    using none parent(2) walk_snoc [of N "tx_get T s" N "butlast path" "last path"] path by simp
  have get: "tx_get T s' = (tx_get T s)(childKey N q (last path) := Some p, layerKey N p := Some l)"
    by (simp add: s' set_fun)
  note add = inv_add [OF inv parent(2) wf nc fp f(2), of "tx_get T s'" l]
  show "dir_inv N (tx_get T s')" using get by (intro add(1)) simp_all
  have "dirAt N (tx_get T s') path' =
      (if path' = butlast path @ [last path] then Some (p, l) else dirAt N (tx_get T s) path')"
    using get by (intro add(2)) simp_all
  then show "dirAt N (tx_get T s') path' = (if path' = path then Some (p, l) else dirAt N (tx_get T s) path')"
    using path by simp
  show "\<not> inN N k \<Longrightarrow> tx_get T s' k = tx_get T s k" using get wf by auto
  show "tx_get T s' (versionKey N) \<noteq> None" using get wf root by simp
qed

end

section \<open>Creating adds to the tree\<close>

definition grown :: "bytes \<Rightarrow> directory_path \<Rightarrow> store \<Rightarrow> store \<Rightarrow> bool" where
  "grown N path g g' \<longleftrightarrow>
     (\<forall>p x. dirAt N g p = Some x \<longrightarrow> dirAt N g' p = Some x)
   \<and> (\<forall>p. dirAt N g' p \<noteq> None \<longrightarrow> dirAt N g p = None \<longrightarrow> prefix p path)
   \<and> (\<forall>k. \<not> inN N k \<longrightarrow> g' k = g k)"

lemma grown_refl [simp]: "grown N path g g"
  by (auto simp: grown_def)

lemma grown_trans: "grown N p1 g g' \<Longrightarrow> prefix p1 p2 \<Longrightarrow> grown N p2 g' g'' \<Longrightarrow> grown N p2 g g''"
proof -
  assume a: "grown N p1 g g'" and p: "prefix p1 p2" and b: "grown N p2 g' g''"
  note a = a [unfolded grown_def] and b = b [unfolded grown_def]
  show "grown N p2 g g''"
    unfolding grown_def
  proof (intro conjI allI impI)
    fix p x assume "dirAt N g p = Some x"
    then show "dirAt N g'' p = Some x" using a b by (cases x) simp
  next
    fix q assume q: "dirAt N g'' q \<noteq> None" "dirAt N g q = None"
    show "prefix q p2"
    proof (cases "dirAt N g' q = None")
      case True
      then show ?thesis using b q by simp
    next
      case False
      then have "prefix q p1" using a q by simp
      then show ?thesis using p by (rule prefix_order.trans)
    qed
  next
    fix k assume "\<not> inN N k"
    then show "g'' k = g k" using a b by simp
  qed
qed

lemma grown_missing: "grown N p g g' \<Longrightarrow> dirAt N g q = None \<Longrightarrow> \<not> prefix q p \<Longrightarrow> dirAt N g' q = None"
  unfolding grown_def by (cases "dirAt N g' q") auto

lemma change_version: "change N g g' \<Longrightarrow> g' (versionKey N) = g (versionKey N)"
proof -
  have "\<not> hca_key N (versionKey N)" by (auto simp: hca_key_def versionKey_def HCA_def VERSION_def)
  then show "change N g g' \<Longrightarrow> ?thesis" unfolding change_def by metis
qed

lemma inN_internal: "internal_key N k \<Longrightarrow> inN N k"
  unfolding internal_key_def by auto

lemma internal_grown:
  assumes "dir_inv N g" and "\<And>k. g' k \<noteq> g k \<Longrightarrow> internal_key N k"
  shows "dir_inv N g'" and "dirAt N g' = dirAt N g" and "grown N path g g'"
proof -
  note i = inv_internal [OF assms(1), of g'] 
  show "dir_inv N g'" using i(1) assms(2) by blast
  show "dirAt N g' = dirAt N g" using i(2,3) assms(2) by (simp add: dirAt_def fun_eq_iff)
  then show "grown N path g g'" using assms(2) inN_internal by (auto simp: grown_def)
qed

lemma grown_nodes:
  assumes "tree_ok N g" and "tree_ok N g'" and "grown N path g g'" and "r \<in> insert N (nodes N g)"
  shows "r \<in> insert N (nodes N g')"
proof -
  obtain w where "walk N g N w = Some r" using assms(1,4) tree_rooted by (metis insert_iff walk.simps(1))
  then have "dirAt N g' w = Some (r, layerAt N g r)" using assms(3) by (auto simp: grown_def dirAt_def)
  then have "walk N g' N w = Some r" by (auto simp: dirAt_def)
  then show ?thesis using walk_node [OF assms(2)] by blast
qed

lemma dirAt_walk: "dirAt N g path = Some (q, l) \<longleftrightarrow> walk N g N path = Some q \<and> l = layerAt N g q"
  by (auto simp: dirAt_def)

lemma dirAt_None: "dirAt N g path = None \<longleftrightarrow> walk N g N path = None"
  by (simp add: dirAt_def)

context fdb
begin

lemma createOrOpen_Inr:
  assumes L: "layer_ok L N" and "dir_inv N (tx_get T s)" and "\<not> leads_into_partition T L path s"
    and "createOrOpenInternal T L path explicit expected allowCreate allowOpen randoms s = Some (Inr (d, s', rs))"
  shows "\<exists>q l. opened L path q l d \<and> dirAt N (tx_get T s') path = Some (q, l) \<and> dir_inv N (tx_get T s')
    \<and> grown N path (tx_get T s) (tx_get T s') \<and> path \<noteq> [] \<and> list_all wellFormed path
    \<and> open_above N (tx_get T s') N path
    \<and> (tx_get T s (versionKey N) \<noteq> None \<longrightarrow> tx_get T s' (versionKey N) \<noteq> None)
    \<and> (dirAt N (tx_get T s) path \<noteq> None \<longrightarrow>
         s' = s \<and> rs = randoms \<and> allowOpen \<and> (\<forall>e. expected = Some e \<longrightarrow> e \<noteq> [] \<longrightarrow> e = l))
    \<and> (dirAt N (tx_get T s) path = None \<longrightarrow>
         allowCreate \<and> l = (case expected of None \<Rightarrow> [] | Some e \<Rightarrow> e) \<and> free_prefix N (tx_get T s) q
         \<and> (\<forall>k. explicit = None \<longrightarrow> prefix q k \<longrightarrow> tx_get T s' k = None) \<and> (\<forall>p. explicit = Some p \<longrightarrow> q = p))"
  using assms(2-)
proof (induction "length path" arbitrary: path explicit expected allowCreate allowOpen randoms s d s' rs rule: less_induct)
  case less
  note inv = less.prems(1) and out = less.prems(2) and call = less.prems(3)
  have v: "checkVersion T L False s = Inr s" and path: "path \<noteq> []"
    using call checkVersion_Inr(3) [OF L, of False s]
    by (auto simp: createOrOpenInternal.simps [of _ _ path] bindO_Inr split: if_splits)
  then obtain found where f: "findNode T L path s = Inr found"
    using call by (auto simp: createOrOpenInternal.simps [of _ _ path] bindO_Inr split: if_splits)
  show ?case
  proof (cases found)
    case (Some node)
    then have np: "\<not> isInPartition node False" using out f by (auto simp: leads_into_partition_def)
    obtain q where q: "walk N (tx_get T s) N path = Some q" "prefix_bytes (node_subspace node) = NK N q []"
      "node_layer node = layerAt N (tx_get T s) q" "currentPath node = path" "list_all wellFormed path"
      using findNode_at [OF L f [unfolded Some] np] by blast
    have r: "allowOpen" "expected = Some e \<Longrightarrow> e \<noteq> [] \<Longrightarrow> e = node_layer node" "getContents L node = Inr d" "s' = s" "rs = randoms" for e
      using call v f Some np
      by (auto simp: createOrOpenInternal.simps [of _ _ path] bindO_Inr split: if_splits option.splits)
    have o: "opened L path q (node_layer node) d"
      using contentsOfNode_Inr [OF L q(2)] r(3) q(4) by (simp add: getContents_def)
    have d: "dirAt N (tx_get T s) path = Some (q, node_layer node)" using q by (simp add: dirAt_walk)
    show ?thesis
      unfolding r(4) by (intro exI [of _ q] exI [of _ "node_layer node"] conjI impI allI o d inv grown_refl path q(5)
          refl r found_open [OF L f [unfolded Some] np])
        (use d in simp_all)
  next
    case None
    then have none: "walk N (tx_get T s) N path = None" using findNode_None [OF L] f by simp
    have create: "allowCreate" "createInternal T L path explicit expected randoms s = Some (Inr (d, s', rs))"
      using call v f None by (auto simp: createOrOpenInternal.simps [of _ _ path] bindO_Inr split: if_splits)
    obtain s1 parent s2 r2 p s3 where v1: "checkVersion T L True s = Inr s1"
      and parent: "getParentNode T L path randoms s1 = Some (Inr (parent, s2, r2))"
      and choose: "choosePrefix T L explicit r2 s2 = Some (Inr (p, s3, rs))"
      and node: "createNode T L path expected parent p s3 = Inr (d, s')"
      using create(2) path by (auto simp: createInternal.simps [of _ _ path] bindO_Inr)
    let ?g = "tx_get T s" and ?g1 = "tx_get T s1" and ?g2 = "tx_get T s2" and ?g3 = "tx_get T s3"
    have i1: "\<And>k. ?g1 k \<noteq> ?g k \<Longrightarrow> internal_key N k" using checkVersion_Inr(1) [OF L v1] version_internal by blast
    note c1 = internal_grown [OF inv i1]
    have root1: "?g1 (versionKey N) \<noteq> None" using checkVersion_Inr(2) [OF L v1] by simp
    let ?up = "butlast path"
    have up: "\<exists>q. prefix_bytes parent = NK N q [] \<and> walk N ?g2 N ?up = Some q \<and> dir_inv N ?g2 \<and> grown N ?up ?g1 ?g2
        \<and> list_all wellFormed ?up \<and> ?g2 (versionKey N) \<noteq> None \<and> open_above N ?g2 N ?up
        \<and> (?up \<noteq> [] \<longrightarrow> layerAt N ?g2 q \<noteq> PARTITION)"
    proof (cases "?up = []")
      case True
      then show ?thesis using parent c1 root1 layer_root [OF L]
        by (simp add: getParentNode.simps [of _ _ path] open_above_def)
    next
      case False
      obtain a t r where opens': "createOrOpenInternal T L ?up None None True True randoms s1 = Some (Inr (a, t, r))"
        and rest: "(case a of DirectoryPartition _ _ _ \<Rightarrow> Some (Inl InvalidMetadata)
          | DirectorySubspace _ _ p _ \<Rightarrow> bindO (Some (nodeWithPrefix L p)) (\<lambda>node. Some (Inr (node, t, r))))
          = Some (Inr (parent, s2, r2))"
        using parent False by (auto simp: getParentNode.simps [of _ _ path] Let_def bindO_Inr)
      have opens: "createOrOpenInternal T L ?up None None True True randoms s1 = Some (Inr (a, s2, r2))"
        and a: "case a of DirectoryPartition _ _ _ \<Rightarrow> False | DirectorySubspace _ _ q _ \<Rightarrow> nodeWithPrefix L q = Inr parent"
        using opens' rest by (cases a; auto simp: bindO_Inr)+
      have lt: "length ?up < length path" using path by simp
      have "\<not> leads_into_partition T L ?up s1"
      proof -
        have "\<not> leads_into_partition T L ?up s"
        proof
          assume l: "leads_into_partition T L ?up s"
          then obtain node where n: "findNode T L ?up s = Inr (Some node)" by (auto simp: leads_into_partition_def)
          have "findNode T L (?up @ [last path]) s = Inr None" using f None path by simp
          from missing_parent(2) [OF this n False] l show False by blast
        qed
        moreover have "same_tree N ?g ?g1" by (rule same_tree_internal) (rule i1)
        ultimately show ?thesis using leads_cong(2) [OF L _ False, of T s s1] by simp
      qed
      from less.hyps [OF lt c1(1) this opens] obtain q l where
        o: "opened L ?up q l a" "dirAt N ?g2 ?up = Some (q, l)" "dir_inv N ?g2" "grown N ?up ?g1 ?g2"
          "list_all wellFormed ?up" "?g2 (versionKey N) \<noteq> None" "open_above N ?g2 N ?up"
        using root1 by blast
      have "nodeWithPrefix L q = Inr parent" "l \<noteq> PARTITION" using o(1) a by (auto simp: opened_def split: if_splits)
      then show ?thesis using o nodeWithPrefix_Inr [OF L] by (auto simp: dirAt_walk)
    qed
    then obtain q where q: "prefix_bytes parent = NK N q []" "walk N ?g2 N ?up = Some q" "dir_inv N ?g2"
      "grown N ?up ?g1 ?g2" "list_all wellFormed ?up" "?g2 (versionKey N) \<noteq> None"
      "open_above N ?g2 N ?up" "?up \<noteq> [] \<Longrightarrow> layerAt N ?g2 q \<noteq> PARTITION" by blast
    note ch = choosePrefix_Inr [OF L choose dir_inv_rows [OF q(3)]]
    have i3: "\<And>k. ?g3 k \<noteq> ?g2 k \<Longrightarrow> internal_key N k" using ch(1) hca_internal unfolding change_def by blast
    note c3 = internal_grown [OF q(3) i3]
    have g13: "grown N ?up ?g ?g3" by (meson c1(3) c3(3) grown_trans prefix_order.order_refl q(4))
    have "\<not> prefix path ?up"
    proof
      assume "prefix path ?up"
      from prefix_length_le [OF this] have "length path \<le> length path - 1" by (simp only: length_butlast)
      moreover have "0 < length path" using path by simp
      ultimately show False by linarith
    qed
    then have none3: "walk N ?g3 N path = None" using grown_missing [OF g13, of path] none by (simp add: dirAt_None)
    have vk: "?g3 (versionKey N) \<noteq> None"
      using q(6) change_version [OF ch(1)] by simp
    have w3: "walk N ?g3 N ?up = Some q" using c3(2) q(2) by (metis dirAt_walk)
    note cn = createNode_Inr [OF L c3(1) vk q(1) w3 path none3 refl node]
    have add: "grown N path ?g3 (tx_get T s')"
      using cn(4,5) none3 [folded dirAt_None] unfolding grown_def by auto
    have "open_above N (tx_get T s') N path"
      unfolding open_above_def
    proof (intro allI impI)
      fix sub rest a assume s: "path = sub @ rest" "sub \<noteq> []" "rest \<noteq> []" "walk N (tx_get T s') N sub = Some a"
      define r' where "r' = butlast rest"
      have u: "?up = sub @ r'" using s(1,3) by (simp add: butlast_append r'_def)
      then obtain b where b: "walk N ?g2 N sub = Some b"
        using q(2) by (auto simp: walk_append split: option.splits)
      have "layerAt N ?g2 b \<noteq> PARTITION"
      proof (cases "r' = []")
        case True
        then show ?thesis using u b q(2,8) s(2) by simp
      next
        case False
        then show ?thesis using open_aboveD [of N ?g2 N sub r' b] q(7) u s(2) b by simp
      qed
      moreover have "dirAt N (tx_get T s') sub = Some (b, layerAt N ?g2 b)"
        using add b c3(2) unfolding grown_def by (metis dirAt_walk)
      ultimately show "layerAt N (tx_get T s') a \<noteq> PARTITION" using s(4) by (auto simp: dirAt_walk)
    qed
    moreover have "free_prefix N ?g p"
      using cn(3) grown_nodes [OF dir_inv_tree [OF inv] dir_inv_tree [OF c3(1)] g13] unfolding free_prefix_def by blast
    moreover have "tx_get T s' k = None" if "explicit = None" "prefix p k" for k
    proof -
      have "\<not> inN N k"
        using inN_prefix [of N k] that(2) cn(3) prefix_same_cases [of N k p] unfolding free_prefix_def by blast
      then show ?thesis using ch(2) [OF that] cn(5) by simp
    qed
    moreover have "grown N path ?g (tx_get T s')"
      by (rule grown_trans [OF g13 _ add]) (metis prefixeq_butlast)
    moreover have "list_all wellFormed path"
    proof -
      have "list_all wellFormed (?up @ [last path])" using q(5) cn(7) by simp
      then show ?thesis using path by simp
    qed
    ultimately show ?thesis
      using cn(1,2,4,6) create(1) ch(3) none [folded dirAt_None] path
      by (intro exI [of _ p] exI [of _ "case expected of None \<Rightarrow> [] | Some l \<Rightarrow> l"]) auto
  qed
qed

end

end
