(* ===== verification/Directory_Changes.thy ===== *)
theory Directory_Changes
  imports Directory_Create
begin

text \<open>
  Moving and removing. A move takes the directory with everything below it to the new path and keeps its
  prefix; a removal takes the directory and everything below it out of the tree and clears their contents
  and metadata. Removing ends, because the metadata has no cycles.
\<close>

section \<open>Extending walks\<close>

lemma walk_extends:
  "(\<And>a m r. childAt N g a m = Some r \<Longrightarrow> childAt N g' a m = Some r) \<Longrightarrow> walk N g q path = Some a \<Longrightarrow> walk N g' q path = Some a"
  by (induction path arbitrary: q) (auto split: option.splits)

lemma walk_butlast:
  "path \<noteq> [] \<Longrightarrow> walk N g q path = Option.bind (walk N g q (butlast path)) (\<lambda>r. childAt N g r (last path))"
  by (metis walk_snoc append_butlast_last_id)

section \<open>Moving\<close>

context fdb
begin

lemma removeFromParent_Inr:
  assumes L: "layer_ok L N" and r: "removeFromParent T L path s = Inr s'"
    and w: "walk N (tx_get T s) N (butlast path) = Some q" and wf: "list_all wellFormed path"
    and o: "open_above N (tx_get T s) N (butlast path)"
  shows "tx_get T s' = (tx_get T s)(childKey N q (last path) := None)" and "path \<noteq> []"
proof -
  show path: "path \<noteq> []" using r by (auto simp: removeFromParent_def)
  then have wf': "list_all wellFormed (butlast path)" "wellFormed (last path)"
    using wf by (metis append_butlast_last_id list_all_append, metis list.pred_set last_in_set)
  obtain node where n: "findNode T L (butlast path) s = Inr (Some node)" "prefix_bytes (node_subspace node) = NK N q []"
    using findNode_follow [OF L w wf'(1) o] by blast
  have "packed (node_subspace node) [BigInt 0, Str (last path)] = Inr (childKey N q (last path))"
    using packed_node [OF n(2)] wf'(2) by (simp add: childKey_def)
  then have "s' = tx_clear T (childKey N q (last path)) s" using r path n(1) by (simp add: removeFromParent_def)
  then show "tx_get T s' = (tx_get T s)(childKey N q (last path) := None)" by (simp add: clear_fun)
qed

lemma moveInternal_Inr:
  assumes L: "layer_ok L N" and inv: "dir_inv N (tx_get T s)" and out: "\<not> leads_into_partition T L oldPath s"
    and m: "moveInternal T L oldPath newPath s = Inr (d, s')"
  shows "\<exists>q l. dirAt N (tx_get T s) oldPath = Some (q, l) \<and> opened L newPath q l d \<and> dir_inv N (tx_get T s')
    \<and> (\<forall>path. dirAt N (tx_get T s') path =
        (if prefix newPath path then dirAt N (tx_get T s) (oldPath @ drop (length newPath) path)
         else if prefix oldPath path then None else dirAt N (tx_get T s) path))
    \<and> (\<forall>k. \<not> inN N k \<longrightarrow> tx_get T s' k = tx_get T s k)"
proof -
  obtain s1 oldNode where v: "checkVersion T L True s = Inr s1" and old: "oldPath \<noteq> []" and np: "\<not> prefix oldPath newPath"
    and f: "findNode T L oldPath s1 = Inr (Some oldNode)"
    using m by (auto simp: moveInternal.simps [of T L oldPath] bindR_eq_Inr split: if_splits option.splits)
  let ?g = "tx_get T s" and ?g1 = "tx_get T s1"
  have i1: "\<And>k. ?g1 k \<noteq> ?g k \<Longrightarrow> internal_key N k" using checkVersion_Inr(1) [OF L v] version_internal by blast
  have c1: "dir_inv N ?g1" "dirAt N ?g1 = dirAt N ?g" using internal_grown(1,2) [OF inv, of ?g1] i1 by blast+
  have st: "same_tree N ?g ?g1" by (rule same_tree_internal) (rule i1)
  have "\<not> leads_into_partition T L oldPath s1" using leads_cong(2) [OF L st old] out by simp
  then have no: "\<not> isInPartition oldNode False" using f by (auto simp: leads_into_partition_def)
  obtain nn where nn: "findNode T L newPath s1 = Inr nn"
    using m v old np f by (auto simp: moveInternal.simps [of T L oldPath] bindR_eq_Inr split: if_splits option.splits)
  have nf: "findNode T L newPath s1 = Inr None" and move: "moveNode T L oldPath newPath oldNode s1 = Inr (d, s')"
    using m v old np f no nn by (cases nn; auto simp: moveInternal.simps [of T L oldPath] split: if_splits)+
  obtain parent p newKey s2 where new: "newPath \<noteq> []"
    and pf: "findNode T L (butlast newPath) s1 = Inr (Some parent)"
    and p: "bindR (unpacked (nodeSubspace L) (prefix_bytes (node_subspace oldNode))) (\<lambda>t. asBytes (element t 0)) = Inr p"
    and nk: "packed (node_subspace parent) [BigInt 0, Str (last newPath)] = Inr newKey"
    and rm: "removeFromParent T L oldPath (tx_set T newKey p s1) = Inr s'"
    and d: "contentsOfNode L (node_subspace oldNode) newPath (node_layer oldNode) = Inr d"
    using move by (auto simp: moveNode_def bindR_eq_Inr split: if_splits option.splits)
  obtain q where q: "walk N ?g1 N oldPath = Some q" "prefix_bytes (node_subspace oldNode) = NK N q []"
    "node_layer oldNode = layerAt N ?g1 q" "list_all wellFormed oldPath"
    using findNode_at [OF L f no] by blast
  have "p = q" using p unpacked_node [OF layer_nodes [OF L], of "[]" q] q(2) by (simp add: element_def asBytes_def)
  have np': "\<not> isInPartition parent False"
  proof (cases "butlast newPath = []")
    case True
    then show ?thesis using findNode_path(1,2) [OF pf] by (simp add: isInPartition_def)
  next
    case False
    have "findNode T L (butlast newPath @ [last newPath]) s1 = Inr None" using nf new by simp
    from missing_parent(1) [OF this pf False] show ?thesis by (simp add: isInPartition_def)
  qed
  obtain q2 where q2: "walk N ?g1 N (butlast newPath) = Some q2" "prefix_bytes (node_subspace parent) = NK N q2 []"
    using findNode_at [OF L pf np'] by blast
  have newKey: "newKey = childKey N q2 (last newPath)" "wellFormed (last newPath)"
    using nk by (auto simp: packed_node [OF q2(2)] childKey_def)
  have paths: "oldPath = butlast oldPath @ [last oldPath]" "newPath = butlast newPath @ [last newPath]"
    using old new by simp_all
  obtain q1 where q1: "walk N ?g1 N (butlast oldPath) = Some q1" "childAt N ?g1 q1 (last oldPath) = Some q"
    using q(1) walk_butlast [OF old, of N ?g1 N] by (auto simp: bind_eq_Some_conv)
  have none: "childAt N ?g1 q2 (last newPath) = None"
    using findNode_None [OF L nf] q2(1) walk_butlast [OF new, of N ?g1 N] by simp
  have wfo: "wellFormed (last oldPath)" using q(4) old by (metis last_in_set list.pred_set)
  let ?g2 = "tx_get T (tx_set T newKey p s1)"
  have g2: "?g2 = ?g1(childKey N q2 (last newPath) := Some q)" by (simp add: set_fun newKey \<open>p = q\<close>)
  have ext: "childAt N ?g2 a m = (if a = q2 \<and> m = last newPath then Some q else childAt N ?g1 a m)" for a m
    using newKey(2) by (auto simp: g2 childAt_def)
  have w2: "walk N ?g2 N v = Some a" if "walk N ?g1 N v = Some a" for v a
    using that ext none by (intro walk_extends [of N ?g1 ?g2]) auto
  have l2: "layerAt N ?g2 a = layerAt N ?g1 a" for a using newKey(2) by (simp add: g2 layerAt_def)
  have o: "open_above N ?g1 N (butlast oldPath)"
    using found_open [OF L f no] paths(1) open_above_prefix by metis
  have o2: "open_above N ?g2 N (butlast oldPath)"
    unfolding open_above_def
  proof (intro allI impI)
    fix sub rest a assume a: "butlast oldPath = sub @ rest" "sub \<noteq> []" "rest \<noteq> []" "walk N ?g2 N sub = Some a"
    obtain b where b: "walk N ?g1 N sub = Some b"
      using q1(1) a(1) by (auto simp: walk_append split: option.splits)
    then have "layerAt N ?g1 b \<noteq> PARTITION" using open_aboveD [of N ?g1 N sub rest b] o a by simp
    then show "layerAt N ?g2 a \<noteq> PARTITION" using w2 [OF b] a(4) l2 by simp
  qed
  note rp = removeFromParent_Inr [OF L rm w2 [OF q1(1)] q(4) o2]
  have apart: "\<not> prefix (butlast oldPath @ [last oldPath]) (butlast newPath)"
    using np paths(1) by (metis prefixeq_butlast prefix_order.trans)
  have g': "tx_get T s' = ?g1(childKey N q2 (last newPath) := Some q, childKey N q1 (last oldPath) := None)"
    using rp(1) by (simp add: g2)
  note mv = inv_move [OF c1(1) q1(1) q2(1) wfo newKey(2) q1(2) none apart, of "tx_get T s'"]
  have "dir_inv N (tx_get T s')" by (rule mv(1)) (simp only: g')
  moreover have "dirAt N (tx_get T s') path =
      (if prefix newPath path then dirAt N ?g (oldPath @ drop (length newPath) path)
       else if prefix oldPath path then None else dirAt N ?g path)" for path
  proof -
    have "dirAt N (tx_get T s') path =
      (if prefix (butlast newPath @ [last newPath]) path
       then dirAt N ?g1 ((butlast oldPath @ [last oldPath]) @ drop (length (butlast newPath @ [last newPath])) path)
       else if prefix (butlast oldPath @ [last oldPath]) path then None else dirAt N ?g1 path)"
      by (rule mv(2)) (simp only: g')
    then show ?thesis using paths c1(2) by metis
  qed
  moreover have "tx_get T s' k = ?g k" if "\<not> inN N k" for k
  proof -
    have "?g1 k = ?g k" using i1 inN_internal that by blast
    then show ?thesis using that newKey(2) wfo by (auto simp: g')
  qed
  moreover have "opened L newPath q (node_layer oldNode) d" by (rule contentsOfNode_Inr [OF L q(2) d])
  moreover have "dirAt N ?g oldPath = Some (q, node_layer oldNode)" using c1(2) q by (metis dirAt_walk)
  ultimately show ?thesis by blast
qed

end

section \<open>Removing\<close>

definition in_node :: "bytes \<Rightarrow> bytes \<Rightarrow> bytes \<Rightarrow> bool" where
  "in_node N q k \<longleftrightarrow> NK N q [] @ [NIL] \<le> k \<and> k < NK N q [] @ [ESCAPE]"

definition erased :: "bytes \<Rightarrow> bytes set \<Rightarrow> bytes \<Rightarrow> bool" where
  "erased N R k \<longleftrightarrow> (\<exists>r \<in> R. prefix r k \<or> in_node N r k)"

lemma erased_Un: "erased N (A \<union> B) k \<longleftrightarrow> erased N A k \<or> erased N B k"
  and erased_empty [simp]: "\<not> erased N {} k"
  by (auto simp: erased_def)

lemma in_node_NK [simp]: "tuple_ok rest \<Longrightarrow> in_node N q (NK N r rest) \<longleftrightarrow> q = r \<and> rest \<noteq> []"
  using NK_in_range [of "[]" rest N q r] by (auto simp: in_node_def strict_prefix_def)

lemma in_node_inN: "in_node N q k \<Longrightarrow> inN N k"
  unfolding in_node_def by (metis range_inN)

lemma row_form:
  assumes "dir_inv N g" and "inN N k" and "g k \<noteq> None"
  obtains q rest where "tuple_ok rest" and "rest \<noteq> []" and "k = NK N q rest" and "q \<in> nodes N g"
proof -
  obtain q rest where "tuple_ok rest" "rest \<noteq> []" "k = NK N q rest"
    using dir_inv_rows [OF assms(1)] assms(2,3) unfolding rows_ok_iff row_key_def by blast
  moreover from this assms(3) have "q \<in> nodes N g" unfolding nodes_def by blast
  ultimately show ?thesis by (rule that)
qed

text \<open>A directory's contents hold no metadata.\<close>

lemma contents_apart:
  assumes "dir_inv N g" and "r \<in> nodes N g" and "r \<noteq> N" and "inN N k"
  shows "\<not> prefix r k"
proof
  assume "prefix r k"
  then have "prefix r N \<or> prefix N r" using inN_prefix [OF assms(4)] prefix_same_cases by blast
  then show False using prefixes_freeD [OF dir_inv_free [OF assms(1)]] assms(2,3) by blast
qed

lemma below_nodes:
  assumes t: "tree_ok N g" and "q \<in> nodes N g" and "q \<noteq> N" and "r \<in> below N g q"
  shows "r \<in> nodes N g" and "r \<noteq> N"
proof -
  obtain w where w: "walk N g q w = Some r" using assms(4) by (auto simp: below_def)
  have "r \<in> nodes N g \<and> r \<noteq> N"
  proof (cases w rule: rev_cases)
    case (snoc v n)
    then obtain b where "childAt N g b n = Some r" using w by (auto simp: walk_snoc bind_eq_Some_conv)
    then show ?thesis using treeD(1,3) [OF t] by blast
  qed (use w assms in auto)
  then show "r \<in> nodes N g" "r \<noteq> N" by blast+
qed

lemma below_refl [simp]: "q \<in> below N g q"
  unfolding below_def by (rule CollectI) (rule exI [of _ "[]"], simp)

lemma below_child: "childAt N g q n = Some r \<Longrightarrow> below N g r \<subseteq> below N g q"
proof
  fix x assume c: "childAt N g q n = Some r" and "x \<in> below N g r"
  then obtain w where "walk N g r w = Some x" by (auto simp: below_def)
  then have "walk N g q (n # w) = Some x" using c by simp
  then show "x \<in> below N g q" unfolding below_def by blast
qed

lemma below_split: "below N g q = insert q (\<Union> {below N g r |r. \<exists>n. childAt N g q n = Some r})"
proof
  show "below N g q \<subseteq> insert q (\<Union> {below N g r |r. \<exists>n. childAt N g q n = Some r})"
  proof
    fix x assume "x \<in> below N g q"
    then obtain w where w: "walk N g q w = Some x" by (auto simp: below_def)
    show "x \<in> insert q (\<Union> {below N g r |r. \<exists>n. childAt N g q n = Some r})"
    proof (cases w)
      case (Cons n v)
      then obtain r where "childAt N g q n = Some r" "walk N g r v = Some x" using w by (auto split: option.splits)
      then show ?thesis unfolding below_def by blast
    qed (use w in simp)
  qed
  show "insert q (\<Union> {below N g r |r. \<exists>n. childAt N g q n = Some r}) \<subseteq> below N g q"
    using below_child by fastforce
qed

text \<open>Subtrees of different children do not meet, and a node is not below its children.\<close>

lemma below_disjoint:
  assumes t: "tree_ok N g" and q: "q \<in> insert N (nodes N g)"
    and c: "childAt N g q n = Some r" "childAt N g q n' = Some r'"
  shows "x \<in> below N g r \<Longrightarrow> x \<in> below N g r' \<Longrightarrow> n = n'" and "q \<notin> below N g r"
proof -
  obtain w where w: "walk N g N w = Some q" using q tree_rooted [OF t] by (metis insert_iff walk.simps(1))
  have wr: "walk N g N (w @ [n]) = Some r" "walk N g N (w @ [n']) = Some r'" using w c by (simp_all add: walk_snoc)
  show "n = n'" if x: "x \<in> below N g r" "x \<in> below N g r'"
  proof -
    obtain v v' where v: "walk N g r v = Some x" "walk N g r' v' = Some x" using x by (auto simp: below_def)
    have "walk N g N ((w @ [n]) @ v) = Some x" using wr(1) v(1) walk_append [of N g N "w @ [n]" v] by simp
    from walk_below [OF t wr(2) v(2) this] show ?thesis by simp
  qed
  show "q \<notin> below N g r"
  proof
    assume "q \<in> below N g r"
    then obtain v where "walk N g r v = Some q" by (auto simp: below_def)
    from walk_below [OF t wr(1) this w] show False by simp
  qed
qed

context fdb
begin

lemma finite_nodes: "dir_inv N (tx_get T s) \<Longrightarrow> finite (nodes N (tx_get T s))"
proof -
  assume inv: "dir_inv N (tx_get T s)"
  let ?rows = "tx_getRange T s (keyRange (N @ [NIL]) (N @ [ESCAPE]) None False)"
  let ?f = "\<lambda>k. THE q. \<exists>rest. tuple_ok rest \<and> k = NK N q rest"
  have "nodes N (tx_get T s) \<subseteq> ?f ` fst ` set ?rows"
  proof
    fix q assume "q \<in> nodes N (tx_get T s)"
    then obtain rest v where r: "tuple_ok rest" "tx_get T s (NK N q rest) = Some v" unfolding nodes_def by auto
    then have "(NK N q rest, v) \<in> set ?rows" using NK_in_all [OF r(1), of N q] by (simp add: range_rows)
    moreover have "?f (NK N q rest) = q" using r(1) by (intro the_equality) auto
    ultimately show "q \<in> ?f ` fst ` set ?rows" by force
  qed
  then show ?thesis by (rule finite_subset) simp
qed

lemma removeNode_ok:
  assumes L: "layer_ok L N" and node: "prefix_bytes node = NK N q []" and q: "strinc q \<noteq> []"
  shows "\<exists>s'. removeNode T L node s = Inr s' \<and> (\<forall>k. tx_get T s' k = (if erased N {q} k then None else tx_get T s k))"
proof -
  have "unpacked (nodeSubspace L) (prefix_bytes node) = Inr [Bytes q]"
    using unpacked_node [OF layer_nodes [OF L], of "[]" q] node by simp
  moreover have "subspaceRange node [] = Inr (NK N q [] @ [NIL], NK N q [] @ [ESCAPE])"
    by (simp add: subspaceRange_node [OF node])
  ultimately have "removeNode T L node s =
      Inr (tx_clearRange T (NK N q [] @ [NIL]) (NK N q [] @ [ESCAPE]) (tx_clearRange T q (strinc q) s))"
    using q by (simp add: removeNode_def element_def asBytes_def incrementPrefix_def)
  then show ?thesis using prefix_iff_strinc_range [OF q]
    by (auto simp: get_clearRange erased_def in_node_def)
qed

end

context fdb
begin

lemma childRows:
  assumes inv: "dir_inv N (tx_get T s0)" and node: "prefix_bytes node = NK N p []"
    and same: "\<And>k. in_node N p k \<Longrightarrow> tx_get T s k = tx_get T s0 k"
    and range: "subspaceRange node [BigInt 0] = Inr (b, e)" and row: "(k, v) \<in> set (allInRange T s b e)"
  shows "\<exists>n. wellFormed n \<and> k = childKey N p n \<and> childAt N (tx_get T s0) p n = Some v \<and> childName node (k, v) = Inr n"
proof -
  have be: "b = NK N p [BigInt 0] @ [NIL]" "e = NK N p [BigInt 0] @ [ESCAPE]"
    using range by (simp_all add: subspaceRange_node [OF node])
  have k: "b \<le> k" "k < e" "tx_get T s k = Some v" using row by (auto simp: allInRange_def range_rows)
  have "in_node N p k"
  proof -
    obtain x where "k = NK N p [BigInt 0] @ x" "x \<noteq> []" "follows x"
      using k(1,2) tuples.in_range_iff [of "NK N p [BigInt 0]" k] unfolding be by blast
    then have "k = NK N p [] @ encs False [BigInt 0] @ x" by (simp add: NK_def)
    moreover have "follows (encs False [BigInt 0] @ x)" using \<open>follows x\<close> by (intro follows_encs) simp_all
    ultimately show ?thesis using tuples.in_range_iff [of "NK N p []" k] \<open>x \<noteq> []\<close> unfolding in_node_def by blast
  qed
  then have some: "tx_get T s0 k = Some v" "inN N k" using same k(3) in_node_inN by auto
  obtain q rest where r: "tuple_ok rest" "k = NK N q rest" using row_form [OF inv some(2)] some(1) by blast
  have "q = p \<and> strict_prefix [BigInt 0] rest"
    using NK_in_range [of "[BigInt 0]" rest N p q] k(1,2) r by (auto simp: be)
  then obtain t where t: "q = p" "rest = BigInt 0 # t" by (auto simp: strict_prefix_def prefix_def)
  then obtain n where n: "t = [Str n]"
    using dir_inv_rows [OF inv] r some(1) unfolding rows_ok_def by fastforce
  have "unpacked node k = Inr [BigInt 0, Str n]"
    using unpacked_below [OF node, of "[BigInt 0, Str n]"] r t n by simp
  then show ?thesis using r t n some(1)
    by (auto simp: childName_def directoryChildName_def element_def asString_def childAt_def childKey_def)
qed

lemma removeChildren_ok:
  assumes L: "layer_ok L N" and inv: "dir_inv N (tx_get T s0)" and p: "p \<in> nodes N (tx_get T s0)"
    and IH: "\<And>n r node s. childAt N (tx_get T s0) p n = Some r \<Longrightarrow> prefix_bytes node = NK N r [] \<Longrightarrow>
      (\<And>x k. x \<in> below N (tx_get T s0) r \<Longrightarrow> in_node N x k \<Longrightarrow> tx_get T s k = tx_get T s0 k) \<Longrightarrow>
      \<exists>s'. removeRecursive T L node s = Some (Inr s')
        \<and> (\<forall>k. tx_get T s' k = (if erased N (below N (tx_get T s0) r) k then None else tx_get T s k))"
  shows "\<forall>row \<in> set rows. \<exists>n. childAt N (tx_get T s0) p n = Some (snd row) \<and> childName node row = Inr n \<and> fst row = childKey N p n \<Longrightarrow>
    distinct (map fst rows) \<Longrightarrow>
    (\<And>x k r. r \<in> snd ` set rows \<Longrightarrow> x \<in> below N (tx_get T s0) r \<Longrightarrow> in_node N x k \<Longrightarrow> tx_get T s k = tx_get T s0 k) \<Longrightarrow>
    \<exists>s'. foldO (\<lambda>child s.
        bindO (Some (childName node child)) (\<lambda>_.
        bindO (Some (nodeWithPrefix L (snd child))) (\<lambda>childNode. removeRecursive T L childNode s))) rows s = Some (Inr s')
      \<and> (\<forall>k. tx_get T s' k =
          (if erased N (\<Union> (below N (tx_get T s0) ` snd ` set rows)) k then None else tx_get T s k))"
proof (induction rows arbitrary: s)
  case (Cons row rows)
  let ?g = "tx_get T s0"
  note t = dir_inv_tree [OF inv]
  obtain n where n: "childAt N ?g p n = Some (snd row)" "childName node row = Inr n" "fst row = childKey N p n"
    using Cons.prems(1) by auto
  obtain childNode where node: "nodeWithPrefix L (snd row) = Inr childNode" using nodeWithPrefix_ok by blast
  obtain s1 where s1: "removeRecursive T L childNode s = Some (Inr s1)"
    "\<And>k. tx_get T s1 k = (if erased N (below N ?g (snd row)) k then None else tx_get T s k)"
    using IH [OF n(1) nodeWithPrefix_Inr [OF L node], of s] Cons.prems(3) [of "snd row"] by auto
  have keep: "tx_get T s1 k = ?g k" if r: "r \<in> snd ` set rows" and x: "x \<in> below N ?g r" and k: "in_node N x k" for r x k
  proof (cases "?g k")
    case None
    then show ?thesis using s1(2) Cons.prems(3) [of r x k] r x k by simp
  next
    case (Some v)
    obtain row' where row': "row' \<in> set rows" "snd row' = r" using r by blast
    then obtain n' where n': "childAt N ?g p n' = Some r" "fst row' = childKey N p n'" using Cons.prems(1) by auto
    have "n' \<noteq> n" using Cons.prems(2) row'(1) n(3) n'(2) by (auto simp: image_iff)
    obtain q rest where q: "tuple_ok rest" "k = NK N q rest" "rest \<noteq> []"
      using row_form [OF inv in_node_inN [OF k]] Some by blast
    then have "q = x" using k by simp
    have "\<not> erased N (below N ?g (snd row)) k"
    proof
      assume "erased N (below N ?g (snd row)) k"
      then obtain y where y: "y \<in> below N ?g (snd row)" "prefix y k \<or> in_node N y k" by (auto simp: erased_def)
      have "y \<in> nodes N ?g" "y \<noteq> N"
        using below_nodes [OF t treeD(3) [OF t n(1)] treeD(1) [OF t n(1)] y(1)] by blast+
      then have "\<not> prefix y k" using contents_apart [OF inv] in_node_inN [OF k] by blast
      then have "y = x" using y(2) q \<open>q = x\<close> by simp
      then show False using below_disjoint(1) [OF t _ n(1) n'(1) _ x] y(1) p \<open>n' \<noteq> n\<close> by blast
    qed
    then show ?thesis using s1(2) Cons.prems(3) [of r x k] r x k by simp
  qed
  obtain s' where s': "foldO (\<lambda>child s.
        bindO (Some (childName node child)) (\<lambda>_.
        bindO (Some (nodeWithPrefix L (snd child))) (\<lambda>childNode. removeRecursive T L childNode s))) rows s1 = Some (Inr s')"
    "\<And>k. tx_get T s' k = (if erased N (\<Union> (below N ?g ` snd ` set rows)) k then None else tx_get T s1 k)"
    using Cons.IH [of s1] Cons.prems(1,2) keep by auto
  then show ?case using n(2) node s1 by (auto simp: erased_Un)
qed simp

lemma removeRecursive_ok:
  assumes L: "layer_ok L N" and inv: "dir_inv N (tx_get T s0)"
  shows "p \<in> nodes N (tx_get T s0) \<Longrightarrow> p \<noteq> N \<Longrightarrow> prefix_bytes node = NK N p [] \<Longrightarrow>
    (\<And>x k. x \<in> below N (tx_get T s0) p \<Longrightarrow> in_node N x k \<Longrightarrow> tx_get T s k = tx_get T s0 k) \<Longrightarrow>
    \<exists>s'. removeRecursive T L node s = Some (Inr s')
      \<and> (\<forall>k. tx_get T s' k = (if erased N (below N (tx_get T s0) p) k then None else tx_get T s k))"
proof (induction "card (below N (tx_get T s0) p)" arbitrary: p node s rule: less_induct)
  case less
  let ?g = "tx_get T s0"
  note t = dir_inv_tree [OF inv] and node = less.prems(3)
  have fin: "finite (below N ?g p)"
    using below_nodes [OF t less.prems(1,2)] finite_nodes [OF inv] by (meson finite_subset subsetI)
  let ?b = "NK N p [BigInt 0] @ [NIL]" and ?e = "NK N p [BigInt 0] @ [ESCAPE]"
  have range: "subspaceRange node [BigInt 0] = Inr (?b, ?e)" by (simp add: subspaceRange_node [OF node])
  let ?rows = "allInRange T s ?b ?e"
  have same: "in_node N p k \<Longrightarrow> tx_get T s k = ?g k" for k using less.prems(4) [of p] by simp
  have rows: "\<exists>n. childAt N ?g p n = Some (snd row) \<and> childName node row = Inr n \<and> fst row = childKey N p n"
    if "row \<in> set ?rows" for row
    using childRows [OF inv node same range, of "fst row" "snd row"] that by auto
  have vals: "snd ` set ?rows = {r. \<exists>n. childAt N ?g p n = Some r}"
  proof (intro set_eqI iffI)
    fix r assume "r \<in> snd ` set ?rows"
    then show "r \<in> {r. \<exists>n. childAt N ?g p n = Some r}" using rows by auto
  next
    fix r assume "r \<in> {r. \<exists>n. childAt N ?g p n = Some r}"
    then obtain n where n: "childAt N ?g p n = Some r" by blast
    then have wf: "wellFormed n" "?g (childKey N p n) = Some r" by (auto simp: childAt_def split: if_splits)
    have "?b \<le> childKey N p n \<and> childKey N p n < ?e"
      using NK_in_range [of "[BigInt 0]" "[BigInt 0, Str n]" N p p] wf(1) by (simp add: childKey_def strict_prefix_def)
    moreover have "tx_get T s (childKey N p n) = Some r"
      using same [of "childKey N p n"] wf by (simp add: childKey_def)
    ultimately have "(childKey N p n, r) \<in> set ?rows" by (simp add: allInRange_def range_rows)
    then show "r \<in> snd ` set ?rows" by force
  qed
  have IH: "\<exists>s'. removeRecursive T L node s = Some (Inr s')
        \<and> (\<forall>k. tx_get T s' k = (if erased N (below N ?g r) k then None else tx_get T s k))"
    if c: "childAt N ?g p n = Some r" and "prefix_bytes node = NK N r []"
      and "\<And>x k. x \<in> below N ?g r \<Longrightarrow> in_node N x k \<Longrightarrow> tx_get T s k = ?g k" for n r node s
  proof (rule less.hyps)
    have "below N ?g r \<subset> below N ?g p"
      using below_child [OF c] below_disjoint(2) [OF t _ c c] less.prems(1) below_refl [of p N ?g] by blast
    then show "card (below N ?g r) < card (below N ?g p)" using fin by (rule psubset_card_mono [rotated])
  qed (use that treeD(1,3) [OF t c] in blast)+
  have dist: "distinct (map fst ?rows)" by (simp add: allInRange_def range_distinct)
  have "\<exists>s1. foldO (\<lambda>child s.
        bindO (Some (childName node child)) (\<lambda>_.
        bindO (Some (nodeWithPrefix L (snd child))) (\<lambda>childNode. removeRecursive T L childNode s))) ?rows s = Some (Inr s1)
      \<and> (\<forall>k. tx_get T s1 k = (if erased N (\<Union> (below N ?g ` snd ` set ?rows)) k then None else tx_get T s k))"
  proof (rule removeChildren_ok [OF L inv less.prems(1)], goal_cases)
    case (1 n r node s)
    then show ?case by (rule IH)
  next
    case 2
    then show ?case using rows by blast
  next
    case 3
    then show ?case by (rule dist)
  next
    case (4 x k r)
    then obtain n where "childAt N ?g p n = Some r" using vals by blast
    from below_child [OF this] 4 show ?case using less.prems(4) by blast
  qed
  then obtain s1 where s1: "foldO (\<lambda>child s.
        bindO (Some (childName node child)) (\<lambda>_.
        bindO (Some (nodeWithPrefix L (snd child))) (\<lambda>childNode. removeRecursive T L childNode s))) ?rows s = Some (Inr s1)"
    "\<And>k. tx_get T s1 k = (if erased N (\<Union> (below N ?g ` snd ` set ?rows)) k then None else tx_get T s k)"
    by blast
  have strinc: "strinc p \<noteq> []"
    using dir_inv_free [OF inv] less.prems(1,2) unfolding prefixes_free_def by blast
  obtain s' where s': "removeNode T L node s1 = Inr s'"
    "\<And>k. tx_get T s' k = (if erased N {p} k then None else tx_get T s1 k)"
    using removeNode_ok [OF L node strinc, of s1] by blast
  have "below N ?g p = {p} \<union> \<Union> (below N ?g ` snd ` set ?rows)"
    unfolding vals using below_split [of N ?g p] by auto
  then have e: "erased N (below N ?g p) k \<longleftrightarrow> erased N {p} k \<or> erased N (\<Union> (below N ?g ` snd ` set ?rows)) k" for k
    by (simp only: erased_Un)
  have "tx_get T s' k = (if erased N (below N ?g p) k then None else tx_get T s k)" for k
    unfolding e s'(2) s1(2)
    by (cases "erased N {p} k"; cases "erased N (\<Union> (below N ?g ` snd ` set ?rows)) k") (simp_all only: if_True if_False simp_thms)
  moreover have "removeRecursive T L node s = Some (Inr s')"
    by (subst removeRecursive.simps) (simp add: range s1(1) s'(1))
  ultimately show ?case by blast
qed

lemma kept_walk:
  assumes inv: "dir_inv N g" and q: "walk N g N path = Some q" and "path \<noteq> []"
    and g': "\<And>k. g' k = (if erased N (below N g q) k then None else g k)"
  shows "\<not> prefix path v \<Longrightarrow> walk N g N v = Some a \<Longrightarrow> walk N g' N v = Some a \<and> layerAt N g' a = layerAt N g a"
proof (induction v arbitrary: a rule: rev_induct)
  have t: "tree_ok N g" by (rule dir_inv_tree [OF inv])
  have qn: "q \<in> nodes N g \<and> q \<noteq> N"
  proof -
    obtain b where "childAt N g b (last path) = Some q"
      using q walk_butlast [OF assms(3), of N g N] by (auto simp: bind_eq_Some_conv)
    then show ?thesis using treeD(1,3) [OF t] by blast
  qed
  have keep: "g' (NK N b rest) = g (NK N b rest)" if b: "b \<notin> below N g q" and r: "tuple_ok rest" for b rest
  proof -
    have "\<not> prefix x (NK N b rest)" if "x \<in> below N g q" for x
      using contents_apart [OF inv, of x] below_nodes [OF t _ _ that] qn r by simp
    then have "\<not> erased N (below N g q) (NK N b rest)" using b r by (auto simp: erased_def)
    then show ?thesis by (simp add: g')
  qed
  have out: "b \<notin> below N g q" if "\<not> prefix path v" "walk N g N v = Some b" for b v
    using that walk_below [OF t q _ that(2)] by (auto simp: below_def)
  {
    case Nil
    have "N \<notin> below N g q" using out [of "[]" N] assms(3) by simp
    then show ?case using Nil keep [of N "[Bytes LAYER]"] by (simp add: layerAt_def layerKey_def)
  next
    case (snoc m xs)
    then have xs: "\<not> prefix path xs" by (simp add: prefix_snoc)
    obtain b where b: "walk N g N xs = Some b" "childAt N g b m = Some a"
      using snoc.prems(2) by (auto simp: walk_snoc bind_eq_Some_conv)
    have "childAt N g' b m = Some a"
      using b(2) keep [OF out [OF xs b(1)], of "[BigInt 0, Str m]"] by (auto simp: childAt_def childKey_def split: if_splits)
    moreover have "layerAt N g' a = layerAt N g a"
      using keep [OF out [OF snoc.prems], of "[Bytes LAYER]"] by (simp add: layerAt_def layerKey_def)
    ultimately show ?case using snoc.IH [OF xs b(1)] by (simp add: walk_snoc)
  }
qed

lemma removeInternal_found:
  assumes L: "layer_ok L N" and inv: "dir_inv N (tx_get T s)" and v: "checkVersion T L True s = Inr s1"
    and path: "path \<noteq> []" and at: "walk N (tx_get T s) N path = Some q" and wf: "list_all wellFormed path"
    and o: "open_above N (tx_get T s) N path"
  shows "\<exists>s'. removeInternal T L path failIfMissing s = Some (Inr (True, s')) \<and> dir_inv N (tx_get T s')
    \<and> (\<forall>path'. dirAt N (tx_get T s') path' = (if prefix path path' then None else dirAt N (tx_get T s) path'))
    \<and> (\<forall>k. \<not> inN N k \<longrightarrow> tx_get T s' k =
        (if \<exists>r \<in> below N (tx_get T s) q. prefix r k then None else tx_get T s k))"
proof -
  let ?g = "tx_get T s" and ?g1 = "tx_get T s1"
  have i1: "\<And>k. ?g1 k \<noteq> ?g k \<Longrightarrow> internal_key N k" using checkVersion_Inr(1) [OF L v] version_internal by blast
  have inv1: "dir_inv N ?g1" and d1: "dirAt N ?g1 = dirAt N ?g" using internal_grown(1,2) [OF inv, of ?g1] i1 by blast+
  have w1: "walk N ?g1 b p = walk N ?g b p" and l1: "layerAt N ?g1 b = layerAt N ?g b" for b p
    using inv_internal(2,3) [OF inv, of ?g1] i1 by blast+
  have b1: "below N ?g1 b = below N ?g b" for b by (simp add: below_def w1)
  have o1: "open_above N ?g1 N path" using o by (simp add: open_above_def w1 l1)
  note t = dir_inv_tree [OF inv1]
  obtain node where node: "findNode T L path s1 = Inr (Some node)" "prefix_bytes (node_subspace node) = NK N q []"
    "\<not> isInPartition node False"
    using findNode_follow [OF L _ wf o1] at w1 by auto
  obtain up where up: "walk N ?g1 N (butlast path) = Some up" "childAt N ?g1 up (last path) = Some q"
  proof -
    have "Option.bind (walk N ?g1 N (butlast path)) (\<lambda>r. childAt N ?g1 r (last path)) = Some q"
      using at w1 walk_butlast [OF path, of N ?g1 N] by metis
    then show ?thesis using that by (auto simp: bind_eq_Some_conv)
  qed
  have qn: "q \<in> nodes N ?g1" "q \<noteq> N" using treeD(1,3) [OF t up(2)] by simp_all
  obtain s2 where s2: "removeRecursive T L (node_subspace node) s1 = Some (Inr s2)"
    and g2: "\<And>k. tx_get T s2 k = (if erased N (below N ?g1 q) k then None else ?g1 k)"
    using removeRecursive_ok [OF L inv1 qn node(2), of s1] by blast
  have at1: "walk N ?g1 N path = Some q" using at w1 by simp
  have short: "\<not> prefix path v" if "prefix v (butlast path)" for v
  proof
    assume "prefix path v"
    then have "length path \<le> length (butlast path)" using that by (meson prefix_length_le prefix_order.trans)
    moreover have "0 < length path" using path by simp
    ultimately show False by (simp only: length_butlast)
  qed
  note keep = kept_walk [OF inv1 at1 path g2]
  have up2: "walk N (tx_get T s2) N (butlast path) = Some up" using keep [OF short up(1)] by simp
  have o2: "open_above N (tx_get T s2) N (butlast path)"
    unfolding open_above_def
  proof (intro allI impI)
    fix sub rest a assume a: "butlast path = sub @ rest" "sub \<noteq> []" "rest \<noteq> []" "walk N (tx_get T s2) N sub = Some a"
    obtain b where b: "walk N ?g1 N sub = Some b"
      using up(1) a(1) by (auto simp: walk_append split: option.splits)
    have "path = sub @ rest @ [last path]" using a(1) path by (metis append.assoc append_butlast_last_id)
    then have "layerAt N ?g1 b \<noteq> PARTITION" using open_aboveD [of N ?g1 N sub "rest @ [last path]" b] o1 a(2) b by simp
    then show "layerAt N (tx_get T s2) a \<noteq> PARTITION" using keep [OF short b] a(1,4) by simp
  qed
  have "list_all wellFormed (butlast path @ [last path])" using wf path by simp
  then have wf': "list_all wellFormed (butlast path)" "wellFormed (last path)" by simp_all
  obtain pn where pn: "findNode T L (butlast path) s2 = Inr (Some pn)" "prefix_bytes (node_subspace pn) = NK N up []"
    using findNode_follow [OF L up2 wf'(1) o2] by blast
  have "packed (node_subspace pn) [BigInt 0, Str (last path)] = Inr (childKey N up (last path))"
    using packed_node [OF pn(2)] wf'(2) by (simp add: childKey_def)
  then have rp: "removeFromParent T L path s2 = Inr (tx_clear T (childKey N up (last path)) s2)"
    using path pn(1) by (simp add: removeFromParent_def)
  define s' where "s' = tx_clear T (childKey N up (last path)) s2"
  have get: "tx_get T s' k = (if erased N (below N ?g1 q) k \<or> k = childKey N up (last path) then None else ?g1 k)" for k
    unfolding s'_def clear_fun using g2 [of k] by (cases "k = childKey N up (last path)") simp_all
  have r: "removeInternal T L path failIfMissing s = Some (Inr (True, s'))"
    using v path node s2 rp by (simp add: removeInternal.simps s'_def)
  have form: "erased N (below N ?g1 q) k \<longleftrightarrow> (\<exists>r \<in> below N ?g1 q. \<exists>rest. tuple_ok rest \<and> rest \<noteq> [] \<and> k = NK N r rest)"
    if k: "inN N k" "?g1 k \<noteq> None" for k
  proof -
    obtain a rest where a: "tuple_ok rest" "rest \<noteq> []" "k = NK N a rest" using row_form [OF inv1 k] by blast
    have "\<not> prefix x k" if "x \<in> below N ?g1 q" for x
      using contents_apart [OF inv1, of x] below_nodes [OF t qn that] k(1) by blast
    then have "erased N (below N ?g1 q) k \<longleftrightarrow> a \<in> below N ?g1 q" using a by (auto simp: erased_def)
    then show ?thesis using a by auto
  qed
  have g': "tx_get T s' k =
      (if (\<exists>r \<in> below N ?g1 q. \<exists>rest. tuple_ok rest \<and> rest \<noteq> [] \<and> k = NK N r rest) \<or> k = childKey N up (last path)
       then None else ?g1 k)" if "inN N k" for k
  proof (cases "?g1 k = None")
    case False
    show ?thesis unfolding get form [OF that False] by (rule refl)
  qed (simp add: get)
  have paths: "butlast path @ [last path] = path" using path by simp
  note rm = inv_remove [OF inv1 up(1) wf'(2) up(2), of "tx_get T s'", OF g']
  have outside: "tx_get T s' k = (if \<exists>r \<in> below N ?g q. prefix r k then None else ?g k)" if k: "\<not> inN N k" for k
  proof -
    have "?g1 k = ?g k" using i1 inN_internal k by blast
    moreover have "k \<noteq> childKey N up (last path)" using k wf'(2) by auto
    moreover have "erased N (below N ?g1 q) k \<longleftrightarrow> (\<exists>r \<in> below N ?g q. prefix r k)"
      using k in_node_inN by (auto simp: erased_def b1)
    ultimately show ?thesis by (simp add: get)
  qed
  have "dir_inv N (tx_get T s')" using rm(1) by simp
  moreover have "dirAt N (tx_get T s') path' = (if prefix path path' then None else dirAt N ?g path')" for path'
    using rm(2) [of path'] unfolding paths d1 by simp
  ultimately show ?thesis using r outside by blast
qed

end

end
