(* ===== verification/Directory_Success.thy ===== *)
theory Directory_Success
  imports Directory_Changes
begin

text \<open>
  Operations that succeed: the checks of the version and of a prefix return on well-formed metadata, and
  directories of the root can be created and moved.
\<close>

section \<open>Checks\<close>

lemma version_decodes: "leNat (take 4 DIRECTORY_VERSION) = 1" "leNat (take 4 (drop 4 DIRECTORY_VERSION)) = 0"
  by (simp_all add: DIRECTORY_VERSION_def leNat_def beNat_def)

definition version_ok :: "bytes \<Rightarrow> store \<Rightarrow> bool" where
  "version_ok N g \<longleftrightarrow> g (versionKey N) \<in> {None, Some DIRECTORY_VERSION}"

context fdb
begin

lemma checkVersion_ok:
  assumes "layer_ok L N" and "version_ok N (tx_get T s)"
  shows "checkVersion T L w s =
    Inr (if w \<and> tx_get T s (versionKey N) = None then tx_set T (versionKey N) DIRECTORY_VERSION s else s)"
proof -
  have "packed (rootNode L) [Bytes VERSION] = Inr (versionKey N)"
    by (simp add: packed_node [OF layer_root [OF assms(1)]] versionKey_def)
  then show ?thesis using assms(2)
    by (auto simp: checkVersion_def version_ok_def version_decodes Let_def DIRECTORY_VERSION_def [THEN arg_cong, of length])
qed

lemma nodeContaining_ok:
  assumes L: "layer_ok L N" and rows: "rows_ok N (tx_get T s)"
  shows "\<exists>r. nodeContainingKey T L key s = Inr r"
proof (cases "prefix N key")
  case True
  then show ?thesis using layer_nodes [OF L] by (simp add: nodeContainingKey_def)
next
  case False
  note N = layer_nodes [OF L]
  define e where "e = NK N (key @ [0]) []"
  have end_at: "packed (nodeSubspace L) [Bytes (key @ [0])] = Inr e"
    by (simp add: packed_Inr N e_def NK_def)
  have range: "subspaceRange (nodeSubspace L) [] = Inr (N @ [NIL], N @ [ESCAPE])"
    by (simp add: subspaceRange_def subspace_range_Inr N)
  show ?thesis
  proof (cases "firstInRange T s (N @ [NIL]) e True")
    case None
    then show ?thesis using False by (simp add: nodeContainingKey_def N range end_at)
  next
    case (Some kv)
    obtain k v where kv: "kv = (k, v)" by (cases kv)
    note row = firstInRange_row [OF Some [unfolded kv]]
    have "inN N k" using row NK_in_all [of "[]" N "key @ [0]"] by (auto simp: inN_def e_def)
    then obtain q rest where q: "tuple_ok rest" "rest \<noteq> []" "k = NK N q rest"
      using rows row unfolding rows_ok_iff row_key_def by blast
    then show ?thesis using False Some kv nodeWithPrefix_ok [of L q] N
      by (auto simp: nodeContainingKey_def range end_at unpacked_node element_def asBytes_def)
  qed
qed

lemma isPrefixFree_ok:
  assumes L: "layer_ok L N" and rows: "rows_ok N (tx_get T s)" and "strinc p \<noteq> []"
  shows "\<exists>b. isPrefixFree T L p s = Inr b"
proof -
  obtain r where "nodeContainingKey T L p s = Inr r" using nodeContaining_ok [OF L rows] by blast
  then show ?thesis using assms(3)
    by (auto simp: isPrefixFree_def incrementPrefix_def Let_def packed_Inr [THEN iffD2])
qed


end

section \<open>Directories of the root\<close>

lemma findNode_child:
  assumes L: "layer_ok L N" and n: "wellFormed n"
  shows "case childAt N (tx_get T s) N n of
      None \<Rightarrow> findNode T L [n] s = Inr None
    | Some q \<Rightarrow> \<exists>node. findNode T L [n] s = Inr (Some node) \<and> \<not> isInPartition node False
        \<and> prefix_bytes (node_subspace node) = NK N q [] \<and> node_layer node = layerAt N (tx_get T s) q \<and> currentPath node = [n]"
proof (cases "childAt N (tx_get T s) N n")
  case None
  have "packed (rootNode L) [BigInt 0, Str n] = Inr (childKey N N n)"
    using n by (simp add: packed_node [OF layer_root [OF L]] childKey_def)
  then show ?thesis using None n by (simp add: findNode_def childAt_def)
next
  case (Some q)
  then have "walk N (tx_get T s) N [n] = Some q" by simp
  moreover have "open_above N (tx_get T s) N [n]" by (auto simp: open_above_def append_eq_Cons_conv Cons_eq_append_conv)
  ultimately obtain node where f: "findNode T L [n] s = Inr (Some node)" "\<not> isInPartition node False"
    using findNode_follow [OF L] n by fastforce
  with findNode_at [OF L f] Some show ?thesis by auto
qed

lemma contentsOfNode_ok:
  assumes L: "layer_ok L N" and node: "prefix_bytes node = NK N q []" and "l \<noteq> PARTITION"
  shows "contentsOfNode L node path l = Inr (DirectorySubspace L path q l)"
  using unpacked_node [OF layer_nodes [OF L], of "[]" q] assms(3)
  by (simp add: contentsOfNode_def node element_def asBytes_def)

context fdb
begin

lemma create_top_ok:
  assumes L: "layer_ok L N" and manual: "allowManualPrefixes L" and inv: "dir_inv N (tx_get T s)"
    and v: "version_ok N (tx_get T s)" and n: "wellFormed n" and none: "childAt N (tx_get T s) N n = None"
    and p: "free_prefix N (tx_get T s) p" "strinc p \<noteq> []" and l: "l \<noteq> PARTITION"
  shows "\<exists>s'. createOrOpenInternal T L [n] (Some p) (Some l) True allowOpen rs s
      = Some (Inr (DirectorySubspace L [n] p l, s', rs))
    \<and> tx_get T s' = (tx_get T s)(versionKey N := Some DIRECTORY_VERSION, childKey N N n := Some p, layerKey N p := Some l)"
proof -
  let ?g = "tx_get T s"
  have f: "findNode T L [n] s = Inr None" using findNode_child [OF L n, of T s] none by simp
  define s1 where "s1 = (if ?g (versionKey N) = None then tx_set T (versionKey N) DIRECTORY_VERSION s else s)"
  have v1: "checkVersion T L False s = Inr s" "checkVersion T L True s = Inr s1"
    using checkVersion_ok [OF L v] by (simp_all add: s1_def)
  have g1: "tx_get T s1 = ?g(versionKey N := Some DIRECTORY_VERSION)"
    using v by (auto simp: s1_def set_fun version_ok_def)
  have i1: "\<And>k. tx_get T s1 k \<noteq> ?g k \<Longrightarrow> internal_key N k" using version_internal by (auto simp: g1 split: if_splits)
  have inv1: "dir_inv N (tx_get T s1)" using internal_grown(1) [OF inv, of "tx_get T s1"] i1 by blast
  have root: "N \<in> nodes N (tx_get T s1)" by (rule version_root) (simp add: g1)
  have "insert N (nodes N (tx_get T s1)) = insert N (nodes N ?g)"
    using internal_grown [OF inv, of "tx_get T s1"] i1 inv_internal [OF inv, of "tx_get T s1"] by blast
  then have p1: "free_prefix N (tx_get T s1) p" using p(1) by (simp add: free_prefix_def)
  obtain b where b: "isPrefixFree T L p s1 = Inr b" using isPrefixFree_ok [OF L dir_inv_rows [OF inv1] p(2)] by blast
  then have free: "isPrefixFree T L p s1 = Inr True"
    using isPrefixFree_exact(1) [OF L dir_inv_rows [OF inv1] dir_inv_free [OF inv1] root b] p1 by simp
  obtain node where node: "nodeWithPrefix L p = Inr node" using nodeWithPrefix_ok by blast
  note at = nodeWithPrefix_Inr [OF L node]
  have ck: "packed (rootNode L) [BigInt 0, Str n] = Inr (childKey N N n)" "packed node [Bytes LAYER] = Inr (layerKey N p)"
    using n packed_node [OF layer_root [OF L]] packed_node [OF at] by (simp_all add: childKey_def layerKey_def)
  have "createNode T L [n] (Some l) (rootNode L) p s1
      = Inr (DirectorySubspace L [n] p l, tx_set T (layerKey N p) l (tx_set T (childKey N N n) p s1))"
    by (simp add: createNode_def free node ck Let_def contentsOfNode_ok [OF L at l])
  then have "createOrOpenInternal T L [n] (Some p) (Some l) True allowOpen rs s
      = Some (Inr (DirectorySubspace L [n] p l, tx_set T (layerKey N p) l (tx_set T (childKey N N n) p s1), rs))"
    by (simp add: createOrOpenInternal.simps createInternal.simps getParentNode.simps v1 manual f choosePrefix_def)
  then show ?thesis by (auto simp: set_fun g1)
qed

lemma move_top_ok:
  assumes L: "layer_ok L N" and v: "version_ok N (tx_get T s)" and n: "wellFormed n" "wellFormed m"
    and old: "childAt N (tx_get T s) N n = Some q" and none: "childAt N (tx_get T s) N m = None"
    and l: "layerAt N (tx_get T s) q \<noteq> PARTITION"
  shows "\<exists>d s'. moveInternal T L [n] [m] s = Inr (d, s')"
proof -
  let ?g = "tx_get T s"
  define s1 where "s1 = (if ?g (versionKey N) = None then tx_set T (versionKey N) DIRECTORY_VERSION s else s)"
  have v1: "checkVersion T L True s = Inr s1" using checkVersion_ok [OF L v] by (simp add: s1_def)
  have g1: "tx_get T s1 = ?g(versionKey N := Some DIRECTORY_VERSION)"
    using v by (auto simp: s1_def set_fun version_ok_def)
  have c: "childAt N (tx_get T s1) N x = childAt N ?g N x" for x 
    by (simp add: childAt_def g1)
  have l1: "layerAt N (tx_get T s1) q = layerAt N ?g q" by (simp add: layerAt_def g1)
  obtain node where f: "findNode T L [n] s1 = Inr (Some node)" "\<not> isInPartition node False"
    "prefix_bytes (node_subspace node) = NK N q []" "node_layer node = layerAt N ?g q" "currentPath node = [n]"
    using findNode_child [OF L n(1), of T s1] old by (auto simp: c l1)
  have fm: "findNode T L [m] s1 = Inr None" using findNode_child [OF L n(2), of T s1] none by (simp add: c)
  have top: "\<exists>r. findNode T L [] s' = Inr (Some r) \<and> prefix_bytes (node_subspace r) = NK N N []" for s'
    using findNode_follow [OF L, where T = T and s = s' and path = "[]"] by (auto simp: open_above_def)
  have ck: "packed sub [BigInt 0, Str x] = Inr (childKey N N x)" if "prefix_bytes sub = NK N N []" "wellFormed x" for sub x
    using that packed_node [OF that(1)] by (simp add: childKey_def)
  obtain r where r: "findNode T L [] s1 = Inr (Some r)" "prefix_bytes (node_subspace r) = NK N N []" using top by blast
  obtain r' where r': "findNode T L [] (tx_set T (childKey N N m) q s1) = Inr (Some r')"
    "prefix_bytes (node_subspace r') = NK N N []" using top by blast
  have u: "unpacked (nodeSubspace L) (prefix_bytes (node_subspace node)) = Inr [Bytes q]"
    using unpacked_node [OF layer_nodes [OF L], of "[]" q] by (simp add: f(3))
  have "removeFromParent T L [n] (tx_set T (childKey N N m) q s1)
      = Inr (tx_clear T (childKey N N n) (tx_set T (childKey N N m) q s1))"
    by (simp add: removeFromParent_def r' ck [OF r'(2) n(1)])
  then have "\<exists>d s'. moveNode T L [n] [m] node s1 = Inr (d, s')"
    using contentsOfNode_ok [OF L f(3), of "node_layer node"] l f(4)
    by (simp add: moveNode_def r u ck [OF r(2) n(2)] element_def asBytes_def)
  moreover have "n \<noteq> m" using old none by auto
  ultimately show ?thesis by (simp add: moveInternal.simps [of T L "[n]"] v1 f fm)
qed

end

end
