(* ===== verification/Directory_Api.thy ===== *)
theory Directory_Api
  imports Directory_Engine
begin

text \<open>
  The methods of the three classes that implement \<open>Directory\<close> in src/src/directory/engine.ts. The root
  layer works on the given path, a directory below its own path, and a partition inside itself, except for
  the operations on the partition as a directory of its parent.
\<close>

section \<open>DirectoryLayer\<close>

definition layer_createOrOpen ::
    "'s txn \<Rightarrow> directory_layer \<Rightarrow> directory_path \<Rightarrow> bytes option \<Rightarrow> bytes option \<Rightarrow> 32 word list \<Rightarrow> 's
      \<Rightarrow> (directory_error + directory_output \<times> 's \<times> 32 word list) option" where
  "layer_createOrOpen T L path explicit l randoms s = createOrOpenInternal T L path explicit l True True randoms s"

definition layer_create ::
    "'s txn \<Rightarrow> directory_layer \<Rightarrow> directory_path \<Rightarrow> bytes option \<Rightarrow> bytes option \<Rightarrow> 32 word list \<Rightarrow> 's
      \<Rightarrow> (directory_error + directory_output \<times> 's \<times> 32 word list) option" where
  "layer_create T L path explicit l randoms s = createOrOpenInternal T L path explicit l True False randoms s"

definition layer_open ::
    "'s txn \<Rightarrow> directory_layer \<Rightarrow> directory_path \<Rightarrow> bytes option \<Rightarrow> 32 word list \<Rightarrow> 's
      \<Rightarrow> (directory_error + directory_output \<times> 's \<times> 32 word list) option" where
  "layer_open T L path l randoms s = createOrOpenInternal T L path None l False True randoms s"

definition layer_exists :: "'s txn \<Rightarrow> directory_layer \<Rightarrow> directory_path \<Rightarrow> 's \<Rightarrow> directory_error + bool" where
  "layer_exists T L path s = existsInternal T L path s"

definition layer_list ::
    "'s txn \<Rightarrow> directory_layer \<Rightarrow> directory_path \<Rightarrow> 's \<Rightarrow> (directory_error + js_string list) option" where
  "layer_list T L path s = listInternal T L path s"

definition layer_move :: "directory_layer \<Rightarrow> directory_path \<Rightarrow> directory_error + directory_output \<times> 's" where
  "layer_move L newAbsolutePath = Inl CannotMoveRootDirectory"

definition layer_moveTo ::
    "'s txn \<Rightarrow> directory_layer \<Rightarrow> directory_path \<Rightarrow> directory_path \<Rightarrow> 's \<Rightarrow> directory_error + directory_output \<times> 's" where
  "layer_moveTo T L oldPath newPath s = moveInternal T L oldPath newPath s"

definition layer_remove :: "'s txn \<Rightarrow> directory_layer \<Rightarrow> directory_path \<Rightarrow> 's \<Rightarrow> (directory_error + bool \<times> 's) option" where
  "layer_remove T L path s = removeInternal T L path True s"

definition layer_removeIfExists ::
    "'s txn \<Rightarrow> directory_layer \<Rightarrow> directory_path \<Rightarrow> 's \<Rightarrow> (directory_error + bool \<times> 's) option" where
  "layer_removeIfExists T L path s = removeInternal T L path False s"

section \<open>DirectorySubspace\<close>

definition subspace_createOrOpen ::
    "'s txn \<Rightarrow> directory_layer \<Rightarrow> directory_path \<Rightarrow> directory_path \<Rightarrow> bytes option \<Rightarrow> bytes option \<Rightarrow> 32 word list \<Rightarrow> 's
      \<Rightarrow> (directory_error + directory_output \<times> 's \<times> 32 word list) option" where
  "subspace_createOrOpen T L relative path explicit l randoms s =
     layer_createOrOpen T L (relative @ path) explicit l randoms s"

definition subspace_create ::
    "'s txn \<Rightarrow> directory_layer \<Rightarrow> directory_path \<Rightarrow> directory_path \<Rightarrow> bytes option \<Rightarrow> bytes option \<Rightarrow> 32 word list \<Rightarrow> 's
      \<Rightarrow> (directory_error + directory_output \<times> 's \<times> 32 word list) option" where
  "subspace_create T L relative path explicit l randoms s = layer_create T L (relative @ path) explicit l randoms s"

definition subspace_open ::
    "'s txn \<Rightarrow> directory_layer \<Rightarrow> directory_path \<Rightarrow> directory_path \<Rightarrow> bytes option \<Rightarrow> 32 word list \<Rightarrow> 's
      \<Rightarrow> (directory_error + directory_output \<times> 's \<times> 32 word list) option" where
  "subspace_open T L relative path l randoms s = layer_open T L (relative @ path) l randoms s"

definition subspace_exists ::
    "'s txn \<Rightarrow> directory_layer \<Rightarrow> directory_path \<Rightarrow> directory_path \<Rightarrow> 's \<Rightarrow> directory_error + bool" where
  "subspace_exists T L relative path s = layer_exists T L (relative @ path) s"

definition subspace_list ::
    "'s txn \<Rightarrow> directory_layer \<Rightarrow> directory_path \<Rightarrow> directory_path \<Rightarrow> 's \<Rightarrow> (directory_error + js_string list) option" where
  "subspace_list T L relative path s = layer_list T L (relative @ path) s"

definition subspace_move ::
    "'s txn \<Rightarrow> directory_layer \<Rightarrow> directory_path \<Rightarrow> directory_path \<Rightarrow> 's \<Rightarrow> directory_error + directory_output \<times> 's" where
  "subspace_move T L relative newAbsolutePath s =
     bindR (relativePath L newAbsolutePath) (\<lambda>newPath. layer_moveTo T L relative newPath s)"

definition subspace_moveTo ::
    "'s txn \<Rightarrow> directory_layer \<Rightarrow> directory_path \<Rightarrow> directory_path \<Rightarrow> directory_path \<Rightarrow> 's
      \<Rightarrow> directory_error + directory_output \<times> 's" where
  "subspace_moveTo T L relative oldPath newPath s = layer_moveTo T L (relative @ oldPath) (relative @ newPath) s"

definition subspace_remove ::
    "'s txn \<Rightarrow> directory_layer \<Rightarrow> directory_path \<Rightarrow> directory_path \<Rightarrow> 's \<Rightarrow> (directory_error + bool \<times> 's) option" where
  "subspace_remove T L relative path s = layer_remove T L (relative @ path) s"

definition subspace_removeIfExists ::
    "'s txn \<Rightarrow> directory_layer \<Rightarrow> directory_path \<Rightarrow> directory_path \<Rightarrow> 's \<Rightarrow> (directory_error + bool \<times> 's) option" where
  "subspace_removeIfExists T L relative path s = layer_removeIfExists T L (relative @ path) s"

section \<open>DirectoryPartition\<close>

text \<open>
  Creating, opening, listing and moving inside a partition are the methods of its own layer; existence,
  removal and moving of the partition itself are asked of the parent's layer.
\<close>

definition partition_exists ::
    "'s txn \<Rightarrow> directory_layer \<Rightarrow> directory_path \<Rightarrow> directory_layer \<Rightarrow> directory_path \<Rightarrow> 's \<Rightarrow> directory_error + bool" where
  "partition_exists T parent relative nested path s =
     (if length path = 0 then layer_exists T parent relative s else layer_exists T nested path s)"

definition partition_move ::
    "'s txn \<Rightarrow> directory_layer \<Rightarrow> directory_path \<Rightarrow> directory_path \<Rightarrow> 's \<Rightarrow> directory_error + directory_output \<times> 's" where
  "partition_move T parent relative newAbsolutePath s =
     bindR (relativePath parent newAbsolutePath) (\<lambda>newPath. layer_moveTo T parent relative newPath s)"

definition partition_remove ::
    "'s txn \<Rightarrow> directory_layer \<Rightarrow> directory_path \<Rightarrow> directory_layer \<Rightarrow> directory_path \<Rightarrow> 's
      \<Rightarrow> (directory_error + bool \<times> 's) option" where
  "partition_remove T parent relative nested path s =
     (if length path = 0 then layer_remove T parent relative s else layer_remove T nested path s)"

definition partition_removeIfExists ::
    "'s txn \<Rightarrow> directory_layer \<Rightarrow> directory_path \<Rightarrow> directory_layer \<Rightarrow> directory_path \<Rightarrow> 's
      \<Rightarrow> (directory_error + bool \<times> 's) option" where
  "partition_removeIfExists T parent relative nested path s =
     (if length path = 0 then layer_removeIfExists T parent relative s else layer_removeIfExists T nested path s)"

section \<open>The interface\<close>

definition directory_createOrOpen ::
    "'s txn \<Rightarrow> directory_output \<Rightarrow> directory_path \<Rightarrow> bytes option \<Rightarrow> bytes option \<Rightarrow> 32 word list \<Rightarrow> 's
      \<Rightarrow> (directory_error + directory_output \<times> 's \<times> 32 word list) option" where
  "directory_createOrOpen T d path explicit l randoms s = (case d of
     DirectorySubspace L relative _ _ \<Rightarrow> subspace_createOrOpen T L relative path explicit l randoms s
   | DirectoryPartition _ _ nested \<Rightarrow> layer_createOrOpen T nested path explicit l randoms s)"

definition directory_create ::
    "'s txn \<Rightarrow> directory_output \<Rightarrow> directory_path \<Rightarrow> bytes option \<Rightarrow> bytes option \<Rightarrow> 32 word list \<Rightarrow> 's
      \<Rightarrow> (directory_error + directory_output \<times> 's \<times> 32 word list) option" where
  "directory_create T d path explicit l randoms s = (case d of
     DirectorySubspace L relative _ _ \<Rightarrow> subspace_create T L relative path explicit l randoms s
   | DirectoryPartition _ _ nested \<Rightarrow> layer_create T nested path explicit l randoms s)"

definition directory_open ::
    "'s txn \<Rightarrow> directory_output \<Rightarrow> directory_path \<Rightarrow> bytes option \<Rightarrow> 32 word list \<Rightarrow> 's
      \<Rightarrow> (directory_error + directory_output \<times> 's \<times> 32 word list) option" where
  "directory_open T d path l randoms s = (case d of
     DirectorySubspace L relative _ _ \<Rightarrow> subspace_open T L relative path l randoms s
   | DirectoryPartition _ _ nested \<Rightarrow> layer_open T nested path l randoms s)"

definition directory_exists :: "'s txn \<Rightarrow> directory_output \<Rightarrow> directory_path \<Rightarrow> 's \<Rightarrow> directory_error + bool" where
  "directory_exists T d path s = (case d of
     DirectorySubspace L relative _ _ \<Rightarrow> subspace_exists T L relative path s
   | DirectoryPartition parent relative nested \<Rightarrow> partition_exists T parent relative nested path s)"

definition directory_list ::
    "'s txn \<Rightarrow> directory_output \<Rightarrow> directory_path \<Rightarrow> 's \<Rightarrow> (directory_error + js_string list) option" where
  "directory_list T d path s = (case d of
     DirectorySubspace L relative _ _ \<Rightarrow> subspace_list T L relative path s
   | DirectoryPartition _ _ nested \<Rightarrow> layer_list T nested path s)"

definition directory_move ::
    "'s txn \<Rightarrow> directory_output \<Rightarrow> directory_path \<Rightarrow> 's \<Rightarrow> directory_error + directory_output \<times> 's" where
  "directory_move T d newAbsolutePath s = (case d of
     DirectorySubspace L relative _ _ \<Rightarrow> subspace_move T L relative newAbsolutePath s
   | DirectoryPartition parent relative _ \<Rightarrow> partition_move T parent relative newAbsolutePath s)"

definition directory_moveTo ::
    "'s txn \<Rightarrow> directory_output \<Rightarrow> directory_path \<Rightarrow> directory_path \<Rightarrow> 's \<Rightarrow> directory_error + directory_output \<times> 's" where
  "directory_moveTo T d oldPath newPath s = (case d of
     DirectorySubspace L relative _ _ \<Rightarrow> subspace_moveTo T L relative oldPath newPath s
   | DirectoryPartition _ _ nested \<Rightarrow> layer_moveTo T nested oldPath newPath s)"

definition directory_remove ::
    "'s txn \<Rightarrow> directory_output \<Rightarrow> directory_path \<Rightarrow> 's \<Rightarrow> (directory_error + bool \<times> 's) option" where
  "directory_remove T d path s = (case d of
     DirectorySubspace L relative _ _ \<Rightarrow> subspace_remove T L relative path s
   | DirectoryPartition parent relative nested \<Rightarrow> partition_remove T parent relative nested path s)"

definition directory_removeIfExists ::
    "'s txn \<Rightarrow> directory_output \<Rightarrow> directory_path \<Rightarrow> 's \<Rightarrow> (directory_error + bool \<times> 's) option" where
  "directory_removeIfExists T d path s = (case d of
     DirectorySubspace L relative _ _ \<Rightarrow> subspace_removeIfExists T L relative path s
   | DirectoryPartition parent relative nested \<Rightarrow> partition_removeIfExists T parent relative nested path s)"

end
