(* ===== verification/Directory_Properties.thy ===== *)
theory Directory_Properties
  imports Directory_Success Directory_Api Sample_Codecs
begin

text \<open>
  What the directory layer guarantees: the states that its clients can reach, the tree that its operations
  work on, and the prefixes that the allocator hands out.
\<close>

section \<open>Reachable states\<close>

text \<open>
  Steps of clients that share a layer, in any interleaving: directories are created or opened, moved and
  removed, prefixes are allocated, and transactions write elsewhere. Paths that lead into a partition are
  operations of the partition's own layer, whose metadata are elsewhere.
\<close>

inductive dir_step :: "'s txn \<Rightarrow> directory_layer \<Rightarrow> bytes \<Rightarrow> 's \<Rightarrow> 's \<Rightarrow> bool" for T L N where
  step_create: "\<not> leads_into_partition T L path s \<Longrightarrow>
    createOrOpenInternal T L path explicit expected allowCreate allowOpen randoms s = Some (Inr (d, s', rs)) \<Longrightarrow>
    dir_step T L N s s'"
| step_move: "\<not> leads_into_partition T L oldPath s \<Longrightarrow> moveInternal T L oldPath newPath s = Inr (d, s') \<Longrightarrow>
    dir_step T L N s s'"
| step_remove: "\<not> leads_into_partition T L path s \<Longrightarrow> removeInternal T L path failIfMissing s = Some (Inr (b, s')) \<Longrightarrow>
    dir_step T L N s s'"
| step_allocate: "allocatePrefix T L randoms s = Some (Inr (a, s', rs)) \<Longrightarrow> dir_step T L N s s'"
| step_elsewhere: "(\<And>k. inN N k \<Longrightarrow> tx_get T s' k = tx_get T s k) \<Longrightarrow> dir_step T L N s s'"

inductive dir_reachable :: "'s txn \<Rightarrow> directory_layer \<Rightarrow> bytes \<Rightarrow> 's \<Rightarrow> bool" for T L N where
  dir_empty: "(\<And>k. inN N k \<Longrightarrow> tx_get T s k = None) \<Longrightarrow> dir_reachable T L N s"
| dir_next: "dir_reachable T L N s \<Longrightarrow> dir_step T L N s s' \<Longrightarrow> dir_reachable T L N s'"

lemma inv_empty:
  assumes "N \<noteq> []" and none: "\<And>k. inN N k \<Longrightarrow> g k = None"
  shows "dir_inv N g"
proof -
  have n: "nodes N g = {}" using none by (auto simp: nodes_def)
  have "childAt N g q m = None" for q m using none by (simp add: childAt_def)
  then have "tree_ok N g" by (simp add: tree_ok_def n)
  moreover have "rows_ok N g" using none by (simp add: rows_ok_iff)
  ultimately show ?thesis using assms(1) by (simp add: dir_inv_def prefixes_free_def n)
qed

lemma hca_change_inv:
  assumes inv: "dir_inv N g" and c: "change N g g'"
  shows "dir_inv N g'"
proof -
  have "\<And>k. g' k \<noteq> g k \<Longrightarrow> internal_key N k" using c hca_internal unfolding change_def by blast
  then show ?thesis using internal_grown(1) [OF inv, of g'] by blast
qed

context fdb
begin

lemma removeInternal_inv:
  assumes L: "layer_ok L N" and inv: "dir_inv N (tx_get T s)" and out: "\<not> leads_into_partition T L path s"
    and r: "removeInternal T L path failIfMissing s = Some (Inr (b, s'))"
  shows "dir_inv N (tx_get T s')"
proof -
  obtain s1 found where v: "checkVersion T L True s = Inr s1" and path: "path \<noteq> []"
    and f: "findNode T L path s1 = Inr found"
    using r by (auto simp: removeInternal.simps [of T L path] bindO_Inr split: if_splits)
  have i1: "\<And>k. tx_get T s1 k \<noteq> tx_get T s k \<Longrightarrow> internal_key N k"
    using checkVersion_Inr(1) [OF L v] version_internal by blast
  note i = inv_internal [OF inv, of "tx_get T s1"]
  have inv1: "dir_inv N (tx_get T s1)" using i(1) i1 by blast
  have w: "walk N (tx_get T s1) a p = walk N (tx_get T s) a p" "layerAt N (tx_get T s1) a = layerAt N (tx_get T s) a" for a p
    using i(2,3) i1 by blast+
  show ?thesis
  proof (cases found)
    case None
    then have "s' = s1" using r v path f by (auto simp: removeInternal.simps [of T L path] split: if_splits)
    with inv1 show ?thesis by simp
  next
    case (Some node)
    have "\<not> leads_into_partition T L path s1"
      using leads_cong(2) [OF L same_tree_internal path, of T s s1] i1 out by metis
    then have np: "\<not> isInPartition node False" using f Some by (auto simp: leads_into_partition_def)
    obtain q where q: "walk N (tx_get T s) N path = Some q" "list_all wellFormed path"
      using findNode_at [OF L f [unfolded Some] np] by (auto simp: w)
    have "open_above N (tx_get T s) N path"
      using found_open [OF L f [unfolded Some] np] by (simp add: open_above_def w)
    from removeInternal_found [OF L inv v path q(1,2) this, of failIfMissing] r show ?thesis by auto
  qed
qed

lemma dir_step_inv:
  assumes L: "layer_ok L N" and "dir_step T L N s s'" and inv: "dir_inv N (tx_get T s)"
  shows "dir_inv N (tx_get T s')"
  using assms(2)
proof cases
  case (step_create path explicit expected allowCreate allowOpen randoms d rs)
  from createOrOpen_Inr [OF L inv this] show ?thesis by blast
next
  case (step_move oldPath newPath d)
  from moveInternal_Inr [OF L inv this] show ?thesis by blast
next
  case (step_remove path failIfMissing b)
  from removeInternal_inv [OF L inv this] show ?thesis .
next
  case (step_allocate randoms a rs)
  from allocatePrefix_inv(1) [OF L this dir_inv_rows [OF inv], of "{}"] have "change N (tx_get T s) (tx_get T s')"
    by (simp add: alloc_ok_def)
  with inv show ?thesis by (rule hca_change_inv)
next
  case step_elsewhere
  then show ?thesis using inv inv_cong(1) by blast
qed

lemma dir_reachable_inv:
  assumes L: "layer_ok L N" and "dir_reachable T L N s"
  shows "dir_inv N (tx_get T s)"
  using assms(2)
proof induction
  case (dir_empty s)
  then show ?case using inv_empty layer_nonempty [OF L] by blast
next
  case (dir_next s s')
  then show ?case using dir_step_inv [OF L] by blast
qed

end

lemma dirAt_prefix_free:
  assumes inv: "dir_inv N g" and d: "dirAt N g p1 = Some (q1, l1)" "dirAt N g p2 = Some (q2, l2)" and "p1 \<noteq> p2"
  shows "\<not> prefix q1 q2"
proof
  note t = dir_inv_tree [OF inv]
  assume "prefix q1 q2"
  moreover have "q1 \<in> insert N (nodes N g)" "q2 \<in> insert N (nodes N g)"
    using walk_node [OF t] d by (auto simp: dirAt_walk)
  ultimately have "q1 = q2" using prefixes_freeD [OF dir_inv_free [OF inv]] by blast
  then show False using d walk_unique [OF t] assms(4) by (auto simp: dirAt_walk)
qed

lemma dirAt_nodes: "dir_inv N g \<Longrightarrow> q \<in> insert N (nodes N g) \<longleftrightarrow> (\<exists>path l. dirAt N g path = Some (q, l))"
  using walk_node [OF dir_inv_tree] tree_rooted [OF dir_inv_tree]
  by (auto simp: dirAt_walk) (metis walk.simps(1), blast+)

section \<open>Listing\<close>

context fdb
begin

lemma list_ok:
  assumes L: "layer_ok L N" and inv: "dir_inv N (tx_get T s)" and v: "version_ok N (tx_get T s)"
    and w: "walk N (tx_get T s) N path = Some q" and wf: "list_all wellFormed path"
    and o: "open_above N (tx_get T s) N path" and l: "layerAt N (tx_get T s) q \<noteq> PARTITION"
  shows "\<exists>names. listInternal T L path s = Some (Inr names) \<and> distinct names
    \<and> set names = {n. dirAt N (tx_get T s) (path @ [n]) \<noteq> None}"
proof -
  let ?g = "tx_get T s"
  obtain node where f: "findNode T L path s = Inr (Some node)" "prefix_bytes (node_subspace node) = NK N q []"
    "\<not> isInPartition node False"
    using findNode_follow [OF L w wf o] by blast
  have "node_layer node = layerAt N ?g q" using findNode_at [OF L f(1,3)] w by auto
  then have np: "\<not> isInPartition node True" using l by (simp add: isInPartition_def)
  obtain b e where range: "subspaceRange (node_subspace node) [BigInt 0] = Inr (b, e)"
    using subspaceRange_node [OF f(2), of "[BigInt 0]"] by simp
  have be: "b = NK N q [BigInt 0] @ [NIL]" "e = NK N q [BigInt 0] @ [ESCAPE]"
    using range by (simp_all add: subspaceRange_node [OF f(2)])
  let ?rows = "allInRange T s b e"
  have row: "\<exists>n. wellFormed n \<and> k = childKey N q n \<and> childAt N ?g q n = Some v \<and> childName (node_subspace node) (k, v) = Inr n"
    if "(k, v) \<in> set ?rows" for k v
    using childRows [OF inv f(2) refl range that] .
  define name where "name r = (SOME n. wellFormed n \<and> fst r = childKey N q n \<and> childName (node_subspace node) r = Inr n)" for r
  have name: "wellFormed (name r) \<and> fst r = childKey N q (name r) \<and> childName (node_subspace node) r = Inr (name r)"
    if "r \<in> set ?rows" for r
    unfolding name_def by (rule someI_ex) (use row [of "fst r" "snd r"] that in auto)
  have m: "mapR (childName (node_subspace node)) ?rows = Inr (map name ?rows)"
    by (rule mapR_Inr) (use name in blast)
  have call: "listInternal T L path s = Some (Inr (map name ?rows))"
    by (subst listInternal.simps) (simp add: checkVersion_ok [OF L v] f(1) np range m)
  have "distinct (map name ?rows)"
  proof -
    have "map fst ?rows = map (\<lambda>r. childKey N q (name r)) ?rows" using name by simp
    moreover have "distinct (map fst ?rows)" unfolding allInRange_def by (rule range_distinct)
    ultimately have "distinct (map (\<lambda>r. childKey N q (name r)) ?rows)" by (simp only:)
    then have "distinct (map (childKey N q) (map name ?rows))" by (simp only: map_map o_def)
    then show ?thesis using distinct_map by blast
  qed
  moreover have "set (map name ?rows) = {n. childAt N ?g q n \<noteq> None}"
  proof (intro set_eqI iffI)
    fix n assume "n \<in> set (map name ?rows)"
    then obtain k v where kv: "(k, v) \<in> set ?rows" "n = name (k, v)" by auto
    then show "n \<in> {n. childAt N ?g q n \<noteq> None}" using name [OF kv(1)] row [OF kv(1)] by auto
  next
    fix n assume "n \<in> {n. childAt N ?g q n \<noteq> None}"
    then obtain v where v: "wellFormed n" "?g (childKey N q n) = Some v" by (auto simp: childAt_def split: if_splits)
    have "b \<le> childKey N q n \<and> childKey N q n < e"
      using NK_in_range [of "[BigInt 0]" "[BigInt 0, Str n]" N q q] v(1) by (simp add: be childKey_def strict_prefix_def)
    then have kv: "(childKey N q n, v) \<in> set ?rows" using v by (simp add: allInRange_def range_rows)
    then show "n \<in> set (map name ?rows)" using name [OF kv] v(1) by (auto intro: image_eqI [of _ _ "(childKey N q n, v)"])
  qed
  ultimately show ?thesis using call w by (auto simp: dirAt_None walk_snoc)
qed

end

section \<open>Opening\<close>

lemma makeDirectoryLayerState_total: "\<exists>L. makeDirectoryLayerState n contents allowManual path = Inr L"
proof -
  let ?n = "case n of Some x \<Rightarrow> x | None \<Rightarrow> fromBytes NODE_PREFIX"
  obtain top where top: "childSubspace ?n [Bytes (prefix_bytes ?n)] = Inr top" using childSubspace_ok by force
  obtain hca where "childSubspace top [Bytes HCA] = Inr hca" using childSubspace_ok by force
  with top show ?thesis by (simp add: makeDirectoryLayerState_def Let_def)
qed

lemma contentsOfNode_opened:
  assumes L: "layer_ok L N" and node: "prefix_bytes node = NK N q []" and d: "opened L path q l d"
  shows "contentsOfNode L node path l = Inr d"
proof -
  obtain nested where "makeDirectoryLayerState (Some (fromBytes (concatBytes [q, NODE_PREFIX]))) (Some (fromBytes q)) False
      (layer_path L @ path) = Inr nested"
    using makeDirectoryLayerState_total by blast
  then have "\<exists>d'. contentsOfNode L node path l = Inr d'"
    using unpacked_node [OF layer_nodes [OF L], of "[]" q]
    by (cases "l = PARTITION") (simp_all add: contentsOfNode_def node element_def asBytes_def)
  then obtain d' where "contentsOfNode L node path l = Inr d'" ..
  with contentsOfNode_Inr [OF L node this] opened_unique [OF d] show ?thesis by blast
qed

context fdb
begin

lemma open_ok:
  assumes L: "layer_ok L N" and v: "version_ok N (tx_get T s)" and d: "dirAt N (tx_get T s) path = Some (q, l)"
    and path: "path \<noteq> []" and wf: "list_all wellFormed path" and o: "open_above N (tx_get T s) N path"
    and out: "opened L path q l d" and e: "\<And>e. expected = Some e \<Longrightarrow> e = [] \<or> e = l"
  shows "createOrOpenInternal T L path None expected allowCreate True randoms s = Some (Inr (d, s, randoms))"
    and "createOrOpenInternal T L path None expected allowCreate False randoms s = Some (Inl DirectoryAlreadyExists)"
    and "existsInternal T L path s = Inr True"
proof -
  have w: "walk N (tx_get T s) N path = Some q" and l: "l = layerAt N (tx_get T s) q"
    using d by (simp_all add: dirAt_walk)
  obtain node where f: "findNode T L path s = Inr (Some node)" "prefix_bytes (node_subspace node) = NK N q []"
    "\<not> isInPartition node False"
    using findNode_follow [OF L w wf o] by blast
  have n: "node_layer node = l" "currentPath node = path" using findNode_at [OF L f(1,3)] w l by auto
  have c: "getContents L node = Inr d" using contentsOfNode_opened [OF L f(2) out] by (simp add: getContents_def n)
  have cv: "checkVersion T L False s = Inr s" using checkVersion_ok [OF L v, of False] by simp
  show "createOrOpenInternal T L path None expected allowCreate True randoms s = Some (Inr (d, s, randoms))"
    using path e by (auto simp: createOrOpenInternal.simps [of T L path] cv f c n split: option.split)
  show "createOrOpenInternal T L path None expected allowCreate False randoms s = Some (Inl DirectoryAlreadyExists)"
    using path by (simp add: createOrOpenInternal.simps [of T L path] cv f)
  show "existsInternal T L path s = Inr True"
    by (simp add: existsInternal.simps [of T L path] cv f)
qed

end

section \<open>A layer on the in-memory store\<close>

lemma sample_layer:
  obtains L where "makeDirectoryLayerState None None True [] = Inr L" and "layer_ok L NODE_PREFIX"
    and "allowManualPrefixes L"
proof -
  obtain L where m: "makeDirectoryLayerState None None True [] = Inr L" using makeDirectoryLayerState_total by blast
  from makeDirectoryLayerState_ok [OF this, of NODE_PREFIX] m that show ?thesis
    by (auto simp: NODE_PREFIX_def fromBytes_def)
qed

lemma sample_empty: "dir_inv NODE_PREFIX (tx_get mem_txn [])" "version_ok NODE_PREFIX (tx_get mem_txn [])"
  by (rule inv_empty) (simp_all add: NODE_PREFIX_def mem_get version_ok_def)

lemma out_top: "layer_ok L N \<Longrightarrow> wellFormed n \<Longrightarrow> \<not> leads_into_partition T L [n] s"
  using findNode_child [of L N n T s] by (auto simp: leads_into_partition_def split: option.splits)

lemma strinc_one: "strinc [1] \<noteq> []" "strinc [2] \<noteq> []"
  by (simp_all add: strinc_def)

text \<open>A directory \<open>a\<close> with prefix 1 and layer 7.\<close>

lemma sample_directory:
  assumes L: "layer_ok L NODE_PREFIX" and m: "allowManualPrefixes L"
  obtains s where "createOrOpenInternal mem_txn L [js ''a''] (Some [1]) (Some [7]) True False [] []
      = Some (Inr (DirectorySubspace L [js ''a''] [1] [7], s, []))"
    and "dir_inv NODE_PREFIX (tx_get mem_txn s)" and "version_ok NODE_PREFIX (tx_get mem_txn s)"
    and "dir_reachable mem_txn L NODE_PREFIX s"
    and "\<And>path. dirAt NODE_PREFIX (tx_get mem_txn s) path
      = (if path = [] then Some (NODE_PREFIX, []) else if path = [js ''a''] then Some ([1], [7]) else None)"
    and "tx_get mem_txn s (versionKey NODE_PREFIX) \<noteq> None"
proof -
  let ?N = NODE_PREFIX and ?a = "js ''a''"
  have free: "free_prefix ?N (tx_get mem_txn []) [1]" by (auto simp: free_prefix_def nodes_def mem_get NODE_PREFIX_def)
  have none: "childAt ?N (tx_get mem_txn []) ?N ?a = None" by (simp add: childAt_def mem_get)
  have l: "([7] :: bytes) \<noteq> PARTITION" by (simp add: PARTITION_def)
  obtain s where s: "createOrOpenInternal mem_txn L [?a] (Some [1]) (Some [7]) True False [] []
      = Some (Inr (DirectorySubspace L [?a] [1] [7], s, []))"
    and g: "tx_get mem_txn s = (tx_get mem_txn [])(versionKey ?N := Some DIRECTORY_VERSION, childKey ?N ?N ?a := Some [1],
      layerKey ?N [1] := Some [7])"
    using mem.create_top_ok [OF L m sample_empty wellFormed_js none free strinc_one(1) l] by blast
  note g = g [unfolded mem_get map_of.simps]
  have out: "\<not> leads_into_partition mem_txn L [?a] []" by (rule out_top [OF L wellFormed_js])
  have r: "dir_reachable mem_txn L ?N s"
    by (rule dir_next [OF dir_empty step_create [OF out s]]) (simp add: mem_get)
  have c: "childAt ?N (tx_get mem_txn s) q n = (if q = ?N \<and> n = ?a then Some [1] else None)" for q n
    by (auto simp: childAt_def mem_get g)
  have ne: "[1] \<noteq> ?N" by (simp add: NODE_PREFIX_def)
  have w: "walk ?N (tx_get mem_txn s) ?N path = (if path = [] then Some ?N else if path = [?a] then Some [1] else None)" for path
    using ne by (induction path rule: rev_induct) (auto simp: walk_snoc c)
  have la: "layerAt ?N (tx_get mem_txn s) ?N = []" "layerAt ?N (tx_get mem_txn s) [1] = [7]"
    using ne by (auto simp: layerAt_def g mem_get)
  show ?thesis
  proof (rule that [OF s _ _ r])
    show "dir_inv ?N (tx_get mem_txn s)" by (rule mem.dir_reachable_inv [OF L r])
    show "version_ok ?N (tx_get mem_txn s)" by (simp add: version_ok_def mem_get g)
    show "dirAt ?N (tx_get mem_txn s) path
      = (if path = [] then Some (?N, []) else if path = [?a] then Some ([1], [7]) else None)" for path
      by (simp add: dirAt_def w la)
    show "tx_get mem_txn s (versionKey ?N) \<noteq> None" by (simp add: mem_get g)
  qed
qed

section \<open>Properties\<close>

text \<open>C1. In every state that clients of a layer can reach, with any interleaving of creations, moves, removals,
  allocations and transactions elsewhere, the prefix of a directory is never a prefix of another directory's, nor
  of the layer's metadata: the contents of directories do not overlap.\<close>

theorem directories_never_overlap:
  assumes "fdb T" and "layer_ok L N" and "dir_reachable T L N s"
    and "dirAt N (tx_get T s) path1 = Some (p1, l1)" and "dirAt N (tx_get T s) path2 = Some (p2, l2)" and "path1 \<noteq> path2"
  shows "\<not> prefix p1 p2"
  using dirAt_prefix_free [OF fdb.dir_reachable_inv [OF assms(1-3)] assms(4-6)] .

theorem directories_never_overlap_witness:
  "\<exists>L s. dirAt NODE_PREFIX (tx_get mem_txn s) [js ''a''] = Some ([1], [7])
     \<and> createOrOpenInternal mem_txn L [js ''a''] (Some [1]) (Some [7]) True False [] []
         = Some (Inr (DirectorySubspace L [js ''a''] [1] [7], s, [])) \<and> \<not> prefix NODE_PREFIX [1]"
proof -
  obtain L where L: "layer_ok L NODE_PREFIX" "allowManualPrefixes L" by (rule sample_layer)
  obtain s where s: "createOrOpenInternal mem_txn L [js ''a''] (Some [1]) (Some [7]) True False [] []
      = Some (Inr (DirectorySubspace L [js ''a''] [1] [7], s, []))" and r: "dir_reachable mem_txn L NODE_PREFIX s"
    and at: "\<And>path. dirAt NODE_PREFIX (tx_get mem_txn s) path
      = (if path = [] then Some (NODE_PREFIX, []) else if path = [js ''a''] then Some ([1], [7]) else None)"
    using sample_directory [OF L] by metis
  have d: "dirAt NODE_PREFIX (tx_get mem_txn s) [] = Some (NODE_PREFIX, [])"
    "dirAt NODE_PREFIX (tx_get mem_txn s) [js ''a''] = Some ([1], [7])" by (simp_all add: at)
  show ?thesis using directories_never_overlap [OF fdb_mem L(1) r d] s d(2) by blast
qed

text \<open>C12. Creating or opening refines the directory tree: an existing directory is returned unchanged, and only with a
  layer that agrees; a missing one is added with its parents, with the prefix asked for or an unused one that holds no
  contents, and nothing that the tree had is changed.\<close>

theorem create_refines_tree:
  assumes "fdb T" and "layer_ok L N" and "dir_inv N (tx_get T s)" and "\<not> leads_into_partition T L path s"
    and "createOrOpenInternal T L path explicit expected allowCreate allowOpen randoms s = Some (Inr (d, s', rs))"
  shows "case dirAt N (tx_get T s) path of
      Some (q, l) \<Rightarrow> s' = s \<and> allowOpen \<and> opened L path q l d \<and> (\<forall>e. expected = Some e \<and> e \<noteq> [] \<longrightarrow> e = l)
    | None \<Rightarrow> \<exists>q l. opened L path q l d \<and> dirAt N (tx_get T s') path = Some (q, l) \<and> allowCreate
        \<and> l = (case expected of None \<Rightarrow> [] | Some e \<Rightarrow> e) \<and> free_prefix N (tx_get T s) q
        \<and> (case explicit of Some p \<Rightarrow> q = p | None \<Rightarrow> \<forall>k. prefix q k \<longrightarrow> tx_get T s' k = None)
        \<and> (\<forall>p x. dirAt N (tx_get T s) p = Some x \<longrightarrow> dirAt N (tx_get T s') p = Some x)
        \<and> (\<forall>p. dirAt N (tx_get T s') p \<noteq> None \<and> dirAt N (tx_get T s) p = None \<longrightarrow> prefix p path)
        \<and> (\<forall>k. \<not> inN N k \<longrightarrow> tx_get T s' k = tx_get T s k)"
proof (cases "dirAt N (tx_get T s) path")
  case None
  with fdb.createOrOpen_Inr [OF assms(1-5)] show ?thesis
    unfolding None grown_def by (cases explicit) (simp_all, blast+)
next
  case (Some x)
  obtain q l where x: "x = (q, l)" by (cases x)
  from fdb.createOrOpen_Inr [OF assms(1-5)] obtain q' l' where r: "opened L path q' l' d" "s' = s" "allowOpen"
    "dirAt N (tx_get T s') path = Some (q', l')" "\<forall>e. expected = Some e \<longrightarrow> e \<noteq> [] \<longrightarrow> e = l'"
    using Some by auto
  then show ?thesis using Some x by auto
qed

theorem create_refines_tree_witness:
  "\<exists>L s. createOrOpenInternal mem_txn L [js ''a''] (Some [1]) (Some [7]) True False [] []
      = Some (Inr (DirectorySubspace L [js ''a''] [1] [7], s, []))
    \<and> dirAt NODE_PREFIX (tx_get mem_txn s) [js ''a''] = Some ([1], [7])"
proof -
  obtain L where L: "layer_ok L NODE_PREFIX" "allowManualPrefixes L" by (rule sample_layer)
  obtain s where s: "createOrOpenInternal mem_txn L [js ''a''] (Some [1]) (Some [7]) True False [] []
      = Some (Inr (DirectorySubspace L [js ''a''] [1] [7], s, []))"
    using sample_directory [OF L] by metis
  have "dirAt NODE_PREFIX (tx_get mem_txn []) [js ''a''] = None" by (simp add: dirAt_def childAt_def mem_get)
  with create_refines_tree [OF fdb_mem L(1) sample_empty(1) out_top [OF L(1) wellFormed_js] s] s show ?thesis by auto
qed

text \<open>C17. A move renames a subtree: below the new path stands what stood below the old one, with the same prefixes
  and layers, below the old path nothing, every other directory is where it was, and no contents are touched.\<close>

theorem move_refines_tree:
  assumes "fdb T" and "layer_ok L N" and "dir_inv N (tx_get T s)" and "\<not> leads_into_partition T L oldPath s"
    and "moveInternal T L oldPath newPath s = Inr (d, s')"
  shows "dirAt N (tx_get T s') path =
      (if prefix newPath path then dirAt N (tx_get T s) (oldPath @ drop (length newPath) path)
       else if prefix oldPath path then None else dirAt N (tx_get T s) path)
    \<and> (\<not> inN N k \<longrightarrow> tx_get T s' k = tx_get T s k)
    \<and> (\<exists>q l. dirAt N (tx_get T s) oldPath = Some (q, l) \<and> opened L newPath q l d)"
proof -
  obtain q l where r: "dirAt N (tx_get T s) oldPath = Some (q, l)" "opened L newPath q l d"
    "\<forall>path. dirAt N (tx_get T s') path =
        (if prefix newPath path then dirAt N (tx_get T s) (oldPath @ drop (length newPath) path)
         else if prefix oldPath path then None else dirAt N (tx_get T s) path)"
    "\<forall>k. \<not> inN N k \<longrightarrow> tx_get T s' k = tx_get T s k"
    using fdb.moveInternal_Inr [OF assms] by blast
  show ?thesis unfolding r(3) [rule_format] using r(1,2,4) by blast
qed

theorem move_refines_tree_witness:
  "\<exists>L s d s'. moveInternal mem_txn L [js ''a''] [js ''b''] s = Inr (d, s')
    \<and> dirAt NODE_PREFIX (tx_get mem_txn s') [js ''b''] = Some ([1], [7])"
proof -
  obtain L where L: "layer_ok L NODE_PREFIX" "allowManualPrefixes L" by (rule sample_layer)
  obtain s where inv: "dir_inv NODE_PREFIX (tx_get mem_txn s)" and v: "version_ok NODE_PREFIX (tx_get mem_txn s)"
    and at: "\<And>path. dirAt NODE_PREFIX (tx_get mem_txn s) path
      = (if path = [] then Some (NODE_PREFIX, []) else if path = [js ''a''] then Some ([1], [7]) else None)"
    by (rule sample_directory [OF L]) blast
  have c: "childAt NODE_PREFIX (tx_get mem_txn s) NODE_PREFIX (js ''a'') = Some [1]"
    "layerAt NODE_PREFIX (tx_get mem_txn s) [1] = [7]" "childAt NODE_PREFIX (tx_get mem_txn s) NODE_PREFIX (js ''b'') = None"
    using at [of "[js ''a'']"] at [of "[js ''b'']"] by (auto simp: dirAt_def split: option.splits)
  have l: "layerAt NODE_PREFIX (tx_get mem_txn s) [1] \<noteq> PARTITION" by (simp add: c PARTITION_def)
  obtain d s' where m: "moveInternal mem_txn L [js ''a''] [js ''b''] s = Inr (d, s')"
    using mem.move_top_ok [OF L(1) v wellFormed_js wellFormed_js c(1,3) l] by blast
  have "dirAt NODE_PREFIX (tx_get mem_txn s') [js ''b''] = Some ([1], [7])"
    using move_refines_tree [OF fdb_mem L(1) inv out_top [OF L(1) wellFormed_js] m, of "[js ''b'']"] by (simp add: at)
  with m show ?thesis by blast
qed

text \<open>C11. Removing a directory always returns: it removes the whole subtree below it and nothing else of the tree,
  and it clears the contents of every directory of the subtree and of no other key.\<close>

theorem remove_clears_subtree:
  assumes "fdb T" and "layer_ok L N" and "dir_inv N (tx_get T s)" and "version_ok N (tx_get T s)"
    and "dirAt N (tx_get T s) path = Some (q, l)" and "path \<noteq> []" and "list_all wellFormed path"
    and "open_above N (tx_get T s) N path"
  shows "\<exists>s'. removeInternal T L path failIfMissing s = Some (Inr (True, s'))
    \<and> (\<forall>path'. dirAt N (tx_get T s') path' = (if prefix path path' then None else dirAt N (tx_get T s) path'))
    \<and> (\<forall>k. \<not> inN N k \<longrightarrow> tx_get T s' k =
        (if \<exists>sub r l. dirAt N (tx_get T s) (path @ sub) = Some (r, l) \<and> prefix r k then None else tx_get T s k))"
proof -
  have w: "walk N (tx_get T s) N path = Some q" using assms(5) by (simp add: dirAt_walk)
  have b: "(\<exists>r \<in> below N (tx_get T s) q. prefix r k) \<longleftrightarrow>
      (\<exists>sub r l. dirAt N (tx_get T s) (path @ sub) = Some (r, l) \<and> prefix r k)" for k
    by (auto simp: below_def dirAt_walk walk_append w)
  show ?thesis
    using fdb.removeInternal_found [OF assms(1-3) fdb.checkVersion_ok [OF assms(1,2,4)] assms(6) w assms(7,8), of failIfMissing]
    unfolding b by blast
qed

theorem remove_clears_subtree_witness:
  "\<exists>L s s'. removeInternal mem_txn L [js ''a''] True s = Some (Inr (True, s'))
    \<and> dirAt NODE_PREFIX (tx_get mem_txn s) [js ''a''] = Some ([1], [7])
    \<and> dirAt NODE_PREFIX (tx_get mem_txn s') [js ''a''] = None"
proof -
  obtain L where L: "layer_ok L NODE_PREFIX" "allowManualPrefixes L" by (rule sample_layer)
  obtain s where inv: "dir_inv NODE_PREFIX (tx_get mem_txn s)" and v: "version_ok NODE_PREFIX (tx_get mem_txn s)"
    and at: "\<And>path. dirAt NODE_PREFIX (tx_get mem_txn s) path
      = (if path = [] then Some (NODE_PREFIX, []) else if path = [js ''a''] then Some ([1], [7]) else None)"
    by (rule sample_directory [OF L]) blast
  have d: "dirAt NODE_PREFIX (tx_get mem_txn s) [js ''a''] = Some ([1], [7])" by (simp add: at)
  have o: "open_above NODE_PREFIX (tx_get mem_txn s) NODE_PREFIX [js ''a'']"
    by (auto simp: open_above_def Cons_eq_append_conv)
  obtain s' where s': "removeInternal mem_txn L [js ''a''] True s = Some (Inr (True, s'))"
    "\<forall>path'. dirAt NODE_PREFIX (tx_get mem_txn s') path'
       = (if prefix [js ''a''] path' then None else dirAt NODE_PREFIX (tx_get mem_txn s) path')"
    using remove_clears_subtree [OF fdb_mem L(1) inv v d _ _ o, of True] by auto
  then have "dirAt NODE_PREFIX (tx_get mem_txn s') [js ''a''] = None" by simp
  with s'(1) d show ?thesis by blast
qed

text \<open>C20. The test for a free prefix is exact: it reads two rows, and answers yes if and only if no directory's prefix
  extends the given one or is extended by it.\<close>

theorem prefix_check_exact:
  assumes "fdb T" and "layer_ok L N" and "dir_inv N (tx_get T s)" and "tx_get T s (versionKey N) \<noteq> None"
    and "isPrefixFree T L p s = Inr b"
  shows "b \<longleftrightarrow> (\<forall>path q l. dirAt N (tx_get T s) path = Some (q, l) \<longrightarrow> \<not> prefix q p \<and> \<not> prefix p q)"
proof -
  have "N \<in> nodes N (tx_get T s)" using assms(4) version_root by blast
  from fdb.isPrefixFree_exact(1) [OF assms(1,2) dir_inv_rows [OF assms(3)] dir_inv_free [OF assms(3)] this assms(5)]
  have "b \<longleftrightarrow> (\<forall>r. (\<exists>path l. dirAt N (tx_get T s) path = Some (r, l)) \<longrightarrow> \<not> prefix r p \<and> \<not> prefix p r)"
    unfolding free_prefix_def Ball_def dirAt_nodes [OF assms(3)] .
  then show ?thesis by blast
qed

theorem prefix_check_exact_witness:
  "\<exists>L s. isPrefixFree mem_txn L [1, 3] s = Inr False \<and> isPrefixFree mem_txn L [2] s = Inr True
    \<and> dirAt NODE_PREFIX (tx_get mem_txn s) [js ''a''] = Some ([1], [7])"
proof -
  obtain L where L: "layer_ok L NODE_PREFIX" "allowManualPrefixes L" by (rule sample_layer)
  obtain s where inv: "dir_inv NODE_PREFIX (tx_get mem_txn s)"
    and g: "createOrOpenInternal mem_txn L [js ''a''] (Some [1]) (Some [7]) True False [] []
      = Some (Inr (DirectorySubspace L [js ''a''] [1] [7], s, []))"
    and at: "\<And>path. dirAt NODE_PREFIX (tx_get mem_txn s) path
      = (if path = [] then Some (NODE_PREFIX, []) else if path = [js ''a''] then Some ([1], [7]) else None)"
    and v: "tx_get mem_txn s (versionKey NODE_PREFIX) \<noteq> None"
    by (rule sample_directory [OF L]) blast
  have inc: "strinc [1, 3] \<noteq> []" "strinc [2] \<noteq> []" by (simp_all add: strinc_def)
  obtain b1 b2 where b: "isPrefixFree mem_txn L [1, 3] s = Inr b1" "isPrefixFree mem_txn L [2] s = Inr b2"
    using mem.isPrefixFree_ok [OF L(1) dir_inv_rows [OF inv]] inc by metis
  have d: "dirAt NODE_PREFIX (tx_get mem_txn s) [js ''a''] = Some ([1], [7])" and "prefix [1] [1, 3 :: byte]"
    by (simp_all add: at)
  then have "\<not> b1" using prefix_check_exact [OF fdb_mem L(1) inv v b(1)] by blast
  moreover have apart: "\<not> prefix NODE_PREFIX [2]" "\<not> prefix [2] NODE_PREFIX" by (simp_all add: NODE_PREFIX_def)
  have "b2"
    using prefix_check_exact [OF fdb_mem L(1) inv v b(2)] apart by (auto simp: at split: if_splits)
  ultimately show ?thesis using b d by auto
qed

text \<open>C30. A directory that has been created can be opened: opening it returns the same directory, it exists, and
  creating it again fails because it is there. None of the three changes anything.\<close>

theorem created_directory_reopens:
  assumes "fdb T" and "layer_ok L N" and "dir_inv N (tx_get T s)" and "\<not> leads_into_partition T L path s"
    and "layer_create T L path explicit l randoms s = Some (Inr (d, s', rs))" and "version_ok N (tx_get T s')"
  shows "layer_open T L path l rs s' = Some (Inr (d, s', rs))
    \<and> layer_createOrOpen T L path None l rs s' = Some (Inr (d, s', rs))
    \<and> layer_exists T L path s' = Inr True
    \<and> layer_create T L path None l rs s' = Some (Inl DirectoryAlreadyExists)"
proof -
  from fdb.createOrOpen_Inr [OF assms(1-4) assms(5) [unfolded layer_create_def]] obtain q l' where
    r: "opened L path q l' d" "dirAt N (tx_get T s') path = Some (q, l')" "path \<noteq> []" "list_all wellFormed path"
      "open_above N (tx_get T s') N path"
    and found: "dirAt N (tx_get T s) path \<noteq> None \<longrightarrow> s' = s \<and> rs = randoms \<and> False \<and> (\<forall>e. l = Some e \<longrightarrow> e \<noteq> [] \<longrightarrow> e = l')"
    and new: "dirAt N (tx_get T s) path = None \<longrightarrow> True \<and> l' = (case l of None \<Rightarrow> [] | Some e \<Rightarrow> e)
      \<and> free_prefix N (tx_get T s) q \<and> (\<forall>k. explicit = None \<longrightarrow> prefix q k \<longrightarrow> tx_get T s' k = None)
      \<and> (\<forall>p. explicit = Some p \<longrightarrow> q = p)"
    by (elim exE conjE)
  have "l' = (case l of None \<Rightarrow> [] | Some e \<Rightarrow> e)" using found new by (cases "dirAt N (tx_get T s) path") simp_all
  then have e: "\<And>e. l = Some e \<Longrightarrow> e = [] \<or> e = l'" by simp
  show ?thesis
    unfolding layer_open_def layer_createOrOpen_def layer_exists_def layer_create_def
    by (intro conjI fdb.open_ok [OF assms(1,2,6) r(2-5) r(1) e]) assumption+
qed

theorem created_directory_reopens_witness:
  "\<exists>L s. layer_create mem_txn L [js ''a''] (Some [1]) (Some [7]) [] []
      = Some (Inr (DirectorySubspace L [js ''a''] [1] [7], s, []))
    \<and> layer_open mem_txn L [js ''a''] (Some [7]) [] s = Some (Inr (DirectorySubspace L [js ''a''] [1] [7], s, []))"
proof -
  obtain L where L: "layer_ok L NODE_PREFIX" "allowManualPrefixes L" by (rule sample_layer)
  obtain s where v: "version_ok NODE_PREFIX (tx_get mem_txn s)"
    and c: "createOrOpenInternal mem_txn L [js ''a''] (Some [1]) (Some [7]) True False [] []
      = Some (Inr (DirectorySubspace L [js ''a''] [1] [7], s, []))"
    by (rule sample_directory [OF L]) blast
  then have "layer_create mem_txn L [js ''a''] (Some [1]) (Some [7]) [] []
      = Some (Inr (DirectorySubspace L [js ''a''] [1] [7], s, []))" by (simp add: layer_create_def)
  with created_directory_reopens [OF fdb_mem L(1) sample_empty(1) out_top [OF L(1) wellFormed_js] this v] show ?thesis
    by blast
qed

text \<open>Listing a directory returns the names of its subdirectories, each once.\<close>

theorem list_is_exact:
  assumes "fdb T" and "layer_ok L N" and "dir_inv N (tx_get T s)" and "version_ok N (tx_get T s)"
    and "dirAt N (tx_get T s) path = Some (q, l)" and "l \<noteq> PARTITION" and "list_all wellFormed path"
    and "open_above N (tx_get T s) N path"
  shows "\<exists>names. layer_list T L path s = Some (Inr names) \<and> distinct names
    \<and> set names = {n. dirAt N (tx_get T s) (path @ [n]) \<noteq> None}"
  using fdb.list_ok [OF assms(1-4) _ assms(7,8)] assms(5,6) by (simp add: layer_list_def dirAt_walk)

theorem list_is_exact_witness:
  "\<exists>L s names. layer_list mem_txn L [] s = Some (Inr names) \<and> set names = {js ''a''}"
proof -
  obtain L where L: "layer_ok L NODE_PREFIX" "allowManualPrefixes L" by (rule sample_layer)
  obtain s where inv: "dir_inv NODE_PREFIX (tx_get mem_txn s)" and v: "version_ok NODE_PREFIX (tx_get mem_txn s)"
    and at: "\<And>path. dirAt NODE_PREFIX (tx_get mem_txn s) path
      = (if path = [] then Some (NODE_PREFIX, []) else if path = [js ''a''] then Some ([1], [7]) else None)"
    by (rule sample_directory [OF L]) blast
  have d: "dirAt NODE_PREFIX (tx_get mem_txn s) [] = Some (NODE_PREFIX, [])" by (simp add: at)
  have names: "{n. dirAt NODE_PREFIX (tx_get mem_txn s) ([] @ [n]) \<noteq> None} = {js ''a''}" by (auto simp: at)
  have "\<exists>names. layer_list mem_txn L [] s = Some (Inr names) \<and> distinct names
      \<and> set names = {n. dirAt NODE_PREFIX (tx_get mem_txn s) ([] @ [n]) \<noteq> None}"
    by (rule list_is_exact [OF fdb_mem L(1) inv v d]) (simp_all add: PARTITION_def open_above_def)
  then show ?thesis unfolding names by blast
qed

end
