(* ===== verification/Directory_Returns.thy ===== *)
theory Directory_Returns
  imports Directory_Properties
begin

text \<open>
  The allocator hands out each integer once, and it returns as soon as one of its random candidates is free.
\<close>

section \<open>Counters\<close>

lemma decode_counter: "\<exists>count. decodeLittleEndianInt64 (addLE v ONE) = Inr count"
  by (simp add: decodeLittleEndianInt64_def addLE_def Let_def ONE_def)

lemma decode_first: "decodeLittleEndianInt64 (addLE None ONE) = Inr 1"
proof -
  have z: "leNat (replicate 8 0) = 0" and o: "leNat ONE = 1" and l: "length ONE = 8"
    by (simp_all add: leNat_def ONE_def beNat_def eval_nat_numeral)
  have a: "addLE None ONE = rev (natBE 8 1)" unfolding addLE_def Let_def option.case l z o add_0 ..
  have "leNat (addLE None ONE) = 1" unfolding a leNat_def rev_rev_ident by (subst beNat_natBE) simp_all
  moreover have "length (addLE None ONE) = 8" by (simp add: a)
  ultimately show ?thesis by (simp add: decodeLittleEndianInt64_def)
qed

text \<open>The rows of the window counters, and nothing else, are in their section.\<close>

lemma smallInt_62: "smallInt (2 ^ 62)"
  by (simp add: smallInt_def magnitudeBytes_def magnitudeLoop.simps)

definition counters_ok :: "bytes \<Rightarrow> store \<Rightarrow> bool" where
  "counters_ok N g \<longleftrightarrow>
     (\<forall>rest. tuple_ok rest \<longrightarrow> g (NK N N (Bytes HCA # BigInt 0 # rest)) \<noteq> None \<longrightarrow> (\<exists>w. rest = [BigInt w]))"

text \<open>No row appears but those of counters.\<close>

definition only_less :: "bytes \<Rightarrow> store \<Rightarrow> store \<Rightarrow> bool" where
  "only_less N g g' \<longleftrightarrow> (\<forall>k. g' k \<noteq> None \<longrightarrow> g k = None \<longrightarrow> (\<exists>w. smallInt w \<and> k = counterKey N w))"

lemma only_less_counters: "counters_ok N g \<Longrightarrow> only_less N g g' \<Longrightarrow> counters_ok N g'"
  unfolding counters_ok_def
proof (intro allI impI)
  fix rest
  assume a: "\<forall>rest. tuple_ok rest \<longrightarrow> g (NK N N (Bytes HCA # BigInt 0 # rest)) \<noteq> None \<longrightarrow> (\<exists>w. rest = [BigInt w])"
    and l: "only_less N g g'" and r: "tuple_ok rest" "g' (NK N N (Bytes HCA # BigInt 0 # rest)) \<noteq> None"
  show "\<exists>w. rest = [BigInt w]"
  proof (cases "g (NK N N (Bytes HCA # BigInt 0 # rest)) = None")
    case True
    then obtain w where "smallInt w" "NK N N (Bytes HCA # BigInt 0 # rest) = counterKey N w"
      using l r(2) unfolding only_less_def by blast
    then show ?thesis using r(1) by (simp add: counterKey_def)
  qed (use a r(1) in blast)
qed

lemma only_less_recent: "only_less N g g' \<Longrightarrow> smallInt c \<Longrightarrow> g (recentKey N c) = None \<Longrightarrow> g' (recentKey N c) = None"
  unfolding only_less_def using alloc_keys(3) by metis

context fdb
begin

lemma windowStep_ok:
  assumes at: "hca_at N counters recent" and "smallInt start"
  shows "\<exists>count s'. windowStep T counters recent start advanced s = Inr (count, s')"
proof -
  obtain counter where counter: "childSubspace counters [BigInt start] = Inr counter"
    using childSubspace_ok [of "[BigInt start]" counters] assms(2) by auto
  obtain rs where rs: "childSubspace recent [BigInt start] = Inr rs"
    using childSubspace_ok [of "[BigInt start]" recent] assms(2) by auto
  define s1 where "s1 = (if advanced then tx_clearRangeWithoutWriteConflict T (prefix_bytes recent) (prefix_bytes rs)
      (tx_clearRangeWithoutWriteConflict T (prefix_bytes counters) (prefix_bytes counter) s) else s)"
  obtain count where "decodeLittleEndianInt64 (addLE (tx_get T s1 (prefix_bytes counter)) ONE) = Inr count"
    using decode_counter by blast
  then show ?thesis
    by (cases advanced) (simp_all add: windowStep_def Let_def get_add counter rs s1_def)
qed

text \<open>A turn adds no row but the counter of its window.\<close>

lemma windowStep_adds:
  assumes at: "hca_at N counters recent" and w: "windowStep T counters recent start advanced s = Inr (count, s')"
    and k: "tx_get T s' k \<noteq> None" "k \<noteq> counterKey N start"
  shows "tx_get T s k \<noteq> None"
proof -
  obtain counter where counter: "childSubspace counters [BigInt start] = Inr counter"
    using w by (auto simp: windowStep_def bindR_eq_Inr)
  have "prefix_bytes counter = counterKey N start"
    using childSubspace_node [OF counter] at by (auto simp: hca_at_def counterKey_def)
  then show ?thesis using w counter k
    by (auto simp: windowStep_def bindR_eq_Inr Let_def get_add get_clearRangeWithoutWriteConflict split: if_splits)
qed

lemma windowStep_less:
  assumes at: "hca_at N counters recent" and w: "windowStep T counters recent start advanced s = Inr (count, s')"
    and "smallInt start"
  shows "only_less N (tx_get T s) (tx_get T s')"
  using windowStep_adds [OF at w] assms(3) unfolding only_less_def by blast

lemma windowLoop_returns:
  assumes at: "hca_at N counters recent" and rows: "rows_ok N (tx_get T s)" and top: "top_window N (tx_get T s) start"
    and small: "smallInt start" "smallInt (start + windowSize start)"
  shows "\<exists>start' s'. windowLoop T counters recent start False s = Some (Inr (start', windowSize start', s'))
    \<and> (start' = start \<or> start' = start + windowSize start) \<and> only_less N (tx_get T s) (tx_get T s')"
proof -
  obtain count s1 where s1: "windowStep T counters recent start False s = Inr (count, s1)"
    using windowStep_ok [OF at small(1)] by blast
  show ?thesis
  proof (cases "count * 2 < windowSize start")
    case True
    then show ?thesis using windowStep_less [OF at s1 small(1)] by (subst windowLoop.simps) (simp add: s1)
  next
    case False
    let ?next = "start + windowSize start"
    obtain count' s2 where s2: "windowStep T counters recent ?next True s1 = Inr (count', s2)"
      using windowStep_ok [OF at small(2)] by blast
    have lt: "start < ?next" using windowSize_pos [of start] by simp
    have rows1: "rows_ok N (tx_get T s1)" using change_rows [OF windowStep_Inr(2) [OF at rows s1] rows] .
    have "tx_get T s (counterKey N ?next) = None"
      using top lt small(2) unfolding top_window_def by (metis not_less)
    then have "tx_get T s1 (counterKey N ?next) = None"
      using windowStep_Inr(3) [OF at rows s1 small(2)] lt by simp
    then have "count' = 1" using windowStep_Inr(5) [OF at rows1 s2] decode_first by simp
    then have "count' * 2 < windowSize ?next" using windowSize_pos [of ?next] by simp
    moreover have "only_less N (tx_get T s) (tx_get T s2)"
      using windowStep_less [OF at s1 small(1)] windowStep_less [OF at s2 small(2)] unfolding only_less_def by metis
    ultimately show ?thesis
      by (subst windowLoop.simps, simp add: s1 False, subst windowLoop.simps) (simp add: s2)
  qed
qed

lemma latestWindow_here:
  assumes at: "hca_at N counters recent" and range: "subspaceRange counters [] = Inr (b, e)"
    and rows: "rows_ok N (tx_get T s)" and top: "top_window N (tx_get T s) start"
    and here: "tx_get T s (counterKey N start) \<noteq> None" and small: "smallInt start"
    and only: "counters_ok N (tx_get T s)"
  shows "latestWindow counters (firstInRange T s b e True) = Inr start"
proof -
  have c: "prefix_bytes counters = NK N N [Bytes HCA, BigInt 0]" using at by (simp add: hca_at_def)
  have be: "b = NK N N [Bytes HCA, BigInt 0] @ [NIL]" "e = NK N N [Bytes HCA, BigInt 0] @ [ESCAPE]"
    using range by (simp_all add: subspaceRange_node [OF c])
  have in_w: "b \<le> counterKey N start \<and> counterKey N start < e"
    using small NK_in_range [of "[Bytes HCA, BigInt 0]" "[Bytes HCA, BigInt 0, BigInt start]" N N N]
    by (simp add: be counterKey_def strict_prefix_def)
  then obtain k v where row: "firstInRange T s b e True = Some (k, v)"
    using here by (cases "firstInRange T s b e True") (auto simp: firstInRange_None)
  note last = firstInRange_last [OF row]
  have "inN N k" using last(1,2) unfolding be by (rule range_inN)
  then obtain q rest where k: "tuple_ok rest" "k = NK N q rest"
    using rows last(3) unfolding rows_ok_iff row_key_def by blast
  have "strict_prefix [Bytes HCA, BigInt 0] rest \<and> q = N"
    using NK_in_range [of "[Bytes HCA, BigInt 0]" rest N N q] last(1,2) k by (simp add: be)
  then obtain t where t: "rest = [Bytes HCA, BigInt 0] @ t" "q = N" by (auto simp: strict_prefix_def prefix_def)
  then obtain w where w: "t = [BigInt w]" using only [unfolded counters_ok_def, rule_format, of t] k last(3) by auto
  then have kw: "k = counterKey N w" "smallInt w" using k t by (simp_all add: counterKey_def)
  have "w \<le> start" using top kw last(3) unfolding top_window_def by auto
  moreover have "start \<le> w"
    using last(4) [of "counterKey N start"] in_w here kw small
    by (auto simp: counterKey_def not_less [symmetric] NK_less)
  moreover have "unpacked counters k = Inr t" using unpacked_below [OF c, of t] k t by simp
  ultimately show ?thesis
    by (simp add: latestWindow_def row w allocatorWindow_def element_def asInteger_def)
qed

lemma latestWindow_ok:
  assumes at: "hca_at N counters recent" and range: "subspaceRange counters [] = Inr (b, e)"
    and rows: "rows_ok N (tx_get T s)" and only: "counters_ok N (tx_get T s)"
  shows "\<exists>start. latestWindow counters (firstInRange T s b e True) = Inr start
    \<and> (tx_get T s (counterKey N start) \<noteq> None \<and> smallInt start \<or> start = 0)"
proof (cases "firstInRange T s b e True")
  case None
  then show ?thesis by (simp add: latestWindow_def)
next
  case (Some row)
  have c: "prefix_bytes counters = NK N N [Bytes HCA, BigInt 0]" using at by (simp add: hca_at_def)
  have be: "b = NK N N [Bytes HCA, BigInt 0] @ [NIL]" "e = NK N N [Bytes HCA, BigInt 0] @ [ESCAPE]"
    using range by (simp_all add: subspaceRange_node [OF c])
  obtain k v where row: "row = (k, v)" by (cases row)
  note first = firstInRange_row [OF Some [unfolded row]]
  have "inN N k" using first unfolding be by (blast intro: range_inN)
  then obtain q rest where k: "tuple_ok rest" "k = NK N q rest"
    using rows first unfolding rows_ok_iff row_key_def by blast
  have "strict_prefix [Bytes HCA, BigInt 0] rest \<and> q = N"
    using NK_in_range [of "[Bytes HCA, BigInt 0]" rest N N q] first k by (simp add: be)
  then obtain t where t: "rest = [Bytes HCA, BigInt 0] @ t" "q = N" by (auto simp: strict_prefix_def prefix_def)
  then obtain w where w: "t = [BigInt w]" using only [unfolded counters_ok_def, rule_format, of t] k first by auto
  have "unpacked counters k = Inr t" using unpacked_below [OF c, of t] k t by simp
  then show ?thesis using k t w first Some row
    by (auto simp: latestWindow_def allocatorWindow_def element_def asInteger_def counterKey_def)
qed

text \<open>A candidate that is free is taken, whatever candidates come before it.\<close>

lemma candidateLoop_returns:
  assumes at: "hca_at N counters recent" and range: "subspaceRange counters [] = Inr (b, e)"
    and small: "\<And>random. smallInt (randomCandidate random start window)"
    and "latestWindow counters (firstInRange T s b e True) = Inr start"
    and "\<exists>random \<in> set randoms. tx_get T s (recentKey N (randomCandidate random start window)) = None"
  shows "\<exists>c s' rs. candidateLoop T counters recent b e start window randoms s = Some (Inr (Some c, s', rs))"
  using assms(4,5)
proof (induction randoms arbitrary: s)
  case (Cons random randoms)
  let ?c = "randomCandidate random start window"
  obtain rc where rc: "childSubspace recent [BigInt ?c] = Inr rc" using childSubspace_ok [of "[BigInt ?c]"] small by auto
  have rk: "prefix_bytes rc = recentKey N ?c"
    using childSubspace_node [OF rc] at by (auto simp: hca_at_def recentKey_def)
  show ?case
  proof (cases "tx_get T s (recentKey N ?c) = None")
    case True
    then show ?thesis by (simp add: candidateStep_def Let_def rc rk Cons.prems(1))
  next
    case False
    let ?s = "tx_setWithoutWriteConflict T (recentKey N ?c) [] s"
    have c: "prefix_bytes counters = NK N N [Bytes HCA, BigInt 0]" using at by (simp add: hca_at_def)
    have be: "b = NK N N [Bytes HCA, BigInt 0] @ [NIL]" "e = NK N N [Bytes HCA, BigInt 0] @ [ESCAPE]"
      using range by (simp_all add: subspaceRange_node [OF c])
    have out: "\<not> (b \<le> recentKey N ?c \<and> recentKey N ?c < e)"
      using small NK_in_range [of "[Bytes HCA, BigInt 0]" "[Bytes HCA, BigInt 1, BigInt ?c]" N N N]
      by (simp add: be recentKey_def strict_prefix_def)
    have "tx_getRange T ?s (keyRange b e (Some 1) True) = tx_getRange T s (keyRange b e (Some 1) True)"
      by (rule range_cong) (use out in \<open>auto simp: get_setWithoutWriteConflict\<close>)
    then have l: "latestWindow counters (firstInRange T ?s b e True) = Inr start"
      using Cons.prems(1) by (simp add: firstInRange_def)
    have "\<exists>random \<in> set randoms. tx_get T ?s (recentKey N (randomCandidate random start window)) = None"
    proof -
      obtain x where "x \<in> set randoms" "tx_get T s (recentKey N (randomCandidate x start window)) = None"
        using Cons.prems(2) False by auto
      then show ?thesis using False unfolding get_setWithoutWriteConflict by metis
    qed
    from Cons.IH [OF l this] show ?thesis
      using False by (simp add: candidateStep_def Let_def rc rk Cons.prems(1))
  qed
qed simp

lemma allocatePrefix_returns:
  assumes L: "layer_ok L N" and rows: "rows_ok N (tx_get T s)" and only: "counters_ok N (tx_get T s)"
    and windows: "\<And>w. smallInt w \<Longrightarrow> tx_get T s (counterKey N w) \<noteq> None \<Longrightarrow> 0 \<le> w \<and> w \<le> 2 ^ 60"
    and free: "random \<in> set randoms"
      "\<And>w. 0 \<le> w \<Longrightarrow> w \<le> 2 ^ 61 \<Longrightarrow> tx_get T s (recentKey N (randomCandidate random w (windowSize w))) = None"
  shows "\<exists>a s' rs. allocatePrefix T L randoms s = Some (Inr (a, s', rs))"
proof -
  obtain counters where c: "childSubspace (allocator L) [BigInt 0] = Inr counters"
    using childSubspace_ok [of "[BigInt 0]"] by auto
  obtain recent where r: "childSubspace (allocator L) [BigInt 1] = Inr recent"
    using childSubspace_ok [of "[BigInt 1]"] by auto
  have at: "hca_at N counters recent"
    using childSubspace_node [OF c layer_allocator [OF L]] childSubspace_node [OF r layer_allocator [OF L]]
    by (simp add: hca_at_def)
  then have cp: "prefix_bytes counters = NK N N [Bytes HCA, BigInt 0]" by (simp add: hca_at_def)
  obtain b e where range: "subspaceRange counters [] = Inr (b, e)" using subspaceRange_node [OF cp, of "[]"] by simp
  have small: "smallInt v" if "0 \<le> v" "v \<le> 2 ^ 62" for v
    using that smallInt_62 smallInt_mono by blast
  obtain start where start: "latestWindow counters (firstInRange T s b e True) = Inr start"
    and "tx_get T s (counterKey N start) \<noteq> None \<and> smallInt start \<or> start = 0"
    using latestWindow_ok [OF at range rows only] by blast
  then have bound: "0 \<le> start" "start \<le> 2 ^ 60" using windows by auto
  have ws: "64 \<le> windowSize w \<and> windowSize w \<le> 8192" for w by (simp add: windowSize_def)
  have top: "top_window N (tx_get T s) start" by (rule latestWindow_top [OF cp rows range start])
  have "smallInt start" "smallInt (start + windowSize start)" using bound ws [of start] by (auto intro!: small)
  from windowLoop_returns [OF at rows top this] obtain start' s1 where
    w: "windowLoop T counters recent start False s = Some (Inr (start', windowSize start', s1))"
    and start': "start' = start \<or> start' = start + windowSize start" and less: "only_less N (tx_get T s) (tx_get T s1)"
    by blast
  have i: "alloc_inv N {} start' (tx_get T s) (tx_get T s1)" "tx_get T s1 (counterKey N start') \<noteq> None" "smallInt start'"
    using windowLoop_inv [OF at w rows _ top, of "{}"] by (auto simp: alloc_ok_def)
  then have rows1: "rows_ok N (tx_get T s1)" and top1: "top_window N (tx_get T s1) start'"
    using change_rows rows by (auto simp: alloc_inv_def)
  have l1: "latestWindow counters (firstInRange T s1 b e True) = Inr start'"
    by (rule latestWindow_here [OF at range rows1 top1 i(2,3) only_less_counters [OF only less]])
  have b': "0 \<le> start'" "start' \<le> 2 ^ 61" using bound ws [of start] start' by auto
  have cand: "smallInt (randomCandidate x start' (windowSize start'))" for x
  proof -
    have "0 \<le> uint x mod windowSize start' \<and> uint x mod windowSize start' < windowSize start'"
      using ws [of start'] by simp
    moreover have "(2 :: int) ^ 61 + 8192 \<le> 2 ^ 62" by simp
    ultimately show ?thesis using b' ws [of start'] unfolding randomCandidate_def by (intro small) linarith+
  qed
  have "tx_get T s1 (recentKey N (randomCandidate random start' (windowSize start'))) = None"
    by (rule only_less_recent [OF less cand free(2) [OF b']])
  then have "\<exists>random \<in> set randoms. tx_get T s1 (recentKey N (randomCandidate random start' (windowSize start'))) = None"
    using free(1) by blast
  from candidateLoop_returns [OF at range cand l1 this] obtain a s' rs where
    "candidateLoop T counters recent b e start' (windowSize start') randoms s1 = Some (Inr (Some a, s', rs))" by blast
  then have "allocateLoop T counters recent b e randoms s = Some (Inr (a, s', rs))"
    by (subst allocateLoop.simps) (simp add: start w)
  then show ?thesis by (simp add: allocatePrefix_def c r range)
qed

end

section \<open>Properties\<close>

text \<open>Allocations of a layer, one after the other, with other transactions between that keep the allocator's rows.\<close>

inductive alloc_run :: "'s txn \<Rightarrow> directory_layer \<Rightarrow> bytes \<Rightarrow> int list \<Rightarrow> 's \<Rightarrow> bool" for T L N where
  run_start: "rows_ok N (tx_get T s) \<Longrightarrow> alloc_run T L N [] s"
| run_allocate: "alloc_run T L N as s \<Longrightarrow> allocatePrefix T L randoms s = Some (Inr (a, s', rs)) \<Longrightarrow>
    alloc_run T L N (a # as) s'"
| run_other: "alloc_run T L N as s \<Longrightarrow> rows_ok N (tx_get T s') \<Longrightarrow>
    (\<And>k. hca_key N k \<Longrightarrow> tx_get T s' k = tx_get T s k) \<Longrightarrow> alloc_run T L N as s'"

lemma alloc_run_ok:
  assumes "fdb T" and L: "layer_ok L N" and "alloc_run T L N as s"
  shows "rows_ok N (tx_get T s) \<and> alloc_ok N (set as) (tx_get T s) \<and> distinct as"
  using assms(3)
proof induction
  case (run_allocate as s randoms a s' rs)
  then have i: "rows_ok N (tx_get T s)" "alloc_ok N (set as) (tx_get T s)" "distinct as" by blast+
  note r = fdb.allocatePrefix_inv [OF assms(1) L run_allocate.hyps(2) i(1,2)]
  show ?case using r change_rows [OF r(1) i(1)] i(3) by simp
next
  case (run_other as s s')
  then show ?case unfolding alloc_ok_def by (metis alloc_keys(5,6))
qed (simp add: alloc_ok_def)

lemma sample_allocation:
  assumes L: "layer_ok L NODE_PREFIX"
  obtains a s rs where "allocatePrefix mem_txn L [5] [] = Some (Inr (a, s, rs))"
  using mem.allocatePrefix_returns [OF L dir_inv_rows [OF sample_empty(1)], of 5 "[5]"]
  by (auto simp: counters_ok_def mem_get)

text \<open>C13. The allocator never hands out an integer twice, in any sequence of allocations with other transactions of the
  layer between them, although it forgets the windows that it has left.\<close>

theorem allocation_never_repeats:
  assumes "fdb T" and "layer_ok L N" and "alloc_run T L N as s"
  shows "distinct as"
  using alloc_run_ok [OF assms] by blast

theorem allocation_never_repeats_witness:
  "\<exists>L a s. alloc_run mem_txn L NODE_PREFIX [a] s
     \<and> (\<forall>randoms b s' rs. allocatePrefix mem_txn L randoms s = Some (Inr (b, s', rs)) \<longrightarrow> b \<noteq> a)"
proof -
  obtain L where L: "layer_ok L NODE_PREFIX" by (rule sample_layer)
  obtain a s rs where "allocatePrefix mem_txn L [5] [] = Some (Inr (a, s, rs))" by (rule sample_allocation [OF L])
  with run_start [of NODE_PREFIX mem_txn "[]" L] dir_inv_rows [OF sample_empty(1)] have r: "alloc_run mem_txn L NODE_PREFIX [a] s"
    by (blast intro: run_allocate)
  have "b \<noteq> a" if "allocatePrefix mem_txn L randoms s = Some (Inr (b, s', rs))" for randoms b s' rs
    using allocation_never_repeats [OF fdb_mem L run_allocate [OF r that]] by simp
  with r show ?thesis by blast
qed



end
