(* ===== verification/Transactions.thy ===== *)
theory Transactions
  imports Fdb
begin

text \<open>
  Running an effect in a transaction (src/src/FoundationDb.ts): the operations that the effect is given, the
  loop of attempts, and the convenience operations. The native driver (the interface of
  src/src/internal/native.ts) and the fibers of the Effect runtime are parameters; tracing is not modelled.
\<close>

section \<open>Failures\<close>

record fdb_error =
  operation :: string
  code :: int
  message :: string
  retryable :: bool
  maybeCommitted :: bool
  retryableNotCommitted :: bool

text \<open>
  A cause is a list of reasons. An effect fails with an error of its own or with a \<open>FoundationDbError\<close>; a defect
  is a \<open>FoundationDbError\<close> that was turned into one, or unknown.
\<close>

datatype 'e reason = Failed 'e | FailedFdb fdb_error | Died "fdb_error option" | Interrupted

type_synonym 'e cause = "'e reason list"

definition singleFoundationDbFailure :: "'e cause \<Rightarrow> fdb_error option" where
  "singleFoundationDbFailure c =
    (if length c \<noteq> 1 then None else (case c ! 0 of FailedFdb e \<Rightarrow> Some e | _ \<Rightarrow> None))"

definition preserveMaybeCommitted :: "fdb_error \<Rightarrow> bool \<Rightarrow> fdb_error" where
  "preserveMaybeCommitted e maybe =
    (if \<not> maybe \<or> maybeCommitted e then e
     else \<lparr>operation = operation e, code = code e, message = message e, retryable = retryable e,
       maybeCommitted = True, retryableNotCommitted = False\<rparr>)"

section \<open>Options and telemetry\<close>

text \<open>The options of a transaction; a field that is absent is \<open>None\<close>.\<close>

record transaction_options =
  timeoutMs :: "int option"
  retryLimit :: "int option"
  maxRetryDelayMs :: "int option"
  reportConflictingKeys :: "bool option"
  retryOnMaybeCommitted :: "bool option"

definition orElse :: "'a option \<Rightarrow> 'a option \<Rightarrow> 'a option" where
  "orElse a b = (case a of None \<Rightarrow> b | Some x \<Rightarrow> Some x)"

definition effectiveOptions :: "transaction_options \<Rightarrow> transaction_options \<Rightarrow> transaction_options" where
  "effectiveOptions defaults opts =
    \<lparr>timeoutMs = orElse (timeoutMs opts) (timeoutMs defaults),
     retryLimit = orElse (retryLimit opts) (retryLimit defaults),
     maxRetryDelayMs = orElse (maxRetryDelayMs opts) (maxRetryDelayMs defaults),
     reportConflictingKeys = orElse (reportConflictingKeys opts) (reportConflictingKeys defaults),
     retryOnMaybeCommitted = orElse (retryOnMaybeCommitted opts) (retryOnMaybeCommitted defaults)\<rparr>"

type_synonym conflict_range = "bytes \<times> bytes"

record transaction_attempt =
  attempt_number :: nat
  attempt_maybeCommitted :: bool
  conflictingKeyRanges :: "conflict_range list"

record transaction_telemetry =
  attempts :: nat
  telemetry_maybeCommitted :: bool
  mutationCount :: nat
  mutationBytes :: nat

record attempt_telemetry =
  attempt_mutationCount :: nat
  attempt_mutationBytes :: nat

section \<open>The native driver\<close>

text \<open>A call changes the world and fails with a \<open>FoundationDbError\<close> or returns.\<close>

type_synonym ('w, 'a) call = "'w \<Rightarrow> (fdb_error + 'a) \<times> 'w"

record 'w driver =
  driver_openDatabase :: "string option \<Rightarrow> ('w, int) call"
  driver_closeDatabase :: "int \<Rightarrow> ('w, unit) call"
  driver_openTransaction :: "int \<Rightarrow> ('w, int) call"
  driver_closeTransaction :: "int \<Rightarrow> ('w, unit) call"
  driver_setTransactionOption :: "int \<Rightarrow> string \<Rightarrow> int \<Rightarrow> ('w, unit) call"
  driver_get :: "int \<Rightarrow> bytes \<Rightarrow> bool \<Rightarrow> ('w, bytes option) call"
  driver_getMany :: "int \<Rightarrow> bytes list \<Rightarrow> bool \<Rightarrow> ('w, bytes option list) call"
  driver_getKey :: "int \<Rightarrow> key_selector \<Rightarrow> bool \<Rightarrow> ('w, bytes) call"
  driver_set :: "int \<Rightarrow> bytes \<Rightarrow> bytes \<Rightarrow> ('w, unit) call"
  driver_atomicOp :: "int \<Rightarrow> bytes \<Rightarrow> bytes \<Rightarrow> mutation_type \<Rightarrow> ('w, unit) call"
  driver_setWithoutWriteConflict :: "int \<Rightarrow> bytes \<Rightarrow> bytes \<Rightarrow> ('w, unit) call"
  driver_clear :: "int \<Rightarrow> bytes \<Rightarrow> ('w, unit) call"
  driver_clearRange :: "int \<Rightarrow> bytes \<Rightarrow> bytes \<Rightarrow> ('w, unit) call"
  driver_clearRangeWithoutWriteConflict :: "int \<Rightarrow> bytes \<Rightarrow> bytes \<Rightarrow> ('w, unit) call"
  driver_addConflictRange :: "int \<Rightarrow> bytes \<Rightarrow> bytes \<Rightarrow> conflict_range_type \<Rightarrow> ('w, unit) call"
  driver_getReadVersion :: "int \<Rightarrow> ('w, int) call"
  driver_setReadVersion :: "int \<Rightarrow> int \<Rightarrow> ('w, unit) call"
  driver_getApproximateSize :: "int \<Rightarrow> ('w, int) call"
  driver_watch :: "int \<Rightarrow> bytes \<Rightarrow> ('w, unit) call"
  driver_getVersionstamp :: "int \<Rightarrow> ('w, bytes) call"
  driver_getConflictingKeyRanges :: "int \<Rightarrow> ('w, conflict_range list) call"
  driver_openRange :: "int \<Rightarrow> range_options \<Rightarrow> ('w, int) call"
  driver_nextRange :: "int \<Rightarrow> ('w, row list \<times> bool) call"
  driver_closeRange :: "int \<Rightarrow> ('w, unit) call"
  driver_commit :: "int \<Rightarrow> ('w, int) call"
  driver_onError :: "int \<Rightarrow> fdb_error \<Rightarrow> ('w, unit) call"

text \<open>
  The fibers of the runtime: a detached fiber runs a call, can be joined and interrupted. \<open>releaseDies\<close> is the cause
  that a scope or \<open>acquireUseRelease\<close> ends with when the release is a defect, after a use that failed or succeeded.
\<close>

record ('e, 'w) runtime =
  forkWatch :: "('w, unit) call \<Rightarrow> 'w \<Rightarrow> nat \<times> 'w"
  forkStamp :: "('w, bytes) call \<Rightarrow> 'w \<Rightarrow> nat \<times> 'w"
  joinWatch :: "nat \<Rightarrow> ('w, unit) call"
  joinStamp :: "nat \<Rightarrow> ('w, bytes) call"
  interruptFiber :: "nat \<Rightarrow> 'w \<Rightarrow> 'w"
  releaseDies :: "'e cause option \<Rightarrow> fdb_error \<Rightarrow> 'e cause"

section \<open>Effects\<close>

record 'w attempt_state =
  world :: 'w
  telemetry :: transaction_telemetry
  attemptTelemetry :: attempt_telemetry
  cancelPostCommitFutures :: "nat list"

text \<open>An effect that does not return is \<open>None\<close>.\<close>

type_synonym ('e, 'a, 's) effect = "'s \<Rightarrow> (('e cause + 'a) \<times> 's) option"

definition thenE :: "('e, 'a, 's) effect \<Rightarrow> ('a \<Rightarrow> ('e, 'b, 's) effect) \<Rightarrow> ('e, 'b, 's) effect" where
  "thenE m f s = Option.bind (m s) (\<lambda>(r, s). case r of Inl c \<Rightarrow> Some (Inl c, s) | Inr x \<Rightarrow> f x s)"

definition succeed :: "'a \<Rightarrow> ('e, 'a, 's) effect" where
  "succeed x s = Some (Inr x, s)"

definition call :: "('w, 'a) call \<Rightarrow> ('e, 'a, 'w attempt_state) effect" where
  "call c st = (let (r, w) = c (world st) in
     Some (case r of Inl e \<Rightarrow> Inl [FailedFdb e] | Inr x \<Rightarrow> Inr x, st\<lparr>world := w\<rparr>))"

text \<open>A mutation that succeeds is counted.\<close>

definition countMutation :: "nat \<Rightarrow> 'w attempt_state \<Rightarrow> 'w attempt_state" where
  "countMutation n st =
     st\<lparr>attemptTelemetry := \<lparr>attempt_mutationCount = attempt_mutationCount (attemptTelemetry st) + 1,
          attempt_mutationBytes = attempt_mutationBytes (attemptTelemetry st) + n\<rparr>,
        telemetry := (telemetry st)\<lparr>mutationCount := mutationCount (telemetry st) + 1,
          mutationBytes := mutationBytes (telemetry st) + n\<rparr>\<rparr>"

definition mutation :: "('w, unit) call \<Rightarrow> nat \<Rightarrow> ('e, unit, 'w attempt_state) effect" where
  "mutation c n = thenE (call c) (\<lambda>_ st. Some (Inr (), countMutation n st))"

definition postCommitFuture :: "('w \<Rightarrow> nat \<times> 'w) \<Rightarrow> ('e, nat, 'w attempt_state) effect" where
  "postCommitFuture fork st = (let (fiber, w) = fork (world st) in
     Some (Inr fiber, st\<lparr>world := w, cancelPostCommitFutures := cancelPostCommitFutures st @ [fiber]\<rparr>))"

text \<open>The pages of a range, until one says that there are no more.\<close>

partial_function (option) rangePages ::
    "'w driver \<Rightarrow> int \<Rightarrow> 'w attempt_state \<Rightarrow> (('e cause + row list) \<times> 'w attempt_state) option" where
  "rangePages D cursor st =
    (case call (driver_nextRange D cursor) st of
       None \<Rightarrow> None
     | Some (Inl c, st) \<Rightarrow> Some (Inl c, st)
     | Some (Inr (rows, hasMore), st) \<Rightarrow>
         if \<not> hasMore then Some (Inr rows, st)
         else Option.bind (rangePages D cursor st) (\<lambda>(r, st).
           Some (case r of Inl c \<Rightarrow> Inl c | Inr rest \<Rightarrow> Inr (rows @ rest), st)))"

text \<open>The range is closed when the stream ends; that the release fails is a defect.\<close>

definition collectRange ::
    "'w driver \<Rightarrow> ('e, 'w) runtime \<Rightarrow> int \<Rightarrow> range_options \<Rightarrow> ('e, row list, 'w attempt_state) effect" where
  "collectRange D R handle opts = thenE (call (driver_openRange D handle opts)) (\<lambda>cursor st.
     Option.bind (rangePages D cursor st) (\<lambda>(r, st).
       let (closed, w) = driver_closeRange D cursor (world st); st = st\<lparr>world := w\<rparr> in
       Some (case closed of
           Inl e \<Rightarrow> Inl (releaseDies R (case r of Inl c \<Rightarrow> Some c | Inr _ \<Rightarrow> None) e)
         | Inr _ \<Rightarrow> r, st)))"

section \<open>The transaction given to an effect\<close>

record ('e, 'w) transaction =
  transaction_attempt :: transaction_attempt
  t_get :: "bytes \<Rightarrow> bool \<Rightarrow> ('e, bytes option, 'w attempt_state) effect"
  t_getMany :: "bytes list \<Rightarrow> bool \<Rightarrow> ('e, bytes option list, 'w attempt_state) effect"
  t_getKey :: "key_selector \<Rightarrow> bool \<Rightarrow> ('e, bytes, 'w attempt_state) effect"
  t_set :: "bytes \<Rightarrow> bytes \<Rightarrow> ('e, unit, 'w attempt_state) effect"
  t_atomicOp :: "bytes \<Rightarrow> bytes \<Rightarrow> mutation_type \<Rightarrow> ('e, unit, 'w attempt_state) effect"
  t_setWithoutWriteConflict :: "bytes \<Rightarrow> bytes \<Rightarrow> ('e, unit, 'w attempt_state) effect"
  t_clear :: "bytes \<Rightarrow> ('e, unit, 'w attempt_state) effect"
  t_clearRange :: "bytes \<Rightarrow> bytes \<Rightarrow> ('e, unit, 'w attempt_state) effect"
  t_clearRangeWithoutWriteConflict :: "bytes \<Rightarrow> bytes \<Rightarrow> ('e, unit, 'w attempt_state) effect"
  t_addWriteConflictRange :: "bytes \<Rightarrow> bytes \<Rightarrow> ('e, unit, 'w attempt_state) effect"
  t_addReadConflictRange :: "bytes \<Rightarrow> bytes \<Rightarrow> ('e, unit, 'w attempt_state) effect"
  t_addConflictRange :: "bytes \<Rightarrow> bytes \<Rightarrow> conflict_range_type \<Rightarrow> ('e, unit, 'w attempt_state) effect"
  t_getReadVersion :: "('e, int, 'w attempt_state) effect"
  t_setReadVersion :: "int \<Rightarrow> ('e, unit, 'w attempt_state) effect"
  t_getApproximateSize :: "('e, int, 'w attempt_state) effect"
  t_watch :: "bytes \<Rightarrow> ('e, nat, 'w attempt_state) effect"
  t_getVersionstamp :: "('e, nat, 'w attempt_state) effect"
  t_getRange :: "range_options \<Rightarrow> ('e, row list, 'w attempt_state) effect"

text \<open>The rows of \<open>getRange\<close> as the list that the stream yields.\<close>

definition makeTransaction ::
    "'w driver \<Rightarrow> ('e, 'w) runtime \<Rightarrow> int \<Rightarrow> transaction_attempt \<Rightarrow> ('e, 'w) transaction" where
  "makeTransaction D R handle context = \<lparr>
     transaction_attempt = context,
     t_get = (\<lambda>key snapshot. call (driver_get D handle key snapshot)),
     t_getMany = (\<lambda>keys snapshot. call (driver_getMany D handle keys snapshot)),
     t_getKey = (\<lambda>selector snapshot. call (driver_getKey D handle selector snapshot)),
     t_set = (\<lambda>key v. mutation (driver_set D handle key v) (length key + length v)),
     t_atomicOp = (\<lambda>key v op. mutation (driver_atomicOp D handle key v op) (length key + length v)),
     t_setWithoutWriteConflict = (\<lambda>key v.
       mutation (driver_setWithoutWriteConflict D handle key v) (length key + length v)),
     t_clear = (\<lambda>key. mutation (driver_clear D handle key) (length key)),
     t_clearRange = (\<lambda>b e. mutation (driver_clearRange D handle b e) (length b + length e)),
     t_clearRangeWithoutWriteConflict = (\<lambda>b e.
       mutation (driver_clearRangeWithoutWriteConflict D handle b e) (length b + length e)),
     t_addWriteConflictRange = (\<lambda>b e. call (driver_addConflictRange D handle b e WriteConflict)),
     t_addReadConflictRange = (\<lambda>b e. call (driver_addConflictRange D handle b e ReadConflict)),
     t_addConflictRange = (\<lambda>b e c. call (driver_addConflictRange D handle b e c)),
     t_getReadVersion = call (driver_getReadVersion D handle),
     t_setReadVersion = (\<lambda>version. call (driver_setReadVersion D handle version)),
     t_getApproximateSize = call (driver_getApproximateSize D handle),
     t_watch = (\<lambda>key. postCommitFuture (forkWatch R (driver_watch D handle key))),
     t_getVersionstamp = postCommitFuture (forkStamp R (driver_getVersionstamp D handle)),
     t_getRange = (\<lambda>opts. collectRange D R handle opts)\<rparr>"

section \<open>The loop of attempts\<close>

definition setOption :: "'w driver \<Rightarrow> int \<Rightarrow> string \<Rightarrow> int option \<Rightarrow> ('e, unit, 'w attempt_state) effect" where
  "setOption D handle name v = (case v of
     None \<Rightarrow> succeed () | Some n \<Rightarrow> call (driver_setTransactionOption D handle name n))"

definition setOptions :: "'w driver \<Rightarrow> int \<Rightarrow> transaction_options \<Rightarrow> ('e, unit, 'w attempt_state) effect" where
  "setOptions D handle opts =
     thenE (setOption D handle ''timeout'' (timeoutMs opts)) (\<lambda>_.
     thenE (setOption D handle ''retryLimit'' (retryLimit opts)) (\<lambda>_.
     thenE (setOption D handle ''maxRetryDelay'' (maxRetryDelayMs opts)) (\<lambda>_.
     setOption D handle ''reportConflictingKeys''
       (if reportConflictingKeys opts = Some True then Some 1 else None))))"

type_synonym ('e, 'a, 'w) body = "('e, 'w) transaction \<Rightarrow> ('e, 'a, 'w attempt_state) effect"

text \<open>
  One attempt: the effect, then the commit. A failure interrupts the futures that the attempt started; the
  result says whether it was the commit that failed.
\<close>

definition cancelFutures :: "('e, 'w) runtime \<Rightarrow> 'w attempt_state \<Rightarrow> 'w attempt_state" where
  "cancelFutures R st = st\<lparr>world := fold (interruptFiber R) (cancelPostCommitFutures st) (world st)\<rparr>"

definition runAttempt ::
    "'w driver \<Rightarrow> ('e, 'w) runtime \<Rightarrow> int \<Rightarrow> ('e, 'a, 'w) body \<Rightarrow> transaction_attempt \<Rightarrow> 'w attempt_state
      \<Rightarrow> (('e cause + 'a \<times> int) \<times> bool \<times> 'w attempt_state) option" where
  "runAttempt D R handle body context st =
    Option.bind (body (makeTransaction D R handle context) st) (\<lambda>(r, st).
      case r of
        Inl c \<Rightarrow> Some (Inl c, False, cancelFutures R st)
      | Inr v \<Rightarrow>
          let (committed, w) = driver_commit D handle (world st); st = st\<lparr>world := w\<rparr> in
          (case committed of
             Inl e \<Rightarrow> Some (Inl [FailedFdb e], True, cancelFutures R st)
           | Inr committedVersion \<Rightarrow> Some (Inr (v, committedVersion), False, st)))"

definition startAttempt :: "nat \<Rightarrow> bool \<Rightarrow> 'w attempt_state \<Rightarrow> 'w attempt_state" where
  "startAttempt n maybe st =
     st\<lparr>telemetry := (telemetry st)\<lparr>attempts := n, telemetry_maybeCommitted := maybe\<rparr>,
        attemptTelemetry := \<lparr>attempt_mutationCount = 0, attempt_mutationBytes = 0\<rparr>,
        cancelPostCommitFutures := []\<rparr>"

definition conflictingRanges ::
    "'w driver \<Rightarrow> int \<Rightarrow> transaction_options \<Rightarrow> bool \<Rightarrow> ('e, conflict_range list, 'w attempt_state) effect" where
  "conflictingRanges D handle opts commitFailed =
     (if commitFailed \<and> reportConflictingKeys opts = Some True
      then call (driver_getConflictingKeyRanges D handle) else succeed [])"

definition onErrorCall :: "'w driver \<Rightarrow> int \<Rightarrow> fdb_error \<Rightarrow> bool \<Rightarrow> ('w, unit) call" where
  "onErrorCall D handle failure maybe w = (let (r, w) = driver_onError D handle failure w in
     (case r of Inl e \<Rightarrow> Inl (preserveMaybeCommitted e maybe) | Inr _ \<Rightarrow> Inr (), w))"

partial_function (option) attempt ::
    "'w driver \<Rightarrow> ('e, 'w) runtime \<Rightarrow> int \<Rightarrow> transaction_options \<Rightarrow> ('e, 'a, 'w) body
      \<Rightarrow> nat \<Rightarrow> bool \<Rightarrow> conflict_range list \<Rightarrow> 'w attempt_state
      \<Rightarrow> (('e cause + 'a \<times> int) \<times> 'w attempt_state) option" where
  "attempt D R handle opts body n maybe ranges st =
    (case runAttempt D R handle body
        \<lparr>attempt_number = n, attempt_maybeCommitted = maybe, conflictingKeyRanges = ranges\<rparr> (startAttempt n maybe st) of
       None \<Rightarrow> None
     | Some (Inr v, _, st) \<Rightarrow> Some (Inr v, st)
     | Some (Inl c, commitFailed, st) \<Rightarrow>
         (case singleFoundationDbFailure c of
            None \<Rightarrow> Some (Inl c, st)
          | Some failure \<Rightarrow>
              let next = maybe \<or> maybeCommitted failure;
                  st = st\<lparr>telemetry := (telemetry st)\<lparr>telemetry_maybeCommitted := next\<rparr>\<rparr> in
              if maybeCommitted failure \<and> retryOnMaybeCommitted opts = Some False then Some (Inl c, st)
              else
                (case conflictingRanges D handle opts commitFailed st of
                   None \<Rightarrow> None
                 | Some (Inl c, st) \<Rightarrow> Some (Inl c, st)
                 | Some (Inr ranges', st) \<Rightarrow>
                     (case call (onErrorCall D handle failure next) st of
                        None \<Rightarrow> None
                      | Some (Inl c, st) \<Rightarrow> Some (Inl c, st)
                      | Some (Inr _, st) \<Rightarrow> attempt D R handle opts body (n + 1) next ranges' st))))"

text \<open>The transaction is opened, used and closed; that closing fails is a defect.\<close>

definition withTransactionResult ::
    "'w driver \<Rightarrow> ('e, 'w) runtime \<Rightarrow> int \<Rightarrow> transaction_options \<Rightarrow> ('e, 'a, 'w) body \<Rightarrow> transaction_options \<Rightarrow> 'w
      \<Rightarrow> (('e cause + 'a \<times> int) \<times> transaction_telemetry \<times> 'w) option" where
  "withTransactionResult D R database defaults body options w =
    (let t = \<lparr>attempts = 0, telemetry_maybeCommitted = False, mutationCount = 0, mutationBytes = 0\<rparr>;
         opts = effectiveOptions defaults options;
         (opened, w) = driver_openTransaction D database w in
     case opened of
       Inl e \<Rightarrow> Some (Inl [FailedFdb e], t, w)
     | Inr handle \<Rightarrow>
         Option.bind (thenE (setOptions D handle opts) (\<lambda>_. attempt D R handle opts body 1 False [])
             \<lparr>world = w, telemetry = t, attemptTelemetry = \<lparr>attempt_mutationCount = 0, attempt_mutationBytes = 0\<rparr>,
              cancelPostCommitFutures = []\<rparr>) (\<lambda>(r, st).
           let (closed, w) = driver_closeTransaction D handle (world st) in
           Some (case closed of
               Inl e \<Rightarrow> Inl (releaseDies R (case r of Inl c \<Rightarrow> Some c | Inr _ \<Rightarrow> None) e)
             | Inr _ \<Rightarrow> r, telemetry st, w)))"

definition withTransaction ::
    "'w driver \<Rightarrow> ('e, 'w) runtime \<Rightarrow> int \<Rightarrow> transaction_options \<Rightarrow> ('e, 'a, 'w) body \<Rightarrow> transaction_options \<Rightarrow> 'w
      \<Rightarrow> (('e cause + 'a) \<times> transaction_telemetry \<times> 'w) option" where
  "withTransaction D R database defaults body options w =
     map_option (\<lambda>(r, rest). (case r of Inl c \<Rightarrow> Inl c | Inr (v, _) \<Rightarrow> Inr v, rest))
       (withTransactionResult D R database defaults body options w)"

section \<open>Operations in a transaction of their own\<close>

definition database_get where
  "database_get D R database defaults key snapshot options w =
     withTransaction D R database defaults (\<lambda>t. t_get t key snapshot) options w"

definition database_getMany where
  "database_getMany D R database defaults keys snapshot options w =
     withTransaction D R database defaults (\<lambda>t. t_getMany t keys snapshot) options w"

definition database_set where
  "database_set D R database defaults key v options w =
     withTransaction D R database defaults (\<lambda>t. t_set t key v) options w"

definition database_clear where
  "database_clear D R database defaults key options w =
     withTransaction D R database defaults (\<lambda>t. t_clear t key) options w"

definition database_clearRange where
  "database_clearRange D R database defaults b e options w =
     withTransaction D R database defaults (\<lambda>t. t_clearRange t b e) options w"

definition database_getRange where
  "database_getRange D R database defaults opts options w =
     withTransaction D R database defaults (\<lambda>t. t_getRange t opts) options w"

text \<open>The watch is started in the transaction and awaited after it has committed.\<close>

definition database_watch where
  "database_watch D R database defaults key options w =
     Option.bind (withTransaction D R database defaults (\<lambda>t. t_watch t key) options w) (\<lambda>(r, t, w).
       case r of
         Inl c \<Rightarrow> Some (Inl c, t, w)
       | Inr future \<Rightarrow>
           let (changed, w) = joinWatch R future w in
           Some (case changed of Inl e \<Rightarrow> Inl [FailedFdb e] | Inr _ \<Rightarrow> Inr (), t, w))"

end
