(* ===== verification/Transaction_Properties.thy ===== *)
theory Transaction_Properties
  imports Transactions
begin

text \<open>
  What the loop of attempts guarantees: how often the effects of a transaction can be applied, what an error says
  about that, and when the loop ends.
\<close>

section \<open>A driver that reports ambiguous commits\<close>

text \<open>
  \<open>applied\<close> counts the commits that took effect. FoundationDB documents that a commit that fails was not applied
  unless its error says that it may have been; no other call commits.
\<close>

definition silent :: "('w \<Rightarrow> nat) \<Rightarrow> ('w, 'a) call \<Rightarrow> bool" where
  "silent applied c \<longleftrightarrow> (\<forall>w. applied (snd (c w)) = applied w)"

definition reports_commits :: "('w \<Rightarrow> nat) \<Rightarrow> 'w driver \<Rightarrow> ('e, 'w) runtime \<Rightarrow> bool" where
  "reports_commits applied D R \<longleftrightarrow>
     (\<forall>h w. case driver_commit D h w of
        (Inr v, w') \<Rightarrow> applied w' = applied w + 1
      | (Inl e, w') \<Rightarrow> applied w' = applied w \<or> applied w' = applied w + 1 \<and> maybeCommitted e)
   \<and> (\<forall>h e. silent applied (driver_onError D h e)) \<and> (\<forall>h. silent applied (driver_getConflictingKeyRanges D h))
   \<and> (\<forall>d. silent applied (driver_openTransaction D d)) \<and> (\<forall>h. silent applied (driver_closeTransaction D h))
   \<and> (\<forall>h n v. silent applied (driver_setTransactionOption D h n v))
   \<and> (\<forall>f w. applied (interruptFiber R f w) = applied w)
   \<and> (\<forall>c e. singleFoundationDbFailure (releaseDies R c e) = None)"

definition only_buffers :: "('w \<Rightarrow> nat) \<Rightarrow> 'w driver \<Rightarrow> ('e, 'w) runtime \<Rightarrow> ('e, 'a, 'w) body \<Rightarrow> bool" where
  "only_buffers applied D R body \<longleftrightarrow>
     (\<forall>h context st r st'. body (makeTransaction D R h context) st = Some (r, st') \<longrightarrow>
        applied (world st') = applied (world st))"

lemma singleFailure_iff: "singleFoundationDbFailure c = Some e \<longleftrightarrow> c = [FailedFdb e]"
  by (cases c) (auto simp: singleFoundationDbFailure_def split: reason.splits)


lemma call_silent: "silent applied c \<Longrightarrow> call c st = Some (r, st') \<Longrightarrow> applied (world st') = applied (world st)"
  by (cases "c (world st)") (auto simp: call_def silent_def dest: spec [of _ "world st"])

lemma call_returns: "\<exists>r st'. call c st = Some (r, st')"
  by (simp add: call_def split_beta)

lemma conflictingRanges_returns: "\<exists>r st'. conflictingRanges D h opts b st = Some (r, st')"
  by (simp add: conflictingRanges_def succeed_def call_def split_beta)

lemma onErrorCall_silent: "reports_commits applied D R \<Longrightarrow> silent applied (onErrorCall D h e maybe)"
proof -
  assume "reports_commits applied D R"
  then have "applied (snd (driver_onError D h e w)) = applied w" for w unfolding reports_commits_def silent_def by blast
  then show ?thesis unfolding silent_def onErrorCall_def by (simp add: Let_def split_beta)
qed

lemma cancel_silent:
  assumes "reports_commits applied D R"
  shows "applied (world (cancelFutures R st)) = applied (world st)"
proof -
  have "applied (fold (interruptFiber R) fs w) = applied w" for fs w
    using assms by (induction fs arbitrary: w) (simp_all add: reports_commits_def)
  then show ?thesis by (simp add: cancelFutures_def)
qed

lemma startAttempt_world [simp]: "world (startAttempt n maybe st) = world st"
  by (simp add: startAttempt_def)

text \<open>One attempt.\<close>

lemma runAttempt_applied:
  assumes D: "reports_commits applied D R" and b: "only_buffers applied D R body"
    and r: "runAttempt D R h body context st = Some (r, commitFailed, st')"
  shows "case r of
      Inr v \<Rightarrow> applied (world st') = applied (world st) + 1
    | Inl c \<Rightarrow> applied (world st') = applied (world st)
        \<or> applied (world st') = applied (world st) + 1 \<and> (\<exists>e. c = [FailedFdb e] \<and> maybeCommitted e)"
proof -
  obtain v st1 where v: "body (makeTransaction D R h context) st = Some (v, st1)"
    using r by (auto simp: runAttempt_def bind_eq_Some_conv)
  have a: "applied (world st1) = applied (world st)" using b v unfolding only_buffers_def by blast
  obtain c w where c: "driver_commit D h (world st1) = (c, w)" by fastforce
  have "case c of Inr v \<Rightarrow> applied w = applied (world st1) + 1
      | Inl e \<Rightarrow> applied w = applied (world st1) \<or> applied w = applied (world st1) + 1 \<and> maybeCommitted e"
    using D c unfolding reports_commits_def by (cases c) (metis (no_types, lifting) case_prod_conv sum.case)+
  then show ?thesis
    using r v c a cancel_silent [OF D] by (cases v; cases c) (auto simp: runAttempt_def)
qed

text \<open>
  The loop ends in one of five ways, or takes another turn: an induction over the turns.
\<close>

abbreviation turn where
  "turn D R h body n maybe ranges st \<equiv> runAttempt D R h body
     \<lparr>attempt_number = n, attempt_maybeCommitted = maybe, conflictingKeyRanges = ranges\<rparr> (startAttempt n maybe st)"

lemma attempt_induct [consumes 1, case_names returned other ambiguous conflicts gives_up retries]:
  fixes D :: "'w driver" and R :: "('e, 'w) runtime" and body :: "('e, 'a, 'w) body"
  assumes run: "attempt D R h opts body n maybe ranges st = Some (r, st')"
    and returned: "\<And>n maybe ranges st v b st1. turn D R h body n maybe ranges st = Some (Inr v, b, st1) \<Longrightarrow> P n maybe st (Inr v) st1"
    and other: "\<And>n maybe ranges st c b st1. turn D R h body n maybe ranges st = Some (Inl c, b, st1) \<Longrightarrow>
        singleFoundationDbFailure c = None \<Longrightarrow> P n maybe st (Inl c) st1"
    and ambiguous: "\<And>n maybe ranges st e b st1 st2. turn D R h body n maybe ranges st = Some (Inl [FailedFdb e], b, st1) \<Longrightarrow>
        maybeCommitted e \<Longrightarrow> retryOnMaybeCommitted opts = Some False \<Longrightarrow> world st2 = world st1 \<Longrightarrow>
        P n maybe st (Inl [FailedFdb e]) st2"
    and conflicts: "\<And>n maybe ranges st e b st1 st2 c st3. turn D R h body n maybe ranges st = Some (Inl [FailedFdb e], b, st1) \<Longrightarrow>
        \<not> (maybeCommitted e \<and> retryOnMaybeCommitted opts = Some False) \<Longrightarrow> world st2 = world st1 \<Longrightarrow>
        conflictingRanges D h opts b st2 = Some (Inl c, st3) \<Longrightarrow> P n maybe st (Inl c) st3"
    and gives_up: "\<And>n maybe ranges st e b st1 st2 rs st3 c st4. turn D R h body n maybe ranges st = Some (Inl [FailedFdb e], b, st1) \<Longrightarrow>
        \<not> (maybeCommitted e \<and> retryOnMaybeCommitted opts = Some False) \<Longrightarrow> world st2 = world st1 \<Longrightarrow>
        conflictingRanges D h opts b st2 = Some (Inr rs :: 'e cause + conflict_range list, st3) \<Longrightarrow>
        call (onErrorCall D h e (maybe \<or> maybeCommitted e)) st3 = Some (Inl c, st4) \<Longrightarrow> P n maybe st (Inl c) st4"
    and retries: "\<And>n maybe ranges st e b st1 st2 rs st3 u st4 r st'. turn D R h body n maybe ranges st = Some (Inl [FailedFdb e], b, st1) \<Longrightarrow>
        \<not> (maybeCommitted e \<and> retryOnMaybeCommitted opts = Some False) \<Longrightarrow> world st2 = world st1 \<Longrightarrow>
        conflictingRanges D h opts b st2 = Some (Inr rs :: 'e cause + conflict_range list, st3) \<Longrightarrow>
        call (onErrorCall D h e (maybe \<or> maybeCommitted e)) st3 = Some (Inr u :: 'e cause + unit, st4) \<Longrightarrow>
        P (n + 1) (maybe \<or> maybeCommitted e) st4 r st' \<Longrightarrow> P n maybe st r st'"
  shows "P n maybe st r st'"
proof -
  let ?P = "\<lambda>D' R' h' opts' body' n maybe ranges st x. D' = D \<longrightarrow> R' = R \<longrightarrow> h' = h \<longrightarrow> opts' = opts \<longrightarrow> body' = body \<longrightarrow>
    P n maybe st (fst x) (snd x)"
  have "?P D R h opts body n maybe ranges st (r, st')"
  proof (rule attempt.raw_induct [of ?P D R h opts body n maybe ranges st "(r, st')"])
    show "attempt D R h opts body n maybe ranges st = Some (r, st')" by (rule run)
  next
    fix loop D' R' h' opts' body' n maybe ranges st x
    assume IH: "\<And>D R h opts body n maybe ranges st x. loop D R h opts body n maybe ranges st = Some x \<Longrightarrow>
        ?P D R h opts body n maybe ranges st x"
      and step: "(case runAttempt D' R' h' body'
        \<lparr>attempt_number = n, attempt_maybeCommitted = maybe, conflictingKeyRanges = ranges\<rparr> (startAttempt n maybe st) of
       None \<Rightarrow> None
     | Some (Inr v, _, st) \<Rightarrow> Some (Inr v, st)
     | Some (Inl c, commitFailed, st) \<Rightarrow>
         (case singleFoundationDbFailure c of
            None \<Rightarrow> Some (Inl c, st)
          | Some failure \<Rightarrow>
              let next = maybe \<or> maybeCommitted failure;
                  st = st\<lparr>telemetry := (telemetry st)\<lparr>telemetry_maybeCommitted := next\<rparr>\<rparr> in
              if maybeCommitted failure \<and> retryOnMaybeCommitted opts' = Some False then Some (Inl c, st)
              else
                (case conflictingRanges D' h' opts' commitFailed st of
                   None \<Rightarrow> None
                 | Some (Inl c, st) \<Rightarrow> Some (Inl c, st)
                 | Some (Inr ranges', st) \<Rightarrow>
                     (case call (onErrorCall D' h' failure next) st of
                        None \<Rightarrow> None
                      | Some (Inl c, st) \<Rightarrow> Some (Inl c, st)
                      | Some (Inr _, st) \<Rightarrow> loop D' R' h' opts' body' (n + 1) next ranges' st)))) = Some x"
    show "?P D' R' h' opts' body' n maybe ranges st x"
    proof (intro impI)
      assume eq: "D' = D" "R' = R" "h' = h" "opts' = opts" "body' = body"
      let ?ctx = "\<lparr>attempt_number = n, attempt_maybeCommitted = maybe, conflictingKeyRanges = ranges\<rparr>"
      obtain q b st1 where q: "runAttempt D R h body ?ctx (startAttempt n maybe st) = Some (q, b, st1)"
        using step eq by (auto split: option.splits)
      show "P n maybe st (fst x) (snd x)"
      proof (cases q)
        case (Inr v)
        then show ?thesis using step eq q returned [of n maybe ranges st v b st1] by auto
      next
        case (Inl c)
        show ?thesis
        proof (cases "singleFoundationDbFailure c")
          case None
          then show ?thesis using step eq q Inl other [of n maybe ranges st c b st1] by auto
        next
          case (Some e)
          then have c: "c = [FailedFdb e]" by (simp add: singleFailure_iff)
          let ?next = "maybe \<or> maybeCommitted e"
          let ?st2 = "st1\<lparr>telemetry := (telemetry st1)\<lparr>telemetry_maybeCommitted := ?next\<rparr>\<rparr>"
          have w2: "world ?st2 = world st1" by simp
          show ?thesis
          proof (cases "maybeCommitted e \<and> retryOnMaybeCommitted opts = Some False")
            case True
            then show ?thesis using step eq q Inl Some ambiguous [of n maybe ranges st e b st1 ?st2] c by auto
          next
            case False
            obtain t :: "'e cause + conflict_range list" and st3 where t: "conflictingRanges D h opts b ?st2 = Some (t, st3)"
              using conflictingRanges_returns by blast
            show ?thesis
            proof (cases t)
              case (Inl c')
              then show ?thesis using step eq q \<open>q = Inl c\<close> Some False t
                conflicts [OF q [unfolded \<open>q = Inl c\<close> c] False w2, of c' st3] by (auto simp: Let_def)
            next
              case (Inr rs)
              obtain u :: "'e cause + unit" and st4 where u: "call (onErrorCall D h e ?next) st3 = Some (u, st4)"
                using call_returns by blast
              note at = q [unfolded \<open>q = Inl c\<close> c] False w2 t [unfolded Inr] u
              show ?thesis
              proof (cases u)
                case (Inl c')
                then show ?thesis using step eq q \<open>q = Inl c\<close> Some False t Inr u
                  gives_up [OF at [unfolded Inl]] by (auto simp: Let_def)
              next
                case u': (Inr y)
                have "loop D R h opts body (n + 1) ?next rs st4 = Some x"
                  using step eq q \<open>q = Inl c\<close> Some False t Inr u u' by (auto simp: Let_def)
                from IH [OF this] have "P (n + 1) ?next st4 (fst x) (snd x)" by simp
                then show ?thesis by (rule retries [OF at [unfolded u']])
              qed
            qed
          qed
        qed
      qed
    qed
  qed
  then show ?thesis by simp
qed

section \<open>What has been applied\<close>

lemma conflictingRanges_silent:
  assumes D: "reports_commits applied D R" and c: "conflictingRanges D h opts b st = Some (r, st')"
  shows "applied (world st') = applied (world st)"
proof (cases "b \<and> reportConflictingKeys opts = Some True")
  case True
  have "silent applied (driver_getConflictingKeyRanges D h)" using D unfolding reports_commits_def by blast
  from call_silent [OF this] c True show ?thesis by (simp add: conflictingRanges_def)
qed (use c in \<open>auto simp: conflictingRanges_def succeed_def\<close>)

lemma attempt_once:
  assumes D: "reports_commits applied D R" and b: "only_buffers applied D R body"
    and retry: "retryOnMaybeCommitted opts = Some False"
    and run: "attempt D R h opts body n maybe ranges st = Some (r, st')"
  shows "case r of
      Inr v \<Rightarrow> applied (world st') = applied (world st) + 1
    | Inl c \<Rightarrow> applied (world st') = applied (world st)
        \<or> applied (world st') = applied (world st) + 1 \<and> (\<exists>e. c = [FailedFdb e] \<and> maybeCommitted e)"
  using run
proof (induction rule: attempt_induct)
  case (returned n maybe ranges st v b st1)
  then show ?case using runAttempt_applied [OF D b] by fastforce
next
  case (other n maybe ranges st c b st1)
  then show ?case using runAttempt_applied [OF D b] by fastforce
next
  case (ambiguous n maybe ranges st e b st1 st2)
  then show ?case using runAttempt_applied [OF D assms(2) ambiguous(1)] by auto
next
  case (conflicts n maybe ranges st e b st1 st2 c st3)
  then show ?case using runAttempt_applied [OF D assms(2) conflicts(1)] conflictingRanges_silent [OF D conflicts(4)] retry by auto
next
  case (gives_up n maybe ranges st e b st1 st2 rs st3 c st4)
  then show ?case using runAttempt_applied [OF D assms(2) gives_up(1)] conflictingRanges_silent [OF D gives_up(4)]
      call_silent [OF onErrorCall_silent [OF D] gives_up(5)] retry by auto
next
  case (retries n maybe ranges st e b st1 st2 rs st3 u st4 r st')
  then show ?case using runAttempt_applied [OF D assms(2) retries(1)] conflictingRanges_silent [OF D retries(4)]
      call_silent [OF onErrorCall_silent [OF D] retries(5)] retry by (auto split: sum.splits)
qed


section \<open>The loop ends\<close>

text \<open>
  \<open>budget\<close> bounds the retries that \<open>onError\<close> will still grant (FoundationDB's retry limit or timeout), and no other
  call adds to it.
\<close>

definition never_adds :: "('w \<Rightarrow> nat) \<Rightarrow> ('w, 'a) call \<Rightarrow> bool" where
  "never_adds budget c \<longleftrightarrow> (\<forall>w. budget (snd (c w)) \<le> budget w)"

definition limits_retries :: "('w \<Rightarrow> nat) \<Rightarrow> 'w driver \<Rightarrow> ('e, 'w) runtime \<Rightarrow> bool" where
  "limits_retries budget D R \<longleftrightarrow>
     (\<forall>h e w w'. driver_onError D h e w = (Inr (), w') \<longrightarrow> budget w' < budget w)
   \<and> (\<forall>h. never_adds budget (driver_commit D h)) \<and> (\<forall>h. never_adds budget (driver_getConflictingKeyRanges D h))
   \<and> (\<forall>f w. budget (interruptFiber R f w) \<le> budget w)"

definition returns_within :: "('w \<Rightarrow> nat) \<Rightarrow> 'w driver \<Rightarrow> ('e, 'w) runtime \<Rightarrow> ('e, 'a, 'w) body \<Rightarrow> bool" where
  "returns_within budget D R body \<longleftrightarrow> (\<forall>h context st. \<exists>r st'.
     body (makeTransaction D R h context) st = Some (r, st') \<and> budget (world st') \<le> budget (world st))"

lemma call_adds: "never_adds budget c \<Longrightarrow> call c st = Some (r, st') \<Longrightarrow> budget (world st') \<le> budget (world st)"
  by (cases "c (world st)") (auto simp: call_def never_adds_def dest: spec [of _ "world st"])

lemma runAttempt_ends:
  assumes D: "limits_retries budget D R" and b: "returns_within budget D R body"
  shows "\<exists>r f st'. runAttempt D R h body context st = Some (r, f, st') \<and> budget (world st') \<le> budget (world st)"
proof -
  obtain v st1 where v: "body (makeTransaction D R h context) st = Some (v, st1)" "budget (world st1) \<le> budget (world st)"
    using b unfolding returns_within_def by blast
  obtain c w where c: "driver_commit D h (world st1) = (c, w)" by fastforce
  have w: "budget w \<le> budget (world st1)" using D c unfolding limits_retries_def never_adds_def by (metis snd_conv)
  have i: "\<And>f w. budget (interruptFiber R f w) \<le> budget w" using D unfolding limits_retries_def by blast
  have "budget (fold (interruptFiber R) fs w) \<le> budget w" for fs w
    by (induction fs arbitrary: w) (auto intro: order_trans [OF _ i])
  then have cancel: "budget (world (cancelFutures R st)) \<le> budget (world st)" for st by (simp add: cancelFutures_def)
  have "budget (world (cancelFutures R st1)) \<le> budget (world st)"
    "budget (world (cancelFutures R (st1\<lparr>world := w\<rparr>))) \<le> budget (world st)"
    using cancel [of st1] cancel [of "st1\<lparr>world := w\<rparr>"] v w by simp_all
  then show ?thesis using v c w by (cases v; cases c) (auto simp: runAttempt_def)
qed

lemma attempt_ends:
  fixes D :: "'w driver" and R :: "('e, 'w) runtime" and body :: "('e, 'a, 'w) body"
  assumes D: "limits_retries budget D R" and b: "returns_within budget D R body"
  shows "\<exists>x. attempt D R h opts body n maybe ranges st = Some x"
proof (induction "budget (world st)" arbitrary: n maybe ranges st rule: less_induct)
  case less
  obtain q f st1 where q: "turn D R h body n maybe ranges st = Some (q, f, st1)" "budget (world st1) \<le> budget (world st)"
    using runAttempt_ends [OF D b, of h "\<lparr>attempt_number = n, attempt_maybeCommitted = maybe, conflictingKeyRanges = ranges\<rparr>"
        "startAttempt n maybe st"] by auto
  show ?case
  proof (cases q)
    case (Inr v)
    then show ?thesis by (subst attempt.simps) (simp add: q)
  next
    case (Inl c)
    show ?thesis
    proof (cases "singleFoundationDbFailure c")
      case None
      then show ?thesis by (subst attempt.simps) (simp add: q Inl)
    next
      case (Some e)
      let ?next = "maybe \<or> maybeCommitted e"
      let ?st2 = "st1\<lparr>telemetry := (telemetry st1)\<lparr>telemetry_maybeCommitted := ?next\<rparr>\<rparr>"
      show ?thesis
      proof (cases "maybeCommitted e \<and> retryOnMaybeCommitted opts = Some False")
        case True
        then show ?thesis by (subst attempt.simps) (simp add: q Inl Some Let_def)
      next
        case False
        obtain t :: "'e cause + conflict_range list" and st3 where t: "conflictingRanges D h opts f ?st2 = Some (t, st3)"
          using conflictingRanges_returns by blast
        have adds: "never_adds budget (driver_getConflictingKeyRanges D h)" using D unfolding limits_retries_def by blast
        have st3: "budget (world st3) \<le> budget (world st1)"
        proof (cases "f \<and> reportConflictingKeys opts = Some True")
          case True
          then show ?thesis using t call_adds [OF adds, of ?st2 t st3] by (simp add: conflictingRanges_def)
        qed (use t in \<open>auto simp: conflictingRanges_def succeed_def\<close>)
        obtain u :: "'e cause + unit" and st4 where u: "call (onErrorCall D h e ?next) st3 = Some (u, st4)"
          using call_returns by blast
        have "\<exists>x. attempt D R h opts body (n + 1) ?next rs st4 = Some x" if "u = Inr y" for y rs
        proof -
          have "budget (world st4) < budget (world st3)"
            using u that D unfolding limits_retries_def
            by (auto simp: call_def onErrorCall_def Let_def split: prod.splits sum.splits)
          then show ?thesis using less st3 q(2) by (meson less_le_trans order_less_le_trans)
        qed
        then show ?thesis using False
          by (subst attempt.simps) (cases t; cases u; simp add: q Inl Some Let_def t u)
      qed
    qed
  qed
qed

section \<open>A driver with a script\<close>

text \<open>
  The world is the number of commits applied, the outcomes of the commits to come, and the retries left. An outcome
  is a conflict, an unknown result of a commit that was applied, or a success.
\<close>

datatype outcome = Conflicting | UnknownApplied | Committed

type_synonym scripted = "nat \<times> outcome list \<times> nat"

definition sampleError :: "int \<Rightarrow> bool \<Rightarrow> fdb_error" where
  "sampleError n maybe = \<lparr>operation = ''commit'', code = n, message = ''failed'', retryable = True, maybeCommitted = maybe,
     retryableNotCommitted = (\<not> maybe)\<rparr>"

fun scriptedCommit :: "int \<Rightarrow> (scripted, int) call" where
  "scriptedCommit h (n, [], b) = (Inr 1, (n + 1, [], b))"
| "scriptedCommit h (n, Committed # os, b) = (Inr 1, (n + 1, os, b))"
| "scriptedCommit h (n, Conflicting # os, b) = (Inl (sampleError 1020 False), (n, os, b))"
| "scriptedCommit h (n, UnknownApplied # os, b) = (Inl (sampleError 1021 True), (n + 1, os, b))"

fun scriptedOnError :: "int \<Rightarrow> fdb_error \<Rightarrow> (scripted, unit) call" where
  "scriptedOnError h e (n, os, b) = (if b = 0 then (Inl e, (n, os, b)) else (Inr (), (n, os, b - 1)))"

definition sampleDriver :: "(fdb_error + conflict_range list) \<Rightarrow> scripted driver" where
  "sampleDriver conflicts = \<lparr>
     driver_openDatabase = (\<lambda>c w. (Inr 0, w)), driver_closeDatabase = (\<lambda>d w. (Inr (), w)),
     driver_openTransaction = (\<lambda>d w. (Inr 0, w)), driver_closeTransaction = (\<lambda>h w. (Inr (), w)),
     driver_setTransactionOption = (\<lambda>h n v w. (Inr (), w)), driver_get = (\<lambda>h k b w. (Inr None, w)),
     driver_getMany = (\<lambda>h ks b w. (Inr (map (\<lambda>_. None) ks), w)), driver_getKey = (\<lambda>h k b w. (Inr [], w)),
     driver_set = (\<lambda>h k v w. (Inr (), w)), driver_atomicOp = (\<lambda>h k v m w. (Inr (), w)),
     driver_setWithoutWriteConflict = (\<lambda>h k v w. (Inr (), w)), driver_clear = (\<lambda>h k w. (Inr (), w)),
     driver_clearRange = (\<lambda>h b e w. (Inr (), w)), driver_clearRangeWithoutWriteConflict = (\<lambda>h b e w. (Inr (), w)),
     driver_addConflictRange = (\<lambda>h b e t w. (Inr (), w)), driver_getReadVersion = (\<lambda>h w. (Inr 0, w)),
     driver_setReadVersion = (\<lambda>h v w. (Inr (), w)), driver_getApproximateSize = (\<lambda>h w. (Inr 0, w)),
     driver_watch = (\<lambda>h k w. (Inr (), w)), driver_getVersionstamp = (\<lambda>h w. (Inr [], w)),
     driver_getConflictingKeyRanges = (\<lambda>h w. (conflicts, w)), driver_openRange = (\<lambda>h r w. (Inr 0, w)),
     driver_nextRange = (\<lambda>r w. (Inr ([], False), w)), driver_closeRange = (\<lambda>r w. (Inr (), w)),
     driver_commit = scriptedCommit, driver_onError = scriptedOnError\<rparr>"

definition sampleRuntime :: "('e, scripted) runtime" where
  "sampleRuntime = \<lparr>forkWatch = (\<lambda>c w. (0, w)), forkStamp = (\<lambda>c w. (0, w)), joinWatch = (\<lambda>f w. (Inr (), w)),
     joinStamp = (\<lambda>f w. (Inr [], w)), interruptFiber = (\<lambda>f w. w), releaseDies = (\<lambda>c e. [Died (Some e)])\<rparr>"

definition sampleBody :: "(unit, unit, scripted) body" where
  "sampleBody t = t_set t [1] [2]"

definition sampleOptions :: "bool option \<Rightarrow> bool option \<Rightarrow> transaction_options" where
  "sampleOptions report retry = \<lparr>timeoutMs = None, retryLimit = None, maxRetryDelayMs = None,
     reportConflictingKeys = report, retryOnMaybeCommitted = retry\<rparr>"

lemma sampleDriver_simps [simp]:
  "driver_commit (sampleDriver conflicts) = scriptedCommit" "driver_onError (sampleDriver conflicts) = scriptedOnError"
  "driver_getConflictingKeyRanges (sampleDriver conflicts) h w = (conflicts, w)"
  "driver_openTransaction (sampleDriver conflicts) d w = (Inr 0, w)"
  "driver_closeTransaction (sampleDriver conflicts) h w = (Inr (), w)"
  "driver_setTransactionOption (sampleDriver conflicts) h name n w = (Inr (), w)"
  "driver_set (sampleDriver conflicts) h k v w = (Inr (), w)"
  "interruptFiber sampleRuntime f w = w" "releaseDies sampleRuntime c e = [Died (Some e)]"
  by (simp_all add: sampleDriver_def sampleRuntime_def)

lemma sample_reports: "reports_commits fst (sampleDriver conflicts) sampleRuntime"
proof -
  have "case scriptedCommit h w of (Inr v, w') \<Rightarrow> fst w' = fst w + 1
      | (Inl e, w') \<Rightarrow> fst w' = fst w \<or> fst w' = fst w + 1 \<and> maybeCommitted e" for h w
    by (cases "(h, w)" rule: scriptedCommit.cases) (simp_all add: sampleError_def)
  moreover have "fst (snd (scriptedOnError h e w)) = fst w" for h e w
    by (cases w) simp
  ultimately show ?thesis by (simp add: reports_commits_def silent_def singleFoundationDbFailure_def)
qed

lemma sample_body:
  "sampleBody (makeTransaction (sampleDriver conflicts) sampleRuntime h context) st = Some (Inr (), countMutation 2 st)"
  by (simp add: sampleBody_def makeTransaction_def mutation_def thenE_def call_def numeral_2_eq_2)

lemma sample_buffers: "only_buffers fst (sampleDriver conflicts) sampleRuntime sampleBody"
  by (simp add: only_buffers_def sample_body countMutation_def)

lemma sample_limits: "limits_retries (\<lambda>w. snd (snd w)) (sampleDriver conflicts) sampleRuntime"
proof -
  have "scriptedOnError h e w = (Inr (), w') \<Longrightarrow> snd (snd w') < snd (snd w)" for h e w w'
    by (cases w) (auto split: if_splits)
  moreover have "snd (snd (snd (scriptedCommit h w))) \<le> snd (snd w)" for h w
    by (cases "(h, w)" rule: scriptedCommit.cases) simp_all
  ultimately show ?thesis by (auto simp: limits_retries_def never_adds_def)
qed

lemma sample_returns: "returns_within (\<lambda>w. snd (snd w)) (sampleDriver conflicts) sampleRuntime sampleBody"
  by (simp add: returns_within_def sample_body countMutation_def)

lemma sample_options:
  "effectiveOptions (sampleOptions None None) (sampleOptions report retry) = sampleOptions report retry"
  by (simp add: effectiveOptions_def sampleOptions_def orElse_def split: option.split)

lemmas sample_run = withTransactionResult_def effectiveOptions_def orElse_def thenE_def setOptions_def setOption_def succeed_def
  sampleOptions_def runAttempt_def sample_body startAttempt_def countMutation_def cancelFutures_def
  singleFoundationDbFailure_def sampleError_def call_def conflictingRanges_def onErrorCall_def preserveMaybeCommitted_def Let_def

lemma sample_unknown:
  "withTransactionResult (sampleDriver (Inr [])) sampleRuntime 0 (sampleOptions None None) sampleBody
     (sampleOptions None (Some False)) (0, [Conflicting, UnknownApplied], 5)
   = Some (Inl [FailedFdb (sampleError 1021 True)], \<lparr>attempts = 2, telemetry_maybeCommitted = True, mutationCount = 2,
       mutationBytes = 4\<rparr>, (1, [], 4))"
  by (simp add: sample_run attempt.simps)

text \<open>
  With \<open>reportConflictingKeys\<close> on, a failure to read the conflicting ranges replaces the error of the commit, and that
  the commit may have been applied is lost: here it was applied, and the error says that it was not.
\<close>

section \<open>Properties\<close>

lemma thenE_silent:
  assumes "thenE m f st = Some (r, st')"
    and "\<And>r st'. m st = Some (r, st') \<Longrightarrow> applied (world st') = applied (world st)"
    and "\<And>x st1 r st'. f x st1 = Some (r, st') \<Longrightarrow> applied (world st') = applied (world st1)"
  shows "applied (world st') = applied (world st)"
proof -
  obtain q st1 where q: "m st = Some (q, st1)" using assms(1) by (auto simp: thenE_def bind_eq_Some_conv)
  then show ?thesis using assms(1) assms(2) [OF q] assms(3) by (cases q) (auto simp: thenE_def)
qed

lemma setOptions_silent:
  assumes D: "reports_commits applied D R" and "setOptions D h opts st = Some (r, st')"
  shows "applied (world st') = applied (world st)"
proof -
  have s: "setOption D h n v st = Some (r, st') \<Longrightarrow> applied (world st') = applied (world st)"
    for n v st st' and r :: "'e cause + unit"
  proof (cases v)
    case (Some x)
    have "silent applied (driver_setTransactionOption D h n x)" using D unfolding reports_commits_def by blast
    then show "setOption D h n v st = Some (r, st') \<Longrightarrow> ?thesis" using Some call_silent by (simp add: setOption_def)
  qed (simp add: setOption_def succeed_def)
  show ?thesis
    by (rule thenE_silent [where applied = applied, OF assms(2) [unfolded setOptions_def]])
      (rule s, assumption | rule thenE_silent [where applied = applied], assumption)+
qed

lemma transaction_ends:
  fixes D :: "'w driver" and R :: "('e, 'w) runtime" and body :: "('e, 'a, 'w) body"
  assumes D: "reports_commits applied D R"
    and run: "withTransactionResult D R db defaults body options w = Some (r, t, w')"
  obtains (before) c where "r = Inl c" "applied w' = applied w"
  | (ran) h st r' st' where "attempt D R h (effectiveOptions defaults options) body 1 False [] st = Some (r', st')"
      "applied (world st) = applied w" "applied w' = applied (world st')"
      "r = r' \<or> (\<exists>c. r = Inl c \<and> singleFoundationDbFailure c = None)"
proof -
  let ?opts = "effectiveOptions defaults options"
  obtain q w1 where q: "driver_openTransaction D db w = (q, w1)" by fastforce
  have "silent applied (driver_openTransaction D db)" using D unfolding reports_commits_def by blast
  then have w1: "applied w1 = applied w" using q unfolding silent_def by (metis snd_conv)
  show thesis
  proof (cases q)
    case (Inl e)
    then show thesis using run q w1 by (intro before) (auto simp: withTransactionResult_def Let_def)
  next
    case (Inr h)
    let ?t = "\<lparr>attempts = 0, telemetry_maybeCommitted = False, mutationCount = 0, mutationBytes = 0\<rparr>"
    define st0 where "st0 = \<lparr>world = w1, telemetry = ?t, attemptTelemetry = \<lparr>attempt_mutationCount = 0,
      attempt_mutationBytes = 0\<rparr>, cancelPostCommitFutures = []\<rparr>"
    obtain r' st' where u: "thenE (setOptions D h ?opts) (\<lambda>_. attempt D R h ?opts body 1 False []) st0 = Some (r', st')"
      and w': "w' = snd (driver_closeTransaction D h (world st'))"
      and r: "r = (case fst (driver_closeTransaction D h (world st')) of
        Inl e \<Rightarrow> Inl (releaseDies R (case r' of Inl c \<Rightarrow> Some c | Inr _ \<Rightarrow> None) e) | Inr _ \<Rightarrow> r')"
      using run q Inr by (auto simp: withTransactionResult_def Let_def st0_def bind_eq_Some_conv split_beta
          cong del: sum.case_cong_weak)
    have "silent applied (driver_closeTransaction D h)" and dies: "\<And>c e. singleFoundationDbFailure (releaseDies R c e) = None"
      using D unfolding reports_commits_def by blast+
    then have a: "applied w' = applied (world st')" using w' unfolding silent_def by simp
    have r: "r = r' \<or> (\<exists>c. r = Inl c \<and> singleFoundationDbFailure c = None)"
      using r dies by (auto split: sum.splits)
    obtain v :: "'e cause + unit" and st1 where v: "setOptions D h ?opts st0 = Some (v, st1)"
      using u by (auto simp: thenE_def bind_eq_Some_conv)
    have st1: "applied (world st1) = applied w" using setOptions_silent [OF D v] w1 by (simp add: st0_def)
    show thesis
    proof (cases v)
      case (Inl c)
      then have "r' = Inl c" "st' = st1" using u v by (auto simp: thenE_def)
      then show thesis using before r a st1 by auto
    next
      case Inr
      then have "attempt D R h ?opts body 1 False [] st1 = Some (r', st')" using u v by (simp add: thenE_def)
      then show thesis using ran st1 a r by blast
    qed
  qed
qed

lemma thenE_returns: "\<exists>x. m st = Some x \<Longrightarrow> (\<And>y st. \<exists>x. f y st = Some x) \<Longrightarrow> \<exists>x. thenE m f st = Some x"
  by (auto simp: thenE_def split: sum.split)

lemma setOption_returns: "\<exists>x. setOption D h n v st = Some x"
  by (cases v) (simp_all add: setOption_def succeed_def call_def split_beta)

text \<open>C5. With \<open>retryOnMaybeCommitted\<close> off, a transaction is applied at most once, however many attempts it takes, and
  exactly once when it returns a result.\<close>

theorem commits_at_most_once:
  assumes "reports_commits applied D R" and "only_buffers applied D R body"
    and "retryOnMaybeCommitted (effectiveOptions defaults options) = Some False"
    and "withTransactionResult D R db defaults body options w = Some (r, t, w')"
  shows "applied w' \<le> applied w + 1 \<and> (\<forall>v. r = Inr v \<longrightarrow> applied w' = applied w + 1)"
proof (rule transaction_ends [OF assms(1,4)])
  fix h st r' st'
  assume "attempt D R h (effectiveOptions defaults options) body 1 False [] st = Some (r', st')"
    and "applied (world st) = applied w" "applied w' = applied (world st')"
      "r = r' \<or> (\<exists>c. r = Inl c \<and> singleFoundationDbFailure c = None)"
  with attempt_once [OF assms(1-3) this(1)] show ?thesis by (cases r') auto
qed simp

theorem commits_at_most_once_witness:
  "\<exists>e t. withTransactionResult (sampleDriver (Inr [])) sampleRuntime 0 (sampleOptions None None) sampleBody
      (sampleOptions None (Some False)) (0, [Conflicting, UnknownApplied], 5) = Some (Inl [FailedFdb e], t, (1, [], 4))
    \<and> fst (1 :: nat, [] :: outcome list, 4 :: nat) \<le> fst (0 :: nat, [Conflicting, UnknownApplied], 5 :: nat) + 1"
proof -
  have o: "retryOnMaybeCommitted (effectiveOptions (sampleOptions None None) (sampleOptions None (Some False))) = Some False"
    by (simp only: sample_options) (simp add: sampleOptions_def)
  from commits_at_most_once [OF sample_reports sample_buffers o sample_unknown] sample_unknown show ?thesis by blast
qed




text \<open>C39. When \<open>onError\<close> grants only so many retries, a transaction always ends.\<close>

theorem transactions_end:
  assumes "limits_retries budget D R" and "returns_within budget D R body"
  shows "\<exists>x. withTransactionResult D R db defaults body options w = Some x"
proof -
  obtain q w1 where q: "driver_openTransaction D db w = (q, w1)" by fastforce
  let ?opts = "effectiveOptions defaults options"
  have "\<exists>x. thenE (setOptions D h ?opts) (\<lambda>_. attempt D R h ?opts body 1 False []) st = Some x" for h st
    unfolding setOptions_def
    by (intro thenE_returns setOption_returns attempt_ends [OF assms])
  then have r: "\<exists>r st'. thenE (setOptions D h ?opts) (\<lambda>_. attempt D R h ?opts body 1 False []) st = Some (r, st')" for h st
    by (metis surj_pair)
  show ?thesis
  proof (cases q)
    case (Inl e)
    then show ?thesis using q by (simp add: withTransactionResult_def Let_def)
  next
    case (Inr h)
    obtain r st' where "thenE (setOptions D h ?opts) (\<lambda>_. attempt D R h ?opts body 1 False [])
        \<lparr>world = w1, telemetry = \<lparr>attempts = 0, telemetry_maybeCommitted = False, mutationCount = 0, mutationBytes = 0\<rparr>,
         attemptTelemetry = \<lparr>attempt_mutationCount = 0, attempt_mutationBytes = 0\<rparr>, cancelPostCommitFutures = []\<rparr> = Some (r, st')"
      using r by blast
    then show ?thesis using q Inr by (simp add: withTransactionResult_def Let_def split_beta)
  qed
qed

theorem transactions_end_witness:
  "\<exists>x. withTransactionResult (sampleDriver (Inr [])) sampleRuntime 0 (sampleOptions None None) sampleBody
      (sampleOptions None None) (0, [Conflicting, UnknownApplied], 1) = Some x"
  by (rule transactions_end [OF sample_limits sample_returns])

end
