(* ===== verification/Stored_Values.thy ===== *)
theory Stored_Values
  imports Store_Roots
begin

text \<open>
  Values that a store keeps in chunks under a path: what is at a path, and what a write or a removal changes.
  A path belongs to a section \<open>n\<close> of the store under \<open>p\<close>, and its rows are the keys of \<open>inRange p n r\<close>.
\<close>

text \<open>\<open>Number.MAX_SAFE_INTEGER\<close>.\<close>

definition maxSafeInteger :: int where
  "maxSafeInteger = 2 ^ 53 - 1"

definition valueAt :: "'s txn \<Rightarrow> 's \<Rightarrow> bytes \<Rightarrow> bytes option" where
  "valueAt T s b =
    (let rows = tx_getRange T s (keyRange (b @ [NIL]) (b @ [ESCAPE]) None False) in
     if rows = [] then None else Some (concat (map snd rows)))"

lemma readChunked_Inr: "readChunkedValue T s sub path = Inr v \<longleftrightarrow>
    list_all packable path \<and> v = valueAt T s (prefix_bytes sub @ encs False path)"
  by (auto simp: readChunkedValue_def chunkedValueRange_def bindR_eq_Inr subspace_range_Inr valueAt_def Let_def)

lemma K_path: "K p n r = p @ encs False (Str (js n) # r)"
  by (simp add: K_def)

lemma path_at: "prefix_bytes sub = K p n r \<Longrightarrow> prefix_bytes sub @ encs False path = K p n (r @ path)"
  by (simp add: K_def)

context fdb
begin

lemma valueAt_cong:
  "(\<And>k. inRange p n r k \<Longrightarrow> tx_get T s' k = tx_get T s k) \<Longrightarrow> valueAt T s' (K p n r) = valueAt T s (K p n r)"
  unfolding valueAt_def by (subst range_cong [where s' = s]) (auto simp: inRange_def)

lemma valueAt_None: "valueAt T s (K p n r) = None \<longleftrightarrow> (\<forall>k. inRange p n r k \<longrightarrow> tx_get T s k = None)"
proof -
  have "tx_getRange T s (keyRange (K p n r @ [NIL]) (K p n r @ [ESCAPE]) None False) = []
      \<longleftrightarrow> (\<forall>k. inRange p n r k \<longrightarrow> tx_get T s k = None)"
    unfolding set_empty [symmetric] range_rows inRange_def by (auto 4 3)
  then show ?thesis by (simp add: valueAt_def Let_def)
qed

lemma hasChunked_Inr:
  assumes "prefix_bytes sub @ encs False path = K p n r"
  shows "hasChunkedValue T s sub path = Inr b \<longleftrightarrow> list_all packable path \<and> b = (valueAt T s (K p n r) \<noteq> None)"
  by (auto simp: has_iff_read bindR_eq_Inr readChunked_Inr assms)

lemma write_Inr:
  assumes "writeChunkedValue T sub path v s = Inr s'" and "list_all constructed path"
    and at: "prefix_bytes sub @ encs False path = K p n r"
  shows "tuple_ok path" and "valueAt T s' (K p n r) = Some v"
    and "\<not> inRange p n r k \<Longrightarrow> tx_get T s' k = tx_get T s k"
proof -
  show ok: "tuple_ok path" using writeChunkedValue_Inr [OF assms(1,2)] by simp
  from read_write [OF assms(1,2)] show "valueAt T s' (K p n r) = Some v" by (simp add: readChunked_Inr at)
  show "\<not> inRange p n r k \<Longrightarrow> tx_get T s' k = tx_get T s k"
    using at by (subst write_get [OF assms(1,2)]) (auto simp: inRange_def append_assoc [symmetric] simp del: append_assoc)
qed

lemma clear_Inr:
  assumes "clearChunkedValue T sub path s = Inr s'" and at: "prefix_bytes sub @ encs False path = K p n r"
  shows "valueAt T s' (K p n r) = None" and "\<not> inRange p n r k \<Longrightarrow> tx_get T s' k = tx_get T s k"
proof -
  have get: "tx_get T s' k = (if inRange p n r k then None else tx_get T s k)" for k
    using assms by (auto simp: clearChunkedValue_def chunkedValueRange_def bindR_eq_Inr subspace_range_Inr get_clearRange
        inRange_def append_assoc [symmetric] simp del: append_assoc)
  show "valueAt T s' (K p n r) = None" by (simp add: valueAt_None get)
  show "\<not> inRange p n r k \<Longrightarrow> tx_get T s' k = tx_get T s k" by (simp add: get)
qed

text \<open>A change under one path leaves the values at other paths alone.\<close>

lemma valueAt_other:
  assumes "\<And>k. \<not> inRange p n r k \<Longrightarrow> tx_get T s' k = tx_get T s k" and "tuple_ok r" and "tuple_ok r'"
    and "n = n' \<Longrightarrow> \<not> prefix r r' \<and> \<not> prefix r' r"
  shows "valueAt T s' (K p n' r') = valueAt T s (K p n' r')"
  by (rule valueAt_cong) (use assms inRange_disjoint in blast)

lemma valueAt_set: "\<not> inRange p n r k \<Longrightarrow> valueAt T (tx_set T k v s) (K p n r) = valueAt T s (K p n r)"
  by (rule valueAt_cong) (auto simp: get_set)

lemma valueAt_clear: "\<not> inRange p n r k \<Longrightarrow> valueAt T (tx_clear T k s) (K p n r) = valueAt T s (K p n r)"
  by (rule valueAt_cong) (auto simp: get_clear)

lemma valueAt_add: "\<not> inRange p n r k \<Longrightarrow> valueAt T (tx_atomicOp T k d Add s) (K p n r) = valueAt T s (K p n r)"
  by (rule valueAt_cong) (auto simp: get_add)

text \<open>Only finitely many paths of a section have a value.\<close>

lemma finite_values:
  assumes ok: "\<And>r. r \<in> A \<Longrightarrow> tuple_ok r \<and> prefix base r"
    and free: "\<And>r r'. r \<in> A \<Longrightarrow> r' \<in> A \<Longrightarrow> prefix r r' \<Longrightarrow> r = r'"
  shows "finite {r \<in> A. valueAt T s (K p n r) \<noteq> None}"
proof -
  have disjoint: "r = r'" if "r \<in> A" "r' \<in> A" "inRange p n r k" "inRange p n r' k" for r r' k
    using inRange_disjoint [OF that(3,4)] ok free that(1,2) by metis
  have nested: "inRange p n base k" if r: "r \<in> A" "inRange p n r k" for r k
  proof -
    obtain u where u: "r = base @ u" using ok r(1) by (auto simp: prefix_def)
    have "tuple_ok u" using ok [OF r(1)] u by simp
    then show ?thesis using inRange_nested [of p n base u k] r(2) u by simp
  qed
  let ?rows = "set (tx_getRange T s (keyRange (K p n base @ [NIL]) (K p n base @ [ESCAPE]) None False))"
  let ?paths = "\<lambda>x. {r \<in> A. inRange p n r (fst x)}"
  have "finite (?paths x)" for x
  proof (cases "\<exists>r. r \<in> ?paths x")
    case True
    then obtain r where "r \<in> ?paths x" ..
    then have "?paths x = {r}" using disjoint by blast
    then show ?thesis by (simp only: finite.intros)
  next
    case False
    then have "?paths x = {}" by blast
    then show ?thesis by (simp only: finite.intros)
  qed
  then have fin: "finite (\<Union>x \<in> ?rows. ?paths x)" by blast
  have "{r \<in> A. valueAt T s (K p n r) \<noteq> None} \<subseteq> (\<Union>x \<in> ?rows. ?paths x)"
  proof
    fix r assume r: "r \<in> {r \<in> A. valueAt T s (K p n r) \<noteq> None}"
    then obtain k v where k: "inRange p n r k" "tx_get T s k = Some v" by (auto simp: valueAt_None)
    have "inRange p n base k" using nested r k(1) by blast
    then have "(k, v) \<in> ?rows" unfolding range_rows inRange_def using k(2) by blast
    moreover have "r \<in> ?paths (k, v)" using r k(1) by simp
    ultimately show "r \<in> (\<Union>x \<in> ?rows. ?paths x)" by blast
  qed
  then show ?thesis using fin by (rule finite_subset)
qed

end

end
