(* ===== verification/Key_Value_Store.thy ===== *)
theory Key_Value_Store
  imports Stored_Values
begin

text \<open>
  The key-value store, src/src/persistence/key-value-store.ts: values under the section \<open>entries\<close>, each with a
  byte for its type, and a counter of the keys under \<open>size\<close>. The bodies of the transactions take the
  operations of the transaction and the function that opens the directory; \<open>Base64.encode\<close> is a library
  function and a parameter. The message of an error follows from its method and key and is left out.
\<close>

section \<open>Values\<close>

datatype kv_value = KvString js_string | KvBytes bytes

record kv_error =
  error_method :: string
  error_key :: "js_string option"
  error_cause :: store_error

definition valueTypeString :: byte where "valueTypeString = 0"
definition valueTypeUint8Array :: byte where "valueTypeUint8Array = 1"

record kv_keys =
  size_key :: bytes
  entries_of :: subspace

text \<open>\<open>setBigInt64\<close> writes the value modulo 2^64, the low byte first.\<close>

definition counterDelta :: "int \<Rightarrow> bytes" where
  "counterDelta v = rev (natBE 8 (nat (v mod 2 ^ 64)))"

definition incrementSize :: bytes where "incrementSize = counterDelta 1"
definition decrementSize :: bytes where "decrementSize = counterDelta (-1)"
definition emptySize :: bytes where "emptySize = counterDelta 0"

definition storeError :: "string \<Rightarrow> js_string option \<Rightarrow> store_error + 'a \<Rightarrow> kv_error + 'a" where
  "storeError method key m = (case m of
     Inl cause \<Rightarrow> Inl \<lparr>error_method = method, error_key = key, error_cause = cause\<rparr> | Inr x \<Rightarrow> Inr x)"

definition kv_encode :: "kv_value \<Rightarrow> bytes" where
  "kv_encode v = (case v of
     KvString s \<Rightarrow> valueTypeString # text_encode s
   | KvBytes b \<Rightarrow> valueTypeUint8Array # b)"

definition invalidType :: "store_error + 'a" where
  "invalidType = Inl (StoreFailure ''invalid KeyValueStore value type'')"

text \<open>A byte past the end of an array is undefined and equals neither type.\<close>

definition kv_decodeString :: "(bytes \<Rightarrow> js_string) \<Rightarrow> bytes \<Rightarrow> store_error + js_string" where
  "kv_decodeString base64 v = (case v of
     [] \<Rightarrow> invalidType
   | t # payload \<Rightarrow>
       if t = valueTypeString then Inr (decodeText payload)
       else if t = valueTypeUint8Array then Inr (base64 payload)
       else invalidType)"

definition kv_decodeBytes :: "bytes \<Rightarrow> store_error + bytes" where
  "kv_decodeBytes v = (case v of
     [] \<Rightarrow> invalidType
   | t # payload \<Rightarrow> if t \<noteq> valueTypeString \<and> t \<noteq> valueTypeUint8Array then invalidType else Inr payload)"

text \<open>\<open>getBigInt64\<close> reads two's complement.\<close>

definition signed64 :: "nat \<Rightarrow> int" where
  "signed64 n = (if n < 2 ^ 63 then int n else int n - 2 ^ 64)"

definition decodeSize :: "bytes option \<Rightarrow> store_error + int" where
  "decodeSize v = (case v of
     None \<Rightarrow> Inr 0
   | Some b \<Rightarrow>
       if length b \<noteq> 8 then Inl (StoreFailure ''invalid KeyValueStore size metadata'')
       else let count = signed64 (leNat b) in
         if count < 0 \<or> maxSafeInteger < count then Inl (StoreFailure ''KeyValueStore size metadata is out of range'')
         else Inr count)"

section \<open>makeKeyValueStore\<close>

definition kv_keys_of :: "('s \<Rightarrow> store_error + subspace \<times> 's) \<Rightarrow> 's \<Rightarrow> store_error + kv_keys \<times> 's" where
  "kv_keys_of rootDir s =
    bindR (rootDir s) (\<lambda>(directory, s).
    bindR (liftKey (subspace_pack directory [Str (js ''size'')])) (\<lambda>size.
    bindR (liftKey (subspace directory [Str (js ''entries'')])) (\<lambda>entries.
      Inr (\<lparr>size_key = size, entries_of = entries\<rparr>, s))))"

definition kv_read ::
    "'s txn \<Rightarrow> ('s \<Rightarrow> store_error + subspace \<times> 's) \<Rightarrow> js_string \<Rightarrow> 's \<Rightarrow> store_error + bytes option \<times> 's" where
  "kv_read T rootDir key s =
    bindR (kv_keys_of rootDir s) (\<lambda>(storeKeys, s).
    bindR (liftKey (readChunkedValue T s (entries_of storeKeys) [Str key])) (\<lambda>v. Inr (v, s)))"

definition kv_set ::
    "'s txn \<Rightarrow> ('s \<Rightarrow> store_error + subspace \<times> 's) \<Rightarrow> js_string \<Rightarrow> kv_value \<Rightarrow> 's \<Rightarrow> kv_error + 's" where
  "kv_set T rootDir key v s = storeError ''set'' (Some key)
    (bindR (kv_keys_of rootDir s) (\<lambda>(storeKeys, s).
     bindR (liftKey (hasChunkedValue T s (entries_of storeKeys) [Str key])) (\<lambda>exists.
     let s = (if \<not> exists then tx_atomicOp T (size_key storeKeys) incrementSize Add s else s) in
     liftKey (writeChunkedValue T (entries_of storeKeys) [Str key] (kv_encode v) s))))"

text \<open>\<open>modify\<close> for a type of values with its decoder and constructor; nothing is written when the key is absent.\<close>

definition kv_modifyWith ::
    "'s txn \<Rightarrow> ('s \<Rightarrow> store_error + subspace \<times> 's) \<Rightarrow> string \<Rightarrow> js_string \<Rightarrow> (bytes \<Rightarrow> store_error + 'a) \<Rightarrow> ('a \<Rightarrow> kv_value)
      \<Rightarrow> ('a \<Rightarrow> 'a) \<Rightarrow> 's \<Rightarrow> kv_error + 'a option \<times> 's" where
  "kv_modifyWith T rootDir method key decode wrap f s = storeError method (Some key)
    (bindR (kv_keys_of rootDir s) (\<lambda>(storeKeys, s).
     bindR (liftKey (readChunkedValue T s (entries_of storeKeys) [Str key])) (\<lambda>encoded.
     case encoded of
       None \<Rightarrow> Inr (None, s)
     | Some b \<Rightarrow>
         bindR (decode b) (\<lambda>v.
         let updated = f v in
         bindR (liftKey (writeChunkedValue T (entries_of storeKeys) [Str key] (kv_encode (wrap updated)) s)) (\<lambda>s.
           Inr (Some updated, s))))))"

definition kv_size :: "'s txn \<Rightarrow> ('s \<Rightarrow> store_error + subspace \<times> 's) \<Rightarrow> 's \<Rightarrow> kv_error + int \<times> 's" where
  "kv_size T rootDir s = storeError ''size'' None
    (bindR (kv_keys_of rootDir s) (\<lambda>(storeKeys, s).
     bindR (decodeSize (tx_get T s (size_key storeKeys))) (\<lambda>n. Inr (n, s))))"

definition kv_get ::
    "'s txn \<Rightarrow> (bytes \<Rightarrow> js_string) \<Rightarrow> ('s \<Rightarrow> store_error + subspace \<times> 's) \<Rightarrow> js_string \<Rightarrow> 's
      \<Rightarrow> kv_error + js_string option \<times> 's" where
  "kv_get T base64 rootDir key s = storeError ''get'' (Some key)
    (bindR (kv_read T rootDir key s) (\<lambda>(v, s). case v of
       None \<Rightarrow> Inr (None, s)
     | Some b \<Rightarrow> bindR (kv_decodeString base64 b) (\<lambda>x. Inr (Some x, s))))"

definition kv_getUint8Array ::
    "'s txn \<Rightarrow> ('s \<Rightarrow> store_error + subspace \<times> 's) \<Rightarrow> js_string \<Rightarrow> 's \<Rightarrow> kv_error + bytes option \<times> 's" where
  "kv_getUint8Array T rootDir key s = storeError ''getUint8Array'' (Some key)
    (bindR (kv_read T rootDir key s) (\<lambda>(v, s). case v of
       None \<Rightarrow> Inr (None, s)
     | Some b \<Rightarrow> bindR (kv_decodeBytes b) (\<lambda>x. Inr (Some x, s))))"

definition kv_remove :: "'s txn \<Rightarrow> ('s \<Rightarrow> store_error + subspace \<times> 's) \<Rightarrow> js_string \<Rightarrow> 's \<Rightarrow> kv_error + 's" where
  "kv_remove T rootDir key s = storeError ''remove'' (Some key)
    (bindR (kv_keys_of rootDir s) (\<lambda>(storeKeys, s).
     bindR (liftKey (hasChunkedValue T s (entries_of storeKeys) [Str key])) (\<lambda>exists.
     if exists then
       bindR (liftKey (clearChunkedValue T (entries_of storeKeys) [Str key] s)) (\<lambda>s.
         Inr (tx_atomicOp T (size_key storeKeys) decrementSize Add s))
     else Inr s)))"

definition kv_clear :: "'s txn \<Rightarrow> ('s \<Rightarrow> store_error + subspace \<times> 's) \<Rightarrow> 's \<Rightarrow> kv_error + 's" where
  "kv_clear T rootDir s = storeError ''clear'' None
    (bindR (kv_keys_of rootDir s) (\<lambda>(storeKeys, s).
     bindR (liftKey (subspace_range (entries_of storeKeys) [])) (\<lambda>(b, e).
       Inr (tx_set T (size_key storeKeys) emptySize (tx_clearRange T b e s)))))"

definition kv_has :: "'s txn \<Rightarrow> ('s \<Rightarrow> store_error + subspace \<times> 's) \<Rightarrow> js_string \<Rightarrow> 's \<Rightarrow> kv_error + bool \<times> 's" where
  "kv_has T rootDir key s = storeError ''has'' (Some key)
    (bindR (kv_keys_of rootDir s) (\<lambda>(storeKeys, s).
     bindR (liftKey (hasChunkedValue T s (entries_of storeKeys) [Str key])) (\<lambda>found. Inr (found, s))))"

definition kv_isEmpty :: "'s txn \<Rightarrow> ('s \<Rightarrow> store_error + subspace \<times> 's) \<Rightarrow> 's \<Rightarrow> kv_error + bool \<times> 's" where
  "kv_isEmpty T rootDir s = bindR (kv_size T rootDir s) (\<lambda>(count, s). Inr (count = 0, s))"

definition kv_modify ::
    "'s txn \<Rightarrow> (bytes \<Rightarrow> js_string) \<Rightarrow> ('s \<Rightarrow> store_error + subspace \<times> 's) \<Rightarrow> js_string \<Rightarrow> (js_string \<Rightarrow> js_string) \<Rightarrow> 's
      \<Rightarrow> kv_error + js_string option \<times> 's" where
  "kv_modify T base64 rootDir key f s = kv_modifyWith T rootDir ''modify'' key (kv_decodeString base64) KvString f s"

definition kv_modifyUint8Array ::
    "'s txn \<Rightarrow> ('s \<Rightarrow> store_error + subspace \<times> 's) \<Rightarrow> js_string \<Rightarrow> (bytes \<Rightarrow> bytes) \<Rightarrow> 's
      \<Rightarrow> kv_error + bytes option \<times> 's" where
  "kv_modifyUint8Array T rootDir key f s = kv_modifyWith T rootDir ''modifyUint8Array'' key kv_decodeBytes KvBytes f s"

end
