(* ===== verification/Key_Value_Properties.thy ===== *)
theory Key_Value_Properties
  imports Key_Value_Store Stored_Values Sample_Codecs
begin

text \<open>
  The key-value store is a finite map: whatever the sequence of operations, each key reads as the map says and
  the counter is the number of keys.
\<close>

section \<open>The counter\<close>

lemma natBE_mod: "natBE k (v mod 256 ^ k) = natBE k v"
  by (rule beNat_inj) (simp_all add: beNat_natBE_mod)

lemma leNat_counter: "leNat (counterDelta v) = nat (v mod 2 ^ 64)"
proof -
  have "nat (v mod 2 ^ 64) < 256 ^ 8" by simp
  then show ?thesis by (simp add: leNat_def counterDelta_def beNat_natBE del: natBE.simps)
qed

lemma length_counter [simp]: "length (counterDelta v) = 8"
  by (simp add: counterDelta_def del: natBE.simps)

lemma addLE_counter: "addLE (Some (counterDelta n)) (counterDelta d) = counterDelta (n + d)"
proof -
  have "(nat (n mod 2 ^ 64) + nat (d mod 2 ^ 64)) mod 256 ^ 8 = nat ((n + d) mod 2 ^ 64)"
    by (simp add: nat_add_distrib [symmetric] nat_mod_distrib [symmetric, where y = "2 ^ 64", simplified] mod_add_eq)
  then have "natBE 8 (nat (n mod 2 ^ 64) + nat (d mod 2 ^ 64)) = natBE 8 (nat ((n + d) mod 2 ^ 64))"
    by (metis natBE_mod)
  then show ?thesis by (simp add: addLE_def Let_def leNat_counter) (simp add: counterDelta_def)
qed

lemma addLE_first: "addLE None (counterDelta d) = counterDelta d"
proof -
  have "leNat (replicate 8 0) = 0" by (simp add: leNat_def beNat_def eval_nat_numeral)
  then show ?thesis by (simp add: addLE_def Let_def leNat_counter) (simp add: counterDelta_def)
qed

lemma decodeSize_counter:
  assumes "int n \<le> maxSafeInteger"
  shows "decodeSize (Some (counterDelta (int n))) = Inr (int n)"
proof -
  have n: "int n < 2 ^ 53" using assms by (simp add: maxSafeInteger_def)
  then have "int n mod 2 ^ 64 = int n" by simp
  then have "leNat (counterDelta (int n)) = n" by (simp only: leNat_counter nat_int)
  moreover have "n < 2 ^ 63" using n by simp
  ultimately show ?thesis using assms by (simp add: decodeSize_def signed64_def)
qed

section \<open>Text that survives storage\<close>

lemma length_units: "length (concat (map units (scalars x))) = length x"
  by (induction x rule: scalars.induct) (auto simp: units_def unat_u16)

lemma units_wellFormed: "concat (map units (scalars x)) = x \<Longrightarrow> wellFormed x"
proof (induction x rule: scalars.induct)
  case (2 c)
  then show ?case by (auto simp: units_def isHigh_def isLow_def split: if_splits)
next
  case (3 c d cs)
  have "units (0x10000 + n) = [of_nat (0xD800 + n div 0x400), of_nat (0xDC00 + n mod 0x400)]" for n
    by (simp add: units_def)
  moreover have "units 0xFFFD = [0xFFFD]" "units (unat c) = [c]" using unat_u16 [of c] by (simp_all add: units_def)
  moreover have "\<not> isHigh 0xFFFD" "\<not> isLow 0xFFFD" by (simp_all add: isHigh_def isLow_def)
  ultimately show ?case using 3 by (auto simp: add.assoc split: if_splits)
qed simp

lemma lossy_text: "utf8_lossy (map unat (text_encode x)) = scalars x"
proof -
  have "map unat (text_encode x) = concat (map utf8_bytes (scalars x))"
    unfolding text_encode_def by (rule map_unat_of_nat) (rule text_bytes_bound)
  then show ?thesis by (simp add: utf8_lossy_concat scalars_scalar)
qed

lemma first_scalar:
  obtains v vs where "scalars (c # y) = v # vs" "v = 0xFEFF \<longleftrightarrow> c = 0xFEFF"
proof -
  have "unat c = 0xFEFF \<longleftrightarrow> c = 0xFEFF" by (simp add: word_unat_eq_iff)
  then have "scalars (c # y) \<noteq> [] \<and> (hd (scalars (c # y)) = 0xFEFF \<longleftrightarrow> c = 0xFEFF)"
    by (cases y) (auto simp: isHigh_def isLow_def)
  then show thesis using that by (cases "scalars (c # y)") auto
qed

lemma of_nat_mark: "b < 256 \<Longrightarrow> c < 256 \<Longrightarrow> (of_nat b :: byte) = of_nat c \<Longrightarrow> b = c"
  using of_nat_eq_byte by blast

lemma utf8_mark:
  assumes "scalar v" and t: "take 3 (map of_nat (utf8_bytes v) @ r) = [of_nat 0xEF, of_nat 0xBB, of_nat 0xBF :: byte]"
  shows "v = 0xFEFF"
proof -
  have "v < 0x110000" using assms(1) by (auto simp: scalar_def)
  then have b: "\<And>x. x \<in> set (utf8_bytes v) \<Longrightarrow> x < 256" by (rule utf8_bytes_bound)
  have "utf8_bytes v \<noteq> []" by (simp add: utf8_bytes_def)
  then obtain h bs where u: "utf8_bytes v = h # bs" by (cases "utf8_bytes v") auto
  have h: "h = 0xEF" using t b [of h] by (intro of_nat_mark) (simp_all add: u)
  then have v: "0x800 \<le> v" "v < 0x10000" using u by (auto simp: utf8_bytes_def split: if_splits)
  then have u: "utf8_bytes v = [0xE0 + v div 0x1000, 0x80 + v div 0x40 mod 0x40, 0x80 + v mod 0x40]"
    by (simp add: utf8_bytes_def)
  obtain x y z where xyz: "x = 0xE0 + v div 0x1000" "y = 0x80 + v div 0x40 mod 0x40" "z = 0x80 + v mod 0x40" by blast
  have less: "x < 256" "y < 256" "z < 256" using b by (simp_all add: u xyz)
  have "take 3 ([of_nat x, of_nat y, of_nat z] @ r) = [of_nat x, of_nat y, of_nat z :: byte]" by simp
  then have e: "of_nat x = (of_nat 0xEF :: byte)" "of_nat y = (of_nat 0xBB :: byte)" "of_nat z = (of_nat 0xBF :: byte)"
    using t unfolding u xyz [symmetric] list.map by (metis list.inject)+
  have "x = 0xEF" by (rule of_nat_mark [OF less(1) _ e(1)]) simp
  moreover have "y = 0xBB" by (rule of_nat_mark [OF less(2) _ e(2)]) simp
  moreover have "z = 0xBF" by (rule of_nat_mark [OF less(3) _ e(3)]) simp
  ultimately have "v div 0x40 div 0x40 = 0xF" "v div 0x40 mod 0x40 = 0x3B" "v mod 0x40 = 0x3F"
    using xyz by (simp_all add: div_mult2_eq [symmetric])
  then show ?thesis using div_mult_mod_eq [of "v div 0x40" "0x40"] div_mult_mod_eq [of v "0x40"] by simp
qed

lemma mark_scalars: "scalars (0xFEFF # r) = 0xFEFF # scalars r"
  by (cases r) (auto simp: isHigh_def isLow_def)

lemma text_mark: "take 3 (text_encode x) = [0xEF, 0xBB, 0xBF] \<longleftrightarrow> (\<exists>r. x = 0xFEFF # r)"
proof
  assume mark: "take 3 (text_encode x) = [0xEF, 0xBB, 0xBF]"
  then obtain c y where x: "x = c # y" by (cases x) (auto simp: text_encode_def)
  obtain v vs where v: "scalars x = v # vs" "v = 0xFEFF \<longleftrightarrow> c = 0xFEFF" using first_scalar x by metis
  have "scalar v" using scalars_scalar [of v x] v(1) by simp
  moreover have "take 3 (map of_nat (utf8_bytes v) @ map of_nat (concat (map utf8_bytes vs)))
      = [of_nat 0xEF, of_nat 0xBB, of_nat 0xBF :: byte]"
    using mark v(1) by (simp add: text_encode_def)
  ultimately have "v = 0xFEFF" by (rule utf8_mark)
  with x v(2) show "\<exists>r. x = 0xFEFF # r" by simp
next
  assume "\<exists>r. x = 0xFEFF # r"
  then show "take 3 (text_encode x) = [0xEF, 0xBB, 0xBF]" by (auto simp: text_encode_def mark_scalars utf8_bytes_def)
qed

lemma decodeText_same:
  "decodeText (text_encode x) = x \<longleftrightarrow> wellFormed x \<and> (\<forall>r. x \<noteq> 0xFEFF # r)"
proof (cases "\<exists>r. x = 0xFEFF # r")
  case True
  then obtain r where r: "x = 0xFEFF # r" ..
  have "text_encode x = [0xEF, 0xBB, 0xBF] @ text_encode r" by (simp add: r text_encode_def mark_scalars utf8_bytes_def)
  then have "length (decodeText (text_encode x)) = length r"
    by (simp add: decodeText_def lossy_text length_units)
  then show ?thesis using r by (metis length_Cons n_not_Suc_n)
next
  case False
  then have "decodeText (text_encode x) = concat (map units (scalars x))"
    by (simp add: decodeText_def text_mark lossy_text)
  then show ?thesis using False units_scalars units_wellFormed by metis
qed

section \<open>The map\<close>

datatype kv_op =
    PutOp js_string kv_value
  | RemoveOp js_string
  | ClearOp
  | ModifyOp js_string "js_string \<Rightarrow> js_string"
  | ModifyBytesOp js_string "bytes \<Rightarrow> bytes"

text \<open>What a value reads as: text that passed through UTF-8, or the bytes.\<close>

definition stringOf :: "(bytes \<Rightarrow> js_string) \<Rightarrow> kv_value \<Rightarrow> js_string" where
  "stringOf base64 v = (case v of KvString x \<Rightarrow> decodeText (text_encode x) | KvBytes b \<Rightarrow> base64 b)"

definition bytesOf :: "kv_value \<Rightarrow> bytes" where
  "bytesOf v = (case v of KvString x \<Rightarrow> text_encode x | KvBytes b \<Rightarrow> b)"

definition kv_apply :: "(bytes \<Rightarrow> js_string) \<Rightarrow> kv_op \<Rightarrow> (js_string \<rightharpoonup> kv_value) \<Rightarrow> (js_string \<rightharpoonup> kv_value)" where
  "kv_apply base64 op m = (case op of
     PutOp key v \<Rightarrow> m(key \<mapsto> v)
   | RemoveOp key \<Rightarrow> m(key := None)
   | ClearOp \<Rightarrow> (\<lambda>_. None)
   | ModifyOp key f \<Rightarrow> m(key := map_option (\<lambda>v. KvString (f (stringOf base64 v))) (m key))
   | ModifyBytesOp key f \<Rightarrow> m(key := map_option (\<lambda>v. KvBytes (f (bytesOf v))) (m key)))"

definition kv_do ::
    "'s txn \<Rightarrow> (bytes \<Rightarrow> js_string) \<Rightarrow> ('s \<Rightarrow> store_error + subspace \<times> 's) \<Rightarrow> kv_op \<Rightarrow> 's \<Rightarrow> kv_error + 's" where
  "kv_do T base64 rootDir op s = (case op of
     PutOp key v \<Rightarrow> kv_set T rootDir key v s
   | RemoveOp key \<Rightarrow> kv_remove T rootDir key s
   | ClearOp \<Rightarrow> kv_clear T rootDir s
   | ModifyOp key f \<Rightarrow> bindR (kv_modify T base64 rootDir key f s) (\<lambda>(_, s). Inr s)
   | ModifyBytesOp key f \<Rightarrow> bindR (kv_modifyUint8Array T rootDir key f s) (\<lambda>(_, s). Inr s))"

definition kv_values :: "'s txn \<Rightarrow> bytes \<Rightarrow> 's \<Rightarrow> js_string \<Rightarrow> bytes option" where
  "kv_values T p s key = (if wellFormed key then valueAt T s (K p ''entries'' [Str key]) else None)"

definition sizeAt :: "'s txn \<Rightarrow> bytes \<Rightarrow> 's \<Rightarrow> bytes option" where
  "sizeAt T p s = tx_get T s (K p ''size'' [])"

definition counts :: "bytes option \<Rightarrow> nat \<Rightarrow> bool" where
  "counts v n \<longleftrightarrow> v = Some (counterDelta (int n)) \<or> v = None \<and> n = 0"

definition kv_refines :: "'s txn \<Rightarrow> bytes \<Rightarrow> 's \<Rightarrow> (js_string \<rightharpoonup> kv_value) \<Rightarrow> bool" where
  "kv_refines T p s m \<longleftrightarrow> kv_values T p s = map_option kv_encode \<circ> m \<and> counts (sizeAt T p s) (card (dom m))"

lemma storeError_Inr [simp]: "storeError method key x = Inr y \<longleftrightarrow> x = Inr y"
  by (cases x) (auto simp: storeError_def)

lemma kv_decode_encode [simp]:
  "kv_decodeString base64 (kv_encode v) = Inr (stringOf base64 v)" "kv_decodeBytes (kv_encode v) = Inr (bytesOf v)"
  by (simp_all add: kv_decodeString_def kv_decodeBytes_def kv_encode_def stringOf_def bytesOf_def valueTypeString_def
      valueTypeUint8Array_def split: kv_value.split)

lemma counts_first: "counts None 0"
  by (simp add: counts_def)

lemma counts_increment: "counts v n \<Longrightarrow> counts (Some (addLE v incrementSize)) (Suc n)"
  by (auto simp: counts_def incrementSize_def addLE_counter addLE_first add.commute)

lemma counts_decrement: "counts v (Suc n) \<Longrightarrow> counts (Some (addLE v decrementSize)) n"
  by (auto simp: counts_def decrementSize_def addLE_counter)

lemma decode_counts: "counts v n \<Longrightarrow> int n \<le> maxSafeInteger \<Longrightarrow> decodeSize v = Inr (int n)"
  using decodeSize_counter [of n] by (auto simp: counts_def decodeSize_def)

lemma kv_keys_at:
  assumes "opensRoot T rootDir p" and "kv_keys_of rootDir s = Inr (storeKeys, s')"
  shows "size_key storeKeys = K p ''size'' []" and "prefix_bytes (entries_of storeKeys) = K p ''entries'' []"
    and "prefix p k \<Longrightarrow> tx_get T s' k = tx_get T s k"
  using assms
  by (auto simp: kv_keys_of_def opensRoot_def bindR_eq_Inr subspace_pack_Inr K_path [symmetric] simp del: encs_simps
      dest!: child_at)

lemma entry_path: "prefix_bytes sub = K p ''entries'' [] \<Longrightarrow>
    prefix_bytes sub @ encs False [Str key] = K p ''entries'' [Str key]"
  by (simp add: K_def)

lemma same_counts: "dom m' = dom m \<Longrightarrow> counts v (card (dom m)) \<Longrightarrow> counts v (card (dom m'))"
  by simp

context fdb
begin

lemma kv_refines_dom: "kv_refines T p s m \<Longrightarrow> dom m = dom (kv_values T p s)"
  by (auto simp: kv_refines_def)

lemma kv_finite: "finite (dom (kv_values T p s))"
proof -
  have "finite {r \<in> {[Str key] | key. wellFormed key}. valueAt T s (K p ''entries'' r) \<noteq> None}"
    by (rule finite_values [where base = "[]"]) auto
  then have "finite ((\<lambda>key. [Str key]) -` {r \<in> {[Str key] | key. wellFormed key}. valueAt T s (K p ''entries'' r) \<noteq> None})"
    by (rule finite_vimageI) (simp add: inj_def)
  then show ?thesis by (rule finite_subset [rotated]) (auto simp: kv_values_def split: if_splits)
qed

lemma kv_opened:
  assumes "\<And>k. prefix p k \<Longrightarrow> tx_get T s' k = tx_get T s k"
  shows "kv_values T p s' = kv_values T p s" and "sizeAt T p s' = sizeAt T p s"
proof -
  have "valueAt T s' (K p n r) = valueAt T s (K p n r)" for n r
    by (rule valueAt_cong) (use assms inRange_prefix in blast)
  then show "kv_values T p s' = kv_values T p s" by (simp add: kv_values_def fun_eq_iff)
  show "sizeAt T p s' = sizeAt T p s" using assms by (simp add: sizeAt_def)
qed

text \<open>A write or removal under \<open>key\<close>.\<close>

lemma kv_changed:
  assumes "\<And>k. \<not> inRange p ''entries'' [Str key] k \<Longrightarrow> tx_get T s' k = tx_get T s k" and "wellFormed key"
  shows "kv_values T p s' = (kv_values T p s)(key := valueAt T s' (K p ''entries'' [Str key]))"
    and "sizeAt T p s' = sizeAt T p s"
proof -
  have "valueAt T s' (K p ''entries'' [Str k]) = valueAt T s (K p ''entries'' [Str k])" if "k \<noteq> key" "wellFormed k" for k
    by (rule valueAt_other [OF assms(1)]) (use that assms(2) in auto)
  then show "kv_values T p s' = (kv_values T p s)(key := valueAt T s' (K p ''entries'' [Str key]))"
    using assms(2) by (auto simp: kv_values_def fun_eq_iff)
  show "sizeAt T p s' = sizeAt T p s" using assms by (simp add: sizeAt_def)
qed

lemma kv_counted:
  "kv_values T p (tx_atomicOp T (K p ''size'' []) d Add s) = kv_values T p s"
  "sizeAt T p (tx_atomicOp T (K p ''size'' []) d Add s) = Some (addLE (sizeAt T p s) d)"
  by (auto simp: kv_values_def fun_eq_iff valueAt_add sizeAt_def get_add)

text \<open>Each operation does to the store what \<open>kv_apply\<close> does to the map.\<close>

lemma kv_set_refines:
  assumes o: "opensRoot T rootDir p" and m: "kv_refines T p s m" and r: "kv_set T rootDir key v s = Inr s'"
  shows "kv_refines T p s' (m(key \<mapsto> v))"
proof -
  obtain sk s1 found s2 where k: "kv_keys_of rootDir s = Inr (sk, s1)"
    and f: "hasChunkedValue T s1 (entries_of sk) [Str key] = Inr found"
    and s2: "s2 = (if \<not> found then tx_atomicOp T (size_key sk) incrementSize Add s1 else s1)"
    and w: "writeChunkedValue T (entries_of sk) [Str key] (kv_encode v) s2 = Inr s'"
    using r by (auto simp: kv_set_def bindR_eq_Inr Let_def)
  note kk = kv_keys_at [OF o k]
  note o1 = kv_opened [OF kk(3), simplified]
  note wr = write_Inr [OF w _ entry_path [OF kk(2)]]
  have wf: "wellFormed key" using wr(1) by simp
  have found: "found \<longleftrightarrow> key \<in> dom m"
    using f m wf by (auto simp: hasChunked_Inr [OF entry_path [OF kk(2)]] kv_refines_dom [OF m] kv_values_def o1 [symmetric])
  have ch: "kv_values T p s' = (kv_values T p s2)(key \<mapsto> kv_encode v)" "sizeAt T p s' = sizeAt T p s2"
    using kv_changed [OF wr(3) wf] wr(2) by simp_all
  have v2: "kv_values T p s2 = kv_values T p s" by (simp add: s2 kk(1) kv_counted o1)
  have "counts (sizeAt T p s2) (card (dom (m(key \<mapsto> v))))"
  proof (cases found)
    case True
    then show ?thesis using m found by (simp add: s2 o1 kv_refines_def insert_absorb)
  next
    case False
    have "finite (dom m)" using kv_finite by (simp add: kv_refines_dom [OF m])
    with False show ?thesis using m found
      by (auto simp: s2 kk(1) kv_counted o1 kv_refines_def intro: counts_increment)
  qed
  moreover have "kv_values T p s' = map_option kv_encode \<circ> m(key \<mapsto> v)"
    using m by (simp add: ch v2 kv_refines_def fun_eq_iff)
  ultimately show ?thesis by (simp only: kv_refines_def ch simp_thms)
qed

lemma kv_remove_refines:
  assumes o: "opensRoot T rootDir p" and m: "kv_refines T p s m" and r: "kv_remove T rootDir key s = Inr s'"
  shows "kv_refines T p s' (m(key := None))"
proof -
  obtain sk s1 found where k: "kv_keys_of rootDir s = Inr (sk, s1)"
    and f: "hasChunkedValue T s1 (entries_of sk) [Str key] = Inr found"
    and b: "if found then \<exists>s2. clearChunkedValue T (entries_of sk) [Str key] s1 = Inr s2
        \<and> s' = tx_atomicOp T (size_key sk) decrementSize Add s2 else s' = s1"
    using r by (auto simp: kv_remove_def bindR_eq_Inr split: if_splits)
  note kk = kv_keys_at [OF o k]
  note o1 = kv_opened [OF kk(3), simplified]
  have wf: "wellFormed key" using f by (simp add: hasChunked_Inr [OF entry_path [OF kk(2)]])
  have found: "found \<longleftrightarrow> key \<in> dom m"
    using f m wf by (auto simp: hasChunked_Inr [OF entry_path [OF kk(2)]] kv_refines_dom [OF m] kv_values_def o1 [symmetric])
  show ?thesis
  proof (cases found)
    case True
    then obtain s2 where c: "clearChunkedValue T (entries_of sk) [Str key] s1 = Inr s2"
      and s': "s' = tx_atomicOp T (size_key sk) decrementSize Add s2" using b by auto
    note cl = clear_Inr [OF c entry_path [OF kk(2)]]
    have ch: "kv_values T p s' = (kv_values T p s)(key := None)" "sizeAt T p s' = Some (addLE (sizeAt T p s) decrementSize)"
      using kv_changed [OF cl(2) wf] cl(1) by (simp_all add: s' kk(1) kv_counted o1)
    have fin: "finite (dom m)" using kv_finite by (simp add: kv_refines_dom [OF m])
    have "card (dom m) = Suc (card (dom m - {key}))" using card.remove [OF fin] found True by blast
    then have "counts (sizeAt T p s) (Suc (card (dom (m(key := None)))))" using m by (simp add: kv_refines_def)
    then have "counts (sizeAt T p s') (card (dom (m(key := None))))" unfolding ch by (rule counts_decrement)
    moreover have "kv_values T p s' = map_option kv_encode \<circ> m(key := None)"
      using m by (simp add: ch kv_refines_def fun_eq_iff)
    ultimately show ?thesis by (simp only: kv_refines_def simp_thms)
  next
    case False
    then have "m(key := None) = m" "s' = s1" using b found by (auto simp: fun_eq_iff)
    then show ?thesis using m by (simp add: kv_refines_def o1)
  qed
qed

lemma kv_clear_refines:
  assumes o: "opensRoot T rootDir p" and r: "kv_clear T rootDir s = Inr s'"
  shows "kv_refines T p s' (\<lambda>_. None)"
proof -
  obtain sk s1 where k: "kv_keys_of rootDir s = Inr (sk, s1)"
    and s': "s' = tx_set T (size_key sk) emptySize
      (tx_clearRange T (prefix_bytes (entries_of sk) @ [NIL]) (prefix_bytes (entries_of sk) @ [ESCAPE]) s1)"
    using r by (auto simp: kv_clear_def bindR_eq_Inr subspace_range_Inr)
  note kk = kv_keys_at [OF o k]
  have get: "tx_get T s' x = (if x = K p ''size'' [] then Some emptySize else if inRange p ''entries'' [] x then None else tx_get T s1 x)" for x
    by (simp add: s' kk get_set get_clearRange inRange_def)
  have "inRange p ''entries'' [] x" if "wellFormed key" "inRange p ''entries'' [Str key] x" for key x
    using that inRange_nested [of p "''entries''" "[]" "[Str key]" x] by simp
  moreover have "\<not> inRange p ''entries'' [] (K p ''size'' [])" by simp
  ultimately have "kv_values T p s' = (\<lambda>_. None)"
    by (auto simp: kv_values_def fun_eq_iff valueAt_None get)
  then show ?thesis by (simp add: kv_refines_def sizeAt_def get counts_def emptySize_def fun_eq_iff)
qed

lemma kv_modify_refines:
  assumes o: "opensRoot T rootDir p" and m: "kv_refines T p s m"
    and r: "kv_modifyWith T rootDir method key decode wrap f s = Inr (v, s')"
    and d: "\<And>x. decode (kv_encode x) = Inr (get x)"
  shows "kv_refines T p s' (m(key := map_option (\<lambda>x. wrap (f (get x))) (m key)))"
    and "v = map_option (\<lambda>x. f (get x)) (m key)"
proof -
  obtain sk s1 encoded where k: "kv_keys_of rootDir s = Inr (sk, s1)"
    and e: "readChunkedValue T s1 (entries_of sk) [Str key] = Inr encoded"
    and b: "case encoded of None \<Rightarrow> v = None \<and> s' = s1 | Some b \<Rightarrow> (\<exists>x. decode b = Inr x \<and> v = Some (f x)
        \<and> writeChunkedValue T (entries_of sk) [Str key] (kv_encode (wrap (f x))) s1 = Inr s')"
    using r by (auto simp: kv_modifyWith_def bindR_eq_Inr Let_def split: option.splits)
  note kk = kv_keys_at [OF o k]
  note o1 = kv_opened [OF kk(3), simplified]
  have wf: "wellFormed key" using e by (simp add: readChunked_Inr)
  have enc: "encoded = map_option kv_encode (m key)"
    using e m wf by (simp add: readChunked_Inr entry_path [OF kk(2)] kv_refines_def o1(1) [symmetric] kv_values_def fun_eq_iff
        del: encs_simps) (metis wf)
  have "kv_refines T p s' (m(key := map_option (\<lambda>x. wrap (f (get x))) (m key)))
      \<and> v = map_option (\<lambda>x. f (get x)) (m key)"
  proof (cases "m key")
    case None
    then have "m(key := map_option (\<lambda>x. wrap (f (get x))) (m key)) = m" by (simp add: fun_eq_iff)
    with None b enc m show ?thesis by (simp add: kv_refines_def o1)
  next
    case (Some x)
    then have v: "v = Some (f (get x))"
      and w: "writeChunkedValue T (entries_of sk) [Str key] (kv_encode (wrap (f (get x)))) s1 = Inr s'"
      using b d [of x] by (auto simp: enc)
    note wr = write_Inr [OF w _ entry_path [OF kk(2)]]
    have "kv_values T p s' = (kv_values T p s)(key \<mapsto> kv_encode (wrap (f (get x))))" "sizeAt T p s' = sizeAt T p s"
      using kv_changed [OF wr(3) wf] wr(2) by (simp_all add: o1)
    moreover have "dom (m(key \<mapsto> wrap (f (get x)))) = dom m" using Some by auto
    ultimately show ?thesis using m Some v by (simp add: kv_refines_def fun_eq_iff)
  qed
  then show "kv_refines T p s' (m(key := map_option (\<lambda>x. wrap (f (get x))) (m key)))"
    and "v = map_option (\<lambda>x. f (get x)) (m key)" by simp_all
qed

lemma kv_do_refines:
  assumes o: "opensRoot T rootDir p" and m: "kv_refines T p s m" and r: "kv_do T base64 rootDir op s = Inr s'"
  shows "kv_refines T p s' (kv_apply base64 op m)"
proof (cases op)
  case (ModifyOp key f)
  then show ?thesis using r
    by (auto simp: kv_do_def kv_apply_def kv_modify_def bindR_eq_Inr
        intro: kv_modify_refines(1) [OF o m, where get = "stringOf base64"])
next
  case (ModifyBytesOp key f)
  then show ?thesis using r
    by (auto simp: kv_do_def kv_apply_def kv_modifyUint8Array_def bindR_eq_Inr
        intro: kv_modify_refines(1) [OF o m, where get = bytesOf])
qed (use r in \<open>auto simp: kv_do_def kv_apply_def intro: kv_set_refines [OF o m] kv_remove_refines [OF o m]
      kv_clear_refines [OF o]\<close>)

lemma kv_run_refines:
  assumes o: "opensRoot T rootDir p" and "foldR (kv_do T base64 rootDir) ops s = Inr s'" and "kv_refines T p s m"
  shows "kv_refines T p s' (fold (kv_apply base64) ops m)"
  using assms(2,3)
proof (induction ops arbitrary: s m)
  case (Cons op ops)
  then obtain s1 where "kv_do T base64 rootDir op s = Inr s1" "foldR (kv_do T base64 rootDir) ops s1 = Inr s'"
    by (auto simp: bindR_eq_Inr)
  then show ?case using Cons.IH [of s1] kv_do_refines [OF o Cons.prems(2)] by simp
qed simp

lemma kv_empty:
  assumes "\<And>k. prefix p k \<Longrightarrow> tx_get T s k = None"
  shows "kv_refines T p s (\<lambda>_. None)"
proof -
  have "valueAt T s (K p n r) = None" for n r using assms inRange_prefix valueAt_None by blast
  then show ?thesis using assms by (simp add: kv_refines_def kv_values_def sizeAt_def counts_first fun_eq_iff)
qed

lemma kv_read_set:
  assumes o: "opensRoot T rootDir p" and r: "kv_set T rootDir key v s = Inr s1"
    and k: "kv_keys_of rootDir s1 = Inr (sk, s2)"
  shows "kv_read T rootDir key s1 = Inr (Some (kv_encode v), s2)"
proof -
  obtain sk0 s0 where k0: "kv_keys_of rootDir s = Inr (sk0, s0)"
    and w: "\<exists>s0. writeChunkedValue T (entries_of sk0) [Str key] (kv_encode v) s0 = Inr s1"
    using r by (auto simp: kv_set_def bindR_eq_Inr Let_def)
  obtain s0' where w: "writeChunkedValue T (entries_of sk0) [Str key] (kv_encode v) s0' = Inr s1" using w ..
  note kk = kv_keys_at [OF o k]
  note wr = write_Inr [OF w _ entry_path [OF kv_keys_at(2) [OF o k0]]]
  have wf: "wellFormed key" using wr(1) by simp
  then have "valueAt T s2 (K p ''entries'' [Str key]) = Some (kv_encode v)"
    using kv_opened(1) [OF kk(3)] wr(2) by (simp add: kv_values_def fun_eq_iff) metis
  then have "readChunkedValue T s2 (entries_of sk) [Str key] = Inr (Some (kv_encode v))"
    unfolding readChunked_Inr entry_path [OF kk(2)] using wf by simp
  then show ?thesis by (simp add: kv_read_def k)
qed

lemma kv_get_set:
  assumes o: "opensRoot T rootDir p" and r: "kv_set T rootDir key v s = Inr s1"
    and g: "kv_get T base64 rootDir key s1 = Inr (Some y, s2)"
  shows "y = stringOf base64 v"
proof -
  obtain sk s3 where k: "kv_keys_of rootDir s1 = Inr (sk, s3)"
    using g by (auto simp: kv_get_def kv_read_def bindR_eq_Inr)
  show ?thesis using g kv_read_set [OF o r k] by (simp add: kv_get_def)
qed

text \<open>What the reads return.\<close>

lemma kv_reads:
  assumes o: "opensRoot T rootDir p" and m: "kv_refines T p s m" and wf: "wellFormed key"
    and k: "kv_keys_of rootDir s = Inr (sk, s1)" and few: "int (card (dom m)) \<le> maxSafeInteger"
  shows "kv_get T base64 rootDir key s = Inr (map_option (stringOf base64) (m key), s1)"
    and "kv_getUint8Array T rootDir key s = Inr (map_option bytesOf (m key), s1)"
    and "kv_has T rootDir key s = Inr (m key \<noteq> None, s1)"
    and "kv_size T rootDir s = Inr (int (card (dom m)), s1)"
    and "kv_isEmpty T rootDir s = Inr (m = (\<lambda>_. None), s1)"
proof -
  note kk = kv_keys_at [OF o k]
  note o1 = kv_opened [OF kk(3), simplified]
  have at: "valueAt T s1 (K p ''entries'' [Str key]) = map_option kv_encode (m key)"
    using m wf o1(1) by (simp add: kv_refines_def kv_values_def fun_eq_iff) metis
  have read: "readChunkedValue T s1 (entries_of sk) [Str key] = Inr (map_option kv_encode (m key))"
    using wf by (simp add: readChunked_Inr entry_path [OF kk(2)] at del: encs_simps)
  have "hasChunkedValue T s1 (entries_of sk) [Str key] = Inr (m key \<noteq> None)"
    using wf by (simp add: hasChunked_Inr [OF entry_path [OF kk(2)]] at)
  then show "kv_has T rootDir key s = Inr (m key \<noteq> None, s1)" by (simp add: kv_has_def k)
  show "kv_get T base64 rootDir key s = Inr (map_option (stringOf base64) (m key), s1)"
    by (cases "m key") (simp_all add: kv_get_def kv_read_def k read)
  show "kv_getUint8Array T rootDir key s = Inr (map_option bytesOf (m key), s1)"
    by (cases "m key") (simp_all add: kv_getUint8Array_def kv_read_def k read)
  have "decodeSize (tx_get T s1 (size_key sk)) = Inr (int (card (dom m)))"
    using m few o1(2) by (intro decode_counts) (simp_all add: kv_refines_def sizeAt_def kk(1))
  then show size: "kv_size T rootDir s = Inr (int (card (dom m)), s1)" by (simp add: kv_size_def k)
  have "finite (dom m)" using kv_finite by (simp add: kv_refines_dom [OF m])
  then show "kv_isEmpty T rootDir s = Inr (m = (\<lambda>_. None), s1)" by (simp add: kv_isEmpty_def size)
qed

end

section \<open>Properties\<close>

text \<open>C8. The store is a finite map: after any sequence of writes, removals, modifications and clears that starts from
  an empty directory, every key reads as the map says, in both types, and the counter is the number of keys.\<close>

theorem key_value_store_is_a_map:
  assumes "fdb T" and "opensRoot T rootDir p" and "\<And>k. prefix p k \<Longrightarrow> tx_get T s0 k = None"
    and "foldR (kv_do T base64 rootDir) ops s0 = Inr s"
    and "wellFormed key" and "kv_keys_of rootDir s = Inr (storeKeys, s')"
    and "m = fold (kv_apply base64) ops (\<lambda>_. None)" and "int (card (dom m)) \<le> maxSafeInteger"
  shows "kv_get T base64 rootDir key s = Inr (map_option (stringOf base64) (m key), s')
    \<and> kv_getUint8Array T rootDir key s = Inr (map_option bytesOf (m key), s')
    \<and> kv_has T rootDir key s = Inr (m key \<noteq> None, s')
    \<and> kv_size T rootDir s = Inr (int (card (dom m)), s')
    \<and> kv_isEmpty T rootDir s = Inr (m = (\<lambda>_. None), s')"
proof -
  have "kv_refines T p s m"
    using fdb.kv_run_refines [OF assms(1,2,4) fdb.kv_empty [OF assms(1,3)]] assms(7) by simp
  from fdb.kv_reads [OF assms(1,2) this assms(5,6,8)] show ?thesis by blast
qed

lemma kv_keys_opened: "\<exists>storeKeys. kv_keys_of (openedRoot p) s = Inr (storeKeys, s)"
  by (simp add: kv_keys_of_def openedRoot_def subspace_def packTrackedSync_enc subspace_pack_def pack_enc)

lemma kv_set_works:
  assumes "fdb T" and "wellFormed key" and "writable (kv_encode v)"
  shows "\<exists>s'. kv_set T (openedRoot p) key v s = Inr s'"
proof -
  obtain sk where k: "kv_keys_of (openedRoot p) s = Inr (sk, s)" using kv_keys_opened [of p s] by blast
  have "\<exists>b. hasChunkedValue T s (entries_of sk) [Str key] = Inr b"
    using assms(2) fdb.hasChunked_Inr [OF assms(1) entry_path [OF kv_keys_at(2) [OF opensRoot_opened k]]] by auto
  then obtain b where b: "hasChunkedValue T s (entries_of sk) [Str key] = Inr b" ..
  have "tuple_ok [Str key]" using assms(2) by simp
  from writeChunkedValue_ok [OF this assms(3)] show ?thesis
    by (auto simp: kv_set_def k b Let_def)
qed

lemma small_value: "length (kv_encode v) \<le> chunkSize \<Longrightarrow> wellFormed key \<Longrightarrow>
    \<exists>s'. kv_set mem_txn (openedRoot p) key v s = Inr s'"
  by (rule kv_set_works [OF fdb_mem]) (simp_all add: writable_small)

theorem key_value_store_is_a_map_witness:
  "\<exists>s. foldR (kv_do mem_txn bytesText (openedRoot [9])) [PutOp (js ''k'') (KvBytes [1, 2]), PutOp (js ''k'') (KvBytes [7])] [] = Inr s
     \<and> kv_getUint8Array mem_txn (openedRoot [9]) (js ''k'') s = Inr (Some [7], s)
     \<and> kv_size mem_txn (openedRoot [9]) s = Inr (1, s)"
proof -
  let ?ops = "[PutOp (js ''k'') (KvBytes [1, 2]), PutOp (js ''k'') (KvBytes [7])]"
  let ?m = "fold (kv_apply bytesText) ?ops (\<lambda>_. None)"
  obtain s1 where s1: "kv_set mem_txn (openedRoot [9]) (js ''k'') (KvBytes [1, 2]) [] = Inr s1"
    using small_value [of "KvBytes [1, 2]" "js ''k''" "[9]" "[]"] by (auto simp: kv_encode_def chunkSize_def)
  obtain s where s: "kv_set mem_txn (openedRoot [9]) (js ''k'') (KvBytes [7]) s1 = Inr s"
    using small_value [of "KvBytes [7]" "js ''k''" "[9]" s1] by (auto simp: kv_encode_def chunkSize_def)
  have run: "foldR (kv_do mem_txn bytesText (openedRoot [9])) ?ops [] = Inr s"
    by (simp add: kv_do_def s1 s)
  obtain sk where k: "kv_keys_of (openedRoot [9]) s = Inr (sk, s)" using kv_keys_opened [of "[9]" s] by blast
  have m: "?m (js ''k'') = Some (KvBytes [7])" "dom ?m = {js ''k''}" by (simp_all add: kv_apply_def)
  have few: "int (card (dom ?m)) \<le> maxSafeInteger" by (simp only: m) (simp add: maxSafeInteger_def)
  have e: "prefix [9] k \<Longrightarrow> tx_get mem_txn ([] :: mem) k = None" for k by (simp add: mem_get)
  from key_value_store_is_a_map [OF fdb_mem opensRoot_opened e run wellFormed_js k refl few]
  show ?thesis using run m by (auto simp: bytesOf_def)
qed

text \<open>C29. A string reads back as it was stored exactly when it has no lone surrogate and does not begin with a byte
  order mark, which the decoder drops.\<close>

theorem key_value_string_roundtrip:
  assumes "fdb T" and "opensRoot T rootDir p" and "kv_set T rootDir key (KvString x) s = Inr s1"
    and "kv_get T base64 rootDir key s1 = Inr (Some y, s2)"
  shows "y = x \<longleftrightarrow> wellFormed x \<and> (\<forall>r. x \<noteq> 0xFEFF # r)"
proof -
  have "y = decodeText (text_encode x)"
    using fdb.kv_get_set [OF assms] by (simp add: stringOf_def)
  then show ?thesis using decodeText_same [of x] by simp
qed

theorem key_value_string_roundtrip_witness:
  "\<exists>s y. kv_set mem_txn (openedRoot [9]) (js ''k'') (KvString [0xFEFF, 0x41]) [] = Inr s
     \<and> kv_get mem_txn bytesText (openedRoot [9]) (js ''k'') s = Inr (Some y, s) \<and> y \<noteq> [0xFEFF, 0x41]"
proof -
  have "length (kv_encode (KvString [0xFEFF, 0x41])) \<le> chunkSize"
    by (simp add: kv_encode_def text_encode_def isHigh_def isLow_def utf8_bytes_def chunkSize_def)
  then obtain s where s: "kv_set mem_txn (openedRoot [9]) (js ''k'') (KvString [0xFEFF, 0x41]) [] = Inr s"
    using small_value wellFormed_js by blast
  obtain sk where k: "kv_keys_of (openedRoot [9]) s = Inr (sk, s)" using kv_keys_opened [of "[9]" s] by blast
  have g: "kv_get mem_txn bytesText (openedRoot [9]) (js ''k'') s = Inr (Some (decodeText (text_encode [0xFEFF, 0x41])), s)"
    using fdb.kv_read_set [OF fdb_mem opensRoot_opened s k] by (simp add: kv_get_def stringOf_def)
  from key_value_string_roundtrip [OF fdb_mem opensRoot_opened s g] g s show ?thesis by auto
qed

end
