(* ===== verification/Directory_Store.thy ===== *)
theory Directory_Store
  imports Directory_Properties Transactions
begin

text \<open>
  The directory of a store, src/src/persistence/internal.ts: which directory and path a store uses, the options
  of its transactions, and the function that opens the directory in a transaction. Stores at different
  paths of a layer keep apart.
\<close>

section \<open>makeDirectoryStore\<close>

text \<open>A \<open>Directory\<close> is a layer or a directory that was opened.\<close>

datatype store_directory = LayerDirectory directory_layer | OpenedDirectory directory_output

record store_options =
  option_directory :: "store_directory option"
  option_path :: "directory_path option"
  option_transaction :: "transaction_options option"

datatype store_root_error = RootDirectoryError directory_error | PersistenceDirectoryError string

definition regularDirectory :: "directory_output \<Rightarrow> store_root_error + subspace" where
  "regularDirectory output = (case output of
     DirectorySubspace _ _ p _ \<Rightarrow> Inr (fromBytes p)
   | DirectoryPartition _ _ _ \<Rightarrow> Inl (PersistenceDirectoryError ''persistence store directory cannot be a partition''))"

record directory_store =
  store_directory :: store_directory
  store_path :: directory_path
  store_layer :: bytes
  store_transactions :: transaction_options

definition noOptions :: transaction_options where
  "noOptions = \<lparr>timeoutMs = None, retryLimit = None, maxRetryDelayMs = None, reportConflictingKeys = None,
     retryOnMaybeCommitted = None\<rparr>"

definition makeDirectoryStore ::
    "store_options \<Rightarrow> directory_path \<Rightarrow> js_string \<Rightarrow> directory_error + directory_store" where
  "makeDirectoryStore options defaultPath layerName =
    bindR (case option_directory options of
        Some d \<Rightarrow> Inr d
      | None \<Rightarrow> bindR (makeDirectoryLayerState None None False []) (\<lambda>L. Inr (LayerDirectory L))) (\<lambda>directory.
    let t = (case option_transaction options of Some t \<Rightarrow> t | None \<Rightarrow> noOptions) in
    Inr \<lparr>store_directory = directory,
         store_path = (case option_path options of Some p \<Rightarrow> p | None \<Rightarrow> defaultPath),
         store_layer = text_encode layerName,
         store_transactions = t\<lparr>timeoutMs := orElse (timeoutMs t) (Some 5000),
           retryLimit := orElse (retryLimit t) (Some 10),
           maxRetryDelayMs := orElse (maxRetryDelayMs t) (Some 1000)\<rparr>\<rparr>)"

definition storeRoot ::
    "'s txn \<Rightarrow> directory_store \<Rightarrow> 32 word list \<Rightarrow> 's \<Rightarrow> (store_root_error + subspace \<times> 's \<times> 32 word list) option" where
  "storeRoot T D randoms s =
    Option.bind
      (case store_directory D of
         LayerDirectory L \<Rightarrow> layer_createOrOpen T L (store_path D) None (Some (store_layer D)) randoms s
       | OpenedDirectory d \<Rightarrow> directory_createOrOpen T d (store_path D) None (Some (store_layer D)) randoms s)
      (\<lambda>r. Some (case r of
         Inl e \<Rightarrow> Inl (RootDirectoryError e)
       | Inr (output, s, randoms) \<Rightarrow> bindR (regularDirectory output) (\<lambda>directory. Inr (directory, s, randoms))))"

section \<open>Opening the root\<close>

lemma storeRoot_layer:
  assumes "store_directory D = LayerDirectory L"
  shows "storeRoot T D randoms s = Some (Inr (a, s', rs)) \<longleftrightarrow> (\<exists>d. regularDirectory d = Inr a
    \<and> createOrOpenInternal T L (store_path D) None (Some (store_layer D)) True True randoms s = Some (Inr (d, s', rs)))"
proof (cases "createOrOpenInternal T L (store_path D) None (Some (store_layer D)) True True randoms s")
  case (Some r)
  then show ?thesis using assms by (cases r) (auto simp: storeRoot_def layer_createOrOpen_def bindR_eq_Inr)
qed (use assms in \<open>simp add: storeRoot_def layer_createOrOpen_def\<close>)

lemma regular_opened:
  "regularDirectory d = Inr a \<Longrightarrow> opened L path q l d \<Longrightarrow> d = DirectorySubspace L path q l \<and> a = fromBytes q"
  by (auto simp: regularDirectory_def opened_def split: if_splits directory_output.splits)

context fdb
begin

lemma root_Inr:
  assumes L: "layer_ok L N" and inv: "dir_inv N (tx_get T s)"
    and D: "store_directory D = LayerDirectory L" and out: "\<not> leads_into_partition T L (store_path D) s"
    and r: "storeRoot T D randoms s = Some (Inr (a, s', rs))"
  obtains q l where "a = fromBytes q" "dirAt N (tx_get T s') (store_path D) = Some (q, l)" "dir_inv N (tx_get T s')"
    "store_path D \<noteq> []" "grown N (store_path D) (tx_get T s) (tx_get T s')"
    "version_ok N (tx_get T s') \<Longrightarrow> storeRoot T D rs' s' = Some (Inr (a, s', rs'))"
proof -
  obtain d where d: "regularDirectory d = Inr a"
    "createOrOpenInternal T L (store_path D) None (Some (store_layer D)) True True randoms s = Some (Inr (d, s', rs))"
    using r by (auto simp: storeRoot_layer [OF D])
  from createOrOpen_Inr [OF L inv out d(2)] obtain q l where o: "opened L (store_path D) q l d"
    "dirAt N (tx_get T s') (store_path D) = Some (q, l)" "dir_inv N (tx_get T s')" "store_path D \<noteq> []"
    "list_all wellFormed (store_path D)" "grown N (store_path D) (tx_get T s) (tx_get T s')"
    "open_above N (tx_get T s') N (store_path D)"
    and e: "dirAt N (tx_get T s) (store_path D) \<noteq> None \<longrightarrow> (\<forall>e. Some (store_layer D) = Some e \<longrightarrow> e \<noteq> [] \<longrightarrow> e = l)"
      "dirAt N (tx_get T s) (store_path D) = None \<longrightarrow> l = (case Some (store_layer D) of None \<Rightarrow> [] | Some e \<Rightarrow> e)"
    by (elim exE conjE) (rule that, assumption+, blast+)
  have e': "\<And>e. Some (store_layer D) = Some e \<Longrightarrow> e = [] \<or> e = l" using e by auto
  from open_ok(1) [OF L _ o(2,4,5,7,1) e', where allowCreate = True and randoms = rs'] have "version_ok N (tx_get T s') \<Longrightarrow> storeRoot T D rs' s' = Some (Inr (a, s', rs'))"
    using d(1) by (auto simp: storeRoot_layer [OF D])
  with that o regular_opened [OF d(1) o(1)] show thesis by blast
qed

lemma root_apart:
  assumes "dir_inv N g" and "dirAt N g path = Some (q, l)" and "path \<noteq> []" and "prefix q k"
  shows "\<not> inN N k"
proof
  assume "inN N k"
  then have "prefix N k" using tuples.in_range_iff [of N k] by (auto simp: inN_def)
  have root: "dirAt N g [] = Some (N, layerAt N g N)" by (simp add: dirAt_def)
  have "\<not> prefix q N" "\<not> prefix N q"
    using dirAt_prefix_free [OF assms(1,2) root] dirAt_prefix_free [OF assms(1) root assms(2)] assms(3) by simp_all
  with \<open>prefix N k\<close> assms(4) show False by (metis prefix_same_cases)
qed

end

section \<open>Properties\<close>

text \<open>C26. Two stores with different paths of one layer open directories of which neither prefix extends the other; the
  second one's opening changes no key of the first, and opening the first again finds it where it was.\<close>

theorem stores_are_separate:
  assumes "fdb T" and "layer_ok L N" and "dir_inv N (tx_get T s)"
    and "store_directory A = LayerDirectory L" and "store_directory B = LayerDirectory L" and "store_path A \<noteq> store_path B"
    and "\<not> leads_into_partition T L (store_path A) s" and "storeRoot T A randoms s = Some (Inr (a, s1, rs1))"
    and "\<not> leads_into_partition T L (store_path B) s1" and "storeRoot T B rs1 s1 = Some (Inr (b, s2, rs2))"
  shows "\<not> prefix (prefix_bytes a) (prefix_bytes b) \<and> \<not> prefix (prefix_bytes b) (prefix_bytes a)
    \<and> (\<forall>k. prefix (prefix_bytes a) k \<longrightarrow> tx_get T s2 k = tx_get T s1 k)
    \<and> (version_ok N (tx_get T s1) \<longrightarrow> storeRoot T A rs1 s1 = Some (Inr (a, s1, rs1)))"
proof -
  obtain q l where a: "a = fromBytes q" "dirAt N (tx_get T s1) (store_path A) = Some (q, l)" "dir_inv N (tx_get T s1)"
    "store_path A \<noteq> []" "version_ok N (tx_get T s1) \<Longrightarrow> storeRoot T A rs1 s1 = Some (Inr (a, s1, rs1))"
    using fdb.root_Inr [OF assms(1-4,7,8)] by blast
  obtain r m where b: "b = fromBytes r" "dirAt N (tx_get T s2) (store_path B) = Some (r, m)" "dir_inv N (tx_get T s2)"
    "grown N (store_path B) (tx_get T s1) (tx_get T s2)"
    using fdb.root_Inr [OF assms(1,2) a(3) assms(5,9,10)] by blast
  have a2: "dirAt N (tx_get T s2) (store_path A) = Some (q, l)" using a(2) b(4) unfolding grown_def by blast
  have "\<not> prefix q r" "\<not> prefix r q"
    using dirAt_prefix_free [OF b(3) a2 b(2)] dirAt_prefix_free [OF b(3) b(2) a2] assms(6) by metis+
  moreover have "\<forall>k. prefix q k \<longrightarrow> tx_get T s2 k = tx_get T s1 k"
    using fdb.root_apart [OF assms(1) a(3,2,4)] b(4) unfolding grown_def by blast
  ultimately show ?thesis using a(1,5) b(1) by (simp add: fromBytes_def)
qed

lemma two_directories:
  assumes L: "layer_ok L NODE_PREFIX" and m: "allowManualPrefixes L"
  obtains s where "dir_inv NODE_PREFIX (tx_get mem_txn s)" and "version_ok NODE_PREFIX (tx_get mem_txn s)"
    and "dirAt NODE_PREFIX (tx_get mem_txn s) [js ''a''] = Some ([1], [7])"
    and "dirAt NODE_PREFIX (tx_get mem_txn s) [js ''b''] = Some ([2], [7])"
proof -
  let ?N = NODE_PREFIX
  obtain s where inv: "dir_inv ?N (tx_get mem_txn s)" and v: "version_ok ?N (tx_get mem_txn s)"
    and at: "\<And>path. dirAt ?N (tx_get mem_txn s) path
      = (if path = [] then Some (?N, []) else if path = [js ''a''] then Some ([1], [7]) else None)"
    by (rule sample_directory [OF L m]) blast
  have a: "walk ?N (tx_get mem_txn s) ?N [js ''a''] = Some [1]" using at [of "[js ''a'']"] by (simp add: dirAt_walk)
  have n: "nodes ?N (tx_get mem_txn s) \<subseteq> {?N, [1]}"
  proof
    fix q assume "q \<in> nodes ?N (tx_get mem_txn s)"
    then obtain path where w: "walk ?N (tx_get mem_txn s) ?N path = Some q" using tree_rooted [OF dir_inv_tree [OF inv]] by blast
    then have "dirAt ?N (tx_get mem_txn s) path = Some (q, layerAt ?N (tx_get mem_txn s) q)" by (simp add: dirAt_def)
    then show "q \<in> {?N, [1]}" using at [of path] by (simp split: if_splits)
  qed
  have none: "childAt ?N (tx_get mem_txn s) ?N (js ''b'') = None"
    using at [of "[js ''b'']"] by (simp add: dirAt_def split: option.splits)
  have free: "free_prefix ?N (tx_get mem_txn s) [2]" using n by (auto simp: free_prefix_def NODE_PREFIX_def)
  have l: "([7] :: bytes) \<noteq> PARTITION" by (simp add: PARTITION_def)
  obtain s' where c: "createOrOpenInternal mem_txn L [js ''b''] (Some [2]) (Some [7]) True False [] s
      = Some (Inr (DirectorySubspace L [js ''b''] [2] [7], s', []))"
    and g: "tx_get mem_txn s' = (tx_get mem_txn s)(versionKey ?N := Some DIRECTORY_VERSION,
      childKey ?N ?N (js ''b'') := Some [2], layerKey ?N [2] := Some [7])"
    using mem.create_top_ok [OF L m inv v wellFormed_js none free strinc_one(2) l] by blast
  from mem.createOrOpen_Inr [OF L inv out_top [OF L wellFormed_js] c] obtain q k where o: "opened L [js ''b''] q k (DirectorySubspace L [js ''b''] [2] [7])"
    "dirAt ?N (tx_get mem_txn s') [js ''b''] = Some (q, k)" "dir_inv ?N (tx_get mem_txn s')"
    "grown ?N [js ''b''] (tx_get mem_txn s) (tx_get mem_txn s')" by blast
  have "q = [2]" "k = [7]" using o(1) by (auto simp: opened_def split: if_splits)
  moreover have "dirAt ?N (tx_get mem_txn s') [js ''a''] = Some ([1], [7])"
    using o(4) at [of "[js ''a'']"] unfolding grown_def by simp
  moreover have "version_ok ?N (tx_get mem_txn s')" by (simp add: version_ok_def g)
  ultimately show thesis using that o(2,3) by simp
qed

theorem stores_are_separate_witness:
  "\<exists>s A B. storeRoot mem_txn A [] s = Some (Inr (fromBytes [1], s, [])) \<and> storeRoot mem_txn B [] s = Some (Inr (fromBytes [2], s, []))
     \<and> \<not> prefix (prefix_bytes (fromBytes [1])) (prefix_bytes (fromBytes [2]))"
proof -
  obtain L where L: "layer_ok L NODE_PREFIX" "allowManualPrefixes L" by (rule sample_layer)
  obtain s where s: "dir_inv NODE_PREFIX (tx_get mem_txn s)" "version_ok NODE_PREFIX (tx_get mem_txn s)"
    "dirAt NODE_PREFIX (tx_get mem_txn s) [js ''a''] = Some ([1], [7])"
    "dirAt NODE_PREFIX (tx_get mem_txn s) [js ''b''] = Some ([2], [7])" by (rule two_directories [OF L])
  define store where "store n = \<lparr>store_directory = LayerDirectory L, store_path = [js n], store_layer = [7],
    store_transactions = noOptions\<rparr>" for n
  have root: "storeRoot mem_txn (store n) [] s = Some (Inr (fromBytes q, s, []))"
    if d: "dirAt NODE_PREFIX (tx_get mem_txn s) [js n] = Some (q, [7])" for n q
  proof -
    have o: "opened L [js n] q [7] (DirectorySubspace L [js n] q [7])" by (simp add: opened_def PARTITION_def)
    have above: "open_above NODE_PREFIX (tx_get mem_txn s) NODE_PREFIX [js n]" by (auto simp: open_above_def Cons_eq_append_conv)
    have e: "\<And>e. Some [7] = Some e \<Longrightarrow> e = [] \<or> e = ([7] :: bytes)" by simp
    have "createOrOpenInternal mem_txn L [js n] None (Some [7]) True True [] s = Some (Inr (DirectorySubspace L [js n] q [7], s, []))"
      by (rule mem.open_ok(1) [OF L(1) s(2) d _ _ above o e]) simp_all
    then show ?thesis by (simp add: storeRoot_def layer_createOrOpen_def store_def regularDirectory_def)
  qed
  note a = root [OF s(3)] and b = root [OF s(4)]
  have out: "\<not> leads_into_partition mem_txn L (store_path (store n)) s" for n by (simp add: store_def out_top [OF L(1)])
  from stores_are_separate [OF fdb_mem L(1) s(1) _ _ _ out a out b] a b show ?thesis by (simp add: store_def) blast
qed

end
