(* ===== verification/Event_Repository.thy ===== *)
theory Event_Repository
  imports Store_Roots Transactions
begin

text \<open>
  What the event-log backends share, src/src/eventlog/internal.ts: values in chunks under the section \<open>values\<close>,
  empty rows under \<open>index\<close> that list paths in order, counters under \<open>signal\<close> that wake subscribers. The
  directory is opened once, so an operation takes the root subspace. The binary codecs of the schema library are a
  parameter, and so are the ids that it makes. Numbers are naturals: the schema of a stored number is a natural,
  and counters stay far below 2^53.
\<close>

section \<open>Options\<close>

record event_options =
  pageSize_option :: "rat option"
  watchRetryDelayMs_option :: "rat option"
  callbackRetryLimit_option :: "rat option"

record event_settings =
  page_size :: nat
  watchRetryDelayMs :: rat
  callbackRetryLimit :: nat

datatype journal_error = EventJournalError string store_error

definition protect :: "string \<Rightarrow> store_error + 'a \<Rightarrow> journal_error + 'a" where
  "protect method m = (case m of Inl cause \<Rightarrow> Inl (EventJournalError method cause) | Inr x \<Rightarrow> Inr x)"

text \<open>\<open>decodeOptions\<close>: a positive integer, a positive number and a natural.\<close>

definition decodeOptions :: "event_options \<Rightarrow> store_error + event_settings" where
  "decodeOptions opts =
    (let n = (case pageSize_option opts of None \<Rightarrow> 100 | Some v \<Rightarrow> v);
         d = (case watchRetryDelayMs_option opts of None \<Rightarrow> 100 | Some v \<Rightarrow> v);
         r = (case callbackRetryLimit_option opts of None \<Rightarrow> 0 | Some v \<Rightarrow> v) in
     if snd (quotient_of n) = 1 \<and> 0 < n \<and> 0 < d \<and> snd (quotient_of r) = 1 \<and> 0 \<le> r
     then Inr \<lparr>page_size = nat (fst (quotient_of n)), watchRetryDelayMs = d, callbackRetryLimit = nat (fst (quotient_of r))\<rparr>
     else Inl StoreSchemaError)"

definition repositorySettings :: "event_options \<Rightarrow> journal_error + event_settings" where
  "repositorySettings opts = protect ''make'' (decodeOptions opts)"

text \<open>The options of the transactions: an ambiguous commit is never retried; one that runs a callback retries only
  as often as the options say.\<close>

definition storageTransaction :: "event_settings \<Rightarrow> transaction_options \<Rightarrow> bool \<Rightarrow> transaction_options" where
  "storageTransaction settings options callback =
    (let options = options\<lparr>retryOnMaybeCommitted := Some False\<rparr> in
     if callback then options\<lparr>retryLimit := Some (int (callbackRetryLimit settings))\<rparr> else options)"

definition callbackTransaction :: "event_settings \<Rightarrow> transaction_options \<Rightarrow> transaction_options" where
  "callbackTransaction settings options =
     options\<lparr>retryLimit := Some (int (callbackRetryLimit settings)), retryOnMaybeCommitted := Some False\<rparr>"

section \<open>Values and marks\<close>

record 'a binary_codec =
  encodeBinary :: "'a \<Rightarrow> bytes"
  decodeBinary :: "bytes \<Rightarrow> 'a option"

locale binary_codec =
  fixes C :: "'a binary_codec"
  assumes decode_encode_binary: "decodeBinary C (encodeBinary C a) = Some a"

definition valuePath :: "tuple \<Rightarrow> tuple" where
  "valuePath path = Str (js ''values'') # path"

definition indexPath :: "tuple \<Rightarrow> tuple" where
  "indexPath path = Str (js ''index'') # path"

definition repo_get ::
    "'s txn \<Rightarrow> subspace \<Rightarrow> tuple \<Rightarrow> 'a binary_codec \<Rightarrow> 's \<Rightarrow> journal_error + 'a option" where
  "repo_get T dir path C s = protect ''read''
    (bindR (liftKey (readChunkedValue T s dir (valuePath path))) (\<lambda>v. case v of
       None \<Rightarrow> Inr None
     | Some b \<Rightarrow> (case decodeBinary C b of None \<Rightarrow> Inl StoreSchemaError | Some a \<Rightarrow> Inr (Some a))))"

definition repo_put ::
    "'s txn \<Rightarrow> subspace \<Rightarrow> tuple \<Rightarrow> 'a binary_codec \<Rightarrow> 'a \<Rightarrow> 's \<Rightarrow> journal_error + 's" where
  "repo_put T dir path C a s = protect ''write''
    (liftKey (writeChunkedValue T dir (valuePath path) (encodeBinary C a) s))"

definition repo_number ::
    "'s txn \<Rightarrow> subspace \<Rightarrow> nat binary_codec \<Rightarrow> tuple \<Rightarrow> nat \<Rightarrow> 's \<Rightarrow> journal_error + nat" where
  "repo_number T dir N path fallback s =
    bindR (repo_get T dir path N s) (\<lambda>n. Inr (case n of None \<Rightarrow> fallback | Some n \<Rightarrow> n))"

definition repo_setNumber ::
    "'s txn \<Rightarrow> subspace \<Rightarrow> nat binary_codec \<Rightarrow> tuple \<Rightarrow> nat \<Rightarrow> 's \<Rightarrow> journal_error + 's" where
  "repo_setNumber T dir N path n s = repo_put T dir path N n s"

definition repo_mark :: "'s txn \<Rightarrow> subspace \<Rightarrow> tuple \<Rightarrow> 's \<Rightarrow> journal_error + 's" where
  "repo_mark T dir path s = protect ''index''
    (bindR (liftKey (subspace_pack dir (indexPath path))) (\<lambda>key. Inr (tx_set T key [] s)))"

definition repo_has :: "'s txn \<Rightarrow> subspace \<Rightarrow> tuple \<Rightarrow> 's \<Rightarrow> journal_error + bool" where
  "repo_has T dir path s = protect ''index''
    (bindR (liftKey (subspace_pack dir (indexPath path))) (\<lambda>key. Inr (tx_get T s key \<noteq> None)))"

text \<open>
  The loop over the batches. The page size is positive, as the options' schema demands; for 0 the loop
  would not end, and the definition stops.
\<close>

function (sequential) hasManyLoop :: "'s txn \<Rightarrow> subspace \<Rightarrow> nat \<Rightarrow> 's \<Rightarrow> tuple list \<Rightarrow> store_error + bool list" where
  "hasManyLoop T dir limit s paths =
    (if paths = [] \<or> limit = 0 then Inr []
     else
       bindR (mapR (\<lambda>path. liftKey (subspace_pack dir (indexPath path))) (take limit paths)) (\<lambda>keys.
       bindR (hasManyLoop T dir limit s (drop limit paths)) (\<lambda>rest.
         Inr (map (\<lambda>v. v \<noteq> None) (tx_getMany T s keys) @ rest))))"
  by pat_completeness auto
termination by (relation "measure (\<lambda>(T, dir, limit, s, paths). length paths)") auto

declare hasManyLoop.simps [simp del]

definition repo_hasMany :: "'s txn \<Rightarrow> subspace \<Rightarrow> nat \<Rightarrow> tuple list \<Rightarrow> 's \<Rightarrow> journal_error + bool list" where
  "repo_hasMany T dir limit paths s = protect ''index'' (hasManyLoop T dir limit s paths)"

section \<open>Pages\<close>

definition repo_page ::
    "'s txn \<Rightarrow> subspace \<Rightarrow> nat \<Rightarrow> tuple \<Rightarrow> bytes option \<Rightarrow> tuple option \<Rightarrow> 's
      \<Rightarrow> journal_error + tuple list \<times> bytes option" where
  "repo_page T dir limit path after from s = protect ''page''
    (bindR (liftKey (subspace_range dir (indexPath path))) (\<lambda>(b, e).
     bindR (case after of
         Some cursor \<Rightarrow> Inr (cursor @ [0])
       | None \<Rightarrow> (case from of None \<Rightarrow> Inr b | Some f \<Rightarrow> liftKey (subspace_pack dir (indexPath (path @ f))))) (\<lambda>first.
     let rows = tx_getRange T s (keyRange first e (Some limit) False) in
     bindR (mapR (\<lambda>row. liftKey (subspace_unpack dir (fst row))) rows) (\<lambda>paths.
       Inr (map (drop (length path + 1)) paths, if rows = [] then None else Some (fst (last rows)))))))"

text \<open>\<open>while (true)\<close> over the pages.\<close>

partial_function (option) allLoop ::
    "'s txn \<Rightarrow> subspace \<Rightarrow> nat \<Rightarrow> tuple \<Rightarrow> bytes option \<Rightarrow> tuple option \<Rightarrow> 's \<Rightarrow> (journal_error + tuple list) option" where
  "allLoop T dir limit path cursor from s =
    (case repo_page T dir limit path cursor from s of
       Inl e \<Rightarrow> Some (Inl e)
     | Inr (paths, next) \<Rightarrow>
         if length paths < limit then Some (Inr paths)
         else Option.bind (allLoop T dir limit path next from s) (\<lambda>r.
           Some (bindR r (\<lambda>rest. Inr (paths @ rest)))))"

definition repo_all ::
    "'s txn \<Rightarrow> subspace \<Rightarrow> nat \<Rightarrow> tuple \<Rightarrow> tuple option \<Rightarrow> 's \<Rightarrow> (journal_error + tuple list) option" where
  "repo_all T dir limit path from s = allLoop T dir limit path None from s"

definition repo_required :: "'s txn \<Rightarrow> subspace \<Rightarrow> tuple \<Rightarrow> 'a binary_codec \<Rightarrow> 's \<Rightarrow> journal_error + 'a" where
  "repo_required T dir path C s =
    bindR (repo_get T dir path C s) (\<lambda>v. case v of
      None \<Rightarrow> Inl (EventJournalError ''read'' (StoreFailure ''Missing indexed event-log record''))
    | Some a \<Rightarrow> Inr a)"

definition repo_readMany ::
    "'s txn \<Rightarrow> subspace \<Rightarrow> tuple list \<Rightarrow> 'a binary_codec \<Rightarrow> 's \<Rightarrow> journal_error + 'a list" where
  "repo_readMany T dir paths C s = mapR (\<lambda>path. repo_required T dir path C s) paths"

section \<open>Identity, signals, destruction\<close>

text \<open>The id to use when there is none yet is an argument.\<close>

definition repo_getId :: "'s txn \<Rightarrow> subspace \<Rightarrow> bytes binary_codec \<Rightarrow> bytes \<Rightarrow> 's \<Rightarrow> journal_error + bytes \<times> 's" where
  "repo_getId T dir C created s =
    bindR (repo_get T dir [Str (js ''remoteId'')] C s) (\<lambda>found. case found of
      Some known \<Rightarrow> Inr (known, s)
    | None \<Rightarrow> bindR (repo_put T dir [Str (js ''remoteId'')] C created s) (\<lambda>s. Inr (created, s)))"

definition repo_auth ::
    "'s txn \<Rightarrow> subspace \<Rightarrow> bytes binary_codec \<Rightarrow> js_string \<Rightarrow> bytes \<Rightarrow> 's \<Rightarrow> journal_error + bytes \<times> 's" where
  "repo_auth T dir C publicKey key s =
    bindR (repo_get T dir [Str (js ''auth''), Str publicKey] C s) (\<lambda>found. case found of
      Some k \<Rightarrow> Inr (k, s)
    | None \<Rightarrow> bindR (repo_put T dir [Str (js ''auth''), Str publicKey] C key s) (\<lambda>s. Inr (key, s)))"

definition repo_notify :: "'s txn \<Rightarrow> subspace \<Rightarrow> tuple \<Rightarrow> 's \<Rightarrow> journal_error + 's" where
  "repo_notify T dir path s = protect ''notify''
    (bindR (liftKey (subspace_pack dir (Str (js ''signal'') # path))) (\<lambda>key.
      Inr (tx_atomicOp T key [1, 0, 0, 0, 0, 0, 0, 0] Add s)))"

definition repo_clear :: "'s txn \<Rightarrow> subspace \<Rightarrow> 's \<Rightarrow> journal_error + 's" where
  "repo_clear T dir s = protect ''destroy''
    (bindR (liftKey (subspace_range dir [Str (js ''index'')])) (\<lambda>(b1, e1).
     bindR (liftKey (subspace_range dir [Str (js ''values'')])) (\<lambda>(b2, e2).
       Inr (tx_clearRange T b2 e2 (tx_clearRange T b1 e1 s)))))"

section \<open>The change feed\<close>

text \<open>
  One pull of \<open>feed\<close>: a page from \<open>next\<close> on, its records, and where to go on; \<open>None\<close> ends the feed. An index entry
  of a feed ends in a sequence number.
\<close>

definition sequenceOf :: "tuple \<Rightarrow> int" where
  "sequenceOf path = (case path of BigInt n # _ \<Rightarrow> n | _ \<Rightarrow> 0)"

definition feedRead ::
    "'s txn \<Rightarrow> subspace \<Rightarrow> nat \<Rightarrow> tuple \<Rightarrow> 'a binary_codec \<Rightarrow> int option \<Rightarrow> int \<Rightarrow> 's
      \<Rightarrow> journal_error + 'a list \<times> int option" where
  "feedRead T dir limit path C until next s =
    bindR (repo_page T dir limit path None (Some [BigInt next]) s) (\<lambda>(found, _).
    let paths = filter (\<lambda>tl_path. until = None \<or> sequenceOf tl_path < the until) found in
    bindR (repo_readMany T dir (map (\<lambda>tl_path. path @ tl_path) paths) C s) (\<lambda>output.
    let cursor = (if paths = [] then next else sequenceOf (last paths) + 1) in
    Inr (output, case until of
        None \<Rightarrow> Some cursor
      | Some u \<Rightarrow> if output = [] \<or> u \<le> cursor then None else Some cursor)))"

text \<open>
  One pull of \<open>tail\<close>, the reader being a parameter: an empty page that does not end the stream registers a
  watch in the same transaction (the key is returned), and is awaited before the next pull. \<open>ambient\<close> says that
  the stream is consumed inside a transaction.
\<close>

datatype tail_error = TailJournal journal_error | TailKey tuple_error

definition tailPull ::
    "subspace \<Rightarrow> tuple \<Rightarrow> bool \<Rightarrow> ('c \<Rightarrow> 's \<Rightarrow> journal_error + 'a list \<times> 'c option) \<Rightarrow> 'c \<Rightarrow> 's
      \<Rightarrow> tail_error + 'a list \<times> 'c option \<times> bytes option" where
  "tailPull dir path ambient reader next s =
    (if ambient then
       Inl (TailJournal (EventJournalError ''changes'' (StoreFailure ''Consume change streams outside a transaction'')))
     else (case reader next s of
       Inl e \<Rightarrow> Inl (TailJournal e)
     | Inr (output, cursor) \<Rightarrow>
         if output = [] \<and> cursor \<noteq> None then
           (case subspace_pack dir (Str (js ''signal'') # path) of
              Inl e \<Rightarrow> Inl (TailKey e)
            | Inr key \<Rightarrow> Inr (output, cursor, Some key))
         else Inr (output, cursor, None)))"

text \<open>A feed with an end, collected: every pull sees a state of its own, the list of them is an argument.\<close>

fun collectFeed ::
    "'s txn \<Rightarrow> subspace \<Rightarrow> nat \<Rightarrow> tuple \<Rightarrow> 'a binary_codec \<Rightarrow> int \<Rightarrow> int \<Rightarrow> 's list
      \<Rightarrow> (journal_error + 'a list) option" where
  "collectFeed T dir limit path C until next [] = None"
| "collectFeed T dir limit path C until next (s # states) =
    (case feedRead T dir limit path C (Some until) next s of
       Inl e \<Rightarrow> Some (Inl e)
     | Inr (output, None) \<Rightarrow> Some (Inr output)
     | Inr (output, Some cursor) \<Rightarrow>
         map_option (\<lambda>r. bindR r (\<lambda>rest. Inr (output @ rest))) (collectFeed T dir limit path C until cursor states))"

end
