(* ===== verification/Event_Servers.thy ===== *)
theory Event_Servers
  imports Event_Repository
begin

text \<open>
  The storage of the event-log servers, src/src/eventlog/server-encrypted.ts and server-unencrypted.ts. Their
  entries come from the event-log library: the model keeps the id of an entry, the string form of the id that the
  duplicate test compares, and its contents. A failed write dies; it is a value here.
\<close>

record 'c log_entry =
  entry_id :: bytes
  idString :: js_string
  contents :: 'c

text \<open>A remote entry is an entry with its sequence number.\<close>

type_synonym 'c remote_entry = "'c log_entry \<times> nat"

section \<open>server-encrypted.ts\<close>

definition encryptedPath :: "js_string \<Rightarrow> js_string \<Rightarrow> tuple" where
  "encryptedPath publicKey storeId = [Str (js ''entries''), Str publicKey, Str storeId]"

definition encryptedIds :: "js_string \<Rightarrow> js_string \<Rightarrow> tuple" where
  "encryptedIds publicKey storeId = [Str (js ''ids''), Str publicKey, Str storeId]"

definition encryptedNext :: "js_string \<Rightarrow> js_string \<Rightarrow> tuple" where
  "encryptedNext publicKey storeId = [Str (js ''next''), Str publicKey, Str storeId]"

text \<open>The loop over the entries, with the answers of \<open>hasMany\<close>: the next sequence, the ids seen, what was written.\<close>

fun encryptedLoop ::
    "'s txn \<Rightarrow> subspace \<Rightarrow> 'c remote_entry binary_codec \<Rightarrow> js_string \<Rightarrow> js_string \<Rightarrow> ('c log_entry \<times> bool) list
      \<Rightarrow> nat \<times> js_string list \<times> 'c remote_entry list \<times> 's \<Rightarrow> journal_error + nat \<times> js_string list \<times> 'c remote_entry list \<times> 's" where
  "encryptedLoop T dir C publicKey storeId [] st = Inr st"
| "encryptedLoop T dir C publicKey storeId ((entry, existing) # entries) (sequence, seen, written, s) =
    (if existing \<or> idString entry \<in> set seen
     then encryptedLoop T dir C publicKey storeId entries (sequence, seen, written, s)
     else
       let remote = (entry, sequence);
           path = encryptedPath publicKey storeId @ [BigInt (int sequence)] in
       bindR (repo_put T dir path C remote s) (\<lambda>s.
       bindR (repo_mark T dir path s) (\<lambda>s.
       bindR (repo_mark T dir (encryptedIds publicKey storeId @ [Bytes (entry_id entry)]) s) (\<lambda>s.
         encryptedLoop T dir C publicKey storeId entries
           (sequence + 1, seen @ [idString entry], written @ [remote], s)))))"

definition encrypted_write ::
    "'s txn \<Rightarrow> subspace \<Rightarrow> nat \<Rightarrow> nat binary_codec \<Rightarrow> 'c remote_entry binary_codec \<Rightarrow> js_string \<Rightarrow> js_string
      \<Rightarrow> 'c log_entry list \<Rightarrow> 's \<Rightarrow> journal_error + 'c remote_entry list \<times> 's" where
  "encrypted_write T dir limit N C publicKey storeId entries s =
    bindR (repo_number T dir N (encryptedNext publicKey storeId) 0 s) (\<lambda>first.
    bindR (repo_hasMany T dir limit (map (\<lambda>entry. encryptedIds publicKey storeId @ [Bytes (entry_id entry)]) entries) s)
      (\<lambda>existing.
    bindR (encryptedLoop T dir C publicKey storeId (zip entries existing) (first, [], [], s))
      (\<lambda>(sequence, seen, written, s).
    if written = [] then Inr (written, s)
    else
      bindR (repo_setNumber T dir N (encryptedNext publicKey storeId) sequence s) (\<lambda>s.
      bindR (repo_notify T dir (encryptedPath publicKey storeId) s) (\<lambda>s.
        Inr (written, s))))))"

text \<open>A pull of the change stream, and where it starts.\<close>

definition encrypted_start :: "int \<Rightarrow> int" where
  "encrypted_start startSequence = max 0 startSequence"

definition encrypted_changes ::
    "'s txn \<Rightarrow> subspace \<Rightarrow> nat \<Rightarrow> 'c remote_entry binary_codec \<Rightarrow> js_string \<Rightarrow> js_string \<Rightarrow> bool \<Rightarrow> int \<Rightarrow> 's
      \<Rightarrow> tail_error + 'c remote_entry list \<times> int option \<times> bytes option" where
  "encrypted_changes T dir limit C publicKey storeId ambient next s =
    tailPull dir (encryptedPath publicKey storeId) ambient
      (feedRead T dir limit (encryptedPath publicKey storeId) C None) next s"

section \<open>server-unencrypted.ts\<close>

datatype write_error = WriteJournal journal_error | DuplicateEntries

definition liftWrite :: "journal_error + 'a \<Rightarrow> write_error + 'a" where
  "liftWrite m = (case m of Inl e \<Rightarrow> Inl (WriteJournal e) | Inr x \<Rightarrow> Inr x)"

definition plainPath :: "js_string \<Rightarrow> tuple" where
  "plainPath storeId = [Str (js ''entries''), Str storeId]"

definition plainOrdered :: "js_string \<Rightarrow> tuple" where
  "plainOrdered storeId = [Str (js ''ordered''), Str storeId]"

definition plainById :: "js_string \<Rightarrow> tuple" where
  "plainById storeId = [Str (js ''byId''), Str storeId]"

definition plainNext :: "js_string \<Rightarrow> tuple" where
  "plainNext storeId = [Str (js ''next''), Str storeId]"

definition plain_entriesAfter ::
    "'s txn \<Rightarrow> subspace \<Rightarrow> nat \<Rightarrow> 'c log_entry binary_codec \<Rightarrow> js_string \<Rightarrow> 'c log_entry \<Rightarrow> 's
      \<Rightarrow> (journal_error + 'c log_entry list) option" where
  "plain_entriesAfter T dir limit E storeId entry s =
    Option.bind (repo_all T dir limit (plainOrdered storeId) (Some [Bytes (entry_id entry)]) s) (\<lambda>ids.
      Some (bindR ids (\<lambda>ids. repo_readMany T dir (map (\<lambda>tl_path. plainById storeId @ tl_path) ids) E s)))"

fun plainLoop ::
    "'s txn \<Rightarrow> subspace \<Rightarrow> 'c remote_entry binary_codec \<Rightarrow> 'c log_entry binary_codec \<Rightarrow> js_string \<Rightarrow> ('c log_entry \<times> bool) list
      \<Rightarrow> nat \<times> js_string list \<times> 'c remote_entry list \<times> 's \<Rightarrow> write_error + nat \<times> js_string list \<times> 'c remote_entry list \<times> 's" where
  "plainLoop T dir C E storeId [] st = Inr st"
| "plainLoop T dir C E storeId ((entry, existing) # entries) (next, seen, written, s) =
    (if existing \<or> idString entry \<in> set seen then Inl DuplicateEntries
     else
       let remote = (entry, next);
           path = plainPath storeId @ [BigInt (int next)] in
       bindR (liftWrite (repo_put T dir path C remote s)) (\<lambda>s.
       bindR (liftWrite (repo_mark T dir path s)) (\<lambda>s.
       bindR (liftWrite (repo_put T dir (plainById storeId @ [Bytes (entry_id entry)]) E entry s)) (\<lambda>s.
       bindR (liftWrite (repo_mark T dir (plainOrdered storeId @ [Bytes (entry_id entry)]) s)) (\<lambda>s.
         plainLoop T dir C E storeId entries (next + 1, seen @ [idString entry], written @ [remote], s))))))"

definition plain_write ::
    "'s txn \<Rightarrow> subspace \<Rightarrow> nat \<Rightarrow> nat binary_codec \<Rightarrow> 'c remote_entry binary_codec \<Rightarrow> 'c log_entry binary_codec \<Rightarrow> js_string
      \<Rightarrow> 'c log_entry list \<Rightarrow> 's \<Rightarrow> write_error + 'c remote_entry list \<times> 's" where
  "plain_write T dir limit N C E storeId entries s =
    bindR (liftWrite (repo_number T dir N (plainNext storeId) 1 s)) (\<lambda>first.
    bindR (liftWrite (repo_hasMany T dir limit (map (\<lambda>entry. plainOrdered storeId @ [Bytes (entry_id entry)]) entries) s))
      (\<lambda>existing.
    bindR (plainLoop T dir C E storeId (zip entries existing) (first, [], [], s)) (\<lambda>(next, seen, written, s).
    if written = [] then Inr (written, s)
    else
      bindR (liftWrite (repo_setNumber T dir N (plainNext storeId) next s)) (\<lambda>s.
      bindR (liftWrite (repo_notify T dir (plainPath storeId) s)) (\<lambda>s.
        Inr (written, s))))))"

text \<open>
  The changes of a store. With compactors the backlog up to a committed mark is collected and compacted first
  (\<open>compaction\<close> is the library's), then the feed goes on from the mark; \<open>states\<close> are the states that the pulls of the
  backlog see.
\<close>

definition plain_start :: "int \<Rightarrow> int" where
  "plain_start startSequence = max 1 startSequence"

definition plain_changes ::
    "'s txn \<Rightarrow> subspace \<Rightarrow> nat \<Rightarrow> 'c remote_entry binary_codec \<Rightarrow> js_string \<Rightarrow> bool \<Rightarrow> int \<Rightarrow> 's
      \<Rightarrow> tail_error + 'c remote_entry list \<times> int option \<times> bytes option" where
  "plain_changes T dir limit C storeId ambient next s =
    tailPull dir (plainPath storeId) ambient (feedRead T dir limit (plainPath storeId) C None) next s"

definition plain_backlog ::
    "'s txn \<Rightarrow> subspace \<Rightarrow> nat \<Rightarrow> nat binary_codec \<Rightarrow> 'c remote_entry binary_codec \<Rightarrow> ('c remote_entry list \<Rightarrow> 'c remote_entry list)
      \<Rightarrow> js_string \<Rightarrow> int \<Rightarrow> 's \<Rightarrow> 's list \<Rightarrow> (journal_error + 'c remote_entry list \<times> int) option" where
  "plain_backlog T dir limit N C compaction storeId startSequence s states =
    (let start = plain_start startSequence in
     case repo_number T dir N (plainNext storeId) 1 s of
       Inl e \<Rightarrow> Some (Inl e)
     | Inr end \<Rightarrow>
         map_option (\<lambda>r. bindR r (\<lambda>backlog. Inr (compaction backlog, max start (int end))))
           (collectFeed T dir limit (plainPath storeId) C (int end) start states))"

end
