(* ===== verification/Event_Log.thy ===== *)
theory Event_Log
  imports Event_Servers Stored_Values
begin

text \<open>
  The log that a server keeps for a store, as a list of entries: its rows in the store (the records and the
  index under consecutive sequence numbers, the marks of the ids), what appending an entry does to them, and what
  a page of the index reads.
\<close>

section \<open>What the repository reads and writes\<close>

definition decodedAt :: "'s txn \<Rightarrow> 'a binary_codec \<Rightarrow> bytes \<Rightarrow> 's \<Rightarrow> tuple \<Rightarrow> 'a option" where
  "decodedAt T C p s path = Option.bind (valueAt T s (K p ''values'' path)) (decodeBinary C)"

definition markAt :: "'s txn \<Rightarrow> bytes \<Rightarrow> 's \<Rightarrow> tuple \<Rightarrow> bytes option" where
  "markAt T p s path = tx_get T s (K p ''index'' path)"

lemma protect_Inr [simp]: "protect method m = Inr x \<longleftrightarrow> m = Inr x"
  by (cases m) (auto simp: protect_def)

lemma value_key: "prefix_bytes dir @ encs False (valuePath path) = K (prefix_bytes dir) ''values'' path"
  by (simp add: valuePath_def K_def)

lemma index_key: "prefix_bytes dir @ encs False (indexPath path) = K (prefix_bytes dir) ''index'' path"
  by (simp add: indexPath_def K_def)

lemma packable_paths [simp]:
  "list_all packable (valuePath path) = list_all packable path" "list_all packable (indexPath path) = list_all packable path"
  "list_all constructed (valuePath path) = list_all constructed path" "tuple_ok (indexPath path) = tuple_ok path"
  by (simp_all add: valuePath_def indexPath_def)

lemma repo_get_Inr:
  "repo_get T dir path C s = Inr v \<Longrightarrow> list_all packable path \<and> v = decodedAt T C (prefix_bytes dir) s path"
  by (auto simp: repo_get_def bindR_eq_Inr readChunked_Inr value_key decodedAt_def split: option.splits)

lemma repo_get_Some:
  assumes "list_all packable path" and "decodedAt T C (prefix_bytes dir) s path = Some a"
  shows "repo_get T dir path C s = Inr (Some a)"
proof -
  obtain b where b: "valueAt T s (K (prefix_bytes dir) ''values'' path) = Some b" "decodeBinary C b = Some a"
    using assms(2) by (auto simp: decodedAt_def bind_eq_Some_conv)
  then have "readChunkedValue T s dir (valuePath path) = Inr (Some b)"
    using assms(1) by (simp add: readChunked_Inr value_key)
  with b(2) show ?thesis by (simp add: repo_get_def)
qed

lemma repo_get_None:
  assumes "list_all packable path" and "valueAt T s (K (prefix_bytes dir) ''values'' path) = None"
  shows "repo_get T dir path C s = Inr None"
proof -
  have "readChunkedValue T s dir (valuePath path) = Inr None"
    using value_key [of dir path] assms by (simp add: readChunked_Inr)
  then show ?thesis by (simp add: repo_get_def protect_def)
qed

lemma repo_required_Some:
  "list_all packable path \<Longrightarrow> decodedAt T C (prefix_bytes dir) s path = Some a \<Longrightarrow> repo_required T dir path C s = Inr a"
  by (simp add: repo_required_def repo_get_Some)

lemma repo_number_Inr:
  "repo_number T dir N path d s = Inr n \<Longrightarrow>
     list_all packable path \<and> n = (case decodedAt T N (prefix_bytes dir) s path of None \<Rightarrow> d | Some m \<Rightarrow> m)"
  by (auto simp: repo_number_def bindR_eq_Inr dest!: repo_get_Inr)

lemma mapR_all: "mapR f xs = Inr ys \<Longrightarrow> (\<And>x y. x \<in> set xs \<Longrightarrow> f x = Inr y \<Longrightarrow> y = g x) \<Longrightarrow> ys = map g xs"
  by (induction xs arbitrary: ys) (auto simp: bindR_eq_Inr)

lemma mapR_map: "mapR f (map g xs) = mapR (\<lambda>x. f (g x)) xs"
  by (induction xs) auto

lemma hasMany_Inr:
  "hasManyLoop T dir limit s paths = Inr bs \<Longrightarrow> 0 < limit \<Longrightarrow>
     bs = map (\<lambda>path. markAt T (prefix_bytes dir) s path \<noteq> None) paths"
proof (induction T dir limit s paths arbitrary: bs rule: hasManyLoop.induct)
  case (1 T dir limit s paths)
  show ?case
  proof (cases "paths = []")
    case True
    then show ?thesis using "1.prems" by (simp add: hasManyLoop.simps)
  next
    case False
    then obtain keys rest where k: "mapR (\<lambda>path. liftKey (subspace_pack dir (indexPath path))) (take limit paths) = Inr keys"
      and r: "hasManyLoop T dir limit s (drop limit paths) = Inr rest"
      and bs: "bs = map (\<lambda>v. v \<noteq> None) (tx_getMany T s keys) @ rest"
      using "1.prems" by (subst (asm) hasManyLoop.simps) (auto simp: bindR_eq_Inr)
    have keys: "keys = map (\<lambda>path. K (prefix_bytes dir) ''index'' path) (take limit paths)"
      using k by (rule mapR_all) (simp add: subspace_pack_Inr index_key)
    have "rest = map (\<lambda>path. markAt T (prefix_bytes dir) s path \<noteq> None) (drop limit paths)"
      using "1.IH" False "1.prems"(2) k r by simp
    then show ?thesis
      by (simp add: bs keys tx_getMany_def o_def markAt_def map_append [symmetric] del: map_append)
  qed
qed

context fdb
begin

lemma decodedAt_cong:
  "(\<And>k. inRange p ''values'' path k \<Longrightarrow> tx_get T s' k = tx_get T s k) \<Longrightarrow> decodedAt T C p s' path = decodedAt T C p s path"
  using valueAt_cong [of p "''values''" path s' s] by (simp add: decodedAt_def)

lemma repo_put_Inr:
  assumes "repo_put T dir path C a s = Inr s'" and "list_all constructed path" and "prefix_bytes dir = p"
  shows "tuple_ok path" and "valueAt T s' (K p ''values'' path) = Some (encodeBinary C a)"
    and "\<not> inRange p ''values'' path k \<Longrightarrow> tx_get T s' k = tx_get T s k"
proof -
  have w: "writeChunkedValue T dir (valuePath path) (encodeBinary C a) s = Inr s'"
    using assms(1) by (simp add: repo_put_def)
  note wr = write_Inr [OF w, of p "''values''" path]
  have at: "prefix_bytes dir @ encs False (valuePath path) = K p ''values'' path" using value_key assms(3) by blast
  show "tuple_ok path" using wr(1) at assms(2) by (simp add: valuePath_def)
  show "valueAt T s' (K p ''values'' path) = Some (encodeBinary C a)" using wr(2) at assms(2) by simp
  show "\<not> inRange p ''values'' path k \<Longrightarrow> tx_get T s' k = tx_get T s k" using wr(3) at assms(2) by simp
qed

lemma repo_put_decoded:
  assumes "repo_put T dir path C a s = Inr s'" and "list_all constructed path" and "prefix_bytes dir = p" and "binary_codec C"
  shows "decodedAt T C p s' path = Some a"
  using repo_put_Inr(2) [OF assms(1-3)] binary_codec.decode_encode_binary [OF assms(4)] by (simp add: decodedAt_def)

lemma repo_mark_Inr:
  assumes "repo_mark T dir path s = Inr s'" and "prefix_bytes dir = p"
  shows "list_all packable path" and "tx_get T s' = (tx_get T s)(K p ''index'' path := Some [])"
  using assms by (auto simp: repo_mark_def bindR_eq_Inr subspace_pack_Inr index_key set_fun)

lemma repo_notify_Inr:
  assumes "repo_notify T dir path s = Inr s'" and "prefix_bytes dir = p" and "k \<noteq> K p ''signal'' path"
  shows "tx_get T s' k = tx_get T s k"
  using assms by (auto simp: repo_notify_def bindR_eq_Inr subspace_pack_Inr K_def get_add)

end

section \<open>A log\<close>

record log_paths =
  log_at :: tuple
  ids_at :: tuple
  next_at :: tuple
  first_sequence :: nat

definition seqPath :: "log_paths \<Rightarrow> nat \<Rightarrow> tuple" where
  "seqPath L i = log_at L @ [BigInt (int (first_sequence L + i))]"

definition idPath :: "log_paths \<Rightarrow> bytes \<Rightarrow> tuple" where
  "idPath L x = ids_at L @ [Bytes x]"

definition log_paths_ok :: "log_paths \<Rightarrow> bool" where
  "log_paths_ok L \<longleftrightarrow> tuple_ok (log_at L) \<and> tuple_ok (ids_at L) \<and> tuple_ok (next_at L)
     \<and> \<not> prefix (log_at L) (ids_at L) \<and> \<not> prefix (ids_at L) (log_at L)
     \<and> \<not> prefix (log_at L) (next_at L) \<and> \<not> prefix (next_at L) (log_at L)"

text \<open>The record and the index row of every entry, and a mark for every id; nothing else is in the index.\<close>

definition log_rows ::
    "'s txn \<Rightarrow> 'c remote_entry binary_codec \<Rightarrow> bytes \<Rightarrow> log_paths \<Rightarrow> 's \<Rightarrow> 'c log_entry list \<Rightarrow> bool" where
  "log_rows T C p L s xs \<longleftrightarrow>
     (\<forall>i < length xs. smallInt (int (first_sequence L + i))
        \<and> decodedAt T C p s (seqPath L i) = Some (xs ! i, first_sequence L + i))
   \<and> (\<forall>k. inRange p ''index'' (log_at L) k \<longrightarrow>
        tx_get T s k = (if \<exists>i < length xs. k = K p ''index'' (seqPath L i) then Some [] else None))
   \<and> (\<forall>x. markAt T p s (idPath L x) \<noteq> None \<longleftrightarrow> x \<in> entry_id ` set xs)
   \<and> distinct (map entry_id xs)"

definition log_holds ::
    "'s txn \<Rightarrow> nat binary_codec \<Rightarrow> 'c remote_entry binary_codec \<Rightarrow> bytes \<Rightarrow> log_paths \<Rightarrow> 's \<Rightarrow> 'c log_entry list \<Rightarrow> bool" where
  "log_holds T N C p L s xs \<longleftrightarrow> log_rows T C p L s xs
     \<and> (case decodedAt T N p s (next_at L) of None \<Rightarrow> xs = [] | Some n \<Rightarrow> n = first_sequence L + length xs)"

text \<open>The keys that belong to a log: its rows, and its counter.\<close>

definition row_key :: "bytes \<Rightarrow> log_paths \<Rightarrow> bytes \<Rightarrow> bool" where
  "row_key p L k \<longleftrightarrow> inRange p ''values'' (log_at L) k \<or> inRange p ''index'' (log_at L) k
     \<or> inRange p ''index'' (ids_at L) k"

definition log_key :: "bytes \<Rightarrow> log_paths \<Rightarrow> bytes \<Rightarrow> bool" where
  "log_key p L k \<longleftrightarrow> row_key p L k \<or> inRange p ''values'' (next_at L) k"

lemma seqPath_ok [simp]: "tuple_ok (seqPath L i) \<longleftrightarrow> tuple_ok (log_at L) \<and> smallInt (int (first_sequence L + i))"
  by (simp add: seqPath_def)

lemma seqPath_inj [simp]: "seqPath L i = seqPath L j \<longleftrightarrow> i = j"
  by (simp add: seqPath_def)

lemma idPath_ok [simp]: "tuple_ok (idPath L x) \<longleftrightarrow> tuple_ok (ids_at L)"
  by (simp add: idPath_def)

lemma inRange_seq: "tuple_ok (log_at L) \<Longrightarrow> smallInt (int (first_sequence L + i)) \<Longrightarrow>
    inRange p ''values'' (seqPath L i) k \<Longrightarrow> inRange p ''values'' (log_at L) k"
  using inRange_nested [of p "''values''" "log_at L" "[BigInt (int (first_sequence L + i))]" k] by (simp add: seqPath_def)

lemma seq_key_in: "tuple_ok (log_at L) \<Longrightarrow> smallInt (int (first_sequence L + i)) \<Longrightarrow>
    inRange p ''index'' (log_at L) (K p ''index'' (seqPath L i))"
  by (simp add: seqPath_def strict_prefix_def)

lemma id_key_in: "tuple_ok (ids_at L) \<Longrightarrow> inRange p ''index'' (ids_at L) (K p ''index'' (idPath L x))"
  by (simp add: idPath_def strict_prefix_def)

context fdb
begin

lemma log_rows_cong:
  assumes L: "log_paths_ok L" and g: "\<And>k. row_key p L k \<Longrightarrow> tx_get T s' k = tx_get T s k"
  shows "log_rows T C p L s' xs \<longleftrightarrow> log_rows T C p L s xs"
proof -
  have v: "decodedAt T C p s' (seqPath L i) = decodedAt T C p s (seqPath L i)" if "smallInt (int (first_sequence L + i))" for i
    using L g inRange_seq [of L i p] that by (intro decodedAt_cong) (auto simp: log_paths_ok_def row_key_def)
  have m: "markAt T p s' (idPath L x) = markAt T p s (idPath L x)" for x
    using L g id_key_in [of L p x] by (simp add: log_paths_ok_def row_key_def markAt_def)
  have i: "tx_get T s' k = tx_get T s k" if "inRange p ''index'' (log_at L) k" for k
    using g that by (simp add: row_key_def)
  show ?thesis unfolding log_rows_def m using v i by auto
qed

lemma log_holds_cong:
  assumes L: "log_paths_ok L" and g: "\<And>k. log_key p L k \<Longrightarrow> tx_get T s' k = tx_get T s k"
  shows "log_holds T N C p L s' xs \<longleftrightarrow> log_holds T N C p L s xs"
proof -
  have "decodedAt T N p s' (next_at L) = decodedAt T N p s (next_at L)"
    using g by (intro decodedAt_cong) (simp add: log_key_def)
  moreover have "log_rows T C p L s' xs \<longleftrightarrow> log_rows T C p L s xs"
    by (rule log_rows_cong [OF L g]) (simp add: log_key_def)
  ultimately show ?thesis by (simp add: log_holds_def)
qed

text \<open>An entry with a new id is appended.\<close>

lemma log_append:
  assumes L: "log_paths_ok L" and C: "binary_codec C" and dir: "prefix_bytes dir = p"
    and rows: "log_rows T C p L s xs" and new: "entry_id e \<notin> entry_id ` set xs"
    and put: "repo_put T dir (seqPath L (length xs)) C (e, first_sequence L + length xs) s = Inr s1"
    and mark: "repo_mark T dir (seqPath L (length xs)) s1 = Inr s2"
    and quiet: "\<And>k. row_key p L k \<Longrightarrow> tx_get T s2' k = tx_get T s2 k"
    and mid: "repo_mark T dir (idPath L (entry_id e)) s2' = Inr s3"
  shows "log_rows T C p L s3 (xs @ [e])"
    and "tx_get T s3 k \<noteq> tx_get T s k \<Longrightarrow> row_key p L k \<or> tx_get T s2' k \<noteq> tx_get T s2 k"
    and "smallInt (int (first_sequence L + length xs))"
proof -
  let ?n = "length xs"
  have ok: "tuple_ok (log_at L)" "tuple_ok (ids_at L)" using L by (simp_all add: log_paths_ok_def)
  have c: "list_all constructed (seqPath L ?n)" using ok by (simp add: seqPath_def tuple_ok_def)
  note pt = repo_put_Inr [OF put c dir]
  note mk = repo_mark_Inr [OF mark dir] and mi = repo_mark_Inr [OF mid dir]
  show small: "smallInt (int (first_sequence L + ?n))" using pt(1) by simp
  have keys: "row_key p L k" if "inRange p ''values'' (seqPath L i) k" "smallInt (int (first_sequence L + i))" for i k
    using inRange_seq [OF ok(1) that(2,1)] by (simp add: row_key_def)
  have sk: "row_key p L (K p ''index'' (seqPath L ?n))" "row_key p L (K p ''index'' (idPath L x))" for x
    using seq_key_in [OF ok(1) small] id_key_in [OF ok(2)] by (simp_all add: row_key_def)
  have get: "tx_get T s3 k = (if k = K p ''index'' (idPath L (entry_id e)) \<or> k = K p ''index'' (seqPath L ?n) then Some []
      else if inRange p ''values'' (seqPath L ?n) k then tx_get T s1 k else tx_get T s k)" if "row_key p L k" for k
    using pt(3) [of k] quiet [OF that] by (auto simp: mk(2) mi(2))
  show "tx_get T s3 k \<noteq> tx_get T s k \<Longrightarrow> row_key p L k \<or> tx_get T s2' k \<noteq> tx_get T s2 k"
    using pt(3) [of k] keys [OF _ small, of k] sk
    by (cases "inRange p ''values'' (seqPath L ?n) k") (auto simp: mk(2) mi(2) split: if_splits)
  have old: "decodedAt T C p s3 (seqPath L i) = decodedAt T C p s (seqPath L i)" if i: "i < ?n" for i
  proof (rule decodedAt_cong)
    fix k assume k: "inRange p ''values'' (seqPath L i) k"
    have "smallInt (int (first_sequence L + i))" using rows i by (simp add: log_rows_def)
    then have "\<not> inRange p ''values'' (seqPath L ?n) k"
      using inRange_disjoint [OF k, of "''values''" "seqPath L ?n"] ok small i by (auto simp: seqPath_def)
    moreover have "k \<noteq> K p ''index'' r" if "tuple_ok r" for r
      using k that ok \<open>smallInt (int (first_sequence L + i))\<close> by auto
    ultimately show "tx_get T s3 k = tx_get T s k"
      using ok small keys [OF k] \<open>smallInt (int (first_sequence L + i))\<close> by (simp add: get)
  qed
  have "decodedAt T C p s3 (seqPath L ?n) = decodedAt T C p s1 (seqPath L ?n)"
    by (rule decodedAt_cong) (use ok small keys in \<open>auto simp: get\<close>)
  then have last: "decodedAt T C p s3 (seqPath L ?n) = Some (e, first_sequence L + ?n)"
    using repo_put_decoded [OF put c dir C] by simp
  have apart: "\<not> inRange p ''index'' (log_at L) (K p ''index'' (idPath L x))" for x
    using L inRange_disjoint [of p "''index''" "log_at L" "K p ''index'' (idPath L x)" "''index''" "ids_at L"] id_key_in [OF ok(2), of p x] ok
    by (auto simp: log_paths_ok_def)
  have index: "tx_get T s3 k = (if \<exists>i < Suc ?n. k = K p ''index'' (seqPath L i) then Some [] else None)"
    if k: "inRange p ''index'' (log_at L) k" for k
  proof -
    have "k \<noteq> K p ''index'' (idPath L (entry_id e))" using apart k by blast
    moreover have "\<not> inRange p ''values'' (seqPath L ?n) k"
      using inRange_disjoint [OF k, of "''values''" "seqPath L ?n"] ok small by auto
    moreover have "tx_get T s k = (if \<exists>i < ?n. k = K p ''index'' (seqPath L i) then Some [] else None)"
      using rows k unfolding log_rows_def by blast
    moreover have "row_key p L k" using k by (simp add: row_key_def)
    ultimately show ?thesis by (auto simp: get less_Suc_eq)
  qed
  have "markAt T p s3 (idPath L x) = (if x = entry_id e then Some [] else markAt T p s (idPath L x))" for x
  proof -
    have "\<not> inRange p ''values'' (seqPath L ?n) (K p ''index'' (idPath L x))" using ok small by simp
    moreover have "K p ''index'' (idPath L x) \<noteq> K p ''index'' (seqPath L ?n)"
      using apart [of x] seq_key_in [OF ok(1) small, of p] by metis
    ultimately show ?thesis using ok sk(2) by (simp add: markAt_def get) (simp add: idPath_def)
  qed
  then have marks: "markAt T p s3 (idPath L x) \<noteq> None \<longleftrightarrow> x \<in> entry_id ` set (xs @ [e])" for x
    using rows by (auto simp: log_rows_def)
  show "log_rows T C p L s3 (xs @ [e])"
    unfolding log_rows_def
  proof (intro conjI allI impI)
    show "distinct (map entry_id (xs @ [e]))" using rows new by (simp add: log_rows_def)
    show "markAt T p s3 (idPath L x) \<noteq> None \<longleftrightarrow> x \<in> entry_id ` set (xs @ [e])" for x by (rule marks)
    show "tx_get T s3 k = (if \<exists>i < length (xs @ [e]). k = K p ''index'' (seqPath L i) then Some [] else None)"
      if "inRange p ''index'' (log_at L) k" for k using index [OF that] by simp
    show "smallInt (int (first_sequence L + i))"
      and "decodedAt T C p s3 (seqPath L i) = Some ((xs @ [e]) ! i, first_sequence L + i)"
      if "i < length (xs @ [e])" for i
      using that rows small old last by (auto simp: log_rows_def nth_append less_Suc_eq)
  qed
qed

end

section \<open>Reading the index\<close>

lemma seq_less:
  assumes "tuple_ok (log_at L)" and "smallInt (int (first_sequence L + i))" and "smallInt (int (first_sequence L + j))"
  shows "K p ''index'' (seqPath L i) < K p ''index'' (seqPath L j) \<longleftrightarrow> i < j"
  using encInt_less [OF assms(2,3), of "[]" "[]"] by (simp add: K_def seqPath_def append_less_append_same)

lemma take_upt': "take n [a..<b] = [a..<min (a + n) b]"
  by (cases "a + n \<le> b") (simp_all add: min_def take_upt)

lemma filter_upt_less: "filter (\<lambda>i. i < u) [a..<b] = [a..<min u b]"
proof (induction b)
  case (Suc b)
  then show ?case by (cases "u \<le> b"; cases "a \<le> b") (auto simp: min_def le_Suc_eq)
qed simp

lemma upt_max: "[a..<max a b] = [a..<b]"
  by (simp add: max_def)

text \<open>Where a pull from \<open>d\<close> ends.\<close>

definition feedEnd :: "nat \<Rightarrow> nat option \<Rightarrow> nat \<Rightarrow> 'a list \<Rightarrow> nat" where
  "feedEnd limit until d xs =
     max d (min (case until of None \<Rightarrow> d + limit | Some u \<Rightarrow> min u (d + limit)) (length xs))"

definition sequences :: "log_paths \<Rightarrow> 'c log_entry list \<Rightarrow> nat \<Rightarrow> nat list" where
  "sequences L xs d = map (\<lambda>i. first_sequence L + i) [d..<length xs]"

context fdb
begin

lemma log_index:
  assumes L: "log_paths_ok L" and rows: "log_rows T C p L s xs" and small: "smallInt (int (first_sequence L + d))"
  shows "tx_getRange T s (keyRange (K p ''index'' (seqPath L d)) (K p ''index'' (log_at L) @ [ESCAPE]) None False)
    = map (\<lambda>i. (K p ''index'' (seqPath L i), [])) [d..<length xs]" (is "?rows = ?list")
proof -
  have ok: "tuple_ok (log_at L)" using L by (simp add: log_paths_ok_def)
  have si: "smallInt (int (first_sequence L + i))" if "i < length xs" for i using rows that by (simp add: log_rows_def)
  have sorted: "sorted_wrt (<) (map fst ?list)"
    unfolding sorted_wrt_map map_map o_def fst_conv
    by (rule sorted_wrt_mono_rel [OF _ sorted_wrt_upt]) (use seq_less [OF ok si si] in auto)
  have idx: "tx_get T s k = (if \<exists>i < length xs. k = K p ''index'' (seqPath L i) then Some [] else None)"
    if "inRange p ''index'' (log_at L) k" for k
    using rows that unfolding log_rows_def by blast
  have lo: "K p ''index'' (log_at L) @ [NIL] \<le> K p ''index'' (seqPath L d)"
    using seq_key_in [OF ok small, of p] by (simp add: inRange_def)
  have le: "K p ''index'' (seqPath L d) \<le> K p ''index'' (seqPath L i) \<longleftrightarrow> d \<le> i" if "i < length xs" for i
    using seq_less [OF ok si [OF that] small, of p] by (simp add: not_less [symmetric])
  have "set ?rows = set ?list"
  proof (intro set_eqI iffI)
    fix r assume "r \<in> set ?rows"
    then have r: "K p ''index'' (seqPath L d) \<le> fst r" "fst r < K p ''index'' (log_at L) @ [ESCAPE]" "tx_get T s (fst r) = Some (snd r)"
      by (auto simp: range_rows)
    then have "inRange p ''index'' (log_at L) (fst r)" using lo by (auto simp: inRange_def)
    from idx [OF this] r(3) obtain i where i: "i < length xs" "fst r = K p ''index'' (seqPath L i)" "snd r = []"
      by (auto split: if_splits)
    with le [OF i(1)] r(1) have "d \<le> i" by simp
    with i show "r \<in> set ?list" by (cases r) auto
  next
    fix r assume "r \<in> set ?list"
    then obtain i where i: "d \<le> i" "i < length xs" "r = (K p ''index'' (seqPath L i), [])" by auto
    have key: "inRange p ''index'' (log_at L) (K p ''index'' (seqPath L i))" by (rule seq_key_in [OF ok si [OF i(2)]])
    then have "tx_get T s (K p ''index'' (seqPath L i)) = Some []" using idx i(2) by auto
    with key i le show "r \<in> set ?rows" by (auto simp: range_rows inRange_def)
  qed
  then show ?thesis by (rule sorted_rows_unique [OF range_sorted sorted])
qed

lemma page_log:
  assumes L: "log_paths_ok L" and rows: "log_rows T C p L s xs" and small: "smallInt (int (first_sequence L + d))"
    and dir: "prefix_bytes dir = p"
  shows "\<exists>cursor. repo_page T dir limit (log_at L) None (Some [BigInt (int (first_sequence L + d))]) s
    = Inr (map (\<lambda>n. [BigInt (int n)]) (take limit (sequences L xs d)), cursor)"
proof -
  have ok: "tuple_ok (log_at L)" using L by (simp add: log_paths_ok_def)
  have pk: "list_all packable (log_at L)" using ok by (simp add: tuple_ok_def)
  have si: "smallInt (int (first_sequence L + i))" if "i < length xs" for i using rows that by (simp add: log_rows_def)
  have range: "subspace_range dir (indexPath (log_at L))
      = Inr (K p ''index'' (log_at L) @ [NIL], K p ''index'' (log_at L) @ [ESCAPE])"
    using pk index_key [of dir "log_at L"] by (simp add: subspace_range_Inr dir append_assoc [symmetric] del: append_assoc)
  have first: "subspace_pack dir (indexPath (log_at L @ [BigInt (int (first_sequence L + d))])) = Inr (K p ''index'' (seqPath L d))"
    using pk small index_key [of dir "seqPath L d"] by (simp add: subspace_pack_Inr seqPath_def dir)
  let ?is = "take limit [d..<length xs]"
  have got: "tx_getRange T s (keyRange (K p ''index'' (seqPath L d)) (K p ''index'' (log_at L) @ [ESCAPE]) (Some limit) False)
      = map (\<lambda>i. (K p ''index'' (seqPath L i), [])) ?is"
    by (subst range_options) (simp add: limitRows_def log_index [OF L rows small] take_map)
  have unpack: "subspace_unpack dir (K p ''index'' (seqPath L i)) = Inr (indexPath (seqPath L i))" if "i < length xs" for i
    using subspace_unpack_enc [of "indexPath (seqPath L i)" dir] index_key [of dir "seqPath L i"] ok si [OF that] by (simp add: dir)
  have paths: "mapR (\<lambda>row. liftKey (subspace_unpack dir (fst row))) (map (\<lambda>i. (K p ''index'' (seqPath L i), [] :: bytes)) ?is)
      = Inr (map (\<lambda>i. indexPath (seqPath L i)) ?is)"
    unfolding mapR_map by (rule mapR_Inr) (auto simp: unpack dest!: in_set_takeD)
  have drop: "drop (Suc (length (log_at L))) (indexPath (seqPath L i)) = [BigInt (int (first_sequence L + i))]" for i
    by (simp add: indexPath_def seqPath_def)
  have "sequences L xs d = map (\<lambda>i. first_sequence L + i) [d..<length xs]" by (rule sequences_def)
  then show ?thesis
    by (simp add: repo_page_def range first got paths o_def drop take_map del: of_nat_add) 
qed

text \<open>A pull of the feed returns the entries from \<open>d\<close> on, a page of them, and where the next pull starts.\<close>

lemma readMany_log:
  assumes L: "log_paths_ok L" and rows: "log_rows T C p L s xs" and dir: "prefix_bytes dir = p" and "\<And>i. i \<in> set is \<Longrightarrow> i < length xs"
  shows "repo_readMany T dir (map (seqPath L) is) C s = Inr (map (\<lambda>i. (xs ! i, first_sequence L + i)) is)"
  unfolding repo_readMany_def mapR_map
proof (rule mapR_Inr)
  fix i assume "i \<in> set is"
  then have i: "smallInt (int (first_sequence L + i))" "decodedAt T C p s (seqPath L i) = Some (xs ! i, first_sequence L + i)"
    using rows assms(4) by (simp_all add: log_rows_def)
  have "tuple_ok (seqPath L i)" using L i(1) by (simp add: log_paths_ok_def)
  then have "list_all packable (seqPath L i)" by (simp add: tuple_ok_def)
  then show "repo_required T dir (seqPath L i) C s = Inr (xs ! i, first_sequence L + i)"
    using i(2) by (simp add: repo_required_Some dir)
qed

lemma feed_log:
  assumes L: "log_paths_ok L" and rows: "log_rows T C p L s xs" and small: "smallInt (int (first_sequence L + d))"
    and dir: "prefix_bytes dir = p"
  shows "feedRead T dir limit (log_at L) C (map_option (\<lambda>u. int (first_sequence L + u)) until) (int (first_sequence L + d)) s
    = Inr (map (\<lambda>i. (xs ! i, first_sequence L + i)) [d..<feedEnd limit until d xs],
        (case until of
           None \<Rightarrow> Some (int (first_sequence L + feedEnd limit until d xs))
         | Some u \<Rightarrow> if feedEnd limit until d xs = d \<or> u \<le> feedEnd limit until d xs then None
             else Some (int (first_sequence L + feedEnd limit until d xs))))"
proof -
  let ?f = "first_sequence L" and ?e = "feedEnd limit until d xs"
  obtain cursor where page: "repo_page T dir limit (log_at L) None (Some [BigInt (int (?f + d))]) s
    = Inr (map (\<lambda>n. [BigInt (int n)]) (take limit (sequences L xs d)), cursor)"
    using page_log [OF L rows small dir] by blast
  have seqs: "take limit (sequences L xs d) = map (\<lambda>i. ?f + i) [d..<min (d + limit) (length xs)]"
    by (simp add: sequences_def take_map take_upt')
  have kept: "filter (\<lambda>tl_path. map_option (\<lambda>u. int (?f + u)) until = None
        \<or> sequenceOf tl_path < the (map_option (\<lambda>u. int (?f + u)) until))
      (map (\<lambda>n. [BigInt (int n)]) (take limit (sequences L xs d))) = map (\<lambda>i. [BigInt (int (?f + i))]) [d..<?e]"
  proof (cases until)
    case None
    then show ?thesis unfolding seqs by (simp add: feedEnd_def o_def upt_max)
  next
    case (Some u)
    have f: "filter (\<lambda>i. i < u) [d..<min (d + limit) (length xs)] = [d..<?e]"
      by (simp add: filter_upt_less Some feedEnd_def upt_max min.assoc)
    show ?thesis unfolding seqs Some by (simp add: filter_map o_def sequenceOf_def f [unfolded Some])
  qed
  have many: "repo_readMany T dir (map (\<lambda>tl_path. log_at L @ tl_path) (map (\<lambda>i. [BigInt (int (?f + i))]) [d..<?e])) C s
      = Inr (map (\<lambda>i. (xs ! i, ?f + i)) [d..<?e])"
  proof -
    have "map (\<lambda>tl_path. log_at L @ tl_path) (map (\<lambda>i. [BigInt (int (?f + i))]) [d..<?e]) = map (seqPath L) [d..<?e]"
      unfolding map_map o_def seqPath_def ..
    moreover have "i < length xs" if "i \<in> set [d..<?e]" for i using that by (auto simp: feedEnd_def)
    ultimately show ?thesis using readMany_log [OF L rows dir] by (simp only:)
  qed
  have e: "d \<le> ?e" by (simp add: feedEnd_def)
  have cursor: "(if map (\<lambda>i. [BigInt (int (?f + i))]) [d..<?e] = [] then int (?f + d)
      else sequenceOf (last (map (\<lambda>i. [BigInt (int (?f + i))]) [d..<?e])) + 1) = int (?f + ?e)"
    using e by (cases "d = ?e") (simp_all add: last_map sequenceOf_def)
  have empty: "map (\<lambda>i. (xs ! i, ?f + i)) [d..<?e] = [] \<longleftrightarrow> ?e = d" using e by auto
  show ?thesis
    unfolding feedRead_def page bindR_simps prod.case kept Let_def many cursor empty
    by (cases until) simp_all
qed

end

end
