(* ===== verification/Event_Properties.thy ===== *)
theory Event_Properties
  imports Event_Log Sample_Codecs
begin

text \<open>
  What the storage of the event-log servers guarantees: a write appends the entries that are new, with consecutive
  sequence numbers, and a subscriber sees the log in order, every entry once.
\<close>

section \<open>The logs of the two servers\<close>

definition encryptedLog :: "js_string \<Rightarrow> js_string \<Rightarrow> log_paths" where
  "encryptedLog publicKey storeId =
    \<lparr>log_at = encryptedPath publicKey storeId, ids_at = encryptedIds publicKey storeId,
     next_at = encryptedNext publicKey storeId, first_sequence = 0\<rparr>"

definition plainLog :: "js_string \<Rightarrow> log_paths" where
  "plainLog storeId =
    \<lparr>log_at = plainPath storeId, ids_at = plainOrdered storeId, next_at = plainNext storeId, first_sequence = 1\<rparr>"

lemma encryptedLog_sel [simp]:
  "log_at (encryptedLog pk sid) = encryptedPath pk sid" "ids_at (encryptedLog pk sid) = encryptedIds pk sid"
  "next_at (encryptedLog pk sid) = encryptedNext pk sid" "first_sequence (encryptedLog pk sid) = 0"
  by (simp_all add: encryptedLog_def)

lemma plainLog_sel [simp]:
  "log_at (plainLog sid) = plainPath sid" "ids_at (plainLog sid) = plainOrdered sid"
  "next_at (plainLog sid) = plainNext sid" "first_sequence (plainLog sid) = 1"
  by (simp_all add: plainLog_def)

lemmas encrypted_paths = encryptedPath_def encryptedIds_def encryptedNext_def
lemmas plain_paths = plainPath_def plainOrdered_def plainNext_def plainById_def

lemma encryptedLog_ok [simp]: "log_paths_ok (encryptedLog pk sid) \<longleftrightarrow> wellFormed pk \<and> wellFormed sid"
  by (auto simp: log_paths_ok_def encrypted_paths)

lemma plainLog_ok [simp]: "log_paths_ok (plainLog sid) \<longleftrightarrow> wellFormed sid"
  by (auto simp: log_paths_ok_def plain_paths)

lemma range_apart:
  "tuple_ok r1 \<Longrightarrow> tuple_ok r2 \<Longrightarrow> n1 \<noteq> n2 \<or> \<not> prefix r1 r2 \<and> \<not> prefix r2 r1 \<Longrightarrow> inRange p n1 r1 k \<Longrightarrow> \<not> inRange p n2 r2 k"
  using inRange_disjoint by blast

lemma encrypted_apart:
  assumes "wellFormed pk" "wellFormed sid" "wellFormed pk'" "wellFormed sid'" "(pk, sid) \<noteq> (pk', sid')"
    and "log_key p (encryptedLog pk sid) k"
  shows "\<not> log_key p (encryptedLog pk' sid') k"
proof -
  have ok: "log_paths_ok (encryptedLog pk sid)" "log_paths_ok (encryptedLog pk' sid')" using assms(1-4) by simp_all
  have "\<not> inRange p n r k" if "(n, r) \<in> {(''values'', encryptedPath pk' sid'), (''index'', encryptedPath pk' sid'),
      (''index'', encryptedIds pk' sid'), (''values'', encryptedNext pk' sid')}" for n r
  proof -
    obtain m q where mq: "(m, q) \<in> {(''values'', encryptedPath pk sid), (''index'', encryptedPath pk sid),
      (''index'', encryptedIds pk sid), (''values'', encryptedNext pk sid)}" "inRange p m q k"
      using assms(6) by (auto simp: log_key_def row_key_def)
    then have "tuple_ok q" "tuple_ok r" using that assms(1-4) by (auto simp: encrypted_paths)
    moreover have "m \<noteq> n \<or> \<not> prefix q r \<and> \<not> prefix r q" using mq(1) that assms(5) by (auto simp: encrypted_paths)
    ultimately show ?thesis using range_apart mq(2) by blast
  qed
  then show ?thesis by (auto simp: log_key_def row_key_def)
qed

section \<open>New entries\<close>

text \<open>The entries of a batch whose id is neither known nor earlier in the batch.\<close>

fun firstNew :: "bytes set \<Rightarrow> 'c log_entry list \<Rightarrow> 'c log_entry list" where
  "firstNew known [] = []"
| "firstNew known (e # es) =
    (if entry_id e \<in> known then firstNew known es else e # firstNew (insert (entry_id e) known) es)"

lemma firstNew_all: "distinct (map entry_id es) \<Longrightarrow> entry_id ` set es \<inter> known = {} \<Longrightarrow> firstNew known es = es"
  by (induction es arbitrary: known) auto

definition numbered :: "nat \<Rightarrow> 'c log_entry list \<Rightarrow> 'c remote_entry list" where
  "numbered n es = zip es [n..<n + length es]"

lemma numbered_simps [simp]: "numbered n [] = []" "numbered n (e # es) = (e, n) # numbered (Suc n) es"
  by (auto simp: numbered_def upt_rec [of n] Suc_le_eq)

lemma numbered_empty [simp]: "numbered n es = [] \<longleftrightarrow> es = []"
  by (cases es) simp_all

section \<open>The signal\<close>

lemma signal_changes: "Some (addLE v [1, 0, 0, 0, 0, 0, 0, 0]) \<noteq> v"
proof (cases v)
  case (Some w)
  let ?one = "[1, 0, 0, 0, 0, 0, 0, 0] :: bytes"
  have one: "leNat ?one = 1" "length ?one = 8" by (simp_all add: leNat_def beNat_def)
  show ?thesis
  proof (cases "length w = 8")
    case True
    have l: "leNat w < 256 ^ 8" using beNat_bound [of "rev w"] True by (simp add: leNat_def)
    have "leNat (addLE v ?one) = (leNat w + 1) mod 256 ^ 8"
      unfolding addLE_def Let_def Some option.case one(1,2) using True
      by (simp only: leNat_def rev_rev_ident beNat_natBE_mod) (simp add: leNat_def)
    moreover have "(leNat w + 1) mod 256 ^ 8 \<noteq> leNat w" using l by (cases "leNat w + 1 = 256 ^ 8") auto
    ultimately show ?thesis using Some by auto
  next
    case False
    have "length (addLE v ?one) = 8" by (simp add: addLE_def Let_def del: natBE.simps)
    with False Some show ?thesis by auto
  qed
qed simp

context fdb
begin

section \<open>The encrypted server\<close>

lemma encryptedLoop_Inr:
  assumes L: "L = encryptedLog pk sid" and ok: "wellFormed pk" "wellFormed sid" and C: "binary_codec C" and dir: "prefix_bytes dir = p"
  shows "encryptedLoop T dir C pk sid (zip es (map (\<lambda>e. entry_id e \<in> known) es)) (length ys, seen, written, s)
      = Inr (q, seen', written', s') \<Longrightarrow>
    log_rows T C p L s ys \<Longrightarrow> entry_id ` set ys = known \<union> ids \<Longrightarrow>
    (\<And>e. e \<in> set es \<Longrightarrow> idString e \<in> set seen \<longleftrightarrow> entry_id e \<in> ids) \<Longrightarrow>
    (\<And>e f. e \<in> set es \<Longrightarrow> f \<in> set es \<Longrightarrow> idString e = idString f \<longleftrightarrow> entry_id e = entry_id f) \<Longrightarrow>
    (let new = firstNew (entry_id ` set ys) es in
       log_rows T C p L s' (ys @ new) \<and> q = length ys + length new \<and> written' = written @ numbered (length ys) new
       \<and> (\<forall>k. \<not> row_key p L k \<longrightarrow> tx_get T s' k = tx_get T s k))"
proof (induction es arbitrary: ys seen written s ids)
  case (Cons e es)
  have flag: "entry_id e \<in> known \<or> idString e \<in> set seen \<longleftrightarrow> entry_id e \<in> entry_id ` set ys"
    using Cons.prems(3,4) by auto
  show ?case
  proof (cases "entry_id e \<in> entry_id ` set ys")
    case True
    then have "encryptedLoop T dir C pk sid (zip es (map (\<lambda>e. entry_id e \<in> known) es)) (length ys, seen, written, s)
      = Inr (q, seen', written', s')" using Cons.prems(1) flag by simp
    from Cons.IH [OF this Cons.prems(2,3)] Cons.prems(4,5) True show ?thesis by (simp add: Let_def)
  next
    case False
    let ?path = "encryptedPath pk sid @ [BigInt (int (length ys))]"
    have paths: "?path = seqPath L (length ys)" "encryptedIds pk sid @ [Bytes (entry_id e)] = idPath L (entry_id e)"
      by (simp_all add: L seqPath_def idPath_def)
    obtain s1 s2 s3 where w: "repo_put T dir (seqPath L (length ys)) C (e, first_sequence L + length ys) s = Inr s1"
      "repo_mark T dir (seqPath L (length ys)) s1 = Inr s2" "repo_mark T dir (idPath L (entry_id e)) s2 = Inr s3"
      and rest: "encryptedLoop T dir C pk sid (zip es (map (\<lambda>e. entry_id e \<in> known) es))
        (length (ys @ [e]), seen @ [idString e], written @ [(e, length ys)], s3) = Inr (q, seen', written', s')"
      using Cons.prems(1) flag False by (auto simp: Let_def bindR_eq_Inr paths L)
    have Lok: "log_paths_ok L" using ok by (simp add: L)
    note app = log_append [OF Lok C dir Cons.prems(2) False w(1,2) refl w(3)]
    have ids: "entry_id ` set (ys @ [e]) = known \<union> insert (entry_id e) ids" using Cons.prems(3) by auto
    have seen: "idString x \<in> set (seen @ [idString e]) \<longleftrightarrow> entry_id x \<in> insert (entry_id e) ids" if "x \<in> set es" for x
      using Cons.prems(4) [of x] Cons.prems(5) [of x e] that by auto
    have "tx_get T s3 k = tx_get T s k" if "\<not> row_key p L k" for k using app(2) [of k] that by blast
    with Cons.IH [OF rest app(1) ids seen] Cons.prems(5) False show ?thesis by (auto simp: Let_def)
  qed
qed (auto simp: Let_def)

lemma log_number:
  assumes L: "log_holds T N C p L s xs" and dir: "prefix_bytes dir = p"
    and "repo_number T dir N (next_at L) (first_sequence L) s = Inr n"
  shows "n = first_sequence L + length xs" and "list_all packable (next_at L)"
  using repo_number_Inr [OF assms(3)] L by (auto simp: log_holds_def dir split: option.splits)

text \<open>After the loop the counter is set and the subscribers are signalled.\<close>

lemma log_finish:
  assumes L: "log_paths_ok L" and N: "binary_codec N" and dir: "prefix_bytes dir = p" and rows: "log_rows T C p L s ys"
    and set: "repo_setNumber T dir N (next_at L) (first_sequence L + length ys) s = Inr s1"
    and sig: "repo_notify T dir (log_at L) s1 = Inr s2"
  shows "log_holds T N C p L s2 ys"
    and "\<not> inRange p ''values'' (next_at L) k \<Longrightarrow> k \<noteq> K p ''signal'' (log_at L) \<Longrightarrow> tx_get T s2 k = tx_get T s k"
    and "tx_get T s2 (K p ''signal'' (log_at L)) \<noteq> tx_get T s (K p ''signal'' (log_at L))"
proof -
  have ok: "tuple_ok (log_at L)" "tuple_ok (next_at L)" "tuple_ok (ids_at L)" and c: "list_all constructed (next_at L)"
    using L by (simp_all add: log_paths_ok_def tuple_ok_def)
  note st = repo_put_Inr [OF set [unfolded repo_setNumber_def] c dir]
  note si = repo_notify_Inr [OF sig dir]
  show change: "tx_get T s2 k = tx_get T s k" if "\<not> inRange p ''values'' (next_at L) k" "k \<noteq> K p ''signal'' (log_at L)" for k
    using st(3) si that by simp
  have outside: "\<not> log_key p L (K p ''signal'' (log_at L))" using ok by (simp add: log_key_def row_key_def)
  have row: "\<not> inRange p ''values'' (next_at L) k" if "row_key p L k" for k
    using that L range_apart [of "log_at L" "next_at L" "''values''" "''values''" p k]
      range_apart [of "log_at L" "next_at L" "''index''" "''values''" p k]
      range_apart [of "ids_at L" "next_at L" "''index''" "''values''" p k]
    by (auto simp: row_key_def log_paths_ok_def)
  have "log_rows T C p L s2 ys \<longleftrightarrow> log_rows T C p L s ys"
    by (rule log_rows_cong [OF L change]) (use row outside in \<open>auto simp: log_key_def\<close>)
  moreover have "decodedAt T N p s2 (next_at L) = decodedAt T N p s1 (next_at L)"
    by (rule decodedAt_cong, rule si) (use outside in \<open>auto simp: log_key_def\<close>)
  moreover have "decodedAt T N p s1 (next_at L) = Some (first_sequence L + length ys)"
    using repo_put_decoded [OF set [unfolded repo_setNumber_def] c dir N] .
  ultimately show "log_holds T N C p L s2 ys" using rows by (simp add: log_holds_def)
  have "tx_get T s2 (K p ''signal'' (log_at L)) = Some (addLE (tx_get T s1 (K p ''signal'' (log_at L))) [1, 0, 0, 0, 0, 0, 0, 0])"
    using sig dir by (auto simp: repo_notify_def bindR_eq_Inr subspace_pack_Inr K_def get_add)
  moreover have "tx_get T s1 (K p ''signal'' (log_at L)) = tx_get T s (K p ''signal'' (log_at L))"
    using st(3) outside by (auto simp: log_key_def)
  ultimately show "tx_get T s2 (K p ''signal'' (log_at L)) \<noteq> tx_get T s (K p ''signal'' (log_at L))"
    using signal_changes [of "tx_get T s (K p ''signal'' (log_at L))"] by simp
qed

text \<open>A write as a whole.\<close>

lemma encrypted_write_Inr:
  assumes N: "binary_codec N" and C: "binary_codec C" and dir: "prefix_bytes dir = p" and "0 < limit"
    and ids: "\<And>e f. e \<in> set entries \<Longrightarrow> f \<in> set entries \<Longrightarrow> idString e = idString f \<longleftrightarrow> entry_id e = entry_id f"
    and L: "log_holds T N C p (encryptedLog pk sid) s xs"
    and w: "encrypted_write T dir limit N C pk sid entries s = Inr (written, s')"
    and new: "new = firstNew (entry_id ` set xs) entries"
  shows "written = numbered (length xs) new" and "log_holds T N C p (encryptedLog pk sid) s' (xs @ new)"
    and "wellFormed pk \<and> wellFormed sid"
    and "\<not> log_key p (encryptedLog pk sid) k \<Longrightarrow> k \<noteq> K p ''signal'' (encryptedPath pk sid) \<Longrightarrow> tx_get T s' k = tx_get T s k"
    and "new \<noteq> [] \<Longrightarrow> tx_get T s' (K p ''signal'' (encryptedPath pk sid)) \<noteq> tx_get T s (K p ''signal'' (encryptedPath pk sid))"
proof -
  let ?L = "encryptedLog pk sid"
  obtain first existing q seen s1 where f: "repo_number T dir N (encryptedNext pk sid) 0 s = Inr first"
    and h: "hasManyLoop T dir limit s (map (\<lambda>entry. encryptedIds pk sid @ [Bytes (entry_id entry)]) entries) = Inr existing"
    and l: "encryptedLoop T dir C pk sid (zip entries existing) (first, [], [], s) = Inr (q, seen, written, s1)"
    and rest: "if written = [] then s' = s1 else (\<exists>s2. repo_setNumber T dir N (encryptedNext pk sid) q s1 = Inr s2
      \<and> repo_notify T dir (encryptedPath pk sid) s2 = Inr s')"
    using w by (auto simp: encrypted_write_def repo_hasMany_def bindR_eq_Inr split: if_splits)
  have n: "first = length xs" and pk: "list_all packable (encryptedNext pk sid)"
    using log_number [OF L dir, of first] f by simp_all
  then show ok: "wellFormed pk \<and> wellFormed sid" by (simp add: encrypted_paths)
  have "existing = map (\<lambda>path. markAt T (prefix_bytes dir) s path \<noteq> None) (map (\<lambda>entry. encryptedIds pk sid @ [Bytes (entry_id entry)]) entries)"
    by (rule hasMany_Inr [OF h assms(4)])
  moreover have "markAt T p s (encryptedIds pk sid @ [Bytes x]) \<noteq> None \<longleftrightarrow> x \<in> entry_id ` set xs" for x
    using L unfolding log_holds_def log_rows_def idPath_def encryptedLog_sel by blast
  ultimately have ex: "existing = map (\<lambda>e. entry_id e \<in> entry_id ` set xs) entries" by (simp add: dir o_def)
  have rows: "log_rows T C p ?L s xs" using L by (simp add: log_holds_def)
  from encryptedLoop_Inr [OF refl _ _ C dir l [unfolded ex n] rows, of "{}"] ok ids
  have loop: "log_rows T C p ?L s1 (xs @ new)" "q = length xs + length new" "written = numbered (length xs) new"
    "\<And>k. \<not> row_key p ?L k \<Longrightarrow> tx_get T s1 k = tx_get T s k"
    by (auto simp: Let_def new)
  show "written = numbered (length xs) new" by (rule loop)
  have Lok: "log_paths_ok ?L" using ok by simp
  have finish: "\<exists>s2. repo_setNumber T dir N (next_at ?L) (first_sequence ?L + length (xs @ new)) s1 = Inr s2
      \<and> repo_notify T dir (log_at ?L) s2 = Inr s'" if "new \<noteq> []"
    using rest loop(2,3) that by simp
  have apart: "\<not> row_key p ?L (K p ''signal'' (encryptedPath pk sid))" using ok by (simp add: row_key_def encrypted_paths)
  show "log_holds T N C p ?L s' (xs @ new)"
  proof (cases "new = []")
    case True
    then have "s' = s1" using rest loop(3) by simp
    moreover have "decodedAt T N p s1 (next_at ?L) = decodedAt T N p s (next_at ?L)"
    proof (rule decodedAt_cong, rule loop(4))
      fix k assume k: "inRange p ''values'' (next_at ?L) k"
      show "\<not> row_key p ?L k"
        using range_apart [OF _ _ _ k, of "log_at ?L" "''values''"] range_apart [OF _ _ _ k, of "log_at ?L" "''index''"]
          range_apart [OF _ _ _ k, of "ids_at ?L" "''index''"] ok
        by (simp add: row_key_def encrypted_paths)
    qed
    ultimately show ?thesis using L loop(1) True by (simp add: log_holds_def)
  next
    case False
    then obtain s2 where "repo_setNumber T dir N (next_at ?L) (first_sequence ?L + length (xs @ new)) s1 = Inr s2"
      "repo_notify T dir (log_at ?L) s2 = Inr s'" using finish by blast
    from log_finish(1) [OF Lok N dir loop(1) this] show ?thesis .
  qed
  show "tx_get T s' k = tx_get T s k" if k: "\<not> log_key p ?L k" "k \<noteq> K p ''signal'' (encryptedPath pk sid)"
  proof (cases "new = []")
    case True
    then show ?thesis using rest loop k by (simp add: log_key_def)
  next
    case False
    then obtain s2 where "repo_setNumber T dir N (next_at ?L) (first_sequence ?L + length (xs @ new)) s1 = Inr s2"
      "repo_notify T dir (log_at ?L) s2 = Inr s'" using finish by blast
    from log_finish(2) [OF Lok N dir loop(1) this, of k] k loop(4) show ?thesis by (simp add: log_key_def)
  qed
  show "tx_get T s' (K p ''signal'' (encryptedPath pk sid)) \<noteq> tx_get T s (K p ''signal'' (encryptedPath pk sid))" if ne: "new \<noteq> []"
  proof -
    obtain s2 where "repo_setNumber T dir N (next_at ?L) (first_sequence ?L + length (xs @ new)) s1 = Inr s2"
      "repo_notify T dir (log_at ?L) s2 = Inr s'" using finish [OF ne] by blast
    from log_finish(3) [OF Lok N dir loop(1) this] loop(4) [OF apart] show ?thesis by simp
  qed
qed

section \<open>The unencrypted server\<close>

lemma liftWrite_Inr [simp]: "liftWrite m = Inr x \<longleftrightarrow> m = Inr x"
  by (cases m) (auto simp: liftWrite_def)

lemma liftWrite_simps [simp]: "liftWrite (Inr x) = Inr x" "liftWrite (Inl e) = Inl (WriteJournal e)"
  by (simp_all add: liftWrite_def)

lemma liftWrite_Inl: "liftWrite m \<noteq> Inl DuplicateEntries"
  by (cases m) (auto simp: liftWrite_def)

lemma plainLoop_Inr:
  assumes L: "L = plainLog sid" and ok: "wellFormed sid" and C: "binary_codec C" and dir: "prefix_bytes dir = p"
  shows "plainLoop T dir C E sid (zip es (map (\<lambda>e. entry_id e \<in> known) es)) (1 + length ys, seen, written, s)
      = Inr (q, seen', written', s') \<Longrightarrow>
    log_rows T C p L s ys \<Longrightarrow> entry_id ` set ys = known \<union> ids \<Longrightarrow>
    (\<And>e. e \<in> set es \<Longrightarrow> idString e \<in> set seen \<longleftrightarrow> entry_id e \<in> ids) \<Longrightarrow>
    (\<And>e f. e \<in> set es \<Longrightarrow> f \<in> set es \<Longrightarrow> idString e = idString f \<longleftrightarrow> entry_id e = entry_id f) \<Longrightarrow>
    log_rows T C p L s' (ys @ es) \<and> q = 1 + length (ys @ es) \<and> written' = written @ numbered (1 + length ys) es
    \<and> (\<forall>k. \<not> row_key p L k \<longrightarrow> \<not> inRange p ''values'' (plainById sid) k \<longrightarrow> tx_get T s' k = tx_get T s k)"
proof (induction es arbitrary: ys seen written s ids)
  case (Cons e es)
  have flag: "entry_id e \<in> known \<or> idString e \<in> set seen \<longleftrightarrow> entry_id e \<in> entry_id ` set ys"
    using Cons.prems(3,4) by auto
  then have new: "entry_id e \<notin> entry_id ` set ys" using Cons.prems(1) by (auto split: if_splits)
  have paths: "plainPath sid @ [BigInt (1 + int (length ys))] = seqPath L (length ys)"
    "plainOrdered sid @ [Bytes (entry_id e)] = idPath L (entry_id e)"
    by (simp_all add: L seqPath_def idPath_def)
  obtain s1 s2 s2' s3 where w: "repo_put T dir (seqPath L (length ys)) C (e, first_sequence L + length ys) s = Inr s1"
    "repo_mark T dir (seqPath L (length ys)) s1 = Inr s2"
    "repo_put T dir (plainById sid @ [Bytes (entry_id e)]) E e s2 = Inr s2'"
    "repo_mark T dir (idPath L (entry_id e)) s2' = Inr s3"
    and rest: "plainLoop T dir C E sid (zip es (map (\<lambda>e. entry_id e \<in> known) es))
      (1 + length (ys @ [e]), seen @ [idString e], written @ [(e, 1 + length ys)], s3) = Inr (q, seen', written', s')"
    using Cons.prems(1) flag new by (auto simp: Let_def bindR_eq_Inr paths L)
  have Lok: "log_paths_ok L" using ok by (simp add: L)
  have c: "list_all constructed (plainById sid @ [Bytes (entry_id e)])" by (simp add: plain_paths)
  have byId: "inRange p ''values'' (plainById sid) k" if "inRange p ''values'' (plainById sid @ [Bytes (entry_id e)]) k" for k
    using inRange_nested [OF that] by simp
  have quiet: "tx_get T s2' k = tx_get T s2 k" if "row_key p L k" for k
  proof -
    have "\<not> inRange p ''values'' (plainById sid) k"
    proof
      assume b: "inRange p ''values'' (plainById sid) k"
      from that show False using ok by (auto simp: row_key_def L plain_paths dest!: inRange_disjoint [OF b])
    qed
    then show ?thesis using repo_put_Inr(3) [OF w(3) c dir] byId by blast
  qed
  note app = log_append [OF Lok C dir Cons.prems(2) new w(1,2) quiet w(4)]
  have ids: "entry_id ` set (ys @ [e]) = known \<union> insert (entry_id e) ids" using Cons.prems(3) by auto
  have seen: "idString x \<in> set (seen @ [idString e]) \<longleftrightarrow> entry_id x \<in> insert (entry_id e) ids" if "x \<in> set es" for x
    using Cons.prems(4) [of x] Cons.prems(5) [of x e] that by auto
  have "tx_get T s3 k = tx_get T s k" if "\<not> row_key p L k" "\<not> inRange p ''values'' (plainById sid) k" for k
    using app(2) [of k] that byId [of k] repo_put_Inr(3) [OF w(3) c dir, of k] by blast
  with Cons.IH [OF rest app(1) ids seen] Cons.prems(5) show ?case by auto
qed auto

lemma plainLoop_duplicate:
  "plainLoop T dir C E sid (zip es (map (\<lambda>e. entry_id e \<in> known) es)) (q, seen, written, s) = Inl DuplicateEntries \<Longrightarrow>
    (\<And>e f. e \<in> set es \<Longrightarrow> f \<in> set es \<Longrightarrow> idString e = idString f \<longleftrightarrow> entry_id e = entry_id f) \<Longrightarrow>
    distinct (map entry_id es) \<Longrightarrow> entry_id ` set es \<inter> known = {} \<Longrightarrow> idString ` set es \<inter> set seen = {} \<Longrightarrow> False"
proof (induction es arbitrary: q seen written s)
  case (Cons e es)
  then obtain q' written' s' where loop: "plainLoop T dir C E sid (zip es (map (\<lambda>e. entry_id e \<in> known) es))
      (q', seen @ [idString e], written', s') = Inl DuplicateEntries"
    by (auto simp: Let_def bindR_Inl liftWrite_Inl split: if_splits)
  have disjoint: "idString ` set es \<inter> set (seen @ [idString e]) = {}"
  proof -
    have "idString x \<noteq> idString e" if "x \<in> set es" for x
    proof -
      have "entry_id e \<notin> entry_id ` set es" using Cons.prems(3) by simp
      then have "entry_id x \<noteq> entry_id e" using that by (metis imageI)
      then show ?thesis using Cons.prems(2) [of x e] that by simp
    qed
    then have "idString e \<notin> idString ` set es" by (metis imageE)
    then show ?thesis using Cons.prems(5) by auto
  qed
  show ?case by (rule Cons.IH [OF loop _ _ _ disjoint]) (use Cons.prems(2-4) in auto)
qed simp

text \<open>A write as a whole.\<close>

lemma plain_write_Inr:
  assumes N: "binary_codec N" and C: "binary_codec C" and dir: "prefix_bytes dir = p" and "0 < limit"
    and ids: "\<And>e f. e \<in> set entries \<Longrightarrow> f \<in> set entries \<Longrightarrow> idString e = idString f \<longleftrightarrow> entry_id e = entry_id f"
    and L: "log_holds T N C p (plainLog sid) s xs"
  shows "plain_write T dir limit N C E sid entries s = Inr (written, s') \<Longrightarrow>
      written = numbered (1 + length xs) entries \<and> log_holds T N C p (plainLog sid) s' (xs @ entries)"
    and "plain_write T dir limit N C E sid entries s = Inl DuplicateEntries \<Longrightarrow>
      \<not> (distinct (map entry_id entries) \<and> entry_id ` set entries \<inter> entry_id ` set xs = {})"
proof -
  let ?L = "plainLog sid"
  have ex: "existing = map (\<lambda>e. entry_id e \<in> entry_id ` set xs) entries"
    if "hasManyLoop T dir limit s (map (\<lambda>entry. plainOrdered sid @ [Bytes (entry_id entry)]) entries) = Inr existing" for existing
  proof -
    have "existing = map (\<lambda>path. markAt T (prefix_bytes dir) s path \<noteq> None) (map (\<lambda>entry. plainOrdered sid @ [Bytes (entry_id entry)]) entries)"
      by (rule hasMany_Inr [OF that assms(4)])
    moreover have "markAt T p s (plainOrdered sid @ [Bytes x]) \<noteq> None \<longleftrightarrow> x \<in> entry_id ` set xs" for x
      using L unfolding log_holds_def log_rows_def idPath_def plainLog_sel by blast
    ultimately show ?thesis by (simp add: dir o_def)
  qed
  have n: "first = 1 + length xs \<and> wellFormed sid" if "repo_number T dir N (plainNext sid) 1 s = Inr first" for first
    using log_number [OF L dir, of first] that by (simp add: plain_paths)
  have rows: "log_rows T C p ?L s xs" using L by (simp add: log_holds_def)
  show "written = numbered (1 + length xs) entries \<and> log_holds T N C p ?L s' (xs @ entries)"
    if w: "plain_write T dir limit N C E sid entries s = Inr (written, s')"
  proof -
    obtain first existing q seen s1 where f: "repo_number T dir N (plainNext sid) 1 s = Inr first"
      and h: "hasManyLoop T dir limit s (map (\<lambda>entry. plainOrdered sid @ [Bytes (entry_id entry)]) entries) = Inr existing"
      and l: "plainLoop T dir C E sid (zip entries existing) (first, [], [], s) = Inr (q, seen, written, s1)"
      and rest: "if written = [] then s' = s1 else (\<exists>s2. repo_setNumber T dir N (plainNext sid) q s1 = Inr s2
        \<and> repo_notify T dir (plainPath sid) s2 = Inr s')"
      using w by (auto simp: plain_write_def repo_hasMany_def bindR_eq_Inr split: if_splits)
    have ok: "wellFormed sid" and first: "first = 1 + length xs" using n [OF f] by simp_all
    from plainLoop_Inr [OF refl ok C dir l [unfolded ex [OF h] first] rows, of "{}"] ids
    have loop: "log_rows T C p ?L s1 (xs @ entries)" "q = 1 + length (xs @ entries)" "written = numbered (1 + length xs) entries"
      by auto
    show ?thesis
    proof (cases "entries = []")
      case True
      then have "plainLoop T dir C E sid (zip entries existing) (first, [], [], s) = Inr (first, [], [], s)" by simp
      with l rest loop(3) True L show ?thesis by simp
    next
      case False
      then obtain s2 where fin: "repo_setNumber T dir N (next_at ?L) (first_sequence ?L + length (xs @ entries)) s1 = Inr s2"
        "repo_notify T dir (log_at ?L) s2 = Inr s'" using rest loop(2,3) by auto
      have "log_paths_ok ?L" using ok by simp
      from log_finish(1) [OF this N dir loop(1) fin] loop(3) show ?thesis by simp
    qed
  qed
  show "\<not> (distinct (map entry_id entries) \<and> entry_id ` set entries \<inter> entry_id ` set xs = {})"
    if w: "plain_write T dir limit N C E sid entries s = Inl DuplicateEntries"
  proof -
    obtain first existing where f: "repo_number T dir N (plainNext sid) 1 s = Inr first"
      and h: "hasManyLoop T dir limit s (map (\<lambda>entry. plainOrdered sid @ [Bytes (entry_id entry)]) entries) = Inr existing"
      and l: "plainLoop T dir C E sid (zip entries existing) (first, [], [], s) = Inl DuplicateEntries"
      using w by (auto simp: plain_write_def repo_hasMany_def bindR_Inl liftWrite_Inl split: if_splits)
    from plainLoop_duplicate [OF l [unfolded ex [OF h]] ids] show ?thesis by auto
  qed
qed

end

section \<open>Subscribers\<close>

text \<open>A subscriber that pulls from a sequence of states.\<close>

fun pulls ::
    "'s txn \<Rightarrow> subspace \<Rightarrow> nat \<Rightarrow> 'c remote_entry binary_codec \<Rightarrow> js_string \<Rightarrow> js_string \<Rightarrow> int \<Rightarrow> 's list
      \<Rightarrow> tail_error + 'c remote_entry list \<times> int" where
  "pulls T dir limit C pk sid next [] = Inr ([], next)"
| "pulls T dir limit C pk sid next (s # states) =
    bindR (encrypted_changes T dir limit C pk sid False next s) (\<lambda>(got, cursor, wake).
    case cursor of
      None \<Rightarrow> Inr (got, next)
    | Some next \<Rightarrow> bindR (pulls T dir limit C pk sid next states) (\<lambda>(rest, stop). Inr (got @ rest, stop)))"

definition segment :: "'c log_entry list \<Rightarrow> nat \<Rightarrow> nat \<Rightarrow> 'c remote_entry list" where
  "segment xs d e = map (\<lambda>i. (xs ! i, i)) [d..<e]"

lemma segment_prefix: "prefix xs ys \<Longrightarrow> e \<le> length xs \<Longrightarrow> segment xs d e = segment ys d e"
  by (auto simp: segment_def prefix_def nth_append)

lemma segment_append: "d \<le> e \<Longrightarrow> e \<le> f \<Longrightarrow> segment xs d e @ segment xs e f = segment xs d f"
  using upt_add_eq_append [of d e "f - e"] by (simp add: segment_def map_append [symmetric] del: map_append)

context fdb
begin

lemma page_small:
  "repo_page T dir limit path None (Some [BigInt n]) s = Inr x \<Longrightarrow> smallInt n"
  by (auto simp: repo_page_def bindR_eq_Inr subspace_pack_Inr)

lemma encrypted_changes_Inr:
  assumes dir: "prefix_bytes dir = p" and L: "log_holds T N C p (encryptedLog pk sid) s xs" and wf: "wellFormed pk" "wellFormed sid"
    and r: "encrypted_changes T dir limit C pk sid False (int d) s = Inr (got, cursor, wake)"
  shows "got = segment xs d (feedEnd limit None d xs)" and "cursor = Some (int (feedEnd limit None d xs))"
    and "wake = (if length xs \<le> d \<or> limit = 0 then Some (K p ''signal'' (encryptedPath pk sid)) else None)"
proof -
  let ?L = "encryptedLog pk sid"
  obtain wake' where f: "feedRead T dir limit (encryptedPath pk sid) C None (int d) s = Inr (got, cursor)"
    and wake: "if got = [] \<and> cursor \<noteq> None then \<exists>key. subspace_pack dir (Str (js ''signal'') # encryptedPath pk sid) = Inr key \<and> wake = Some key
      else wake = None"
    using r by (auto simp: encrypted_changes_def tailPull_def split: sum.splits if_splits)
  have small: "smallInt (int d)" using f page_small by (auto simp: feedRead_def bindR_eq_Inr)
  have Lok: "log_paths_ok ?L" and rows: "log_rows T C p ?L s xs" using wf L by (simp_all add: log_holds_def)
  have "feedRead T dir limit (log_at ?L) C (map_option (\<lambda>u. int (first_sequence ?L + u)) None) (int (first_sequence ?L + d)) s
    = Inr (map (\<lambda>i. (xs ! i, first_sequence ?L + i)) [d..<feedEnd limit None d xs], Some (int (first_sequence ?L + feedEnd limit None d xs)))"
    using feed_log [OF Lok rows _ dir, of d limit None] small by simp
  then show out: "got = segment xs d (feedEnd limit None d xs)" and cur: "cursor = Some (int (feedEnd limit None d xs))"
    using f by (simp_all add: segment_def)
  have "got = [] \<longleftrightarrow> length xs \<le> d \<or> limit = 0" by (auto simp: out segment_def feedEnd_def min_def)
  then show "wake = (if length xs \<le> d \<or> limit = 0 then Some (K p ''signal'' (encryptedPath pk sid)) else None)"
    using wake cur dir by (auto simp: subspace_pack_Inr K_def)
qed

lemma pulls_Inr:
  assumes dir: "prefix_bytes dir = p" and wf: "wellFormed pk" "wellFormed sid"
  shows "pulls T dir limit C pk sid (int d) states = Inr (got, stop) \<Longrightarrow>
    list_all2 (\<lambda>s xs. log_holds T N C p (encryptedLog pk sid) s xs) states logs \<Longrightarrow>
    (\<And>xs. xs \<in> set logs \<Longrightarrow> prefix xs ys) \<Longrightarrow> (\<And>xs. xs \<in> set logs \<Longrightarrow> n \<le> length xs) \<Longrightarrow> d \<le> length ys \<Longrightarrow>
    (\<exists>e. stop = int e \<and> d \<le> e \<and> e \<le> length ys \<and> got = segment ys d e
      \<and> min n (d + limit * length states) \<le> e)"
proof (induction states arbitrary: d got logs)
  case Nil
  then show ?case by (auto simp: segment_def)
next
  case (Cons s states)
  then obtain xs logs' where logs: "logs = xs # logs'" "log_holds T N C p (encryptedLog pk sid) s xs"
    "list_all2 (\<lambda>s xs. log_holds T N C p (encryptedLog pk sid) s xs) states logs'"
    by (cases logs) auto
  let ?e = "feedEnd limit None d xs"
  obtain out cursor wake where r: "encrypted_changes T dir limit C pk sid False (int d) s = Inr (out, cursor, wake)"
    using Cons.prems(1) by (auto simp: bindR_eq_Inr)
  have c: "encrypted_changes T dir limit C pk sid False (int d) s = Inr (out, Some (int ?e), wake)"
    using r encrypted_changes_Inr(2) [OF dir logs(2) wf r] by simp
  obtain rest where rest: "pulls T dir limit C pk sid (int ?e) states = Inr (rest, stop)" "got = out @ rest"
    using Cons.prems(1) by (auto simp: c bindR_eq_Inr)
  note ch = encrypted_changes_Inr [OF dir logs(2) wf c]
  have pre: "prefix xs ys" and n: "n \<le> length xs" using Cons.prems(3,4) logs(1) by auto
  have e: "d \<le> ?e" "?e \<le> length ys" using Cons.prems(5) prefix_length_le [OF pre] by (auto simp: feedEnd_def)
  have out: "out = segment ys d ?e"
  proof (cases "d \<le> length xs")
    case True
    then have "?e \<le> length xs" by (simp add: feedEnd_def)
    with ch(1) segment_prefix [OF pre] show ?thesis by simp
  next
    case False
    then have "?e = d" by (simp add: feedEnd_def)
    with ch(1) show ?thesis by (simp add: segment_def)
  qed
  obtain f where f: "stop = int f" "?e \<le> f" "f \<le> length ys" "rest = segment ys ?e f" "min n (?e + limit * length states) \<le> f"
    using Cons.IH [OF rest(1) logs(3) _ _ e(2)] Cons.prems(3,4) logs(1) by auto
  have "min n (d + limit) \<le> ?e" using n by (auto simp: feedEnd_def)
  then have "min n (d + limit * length (s # states)) \<le> f" using f(2,5) by (auto simp: min_def split: if_splits)
  then show ?case using f e out rest(2) segment_append [OF e(1) f(2), of ys] by auto
qed

end

context fdb
begin

lemma log_empty:
  assumes "log_paths_ok L" and "\<And>k. prefix p k \<Longrightarrow> tx_get T s k = None"
  shows "log_holds T N C p L s []"
proof -
  have "valueAt T s (K p n r) = None" for n r using assms(2) inRange_prefix valueAt_None by blast
  moreover have "\<And>k. inRange p ''index'' (log_at L) k \<Longrightarrow> tx_get T s k = None" using assms(2) inRange_prefix by blast
  ultimately show ?thesis using assms by (auto simp: log_holds_def log_rows_def decodedAt_def markAt_def)
qed

lemma repo_put_ok:
  assumes "tuple_ok path" and "length (encodeBinary C a) \<le> chunkSize"
  shows "\<exists>s'. repo_put T dir path C a s = Inr s'"
proof -
  have "tuple_ok (valuePath path)" using assms(1) by (simp add: valuePath_def)
  from writeChunkedValue_ok [OF this writable_small [OF assms(2)], of T dir s]
  obtain s' where "writeChunkedValue T dir (valuePath path) (encodeBinary C a) s = Inr s'" by blast
  then show ?thesis by (simp add: repo_put_def protect_def)
qed

lemma repo_mark_ok: "list_all packable path \<Longrightarrow> \<exists>s'. repo_mark T dir path s = Inr s'"
  by (simp add: repo_mark_def protect_def subspace_pack_def pack_enc)

lemma repo_notify_ok: "list_all packable path \<Longrightarrow> \<exists>s'. repo_notify T dir path s = Inr s'"
  by (simp add: repo_notify_def protect_def subspace_pack_def pack_enc)

lemma repo_number_ok:
  "list_all packable path \<Longrightarrow> valueAt T s (K (prefix_bytes dir) ''values'' path) = None \<Longrightarrow> repo_number T dir N path d s = Inr d"
  by (simp add: repo_number_def repo_get_None)

end

section \<open>Samples\<close>

definition sampleNumber :: "nat binary_codec" where
  "sampleNumber = \<lparr>encodeBinary = (\<lambda>n. replicate n 1), decodeBinary = (\<lambda>b. Some (length b))\<rparr>"

fun entryOf :: "tuple \<Rightarrow> unit remote_entry option" where
  "entryOf [Bytes i, t, n] = Some (\<lparr>entry_id = i, idString = textOf t, contents = ()\<rparr>, nat (intOf n))"
| "entryOf _ = None"

definition sampleRemote :: "unit remote_entry binary_codec" where
  "sampleRemote = \<lparr>encodeBinary = (\<lambda>(e, n). encs False [Bytes (entry_id e), textValue (idString e), intValue (int n)]),
     decodeBinary = (\<lambda>b. case unpack b of Inl _ \<Rightarrow> None | Inr t \<Rightarrow> entryOf t)\<rparr>"

definition sampleEntry :: "unit log_entry" where
  "sampleEntry = \<lparr>entry_id = [5], idString = js ''5'', contents = ()\<rparr>"

lemma sampleNumber_codec: "binary_codec sampleNumber"
  by unfold_locales (simp add: sampleNumber_def)

lemma sampleRemote_codec: "binary_codec sampleRemote"
proof unfold_locales
  fix a :: "unit remote_entry"
  obtain e n where a: "a = (e, n)" by (cases a)
  have "unpack (encs False [Bytes (entry_id e), textValue (idString e), intValue (int n)])
      = Inr [Bytes (entry_id e), textValue (idString e), intValue (int n)]"
    by (rule tuples.decode_encode) simp
  then show "decodeBinary sampleRemote (encodeBinary sampleRemote a) = Some a"
    by (simp add: sampleRemote_def a del: encs_simps)
qed

lemma natBE_two: "natBE 2 v = [of_nat (v div 256), of_nat v]"
  by (simp add: numeral_2_eq_2)

lemma sample_small: "length (encodeBinary sampleRemote (sampleEntry, 0)) \<le> chunkSize"
  "length (encodeBinary sampleRemote (sampleEntry, 1)) \<le> chunkSize"
  by (simp_all add: sampleRemote_def sampleEntry_def textValue_def intValue_def magnitudeBytes_def magnitudeLoop.simps
      chunkSize_def js_def esc_def natBE_two)

lemma sample_values: "valueAt mem_txn [] (K p n r) = None"
  by (subst mem.valueAt_None) (simp add: mem_get)

lemma sampleNumber_small: "n < 3 \<Longrightarrow> length (encodeBinary sampleNumber n) \<le> chunkSize"
  by (simp add: sampleNumber_def chunkSize_def)

lemma sample_write:
  obtains s where "encrypted_write mem_txn (fromBytes [9]) 2 sampleNumber sampleRemote (js ''a'') (js ''b'') [sampleEntry] []
    = Inr ([(sampleEntry, 0)], s)"
proof -
  let ?d = "fromBytes [9]" and ?a = "js ''a''" and ?b = "js ''b''"
  let ?path = "encryptedPath ?a ?b @ [BigInt 0]" and ?id = "encryptedIds ?a ?b @ [Bytes (entry_id sampleEntry)]"
  have d: "prefix_bytes ?d = [9]" by (simp add: fromBytes_def)
  have first: "repo_number mem_txn ?d sampleNumber (encryptedNext ?a ?b) 0 [] = Inr 0"
    by (rule mem.repo_number_ok) (simp_all add: encrypted_paths sample_values)
  have h: "repo_hasMany mem_txn ?d 2 [?id] [] = Inr [False]"
    by (simp add: repo_hasMany_def protect_def hasManyLoop.simps subspace_pack_def pack_enc tx_getMany_def encrypted_paths mem_get)
  obtain s1 where s1: "repo_put mem_txn ?d ?path sampleRemote (sampleEntry, 0) [] = Inr s1"
    using mem.repo_put_ok [OF _ sample_small(1), of ?path ?d "[]"] by (auto simp: encrypted_paths smallInt_few)
  obtain s2 where s2: "repo_mark mem_txn ?d ?path s1 = Inr s2"
    using mem.repo_mark_ok [of ?path ?d s1] by (auto simp: encrypted_paths smallInt_few)
  obtain s3 where s3: "repo_mark mem_txn ?d ?id s2 = Inr s3"
    using mem.repo_mark_ok [of ?id ?d s2] by (auto simp: encrypted_paths)
  obtain s4 where s4: "repo_setNumber mem_txn ?d sampleNumber (encryptedNext ?a ?b) 1 s3 = Inr s4"
    using mem.repo_put_ok [OF _ sampleNumber_small, of "encryptedNext ?a ?b" 1 ?d s3]
    by (auto simp: encrypted_paths repo_setNumber_def)
  obtain s5 where "repo_notify mem_txn ?d (encryptedPath ?a ?b) s4 = Inr s5"
    using mem.repo_notify_ok [of "encryptedPath ?a ?b" ?d s4] by (auto simp: encrypted_paths)
  with that show thesis by (simp add: encrypted_write_def first h s1 s2 s3 s4 [unfolded One_nat_def])
qed

lemma sample_log: "wellFormed pk \<Longrightarrow> wellFormed sid \<Longrightarrow> log_holds mem_txn N C p (encryptedLog pk sid) [] []"
  by (rule mem.log_empty) (simp_all add: mem_get)

section \<open>Properties\<close>

text \<open>C9. A write to the encrypted log of a store appends the entries whose ids are new, in their order and with
  consecutive sequence numbers, and returns exactly those; it leaves the logs of other stores alone, and changes the
  signal that subscribers watch when it appends anything.\<close>

theorem encrypted_write_appends:
  assumes "fdb T" and "binary_codec N" and "binary_codec C" and "prefix_bytes dir = p" and "0 < limit"
    and "\<And>e f. e \<in> set entries \<Longrightarrow> f \<in> set entries \<Longrightarrow> idString e = idString f \<longleftrightarrow> entry_id e = entry_id f"
    and "log_holds T N C p (encryptedLog pk sid) s xs"
    and "encrypted_write T dir limit N C pk sid entries s = Inr (written, s')"
    and "new = firstNew (entry_id ` set xs) entries"
  shows "written = numbered (length xs) new \<and> log_holds T N C p (encryptedLog pk sid) s' (xs @ new)
    \<and> (new \<noteq> [] \<longrightarrow> tx_get T s' (K p ''signal'' (encryptedPath pk sid)) \<noteq> tx_get T s (K p ''signal'' (encryptedPath pk sid)))
    \<and> (\<forall>pk' sid' ys. wellFormed pk' \<longrightarrow> wellFormed sid' \<longrightarrow> (pk', sid') \<noteq> (pk, sid) \<longrightarrow>
         log_holds T N C p (encryptedLog pk' sid') s ys \<longrightarrow> log_holds T N C p (encryptedLog pk' sid') s' ys)"
proof -
  note w = fdb.encrypted_write_Inr [OF assms(1-9)]
  have "log_holds T N C p (encryptedLog pk' sid') s' ys"
    if o: "wellFormed pk'" "wellFormed sid'" "(pk', sid') \<noteq> (pk, sid)" "log_holds T N C p (encryptedLog pk' sid') s ys" for pk' sid' ys
  proof -
    have "tx_get T s' k = tx_get T s k" if k: "log_key p (encryptedLog pk' sid') k" for k
    proof (rule w(4))
      show "\<not> log_key p (encryptedLog pk sid) k" using encrypted_apart [OF o(1,2) _ _ o(3) k] w(3) by blast
      show "k \<noteq> K p ''signal'' (encryptedPath pk sid)"
        using k o(1,2) w(3) by (auto simp: log_key_def row_key_def encrypted_paths)
    qed
    then show ?thesis using fdb.log_holds_cong [OF assms(1), of "encryptedLog pk' sid'" p s' s N C ys] o by simp
  qed
  with w(1,2,5) show ?thesis by blast
qed

theorem encrypted_write_appends_witness:
  "\<exists>s. encrypted_write mem_txn (fromBytes [9]) 2 sampleNumber sampleRemote (js ''a'') (js ''b'') [sampleEntry] []
      = Inr ([(sampleEntry, 0)], s)
    \<and> log_holds mem_txn sampleNumber sampleRemote [9] (encryptedLog (js ''a'') (js ''b'')) s [sampleEntry]"
proof -
  obtain s where s: "encrypted_write mem_txn (fromBytes [9]) 2 sampleNumber sampleRemote (js ''a'') (js ''b'') [sampleEntry] []
      = Inr ([(sampleEntry, 0)], s)" by (rule sample_write)
  have "log_holds mem_txn sampleNumber sampleRemote [9] (encryptedLog (js ''a'') (js ''b'')) s ([] @ [sampleEntry])"
    using encrypted_write_appends [OF fdb_mem sampleNumber_codec sampleRemote_codec _ _ _ sample_log [OF wellFormed_js wellFormed_js] s,
        of "[9]" "[sampleEntry]"]
    by (simp add: fromBytes_def)
  with s show ?thesis by auto
qed

text \<open>C10. A subscriber that starts at \<open>d\<close> and pulls page after page, while the log grows, is given the entries from \<open>d\<close>
  on in order, each once and without a gap, with their sequence numbers; every pull that finds something unread gets
  on, so that it has seen a log of \<open>n\<close> entries after \<open>n / limit\<close> pulls.\<close>

theorem feed_delivers_log:
  assumes "fdb T" and "prefix_bytes dir = p" and "wellFormed pk" and "wellFormed sid"
    and "pulls T dir limit C pk sid (int d) states = Inr (got, stop)"
    and "list_all2 (\<lambda>s xs. log_holds T N C p (encryptedLog pk sid) s xs) states logs"
    and "\<And>xs. xs \<in> set logs \<Longrightarrow> prefix xs ys \<and> n \<le> length xs" and "d \<le> length ys"
  shows "\<exists>e. stop = int e \<and> got = segment ys d e \<and> d \<le> e \<and> e \<le> length ys
    \<and> min n (d + limit * length states) \<le> e"
  using fdb.pulls_Inr [OF assms(1-4,5,6), of ys n] assms(7,8) by blast

theorem feed_delivers_log_witness:
  "\<exists>s. pulls mem_txn (fromBytes [9]) 2 sampleRemote (js ''a'') (js ''b'') 0 [s] = Inr ([(sampleEntry, 0)], 1)
    \<and> segment [sampleEntry] 0 1 = [(sampleEntry, 0)]"
proof -
  let ?L = "encryptedLog (js ''a'') (js ''b'')"
  obtain s where s: "encrypted_write mem_txn (fromBytes [9]) 2 sampleNumber sampleRemote (js ''a'') (js ''b'') [sampleEntry] []
      = Inr ([(sampleEntry, 0)], s)" by (rule sample_write)
  have d: "prefix_bytes (fromBytes [9]) = [9]" by (simp add: fromBytes_def)
  have h: "log_holds mem_txn sampleNumber sampleRemote [9] ?L s ([] @ [sampleEntry])"
    by (rule mem.encrypted_write_Inr(2) [OF sampleNumber_codec sampleRemote_codec d _ _ sample_log s]) simp_all
  have "feedRead mem_txn (fromBytes [9]) 2 (log_at ?L) sampleRemote (map_option (\<lambda>u. int (first_sequence ?L + u)) None)
      (int (first_sequence ?L + 0)) s = Inr ([(sampleEntry, 0)], Some 1)"
    by (subst mem.feed_log [OF _ _ _ d, where xs = "[sampleEntry]"])
      (use h in \<open>simp_all add: log_holds_def feedEnd_def smallInt_few\<close>)
  then have p: "pulls mem_txn (fromBytes [9]) 2 sampleRemote (js ''a'') (js ''b'') (int 0) [s] = Inr ([(sampleEntry, 0)], 1)"
    by (simp add: encrypted_changes_def tailPull_def)
  have "\<exists>e. (1 :: int) = int e \<and> [(sampleEntry, 0)] = segment [sampleEntry] 0 e \<and> 0 \<le> e \<and> e \<le> length [sampleEntry]
      \<and> min 1 (0 + 2 * length [s]) \<le> e"
    by (rule feed_delivers_log [OF fdb_mem d wellFormed_js wellFormed_js p, where logs = "[[sampleEntry]]"]) (use h in simp_all)
  with p show ?thesis by (auto simp: segment_def)
qed

text \<open>C27. A write to the unencrypted log is all or nothing: it appends every entry, numbered from 1 on, or it fails
  because an id is already in the log or twice in the batch (then the transaction is abandoned).\<close>

theorem plain_write_all_or_nothing:
  assumes "fdb T" and "binary_codec N" and "binary_codec C" and "prefix_bytes dir = p" and "0 < limit"
    and "\<And>e f. e \<in> set entries \<Longrightarrow> f \<in> set entries \<Longrightarrow> idString e = idString f \<longleftrightarrow> entry_id e = entry_id f"
    and "log_holds T N C p (plainLog sid) s xs"
  shows "case plain_write T dir limit N C E sid entries s of
      Inr (written, s') \<Rightarrow> distinct (map entry_id (xs @ entries)) \<and> written = numbered (1 + length xs) entries
        \<and> log_holds T N C p (plainLog sid) s' (xs @ entries)
    | Inl DuplicateEntries \<Rightarrow> \<not> distinct (map entry_id (xs @ entries))
    | Inl (WriteJournal _) \<Rightarrow> True"
proof -
  note w = fdb.plain_write_Inr [OF assms]
  have d: "distinct (map entry_id xs)" using assms(7) by (simp add: log_holds_def log_rows_def)
  show ?thesis
  proof (cases "plain_write T dir limit N C E sid entries s")
    case (Inl e)
    with w(2) d show ?thesis by (cases e) auto
  next
    case (Inr r)
    with w(1) have "log_holds T N C p (plainLog sid) (snd r) (xs @ entries) \<and> fst r = numbered (1 + length xs) entries"
      by (cases r) auto
    then have "distinct (map entry_id (xs @ entries))" "log_holds T N C p (plainLog sid) (snd r) (xs @ entries)"
      "fst r = numbered (1 + length xs) entries" by (simp_all add: log_holds_def log_rows_def)
    with Inr show ?thesis by (cases r) simp
  qed
qed

definition sampleEntryCodec :: "unit log_entry binary_codec" where
  "sampleEntryCodec = \<lparr>encodeBinary = (\<lambda>e. encodeBinary sampleRemote (e, 0)),
     decodeBinary = (\<lambda>b. map_option fst (decodeBinary sampleRemote b))\<rparr>"

theorem plain_write_all_or_nothing_witness:
  "plain_write mem_txn (fromBytes [9]) 2 sampleNumber sampleRemote sampleEntryCodec (js ''b'') [sampleEntry, sampleEntry] []
      = Inl DuplicateEntries
    \<and> \<not> distinct (map entry_id ([] @ [sampleEntry, sampleEntry]))"
proof -
  let ?d = "fromBytes [9]" and ?b = "js ''b''"
  let ?path = "plainPath ?b @ [BigInt 1]" and ?id = "plainOrdered ?b @ [Bytes (entry_id sampleEntry)]"
  let ?by = "plainById ?b @ [Bytes (entry_id sampleEntry)]"
  have d: "prefix_bytes ?d = [9]" by (simp add: fromBytes_def)
  have first: "repo_number mem_txn ?d sampleNumber (plainNext ?b) 1 [] = Inr 1"
    by (rule mem.repo_number_ok) (simp_all add: plain_paths sample_values)
  have h: "repo_hasMany mem_txn ?d 2 [?id, ?id] [] = Inr [False, False]"
    by (simp add: repo_hasMany_def protect_def hasManyLoop.simps subspace_pack_def pack_enc tx_getMany_def plain_paths mem_get)
  obtain s1 where s1: "repo_put mem_txn ?d ?path sampleRemote (sampleEntry, 1) [] = Inr s1"
    using mem.repo_put_ok [OF _ sample_small(2), of ?path ?d "[]"] by (auto simp: plain_paths smallInt_few)
  obtain s2 where s2: "repo_mark mem_txn ?d ?path s1 = Inr s2"
    using mem.repo_mark_ok [of ?path ?d s1] by (auto simp: plain_paths smallInt_few)
  have small: "length (encodeBinary sampleEntryCodec sampleEntry) \<le> chunkSize"
    using sample_small(1) by (simp add: sampleEntryCodec_def)
  obtain s3 where s3: "repo_put mem_txn ?d ?by sampleEntryCodec sampleEntry s2 = Inr s3"
    using mem.repo_put_ok [OF _ small, of ?by ?d s2] by (auto simp: plain_paths)
  obtain s4 where s4: "repo_mark mem_txn ?d ?id s3 = Inr s4"
    using mem.repo_mark_ok [of ?id ?d s3] by (auto simp: plain_paths)
  have w: "plain_write mem_txn ?d 2 sampleNumber sampleRemote sampleEntryCodec ?b [sampleEntry, sampleEntry] [] = Inl DuplicateEntries"
    by (simp add: plain_write_def first h s1 s2 s3 s4 s1 [unfolded One_nat_def] first [unfolded One_nat_def])
  have e: "log_holds mem_txn sampleNumber sampleRemote [9] (plainLog ?b) [] []"
    by (rule mem.log_empty) (simp_all add: mem_get)
  from plain_write_all_or_nothing [OF fdb_mem sampleNumber_codec sampleRemote_codec d _ _ e, of 2 "[sampleEntry, sampleEntry]" sampleEntryCodec] w
  show ?thesis by auto
qed

text \<open>C28. The first key bound to a session's public key stays: whatever key a later request brings, and whatever other
  transactions did elsewhere, it is given the first one.\<close>

theorem auth_binding_is_first:
  assumes "fdb T" and "binary_codec C" and "prefix_bytes dir = p"
    and "repo_auth T dir C publicKey key1 s = Inr (bound1, s1)"
    and "\<And>k. inRange p ''values'' [Str (js ''auth''), Str publicKey] k \<Longrightarrow> tx_get T s2 k = tx_get T s1 k"
    and "repo_auth T dir C publicKey key2 s2 = Inr (bound2, s3)"
  shows "bound2 = bound1 \<and> s3 = s2"
proof -
  let ?path = "[Str (js ''auth''), Str publicKey]"
  have "decodedAt T C p s1 ?path = Some bound1"
  proof -
    obtain v where v: "repo_get T dir ?path C s = Inr v"
      and r: "case v of Some k \<Rightarrow> bound1 = k \<and> s1 = s | None \<Rightarrow> bound1 = key1 \<and> repo_put T dir ?path C key1 s = Inr s1"
      using assms(4) by (auto simp: repo_auth_def bindR_eq_Inr split: option.splits)
    show ?thesis
      using repo_get_Inr [OF v] r by (auto simp: assms(3) split: option.splits
          intro: fdb.repo_put_decoded [OF assms(1) _ _ assms(3) assms(2)])
  qed
  then have d: "decodedAt T C p s2 ?path = Some bound1"
    using fdb.decodedAt_cong [OF assms(1), of p ?path s2 s1 C] assms(5) by simp
  obtain v where "repo_get T dir ?path C s2 = Inr v" and r: "case v of Some k \<Rightarrow> bound2 = k \<and> s3 = s2 | None \<Rightarrow> True"
    using assms(6) by (auto simp: repo_auth_def bindR_eq_Inr split: option.splits)
  from repo_get_Inr [OF this(1)] r d show ?thesis by (simp add: assms(3))
qed

definition sampleBytes :: "bytes binary_codec" where
  "sampleBytes = \<lparr>encodeBinary = (\<lambda>b. b), decodeBinary = Some\<rparr>"

theorem auth_binding_is_first_witness:
  "\<exists>s. repo_auth mem_txn (fromBytes [9]) sampleBytes (js ''a'') [1] [] = Inr ([1], s)
    \<and> repo_auth mem_txn (fromBytes [9]) sampleBytes (js ''a'') [2] s = Inr ([1], s)"
proof -
  let ?d = "fromBytes [9]" and ?path = "[Str (js ''auth''), Str (js ''a'')]"
  have C: "binary_codec sampleBytes" by unfold_locales (simp add: sampleBytes_def)
  have d: "prefix_bytes ?d = [9]" by (simp add: fromBytes_def)
  have g: "repo_get mem_txn ?d ?path sampleBytes [] = Inr None"
    by (rule repo_get_None) (simp_all add: sample_values)
  obtain s where s: "repo_put mem_txn ?d ?path sampleBytes [1] [] = Inr s"
    using mem.repo_put_ok [of ?path sampleBytes "[1]" ?d "[]"] by (fastforce simp: sampleBytes_def chunkSize_def)
  have a: "repo_auth mem_txn ?d sampleBytes (js ''a'') [1] [] = Inr ([1], s)" by (simp add: repo_auth_def g s)
  have v: "decodedAt mem_txn sampleBytes [9] s ?path = Some [1]" by (rule mem.repo_put_decoded [OF s _ d C]) simp
  have "repo_get mem_txn ?d ?path sampleBytes s = Inr (Some [1])" by (rule repo_get_Some) (simp_all add: v d)
  then have b: "repo_auth mem_txn ?d sampleBytes (js ''a'') [2] s = Inr ([1], s)" by (simp add: repo_auth_def)
  from auth_binding_is_first [OF fdb_mem C d a refl b] a b show ?thesis by blast
qed

end
