(* ===== verification/Backing_Persistence.thy ===== *)
theory Backing_Persistence
  imports Stored_Values
begin

text \<open>
  Effect's backing persistence, src/src/persistence/backing-persistence.ts. An entry is a manifest under
  \<open>entries\<close>, an identity and an expiry, and a value in chunks under that identity; \<open>expires\<close> lists the entries by
  expiry, \<open>garbage\<close> the identities whose values are to be removed, \<open>metadata\<close> holds the epoch of a store.
  A batch that is too large for one transaction is staged in several and then published. Every
  transaction body takes the operations of the transaction, the subspaces and the time; the identities and epochs
  that the code draws at random are arguments, and so are \<open>JSON.stringify\<close> and \<open>JSON.parse\<close>.
\<close>

section \<open>Data\<close>

datatype json = JNull | JBool bool | JNumber rat | JString js_string | JArray "json list" | JObject "(js_string \<times> json) list"

record json_text =
  stringify :: "json \<Rightarrow> js_string option"
  parse_json :: "js_string \<Rightarrow> json option"

datatype duration = Millis rat | Infinite

definition cleanupBatchSize :: nat where "cleanupBatchSize = 100"
definition stagingGarbageDelay :: rat where "stagingGarbageDelay = 24 * 60 * 60 * 1000"
definition transactionByteBudget :: nat where "transactionByteBudget = 8000000"
definition operationByteOverhead :: nat where "operationByteOverhead = 64"

record entry_manifest =
  manifest_identity :: js_string
  manifest_expires :: "rat option"

record persistence_keys =
  entries_sub :: subspace
  values_sub :: subspace
  expires_sub :: subspace
  garbage_sub :: subspace
  metadata_sub :: subspace

text \<open>The epoch of a store, absent before its first \<open>clear\<close>.\<close>

type_synonym store_epoch = "bytes option"

type_synonym mutation = "bytes \<times> bytes"

record prepared_entry =
  prepared_key :: js_string
  prepared_identity :: js_string
  prepared_expires :: "rat option"
  manifestKey :: bytes
  manifestValue :: bytes
  expirationKey :: "bytes option"
  identityValue :: bytes
  stagingGarbageKey :: bytes
  chunks :: "mutation list"
  directByteEstimate :: nat
  stagedPublicationByteEstimate :: nat

type_synonym write_entry = "js_string \<times> json \<times> duration option"

datatype persist_cause =
    TupleCause tuple_error
  | DirectoryCause store_error
  | JsonCause
  | NotSerializable
  | InvalidValue
  | InvalidManifest

datatype persist_error =
    Failure persist_cause
  | StoreEpochChanged
  | PersistenceError string "js_string option" persist_cause
  | IncompleteValue js_string
  | TransactionLimit
  | InvalidExpirationIndex
  | InvalidGarbageIndex
  | Defect

text \<open>A \<open>PersistenceError\<close> stays as it is; other failures become one.\<close>

definition persistenceError :: "string \<Rightarrow> js_string option \<Rightarrow> persist_error + 'a \<Rightarrow> persist_error + 'a" where
  "persistenceError method key m = (case m of
     Inl (Failure cause) \<Rightarrow> Inl (PersistenceError method key cause)
   | Inl e \<Rightarrow> Inl e
   | Inr x \<Rightarrow> Inr x)"

definition liftTuple :: "tuple_error + 'a \<Rightarrow> persist_error + 'a" where
  "liftTuple m = (case m of Inl e \<Rightarrow> Inl (Failure (TupleCause e)) | Inr x \<Rightarrow> Inr x)"

definition timestamp :: "rat \<Rightarrow> int" where
  "timestamp v = max 0 (min maxSafeInteger \<lfloor>v\<rfloor>)"

definition equalEpochs :: "store_epoch \<Rightarrow> store_epoch \<Rightarrow> bool" where
  "equalEpochs left right = (left = right)"

definition mutationBytes :: "mutation \<Rightarrow> nat" where
  "mutationBytes m = length (fst m) + length (snd m) + operationByteOverhead"

definition clearBytes :: "bytes \<Rightarrow> nat" where
  "clearBytes key = length key + operationByteOverhead"

definition readBytes :: "bytes \<Rightarrow> nat" where
  "readBytes key = length key * 2 + operationByteOverhead"

section \<open>Values and manifests as text\<close>

definition encodeValue :: "json_text \<Rightarrow> js_string \<Rightarrow> json \<Rightarrow> persist_error + bytes" where
  "encodeValue J key v = (case stringify J v of
     None \<Rightarrow> Inl (PersistenceError ''set'' (Some key) NotSerializable)
   | Some text \<Rightarrow> Inr (text_encode text))"

text \<open>The decoder is strict and drops a byte order mark.\<close>

definition strictText :: "bytes \<Rightarrow> js_string option" where
  "strictText b = text_decode (if take 3 b = [0xEF, 0xBB, 0xBF] then drop 3 b else b)"

definition decodeValue :: "json_text \<Rightarrow> js_string \<Rightarrow> bytes \<Rightarrow> persist_error + json" where
  "decodeValue J key b = (case Option.bind (strictText b) (parse_json J) of
     None \<Rightarrow> Inl (PersistenceError ''get'' (Some key) JsonCause)
   | Some v \<Rightarrow> (case v of
       JArray _ \<Rightarrow> Inr v
     | JObject _ \<Rightarrow> Inr v
     | _ \<Rightarrow> Inl (PersistenceError ''get'' (Some key) InvalidValue)))"

definition manifestJson :: "entry_manifest \<Rightarrow> json" where
  "manifestJson m = JArray [JString (manifest_identity m),
     case manifest_expires m of None \<Rightarrow> JNull | Some t \<Rightarrow> JNumber t]"

definition encodeManifest :: "json_text \<Rightarrow> entry_manifest \<Rightarrow> bytes" where
  "encodeManifest J m = text_encode (the (stringify J (manifestJson m)))"

fun manifestOf :: "json \<Rightarrow> entry_manifest option" where
  "manifestOf (JArray [JString identity, JNull]) =
    (if identity = [] then None else Some \<lparr>manifest_identity = identity, manifest_expires = None\<rparr>)"
| "manifestOf (JArray [JString identity, JNumber t]) =
    (if identity = [] then None else Some \<lparr>manifest_identity = identity, manifest_expires = Some t\<rparr>)"
| "manifestOf _ = None"

definition decodeManifest :: "json_text \<Rightarrow> js_string \<Rightarrow> bytes \<Rightarrow> persist_error + entry_manifest" where
  "decodeManifest J key b = (case Option.bind (strictText b) (parse_json J) of
     None \<Rightarrow> Inl (PersistenceError ''get'' (Some key) JsonCause)
   | Some v \<Rightarrow> (case manifestOf v of
       None \<Rightarrow> Inl (PersistenceError ''get'' (Some key) InvalidManifest)
     | Some m \<Rightarrow> Inr m))"

definition expirationFor :: "duration option \<Rightarrow> rat \<Rightarrow> rat option" where
  "expirationFor ttl now = (case ttl of
     Some (Millis d) \<Rightarrow> Some (of_int \<lceil>min (of_int maxSafeInteger) (now + max 0 d)\<rceil>)
   | _ \<Rightarrow> None)"

text \<open>A \<open>Map\<close>: the position of the first entry of a key, the value of the last.\<close>

definition mapSet :: "write_entry list \<Rightarrow> write_entry \<Rightarrow> write_entry list" where
  "mapSet m e = (if fst e \<in> fst ` set m then map (\<lambda>x. if fst x = fst e then e else x) m else m @ [e])"

definition latestEntries :: "write_entry list \<Rightarrow> write_entry list" where
  "latestEntries entries = foldl mapSet [] entries"

definition sameManifest :: "entry_manifest option \<Rightarrow> prepared_entry \<Rightarrow> bool" where
  "sameManifest m e = (case m of None \<Rightarrow> False | Some m \<Rightarrow>
     manifest_identity m = prepared_identity e \<and> manifest_expires m = prepared_expires e)"

section \<open>Keys\<close>

definition initializeKeys :: "('s \<Rightarrow> store_error + subspace \<times> 's) \<Rightarrow> 's \<Rightarrow> persist_error + persistence_keys \<times> 's" where
  "initializeKeys rootDir s = (case rootDir s of
     Inl e \<Rightarrow> Inl (Failure (DirectoryCause e))
   | Inr (directory, s) \<Rightarrow>
       bindR (liftTuple (subspace directory [Str (js ''entries'')])) (\<lambda>entries.
       bindR (liftTuple (subspace directory [Str (js ''values'')])) (\<lambda>values.
       bindR (liftTuple (subspace directory [Str (js ''expires'')])) (\<lambda>expires.
       bindR (liftTuple (subspace directory [Str (js ''garbage'')])) (\<lambda>garbage.
       bindR (liftTuple (subspace directory [Str (js ''metadata'')])) (\<lambda>metadata.
         Inr (\<lparr>entries_sub = entries, values_sub = values, expires_sub = expires, garbage_sub = garbage,
           metadata_sub = metadata\<rparr>, s)))))))"

definition epochKey :: "persistence_keys \<Rightarrow> js_string \<Rightarrow> persist_error + bytes" where
  "epochKey Q storeId = liftTuple (subspace_pack (metadata_sub Q) [Str storeId, Str (js ''epoch'')])"

definition entryKey :: "persistence_keys \<Rightarrow> js_string \<Rightarrow> js_string \<Rightarrow> persist_error + bytes" where
  "entryKey Q storeId key = liftTuple (subspace_pack (entries_sub Q) [Str storeId, Str key])"

definition expiresKey :: "persistence_keys \<Rightarrow> js_string \<Rightarrow> rat \<Rightarrow> js_string \<Rightarrow> persist_error + bytes" where
  "expiresKey Q storeId t key = liftTuple (subspace_pack (expires_sub Q) [Str storeId, BigInt (timestamp t), Str key])"

definition garbageKey :: "persistence_keys \<Rightarrow> js_string \<Rightarrow> rat \<Rightarrow> js_string \<Rightarrow> persist_error + bytes" where
  "garbageKey Q storeId t identity = liftTuple (subspace_pack (garbage_sub Q) [Str storeId, BigInt (timestamp t), Str identity])"

section \<open>Entries\<close>

definition clearExpiration ::
    "'s txn \<Rightarrow> persistence_keys \<Rightarrow> js_string \<Rightarrow> js_string \<Rightarrow> rat option \<Rightarrow> 's \<Rightarrow> persist_error + 's" where
  "clearExpiration T Q storeId key expires s = (case expires of
     None \<Rightarrow> Inr s
   | Some t \<Rightarrow> bindR (expiresKey Q storeId t key) (\<lambda>k. Inr (tx_clear T k s)))"

definition clearStoredValue :: "'s txn \<Rightarrow> persistence_keys \<Rightarrow> js_string \<Rightarrow> js_string \<Rightarrow> 's \<Rightarrow> persist_error + 's" where
  "clearStoredValue T Q storeId identity s =
     liftTuple (clearChunkedValue T (values_sub Q) [Str storeId, Str identity] s)"

definition readManifest ::
    "'s txn \<Rightarrow> json_text \<Rightarrow> persistence_keys \<Rightarrow> js_string \<Rightarrow> js_string \<Rightarrow> 's \<Rightarrow> persist_error + entry_manifest option" where
  "readManifest T J Q storeId key s =
    bindR (entryKey Q storeId key) (\<lambda>k. case tx_get T s k of
      None \<Rightarrow> Inr None
    | Some b \<Rightarrow> bindR (decodeManifest J key b) (\<lambda>m. Inr (Some m)))"

definition readStoredValue ::
    "'s txn \<Rightarrow> json_text \<Rightarrow> persistence_keys \<Rightarrow> js_string \<Rightarrow> js_string \<Rightarrow> entry_manifest \<Rightarrow> 's \<Rightarrow> persist_error + json" where
  "readStoredValue T J Q storeId key m s =
    bindR (liftTuple (readChunkedValue T s (values_sub Q) [Str storeId, Str (manifest_identity m)])) (\<lambda>v. case v of
      None \<Rightarrow> Inl (IncompleteValue key)
    | Some b \<Rightarrow> decodeValue J key b)"

definition expired :: "entry_manifest \<Rightarrow> rat \<Rightarrow> bool" where
  "expired m now = (case manifest_expires m of None \<Rightarrow> False | Some t \<Rightarrow> t \<le> now)"

text \<open>An entry that has expired is removed by the read that finds it.\<close>

definition removeEntry ::
    "'s txn \<Rightarrow> persistence_keys \<Rightarrow> js_string \<Rightarrow> js_string \<Rightarrow> bytes \<Rightarrow> entry_manifest \<Rightarrow> 's \<Rightarrow> persist_error + 's" where
  "removeEntry T Q storeId key k m s =
    bindR (clearExpiration T Q storeId key (manifest_expires m) (tx_clear T k s)) (\<lambda>s.
      clearStoredValue T Q storeId (manifest_identity m) s)"

definition resolveEntry ::
    "'s txn \<Rightarrow> json_text \<Rightarrow> persistence_keys \<Rightarrow> js_string \<Rightarrow> js_string \<Rightarrow> rat \<Rightarrow> 's \<Rightarrow> persist_error + json option \<times> 's" where
  "resolveEntry T J Q storeId key now s =
    bindR (readManifest T J Q storeId key s) (\<lambda>manifest. case manifest of
      None \<Rightarrow> Inr (None, s)
    | Some m \<Rightarrow>
        if expired m now then
          bindR (entryKey Q storeId key) (\<lambda>k.
          bindR (removeEntry T Q storeId key k m s) (\<lambda>s. Inr (None, s)))
        else bindR (readStoredValue T J Q storeId key m s) (\<lambda>v. Inr (Some v, s)))"

end
