(* ===== verification/Persistence_Operations.thy ===== *)
theory Persistence_Operations
  imports Backing_Persistence
begin

text \<open>
  The operations of a store of the backing persistence: reads, writes, removal, cleanup. A write is a sequence of
  transactions, between which other clients commit theirs; \<open>inTransaction\<close> runs one transaction that commits, or
  that fails and changes nothing.
\<close>

section \<open>Sequences of transactions\<close>

text \<open>
  What surrounds an operation: the changes of other clients before its \<open>n\<close>-th transaction, the clock and the
  random identities after \<open>n\<close> transactions.
\<close>

record 's surroundings =
  others :: "nat \<Rightarrow> 's \<Rightarrow> 's"
  clockAt :: "nat \<Rightarrow> rat"
  uuidAt :: "nat \<Rightarrow> nat \<Rightarrow> js_string"

type_synonym ('s, 'a) run = "nat \<times> 's \<Rightarrow> (persist_error + 'a) \<times> nat \<times> 's"

definition thenRun :: "('s, 'a) run \<Rightarrow> ('a \<Rightarrow> ('s, 'b) run) \<Rightarrow> ('s, 'b) run" where
  "thenRun m f st = (let (r, st) = m st in case r of Inl e \<Rightarrow> (Inl e, st) | Inr x \<Rightarrow> f x st)"

definition inTransaction :: "'s surroundings \<Rightarrow> ('s \<Rightarrow> persist_error + 'a \<times> 's) \<Rightarrow> ('s, 'a) run" where
  "inTransaction U body st = (let (n, s) = st; s = others U n s in
     case body s of Inl e \<Rightarrow> (Inl e, Suc n, s) | Inr (x, s) \<Rightarrow> (Inr x, Suc n, s))"

section \<open>The subspaces, opened once\<close>

definition persistKeys ::
    "('s \<Rightarrow> store_error + subspace \<times> 's) \<Rightarrow> persistence_keys option \<Rightarrow> 's
      \<Rightarrow> persist_error + persistence_keys \<times> persistence_keys option \<times> 's" where
  "persistKeys rootDir keyCache s = (case keyCache of
     Some cached \<Rightarrow> Inr (cached, Some cached, s)
   | None \<Rightarrow> bindR (initializeKeys rootDir s) (\<lambda>(initialized, s). Inr (initialized, Some initialized, s)))"

section \<open>Reads\<close>

definition persist_get ::
    "'s txn \<Rightarrow> json_text \<Rightarrow> persistence_keys \<Rightarrow> js_string \<Rightarrow> js_string \<Rightarrow> rat \<Rightarrow> 's \<Rightarrow> persist_error + json option \<times> 's" where
  "persist_get T J Q storeId key now s = persistenceError ''get'' (Some key) (resolveEntry T J Q storeId key now s)"

text \<open>The state of the loop of \<open>getMany\<close>: the values found, the live entries, the transaction.\<close>

definition scanEntry ::
    "'s txn \<Rightarrow> json_text \<Rightarrow> persistence_keys \<Rightarrow> js_string \<Rightarrow> rat \<Rightarrow> js_string \<times> bytes \<times> bytes option
      \<Rightarrow> (js_string \<Rightarrow> json option) \<times> (js_string \<times> entry_manifest) list \<times> 's
      \<Rightarrow> persist_error + (js_string \<Rightarrow> json option) \<times> (js_string \<times> entry_manifest) list \<times> 's" where
  "scanEntry T J Q storeId now x st = (case x of (key, k, item) \<Rightarrow> case st of (values, live, s) \<Rightarrow>
     case item of
       None \<Rightarrow> Inr (values(key := None), live, s)
     | Some b \<Rightarrow> bindR (decodeManifest J key b) (\<lambda>m.
         if expired m now then
           bindR (removeEntry T Q storeId key k m s) (\<lambda>s. Inr (values(key := None), live, s))
         else Inr (values, live @ [(key, m)], s)))"

definition persist_getMany ::
    "'s txn \<Rightarrow> json_text \<Rightarrow> persistence_keys \<Rightarrow> js_string \<Rightarrow> js_string list \<Rightarrow> rat \<Rightarrow> 's
      \<Rightarrow> persist_error + json option list \<times> 's" where
  "persist_getMany T J Q storeId requestedKeys now s = persistenceError ''getMany'' None
    (let uniqueKeys = jsSet requestedKeys in
     bindR (mapR (entryKey Q storeId) uniqueKeys) (\<lambda>manifestKeys.
     let encoded = tx_getMany T s manifestKeys in
     bindR (foldR (scanEntry T J Q storeId now) (zip uniqueKeys (zip manifestKeys encoded)) (\<lambda>_. None, [], s))
       (\<lambda>(values, live, s).
     bindR (mapR (\<lambda>(key, m). readStoredValue T J Q storeId key m s) live) (\<lambda>loaded.
     let values = foldl (\<lambda>values (key, v). values(key := Some v)) values (zip (map fst live) loaded) in
       Inr (map values requestedKeys, s)))))"

section \<open>Writes\<close>

definition prepareEntry ::
    "json_text \<Rightarrow> persistence_keys \<Rightarrow> js_string \<Rightarrow> rat \<Rightarrow> write_entry \<Rightarrow> js_string \<Rightarrow> persist_error + prepared_entry" where
  "prepareEntry J Q storeId now entry identity = (case entry of (key, v, ttl) \<Rightarrow>
    let garbageAt = of_int \<lceil>min (of_int maxSafeInteger) (now + stagingGarbageDelay)\<rceil>;
        idValue = text_encode identity;
        expires = expirationFor ttl now;
        manifest = encodeManifest J \<lparr>manifest_identity = identity, manifest_expires = expires\<rparr> in
    bindR (entryKey Q storeId key) (\<lambda>mKey.
    bindR (case expires of None \<Rightarrow> Inr None | Some t \<Rightarrow> bindR (expiresKey Q storeId t key) (\<lambda>k. Inr (Some k))) (\<lambda>eKey.
    bindR (expiresKey Q storeId (of_int maxSafeInteger) key) (\<lambda>previousExpirationKey.
    bindR (garbageKey Q storeId (of_int maxSafeInteger) identity) (\<lambda>previousGarbageKey.
    bindR (garbageKey Q storeId garbageAt identity) (\<lambda>gKey.
    bindR (encodeValue J key v) (\<lambda>encoded.
    let values = splitChunkedValue encoded in
    bindR (mapR (\<lambda>index. bindR (liftTuple (subspace_pack (values_sub Q) [Str storeId, Str identity, BigInt (int index)]))
        (\<lambda>k. Inr (k, values ! index))) [0..<length values]) (\<lambda>chunkMutations.
    let publication = readBytes mKey + mutationBytes (mKey, manifest) + clearBytes previousExpirationKey
          + mutationBytes (previousGarbageKey, [])
          + (case eKey of None \<Rightarrow> 0 | Some k \<Rightarrow> mutationBytes (k, idValue));
        chunkBytes = sum_list (map mutationBytes chunkMutations) in
      Inr \<lparr>prepared_key = key, prepared_identity = identity, prepared_expires = expires, manifestKey = mKey,
        manifestValue = manifest, expirationKey = eKey, identityValue = idValue, stagingGarbageKey = gKey,
        chunks = chunkMutations, directByteEstimate = publication + chunkBytes,
        stagedPublicationByteEstimate = publication + readBytes gKey + clearBytes gKey\<rparr>))))))))"

definition prepareEntries ::
    "json_text \<Rightarrow> persistence_keys \<Rightarrow> js_string \<Rightarrow> rat \<Rightarrow> (nat \<Rightarrow> js_string) \<Rightarrow> write_entry list
      \<Rightarrow> persist_error + prepared_entry list" where
  "prepareEntries J Q storeId now identities entries =
    (let latest = latestEntries entries in
     mapR (\<lambda>i. prepareEntry J Q storeId now (latest ! i) (identities i)) [0..<length latest])"

definition setAll :: "'s txn \<Rightarrow> mutation list \<Rightarrow> 's \<Rightarrow> 's" where
  "setAll T mutations s = fold (\<lambda>m. tx_set T (fst m) (snd m)) mutations s"

text \<open>An expected epoch is absent in the first transaction of a staged write.\<close>

definition writeStageBatch ::
    "'s txn \<Rightarrow> bytes \<Rightarrow> mutation list \<Rightarrow> store_epoch option \<Rightarrow> 's \<Rightarrow> persist_error + store_epoch \<times> 's" where
  "writeStageBatch T transactionEpochKey mutations expectedEpoch s =
    (let currentEpoch = tx_get T s transactionEpochKey in
     case expectedEpoch of
       Some epoch \<Rightarrow> if \<not> equalEpochs epoch currentEpoch then Inl StoreEpochChanged
         else Inr (epoch, setAll T mutations s)
     | None \<Rightarrow> Inr (currentEpoch, setAll T mutations s))"

fun stageLoop ::
    "'s txn \<Rightarrow> 's surroundings \<Rightarrow> bytes \<Rightarrow> mutation list \<Rightarrow> mutation list \<times> nat \<times> store_epoch option
      \<Rightarrow> ('s, mutation list \<times> store_epoch option) run" where
  "stageLoop T U transactionEpochKey [] (batch, batchBytes, epoch) st = (Inr (batch, epoch), st)"
| "stageLoop T U transactionEpochKey (mutation # rest) (batch, batchBytes, epoch) st =
    (let bytes = mutationBytes mutation in
     if batch \<noteq> [] \<and> batchBytes + bytes > transactionByteBudget then
       thenRun (inTransaction U (writeStageBatch T transactionEpochKey batch epoch)) (\<lambda>epoch st.
         let batchBytes = readBytes transactionEpochKey in
         if batchBytes + bytes > transactionByteBudget then (Inl TransactionLimit, st)
         else stageLoop T U transactionEpochKey rest ([mutation], batchBytes + bytes, Some epoch) st) st
     else if batchBytes + bytes > transactionByteBudget then (Inl TransactionLimit, st)
     else stageLoop T U transactionEpochKey rest (batch @ [mutation], batchBytes + bytes, epoch) st)"

text \<open>The mutations that stage an entry: its marker among the garbage, then its chunks.\<close>

definition stagingMutations :: "prepared_entry \<Rightarrow> mutation list" where
  "stagingMutations entry = (stagingGarbageKey entry, []) # chunks entry"

definition stageEntries ::
    "'s txn \<Rightarrow> 's surroundings \<Rightarrow> bytes \<Rightarrow> prepared_entry list \<Rightarrow> ('s, store_epoch option) run" where
  "stageEntries T U transactionEpochKey entries =
    thenRun (stageLoop T U transactionEpochKey (concat (map stagingMutations entries))
        ([], readBytes transactionEpochKey, None)) (\<lambda>(batch, epoch) st.
      if batch \<noteq> [] then
        thenRun (inTransaction U (writeStageBatch T transactionEpochKey batch epoch)) (\<lambda>epoch st. (Inr (Some epoch), st)) st
      else (Inr epoch, st))"

text \<open>One entry of a publication, with the manifest that it replaces.\<close>

definition publishEntry ::
    "'s txn \<Rightarrow> persistence_keys \<Rightarrow> js_string \<Rightarrow> bool \<Rightarrow> rat \<Rightarrow> prepared_entry \<times> entry_manifest option \<Rightarrow> 's
      \<Rightarrow> persist_error + 's" where
  "publishEntry T Q storeId staged replacedAt x s = (case x of (entry, previous) \<Rightarrow>
    bindR (case previous of
        None \<Rightarrow> Inr s
      | Some old \<Rightarrow>
          bindR (clearExpiration T Q storeId (prepared_key entry) (manifest_expires old) s) (\<lambda>s.
          if manifest_identity old \<noteq> prepared_identity entry then
            bindR (garbageKey Q storeId replacedAt (manifest_identity old)) (\<lambda>k. Inr (tx_set T k [] s))
          else Inr s)) (\<lambda>s.
    let s = tx_set T (manifestKey entry) (manifestValue entry) s;
        s = (if staged then tx_clear T (stagingGarbageKey entry) s else s) in
    Inr (case expirationKey entry of None \<Rightarrow> s | Some k \<Rightarrow> tx_set T k (identityValue entry) s)))"

definition publishEntries ::
    "'s txn \<Rightarrow> json_text \<Rightarrow> persistence_keys \<Rightarrow> js_string \<Rightarrow> bytes \<Rightarrow> prepared_entry list \<Rightarrow> store_epoch option \<Rightarrow> rat
      \<Rightarrow> 's \<Rightarrow> persist_error + unit \<times> 's" where
  "publishEntries T J Q storeId transactionEpochKey entries expectedEpoch replacedAt s =
    (let staged = expectedEpoch \<noteq> None;
         currentEpoch = tx_get T s transactionEpochKey in
     if (case expectedEpoch of None \<Rightarrow> False | Some epoch \<Rightarrow> \<not> equalEpochs epoch currentEpoch) then Inl StoreEpochChanged
     else
     let readKeys = (if staged then map stagingGarbageKey entries @ map manifestKey entries else map manifestKey entries);
         encoded = tx_getMany T s readKeys;
         markerValues = (if staged then take (length entries) encoded else []);
         manifestValues = (if staged then drop (length entries) encoded else encoded) in
     bindR (mapR (\<lambda>(entry, v). case v of
         None \<Rightarrow> Inr None
       | Some b \<Rightarrow> bindR (decodeManifest J (prepared_key entry) b) (\<lambda>m. Inr (Some m))) (zip entries manifestValues)) (\<lambda>previous.
     if staged \<and> list_all2 sameManifest previous entries then
       Inr ((), fold (\<lambda>(entry, v) s. if v \<noteq> None then tx_clear T (stagingGarbageKey entry) s else s)
         (zip entries markerValues) s)
     else if staged \<and> None \<in> set markerValues then Inl StoreEpochChanged
     else
     let s = (if staged then s else fold (\<lambda>entry. setAll T (chunks entry)) entries s) in
     bindR (foldR (publishEntry T Q storeId staged replacedAt) (zip entries previous) s) (\<lambda>s. Inr ((), s))))"

definition writeOnce ::
    "'s txn \<Rightarrow> json_text \<Rightarrow> 's surroundings \<Rightarrow> persistence_keys \<Rightarrow> js_string \<Rightarrow> write_entry list \<Rightarrow> ('s, unit) run" where
  "writeOnce T J U Q storeId entries st =
    (case bindR (prepareEntries J Q storeId (clockAt U (fst st)) (uuidAt U (fst st)) entries) (\<lambda>prepared.
        bindR (epochKey Q storeId) (\<lambda>k. Inr (prepared, k))) of
       Inl e \<Rightarrow> (Inl e, st)
     | Inr (prepared, k) \<Rightarrow>
         let directBytes = readBytes k + sum_list (map directByteEstimate prepared);
             publicationBytes = readBytes k + sum_list (map stagedPublicationByteEstimate prepared);
             publish = (\<lambda>epoch st. inTransaction U (publishEntries T J Q storeId k prepared epoch (clockAt U (fst st))) st) in
         if directBytes \<le> transactionByteBudget then publish None st
         else if publicationBytes > transactionByteBudget then (Inl TransactionLimit, st)
         else thenRun (stageEntries T U k prepared) publish st)"

text \<open>A write starts again, with new identities, when the store was cleared or its staged values were collected.\<close>

partial_function (option) writeEntries ::
    "'s txn \<Rightarrow> json_text \<Rightarrow> 's surroundings \<Rightarrow> persistence_keys \<Rightarrow> js_string \<Rightarrow> write_entry list \<Rightarrow> nat \<times> 's
      \<Rightarrow> ((persist_error + unit) \<times> nat \<times> 's) option" where
  "writeEntries T J U Q storeId entries st =
    (let (r, st) = writeOnce T J U Q storeId entries st in
     if r = Inl StoreEpochChanged then writeEntries T J U Q storeId entries st else Some (r, st))"

definition persist_set ::
    "'s txn \<Rightarrow> json_text \<Rightarrow> 's surroundings \<Rightarrow> persistence_keys \<Rightarrow> js_string \<Rightarrow> js_string \<Rightarrow> json \<Rightarrow> duration option
      \<Rightarrow> nat \<times> 's \<Rightarrow> ((persist_error + unit) \<times> nat \<times> 's) option" where
  "persist_set T J U Q storeId key v ttl st =
    map_option (\<lambda>(r, st). (persistenceError ''set'' (Some key) r, st)) (writeEntries T J U Q storeId [(key, v, ttl)] st)"

definition persist_setMany ::
    "'s txn \<Rightarrow> json_text \<Rightarrow> 's surroundings \<Rightarrow> persistence_keys \<Rightarrow> js_string \<Rightarrow> write_entry list
      \<Rightarrow> nat \<times> 's \<Rightarrow> ((persist_error + unit) \<times> nat \<times> 's) option" where
  "persist_setMany T J U Q storeId entries st =
    map_option (\<lambda>(r, st). (persistenceError ''setMany'' None r, st)) (writeEntries T J U Q storeId entries st)"

section \<open>Removal\<close>

definition persist_remove ::
    "'s txn \<Rightarrow> json_text \<Rightarrow> persistence_keys \<Rightarrow> js_string \<Rightarrow> js_string \<Rightarrow> 's \<Rightarrow> persist_error + 's" where
  "persist_remove T J Q storeId key s = persistenceError ''remove'' (Some key)
    (bindR (readManifest T J Q storeId key s) (\<lambda>manifest.
     bindR (case manifest of
         None \<Rightarrow> Inr s
       | Some m \<Rightarrow> bindR (clearExpiration T Q storeId key (manifest_expires m) s) (\<lambda>s.
           clearStoredValue T Q storeId (manifest_identity m) s)) (\<lambda>s.
     bindR (entryKey Q storeId key) (\<lambda>k. Inr (tx_clear T k s)))))"

definition persist_clear ::
    "'s txn \<Rightarrow> persistence_keys \<Rightarrow> js_string \<Rightarrow> js_string \<Rightarrow> 's \<Rightarrow> persist_error + 's" where
  "persist_clear T Q storeId nextEpoch s = persistenceError ''clear'' None
    (bindR (liftTuple (subspace_range (entries_sub Q) [Str storeId])) (\<lambda>(entriesBegin, entriesEnd).
     bindR (liftTuple (subspace_range (values_sub Q) [Str storeId])) (\<lambda>(valuesBegin, valuesEnd).
     bindR (liftTuple (subspace_range (expires_sub Q) [Str storeId])) (\<lambda>(expiresBegin, expiresEnd).
     bindR (liftTuple (subspace_range (garbage_sub Q) [Str storeId])) (\<lambda>(garbageBegin, garbageEnd).
     let s = tx_clearRange T entriesBegin entriesEnd s;
         s = tx_clearRange T valuesBegin valuesEnd s;
         s = tx_clearRange T expiresBegin expiresEnd s;
         s = tx_clearRange T garbageBegin garbageEnd s in
     bindR (epochKey Q storeId) (\<lambda>k. Inr (tx_set T k (text_encode nextEpoch) s)))))))"

section \<open>Cleanup\<close>

definition expirationRow :: "tuple \<Rightarrow> js_string option" where
  "expirationRow t = (case t of [_, BigInt _, Str key] \<Rightarrow> Some key | _ \<Rightarrow> None)"

definition cleanExpired ::
    "'s txn \<Rightarrow> json_text \<Rightarrow> persistence_keys \<Rightarrow> js_string \<Rightarrow> rat \<Rightarrow> row \<Rightarrow> 's \<Rightarrow> persist_error + 's" where
  "cleanExpired T J Q storeId now item s =
    bindR (liftTuple (subspace_unpack (expires_sub Q) (fst item))) (\<lambda>t. case expirationRow t of
      None \<Rightarrow> Inl InvalidExpirationIndex
    | Some key \<Rightarrow> (case strictText (snd item) of
        None \<Rightarrow> Inl Defect
      | Some identity \<Rightarrow>
          bindR (readManifest T J Q storeId key s) (\<lambda>manifest.
          bindR (case manifest of
              None \<Rightarrow> Inr s
            | Some m \<Rightarrow>
                if manifest_identity m = identity \<and> expired m now then
                  bindR (entryKey Q storeId key) (\<lambda>k. clearStoredValue T Q storeId identity (tx_clear T k s))
                else Inr s) (\<lambda>s.
          Inr (tx_clear T (fst item) s)))))"

definition cleanGarbage ::
    "'s txn \<Rightarrow> persistence_keys \<Rightarrow> js_string \<Rightarrow> row \<Rightarrow> 's \<Rightarrow> persist_error + 's" where
  "cleanGarbage T Q storeId item s =
    bindR (liftTuple (subspace_unpack (garbage_sub Q) (fst item))) (\<lambda>t. case expirationRow t of
      None \<Rightarrow> Inl InvalidGarbageIndex
    | Some identity \<Rightarrow>
        bindR (clearStoredValue T Q storeId identity s) (\<lambda>s. Inr (tx_clear T (fst item) s)))"

text \<open>The rows of an index up to a time.\<close>

definition dueRows ::
    "'s txn \<Rightarrow> subspace \<Rightarrow> js_string \<Rightarrow> rat \<Rightarrow> 's \<Rightarrow> persist_error + row list" where
  "dueRows T sub storeId now s =
    bindR (liftTuple (subspace_range sub [Str storeId])) (\<lambda>(b, _).
    bindR (liftTuple (subspace_pack sub [Str storeId, BigInt (timestamp now + 1)])) (\<lambda>e.
      Inr (tx_getRange T s (keyRange b e (Some cleanupBatchSize) False))))"

definition cleanupBatch ::
    "'s txn \<Rightarrow> json_text \<Rightarrow> persistence_keys \<Rightarrow> js_string \<Rightarrow> rat \<Rightarrow> 's \<Rightarrow> persist_error + nat \<times> 's" where
  "cleanupBatch T J Q storeId now s = persistenceError ''cleanup'' None
    (bindR (dueRows T (expires_sub Q) storeId now s) (\<lambda>expiredRows.
     bindR (dueRows T (garbage_sub Q) storeId now s) (\<lambda>garbageRows.
     bindR (foldR (cleanExpired T J Q storeId now) expiredRows s) (\<lambda>s.
     bindR (foldR (cleanGarbage T Q storeId) garbageRows s) (\<lambda>s.
       Inr (max (length expiredRows) (length garbageRows), s))))))"

text \<open>Batches until one is not full.\<close>

partial_function (option) cleanupStore ::
    "'s txn \<Rightarrow> json_text \<Rightarrow> 's surroundings \<Rightarrow> persistence_keys \<Rightarrow> js_string \<Rightarrow> nat \<times> 's
      \<Rightarrow> ((persist_error + unit) \<times> nat \<times> 's) option" where
  "cleanupStore T J U Q storeId st =
    (case inTransaction U (cleanupBatch T J Q storeId (clockAt U (fst st))) st of
       (Inl e, st) \<Rightarrow> Some (Inl e, st)
     | (Inr count, st) \<Rightarrow> if count < cleanupBatchSize then Some (Inr (), st) else cleanupStore T J U Q storeId st)"

end
