(* ===== verification/Persistence_State.thy ===== *)
theory Persistence_State
  imports Persistence_Operations Sample_Codecs
begin

text \<open>
  The state of a store of the backing persistence: where its rows are, what \<open>JSON\<close> must do, and the invariant that
  relates the rows to the entries that the store holds.
\<close>

section \<open>JSON\<close>

text \<open>What is relied on: text that was written is read back, and the manifests can be written.\<close>

locale json_laws =
  fixes J :: json_text
  assumes parse_stringify: "stringify J v = Some t \<Longrightarrow> parse_json J t = Some v"
    and stringify_wellFormed: "stringify J v = Some t \<Longrightarrow> wellFormed t"
    and stringify_no_mark: "stringify J v = Some t \<Longrightarrow> take 3 (text_encode t) \<noteq> [0xEF, 0xBB, 0xBF]"
    and stringify_forever: "\<exists>t. stringify J (JArray [JString identity, JNull]) = Some t"
    and stringify_until:
      "0 \<le> n \<Longrightarrow> n \<le> maxSafeInteger \<Longrightarrow> \<exists>t. stringify J (JArray [JString identity, JNumber (of_int n)]) = Some t"

definition expiry_ok :: "rat option \<Rightarrow> bool" where
  "expiry_ok e \<longleftrightarrow> (case e of None \<Rightarrow> True | Some t \<Rightarrow> \<exists>n. t = of_int n \<and> 0 \<le> n \<and> n \<le> maxSafeInteger)"

lemma expirationFor_ok: "0 \<le> now \<Longrightarrow> expiry_ok (expirationFor ttl now)"
proof (cases "expirationFor ttl now")
  case (Some t)
  assume now: "0 \<le> now"
  obtain d where t: "t = of_int \<lceil>min (of_int maxSafeInteger) (now + max 0 d)\<rceil>"
    using Some by (auto simp: expirationFor_def split: option.splits duration.splits)
  have "0 \<le> min (of_int maxSafeInteger) (now + max 0 d)" using now by (simp add: maxSafeInteger_def)
  then have "0 \<le> \<lceil>min (of_int maxSafeInteger) (now + max 0 d)\<rceil>" by simp
  moreover have "\<lceil>min (of_int maxSafeInteger) (now + max 0 d)\<rceil> \<le> maxSafeInteger" by (simp add: ceiling_le_iff)
  ultimately show ?thesis using Some t by (auto simp: expiry_ok_def)
qed (simp add: expiry_ok_def)

text \<open>A value that \<open>get\<close> can return: an array or an object.\<close>

definition structured :: "json \<Rightarrow> bool" where
  "structured v \<longleftrightarrow> (case v of JArray _ \<Rightarrow> True | JObject _ \<Rightarrow> True | _ \<Rightarrow> False)"

definition jsonBytes :: "json_text \<Rightarrow> json \<Rightarrow> bytes" where
  "jsonBytes J v = text_encode (the (stringify J v))"

lemma encodeValue_Inr: "encodeValue J key v = Inr b \<longleftrightarrow> stringify J v \<noteq> None \<and> b = jsonBytes J v"
  by (auto simp: encodeValue_def jsonBytes_def split: option.splits)

text \<open>An identity, as \<open>randomUUID\<close> draws it.\<close>

definition identity_ok :: "js_string \<Rightarrow> bool" where
  "identity_ok i \<longleftrightarrow> wellFormed i \<and> i \<noteq> [] \<and> take 3 (text_encode i) \<noteq> [0xEF, 0xBB, 0xBF]"

lemma strictText_encode:
  "wellFormed t \<Longrightarrow> take 3 (text_encode t) \<noteq> [0xEF, 0xBB, 0xBF] \<Longrightarrow> strictText (text_encode t) = Some t"
  by (simp add: strictText_def text_decode_encode)

lemma strictText_identity: "identity_ok i \<Longrightarrow> strictText (text_encode i) = Some i"
  by (simp add: identity_ok_def strictText_encode)

context json_laws
begin

lemma decodeValue_json: "stringify J v \<noteq> None \<Longrightarrow> structured v \<Longrightarrow> decodeValue J key (jsonBytes J v) = Inr v"
  by (auto simp: decodeValue_def jsonBytes_def strictText_encode stringify_wellFormed stringify_no_mark parse_stringify
      structured_def split: json.splits)

lemma decodeManifest_encode:
  assumes "manifest_identity m \<noteq> []" and "expiry_ok (manifest_expires m)"
  shows "decodeManifest J key (encodeManifest J m) = Inr m"
proof -
  obtain t where t: "stringify J (manifestJson m) = Some t"
    using assms(2) stringify_forever [of "manifest_identity m"] stringify_until [of _ "manifest_identity m"]
    by (cases "manifest_expires m") (auto simp: manifestJson_def expiry_ok_def)
  moreover have "manifestOf (manifestJson m) = Some m"
    using assms(1) by (cases m; cases "manifest_expires m") (simp_all add: manifestJson_def)
  ultimately show ?thesis
    by (simp add: decodeManifest_def encodeManifest_def strictText_encode stringify_wellFormed stringify_no_mark parse_stringify)
qed

end

text \<open>An instance: a value is written as a packed tuple.\<close>

fun jsonTuple :: "json \<Rightarrow> tuple_value" where
  "jsonTuple JNull = Null"
| "jsonTuple (JBool b) = Bool b"
| "jsonTuple (JNumber r) = Nested [Bool True, ratValue r]"
| "jsonTuple (JString x) = Nested [Bool False, textValue x]"
| "jsonTuple (JArray vs) = Nested (Null # map jsonTuple vs)"
| "jsonTuple (JObject fs) =
    Nested [Bytes [], Nested (map (\<lambda>f. textValue (fst f)) fs), Nested (map (\<lambda>f. jsonTuple (snd f)) fs)]"

fun tupleJsonOf :: "tuple_value \<Rightarrow> json" where
  "tupleJsonOf (Bool b) = JBool b"
| "tupleJsonOf (Nested [Bool True, r]) = JNumber (ratOf r)"
| "tupleJsonOf (Nested [Bool False, x]) = JString (textOf x)"
| "tupleJsonOf (Nested (Null # vs)) = JArray (map tupleJsonOf vs)"
| "tupleJsonOf (Nested [Bytes _, Nested ks, Nested vs]) = JObject (zip (map textOf ks) (map tupleJsonOf vs))"
| "tupleJsonOf _ = JNull"

lemma tupleJsonOf_tuple [simp]: "tupleJsonOf (jsonTuple v) = v"
proof (induction v)
  case (JArray vs)
  then show ?case by (simp add: map_idI)
next
  case (JObject fs)
  have "zip (map fst fs) (map (\<lambda>f. tupleJsonOf (jsonTuple (snd f))) fs) = fs"
    using JObject by (subst map_cong [OF refl, where g = snd]) (auto simp: snds.simps zip_map_fst_snd)
  then show ?case by (simp add: o_def)
qed simp_all

lemma jsonTuple_ok: "packable (jsonTuple v) \<and> constructed (jsonTuple v)"
  by (induction v) (auto simp: list_all_iff snds.simps)

definition sampleJson :: json_text where
  "sampleJson = \<lparr>stringify = (\<lambda>v. Some (bytesText (encs False [jsonTuple v]))),
     parse_json = (\<lambda>t. case unpack (textBytes t) of Inr [u] \<Rightarrow> Some (tupleJsonOf u) | _ \<Rightarrow> None)\<rparr>"

lemma unpack_json: "unpack (enc False (jsonTuple v)) = Inr [jsonTuple v]"
  using tuples.decode_encode [of "[jsonTuple v]"] jsonTuple_ok [of v] by (simp add: tuple_ok_def)

interpretation sample: json_laws sampleJson
  by unfold_locales (auto simp: sampleJson_def unpack_json bytesText_wellFormed bytesText_no_mark)

section \<open>Keys\<close>

definition persist_at :: "persistence_keys \<Rightarrow> bytes \<Rightarrow> bool" where
  "persist_at Q p \<longleftrightarrow> prefix_bytes (entries_sub Q) = K p ''entries'' [] \<and> prefix_bytes (values_sub Q) = K p ''values'' []
     \<and> prefix_bytes (expires_sub Q) = K p ''expires'' [] \<and> prefix_bytes (garbage_sub Q) = K p ''garbage'' []
     \<and> prefix_bytes (metadata_sub Q) = K p ''metadata'' []"

definition EK :: "bytes \<Rightarrow> js_string \<Rightarrow> js_string \<Rightarrow> bytes" where
  "EK p sid key = K p ''entries'' [Str sid, Str key]"

definition XK :: "bytes \<Rightarrow> js_string \<Rightarrow> int \<Rightarrow> js_string \<Rightarrow> bytes" where
  "XK p sid n key = K p ''expires'' [Str sid, BigInt n, Str key]"

definition GK :: "bytes \<Rightarrow> js_string \<Rightarrow> int \<Rightarrow> js_string \<Rightarrow> bytes" where
  "GK p sid n i = K p ''garbage'' [Str sid, BigInt n, Str i]"

definition VK :: "bytes \<Rightarrow> js_string \<Rightarrow> js_string \<Rightarrow> bytes" where
  "VK p sid i = K p ''values'' [Str sid, Str i]"

definition MK :: "bytes \<Rightarrow> js_string \<Rightarrow> bytes" where
  "MK p sid = K p ''metadata'' [Str sid, Str (js ''epoch'')]"

abbreviation value_row :: "bytes \<Rightarrow> js_string \<Rightarrow> js_string \<Rightarrow> bytes \<Rightarrow> bool" where
  "value_row p sid i k \<equiv> inRange p ''values'' [Str sid, Str i] k"

lemmas persist_key_defs = EK_def XK_def GK_def VK_def MK_def

lemma persist_liftTuple [simp]:
  "liftTuple m = Inr x \<longleftrightarrow> m = Inr x" "liftTuple (Inr x) = Inr x"
  by (cases m) (auto simp: liftTuple_def)

lemma initializeKeys_at:
  assumes "initializeKeys rootDir s = Inr (Q, s')" and "opensRoot T rootDir p"
  shows "persist_at Q p" and "prefix p k \<Longrightarrow> tx_get T s' k = tx_get T s k"
  using assms by (auto simp: initializeKeys_def opensRoot_def persist_at_def bindR_eq_Inr dest!: child_at split: sum.splits)

lemma timestamp_range: "0 \<le> timestamp t" "timestamp t \<le> maxSafeInteger"
  by (simp_all add: timestamp_def maxSafeInteger_def)

lemma timestamp_int: "0 \<le> n \<Longrightarrow> n \<le> maxSafeInteger \<Longrightarrow> timestamp (of_int n) = n"
  by (simp add: timestamp_def)

lemma small_timestamp: "0 \<le> n \<Longrightarrow> n \<le> maxSafeInteger + 1 \<Longrightarrow> smallInt n"
  by (rule smallInt_mono [of n "2 ^ 53"]) (simp_all add: maxSafeInteger_def smallInt_def magnitudeBytes_def magnitudeLoop.simps)

lemma smallInt_timestamp [simp]: "smallInt (timestamp t)" "smallInt (timestamp t + 1)"
  using small_timestamp timestamp_range [of t] by simp_all

lemma entryKey_Inr: "persist_at Q p \<Longrightarrow> entryKey Q sid key = Inr k \<longleftrightarrow> wellFormed sid \<and> wellFormed key \<and> k = EK p sid key"
  by (auto simp: entryKey_def persist_at_def pack_at EK_def)

lemma expiresKey_Inr:
  "persist_at Q p \<Longrightarrow> expiresKey Q sid t key = Inr k \<longleftrightarrow> wellFormed sid \<and> wellFormed key \<and> k = XK p sid (timestamp t) key"
  by (auto simp: expiresKey_def persist_at_def pack_at XK_def)

lemma garbageKey_Inr:
  "persist_at Q p \<Longrightarrow> garbageKey Q sid t i = Inr k \<longleftrightarrow> wellFormed sid \<and> wellFormed i \<and> k = GK p sid (timestamp t) i"
  by (auto simp: garbageKey_def persist_at_def pack_at GK_def)

lemma epochKey_Inr: "persist_at Q p \<Longrightarrow> epochKey Q sid = Inr k \<longleftrightarrow> wellFormed sid \<and> k = MK p sid"
  by (auto simp: epochKey_def persist_at_def pack_at MK_def)

lemma persist_keys_eq [simp]:
  "wellFormed sid \<Longrightarrow> wellFormed key \<Longrightarrow> wellFormed key' \<Longrightarrow> EK p sid key = EK p sid key' \<longleftrightarrow> key = key'"
  "wellFormed sid \<Longrightarrow> wellFormed key \<Longrightarrow> wellFormed key' \<Longrightarrow> smallInt n \<Longrightarrow> smallInt n' \<Longrightarrow>
     XK p sid n key = XK p sid n' key' \<longleftrightarrow> n = n' \<and> key = key'"
  "wellFormed sid \<Longrightarrow> wellFormed i \<Longrightarrow> wellFormed i' \<Longrightarrow> smallInt n \<Longrightarrow> smallInt n' \<Longrightarrow>
     GK p sid n i = GK p sid n' i' \<longleftrightarrow> n = n' \<and> i = i'"
  by (auto simp: persist_key_defs)

lemma persist_keys_differ [simp]:
  assumes "wellFormed sid"
  shows "wellFormed key \<Longrightarrow> smallInt n \<Longrightarrow> wellFormed key' \<Longrightarrow> EK p sid key \<noteq> XK p sid n key'"
    "wellFormed key \<Longrightarrow> smallInt n \<Longrightarrow> wellFormed key' \<Longrightarrow> XK p sid n key' \<noteq> EK p sid key"
    "wellFormed key \<Longrightarrow> smallInt n \<Longrightarrow> wellFormed i \<Longrightarrow> EK p sid key \<noteq> GK p sid n i"
    "wellFormed key \<Longrightarrow> smallInt n \<Longrightarrow> wellFormed i \<Longrightarrow> GK p sid n i \<noteq> EK p sid key"
    "wellFormed key \<Longrightarrow> EK p sid key \<noteq> MK p sid" "wellFormed key \<Longrightarrow> MK p sid \<noteq> EK p sid key"
    "wellFormed key \<Longrightarrow> smallInt n \<Longrightarrow> smallInt n' \<Longrightarrow> wellFormed i \<Longrightarrow> XK p sid n key \<noteq> GK p sid n' i"
    "wellFormed key \<Longrightarrow> smallInt n \<Longrightarrow> smallInt n' \<Longrightarrow> wellFormed i \<Longrightarrow> GK p sid n' i \<noteq> XK p sid n key"
    "wellFormed key \<Longrightarrow> smallInt n \<Longrightarrow> XK p sid n key \<noteq> MK p sid" "wellFormed key \<Longrightarrow> smallInt n \<Longrightarrow> MK p sid \<noteq> XK p sid n key"
    "wellFormed i \<Longrightarrow> smallInt n \<Longrightarrow> GK p sid n i \<noteq> MK p sid" "wellFormed i \<Longrightarrow> smallInt n \<Longrightarrow> MK p sid \<noteq> GK p sid n i"
  using assms by (simp_all add: persist_key_defs)

lemma not_value_row [simp]:
  assumes "wellFormed sid" "wellFormed i"
  shows "wellFormed key \<Longrightarrow> \<not> value_row p sid i (EK p sid key)"
    "smallInt n \<Longrightarrow> wellFormed key \<Longrightarrow> \<not> value_row p sid i (XK p sid n key)"
    "smallInt n \<Longrightarrow> wellFormed j \<Longrightarrow> \<not> value_row p sid i (GK p sid n j)"
    "\<not> value_row p sid i (MK p sid)"
  using assms by (simp_all add: persist_key_defs)

lemma value_row_unique:
  assumes "value_row p sid i k" "value_row p sid j k" "wellFormed sid" "wellFormed i" "wellFormed j"
  shows "i = j"
  using inRange_disjoint [OF assms(1,2)] assms(3-5) by auto

lemma value_row_section:
  assumes "value_row p sid i k" "inRange p n r k" "wellFormed sid" "wellFormed i" "tuple_ok r"
  shows "n = ''values''"
  using inRange_disjoint [OF assms(1,2)] assms(3-5) by simp

section \<open>The steps of the operations\<close>

context fdb
begin

lemma clearStoredValue_Inr:
  assumes "persist_at Q p"
  shows "clearStoredValue T Q sid i s = Inr s' \<longleftrightarrow> wellFormed sid \<and> wellFormed i
    \<and> s' = tx_clearRange T (VK p sid i @ [NIL]) (VK p sid i @ [ESCAPE]) s"
  using assms by (auto simp: clearStoredValue_def clearChunkedValue_def chunkedValueRange_def bindR_eq_Inr range_at persist_at_def
      VK_def)

lemma get_clearValue:
  "tx_get T (tx_clearRange T (VK p sid i @ [NIL]) (VK p sid i @ [ESCAPE]) s) k
    = (if value_row p sid i k then None else tx_get T s k)"
  by (simp add: get_clearRange inRange_def VK_def)

lemma clearExpiration_Inr:
  assumes "persist_at Q p" and "wellFormed sid" and "wellFormed key"
  shows "clearExpiration T Q sid key e s
    = Inr (case e of None \<Rightarrow> s | Some t \<Rightarrow> tx_clear T (XK p sid (timestamp t) key) s)"
proof (cases e)
  case (Some t)
  have "expiresKey Q sid t key = Inr (XK p sid (timestamp t) key)" using assms by (simp add: expiresKey_Inr)
  with Some show ?thesis by (simp add: clearExpiration_def)
qed (simp add: clearExpiration_def)

lemma readStoredValue_at:
  assumes "persist_at Q p" and "wellFormed sid" and "wellFormed (manifest_identity m)"
  shows "readStoredValue T J Q sid key m s = (case valueAt T s (VK p sid (manifest_identity m)) of
    None \<Rightarrow> Inl (IncompleteValue key) | Some b \<Rightarrow> decodeValue J key b)"
proof -
  have "readChunkedValue T s (values_sub Q) [Str sid, Str (manifest_identity m)] = Inr (valueAt T s (VK p sid (manifest_identity m)))"
    using assms by (simp add: readChunked_Inr persist_at_def VK_def K_append del: encs_simps)
  then show ?thesis by (simp add: readStoredValue_def)
qed

lemma get_setAll: "tx_get T (setAll T ms s) k = (case map_of (rev ms) k of Some v \<Rightarrow> Some v | None \<Rightarrow> tx_get T s k)"
  by (induction ms arbitrary: s rule: rev_induct) (auto simp: setAll_def get_set)

text \<open>The chunks of a value, written where nothing was.\<close>

lemma valueAt_chunks:
  assumes "tuple_ok path" and "writable v" and at: "prefix_bytes sub @ encs False path = K p n r"
    and "\<And>k. inRange p n r k \<Longrightarrow> tx_get T s k = None"
  shows "valueAt T (setAll T (chunkRows sub path v) s) (K p n r) = Some v"
    and "\<not> inRange p n r k \<Longrightarrow> tx_get T (setAll T (chunkRows sub path v) s) k = tx_get T s k"
proof -
  obtain s' where w: "writeChunkedValue T sub path v s = Inr s'" using writeChunkedValue_ok [OF assms(1,2), of T sub s] by blast
  have c: "list_all constructed path" using assms(1) by (simp add: tuple_ok_def)
  note eq = writeChunkedValue_Inr(3) [OF w c]
  have b: "prefix_bytes sub @ encs False path @ x = K p n r @ x" for x using at by (simp add: append_assoc [symmetric] del: append_assoc)
  have get: "tx_get T s' k = tx_get T (setAll T (chunkRows sub path v) s) k" for k
    using assms(4) [of k]
    by (auto simp: eq setAll_def chunkRows_def fold_map o_def fold_set_get get_clearRange b inRange_def split: option.splits)
  note wr = write_Inr [OF w c at]
  show "valueAt T (setAll T (chunkRows sub path v) s) (K p n r) = Some v"
    using wr(2) valueAt_cong [of p n r "setAll T (chunkRows sub path v) s" s'] get by simp
  show "\<not> inRange p n r k \<Longrightarrow> tx_get T (setAll T (chunkRows sub path v) s) k = tx_get T s k"
    using wr(3) get by simp
qed

end

end
