(* ===== verification/Persistence_Invariant.thy ===== *)
theory Persistence_Invariant
  imports Persistence_State
begin

text \<open>
  The invariant of a store of the backing persistence. The store holds the entries \<open>A\<close>, each under an identity
  that no other entry and no garbage has; the identities in \<open>U\<close> were drawn before. Every operation that removes
  rows keeps it, with fewer entries.
\<close>

section \<open>The invariant\<close>

type_synonym persisted = "js_string \<Rightarrow> (rat option \<times> json) option"
type_synonym identities = "js_string \<Rightarrow> js_string option"

definition entry_rows :: "'s txn \<Rightarrow> json_text \<Rightarrow> bytes \<Rightarrow> js_string \<Rightarrow> 's \<Rightarrow> identities \<Rightarrow> persisted \<Rightarrow> bool" where
  "entry_rows T J p sid s I A \<longleftrightarrow> (\<forall>key. wellFormed key \<longrightarrow> tx_get T s (EK p sid key) =
     map_option (\<lambda>(e, v). encodeManifest J \<lparr>manifest_identity = the (I key), manifest_expires = e\<rparr>) (A key))"

definition entry_value :: "'s txn \<Rightarrow> json_text \<Rightarrow> bytes \<Rightarrow> js_string \<Rightarrow> 's \<Rightarrow> js_string set \<Rightarrow> js_string \<Rightarrow> js_string
    \<Rightarrow> rat option \<Rightarrow> json \<Rightarrow> bool" where
  "entry_value T J p sid s U key i e v \<longleftrightarrow> wellFormed key \<and> expiry_ok e \<and> structured v \<and> stringify J v \<noteq> None
     \<and> identity_ok i \<and> i \<in> U \<and> valueAt T s (VK p sid i) = Some (jsonBytes J v)
     \<and> (\<forall>t. e = Some t \<longrightarrow> tx_get T s (XK p sid (timestamp t) key) = Some (text_encode i))"

definition entry_values :: "'s txn \<Rightarrow> json_text \<Rightarrow> bytes \<Rightarrow> js_string \<Rightarrow> 's \<Rightarrow> identities \<Rightarrow> persisted \<Rightarrow> js_string set \<Rightarrow> bool" where
  "entry_values T J p sid s I A U \<longleftrightarrow> (\<forall>key e v. A key = Some (e, v) \<longrightarrow>
     (\<exists>i. I key = Some i \<and> entry_value T J p sid s U key i e v))"

definition unused_rows :: "'s txn \<Rightarrow> bytes \<Rightarrow> js_string \<Rightarrow> 's \<Rightarrow> js_string set \<Rightarrow> bool" where
  "unused_rows T p sid s U \<longleftrightarrow> (\<forall>i k. wellFormed i \<longrightarrow> i \<notin> U \<longrightarrow> value_row p sid i k \<longrightarrow> tx_get T s k = None)"

definition garbage_rows :: "'s txn \<Rightarrow> bytes \<Rightarrow> js_string \<Rightarrow> 's \<Rightarrow> identities \<Rightarrow> js_string set \<Rightarrow> bool" where
  "garbage_rows T p sid s I U \<longleftrightarrow> (\<forall>k v. inRange p ''garbage'' [Str sid] k \<longrightarrow> tx_get T s k = Some v \<longrightarrow>
     (\<exists>n i. k = GK p sid n i \<and> smallInt n \<and> identity_ok i \<and> i \<in> U \<and> i \<notin> ran I))"

definition expires_rows :: "'s txn \<Rightarrow> bytes \<Rightarrow> js_string \<Rightarrow> 's \<Rightarrow> bool" where
  "expires_rows T p sid s \<longleftrightarrow> (\<forall>k v. inRange p ''expires'' [Str sid] k \<longrightarrow> tx_get T s k = Some v \<longrightarrow>
     (\<exists>n key i. k = XK p sid n key \<and> smallInt n \<and> wellFormed key \<and> identity_ok i \<and> v = text_encode i))"

definition persist_inv :: "'s txn \<Rightarrow> json_text \<Rightarrow> bytes \<Rightarrow> js_string \<Rightarrow> 's \<Rightarrow> identities \<Rightarrow> persisted \<Rightarrow> js_string set \<Rightarrow> bool" where
  "persist_inv T J p sid s I A U \<longleftrightarrow> wellFormed sid \<and> dom I = dom A \<and> inj_on I (dom I)
     \<and> entry_rows T J p sid s I A \<and> entry_values T J p sid s I A U
     \<and> unused_rows T p sid s U \<and> garbage_rows T p sid s I U \<and> expires_rows T p sid s"

lemma persist_invD:
  assumes "persist_inv T J p sid s I A U"
  shows "wellFormed sid" "dom I = dom A" "inj_on I (dom I)" "entry_rows T J p sid s I A" "entry_values T J p sid s I A U"
    "unused_rows T p sid s U" "garbage_rows T p sid s I U" "expires_rows T p sid s"
  using assms unfolding persist_inv_def by blast+

lemma persist_entry:
  assumes "persist_inv T J p sid s I A U" and "A key = Some (e, v)"
  obtains i where "I key = Some i" "entry_value T J p sid s U key i e v"
  using assms unfolding persist_inv_def entry_values_def by blast

lemma entry_valueD:
  assumes "entry_value T J p sid s U key i e v"
  shows "wellFormed key" "expiry_ok e" "structured v" "stringify J v \<noteq> None" "identity_ok i" "wellFormed i" "i \<noteq> []" "i \<in> U"
    "valueAt T s (VK p sid i) = Some (jsonBytes J v)" "e = Some t \<Longrightarrow> tx_get T s (XK p sid (timestamp t) key) = Some (text_encode i)"
  using assms by (auto simp: entry_value_def identity_ok_def)

lemma identity_entry:
  assumes "persist_inv T J p sid s I A U" and "I key = Some i"
  obtains e v where "A key = Some (e, v)" "entry_value T J p sid s U key i e v"
proof -
  have "key \<in> dom A" using assms(2) persist_invD(2) [OF assms(1)] by (metis domI)
  then obtain e v where a: "A key = Some (e, v)" by auto
  from persist_entry [OF assms(1) a] assms(2) have "entry_value T J p sid s U key i e v" by auto
  with a that show thesis by blast
qed

lemma identity_wellFormed:
  assumes "persist_inv T J p sid s I A U" and "I key = Some i"
  shows "wellFormed i"
proof -
  obtain e v where "entry_value T J p sid s U key i e v" using identity_entry [OF assms] .
  then show ?thesis by (rule entry_valueD(6))
qed

lemma same_identity: "persist_inv T J p sid s I A U \<Longrightarrow> I key = Some i \<Longrightarrow> I key' = Some i \<Longrightarrow> key = key'"
  using persist_invD(3) [of T J p sid s I A U] by (auto simp: inj_on_def dom_def)

text \<open>The entries that have expired, and what a reader sees.\<close>

definition due :: "persisted \<Rightarrow> rat \<Rightarrow> js_string set" where
  "due A now = {key. \<exists>t v. A key = Some (Some t, v) \<and> t \<le> now}"

definition visible :: "persisted \<Rightarrow> rat \<Rightarrow> js_string \<Rightarrow> json option" where
  "visible A now key = (if key \<in> due A now then None else map_option snd (A key))"

lemma due_mono: "now \<le> later \<Longrightarrow> due A now \<subseteq> due A later"
  by (force simp: due_def)

lemma visible_restrict: "D \<subseteq> due A now \<Longrightarrow> now \<le> later \<Longrightarrow> visible (A |` (- D)) later = visible A later"
proof -
  assume D: "D \<subseteq> due A now" "now \<le> later"
  have "key \<in> D \<Longrightarrow> key \<in> due A later" for key using D due_mono [of now later A] by blast
  moreover have "key \<in> due (A |` (- D)) later \<longleftrightarrow> key \<in> due A later \<and> key \<notin> D" for key
    by (auto simp: due_def restrict_map_def)
  ultimately show ?thesis by (auto simp: visible_def restrict_map_def)
qed

context fdb
begin

section \<open>Rows are removed\<close>

lemma valueAt_VK:
  assumes "\<And>k. value_row p sid i k \<Longrightarrow> tx_get T s' k = tx_get T s k"
  shows "valueAt T s' (VK p sid i) = valueAt T s (VK p sid i)"
  unfolding VK_def by (rule valueAt_cong) (rule assms)

lemma persist_inv_removed:
  assumes inv: "persist_inv T J p sid s I A U"
    and removed: "\<And>k. k \<noteq> MK p sid \<Longrightarrow> tx_get T s' k = None \<or> tx_get T s' k = tx_get T s k"
    and kept: "\<And>key i. key \<notin> D \<Longrightarrow> wellFormed key \<Longrightarrow> tx_get T s' (EK p sid key) = tx_get T s (EK p sid key)"
      "\<And>key i k. key \<notin> D \<Longrightarrow> I key = Some i \<Longrightarrow> value_row p sid i k \<Longrightarrow> tx_get T s' k = tx_get T s k"
      "\<And>key t v. key \<notin> D \<Longrightarrow> A key = Some (Some t, v) \<Longrightarrow>
         tx_get T s' (XK p sid (timestamp t) key) = tx_get T s (XK p sid (timestamp t) key)"
    and gone: "\<And>key. key \<in> D \<Longrightarrow> wellFormed key \<Longrightarrow> tx_get T s' (EK p sid key) = None"
  shows "persist_inv T J p sid s' (I |` (- D)) (A |` (- D)) U"
  unfolding persist_inv_def
proof (intro conjI)
  note i = persist_invD [OF inv]
  show sid: "wellFormed sid" by (rule i)
  show "dom (I |` (- D)) = dom (A |` (- D))" using i(2) by simp
  show "inj_on (I |` (- D)) (dom (I |` (- D)))" using i(3) by (auto simp: inj_on_def restrict_map_def dom_def)
  show "entry_rows T J p sid s' (I |` (- D)) (A |` (- D))"
    using i(4) kept(1) gone by (auto simp: entry_rows_def restrict_map_def)
  show "entry_values T J p sid s' (I |` (- D)) (A |` (- D)) U"
    unfolding entry_values_def
  proof (intro allI impI)
    fix key e v assume "(A |` (- D)) key = Some (e, v)"
    then have a: "A key = Some (e, v)" "key \<notin> D" by (auto simp: restrict_map_def split: if_splits)
    obtain j where j: "I key = Some j" "entry_value T J p sid s U key j e v" using persist_entry [OF inv a(1)] .
    have "valueAt T s' (VK p sid j) = valueAt T s (VK p sid j)" by (rule valueAt_VK) (rule kept(2) [OF a(2) j(1)])
    then have "entry_value T J p sid s' U key j e v" using j(2) kept(3) [OF a(2)] a(1) by (auto simp: entry_value_def)
    with j(1) a(2) show "\<exists>i. (I |` (- D)) key = Some i \<and> entry_value T J p sid s' U key i e v"
      by (auto simp: restrict_map_def)
  qed
  have mk: "k \<noteq> MK p sid" if "inRange p n r k" "n \<noteq> ''metadata''" "tuple_ok r" for n r k
    using that sid by (auto simp: MK_def)
  have row: "tx_get T s k = Some v" if "tx_get T s' k = Some v" "inRange p n r k" "n \<noteq> ''metadata''" "tuple_ok r" for k v n r
    using removed [OF mk [OF that(2-4)]] that(1) by simp
  show "unused_rows T p sid s' U"
    unfolding unused_rows_def
  proof (intro allI impI)
    fix x k assume x: "wellFormed x" "x \<notin> U" "value_row p sid x k"
    have "k \<noteq> MK p sid" by (rule mk [OF x(3)]) (simp_all add: sid x)
    moreover have "tx_get T s k = None" using i(6) x by (auto simp: unused_rows_def)
    ultimately show "tx_get T s' k = None" using removed [of k] by auto
  qed
  have ran: "ran (I |` (- D)) \<subseteq> ran I" by (auto simp: ran_def restrict_map_def split: if_splits)
  show "garbage_rows T p sid s' (I |` (- D)) U"
    unfolding garbage_rows_def
  proof (intro allI impI)
    fix k v assume k: "inRange p ''garbage'' [Str sid] k" "tx_get T s' k = Some v"
    have "tx_get T s k = Some v" by (rule row [OF k(2,1)]) (simp_all add: sid)
    with i(7) k(1) ran show "\<exists>n i. k = GK p sid n i \<and> smallInt n \<and> identity_ok i \<and> i \<in> U \<and> i \<notin> ran (I |` (- D))"
      unfolding garbage_rows_def by blast
  qed
  show "expires_rows T p sid s'"
    unfolding expires_rows_def
  proof (intro allI impI)
    fix k v assume k: "inRange p ''expires'' [Str sid] k" "tx_get T s' k = Some v"
    have "tx_get T s k = Some v" by (rule row [OF k(2,1)]) (simp_all add: sid)
    with i(8) k(1) show "\<exists>n key i. k = XK p sid n key \<and> smallInt n \<and> wellFormed key \<and> identity_ok i \<and> v = text_encode i"
      unfolding expires_rows_def by blast
  qed
qed

text \<open>One entry is removed: its manifest, its value, and rows of the index of expiries that are its own.\<close>

lemma persist_inv_drop:
  assumes inv: "persist_inv T J p sid s I A U" and key: "wellFormed key" "I key = Some i"
    and eff: "\<And>k. tx_get T s' k = (if k = EK p sid key \<or> value_row p sid i k \<or> X k then None else tx_get T s k)"
    and X: "\<And>k. X k \<Longrightarrow> \<exists>n key'. k = XK p sid n key' \<and> smallInt n \<and> wellFormed key' \<and>
      (\<forall>t v. A key' = Some (Some t, v) \<longrightarrow> key' \<noteq> key \<longrightarrow> timestamp t \<noteq> n)"
  shows "persist_inv T J p sid s' (I |` (- {key})) (A |` (- {key})) U"
proof (rule persist_inv_removed [OF inv])
  note i = persist_invD [OF inv]
  have ok: "wellFormed i" by (rule identity_wellFormed [OF inv key(2)])
  show "tx_get T s' k = None \<or> tx_get T s' k = tx_get T s k" for k by (simp add: eff)
  show "tx_get T s' (EK p sid key') = tx_get T s (EK p sid key')" if "key' \<notin> {key}" "wellFormed key'" for key'
    using that key ok i(1) X [of "EK p sid key'"] by (auto simp: eff)
  show "tx_get T s' k = tx_get T s k" if k: "key' \<notin> {key}" "I key' = Some j" "value_row p sid j k" for key' j k
  proof -
    have "wellFormed j" by (rule identity_wellFormed [OF inv k(2)])
    moreover have "j \<noteq> i" using same_identity [OF inv k(2), of key] key(2) k(1) by auto
    ultimately have "\<not> value_row p sid i k" using value_row_unique [OF k(3)] ok i(1) by blast
    moreover have "k \<noteq> EK p sid key \<and> \<not> X k" using k(3) X [of k] \<open>wellFormed j\<close> i(1) key(1) by auto
    ultimately show ?thesis by (simp add: eff)
  qed
  show "tx_get T s' (XK p sid (timestamp t) key') = tx_get T s (XK p sid (timestamp t) key')"
    if a: "key' \<notin> {key}" "A key' = Some (Some t, v')" for key' t v'
  proof -
    have w: "wellFormed key'" using persist_entry [OF inv a(2)] entry_valueD(1) by metis
    have "\<not> X (XK p sid (timestamp t) key')"
    proof
      assume "X (XK p sid (timestamp t) key')"
      then obtain n key'' where x: "XK p sid (timestamp t) key' = XK p sid n key''" "smallInt n" "wellFormed key''"
        "\<forall>t v. A key'' = Some (Some t, v) \<longrightarrow> key'' \<noteq> key \<longrightarrow> timestamp t \<noteq> n" using X by blast
      then have "timestamp t = n \<and> key' = key''" using w i(1) by simp
      with x(4) a show False by auto
    qed
    then show ?thesis using w ok i(1) key(1) by (simp add: eff)
  qed
  show "tx_get T s' (EK p sid key') = None" if "key' \<in> {key}" "wellFormed key'" for key' using that by (simp add: eff)
qed

section \<open>Reads of manifests and values\<close>

lemma readManifest_at:
  assumes inv: "persist_inv T J p sid s I A U" and J: "json_laws J" and Q: "persist_at Q p" and key: "wellFormed key"
  shows "readManifest T J Q sid key s =
    Inr (map_option (\<lambda>(e, v). \<lparr>manifest_identity = the (I key), manifest_expires = e\<rparr>) (A key))"
proof (cases "A key")
  case None
  then have "tx_get T s (EK p sid key) = None" using persist_invD(4) [OF inv] key by (simp add: entry_rows_def)
  moreover have "entryKey Q sid key = Inr (EK p sid key)" using Q key persist_invD(1) [OF inv] by (simp add: entryKey_Inr)
  ultimately show ?thesis using None by (simp add: readManifest_def)
next
  case (Some ev)
  obtain e v where a: "A key = Some (e, v)" using Some by (cases ev) simp
  obtain i where i: "I key = Some i" "entry_value T J p sid s U key i e v" using persist_entry [OF inv a] .
  let ?m = "\<lparr>manifest_identity = i, manifest_expires = e\<rparr>"
  have "tx_get T s (EK p sid key) = Some (encodeManifest J ?m)"
    using persist_invD(4) [OF inv] key a i(1) by (simp add: entry_rows_def)
  moreover have "entryKey Q sid key = Inr (EK p sid key)" using Q key persist_invD(1) [OF inv] by (simp add: entryKey_Inr)
  moreover have "decodeManifest J key (encodeManifest J ?m) = Inr ?m"
    by (rule json_laws.decodeManifest_encode [OF J]) (use entry_valueD [OF i(2)] in simp_all)
  ultimately show ?thesis using a i(1) by (simp add: readManifest_def)
qed

lemma readStoredValue_entry:
  assumes inv: "persist_inv T J p sid s I A U" and J: "json_laws J" and Q: "persist_at Q p" and a: "A key = Some (e, v)"
  shows "readStoredValue T J Q sid key \<lparr>manifest_identity = the (I key), manifest_expires = e\<rparr> s = Inr v"
proof -
  obtain i where i: "I key = Some i" "entry_value T J p sid s U key i e v" using persist_entry [OF inv a] .
  have "decodeValue J key (jsonBytes J v) = Inr v"
    by (rule json_laws.decodeValue_json [OF J]) (use entry_valueD [OF i(2)] in simp_all)
  then show ?thesis
    using readStoredValue_at [OF Q persist_invD(1) [OF inv], of "\<lparr>manifest_identity = i, manifest_expires = e\<rparr>"] i entry_valueD [OF i(2)]
    by simp
qed

lemma expired_due: "A key = Some (e, v) \<Longrightarrow> expired \<lparr>manifest_identity = i, manifest_expires = e\<rparr> now \<longleftrightarrow> key \<in> due A now"
  by (auto simp: expired_def due_def split: option.splits)

text \<open>An entry is removed by a reader, by \<open>remove\<close> and by the cleanup.\<close>

lemma persist_inv_drop_entry:
  assumes inv: "persist_inv T J p sid s I A U" and i: "I key = Some i" "entry_value T J p sid s U key i e v"
    and eff: "\<And>k. tx_get T s' k =
      (if k = EK p sid key \<or> value_row p sid i k \<or> (\<exists>t. e = Some t \<and> k = XK p sid (timestamp t) key) then None else tx_get T s k)"
  shows "persist_inv T J p sid s' (I |` (- {key})) (A |` (- {key})) U"
proof (rule persist_inv_drop [OF inv entry_valueD(1) [OF i(2)] i(1) eff])
  fix k assume "\<exists>t. e = Some t \<and> k = XK p sid (timestamp t) key"
  then obtain t where t: "e = Some t" "k = XK p sid (timestamp t) key" by blast
  show "\<exists>n key'. k = XK p sid n key' \<and> smallInt n \<and> wellFormed key' \<and>
      (\<forall>t v. A key' = Some (Some t, v) \<longrightarrow> key' \<noteq> key \<longrightarrow> timestamp t \<noteq> n)"
    by (rule exI [of _ "timestamp t"], rule exI [of _ key]) (simp add: t entry_valueD(1) [OF i(2)])
qed

lemma drop_entry:
  assumes inv: "persist_inv T J p sid s I A U" and Q: "persist_at Q p" and a: "A key = Some (e, v)"
    and m: "m = \<lparr>manifest_identity = the (I key), manifest_expires = e\<rparr>"
  obtains s' where "removeEntry T Q sid key (EK p sid key) m s = Inr s'"
    "persist_inv T J p sid s' (I |` (- {key})) (A |` (- {key})) U"
proof -
  obtain i where i: "I key = Some i" "entry_value T J p sid s U key i e v" using persist_entry [OF inv a] .
  note ok = persist_invD(1) [OF inv] entry_valueD [OF i(2)]
  let ?s1 = "tx_clear T (EK p sid key) s"
  let ?s2 = "case e of None \<Rightarrow> ?s1 | Some t \<Rightarrow> tx_clear T (XK p sid (timestamp t) key) ?s1"
  let ?s3 = "tx_clearRange T (VK p sid i @ [NIL]) (VK p sid i @ [ESCAPE]) ?s2"
  have "clearStoredValue T Q sid i ?s2 = Inr ?s3" using ok by (subst clearStoredValue_Inr [OF Q]) simp
  then have r: "removeEntry T Q sid key (EK p sid key) m s = Inr ?s3"
    using clearExpiration_Inr [OF Q ok(1,2), where e = e and s = ?s1] i(1) by (simp add: removeEntry_def m)
  have "persist_inv T J p sid ?s3 (I |` (- {key})) (A |` (- {key})) U"
    by (rule persist_inv_drop_entry [OF inv i]) (cases e; simp add: get_clearValue get_clear)
  with r that show thesis by blast
qed

lemma resolveEntry_at:
  assumes inv: "persist_inv T J p sid s I A U" and J: "json_laws J" and Q: "persist_at Q p" and key: "wellFormed key"
  obtains s' D where "resolveEntry T J Q sid key now s = Inr (visible A now key, s')" "D \<subseteq> due A now"
    "persist_inv T J p sid s' (I |` (- D)) (A |` (- D)) U"
proof (cases "A key")
  case None
  then have "resolveEntry T J Q sid key now s = Inr (visible A now key, s)"
    using readManifest_at [OF inv J Q key] by (simp add: resolveEntry_def visible_def due_def)
  with inv show ?thesis using that [of s "{}"] by (simp add: restrict_map_def)
next
  case (Some ev)
  obtain e v where a: "A key = Some (e, v)" using Some by (cases ev) simp
  let ?m = "\<lparr>manifest_identity = the (I key), manifest_expires = e\<rparr>"
  have r: "readManifest T J Q sid key s = Inr (Some ?m)" using readManifest_at [OF inv J Q key] a by simp
  show ?thesis
  proof (cases "key \<in> due A now")
    case True
    obtain s' where d: "removeEntry T Q sid key (EK p sid key) ?m s = Inr s'"
      "persist_inv T J p sid s' (I |` (- {key})) (A |` (- {key})) U" using drop_entry [OF inv Q a refl] .
    have "entryKey Q sid key = Inr (EK p sid key)" using Q key persist_invD(1) [OF inv] by (simp add: entryKey_Inr)
    then have "resolveEntry T J Q sid key now s = Inr (visible A now key, s')"
      using r d(1) True a expired_due [of A key e v] by (simp add: resolveEntry_def visible_def)
    with d(2) True show ?thesis using that [of s' "{key}"] by simp
  next
    case False
    then have "resolveEntry T J Q sid key now s = Inr (visible A now key, s)"
      using r readStoredValue_entry [OF inv J Q a] a expired_due [of A key e v] by (simp add: resolveEntry_def visible_def)
    with inv show ?thesis using that [of s "{}"] by (simp add: restrict_map_def)
  qed
qed

section \<open>The operations that remove\<close>

lemma persist_get_at:
  assumes "persist_inv T J p sid s I A U" "json_laws J" "persist_at Q p" "wellFormed key"
  obtains s' D where "persist_get T J Q sid key now s = Inr (visible A now key, s')" "D \<subseteq> due A now"
    "persist_inv T J p sid s' (I |` (- D)) (A |` (- D)) U"
proof -
  obtain s' D where r: "resolveEntry T J Q sid key now s = Inr (visible A now key, s')" "D \<subseteq> due A now"
    "persist_inv T J p sid s' (I |` (- D)) (A |` (- D)) U" using resolveEntry_at [OF assms] .
  then have "persist_get T J Q sid key now s = Inr (visible A now key, s')" by (simp add: persist_get_def persistenceError_def)
  with r that show thesis by blast
qed

lemma persist_remove_at:
  assumes inv: "persist_inv T J p sid s I A U" and J: "json_laws J" and Q: "persist_at Q p" and key: "wellFormed key"
  obtains s' where "persist_remove T J Q sid key s = Inr s'" "persist_inv T J p sid s' (I |` (- {key})) (A |` (- {key})) U"
proof -
  have ek: "entryKey Q sid key = Inr (EK p sid key)" using Q key persist_invD(1) [OF inv] by (simp add: entryKey_Inr)
  note r = readManifest_at [OF inv J Q key]
  show ?thesis
  proof (cases "A key")
    case None
    have "persist_inv T J p sid (tx_clear T (EK p sid key) s) (I |` (- {key})) (A |` (- {key})) U"
    proof (rule persist_inv_removed [OF inv])
      show "tx_get T (tx_clear T (EK p sid key) s) k = tx_get T s k" if "I key' = Some i" "value_row p sid i k" for key' i k
        using that identity_wellFormed [OF inv that(1)] persist_invD(1) [OF inv] key by (auto simp: get_clear)
      show "tx_get T (tx_clear T (EK p sid key) s) (XK p sid (timestamp t) key') = tx_get T s (XK p sid (timestamp t) key')"
        if "A key' = Some (Some t, v)" for key' t v
      proof -
        have "wellFormed key'" using persist_entry [OF inv that] entry_valueD(1) by metis
        then show ?thesis using persist_invD(1) [OF inv] key by (simp add: get_clear)
      qed
    qed (use persist_invD(1) [OF inv] key in \<open>auto simp: get_clear\<close>)
    moreover have "persist_remove T J Q sid key s = Inr (tx_clear T (EK p sid key) s)"
      using r None ek by (simp add: persist_remove_def persistenceError_def)
    ultimately show ?thesis using that by blast
  next
    case (Some ev)
    obtain e v where a: "A key = Some (e, v)" using Some by (cases ev) simp
    obtain i where i: "I key = Some i" "entry_value T J p sid s U key i e v" using persist_entry [OF inv a] .
    note ok = persist_invD(1) [OF inv] entry_valueD [OF i(2)]
    let ?s2 = "case e of None \<Rightarrow> s | Some t \<Rightarrow> tx_clear T (XK p sid (timestamp t) key) s"
    let ?s3 = "tx_clearRange T (VK p sid i @ [NIL]) (VK p sid i @ [ESCAPE]) ?s2"
    have "clearStoredValue T Q sid i ?s2 = Inr ?s3" using ok by (subst clearStoredValue_Inr [OF Q]) simp
    then have "persist_remove T J Q sid key s = Inr (tx_clear T (EK p sid key) ?s3)"
      using clearExpiration_Inr [OF Q ok(1,2), where e = e and s = s] r a i(1) ek
      by (simp add: persist_remove_def persistenceError_def)
    moreover have "persist_inv T J p sid (tx_clear T (EK p sid key) ?s3) (I |` (- {key})) (A |` (- {key})) U"
      by (rule persist_inv_drop_entry [OF inv i]) (cases e; simp add: get_clearValue get_clear)
    ultimately show ?thesis using that by blast
  qed
qed

lemma persist_clear_at:
  assumes inv: "persist_inv T J p sid s I A U" and Q: "persist_at Q p"
  obtains s' where "persist_clear T Q sid epoch s = Inr s'" "persist_inv T J p sid s' Map.empty Map.empty U"
    "tx_get T s' (MK p sid) = Some (text_encode epoch)"
proof -
  have sid: "wellFormed sid" by (rule persist_invD(1) [OF inv])
  let ?b = "\<lambda>n. K p n [Str sid] @ [NIL]" and ?e = "\<lambda>n. K p n [Str sid] @ [ESCAPE]"
  let ?s' = "tx_set T (MK p sid) (text_encode epoch) (tx_clearRange T (?b ''garbage'') (?e ''garbage'')
    (tx_clearRange T (?b ''expires'') (?e ''expires'') (tx_clearRange T (?b ''values'') (?e ''values'')
    (tx_clearRange T (?b ''entries'') (?e ''entries'') s))))"
  have r: "subspace_range (entries_sub Q) [Str sid] = Inr (?b ''entries'', ?e ''entries'')"
    "subspace_range (values_sub Q) [Str sid] = Inr (?b ''values'', ?e ''values'')"
    "subspace_range (expires_sub Q) [Str sid] = Inr (?b ''expires'', ?e ''expires'')"
    "subspace_range (garbage_sub Q) [Str sid] = Inr (?b ''garbage'', ?e ''garbage'')"
    using Q sid by (simp_all add: persist_at_def range_at)
  have "epochKey Q sid = Inr (MK p sid)" using Q sid by (simp add: epochKey_Inr)
  then have c: "persist_clear T Q sid epoch s = Inr ?s'"
    by (simp add: persist_clear_def r Let_def persistenceError_def liftTuple_def)
  have get: "tx_get T ?s' k = (if k = MK p sid then Some (text_encode epoch)
      else if \<exists>n \<in> {''entries'', ''values'', ''expires'', ''garbage''}. inRange p n [Str sid] k then None else tx_get T s k)" for k
    by (auto simp: get_set get_clearRange inRange_def)
  have "persist_inv T J p sid ?s' (I |` (- UNIV)) (A |` (- UNIV)) U"
  proof (rule persist_inv_removed [OF inv])
    show "tx_get T ?s' k = None \<or> tx_get T ?s' k = tx_get T s k" if "k \<noteq> MK p sid" for k using that by (simp add: get)
    show "tx_get T ?s' (EK p sid key) = None" if "wellFormed key" for key
      unfolding get using that sid by (simp add: EK_def MK_def)
  qed simp_all
  moreover have "tx_get T ?s' (MK p sid) = Some (text_encode epoch)" by (simp add: get)
  ultimately show thesis using c that by simp
qed

end

end
