(* ===== verification/Persistence_Cleanup.thy ===== *)
theory Persistence_Cleanup
  imports Persistence_Invariant
begin

text \<open>
  The cleanup of a store of the backing persistence: a batch keeps the invariant and removes what is due, and the
  loop of batches ends with nothing left that has expired.
\<close>

lemma K_int_less:
  "smallInt a \<Longrightarrow> smallInt b \<Longrightarrow> K p n [x, BigInt a, y] < K p n [x, BigInt b] \<longleftrightarrow> a < b"
  by (simp add: K_def append_less_append_same encInt_less [of a b _ "[]", simplified])

text \<open>The rows of \<open>s'\<close> are rows of \<open>s\<close>.\<close>

definition fewer :: "'s txn \<Rightarrow> 's \<Rightarrow> 's \<Rightarrow> bool" where
  "fewer T s s' \<longleftrightarrow> (\<forall>k. tx_get T s' k = None \<or> tx_get T s' k = tx_get T s k)"

lemma fewer_refl: "fewer T s s"
  by (simp add: fewer_def)

lemma fewer_trans: "fewer T s s' \<Longrightarrow> fewer T s' s'' \<Longrightarrow> fewer T s s''"
  unfolding fewer_def by metis

lemma fewer_row: "fewer T s s' \<Longrightarrow> tx_get T s' k = Some v \<Longrightarrow> tx_get T s k = Some v"
  unfolding fewer_def by (metis option.distinct(1))

lemma fewer_gone: "fewer T s s' \<Longrightarrow> tx_get T s k = None \<Longrightarrow> tx_get T s' k = None"
  unfolding fewer_def by metis

lemma restrict_all [simp]: "f |` UNIV = f"
  by (simp add: restrict_map_def)

lemma restrict_again: "(f |` (- D)) |` (- E) = f |` (- (D \<union> E))"
  by (auto simp: restrict_map_def)

lemma due_restrict: "due (A |` (- D)) now = due A now - D"
  by (auto simp: due_def restrict_map_def)

lemma due_le: "0 \<le> now \<Longrightarrow> expiry_ok (Some t) \<Longrightarrow> t \<le> now \<longleftrightarrow> timestamp t \<le> timestamp now"
proof -
  assume now: "0 \<le> now" and "expiry_ok (Some t)"
  then obtain n where n: "t = of_int n" "0 \<le> n" "n \<le> maxSafeInteger" by (auto simp: expiry_ok_def)
  have "0 \<le> \<lfloor>now\<rfloor>" using now by simp
  moreover have "of_int n \<le> now \<longleftrightarrow> n \<le> \<lfloor>now\<rfloor>" by (simp add: le_floor_iff)
  ultimately show ?thesis using n by (auto simp: timestamp_int timestamp_def)
qed

context fdb
begin

section \<open>One row\<close>

lemma unpack_row: "prefix_bytes sub = K p n [] \<Longrightarrow> tuple_ok r \<Longrightarrow> subspace_unpack sub (K p n r) = Inr r"
  using subspace_unpack_enc [of r sub] by (simp add: K_append)

lemma cleanExpired_at:
  assumes inv: "persist_inv T J p sid s I A U" and J: "json_laws J" and Q: "persist_at Q p" and now: "0 \<le> now"
    and row: "k = XK p sid n key" "smallInt n" "wellFormed key" "identity_ok i" "n \<le> timestamp now"
    and kept: "\<And>v. tx_get T s k = Some v \<Longrightarrow> v = text_encode i"
  obtains s' D where "cleanExpired T J Q sid now (k, text_encode i) s = Inr s'" "D \<subseteq> due A now"
    "persist_inv T J p sid s' (I |` (- D)) (A |` (- D)) U" "fewer T s s'" "tx_get T s' k = None"
proof -
  have sid: "wellFormed sid" by (rule persist_invD(1) [OF inv])
  have i: "wellFormed i" using row(4) by (simp add: identity_ok_def)
  have tup: "subspace_unpack (expires_sub Q) k = Inr [Str sid, BigInt n, Str key]"
    unfolding row(1) XK_def using Q row sid by (intro unpack_row) (simp_all add: persist_at_def)
  have ek: "entryKey Q sid key = Inr (EK p sid key)" using Q row sid by (simp add: entryKey_Inr)
  note r = readManifest_at [OF inv J Q row(3)] and tx = strictText_identity [OF row(4)]
  show thesis
  proof (cases "\<exists>e v. A key = Some (e, v) \<and> I key = Some i \<and> key \<in> due A now")
    case True
    then obtain e v where a: "A key = Some (e, v)" "I key = Some i" "key \<in> due A now" by blast
    let ?s' = "tx_clear T k (tx_clearRange T (VK p sid i @ [NIL]) (VK p sid i @ [ESCAPE]) (tx_clear T (EK p sid key) s))"
    have get: "tx_get T ?s' x = (if x = EK p sid key \<or> value_row p sid i x \<or> x = k then None else tx_get T s x)" for x
      by (simp add: get_clear get_clearValue)
    have "clearStoredValue T Q sid i (tx_clear T (EK p sid key) s)
        = Inr (tx_clearRange T (VK p sid i @ [NIL]) (VK p sid i @ [ESCAPE]) (tx_clear T (EK p sid key) s))"
      using sid i by (subst clearStoredValue_Inr [OF Q]) simp
    then have "cleanExpired T J Q sid now (k, text_encode i) s = Inr ?s'"
      using a r tx tup ek expired_due [of A key e v] by (simp add: cleanExpired_def expirationRow_def)
    moreover have "persist_inv T J p sid ?s' (I |` (- {key})) (A |` (- {key})) U"
      by (rule persist_inv_drop [OF inv row(3) a(2) get]) (use row in blast)
    moreover have "fewer T s ?s'" "tx_get T ?s' k = None" by (auto simp: fewer_def get)
    ultimately show thesis using that [of ?s' "{key}"] a(3) by simp
  next
    case False
    have "cleanExpired T J Q sid now (k, text_encode i) s = Inr (tx_clear T k s)"
    proof (cases "A key")
      case (Some ev)
      obtain e v where a: "A key = Some (e, v)" using Some by (cases ev) simp
      obtain j where "I key = Some j" using persist_entry [OF inv a] .
      then show ?thesis using False r tx tup a expired_due [of A key e v] by (auto simp: cleanExpired_def expirationRow_def)
    qed (use r tx tup in \<open>simp add: cleanExpired_def expirationRow_def\<close>)
    moreover have "persist_inv T J p sid (tx_clear T k s) (I |` (- {})) (A |` (- {})) U"
    proof (rule persist_inv_removed [OF inv])
      show "tx_get T (tx_clear T k s) x = None \<or> tx_get T (tx_clear T k s) x = tx_get T s x" for x by (simp add: get_clear)
      show "tx_get T (tx_clear T k s) (EK p sid key') = tx_get T s (EK p sid key')" if "wellFormed key'" for key'
        using that row sid by (simp add: get_clear)
      show "tx_get T (tx_clear T k s) x = tx_get T s x" if "I key' = Some j" "value_row p sid j x" for key' j x
        using that identity_wellFormed [OF inv that(1)] row sid by (auto simp: get_clear)
      show "tx_get T (tx_clear T k s) (XK p sid (timestamp t) key') = tx_get T s (XK p sid (timestamp t) key')"
        if a: "A key' = Some (Some t, v)" for key' t v
      proof (cases "XK p sid (timestamp t) key' = k")
        case True
        obtain j where j: "I key' = Some j" "entry_value T J p sid s U key' j (Some t) v" using persist_entry [OF inv a] .
        note ok = entry_valueD [OF j(2)]
        have key: "timestamp t = n" "key' = key" using True row sid ok(1) by simp_all
        have "tx_get T s k = Some (text_encode j)" using ok(10) True by simp
        then have "text_encode j = text_encode i" by (rule kept)
        then have ji: "j = i" using strictText_identity [OF ok(5)] tx by (metis option.inject)
        have "t \<le> now" using due_le [OF now ok(2)] key(1) row(5) by simp
        then have "key \<in> due A now" using a key(2) unfolding due_def by blast
        with False a j(1) key(2) ji show ?thesis by blast
      qed (simp add: get_clear)
    qed simp
    moreover have "fewer T s (tx_clear T k s)" "tx_get T (tx_clear T k s) k = None" by (auto simp: fewer_def get_clear)
    ultimately show thesis using that [of "tx_clear T k s" "{}"] by simp
  qed
qed

lemma cleanGarbage_step:
  assumes Q: "persist_at Q p" and ok: "wellFormed sid" "smallInt n" "wellFormed i"
  shows "cleanGarbage T Q sid (GK p sid n i, v) s
    = Inr (tx_clear T (GK p sid n i) (tx_clearRange T (VK p sid i @ [NIL]) (VK p sid i @ [ESCAPE]) s))"
proof -
  have "subspace_unpack (garbage_sub Q) (GK p sid n i) = Inr [Str sid, BigInt n, Str i]"
    unfolding GK_def using Q ok by (intro unpack_row) (simp_all add: persist_at_def)
  moreover have "clearStoredValue T Q sid i s = Inr (tx_clearRange T (VK p sid i @ [NIL]) (VK p sid i @ [ESCAPE]) s)"
    using ok by (subst clearStoredValue_Inr [OF Q]) simp
  ultimately show ?thesis by (simp add: cleanGarbage_def expirationRow_def)
qed

lemma cleanGarbage_at:
  assumes inv: "persist_inv T J p sid s I A U" and Q: "persist_at Q p"
    and row: "k = GK p sid n i" "smallInt n" "identity_ok i" "i \<notin> ran I"
  obtains s' where "cleanGarbage T Q sid (k, v) s = Inr s'" "persist_inv T J p sid s' I A U" "fewer T s s'" "tx_get T s' k = None"
    "\<And>x. value_row p sid i x \<Longrightarrow> tx_get T s' x = None"
proof -
  have sid: "wellFormed sid" by (rule persist_invD(1) [OF inv])
  have i: "wellFormed i" using row(3) by (simp add: identity_ok_def)
  let ?s' = "tx_clear T k (tx_clearRange T (VK p sid i @ [NIL]) (VK p sid i @ [ESCAPE]) s)"
  have get: "tx_get T ?s' x = (if value_row p sid i x \<or> x = k then None else tx_get T s x)" for x
    by (simp add: get_clear get_clearValue)
  have "cleanGarbage T Q sid (k, v) s = Inr ?s'"
    unfolding row(1) by (rule cleanGarbage_step [OF Q sid row(2) i])
  moreover have "persist_inv T J p sid ?s' (I |` (- {})) (A |` (- {})) U"
  proof (rule persist_inv_removed [OF inv])
    show "tx_get T ?s' x = None \<or> tx_get T ?s' x = tx_get T s x" for x by (simp add: get)
    show "tx_get T ?s' (EK p sid key') = tx_get T s (EK p sid key')" if "wellFormed key'" for key'
      unfolding get using that row(2) sid i by (simp add: row(1))
    show "tx_get T ?s' x = tx_get T s x" if x: "I key' = Some j" "value_row p sid j x" for key' j x
    proof -
      have "j \<noteq> i" using x(1) row(4) by (auto simp: ran_def)
      moreover have j: "wellFormed j" by (rule identity_wellFormed [OF inv x(1)])
      ultimately have "\<not> value_row p sid i x" using value_row_unique [OF x(2) _ sid j i] by blast
      moreover have "x \<noteq> k" using not_value_row(3) [OF sid j row(2) i] x(2) row(1) by blast
      ultimately show ?thesis by (simp add: get)
    qed
    show "tx_get T ?s' (XK p sid (timestamp t) key') = tx_get T s (XK p sid (timestamp t) key')"
      if a: "A key' = Some (Some t, w)" for key' t w
    proof -
      have "wellFormed key'" using persist_entry [OF inv a] entry_valueD(1) by metis
      then show ?thesis unfolding get using row(2) sid i by (simp add: row(1))
    qed
  qed simp
  moreover have "fewer T s ?s'" "tx_get T ?s' k = None" "\<And>x. value_row p sid i x \<Longrightarrow> tx_get T ?s' x = None"
    by (auto simp: fewer_def get)
  ultimately show thesis using that [of ?s'] by simp
qed

section \<open>A batch\<close>

lemma dueRows_at:
  assumes "prefix_bytes sub = K p n []" and "wellFormed sid"
  shows "dueRows T sub sid now s = Inr (tx_getRange T s
    (keyRange (K p n [Str sid] @ [NIL]) (K p n [Str sid, BigInt (timestamp now + 1)]) (Some cleanupBatchSize) False))"
proof -
  have "subspace_range sub [Str sid] = Inr (K p n [Str sid] @ [NIL], K p n [Str sid] @ [ESCAPE])"
    and "subspace_pack sub [Str sid, BigInt (timestamp now + 1)] = Inr (K p n [Str sid, BigInt (timestamp now + 1)])"
    using assms by (simp_all add: range_at pack_at)
  then show ?thesis by (simp add: dueRows_def)
qed

lemma due_row:
  assumes "(k, v) \<in> set (tx_getRange T s
    (keyRange (K p n [Str sid] @ [NIL]) (K p n [Str sid, BigInt (timestamp now + 1)]) limit False))" and "wellFormed sid"
  shows "inRange p n [Str sid] k" "k < K p n [Str sid, BigInt (timestamp now + 1)]" "tx_get T s k = Some v"
proof -
  note r = range_row [OF assms(1)]
  have "inRange p n [Str sid] (K p n [Str sid, BigInt (timestamp now + 1)])" using assms(2) by simp
  then have "K p n [Str sid, BigInt (timestamp now + 1)] < K p n [Str sid] @ [ESCAPE]" by (simp add: inRange_def)
  then show "inRange p n [Str sid] k" using r by (auto simp: inRange_def)
  show "k < K p n [Str sid, BigInt (timestamp now + 1)]" "tx_get T s k = Some v" using r by simp_all
qed

lemma cleanExpired_all:
  assumes J: "json_laws J" and Q: "persist_at Q p" and now: "0 \<le> now"
  shows "persist_inv T J p sid s I A U \<Longrightarrow>
    (\<And>k v. (k, v) \<in> set rows \<Longrightarrow> \<exists>n key i. k = XK p sid n key \<and> smallInt n \<and> wellFormed key \<and> identity_ok i
       \<and> v = text_encode i \<and> n \<le> timestamp now \<and> (\<forall>w. tx_get T s k = Some w \<longrightarrow> w = v)) \<Longrightarrow>
    \<exists>s' D. foldR (cleanExpired T J Q sid now) rows s = Inr s' \<and> D \<subseteq> due A now
      \<and> persist_inv T J p sid s' (I |` (- D)) (A |` (- D)) U \<and> fewer T s s' \<and> (\<forall>k \<in> fst ` set rows. tx_get T s' k = None)"
proof (induction rows arbitrary: s I A)
  case Nil
  then show ?case by (intro exI [of _ s] exI [of _ "{}"]) (simp add: fewer_refl)
next
  case (Cons r rows)
  obtain k v where r: "r = (k, v)" by (cases r)
  obtain n key i where x: "k = XK p sid n key" "smallInt n" "wellFormed key" "identity_ok i" "v = text_encode i" "n \<le> timestamp now"
    "\<forall>w. tx_get T s k = Some w \<longrightarrow> w = v" using Cons.prems(2) [of k v] r by auto
  obtain s1 D where c: "cleanExpired T J Q sid now (k, text_encode i) s = Inr s1" "D \<subseteq> due A now"
    "persist_inv T J p sid s1 (I |` (- D)) (A |` (- D)) U" "fewer T s s1" "tx_get T s1 k = None"
    using cleanExpired_at [OF Cons.prems(1) J Q now x(1-4,6)] x(5,7) by blast
  have rest: "\<exists>n key i. k' = XK p sid n key \<and> smallInt n \<and> wellFormed key \<and> identity_ok i
       \<and> v' = text_encode i \<and> n \<le> timestamp now \<and> (\<forall>w. tx_get T s1 k' = Some w \<longrightarrow> w = v')" if kv: "(k', v') \<in> set rows" for k' v'
    using Cons.prems(2) [of k' v'] kv fewer_row [OF c(4)] by fastforce
  obtain s2 D2 where d: "foldR (cleanExpired T J Q sid now) rows s1 = Inr s2" "D2 \<subseteq> due (A |` (- D)) now"
    "persist_inv T J p sid s2 ((I |` (- D)) |` (- D2)) ((A |` (- D)) |` (- D2)) U" "fewer T s1 s2"
    "\<forall>k \<in> fst ` set rows. tx_get T s2 k = None"
    using Cons.IH [OF c(3) rest] by blast
  have "tx_get T s2 k = None" using fewer_gone [OF d(4) c(5)] .
  then have "\<forall>k \<in> fst ` set (r # rows). tx_get T s2 k = None" using d(5) r by simp
  moreover have "foldR (cleanExpired T J Q sid now) (r # rows) s = Inr s2" using c(1) d(1) r x(5) by simp
  moreover have "D \<union> D2 \<subseteq> due A now" using c(2) d(2) due_restrict [of A D now] by blast
  moreover have "persist_inv T J p sid s2 (I |` (- (D \<union> D2))) (A |` (- (D \<union> D2))) U" using d(3) by (simp only: restrict_again)
  ultimately show ?case using fewer_trans [OF c(4) d(4)] by blast
qed

lemma cleanGarbage_all:
  assumes Q: "persist_at Q p"
  shows "persist_inv T J p sid s I A U \<Longrightarrow>
    (\<And>k. k \<in> fst ` set rows \<Longrightarrow> \<exists>n i. k = GK p sid n i \<and> smallInt n \<and> identity_ok i \<and> i \<notin> ran I) \<Longrightarrow>
    \<exists>s'. foldR (cleanGarbage T Q sid) rows s = Inr s' \<and> persist_inv T J p sid s' I A U \<and> fewer T s s'
      \<and> (\<forall>k \<in> fst ` set rows. tx_get T s' k = None)"
proof (induction rows arbitrary: s)
  case Nil
  then show ?case by (simp add: fewer_refl)
next
  case (Cons r rows)
  obtain k v where r: "r = (k, v)" by (cases r)
  obtain n i where x: "k = GK p sid n i" "smallInt n" "identity_ok i" "i \<notin> ran I" using Cons.prems(2) [of k] r by auto
  obtain s1 where c: "cleanGarbage T Q sid (k, v) s = Inr s1" "persist_inv T J p sid s1 I A U" "fewer T s s1" "tx_get T s1 k = None"
    using cleanGarbage_at [OF Cons.prems(1) Q x] by blast
  have rest: "\<exists>n i. k' = GK p sid n i \<and> smallInt n \<and> identity_ok i \<and> i \<notin> ran I" if "k' \<in> fst ` set rows" for k'
    using Cons.prems(2) [of k'] that by simp
  obtain s2 where d: "foldR (cleanGarbage T Q sid) rows s1 = Inr s2" "persist_inv T J p sid s2 I A U" "fewer T s1 s2"
    "\<forall>k \<in> fst ` set rows. tx_get T s2 k = None" using Cons.IH [OF c(2) rest] by blast
  have "tx_get T s2 k = None" using fewer_gone [OF d(3) c(4)] .
  then show ?case using c d r fewer_trans [OF c(3) d(3)] by auto
qed

text \<open>A batch removes the first rows of both indexes.\<close>

lemma cleanupBatch_at:
  assumes inv: "persist_inv T J p sid s I A U" and J: "json_laws J" and Q: "persist_at Q p" and now: "0 \<le> now"
    and x: "x = tx_getRange T s (keyRange (K p ''expires'' [Str sid] @ [NIL]) (K p ''expires'' [Str sid, BigInt (timestamp now + 1)])
      (Some cleanupBatchSize) False)"
    and g: "g = tx_getRange T s (keyRange (K p ''garbage'' [Str sid] @ [NIL]) (K p ''garbage'' [Str sid, BigInt (timestamp now + 1)])
      (Some cleanupBatchSize) False)"
  obtains s' D where "cleanupBatch T J Q sid now s = Inr (max (length x) (length g), s')" "D \<subseteq> due A now"
    "persist_inv T J p sid s' (I |` (- D)) (A |` (- D)) U" "fewer T s s'"
    "\<And>k. k \<in> fst ` set x \<union> fst ` set g \<Longrightarrow> tx_get T s' k = None"
proof -
  note sid = persist_invD(1) [OF inv]
  have dx: "dueRows T (expires_sub Q) sid now s = Inr x" and dg: "dueRows T (garbage_sub Q) sid now s = Inr g"
    using Q sid by (simp_all add: dueRows_at persist_at_def x g)
  have "\<exists>n key i. k = XK p sid n key \<and> smallInt n \<and> wellFormed key \<and> identity_ok i
       \<and> v = text_encode i \<and> n \<le> timestamp now \<and> (\<forall>w. tx_get T s k = Some w \<longrightarrow> w = v)" if kv: "(k, v) \<in> set x" for k v
  proof -
    note r = due_row [OF kv [unfolded x] sid]
    obtain n key i where k: "k = XK p sid n key" "smallInt n" "wellFormed key" "identity_ok i" "v = text_encode i"
      using persist_invD(8) [OF inv] r(1,3) unfolding expires_rows_def by blast
    have "n < timestamp now + 1" using r(2) k(1,2) by (simp add: XK_def K_int_less)
    then show ?thesis using k r(3) by auto
  qed
  from cleanExpired_all [OF J Q now inv this] obtain s1 D where a: "foldR (cleanExpired T J Q sid now) x s = Inr s1" "D \<subseteq> due A now"
    "persist_inv T J p sid s1 (I |` (- D)) (A |` (- D)) U" "fewer T s s1" "\<forall>k \<in> fst ` set x. tx_get T s1 k = None" by blast
  have "\<exists>n i. k = GK p sid n i \<and> smallInt n \<and> identity_ok i \<and> i \<notin> ran (I |` (- D))" if kg: "k \<in> fst ` set g" for k
  proof -
    obtain v where kv: "(k, v) \<in> set g" using kg by auto
    note r = due_row [OF kv [unfolded g] sid]
    obtain n i where "k = GK p sid n i" "smallInt n" "identity_ok i" "i \<notin> ran I"
      using persist_invD(7) [OF inv] r(1,3) unfolding garbage_rows_def by blast
    moreover have "ran (I |` (- D)) \<subseteq> ran I" by (auto simp: ran_def restrict_map_def split: if_splits)
    ultimately show ?thesis by blast
  qed
  from cleanGarbage_all [OF Q a(3) this] obtain s2 where b: "foldR (cleanGarbage T Q sid) g s1 = Inr s2"
    "persist_inv T J p sid s2 (I |` (- D)) (A |` (- D)) U" "fewer T s1 s2" "\<forall>k \<in> fst ` set g. tx_get T s2 k = None" by blast
  have "cleanupBatch T J Q sid now s = Inr (max (length x) (length g), s2)"
    by (simp add: cleanupBatch_def dx dg a(1) b(1) persistenceError_def)
  moreover have "tx_get T s2 k = None" if "k \<in> fst ` set x \<union> fst ` set g" for k
    using that a(5) b(4) fewer_gone [OF b(3), of k] by (cases "k \<in> fst ` set g") auto
  ultimately show thesis using that a(2) b(2) fewer_trans [OF a(4) b(3)] by blast
qed

end

section \<open>The loop\<close>

text \<open>The number of rows of an index bounds the batches.\<close>

definition index_size :: "'s txn \<Rightarrow> bytes \<Rightarrow> js_string \<Rightarrow> string \<Rightarrow> 's \<Rightarrow> nat" where
  "index_size T p sid n s = length (tx_getRange T s (keyRange (K p n [Str sid] @ [NIL]) (K p n [Str sid] @ [ESCAPE]) None False))"

context fdb
begin

lemma index_size_card:
  "index_size T p sid n s = card {k. inRange p n [Str sid] k \<and> tx_get T s k \<noteq> None}"
  and index_finite: "finite {k. inRange p n [Str sid] k \<and> tx_get T s k \<noteq> None}"
proof -
  let ?rows = "tx_getRange T s (keyRange (K p n [Str sid] @ [NIL]) (K p n [Str sid] @ [ESCAPE]) None False)"
  have eq: "fst ` set ?rows = {k. inRange p n [Str sid] k \<and> tx_get T s k \<noteq> None}"
    unfolding range_rows inRange_def by force
  have "length ?rows = length (map fst ?rows)" by simp
  also have "\<dots> = card (set (map fst ?rows))" by (rule distinct_card [OF range_distinct, symmetric])
  finally show "index_size T p sid n s = card {k. inRange p n [Str sid] k \<and> tx_get T s k \<noteq> None}"
    by (simp only: index_size_def set_map eq)
  show "finite {k. inRange p n [Str sid] k \<and> tx_get T s k \<noteq> None}"
    unfolding eq [symmetric] by (rule finite_imageI [OF finite_set])
qed

lemma index_size_le:
  assumes "fewer T s s'"
  shows "index_size T p sid n s' \<le> index_size T p sid n s"
  unfolding index_size_card
  by (rule card_mono [OF index_finite]) (auto dest: fewer_row [OF assms])

lemma index_size_less:
  assumes "fewer T s s'" and k: "inRange p n [Str sid] k" "tx_get T s k \<noteq> None" "tx_get T s' k = None"
  shows "index_size T p sid n s' < index_size T p sid n s"
  unfolding index_size_card
proof (rule psubset_card_mono [OF index_finite])
  have "{k. inRange p n [Str sid] k \<and> tx_get T s' k \<noteq> None} \<subseteq> {k. inRange p n [Str sid] k \<and> tx_get T s k \<noteq> None}"
    by (auto dest: fewer_row [OF assms(1)])
  then show "{k. inRange p n [Str sid] k \<and> tx_get T s' k \<noteq> None} \<subset> {k. inRange p n [Str sid] k \<and> tx_get T s k \<noteq> None}"
    using k by blast
qed

text \<open>A batch that is not full has seen every row that is due.\<close>

lemma short_range:
  assumes "length (tx_getRange T s (keyRange b e (Some m) False)) < m" and "b \<le> k" "k < e" "tx_get T s k \<noteq> None"
  shows "k \<in> fst ` set (tx_getRange T s (keyRange b e (Some m) False))"
proof -
  obtain v where v: "tx_get T s k = Some v" using assms(4) by blast
  have "tx_getRange T s (keyRange b e (Some m) False) = take m (tx_getRange T s (keyRange b e None False))"
    by (subst range_options) (simp add: limitRows_def)
  then have "tx_getRange T s (keyRange b e (Some m) False) = tx_getRange T s (keyRange b e None False)"
    using assms(1) by simp
  moreover have "(k, v) \<in> set (tx_getRange T s (keyRange b e None False))" using assms(2,3) v by (simp add: range_rows)
  ultimately show ?thesis by (metis fst_conv image_eqI)
qed

lemma index_key_due:
  assumes "wellFormed sid" "smallInt n" "n \<le> timestamp now" "packable x" "constructed x"
  shows "K p name [Str sid] @ [NIL] \<le> K p name [Str sid, BigInt n, x]" "K p name [Str sid, BigInt n, x] < K p name [Str sid, BigInt (timestamp now + 1)]"
proof -
  have "inRange p name [Str sid] (K p name [Str sid, BigInt n, x])" using assms by simp
  then show "K p name [Str sid] @ [NIL] \<le> K p name [Str sid, BigInt n, x]" by (simp add: inRange_def)
  show "K p name [Str sid, BigInt n, x] < K p name [Str sid, BigInt (timestamp now + 1)]" using assms by (simp add: K_int_less)
qed

lemma last_batch:
  assumes inv: "persist_inv T J p sid s' I A U" and f: "fewer T s s'" and now: "0 \<le> now"
    and x: "x = tx_getRange T s (keyRange (K p ''expires'' [Str sid] @ [NIL]) (K p ''expires'' [Str sid, BigInt (timestamp now + 1)])
      (Some cleanupBatchSize) False)" "length x < cleanupBatchSize"
    and cleared: "\<And>k. k \<in> fst ` set x \<Longrightarrow> tx_get T s' k = None"
  shows "due A now = {}"
proof (rule ccontr)
  assume "due A now \<noteq> {}"
  then obtain key t v where a: "A key = Some (Some t, v)" "t \<le> now" by (auto simp: due_def)
  obtain i where i: "I key = Some i" "entry_value T J p sid s' U key i (Some t) v" using persist_entry [OF inv a(1)] .
  note ok = entry_valueD [OF i(2)]
  have row: "tx_get T s' (XK p sid (timestamp t) key) \<noteq> None" using ok(10) by simp
  then have "tx_get T s (XK p sid (timestamp t) key) \<noteq> None" by (rule contrapos_nn) (rule fewer_gone [OF f])
  moreover have "timestamp t \<le> timestamp now" using due_le [OF now ok(2)] a(2) by simp
  ultimately have "XK p sid (timestamp t) key \<in> fst ` set x"
    unfolding x(1) XK_def
    by (intro short_range index_key_due) (use x persist_invD(1) [OF inv] ok(1) in \<open>simp_all add: XK_def\<close>)
  then have "tx_get T s' (XK p sid (timestamp t) key) = None" by (rule cleared)
  then show False using row by simp
qed

lemma cleanupStore_ends:
  assumes J: "json_laws J" and Q: "persist_at Q p" and alone: "others E = (\<lambda>_. id)"
    and clock: "\<And>n. 0 \<le> clockAt E n" "\<And>m n. m \<le> n \<Longrightarrow> clockAt E m \<le> clockAt E n"
  shows "persist_inv T J p sid s I A U \<Longrightarrow> \<exists>m s'. cleanupStore T J E Q sid (n, s) = Some (Inr (), Suc m, s') \<and> n \<le> m
    \<and> persist_inv T J p sid s' (I |` (- due A (clockAt E m))) (A |` (- due A (clockAt E m))) U \<and> fewer T s s'"
proof (induction "index_size T p sid ''expires'' s + index_size T p sid ''garbage'' s" arbitrary: s I A n rule: less_induct)
  case less
  let ?now = "clockAt E n"
  define rows where "rows = (\<lambda>name. tx_getRange T s (keyRange (K p name [Str sid] @ [NIL]) (K p name [Str sid, BigInt (timestamp ?now + 1)])
      (Some cleanupBatchSize) False))"
  note sid = persist_invD(1) [OF less.prems]
  obtain s1 D where b: "cleanupBatch T J Q sid ?now s = Inr (max (length (rows ''expires'')) (length (rows ''garbage'')), s1)"
    "D \<subseteq> due A ?now" "persist_inv T J p sid s1 (I |` (- D)) (A |` (- D)) U" "fewer T s s1"
    "\<And>k. k \<in> fst ` set (rows ''expires'') \<union> fst ` set (rows ''garbage'') \<Longrightarrow> tx_get T s1 k = None"
    using cleanupBatch_at [OF less.prems J Q clock(1), of "rows ''expires''" n "rows ''garbage''"]
    unfolding rows_def by blast
  have run: "inTransaction E (cleanupBatch T J Q sid ?now) (n, s)
      = (Inr (max (length (rows ''expires'')) (length (rows ''garbage''))), Suc n, s1)"
    by (simp add: inTransaction_def alone b(1) split del: if_split)
  show ?case
  proof (cases "max (length (rows ''expires'')) (length (rows ''garbage'')) < cleanupBatchSize")
    case True
    have "due (A |` (- D)) ?now = {}"
    proof (rule last_batch [OF b(3,4) clock(1)])
      show "rows ''expires'' = tx_getRange T s (keyRange (K p ''expires'' [Str sid] @ [NIL])
        (K p ''expires'' [Str sid, BigInt (timestamp ?now + 1)]) (Some cleanupBatchSize) False)" by (simp add: rows_def)
      show "length (rows ''expires'') < cleanupBatchSize" using True by simp
      show "tx_get T s1 k = None" if "k \<in> fst ` set (rows ''expires'')" for k
        by (rule b(5)) (rule UnI1 [OF that])
    qed
    then have "D = due A ?now" using b(2) due_restrict [of A D ?now] by blast
    moreover have "cleanupStore T J E Q sid (n, s) = Some (Inr (), Suc n, s1)"
      using run True by (subst cleanupStore.simps) simp
    ultimately show ?thesis using b(3,4) by auto
  next
    case False
    then have "rows ''expires'' \<noteq> [] \<or> rows ''garbage'' \<noteq> []" by (auto simp: cleanupBatchSize_def)
    then obtain name where name: "name = ''expires'' \<or> name = ''garbage''" "rows name \<noteq> []" by blast
    then obtain k v where kv: "(k, v) \<in> set (rows name)" by (metis list.set_intros(1) neq_Nil_conv prod.exhaust)
    then have "k \<in> fst ` set (rows name)" by force
    then have "tx_get T s1 k = None" using b(5) [of k] name(1) by auto
    then have "index_size T p sid name s1 < index_size T p sid name s"
      using due_row [OF kv [unfolded rows_def] sid] by (intro index_size_less [OF b(4)]) simp_all
    then have size: "index_size T p sid ''expires'' s1 + index_size T p sid ''garbage'' s1
        < index_size T p sid ''expires'' s + index_size T p sid ''garbage'' s"
      using index_size_le [OF b(4), of p sid "''expires''"] index_size_le [OF b(4), of p sid "''garbage''"]
      using name(1) by (elim disjE) simp_all
    let ?A = "A |` (- D)"
    obtain m s' where r: "cleanupStore T J E Q sid (Suc n, s1) = Some (Inr (), Suc m, s')" "Suc n \<le> m"
      "persist_inv T J p sid s' ((I |` (- D)) |` (- due ?A (clockAt E m))) (?A |` (- due ?A (clockAt E m))) U" "fewer T s1 s'"
      using less.hyps [OF size b(3), of "Suc n"] by blast
    have "D \<subseteq> due A (clockAt E m)" using b(2) due_mono [OF clock(2), of n m A] r(2) by auto
    then have "D \<union> due ?A (clockAt E m) = due A (clockAt E m)" unfolding due_restrict by blast
    with r(3) have "persist_inv T J p sid s' (I |` (- due A (clockAt E m))) (A |` (- due A (clockAt E m))) U"
      by (simp only: restrict_again)
    moreover have "cleanupStore T J E Q sid (n, s) = Some (Inr (), Suc m, s')"
      using False by (subst cleanupStore.simps) (simp only: fst_conv run prod.case sum.case if_False r(1))
    ultimately show ?thesis using r(2) fewer_trans [OF b(4) r(4)] by (intro exI [of _ m] exI [of _ s']) simp
  qed
qed

end

end
