(* ===== verification/Persistence_Writes.thy ===== *)
theory Persistence_Writes
  imports Persistence_Cleanup
begin

text \<open>
  Operations on several entries of a store of the backing persistence: \<open>getMany\<close>, the preparation of a batch, its
  staging and its publication.
\<close>

section \<open>getMany\<close>

definition manifestOfEntry :: "identities \<Rightarrow> persisted \<Rightarrow> js_string \<Rightarrow> entry_manifest" where
  "manifestOfEntry I A key = \<lparr>manifest_identity = the (I key), manifest_expires = fst (the (A key))\<rparr>"

definition liveKeys :: "persisted \<Rightarrow> rat \<Rightarrow> js_string list \<Rightarrow> js_string list" where
  "liveKeys A now ks = filter (\<lambda>key. visible A now key \<noteq> None) ks"

lemma visible_drop: "key' \<noteq> key \<Longrightarrow> visible (A |` (- {key})) now key' = visible A now key'"
  unfolding visible_def due_restrict by (simp add: restrict_map_def)

lemma liveKeys_drop: "key \<notin> set ks \<Longrightarrow> liveKeys (A |` (- {key})) now ks = liveKeys A now ks"
  unfolding liveKeys_def by (rule filter_cong [OF refl]) (metis visible_drop)

lemma manifestOfEntry_drop: "key' \<noteq> key \<Longrightarrow> manifestOfEntry (I |` (- {key})) (A |` (- {key})) key' = manifestOfEntry I A key'"
  by (simp add: manifestOfEntry_def restrict_map_def)

context fdb
begin

lemma encoded_entry:
  assumes "persist_inv T J p sid s I A U" and "wellFormed key"
  shows "tx_get T s (EK p sid key) = (if A key = None then None else Some (encodeManifest J (manifestOfEntry I A key)))"
  using persist_invD(4) [OF assms(1)] assms(2) by (auto simp: entry_rows_def manifestOfEntry_def)

lemma decode_entry:
  assumes inv: "persist_inv T J p sid s I A U" and J: "json_laws J" and a: "A key \<noteq> None"
  shows "decodeManifest J x (encodeManifest J (manifestOfEntry I A key)) = Inr (manifestOfEntry I A key)"
proof -
  obtain e v where a: "A key = Some (e, v)" using a by auto
  obtain i where i: "I key = Some i" "entry_value T J p sid s U key i e v" using persist_entry [OF inv a] .
  show ?thesis
    by (rule json_laws.decodeManifest_encode [OF J]) (use a i entry_valueD [OF i(2)] in \<open>simp_all add: manifestOfEntry_def\<close>)
qed

lemma scan_at:
  assumes J: "json_laws J" and Q: "persist_at Q p"
  shows "persist_inv T J p sid s I A U \<Longrightarrow> distinct ks \<Longrightarrow> (\<And>key. key \<in> set ks \<Longrightarrow> wellFormed key) \<Longrightarrow>
    \<exists>s' D. foldR (scanEntry T J Q sid now) (zip ks (zip (map (EK p sid) ks) (map (\<lambda>key. tx_get T s (EK p sid key)) ks))) (\<lambda>_. None, live, s)
        = Inr (\<lambda>_. None, live @ map (\<lambda>key. (key, manifestOfEntry I A key)) (liveKeys A now ks), s')
      \<and> D \<subseteq> due A now \<and> persist_inv T J p sid s' (I |` (- D)) (A |` (- D)) U"
proof (induction ks arbitrary: s I A live)
  case Nil
  then show ?case by (intro exI [of _ s] exI [of _ "{}"]) (simp add: liveKeys_def)
next
  case (Cons key ks)
  have key: "wellFormed key" "key \<notin> set ks" using Cons.prems by simp_all
  have wf: "\<And>key'. key' \<in> set ks \<Longrightarrow> wellFormed key'" and d: "distinct ks" using Cons.prems by simp_all
  note enc = encoded_entry [OF Cons.prems(1) key(1)]
  let ?row = "(key, EK p sid key, tx_get T s (EK p sid key))"
  show ?case
  proof (cases "A key \<noteq> None \<and> key \<in> due A now")
    case True
    then obtain e v where a: "A key = Some (e, v)" by auto
    obtain s1 where s1: "removeEntry T Q sid key (EK p sid key) (manifestOfEntry I A key) s = Inr s1"
      "persist_inv T J p sid s1 (I |` (- {key})) (A |` (- {key})) U"
      using drop_entry [OF Cons.prems(1) Q a refl] a by (auto simp: manifestOfEntry_def)
    have step: "scanEntry T J Q sid now ?row (\<lambda>_. None, live, s) = Inr (\<lambda>_. None, live, s1)"
      using s1(1) True a decode_entry [OF Cons.prems(1) J, of key key] expired_due [of A key e v "the (I key)" now]
      by (simp add: scanEntry_def enc manifestOfEntry_def)
    have same: "map (\<lambda>key. tx_get T s1 (EK p sid key)) ks = map (\<lambda>key. tx_get T s (EK p sid key)) ks"
    proof (rule map_cong [OF refl])
      fix x assume x: "x \<in> set ks"
      then have "x \<noteq> key" using key(2) by auto
      then show "tx_get T s1 (EK p sid x) = tx_get T s (EK p sid x)"
        using encoded_entry [OF s1(2) wf [OF x]] encoded_entry [OF Cons.prems(1) wf [OF x]]
        by (simp add: manifestOfEntry_drop)
    qed
    obtain s' D where r: "foldR (scanEntry T J Q sid now) (zip ks (zip (map (EK p sid) ks) (map (\<lambda>key. tx_get T s1 (EK p sid key)) ks)))
        (\<lambda>_. None, live, s1) = Inr (\<lambda>_. None, live @ map (\<lambda>x. (x, manifestOfEntry (I |` (- {key})) (A |` (- {key})) x))
          (liveKeys (A |` (- {key})) now ks), s')"
      "D \<subseteq> due (A |` (- {key})) now" "persist_inv T J p sid s' ((I |` (- {key})) |` (- D)) ((A |` (- {key})) |` (- D)) U"
      using Cons.IH [OF s1(2) d wf, of live] by blast
    have live: "map (\<lambda>x. (x, manifestOfEntry (I |` (- {key})) (A |` (- {key})) x)) (liveKeys (A |` (- {key})) now ks)
        = map (\<lambda>x. (x, manifestOfEntry I A x)) (liveKeys A now (key # ks))"
    proof -
      have "liveKeys A now (key # ks) = liveKeys A now ks" using True by (simp add: liveKeys_def visible_def)
      moreover have "manifestOfEntry (I |` (- {key})) (A |` (- {key})) x = manifestOfEntry I A x" if "x \<in> set (liveKeys A now ks)" for x
        using that key(2) by (intro manifestOfEntry_drop) (auto simp: liveKeys_def)
      ultimately show ?thesis by (simp add: liveKeys_drop [OF key(2)])
    qed
    have "{key} \<union> D \<subseteq> due A now" using r(2) True unfolding due_restrict by blast
    moreover have "persist_inv T J p sid s' (I |` (- ({key} \<union> D))) (A |` (- ({key} \<union> D))) U" using r(3) by (simp only: restrict_again)
    moreover have "foldR (scanEntry T J Q sid now) (zip (key # ks) (zip (map (EK p sid) (key # ks)) (map (\<lambda>key. tx_get T s (EK p sid key)) (key # ks))))
        (\<lambda>_. None, live, s) = Inr (\<lambda>_. None, live @ map (\<lambda>x. (x, manifestOfEntry I A x)) (liveKeys A now (key # ks)), s')"
      using step r(1) by (simp add: live same)
    ultimately show ?thesis by blast
  next
    case False
    let ?live = "live @ (if A key = None then [] else [(key, manifestOfEntry I A key)])"
    have "\<not> expired (manifestOfEntry I A key) now" if "A key = Some (e, v)" for e v
      using False that expired_due [of A key e v "the (I key)" now] by (simp add: manifestOfEntry_def)
    then have step: "scanEntry T J Q sid now ?row (\<lambda>_. None, live, s) = Inr (\<lambda>_. None, ?live, s)"
      using decode_entry [OF Cons.prems(1) J, of key key] by (auto simp: scanEntry_def enc)
    obtain s' D where r: "foldR (scanEntry T J Q sid now) (zip ks (zip (map (EK p sid) ks) (map (\<lambda>key. tx_get T s (EK p sid key)) ks)))
        (\<lambda>_. None, ?live, s) = Inr (\<lambda>_. None, ?live @ map (\<lambda>x. (x, manifestOfEntry I A x)) (liveKeys A now ks), s')"
      "D \<subseteq> due A now" "persist_inv T J p sid s' (I |` (- D)) (A |` (- D)) U"
      using Cons.IH [OF Cons.prems(1) d wf, of ?live] by blast
    have "?live @ map (\<lambda>x. (x, manifestOfEntry I A x)) (liveKeys A now ks)
        = live @ map (\<lambda>x. (x, manifestOfEntry I A x)) (liveKeys A now (key # ks))"
      using False by (auto simp: liveKeys_def visible_def)
    with r(1) step have "foldR (scanEntry T J Q sid now) (zip (key # ks) (zip (map (EK p sid) (key # ks)) (map (\<lambda>key. tx_get T s (EK p sid key)) (key # ks))))
        (\<lambda>_. None, live, s) = Inr (\<lambda>_. None, live @ map (\<lambda>x. (x, manifestOfEntry I A x)) (liveKeys A now (key # ks)), s')"
      by simp
    with r(2,3) show ?thesis by blast
  qed
qed

lemma load_values: "foldl (\<lambda>f (key, v). f(key := Some v)) f (zip ks (map g ks)) = (\<lambda>key. if key \<in> set ks then Some (g key) else f key)"
  by (induction ks arbitrary: f) auto

lemma persist_getMany_at:
  assumes inv: "persist_inv T J p sid s I A U" and J: "json_laws J" and Q: "persist_at Q p"
    and keys: "\<And>key. key \<in> set ks \<Longrightarrow> wellFormed key"
  obtains s' D where "persist_getMany T J Q sid ks now s = Inr (map (visible A now) ks, s')" "D \<subseteq> due A now"
    "persist_inv T J p sid s' (I |` (- D)) (A |` (- D)) U"
proof -
  let ?ks = "jsSet ks"
  have wf: "\<And>key. key \<in> set ?ks \<Longrightarrow> wellFormed key" using keys by simp
  have "mapR (entryKey Q sid) ?ks = Inr (map (EK p sid) ?ks)"
    by (rule mapR_Inr) (use wf Q persist_invD(1) [OF inv] in \<open>simp add: entryKey_Inr\<close>)
  moreover obtain s' D where r: "foldR (scanEntry T J Q sid now) (zip ?ks (zip (map (EK p sid) ?ks) (map (\<lambda>key. tx_get T s (EK p sid key)) ?ks)))
      (\<lambda>_. None, [], s) = Inr (\<lambda>_. None, map (\<lambda>key. (key, manifestOfEntry I A key)) (liveKeys A now ?ks), s')"
    "D \<subseteq> due A now" "persist_inv T J p sid s' (I |` (- D)) (A |` (- D)) U"
    using scan_at [OF J Q inv _ wf, of ?ks now "[]"] by auto
  moreover have "mapR (\<lambda>(key, m). readStoredValue T J Q sid key m s') (map (\<lambda>key. (key, manifestOfEntry I A key)) (liveKeys A now ?ks))
      = Inr (map (\<lambda>x. the (visible A now (fst x))) (map (\<lambda>key. (key, manifestOfEntry I A key)) (liveKeys A now ?ks)))"
  proof (rule mapR_Inr, clarsimp simp: liveKeys_def)
    fix key v assume "visible A now key = Some v"
    then obtain e where a: "A key = Some (e, v)" "key \<notin> D" using r(2) by (auto simp: visible_def split: if_splits)
    then have "(A |` (- D)) key = Some (e, v)" by simp
    from readStoredValue_entry [OF r(3) J Q this] a show "readStoredValue T J Q sid key (manifestOfEntry I A key) s' = Inr v"
      by (simp add: manifestOfEntry_def)
  qed
  moreover have "(\<lambda>key. if key \<in> set (liveKeys A now ?ks) then Some (the (visible A now key)) else None) x = visible A now x" if "x \<in> set ks" for x
    using that by (auto simp: liveKeys_def)
  ultimately have "persist_getMany T J Q sid ks now s = Inr (map (visible A now) ks, s')"
    by (simp add: persist_getMany_def persistenceError_def tx_getMany_def o_def load_values)
  with r(2,3) that show thesis by blast
qed

end

section \<open>Prepared entries\<close>

definition prepared :: "json_text \<Rightarrow> persistence_keys \<Rightarrow> bytes \<Rightarrow> js_string \<Rightarrow> rat option \<Rightarrow> json \<Rightarrow> prepared_entry \<Rightarrow> bool" where
  "prepared J Q p sid e v pe \<longleftrightarrow> wellFormed (prepared_key pe) \<and> wellFormed (prepared_identity pe) \<and> stringify J v \<noteq> None
     \<and> prepared_expires pe = e \<and> manifestKey pe = EK p sid (prepared_key pe)
     \<and> manifestValue pe = encodeManifest J \<lparr>manifest_identity = prepared_identity pe, manifest_expires = e\<rparr>
     \<and> expirationKey pe = map_option (\<lambda>t. XK p sid (timestamp t) (prepared_key pe)) e
     \<and> identityValue pe = text_encode (prepared_identity pe)
     \<and> (\<exists>t. stagingGarbageKey pe = GK p sid (timestamp t) (prepared_identity pe))
     \<and> writable (jsonBytes J v)
     \<and> chunks pe = chunkRows (values_sub Q) [Str sid, Str (prepared_identity pe)] (jsonBytes J v)"

lemma mapR_eq_Inr: "mapR f xs = Inr ys \<longleftrightarrow> list_all2 (\<lambda>x y. f x = Inr y) xs ys"
  by (induction xs arbitrary: ys) (auto simp: bindR_eq_Inr list_all2_Cons1)

lemma prepareEntry_Inr:
  assumes Q: "persist_at Q p" and pr: "prepareEntry J Q sid now (key, v, ttl) i = Inr pe"
  shows "prepared J Q p sid (expirationFor ttl now) v pe" "prepared_key pe = key" "prepared_identity pe = i" "wellFormed sid"
proof -
  let ?b = "jsonBytes J v" and ?e = "expirationFor ttl now"
  obtain eKey ch g d1 d2 where ok: "wellFormed sid" "wellFormed key" "wellFormed i" "stringify J v \<noteq> None"
    and e: "(case ?e of None \<Rightarrow> Inr None | Some t \<Rightarrow> bindR (expiresKey Q sid t key) (\<lambda>k. Inr (Some k))) = Inr eKey"
    and ch: "mapR (\<lambda>index. bindR (liftTuple (subspace_pack (values_sub Q) [Str sid, Str i, BigInt (int index)]))
        (\<lambda>k. Inr (k, splitChunkedValue ?b ! index))) [0..<length (splitChunkedValue ?b)] = Inr ch"
    and pe: "pe = \<lparr>prepared_key = key, prepared_identity = i, prepared_expires = ?e, manifestKey = EK p sid key,
        manifestValue = encodeManifest J \<lparr>manifest_identity = i, manifest_expires = ?e\<rparr>, expirationKey = eKey,
        identityValue = text_encode i, stagingGarbageKey = g, chunks = ch, directByteEstimate = d1,
        stagedPublicationByteEstimate = d2\<rparr>"
    and g: "g = GK p sid (timestamp (of_int \<lceil>min (of_int maxSafeInteger) (now + stagingGarbageDelay)\<rceil>)) i"
    using pr by (auto simp: prepareEntry_def Let_def bindR_eq_Inr entryKey_Inr [OF Q] expiresKey_Inr [OF Q] garbageKey_Inr [OF Q]
        encodeValue_Inr)
  show "prepared_key pe = key" "prepared_identity pe = i" using pe by simp_all
  show "wellFormed sid" by (rule ok)
  have "eKey = map_option (\<lambda>t. XK p sid (timestamp t) key) ?e"
    using e by (auto simp: bindR_eq_Inr expiresKey_Inr [OF Q] split: option.splits)
  moreover have "writable ?b \<and> ch = chunkRows (values_sub Q) [Str sid, Str i] ?b"
  proof -
    have all: "list_all2 (\<lambda>index y. smallInt (int index) \<and> y = (chunkKey (values_sub Q) [Str sid, Str i] index, splitChunkedValue ?b ! index))
        [0..<length (splitChunkedValue ?b)] ch"
      using ch unfolding mapR_eq_Inr
      by (rule list_all2_mono) (auto simp: bindR_eq_Inr subspace_pack_Inr chunkKey_def)
    then have "ch = map (\<lambda>index. (chunkKey (values_sub Q) [Str sid, Str i] index, splitChunkedValue ?b ! index)) [0..<length (splitChunkedValue ?b)]"
      by (intro nth_equalityI) (auto simp: list_all2_conv_all_nth)
    moreover have "smallInt (int n)" if "n < length (splitChunkedValue ?b)" for n
      using all that by (auto simp: list_all2_conv_all_nth)
    ultimately show ?thesis by (simp add: chunkRows_def chunkCount_def writable_def)
  qed
  ultimately show "prepared J Q p sid ?e v pe" using pe ok g by (auto simp: prepared_def)
qed

end
