(* ===== verification/Persistence_Publish.thy ===== *)
theory Persistence_Publish
  imports Persistence_Writes
begin

text \<open>
  The publication of a batch: each entry takes the place of the one before it, whose identity becomes garbage, and
  the values written or staged under the new identities become visible together.
\<close>

text \<open>A batch with what was prepared from each entry: its expiry and its value.\<close>

type_synonym batch = "(prepared_entry \<times> rat option \<times> json) list"

definition batchIdentities :: "batch \<Rightarrow> identities \<Rightarrow> identities" where
  "batchIdentities ws I = fold (\<lambda>w I. I(prepared_key (fst w) \<mapsto> prepared_identity (fst w))) ws I"

definition batchEntries :: "batch \<Rightarrow> persisted \<Rightarrow> persisted" where
  "batchEntries ws A = fold (\<lambda>w A. A(prepared_key (fst w) \<mapsto> snd w)) ws A"

lemma batch_simps [simp]:
  "batchIdentities [] I = I" "batchEntries [] A = A"
  "batchIdentities (w # ws) I = batchIdentities ws (I(prepared_key (fst w) \<mapsto> prepared_identity (fst w)))"
  "batchEntries (w # ws) A = batchEntries ws (A(prepared_key (fst w) \<mapsto> snd w))"
  by (simp_all add: batchIdentities_def batchEntries_def)

definition previousOf :: "identities \<Rightarrow> persisted \<Rightarrow> js_string \<Rightarrow> entry_manifest option" where
  "previousOf I A key = (if A key = None then None else Some (manifestOfEntry I A key))"

text \<open>An entry that can be published: its value is complete and its identity is new.\<close>

definition publishable :: "'s txn \<Rightarrow> json_text \<Rightarrow> persistence_keys \<Rightarrow> bytes \<Rightarrow> js_string \<Rightarrow> bool \<Rightarrow> 's \<Rightarrow> identities \<Rightarrow> js_string set
    \<Rightarrow> prepared_entry \<times> rat option \<times> json \<Rightarrow> bool" where
  "publishable T J Q p sid staged s I U w \<longleftrightarrow> (case w of (pe, e, v) \<Rightarrow> prepared J Q p sid e v pe \<and> expiry_ok e \<and> structured v
     \<and> identity_ok (prepared_identity pe) \<and> prepared_identity pe \<in> U \<and> prepared_identity pe \<notin> ran I
     \<and> valueAt T s (VK p sid (prepared_identity pe)) = Some (jsonBytes J v)
     \<and> (\<forall>n. smallInt n \<longrightarrow> tx_get T s (GK p sid n (prepared_identity pe)) \<noteq> None \<longrightarrow>
          staged \<and> GK p sid n (prepared_identity pe) = stagingGarbageKey pe))"

context fdb
begin

lemma publishEntry_eq:
  assumes Q: "persist_at Q p" and sid: "wellFormed sid" "wellFormed (prepared_key pe)"
    and old: "\<And>m. previous = Some m \<Longrightarrow> wellFormed (manifest_identity m) \<and> manifest_identity m \<noteq> prepared_identity pe"
  shows "\<exists>s'. publishEntry T Q sid staged at0 (pe, previous) s = Inr s' \<and>
    tx_get T s' = (let f = (case previous of None \<Rightarrow> tx_get T s
        | Some m \<Rightarrow> (case manifest_expires m of None \<Rightarrow> tx_get T s
            | Some t \<Rightarrow> (tx_get T s)(XK p sid (timestamp t) (prepared_key pe) := None))
              (GK p sid (timestamp at0) (manifest_identity m) := Some []));
      f = f(manifestKey pe := Some (manifestValue pe));
      f = (if staged then f(stagingGarbageKey pe := None) else f) in
      case expirationKey pe of None \<Rightarrow> f | Some k \<Rightarrow> f(k := Some (identityValue pe)))"
proof (cases previous)
  case None
  then show ?thesis by (auto simp: publishEntry_def Let_def set_fun clear_fun split: option.splits)
next
  case (Some m)
  have "garbageKey Q sid at0 (manifest_identity m) = Inr (GK p sid (timestamp at0) (manifest_identity m))"
    using old [OF Some] sid Q by (simp add: garbageKey_Inr)
  then show ?thesis
    using Some old [OF Some] clearExpiration_Inr [OF Q sid, where e = "manifest_expires m" and s = s]
    by (cases "manifest_expires m"; cases "expirationKey pe"; cases staged)
      (simp_all add: publishEntry_def Let_def set_fun clear_fun)
qed

lemma publish_get:
  assumes inv: "persist_inv T J p sid s I A U" and Q: "persist_at Q p" and w: "publishable T J Q p sid staged s I U (pe, e, v)"
  obtains s' where "publishEntry T Q sid staged at0 (pe, previousOf I A (prepared_key pe)) s = Inr s'"
    "\<And>k. tx_get T s' k =
      (if \<exists>t. e = Some t \<and> k = XK p sid (timestamp t) (prepared_key pe) then Some (text_encode (prepared_identity pe))
       else if staged \<and> k = stagingGarbageKey pe then None
       else if k = EK p sid (prepared_key pe) then
         Some (encodeManifest J \<lparr>manifest_identity = prepared_identity pe, manifest_expires = e\<rparr>)
       else if A (prepared_key pe) \<noteq> None \<and> k = GK p sid (timestamp at0) (the (I (prepared_key pe))) then Some []
       else if \<exists>t v'. A (prepared_key pe) = Some (Some t, v') \<and> k = XK p sid (timestamp t) (prepared_key pe) then None
       else tx_get T s k)"
proof -
  let ?key = "prepared_key pe" and ?i = "prepared_identity pe"
  have pe: "wellFormed ?key" "manifestKey pe = EK p sid ?key" "identityValue pe = text_encode ?i"
    "manifestValue pe = encodeManifest J \<lparr>manifest_identity = ?i, manifest_expires = e\<rparr>"
    "expirationKey pe = map_option (\<lambda>t. XK p sid (timestamp t) ?key) e" "?i \<notin> ran I"
    using w by (simp_all add: publishable_def prepared_def)
  have old: "wellFormed (manifest_identity m) \<and> manifest_identity m \<noteq> ?i" if m: "previousOf I A ?key = Some m" for m
  proof -
    obtain e' v' where a: "A ?key = Some (e', v')" using m by (auto simp: previousOf_def split: if_splits)
    obtain i' where i': "I ?key = Some i'" using persist_entry [OF inv a] .
    have "manifest_identity m = i'" using m i' by (auto simp: previousOf_def manifestOfEntry_def split: if_splits)
    moreover have "i' \<in> ran I" using i' by (auto simp: ran_def)
    ultimately show ?thesis using pe(6) identity_wellFormed [OF inv i'] by auto
  qed
  obtain s' where s': "publishEntry T Q sid staged at0 (pe, previousOf I A ?key) s = Inr s'"
    "tx_get T s' = (let f = (case previousOf I A ?key of None \<Rightarrow> tx_get T s
        | Some m \<Rightarrow> (case manifest_expires m of None \<Rightarrow> tx_get T s
            | Some t \<Rightarrow> (tx_get T s)(XK p sid (timestamp t) ?key := None))
              (GK p sid (timestamp at0) (manifest_identity m) := Some []));
      f = f(manifestKey pe := Some (manifestValue pe));
      f = (if staged then f(stagingGarbageKey pe := None) else f) in
      case expirationKey pe of None \<Rightarrow> f | Some k \<Rightarrow> f(k := Some (identityValue pe)))"
    using publishEntry_eq [OF Q persist_invD(1) [OF inv] pe(1) old] by blast
  show thesis
  proof (rule that [OF s'(1)])
    fix k
    let ?old = "if A ?key \<noteq> None \<and> k = GK p sid (timestamp at0) (the (I ?key)) then Some []
       else if \<exists>t v'. A ?key = Some (Some t, v') \<and> k = XK p sid (timestamp t) ?key then None else tx_get T s k"
    have "(case previousOf I A ?key of None \<Rightarrow> tx_get T s
        | Some m \<Rightarrow> (case manifest_expires m of None \<Rightarrow> tx_get T s
            | Some t \<Rightarrow> (tx_get T s)(XK p sid (timestamp t) ?key := None))
              (GK p sid (timestamp at0) (manifest_identity m) := Some [])) k = ?old"
      by (cases "A ?key") (auto simp: previousOf_def manifestOfEntry_def split: option.splits)
    then show "tx_get T s' k =
      (if \<exists>t. e = Some t \<and> k = XK p sid (timestamp t) ?key then Some (text_encode ?i)
       else if staged \<and> k = stagingGarbageKey pe then None
       else if k = EK p sid ?key then Some (encodeManifest J \<lparr>manifest_identity = ?i, manifest_expires = e\<rparr>) else ?old)"
      unfolding s'(2) Let_def pe by (cases e; cases staged) auto
  qed
qed

text \<open>One entry is published.\<close>

lemma publish_step:
  assumes inv: "persist_inv T J p sid s I A U" and Q: "persist_at Q p" and w: "publishable T J Q p sid staged s I U (pe, e, v)"
  obtains s' where "publishEntry T Q sid staged at0 (pe, previousOf I A (prepared_key pe)) s = Inr s'"
    "persist_inv T J p sid s' (I(prepared_key pe \<mapsto> prepared_identity pe)) (A(prepared_key pe \<mapsto> (e, v))) U"
    "\<And>j k. wellFormed j \<Longrightarrow> value_row p sid j k \<Longrightarrow> tx_get T s' k = tx_get T s k"
    "\<And>n j. smallInt n \<Longrightarrow> wellFormed j \<Longrightarrow> j \<noteq> prepared_identity pe \<Longrightarrow> j \<notin> ran I \<Longrightarrow>
       tx_get T s' (GK p sid n j) = tx_get T s (GK p sid n j)"
    "tx_get T s' (MK p sid) = tx_get T s (MK p sid)"
proof -
  let ?key = "prepared_key pe" and ?i = "prepared_identity pe"
  let ?I = "I(?key \<mapsto> ?i)" and ?A = "A(?key \<mapsto> (e, v))"
  note iv = persist_invD [OF inv] and sid = persist_invD(1) [OF inv]
  obtain t0 where pe: "wellFormed ?key" "wellFormed ?i" "identity_ok ?i" "?i \<in> U" "?i \<notin> ran I" "expiry_ok e" "structured v"
    "stringify J v \<noteq> None" "valueAt T s (VK p sid ?i) = Some (jsonBytes J v)" "stagingGarbageKey pe = GK p sid (timestamp t0) ?i"
    using w by (auto simp: publishable_def prepared_def)
  have marker: "staged \<and> GK p sid n ?i = stagingGarbageKey pe" if "smallInt n" "tx_get T s (GK p sid n ?i) \<noteq> None" for n
    using w that by (simp add: publishable_def)
  obtain s' where s': "publishEntry T Q sid staged at0 (pe, previousOf I A ?key) s = Inr s'"
    and get: "\<And>k. tx_get T s' k =
      (if \<exists>t. e = Some t \<and> k = XK p sid (timestamp t) ?key then Some (text_encode ?i)
       else if staged \<and> k = stagingGarbageKey pe then None
       else if k = EK p sid ?key then Some (encodeManifest J \<lparr>manifest_identity = ?i, manifest_expires = e\<rparr>)
       else if A ?key \<noteq> None \<and> k = GK p sid (timestamp at0) (the (I ?key)) then Some []
       else if \<exists>t v'. A ?key = Some (Some t, v') \<and> k = XK p sid (timestamp t) ?key then None
       else tx_get T s k)"
    using publish_get [OF inv Q w] by blast
  have oldI: "wellFormed (the (I ?key)) \<and> the (I ?key) \<in> ran I \<and> identity_ok (the (I ?key)) \<and> the (I ?key) \<in> U" if present: "A ?key \<noteq> None"
  proof -
    obtain e' v' where a: "A ?key = Some (e', v')" using present by auto
    obtain i' where "I ?key = Some i'" "entry_value T J p sid s U ?key i' e' v'" using persist_entry [OF inv a] .
    then show ?thesis using entry_valueD [of T J p sid s U ?key i' e' v'] by (auto simp: ran_def)
  qed
  have EK': "tx_get T s' (EK p sid key) = tx_get T s (EK p sid key)" if "wellFormed key" "key \<noteq> ?key" for key
    unfolding get using that sid pe oldI by auto
  have vals: "tx_get T s' k = tx_get T s k" if j: "wellFormed j" "value_row p sid j k" for j k
  proof -
    have "k \<noteq> EK p sid ?key" "k \<noteq> stagingGarbageKey pe" "\<And>t. k \<noteq> XK p sid (timestamp t) ?key"
      "\<not> (A ?key \<noteq> None \<and> k = GK p sid (timestamp at0) (the (I ?key)))"
      using j sid pe oldI not_value_row [OF sid j(1)] by auto
    then show ?thesis unfolding get by (simp only: if_False simp_thms)
  qed
  have XK': "tx_get T s' (XK p sid (timestamp t) key) = tx_get T s (XK p sid (timestamp t) key)" if "wellFormed key" "key \<noteq> ?key" for key t
    unfolding get using that sid pe oldI by auto
  have ran: "ran ?I \<subseteq> insert ?i (ran I)" by (auto simp: ran_def)
  have "persist_inv T J p sid s' ?I ?A U"
    unfolding persist_inv_def
  proof (intro conjI)
    show "wellFormed sid" by (rule sid)
    show "dom ?I = dom ?A" using iv(2) by simp
    show "inj_on ?I (dom ?I)" using iv(3) pe(5) by (fastforce simp: inj_on_def dom_def ran_def)
    show "entry_rows T J p sid s' ?I ?A"
      unfolding entry_rows_def
    proof (intro allI impI)
      fix key assume key: "wellFormed key"
      show "tx_get T s' (EK p sid key) = map_option (\<lambda>(e, v). encodeManifest J \<lparr>manifest_identity = the (?I key), manifest_expires = e\<rparr>) (?A key)"
      proof (cases "key = ?key")
        case True
        then show ?thesis unfolding get using sid pe by simp
      next
        case False
        then show ?thesis using EK' [OF key] iv(4) key by (simp add: entry_rows_def)
      qed
    qed
    show "entry_values T J p sid s' ?I ?A U"
      unfolding entry_values_def
    proof (intro allI impI)
      fix key e' v' assume a: "?A key = Some (e', v')"
      show "\<exists>i. ?I key = Some i \<and> entry_value T J p sid s' U key i e' v'"
      proof (cases "key = ?key")
        case True
        then have "valueAt T s' (VK p sid ?i) = Some (jsonBytes J v)" using pe(9) valueAt_VK [OF vals [OF pe(2)]] by simp
        moreover have "e = Some t \<Longrightarrow> tx_get T s' (XK p sid (timestamp t) ?key) = Some (text_encode ?i)" for t unfolding get by simp
        ultimately show ?thesis using a True pe by (auto simp: entry_value_def)
      next
        case False
        then have "A key = Some (e', v')" using a by simp
        then obtain i' where i': "I key = Some i'" "entry_value T J p sid s U key i' e' v'" using persist_entry [OF inv] by blast
        note ok = entry_valueD [OF i'(2)]
        have "valueAt T s' (VK p sid i') = valueAt T s (VK p sid i')" by (rule valueAt_VK [OF vals [OF ok(6)]])
        then have "entry_value T J p sid s' U key i' e' v'" using i'(2) XK' [OF ok(1) False] by (auto simp: entry_value_def)
        then show ?thesis using i'(1) False by simp
      qed
    qed
    show "unused_rows T p sid s' U" using iv(6) vals by (auto simp: unused_rows_def)
    show "garbage_rows T p sid s' ?I U"
      unfolding garbage_rows_def
    proof (intro allI impI)
      fix k x assume k: "inRange p ''garbage'' [Str sid] k" "tx_get T s' k = Some x"
      show "\<exists>n i. k = GK p sid n i \<and> smallInt n \<and> identity_ok i \<and> i \<in> U \<and> i \<notin> ran ?I"
      proof (cases "A ?key \<noteq> None \<and> k = GK p sid (timestamp at0) (the (I ?key))")
        case True
        have "the (I ?key) \<notin> ran ?I"
        proof
          assume "the (I ?key) \<in> ran ?I"
          then obtain key where "?I key = Some (the (I ?key))" by (auto simp: ran_def)
          moreover have "the (I ?key) \<noteq> ?i" using oldI True pe(5) by auto
          ultimately have key: "I key = Some (the (I ?key))" "key \<noteq> ?key" by (auto split: if_splits)
          have "I ?key = Some (the (I ?key))" using True iv(2) by (metis domI domIff option.collapse)
          from same_identity [OF inv key(1) this] key(2) show False by simp
        qed
        then show ?thesis using True oldI by (intro exI [of _ "timestamp at0"] exI [of _ "the (I ?key)"]) simp
      next
        case False
        have "k \<noteq> EK p sid ?key" "\<And>t. k \<noteq> XK p sid (timestamp t) ?key" using k(1) sid pe(1) by (auto simp: EK_def XK_def)
        with k(2) False have s: "tx_get T s k = Some x" "\<not> (staged \<and> k = stagingGarbageKey pe)" unfolding get by (auto split: if_splits)
        obtain n i where g: "k = GK p sid n i" "smallInt n" "identity_ok i" "i \<in> U" "i \<notin> ran I"
          using iv(7) k(1) s(1) unfolding garbage_rows_def by blast
        have "i \<noteq> ?i" using marker [OF g(2)] s g(1) by auto
        then show ?thesis using g ran by blast
      qed
    qed
    show "expires_rows T p sid s'"
      unfolding expires_rows_def
    proof (intro allI impI)
      fix k x assume k: "inRange p ''expires'' [Str sid] k" "tx_get T s' k = Some x"
      show "\<exists>n key i. k = XK p sid n key \<and> smallInt n \<and> wellFormed key \<and> identity_ok i \<and> x = text_encode i"
      proof (cases "\<exists>t. e = Some t \<and> k = XK p sid (timestamp t) ?key")
        case True
        then obtain t where "k = XK p sid (timestamp t) ?key" by blast
        moreover have "x = text_encode ?i" using True k(2) unfolding get by simp
        ultimately show ?thesis using pe by (intro exI [of _ "timestamp t"] exI [of _ ?key] exI [of _ ?i]) simp
      next
        case False
        have "k \<noteq> EK p sid ?key" "A ?key \<noteq> None \<Longrightarrow> k \<noteq> GK p sid (timestamp at0) (the (I ?key))"
          using k(1) sid pe(1) oldI by (auto simp: EK_def GK_def)
        with k(2) False have "tx_get T s k = Some x" unfolding get by (auto split: if_splits)
        then show ?thesis using iv(8) k(1) unfolding expires_rows_def by blast
      qed
    qed
  qed
  moreover have "tx_get T s' (GK p sid n j) = tx_get T s (GK p sid n j)"
    if "smallInt n" "wellFormed j" "j \<noteq> ?i" "j \<notin> ran I" for n j
    unfolding get using that sid pe oldI by auto
  moreover have "tx_get T s' (MK p sid) = tx_get T s (MK p sid)"
    unfolding get using sid pe oldI by auto
  ultimately show thesis using s' vals by (intro that) blast+
qed

lemma publish_all:
  assumes Q: "persist_at Q p"
  shows "persist_inv T J p sid s I A U \<Longrightarrow> distinct (map (\<lambda>w. prepared_key (fst w)) ws) \<Longrightarrow>
    distinct (map (\<lambda>w. prepared_identity (fst w)) ws) \<Longrightarrow> (\<And>w. w \<in> set ws \<Longrightarrow> publishable T J Q p sid staged s I U w) \<Longrightarrow>
    \<exists>s'. foldR (publishEntry T Q sid staged at0) (zip (map fst ws) (map (\<lambda>w. previousOf I A (prepared_key (fst w))) ws)) s = Inr s'
      \<and> persist_inv T J p sid s' (batchIdentities ws I) (batchEntries ws A) U \<and> tx_get T s' (MK p sid) = tx_get T s (MK p sid)"
proof (induction ws arbitrary: s I A)
  case (Cons w ws)
  obtain pe e v where w: "w = (pe, e, v)" by (cases w)
  let ?I = "I(prepared_key pe \<mapsto> prepared_identity pe)" and ?A = "A(prepared_key pe \<mapsto> (e, v))"
  have pub: "publishable T J Q p sid staged s I U (pe, e, v)" using Cons.prems(4) [of w] w by simp
  obtain s1 where s1: "publishEntry T Q sid staged at0 (pe, previousOf I A (prepared_key pe)) s = Inr s1"
    "persist_inv T J p sid s1 ?I ?A U"
    "\<And>j k. wellFormed j \<Longrightarrow> value_row p sid j k \<Longrightarrow> tx_get T s1 k = tx_get T s k"
    "\<And>n j. smallInt n \<Longrightarrow> wellFormed j \<Longrightarrow> j \<noteq> prepared_identity pe \<Longrightarrow> j \<notin> ran I \<Longrightarrow>
       tx_get T s1 (GK p sid n j) = tx_get T s (GK p sid n j)"
    "tx_get T s1 (MK p sid) = tx_get T s (MK p sid)"
    using publish_step [OF Cons.prems(1) Q pub] by blast
  have rest: "publishable T J Q p sid staged s1 ?I U x" if x: "x \<in> set ws" for x
  proof -
    obtain pe' e' v' where x': "x = (pe', e', v')" by (cases x)
    have pub': "publishable T J Q p sid staged s I U (pe', e', v')" using Cons.prems(4) [of x] x x' by simp
    have new: "prepared_identity pe' \<noteq> prepared_identity pe" using Cons.prems(3) x x' w by force
    have j: "wellFormed (prepared_identity pe')" "prepared_identity pe' \<notin> ran I" using pub' by (auto simp: publishable_def prepared_def)
    have "valueAt T s1 (VK p sid (prepared_identity pe')) = valueAt T s (VK p sid (prepared_identity pe'))"
      by (rule valueAt_VK) (rule s1(3) [OF j(1)])
    moreover have "tx_get T s1 (GK p sid n (prepared_identity pe')) = tx_get T s (GK p sid n (prepared_identity pe'))"
      if "smallInt n" for n
      by (rule s1(4)) (use that j new in auto)
    moreover have "prepared_identity pe' \<notin> ran ?I" using j(2) new by (auto simp: ran_def)
    ultimately show ?thesis using pub' by (auto simp: publishable_def x')
  qed
  have prev: "map (\<lambda>w. previousOf ?I ?A (prepared_key (fst w))) ws = map (\<lambda>w. previousOf I A (prepared_key (fst w))) ws"
  proof (rule map_cong [OF refl])
    fix x assume "x \<in> set ws"
    then have "prepared_key (fst x) \<noteq> prepared_key pe" using Cons.prems(2) w by force
    then show "previousOf ?I ?A (prepared_key (fst x)) = previousOf I A (prepared_key (fst x))"
      by (simp add: previousOf_def manifestOfEntry_def)
  qed
  have "distinct (map (\<lambda>w. prepared_key (fst w)) ws)" "distinct (map (\<lambda>w. prepared_identity (fst w)) ws)" using Cons.prems by simp_all
  from Cons.IH [OF s1(2) this rest] show ?case using s1(1,5) w prev by (auto simp del: fun_upd_apply)
qed simp

end

section \<open>Values are written\<close>

definition entryMutations :: "bool \<Rightarrow> prepared_entry \<Rightarrow> mutation list" where
  "entryMutations staged pe = (if staged then stagingMutations pe else chunks pe)"

lemma setAll_append: "setAll T (xs @ ys) s = setAll T ys (setAll T xs s)"
  by (simp add: setAll_def)

lemma setAll_concat: "fold (\<lambda>x. setAll T (f x)) xs s = setAll T (concat (map f xs)) s"
  by (induction xs arbitrary: s) (simp_all add: setAll_append setAll_def)

context fdb
begin

lemma write_entry_values:
  assumes Q: "persist_at Q p" and sid: "wellFormed sid" and pe: "prepared J Q p sid e v pe"
    and free: "\<And>k. value_row p sid (prepared_identity pe) k \<Longrightarrow> tx_get T s k = None"
  shows "valueAt T (setAll T (entryMutations staged pe) s) (VK p sid (prepared_identity pe)) = Some (jsonBytes J v)"
    and "\<not> value_row p sid (prepared_identity pe) k \<Longrightarrow> \<not> (staged \<and> k = stagingGarbageKey pe) \<Longrightarrow>
      tx_get T (setAll T (entryMutations staged pe) s) k = tx_get T s k"
    and "staged \<Longrightarrow> tx_get T (setAll T (entryMutations staged pe) s) (stagingGarbageKey pe) = Some []"
proof -
  let ?i = "prepared_identity pe"
  let ?s = "if staged then tx_set T (stagingGarbageKey pe) [] s else s"
  obtain t where t: "wellFormed ?i" "stagingGarbageKey pe = GK p sid (timestamp t) ?i" "writable (jsonBytes J v)"
    "chunks pe = chunkRows (values_sub Q) [Str sid, Str ?i] (jsonBytes J v)"
    using pe by (auto simp: prepared_def)
  have eq: "setAll T (entryMutations staged pe) s = setAll T (chunkRows (values_sub Q) [Str sid, Str ?i] (jsonBytes J v)) ?s"
    by (simp add: entryMutations_def stagingMutations_def setAll_def t(4))
  have at: "prefix_bytes (values_sub Q) @ encs False [Str sid, Str ?i] = K p ''values'' [Str sid, Str ?i]"
    using Q by (simp add: persist_at_def K_append del: encs_simps)
  have marker: "\<not> value_row p sid ?i (stagingGarbageKey pe)" using t sid by simp
  have none: "value_row p sid ?i k \<Longrightarrow> tx_get T ?s k = None" for k using free marker by (auto simp: get_set)
  have ok: "tuple_ok [Str sid, Str ?i]" using sid t(1) by simp
  from valueAt_chunks [OF ok t(3) at none]
  have w: "valueAt T (setAll T (chunkRows (values_sub Q) [Str sid, Str ?i] (jsonBytes J v)) ?s) (K p ''values'' [Str sid, Str ?i]) = Some (jsonBytes J v)"
    "\<And>k. \<not> value_row p sid ?i k \<Longrightarrow> tx_get T (setAll T (chunkRows (values_sub Q) [Str sid, Str ?i] (jsonBytes J v)) ?s) k = tx_get T ?s k"
    by blast+
  show "valueAt T (setAll T (entryMutations staged pe) s) (VK p sid ?i) = Some (jsonBytes J v)"
    using w(1) by (simp add: eq VK_def)
  show "\<not> value_row p sid ?i k \<Longrightarrow> \<not> (staged \<and> k = stagingGarbageKey pe) \<Longrightarrow>
      tx_get T (setAll T (entryMutations staged pe) s) k = tx_get T s k"
    using w(2) by (auto simp: eq get_set)
  show "tx_get T (setAll T (entryMutations staged pe) s) (stagingGarbageKey pe) = Some []" if staged
    unfolding eq w(2) [OF marker] using \<open>staged\<close> by (simp add: get_set)
qed

text \<open>Rows of an identity that no entry has do not matter.\<close>

lemma persist_inv_identity:
  assumes inv: "persist_inv T J p sid s I A U" and i: "identity_ok i" "i \<notin> ran I" and G: "smallInt n"
    and same: "\<And>k. \<not> value_row p sid i k \<Longrightarrow> k \<noteq> GK p sid n i \<Longrightarrow> tx_get T s' k = tx_get T s k"
  shows "persist_inv T J p sid s' I A (insert i U)"
  unfolding persist_inv_def
proof (intro conjI)
  note iv = persist_invD [OF inv] and sid = persist_invD(1) [OF inv]
  have wi: "wellFormed i" using i by (simp add: identity_ok_def)
  have vals: "tx_get T s' k = tx_get T s k" if "wellFormed j" "j \<noteq> i" "value_row p sid j k" for j k
    using same value_row_unique [OF that(3) _ sid that(1) wi] that not_value_row(3) [OF sid that(1) G wi] by blast
  show "wellFormed sid" "dom I = dom A" "inj_on I (dom I)" by (rule iv)+
  show "entry_rows T J p sid s' I A" using iv(4) same sid wi G by (auto simp: entry_rows_def)
  show "entry_values T J p sid s' I A (insert i U)"
    unfolding entry_values_def
  proof (intro allI impI)
    fix key e v assume "A key = Some (e, v)"
    then obtain j where j: "I key = Some j" "entry_value T J p sid s U key j e v" using persist_entry [OF inv] by blast
    note ok = entry_valueD [OF j(2)]
    have "j \<noteq> i" using j(1) i(2) by (auto simp: ran_def)
    then have "valueAt T s' (VK p sid j) = valueAt T s (VK p sid j)" by (intro valueAt_VK vals [OF ok(6)])
    moreover have "tx_get T s' (XK p sid (timestamp t) key) = tx_get T s (XK p sid (timestamp t) key)" for t
      by (rule same) (use ok(1) sid wi G in simp_all)
    ultimately show "\<exists>i'. I key = Some i' \<and> entry_value T J p sid s' (insert i U) key i' e v"
      using j by (auto simp: entry_value_def)
  qed
  show "unused_rows T p sid s' (insert i U)" using iv(6) vals by (auto simp: unused_rows_def)
  show "garbage_rows T p sid s' I (insert i U)"
    unfolding garbage_rows_def
  proof (intro allI impI)
    fix k v assume k: "inRange p ''garbage'' [Str sid] k" "tx_get T s' k = Some v"
    show "\<exists>n j. k = GK p sid n j \<and> smallInt n \<and> identity_ok j \<and> j \<in> insert i U \<and> j \<notin> ran I"
    proof (cases "k = GK p sid n i")
      case False
      have "\<not> value_row p sid i k" using value_row_section [OF _ k(1) sid wi] sid by auto
      then have "tx_get T s k = Some v" using same False k(2) by simp
      then show ?thesis using iv(7) k(1) unfolding garbage_rows_def by blast
    qed (use i G in blast)
  qed
  show "expires_rows T p sid s'"
    unfolding expires_rows_def
  proof (intro allI impI)
    fix k v assume k: "inRange p ''expires'' [Str sid] k" "tx_get T s' k = Some v"
    have "\<not> value_row p sid i k" using value_row_section [OF _ k(1) sid wi] sid by auto
    moreover have "k \<noteq> GK p sid n i" using k(1) sid G wi by (auto simp: GK_def)
    ultimately have "tx_get T s k = Some v" using same k(2) by simp
    then show "\<exists>n key i. k = XK p sid n key \<and> smallInt n \<and> wellFormed key \<and> identity_ok i \<and> v = text_encode i"
      using iv(8) k(1) unfolding expires_rows_def by blast
  qed
qed

end

text \<open>A batch whose identities were never used.\<close>

definition batchIds :: "batch \<Rightarrow> js_string set" where
  "batchIds ws = (\<lambda>w. prepared_identity (fst w)) ` set ws"

definition fresh_batch :: "json_text \<Rightarrow> persistence_keys \<Rightarrow> bytes \<Rightarrow> js_string \<Rightarrow> js_string set \<Rightarrow> batch \<Rightarrow> bool" where
  "fresh_batch J Q p sid U ws \<longleftrightarrow> distinct (map (\<lambda>w. prepared_key (fst w)) ws) \<and> distinct (map (\<lambda>w. prepared_identity (fst w)) ws)
     \<and> (\<forall>w \<in> set ws. case w of (pe, e, v) \<Rightarrow> prepared J Q p sid e v pe \<and> expiry_ok e \<and> structured v
          \<and> identity_ok (prepared_identity pe) \<and> prepared_identity pe \<notin> U)"

definition batchMutations :: "bool \<Rightarrow> batch \<Rightarrow> mutation list" where
  "batchMutations staged ws = concat (map (\<lambda>w. entryMutations staged (fst w)) ws)"

lemma batchMutations_simps [simp]:
  "batchMutations staged [] = []" "batchMutations staged (w # ws) = entryMutations staged (fst w) @ batchMutations staged ws"
  by (simp_all add: batchMutations_def)

context fdb
begin

lemma write_batch:
  assumes Q: "persist_at Q p"
  shows "persist_inv T J p sid s I A U \<Longrightarrow> fresh_batch J Q p sid U ws \<Longrightarrow> s' = setAll T (batchMutations staged ws) s \<Longrightarrow>
    persist_inv T J p sid s' I A (U \<union> batchIds ws)
    \<and> (\<forall>w \<in> set ws. publishable T J Q p sid staged s' I (U \<union> batchIds ws) w \<and> (staged \<longrightarrow> tx_get T s' (stagingGarbageKey (fst w)) = Some []))
    \<and> (\<forall>k. (\<forall>w \<in> set ws. \<not> value_row p sid (prepared_identity (fst w)) k \<and> \<not> (staged \<and> k = stagingGarbageKey (fst w)))
         \<longrightarrow> tx_get T s' k = tx_get T s k)"
proof (induction ws arbitrary: s U)
  case Nil
  then show ?case by (simp add: setAll_def batchIds_def)
next
  case (Cons w ws)
  obtain pe e v where w: "w = (pe, e, v)" by (cases w)
  let ?i = "prepared_identity pe" and ?s1 = "setAll T (entryMutations staged pe) s"
  note sid = persist_invD(1) [OF Cons.prems(1)]
  have pe: "prepared J Q p sid e v pe" "expiry_ok e" "structured v" "identity_ok ?i" "?i \<notin> U"
    using Cons.prems(2) w by (auto simp: fresh_batch_def)
  obtain t where G: "stagingGarbageKey pe = GK p sid (timestamp t) ?i" and wi: "wellFormed ?i" using pe(1) by (auto simp: prepared_def)
  have new: "prepared_identity (fst x) \<noteq> ?i" "wellFormed (prepared_identity (fst x))"
    "\<exists>t. stagingGarbageKey (fst x) = GK p sid (timestamp t) (prepared_identity (fst x))" if x: "x \<in> set ws" for x
  proof -
    obtain pe' e' v' where x': "x = (pe', e', v')" by (cases x)
    have "distinct (map (\<lambda>w. prepared_identity (fst w)) (w # ws))" using Cons.prems(2) by (simp add: fresh_batch_def)
    then show "prepared_identity (fst x) \<noteq> ?i" using x w by force
    have "prepared J Q p sid e' v' pe'" using Cons.prems(2) x x' by (auto simp: fresh_batch_def)
    then show "wellFormed (prepared_identity (fst x))"
      "\<exists>t. stagingGarbageKey (fst x) = GK p sid (timestamp t) (prepared_identity (fst x))" by (auto simp: x' prepared_def)
  qed
  have none: "?i \<notin> ran I"
  proof
    assume "?i \<in> ran I"
    then obtain key where key: "I key = Some ?i" by (auto simp: ran_def)
    obtain e' v' where "entry_value T J p sid s U key ?i e' v'" by (rule identity_entry [OF Cons.prems(1) key])
    then have "?i \<in> U" by (rule entry_valueD(8))
    then show False using pe(5) by simp
  qed
  have free: "value_row p sid ?i k \<Longrightarrow> tx_get T s k = None" for k
    using persist_invD(6) [OF Cons.prems(1)] pe(5) wi unfolding unused_rows_def by blast
  note v = write_entry_values [OF Q sid pe(1) free, where staged = staged]
  have same1: "tx_get T ?s1 k = tx_get T s k" if "\<not> value_row p sid ?i k" "k \<noteq> GK p sid (timestamp t) ?i" for k
    using v(2) [of k] that G by simp
  have inv1: "persist_inv T J p sid ?s1 I A (insert ?i U)"
    by (rule persist_inv_identity [OF Cons.prems(1) pe(4) none _ same1]) simp_all
  have "fresh_batch J Q p sid (insert ?i U) ws" using Cons.prems(2) new(1) w by (auto simp: fresh_batch_def)
  moreover have "s' = setAll T (batchMutations staged ws) ?s1" using Cons.prems(3) w by (simp add: setAll_append)
  ultimately have IH: "persist_inv T J p sid s' I A (insert ?i U \<union> batchIds ws)"
    "\<And>x. x \<in> set ws \<Longrightarrow> publishable T J Q p sid staged s' I (insert ?i U \<union> batchIds ws) x
       \<and> (staged \<longrightarrow> tx_get T s' (stagingGarbageKey (fst x)) = Some [])"
    "\<And>k. (\<forall>x \<in> set ws. \<not> value_row p sid (prepared_identity (fst x)) k \<and> \<not> (staged \<and> k = stagingGarbageKey (fst x)))
         \<Longrightarrow> tx_get T s' k = tx_get T ?s1 k"
    using Cons.IH [OF inv1] by blast+
  have U: "insert ?i U \<union> batchIds ws = U \<union> batchIds (w # ws)" by (auto simp: batchIds_def w)
  have keepV: "tx_get T s' k = tx_get T ?s1 k" if k: "value_row p sid ?i k" for k
  proof (rule IH(3), intro ballI conjI notI)
    fix x assume x: "x \<in> set ws"
    show False if "value_row p sid (prepared_identity (fst x)) k"
      using value_row_unique [OF that k sid new(2) [OF x] wi] new(1) [OF x] by simp
    show False if "staged \<and> k = stagingGarbageKey (fst x)"
      using new(3) [OF x] that k not_value_row(3) [OF sid wi _ new(2) [OF x]] by auto
  qed
  have keepG: "tx_get T s' (GK p sid n ?i) = tx_get T ?s1 (GK p sid n ?i)" if n: "smallInt n" for n
  proof (rule IH(3), intro ballI conjI notI)
    fix x assume x: "x \<in> set ws"
    show False if "value_row p sid (prepared_identity (fst x)) (GK p sid n ?i)"
      using that not_value_row(3) [OF sid new(2) [OF x] n wi] by simp
    show False if "staged \<and> GK p sid n ?i = stagingGarbageKey (fst x)"
      using new [OF x] that sid wi n by auto
  qed
  have "valueAt T s' (VK p sid ?i) = Some (jsonBytes J v)"
    using v(1) valueAt_VK [of p sid ?i s' ?s1] keepV by simp
  moreover have "staged \<and> GK p sid n ?i = stagingGarbageKey pe" if n: "smallInt n" "tx_get T s' (GK p sid n ?i) \<noteq> None" for n
  proof (rule ccontr)
    assume other: "\<not> (staged \<and> GK p sid n ?i = stagingGarbageKey pe)"
    have "\<not> value_row p sid ?i (GK p sid n ?i)" using sid wi n by simp
    then have "tx_get T s (GK p sid n ?i) \<noteq> None" using n keepG [OF n(1)] v(2) other by simp
    then obtain x where "tx_get T s (GK p sid n ?i) = Some x" by blast
    moreover have "inRange p ''garbage'' [Str sid] (GK p sid n ?i)" using sid wi n by (simp add: GK_def)
    ultimately obtain n' i' where "GK p sid n ?i = GK p sid n' i'" "smallInt n'" "identity_ok i'" "i' \<in> U"
      using persist_invD(7) [OF Cons.prems(1)] unfolding garbage_rows_def by blast
    then show False using pe(5) sid wi n by (simp add: identity_ok_def)
  qed
  ultimately have "publishable T J Q p sid staged s' I (U \<union> batchIds (w # ws)) w"
    using pe none by (auto simp: publishable_def w batchIds_def)
  moreover have "tx_get T s' (stagingGarbageKey pe) = Some []" if staged using v(3) [OF _ that] keepG [of "timestamp t"] G by simp
  moreover have "tx_get T s' k = tx_get T s k"
    if k: "\<forall>x \<in> set (w # ws). \<not> value_row p sid (prepared_identity (fst x)) k \<and> \<not> (staged \<and> k = stagingGarbageKey (fst x))" for k
    using IH(3) [of k] v(2) [of k] k w by simp
  ultimately show ?case using IH(1,2) unfolding U w by auto
qed

lemma previous_manifests:
  assumes inv: "persist_inv T J p sid s I A U" and J: "json_laws J"
    and ws: "\<And>w. w \<in> set ws \<Longrightarrow> wellFormed (prepared_key (fst w)) \<and> manifestKey (fst w) = EK p sid (prepared_key (fst w))"
  shows "mapR (\<lambda>(entry, v). case v of None \<Rightarrow> Inr None | Some b \<Rightarrow> bindR (decodeManifest J (prepared_key entry) b) (\<lambda>m. Inr (Some m)))
      (zip (map fst ws) (map (tx_get T s) (map (manifestKey \<circ> fst) ws)))
    = Inr (map (\<lambda>w. previousOf I A (prepared_key (fst w))) ws)"
  using ws
proof (induction ws)
  case (Cons w ws)
  have key: "wellFormed (prepared_key (fst w))" "manifestKey (fst w) = EK p sid (prepared_key (fst w))" using Cons.prems by simp_all
  show ?case
    using Cons encoded_entry [OF inv key(1)] decode_entry [OF inv J, of "prepared_key (fst w)"] key(2)
    by (auto simp: previousOf_def)
qed simp

text \<open>A direct publication.\<close>

lemma publish_direct:
  assumes inv: "persist_inv T J p sid s I A U" and J: "json_laws J" and Q: "persist_at Q p" and ws: "fresh_batch J Q p sid U ws"
  obtains s' where "publishEntries T J Q sid ek (map fst ws) None at0 s = Inr ((), s')"
    "persist_inv T J p sid s' (batchIdentities ws I) (batchEntries ws A) (U \<union> batchIds ws)"
proof -
  let ?s1 = "setAll T (batchMutations False ws) s"
  from write_batch [OF Q inv ws refl, of False]
  have w: "persist_inv T J p sid ?s1 I A (U \<union> batchIds ws)" "\<And>w. w \<in> set ws \<Longrightarrow> publishable T J Q p sid False ?s1 I (U \<union> batchIds ws) w"
    by blast+
  have d: "distinct (map (\<lambda>w. prepared_key (fst w)) ws)" "distinct (map (\<lambda>w. prepared_identity (fst w)) ws)"
    using ws by (simp_all add: fresh_batch_def)
  from publish_all [OF Q w(1) d w(2)] obtain s' where
    s': "foldR (publishEntry T Q sid False at0) (zip (map fst ws) (map (\<lambda>w. previousOf I A (prepared_key (fst w))) ws)) ?s1 = Inr s'"
    "persist_inv T J p sid s' (batchIdentities ws I) (batchEntries ws A) (U \<union> batchIds ws)" by blast
  have "wellFormed (prepared_key (fst w)) \<and> manifestKey (fst w) = EK p sid (prepared_key (fst w))" if "w \<in> set ws" for w
    using ws that by (auto simp: fresh_batch_def prepared_def)
  note prev = previous_manifests [OF inv J this]
  have set: "fold (\<lambda>entry. setAll T (chunks entry)) (map fst ws) s = ?s1"
    by (simp add: setAll_concat batchMutations_def entryMutations_def o_def)
  have "publishEntries T J Q sid ek (map fst ws) None at0 s = Inr ((), s')"
    using s'(1) prev by (simp add: publishEntries_def Let_def tx_getMany_def set o_def)
  with s'(2) that show thesis by blast
qed

text \<open>The publication of a staged batch, when its markers are still there.\<close>

lemma publish_staged:
  assumes inv: "persist_inv T J p sid s I A U" and J: "json_laws J" and Q: "persist_at Q p"
    and ws: "\<And>w. w \<in> set ws \<Longrightarrow> publishable T J Q p sid True s I U w \<and> tx_get T s (stagingGarbageKey (fst w)) \<noteq> None"
    and d: "distinct (map (\<lambda>w. prepared_key (fst w)) ws)" "distinct (map (\<lambda>w. prepared_identity (fst w)) ws)"
  obtains s' where "publishEntries T J Q sid ek (map fst ws) (Some (tx_get T s ek)) at0 s = Inr ((), s')"
    "persist_inv T J p sid s' (batchIdentities ws I) (batchEntries ws A) U"
proof (cases ws)
  case Nil
  have "publishEntries T J Q sid ek (map fst ws) (Some (tx_get T s ek)) at0 s = Inr ((), s)"
    by (simp add: Nil publishEntries_def equalEpochs_def tx_getMany_def)
  with inv that [of s] show thesis by (simp add: Nil)
next
  case (Cons w0 ws0)
  have pub: "\<And>w. w \<in> set ws \<Longrightarrow> publishable T J Q p sid True s I U w" using ws by blast
  from publish_all [OF Q inv d pub] obtain s' where
    s': "foldR (publishEntry T Q sid True at0) (zip (map fst ws) (map (\<lambda>w. previousOf I A (prepared_key (fst w))) ws)) s = Inr s'"
    "persist_inv T J p sid s' (batchIdentities ws I) (batchEntries ws A) U" by blast
  have "wellFormed (prepared_key (fst w)) \<and> manifestKey (fst w) = EK p sid (prepared_key (fst w))" if "w \<in> set ws" for w
    using pub [OF that] by (auto simp: publishable_def prepared_def split: prod.splits)
  note prev = previous_manifests [OF inv J this]
  have "\<not> sameManifest (previousOf I A (prepared_key (fst w0))) (fst w0)"
  proof
    assume same: "sameManifest (previousOf I A (prepared_key (fst w0))) (fst w0)"
    let ?key = "prepared_key (fst w0)"
    obtain e v where a: "A ?key = Some (e, v)" and i: "the (I ?key) = prepared_identity (fst w0)"
      using same by (auto simp: sameManifest_def previousOf_def manifestOfEntry_def split: if_splits)
    obtain j where "I ?key = Some j" using persist_entry [OF inv a] .
    with i have "prepared_identity (fst w0) \<in> ran I" by (auto simp: ran_def)
    with pub [of w0] Cons show False by (auto simp: publishable_def split: prod.splits)
  qed
  then have differ: "\<not> list_all2 sameManifest (map (\<lambda>w. previousOf I A (prepared_key (fst w))) ws) (map fst ws)"
    by (simp add: Cons)
  have mark: "None \<notin> set (map (tx_get T s) (map (stagingGarbageKey \<circ> fst) ws))" using ws by (auto simp: eq_commute)
  have "publishEntries T J Q sid ek (map fst ws) (Some (tx_get T s ek)) at0 s = Inr ((), s')"
    using s'(1) prev differ mark by (simp add: publishEntries_def Let_def tx_getMany_def equalEpochs_def o_def)
  with s'(2) that show thesis by blast
qed

end

end
