(* ===== verification/Persistence_History.thy ===== *)
theory Persistence_History
  imports Persistence_Publish
begin

text \<open>
  Writes as a whole, when no other client interferes, and histories of operations: the store behaves as a map whose
  entries disappear when they expire.
\<close>

section \<open>The entries of a batch\<close>

lemma map_of_replace:
  "map_of (map (\<lambda>x. if fst x = fst e then e else x) m) k = (if k = fst e \<and> map_of m k \<noteq> None then Some (snd e) else map_of m k)"
  by (induction m) auto

lemma mapSet_props:
  "distinct (map fst m) \<Longrightarrow> distinct (map fst (mapSet m e)) \<and> map_of (mapSet m e) = (map_of m)(fst e \<mapsto> snd e)
     \<and> fst ` set (mapSet m e) = insert (fst e) (fst ` set m)"
proof (cases "fst e \<in> fst ` set m")
  case True
  assume d: "distinct (map fst m)"
  have keys: "map fst (map (\<lambda>x. if fst x = fst e then e else x) m) = map fst m" by simp
  have "map_of (map (\<lambda>x. if fst x = fst e then e else x) m) = (map_of m)(fst e \<mapsto> snd e)"
    using True by (auto simp: fun_eq_iff map_of_replace map_of_eq_None_iff simp del: not_None_eq not_Some_eq)
  moreover have "fst ` set (map (\<lambda>x. if fst x = fst e then e else x) m) = fst ` set m"
    using keys by (metis set_map)
  moreover have "mapSet m e = map (\<lambda>x. if fst x = fst e then e else x) m" using True by (simp only: mapSet_def if_True)
  ultimately show ?thesis using True d by (simp only: keys insert_absorb)
next
  case False
  assume d: "distinct (map fst m)"
  have "map_of (m @ [e]) = (map_of m)(fst e \<mapsto> snd e)"
  proof
    fix k
    have "map_of m (fst e) = None" using False by (simp add: map_of_eq_None_iff)
    then show "map_of (m @ [e]) k = ((map_of m)(fst e \<mapsto> snd e)) k"
      by (cases e) (auto simp: map_add_def split: option.split)
  qed
  then show ?thesis using False d by (auto simp: mapSet_def)
qed

lemma latest_props:
  "distinct (map fst (latestEntries es))" "map_of (latestEntries es) = map_of (rev es)" "fst ` set (latestEntries es) = fst ` set es"
proof -
  have "distinct (map fst (foldl mapSet m es)) \<and> map_of (foldl mapSet m es) = map_of m ++ map_of (rev es)
      \<and> fst ` set (foldl mapSet m es) = fst ` set m \<union> fst ` set es" if "distinct (map fst m)" for m
    using that
  proof (induction es arbitrary: m)
    case (Cons e es)
    note m = mapSet_props [OF Cons.prems, of e]
    have "map_of m ++ map_of (rev (e # es)) = (map_of m)(fst e \<mapsto> snd e) ++ map_of (rev es)"
      by (cases e) (auto simp: map_add_def fun_eq_iff split: option.splits)
    with Cons.IH [of "mapSet m e"] m show ?case by (auto simp del: fun_upd_apply)
  qed simp
  from this [of "[]"] show "distinct (map fst (latestEntries es))" "map_of (latestEntries es) = map_of (rev es)"
    "fst ` set (latestEntries es) = fst ` set es"
    by (simp_all add: latestEntries_def)
qed

text \<open>The last entry of a key counts.\<close>

definition written :: "rat \<Rightarrow> write_entry list \<Rightarrow> persisted \<Rightarrow> persisted" where
  "written now es A = (\<lambda>key. case map_of (rev es) key of None \<Rightarrow> A key | Some (v, ttl) \<Rightarrow> Some (expirationFor ttl now, v))"

definition batchOf :: "rat \<Rightarrow> prepared_entry list \<Rightarrow> write_entry list \<Rightarrow> batch" where
  "batchOf now pes latest = map (\<lambda>(pe, key, v, ttl). (pe, expirationFor ttl now, v)) (zip pes latest)"

lemma batchEntries_distinct:
  "distinct (map (\<lambda>w. prepared_key (fst w)) ws) \<Longrightarrow>
     batchEntries ws A = A ++ map_of (map (\<lambda>w. (prepared_key (fst w), snd w)) ws)"
proof (induction ws arbitrary: A)
  case (Cons w ws)
  have eq: "A(prepared_key (fst w) \<mapsto> snd w) ++ map_of (map (\<lambda>w. (prepared_key (fst w), snd w)) ws)
      = A ++ map_of (map (\<lambda>w. (prepared_key (fst w), snd w)) (w # ws))"
  proof -
    have "map_of (map (\<lambda>w. (prepared_key (fst w), snd w)) ws) (prepared_key (fst w)) = None"
      using Cons.prems by (force simp: map_of_eq_None_iff)
    then show ?thesis by (auto simp: fun_eq_iff map_add_def split: option.splits)
  qed
  have "batchEntries ws (A(prepared_key (fst w) \<mapsto> snd w))
      = A(prepared_key (fst w) \<mapsto> snd w) ++ map_of (map (\<lambda>w. (prepared_key (fst w), snd w)) ws)"
    by (rule Cons.IH) (use Cons.prems in simp)
  then show ?case by (simp only: batch_simps eq)
qed simp

lemma batch_prepared:
  assumes Q: "persist_at Q p" and pr: "prepareEntries J Q sid now ids es = Inr pes" and now: "0 \<le> now"
    and ids: "\<And>i. i < length (latestEntries es) \<Longrightarrow> identity_ok (ids i) \<and> ids i \<notin> U"
      "inj_on ids {..<length (latestEntries es)}"
    and st: "\<And>key v ttl. (key, v, ttl) \<in> set es \<Longrightarrow> structured v"
    and ws: "ws = batchOf now pes (latestEntries es)"
  shows "map fst ws = pes" "fresh_batch J Q p sid U ws" "batchEntries ws A = written now es A"
    "batchIds ws = ids ` {..<length (latestEntries es)}"
proof -
  let ?latest = "latestEntries es" let ?n = "length ?latest"
  have all: "list_all2 (\<lambda>i pe. prepareEntry J Q sid now (?latest ! i) (ids i) = Inr pe) [0..<?n] pes"
    using pr by (simp add: prepareEntries_def Let_def mapR_eq_Inr)
  then have len: "length pes = ?n" by (simp add: list_all2_conv_all_nth)
  have pe: "prepared J Q p sid (expirationFor ttl now) v (pes ! i) \<and> prepared_key (pes ! i) = key \<and> prepared_identity (pes ! i) = ids i"
    if "i < ?n" "?latest ! i = (key, v, ttl)" for i key v ttl
  proof -
    have "prepareEntry J Q sid now (key, v, ttl) (ids i) = Inr (pes ! i)" using all that by (auto simp: list_all2_conv_all_nth)
    from prepareEntry_Inr [OF Q this] show ?thesis by simp
  qed
  have lenw: "length ws = ?n" using ws len by (simp add: batchOf_def)
  have nth: "ws ! i = (pes ! i, expirationFor (snd (snd (?latest ! i))) now, fst (snd (?latest ! i)))" if "i < ?n" for i
    using that len ws by (auto simp: batchOf_def split: prod.splits)
  show f: "map fst ws = pes" by (rule nth_equalityI) (use lenw len nth in auto)
  have keys: "map (\<lambda>w. prepared_key (fst w)) ws = map fst ?latest"
    by (rule nth_equalityI) (use lenw nth pe in \<open>auto split: prod.splits, metis prod.collapse fst_conv\<close>)
  have idl: "map (\<lambda>w. prepared_identity (fst w)) ws = map ids [0..<?n]"
    by (rule nth_equalityI) (use lenw nth pe in \<open>auto, metis prod.collapse\<close>)
  show bid: "batchIds ws = ids ` {..<?n}"
    using idl unfolding batchIds_def by (metis atLeast_upt image_set list.set_map lessThan_atLeast0)
  have "distinct (map ids [0..<?n])" using ids(2) by (simp add: distinct_map lessThan_atLeast0)
  moreover have "prepared J Q p sid e v pe \<and> expiry_ok e \<and> structured v \<and> identity_ok (prepared_identity pe) \<and> prepared_identity pe \<notin> U"
    if "(pe, e, v) \<in> set ws" for pe e v
  proof -
    obtain i where i: "i < ?n" "ws ! i = (pe, e, v)" using \<open>(pe, e, v) \<in> set ws\<close> lenw by (metis in_set_conv_nth)
    obtain key v' ttl where l: "?latest ! i = (key, v', ttl)" by (metis prod.collapse)
    have eq: "pe = pes ! i" "e = expirationFor ttl now" "v = v'" using nth [OF i(1)] i(2) l by simp_all
    have "map_of ?latest key = Some (v', ttl)" using l i(1) latest_props(1) [of es] by (metis map_of_is_SomeI nth_mem)
    then have "(key, v', ttl) \<in> set es" using latest_props(2) [of es] by (metis map_of_SomeD set_rev)
    then show ?thesis using pe [OF i(1) l] eq ids(1) [OF i(1)] expirationFor_ok [OF now] st by auto
  qed
  ultimately show "fresh_batch J Q p sid U ws"
    using keys idl latest_props(1) [of es] by (auto simp: fresh_batch_def)
  have "map (\<lambda>w. (prepared_key (fst w), snd w)) ws = map (\<lambda>(key, v, ttl). (key, expirationFor ttl now, v)) ?latest"
    by (rule nth_equalityI) (use lenw nth pe in \<open>auto split: prod.splits\<close>)
  then have "map_of (map (\<lambda>w. (prepared_key (fst w), snd w)) ws) = map_option (\<lambda>(v, ttl). (expirationFor ttl now, v)) \<circ> map_of (rev es)"
    using map_of_map [of "\<lambda>(v, ttl). (expirationFor ttl now, v)" ?latest] latest_props(2) [of es]
    by (simp add: case_prod_unfold)
  then show "batchEntries ws A = written now es A"
    using batchEntries_distinct [of ws A] keys latest_props(1) [of es]
    by (auto simp: written_def map_add_def fun_eq_iff split: option.splits)
qed

section \<open>A write without interference\<close>

lemma mapR_Inl: "mapR f xs = Inl e \<Longrightarrow> \<exists>x \<in> set xs. f x = Inl e"
  by (induction xs) (auto simp: bindR_Inl)

lemma liftTuple_Inl: "liftTuple m \<noteq> Inl StoreEpochChanged"
  by (cases m) (auto simp: liftTuple_def)

lemma prepareEntries_Inl: "prepareEntries J Q sid now ids es \<noteq> Inl StoreEpochChanged"
proof
  assume "prepareEntries J Q sid now ids es = Inl StoreEpochChanged"
  then obtain i where "prepareEntry J Q sid now (latestEntries es ! i) (ids i) = Inl StoreEpochChanged"
    by (auto simp: prepareEntries_def Let_def dest!: mapR_Inl)
  then show False
    by (auto simp: prepareEntry_def Let_def bindR_Inl entryKey_def expiresKey_def garbageKey_def liftTuple_Inl encodeValue_def
        split: prod.splits option.splits dest!: mapR_Inl)
qed

context fdb
begin

lemma writeStageBatch_alone:
  assumes "epoch = None \<or> epoch = Some (tx_get T s ek)"
  shows "writeStageBatch T ek ms epoch s = Inr (tx_get T s ek, setAll T ms s)"
  using assms by (auto simp: writeStageBatch_def equalEpochs_def)

lemma setAll_untouched: "k \<notin> fst ` set ms \<Longrightarrow> tx_get T (setAll T ms s) k = tx_get T s k"
  by (induction ms arbitrary: s) (auto simp: setAll_def get_set)

lemma stageLoop_alone:
  assumes alone: "others E = (\<lambda>_. id)"
  shows "stageLoop T E ek ms (batch, bytes, epoch) (n, s) = (r, n', s') \<Longrightarrow> ek \<notin> fst ` set (batch @ ms) \<Longrightarrow>
    epoch = None \<or> epoch = Some (tx_get T s ek) \<Longrightarrow>
    r = Inl TransactionLimit \<or> (\<exists>batch' epoch'. r = Inr (batch', epoch') \<and> setAll T batch' s' = setAll T (batch @ ms) s
      \<and> set batch' \<subseteq> set (batch @ ms) \<and> (batch @ ms \<noteq> [] \<longrightarrow> batch' \<noteq> []) \<and> tx_get T s' ek = tx_get T s ek
      \<and> (epoch' = None \<or> epoch' = Some (tx_get T s ek)))"
proof (induction ms arbitrary: batch bytes epoch n s)
  case (Cons m ms)
  let ?b = "mutationBytes m"
  show ?case
  proof (cases "batch \<noteq> [] \<and> bytes + ?b > transactionByteBudget")
    case True
    let ?s1 = "setAll T batch s"
    have same: "tx_get T ?s1 ek = tx_get T s ek" using Cons.prems(2) by (intro setAll_untouched) auto
    have st: "stageLoop T E ek (m # ms) (batch, bytes, epoch) (n, s) =
        (if readBytes ek + ?b > transactionByteBudget then (Inl TransactionLimit, Suc n, ?s1)
         else stageLoop T E ek ms ([m], readBytes ek + ?b, Some (tx_get T s ek)) (Suc n, ?s1))"
      using True writeStageBatch_alone [OF Cons.prems(3), of batch]
      by (simp add: Let_def thenRun_def inTransaction_def alone)
    show ?thesis
    proof (cases "readBytes ek + ?b > transactionByteBudget")
      case False
      have r: "stageLoop T E ek ms ([m], readBytes ek + ?b, Some (tx_get T ?s1 ek)) (Suc n, ?s1) = (r, n', s')"
        using st False Cons.prems(1) same by simp
      have k: "ek \<notin> fst ` set ([m] @ ms)" using Cons.prems(2) by auto
      from Cons.IH [OF r k] same show ?thesis by (auto simp: setAll_append)
    qed (use st Cons.prems(1) in simp)
  next
    case False
    show ?thesis
    proof (cases "bytes + ?b > transactionByteBudget")
      case True
      then show ?thesis using False Cons.prems(1) by (simp add: Let_def)
    next
      case small: False
      have r: "stageLoop T E ek ms (batch @ [m], bytes + ?b, epoch) (n, s) = (r, n', s')"
        using Cons.prems(1) False small by (simp add: Let_def)
      have k: "ek \<notin> fst ` set ((batch @ [m]) @ ms)" using Cons.prems(2) by auto
      from Cons.IH [OF r k Cons.prems(3)] show ?thesis by auto
    qed
  qed
qed auto

lemma stageEntries_alone:
  assumes alone: "others E = (\<lambda>_. id)" and st: "stageEntries T E ek pes (n, s) = (r, n', s')"
    and ek: "ek \<notin> fst ` set (concat (map stagingMutations pes))"
  shows "r = Inl TransactionLimit \<or> s' = setAll T (concat (map stagingMutations pes)) s \<and>
    (pes \<noteq> [] \<longrightarrow> r = Inr (Some (tx_get T s' ek))) \<and> (pes = [] \<longrightarrow> r = Inr None)"
proof -
  let ?ms = "concat (map stagingMutations pes)"
  obtain r1 n1 s1 where loop: "stageLoop T E ek ?ms ([], readBytes ek, None) (n, s) = (r1, n1, s1)" by (metis prod.exhaust)
  have l: "r1 = Inl TransactionLimit \<or> (\<exists>batch' epoch'. r1 = Inr (batch', epoch') \<and> setAll T batch' s1 = setAll T ?ms s
      \<and> set batch' \<subseteq> set ?ms \<and> (?ms \<noteq> [] \<longrightarrow> batch' \<noteq> []) \<and> tx_get T s1 ek = tx_get T s ek
      \<and> (epoch' = None \<or> epoch' = Some (tx_get T s ek)))"
    using stageLoop_alone [OF alone loop] ek by simp
  show ?thesis
  proof (cases pes)
    case Nil
    then show ?thesis using st by (auto simp: stageEntries_def thenRun_def setAll_def)
  next
    case (Cons pe pes')
    then have ms: "?ms \<noteq> []" by (simp add: stagingMutations_def)
    from l show ?thesis
    proof
      assume "r1 = Inl TransactionLimit"
      then show ?thesis using st loop by (simp add: stageEntries_def thenRun_def)
    next
      assume "\<exists>batch' epoch'. r1 = Inr (batch', epoch') \<and> setAll T batch' s1 = setAll T ?ms s
        \<and> set batch' \<subseteq> set ?ms \<and> (?ms \<noteq> [] \<longrightarrow> batch' \<noteq> []) \<and> tx_get T s1 ek = tx_get T s ek
        \<and> (epoch' = None \<or> epoch' = Some (tx_get T s ek))"
      then obtain batch' epoch' where b: "r1 = Inr (batch', epoch')" "setAll T batch' s1 = setAll T ?ms s" "set batch' \<subseteq> set ?ms"
        "batch' \<noteq> []" "tx_get T s1 ek = tx_get T s ek" "epoch' = None \<or> epoch' = Some (tx_get T s ek)" using ms by blast
      have "writeStageBatch T ek batch' epoch' s1 = Inr (tx_get T s1 ek, setAll T batch' s1)"
        by (rule writeStageBatch_alone) (use b in auto)
      then have "(r, n', s') = (Inr (Some (tx_get T s1 ek)), Suc n1, setAll T ?ms s)"
        using st loop b(1,2,4) by (simp add: stageEntries_def thenRun_def inTransaction_def alone)
      moreover have "tx_get T (setAll T ?ms s) ek = tx_get T s ek" by (rule setAll_untouched [OF ek])
      ultimately show ?thesis using b(5) Cons by simp
    qed
  qed
qed

lemma staging_keys:
  assumes pr: "prepared J Q p sid e v pe" and Q: "persist_at Q p" and sid: "wellFormed sid" and k: "(k, x) \<in> set (stagingMutations pe)"
  shows "k \<noteq> MK p sid"
proof (cases "k = stagingGarbageKey pe")
  case True
  then show ?thesis using pr sid by (auto simp: prepared_def)
next
  case False
  then have "(k, x) \<in> set (chunkRows (values_sub Q) [Str sid, Str (prepared_identity pe)] (jsonBytes J v))"
    using k pr by (auto simp: stagingMutations_def prepared_def)
  then obtain i where i: "i < chunkCount (jsonBytes J v)" "k = chunkKey (values_sub Q) [Str sid, Str (prepared_identity pe)] i"
    by (auto simp: chunkRows_def)
  have "k = K p ''values'' [Str sid, Str (prepared_identity pe), BigInt (int i)]"
    using Q by (simp add: i(2) chunkKey_def persist_at_def K_append del: encs_simps)
  moreover have "smallInt (int i)" using i(1) pr by (simp add: prepared_def writable_def)
  ultimately show ?thesis using pr sid by (simp add: MK_def prepared_def)
qed

text \<open>A write alone succeeds, or the batch cannot be prepared or is too large.\<close>

lemma writeOnce_alone:
  assumes inv: "persist_inv T J p sid s I A U" and J: "json_laws J" and Q: "persist_at Q p" and alone: "others E = (\<lambda>_. id)"
    and now: "0 \<le> clockAt E n" "\<And>m. clockAt E m = clockAt E n"
    and ids: "\<And>i. i < length (latestEntries es) \<Longrightarrow> identity_ok (uuidAt E n i) \<and> uuidAt E n i \<notin> U"
      "inj_on (uuidAt E n) {..<length (latestEntries es)}"
    and st: "\<And>key v ttl. (key, v, ttl) \<in> set es \<Longrightarrow> structured v"
    and w: "writeOnce T J E Q sid es (n, s) = (r, n', s')"
  shows "r \<noteq> Inl StoreEpochChanged"
    and "r = Inr u \<Longrightarrow> \<exists>I'. persist_inv T J p sid s' I' (written (clockAt E n) es A)
      (U \<union> uuidAt E n ` {..<length (latestEntries es)})"
proof -
  let ?now = "clockAt E n" and ?U = "U \<union> uuidAt E n ` {..<length (latestEntries es)}"
  have "r \<noteq> Inl StoreEpochChanged \<and> (r = Inr () \<longrightarrow> (\<exists>I'. persist_inv T J p sid s' I' (written ?now es A) ?U))"
  proof (cases "prepareEntries J Q sid ?now (uuidAt E n) es")
    case (Inl e)
    then show ?thesis using w prepareEntries_Inl [of J Q sid ?now "uuidAt E n" es] by (auto simp: writeOnce_def)
  next
    case (Inr pes)
    define ws where "ws = batchOf ?now pes (latestEntries es)"
    have b: "map fst ws = pes" "fresh_batch J Q p sid U ws" "batchEntries ws A = written ?now es A"
      "batchIds ws = uuidAt E n ` {..<length (latestEntries es)}"
      by (rule batch_prepared [where U = U, OF Q Inr now(1) _ ids(2) _ ws_def]; (rule ids(1) st; assumption))+
    have sid: "wellFormed sid" by (rule persist_invD(1) [OF inv])
    have ek: "epochKey Q sid = Inr (MK p sid)" using Q sid by (simp add: epochKey_Inr)
    let ?direct = "readBytes (MK p sid) + sum_list (map directByteEstimate pes)"
    let ?staged = "readBytes (MK p sid) + sum_list (map stagedPublicationByteEstimate pes)"
    let ?publish = "\<lambda>epoch st. inTransaction E (publishEntries T J Q sid (MK p sid) pes epoch (clockAt E (fst st))) st"
    have wo: "writeOnce T J E Q sid es (n, s) = (if ?direct \<le> transactionByteBudget then ?publish None (n, s)
        else if ?staged > transactionByteBudget then (Inl TransactionLimit, n, s)
        else thenRun (stageEntries T E (MK p sid) pes) ?publish (n, s))"
      by (simp add: writeOnce_def Inr ek Let_def)
    show ?thesis
    proof (cases "?direct \<le> transactionByteBudget")
      case True
      obtain s1 where "publishEntries T J Q sid (MK p sid) (map fst ws) None ?now s = Inr ((), s1)"
        "persist_inv T J p sid s1 (batchIdentities ws I) (batchEntries ws A) (U \<union> batchIds ws)"
        using publish_direct [OF inv J Q b(2)] .
      then show ?thesis using w wo True b by (auto simp: inTransaction_def alone)
    next
      case False
      show ?thesis
      proof (cases "?staged > transactionByteBudget")
        case True
        then show ?thesis using w wo False by auto
      next
        case small: False
        obtain r1 n1 s1 where stg: "stageEntries T E (MK p sid) pes (n, s) = (r1, n1, s1)" by (metis prod.exhaust)
        have "concat (map stagingMutations (map fst ws)) = batchMutations True ws"
          by (simp add: batchMutations_def entryMutations_def o_def)
        then have ms: "concat (map stagingMutations pes) = batchMutations True ws" by (simp only: b(1))
        from write_batch [OF Q inv b(2) refl, where staged = True]
        have wr: "persist_inv T J p sid (setAll T (batchMutations True ws) s) I A (U \<union> batchIds ws)"
          "\<And>w. w \<in> set ws \<Longrightarrow> publishable T J Q p sid True (setAll T (batchMutations True ws) s) I (U \<union> batchIds ws) w
             \<and> tx_get T (setAll T (batchMutations True ws) s) (stagingGarbageKey (fst w)) \<noteq> None"
          by auto
        have "MK p sid \<notin> fst ` set (batchMutations True ws)"
        proof
          assume "MK p sid \<in> fst ` set (batchMutations True ws)"
          then obtain pe e v x where pe: "(pe, e, v) \<in> set ws" "(MK p sid, x) \<in> set (stagingMutations pe)"
            by (auto simp: batchMutations_def entryMutations_def)
          have "prepared J Q p sid e v pe" using b(2) pe(1) by (auto simp: fresh_batch_def)
          from staging_keys [OF this Q sid pe(2)] show False by simp
        qed
        from stageEntries_alone [OF alone stg] this ms
        consider "r1 = Inl TransactionLimit" | "pes \<noteq> []" "r1 = Inr (Some (tx_get T s1 (MK p sid)))" "s1 = setAll T (batchMutations True ws) s"
          | "pes = []" "r1 = Inr None" "s1 = s"
          by (auto simp: setAll_def)
        then show ?thesis
        proof cases
          case 1
          then show ?thesis using w wo False small stg by (auto simp: thenRun_def)
        next
          case 2
          have d: "distinct (map (\<lambda>w. prepared_key (fst w)) ws)" "distinct (map (\<lambda>w. prepared_identity (fst w)) ws)"
            using b(2) by (simp_all add: fresh_batch_def)
          obtain s2 where s2: "publishEntries T J Q sid (MK p sid) (map fst ws) (Some (tx_get T s1 (MK p sid))) ?now s1 = Inr ((), s2)"
            "persist_inv T J p sid s2 (batchIdentities ws I) (batchEntries ws A) (U \<union> batchIds ws)"
            by (rule publish_staged [OF wr(1) J Q wr(2) d, folded 2(3)])
          have "writeOnce T J E Q sid es (n, s) = (Inr (), Suc n1, s2)"
            using wo False small stg 2(2) s2(1) b(1) now(2) [of n1] by (simp add: thenRun_def inTransaction_def alone)
          then show ?thesis using w s2(2) b(3,4) by auto
        next
          case 3
          then show ?thesis using False small by (simp add: transactionByteBudget_def readBytes_def)
        qed
      qed
    qed
  qed
  then show "r \<noteq> Inl StoreEpochChanged" "r = Inr u \<Longrightarrow> \<exists>I'. persist_inv T J p sid s' I' (written ?now es A) ?U" by auto
qed

lemma writeEntries_alone:
  assumes "persist_inv T J p sid s I A U" "json_laws J" "persist_at Q p" "others E = (\<lambda>_. id)"
    and "0 \<le> clockAt E n" "\<And>m. clockAt E m = clockAt E n"
    and "\<And>i. i < length (latestEntries es) \<Longrightarrow> identity_ok (uuidAt E n i) \<and> uuidAt E n i \<notin> U"
      "inj_on (uuidAt E n) {..<length (latestEntries es)}"
    and "\<And>key v ttl. (key, v, ttl) \<in> set es \<Longrightarrow> structured v"
  shows "writeEntries T J E Q sid es (n, s) = Some (writeOnce T J E Q sid es (n, s))"
proof -
  obtain r n' s' where w: "writeOnce T J E Q sid es (n, s) = (r, n', s')" by (metis prod.exhaust)
  have "r \<noteq> Inl StoreEpochChanged" by (rule writeOnce_alone(1) [OF assms w])
  then show ?thesis using w by (subst writeEntries.simps) simp
qed

end

end
