(* ===== verification/Persistence_Properties.thy ===== *)
theory Persistence_Properties
  imports Persistence_History
begin

text \<open>
  What the backing persistence guarantees: through any history of operations a store is a map whose entries disappear
  when they expire, and the cleanup ends with everything that has expired removed.
\<close>

section \<open>Histories\<close>

text \<open>An operation of a client, with the identities that a write draws.\<close>

datatype persist_op =
    Write "write_entry list" "nat \<Rightarrow> js_string"
  | Get js_string
  | GetMany "js_string list"
  | Remove js_string
  | Clear js_string
  | CleanupBatch

definition quiet :: "rat \<Rightarrow> (nat \<Rightarrow> js_string) \<Rightarrow> 's surroundings" where
  "quiet now ids = \<lparr>others = \<lambda>_. id, clockAt = \<lambda>_. now, uuidAt = \<lambda>_. ids\<rparr>"

text \<open>The state after an operation at a time; a write that does not end is \<open>None\<close>.\<close>

fun persist_do ::
    "'s txn \<Rightarrow> json_text \<Rightarrow> persistence_keys \<Rightarrow> js_string \<Rightarrow> rat \<Rightarrow> persist_op \<Rightarrow> 's \<Rightarrow> (persist_error + 's) option" where
  "persist_do T J Q sid now (Write es ids) s =
     map_option (\<lambda>(r, _, s'). case r of Inl e \<Rightarrow> Inl e | Inr _ \<Rightarrow> Inr s') (persist_setMany T J (quiet now ids) Q sid es (0, s))"
| "persist_do T J Q sid now (Get key) s = Some (bindR (persist_get T J Q sid key now s) (\<lambda>(_, s'). Inr s'))"
| "persist_do T J Q sid now (GetMany keys) s = Some (bindR (persist_getMany T J Q sid keys now s) (\<lambda>(_, s'). Inr s'))"
| "persist_do T J Q sid now (Remove key) s = Some (persist_remove T J Q sid key s)"
| "persist_do T J Q sid now (Clear epoch) s = Some (persist_clear T Q sid epoch s)"
| "persist_do T J Q sid now CleanupBatch s = Some (bindR (cleanupBatch T J Q sid now s) (\<lambda>(_, s'). Inr s'))"

fun persist_run ::
    "'s txn \<Rightarrow> json_text \<Rightarrow> persistence_keys \<Rightarrow> js_string \<Rightarrow> (rat \<times> persist_op) list \<Rightarrow> 's \<Rightarrow> (persist_error + 's) option" where
  "persist_run T J Q sid [] s = Some (Inr s)"
| "persist_run T J Q sid ((now, x) # h) s = Option.bind (persist_do T J Q sid now x s) (\<lambda>r. case r of
     Inl e \<Rightarrow> Some (Inl e) | Inr s \<Rightarrow> persist_run T J Q sid h s)"

text \<open>The map that the operations build.\<close>

fun persist_spec :: "(rat \<times> persist_op) list \<Rightarrow> persisted \<Rightarrow> persisted" where
  "persist_spec [] A = A"
| "persist_spec ((now, Write es ids) # h) A = persist_spec h (written now es A)"
| "persist_spec ((now, Remove key) # h) A = persist_spec h (A(key := None))"
| "persist_spec ((now, Clear epoch) # h) A = persist_spec h Map.empty"
| "persist_spec ((now, _) # h) A = persist_spec h A"

fun drawn :: "persist_op \<Rightarrow> js_string list" where
  "drawn (Write es ids) = map ids [0..<length (latestEntries es)]"
| "drawn _ = []"

fun op_ok :: "persist_op \<Rightarrow> bool" where
  "op_ok (Write es ids) = list_all (\<lambda>(key, v, ttl). structured v) es"
| "op_ok (Get key) = wellFormed key"
| "op_ok (GetMany keys) = list_all wellFormed keys"
| "op_ok (Remove key) = wellFormed key"
| "op_ok _ = True"

definition history_ok :: "(rat \<times> persist_op) list \<Rightarrow> bool" where
  "history_ok h \<longleftrightarrow> sorted (map fst h) \<and> list_all (\<lambda>(now, x). 0 \<le> now \<and> op_ok x) h
     \<and> distinct (concat (map (drawn \<circ> snd) h)) \<and> list_all (\<lambda>(now, x). list_all identity_ok (drawn x)) h"

text \<open>The store holds at least what can be seen from \<open>now\<close> on.\<close>

definition stored :: "'s txn \<Rightarrow> json_text \<Rightarrow> bytes \<Rightarrow> js_string \<Rightarrow> 's \<Rightarrow> rat \<Rightarrow> persisted \<Rightarrow> js_string set \<Rightarrow> bool" where
  "stored T J p sid s now A U \<longleftrightarrow> (\<exists>I C. persist_inv T J p sid s I C U \<and> (\<forall>t \<ge> now. visible C t = visible A t))"

lemma visible_written: "visible C t = visible A t \<Longrightarrow> visible (written now es C) t = visible (written now es A) t"
proof
  fix key assume "visible C t = visible A t"
  then have "visible C t key = visible A t key" by simp
  then show "visible (written now es C) t key = visible (written now es A) t key"
    by (auto simp: visible_def due_def written_def split: option.splits if_splits)
qed

lemma visible_remove: "visible C t = visible A t \<Longrightarrow> visible (C(key := None)) t = visible (A(key := None)) t"
proof
  fix x assume "visible C t = visible A t"
  then have "visible C t x = visible A t x" by simp
  then show "visible (C(key := None)) t x = visible (A(key := None)) t x"
    by (auto simp: visible_def due_def split: option.splits if_splits)
qed

lemma restrict_one: "f |` (- {key}) = f(key := None)"
  by (auto simp: restrict_map_def)

context fdb
begin

lemma stored_removed:
  "persist_inv T J p sid s' (I |` (- D)) (C |` (- D)) U \<Longrightarrow> D \<subseteq> due C now \<Longrightarrow> (\<forall>t \<ge> now. visible C t = visible A t) \<Longrightarrow>
    stored T J p sid s' now A U"
  unfolding stored_def
  by (rule exI [of _ "I |` (- D)"], rule exI [of _ "C |` (- D)"]) (auto simp: fun_eq_iff visible_restrict)

lemma stored_later: "stored T J p sid s now A U \<Longrightarrow> now \<le> later \<Longrightarrow> stored T J p sid s later A U"
  unfolding stored_def by (meson order_trans)

lemma persist_do_stored:
  assumes st: "stored T J p sid s now A U" and J: "json_laws J" and Q: "persist_at Q p" and ok: "op_ok x" "0 \<le> now"
    and new: "distinct (drawn x)" "list_all identity_ok (drawn x)" "set (drawn x) \<inter> U = {}"
  shows "persist_do T J Q sid now x s = Some (Inr s') \<Longrightarrow> stored T J p sid s' now (persist_spec [(now, x)] A) (U \<union> set (drawn x))"
    and "(\<And>es ids. x \<noteq> Write es ids) \<Longrightarrow> \<exists>s'. persist_do T J Q sid now x s = Some (Inr s')"
    and "persist_do T J Q sid now x s \<noteq> None"
proof -
  obtain I C where inv: "persist_inv T J p sid s I C U" and vis: "\<forall>t \<ge> now. visible C t = visible A t"
    using st by (auto simp: stored_def)
  have "(persist_do T J Q sid now x s = Some (Inr s') \<longrightarrow> stored T J p sid s' now (persist_spec [(now, x)] A) (U \<union> set (drawn x)))
    \<and> ((\<forall>es ids. x \<noteq> Write es ids) \<longrightarrow> (\<exists>s'. persist_do T J Q sid now x s = Some (Inr s'))) \<and> persist_do T J Q sid now x s \<noteq> None"
  proof (cases x)
    case (Get key)
    have key: "wellFormed key" using ok(1) Get by simp
    obtain s1 D where r: "persist_get T J Q sid key now s = Inr (visible C now key, s1)" "D \<subseteq> due C now"
      "persist_inv T J p sid s1 (I |` (- D)) (C |` (- D)) U"
      by (rule persist_get_at [OF inv J Q key])
    then show ?thesis using Get stored_removed [OF r(3,2) vis] by auto
  next
    case (GetMany keys)
    have keys: "wellFormed key" if "key \<in> set keys" for key using ok(1) GetMany that by (simp add: list_all_iff)
    obtain s1 D where r: "persist_getMany T J Q sid keys now s = Inr (map (visible C now) keys, s1)" "D \<subseteq> due C now"
      "persist_inv T J p sid s1 (I |` (- D)) (C |` (- D)) U"
      by (rule persist_getMany_at [OF inv J Q keys])
    then show ?thesis using GetMany stored_removed [OF r(3,2) vis] by auto
  next
    case (Remove key)
    have key: "wellFormed key" using ok(1) Remove by simp
    obtain s1 where r: "persist_remove T J Q sid key s = Inr s1" "persist_inv T J p sid s1 (I |` (- {key})) (C |` (- {key})) U"
      by (rule persist_remove_at [OF inv J Q key])
    have "stored T J p sid s1 now (A(key := None)) U"
      unfolding stored_def using r(2) vis visible_remove unfolding restrict_one by metis
    then show ?thesis using Remove r(1) by auto
  next
    case (Clear epoch)
    obtain s1 where r: "persist_clear T Q sid epoch s = Inr s1" "persist_inv T J p sid s1 Map.empty Map.empty U"
      using persist_clear_at [OF inv Q] by blast
    then have "stored T J p sid s1 now Map.empty U" unfolding stored_def by blast
    then show ?thesis using Clear r(1) by auto
  next
    case CleanupBatch
    obtain s1 D c where r: "cleanupBatch T J Q sid now s = Inr (c, s1)" "D \<subseteq> due C now"
      "persist_inv T J p sid s1 (I |` (- D)) (C |` (- D)) U"
      by (rule cleanupBatch_at [OF inv J Q ok(2) refl refl]) (rule that)
    then show ?thesis using CleanupBatch stored_removed [OF r(3,2) vis] by auto
  next
    case (Write es ids)
    let ?E = "quiet now ids" and ?n = "length (latestEntries es)"
    have E: "others ?E = (\<lambda>_. id)" "0 \<le> clockAt ?E 0" "\<And>m. clockAt ?E m = clockAt ?E 0"
      using ok(2) by (simp_all add: quiet_def)
    have ids: "\<And>i. i < ?n \<Longrightarrow> identity_ok (uuidAt ?E 0 i) \<and> uuidAt ?E 0 i \<notin> U" "inj_on (uuidAt ?E 0) {..<?n}"
      using new Write by (auto simp: quiet_def list_all_iff distinct_map lessThan_atLeast0 disjoint_iff)
    have str: "\<And>key v ttl. (key, v, ttl) \<in> set es \<Longrightarrow> structured v" using ok(1) Write by (auto simp: list_all_iff)
    obtain r n1 s1 where w: "writeOnce T J ?E Q sid es (0, s) = (r, n1, s1)" by (metis prod.exhaust)
    have we: "writeEntries T J ?E Q sid es (0, s) = Some (r, n1, s1)"
      using writeEntries_alone [OF inv J Q E ids str] w by simp
    have one: "writeOnce T J ?E Q sid es (0, s) = (r, n1, s1) \<Longrightarrow> r = Inr () \<Longrightarrow>
        \<exists>I'. persist_inv T J p sid s1 I' (written now es C) (U \<union> ids ` {..<?n})"
      using writeOnce_alone(2) [OF inv J Q E ids str, where u = "()"] by (simp add: quiet_def)
    have "stored T J p sid s1 now (written now es A) (U \<union> ids ` {..<?n})" if "r = Inr ()"
      using one [OF w that] vis visible_written unfolding stored_def by metis
    moreover have "set (drawn x) = ids ` {..<?n}" using Write by (simp add: lessThan_atLeast0)
    ultimately show ?thesis using Write we
      by (auto simp: persist_setMany_def persistenceError_def split: sum.splits persist_error.splits)
  qed
  then show "persist_do T J Q sid now x s = Some (Inr s') \<Longrightarrow> stored T J p sid s' now (persist_spec [(now, x)] A) (U \<union> set (drawn x))"
    and "(\<And>es ids. x \<noteq> Write es ids) \<Longrightarrow> \<exists>s'. persist_do T J Q sid now x s = Some (Inr s')"
    and "persist_do T J Q sid now x s \<noteq> None" by auto
qed

lemma persist_spec_Cons: "persist_spec ((now, x) # h) A = persist_spec h (persist_spec [(now, x)] A)"
  by (cases x) simp_all

lemma persist_run_stored:
  assumes J: "json_laws J" and Q: "persist_at Q p"
  shows "stored T J p sid s now A U \<Longrightarrow> history_ok h \<Longrightarrow> (\<forall>x \<in> set h. now \<le> fst x) \<Longrightarrow> set (concat (map (drawn \<circ> snd) h)) \<inter> U = {} \<Longrightarrow>
    persist_run T J Q sid h s = Some (Inr s') \<Longrightarrow> (\<forall>x \<in> set h. fst x \<le> t) \<Longrightarrow> now \<le> t \<Longrightarrow>
    stored T J p sid s' t (persist_spec h A) (U \<union> set (concat (map (drawn \<circ> snd) h)))"
proof (induction h arbitrary: s now A U)
  case Nil
  then show ?case using stored_later by fastforce
next
  case (Cons nx h)
  obtain at0 x where x: "nx = (at0, x)" by (cases nx)
  have at0: "now \<le> at0" "0 \<le> at0" "op_ok x" using Cons.prems(2,3) x by (auto simp: history_ok_def)
  have ids: "distinct (drawn x)" "list_all identity_ok (drawn x)" "set (drawn x) \<inter> U = {}"
    using Cons.prems(2,4) x by (auto simp: history_ok_def)
  obtain s1 where s1: "persist_do T J Q sid at0 x s = Some (Inr s1)" "persist_run T J Q sid h s1 = Some (Inr s')"
  proof -
    obtain r where r: "persist_do T J Q sid at0 x s = Some r" using Cons.prems(5) x by (cases "persist_do T J Q sid at0 x s") auto
    then obtain s1 where "r = Inr s1" using Cons.prems(5) x by (cases r) auto
    with r Cons.prems(5) x that show thesis by auto
  qed
  have st: "stored T J p sid s1 at0 (persist_spec [(at0, x)] A) (U \<union> set (drawn x))"
    by (rule persist_do_stored(1) [OF stored_later [OF Cons.prems(1) at0(1)] J Q at0(3,2) ids s1(1)])
  have ok: "history_ok h" and later: "\<forall>y \<in> set h. at0 \<le> fst y" using Cons.prems(2) x by (auto simp: history_ok_def)
  have "set (concat (map (drawn \<circ> snd) h)) \<inter> (U \<union> set (drawn x)) = {}"
    using Cons.prems(2,4) x by (auto simp: history_ok_def)
  from Cons.IH [OF st ok later this s1(2)] Cons.prems(6) x show ?case
    by (simp add: persist_spec_Cons [of at0 x h] Un_assoc)
qed

lemma empty_store_inv:
  assumes "wellFormed sid" and "\<And>k. prefix p k \<Longrightarrow> tx_get T s k = None"
  shows "persist_inv T J p sid s Map.empty Map.empty {}"
proof -
  have "prefix p (EK p sid key)" for key by (simp add: EK_def)
  moreover have "prefix p k" if "inRange p n r k" for n r k using that by (rule inRange_prefix)
  ultimately show ?thesis
    using assms by (auto simp: persist_inv_def entry_rows_def entry_values_def unused_rows_def garbage_rows_def expires_rows_def)
qed

end

section \<open>A small write succeeds\<close>

lemma encInt_length: "smallInt n \<Longrightarrow> length (encInt n) \<le> 300"
  by (auto simp: smallInt_def encInt_def Let_def intHeader_def abs_if)

lemma index_key_length: "smallInt n \<Longrightarrow> length (K p name [x, BigInt n, y]) \<le> length (K p name [x]) + 300 + length (enc False y)"
  using encInt_length [of n] by (simp add: K_def)

context fdb
begin

lemma small_entry:
  assumes Q: "persist_at Q p" and ok: "wellFormed sid" "wellFormed key" "wellFormed i" "stringify J v \<noteq> None"
    and len: "length (jsonBytes J v) \<le> 1000" "length (EK p sid key) \<le> 1000" "length (text_encode i) \<le> 1000"
      "length (encodeManifest J \<lparr>manifest_identity = i, manifest_expires = expirationFor ttl now\<rparr>) \<le> 1000"
      "length (K p ''expires'' [Str sid]) \<le> 1000" "length (K p ''garbage'' [Str sid]) \<le> 1000"
      "length (enc False (Str key)) \<le> 1000" "length (enc False (Str i)) \<le> 1000" "length (K p ''values'' [Str sid, Str i]) \<le> 1000"
      "length (MK p sid) \<le> 1000"
  obtains pe where "prepareEntry J Q sid now (key, v, ttl) i = Inr pe" "directByteEstimate pe \<le> 100000"
proof -
  let ?b = "jsonBytes J v" and ?e = "expirationFor ttl now"
  have one: "splitChunkedValue ?b = [?b]"
  proof -
    have "chunkCount ?b = 1"
    proof -
      have "rat_of_nat (length ?b) / rat_of_nat chunkSize \<le> 1" using len(1) by (simp add: chunkSize_def)
      then have "nat \<lceil>rat_of_nat (length ?b) / rat_of_nat chunkSize\<rceil> \<le> 1" by linarith
      moreover have "chunkCount ?b = max 1 (nat \<lceil>rat_of_nat (length ?b) / rat_of_nat chunkSize\<rceil>)"
        by (simp add: chunkCount_def splitChunkedValue_def Let_def)
      ultimately show ?thesis by linarith
    qed
    then obtain c where "splitChunkedValue ?b = [c]" by (auto simp: chunkCount_def length_Suc_conv)
    then show ?thesis using concat_split [of ?b] by simp
  qed
  have xk: "length (XK p sid (timestamp t) key) \<le> 2300" for t
    using index_key_length [of "timestamp t" p "''expires''" "Str sid" "Str key"] len by (simp add: XK_def)
  have gk: "length (GK p sid (timestamp t) i) \<le> 2300" for t
    using index_key_length [of "timestamp t" p "''garbage''" "Str sid" "Str i"] len by (simp add: GK_def)
  have vk: "length (K p ''values'' [Str sid, Str i, BigInt 0]) \<le> 1300"
    using encInt_length [of 0] smallInt_few(1) len(9) by (simp add: K_def)
  have vpack: "subspace_pack (values_sub Q) [Str sid, Str i, BigInt 0] = Inr (K p ''values'' [Str sid, Str i, BigInt 0])"
    using Q ok smallInt_few(1) by (simp add: persist_at_def pack_at)
  have keys: "entryKey Q sid key = Inr (EK p sid key)" "\<And>t. expiresKey Q sid t key = Inr (XK p sid (timestamp t) key)"
    "\<And>t. garbageKey Q sid t i = Inr (GK p sid (timestamp t) i)"
    using Q ok by (simp_all add: entryKey_Inr expiresKey_Inr garbageKey_Inr)
  show thesis
  proof (cases ?e)
    case None
    show thesis
      by (rule that, simp add: prepareEntry_def Let_def keys encodeValue_Inr [of J key v, THEN iffD2] ok one None vpack)
        (use xk [of "of_int maxSafeInteger"] gk [of "of_int maxSafeInteger"] vk len None in
          \<open>simp add: readBytes_def mutationBytes_def clearBytes_def operationByteOverhead_def\<close>)
  next
    case (Some t)
    show thesis
      by (rule that, simp add: prepareEntry_def Let_def keys encodeValue_Inr [of J key v, THEN iffD2] ok one Some vpack)
        (use xk [of "of_int maxSafeInteger"] xk [of t] gk [of "of_int maxSafeInteger"] vk len Some in
          \<open>simp add: readBytes_def mutationBytes_def clearBytes_def operationByteOverhead_def\<close>)
  qed
qed

lemma small_write:
  assumes Q: "persist_at Q p" and ok: "wellFormed sid" "wellFormed key" "wellFormed i" "stringify J v \<noteq> None"
    and len: "length (jsonBytes J v) \<le> 1000" "length (EK p sid key) \<le> 1000" "length (text_encode i) \<le> 1000"
      "length (encodeManifest J \<lparr>manifest_identity = i, manifest_expires = expirationFor ttl now\<rparr>) \<le> 1000"
      "length (K p ''expires'' [Str sid]) \<le> 1000" "length (K p ''garbage'' [Str sid]) \<le> 1000"
      "length (enc False (Str key)) \<le> 1000" "length (enc False (Str i)) \<le> 1000" "length (K p ''values'' [Str sid, Str i]) \<le> 1000"
      "length (MK p sid) \<le> 1000"
    and inv: "persist_inv T J p sid s I A U" and J: "json_laws J" and new: "identity_ok i" "i \<notin> U" and v: "structured v" and now: "0 \<le> now"
  shows "\<exists>s'. persist_do T J Q sid now (Write [(key, v, ttl)] (\<lambda>_. i)) s = Some (Inr s')"
proof -
  let ?e = "expirationFor ttl now"
  obtain pe where pe: "prepareEntry J Q sid now (key, v, ttl) i = Inr pe" "directByteEstimate pe \<le> 100000"
    by (rule small_entry [OF Q ok len])
  have ek: "epochKey Q sid = Inr (MK p sid)" using Q ok by (simp add: epochKey_Inr)
  have latest: "latestEntries [(key, v, ttl)] = [(key, v, ttl)]" by (simp add: latestEntries_def mapSet_def)
  have prep: "prepareEntries J Q sid now (\<lambda>_. i) [(key, v, ttl)] = Inr [pe]" using pe(1) by (simp add: prepareEntries_def latest)
  have ws: "fresh_batch J Q p sid U [(pe, ?e, v)]" "map fst [(pe, ?e, v)] = [pe]"
    using prepareEntry_Inr [OF Q pe(1)] expirationFor_ok [OF now] new v by (simp_all add: fresh_batch_def)
  obtain s' where p: "publishEntries T J Q sid (MK p sid) [pe] None now s = Inr ((), s')"
    using publish_direct [OF inv J Q ws(1), of "MK p sid" now] unfolding ws(2) by blast
  have "writeOnce T J (quiet now (\<lambda>_. i)) Q sid [(key, v, ttl)] (0, s) = (Inr (), Suc 0, s')"
    using pe(2) len(10) p prep ek
    by (simp add: writeOnce_def quiet_def inTransaction_def transactionByteBudget_def readBytes_def operationByteOverhead_def)
  then have "writeEntries T J (quiet now (\<lambda>_. i)) Q sid [(key, v, ttl)] (0, s) = Some (Inr (), Suc 0, s')"
    by (subst writeEntries.simps) simp
  then show ?thesis by (simp add: persist_setMany_def persistenceError_def)
qed

end

section \<open>The properties\<close>

lemma persist_from_empty:
  assumes "fdb T" "json_laws J" "persist_at Q p" "wellFormed sid" "\<forall>k. prefix p k \<longrightarrow> tx_get T s k = None"
    and h: "history_ok h" and run: "persist_run T J Q sid h s = Some (Inr s')" and t: "\<forall>x \<in> set h. fst x \<le> t" "0 \<le> t"
  shows "stored T J p sid s' t (persist_spec h Map.empty) (set (concat (map (drawn \<circ> snd) h)))"
proof -
  have "persist_inv T J p sid s Map.empty Map.empty {}"
    by (rule fdb.empty_store_inv [OF assms(1,4)]) (use assms(5) in blast)
  then have "stored T J p sid s 0 Map.empty {}" unfolding stored_def by blast
  moreover have "\<forall>x \<in> set h. 0 \<le> fst x" using h by (auto simp: history_ok_def list_all_iff)
  ultimately show ?thesis
    using fdb.persist_run_stored [OF assms(1-3) _ h _ _ run t] by fastforce
qed

lemma persist_history:
  assumes "fdb T" "json_laws J" "persist_at Q p" "wellFormed sid" "\<forall>k. prefix p k \<longrightarrow> tx_get T s k = None"
    and "history_ok h" "persist_run T J Q sid h s = Some (Inr s')" "\<forall>x \<in> set h. fst x \<le> t" "0 \<le> t"
  obtains I C U where "persist_inv T J p sid s' I C U" "\<forall>t' \<ge> t. visible C t' = visible (persist_spec h Map.empty) t'"
  using persist_from_empty [OF assms] unfolding stored_def by blast

text \<open>C21. Whatever the history of writes, reads, removals, clears and cleanups of a store, with times that do not go
  back, a read at a later time finds what a map of values with expiries says: the last value written under the key, if it was
  not removed and has not expired.
\<close>

theorem persistence_is_an_expiring_map:
  assumes "fdb T" "json_laws J" "persist_at Q p" "wellFormed sid" "\<forall>k. prefix p k \<longrightarrow> tx_get T s k = None"
    and "history_ok h" "persist_run T J Q sid h s = Some (Inr s')" "\<forall>x \<in> set h. fst x \<le> t" "0 \<le> t" "wellFormed key"
  shows "\<exists>s''. persist_get T J Q sid key t s' = Inr (visible (persist_spec h Map.empty) t key, s'')"
proof -
  obtain I C U where inv: "persist_inv T J p sid s' I C U" and vis: "\<forall>t' \<ge> t. visible C t' = visible (persist_spec h Map.empty) t'"
    by (rule persist_history [OF assms(1-9)])
  obtain s'' D where "persist_get T J Q sid key t s' = Inr (visible C t key, s'')"
    by (rule fdb.persist_get_at [OF assms(1) inv assms(2,3,10)])
  then show ?thesis using vis by auto
qed

text \<open>The shape of the rows of a store.\<close>

definition rows_typed :: "'s txn \<Rightarrow> json_text \<Rightarrow> bytes \<Rightarrow> js_string \<Rightarrow> 's \<Rightarrow> bool" where
  "rows_typed T J p sid s \<longleftrightarrow>
     (\<forall>key b. wellFormed key \<longrightarrow> tx_get T s (EK p sid key) = Some b \<longrightarrow>
        (\<exists>m. decodeManifest J key b = Inr m \<and> expiry_ok (manifest_expires m)
           \<and> (\<exists>v. structured v \<and> valueAt T s (VK p sid (manifest_identity m)) = Some (jsonBytes J v))))
     \<and> (\<forall>k b. inRange p ''expires'' [Str sid] k \<longrightarrow> tx_get T s k = Some b \<longrightarrow>
        (\<exists>n key i. k = XK p sid n key \<and> wellFormed key \<and> strictText b = Some i))
     \<and> (\<forall>k b. inRange p ''garbage'' [Str sid] k \<longrightarrow> tx_get T s k = Some b \<longrightarrow> (\<exists>n i. k = GK p sid n i \<and> wellFormed i))"

lemma inv_typed:
  assumes T: "fdb T" and J: "json_laws J" and inv: "persist_inv T J p sid s I A U"
  shows "rows_typed T J p sid s"
  unfolding rows_typed_def
proof (intro conjI allI impI)
  fix key b assume key: "wellFormed key" "tx_get T s (EK p sid key) = Some b"
  then have a: "A key \<noteq> None" and b: "b = encodeManifest J (manifestOfEntry I A key)"
    using fdb.encoded_entry [OF T inv key(1)] by (auto split: if_splits)
  obtain e v where ev: "A key = Some (e, v)" using a by auto
  obtain i where i: "I key = Some i" "entry_value T J p sid s U key i e v" using persist_entry [OF inv ev] .
  have "manifest_expires (manifestOfEntry I A key) = e" "manifest_identity (manifestOfEntry I A key) = i"
    using ev i(1) by (simp_all add: manifestOfEntry_def)
  then show "\<exists>m. decodeManifest J key b = Inr m \<and> expiry_ok (manifest_expires m)
      \<and> (\<exists>v. structured v \<and> valueAt T s (VK p sid (manifest_identity m)) = Some (jsonBytes J v))"
    using fdb.decode_entry [OF T inv J a, of key] b entry_valueD(2,3,9) [OF i(2)] by (intro exI [of _ "manifestOfEntry I A key"]) auto
next
  fix k b assume "inRange p ''expires'' [Str sid] k" "tx_get T s k = Some b"
  then obtain n key i where "k = XK p sid n key" "wellFormed key" "identity_ok i" "b = text_encode i"
    using persist_invD(8) [OF inv] unfolding expires_rows_def by blast
  then show "\<exists>n key i. k = XK p sid n key \<and> wellFormed key \<and> strictText b = Some i"
    using strictText_identity by blast
next
  fix k b assume "inRange p ''garbage'' [Str sid] k" "tx_get T s k = Some b"
  then show "\<exists>n i. k = GK p sid n i \<and> wellFormed i"
    using persist_invD(7) [OF inv] unfolding garbage_rows_def identity_ok_def by blast
qed

text \<open>C24. After any history the rows of a store are typed: every entry is a manifest whose value is there and complete,
  and the two indexes hold rows of the form that the cleanup expects. So every operation ends, and a read,
  a removal, a clear or a cleanup never fails with an invalid or incomplete row.
\<close>

theorem persistence_rows_are_typed:
  assumes "fdb T" "json_laws J" "persist_at Q p" "wellFormed sid" "\<forall>k. prefix p k \<longrightarrow> tx_get T s k = None"
    and "history_ok (h @ [(t, x)])" "persist_run T J Q sid h s = Some (Inr s')"
  shows "rows_typed T J p sid s' \<and> persist_do T J Q sid t x s' \<noteq> None
    \<and> ((\<forall>es ids. x \<noteq> Write es ids) \<longrightarrow> (\<exists>s''. persist_do T J Q sid t x s' = Some (Inr s'')))"
proof -
  let ?U = "set (concat (map (drawn \<circ> snd) h))"
  have h: "history_ok h" and le: "\<forall>y \<in> set h. fst y \<le> t" and t: "0 \<le> t" "op_ok x" "distinct (drawn x)" "list_all identity_ok (drawn x)"
    and new: "set (drawn x) \<inter> ?U = {}"
    using assms(6) by (auto simp: history_ok_def sorted_append)
  have st: "stored T J p sid s' t (persist_spec h Map.empty) ?U"
    by (rule persist_from_empty [OF assms(1-5) h assms(7) le t(1)])
  then obtain I C where inv: "persist_inv T J p sid s' I C ?U" unfolding stored_def by blast
  note step = fdb.persist_do_stored [OF assms(1) st assms(2,3) t(2,1,3,4) new]
  show ?thesis using inv_typed [OF assms(1,2) inv] step(2,3) by blast
qed

text \<open>C25. The loop of the cleanup ends, whatever the number of rows, and when it does no entry that has expired is left
  in the store.
\<close>

theorem persistence_cleanup_ends:
  assumes "fdb T" "json_laws J" "persist_at Q p" "wellFormed sid" "\<forall>k. prefix p k \<longrightarrow> tx_get T s k = None"
    and "history_ok h" "persist_run T J Q sid h s = Some (Inr s')" "\<forall>x \<in> set h. fst x \<le> clockAt E 0"
    and "others E = (\<lambda>_. id)" "\<forall>n. 0 \<le> clockAt E n" "\<forall>m n. m \<le> n \<longrightarrow> clockAt E m \<le> clockAt E n"
  shows "\<exists>m s''. cleanupStore T J E Q sid (0, s') = Some (Inr (), Suc m, s'')
    \<and> (\<forall>key. wellFormed key \<longrightarrow> (tx_get T s'' (EK p sid key) \<noteq> None \<longleftrightarrow> visible (persist_spec h Map.empty) (clockAt E m) key \<noteq> None))"
proof -
  have t0: "0 \<le> clockAt E 0" using assms(10) by blast
  obtain I C U where inv: "persist_inv T J p sid s' I C U"
    and vis: "\<forall>t' \<ge> clockAt E 0. visible C t' = visible (persist_spec h Map.empty) t'"
    using persist_history [OF assms(1-8) t0] by blast
  obtain m s'' where c: "cleanupStore T J E Q sid (0, s') = Some (Inr (), Suc m, s'')"
    "persist_inv T J p sid s'' (I |` (- due C (clockAt E m))) (C |` (- due C (clockAt E m))) U"
    using fdb.cleanupStore_ends [OF assms(1-3,9) _ _ inv, of 0] assms(10,11) by blast
  have "tx_get T s'' (EK p sid key) \<noteq> None \<longleftrightarrow> visible (persist_spec h Map.empty) (clockAt E m) key \<noteq> None" if key: "wellFormed key" for key
  proof -
    have "tx_get T s'' (EK p sid key) \<noteq> None \<longleftrightarrow> (C |` (- due C (clockAt E m))) key \<noteq> None"
      using fdb.encoded_entry [OF assms(1) c(2) key] by simp
    also have "\<dots> \<longleftrightarrow> visible C (clockAt E m) key \<noteq> None" by (auto simp: visible_def restrict_map_def)
    finally show ?thesis using vis assms(11) by simp
  qed
  then show ?thesis using c(1) by blast
qed

section \<open>A sample store\<close>

definition sampleKeys :: persistence_keys where
  "sampleKeys = \<lparr>entries_sub = fromBytes (K [] ''entries'' []), values_sub = fromBytes (K [] ''values'' []),
     expires_sub = fromBytes (K [] ''expires'' []), garbage_sub = fromBytes (K [] ''garbage'' []),
     metadata_sub = fromBytes (K [] ''metadata'' [])\<rparr>"

lemma sampleKeys_at: "persist_at sampleKeys []"
  by (simp add: sampleKeys_def persist_at_def fromBytes_def)

definition sampleHistory :: "(rat \<times> persist_op) list" where
  "sampleHistory = [(0, Write [(js ''k'', JArray [], Some (Millis 1000))] (\<lambda>_. js ''i''))]"

lemma sample_identity: "identity_ok (js ''i'')"
proof -
  have "take 3 (text_encode (js ''i'')) \<noteq> [0xEF, 0xBB, 0xBF]" by code_simp
  moreover have "js ''i'' \<noteq> []" by (simp add: js_def)
  ultimately show ?thesis by (simp add: identity_ok_def)
qed

lemma sampleHistory_ok: "history_ok sampleHistory"
  by (simp add: history_ok_def sampleHistory_def structured_def latestEntries_def mapSet_def sample_identity)

lemma sample_sizes:
  "length (jsonBytes sampleJson (JArray [])) \<le> 1000" "length (EK [] (js ''s'') (js ''k'')) \<le> 1000" "length (text_encode (js ''i'')) \<le> 1000"
  "length (encodeManifest sampleJson \<lparr>manifest_identity = js ''i'', manifest_expires = expirationFor (Some (Millis 1000)) 0\<rparr>) \<le> 1000"
  "length (K [] ''expires'' [Str (js ''s'')]) \<le> 1000" "length (K [] ''garbage'' [Str (js ''s'')]) \<le> 1000"
  "length (enc False (Str (js ''k''))) \<le> 1000" "length (enc False (Str (js ''i''))) \<le> 1000"
  "length (K [] ''values'' [Str (js ''s''), Str (js ''i'')]) \<le> 1000" "length (MK [] (js ''s'')) \<le> 1000"
  by code_simp+

lemma sample_run: "\<exists>s'. persist_run mem_txn sampleJson sampleKeys (js ''s'') sampleHistory [] = Some (Inr s')"
proof -
  have inv: "persist_inv mem_txn sampleJson [] (js ''s'') [] Map.empty Map.empty {}"
    by (rule fdb.empty_store_inv [OF fdb_mem]) (simp_all add: mem_get)
  have st: "stringify sampleJson (JArray []) \<noteq> None" by (simp add: sampleJson_def)
  obtain s' where "persist_do mem_txn sampleJson sampleKeys (js ''s'') 0 (Write [(js ''k'', JArray [], Some (Millis 1000))] (\<lambda>_. js ''i'')) []
      = Some (Inr s')"
    using fdb.small_write [OF fdb_mem sampleKeys_at _ _ _ st sample_sizes inv sample.json_laws_axioms sample_identity] 
    by (auto simp: structured_def)
  then show ?thesis by (simp add: sampleHistory_def del: persist_do.simps)
qed

text \<open>What the sample history leaves to be seen before and after its entry expires.\<close>

lemma sample_visible:
  "visible (persist_spec sampleHistory Map.empty) 500 (js ''k'') = Some (JArray [])"
  "visible (persist_spec sampleHistory Map.empty) 2000 (js ''k'') = None"
  by (simp_all add: sampleHistory_def written_def visible_def due_def expirationFor_def latestEntries_def mapSet_def maxSafeInteger_def)

lemma persistence_is_an_expiring_map_witness:
  "\<exists>s s'. persist_run mem_txn sampleJson sampleKeys (js ''s'') sampleHistory [] = Some (Inr s)
    \<and> persist_get mem_txn sampleJson sampleKeys (js ''s'') (js ''k'') 500 s = Inr (Some (JArray []), s')"
proof -
  obtain s where s: "persist_run mem_txn sampleJson sampleKeys (js ''s'') sampleHistory [] = Some (Inr s)" using sample_run by blast
  have h: "\<forall>x \<in> set sampleHistory. fst x \<le> 500" by (simp add: sampleHistory_def)
  have e: "\<forall>k. prefix ([] :: bytes) k \<longrightarrow> tx_get mem_txn [] k = None" by (simp add: mem_get)
  show ?thesis
    using persistence_is_an_expiring_map [OF fdb_mem sample.json_laws_axioms sampleKeys_at _ e sampleHistory_ok s h, of "js ''k''"]
      s sample_visible(1) by auto
qed

lemma persistence_rows_are_typed_witness:
  "\<exists>s. persist_run mem_txn sampleJson sampleKeys (js ''s'') sampleHistory [] = Some (Inr s)
    \<and> rows_typed mem_txn sampleJson [] (js ''s'') s"
proof -
  obtain s where s: "persist_run mem_txn sampleJson sampleKeys (js ''s'') sampleHistory [] = Some (Inr s)" using sample_run by blast
  have h: "history_ok (sampleHistory @ [(500, Get (js ''k''))])"
    using sampleHistory_ok by (simp add: history_ok_def sampleHistory_def)
  have e: "\<forall>k. prefix ([] :: bytes) k \<longrightarrow> tx_get mem_txn [] k = None" by (simp add: mem_get)
  show ?thesis
    using persistence_rows_are_typed [OF fdb_mem sample.json_laws_axioms sampleKeys_at _ e h s] s by auto
qed

lemma persistence_cleanup_ends_witness:
  "\<exists>s m s'. persist_run mem_txn sampleJson sampleKeys (js ''s'') sampleHistory [] = Some (Inr s)
    \<and> cleanupStore mem_txn sampleJson (quiet 2000 (\<lambda>_. [])) sampleKeys (js ''s'') (0, s) = Some (Inr (), Suc m, s')
    \<and> tx_get mem_txn s' (EK [] (js ''s'') (js ''k'')) = None"
proof -
  let ?E = "quiet 2000 (\<lambda>_. []) :: (bytes \<times> bytes) list surroundings"
  obtain s where s: "persist_run mem_txn sampleJson sampleKeys (js ''s'') sampleHistory [] = Some (Inr s)" using sample_run by blast
  have h: "\<forall>x \<in> set sampleHistory. fst x \<le> clockAt ?E 0" by (simp add: sampleHistory_def quiet_def)
  have e: "\<forall>k. prefix ([] :: bytes) k \<longrightarrow> tx_get mem_txn [] k = None" by (simp add: mem_get)
  have E: "others ?E = (\<lambda>_. id)" "\<forall>n. 0 \<le> clockAt ?E n" "\<forall>m n. m \<le> n \<longrightarrow> clockAt ?E m \<le> clockAt ?E n" "\<And>m. clockAt ?E m = 2000"
    by (simp_all add: quiet_def)
  have k: "wellFormed (js ''k'')" "wellFormed (js ''s'')" by simp_all
  obtain m s' where "cleanupStore mem_txn sampleJson ?E sampleKeys (js ''s'') (0, s) = Some (Inr (), Suc m, s')"
    "\<forall>key. wellFormed key \<longrightarrow> (tx_get mem_txn s' (EK [] (js ''s'') key) \<noteq> None
      \<longleftrightarrow> visible (persist_spec sampleHistory Map.empty) (clockAt ?E m) key \<noteq> None)"
    using persistence_cleanup_ends [OF fdb_mem sample.json_laws_axioms sampleKeys_at k(2) e sampleHistory_ok s h E(1-3)] by blast
  then show ?thesis using s k(1) sample_visible(2) unfolding E(4) by blast
qed

end
