(* ===== verification/Persistence_Replay.thy ===== *)
theory Persistence_Replay
  imports Persistence_Properties
begin

text \<open>
  A direct publication that is run twice. A transaction whose commit is unknown runs again by default, and between
  the two runs another client can replace the entry. The second run then publishes an identity that is already in
  the garbage, so that the next cleanup removes the value of an entry that is there.
\<close>

context fdb
begin

lemma get_setChunks:
  assumes "persist_at Q p" "wellFormed sid" "wellFormed i" "writable b" "\<not> value_row p sid i k"
  shows "tx_get T (setAll T (chunkRows (values_sub Q) [Str sid, Str i] b) s) k = tx_get T s k"
proof -
  let ?rows = "chunkRows (values_sub Q) [Str sid, Str i] b"
  have "K p ''values'' [Str sid, Str i] = prefix_bytes (values_sub Q) @ encs False [Str sid, Str i]"
    using assms(1) by (simp add: persist_at_def K_append del: encs_simps)
  moreover have "tuple_ok [Str sid, Str i]" using assms(2,3) by simp
  ultimately have "k \<notin> fst ` set (rev ?rows)"
    using assms(4,5) chunkKey_in_range [of "[Str sid, Str i]" _ "values_sub Q"]
    by (auto simp: chunkRows_def inRange_def writable_def)
  then have "map_of (rev ?rows) k = None" by (simp add: map_of_eq_None_iff)
  then show ?thesis by (simp add: get_setAll)
qed

lemma publish_one:
  assumes J: "json_laws J" and Q: "persist_at Q p" and sid: "wellFormed sid" and pe: "prepared J Q p sid e v pe"
    and at: "tx_get T s (EK p sid (prepared_key pe)) = map_option (encodeManifest J) previous"
    and old: "\<And>m. previous = Some m \<Longrightarrow>
      identity_ok (manifest_identity m) \<and> manifest_identity m \<noteq> prepared_identity pe \<and> expiry_ok (manifest_expires m)"
  obtains s' where "publishEntries T J Q sid ek [pe] None at0 s = Inr ((), s')"
    "tx_get T s' (EK p sid (prepared_key pe)) =
      Some (encodeManifest J \<lparr>manifest_identity = prepared_identity pe, manifest_expires = e\<rparr>)"
    "\<And>m. previous = Some m \<Longrightarrow> tx_get T s' (GK p sid (timestamp at0) (manifest_identity m)) = Some []"
    "\<And>n j. smallInt n \<Longrightarrow> wellFormed j \<Longrightarrow> \<forall>m. previous = Some m \<longrightarrow> j \<noteq> manifest_identity m \<Longrightarrow>
      tx_get T s' (GK p sid n j) = tx_get T s (GK p sid n j)"
proof -
  let ?key = "prepared_key pe" and ?i = "prepared_identity pe" and ?s1 = "setAll T (chunks pe) s"
  have w: "wellFormed ?key" "wellFormed ?i" "manifestKey pe = EK p sid ?key"
    "manifestValue pe = encodeManifest J \<lparr>manifest_identity = ?i, manifest_expires = e\<rparr>"
    "expirationKey pe = map_option (\<lambda>t. XK p sid (timestamp t) ?key) e"
    and ch: "writable (jsonBytes J v)" "chunks pe = chunkRows (values_sub Q) [Str sid, Str ?i] (jsonBytes J v)"
    using pe by (auto simp: prepared_def)
  have old': "wellFormed (manifest_identity m)" "manifest_identity m \<noteq> ?i" if "previous = Some m" for m
    using old [OF that] by (auto simp: identity_ok_def)
  have same: "tx_get T ?s1 k = tx_get T s k" if "\<not> value_row p sid ?i k" for k
    unfolding ch(2) by (rule get_setChunks [OF Q sid w(2) ch(1) that])
  obtain s' where s': "publishEntry T Q sid False at0 (pe, previous) ?s1 = Inr s'"
    "tx_get T s' = (let f = (case previous of None \<Rightarrow> tx_get T ?s1
        | Some m \<Rightarrow> (case manifest_expires m of None \<Rightarrow> tx_get T ?s1
            | Some t \<Rightarrow> (tx_get T ?s1)(XK p sid (timestamp t) ?key := None))
              (GK p sid (timestamp at0) (manifest_identity m) := Some []));
      f = f(manifestKey pe := Some (manifestValue pe));
      f = (if False then f(stagingGarbageKey pe := None) else f) in
      case expirationKey pe of None \<Rightarrow> f | Some k \<Rightarrow> f(k := Some (identityValue pe)))"
    using publishEntry_eq [OF Q sid w(1), of previous False at0 ?s1] old' by blast
  have "decodeManifest J ?key (encodeManifest J m) = Inr m" if "previous = Some m" for m
    by (rule json_laws.decodeManifest_encode [OF J]) (use old [OF that] in \<open>auto simp: identity_ok_def\<close>)
  then have "publishEntries T J Q sid ek [pe] None at0 s = Inr ((), s')"
    using s'(1) at w(3) by (cases previous) (simp_all add: publishEntries_def Let_def tx_getMany_def)
  moreover have "tx_get T s' (EK p sid ?key) = Some (encodeManifest J \<lparr>manifest_identity = ?i, manifest_expires = e\<rparr>)"
    using sid w by (simp add: s'(2) Let_def split: option.split)
  moreover have "tx_get T s' (GK p sid (timestamp at0) (manifest_identity m)) = Some []" if m: "previous = Some m" for m
    using sid w old' [OF m] by (simp add: s'(2) Let_def m split: option.split)
  moreover have "tx_get T s' (GK p sid n j) = tx_get T s (GK p sid n j)"
    if j: "smallInt n" "wellFormed j" "\<forall>m. previous = Some m \<longrightarrow> j \<noteq> manifest_identity m" for n j
    using sid w j old' same [of "GK p sid n j"] by (simp add: s'(2) Let_def split: option.split)
  ultimately show thesis by (rule that)
qed

text \<open>A value with no rows is incomplete.\<close>

lemma read_collected:
  assumes J: "json_laws J" and Q: "persist_at Q p" and ok: "wellFormed sid" "wellFormed key" "identity_ok i" "expiry_ok e"
    and at: "tx_get T s (EK p sid key) = Some (encodeManifest J \<lparr>manifest_identity = i, manifest_expires = e\<rparr>)"
    and gone: "\<And>k. value_row p sid i k \<Longrightarrow> tx_get T s k = None" and now: "\<not> expired \<lparr>manifest_identity = i, manifest_expires = e\<rparr> now"
  shows "persist_get T J Q sid key now s = Inl (IncompleteValue key)"
proof -
  let ?m = "\<lparr>manifest_identity = i, manifest_expires = e\<rparr>"
  have i: "wellFormed i" using ok(3) by (simp add: identity_ok_def)
  have "decodeManifest J key (encodeManifest J ?m) = Inr ?m"
    by (rule json_laws.decodeManifest_encode [OF J]) (use ok in \<open>auto simp: identity_ok_def\<close>)
  moreover have "entryKey Q sid key = Inr (EK p sid key)" using Q ok by (simp add: entryKey_Inr)
  moreover have "valueAt T s (VK p sid i) = None" using valueAt_None gone by (auto simp: VK_def)
  ultimately show ?thesis
    using at now readStoredValue_at [OF Q ok(1), of ?m] i
    by (simp add: persist_get_def resolveEntry_def readManifest_def persistenceError_def)
qed

end

text \<open>C23. A publication whose commit was unknown and that runs again after another client replaced its entry leaves the entry
  with an identity that is listed as garbage. Collecting that garbage removes the value, and from then on a read of
  the entry fails with an incomplete value, although both writes were reported as done.
\<close>

theorem replayed_publication_is_collected:
  assumes T: "fdb T" "json_laws J" "persist_at Q p"
    and one: "prepareEntry J Q sid t (key, v, ttl) i = Inr pe" "identity_ok i" "0 \<le> t"
    and two: "prepareEntry J Q sid t' (key, v', ttl') i' = Inr pe'" "identity_ok i'" "0 \<le> t'" "i' \<noteq> i"
    and empty: "tx_get T s (EK p sid key) = None"
    and now: "\<not> expired \<lparr>manifest_identity = i, manifest_expires = expirationFor ttl t\<rparr> now"
  shows "\<exists>s1 s2 s3 s4. publishEntries T J Q sid ek [pe] None at0 s = Inr ((), s1)
    \<and> publishEntries T J Q sid ek [pe'] None at1 s1 = Inr ((), s2)
    \<and> publishEntries T J Q sid ek [pe] None at0 s2 = Inr ((), s3)
    \<and> tx_get T s3 (GK p sid (timestamp at1) i) = Some []
    \<and> cleanGarbage T Q sid (GK p sid (timestamp at1) i, []) s3 = Inr s4
    \<and> persist_get T J Q sid key now s4 = Inl (IncompleteValue key)"
proof -
  let ?m = "\<lparr>manifest_identity = i, manifest_expires = expirationFor ttl t\<rparr>"
  let ?m' = "\<lparr>manifest_identity = i', manifest_expires = expirationFor ttl' t'\<rparr>"
  note p1 = prepareEntry_Inr [OF T(3) one(1)] and p2 = prepareEntry_Inr [OF T(3) two(1)]
  note sid = p1(4)
  have wf: "wellFormed key" "wellFormed i" using p1(1-3) by (auto simp: prepared_def)
  obtain s1 where s1: "publishEntries T J Q sid ek [pe] None at0 s = Inr ((), s1)"
    "tx_get T s1 (EK p sid key) = Some (encodeManifest J ?m)"
    by (rule fdb.publish_one [OF T(1-3) sid p1(1), of s None ek at0]) (use empty p1(2,3) in auto)
  obtain s2 where s2: "publishEntries T J Q sid ek [pe'] None at1 s1 = Inr ((), s2)"
    "tx_get T s2 (EK p sid key) = Some (encodeManifest J ?m')" "tx_get T s2 (GK p sid (timestamp at1) i) = Some []"
    by (rule fdb.publish_one [OF T(1-3) sid p2(1), of s1 "Some ?m" ek at1])
      (use s1(2) p2(2,3) one(2,3) two(4) expirationFor_ok in auto)
  obtain s3 where s3: "publishEntries T J Q sid ek [pe] None at0 s2 = Inr ((), s3)"
    "tx_get T s3 (EK p sid key) = Some (encodeManifest J ?m)" "tx_get T s3 (GK p sid (timestamp at1) i) = Some []"
    by (rule fdb.publish_one [OF T(1-3) sid p1(1), of s2 "Some ?m'" ek at0])
      (use s2(2,3) p1(2,3) two(2-4) expirationFor_ok wf(2) in auto)
  let ?k = "GK p sid (timestamp at1) i"
  let ?s4 = "tx_clear T ?k (tx_clearRange T (VK p sid i @ [NIL]) (VK p sid i @ [ESCAPE]) s3)"
  have get: "tx_get T ?s4 x = (if value_row p sid i x \<or> x = ?k then None else tx_get T s3 x)" for x
    by (simp add: fdb.get_clear [OF T(1)] fdb.get_clearValue [OF T(1)])
  have "cleanGarbage T Q sid (?k, []) s3 = Inr ?s4" by (rule fdb.cleanGarbage_step [OF T(1,3) sid _ wf(2)]) simp
  moreover have "persist_get T J Q sid key now ?s4 = Inl (IncompleteValue key)"
    by (rule fdb.read_collected [OF T(1-3) sid wf(1) one(2) expirationFor_ok [OF one(3)] _ _ now])
      (use s3(2) sid wf in \<open>simp_all add: get\<close>)
  ultimately show ?thesis using s1(1) s2(1) s3(1,3) by blast
qed

lemma sample_sizes_other:
  "length (text_encode (js ''j'')) \<le> 1000"
  "length (encodeManifest sampleJson \<lparr>manifest_identity = js ''j'', manifest_expires = expirationFor None 0\<rparr>) \<le> 1000"
  "length (encodeManifest sampleJson \<lparr>manifest_identity = js ''i'', manifest_expires = expirationFor None 0\<rparr>) \<le> 1000"
  "length (enc False (Str (js ''j''))) \<le> 1000" "length (K [] ''values'' [Str (js ''s''), Str (js ''j'')]) \<le> 1000"
  by code_simp+

lemma other_identity: "identity_ok (js ''j'')"
proof -
  have "take 3 (text_encode (js ''j'')) \<noteq> [0xEF, 0xBB, 0xBF]" by code_simp
  moreover have "js ''j'' \<noteq> []" by (simp add: js_def)
  ultimately show ?thesis by (simp add: identity_ok_def)
qed

lemma replayed_publication_is_collected_witness:
  "\<exists>pe pe' s1 s2 s3 s4. prepareEntry sampleJson sampleKeys (js ''s'') 0 (js ''k'', JArray [], None) (js ''i'') = Inr pe
    \<and> publishEntries mem_txn sampleJson sampleKeys (js ''s'') [] [pe] None 0 [] = Inr ((), s1)
    \<and> publishEntries mem_txn sampleJson sampleKeys (js ''s'') [] [pe'] None 1 s1 = Inr ((), s2)
    \<and> publishEntries mem_txn sampleJson sampleKeys (js ''s'') [] [pe] None 0 s2 = Inr ((), s3)
    \<and> cleanGarbage mem_txn sampleKeys (js ''s'') (GK [] (js ''s'') (timestamp 1) (js ''i''), []) s3 = Inr s4
    \<and> persist_get mem_txn sampleJson sampleKeys (js ''s'') (js ''k'') 2 s4 = Inl (IncompleteValue (js ''k''))"
proof -
  have st: "stringify sampleJson (JArray []) \<noteq> None" by (simp add: sampleJson_def)
  have wf: "wellFormed (js ''s'')" "wellFormed (js ''k'')" "wellFormed (js ''i'')" "wellFormed (js ''j'')" by simp_all
  obtain pe where one: "prepareEntry sampleJson sampleKeys (js ''s'') 0 (js ''k'', JArray [], None) (js ''i'') = Inr pe"
    by (rule fdb.small_entry [OF fdb_mem sampleKeys_at wf(1-3) st sample_sizes(1-3) sample_sizes_other(3) sample_sizes(5-10)])
  obtain pe' where two: "prepareEntry sampleJson sampleKeys (js ''s'') 0 (js ''k'', JArray [], None) (js ''j'') = Inr pe'"
    by (rule fdb.small_entry [OF fdb_mem sampleKeys_at wf(1,2,4) st sample_sizes(1,2) sample_sizes_other(1,2) sample_sizes(5-7)
          sample_sizes_other(4,5) sample_sizes(10)])
  have more: "(0::rat) \<le> 0" "js ''j'' \<noteq> js ''i''" "tx_get mem_txn [] (EK [] (js ''s'') (js ''k'')) = None"
    "\<not> expired \<lparr>manifest_identity = js ''i'', manifest_expires = expirationFor None 0\<rparr> 2"
    by (simp_all add: js_def mem_get expired_def expirationFor_def)
  show ?thesis
    using replayed_publication_is_collected [OF fdb_mem sample.json_laws_axioms sampleKeys_at one sample_identity more(1)
        two other_identity more(1-4), of "[]" 0 1] one by blast
qed

end
