(* ===== verification/Message_Data.thy ===== *)
theory Message_Data
  imports Store_Roots "HOL-Library.Log_Nat"
begin

text \<open>
  The data of the mailbox of the cluster runtime: src/src/cluster/message-subspaces.ts, the types and \<open>pollingState\<close> of
  message-readiness.ts, and the errors of errors.ts that the mailbox raises. Times are integers, as milliseconds
  are. \<open>ShardId.toString\<close> and the encoded envelopes and replies belong to the cluster library: the first is an
  argument, the others are records with the fields that the mailbox reads and a rest that it does not.
\<close>

section \<open>Errors\<close>

text \<open>
  \<open>InvalidBigInt\<close> is the \<open>SyntaxError\<close> of \<open>BigInt\<close>. The rows of the indexes end in a bigint; \<open>String\<close> of an element
  of another kind is not modelled, and is \<open>ForeignRow\<close>.
\<close>

datatype message_error =
    MessageStore store_error
  | MissingMessageRecordError string js_string
  | DuplicateReplyError js_string js_string "int option"
  | InvalidBigInt
  | ForeignRow

definition liftMessage :: "store_error + 'a \<Rightarrow> message_error + 'a" where
  "liftMessage m = (case m of Inl e \<Rightarrow> Inl (MessageStore e) | Inr x \<Rightarrow> Inr x)"

definition liftMessageKey :: "tuple_error + 'a \<Rightarrow> message_error + 'a" where
  "liftMessageKey m = liftMessage (liftKey m)"

section \<open>BigInt and String\<close>

definition jsSpace :: "16 word \<Rightarrow> bool" where
  "jsSpace c \<longleftrightarrow> 9 \<le> c \<and> c \<le> 13 \<or> c \<in> {0x20, 0xA0, 0x1680, 0x2028, 0x2029, 0x202F, 0x205F, 0x3000, 0xFEFF}
     \<or> 0x2000 \<le> c \<and> c \<le> 0x200A"

definition jsTrim :: "js_string \<Rightarrow> js_string" where
  "jsTrim s = rev (dropWhile jsSpace (rev (dropWhile jsSpace s)))"

definition digitsIn :: "nat \<Rightarrow> js_string \<Rightarrow> int option" where
  "digitsIn base s =
    (if s \<noteq> [] \<and> list_all (\<lambda>c. case hexValue c of None \<Rightarrow> False | Some d \<Rightarrow> d < base) s
     then Some (foldl (\<lambda>n c. n * int base + int (the (hexValue c))) 0 s) else None)"

definition bigIntOf :: "js_string \<Rightarrow> message_error + int" where
  "bigIntOf s = (let t = jsTrim s;
       n = (if t = [] then Some 0
            else if take 2 t \<in> {js ''0x'', js ''0X''} then digitsIn 16 (drop 2 t)
            else if take 2 t \<in> {js ''0o'', js ''0O''} then digitsIn 8 (drop 2 t)
            else if take 2 t \<in> {js ''0b'', js ''0B''} then digitsIn 2 (drop 2 t)
            else if take 1 t = js ''-'' then map_option uminus (digitsIn 10 (drop 1 t))
            else if take 1 t = js ''+'' then digitsIn 10 (drop 1 t)
            else digitsIn 10 t) in
     case n of None \<Rightarrow> Inl InvalidBigInt | Some n \<Rightarrow> Inr n)"

definition showInt :: "int \<Rightarrow> js_string" where
  "showInt n = (if n < 0 then js ''-'' @ js (showNat (nat (- n))) else js (showNat (nat n)))"

text \<open>A number in a tuple is its binary64 bits, here of an integer that a number can hold exactly.\<close>

definition naturalBits :: "nat \<Rightarrow> nat" where
  "naturalBits n = (if n = 0 then 0 else
     let e = floorlog 2 n - 1 in (e + 1022) * 2 ^ 52 + n * 2 ^ 52 div 2 ^ e)"

definition numberBits :: "int \<Rightarrow> 64 word" where
  "numberBits n = (if n < 0 then of_nat (2 ^ 63 + naturalBits (nat (- n))) else of_nat (naturalBits (nat n)))"

section \<open>message-subspaces.ts\<close>

record message_subspaces =
  messages_sub :: subspace
  envelopes_sub :: subspace
  requestStates_sub :: subspace
  primaryKeys_sub :: subspace
  replies_sub :: subspace
  replyMetadata_sub :: subspace
  replyIds_sub :: subspace
  uniqueReplies_sub :: subspace
  messagesByShard_sub :: subspace
  messagesByAddress_sub :: subspace
  messagesByRequest_sub :: subspace
  readyByShard_sub :: subspace
  readyByAddress_sub :: subspace
  scheduledByShard_sub :: subspace
  scheduledByAddress_sub :: subspace
  orders_sub :: subspace

definition makeMessageSubspaces :: "subspace \<Rightarrow> message_error + message_subspaces" where
  "makeMessageSubspaces directory = (let child = (\<lambda>names. liftMessageKey (subspace directory (map (\<lambda>n. Str (js n)) names))) in
    bindR (child [''message'']) (\<lambda>messages.
    bindR (child [''envelope'']) (\<lambda>envelopes.
    bindR (child [''state'']) (\<lambda>requestStates.
    bindR (child [''primary'']) (\<lambda>primaryKeys.
    bindR (child [''reply'']) (\<lambda>replies.
    bindR (child [''reply-meta'']) (\<lambda>replyMetadata.
    bindR (child [''replies'']) (\<lambda>replyIds.
    bindR (child [''reply-unique'']) (\<lambda>uniqueReplies.
    bindR (child [''shard'']) (\<lambda>messagesByShard.
    bindR (child [''address'']) (\<lambda>messagesByAddress.
    bindR (child [''request'']) (\<lambda>messagesByRequest.
    bindR (child [''ready'', ''shard'']) (\<lambda>readyByShard.
    bindR (child [''ready'', ''address'']) (\<lambda>readyByAddress.
    bindR (child [''scheduled'', ''shard'']) (\<lambda>scheduledByShard.
    bindR (child [''scheduled'', ''address'']) (\<lambda>scheduledByAddress.
    bindR (child [''order'']) (\<lambda>orders.
      Inr \<lparr>messages_sub = messages, envelopes_sub = envelopes, requestStates_sub = requestStates,
        primaryKeys_sub = primaryKeys, replies_sub = replies, replyMetadata_sub = replyMetadata,
        replyIds_sub = replyIds, uniqueReplies_sub = uniqueReplies, messagesByShard_sub = messagesByShard,
        messagesByAddress_sub = messagesByAddress, messagesByRequest_sub = messagesByRequest,
        readyByShard_sub = readyByShard, readyByAddress_sub = readyByAddress,
        scheduledByShard_sub = scheduledByShard, scheduledByAddress_sub = scheduledByAddress,
        orders_sub = orders\<rparr>)))))))))))))))))"

section \<open>message-readiness.ts: the records\<close>

definition claimExpirationMillis :: int where
  "claimExpirationMillis = 10 * 60 * 1000"

record shard_id =
  shard_group :: js_string
  shard_number :: int

record address =
  shardId :: shard_id
  entityType :: js_string
  entityId :: js_string

datatype message_kind = Request | AckChunk | Interrupt

text \<open>A number is the next time at which the message is eligible.\<close>

datatype polling = Ready | Blocked | At int

record message_meta =
  message_id :: js_string
  requestId :: js_string
  message_kind :: message_kind
  message_address :: address
  primaryKey :: "js_string option"
  deliverAt :: "int option"
  claimedAt :: "int option"
  processed :: bool
  message_polling :: polling

record request_state =
  lastReplyId :: "js_string option"
  exitId :: "js_string option"
  latestAckId :: "js_string option"
  unacked :: int

definition initialState :: request_state where
  "initialState = \<lparr>lastReplyId = None, exitId = None, latestAckId = None, unacked = 0\<rparr>"

datatype reply_kind = Chunk | WithExit

record reply_meta =
  reply_meta_id :: js_string
  reply_meta_kind :: reply_kind
  reply_meta_sequence :: "int option"
  acked :: bool

section \<open>Encoded messages and replies\<close>

text \<open>A request has no id of its own and no reply that it acknowledges; those fields are then not read.\<close>

record 'e envelope =
  env_kind :: message_kind
  env_requestId :: js_string
  env_id :: js_string
  env_replyId :: js_string
  env_address :: address
  env_rest :: 'e

record 'r reply =
  reply_kind :: reply_kind
  reply_id :: js_string
  reply_requestId :: js_string
  reply_sequence :: int
  reply_rest :: 'r

definition envelopeId :: "'e envelope \<Rightarrow> js_string" where
  "envelopeId envelope = (if env_kind envelope = Request then env_requestId envelope else env_id envelope)"

section \<open>message-readiness.ts: keys and eligibility\<close>

definition addressKey :: "(shard_id \<Rightarrow> js_string) \<Rightarrow> address \<Rightarrow> tuple" where
  "addressKey shardString a = [Str (entityType a), Str (entityId a), Str (shardString (shardId a))]"

definition pollingState :: "message_meta \<Rightarrow> request_state \<Rightarrow> polling" where
  "pollingState meta state =
    (if processed meta \<or> exitId state \<noteq> None \<or> unacked state > 0
        \<or> message_kind meta = AckChunk \<and> latestAckId state \<noteq> Some (message_id meta) then Blocked
     else (case claimedAt meta of
       Some claimed \<Rightarrow> At (case deliverAt meta of
           None \<Rightarrow> claimed + claimExpirationMillis
         | Some d \<Rightarrow> max d (claimed + claimExpirationMillis))
     | None \<Rightarrow> (case deliverAt meta of Some d \<Rightarrow> At d | None \<Rightarrow> Ready)))"

end
