(* ===== verification/Message_Order.thy ===== *)
theory Message_Order
  imports Message_Data "HOL-Library.AList"
begin

text \<open>
  The order of the mailbox, src/src/cluster/message-order.ts. A message is ordered by a versionstamp, which the database
  completes when the transaction commits; until then the adapters of one transaction share what is pending. The
  service object of a transaction is the key of a weak map, so that every attempt starts with an empty
  \<open>attempt\<close>; it is part of the state of the transaction here, beside the database. A \<open>Map\<close> is an association list in
  insertion order.
\<close>

section \<open>The state of an attempt\<close>

record pending =
  pending_id :: js_string
  pending_stamp :: versionstamp
  pending_indexes :: "subspace list"
  indexed :: bool

record order_root =
  pending_map :: "(js_string \<times> pending) list"
  committed_map :: "(js_string \<times> versionstamp) list"

record order_attempt =
  next_version :: nat
  order_roots :: "(bytes \<times> order_root) list"

record 's mailbox =
  database :: 's
  order_state :: order_attempt

definition emptyAttempt :: order_attempt where
  "emptyAttempt = \<lparr>next_version = 0, order_roots = []\<rparr>"

definition emptyRoot :: order_root where
  "emptyRoot = \<lparr>pending_map = [], committed_map = []\<rparr>"

definition orderPageSize :: nat where "orderPageSize = 64"

text \<open>\<open>pendingFor\<close>: the part of the attempt for one directory, named by the prefix of its \<open>orders\<close>.\<close>

definition rootOf :: "message_subspaces \<Rightarrow> 's mailbox \<Rightarrow> order_root" where
  "rootOf spaces m = (case map_of (order_roots (order_state m)) (prefix_bytes (orders_sub spaces)) of
     None \<Rightarrow> emptyRoot | Some r \<Rightarrow> r)"

definition setRoot :: "message_subspaces \<Rightarrow> order_root \<Rightarrow> 's mailbox \<Rightarrow> 's mailbox" where
  "setRoot spaces r m = m\<lparr>order_state := (order_state m)
     \<lparr>order_roots := AList.update (prefix_bytes (orders_sub spaces)) r (order_roots (order_state m))\<rparr>\<rparr>"

definition onDatabase :: "('s \<Rightarrow> 's) \<Rightarrow> 's mailbox \<Rightarrow> 's mailbox" where
  "onDatabase f m = m\<lparr>database := f (database m)\<rparr>"

section \<open>Writing the order\<close>

definition writeIndex :: "'s txn \<Rightarrow> subspace \<Rightarrow> pending \<Rightarrow> 's mailbox \<Rightarrow> message_error + 's mailbox" where
  "writeIndex T space entry m =
    bindR (liftMessageKey (subspace_packWithVersionstamp space [Stamp (pending_stamp entry), Str (pending_id entry)])) (\<lambda>k.
      Inr (onDatabase (tx_atomicOp T k [] SetVersionstampedKey) m))"

definition committedEndStamp :: "'s txn \<Rightarrow> 's mailbox \<Rightarrow> message_error + versionstamp" where
  "committedEndStamp T m =
    (let version = tx_getReadVersion T (database m) in
     liftMessageKey (versionstamp_complete (natBE 8 (nat ((version + 1) mod 2 ^ 64)) @ [0, 0]) (Fin 0)))"

definition insertMessageOrder ::
    "'s txn \<Rightarrow> message_subspaces \<Rightarrow> js_string \<Rightarrow> subspace list \<Rightarrow> bool \<Rightarrow> 's mailbox \<Rightarrow> message_error + 's mailbox" where
  "insertMessageOrder T spaces i indexes isIndexed m =
    (let n = next_version (order_state m);
         m = m\<lparr>order_state := (order_state m)\<lparr>next_version := Suc n\<rparr>\<rparr> in
     bindR (liftMessageKey (versionstamp_incomplete (Fin (of_nat n)))) (\<lambda>stamp.
     let entry = \<lparr>pending_id = i, pending_stamp = stamp, pending_indexes = indexes, indexed = isIndexed\<rparr>;
         root = rootOf spaces m;
         m = setRoot spaces (root\<lparr>pending_map := AList.update i entry (pending_map root)\<rparr>) m in
     bindR (if isIndexed then foldR (\<lambda>index. writeIndex T index entry) indexes m else Inr m) (\<lambda>m.
     bindR (liftMessageKey (subspace_pack (orders_sub spaces) [Str i])) (\<lambda>k.
     bindR (liftMessageKey (packWithVersionstamp [Stamp stamp])) (\<lambda>v.
       Inr (onDatabase (tx_atomicOp T k v SetVersionstampedValue) m))))))"

text \<open>The decoder of a stamp accepts a tuple of one complete or incomplete versionstamp.\<close>

definition messageOrder :: "'s txn \<Rightarrow> message_subspaces \<Rightarrow> js_string \<Rightarrow> 's mailbox \<Rightarrow> message_error + versionstamp" where
  "messageOrder T spaces i m =
    (case map_of (pending_map (rootOf spaces m)) i of
       Some entry \<Rightarrow> Inr (pending_stamp entry)
     | None \<Rightarrow> (case map_of (committed_map (rootOf spaces m)) i of
         Some stamp \<Rightarrow> Inr stamp
       | None \<Rightarrow>
           bindR (liftMessageKey (subspace_pack (orders_sub spaces) [Str i])) (\<lambda>k.
           case tx_get T (database m) k of
             None \<Rightarrow> Inl (MissingMessageRecordError ''order'' i)
           | Some v \<Rightarrow> bindR (liftMessageKey (unpack v)) (\<lambda>t. case t of
               [Stamp stamp] \<Rightarrow> Inr stamp
             | _ \<Rightarrow> Inl (MessageStore StoreSchemaError)))))"

text \<open>The uncommitted tail of an index is cleared and the pending entries that stay are written again.\<close>

definition rewriteTail ::
    "'s txn \<Rightarrow> message_subspaces \<Rightarrow> versionstamp \<Rightarrow> subspace \<Rightarrow> 's mailbox \<Rightarrow> message_error + 's mailbox" where
  "rewriteTail T spaces boundary space m =
    bindR (liftMessageKey (subspace_pack space [Stamp boundary])) (\<lambda>b.
    bindR (liftMessageKey (subspace_range space [])) (\<lambda>(_, e).
    let m = onDatabase (tx_clearRange T b e \<circ> tx_addConflictRange T b e ReadConflict) m in
    foldR (\<lambda>entry m.
        if indexed entry \<and> (\<exists>candidate \<in> set (pending_indexes entry). subspace_equals candidate space)
        then writeIndex T space entry m else Inr m)
      (map snd (pending_map (rootOf spaces m))) m))"

definition setMessageOrderIndexed ::
    "'s txn \<Rightarrow> message_subspaces \<Rightarrow> js_string \<Rightarrow> subspace list \<Rightarrow> bool \<Rightarrow> 's mailbox \<Rightarrow> message_error + 's mailbox" where
  "setMessageOrderIndexed T spaces i indexes isIndexed m =
    (let root = rootOf spaces m in
     case map_of (pending_map root) i of
       Some entry \<Rightarrow>
         if indexed entry = isIndexed then Inr m
         else
           let entry = entry\<lparr>indexed := isIndexed\<rparr>;
               m = setRoot spaces (root\<lparr>pending_map := AList.update i entry (pending_map root)\<rparr>) m in
           if isIndexed then foldR (\<lambda>space. writeIndex T space entry) indexes m
           else bindR (committedEndStamp T m) (\<lambda>boundary. foldR (rewriteTail T spaces boundary) indexes m)
     | None \<Rightarrow>
         bindR (messageOrder T spaces i m) (\<lambda>stamp.
         foldR (\<lambda>space m.
           bindR (liftMessageKey (subspace_pack space [Stamp stamp, Str i])) (\<lambda>k.
             Inr (onDatabase (if isIndexed then tx_set T k [] else tx_clear T k) m))) indexes m))"

definition removeMessageOrder ::
    "'s txn \<Rightarrow> message_subspaces \<Rightarrow> js_string \<Rightarrow> subspace list \<Rightarrow> 's mailbox \<Rightarrow> message_error + 's mailbox" where
  "removeMessageOrder T spaces i indexes m =
    bindR (setMessageOrderIndexed T spaces i indexes False m) (\<lambda>m.
    let root = rootOf spaces m;
        m = setRoot spaces (root\<lparr>pending_map := AList.delete i (pending_map root),
              committed_map := AList.delete i (committed_map root)\<rparr>) m in
    bindR (liftMessageKey (subspace_pack (orders_sub spaces) [Str i])) (\<lambda>k.
      Inr (onDatabase (tx_clear T k) m)))"

section \<open>Visiting messages in order\<close>

text \<open>A cursor over an index: what is left of the page that was read, and the entry that is next.\<close>

type_synonym ordered_id = "versionstamp \<times> js_string"

record cursor =
  cursor_space :: subspace
  cursor_begin :: bytes
  cursor_end :: bytes
  cursor_rows :: "ordered_id list"
  cursor_done :: bool
  cursor_head :: "ordered_id option"

definition orderedId :: "subspace \<Rightarrow> row \<Rightarrow> message_error + ordered_id" where
  "orderedId space row = bindR (liftMessageKey (subspace_unpack space (fst row))) (\<lambda>t. case t of
     [Stamp stamp, Str i] \<Rightarrow> Inr (stamp, i)
   | _ \<Rightarrow> Inl (MessageStore StoreSchemaError))"

definition cursorNext :: "'s txn \<Rightarrow> 's \<Rightarrow> cursor \<Rightarrow> message_error + cursor" where
  "cursorNext T s c =
    (case cursor_rows c of
       row # rest \<Rightarrow> Inr (c\<lparr>cursor_rows := rest, cursor_head := Some row\<rparr>)
     | [] \<Rightarrow>
         if cursor_done c then Inr (c\<lparr>cursor_head := None\<rparr>)
         else
           let batch = tx_getRange T s (keyRange (cursor_begin c) (cursor_end c) (Some orderPageSize) False) in
           bindR (mapR (orderedId (cursor_space c)) batch) (\<lambda>rows.
           Inr (c\<lparr>cursor_rows := tl rows, cursor_head := (if rows = [] then None else Some (hd rows)),
             cursor_done := length batch < orderPageSize,
             cursor_begin := (if batch = [] then cursor_begin c else fst (last batch) @ [0])\<rparr>)))"

definition openCursor :: "'s txn \<Rightarrow> versionstamp \<Rightarrow> subspace \<Rightarrow> 's \<Rightarrow> message_error + cursor" where
  "openCursor T boundary space s =
    bindR (liftMessageKey (subspace_range space [])) (\<lambda>(start, _).
    bindR (liftMessageKey (subspace_pack space [Stamp boundary])) (\<lambda>e.
      cursorNext T s \<lparr>cursor_space = space, cursor_begin = start, cursor_end = e, cursor_rows = [],
        cursor_done = False, cursor_head = None\<rparr>))"

text \<open>The cursor whose entry comes first; of equal stamps the first cursor.\<close>

definition selectCursor :: "cursor list \<Rightarrow> nat option" where
  "selectCursor cursors = foldl (\<lambda>selected i. case cursor_head (cursors ! i) of
       None \<Rightarrow> selected
     | Some (stamp, _) \<Rightarrow> (case selected of
         None \<Rightarrow> Some i
       | Some j \<Rightarrow> if compareBytes (stamp_bytes stamp) (stamp_bytes (fst (the (cursor_head (cursors ! j))))) < 0
           then Some i else Some j))
     None [0..<length cursors]"

text \<open>What a visitor of a batch of ids does: its result, and whether to go on.\<close>

type_synonym ('s, 'a) visitor = "js_string list \<Rightarrow> 'a \<times> 's mailbox \<Rightarrow> message_error + bool \<times> 'a \<times> 's mailbox"

definition appendId ::
    "('s, 'a) visitor \<Rightarrow> js_string \<Rightarrow> js_string list \<times> 'a \<times> 's mailbox
      \<Rightarrow> message_error + bool \<times> js_string list \<times> 'a \<times> 's mailbox" where
  "appendId visit i st = (let batch = fst st @ [i] in
     if length batch < orderPageSize then Inr (True, batch, snd st)
     else bindR (visit batch (snd st)) (\<lambda>(goOn, st). Inr (goOn, [], st)))"

definition noteCommitted :: "message_subspaces \<Rightarrow> ordered_id \<Rightarrow> 's mailbox \<Rightarrow> 's mailbox" where
  "noteCommitted spaces x m = (let root = rootOf spaces m in
     setRoot spaces (root\<lparr>committed_map := AList.update (snd x) (fst x) (committed_map root)\<rparr>) m)"

partial_function (option) mergeLoop ::
    "'s txn \<Rightarrow> message_subspaces \<Rightarrow> ('s, 'a) visitor \<Rightarrow> cursor list \<Rightarrow> js_string list \<times> 'a \<times> 's mailbox
      \<Rightarrow> (message_error + bool \<times> js_string list \<times> 'a \<times> 's mailbox) option" where
  "mergeLoop T spaces visit cursors st =
    (case selectCursor cursors of
       None \<Rightarrow> Some (Inr (True, st))
     | Some i \<Rightarrow>
         let head = the (cursor_head (cursors ! i));
             st = (fst st, fst (snd st), noteCommitted spaces head (snd (snd st))) in
         (case appendId visit (snd head) st of
            Inl e \<Rightarrow> Some (Inl e)
          | Inr (goOn, st) \<Rightarrow>
              if \<not> goOn then Some (Inr (False, st))
              else (case cursorNext T (database (snd (snd st))) (cursors ! i) of
                Inl e \<Rightarrow> Some (Inl e)
              | Inr c \<Rightarrow> mergeLoop T spaces visit (cursors[i := c]) st)))"

text \<open>The pending entries of the indexes, in the order in which they were inserted.\<close>

definition pendingIds :: "message_subspaces \<Rightarrow> subspace list \<Rightarrow> 's mailbox \<Rightarrow> js_string list" where
  "pendingIds spaces indexes m =
    map pending_id (sort_key (\<lambda>entry. userVersion (pending_stamp entry))
      (filter (\<lambda>entry. indexed entry \<and> (\<exists>candidate \<in> set (pending_indexes entry). \<exists>index \<in> set indexes. subspace_equals candidate index))
        (map snd (pending_map (rootOf spaces m)))))"

fun appendAll ::
    "('s, 'a) visitor \<Rightarrow> js_string list \<Rightarrow> js_string list \<times> 'a \<times> 's mailbox
      \<Rightarrow> message_error + bool \<times> js_string list \<times> 'a \<times> 's mailbox" where
  "appendAll visit [] st = Inr (True, st)"
| "appendAll visit (i # rest) st =
    bindR (appendId visit i st) (\<lambda>(goOn, st). if goOn then appendAll visit rest st else Inr (False, st))"

definition visitMessageOrder ::
    "'s txn \<Rightarrow> message_subspaces \<Rightarrow> subspace list \<Rightarrow> ('s, 'a) visitor \<Rightarrow> 'a \<times> 's mailbox
      \<Rightarrow> (message_error + 'a \<times> 's mailbox) option" where
  "visitMessageOrder T spaces indexes visit st =
    bindO (Some (committedEndStamp T (snd st))) (\<lambda>boundary.
    let unique = map snd (foldl (\<lambda>m space. AList.update (prefix_bytes space) space m) [] indexes) in
    bindO (Some (mapR (\<lambda>space. openCursor T boundary space (database (snd st))) unique)) (\<lambda>cursors.
    bindO (mergeLoop T spaces visit cursors ([], st)) (\<lambda>(goOn, st).
      if \<not> goOn then Some (Inr (snd st))
      else
        bindO (Some (appendAll visit (pendingIds spaces indexes (snd (snd st))) st)) (\<lambda>(goOn, batch, st).
          if \<not> goOn \<or> batch = [] then Some (Inr st)
          else Some (bindR (visit batch st) (\<lambda>(_, st). Inr st))))))"

end
