(* ===== verification/Message_Readiness.thy ===== *)
theory Message_Readiness
  imports Message_Order
begin

text \<open>
  The polling indexes of the mailbox, src/src/cluster/message-readiness.ts: a message that is ready is in the ready indexes
  of its shard and of its address, a message with a timer is in the scheduled indexes under its time.
\<close>

definition readyIndexes ::
    "(shard_id \<Rightarrow> js_string) \<Rightarrow> message_subspaces \<Rightarrow> message_meta \<Rightarrow> message_error + subspace list" where
  "readyIndexes shardString spaces meta =
    bindR (liftMessageKey (subspace (readyByShard_sub spaces) [Str (shardString (shardId (message_address meta)))])) (\<lambda>byShard.
    bindR (liftMessageKey (subspace (readyByAddress_sub spaces) (addressKey shardString (message_address meta)))) (\<lambda>byAddress.
      Inr [byShard, byAddress]))"

definition scheduledIndexes ::
    "(shard_id \<Rightarrow> js_string) \<Rightarrow> message_subspaces \<Rightarrow> message_meta \<Rightarrow> message_error + subspace list" where
  "scheduledIndexes shardString spaces meta =
    bindR (liftMessageKey (subspace (scheduledByShard_sub spaces) [Str (shardString (shardId (message_address meta)))])) (\<lambda>byShard.
    bindR (liftMessageKey (subspace (scheduledByAddress_sub spaces) (addressKey shardString (message_address meta)))) (\<lambda>byAddress.
      Inr [byShard, byAddress]))"

definition timerKey :: "subspace \<Rightarrow> int \<Rightarrow> js_string \<Rightarrow> message_error + bytes" where
  "timerKey index t i = liftMessageKey (subspace_pack index [Number (numberBits t), Str i])"

definition clearMessageTimer ::
    "'s txn \<Rightarrow> (shard_id \<Rightarrow> js_string) \<Rightarrow> message_subspaces \<Rightarrow> message_meta \<Rightarrow> 's mailbox \<Rightarrow> message_error + 's mailbox" where
  "clearMessageTimer T shardString spaces meta m = (case message_polling meta of
     At t \<Rightarrow> bindR (scheduledIndexes shardString spaces meta) (\<lambda>indexes.
       foldR (\<lambda>index m. bindR (timerKey index t (message_id meta)) (\<lambda>k. Inr (onDatabase (tx_clear T k) m))) indexes m)
   | _ \<Rightarrow> Inr m)"

text \<open>The metadata to store is returned with the new state.\<close>

definition setMessagePolling ::
    "'s txn \<Rightarrow> (shard_id \<Rightarrow> js_string) \<Rightarrow> message_subspaces \<Rightarrow> message_meta \<Rightarrow> polling \<Rightarrow> 's mailbox
      \<Rightarrow> message_error + message_meta \<times> 's mailbox" where
  "setMessagePolling T shardString spaces meta new m =
    (if message_polling meta = new then Inr (meta, m)
     else
       bindR (clearMessageTimer T shardString spaces meta m) (\<lambda>m.
       bindR (if message_polling meta = Ready \<or> new = Ready then
           bindR (readyIndexes shardString spaces meta) (\<lambda>indexes.
             setMessageOrderIndexed T spaces (message_id meta) indexes (new = Ready) m)
         else Inr m) (\<lambda>m.
       bindR (case new of
           At t \<Rightarrow> bindR (scheduledIndexes shardString spaces meta) (\<lambda>indexes.
             foldR (\<lambda>index m. bindR (timerKey index t (message_id meta)) (\<lambda>k. Inr (onDatabase (tx_set T k []) m))) indexes m)
         | _ \<Rightarrow> Inr m) (\<lambda>m.
         Inr (meta\<lparr>message_polling := new\<rparr>, m)))))"

end
