(* ===== verification/Message_Storage.thy ===== *)
theory Message_Storage
  imports Message_Readiness
begin

text \<open>
  The mailbox of the cluster runtime, src/src/cluster/message-storage.ts. Every operation is the body of a transaction: it opens
  the directory, makes the subspaces and works on the state of the transaction, the database and the order of the
  attempt. \<open>message_env\<close> holds what is not in the repository: the operations of the transaction, the JSON schemas, the text
  of a shard id, the SHA-256 digest of a primary key and the function that opens the directory. A visit of an
  index is a loop that is not known to end, so the operations return an option.
\<close>

record ('s, 'e, 'r) message_env =
  message_txn :: "'s txn"
  shardString :: "shard_id \<Rightarrow> js_string"
  metaJson :: "message_meta json_codec"
  stateJson :: "request_state json_codec"
  replyMetaJson :: "reply_meta json_codec"
  envelopeJson :: "'e envelope json_codec"
  replyJson :: "'r reply json_codec"
  primaryHash :: "js_string \<Rightarrow> js_string"
  messageRoot :: "'s \<Rightarrow> store_error + subspace \<times> 's"

definition mailboxPageSize :: nat where "mailboxPageSize = 64"

section \<open>Records\<close>

text \<open>A record under a point key: \<open>record\<close> and its four operations.\<close>

definition record_read :: "'s txn \<Rightarrow> 'a json_codec \<Rightarrow> subspace \<Rightarrow> tuple \<Rightarrow> 's mailbox \<Rightarrow> message_error + 'a option" where
  "record_read T J sub path m =
    bindR (liftMessageKey (subspace_pack sub path)) (\<lambda>k. liftMessage (readRecord T J (database m) k))"

definition record_readMany ::
    "'s txn \<Rightarrow> 'a json_codec \<Rightarrow> subspace \<Rightarrow> tuple list \<Rightarrow> 's mailbox \<Rightarrow> message_error + 'a option list" where
  "record_readMany T J sub paths m =
    (if paths = [] then Inr []
     else bindR (mapR (\<lambda>path. liftMessageKey (subspace_pack sub path)) paths) (\<lambda>keys.
       mapR (\<lambda>v. case v of None \<Rightarrow> Inr None | Some b \<Rightarrow> bindR (liftMessage (decodeRecord J b)) (\<lambda>a. Inr (Some a)))
         (tx_getMany T (database m) keys)))"

definition record_write ::
    "'s txn \<Rightarrow> 'a json_codec \<Rightarrow> subspace \<Rightarrow> tuple \<Rightarrow> 'a \<Rightarrow> 's mailbox \<Rightarrow> message_error + 's mailbox" where
  "record_write T J sub path a m =
    bindR (liftMessageKey (subspace_pack sub path)) (\<lambda>k. Inr (onDatabase (writeRecord T J k a) m))"

definition record_clear :: "'s txn \<Rightarrow> subspace \<Rightarrow> tuple \<Rightarrow> 's mailbox \<Rightarrow> message_error + 's mailbox" where
  "record_clear T sub path m =
    bindR (liftMessageKey (subspace_pack sub path)) (\<lambda>k. Inr (onDatabase (tx_clear T k) m))"

text \<open>A record in chunks: \<open>chunkedRecord\<close>.\<close>

definition chunked_read :: "'s txn \<Rightarrow> 'a json_codec \<Rightarrow> subspace \<Rightarrow> tuple \<Rightarrow> 's mailbox \<Rightarrow> message_error + 'a option" where
  "chunked_read T J sub path m =
    bindR (liftMessageKey (readChunkedValue T (database m) sub path)) (\<lambda>v. case v of
      None \<Rightarrow> Inr None
    | Some b \<Rightarrow> bindR (liftMessage (decodeRecord J b)) (\<lambda>a. Inr (Some a)))"

definition chunked_write ::
    "'s txn \<Rightarrow> 'a json_codec \<Rightarrow> subspace \<Rightarrow> tuple \<Rightarrow> 'a \<Rightarrow> 's mailbox \<Rightarrow> message_error + 's mailbox" where
  "chunked_write T J sub path a m =
    bindR (liftMessageKey (writeChunkedValue T sub path (text_encode (encodeJson J a)) (database m))) (\<lambda>s.
      Inr (m\<lparr>database := s\<rparr>))"

definition chunked_clear :: "'s txn \<Rightarrow> subspace \<Rightarrow> tuple \<Rightarrow> 's mailbox \<Rightarrow> message_error + 's mailbox" where
  "chunked_clear T sub path m =
    bindR (liftMessageKey (clearChunkedValue T sub path (database m))) (\<lambda>s. Inr (m\<lparr>database := s\<rparr>))"

text \<open>A row of an index, and the removal of one.\<close>

definition setRow :: "'s txn \<Rightarrow> subspace \<Rightarrow> tuple \<Rightarrow> bytes \<Rightarrow> 's mailbox \<Rightarrow> message_error + 's mailbox" where
  "setRow T sub path v m =
    bindR (liftMessageKey (subspace_pack sub path)) (\<lambda>k. Inr (onDatabase (tx_set T k v) m))"

definition clearRows :: "'s txn \<Rightarrow> subspace \<Rightarrow> tuple \<Rightarrow> 's mailbox \<Rightarrow> message_error + 's mailbox" where
  "clearRows T sub path m =
    bindR (liftMessageKey (subspace_range sub path)) (\<lambda>(b, e). Inr (onDatabase (tx_clearRange T b e) m))"

definition readState ::
    "('s, 'e, 'r) message_env \<Rightarrow> message_subspaces \<Rightarrow> js_string \<Rightarrow> 's mailbox \<Rightarrow> message_error + request_state" where
  "readState E Q i m =
    bindR (record_read (message_txn E) (stateJson E) (requestStates_sub Q) [Str i] m) (\<lambda>v.
      Inr (case v of None \<Rightarrow> initialState | Some state \<Rightarrow> state))"

definition writeMessage ::
    "('s, 'e, 'r) message_env \<Rightarrow> message_subspaces \<Rightarrow> message_meta \<Rightarrow> request_state \<Rightarrow> 's mailbox
      \<Rightarrow> message_error + 's mailbox" where
  "writeMessage E Q meta state m =
    bindR (setMessagePolling (message_txn E) (shardString E) Q meta (pollingState meta state) m) (\<lambda>(new, m).
      record_write (message_txn E) (metaJson E) (messages_sub Q) [Str (message_id meta)] new m)"

definition messageIndexes ::
    "(shard_id \<Rightarrow> js_string) \<Rightarrow> message_subspaces \<Rightarrow> message_meta \<Rightarrow> message_error + subspace list" where
  "messageIndexes shardText Q meta =
    bindR (liftMessageKey (subspace (messagesByShard_sub Q) [Str (shardText (shardId (message_address meta)))])) (\<lambda>byShard.
    bindR (liftMessageKey (subspace (messagesByAddress_sub Q) (addressKey shardText (message_address meta)))) (\<lambda>byAddress.
    bindR (liftMessageKey (subspace (messagesByRequest_sub Q) [Str (requestId meta)])) (\<lambda>byRequest.
      Inr [byShard, byAddress, byRequest])))"

definition removeMessage ::
    "('s, 'e, 'r) message_env \<Rightarrow> message_subspaces \<Rightarrow> message_meta \<Rightarrow> 's mailbox \<Rightarrow> message_error + 's mailbox" where
  "removeMessage E Q meta m = (let T = message_txn E in
    bindR (clearMessageTimer T (shardString E) Q meta m) (\<lambda>m.
    bindR (readyIndexes (shardString E) Q meta) (\<lambda>ready.
    bindR (removeMessageOrder T Q (message_id meta) ready m) (\<lambda>m.
    bindR (messageIndexes (shardString E) Q meta) (\<lambda>indexes.
    bindR (foldR (\<lambda>index m. bindR (bigIntOf (message_id meta)) (\<lambda>n. record_clear T index [BigInt n] m)) indexes m) (\<lambda>m.
    bindR (case primaryKey meta of None \<Rightarrow> Inr m | Some h \<Rightarrow> record_clear T (primaryKeys_sub Q) [Str h] m) (\<lambda>m.
    bindR (record_clear T (messages_sub Q) [Str (message_id meta)] m) (\<lambda>m.
      chunked_clear T (envelopes_sub Q) [Str (message_id meta)] m))))))))"

section \<open>Visiting an index\<close>

text \<open>What is done with an id: a result is added up, and a visit can stop.\<close>

type_synonym ('s, 'a) id_visitor = "js_string \<Rightarrow> 'a \<times> 's mailbox \<Rightarrow> message_error + bool \<times> 'a \<times> 's mailbox"

definition rowId :: "subspace \<Rightarrow> row \<Rightarrow> message_error + js_string" where
  "rowId index row = bindR (liftMessageKey (subspace_unpack index (fst row))) (\<lambda>t.
     if t = [] then Inl ForeignRow else (case last t of BigInt n \<Rightarrow> Inr (showInt n) | _ \<Rightarrow> Inl ForeignRow))"

fun visitRows ::
    "subspace \<Rightarrow> ('s, 'a) id_visitor \<Rightarrow> row list \<Rightarrow> 'a \<times> 's mailbox \<Rightarrow> message_error + bool \<times> 'a \<times> 's mailbox" where
  "visitRows index visit [] st = Inr (True, st)"
| "visitRows index visit (row # rest) st =
    bindR (rowId index row) (\<lambda>i. bindR (visit i st) (\<lambda>(goOn, st).
      if goOn then visitRows index visit rest st else Inr (False, st)))"

partial_function (option) visitLoop ::
    "'s txn \<Rightarrow> subspace \<Rightarrow> ('s, 'a) id_visitor \<Rightarrow> bytes \<Rightarrow> bytes \<Rightarrow> 'a \<times> 's mailbox
      \<Rightarrow> (message_error + 'a \<times> 's mailbox) option" where
  "visitLoop T index visit b e st =
    (let rows = tx_getRange T (database (snd st)) (keyRange b e (Some mailboxPageSize) False) in
     case visitRows index visit rows st of
       Inl err \<Rightarrow> Some (Inl err)
     | Inr (goOn, st) \<Rightarrow>
         if \<not> goOn \<or> length rows < mailboxPageSize then Some (Inr st)
         else visitLoop T index visit (fst (last rows) @ [0]) e st)"

definition visitIndex ::
    "'s txn \<Rightarrow> subspace \<Rightarrow> ('s, 'a) id_visitor \<Rightarrow> 'a \<times> 's mailbox \<Rightarrow> (message_error + 'a \<times> 's mailbox) option" where
  "visitIndex T index visit st =
    bindO (Some (liftMessageKey (subspace_range index []))) (\<lambda>(b, e). visitLoop T index visit b e st)"

definition updateRequest ::
    "('s, 'e, 'r) message_env \<Rightarrow> message_subspaces \<Rightarrow> js_string
      \<Rightarrow> (message_meta \<Rightarrow> 's mailbox \<Rightarrow> message_error + 's mailbox) \<Rightarrow> 's mailbox \<Rightarrow> (message_error + 's mailbox) option" where
  "updateRequest E Q i update m =
    bindO (Some (liftMessageKey (subspace (messagesByRequest_sub Q) [Str i]))) (\<lambda>index.
    bindO (visitIndex (message_txn E) index (\<lambda>messageId ((), m).
        bindR (record_read (message_txn E) (metaJson E) (messages_sub Q) [Str messageId] m) (\<lambda>meta.
        bindR (case meta of None \<Rightarrow> Inr m | Some meta \<Rightarrow> update meta m) (\<lambda>m. Inr (True, (), m)))) ((), m)) (\<lambda>((), m).
      Some (Inr m)))"

section \<open>Polling\<close>

definition lastReply ::
    "('s, 'e, 'r) message_env \<Rightarrow> message_subspaces \<Rightarrow> js_string \<Rightarrow> request_state \<Rightarrow> 's mailbox
      \<Rightarrow> message_error + 'r reply option" where
  "lastReply E Q i state m = (case lastReplyId state of
     None \<Rightarrow> Inr None
   | Some r \<Rightarrow> chunked_read (message_txn E) (replyJson E) (replies_sub Q) [Str i, Str r] m)"

text \<open>The two filters of \<open>readMessages\<close>: on the metadata alone, and with the state of the request.\<close>

definition candidate :: "int \<Rightarrow> bool \<Rightarrow> message_meta \<Rightarrow> bool" where
  "candidate now claim meta \<longleftrightarrow> \<not> processed meta
     \<and> (case deliverAt meta of None \<Rightarrow> True | Some d \<Rightarrow> d \<le> now)
     \<and> (\<not> claim \<or> (case claimedAt meta of None \<Rightarrow> True | Some c \<Rightarrow> c \<le> now - claimExpirationMillis))"

definition unblocked :: "message_meta \<Rightarrow> request_state \<Rightarrow> bool" where
  "unblocked meta state \<longleftrightarrow> \<not> (exitId state \<noteq> None \<or> unacked state > 0
     \<or> message_kind meta = AckChunk \<and> latestAckId state \<noteq> Some (message_id meta))"

type_synonym ('e, 'r) polled = "'e envelope \<times> 'r reply option"

definition loadMessage ::
    "('s, 'e, 'r) message_env \<Rightarrow> message_subspaces \<Rightarrow> 's mailbox \<Rightarrow> message_meta \<times> request_state
      \<Rightarrow> message_error + ('e, 'r) polled" where
  "loadMessage E Q m x = (case x of (meta, state) \<Rightarrow>
    bindR (chunked_read (message_txn E) (envelopeJson E) (envelopes_sub Q) [Str (message_id meta)] m) (\<lambda>v. case v of
      None \<Rightarrow> Inl (MissingMessageRecordError ''envelope'' (message_id meta))
    | Some envelope \<Rightarrow>
        bindR (if message_kind meta = Request then lastReply E Q (requestId meta) state m else Inr None) (\<lambda>sent.
          Inr (envelope, sent))))"

text \<open>The loop over the candidates; a limit is absent when there is none.\<close>

fun selectLoop ::
    "(js_string \<Rightarrow> request_state) \<Rightarrow> nat option \<Rightarrow> (message_meta \<times> request_state) list \<Rightarrow> message_meta list
      \<Rightarrow> (message_meta \<times> request_state) list" where
  "selectLoop byRequest limit selected [] = selected"
| "selectLoop byRequest limit selected (meta # rest) =
    (let state = byRequest (requestId meta) in
     if \<not> unblocked meta state then selectLoop byRequest limit selected rest
     else let selected = selected @ [(meta, state)] in
       if limit = Some (length selected) then selected else selectLoop byRequest limit selected rest)"

definition readMessages ::
    "('s, 'e, 'r) message_env \<Rightarrow> message_subspaces \<Rightarrow> js_string list \<Rightarrow> int \<Rightarrow> bool \<Rightarrow> nat option \<Rightarrow> 's mailbox
      \<Rightarrow> message_error + ('e, 'r) polled list \<times> 's mailbox" where
  "readMessages E Q ids now claim limit m = (let T = message_txn E in
    bindR (record_readMany T (metaJson E) (messages_sub Q) (map (\<lambda>i. [Str i]) ids) m) (\<lambda>metadata.
    let candidates = filter (candidate now claim) (List.map_filter id metadata);
        requestIds = jsSet (map requestId candidates) in
    bindR (record_readMany T (stateJson E) (requestStates_sub Q) (map (\<lambda>i. [Str i]) requestIds) m) (\<lambda>requestStates.
    let states = zip requestIds (map (\<lambda>v. case v of None \<Rightarrow> initialState | Some state \<Rightarrow> state) requestStates);
        selected = selectLoop (\<lambda>i. the (map_of states i)) limit [] candidates in
    bindR (mapR (loadMessage E Q m) selected) (\<lambda>loaded.
    bindR (if claim then foldR (\<lambda>(meta, state). writeMessage E Q (meta\<lparr>claimedAt := Some now\<rparr>) state) selected m
        else Inr m) (\<lambda>m.
      Inr (loaded, m))))))"

definition timerId :: "subspace \<Rightarrow> row \<Rightarrow> message_error + js_string" where
  "timerId index row = bindR (liftMessageKey (subspace_unpack index (fst row))) (\<lambda>t. case t of
     [Number _, Str i] \<Rightarrow> Inr i
   | _ \<Rightarrow> Inl (MessageStore StoreSchemaError))"

definition promoteMessage ::
    "('s, 'e, 'r) message_env \<Rightarrow> message_subspaces \<Rightarrow> message_meta option \<Rightarrow> 's mailbox \<Rightarrow> message_error + 's mailbox" where
  "promoteMessage E Q meta m = (case meta of
     None \<Rightarrow> Inr m
   | Some meta \<Rightarrow> bindR (setMessagePolling (message_txn E) (shardString E) Q meta Ready m) (\<lambda>(new, m).
       record_write (message_txn E) (metaJson E) (messages_sub Q) [Str (message_id meta)] new m))"

partial_function (option) promoteLoop ::
    "('s, 'e, 'r) message_env \<Rightarrow> message_subspaces \<Rightarrow> subspace \<Rightarrow> bytes \<Rightarrow> bytes \<Rightarrow> 's mailbox
      \<Rightarrow> (message_error + 's mailbox) option" where
  "promoteLoop E Q index cursor e m =
    (let rows = tx_getRange (message_txn E) (database m) (keyRange cursor e (Some mailboxPageSize) False) in
     case bindR (mapR (timerId index) rows) (\<lambda>ids.
        bindR (record_readMany (message_txn E) (metaJson E) (messages_sub Q) (map (\<lambda>i. [Str i]) ids) m) (\<lambda>metas.
        foldR (promoteMessage E Q) metas m)) of
       Inl err \<Rightarrow> Some (Inl err)
     | Inr m \<Rightarrow> if length rows < mailboxPageSize then Some (Inr m)
         else promoteLoop E Q index (fst (last rows) @ [0]) e m)"

definition promoteDue ::
    "('s, 'e, 'r) message_env \<Rightarrow> message_subspaces \<Rightarrow> subspace \<Rightarrow> int \<Rightarrow> 's mailbox \<Rightarrow> (message_error + 's mailbox) option" where
  "promoteDue E Q index now m =
    bindO (Some (liftMessageKey (subspace_range index []))) (\<lambda>(b, _).
    bindO (Some (liftMessageKey (subspace_range index [Number (numberBits now)]))) (\<lambda>(_, e).
      promoteLoop E Q index b e m))"

end
