(* ===== verification/Message_Operations.thy ===== *)
theory Message_Operations
  imports Message_Storage Transactions
begin

text \<open>
  The operations of the encoded mailbox, src/src/cluster/message-storage.ts. \<open>mailbox_run\<close> is the function \<open>run\<close>: it opens the
  directory and the subspaces in the transaction. The conversion of ids to snowflakes is the cluster library's; ids
  are their text here.
\<close>

definition mailbox_run ::
    "('s, 'e, 'r) message_env \<Rightarrow> (message_subspaces \<Rightarrow> 's mailbox \<Rightarrow> (message_error + 'a \<times> 's mailbox) option) \<Rightarrow> 's mailbox
      \<Rightarrow> (message_error + 'a \<times> 's mailbox) option" where
  "mailbox_run E f m =
    bindO (Some (liftMessage (messageRoot E (database m)))) (\<lambda>(directory, s).
    bindO (Some (makeMessageSubspaces directory)) (\<lambda>Q. f Q (m\<lparr>database := s\<rparr>)))"

text \<open>
  The options of the transaction of an operation that does not join one: a claim whose commit is unknown is not
  run again, since it would return other messages.
\<close>

definition mailboxTransaction :: "transaction_options \<Rightarrow> transaction_options" where
  "mailboxTransaction options = options\<lparr>retryOnMaybeCommitted := Some False\<rparr>"

section \<open>Saving\<close>

datatype 'r save_result = Saved | Duplicate js_string "'r reply option"

text \<open>An acknowledgement counts once, for a chunk that was not acknowledged before.\<close>

definition acknowledgeReply ::
    "('s, 'e, 'r) message_env \<Rightarrow> message_subspaces \<Rightarrow> 'e envelope \<Rightarrow> request_state \<Rightarrow> 's mailbox
      \<Rightarrow> message_error + request_state \<times> 's mailbox" where
  "acknowledgeReply E Q envelope state m = (let T = message_txn E; path = [Str (env_requestId envelope), Str (env_replyId envelope)] in
    bindR (record_read T (replyMetaJson E) (replyMetadata_sub Q) path m) (\<lambda>replyMeta.
    let acknowledge = (case replyMeta of Some r \<Rightarrow> reply_meta_kind r = Chunk \<and> \<not> acked r | None \<Rightarrow> False) in
    bindR (if acknowledge then record_write T (replyMetaJson E) (replyMetadata_sub Q) path ((the replyMeta)\<lparr>acked := True\<rparr>) m
        else Inr m) (\<lambda>m.
    let state = state\<lparr>latestAckId := Some (envelopeId envelope), unacked := unacked state - (if acknowledge then 1 else 0)\<rparr> in
    bindR (record_write T (stateJson E) (requestStates_sub Q) [Str (env_requestId envelope)] state m) (\<lambda>m.
      Inr (state, m)))))"

definition insertEnvelope ::
    "('s, 'e, 'r) message_env \<Rightarrow> message_subspaces \<Rightarrow> 'e envelope \<Rightarrow> js_string option \<Rightarrow> int option \<Rightarrow> 's mailbox
      \<Rightarrow> (message_error + 'r save_result \<times> 's mailbox) option" where
  "insertEnvelope E Q envelope hash deliver m = (let T = message_txn E; i = envelopeId envelope in
    bindO (Some (readState E Q (env_requestId envelope) m)) (\<lambda>state.
    let meta = \<lparr>message_id = i, requestId = env_requestId envelope, message_kind = env_kind envelope,
          message_address = env_address envelope, primaryKey = hash, deliverAt = deliver, claimedAt = None,
          processed = exitId state \<noteq> None, message_polling = Blocked\<rparr> in
    bindO (Some (if env_kind envelope = AckChunk then acknowledgeReply E Q envelope state m else Inr (state, m))) (\<lambda>(state, m).
    bindO (Some (chunked_write T (envelopeJson E) (envelopes_sub Q) [Str i] envelope m)) (\<lambda>m.
    bindO (Some (readyIndexes (shardString E) Q meta)) (\<lambda>ready.
    bindO (Some (insertMessageOrder T Q i ready False m)) (\<lambda>m.
    bindO (Some (writeMessage E Q meta state m)) (\<lambda>m.
    bindO (Some (messageIndexes (shardString E) Q meta)) (\<lambda>indexes.
    bindO (Some (foldR (\<lambda>index m. bindR (bigIntOf i) (\<lambda>n. setRow T index [BigInt n] [] m)) indexes m)) (\<lambda>m.
    bindO (if env_kind envelope = AckChunk
        then updateRequest E Q (requestId meta) (\<lambda>meta. writeMessage E Q meta state) m else Some (Inr m)) (\<lambda>m.
    bindO (Some (case hash of None \<Rightarrow> Inr m | Some h \<Rightarrow> setRow T (primaryKeys_sub Q) [Str h] (text_encode i) m)) (\<lambda>m.
      Some (Inr (Saved, m)))))))))))))"

definition saveEnvelope ::
    "('s, 'e, 'r) message_env \<Rightarrow> 'e envelope \<Rightarrow> js_string option \<Rightarrow> int option \<Rightarrow> message_subspaces \<Rightarrow> 's mailbox
      \<Rightarrow> (message_error + 'r save_result \<times> 's mailbox) option" where
  "saveEnvelope E envelope primary deliver Q m = (let T = message_txn E; hash = map_option (primaryHash E) primary in
    bindO (Some (case hash of None \<Rightarrow> Inr None
      | Some h \<Rightarrow> bindR (liftMessageKey (subspace_pack (primaryKeys_sub Q) [Str h])) (\<lambda>k. Inr (tx_get T (database m) k)))) (\<lambda>found.
    let originalId = (case found of None \<Rightarrow> envelopeId envelope | Some b \<Rightarrow> decodeText b) in
    bindO (Some (record_read T (metaJson E) (messages_sub Q) [Str originalId] m)) (\<lambda>existing. case existing of
      Some old \<Rightarrow>
        bindO (Some (readState E Q (requestId old) m)) (\<lambda>state.
        bindO (Some (lastReply E Q (requestId old) state m)) (\<lambda>received.
          Some (Inr (Duplicate originalId received, m))))
    | None \<Rightarrow> insertEnvelope E Q envelope hash deliver m)))"

section \<open>Replies\<close>

definition replySequence :: "'r reply \<Rightarrow> int option" where
  "replySequence reply = (if reply_kind reply = Chunk then Some (reply_sequence reply) else None)"

definition uniqueKey :: "message_subspaces \<Rightarrow> js_string \<Rightarrow> int option \<Rightarrow> message_error + bytes" where
  "uniqueKey Q i sequence = liftMessageKey (subspace_pack (uniqueReplies_sub Q)
     [Str i, case sequence of None \<Rightarrow> Str (js ''exit'') | Some n \<Rightarrow> BigInt n])"

definition insertReply ::
    "('s, 'e, 'r) message_env \<Rightarrow> message_subspaces \<Rightarrow> 'r reply \<Rightarrow> bytes \<Rightarrow> request_state \<Rightarrow> 's mailbox
      \<Rightarrow> message_error + request_state \<times> 's mailbox" where
  "insertReply E Q reply unique state m = (let T = message_txn E; i = reply_requestId reply; r = reply_id reply in
    bindR (chunked_write T (replyJson E) (replies_sub Q) [Str i, Str r] reply m) (\<lambda>m.
    bindR (record_write T (replyMetaJson E) (replyMetadata_sub Q) [Str i, Str r]
        \<lparr>reply_meta_id = r, reply_meta_kind = reply_kind reply, reply_meta_sequence = replySequence reply, acked = False\<rparr> m) (\<lambda>m.
    bindR (bigIntOf r) (\<lambda>n.
    bindR (setRow T (replyIds_sub Q) [Str i, BigInt n] [] m) (\<lambda>m.
    let m = onDatabase (tx_set T unique (text_encode r)) m;
        next = state\<lparr>lastReplyId := Some r, exitId := (if reply_kind reply = WithExit then Some r else exitId state),
          unacked := unacked state + (if reply_kind reply = Chunk then 1 else 0)\<rparr> in
    bindR (record_write T (stateJson E) (requestStates_sub Q) [Str i] next m) (\<lambda>m.
      Inr (next, m)))))))"

definition saveReply ::
    "('s, 'e, 'r) message_env \<Rightarrow> 'r reply \<Rightarrow> message_subspaces \<Rightarrow> 's mailbox \<Rightarrow> (message_error + unit \<times> 's mailbox) option" where
  "saveReply E reply Q m = (let T = message_txn E; i = reply_requestId reply in
    bindO (Some (record_read T (replyMetaJson E) (replyMetadata_sub Q) [Str i, Str (reply_id reply)] m)) (\<lambda>known.
    if known \<noteq> None then Some (Inr ((), m))
    else
      bindO (Some (readState E Q i m)) (\<lambda>state.
      bindO (Some (uniqueKey Q i (replySequence reply))) (\<lambda>unique.
      if tx_get T (database m) unique \<noteq> None
      then Some (Inl (DuplicateReplyError i (reply_id reply) (replySequence reply)))
      else
        bindO (Some (insertReply E Q reply unique state m)) (\<lambda>(next, m).
        bindO (if reply_kind reply = WithExit \<or> unacked state = 0
            then updateRequest E Q i (\<lambda>meta. writeMessage E Q
                (meta\<lparr>processed := processed meta \<or> reply_kind reply = WithExit\<rparr>) next) m
            else Some (Inr m)) (\<lambda>m.
          Some (Inr ((), m))))))))"

text \<open>The exit of a request is removed; its chunks stay. Without a condition its interrupts are removed too.\<close>

definition removeExit ::
    "('s, 'e, 'r) message_env \<Rightarrow> message_subspaces \<Rightarrow> js_string \<Rightarrow> js_string \<Rightarrow> 's mailbox \<Rightarrow> message_error + 's mailbox" where
  "removeExit E Q i exit m = (let T = message_txn E in
    bindR (chunked_clear T (replies_sub Q) [Str i, Str exit] m) (\<lambda>m.
    bindR (record_clear T (replyMetadata_sub Q) [Str i, Str exit] m) (\<lambda>m.
    bindR (bigIntOf exit) (\<lambda>n.
    bindR (record_clear T (replyIds_sub Q) [Str i, BigInt n] m) (\<lambda>m.
      record_clear T (uniqueReplies_sub Q) [Str i, Str (js ''exit'')] m)))))"

definition clearReplies ::
    "('s, 'e, 'r) message_env \<Rightarrow> js_string \<Rightarrow> js_string option \<Rightarrow> message_subspaces \<Rightarrow> 's mailbox
      \<Rightarrow> (message_error + unit \<times> 's mailbox) option" where
  "clearReplies E i expectedReplyId Q m = (let T = message_txn E in
    bindO (Some (readState E Q i m)) (\<lambda>state.
    if expectedReplyId \<noteq> None \<and> lastReplyId state \<noteq> expectedReplyId then Some (Inr ((), m))
    else
      bindO (Some (case exitId state of None \<Rightarrow> Inr m | Some exit \<Rightarrow> removeExit E Q i exit m)) (\<lambda>m.
      let next = state\<lparr>lastReplyId := None, exitId := None\<rparr> in
      bindO (Some (record_write T (stateJson E) (requestStates_sub Q) [Str i] next m)) (\<lambda>m.
      bindO (updateRequest E Q i (\<lambda>meta m.
          if message_kind meta = Interrupt \<and> expectedReplyId = None then removeMessage E Q meta m
          else writeMessage E Q (meta\<lparr>processed := False, claimedAt := None\<rparr>) next m) m) (\<lambda>m.
        Some (Inr ((), m)))))))"

definition requestIdForPrimaryKey ::
    "('s, 'e, 'r) message_env \<Rightarrow> js_string \<Rightarrow> message_subspaces \<Rightarrow> 's mailbox \<Rightarrow> (message_error + js_string option \<times> 's mailbox) option" where
  "requestIdForPrimaryKey E primary Q m = Some
    (bindR (liftMessageKey (subspace_pack (primaryKeys_sub Q) [Str (primaryHash E primary)])) (\<lambda>k.
      Inr (map_option decodeText (tx_get (message_txn E) (database m) k), m)))"

definition readReply ::
    "('s, 'e, 'r) message_env \<Rightarrow> message_subspaces \<Rightarrow> js_string \<Rightarrow> bool \<Rightarrow> ('s, 'r reply list) id_visitor" where
  "readReply E Q i filtered replyId st = (case st of (result, m) \<Rightarrow>
    bindR (record_read (message_txn E) (replyMetaJson E) (replyMetadata_sub Q) [Str i, Str replyId] m) (\<lambda>meta.
    case meta of
      None \<Rightarrow> Inr (True, result, m)
    | Some r \<Rightarrow>
        if \<not> filtered \<or> reply_meta_kind r = WithExit \<or> \<not> acked r then
          bindR (chunked_read (message_txn E) (replyJson E) (replies_sub Q) [Str i, Str replyId] m) (\<lambda>reply. case reply of
            None \<Rightarrow> Inl (MissingMessageRecordError ''reply'' replyId)
          | Some reply \<Rightarrow> Inr (True, result @ [reply], m))
        else Inr (True, result, m)))"

definition readReplies ::
    "('s, 'e, 'r) message_env \<Rightarrow> js_string list \<Rightarrow> bool \<Rightarrow> message_subspaces \<Rightarrow> 's mailbox
      \<Rightarrow> (message_error + 'r reply list \<times> 's mailbox) option" where
  "readReplies E ids filtered Q m =
    foldO (\<lambda>i st. bindO (Some (liftMessageKey (subspace (replyIds_sub Q) [Str i]))) (\<lambda>index.
        visitIndex (message_txn E) index (readReply E Q i filtered) st)) (jsSet ids) ([], m)"

section \<open>Polling\<close>

text \<open>
  The shards of a poll or, when addresses are given, those of its addresses that are in the shards. A limit that is not
  positive gives nothing.
\<close>

definition pollSelectors ::
    "('s, 'e, 'r) message_env \<Rightarrow> js_string list \<Rightarrow> address list option \<Rightarrow> tuple list" where
  "pollSelectors E shards addresses = (case addresses of
     None \<Rightarrow> map (\<lambda>shard. [Str shard]) (jsSet shards)
   | Some as \<Rightarrow> map (addressKey (shardString E)) (filter (\<lambda>a. shardString E (shardId a) \<in> set shards) as))"

definition pollVisitor ::
    "('s, 'e, 'r) message_env \<Rightarrow> message_subspaces \<Rightarrow> int \<Rightarrow> nat option \<Rightarrow> ('s, ('e, 'r) polled list) visitor" where
  "pollVisitor E Q now limit ids st = (case st of (result, m) \<Rightarrow>
    bindR (readMessages E Q ids now True (map_option (\<lambda>n. n - length result) limit) m) (\<lambda>(loaded, m).
    let result = result @ loaded in
      Inr (case limit of None \<Rightarrow> True | Some n \<Rightarrow> length result < n, result, m)))"

definition unprocessedMessages ::
    "('s, 'e, 'r) message_env \<Rightarrow> js_string list \<Rightarrow> int \<Rightarrow> rat option \<Rightarrow> address list option \<Rightarrow> message_subspaces \<Rightarrow> 's mailbox
      \<Rightarrow> (message_error + ('e, 'r) polled list \<times> 's mailbox) option" where
  "unprocessedMessages E shards now wanted addresses Q m =
    (let limit = map_option (\<lambda>q. nat \<lfloor>q\<rfloor>) wanted in
     if limit = Some 0 then Some (Inr ([], m))
     else
       let selectors = pollSelectors E shards addresses;
           ready = (if addresses = None then readyByShard_sub Q else readyByAddress_sub Q);
           scheduled = (if addresses = None then scheduledByShard_sub Q else scheduledByAddress_sub Q) in
       bindO (Some (mapR (\<lambda>key. liftMessageKey (subspace ready key)) selectors)) (\<lambda>indexes.
       bindO (foldO (\<lambda>key m. bindO (Some (liftMessageKey (subspace scheduled key))) (\<lambda>index. promoteDue E Q index now m))
           selectors m) (\<lambda>m.
         visitMessageOrder (message_txn E) Q indexes (pollVisitor E Q now limit) ([], m))))"

text \<open>Batches of ids, then the order of all that was found.\<close>

fun pagesOf :: "nat \<Rightarrow> 'a list \<Rightarrow> 'a list list" where
  "pagesOf fuel [] = []"
| "pagesOf 0 xs = []"
| "pagesOf (Suc fuel) xs = take mailboxPageSize xs # pagesOf fuel (drop mailboxPageSize xs)"

definition readPage ::
    "('s, 'e, 'r) message_env \<Rightarrow> message_subspaces \<Rightarrow> int \<Rightarrow> js_string list
      \<Rightarrow> (('e, 'r) polled \<times> versionstamp) list \<times> 's mailbox
      \<Rightarrow> message_error + (('e, 'r) polled \<times> versionstamp) list \<times> 's mailbox" where
  "readPage E Q now ids st = (case st of (result, m) \<Rightarrow>
    bindR (readMessages E Q ids now False None m) (\<lambda>(batch, m).
    bindR (mapR (\<lambda>message. bindR (messageOrder (message_txn E) Q (envelopeId (fst message)) m) (\<lambda>stamp. Inr (message, stamp)))
      batch) (\<lambda>found. Inr (result @ found, m))))"

definition unprocessedMessagesById ::
    "('s, 'e, 'r) message_env \<Rightarrow> js_string list \<Rightarrow> int \<Rightarrow> message_subspaces \<Rightarrow> 's mailbox
      \<Rightarrow> (message_error + ('e, 'r) polled list \<times> 's mailbox) option" where
  "unprocessedMessagesById E ids now Q m = (let unique = jsSet ids in Some
    (bindR (foldR (readPage E Q now) (pagesOf (length unique) unique) ([], m)) (\<lambda>(result, m).
      Inr (map fst (sort_key (\<lambda>x. stamp_bytes (snd x)) result), m))))"

section \<open>Resets\<close>

definition resetMessage ::
    "('s, 'e, 'r) message_env \<Rightarrow> message_subspaces \<Rightarrow> message_meta \<Rightarrow> 's mailbox \<Rightarrow> message_error + 's mailbox" where
  "resetMessage E Q meta m =
    bindR (readState E Q (requestId meta) m) (\<lambda>state. writeMessage E Q (meta\<lparr>claimedAt := None\<rparr>) state m)"

definition resetRequests ::
    "('s, 'e, 'r) message_env \<Rightarrow> js_string list \<Rightarrow> message_subspaces \<Rightarrow> 's mailbox \<Rightarrow> (message_error + unit \<times> 's mailbox) option" where
  "resetRequests E ids Q m = Some (bindR (foldR (\<lambda>i m.
      bindR (record_read (message_txn E) (metaJson E) (messages_sub Q) [Str i] m) (\<lambda>meta. case meta of
        Some meta \<Rightarrow> if \<not> processed meta then resetMessage E Q meta m else Inr m
      | None \<Rightarrow> Inr m)) ids m) (\<lambda>m. Inr ((), m)))"

definition resetIndex ::
    "('s, 'e, 'r) message_env \<Rightarrow> (message_subspaces \<Rightarrow> subspace) \<Rightarrow> tuple list \<Rightarrow> message_subspaces \<Rightarrow> 's mailbox
      \<Rightarrow> (message_error + unit \<times> 's mailbox) option" where
  "resetIndex E namespace keys Q m =
    foldO (\<lambda>key st. bindO (Some (liftMessageKey (subspace (namespace Q) key))) (\<lambda>index.
        visitIndex (message_txn E) index (\<lambda>i ((), m).
          bindR (record_read (message_txn E) (metaJson E) (messages_sub Q) [Str i] m) (\<lambda>meta.
          bindR (case meta of
              Some meta \<Rightarrow> if \<not> processed meta \<and> claimedAt meta \<noteq> None then resetMessage E Q meta m else Inr m
            | None \<Rightarrow> Inr m) (\<lambda>m. Inr (True, (), m)))) st)) keys ((), m)"

definition resetAddresses ::
    "('s, 'e, 'r) message_env \<Rightarrow> address list \<Rightarrow> message_subspaces \<Rightarrow> 's mailbox \<Rightarrow> (message_error + unit \<times> 's mailbox) option" where
  "resetAddresses E addresses = resetIndex E messagesByAddress_sub (map (addressKey (shardString E)) addresses)"

definition resetShards ::
    "('s, 'e, 'r) message_env \<Rightarrow> js_string list \<Rightarrow> message_subspaces \<Rightarrow> 's mailbox \<Rightarrow> (message_error + unit \<times> 's mailbox) option" where
  "resetShards E shards = resetIndex E messagesByShard_sub (map (\<lambda>shard. [Str shard]) shards)"

section \<open>Clearing an address\<close>

definition clearRequest ::
    "('s, 'e, 'r) message_env \<Rightarrow> message_subspaces \<Rightarrow> js_string \<Rightarrow> 's mailbox \<Rightarrow> message_error + 's mailbox" where
  "clearRequest E Q i m = (let T = message_txn E in
    bindR (chunked_clear T (replies_sub Q) [Str i] m) (\<lambda>m.
    bindR (clearRows T (replyMetadata_sub Q) [Str i] m) (\<lambda>m.
    bindR (record_clear T (requestStates_sub Q) [Str i] m) (\<lambda>m.
    bindR (clearRows T (replyIds_sub Q) [Str i] m) (\<lambda>m.
      clearRows T (uniqueReplies_sub Q) [Str i] m)))))"

definition clearAddress ::
    "('s, 'e, 'r) message_env \<Rightarrow> js_string \<Rightarrow> js_string \<Rightarrow> message_subspaces \<Rightarrow> 's mailbox
      \<Rightarrow> (message_error + unit \<times> 's mailbox) option" where
  "clearAddress E type i Q m =
    bindO (Some (liftMessageKey (subspace (messagesByAddress_sub Q) [Str type, Str i]))) (\<lambda>index.
    visitIndex (message_txn E) index (\<lambda>messageId ((), m).
      bindR (record_read (message_txn E) (metaJson E) (messages_sub Q) [Str messageId] m) (\<lambda>meta. case meta of
        None \<Rightarrow> Inr (True, (), m)
      | Some meta \<Rightarrow>
          bindR (if message_kind meta = Request then clearRequest E Q messageId m else Inr m) (\<lambda>m.
          bindR (removeMessage E Q meta m) (\<lambda>m. Inr (True, (), m))))) ((), m))"

end
