(* ===== verification/Message_Frame.thy ===== *)
theory Message_Frame
  imports Message_Operations Stored_Values
begin

text \<open>
  Which rows the steps of the mailbox can change. The rows of a section are the keys of its range; a step changes only
  the sections that it names. A versionstamped mutation changes nothing that the transaction can read before it
  commits, but the keys that its stamp can complete to.
\<close>

section \<open>Versionstamped mutations\<close>

text \<open>
  The keys that a key with an incomplete stamp can become: the ten bytes at the offset, which the last four bytes
  give in little-endian order, are free.
\<close>

definition mayComplete :: "bytes \<Rightarrow> bytes \<Rightarrow> bool" where
  "mayComplete k k' \<longleftrightarrow> (let n = length k - 4; offset = leNat (drop n k) in
     length k' = n \<and> take offset k' = take offset k \<and> drop (offset + 10) k' = drop (offset + 10) (take n k))"

locale fdb_stamped = fdb +
  assumes get_stampedKey: "\<not> mayComplete k k' \<Longrightarrow> tx_get T (tx_atomicOp T k v SetVersionstampedKey s) k' = tx_get T s k'"
    and get_stampedValue: "k' \<noteq> k \<Longrightarrow> tx_get T (tx_atomicOp T k v SetVersionstampedValue s) k' = tx_get T s k'"

interpretation mem_stamped: fdb_stamped mem_txn
  by unfold_locales (simp_all add: mem_txn_def mem_atomicOp_def)

section \<open>Where the subspaces are\<close>

abbreviation sect :: "bytes \<Rightarrow> string \<Rightarrow> bytes \<Rightarrow> bool" where
  "sect p n k \<equiv> inRange p n [] k"

definition at_section :: "bytes \<Rightarrow> string \<Rightarrow> tuple \<Rightarrow> subspace \<Rightarrow> bool" where
  "at_section p n r sub \<longleftrightarrow> sub = tracked (K p n r) [] \<and> list_all packable r"

definition mailbox_at :: "message_subspaces \<Rightarrow> bytes \<Rightarrow> bool" where
  "mailbox_at Q p \<longleftrightarrow> at_section p ''message'' [] (messages_sub Q) \<and> at_section p ''envelope'' [] (envelopes_sub Q)
     \<and> at_section p ''state'' [] (requestStates_sub Q) \<and> at_section p ''primary'' [] (primaryKeys_sub Q)
     \<and> at_section p ''reply'' [] (replies_sub Q) \<and> at_section p ''reply-meta'' [] (replyMetadata_sub Q)
     \<and> at_section p ''replies'' [] (replyIds_sub Q) \<and> at_section p ''reply-unique'' [] (uniqueReplies_sub Q)
     \<and> at_section p ''shard'' [] (messagesByShard_sub Q) \<and> at_section p ''address'' [] (messagesByAddress_sub Q)
     \<and> at_section p ''request'' [] (messagesByRequest_sub Q)
     \<and> at_section p ''ready'' [Str (js ''shard'')] (readyByShard_sub Q) \<and> at_section p ''ready'' [Str (js ''address'')] (readyByAddress_sub Q)
     \<and> at_section p ''scheduled'' [Str (js ''shard'')] (scheduledByShard_sub Q)
     \<and> at_section p ''scheduled'' [Str (js ''address'')] (scheduledByAddress_sub Q) \<and> at_section p ''order'' [] (orders_sub Q)"

lemma lift_Inr [simp]:
  "liftMessage x = Inr y \<longleftrightarrow> x = Inr y" "liftMessageKey z = Inr w \<longleftrightarrow> z = Inr w"
  by (auto simp: liftMessage_def liftMessageKey_def liftKey_def split: sum.splits)

lemma at_prefix: "at_section p n r sub \<Longrightarrow> prefix_bytes sub = K p n r"
  by (simp add: at_section_def tracked_def)

lemma subspace_strings:
  assumes "subspace sub t = Inr c" and "at_section p n r sub" and "\<forall>v \<in> set t. \<exists>x. v = Str x"
  shows "at_section p n (r @ t) c"
proof -
  have "list_all packable t" using assms(1) appendValue_error(2) [of t "[]" False "[]"]
    by (cases "list_all packable t") (auto simp: subspace_def packTrackedSync_def)
  moreover have "stampOffsetsL False t = []" using assms(3) by (induction t) auto
  ultimately show ?thesis using assms(1,2) by (auto simp: subspace_def packTrackedSync_enc at_section_def tracked_def K_def)
qed

lemma makeMessageSubspaces_at:
  assumes "makeMessageSubspaces dir = Inr Q" and "subspace_stamps dir = []"
  shows "mailbox_at Q (prefix_bytes dir)"
proof -
  have child: "at_section (prefix_bytes dir) n (map (\<lambda>n. Str (js n)) ns) c"
    if c: "subspace dir (map (\<lambda>n. Str (js n)) (n # ns)) = Inr c" for n ns c
  proof -
    have "list_all packable (map (\<lambda>n. Str (js n)) (n # ns))" by (simp add: list_all_iff)
    moreover have "stampOffsetsL False (map (\<lambda>n. Str (js n)) ns) = []" for ns by (induction ns) auto
    ultimately show ?thesis using c assms(2) by (auto simp: subspace_def packTrackedSync_enc at_section_def K_def list_all_iff)
  qed
  show ?thesis
    using assms(1) child [of _ "[]"] child [of _ "[''shard'']"] child [of _ "[''address'']"]
    by (auto simp: makeMessageSubspaces_def Let_def bindR_eq_Inr mailbox_at_def)
qed

text \<open>Keys of a section.\<close>

lemma sect_iff: "sect p n k \<longleftrightarrow> (\<exists>r. k = K p n [] @ r \<and> r \<noteq> [] \<and> follows r)"
  unfolding inRange_def by (rule tuples.in_range_iff)

lemma sect_append:
  assumes "list_all packable r" and "follows x" and "r \<noteq> [] \<or> x \<noteq> []"
  shows "sect p n (K p n r @ x)"
proof -
  have "encs False r \<noteq> [] \<or> x \<noteq> []" using assms(1,3) enc_hd by (cases r) (auto, metis list.distinct(1))
  moreover have "follows (encs False r @ x)" using assms by (intro follows_encs)
  ultimately show ?thesis unfolding sect_iff K_def by (intro exI [of _ "encs False r @ x"]) (simp add: K_def)
qed

lemma sect_range:
  assumes "list_all packable r" and "K p n r @ [NIL] \<le> k" and "k < K p n r @ [ESCAPE]"
  shows "sect p n k"
proof -
  obtain x where "k = K p n r @ x" "x \<noteq> []" "follows x" using assms(2,3) tuples.in_range_iff by blast
  then show ?thesis using sect_append [OF assms(1)] by blast
qed

lemma sect_unique: "sect p n k \<Longrightarrow> sect p n' k \<Longrightarrow> n = n'"
  using inRange_disjoint by fastforce

section \<open>Steps that change some sections only\<close>

text \<open>The stamps of pending entries are incomplete.\<close>

definition pendingStamp :: "versionstamp \<Rightarrow> bool" where
  "pendingStamp v \<longleftrightarrow> (\<exists>n. v = Versionstamp (replicate 10 0xFF @ uint16BE n))"

definition stampsOk :: "order_attempt \<Rightarrow> bool" where
  "stampsOk a \<longleftrightarrow> (\<forall>(b, r) \<in> set (order_roots a). \<forall>(i, e) \<in> set (pending_map r). pendingStamp (pending_stamp e))"

definition touches :: "'s txn \<Rightarrow> bytes \<Rightarrow> string set \<Rightarrow> 's mailbox \<Rightarrow> 's mailbox \<Rightarrow> bool" where
  "touches T p N m m' \<longleftrightarrow> (stampsOk (order_state m) \<longrightarrow> stampsOk (order_state m')
     \<and> (\<forall>k. (\<forall>n \<in> N. \<not> sect p n k) \<longrightarrow> tx_get T (database m') k = tx_get T (database m) k))"

lemma touches_refl [intro!, simp]: "touches T p N m m"
  by (simp add: touches_def)

lemma touches_trans [trans]: "touches T p N m m1 \<Longrightarrow> touches T p N m1 m2 \<Longrightarrow> touches T p N m m2"
  by (simp add: touches_def)

lemma touches_mono: "touches T p N m m' \<Longrightarrow> N \<subseteq> N' \<Longrightarrow> touches T p N' m m'"
  unfolding touches_def by blast

lemma touches_steps: "touches T p N m m1 \<Longrightarrow> touches T p N' m1 m2 \<Longrightarrow> touches T p (N \<union> N') m m2"
  by (rule touches_trans [OF touches_mono touches_mono]) auto

lemma touches_get:
  "touches T p N m m' \<Longrightarrow> stampsOk (order_state m) \<Longrightarrow> sect p n k \<Longrightarrow> n \<notin> N \<Longrightarrow> tx_get T (database m') k = tx_get T (database m) k"
  unfolding touches_def using sect_unique by metis

lemma touches_stamps: "touches T p N m m' \<Longrightarrow> stampsOk (order_state m) \<Longrightarrow> stampsOk (order_state m')"
  by (simp add: touches_def)

lemma touchesI: "(stampsOk (order_state m) \<Longrightarrow> touches T p N m m') \<Longrightarrow> touches T p N m m'"
  unfolding touches_def by blast

lemma touches_database:
  "(\<And>k. \<not> sect p n k \<Longrightarrow> tx_get T s k = tx_get T (database m) k) \<Longrightarrow> n \<in> N \<Longrightarrow> touches T p N m (m\<lparr>database := s\<rparr>)"
  by (auto simp: touches_def)

lemma touches_foldR:
  "foldR f xs m = Inr m' \<Longrightarrow> (\<And>x m m'. x \<in> set xs \<Longrightarrow> f x m = Inr m' \<Longrightarrow> touches T p N m m') \<Longrightarrow> touches T p N m m'"
proof (induction xs arbitrary: m)
  case (Cons x xs)
  obtain m1 where m1: "f x m = Inr m1" "foldR f xs m1 = Inr m'" using Cons.prems(1) by (auto simp: bindR_eq_Inr)
  have "touches T p N m m1" by (rule Cons.prems(2) [OF _ m1(1)]) simp
  also have "touches T p N m1 m'" by (rule Cons.IH [OF m1(2)]) (rule Cons.prems(2), simp_all)
  finally show ?case .
qed simp

lemma set_update: "set (AList.update k v xs) \<subseteq> insert (k, v) (set xs)"
  by (induction xs) auto

lemma set_delete: "set (AList.delete k xs) \<subseteq> set xs"
  by (auto simp: AList.delete_eq)

lemma stampsOk_setRoot:
  assumes "stampsOk (order_state m)" and "\<And>i e. (i, e) \<in> set (pending_map r) \<Longrightarrow> pendingStamp (pending_stamp e)"
  shows "stampsOk (order_state (setRoot Q r m))"
proof -
  have "(b, r') \<in> insert (prefix_bytes (orders_sub Q), r) (set (order_roots (order_state m)))"
    if "(b, r') \<in> set (order_roots (order_state (setRoot Q r m)))" for b r'
    using that set_update by (fastforce simp: setRoot_def)
  then show ?thesis using assms unfolding stampsOk_def by fastforce
qed

lemma stampsOk_root: "stampsOk (order_state m) \<Longrightarrow> (i, e) \<in> set (pending_map (rootOf Q m)) \<Longrightarrow> pendingStamp (pending_stamp e)"
  by (auto simp: rootOf_def emptyRoot_def stampsOk_def split: option.splits dest!: map_of_SomeD)

lemma stampsOk_empty: "stampsOk emptyAttempt"
  by (simp add: stampsOk_def emptyAttempt_def)

section \<open>The steps\<close>

lemma pack_key:
  assumes "at_section p n r sub" and "subspace_pack sub t = Inr k"
  shows "k = K p n (r @ t)" and "list_all packable (r @ t)" and "r @ t \<noteq> [] \<Longrightarrow> sect p n k"
proof -
  show k: "k = K p n (r @ t)" and ok: "list_all packable (r @ t)"
    using assms by (auto simp: at_section_def subspace_pack_Inr tracked_def K_def)
  show "r @ t \<noteq> [] \<Longrightarrow> sect p n k" using sect_append [OF ok, of "[]" p n] by (simp add: k)
qed

lemma onDatabase_simps [simp]:
  "database (onDatabase f m) = f (database m)" "order_state (onDatabase f m) = order_state m"
  by (simp_all add: onDatabase_def)

lemma setRoot_simps [simp]: "database (setRoot Q r m) = database m"
  by (simp add: setRoot_def)

lemma touches_at:
  assumes "\<And>k. \<not> sect p n k \<Longrightarrow> tx_get T (f (database m)) k = tx_get T (database m) k"
  shows "touches T p {n} m (onDatabase f m)"
  using assms by (auto simp: touches_def)

context fdb
begin

lemma touches_set: "sect p n k \<Longrightarrow> touches T p {n} m (onDatabase (tx_set T k v) m)"
  by (rule touches_at) (auto simp: get_set)

lemma touches_clear: "sect p n k \<Longrightarrow> touches T p {n} m (onDatabase (tx_clear T k) m)"
  by (rule touches_at) (auto simp: get_clear)

lemma record_write_touches:
  assumes "record_write T J sub path a m = Inr m'" "at_section p n r sub" "path \<noteq> []"
  shows "touches T p {n} m m'"
proof -
  obtain k where k: "subspace_pack sub path = Inr k" "m' = onDatabase (tx_set T k (text_encode (encodeJson J a))) m"
    using assms(1) by (auto simp: record_write_def bindR_eq_Inr writeRecord_def onDatabase_def)
  show ?thesis unfolding k(2) by (rule touches_set) (use pack_key(3) [OF assms(2) k(1)] assms(3) in simp)
qed

lemma record_clear_touches:
  assumes "record_clear T sub path m = Inr m'" "at_section p n r sub" "path \<noteq> []"
  shows "touches T p {n} m m'"
proof -
  obtain k where k: "subspace_pack sub path = Inr k" "m' = onDatabase (tx_clear T k) m"
    using assms(1) by (auto simp: record_clear_def bindR_eq_Inr)
  show ?thesis unfolding k(2) by (rule touches_clear) (use pack_key(3) [OF assms(2) k(1)] assms(3) in simp)
qed

lemma setRow_touches:
  assumes "setRow T sub path v m = Inr m'" "at_section p n r sub" "path \<noteq> []"
  shows "touches T p {n} m m'"
proof -
  obtain k where k: "subspace_pack sub path = Inr k" "m' = onDatabase (tx_set T k v) m"
    using assms(1) by (auto simp: setRow_def bindR_eq_Inr)
  show ?thesis unfolding k(2) by (rule touches_set) (use pack_key(3) [OF assms(2) k(1)] assms(3) in simp)
qed

lemma clearRange_touches:
  assumes "at_section p n r sub" and "subspace_range sub path = Inr (b, e)"
  shows "touches T p {n} m (onDatabase (tx_clearRange T b e) m)"
proof (rule touches_at)
  fix k assume k: "\<not> sect p n k"
  have "b = K p n (r @ path) @ [NIL]" "e = K p n (r @ path) @ [ESCAPE]" "list_all packable (r @ path)"
    using assms by (auto simp: at_section_def subspace_range_Inr tracked_def K_def)
  then show "tx_get T (tx_clearRange T b e (database m)) k = tx_get T (database m) k"
    using k sect_range [of "r @ path" p n k] by (auto simp: get_clearRange)
qed

lemma clearRows_touches: "clearRows T sub path m = Inr m' \<Longrightarrow> at_section p n r sub \<Longrightarrow> touches T p {n} m m'"
  using clearRange_touches by (auto simp: clearRows_def bindR_eq_Inr)

lemma chunked_clear_touches: "chunked_clear T sub path m = Inr m' \<Longrightarrow> at_section p n r sub \<Longrightarrow> touches T p {n} m m'"
  using clearRange_touches [of p n r sub path _ _ m]
  by (auto simp: chunked_clear_def bindR_eq_Inr clearChunkedValue_def chunkedValueRange_def onDatabase_def)

lemma chunked_write_touches:
  assumes "chunked_write T J sub path a m = Inr m'" and "at_section p n r sub" and "list_all constructed path"
  shows "touches T p {n} m m'"
proof -
  obtain s where s: "writeChunkedValue T sub path (text_encode (encodeJson J a)) (database m) = Inr s" and m': "m' = m\<lparr>database := s\<rparr>"
    using assms(1) by (auto simp: chunked_write_def bindR_eq_Inr)
  have at: "prefix_bytes sub @ encs False path = K p n (r @ path)" using at_prefix [OF assms(2)] by (simp add: K_def)
  from write_Inr [OF s assms(3) at] have w: "tuple_ok path" "\<And>k. \<not> inRange p n (r @ path) k \<Longrightarrow> tx_get T s k = tx_get T (database m) k"
    by blast+
  have "list_all packable (r @ path)" using w(1) assms(2) by (simp add: tuple_ok_def at_section_def)
  then have "tx_get T s k = tx_get T (database m) k" if "\<not> sect p n k" for k
    using that w(2) sect_range unfolding inRange_def by blast
  from touches_database [OF this insertI1] show ?thesis by (simp add: m')
qed

end

section \<open>The steps of the order\<close>

lemma pendingStamp_incomplete: "pendingStamp v \<Longrightarrow> \<not> isComplete v"
  by (auto simp: pendingStamp_def isComplete_def)

lemma stampedKey_completes:
  assumes "subspace_packWithVersionstamp space [Stamp v, Str i] = Inr k" and "at_section p n r space" and "pendingStamp v"
    and "mayComplete k k'"
  shows "sect p n k'"
proof -
  let ?t = "[Stamp v, Str i]" and ?b = "K p n r"
  have ok: "list_all packable ?t" using assms(1) appendValue_error(2) [of ?t "[]" False "[]"]
    by (cases "list_all packable ?t") (auto simp: subspace_packWithVersionstamp_def packTrackedSync_def)
  have os: "stampOffsetsL False ?t = [1]" using pendingStamp_incomplete [OF assms(3)] by simp
  have k: "k = (?b @ encs False ?t) @ rev (natBE 4 (length ?b + 1))" and small: "length ?b + 1 \<le> 0xffffffff"
    using assms(1,2) ok os
    by (auto simp: subspace_packWithVersionstamp_def packTrackedSync_enc at_section_def tracked_def appendVersionstampOffset_def
        split: if_splits simp del: encs_simps)
  have "leNat (rev (natBE 4 (length ?b + 1))) = length ?b + 1"
    using small by (simp add: leNat_def beNat_natBE)
  moreover have "length k - 4 = length (?b @ encs False ?t)" by (simp add: k del: encs_simps)
  ultimately have "take (length ?b + 1) k' = take (length ?b + 1) k"
    using assms(4) by (simp add: mayComplete_def Let_def k del: encs_simps)
  moreover have "take (length ?b + 1) k = ?b @ [0x33]" by (simp add: k)
  ultimately have "k' = ?b @ (0x33 # drop (length ?b + 1) k')" by (metis append_Cons append_Nil append_assoc append_take_drop_id)
  moreover have "list_all packable r" using assms(2) by (simp add: at_section_def)
  then have "sect p n (?b @ (0x33 # drop (length ?b + 1) k'))" by (rule sect_append) simp_all
  ultimately show ?thesis by simp
qed

context fdb_stamped
begin

lemma writeIndex_touches:
  assumes "writeIndex T space entry m = Inr m'" and "at_section p n r space" and "pendingStamp (pending_stamp entry)"
  shows "touches T p {n} m m'"
proof -
  obtain k where k: "subspace_packWithVersionstamp space [Stamp (pending_stamp entry), Str (pending_id entry)] = Inr k"
    "m' = onDatabase (tx_atomicOp T k [] SetVersionstampedKey) m"
    using assms(1) by (auto simp: writeIndex_def bindR_eq_Inr)
  show ?thesis unfolding k(2)
  proof (rule touches_at)
    fix k' assume "\<not> sect p n k'"
    then show "tx_get T (tx_atomicOp T k [] SetVersionstampedKey (database m)) k' = tx_get T (database m) k'"
      using stampedKey_completes [OF k(1) assms(2,3)] get_stampedKey by blast
  qed
qed

lemma rewriteTail_touches:
  assumes "rewriteTail T Q boundary space m = Inr m'" and "at_section p n r space"
  shows "touches T p {n} m m'"
proof (rule touchesI)
  assume st: "stampsOk (order_state m)"
  obtain b x e where b: "subspace_pack space [Stamp boundary] = Inr b" and e: "subspace_range space [] = Inr (x, e)"
    and m': "foldR (\<lambda>entry m. if indexed entry \<and> (\<exists>candidate \<in> set (pending_indexes entry). subspace_equals candidate space)
        then writeIndex T space entry m else Inr m) (map snd (pending_map (rootOf Q m)))
        (onDatabase (tx_clearRange T b e \<circ> tx_addConflictRange T b e ReadConflict) m) = Inr m'"
    using assms(1) by (auto simp: rewriteTail_def bindR_eq_Inr Let_def rootOf_def)
  have "touches T p {n} m (onDatabase (tx_clearRange T b e \<circ> tx_addConflictRange T b e ReadConflict) m)"
  proof (rule touches_at)
    fix k assume k: "\<not> sect p n k"
    have r: "list_all packable r" using assms(2) by (simp add: at_section_def)
    have "e = K p n r @ [ESCAPE]" using e assms(2) by (auto simp: at_section_def subspace_range_Inr tracked_def)
    moreover have "K p n r @ [NIL] \<le> b"
      using b assms(2) by (auto simp: at_section_def subspace_pack_Inr tracked_def append_less_append_same less_imp_le)
    ultimately show "tx_get T ((tx_clearRange T b e \<circ> tx_addConflictRange T b e ReadConflict) (database m)) k = tx_get T (database m) k"
      using k sect_range [OF r, of p n k] order_trans [of "K p n r @ [NIL]" b k] by (auto simp: get_clearRange get_addConflictRange)
  qed
  also have "touches T p {n} (onDatabase (tx_clearRange T b e \<circ> tx_addConflictRange T b e ReadConflict) m) m'"
  proof (rule touches_foldR [OF m'])
    fix entry s s' assume x: "entry \<in> set (map snd (pending_map (rootOf Q m)))"
      and w: "(if indexed entry \<and> (\<exists>candidate \<in> set (pending_indexes entry). subspace_equals candidate space)
        then writeIndex T space entry s else Inr s) = Inr s'"
    have "pendingStamp (pending_stamp entry)" using x stampsOk_root [OF st] by auto
    then show "touches T p {n} s s'" using w writeIndex_touches [OF _ assms(2)] by (auto split: if_splits)
  qed
  finally show "touches T p {n} m m'" .
qed

lemma setRoot_touches:
  assumes "\<And>i e. (i, e) \<in> set (pending_map r) \<Longrightarrow> stampsOk (order_state m) \<Longrightarrow> pendingStamp (pending_stamp e)"
  shows "touches T p {} m (setRoot Q r m)"
  using stampsOk_setRoot [of m r Q] assms by (auto simp: touches_def)

lemma setMessageOrderIndexed_touches:
  assumes "setMessageOrderIndexed T Q i indexes b m = Inr m'" and at: "\<And>index. index \<in> set indexes \<Longrightarrow> \<exists>r. at_section p n r index"
  shows "touches T p {n} m m'"
proof (rule touchesI)
  assume st: "stampsOk (order_state m)"
  let ?root = "rootOf Q m"
  show "touches T p {n} m m'"
  proof (cases "map_of (pending_map ?root) i")
    case (Some entry)
    let ?entry = "entry\<lparr>indexed := b\<rparr>"
    let ?m = "setRoot Q (?root\<lparr>pending_map := AList.update i ?entry (pending_map ?root)\<rparr>) m"
    have old: "pendingStamp (pending_stamp e)" if "(j, e) \<in> set (pending_map ?root)" for j e
      using stampsOk_root [OF st] that by simp
    have stamp: "pendingStamp (pending_stamp ?entry)" using old map_of_SomeD [OF Some] by simp
    have "touches T p {} m ?m"
    proof (rule setRoot_touches)
      fix j e assume "(j, e) \<in> set (pending_map (?root\<lparr>pending_map := AList.update i ?entry (pending_map ?root)\<rparr>))"
      then have "(j, e) \<in> insert (i, ?entry) (set (pending_map ?root))" using set_update by fastforce
      then show "pendingStamp (pending_stamp e)" using old stamp by auto
    qed
    then have m: "touches T p {n} m ?m" by (rule touches_mono) simp
    show ?thesis
    proof (cases "indexed entry = b")
      case True
      then show ?thesis using assms(1) Some by (simp add: setMessageOrderIndexed_def)
    next
      case False
      show ?thesis
      proof (cases b)
        case True
        then have "foldR (\<lambda>space. writeIndex T space ?entry) indexes ?m = Inr m'"
          using assms(1) Some False by (simp add: setMessageOrderIndexed_def Let_def)
        then have "touches T p {n} ?m m'"
          by (rule touches_foldR) (use at stamp writeIndex_touches in blast)
        with m show ?thesis by (rule touches_trans)
      next
        case False
        then obtain boundary where "foldR (rewriteTail T Q boundary) indexes ?m = Inr m'"
          using assms(1) Some \<open>indexed entry \<noteq> b\<close> by (auto simp: setMessageOrderIndexed_def Let_def bindR_eq_Inr)
        then have "touches T p {n} ?m m'"
          by (rule touches_foldR) (use at rewriteTail_touches in blast)
        with m show ?thesis by (rule touches_trans)
      qed
    qed
  next
    case None
    then obtain stamp where f: "foldR (\<lambda>space m. bindR (liftMessageKey (subspace_pack space [Stamp stamp, Str i])) (\<lambda>k.
        Inr (onDatabase (if b then tx_set T k [] else tx_clear T k) m))) indexes m = Inr m'"
      using assms(1) by (auto simp: setMessageOrderIndexed_def Let_def bindR_eq_Inr)
    show ?thesis
    proof (rule touches_foldR [OF f])
      fix space s s' assume x: "space \<in> set indexes" and w: "bindR (liftMessageKey (subspace_pack space [Stamp stamp, Str i])) (\<lambda>k.
        Inr (onDatabase (if b then tx_set T k [] else tx_clear T k) s)) = Inr s'"
      obtain r where r: "at_section p n r space" using at [OF x] by blast
      obtain k where k: "subspace_pack space [Stamp stamp, Str i] = Inr k" "s' = onDatabase (if b then tx_set T k [] else tx_clear T k) s"
        using w by (auto simp: bindR_eq_Inr)
      have "sect p n k" using pack_key(3) [OF r k(1)] by simp
      then show "touches T p {n} s s'" unfolding k(2) using touches_set touches_clear by simp
    qed
  qed
qed

lemma insertMessageOrder_touches:
  assumes "insertMessageOrder T Q i indexes False m = Inr m'" and Q: "at_section p n r (orders_sub Q)"
  shows "touches T p {n} m m'"
proof (rule touchesI)
  let ?n = "next_version (order_state m)"
  let ?m1 = "m\<lparr>order_state := (order_state m)\<lparr>next_version := Suc ?n\<rparr>\<rparr>"
  assume st: "stampsOk (order_state m)"
  obtain stamp k v where stamp: "versionstamp_incomplete (Fin (of_nat ?n)) = Inr stamp"
    and k: "subspace_pack (orders_sub Q) [Str i] = Inr k"
    and m': "m' = onDatabase (tx_atomicOp T k v SetVersionstampedValue)
      (setRoot Q ((rootOf Q ?m1)\<lparr>pending_map := AList.update i
        \<lparr>pending_id = i, pending_stamp = stamp, pending_indexes = indexes, indexed = False\<rparr> (pending_map (rootOf Q ?m1))\<rparr>) ?m1)"
    using assms(1) by (auto simp: insertMessageOrder_def Let_def bindR_eq_Inr)
  let ?entry = "\<lparr>pending_id = i, pending_stamp = stamp, pending_indexes = indexes, indexed = False\<rparr>"
  have "pendingStamp stamp"
    using stamp by (auto simp: versionstamp_incomplete_def versionstamp_complete_def bindR_eq_Inr pendingStamp_def split: if_splits)
  have st1: "stampsOk (order_state ?m1)" using st by (simp add: stampsOk_def)
  have "touches T p {} ?m1 (setRoot Q ((rootOf Q ?m1)\<lparr>pending_map := AList.update i ?entry (pending_map (rootOf Q ?m1))\<rparr>) ?m1)"
  proof (rule setRoot_touches)
    fix j e assume "(j, e) \<in> set (pending_map ((rootOf Q ?m1)\<lparr>pending_map := AList.update i ?entry (pending_map (rootOf Q ?m1))\<rparr>))"
    then have "(j, e) \<in> insert (i, ?entry) (set (pending_map (rootOf Q ?m1)))" using set_update by fastforce
    then show "pendingStamp (pending_stamp e)" using stampsOk_root [OF st1] \<open>pendingStamp stamp\<close> by auto
  qed
  then have "touches T p {n} m (setRoot Q ((rootOf Q ?m1)\<lparr>pending_map := AList.update i ?entry (pending_map (rootOf Q ?m1))\<rparr>) ?m1)"
    using st st1 by (simp add: touches_def)
  also have "sect p n k" using pack_key(3) [OF Q k] by simp
  then have "touches T p {n} (setRoot Q ((rootOf Q ?m1)\<lparr>pending_map := AList.update i ?entry (pending_map (rootOf Q ?m1))\<rparr>) ?m1) m'"
    unfolding m' by (intro touches_at get_stampedValue) auto
  finally show "touches T p {n} m m'" .
qed

lemma removeMessageOrder_touches:
  assumes "removeMessageOrder T Q i indexes m = Inr m'" and at: "\<And>index. index \<in> set indexes \<Longrightarrow> \<exists>r. at_section p n r index"
    and Q: "at_section p n' r (orders_sub Q)"
  shows "touches T p {n, n'} m m'"
proof -
  obtain m1 k where m1: "setMessageOrderIndexed T Q i indexes False m = Inr m1" and k: "subspace_pack (orders_sub Q) [Str i] = Inr k"
    and m': "m' = onDatabase (tx_clear T k) (setRoot Q ((rootOf Q m1)\<lparr>pending_map := AList.delete i (pending_map (rootOf Q m1)),
      committed_map := AList.delete i (committed_map (rootOf Q m1))\<rparr>) m1)"
    using assms(1) by (auto simp: removeMessageOrder_def Let_def bindR_eq_Inr)
  let ?m2 = "setRoot Q ((rootOf Q m1)\<lparr>pending_map := AList.delete i (pending_map (rootOf Q m1)),
      committed_map := AList.delete i (committed_map (rootOf Q m1))\<rparr>) m1"
  have "touches T p {} m1 ?m2"
  proof (rule setRoot_touches)
    fix j e assume "(j, e) \<in> set (pending_map ((rootOf Q m1)\<lparr>pending_map := AList.delete i (pending_map (rootOf Q m1)),
        committed_map := AList.delete i (committed_map (rootOf Q m1))\<rparr>))" and st: "stampsOk (order_state m1)"
    then have "(j, e) \<in> set (pending_map (rootOf Q m1))" using set_delete by fastforce
    then show "pendingStamp (pending_stamp e)" by (rule stampsOk_root [OF st])
  qed
  moreover have "touches T p {n} m m1" by (rule setMessageOrderIndexed_touches [OF m1 at])
  moreover have "touches T p {n'} ?m2 m'" unfolding m' by (rule touches_clear) (use pack_key(3) [OF Q k] in simp)
  ultimately have "touches T p (({n} \<union> {}) \<union> {n'}) m m'" by (intro touches_steps)
  then show ?thesis by (rule touches_mono) blast
qed

section \<open>The steps of the storage\<close>

lemma readyIndexes_at:
  assumes "readyIndexes text Q meta = Inr indexes" and "mailbox_at Q p" and "index \<in> set indexes"
  shows "\<exists>r. at_section p ''ready'' r index"
proof -
  let ?shard = "[Str (text (shardId (message_address meta)))]" and ?address = "addressKey text (message_address meta)"
  obtain a b where ab: "subspace (readyByShard_sub Q) ?shard = Inr a" "subspace (readyByAddress_sub Q) ?address = Inr b"
    "indexes = [a, b]"
    using assms(1) by (auto simp: readyIndexes_def bindR_eq_Inr)
  have at: "at_section p ''ready'' [Str (js ''shard'')] (readyByShard_sub Q)" "at_section p ''ready'' [Str (js ''address'')] (readyByAddress_sub Q)"
    using assms(2) by (simp_all add: mailbox_at_def)
  have "at_section p ''ready'' ([Str (js ''shard'')] @ ?shard) a" by (rule subspace_strings [OF ab(1) at(1)]) simp
  moreover have "at_section p ''ready'' ([Str (js ''address'')] @ ?address) b"
    by (rule subspace_strings [OF ab(2) at(2)]) (simp add: addressKey_def)
  ultimately show ?thesis using assms(3) ab(3) by auto
qed

lemma scheduledIndexes_at:
  assumes "scheduledIndexes text Q meta = Inr indexes" and "mailbox_at Q p" and "index \<in> set indexes"
  shows "\<exists>r. at_section p ''scheduled'' r index"
proof -
  let ?shard = "[Str (text (shardId (message_address meta)))]" and ?address = "addressKey text (message_address meta)"
  obtain a b where ab: "subspace (scheduledByShard_sub Q) ?shard = Inr a" "subspace (scheduledByAddress_sub Q) ?address = Inr b"
    "indexes = [a, b]"
    using assms(1) by (auto simp: scheduledIndexes_def bindR_eq_Inr)
  have at: "at_section p ''scheduled'' [Str (js ''shard'')] (scheduledByShard_sub Q)" "at_section p ''scheduled'' [Str (js ''address'')] (scheduledByAddress_sub Q)"
    using assms(2) by (simp_all add: mailbox_at_def)
  have "at_section p ''scheduled'' ([Str (js ''shard'')] @ ?shard) a" by (rule subspace_strings [OF ab(1) at(1)]) simp
  moreover have "at_section p ''scheduled'' ([Str (js ''address'')] @ ?address) b"
    by (rule subspace_strings [OF ab(2) at(2)]) (simp add: addressKey_def)
  ultimately show ?thesis using assms(3) ab(3) by auto
qed

lemma timers_touch:
  assumes "foldR (\<lambda>index m. bindR (timerKey index t i) (\<lambda>k. Inr (onDatabase (f k) m))) indexes m = Inr m'"
    and "scheduledIndexes text Q meta = Inr indexes" and "mailbox_at Q p"
    and f: "\<And>k m. sect p ''scheduled'' k \<Longrightarrow> touches T p {''scheduled''} m (onDatabase (f k) m)"
  shows "touches T p {''scheduled''} m m'"
proof (rule touches_foldR [OF assms(1)])
  fix index s s' assume x: "index \<in> set indexes" and w: "bindR (timerKey index t i) (\<lambda>k. Inr (onDatabase (f k) s)) = Inr s'"
  obtain r where r: "at_section p ''scheduled'' r index" using scheduledIndexes_at [OF assms(2,3) x] by blast
  obtain k where k: "subspace_pack index [Number (numberBits t), Str i] = Inr k" "s' = onDatabase (f k) s"
    using w by (auto simp: timerKey_def bindR_eq_Inr)
  show "touches T p {''scheduled''} s s'" unfolding k(2) by (rule f) (use pack_key(3) [OF r k(1)] in simp)
qed

lemma clearMessageTimer_touches:
  assumes "clearMessageTimer T text Q meta m = Inr m'" and "mailbox_at Q p"
  shows "touches T p {''scheduled''} m m'"
  using assms timers_touch [where f = "tx_clear T"] touches_clear
  by (cases "message_polling meta") (fastforce simp: clearMessageTimer_def bindR_eq_Inr)+

lemma setMessagePolling_touches:
  assumes "setMessagePolling T text Q meta new m = Inr (meta', m')" and Q: "mailbox_at Q p"
  shows "touches T p {''scheduled'', ''ready''} m m'" and "meta' = meta\<lparr>message_polling := new\<rparr>"
proof -
  have "touches T p {''scheduled'', ''ready''} m m' \<and> meta' = meta\<lparr>message_polling := new\<rparr>"
  proof (cases "message_polling meta = new")
    case True
    then show ?thesis using assms(1) by (auto simp: setMessagePolling_def)
  next
    case False
    obtain m1 m2 where m1: "clearMessageTimer T text Q meta m = Inr m1"
      and m2: "(if message_polling meta = Ready \<or> new = Ready then bindR (readyIndexes text Q meta) (\<lambda>indexes.
             setMessageOrderIndexed T Q (message_id meta) indexes (new = Ready) m1) else Inr m1) = Inr m2"
      and m': "(case new of At t \<Rightarrow> bindR (scheduledIndexes text Q meta) (\<lambda>indexes.
             foldR (\<lambda>index m. bindR (timerKey index t (message_id meta)) (\<lambda>k. Inr (onDatabase (tx_set T k []) m))) indexes m2)
         | _ \<Rightarrow> Inr m2) = Inr m'" and meta': "meta' = meta\<lparr>message_polling := new\<rparr>"
      using assms(1) False by (auto simp: setMessagePolling_def bindR_eq_Inr)
    have "touches T p {''scheduled''} m m1" by (rule clearMessageTimer_touches [OF m1 Q])
    moreover have "touches T p {''ready''} m1 m2"
    proof (cases "message_polling meta = Ready \<or> new = Ready")
      case True
      then obtain indexes where i: "readyIndexes text Q meta = Inr indexes"
        "setMessageOrderIndexed T Q (message_id meta) indexes (new = Ready) m1 = Inr m2" using m2 by (auto simp: bindR_eq_Inr)
      show ?thesis by (rule setMessageOrderIndexed_touches [OF i(2) readyIndexes_at [OF i(1) Q]])
    qed (use m2 in auto)
    moreover have "touches T p {''scheduled''} m2 m'"
      using m' timers_touch [where f = "\<lambda>k. tx_set T k []", OF _ _ Q] touches_set by (cases new) (fastforce simp: bindR_eq_Inr)+
    ultimately have "touches T p (({''scheduled''} \<union> {''ready''}) \<union> {''scheduled''}) m m'" by (intro touches_steps)
    then have "touches T p {''scheduled'', ''ready''} m m'" by (rule touches_mono) blast
    with meta' show ?thesis by blast
  qed
  then show "touches T p {''scheduled'', ''ready''} m m'" and "meta' = meta\<lparr>message_polling := new\<rparr>" by blast+
qed

lemma writeMessage_steps:
  assumes "writeMessage E Q meta state m = Inr m'" and "message_txn E = T" and Q: "mailbox_at Q p"
  obtains m1 k where "touches T p {''scheduled'', ''ready''} m m1" "k = K p ''message'' [Str (message_id meta)]"
    "wellFormed (message_id meta)" "m' = onDatabase (writeRecord T (metaJson E) k (meta\<lparr>message_polling := pollingState meta state\<rparr>)) m1"
proof -
  obtain meta1 m1 k where m1: "setMessagePolling T (shardString E) Q meta (pollingState meta state) m = Inr (meta1, m1)"
    and k: "subspace_pack (messages_sub Q) [Str (message_id meta)] = Inr k" "m' = onDatabase (writeRecord T (metaJson E) k meta1) m1"
    using assms(1,2) by (auto simp: writeMessage_def bindR_eq_Inr record_write_def)
  have "at_section p ''message'' [] (messages_sub Q)" using Q by (simp add: mailbox_at_def)
  from pack_key(1,2) [OF this k(1)] setMessagePolling_touches [OF m1 Q] k(2) show thesis by (intro that) auto
qed

lemma writeMessage_touches:
  assumes "writeMessage E Q meta state m = Inr m'" and "message_txn E = T" and Q: "mailbox_at Q p"
  shows "touches T p {''scheduled'', ''ready'', ''message''} m m'"
proof -
  obtain m1 k where m1: "touches T p {''scheduled'', ''ready''} m m1" and k: "k = K p ''message'' [Str (message_id meta)]"
    "wellFormed (message_id meta)" "m' = onDatabase (writeRecord T (metaJson E) k (meta\<lparr>message_polling := pollingState meta state\<rparr>)) m1"
    by (rule writeMessage_steps [OF assms])
  have "sect p ''message'' k" using sect_append [of "[Str (message_id meta)]" "[]" p "''message''"] k(1,2) by simp
  then have "touches T p {''message''} m1 m'" unfolding k(3) writeRecord_def by (rule touches_set)
  from touches_steps [OF m1 this] show ?thesis by (rule touches_mono) blast
qed

end

end
