(* ===== verification/Message_Visits.thy ===== *)
theory Message_Visits
  imports Message_Frame
begin

text \<open>
  What the loops of the mailbox preserve: a relation between states that every step of a visit is in, and that is
  reflexive and transitive, relates the states before and after the loop. With it, the sections that the operations change.
\<close>

section \<open>Loops\<close>

locale steps =
  fixes R :: "'b \<Rightarrow> 'b \<Rightarrow> bool"
  assumes refl [simp, intro]: "R x x" and trans: "R x y \<Longrightarrow> R y z \<Longrightarrow> R x z"
begin

lemma foldR_steps: "foldR f xs s = Inr s' \<Longrightarrow> (\<And>x s s'. x \<in> set xs \<Longrightarrow> f x s = Inr s' \<Longrightarrow> R s s') \<Longrightarrow> R s s'"
proof (induction xs arbitrary: s)
  case (Cons x xs)
  obtain t where "f x s = Inr t" "foldR f xs t = Inr s'" using Cons.prems(1) by (auto simp: bindR_eq_Inr)
  then show ?case using Cons.IH [of t] Cons.prems(2) trans by (meson list.set_intros)
qed simp

lemma foldO_steps: "foldO f xs s = Some (Inr s') \<Longrightarrow> (\<And>x s s'. x \<in> set xs \<Longrightarrow> f x s = Some (Inr s') \<Longrightarrow> R s s') \<Longrightarrow> R s s'"
proof (induction xs arbitrary: s)
  case (Cons x xs)
  obtain t where "f x s = Some (Inr t)" "foldO f xs t = Some (Inr s')" using Cons.prems(1) by (auto simp: bindO_Inr)
  then show ?case using Cons.IH [of t] Cons.prems(2) trans by (meson list.set_intros)
qed simp

end

text \<open>A relation on the state of a visit.\<close>

locale visit_steps = steps R for R :: "'a \<times> 's mailbox \<Rightarrow> 'a \<times> 's mailbox \<Rightarrow> bool"
begin

lemma visitRows_steps:
  "visitRows index visit rows st = Inr (g, st') \<Longrightarrow> (\<And>i st g st'. visit i st = Inr (g, st') \<Longrightarrow> R st st') \<Longrightarrow> R st st'"
proof (induction rows arbitrary: st)
  case (Cons row rest)
  obtain i g1 st1 where i: "visit i st = Inr (g1, st1)"
    "(if g1 then visitRows index visit rest st1 else Inr (False, st1)) = Inr (g, st')"
    using Cons.prems(1) by (auto simp: bindR_eq_Inr)
  have "R st1 st'" using Cons.IH [OF _ Cons.prems(2)] i(2) by (cases g1) auto
  then show ?case using Cons.prems(2) [OF i(1)] trans by blast
qed simp

lemma visitLoop_steps:
  assumes "visitLoop T index visit b e st = Some (Inr st')" and "\<And>i st g st'. visit i st = Inr (g, st') \<Longrightarrow> R st st'"
  shows "R st st'"
proof -
  let ?P = "\<lambda>T' index' visit' b e st r. T' = T \<longrightarrow> index' = index \<longrightarrow> visit' = visit \<longrightarrow> r = (Inr st' :: message_error + 'a \<times> 's mailbox) \<longrightarrow> R st st'"
  have "?P T index visit b e st (Inr st')"
  proof (rule visitLoop.raw_induct [of ?P T index visit b e st "Inr st'"])
    show "visitLoop T index visit b e st = Some (Inr st')" by (rule assms(1))
  next
    fix loop T' index' visit' b e st r
    assume IH: "\<And>T' index' visit' b e st r. loop T' index' visit' b e st = Some r \<Longrightarrow> ?P T' index' visit' b e st r"
      and step: "(let rows = tx_getRange T' (database (snd st)) (keyRange b e (Some mailboxPageSize) False) in
        case visitRows index' visit' rows st of Inl err \<Rightarrow> Some (Inl err)
        | Inr (goOn, st) \<Rightarrow> if \<not> goOn \<or> length rows < mailboxPageSize then Some (Inr st)
            else loop T' index' visit' (fst (last rows) @ [0]) e st) = Some r"
    show "?P T' index' visit' b e st r"
    proof (intro impI)
      assume T: "T' = T" "index' = index" "visit' = visit" "r = Inr st'"
      let ?rows = "tx_getRange T (database (snd st)) (keyRange b e (Some mailboxPageSize) False)"
      obtain g st1 where v: "visitRows index visit ?rows st = Inr (g, st1)"
        using step T by (auto simp: Let_def split: sum.splits)
      have "R st st1" by (rule visitRows_steps [OF v assms(2)])
      moreover have "R st1 st'"
      proof (cases "\<not> g \<or> length ?rows < mailboxPageSize")
        case True
        then show ?thesis using step T v by (auto simp: Let_def)
      next
        case False
        then show ?thesis using step T v IH by (auto simp: Let_def)
      qed
      ultimately show "R st st'" by (rule trans)
    qed
  qed
  then show ?thesis by simp
qed

lemma visitIndex_steps:
  assumes "visitIndex T index visit st = Some (Inr st')" and "\<And>i st g st'. visit i st = Inr (g, st') \<Longrightarrow> R st st'"
  shows "R st st'"
proof -
  obtain x where x: "(case x of (b, e) \<Rightarrow> visitLoop T index visit b e st) = Some (Inr st')"
    using assms(1) unfolding visitIndex_def bindO_Inr by blast
  obtain b e where "x = (b, e)" by (cases x)
  with x have "visitLoop T index visit b e st = Some (Inr st')" by simp
  then show ?thesis by (rule visitLoop_steps [OF _ assms(2)])
qed

lemma appendId_steps:
  assumes "appendId visit i (batch, st) = Inr (g, batch', st')" and "\<And>ids st g st'. visit ids st = Inr (g, st') \<Longrightarrow> R st st'"
  shows "R st st'"
proof (cases "length (batch @ [i]) < orderPageSize")
  case True
  then show ?thesis using assms(1) by (simp add: appendId_def Let_def)
next
  case False
  then have "bindR (visit (batch @ [i]) st) (\<lambda>(goOn, st). Inr (goOn, [], st)) = Inr (g, batch', st')"
    using assms(1) by (simp add: appendId_def Let_def)
  then obtain r where r: "visit (batch @ [i]) st = Inr r" "(case r of (goOn, st) \<Rightarrow> Inr (goOn, [], st)) = (Inr (g, batch', st') :: message_error + _)"
    unfolding bindR_eq_Inr by blast
  have "r = (g, st')" using r(2) by (cases r) simp
  then show ?thesis using r(1) assms(2) by blast
qed

lemma appendAll_steps:
  "appendAll visit ids (batch, st) = Inr (g, batch', st') \<Longrightarrow> (\<And>ids st g st'. visit ids st = Inr (g, st') \<Longrightarrow> R st st') \<Longrightarrow> R st st'"
proof (induction ids arbitrary: batch st)
  case (Cons i rest)
  obtain g1 batch1 st1 where a: "appendId visit i (batch, st) = Inr (g1, batch1, st1)"
    "(if g1 then appendAll visit rest (batch1, st1) else Inr (False, batch1, st1)) = Inr (g, batch', st')"
    using Cons.prems(1) by (auto simp: bindR_eq_Inr)
  have "R st st1" by (rule appendId_steps [OF a(1) Cons.prems(2)])
  moreover have "R st1 st'" using a(2) Cons.IH [OF _ Cons.prems(2)] by (cases g1) auto
  ultimately show ?case by (rule trans)
qed simp

lemma mergeLoop_steps:
  assumes "mergeLoop T Q visit cursors (batch, st) = Some (Inr (g, batch', st'))"
    and visit: "\<And>ids st g st'. visit ids st = Inr (g, st') \<Longrightarrow> R st st'" and noted: "\<And>a m x. R (a, m) (a, noteCommitted Q x m)"
  shows "R st st'"
proof -
  let ?P = "\<lambda>T' Q' visit' cursors st r. T' = T \<longrightarrow> Q' = Q \<longrightarrow> visit' = visit \<longrightarrow> r = (Inr (g, batch', st') :: message_error + bool \<times> js_string list \<times> 'a \<times> 's mailbox) \<longrightarrow> R (snd st) st'"
  have "?P T Q visit cursors (batch, st) (Inr (g, batch', st'))"
  proof (rule mergeLoop.raw_induct [of ?P T Q visit cursors "(batch, st)" "Inr (g, batch', st')"])
    show "mergeLoop T Q visit cursors (batch, st) = Some (Inr (g, batch', st'))" by (rule assms(1))
  next
    fix loop T' Q' visit' cursors st r
    assume IH: "\<And>T' Q' visit' cursors st r. loop T' Q' visit' cursors st = Some r \<Longrightarrow> ?P T' Q' visit' cursors st r"
      and step: "(case selectCursor cursors of None \<Rightarrow> Some (Inr (True, st))
       | Some i \<Rightarrow> let head = the (cursor_head (cursors ! i));
             st = (fst st, fst (snd st), noteCommitted Q' head (snd (snd st))) in
         (case appendId visit' (snd head) st of Inl e \<Rightarrow> Some (Inl e)
          | Inr (goOn, st) \<Rightarrow> if \<not> goOn then Some (Inr (False, st))
              else (case cursorNext T' (database (snd (snd st))) (cursors ! i) of Inl e \<Rightarrow> Some (Inl e)
              | Inr c \<Rightarrow> loop T' Q' visit' (cursors[i := c]) st))) = Some r"
    show "?P T' Q' visit' cursors st r"
    proof (intro impI)
      assume T: "T' = T" "Q' = Q" "visit' = visit" "r = Inr (g, batch', st')"
      obtain b0 a0 m0 where st: "st = (b0, a0, m0)" by (cases st)
      show "R (snd st) st'"
      proof (cases "selectCursor cursors")
        case None
        then show ?thesis using step T by auto
      next
        case (Some i)
        let ?head = "the (cursor_head (cursors ! i))"
        obtain g1 b1 st1 where a: "appendId visit (snd ?head) (b0, a0, noteCommitted Q ?head m0) = Inr (g1, b1, st1)"
          using step T Some st by (auto simp: Let_def split: sum.splits)
        have "R (a0, m0) (a0, noteCommitted Q ?head m0)" by (rule noted)
        from trans [OF this appendId_steps [OF a visit]] have "R (snd st) st1" by (simp add: st)
        moreover have "R st1 st'"
        proof (cases g1)
          case True
          obtain c where "loop T Q visit (cursors[i := c]) (b1, st1) = Some r"
            using step T Some st a True by (auto simp: Let_def split: sum.splits)
          from IH [OF this] show ?thesis using T by simp
        next
          case False
          then show ?thesis using step T Some st a by (auto simp: Let_def)
        qed
        ultimately show ?thesis by (rule trans)
      qed
    qed
  qed
  then show ?thesis by simp
qed

lemma visitMessageOrder_steps:
  assumes "visitMessageOrder T Q indexes visit st = Some (Inr st')"
    and visit: "\<And>ids st g st'. visit ids st = Inr (g, st') \<Longrightarrow> R st st'" and noted: "\<And>a m x. R (a, m) (a, noteCommitted Q x m)"
  shows "R st st'"
proof -
  obtain cursors r where l: "mergeLoop T Q visit cursors ([], st) = Some (Inr r)"
    and r: "(case r of (goOn, st) \<Rightarrow> if \<not> goOn then Some (Inr (snd st))
      else bindO (Some (appendAll visit (pendingIds Q indexes (snd (snd st))) st)) (\<lambda>(goOn, batch, st).
          if \<not> goOn \<or> batch = [] then Some (Inr st) else Some (bindR (visit batch st) (\<lambda>(_, st). Inr st)))) = Some (Inr st')"
    using assms(1) unfolding visitMessageOrder_def Let_def bindO_Inr by blast
  obtain g batch st1 where gb: "r = (g, batch, st1)" by (cases r)
  note l = l [unfolded gb]
  have rest: "(if \<not> g then Some (Inr st1) else
        bindO (Some (appendAll visit (pendingIds Q indexes (snd st1)) (batch, st1))) (\<lambda>(goOn, batch, st).
          if \<not> goOn \<or> batch = [] then Some (Inr st) else Some (bindR (visit batch st) (\<lambda>(_, st). Inr st)))) = Some (Inr st')"
    using r unfolding gb prod.case snd_conv .
  have "R st st1" by (rule mergeLoop_steps [OF l visit noted])
  moreover have "R st1 st'"
  proof (cases g)
    case True
    obtain g2 batch2 st2 where a: "appendAll visit (pendingIds Q indexes (snd st1)) (batch, st1) = Inr (g2, batch2, st2)"
      and v: "(if \<not> g2 \<or> batch2 = [] then Inr st2 else bindR (visit batch2 st2) (\<lambda>(_, st). Inr st)) = Inr st'"
      using rest True by (auto simp: bindO_Inr split: if_splits)
    have "R st1 st2" by (rule appendAll_steps [OF a visit])
    moreover have "R st2 st'"
    proof (cases "\<not> g2 \<or> batch2 = []")
      case False
      then have "bindR (visit batch2 st2) (\<lambda>(_, st). Inr st) = Inr st'" using v by simp
      then obtain x where x: "visit batch2 st2 = Inr x" "(case x of (_, st) \<Rightarrow> Inr st) = (Inr st' :: message_error + _)"
        unfolding bindR_eq_Inr by blast
      have "x = (fst x, st')" using x(2) by (cases x) simp
      then show ?thesis using x(1) visit by metis
    qed (use v in auto)
    ultimately show ?thesis by (rule trans)
  qed (use rest in auto)
  ultimately show ?thesis by (rule trans)
qed

end

end
