(* ===== verification/Message_Sections.thy ===== *)
theory Message_Sections
  imports Message_Visits
begin

text \<open>
  The sections that the operations of the mailbox change: polling and resets leave the replies alone, and only the
  operations on replies, acknowledgements and the clearing of an address change them.
\<close>

interpretation touching: steps "touches T p N" for T p N
  by unfold_locales (auto intro: touches_trans)

interpretation touched: visit_steps "\<lambda>x y. touches T p N (snd x) (snd y)" for T p N
  by unfold_locales (auto intro: touches_trans)

definition pollingSections :: "string set" where
  "pollingSections = {''scheduled'', ''ready'', ''message''}"

lemma mailbox_atD:
  assumes "mailbox_at Q p"
  shows "at_section p ''message'' [] (messages_sub Q)" "at_section p ''envelope'' [] (envelopes_sub Q)"
    "at_section p ''state'' [] (requestStates_sub Q)" "at_section p ''primary'' [] (primaryKeys_sub Q)"
    "at_section p ''reply'' [] (replies_sub Q)" "at_section p ''reply-meta'' [] (replyMetadata_sub Q)"
    "at_section p ''replies'' [] (replyIds_sub Q)" "at_section p ''reply-unique'' [] (uniqueReplies_sub Q)"
    "at_section p ''shard'' [] (messagesByShard_sub Q)" "at_section p ''address'' [] (messagesByAddress_sub Q)"
    "at_section p ''request'' [] (messagesByRequest_sub Q)" "at_section p ''order'' [] (orders_sub Q)"
  using assms by (simp_all add: mailbox_at_def)

context fdb_stamped
begin

lemma noteCommitted_touches: "touches T p N m (noteCommitted Q x m)"
  unfolding noteCommitted_def Let_def
  by (rule touches_mono [OF setRoot_touches]) (auto intro: stampsOk_root)

lemma messageIndexes_at:
  assumes "messageIndexes text Q meta = Inr indexes" and "mailbox_at Q p" and "index \<in> set indexes"
  shows "\<exists>n r. n \<in> {''shard'', ''address'', ''request''} \<and> at_section p n r index"
proof -
  let ?shard = "[Str (text (shardId (message_address meta)))]" and ?address = "addressKey text (message_address meta)"
  obtain a b c where abc: "subspace (messagesByShard_sub Q) ?shard = Inr a" "subspace (messagesByAddress_sub Q) ?address = Inr b"
    "subspace (messagesByRequest_sub Q) [Str (requestId meta)] = Inr c" "indexes = [a, b, c]"
    using assms(1) by (auto simp: messageIndexes_def bindR_eq_Inr)
  have at: "at_section p ''shard'' [] (messagesByShard_sub Q)" "at_section p ''address'' [] (messagesByAddress_sub Q)"
    "at_section p ''request'' [] (messagesByRequest_sub Q)"
    using assms(2) by (simp_all add: mailbox_at_def)
  have "at_section p ''shard'' ([] @ ?shard) a" by (rule subspace_strings [OF abc(1) at(1)]) simp
  moreover have "at_section p ''address'' ([] @ ?address) b" by (rule subspace_strings [OF abc(2) at(2)]) (simp add: addressKey_def)
  moreover have "at_section p ''request'' ([] @ [Str (requestId meta)]) c" by (rule subspace_strings [OF abc(3) at(3)]) simp
  ultimately show ?thesis using assms(3) abc(4) by auto
qed

lemma indexRows_touch:
  assumes "foldR (\<lambda>index m. bindR (bigIntOf i) (\<lambda>n. f index [BigInt n] m)) indexes m = Inr m'"
    and "messageIndexes text Q meta = Inr indexes" and "mailbox_at Q p"
    and f: "\<And>index n r path m m'. f index path m = Inr m' \<Longrightarrow> at_section p n r index \<Longrightarrow> path \<noteq> [] \<Longrightarrow> touches T p {n} m m'"
  shows "touches T p {''shard'', ''address'', ''request''} m m'"
proof (rule touches_foldR [OF assms(1)])
  fix index s s' assume x: "index \<in> set indexes" and w: "bindR (bigIntOf i) (\<lambda>n. f index [BigInt n] s) = Inr s'"
  obtain n r where n: "n \<in> {''shard'', ''address'', ''request''}" "at_section p n r index"
    using messageIndexes_at [OF assms(2,3) x] by blast
  obtain z where "f index [BigInt z] s = Inr s'" using w by (auto simp: bindR_eq_Inr)
  then have "touches T p {n} s s'" using f n(2) by blast
  then show "touches T p {''shard'', ''address'', ''request''} s s'" by (rule touches_mono) (use n(1) in blast)
qed

lemma removeMessage_touches:
  assumes "removeMessage E Q meta m = Inr m'" and E: "message_txn E = T" and Q: "mailbox_at Q p"
  shows "touches T p (pollingSections \<union> {''order'', ''shard'', ''address'', ''request'', ''primary'', ''envelope''}) m m'" (is "touches T p ?N m m'")
proof -
  obtain m1 m2 m3 m4 m5 ready indexes where m1: "clearMessageTimer T (shardString E) Q meta m = Inr m1"
    and ready: "readyIndexes (shardString E) Q meta = Inr ready" and m2: "removeMessageOrder T Q (message_id meta) ready m1 = Inr m2"
    and indexes: "messageIndexes (shardString E) Q meta = Inr indexes"
    and m3: "foldR (\<lambda>index m. bindR (bigIntOf (message_id meta)) (\<lambda>n. record_clear T index [BigInt n] m)) indexes m2 = Inr m3"
    and m4: "(case primaryKey meta of None \<Rightarrow> Inr m3 | Some h \<Rightarrow> record_clear T (primaryKeys_sub Q) [Str h] m3) = Inr m4"
    and m5: "record_clear T (messages_sub Q) [Str (message_id meta)] m4 = Inr m5"
    and m': "chunked_clear T (envelopes_sub Q) [Str (message_id meta)] m5 = Inr m'"
    using assms(1) E unfolding removeMessage_def Let_def bindR_eq_Inr by blast
  note at = mailbox_atD [OF Q]
  have "touches T p ?N m m1" by (rule touches_mono [OF clearMessageTimer_touches [OF m1 Q]]) (simp add: pollingSections_def)
  also have "touches T p ?N m1 m2"
    by (rule touches_mono [OF removeMessageOrder_touches [OF m2 readyIndexes_at [OF ready Q] at(12)]]) (auto simp: pollingSections_def)
  also have "touches T p ?N m2 m3"
    by (rule touches_mono [OF indexRows_touch [OF m3 indexes Q record_clear_touches]]) auto
  also have "touches T p ?N m3 m4"
  proof (cases "primaryKey meta")
    case (Some h)
    then have "record_clear T (primaryKeys_sub Q) [Str h] m3 = Inr m4" using m4 by simp
    then have "touches T p {''primary''} m3 m4" by (rule record_clear_touches [OF _ at(4)]) simp
    then show ?thesis by (rule touches_mono) blast
  qed (use m4 in simp)
  also have "touches T p ?N m4 m5"
    by (rule touches_mono [OF record_clear_touches [OF m5 at(1)]]) (auto simp: pollingSections_def)
  also have "touches T p ?N m5 m'"
    by (rule touches_mono [OF chunked_clear_touches [OF m' at(2)]]) auto
  finally show ?thesis .
qed

lemma writeMessage_polls: "writeMessage E Q meta state m = Inr m' \<Longrightarrow> message_txn E = T \<Longrightarrow> mailbox_at Q p \<Longrightarrow> touches T p pollingSections m m'"
  unfolding pollingSections_def by (rule writeMessage_touches)

lemma updateRequest_touches:
  assumes "updateRequest E Q i update m = Some (Inr m')" and E: "message_txn E = T"
    and update: "\<And>meta m m'. update meta m = Inr m' \<Longrightarrow> touches T p N m m'"
  shows "touches T p N m m'"
proof -
  let ?visit = "\<lambda>messageId ((), m). bindR (record_read T (metaJson E) (messages_sub Q) [Str messageId] m) (\<lambda>meta.
        bindR (case meta of None \<Rightarrow> Inr m | Some meta \<Rightarrow> update meta m) (\<lambda>m. Inr (True, (), m)))"
  obtain index st where v: "visitIndex T index ?visit ((), m) = Some (Inr st)" and st: "(\<lambda>((), m). Some (Inr m)) st = Some (Inr m' :: message_error + _)"
    using assms(1) unfolding updateRequest_def bindO_Inr E by blast
  have "touches T p N (snd ((), m)) (snd st)"
  proof (rule touched.visitIndex_steps [OF v])
    fix i and st st' :: "unit \<times> 'a mailbox" and g assume w: "?visit i st = Inr (g, st')"
    obtain m1 where st: "st = ((), m1)" by (cases st) auto
    obtain meta m2 where "(case meta of None \<Rightarrow> Inr m1 | Some meta \<Rightarrow> update meta m1) = Inr m2" "st' = ((), m2)"
      using w unfolding st prod.case unit.case bindR_eq_Inr by blast
    then show "touches T p N (snd st) (snd st')" using update st by (auto split: option.splits)
  qed
  moreover obtain m2 where m2: "st = ((), m2)" by (cases st) simp
  then have "snd st = m'" using st unfolding m2 prod.case unit.case by simp
  ultimately show ?thesis by simp
qed

end

end
