(* ===== verification/Message_Replies.thy ===== *)
theory Message_Replies
  imports Message_Sections
begin

text \<open>
  The replies of a request: the state that the mailbox keeps of a request counts the chunks that are not
  acknowledged and names the exit, chunks of one request have different sequence numbers, and every operation of the
  mailbox keeps it so.
\<close>

section \<open>The rows of the replies\<close>

abbreviation stateKey :: "bytes \<Rightarrow> js_string \<Rightarrow> bytes" where
  "stateKey p i \<equiv> K p ''state'' [Str i]"

abbreviation replyKey :: "bytes \<Rightarrow> js_string \<Rightarrow> js_string \<Rightarrow> bytes" where
  "replyKey p i r \<equiv> K p ''reply-meta'' [Str i, Str r]"

abbreviation sequenceKey :: "bytes \<Rightarrow> js_string \<Rightarrow> int option \<Rightarrow> bytes" where
  "sequenceKey p i n \<equiv> K p ''reply-unique'' [Str i, case n of None \<Rightarrow> Str (js ''exit'') | Some n \<Rightarrow> BigInt n]"

definition replySections :: "string set" where
  "replySections = {''state'', ''reply-meta'', ''reply-unique''}"

definition stateOf :: "('s, 'e, 'r) message_env \<Rightarrow> bytes \<Rightarrow> store \<Rightarrow> js_string \<Rightarrow> request_state" where
  "stateOf E p h i = (case recordOf (stateJson E) (h (stateKey p i)) of None \<Rightarrow> initialState | Some st \<Rightarrow> st)"

definition replyOf :: "('s, 'e, 'r) message_env \<Rightarrow> bytes \<Rightarrow> store \<Rightarrow> js_string \<Rightarrow> js_string \<Rightarrow> reply_meta option" where
  "replyOf E p h i r = recordOf (replyMetaJson E) (h (replyKey p i r))"

text \<open>
  What the state of a request says of its replies \<open>F\<close> and of the rows \<open>X\<close> that keep sequence numbers unique: it counts
  the chunks that are not acknowledged, it names the exit, and every chunk owns the row of its number.
\<close>

definition unackedChunks :: "(js_string \<Rightarrow> reply_meta option) \<Rightarrow> js_string set" where
  "unackedChunks F = {r. wellFormed r \<and> (\<exists>x. F r = Some x \<and> reply_meta_kind x = Chunk \<and> \<not> acked x)}"

definition accounted :: "request_state \<Rightarrow> (js_string \<Rightarrow> reply_meta option) \<Rightarrow> (int option \<Rightarrow> bytes option) \<Rightarrow> bool" where
  "accounted st F X \<longleftrightarrow> finite (unackedChunks F) \<and> unacked st = int (card (unackedChunks F))
     \<and> (X None = None \<longleftrightarrow> exitId st = None)
     \<and> (\<forall>e. exitId st = Some e \<longrightarrow> wellFormed e \<and> (\<exists>x. F e = Some x))
     \<and> (\<forall>r x. wellFormed r \<longrightarrow> F r = Some x \<longrightarrow> (reply_meta_kind x = WithExit \<longleftrightarrow> exitId st = Some r))
     \<and> (\<forall>r x. wellFormed r \<longrightarrow> F r = Some x \<longrightarrow> reply_meta_kind x = Chunk \<longrightarrow>
          (\<exists>n. reply_meta_sequence x = Some n \<and> smallInt n \<and> X (Some n) = Some (text_encode r)))"

definition replies_ok :: "('s, 'e, 'r) message_env \<Rightarrow> bytes \<Rightarrow> store \<Rightarrow> bool" where
  "replies_ok E p h \<longleftrightarrow> (\<forall>i. wellFormed i \<longrightarrow> accounted (stateOf E p h i) (replyOf E p h i) (\<lambda>n. h (sequenceKey p i n)))"

lemma accounted_empty: "accounted initialState (\<lambda>r. None) (\<lambda>n. None)"
  by (simp add: accounted_def unackedChunks_def initialState_def)

lemma accounted_cong:
  assumes "accounted st F X" and "\<And>r. wellFormed r \<Longrightarrow> F' r = F r" and "X' None = X None" and "\<And>n. smallInt n \<Longrightarrow> X' (Some n) = X (Some n)"
  shows "accounted st F' X'"
proof -
  have u: "unackedChunks F' = unackedChunks F" using assms(2) by (auto simp: unackedChunks_def)
  show ?thesis
    using assms(1) unfolding accounted_def u assms(3) by (auto simp: assms(2,4)) (metis assms(2,4))+
qed

text \<open>A reply is added, acknowledged or removed.\<close>

lemma accounted_state:
  "accounted st F X \<Longrightarrow> unacked st' = unacked st \<Longrightarrow> exitId st' = exitId st \<Longrightarrow> accounted st' F X"
  by (simp add: accounted_def)

lemma accounted_chunk:
  assumes "accounted st F X" and "wellFormed r" and "F r = None" and "smallInt n" and "X (Some n) = None"
    and "reply_meta_kind x = Chunk" "reply_meta_sequence x = Some n" "\<not> acked x" and "unacked st' = unacked st + 1" "exitId st' = exitId st"
  shows "accounted st' (F(r \<mapsto> x)) (X(Some n \<mapsto> text_encode r))"
proof -
  have u: "unackedChunks (F(r \<mapsto> x)) = insert r (unackedChunks F)" and "r \<notin> unackedChunks F"
    using assms by (auto simp: unackedChunks_def)
  have "exitId st \<noteq> Some r" using assms(1,3) by (auto simp: accounted_def)
  then show ?thesis using assms \<open>r \<notin> unackedChunks F\<close> unfolding accounted_def u by auto (metis option.distinct(1))+
qed

lemma accounted_exit:
  assumes "accounted st F X" and "wellFormed r" and "F r = None" and "X None = None"
    and "reply_meta_kind x = WithExit" and "unacked st' = unacked st" "exitId st' = Some r"
  shows "accounted st' (F(r \<mapsto> x)) (X(None \<mapsto> b))"
proof -
  have u: "unackedChunks (F(r \<mapsto> x)) = unackedChunks F" using assms by (auto simp: unackedChunks_def)
  show ?thesis using assms unfolding accounted_def u by auto
qed

lemma accounted_acknowledged:
  assumes "accounted st F X" and "wellFormed r" and "F r = Some x" and "reply_meta_kind x = Chunk" "\<not> acked x"
    and "unacked st' = unacked st - 1" "exitId st' = exitId st"
  shows "accounted st' (F(r \<mapsto> x\<lparr>acked := True\<rparr>)) X"
proof -
  have r: "r \<in> unackedChunks F" and u: "unackedChunks (F(r \<mapsto> x\<lparr>acked := True\<rparr>)) = unackedChunks F - {r}"
    using assms by (auto simp: unackedChunks_def)
  have fin: "finite (unackedChunks F)" using assms(1) by (simp add: accounted_def)
  then have "0 < card (unackedChunks F)" using r card_gt_0_iff by blast
  then have "int (card (unackedChunks F - {r})) = int (card (unackedChunks F)) - 1" using r fin by simp
  then show ?thesis using assms unfolding accounted_def u by auto
qed

lemma accounted_removed:
  assumes "accounted st F X" and "exitId st = Some e" and "unacked st' = unacked st" "exitId st' = None"
  shows "accounted st' (F(e := None)) (X(None := None))"
proof -
  have e: "wellFormed e" "\<exists>x. F e = Some x \<and> reply_meta_kind x = WithExit" using assms(1,2) unfolding accounted_def by blast+
  then have u: "unackedChunks (F(e := None)) = unackedChunks F" by (auto simp: unackedChunks_def)
  show ?thesis using assms unfolding accounted_def u by auto
qed

section \<open>Only the rows of the replies matter\<close>

definition sameRequest :: "bytes \<Rightarrow> js_string \<Rightarrow> store \<Rightarrow> store \<Rightarrow> bool" where
  "sameRequest p i h h' \<longleftrightarrow> h' (stateKey p i) = h (stateKey p i) \<and> (\<forall>r. wellFormed r \<longrightarrow> h' (replyKey p i r) = h (replyKey p i r))
     \<and> h' (sequenceKey p i None) = h (sequenceKey p i None)
     \<and> (\<forall>n. smallInt n \<longrightarrow> h' (sequenceKey p i (Some n)) = h (sequenceKey p i (Some n)))"

lemma sameRequest_accounted:
  assumes "accounted (stateOf E p h i) (replyOf E p h i) (\<lambda>n. h (sequenceKey p i n))" and "sameRequest p i h h'"
  shows "accounted (stateOf E p h' i) (replyOf E p h' i) (\<lambda>n. h' (sequenceKey p i n))"
proof -
  have "stateOf E p h' i = stateOf E p h i" using assms(2) by (simp add: sameRequest_def stateOf_def)
  moreover have "replyOf E p h' i r = replyOf E p h i r" if "wellFormed r" for r
    using assms(2) that by (simp add: sameRequest_def replyOf_def)
  ultimately show ?thesis using accounted_cong [OF assms(1)] assms(2) by (simp add: sameRequest_def)
qed

lemma sect_K: "wellFormed i \<Longrightarrow> sect p n (stateKey p i) \<longleftrightarrow> n = ''state''"
  "wellFormed i \<Longrightarrow> wellFormed r \<Longrightarrow> sect p n (replyKey p i r) \<longleftrightarrow> n = ''reply-meta''"
  "wellFormed i \<Longrightarrow> sect p n (sequenceKey p i None) \<longleftrightarrow> n = ''reply-unique''"
  "wellFormed i \<Longrightarrow> smallInt j \<Longrightarrow> sect p n (sequenceKey p i (Some j)) \<longleftrightarrow> n = ''reply-unique''"
  by (auto simp: tuple_ok_def)

lemma replies_ok_cong:
  assumes "replies_ok E p h" and "\<And>k n. sect p n k \<Longrightarrow> n \<in> replySections \<Longrightarrow> h' k = h k"
  shows "replies_ok E p h'"
proof -
  have "sameRequest p i h h'" if "wellFormed i" for i
    unfolding sameRequest_def using that assms(2) sect_K [where p = p and i = i] by (simp add: replySections_def)
  then show ?thesis using assms(1) sameRequest_accounted unfolding replies_ok_def by blast
qed

lemma replies_ok_at:
  assumes "replies_ok E p h" and "accounted (stateOf E p h' i) (replyOf E p h' i) (\<lambda>n. h' (sequenceKey p i n))"
    and "\<And>j. wellFormed j \<Longrightarrow> j \<noteq> i \<Longrightarrow> sameRequest p j h h'"
  shows "replies_ok E p h'"
  using assms sameRequest_accounted unfolding replies_ok_def by metis

lemma replies_ok_empty:
  assumes "\<And>k. prefix p k \<Longrightarrow> h k = None"
  shows "replies_ok E p h"
proof -
  have "stateOf E p h i = initialState" "replyOf E p h i = (\<lambda>r. None)" "h (sequenceKey p i n) = None" for i n
    using assms by (simp_all add: stateOf_def replyOf_def fun_eq_iff)
  then show ?thesis using accounted_empty by (simp add: replies_ok_def)
qed

section \<open>Changes of one request\<close>

text \<open>A mailbox over a database with versionstamps, with JSON schemas that decode what they encoded.\<close>

locale mailbox_store = fdb_stamped "message_txn E" + states: json_codec "stateJson E" + replyMetas: json_codec "replyMetaJson E" +
    metas: json_codec "metaJson E" for E :: "('s, 'e, 'r) message_env"

abbreviation stateRow :: "('s, 'e, 'r) message_env \<Rightarrow> request_state \<Rightarrow> bytes" where
  "stateRow E st \<equiv> text_encode (encodeJson (stateJson E) st)"

abbreviation replyRow :: "('s, 'e, 'r) message_env \<Rightarrow> reply_meta \<Rightarrow> bytes" where
  "replyRow E x \<equiv> text_encode (encodeJson (replyMetaJson E) x)"

abbreviation rows :: "('s, 'e, 'r) message_env \<Rightarrow> 's mailbox \<Rightarrow> store" where
  "rows E m \<equiv> tx_get (message_txn E) (database m)"

text \<open>The reply and the row of its number; both are absent when only the state changes.\<close>

definition requestRows ::
    "('s, 'e, 'r) message_env \<Rightarrow> bytes \<Rightarrow> js_string \<Rightarrow> (js_string \<times> reply_meta option) option \<Rightarrow> (int option \<times> bytes option) option
      \<Rightarrow> request_state \<Rightarrow> store \<Rightarrow> store" where
  "requestRows E p i reply number st h =
    (let h = (case reply of None \<Rightarrow> h | Some (r, x) \<Rightarrow> h(replyKey p i r := map_option (replyRow E) x));
         h = (case number of None \<Rightarrow> h | Some (n, b) \<Rightarrow> h(sequenceKey p i n := b)) in
     h(stateKey p i \<mapsto> stateRow E st))"

context mailbox_store
begin

lemma requestRows_get:
  assumes "wellFormed i" "wellFormed j" and "\<forall>r x. reply = Some (r, x) \<longrightarrow> wellFormed r"
    and "\<forall>l b. number = Some (Some l, b) \<longrightarrow> smallInt l"
  shows "requestRows E p i reply number st h (stateKey p j) = (if j = i then Some (stateRow E st) else h (stateKey p j))"
    and "wellFormed r \<Longrightarrow> requestRows E p i reply number st h (replyKey p j r) =
      (case reply of None \<Rightarrow> h (replyKey p j r) | Some (r', x) \<Rightarrow>
        if j = i \<and> r = r' then map_option (replyRow E) x else h (replyKey p j r))"
    and "\<forall>l. n = Some l \<longrightarrow> smallInt l \<Longrightarrow> requestRows E p i reply number st h (sequenceKey p j n) =
      (case number of None \<Rightarrow> h (sequenceKey p j n) | Some (n', b) \<Rightarrow>
        if j = i \<and> n = n' then b else h (sequenceKey p j n))"
  using assms
  by (auto simp: requestRows_def Let_def tuple_ok_def split: option.split)

lemma recordOf_replyRow [simp]: "recordOf (replyMetaJson E) (map_option (replyRow E) x) = x"
  by (cases x) simp_all

lemma requestRows_ok:
  assumes ok: "replies_ok E p h" and i: "wellFormed i" and reply: "\<forall>r x. reply = Some (r, x) \<longrightarrow> wellFormed r"
    and number: "\<forall>n b. number = Some (Some n, b) \<longrightarrow> smallInt n"
    and acc: "accounted st (case reply of None \<Rightarrow> replyOf E p h i | Some (r, x) \<Rightarrow> (replyOf E p h i)(r := x))
      (case number of None \<Rightarrow> (\<lambda>n. h (sequenceKey p i n)) | Some (n, b) \<Rightarrow> (\<lambda>n. h (sequenceKey p i n))(n := b))"
  shows "replies_ok E p (requestRows E p i reply number st h)" (is "replies_ok E p ?h")
proof (rule replies_ok_at [OF ok])
  note get = requestRows_get [OF i _ reply number, where h = h and st = st]
  note get = get(1) [OF i] get(2) [OF i] get(3) [OF i]
  have st: "stateOf E p ?h i = st" by (simp add: stateOf_def get(1))
  have F: "replyOf E p ?h i r = (case reply of None \<Rightarrow> replyOf E p h i | Some (r, x) \<Rightarrow> (replyOf E p h i)(r := x)) r"
    if "wellFormed r" for r
    using get(2) [OF that] by (cases reply) (auto simp: replyOf_def split: option.splits)
  have X: "?h (sequenceKey p i n) = (case number of None \<Rightarrow> (\<lambda>n. h (sequenceKey p i n)) | Some (n, b) \<Rightarrow> (\<lambda>n. h (sequenceKey p i n))(n := b)) n"
    if "\<forall>l. n = Some l \<longrightarrow> smallInt l" for n
    using get(3) [OF that] by (auto split: option.split)
  show "accounted (stateOf E p ?h i) (replyOf E p ?h i) (\<lambda>n. ?h (sequenceKey p i n))"
    unfolding st by (rule accounted_cong [OF acc F X X]) simp_all
next
  fix j assume j: "wellFormed j" "j \<noteq> i"
  note get = requestRows_get [OF i j(1) reply number, where h = h and st = st]
  have "?h (sequenceKey p j n) = h (sequenceKey p j n)" if "\<forall>l. n = Some l \<longrightarrow> smallInt l" for n
    using get(3) [OF that] j(2) by (simp split: option.split prod.split)
  from this [of None] this [of "Some _"] show "sameRequest p j h ?h"
    unfolding sameRequest_def using get(1,2) j(2) by (simp split: option.split prod.split)
qed

end

end
