(* ===== verification/Message_Accounts.thy ===== *)
theory Message_Accounts
  imports Message_Replies
begin

text \<open>
  Every operation of the mailbox keeps the account of the replies: saving a reply, acknowledging one, removing an
  exit and clearing an address change the rows of one request together, and nothing else touches them.
\<close>

section \<open>Steps\<close>

definition keeps :: "('s, 'e, 'r) message_env \<Rightarrow> bytes \<Rightarrow> 's mailbox \<Rightarrow> 's mailbox \<Rightarrow> bool" where
  "keeps E p m m' \<longleftrightarrow> (stampsOk (order_state m) \<longrightarrow> replies_ok E p (rows E m) \<longrightarrow>
     stampsOk (order_state m') \<and> replies_ok E p (rows E m'))"

lemma keeps_refl [intro!, simp]: "keeps E p m m"
  by (simp add: keeps_def)

lemma keeps_trans [trans]: "keeps E p m m1 \<Longrightarrow> keeps E p m1 m2 \<Longrightarrow> keeps E p m m2"
  by (simp add: keeps_def)

interpretation keeping: steps "keeps E p" for E p
  by unfold_locales (auto intro: keeps_trans)

interpretation kept: visit_steps "\<lambda>x y. keeps E p (snd x) (snd y)" for E p
  by unfold_locales (auto intro: keeps_trans)

lemma touches_keeps:
  assumes "touches (message_txn E) p N m m'" and "N \<inter> replySections = {}"
  shows "keeps E p m m'"
  unfolding keeps_def
proof (intro impI conjI)
  assume st: "stampsOk (order_state m)" and ok: "replies_ok E p (rows E m)"
  show "stampsOk (order_state m')" using touches_stamps [OF assms(1) st] .
  show "replies_ok E p (rows E m')" by (rule replies_ok_cong [OF ok]) (use touches_get [OF assms(1) st] assms(2) in blast)
qed

lemma readState_Inr:
  assumes "readState E Q i m = Inr st" and "mailbox_at Q p"
  shows "wellFormed i" and "st = stateOf E p (rows E m) i"
proof -
  obtain k v where k: "subspace_pack (requestStates_sub Q) [Str i] = Inr k" "readRecord (message_txn E) (stateJson E) (database m) k = Inr v"
    "st = (case v of None \<Rightarrow> initialState | Some st \<Rightarrow> st)"
    using assms(1) by (auto simp: readState_def record_read_def bindR_eq_Inr)
  note key = pack_key(1,2) [OF mailbox_atD(3) [OF assms(2)] k(1)]
  show "wellFormed i" using key(2) by simp
  show "st = stateOf E p (rows E m) i" using readRecord_Inr [OF k(2)] k(3) key(1) by (simp add: stateOf_def)
qed

lemma readReplyMeta_Inr:
  assumes "record_read (message_txn E) (replyMetaJson E) (replyMetadata_sub Q) [Str i, Str r] m = Inr x" and "mailbox_at Q p"
  shows "wellFormed i" "wellFormed r" and "x = replyOf E p (rows E m) i r"
proof -
  obtain k where k: "subspace_pack (replyMetadata_sub Q) [Str i, Str r] = Inr k"
    "readRecord (message_txn E) (replyMetaJson E) (database m) k = Inr x"
    using assms(1) by (auto simp: record_read_def bindR_eq_Inr)
  note key = pack_key(1,2) [OF mailbox_atD(6) [OF assms(2)] k(1)]
  show "wellFormed i" "wellFormed r" using key(2) by simp_all
  show "x = replyOf E p (rows E m) i r" using readRecord_Inr [OF k(2)] key(1) by (simp add: replyOf_def)
qed

context fdb
begin

lemma record_write_rows:
  assumes "record_write T J sub path a m = Inr m'" and "at_section p n [] sub"
  shows "tx_get T (database m') = (tx_get T (database m))(K p n path := Some (text_encode (encodeJson J a)))"
    and "order_state m' = order_state m" and "list_all packable path"
proof -
  obtain k where k: "subspace_pack sub path = Inr k" "m' = onDatabase (writeRecord T J k a) m"
    using assms(1) by (auto simp: record_write_def bindR_eq_Inr)
  note key = pack_key(1,2) [OF assms(2) k(1)]
  show "tx_get T (database m') = (tx_get T (database m))(K p n path := Some (text_encode (encodeJson J a)))"
    and "order_state m' = order_state m" and "list_all packable path"
    using key k(2) by (simp_all add: writeRecord_fun)
qed

lemma record_clear_rows:
  assumes "record_clear T sub path m = Inr m'" and "at_section p n [] sub"
  shows "tx_get T (database m') = (tx_get T (database m))(K p n path := None)" and "order_state m' = order_state m"
    and "list_all packable path"
proof -
  obtain k where k: "subspace_pack sub path = Inr k" "m' = onDatabase (tx_clear T k) m"
    using assms(1) by (auto simp: record_clear_def bindR_eq_Inr)
  note key = pack_key(1,2) [OF assms(2) k(1)]
  show "tx_get T (database m') = (tx_get T (database m))(K p n path := None)" and "order_state m' = order_state m" and "list_all packable path"
    using key k(2) by (simp_all add: clear_fun)
qed

end

section \<open>The operations on replies\<close>

context mailbox_store
begin

lemma accounts:
  assumes "replies_ok E p (rows E m)" and "wellFormed i"
  shows "accounted (stateOf E p (rows E m) i) (replyOf E p (rows E m) i) (\<lambda>n. rows E m (sequenceKey p i n))"
  using assms by (simp add: replies_ok_def)

lemma acknowledgeReply_keeps:
  assumes "acknowledgeReply E Q envelope st m = Inr (st', m')" and Q: "mailbox_at Q p"
    and st: "st = stateOf E p (rows E m) (env_requestId envelope)"
  shows "keeps E p m m'"
proof -
  let ?i = "env_requestId envelope" and ?r = "env_replyId envelope"
  obtain x m1 where x: "record_read (message_txn E) (replyMetaJson E) (replyMetadata_sub Q) [Str ?i, Str ?r] m = Inr x"
    and m1: "(if (case x of Some r \<Rightarrow> reply_meta_kind r = Chunk \<and> \<not> acked r | None \<Rightarrow> False)
        then record_write (message_txn E) (replyMetaJson E) (replyMetadata_sub Q) [Str ?i, Str ?r] ((the x)\<lparr>acked := True\<rparr>) m
        else Inr m) = Inr m1"
    and st': "st' = st\<lparr>latestAckId := Some (envelopeId envelope), unacked := unacked st -
        (if (case x of Some r \<Rightarrow> reply_meta_kind r = Chunk \<and> \<not> acked r | None \<Rightarrow> False) then 1 else 0)\<rparr>"
    and m': "record_write (message_txn E) (stateJson E) (requestStates_sub Q) [Str ?i] st' m1 = Inr m'"
    using assms(1) by (auto simp: acknowledgeReply_def Let_def bindR_eq_Inr)
  note wf = readReplyMeta_Inr [OF x Q]
  note w = record_write_rows [OF m' mailbox_atD(3) [OF Q]]
  show ?thesis unfolding keeps_def
  proof (intro impI)
    assume ok: "stampsOk (order_state m)" "replies_ok E p (rows E m)"
    note acc = accounts [OF ok(2) wf(1)]
    show "stampsOk (order_state m') \<and> replies_ok E p (rows E m')"
    proof (cases "case x of Some r \<Rightarrow> reply_meta_kind r = Chunk \<and> \<not> acked r | None \<Rightarrow> False")
      case True
      then obtain y where y: "x = Some y" "reply_meta_kind y = Chunk" "\<not> acked y" by (auto split: option.splits)
      have st'': "unacked st' = unacked st - 1" "exitId st' = exitId st" using st' True by simp_all
      have w1: "record_write (message_txn E) (replyMetaJson E) (replyMetadata_sub Q) [Str ?i, Str ?r] (y\<lparr>acked := True\<rparr>) m = Inr m1"
        using m1 y by simp
      note w1 = record_write_rows [OF w1 mailbox_atD(6) [OF Q]]
      have "rows E m' = requestRows E p ?i (Some (?r, Some (y\<lparr>acked := True\<rparr>))) None st' (rows E m)"
        using w(1) w1(1) by (simp add: requestRows_def)
      moreover have "accounted st' ((replyOf E p (rows E m) ?i)(?r := Some (y\<lparr>acked := True\<rparr>))) (\<lambda>n. rows E m (sequenceKey p ?i n))"
        by (rule accounted_acknowledged [OF acc wf(2)]) (use wf(3) [symmetric] y st st'' in simp_all)
      ultimately show ?thesis using requestRows_ok [OF ok(2) wf(1)] wf(2) ok(1) w(2) w1(2) by simp
    next
      case False
      then have "m1 = m" using m1 by simp
      then have "rows E m' = requestRows E p ?i None None st' (rows E m)" using w(1) by (simp add: requestRows_def)
      moreover have "accounted st' (replyOf E p (rows E m) ?i) (\<lambda>n. rows E m (sequenceKey p ?i n))"
        by (rule accounted_state [OF acc]) (use st st' False in simp_all)
      ultimately show ?thesis using requestRows_ok [OF ok(2) wf(1), of None None] ok(1) w(2) \<open>m1 = m\<close> by simp
    qed
  qed
qed

lemma uniqueKey_Inr:
  assumes "uniqueKey Q i n = Inr k" and "mailbox_at Q p"
  shows "k = sequenceKey p i n" and "wellFormed i" and "\<forall>l. n = Some l \<longrightarrow> smallInt l"
proof -
  have "subspace_pack (uniqueReplies_sub Q) [Str i, case n of None \<Rightarrow> Str (js ''exit'') | Some n \<Rightarrow> BigInt n] = Inr k"
    using assms(1) by (simp add: uniqueKey_def)
  note key = pack_key(1,2) [OF mailbox_atD(8) [OF assms(2)] this]
  show "k = sequenceKey p i n" and "wellFormed i" and "\<forall>l. n = Some l \<longrightarrow> smallInt l" using key by auto
qed

lemma insertReply_steps:
  assumes "insertReply E Q reply unique st m = Inr (st', m')" and Q: "mailbox_at Q p" and ok: "stampsOk (order_state m)"
    and u: "uniqueKey Q (reply_requestId reply) (replySequence reply) = Inr unique"
  defines "x \<equiv> \<lparr>reply_meta_id = reply_id reply, reply_meta_kind = reply_kind reply, reply_meta_sequence = replySequence reply, acked = False\<rparr>"
  shows "stampsOk (order_state m')" and "wellFormed (reply_id reply)"
    and "st' = st\<lparr>lastReplyId := Some (reply_id reply), exitId := (if reply_kind reply = WithExit then Some (reply_id reply) else exitId st),
          unacked := unacked st + (if reply_kind reply = Chunk then 1 else 0)\<rparr>"
    and "\<And>k n. sect p n k \<Longrightarrow> n \<in> replySections \<Longrightarrow> rows E m' k = requestRows E p (reply_requestId reply) (Some (reply_id reply, Some x))
      (Some (replySequence reply, Some (text_encode (reply_id reply)))) st' (rows E m) k"
proof -
  let ?T = "message_txn E" and ?i = "reply_requestId reply" and ?r = "reply_id reply"
  obtain m1 m2 m3 n where m1: "chunked_write ?T (replyJson E) (replies_sub Q) [Str ?i, Str ?r] reply m = Inr m1"
    and m2: "record_write ?T (replyMetaJson E) (replyMetadata_sub Q) [Str ?i, Str ?r] x m1 = Inr m2"
    and m3: "setRow ?T (replyIds_sub Q) [Str ?i, BigInt n] [] m2 = Inr m3"
    and st': "st' = st\<lparr>lastReplyId := Some ?r, exitId := (if reply_kind reply = WithExit then Some ?r else exitId st),
          unacked := unacked st + (if reply_kind reply = Chunk then 1 else 0)\<rparr>"
    and m': "record_write ?T (stateJson E) (requestStates_sub Q) [Str ?i] st' (onDatabase (tx_set ?T unique (text_encode ?r)) m3) = Inr m'"
    using assms(1) by (auto simp: insertReply_def Let_def bindR_eq_Inr x_def)
  note at = mailbox_atD [OF Q]
  have t1: "touches ?T p {''reply''} m m1" by (rule chunked_write_touches [OF m1 at(5)]) simp
  have t3: "touches ?T p {''replies''} m2 m3" by (rule setRow_touches [OF m3 at(7)]) simp
  note w2 = record_write_rows [OF m2 at(6)] and w' = record_write_rows [OF m' at(3)]
  have ok2: "stampsOk (order_state m2)" using touches_stamps [OF t1 ok] w2(2) by simp
  show "stampsOk (order_state m')" using touches_stamps [OF t3 ok2] w'(2) by simp
  show "wellFormed ?r" using w2(3) by simp
  show "st' = st\<lparr>lastReplyId := Some ?r, exitId := (if reply_kind reply = WithExit then Some ?r else exitId st),
          unacked := unacked st + (if reply_kind reply = Chunk then 1 else 0)\<rparr>" by (rule st')
  fix k n assume k: "sect p n k" "n \<in> replySections"
  then have n: "n \<notin> {''reply''}" "n \<notin> {''replies''}" by (auto simp: replySections_def)
  have "rows E m3 k = rows E m2 k" by (rule touches_get [OF t3 ok2 k(1) n(2)])
  also have "\<dots> = ((rows E m)(replyKey p ?i ?r := Some (replyRow E x))) k"
    using touches_get [OF t1 ok k(1) n(1)] w2(1) by simp
  finally show "rows E m' k = requestRows E p ?i (Some (?r, Some x)) (Some (replySequence reply, Some (text_encode ?r))) st' (rows E m) k"
    using w'(1) uniqueKey_Inr(1) [OF u Q] by (simp add: requestRows_def Let_def set_fun)
qed

lemma insertReply_keeps:
  assumes ins: "insertReply E Q reply unique st m = Inr (st', m')" and Q: "mailbox_at Q p"
    and u: "uniqueKey Q (reply_requestId reply) (replySequence reply) = Inr unique"
    and st: "st = stateOf E p (rows E m) (reply_requestId reply)"
    and new: "replyOf E p (rows E m) (reply_requestId reply) (reply_id reply) = None" and free: "rows E m unique = None"
  shows "keeps E p m m'"
  unfolding keeps_def
proof (intro impI)
  let ?i = "reply_requestId reply" and ?r = "reply_id reply" and ?n = "replySequence reply"
  let ?x = "\<lparr>reply_meta_id = ?r, reply_meta_kind = reply_kind reply, reply_meta_sequence = ?n, acked = False\<rparr>"
  assume ok: "stampsOk (order_state m)" "replies_ok E p (rows E m)"
  note steps = insertReply_steps [OF ins Q ok(1) u] and key = uniqueKey_Inr [OF u Q]
  note acc = accounts [OF ok(2) key(2)]
  have X: "rows E m (sequenceKey p ?i ?n) = None" using free key(1) by simp
  have "accounted st' ((replyOf E p (rows E m) ?i)(?r := Some ?x)) ((\<lambda>n. rows E m (sequenceKey p ?i n))(?n := Some (text_encode ?r)))"
  proof (cases "reply_kind reply")
    case Chunk
    then have n: "?n = Some (reply_sequence reply)" by (simp add: replySequence_def)
    show ?thesis unfolding n
      by (rule accounted_chunk [OF acc steps(2) new]) (use Chunk n X key(3) steps(3) st in simp_all)
  next
    case WithExit
    then have n: "?n = None" by (simp add: replySequence_def)
    show ?thesis unfolding n
      by (rule accounted_exit [OF acc steps(2) new]) (use WithExit n X steps(3) st in simp_all)
  qed
  then have "replies_ok E p (requestRows E p ?i (Some (?r, Some ?x)) (Some (?n, Some (text_encode ?r))) st' (rows E m))"
    by (intro requestRows_ok [OF ok(2) key(2)]) (use steps(2) key(3) in auto)
  then have "replies_ok E p (rows E m')" by (rule replies_ok_cong) (rule steps(4))
  then show "stampsOk (order_state m') \<and> replies_ok E p (rows E m')" using steps(1) by blast
qed

lemma writeMessage_keeps: "writeMessage E Q meta st m = Inr m' \<Longrightarrow> mailbox_at Q p \<Longrightarrow> keeps E p m m'"
  by (rule touches_keeps [OF writeMessage_touches]) (simp_all add: replySections_def)

lemma saveReply_keeps:
  assumes "saveReply E reply Q m = Some (Inr ((), m'))" and Q: "mailbox_at Q p"
  shows "keeps E p m m'"
proof -
  let ?i = "reply_requestId reply"
  obtain known where known: "record_read (message_txn E) (replyMetaJson E) (replyMetadata_sub Q) [Str ?i, Str (reply_id reply)] m = Inr known"
    and rest: "(if known \<noteq> None then Some (Inr ((), m))
    else
      bindO (Some (readState E Q ?i m)) (\<lambda>state.
      bindO (Some (uniqueKey Q ?i (replySequence reply))) (\<lambda>unique.
      if tx_get (message_txn E) (database m) unique \<noteq> None
      then Some (Inl (DuplicateReplyError ?i (reply_id reply) (replySequence reply)))
      else
        bindO (Some (insertReply E Q reply unique state m)) (\<lambda>(next, m).
        bindO (if reply_kind reply = WithExit \<or> unacked state = 0
            then updateRequest E Q ?i (\<lambda>meta. writeMessage E Q
                (meta\<lparr>processed := processed meta \<or> reply_kind reply = WithExit\<rparr>) next) m
            else Some (Inr m)) (\<lambda>m.
          Some (Inr ((), m))))))) = Some (Inr ((), m'))"
    using assms(1) unfolding saveReply_def Let_def bindO_Inr by blast
  note reply = readReplyMeta_Inr [OF known Q]
  show ?thesis
  proof (cases known)
    case (Some x)
    then show ?thesis using rest by simp
  next
    case None
    obtain st unique r where st: "readState E Q ?i m = Inr st" and u: "uniqueKey Q ?i (replySequence reply) = Inr unique"
      and free: "rows E m unique = None" and ins: "insertReply E Q reply unique st m = Inr r"
      and m': "(\<lambda>(next, m). bindO (if reply_kind reply = WithExit \<or> unacked st = 0
            then updateRequest E Q ?i (\<lambda>meta. writeMessage E Q
                (meta\<lparr>processed := processed meta \<or> reply_kind reply = WithExit\<rparr>) next) m
            else Some (Inr m)) (\<lambda>m. Some (Inr ((), m)))) r = Some (Inr ((), m'))"
      using rest None by (auto simp: bindO_Inr split: if_splits)
    obtain st' m1 where r: "r = (st', m1)" by (cases r)
    have k1: "keeps E p m m1"
      by (rule insertReply_keeps [OF ins [unfolded r] Q u readState_Inr(2) [OF st Q]]) (use reply(3) None free in simp_all)
    have "keeps E p m1 m'"
    proof (cases "reply_kind reply = WithExit \<or> unacked st = 0")
      case True
      then have up: "updateRequest E Q ?i (\<lambda>meta. writeMessage E Q
          (meta\<lparr>processed := processed meta \<or> reply_kind reply = WithExit\<rparr>) st') m1 = Some (Inr m')"
        using m' r by (auto simp: bindO_Inr)
      have "touches (message_txn E) p pollingSections m1 m'"
        by (rule updateRequest_touches [OF up refl]) (rule writeMessage_polls [OF _ refl Q])
      then show ?thesis by (rule touches_keeps) (simp add: pollingSections_def replySections_def)
    next
      case False
      then show ?thesis using m' r by simp
    qed
    with k1 show ?thesis by (rule keeps_trans)
  qed
qed

lemma insertEnvelope_keeps:
  assumes "insertEnvelope E Q envelope hash deliver m = Some (Inr (res, m'))" and Q: "mailbox_at Q p"
  shows "keeps E p m m'"
proof -
  let ?T = "message_txn E" and ?i = "envelopeId envelope"
  obtain st meta st1 m1 m2 ready m3 m4 indexes m5 m6 where st: "readState E Q (env_requestId envelope) m = Inr st"
    and a: "(if env_kind envelope = AckChunk then acknowledgeReply E Q envelope st m else Inr (st, m)) = Inr (st1, m1)"
    and m2: "chunked_write ?T (envelopeJson E) (envelopes_sub Q) [Str ?i] envelope m1 = Inr m2"
    and ready: "readyIndexes (shardString E) Q meta = Inr ready" and m3: "insertMessageOrder ?T Q ?i ready False m2 = Inr m3"
    and m4: "writeMessage E Q meta st1 m3 = Inr m4" and indexes: "messageIndexes (shardString E) Q meta = Inr indexes"
    and m5: "foldR (\<lambda>index m. bindR (bigIntOf ?i) (\<lambda>n. setRow ?T index [BigInt n] [] m)) indexes m4 = Inr m5"
    and m6: "(if env_kind envelope = AckChunk
        then updateRequest E Q (requestId meta) (\<lambda>meta. writeMessage E Q meta st1) m5 else Some (Inr m5)) = Some (Inr m6)"
    and m': "(case hash of None \<Rightarrow> Inr m6 | Some h \<Rightarrow> setRow ?T (primaryKeys_sub Q) [Str h] (text_encode ?i) m6) = Inr m'"
    using assms(1) unfolding insertEnvelope_def Let_def by (auto simp: bindO_Inr simp del: not_None_eq)
  note at = mailbox_atD [OF Q]
  have "keeps E p m m1"
  proof (cases "env_kind envelope = AckChunk")
    case True
    then have "acknowledgeReply E Q envelope st m = Inr (st1, m1)" using a by simp
    then show ?thesis by (rule acknowledgeReply_keeps [OF _ Q readState_Inr(2) [OF st Q]])
  qed (use a in auto)
  also have "keeps E p m1 m2"
    by (rule touches_keeps [OF chunked_write_touches [OF m2 at(2)]]) (simp_all add: replySections_def)
  also have "keeps E p m2 m3"
    by (rule touches_keeps [OF insertMessageOrder_touches [OF m3 at(12)]]) (simp add: replySections_def)
  also have "keeps E p m3 m4" by (rule writeMessage_keeps [OF m4 Q])
  also have "keeps E p m4 m5"
    by (rule touches_keeps [OF indexRows_touch [OF m5 indexes Q setRow_touches]]) (auto simp: replySections_def)
  also have "keeps E p m5 m6"
  proof (cases "env_kind envelope = AckChunk")
    case True
    then have up: "updateRequest E Q (requestId meta) (\<lambda>meta. writeMessage E Q meta st1) m5 = Some (Inr m6)" using m6 by simp
    have "touches ?T p pollingSections m5 m6" by (rule updateRequest_touches [OF up refl]) (rule writeMessage_polls [OF _ refl Q])
    then show ?thesis by (rule touches_keeps) (simp add: pollingSections_def replySections_def)
  qed (use m6 in simp)
  also have "keeps E p m6 m'"
  proof (cases hash)
    case (Some h)
    then have "setRow ?T (primaryKeys_sub Q) [Str h] (text_encode ?i) m6 = Inr m'" using m' by simp
    from touches_keeps [OF setRow_touches [OF this at(4)]] show ?thesis by (simp add: replySections_def)
  qed (use m' in simp)
  finally show ?thesis .
qed

lemma saveEnvelope_keeps:
  assumes "saveEnvelope E envelope primary deliver Q m = Some (Inr (res, m'))" and Q: "mailbox_at Q p"
  shows "keeps E p m m'"
proof -
  have "(\<exists>hash. insertEnvelope E Q envelope hash deliver m = Some (Inr (res, m'))) \<or> m' = m"
    using assms(1) unfolding saveEnvelope_def Let_def bindO_Inr by (fastforce simp: bindO_Inr split: option.splits)
  then show ?thesis using insertEnvelope_keeps [OF _ Q] by blast
qed

text \<open>The exit of a request and its row are removed with the change of its state.\<close>

lemma removeExit_rows:
  assumes "removeExit E Q i e m = Inr m1" and "record_write (message_txn E) (stateJson E) (requestStates_sub Q) [Str i] st m1 = Inr m'"
    and Q: "mailbox_at Q p" and ok: "stampsOk (order_state m)"
  shows "stampsOk (order_state m')" and "wellFormed i" "wellFormed e"
    and "\<And>k n. sect p n k \<Longrightarrow> n \<in> replySections \<Longrightarrow>
      rows E m' k = requestRows E p i (Some (e, None)) (Some (None, None)) st (rows E m) k"
proof -
  let ?T = "message_txn E"
  obtain a b n c where a: "chunked_clear ?T (replies_sub Q) [Str i, Str e] m = Inr a"
    and b: "record_clear ?T (replyMetadata_sub Q) [Str i, Str e] a = Inr b"
    and c: "record_clear ?T (replyIds_sub Q) [Str i, BigInt n] b = Inr c"
    and m1: "record_clear ?T (uniqueReplies_sub Q) [Str i, Str (js ''exit'')] c = Inr m1"
    using assms(1) by (auto simp: removeExit_def Let_def bindR_eq_Inr)
  note at = mailbox_atD [OF Q]
  have ta: "touches ?T p {''reply''} m a" by (rule chunked_clear_touches [OF a at(5)])
  have tc: "touches ?T p {''replies''} b c" by (rule record_clear_touches [OF c at(7)]) simp
  note wb = record_clear_rows [OF b at(6)] and w1 = record_clear_rows [OF m1 at(8)] and w' = record_write_rows [OF assms(2) at(3)]
  have okb: "stampsOk (order_state b)" using touches_stamps [OF ta ok] wb(2) by simp
  show "stampsOk (order_state m')" using touches_stamps [OF tc okb] w1(2) w'(2) by simp
  show "wellFormed i" "wellFormed e" using wb(3) by simp_all
  fix k n assume k: "sect p n k" "n \<in> replySections"
  then have n: "n \<notin> {''reply''}" "n \<notin> {''replies''}" by (auto simp: replySections_def)
  have "rows E c k = rows E b k" by (rule touches_get [OF tc okb k(1) n(2)])
  also have "\<dots> = ((rows E m)(replyKey p i e := None)) k" using touches_get [OF ta ok k(1) n(1)] wb(1) by simp
  finally show "rows E m' k = requestRows E p i (Some (e, None)) (Some (None, None)) st (rows E m) k"
    using w1(1) w'(1) by (simp add: requestRows_def Let_def)
qed

lemma clearReplies_keeps:
  assumes "clearReplies E i expected Q m = Some (Inr ((), m'))" and Q: "mailbox_at Q p"
  shows "keeps E p m m'"
proof -
  obtain st where st: "readState E Q i m = Inr st" using assms(1) by (auto simp: clearReplies_def bindO_Inr)
  let ?next = "st\<lparr>lastReplyId := None, exitId := None\<rparr>"
  note state = readState_Inr [OF st Q]
  show ?thesis
  proof (cases "expected \<noteq> None \<and> lastReplyId st \<noteq> expected")
    case True
    then show ?thesis using assms(1) st by (auto simp: clearReplies_def)
  next
    case False
    obtain m1 m2 where m1: "(case exitId st of None \<Rightarrow> Inr m | Some exit \<Rightarrow> removeExit E Q i exit m) = Inr m1"
      and m2: "record_write (message_txn E) (stateJson E) (requestStates_sub Q) [Str i] ?next m1 = Inr m2"
      and up: "updateRequest E Q i (\<lambda>meta m.
          if message_kind meta = Interrupt \<and> expected = None then removeMessage E Q meta m
          else writeMessage E Q (meta\<lparr>processed := False, claimedAt := None\<rparr>) ?next m) m2 = Some (Inr m')"
      using assms(1) st False by (auto simp: clearReplies_def Let_def bindO_Inr split: if_splits)
    have "keeps E p m m2" unfolding keeps_def
    proof (intro impI)
      assume ok: "stampsOk (order_state m)" "replies_ok E p (rows E m)"
      note acc = accounts [OF ok(2) state(1)]
      show "stampsOk (order_state m2) \<and> replies_ok E p (rows E m2)"
      proof (cases "exitId st")
        case None
        then have "m1 = m" using m1 by simp
        note w = record_write_rows [OF m2 mailbox_atD(3) [OF Q]]
        have "rows E m2 = requestRows E p i None None ?next (rows E m)" using w(1) \<open>m1 = m\<close> by (simp add: requestRows_def)
        moreover have "accounted ?next (replyOf E p (rows E m) i) (\<lambda>n. rows E m (sequenceKey p i n))"
          by (rule accounted_state [OF acc]) (use state(2) None in simp_all)
        ultimately show ?thesis using requestRows_ok [OF ok(2) state(1), of None None] ok(1) w(2) \<open>m1 = m\<close> by simp
      next
        case (Some e)
        then have "removeExit E Q i e m = Inr m1" using m1 by simp
        note r = removeExit_rows [OF this m2 Q ok(1)]
        have "accounted ?next ((replyOf E p (rows E m) i)(e := None)) ((\<lambda>n. rows E m (sequenceKey p i n))(None := None))"
          by (rule accounted_removed [OF acc]) (use state(2) Some in simp_all)
        then have "replies_ok E p (requestRows E p i (Some (e, None)) (Some (None, None)) ?next (rows E m))"
          by (intro requestRows_ok [OF ok(2) state(1)]) (use r(3) in auto)
        then have "replies_ok E p (rows E m2)" by (rule replies_ok_cong) (rule r(4))
        then show ?thesis using r(1) by blast
      qed
    qed
    moreover have "touches (message_txn E) p (pollingSections \<union> {''order'', ''shard'', ''address'', ''request'', ''primary'', ''envelope''}) m2 m'"
      (is "touches _ p ?N m2 m'")
    proof (rule updateRequest_touches [OF up refl])
      fix meta m m' assume w: "(if message_kind meta = Interrupt \<and> expected = None then removeMessage E Q meta m
          else writeMessage E Q (meta\<lparr>processed := False, claimedAt := None\<rparr>) ?next m) = Inr m'"
      show "touches (message_txn E) p ?N m m'"
      proof (cases "message_kind meta = Interrupt \<and> expected = None")
        case True
        then have "removeMessage E Q meta m = Inr m'" using w by simp
        then show ?thesis by (rule removeMessage_touches [OF _ refl Q])
      next
        case False
        then have "writeMessage E Q (meta\<lparr>processed := False, claimedAt := None\<rparr>) ?next m = Inr m'" using w by auto
        then have "touches (message_txn E) p pollingSections m m'" by (rule writeMessage_polls [OF _ refl Q])
        then show ?thesis by (rule touches_mono) blast
      qed
    qed
    then have "keeps E p m2 m'" by (rule touches_keeps) (auto simp: pollingSections_def replySections_def)
    ultimately show ?thesis by (rule keeps_trans)
  qed
qed

end

end
