(* ===== verification/Message_Histories.thy ===== *)
theory Message_Histories
  imports Message_Accounts
begin

text \<open>
  Clearing an address, polling and resetting keep the account of the replies as well; the histories of a mailbox
  are the sequences of operations of its transactions and of their commits.
\<close>

section \<open>Clearing an address\<close>

context fdb
begin

lemma clearRows_rows:
  assumes "clearRows T sub path m = Inr m'" and "at_section p n [] sub"
  shows "tx_get T (database m') k = (if inRange p n path k then None else tx_get T (database m) k)"
    and "order_state m' = order_state m" and "list_all packable path"
proof -
  obtain b e where be: "subspace_range sub path = Inr (b, e)" "m' = onDatabase (tx_clearRange T b e) m"
    using assms(1) by (auto simp: clearRows_def bindR_eq_Inr)
  have "prefix_bytes sub = K p n []" using at_prefix [OF assms(2)] .
  then have "list_all packable path \<and> b = K p n path @ [NIL] \<and> e = K p n path @ [ESCAPE]" using be(1) by (simp add: range_at)
  then show "tx_get T (database m') k = (if inRange p n path k then None else tx_get T (database m) k)"
    and "order_state m' = order_state m" and "list_all packable path"
    by (simp_all add: be(2) get_clearRange inRange_def)
qed

end

context mailbox_store
begin

lemma clearRequest_rows:
  assumes "clearRequest E Q i m = Inr m'" and Q: "mailbox_at Q p" and ok: "stampsOk (order_state m)"
  shows "stampsOk (order_state m')" and "wellFormed i"
    and "\<And>k n. sect p n k \<Longrightarrow> n \<in> replySections \<Longrightarrow> rows E m' k =
      (if inRange p ''reply-meta'' [Str i] k \<or> k = stateKey p i \<or> inRange p ''reply-unique'' [Str i] k then None else rows E m k)"
proof -
  let ?T = "message_txn E"
  obtain a b c d where a: "chunked_clear ?T (replies_sub Q) [Str i] m = Inr a"
    and b: "clearRows ?T (replyMetadata_sub Q) [Str i] a = Inr b"
    and c: "record_clear ?T (requestStates_sub Q) [Str i] b = Inr c"
    and d: "clearRows ?T (replyIds_sub Q) [Str i] c = Inr d"
    and m': "clearRows ?T (uniqueReplies_sub Q) [Str i] d = Inr m'"
    using assms(1) by (auto simp: clearRequest_def Let_def bindR_eq_Inr)
  note at = mailbox_atD [OF Q]
  have ta: "touches ?T p {''reply''} m a" by (rule chunked_clear_touches [OF a at(5)])
  have td: "touches ?T p {''replies''} c d" by (rule clearRows_touches [OF d at(7)])
  note wb = clearRows_rows [OF b at(6)] and wc = record_clear_rows [OF c at(3)] and w' = clearRows_rows [OF m' at(8)]
  have okc: "stampsOk (order_state c)" using touches_stamps [OF ta ok] wb(2) wc(2) by simp
  show "stampsOk (order_state m')" using touches_stamps [OF td okc] w'(2) by simp
  show "wellFormed i" using wc(3) by simp
  fix k n assume k: "sect p n k" "n \<in> replySections"
  then have n: "n \<notin> {''reply''}" "n \<notin> {''replies''}" by (auto simp: replySections_def)
  show "rows E m' k =
      (if inRange p ''reply-meta'' [Str i] k \<or> k = stateKey p i \<or> inRange p ''reply-unique'' [Str i] k then None else rows E m k)"
    using touches_get [OF ta ok k(1) n(1)] touches_get [OF td okc k(1) n(2)] by (auto simp: w'(1) wc(1) wb(1))
qed

lemma clearRequest_keeps:
  assumes "clearRequest E Q i m = Inr m'" and Q: "mailbox_at Q p"
  shows "keeps E p m m'"
  unfolding keeps_def
proof (intro impI conjI)
  assume ok: "stampsOk (order_state m)" "replies_ok E p (rows E m)"
  note r = clearRequest_rows [OF assms ok(1)]
  show "stampsOk (order_state m')" by (rule r(1))
  have key: "rows E m' k = (if inRange p ''reply-meta'' [Str i] k \<or> k = stateKey p i \<or> inRange p ''reply-unique'' [Str i] k
      then None else rows E m k)" if "sect p n k" "n \<in> replySections" for k n
    using r(3) [OF that] .
  note state = key [of "''state''" "stateKey p _"] and reply = key [of "''reply-meta''" "replyKey p _ _"]
    and number = key [of "''reply-unique''" "K p ''reply-unique'' _"]
  show "replies_ok E p (rows E m')"
  proof (rule replies_ok_at [OF ok(2)])
    have "stateOf E p (rows E m') i = initialState"
      using state [of i] r(2) by (simp add: stateOf_def tuple_ok_def replySections_def)
    moreover have "replyOf E p (rows E m') i x = None" if "wellFormed x" for x
      using reply [of i x] r(2) that by (simp add: replyOf_def tuple_ok_def replySections_def)
    moreover have "rows E m' (sequenceKey p i None) = None"
      using number [of "[Str i, Str (js ''exit'')]"] r(2) by (simp add: tuple_ok_def replySections_def)
    moreover have "rows E m' (sequenceKey p i (Some l)) = None" if "smallInt l" for l
      using number [of "[Str i, BigInt l]"] r(2) that by (simp add: tuple_ok_def replySections_def)
    ultimately show "accounted (stateOf E p (rows E m') i) (replyOf E p (rows E m') i) (\<lambda>n. rows E m' (sequenceKey p i n))"
      using accounted_cong [OF accounted_empty] by simp
  next
    fix j assume "wellFormed j" "j \<noteq> i"
    then show "sameRequest p j (rows E m) (rows E m')"
      using state [of j] reply [of j] number [of "[Str j, Str (js ''exit'')]"] number [of "[Str j, BigInt _]"] r(2)
      by (simp add: sameRequest_def tuple_ok_def replySections_def)
  qed
qed

lemma clearAddress_keeps:
  assumes "clearAddress E ty i Q m = Some (Inr ((), m'))" and Q: "mailbox_at Q p"
  shows "keeps E p m m'"
proof -
  let ?N = "pollingSections \<union> {''order'', ''shard'', ''address'', ''request'', ''primary'', ''envelope''}"
  let ?visit = "\<lambda>messageId ((), m). bindR (record_read (message_txn E) (metaJson E) (messages_sub Q) [Str messageId] m) (\<lambda>meta. case meta of
        None \<Rightarrow> Inr (True, (), m)
      | Some meta \<Rightarrow>
          bindR (if message_kind meta = Request then clearRequest E Q messageId m else Inr m) (\<lambda>m.
          bindR (removeMessage E Q meta m) (\<lambda>m. Inr (True, (), m))))"
  obtain index where v: "visitIndex (message_txn E) index ?visit ((), m) = Some (Inr ((), m'))"
    using assms(1) unfolding clearAddress_def bindO_Inr by blast
  have "keeps E p (snd ((), m)) (snd ((), m'))"
  proof (rule kept.visitIndex_steps [OF v])
    fix j and st st' :: "unit \<times> 's mailbox" and g assume w: "?visit j st = Inr (g, st')"
    obtain m1 where st: "st = ((), m1)" by (cases st) auto
    obtain meta where meta: "(case meta of None \<Rightarrow> Inr (True, (), m1)
      | Some meta \<Rightarrow>
          bindR (if message_kind meta = Request then clearRequest E Q j m1 else Inr m1) (\<lambda>m.
          bindR (removeMessage E Q meta m) (\<lambda>m. Inr (True, (), m)))) = (Inr (g, st') :: message_error + _)"
      using w unfolding st prod.case unit.case bindR_eq_Inr by blast
    show "keeps E p (snd st) (snd st')"
    proof (cases meta)
      case None
      then show ?thesis using meta st by auto
    next
      case (Some x)
      obtain m2 m3 where m2: "(if message_kind x = Request then clearRequest E Q j m1 else Inr m1) = Inr m2"
        and m3: "removeMessage E Q x m2 = Inr m3" and st': "st' = ((), m3)"
        using meta Some by (auto simp: bindR_eq_Inr)
      have "keeps E p m1 m2" using m2 clearRequest_keeps [OF _ Q] by (cases "message_kind x = Request") auto
      also have "keeps E p m2 m3"
        by (rule touches_keeps [OF removeMessage_touches [OF m3 refl Q]]) (auto simp: pollingSections_def replySections_def)
      finally show ?thesis by (simp add: st st')
    qed
  qed
  then show ?thesis by simp
qed

end

section \<open>Polling and resetting\<close>

context fdb_stamped
begin

lemma readMessages_touches:
  assumes "readMessages E Q ids now claim limit m = Inr (loaded, m')" and E: "message_txn E = T" and Q: "mailbox_at Q p"
  shows "touches T p pollingSections m m'"
proof -
  obtain selected where "(if claim then foldR (\<lambda>(meta, state). writeMessage E Q (meta\<lparr>claimedAt := Some now\<rparr>) state) selected m else Inr m) = Inr m'"
    using assms(1) by (auto simp: readMessages_def Let_def bindR_eq_Inr)
  moreover have "touches T p pollingSections m m'"
    if w: "foldR (\<lambda>(meta, state). writeMessage E Q (meta\<lparr>claimedAt := Some now\<rparr>) state) selected m = Inr m'"
  proof (rule touches_foldR [OF w])
    fix x s s' assume "(case x of (meta, state) \<Rightarrow> writeMessage E Q (meta\<lparr>claimedAt := Some now\<rparr>) state) s = Inr s'"
    then show "touches T p pollingSections s s'" using writeMessage_polls [OF _ E Q] by (cases x) auto
  qed
  ultimately show ?thesis by (cases claim) auto
qed

lemma promoteMessage_touches:
  assumes "promoteMessage E Q meta m = Inr m'" and E: "message_txn E = T" and Q: "mailbox_at Q p"
  shows "touches T p pollingSections m m'"
proof (cases meta)
  case (Some x)
  obtain new m1 where m1: "setMessagePolling T (shardString E) Q x Ready m = Inr (new, m1)"
    and m': "record_write T (metaJson E) (messages_sub Q) [Str (message_id x)] new m1 = Inr m'"
    using assms(1) Some E by (auto simp: promoteMessage_def bindR_eq_Inr)
  have "touches T p {''message''} m1 m'" by (rule record_write_touches [OF m' mailbox_atD(1) [OF Q]]) simp
  from touches_steps [OF setMessagePolling_touches(1) [OF m1 Q] this] show ?thesis
    by (rule touches_mono) (auto simp: pollingSections_def)
qed (use assms(1) in \<open>simp add: promoteMessage_def\<close>)

lemma promoteLoop_touches:
  assumes "promoteLoop E Q index cursor e m = Some (Inr m')" and E: "message_txn E = T" and Q: "mailbox_at Q p"
  shows "touches T p pollingSections m m'"
proof -
  let ?P = "\<lambda>E' Q' index cursor e m r. E' = E \<longrightarrow> Q' = Q \<longrightarrow> r = (Inr m' :: message_error + _) \<longrightarrow> touches T p pollingSections m m'"
  have "?P E Q index cursor e m (Inr m')"
  proof (rule promoteLoop.raw_induct [of ?P E Q index cursor e m "Inr m'"])
    show "promoteLoop E Q index cursor e m = Some (Inr m')" by (rule assms(1))
  next
    fix loop E' Q' index cursor e m r
    assume IH: "\<And>E' Q' index cursor e m r. loop E' Q' index cursor e m = Some r \<Longrightarrow> ?P E' Q' index cursor e m r"
      and step: "(let rows = tx_getRange (message_txn E') (database m) (keyRange cursor e (Some mailboxPageSize) False) in
        case bindR (mapR (timerId index) rows) (\<lambda>ids.
          bindR (record_readMany (message_txn E') (metaJson E') (messages_sub Q') (map (\<lambda>i. [Str i]) ids) m) (\<lambda>metas.
          foldR (promoteMessage E' Q') metas m)) of
         Inl err \<Rightarrow> Some (Inl err)
       | Inr m \<Rightarrow> if length rows < mailboxPageSize then Some (Inr m)
           else loop E' Q' index (fst (last rows) @ [0]) e m) = Some r"
    show "?P E' Q' index cursor e m r"
    proof (intro impI)
      assume eqs: "E' = E" "Q' = Q" "r = Inr m'"
      obtain metas m1 where m1: "foldR (promoteMessage E Q) metas m = Inr m1"
        and cont: "m1 = m' \<or> (\<exists>cursor. loop E Q index cursor e m1 = Some (Inr m'))"
        using step eqs by (auto simp: Let_def bindR_eq_Inr split: sum.splits if_splits)
      have "touches T p pollingSections m m1" by (rule touches_foldR [OF m1]) (rule promoteMessage_touches [OF _ E Q])
      moreover have "touches T p pollingSections m1 m'" using cont IH by blast
      ultimately show "touches T p pollingSections m m'" by (rule touches_trans)
    qed
  qed
  then show ?thesis by simp
qed

lemma promoteDue_touches:
  assumes "promoteDue E Q index now m = Some (Inr m')" and E: "message_txn E = T" and Q: "mailbox_at Q p"
  shows "touches T p pollingSections m m'"
proof -
  obtain b e where "promoteLoop E Q index b e m = Some (Inr m')" using assms(1) by (auto simp: promoteDue_def bindO_Inr)
  then show ?thesis by (rule promoteLoop_touches [OF _ E Q])
qed

lemma unprocessedMessages_touches:
  assumes "unprocessedMessages E shards now wanted addresses Q m = Some (Inr (result, m'))" and E: "message_txn E = T" and Q: "mailbox_at Q p"
  shows "touches T p pollingSections m m'"
proof (cases "map_option (\<lambda>q. nat \<lfloor>q\<rfloor>) wanted = Some 0")
  case True
  then show ?thesis using assms(1) by (simp add: unprocessedMessages_def)
next
  case False
  let ?limit = "map_option (\<lambda>q. nat \<lfloor>q\<rfloor>) wanted"
  let ?scheduled = "if addresses = None then scheduledByShard_sub Q else scheduledByAddress_sub Q"
  obtain indexes m1 where m1: "foldO (\<lambda>key m. bindO (Some (liftMessageKey (subspace ?scheduled key))) (\<lambda>index. promoteDue E Q index now m))
           (pollSelectors E shards addresses) m = Some (Inr m1)"
    and v: "visitMessageOrder T Q indexes (pollVisitor E Q now ?limit) ([], m1) = Some (Inr (result, m'))"
    using assms(1) unfolding unprocessedMessages_def Let_def if_not_P [OF False] bindO_Inr E by blast
  have "touches T p pollingSections m m1"
  proof (rule touching.foldO_steps [OF m1])
    fix key s s' assume "bindO (Some (liftMessageKey (subspace ?scheduled key))) (\<lambda>index. promoteDue E Q index now s) = Some (Inr s')"
    then obtain index where "promoteDue E Q index now s = Some (Inr s')" by (auto simp: bindO_Inr)
    then show "touches T p pollingSections s s'" by (rule promoteDue_touches [OF _ E Q])
  qed
  moreover have "touches T p pollingSections (snd ([] :: ('b, 'c) polled list, m1)) (snd (result, m'))"
  proof (rule touched.visitMessageOrder_steps [OF v])
    fix ids and st st' :: "('b, 'c) polled list \<times> 'a mailbox" and g assume w: "pollVisitor E Q now ?limit ids st = Inr (g, st')"
    obtain r0 m0 where st: "st = (r0, m0)" by (cases st)
    obtain x where x: "readMessages E Q ids now True (map_option (\<lambda>n. n - length r0) ?limit) m0 = Inr x" "snd st' = snd x"
      using w st by (auto simp: pollVisitor_def Let_def bindR_eq_Inr)
    show "touches T p pollingSections (snd st) (snd st')"
      using readMessages_touches [OF _ E Q, of ids now True _ m0 "fst x" "snd x"] x st by simp
  next
    fix a :: "('b, 'c) polled list" and m x show "touches T p pollingSections (snd (a, m)) (snd (a, noteCommitted Q x m))"
      using noteCommitted_touches by simp
  qed
  ultimately show ?thesis unfolding snd_conv by (rule touches_trans)
qed

lemma readMessages_unclaimed: "readMessages E Q ids now False limit m = Inr (loaded, m') \<Longrightarrow> m' = m"
  by (auto simp: readMessages_def Let_def bindR_eq_Inr)

lemma unprocessedMessagesById_unchanged:
  assumes "unprocessedMessagesById E ids now Q m = Some (Inr (result, m'))"
  shows "m' = m"
proof -
  obtain x where f: "foldR (readPage E Q now) (pagesOf (length (jsSet ids)) (jsSet ids)) ([], m) = Inr (x, m')"
    using assms by (auto simp: unprocessedMessagesById_def Let_def bindR_eq_Inr)
  have page: "snd st' = snd st" if w: "readPage E Q now page st = Inr st'" for page st st'
    using w readMessages_unclaimed by (cases st) (fastforce simp: readPage_def bindR_eq_Inr)
  have "snd st' = snd st" if "foldR (readPage E Q now) pages st = Inr st'" for pages st st'
    using that
  proof (induction pages arbitrary: st)
    case (Cons q pages)
    obtain st1 where "readPage E Q now q st = Inr st1" "foldR (readPage E Q now) pages st1 = Inr st'"
      using Cons.prems by (auto simp: bindR_eq_Inr)
    then show ?case using page Cons.IH by fastforce
  qed simp
  from this [OF f] show ?thesis by simp
qed

lemma resetMessage_touches:
  assumes "resetMessage E Q meta m = Inr m'" and E: "message_txn E = T" and Q: "mailbox_at Q p"
  shows "touches T p pollingSections m m'"
  using assms(1) writeMessage_polls [OF _ E Q] by (auto simp: resetMessage_def bindR_eq_Inr)

lemma resetRequests_touches:
  assumes "resetRequests E ids Q m = Some (Inr ((), m'))" and E: "message_txn E = T" and Q: "mailbox_at Q p"
  shows "touches T p pollingSections m m'"
proof -
  have "foldR (\<lambda>i m. bindR (record_read (message_txn E) (metaJson E) (messages_sub Q) [Str i] m) (\<lambda>meta. case meta of
        Some meta \<Rightarrow> if \<not> processed meta then resetMessage E Q meta m else Inr m
      | None \<Rightarrow> Inr m)) ids m = Inr m'"
    using assms(1) by (auto simp: resetRequests_def bindR_eq_Inr)
  then show ?thesis
  proof (rule touches_foldR)
    fix i s s' assume "bindR (record_read (message_txn E) (metaJson E) (messages_sub Q) [Str i] s) (\<lambda>meta. case meta of
        Some meta \<Rightarrow> if \<not> processed meta then resetMessage E Q meta s else Inr s | None \<Rightarrow> Inr s) = Inr s'"
    then show "touches T p pollingSections s s'"
      using resetMessage_touches [OF _ E Q] by (auto simp: bindR_eq_Inr split: option.splits if_splits)
  qed
qed

lemma resetIndex_touches:
  assumes "resetIndex E namespace keys Q m = Some (Inr ((), m'))" and E: "message_txn E = T" and Q: "mailbox_at Q p"
  shows "touches T p pollingSections m m'"
proof -
  let ?visit = "\<lambda>i ((), m). bindR (record_read (message_txn E) (metaJson E) (messages_sub Q) [Str i] m) (\<lambda>meta.
          bindR (case meta of
              Some meta \<Rightarrow> if \<not> processed meta \<and> claimedAt meta \<noteq> None then resetMessage E Q meta m else Inr m
            | None \<Rightarrow> Inr m) (\<lambda>m. Inr (True, (), m)))"
  have f: "foldO (\<lambda>key st. bindO (Some (liftMessageKey (subspace (namespace Q) key))) (\<lambda>index.
        visitIndex T index ?visit st)) keys ((), m) = Some (Inr ((), m'))"
    using assms(1) E unfolding resetIndex_def by blast
  have "touches T p pollingSections (snd ((), m)) (snd ((), m'))"
  proof (rule touched.foldO_steps [OF f])
    fix key and st st' :: "unit \<times> 'a mailbox"
    assume "bindO (Some (liftMessageKey (subspace (namespace Q) key))) (\<lambda>index. visitIndex T index ?visit st) = Some (Inr st')"
    then obtain index where v: "visitIndex T index ?visit st = Some (Inr st')" unfolding bindO_Inr by blast
    show "touches T p pollingSections (snd st) (snd st')"
    proof (rule touched.visitIndex_steps [OF v])
      fix i and st st' :: "unit \<times> 'a mailbox" and g assume w: "?visit i st = Inr (g, st')"
      obtain m1 where st: "st = ((), m1)" by (cases st) auto
      obtain meta m2 where "(case meta of
              Some meta \<Rightarrow> if \<not> processed meta \<and> claimedAt meta \<noteq> None then resetMessage E Q meta m1 else Inr m1
            | None \<Rightarrow> Inr m1) = Inr m2" "Inr (True, (), m2) = (Inr (g, st') :: message_error + _)"
        using w unfolding st prod.case unit.case bindR_eq_Inr by blast
      then show "touches T p pollingSections (snd st) (snd st')"
        using resetMessage_touches [OF _ E Q] st by (auto split: option.splits if_splits)
    qed
  qed
  then show ?thesis by simp
qed

end

end
