(* ===== verification/Message_Samples.thy ===== *)
theory Message_Samples
  imports Message_Histories Sample_Codecs
begin

text \<open>
  A mailbox in memory, with a packed tuple as the JSON text of each record. Envelopes and replies have no fields but
  those that the mailbox reads.
\<close>

definition kindValue :: "message_kind \<Rightarrow> tuple_value" where
  "kindValue k = intValue (case k of Request \<Rightarrow> 0 | AckChunk \<Rightarrow> 1 | Interrupt \<Rightarrow> 2)"

definition kindOf :: "tuple_value \<Rightarrow> message_kind" where
  "kindOf v = (if intOf v = 0 then Request else if intOf v = 1 then AckChunk else Interrupt)"

definition addressValue :: "address \<Rightarrow> tuple_value" where
  "addressValue a = Nested [textValue (shard_group (shardId a)), intValue (shard_number (shardId a)), textValue (entityType a), textValue (entityId a)]"

fun addressOf :: "tuple_value \<Rightarrow> address" where
  "addressOf (Nested [g, n, ty, i]) = \<lparr>shardId = \<lparr>shard_group = textOf g, shard_number = intOf n\<rparr>, entityType = textOf ty, entityId = textOf i\<rparr>"
| "addressOf v = \<lparr>shardId = \<lparr>shard_group = [], shard_number = 0\<rparr>, entityType = [], entityId = []\<rparr>"

definition pollingValue :: "polling \<Rightarrow> tuple_value" where
  "pollingValue p = (case p of Ready \<Rightarrow> Null | Blocked \<Rightarrow> Bool True | At t \<Rightarrow> Nested [intValue t])"

fun pollingOf :: "tuple_value \<Rightarrow> polling" where
  "pollingOf Null = Ready"
| "pollingOf (Nested [v]) = At (intOf v)"
| "pollingOf v = Blocked"

definition metaCodec :: "message_meta json_codec" where
  "metaCodec = tupleJson
     (\<lambda>x. [textValue (message_id x), textValue (requestId x), kindValue (message_kind x), addressValue (message_address x),
        optValue textValue (primaryKey x), optValue intValue (deliverAt x), optValue intValue (claimedAt x),
        Bool (processed x), pollingValue (message_polling x)])
     (\<lambda>t. if length t = 9 then Some \<lparr>message_id = textOf (t ! 0), requestId = textOf (t ! 1), message_kind = kindOf (t ! 2),
        message_address = addressOf (t ! 3), primaryKey = optOf textOf (t ! 4), deliverAt = optOf intOf (t ! 5),
        claimedAt = optOf intOf (t ! 6), processed = (t ! 7 = Bool True), message_polling = pollingOf (t ! 8)\<rparr> else None)"

definition stateCodec :: "request_state json_codec" where
  "stateCodec = tupleJson
     (\<lambda>x. [optValue textValue (lastReplyId x), optValue textValue (exitId x), optValue textValue (latestAckId x), intValue (unacked x)])
     (\<lambda>t. if length t = 4 then Some \<lparr>lastReplyId = optOf textOf (t ! 0), exitId = optOf textOf (t ! 1),
        latestAckId = optOf textOf (t ! 2), unacked = intOf (t ! 3)\<rparr> else None)"

definition replyMetaCodec :: "reply_meta json_codec" where
  "replyMetaCodec = tupleJson
     (\<lambda>x. [textValue (reply_meta_id x), Bool (reply_meta_kind x = Chunk), optValue intValue (reply_meta_sequence x), Bool (acked x)])
     (\<lambda>t. if length t = 4 then Some \<lparr>reply_meta_id = textOf (t ! 0), reply_meta_kind = (if t ! 1 = Bool True then Chunk else WithExit),
        reply_meta_sequence = optOf intOf (t ! 2), acked = (t ! 3 = Bool True)\<rparr> else None)"

definition envelopeCodec :: "unit envelope json_codec" where
  "envelopeCodec = tupleJson
     (\<lambda>x. [kindValue (env_kind x), textValue (env_requestId x), textValue (env_id x), textValue (env_replyId x), addressValue (env_address x)])
     (\<lambda>t. if length t = 5 then Some \<lparr>env_kind = kindOf (t ! 0), env_requestId = textOf (t ! 1), env_id = textOf (t ! 2),
        env_replyId = textOf (t ! 3), env_address = addressOf (t ! 4), env_rest = ()\<rparr> else None)"

definition replyCodec :: "unit reply json_codec" where
  "replyCodec = tupleJson
     (\<lambda>x. [Bool (reply_kind x = Chunk), textValue (reply_id x), textValue (reply_requestId x), intValue (reply_sequence x)])
     (\<lambda>t. if length t = 4 then Some \<lparr>reply_kind = (if t ! 0 = Bool True then Chunk else WithExit), reply_id = textOf (t ! 1),
        reply_requestId = textOf (t ! 2), reply_sequence = intOf (t ! 3), reply_rest = ()\<rparr> else None)"

definition memMailbox :: "(mem, unit, unit) message_env" where
  "memMailbox = \<lparr>message_txn = mem_txn, shardString = shard_group, metaJson = metaCodec, stateJson = stateCodec,
     replyMetaJson = replyMetaCodec, envelopeJson = envelopeCodec, replyJson = replyCodec, primaryHash = id,
     messageRoot = openedRoot [9]\<rparr>"

lemma sample_fields [simp]:
  "kindOf (kindValue k) = k" "addressOf (addressValue a) = a" "pollingOf (pollingValue p) = p"
  "packable (kindValue k)" "constructed (kindValue k)" "packable (addressValue a)" "constructed (addressValue a)"
  "packable (pollingValue p)" "constructed (pollingValue p)"
  by (cases k; simp add: kindValue_def kindOf_def) (simp_all add: addressValue_def pollingValue_def kindValue_def split: polling.split)

lemma option_fields [simp]:
  "optOf textOf (optValue textValue x) = x" "optOf intOf (optValue intValue y) = y"
  "packable (optValue textValue x)" "constructed (optValue textValue x)" "packable (optValue intValue y)" "constructed (optValue intValue y)"
  by (cases x; cases y; simp add: optValue_def)+

lemma reply_kind_if [simp]: "(if k = Chunk then Chunk else WithExit) = k"
  by (cases k) simp_all

interpretation metaCodec: json_codec metaCodec
  unfolding metaCodec_def by (rule tupleJson_codec) simp_all

interpretation stateCodec: json_codec stateCodec
  unfolding stateCodec_def by (rule tupleJson_codec) (simp_all)

interpretation replyMetaCodec: json_codec replyMetaCodec
  unfolding replyMetaCodec_def
  by (rule tupleJson_codec) simp_all

interpretation memMailbox: mailbox_store memMailbox
  unfolding mailbox_store_def memMailbox_def
  using mem_stamped.fdb_stamped_axioms metaCodec.json_codec_axioms stateCodec.json_codec_axioms replyMetaCodec.json_codec_axioms by simp

end
