(* ===== verification/Message_Properties.thy ===== *)
theory Message_Properties
  imports Message_Samples
begin

text \<open>
  The properties of the mailbox of the cluster runtime: when a message is offered, and what the state of a request
  says of its replies in every state that transactions can reach.
\<close>

section \<open>When a message is offered\<close>


section \<open>Histories\<close>

text \<open>
  An operation of the mailbox, and the states that a mailbox can reach from an empty directory: several operations can
  be in one transaction, and when it commits the database completes the versionstamps, which are in the polling
  indexes and in the order, and the next transaction starts with an empty attempt. Rows outside the mailbox are free.
\<close>

inductive mailbox_op :: "('s, 'e, 'r) message_env \<Rightarrow> 's mailbox \<Rightarrow> 's mailbox \<Rightarrow> bool" for E where
  op_saveEnvelope: "mailbox_run E (saveEnvelope E envelope primary deliver) m = Some (Inr (r, m')) \<Longrightarrow> mailbox_op E m m'"
| op_saveReply: "mailbox_run E (saveReply E reply) m = Some (Inr ((), m')) \<Longrightarrow> mailbox_op E m m'"
| op_clearReplies: "mailbox_run E (clearReplies E i expected) m = Some (Inr ((), m')) \<Longrightarrow> mailbox_op E m m'"
| op_clearAddress: "mailbox_run E (clearAddress E ty i) m = Some (Inr ((), m')) \<Longrightarrow> mailbox_op E m m'"
| op_unprocessed: "mailbox_run E (unprocessedMessages E shards now limit addresses) m = Some (Inr (polled, m')) \<Longrightarrow> mailbox_op E m m'"
| op_byId: "mailbox_run E (unprocessedMessagesById E ids now) m = Some (Inr (polled, m')) \<Longrightarrow> mailbox_op E m m'"
| op_replies: "mailbox_run E (readReplies E ids filtered) m = Some (Inr (replies, m')) \<Longrightarrow> mailbox_op E m m'"
| op_primaryKey: "mailbox_run E (requestIdForPrimaryKey E primary) m = Some (Inr (found, m')) \<Longrightarrow> mailbox_op E m m'"
| op_resetRequests: "mailbox_run E (resetRequests E ids) m = Some (Inr ((), m')) \<Longrightarrow> mailbox_op E m m'"
| op_resetAddresses: "mailbox_run E (resetAddresses E addresses') m = Some (Inr ((), m')) \<Longrightarrow> mailbox_op E m m'"
| op_resetShards: "mailbox_run E (resetShards E shards) m = Some (Inr ((), m')) \<Longrightarrow> mailbox_op E m m'"

inductive mailbox_reachable :: "('s, 'e, 'r) message_env \<Rightarrow> bytes \<Rightarrow> 's mailbox \<Rightarrow> bool" for E p where
  mailbox_empty: "(\<And>k. prefix p k \<Longrightarrow> tx_get (message_txn E) s k = None) \<Longrightarrow>
    mailbox_reachable E p \<lparr>database = s, order_state = emptyAttempt\<rparr>"
| mailbox_next: "mailbox_reachable E p m \<Longrightarrow> mailbox_op E m m' \<Longrightarrow> mailbox_reachable E p m'"
| mailbox_commit: "mailbox_reachable E p m \<Longrightarrow>
    (\<And>k n. sect p n k \<Longrightarrow> n \<noteq> ''ready'' \<Longrightarrow> n \<noteq> ''order'' \<Longrightarrow> tx_get (message_txn E) s k = rows E m k) \<Longrightarrow>
    mailbox_reachable E p \<lparr>database = s, order_state = emptyAttempt\<rparr>"

definition opensMailbox :: "('s, 'e, 'r) message_env \<Rightarrow> bytes \<Rightarrow> bool" where
  "opensMailbox E p \<longleftrightarrow> (\<forall>s directory s'. messageRoot E s = Inr (directory, s') \<longrightarrow>
     directory = fromBytes p \<and> (\<forall>k. prefix p k \<longrightarrow> tx_get (message_txn E) s' k = tx_get (message_txn E) s k))"

lemma readReply_unchanged:
  assumes "readReply E Q i filtered r st = Inr (g, st')"
  shows "snd st = snd st'"
proof -
  obtain meta where meta: "record_read (message_txn E) (replyMetaJson E) (replyMetadata_sub Q) [Str i, Str r] (snd st) = Inr meta"
    using assms by (cases st) (auto simp: readReply_def bindR_eq_Inr)
  show ?thesis
  proof (cases "\<exists>x. meta = Some x \<and> (\<not> filtered \<or> reply_meta_kind x = WithExit \<or> \<not> acked x)")
    case True
    then obtain reply where reply: "chunked_read (message_txn E) (replyJson E) (replies_sub Q) [Str i, Str r] (snd st) = Inr reply"
      using assms meta by (cases st) (auto simp: readReply_def bindR_eq_Inr)
    then show ?thesis using assms meta True by (cases st; cases reply) (auto simp: readReply_def)
  next
    case False
    then show ?thesis using assms meta by (cases st; cases meta) (auto simp: readReply_def)
  qed
qed

interpretation unchanged: visit_steps "\<lambda>x y. snd x = snd y"
  by unfold_locales auto

lemma readReplies_unchanged:
  fixes result :: "'r reply list"
  assumes "readReplies E ids filtered Q m = Some (Inr (result, m'))"
  shows "m' = m"
proof -
  let ?f = "\<lambda>i st. bindO (Some (liftMessageKey (subspace (replyIds_sub Q) [Str i]))) (\<lambda>index.
        visitIndex (message_txn E) index (readReply E Q i filtered) st)"
  have f: "foldO ?f (jsSet ids) ([], m) = Some (Inr (result, m'))" using assms by (simp add: readReplies_def)
  have "snd ([] :: 'r reply list, m) = snd (result, m')"
  proof (rule unchanged.foldO_steps [OF f])
    fix i st st' assume "?f i st = Some (Inr st')"
    then obtain index where v: "visitIndex (message_txn E) index (readReply E Q i filtered) st = Some (Inr st')"
      unfolding bindO_Inr by blast
    show "snd st = snd st'"
      by (rule unchanged.visitIndex_steps [OF v]) (rule readReply_unchanged)
  qed
  then show ?thesis unfolding snd_conv by (rule sym)
qed

context mailbox_store
begin

lemma mailbox_run_keeps:
  assumes "mailbox_run E f m = Some (Inr (x, m'))" and o: "opensMailbox E p"
    and f: "\<And>Q m1. mailbox_at Q p \<Longrightarrow> f Q m1 = Some (Inr (x, m')) \<Longrightarrow> keeps E p m1 m'"
  shows "keeps E p m m'"
proof -
  obtain d s Q where d: "messageRoot E (database m) = Inr (d, s)" and Q: "makeMessageSubspaces d = Inr Q"
    and r: "f Q (m\<lparr>database := s\<rparr>) = Some (Inr (x, m'))"
  proof -
    obtain y where y: "messageRoot E (database m) = Inr y" "(\<lambda>(directory, s).
        bindO (Some (makeMessageSubspaces directory)) (\<lambda>Q. f Q (m\<lparr>database := s\<rparr>))) y = Some (Inr (x, m'))"
      using assms(1) unfolding mailbox_run_def bindO_Inr option.inject lift_Inr by blast
    then obtain Q where "makeMessageSubspaces (fst y) = Inr Q" "f Q (m\<lparr>database := snd y\<rparr>) = Some (Inr (x, m'))"
      unfolding case_prod_beta bindO_Inr by blast
    then show thesis using y(1) that [of "fst y" "snd y"] by simp
  qed
  have d': "d = fromBytes p" and same: "\<And>k. prefix p k \<Longrightarrow> tx_get (message_txn E) s k = rows E m k"
    using o d by (auto simp: opensMailbox_def)
  have at: "mailbox_at Q p" using makeMessageSubspaces_at [OF Q] d' by (simp add: fromBytes_def)
  have "keeps E p m (m\<lparr>database := s\<rparr>)"
    unfolding keeps_def
  proof (intro impI conjI)
    assume "replies_ok E p (rows E m)"
    then show "replies_ok E p (rows E (m\<lparr>database := s\<rparr>))"
      by (rule replies_ok_cong) (use same inRange_prefix in auto)
  qed simp
  also have "keeps E p (m\<lparr>database := s\<rparr>) m'" by (rule f [OF at r])
  finally show ?thesis .
qed

lemma polling_keeps: "touches (message_txn E) p pollingSections m m' \<Longrightarrow> keeps E p m m'"
  by (rule touches_keeps) (auto simp: pollingSections_def replySections_def)

lemma mailbox_op_keeps:
  assumes "mailbox_op E m m'" and o: "opensMailbox E p"
  shows "keeps E p m m'"
  using assms(1)
proof cases
  case (op_saveEnvelope envelope primary deliver r)
  show ?thesis by (rule mailbox_run_keeps [OF op_saveEnvelope o]) (rule saveEnvelope_keeps)
next
  case (op_saveReply reply)
  show ?thesis by (rule mailbox_run_keeps [OF op_saveReply o]) (rule saveReply_keeps)
next
  case (op_clearReplies i expected)
  show ?thesis by (rule mailbox_run_keeps [OF op_clearReplies o]) (rule clearReplies_keeps)
next
  case (op_clearAddress ty i)
  show ?thesis by (rule mailbox_run_keeps [OF op_clearAddress o]) (rule clearAddress_keeps)
next
  case (op_unprocessed shards now limit addresses polled)
  show ?thesis by (rule mailbox_run_keeps [OF op_unprocessed o]) (rule polling_keeps [OF unprocessedMessages_touches [OF _ refl]])
next
  case (op_byId ids now polled)
  show ?thesis by (rule mailbox_run_keeps [OF op_byId o]) (use unprocessedMessagesById_unchanged in blast)
next
  case (op_replies ids filtered replies)
  show ?thesis by (rule mailbox_run_keeps [OF op_replies o]) (use readReplies_unchanged in blast)
next
  case (op_primaryKey primary found)
  show ?thesis by (rule mailbox_run_keeps [OF op_primaryKey o]) (auto simp: requestIdForPrimaryKey_def bindR_eq_Inr)
next
  case (op_resetRequests ids)
  show ?thesis by (rule mailbox_run_keeps [OF op_resetRequests o]) (rule polling_keeps [OF resetRequests_touches [OF _ refl]])
next
  case (op_resetAddresses addresses)
  show ?thesis
    by (rule mailbox_run_keeps [OF op_resetAddresses o]) (rule polling_keeps [OF resetIndex_touches [OF _ refl]], simp_all add: resetAddresses_def)
next
  case (op_resetShards shards)
  show ?thesis
    by (rule mailbox_run_keeps [OF op_resetShards o]) (rule polling_keeps [OF resetIndex_touches [OF _ refl]], simp_all add: resetShards_def)
qed

lemma reachable_accounted:
  assumes "mailbox_reachable E p m" and o: "opensMailbox E p"
  shows "stampsOk (order_state m) \<and> replies_ok E p (rows E m)"
  using assms(1)
proof induction
  case (mailbox_empty s)
  then show ?case using replies_ok_empty [of p "tx_get (message_txn E) s" E] stampsOk_empty by simp
next
  case (mailbox_next m m')
  then show ?case using mailbox_op_keeps [OF _ o] by (simp add: keeps_def)
next
  case (mailbox_commit m s)
  then have "replies_ok E p (rows E m)" by blast
  then have "replies_ok E p (tx_get (message_txn E) s)"
    by (rule replies_ok_cong) (use mailbox_commit(2) in \<open>auto simp: replySections_def\<close>)
  then show ?case using stampsOk_empty by simp
qed

end


section \<open>Replies\<close>

text \<open>The replies that the mailbox lists for a request, and those among them that wait for an acknowledgement.\<close>

definition storedReply ::
    "('s, 'e, 'r) message_env \<Rightarrow> message_subspaces \<Rightarrow> js_string \<Rightarrow> 's mailbox \<Rightarrow> js_string \<Rightarrow> reply_meta \<Rightarrow> bool" where
  "storedReply E Q i m r x \<longleftrightarrow>
     record_read (message_txn E) (replyMetaJson E) (replyMetadata_sub Q) [Str i, Str r] m = Inr (Some x)"

definition waitingChunks :: "('s, 'e, 'r) message_env \<Rightarrow> message_subspaces \<Rightarrow> js_string \<Rightarrow> 's mailbox \<Rightarrow> js_string set" where
  "waitingChunks E Q i m = {r. \<exists>x. storedReply E Q i m r x \<and> reply_meta_kind x = Chunk \<and> \<not> acked x}"

lemma storedReply_iff:
  assumes "mailbox_at Q p" and "wellFormed i"
  shows "storedReply E Q i m r x \<longleftrightarrow> wellFormed r \<and> replyOf E p (rows E m) i r = Some x"
proof
  assume "storedReply E Q i m r x"
  then have r: "record_read (message_txn E) (replyMetaJson E) (replyMetadata_sub Q) [Str i, Str r] m = Inr (Some x)" by (simp add: storedReply_def)
  show "wellFormed r \<and> replyOf E p (rows E m) i r = Some x" using readReplyMeta_Inr [OF r assms(1)] by simp
next
  assume r: "wellFormed r \<and> replyOf E p (rows E m) i r = Some x"
  have "prefix_bytes (replyMetadata_sub Q) = K p ''reply-meta'' []" using at_prefix [OF mailbox_atD(6) [OF assms(1)]] .
  then have "subspace_pack (replyMetadata_sub Q) [Str i, Str r] = Inr (replyKey p i r)" using assms(2) r by (simp add: pack_at)
  then show "storedReply E Q i m r x"
    using r readRecord_Some [of "replyMetaJson E" "message_txn E" "database m" "replyKey p i r" x]
    by (simp add: storedReply_def record_read_def replyOf_def liftMessageKey_def liftMessage_def liftKey_def)
qed

text \<open>C22. In every state that transactions on the mailbox can reach, the state of a request accounts for its replies. Its
  counter is the number of chunks that wait for an acknowledgement, which is what holds further messages of
  the request back; a reply is an exit exactly if the state names it as the exit, so that there is at most one, and a
  named exit is stored; and no two chunks of the request have the same sequence number. Replies that are saved again,
  late acknowledgements, removed exits and cleared addresses are no exception.
\<close>

theorem replies_are_accounted:
  assumes "mailbox_store E" and "opensMailbox E p" and "mailbox_reachable E p m"
    and "makeMessageSubspaces (fromBytes p) = Inr Q" and "readState E Q i m = Inr st"
  shows "finite (waitingChunks E Q i m) \<and> unacked st = int (card (waitingChunks E Q i m))
    \<and> (\<forall>e. exitId st = Some e \<longrightarrow> (\<exists>x. storedReply E Q i m e x))
    \<and> (\<forall>r x. storedReply E Q i m r x \<longrightarrow> (reply_meta_kind x = WithExit \<longleftrightarrow> exitId st = Some r))
    \<and> (\<forall>r x r' x'. storedReply E Q i m r x \<longrightarrow> storedReply E Q i m r' x' \<longrightarrow> reply_meta_kind x = Chunk \<longrightarrow>
         reply_meta_kind x' = Chunk \<longrightarrow> reply_meta_sequence x = reply_meta_sequence x' \<longrightarrow> r = r')"
proof -
  have Q: "mailbox_at Q p" using makeMessageSubspaces_at [OF assms(4)] by (simp add: fromBytes_def)
  note state = readState_Inr [OF assms(5) Q]
  note stored = storedReply_iff [OF Q state(1), where E = E and m = m]
  have "replies_ok E p (rows E m)" using mailbox_store.reachable_accounted [OF assms(1,3,2)] by blast
  then have acc: "accounted st (replyOf E p (rows E m) i) (\<lambda>n. rows E m (sequenceKey p i n))"
    using state by (simp add: replies_ok_def)
  have waiting: "waitingChunks E Q i m = unackedChunks (replyOf E p (rows E m) i)"
    by (auto simp: waitingChunks_def unackedChunks_def stored)
  have "r = r'" if "storedReply E Q i m r x" "storedReply E Q i m r' x'" "reply_meta_kind x = Chunk" "reply_meta_kind x' = Chunk"
    "reply_meta_sequence x = reply_meta_sequence x'" for r x r' x'
  proof -
    have wf: "wellFormed r" "wellFormed r'" using that(1,2) by (simp_all add: stored)
    have "\<exists>n. reply_meta_sequence x = Some n \<and> rows E m (sequenceKey p i (Some n)) = Some (text_encode r)"
      "\<exists>n. reply_meta_sequence x' = Some n \<and> rows E m (sequenceKey p i (Some n)) = Some (text_encode r')"
      using acc that(1-4) unfolding accounted_def stored by blast+
    then have "text_encode r = text_encode r'" using that(5) by auto
    then show ?thesis by (rule text_encode_inj [OF wf])
  qed
  then show ?thesis using acc unfolding accounted_def waiting stored by blast
qed

text \<open>The first chunk of a request, in an empty mailbox.\<close>

context mailbox_store
begin

lemma insertReply_ok:
  assumes Q: "mailbox_at Q p" and wf: "wellFormed (reply_requestId reply)" "wellFormed (reply_id reply)"
    and n: "bigIntOf (reply_id reply) = Inr n" "smallInt n" and w: "writable (text_encode (encodeJson (replyJson E) reply))"
  shows "\<exists>st' m'. insertReply E Q reply unique st m = Inr (st', m')
    \<and> (sect p ''reply-unique'' unique \<longrightarrow> touches (message_txn E) p {''reply'', ''reply-meta'', ''replies'', ''reply-unique'', ''state''} m m')"
proof -
  let ?T = "message_txn E" and ?i = "reply_requestId reply" and ?r = "reply_id reply"
  let ?N = "{''reply'', ''reply-meta'', ''replies'', ''reply-unique'', ''state''}"
  note at = mailbox_atD [OF Q]
  have pack: "subspace_pack sub path = Inr (K p name path)" if "at_section p name [] sub" "list_all packable path" for sub name path
    using at_prefix [OF that(1)] that(2) by (simp add: pack_at)
  have "tuple_ok [Str ?i, Str ?r]" using wf by (simp add: tuple_ok_def)
  from writeChunkedValue_ok [OF this w, of ?T "replies_sub Q" "database m"]
  obtain s where s: "writeChunkedValue ?T (replies_sub Q) [Str ?i, Str ?r] (text_encode (encodeJson (replyJson E) reply)) (database m) = Inr s"
    by blast
  let ?x = "\<lparr>reply_meta_id = ?r, reply_meta_kind = reply_kind reply, reply_meta_sequence = replySequence reply, acked = False\<rparr>"
  let ?st = "st\<lparr>lastReplyId := Some ?r, exitId := (if reply_kind reply = WithExit then Some ?r else exitId st),
          unacked := unacked st + (if reply_kind reply = Chunk then 1 else 0)\<rparr>"
  have m1: "chunked_write ?T (replyJson E) (replies_sub Q) [Str ?i, Str ?r] reply m = Inr (m\<lparr>database := s\<rparr>)"
    using s by (simp add: chunked_write_def liftMessageKey_def liftMessage_def liftKey_def)
  obtain m2 where m2: "record_write ?T (replyMetaJson E) (replyMetadata_sub Q) [Str ?i, Str ?r] ?x (m\<lparr>database := s\<rparr>) = Inr m2"
    using pack [OF at(6), of "[Str ?i, Str ?r]"] wf by (simp add: record_write_def liftMessageKey_def liftMessage_def liftKey_def)
  obtain m3 where m3: "setRow ?T (replyIds_sub Q) [Str ?i, BigInt n] [] m2 = Inr m3"
    using pack [OF at(7), of "[Str ?i, BigInt n]"] wf n by (simp add: setRow_def liftMessageKey_def liftMessage_def liftKey_def)
  obtain m' where m': "record_write ?T (stateJson E) (requestStates_sub Q) [Str ?i] ?st (onDatabase (tx_set ?T unique (text_encode ?r)) m3) = Inr m'"
    using pack [OF at(3), of "[Str ?i]"] wf by (simp add: record_write_def liftMessageKey_def liftMessage_def liftKey_def)
  have "insertReply E Q reply unique st m = Inr (?st, m')"
    using m1 m2 m3 m' n by (simp add: insertReply_def Let_def)
  moreover have "touches ?T p ?N m m'" if u: "sect p ''reply-unique'' unique"
  proof -
    have "touches ?T p ?N m (m\<lparr>database := s\<rparr>)" by (rule touches_mono [OF chunked_write_touches [OF m1 at(5)]]) simp_all
    also have "touches ?T p ?N (m\<lparr>database := s\<rparr>) m2" by (rule touches_mono [OF record_write_touches [OF m2 at(6)]]) simp_all
    also have "touches ?T p ?N m2 m3" by (rule touches_mono [OF setRow_touches [OF m3 at(7)]]) simp_all
    also have "touches ?T p ?N m3 (onDatabase (tx_set ?T unique (text_encode ?r)) m3)"
      by (rule touches_mono [OF touches_set [OF u]]) simp
    also have "touches ?T p ?N (onDatabase (tx_set ?T unique (text_encode ?r)) m3) m'"
      by (rule touches_mono [OF record_write_touches [OF m' at(3)]]) simp_all
    finally show ?thesis .
  qed
  ultimately show ?thesis by blast
qed

lemma visitIndex_empty:
  assumes "at_section p n r index" and "\<And>k. sect p n k \<Longrightarrow> rows E (snd st) k = None"
  shows "visitIndex (message_txn E) index visit st = Some (Inr st)"
proof -
  have r: "list_all packable r" and "prefix_bytes index = K p n r" using assms(1) by (simp_all add: at_section_def tracked_def)
  then have range: "subspace_range index [] = Inr (K p n r @ [NIL], K p n r @ [ESCAPE])" by (simp add: subspace_range_Inr)
  have rows: "tx_getRange (message_txn E) (database (snd st)) (keyRange (K p n r @ [NIL]) (K p n r @ [ESCAPE]) (Some mailboxPageSize) False) = []"
    by (rule range_none) (use assms(2) sect_range [OF r] in blast)
  have "visitLoop (message_txn E) index visit (K p n r @ [NIL]) (K p n r @ [ESCAPE]) st = Some (Inr st)"
    unfolding visitLoop.simps [of "message_txn E" index visit "K p n r @ [NIL]"] Let_def rows by (simp add: mailboxPageSize_def)
  then show ?thesis by (simp add: visitIndex_def range liftMessageKey_def liftMessage_def liftKey_def)
qed

lemma saveReply_first:
  assumes Q: "mailbox_at Q p" and wf: "wellFormed (reply_requestId reply)" "wellFormed (reply_id reply)"
    and n: "bigIntOf (reply_id reply) = Inr n" "smallInt n" "smallInt (reply_sequence reply)" and chunk: "reply_kind reply = Chunk"
    and w: "writable (text_encode (encodeJson (replyJson E) reply))"
    and empty: "\<And>k. prefix p k \<Longrightarrow> rows E m k = None" "stampsOk (order_state m)"
  obtains m' st where "saveReply E reply Q m = Some (Inr ((), m'))" "readState E Q (reply_requestId reply) m' = Inr st" "unacked st = 1"
proof -
  let ?T = "message_txn E" and ?i = "reply_requestId reply" and ?r = "reply_id reply"
  let ?u = "sequenceKey p ?i (Some (reply_sequence reply))"
  note at = mailbox_atD [OF Q]
  note lift = liftMessageKey_def liftMessage_def liftKey_def
  have pack: "subspace_pack sub path = Inr (K p name path)" if "at_section p name [] sub" "list_all packable path" for sub name path
    using at_prefix [OF that(1)] that(2) by (simp add: pack_at)
  have none: "readRecord ?T J (database m) (K p name path) = Inr None" for J :: "'x json_codec" and name path
    by (rule readRecord_None) (simp add: empty(1))
  have known: "record_read ?T (replyMetaJson E) (replyMetadata_sub Q) [Str ?i, Str ?r] m = Inr None"
    using pack [OF at(6), of "[Str ?i, Str ?r]"] wf by (simp add: record_read_def lift none)
  have state: "readState E Q ?i m = Inr initialState"
    using pack [OF at(3), of "[Str ?i]"] wf by (simp add: readState_def record_read_def lift none)
  have seq: "replySequence reply = Some (reply_sequence reply)" using chunk by (simp add: replySequence_def)
  have unique: "uniqueKey Q ?i (replySequence reply) = Inr ?u"
    using pack [OF at(8), of "[Str ?i, BigInt (reply_sequence reply)]"] wf n by (simp add: uniqueKey_def lift seq)
  have u: "sect p ''reply-unique'' ?u" using sect_K(4) [OF wf(1) n(3)] by blast
  obtain st m1 where ins: "insertReply E Q reply ?u initialState m = Inr (st, m1)"
    and t: "touches ?T p {''reply'', ''reply-meta'', ''replies'', ''reply-unique'', ''state''} m m1"
    using insertReply_ok [OF Q wf n(1,2) w, of ?u initialState m] u by blast
  have st: "unacked st = 1" using insertReply_steps(3) [OF ins Q empty(2) unique] chunk by (simp add: initialState_def)
  obtain index where index: "subspace (messagesByRequest_sub Q) [Str ?i] = Inr index"
    using wf by (auto simp: subspace_def packTrackedSync_enc)
  have "at_section p ''request'' ([] @ [Str ?i]) index" by (rule subspace_strings [OF index at(11)]) simp
  then have "visitIndex ?T index visit ((), m1) = Some (Inr ((), m1))" if "\<And>k. sect p ''request'' k \<Longrightarrow> rows E m1 k = None" for visit
    by (rule visitIndex_empty) (unfold snd_conv, rule that)
  moreover have "rows E m1 k = None" if "sect p ''request'' k" for k
    using touches_get [OF t empty(2) that] empty(1) [OF inRange_prefix [OF that]] by simp
  ultimately have visited: "visitIndex ?T index visit ((), m1) = Some (Inr ((), m1))" for visit by blast
  have lifted: "liftMessageKey (subspace (messagesByRequest_sub Q) [Str ?i]) = Inr index" using index by simp
  have up: "updateRequest E Q ?i update m1 = Some (Inr m1)" for update
    unfolding updateRequest_def lifted bindO_simps visited prod.case unit.case ..
  have "rows E m ?u = None" by (rule empty(1)) simp
  then have saved: "saveReply E reply Q m = Some (Inr ((), m1))"
    using known state unique ins up chunk by (simp add: saveReply_def initialState_def)
  have "rows E m1 (stateKey p ?i) = Some (stateRow E st)"
    using insertReply_steps(4) [OF ins Q empty(2) unique, of "''state''" "stateKey p ?i"] sect_K(1) [OF wf(1)]
    by (simp add: replySections_def requestRows_def)
  then have "readState E Q ?i m1 = Inr st"
    using pack [OF at(3), of "[Str ?i]"] wf readRecord_Some [of "stateJson E" ?T "database m1" "stateKey p ?i" st]
    by (simp add: readState_def record_read_def lift)
  with saved st show thesis using that by blast
qed

end

text \<open>The first chunk of the request 1, with the id 2.\<close>

definition firstChunk :: "unit reply" where
  "firstChunk = \<lparr>reply_kind = Chunk, reply_id = js ''2'', reply_requestId = js ''1'', reply_sequence = 0, reply_rest = ()\<rparr>"

lemma makeMessageSubspaces_ok: "\<exists>Q. makeMessageSubspaces directory = Inr Q"
  by (simp add: makeMessageSubspaces_def Let_def liftMessageKey_def liftMessage_def liftKey_def subspace_def packTrackedSync_enc)

lemma opensMailbox_mem: "opensMailbox memMailbox [9]"
  by (simp add: opensMailbox_def memMailbox_def openedRoot_def)

lemma mailbox_run_mem: "makeMessageSubspaces (fromBytes [9]) = Inr Q \<Longrightarrow> mailbox_run memMailbox f m = f Q m"
  by (simp add: mailbox_run_def memMailbox_def openedRoot_def liftMessage_def)

theorem replies_are_accounted_witness:
  "\<exists>Q m st. mailbox_run memMailbox (saveReply memMailbox firstChunk) \<lparr>database = [], order_state = emptyAttempt\<rparr> = Some (Inr ((), m))
     \<and> makeMessageSubspaces (fromBytes [9]) = Inr Q \<and> readState memMailbox Q (js ''1'') m = Inr st
     \<and> unacked st = 1 \<and> card (waitingChunks memMailbox Q (js ''1'') m) = 1"
proof -
  let ?m = "\<lparr>database = [], order_state = emptyAttempt\<rparr> :: mem mailbox"
  obtain Q where Q: "makeMessageSubspaces (fromBytes [9]) = Inr Q" using makeMessageSubspaces_ok by blast
  have at: "mailbox_at Q [9]" using makeMessageSubspaces_at [OF Q] by (simp add: fromBytes_def)
  have id: "bigIntOf (reply_id firstChunk) = Inr 2" by code_simp
  have small: "smallInt 2" "smallInt (reply_sequence firstChunk)" by code_simp+
  have "length (text_encode (encodeJson replyCodec firstChunk)) \<le> chunkSize" by code_simp
  then have w: "writable (text_encode (encodeJson (replyJson memMailbox) firstChunk))"
    using writable_small by (simp add: memMailbox_def)
  have wf: "wellFormed (reply_requestId firstChunk)" "wellFormed (reply_id firstChunk)" by (simp_all add: firstChunk_def)
  have none: "rows memMailbox ?m k = None" for k by (simp add: memMailbox_def mem_get)
  obtain m st where m: "saveReply memMailbox firstChunk Q ?m = Some (Inr ((), m))"
    and st: "readState memMailbox Q (reply_requestId firstChunk) m = Inr st" "unacked st = 1"
    by (rule memMailbox.saveReply_first [OF at wf id small _ w none]) (simp_all add: firstChunk_def stampsOk_empty)
  have run: "mailbox_run memMailbox (saveReply memMailbox firstChunk) ?m = Some (Inr ((), m))"
    using m by (simp add: mailbox_run_mem [OF Q])
  have "mailbox_reachable memMailbox [9] m"
    by (rule mailbox_next [OF mailbox_empty op_saveReply [OF run]]) (simp add: memMailbox_def mem_get)
  from replies_are_accounted [OF memMailbox.mailbox_store_axioms opensMailbox_mem this Q st(1)]
  have "int (card (waitingChunks memMailbox Q (js ''1'') m)) = 1" using st(2) by (simp add: firstChunk_def)
  then show ?thesis using run Q st by (auto simp: firstChunk_def)
qed

end
