(* ===== verification/Spec2Isabelle.thy ===== *)
theory Spec2Isabelle
  imports Tuple_Properties Queue_Properties Runner_Properties Rate_Properties Directory_Properties Directory_Returns Transaction_Properties Key_Value_Properties Directory_Store Event_Properties Persistence_Replay Message_Properties
begin

text \<open>
  A verification of foundationdb-effect, the FoundationDB client and the storage backends for Effect under
  src/src/.

  \<^bold>\<open>The program.\<close> A tuple codec (tuple/) packs values into byte strings whose order is the order of the values; a
  subspace is a prefix under which tuples are keys. FoundationDb.ts runs an effect in a transaction and retries it.
  The directory layer (directory/) maps paths to short prefixes that never overlap. On a directory each store keeps
  rows in named sections: the persisted queue (persisted-queue/), the runner storage and the mailbox of the cluster
  runtime (cluster/), the rate limiter, the key-value store and the backing persistence (persistence/), and the
  storage of the event-log servers (eventlog/). Every operation of a store is the body of one transaction or of a
  sequence of them; it opens its directory, makes its subspaces and reads and writes rows.

  \<^bold>\<open>How code is modelled.\<close> A transaction is a record \<open>'s txn\<close> of the operations that a transaction offers, over a
  state \<open>'s\<close> that is passed through (theory Fdb). The locale \<open>fdb\<close> states what FoundationDB documents of them,
  and \<open>fdb_stamped\<close> (Message_Frame) adds what a transaction can still read after a versionstamped mutation; both
  are interpreted on a transaction in memory, \<open>mem_txn\<close>, which the witnesses run. An operation that can fail
  returns \<open>error + 'a\<close>; a loop that is not known to end is a \<open>partial_function (option)\<close>, so that not returning
  is \<open>None\<close>. Strings are lists of 16-bit code units with the runtime's conversions to and from UTF-8 (Js_Text),
  bytes are 8-bit words, JavaScript's bigints and times are integers, and numbers that are fractions are rationals.

  \<^bold>\<open>Theories and sources.\<close>
  \<^item> Prelude, Js_Text: results that may fail, loops over arrays, \<open>TextEncoder\<close> and \<open>TextDecoder\<close>.
  \<^item> Tuple_Bytes, Tuple_Values, Tuple_Codec, Subspaces: tuple/bytes.ts, values.ts, codec.ts, Subspace.ts.
    Tuple_Encoding, Tuple_Order, Tuple_Roundtrip, Tuple_Properties: the encoding as a pure function, the order of
    the wire format, the parser as the inverse of the packer, key ranges.
  \<^item> Fdb, Transactions, Transaction_Properties: model.ts, errors.ts, FoundationDb.ts and the interface of
    internal/native.ts; the loop of attempts applies an effect at most once when it must, says when it may have
    been applied, and ends.
  \<^item> Chunked_Value, Keyed_Rows, Stored_Records, Stored_Values, Sample_Codecs: internal/chunked-value.ts and the
    facts about rows, records and chunked values that all stores share; codecs for the witnesses.
  \<^item> Queue_Repository: persisted-queue/repository.ts. Queue_Invariant, Queue_Operations, Queue_Cleanup,
    Queue_Behaviour, Queue_Delivery, Queue_Properties: where the rows of an entry are in each of its states, what
    every operation keeps of that, locks, delivery and cleanup.
  \<^item> Store_Roots, Runner_Storage, Runner_Properties, Rate_Limiter, Rate_Properties: cluster/runner-storage.ts and
    persistence/rate-limiter.ts; exclusive leases, unique machine ids, the rate of a bucket, the phases of the
    adaptive limiter.
  \<^item> Directory_Layer, Directory_Engine, Directory_Api: directory/model.ts, internal.ts, allocator.ts, engine.ts.
    Directory_Tree gives the tree that the rows describe; Directory_Operations, Directory_Allocation,
    Directory_Create, Directory_Changes, Directory_Success, Directory_Properties, Directory_Returns show that the
    operations refine operations of that tree, that prefixes never overlap and that the allocator never repeats.
  \<^item> Directory_Store: persistence/internal.ts, the directories of the stores and why they keep apart.
  \<^item> Key_Value_Store, Key_Value_Properties: persistence/key-value-store.ts, a finite map with a counter.
  \<^item> Event_Repository, Event_Servers, Event_Log, Event_Properties: eventlog/internal.ts, server-encrypted.ts,
    server-unencrypted.ts; the log as a list of entries and the feed of a subscriber.
  \<^item> Backing_Persistence, Persistence_Operations: persistence/backing-persistence.ts. Persistence_State,
    Persistence_Invariant, Persistence_Cleanup, Persistence_Writes, Persistence_Publish, Persistence_History,
    Persistence_Properties, Persistence_Replay: the invariant of a store, writes in one or in staged transactions,
    a history of operations as a map whose entries expire, the end of the cleanup, a publication that is run twice.
  \<^item> Message_Data, Message_Order, Message_Readiness, Message_Storage, Message_Operations: cluster/errors.ts,
    message-subspaces.ts, message-readiness.ts, message-order.ts, message-storage.ts. Message_Frame, Message_Visits,
    Message_Sections, Message_Properties: which sections the steps and the loops change, and when a message is
    offered.

  \<^bold>\<open>Interfaces.\<close> A locale stands where a component relies on another: \<open>fdb\<close> for the stores, a codec of tuples
  for the subspaces, \<open>steps\<close> and \<open>visit_steps\<close> for what the loops of the mailbox keep. Each is interpreted on the
  definitions that the code uses.

  \<^bold>\<open>Parameters.\<close> What is not in the repository is an argument: the database and its driver, the JSON schemas
  and the binary codecs of the libraries (with the law that decoding inverts encoding), \<open>JSON.stringify\<close> and
  \<open>JSON.parse\<close>, clocks, random words and identities, SHA-256, \<open>ShardId.toString\<close>, the entries and the compaction
  of the event-log library, and, in the stores, the function that opens the directory of the store; Directory_Store
  models that function. A property with such a hypothesis has a witness with concrete functions.

  \<^bold>\<open>Bounds.\<close> Page sizes (64, 100, 256) and the budgets of staged writes are the code's. The integers of the tuple
  format are those of at most 255 bytes, as in the code, which rejects larger ones; versionstamps keep their widths
  of 10 and 2 bytes, and the counter of the key-value store wraps at 64 bits. Where fuel is used, the amount is
  the length of the list that is cut up, so that none is left over; elsewhere a loop ends by its measure or is shown
  to return.

  \<^bold>\<open>Not modelled.\<close> internal/ffi.ts and the Rust library it calls are pointers, callbacks and buffers of the foreign
  function interface; the driver they implement is a parameter of Transactions. persisted-queue/mod.ts is fibers,
  latches, schedules and races around the repository. eventlog/journal.ts and journal-order.ts run the handlers of
  the event-log library in their transactions. Streams, tracing and the schedules that repeat a cleanup belong to the
  Effect runtime; the layers and the decoded adapters (\<open>makeMessageStorage\<close>, \<open>MessageStorage.makeEncoded\<close>) only
  call the libraries. Re-exporting files, the examples and the tests hold no logic of the program.
\<close>

end
